(* ===== verification/Prelude.thy ===== *)
theory Prelude
  imports Main "HOL-Library.Word" "HOL-Library.Multiset"
begin

text \<open>
  Shared vocabulary of the development: the names of the machine types of
  \<^verbatim>\<open>libs/defs.h\<close>, the error codes of \<^verbatim>\<open>libs/error.h\<close>, the outcome type of
  kernel code that can panic, byte-addressed memory, and the generic lemmas on
  lists, words and outcomes that the component theories use.
\<close>

unbundle bit_operations_syntax

type_synonym u8 = "8 word"
type_synonym u16 = "16 word"
type_synonym u32 = "32 word"
type_synonym u64 = "64 word"

text \<open>Memory as the string routines see it: a byte for every address.\<close>

type_synonym mem = "nat \<Rightarrow> u8"

text \<open>\<^verbatim>\<open>libs/hash.c\<close>.\<close>

definition hash32 :: "u32 \<Rightarrow> nat \<Rightarrow> u32" where
  "hash32 val bits = drop_bit (32 - bits) (val * 0x9e370001)"

named_theorems kernel_defs \<open>definitions of straight-line kernel code, unfolded by the proofs\<close>
named_theorems frame_simps \<open>what an operation leaves unchanged\<close>

subsection \<open>Outcomes: a value, or a failed assertion or panic\<close>

text \<open>
  \<open>assert\<close> and \<open>panic\<close> of \<^verbatim>\<open>libs/assert.h\<close> stop the machine. A routine that can do so
  returns \<open>Panic\<close>; a routine that returns gives \<open>Ret\<close> of its result.
\<close>

datatype 'a outcome = Panic | Ret (the_ret: 'a)

fun bind_outcome :: "'a outcome \<Rightarrow> ('a \<Rightarrow> 'b outcome) \<Rightarrow> 'b outcome" where
  "bind_outcome Panic f = Panic"
| "bind_outcome (Ret x) f = f x"

definition assert_then :: "bool \<Rightarrow> 'a outcome \<Rightarrow> 'a outcome" where
  "assert_then b r = (if b then r else Panic)"

lemma bind_outcome_Ret_iff [simp]:
  "bind_outcome r f = Ret y \<longleftrightarrow> (\<exists>x. r = Ret x \<and> f x = Ret y)"
  by (cases r) auto

lemma assert_then_Ret_iff [simp]: "assert_then b r = Ret y \<longleftrightarrow> b \<and> r = Ret y"
  by (simp add: assert_then_def)

lemma assert_then_True [simp]: "assert_then True r = r"
  by (simp add: assert_then_def)

lemma assert_then_False [simp]: "assert_then False r = Panic"
  by (simp add: assert_then_def)

lemma not_Panic_iff: "r \<noteq> Panic \<longleftrightarrow> (\<exists>x. r = Ret x)"
  by (cases r) auto

text \<open>A routine whose loop never ends does not return, like one that panics.\<close>

fun of_option :: "'a option \<Rightarrow> 'a outcome" where
  "of_option None = Panic"
| "of_option (Some x) = Ret x"

lemma of_option_Ret_iff [simp]: "of_option r = Ret x \<longleftrightarrow> r = Some x"
  by (cases r) auto

subsection \<open>Error codes of libs/error.h\<close>

text \<open>Kernel routines return \<open>0\<close> or a negated error code.\<close>

definition E_UNSPECIFIED :: int where "E_UNSPECIFIED = 1"
definition E_BAD_PROC :: int where "E_BAD_PROC = 2"
definition E_INVAL :: int where "E_INVAL = 3"
definition E_NO_MEM :: int where "E_NO_MEM = 4"
definition E_NO_FREE_PROC :: int where "E_NO_FREE_PROC = 5"
definition E_INVAL_ELF :: int where "E_INVAL_ELF = 8"
definition E_KILLED :: int where "E_KILLED = 9"
definition E_TOO_BIG :: int where "E_TOO_BIG = 12"
definition E_NO_DEV :: int where "E_NO_DEV = 13"
definition E_NA_DEV :: int where "E_NA_DEV = 14"
definition E_BUSY :: int where "E_BUSY = 15"
definition E_NOENT :: int where "E_NOENT = 16"
definition E_ISDIR :: int where "E_ISDIR = 17"
definition E_NOTDIR :: int where "E_NOTDIR = 18"
definition E_UNIMP :: int where "E_UNIMP = 20"
definition E_MAX_OPEN :: int where "E_MAX_OPEN = 22"
definition E_EXISTS :: int where "E_EXISTS = 23"
definition E_NOTEMPTY :: int where "E_NOTEMPTY = 24"
definition MAXERROR :: int where "MAXERROR = 24"

lemmas error_codes =
  E_UNSPECIFIED_def E_BAD_PROC_def E_INVAL_def E_NO_MEM_def E_NO_FREE_PROC_def
  E_INVAL_ELF_def E_KILLED_def E_TOO_BIG_def E_NO_DEV_def E_NA_DEV_def E_BUSY_def E_NOENT_def
  E_ISDIR_def E_NOTDIR_def E_UNIMP_def E_MAX_OPEN_def E_EXISTS_def E_NOTEMPTY_def MAXERROR_def

subsection \<open>Rounding macros of libs/defs.h\<close>

definition ROUNDDOWN :: "u32 \<Rightarrow> u32 \<Rightarrow> u32" where
  "ROUNDDOWN a n = a - a mod n"

definition ROUNDUP :: "u32 \<Rightarrow> u32 \<Rightarrow> u32" where
  "ROUNDUP a n = ROUNDDOWN (a + n - 1) n"

definition ROUNDUP_DIV :: "u32 \<Rightarrow> u32 \<Rightarrow> u32" where
  "ROUNDUP_DIV a n = (a + n - 1) div n"

subsection \<open>Lists\<close>

lemma remove1_split:
  assumes "distinct (xs @ a # ys)"
  shows "remove1 a (xs @ a # ys) = xs @ ys"
  using assms by (simp add: remove1_append)

lemma takeWhile_append_stop:
  "\<lbrakk>\<forall>x \<in> set xs. P x; \<not> P y\<rbrakk> \<Longrightarrow> takeWhile P (xs @ y # ys) = xs"
  by (induction xs) auto

lemma dropWhile_append_stop:
  "\<lbrakk>\<forall>x \<in> set xs. P x; \<not> P y\<rbrakk> \<Longrightarrow> dropWhile P (xs @ y # ys) = y # ys"
  by (induction xs) auto

lemma find_append: "find P (xs @ ys) = (case find P xs of None \<Rightarrow> find P ys | Some x \<Rightarrow> Some x)"
  by (induction xs) auto

lemma find_map_Some: "find P (map Some xs) = map_option Some (find (\<lambda>x. P (Some x)) xs)"
  by (induction xs) auto

lemma sum_list_update:
  fixes xs :: "nat list"
  shows "i < length xs \<Longrightarrow> sum_list (xs[i := v]) + xs ! i = sum_list xs + v"
proof (induction xs arbitrary: i)
  case (Cons x xs)
  show ?case
  proof (cases i)
    case (Suc j)
    with Cons.IH [of j] Cons.prems show ?thesis by simp
  qed simp
qed simp

subsection \<open>Words\<close>

lemma unat_u32_less: "unat (x :: u32) < 2 ^ 32"
  using unsigned_less [where 'a = nat, of x] by simp

lemma unat_of_nat_u32: "n < 2 ^ 32 \<Longrightarrow> unat (of_nat n :: u32) = n"
  by (simp add: unat_of_nat)

lemma of_nat_u32_0: "(of_nat n :: u32) = 0 \<Longrightarrow> n < 2 ^ 32 \<Longrightarrow> n = 0"
  using unat_of_nat_u32 [of n] by simp

lemma unat_pos: "0 < x \<Longrightarrow> 0 < unat (x :: u32)"
  by (simp add: unat_gt_0 word_greater_zero_iff)

lemma unat_sub_mono: "b \<le> a \<Longrightarrow> unat (a - b) = unat a - unat b" for a b :: "'a::len word"
  by (rule unat_sub)

lemma unat_ROUNDDOWN: "unat (ROUNDDOWN a n) = unat a - unat a mod unat n"
proof -
  have "a mod n \<le> a"
    by (simp add: word_le_nat_alt unat_mod)
  then show ?thesis
    by (simp add: ROUNDDOWN_def unat_sub unat_mod)
qed

end
