(* ===== verification/CStrings.thy ===== *)
theory CStrings
  imports Prelude
begin

text \<open>
  The string library \<^verbatim>\<open>libs/string.c\<close> over byte-addressed memory, and the
  hand-written x86 versions of \<^verbatim>\<open>libs/x86.h\<close> that replace some of its bodies
  (\<open>__HAVE_ARCH_*\<close>). A pointer is a number; a routine that writes returns the new
  memory. Loops that stop only at a NUL byte are \<open>partial_function (option)\<close>:
  \<open>None\<close> is a scan that never ends.
\<close>

subsection \<open>Scanning\<close>

partial_function (option) strlen_loop :: "mem \<Rightarrow> nat \<Rightarrow> nat \<Rightarrow> nat option" where
  "strlen_loop m s cnt = (if m s \<noteq> 0 then strlen_loop m (s + 1) (cnt + 1) else Some cnt)"

definition strlen :: "mem \<Rightarrow> nat \<Rightarrow> nat option" where
  "strlen m s = strlen_loop m s 0"

function strnlen_loop :: "mem \<Rightarrow> nat \<Rightarrow> nat \<Rightarrow> nat \<Rightarrow> nat" where
  "strnlen_loop m s len cnt =
     (if cnt < len \<and> m s \<noteq> 0 then strnlen_loop m (s + 1) len (cnt + 1) else cnt)"
  by pat_completeness auto
termination
  by (relation "measure (\<lambda>(m, s, len, cnt). len - cnt)") auto

declare strnlen_loop.simps [simp del]

definition strnlen :: "mem \<Rightarrow> nat \<Rightarrow> nat \<Rightarrow> nat" where
  "strnlen m s len = strnlen_loop m s len 0"

partial_function (option) strchr :: "mem \<Rightarrow> nat \<Rightarrow> u8 \<Rightarrow> nat option option" where
  "strchr m s c =
     (if m s \<noteq> 0 then (if m s = c then Some (Some s) else strchr m (s + 1) c)
      else Some None)"

partial_function (option) strfind :: "mem \<Rightarrow> nat \<Rightarrow> u8 \<Rightarrow> nat option" where
  "strfind m s c =
     (if m s \<noteq> 0 then (if m s = c then Some s else strfind m (s + 1) c) else Some s)"

subsection \<open>Copying\<close>

partial_function (option) strcpy_loop :: "mem \<Rightarrow> nat \<Rightarrow> nat \<Rightarrow> mem option" where
  "strcpy_loop m p src =
     (let b = m src; m' = m(p := b)
      in if b \<noteq> 0 then strcpy_loop m' (p + 1) (src + 1) else Some m')"

definition strcpy :: "mem \<Rightarrow> nat \<Rightarrow> nat \<Rightarrow> mem option" where
  "strcpy m dst src = strcpy_loop m dst src"

definition strcat :: "mem \<Rightarrow> nat \<Rightarrow> nat \<Rightarrow> mem option" where
  "strcat m dst src =
     (case strlen m dst of None \<Rightarrow> None | Some n \<Rightarrow> strcpy m (dst + n) src)"

fun strncpy :: "mem \<Rightarrow> nat \<Rightarrow> nat \<Rightarrow> nat \<Rightarrow> mem" where
  "strncpy m p src 0 = m"
| "strncpy m p src (Suc len) =
     (let b = m src; m' = m(p := b)
      in strncpy m' (p + 1) (if b \<noteq> 0 then src + 1 else src) len)"

fun memset :: "mem \<Rightarrow> nat \<Rightarrow> u8 \<Rightarrow> nat \<Rightarrow> mem" where
  "memset m p c 0 = m"
| "memset m p c (Suc n) = memset (m(p := c)) (p + 1) c n"

fun copy_up :: "mem \<Rightarrow> nat \<Rightarrow> nat \<Rightarrow> nat \<Rightarrow> mem" where
  "copy_up m d s 0 = m"
| "copy_up m d s (Suc n) = copy_up (m(d := m s)) (d + 1) (s + 1) n"

text \<open>The descending loop of \<open>memmove\<close>: both pointers start \<open>n\<close> bytes up.\<close>

fun copy_down :: "mem \<Rightarrow> nat \<Rightarrow> nat \<Rightarrow> nat \<Rightarrow> mem" where
  "copy_down m d s 0 = m"
| "copy_down m d s (Suc n) = copy_down (m(d - 1 := m (s - 1))) (d - 1) (s - 1) n"

definition memmove :: "mem \<Rightarrow> nat \<Rightarrow> nat \<Rightarrow> nat \<Rightarrow> mem" where
  "memmove m dst src n =
     (if src < dst \<and> src + n > dst then copy_down m (dst + n) (src + n) n
      else copy_up m dst src n)"

definition memcpy :: "mem \<Rightarrow> nat \<Rightarrow> nat \<Rightarrow> nat \<Rightarrow> mem" where
  "memcpy m dst src n = copy_up m dst src n"

subsection \<open>Comparing\<close>

definition byte_diff :: "u8 \<Rightarrow> u8 \<Rightarrow> int" where
  "byte_diff a b = int (unat a) - int (unat b)"

partial_function (option) strcmp :: "mem \<Rightarrow> nat \<Rightarrow> nat \<Rightarrow> int option" where
  "strcmp m s1 s2 =
     (if m s1 \<noteq> 0 \<and> m s1 = m s2 then strcmp m (s1 + 1) (s2 + 1)
      else Some (byte_diff (m s1) (m s2)))"

fun strncmp :: "mem \<Rightarrow> nat \<Rightarrow> nat \<Rightarrow> nat \<Rightarrow> int" where
  "strncmp m s1 s2 0 = 0"
| "strncmp m s1 s2 (Suc n) =
     (if m s1 \<noteq> 0 \<and> m s1 = m s2 then strncmp m (s1 + 1) (s2 + 1) n
      else byte_diff (m s1) (m s2))"

fun memcmp :: "mem \<Rightarrow> nat \<Rightarrow> nat \<Rightarrow> nat \<Rightarrow> int" where
  "memcmp m v1 v2 0 = 0"
| "memcmp m v1 v2 (Suc n) =
     (if m v1 \<noteq> m v2 then byte_diff (m v1) (m v2) else memcmp m (v1 + 1) (v2 + 1) n)"

subsection \<open>Numbers\<close>

definition dig_of :: "u8 \<Rightarrow> int option" where
  "dig_of c =
     (if 48 \<le> c \<and> c \<le> 57 then Some (int (unat c) - 48)
      else if 97 \<le> c \<and> c \<le> 122 then Some (int (unat c) - 97 + 10)
      else if 65 \<le> c \<and> c \<le> 90 then Some (int (unat c) - 65 + 10)
      else None)"

partial_function (option) skip_blanks :: "mem \<Rightarrow> nat \<Rightarrow> nat option" where
  "skip_blanks m s = (if m s = 32 \<or> m s = 9 then skip_blanks m (s + 1) else Some s)"

text \<open>The value is a 32-bit \<open>long\<close>; the source does not detect its overflow.\<close>

partial_function (option) strtol_digits ::
    "mem \<Rightarrow> nat \<Rightarrow> int \<Rightarrow> u32 \<Rightarrow> (u32 \<times> nat) option" where
  "strtol_digits m s base val =
     (case dig_of (m s) of
        None \<Rightarrow> Some (val, s)
      | Some dig \<Rightarrow>
          if dig \<ge> base then Some (val, s)
          else strtol_digits m (s + 1) base (val * word_of_int base + word_of_int dig))"

definition strtol :: "mem \<Rightarrow> nat \<Rightarrow> int \<Rightarrow> (u32 \<times> nat) option" where
  "strtol m s0 base0 =
     (case skip_blanks m s0 of None \<Rightarrow> None | Some s1 \<Rightarrow>
       let neg = (m s1 = 45);
           s2 = (if m s1 = 43 then s1 + 1 else if m s1 = 45 then s1 + 1 else s1);
           (s3, base) =
             (if (base0 = 0 \<or> base0 = 16) \<and> m s2 = 48 \<and> m (s2 + 1) = 120 then (s2 + 2, 16)
              else if base0 = 0 \<and> m s2 = 48 then (s2 + 1, 8)
              else if base0 = 0 then (s2, 10)
              else (s2, base0))
       in case strtol_digits m s3 base 0 of None \<Rightarrow> None
          | Some (val, e) \<Rightarrow> Some (if neg then - val else val, e))"

subsection \<open>The x86 versions of libs/x86.h\<close>

text \<open>
  \<open>lodsb; stosb; testb; jne\<close>: the same loop as the portable \<open>strcpy\<close>, one byte per
  round through \<open>al\<close>.
\<close>

partial_function (option) arch_strcpy :: "mem \<Rightarrow> nat \<Rightarrow> nat \<Rightarrow> mem option" where
  "arch_strcpy m edi esi =
     (let al = m esi; m' = m(edi := al)
      in if al = 0 then Some m' else arch_strcpy m' (edi + 1) (esi + 1))"

text \<open>
  \<open>lodsb; scasb; jne 2f; testb; jne 1b\<close>: \<open>scasb\<close> compares \<open>al\<close> with the byte of
  \<open>s2\<close> and sets the carry flag when \<open>al\<close> is below it; \<open>sbbl\<close> and \<open>orb $1\<close> turn
  the carry into \<open>-1\<close> or \<open>1\<close>.
\<close>

partial_function (option) arch_strcmp :: "mem \<Rightarrow> nat \<Rightarrow> nat \<Rightarrow> int option" where
  "arch_strcmp m esi edi =
     (let al = m esi
      in if al \<noteq> m edi then Some (if al < m edi then -1 else 1)
         else if al \<noteq> 0 then arch_strcmp m (esi + 1) (edi + 1) else Some 0)"

text \<open>\<open>rep movsl\<close>: a double word is read whole before it is written.\<close>

definition movsl :: "mem \<Rightarrow> nat \<Rightarrow> nat \<Rightarrow> mem" where
  "movsl m d s = m(d := m s, d + 1 := m (s + 1), d + 2 := m (s + 2), d + 3 := m (s + 3))"

fun rep_movsl :: "mem \<Rightarrow> nat \<Rightarrow> nat \<Rightarrow> nat \<Rightarrow> mem" where
  "rep_movsl m d s 0 = m"
| "rep_movsl m d s (Suc n) = rep_movsl (movsl m d s) (d + 4) (s + 4) n"

definition arch_memcpy :: "mem \<Rightarrow> nat \<Rightarrow> nat \<Rightarrow> nat \<Rightarrow> mem" where
  "arch_memcpy m dst src n =
     (let q = n div 4; m' = rep_movsl m dst src q
      in copy_up m' (dst + 4 * q) (src + 4 * q) (n mod 4))"

text \<open>
  \<open>std; rep movsb; cld\<close> with both pointers at the last byte: the descending copy.
\<close>

definition arch_memmove :: "mem \<Rightarrow> nat \<Rightarrow> nat \<Rightarrow> nat \<Rightarrow> mem" where
  "arch_memmove m dst src n =
     (if dst < src then arch_memcpy m dst src n else copy_down m (dst + n) (src + n) n)"

subsection \<open>Byte strings in memory\<close>

fun cstring :: "mem \<Rightarrow> nat \<Rightarrow> u8 list \<Rightarrow> bool" where
  "cstring m s [] \<longleftrightarrow> m s = 0"
| "cstring m s (c # cs) \<longleftrightarrow> c \<noteq> 0 \<and> m s = c \<and> cstring m (s + 1) cs"

lemma cstring_nth: "cstring m s cs \<Longrightarrow> i < length cs \<Longrightarrow> m (s + i) = cs ! i \<and> cs ! i \<noteq> 0"
proof (induction cs arbitrary: s i)
  case (Cons c cs)
  show ?case
  proof (cases i)
    case (Suc j)
    with Cons.IH [of "s + 1" j] Cons.prems show ?thesis by simp
  qed (use Cons.prems in simp)
qed simp

lemma cstring_end: "cstring m s cs \<Longrightarrow> m (s + length cs) = 0"
proof (induction cs arbitrary: s)
  case (Cons c cs)
  from Cons.IH [of "s + 1"] Cons.prems show ?case by simp
qed simp

lemma cstring_cong:
  "(\<And>i. i \<le> length cs \<Longrightarrow> m' (s' + i) = m (s + i)) \<Longrightarrow> cstring m' s' cs = cstring m s cs"
proof (induction cs arbitrary: s s')
  case Nil
  from Nil [of 0] show ?case by simp
next
  case (Cons c cs)
  have "m' (s' + 1 + i) = m (s + 1 + i)" if "i \<le> length cs" for i
    using Cons.prems [of "Suc i"] that by simp
  then have "cstring m' (s' + 1) cs = cstring m (s + 1) cs" by (rule Cons.IH)
  with Cons.prems [of 0] show ?case by simp
qed

lemma strlen_loop_cstring: "cstring m s cs \<Longrightarrow> strlen_loop m s k = Some (k + length cs)"
proof (induction cs arbitrary: s k)
  case Nil
  then show ?case by (subst strlen_loop.simps) simp
next
  case (Cons c cs)
  then show ?case by (subst strlen_loop.simps) simp
qed

lemma strlen_cstring: "cstring m s cs \<Longrightarrow> strlen m s = Some (length cs)"
  by (simp add: strlen_def strlen_loop_cstring)

lemma strnlen_loop_spec:
  "cnt \<le> len \<Longrightarrow> r = strnlen_loop m s len cnt \<Longrightarrow>
     cnt \<le> r \<and> r \<le> len \<and> (\<forall>i. cnt \<le> i \<and> i < r \<longrightarrow> m (s + (i - cnt)) \<noteq> 0) \<and>
     (r < len \<longrightarrow> m (s + (r - cnt)) = 0)"
proof (induction m s len cnt rule: strnlen_loop.induct)
  case (1 m s len cnt)
  show ?case
  proof (cases "cnt < len \<and> m s \<noteq> 0")
    case True
    with "1.prems"(2) have r: "r = strnlen_loop m (s + 1) len (cnt + 1)"
      by (simp add: strnlen_loop.simps [of m s len cnt])
    from True have "cnt + 1 \<le> len" by simp
    from "1.IH" [OF True this r]
    have ih: "cnt + 1 \<le> r" "r \<le> len" "r < len \<longrightarrow> m (s + 1 + (r - (cnt + 1))) = 0"
      and nz: "\<And>i. cnt + 1 \<le> i \<Longrightarrow> i < r \<Longrightarrow> m (s + 1 + (i - (cnt + 1))) \<noteq> 0"
      by auto
    have "m (s + (i - cnt)) \<noteq> 0" if "cnt \<le> i" "i < r" for i
    proof (cases "i = cnt")
      case False
      with that nz [of i] show ?thesis by (simp add: Suc_diff_Suc)
    qed (use True in simp)
    moreover have "s + 1 + (r - (cnt + 1)) = s + (r - cnt)" using ih(1) by simp
    ultimately show ?thesis using ih by auto
  next
    case False
    then have "strnlen_loop m s len cnt = cnt" by (auto simp: strnlen_loop.simps [of m s len cnt])
    with False "1.prems" show ?thesis by auto
  qed
qed

lemma strnlen_bounds: "strnlen m s len \<le> len"
  using strnlen_loop_spec [of 0 len "strnlen m s len" m s] by (simp add: strnlen_def)

subsection \<open>Copying refines the ideal block copy\<close>

definition block_copy :: "mem \<Rightarrow> nat \<Rightarrow> nat \<Rightarrow> nat \<Rightarrow> mem" where
  "block_copy m d s n = (\<lambda>a. if d \<le> a \<and> a < d + n then m (s + (a - d)) else m a)"

lemma block_copy_0 [simp]: "block_copy m d s 0 = m"
  by (auto simp: block_copy_def fun_eq_iff)

lemma block_copy_step:
  assumes "d \<le> s \<or> s + Suc n \<le> d"
  shows "block_copy (m(d := m s)) (d + 1) (s + 1) n = block_copy m d s (Suc n)"
proof
  fix a
  show "block_copy (m(d := m s)) (d + 1) (s + 1) n a = block_copy m d s (Suc n) a"
  proof (cases "d < a \<and> a < d + Suc n")
    case True
    with assms have "s + 1 + (a - (d + 1)) = s + (a - d)" "s + (a - d) \<noteq> d" by auto
    with True show ?thesis by (simp add: block_copy_def)
  next
    case False
    then show ?thesis by (auto simp: block_copy_def)
  qed
qed

lemma copy_up_block: "d \<le> s \<or> s + n \<le> d \<Longrightarrow> copy_up m d s n = block_copy m d s n"
proof (induction n arbitrary: m d s)
  case (Suc n)
  then have "copy_up (m(d := m s)) (d + 1) (s + 1) n = block_copy (m(d := m s)) (d + 1) (s + 1) n"
    by (intro Suc.IH) auto
  with block_copy_step [OF Suc.prems] show ?case by simp
qed simp

lemma block_copy_down_step:
  assumes "s \<le> d \<or> d + Suc n \<le> s"
  shows "block_copy (m(d + n := m (s + n))) d s n = block_copy m d s (Suc n)"
proof
  fix a
  show "block_copy (m(d + n := m (s + n))) d s n a = block_copy m d s (Suc n) a"
  proof (cases "d \<le> a \<and> a < d + n")
    case True
    with assms have "s + (a - d) \<noteq> d + n" by auto
    with True show ?thesis by (simp add: block_copy_def)
  next
    case False
    then show ?thesis by (auto simp: block_copy_def)
  qed
qed

lemma copy_down_block:
  "s \<le> d \<or> d + n \<le> s \<Longrightarrow> copy_down m (d + n) (s + n) n = block_copy m d s n"
proof (induction n arbitrary: m)
  case (Suc n)
  have "copy_down m (d + Suc n) (s + Suc n) (Suc n) =
        copy_down (m(d + n := m (s + n))) (d + n) (s + n) n" by simp
  also have "\<dots> = block_copy (m(d + n := m (s + n))) d s n"
    using Suc.prems by (intro Suc.IH) auto
  also have "\<dots> = block_copy m d s (Suc n)"
    by (rule block_copy_down_step [OF Suc.prems])
  finally show ?case .
qed simp

lemma memmove_block: "memmove m d s n = block_copy m d s n"
  by (auto simp: memmove_def intro!: copy_up_block copy_down_block)

lemma movsl_block: "d \<le> s \<or> s + 4 \<le> d \<Longrightarrow> movsl m d s = copy_up m d s 4"
  by (auto simp: movsl_def numeral_eq_Suc fun_eq_iff)

lemma copy_up_add: "copy_up m d s (j + k) = copy_up (copy_up m d s j) (d + j) (s + j) k"
  by (induction j arbitrary: m d s) auto

lemma rep_movsl_block:
  "d \<le> s \<or> s + 4 * q \<le> d \<Longrightarrow> rep_movsl m d s q = copy_up m d s (4 * q)"
proof (induction q arbitrary: m d s)
  case (Suc q)
  have one: "movsl m d s = copy_up m d s 4"
    using Suc.prems by (intro movsl_block) auto
  have "rep_movsl (copy_up m d s 4) (d + 4) (s + 4) q =
        copy_up (copy_up m d s 4) (d + 4) (s + 4) (4 * q)"
    using Suc.prems by (intro Suc.IH) auto
  then show ?case using copy_up_add [of m d s 4 "4 * q"] by (simp add: one)
qed simp

lemma arch_memcpy_copy_up:
  assumes "d \<le> s \<or> s + n \<le> d"
  shows "arch_memcpy m d s n = copy_up m d s n"
proof -
  have "d \<le> s \<or> s + 4 * (n div 4) \<le> d" using assms by (auto intro: order_trans [OF add_left_mono])
  then have "rep_movsl m d s (n div 4) = copy_up m d s (4 * (n div 4))" by (rule rep_movsl_block)
  then show ?thesis
    using copy_up_add [of m d s "4 * (n div 4)" "n mod 4"]
    by (simp add: arch_memcpy_def Let_def)
qed

lemma arch_memmove_block: "arch_memmove m d s n = block_copy m d s n"
  by (auto simp: arch_memmove_def arch_memcpy_copy_up copy_up_block intro!: copy_down_block)

lemma strcpy_loop_block:
  "cstring m s cs \<Longrightarrow> d + length cs < s \<or> s + length cs < d \<Longrightarrow>
     strcpy_loop m d s = Some (block_copy m d s (Suc (length cs)))"
proof (induction cs arbitrary: m d s)
  case Nil
  then show ?case
    by (subst strcpy_loop.simps) (auto simp: Let_def block_copy_def fun_eq_iff)
next
  case (Cons c cs)
  let ?m = "m(d := m s)"
  have "cstring ?m (s + 1) cs = cstring m (s + 1) cs"
    using Cons.prems(2) by (intro cstring_cong) auto
  with Cons.prems(1) have "cstring ?m (s + 1) cs" by simp
  moreover from Cons.prems(2) have "d + 1 + length cs < s + 1 \<or> s + 1 + length cs < d + 1" by auto
  ultimately have ih: "strcpy_loop ?m (d + 1) (s + 1) =
      Some (block_copy ?m (d + 1) (s + 1) (Suc (length cs)))" by (rule Cons.IH)
  have step: "block_copy ?m (d + 1) (s + 1) (Suc (length cs)) =
      block_copy m d s (Suc (Suc (length cs)))"
    using Cons.prems(2) by (intro block_copy_step) auto
  from Cons.prems(1) have "strcpy_loop m d s = strcpy_loop ?m (d + 1) (s + 1)"
    by (subst strcpy_loop.simps) (simp add: Let_def)
  with ih step show ?case by simp
qed

lemma arch_strcpy_eq: "arch_strcpy m d s = strcpy_loop m d s" if "cstring m s cs"
    "d + length cs < s \<or> s + length cs < d"
  using that
proof (induction cs arbitrary: m d s)
  case Nil
  then show ?case
    by (subst strcpy_loop.simps, subst arch_strcpy.simps) (simp add: Let_def)
next
  case (Cons c cs)
  let ?m = "m(d := m s)"
  have "cstring ?m (s + 1) cs = cstring m (s + 1) cs"
    using Cons.prems(2) by (intro cstring_cong) auto
  with Cons.prems(1) have "cstring ?m (s + 1) cs" by simp
  moreover from Cons.prems(2) have "d + 1 + length cs < s + 1 \<or> s + 1 + length cs < d + 1" by auto
  ultimately have "arch_strcpy ?m (d + 1) (s + 1) = strcpy_loop ?m (d + 1) (s + 1)"
    by (rule Cons.IH)
  then show ?case
    using Cons.prems(1) by (subst strcpy_loop.simps, subst arch_strcpy.simps) (simp add: Let_def)
qed

lemma block_copy_cstring:
  "cstring m s cs \<Longrightarrow> cstring (block_copy m d s (Suc (length cs))) d cs"
  by (subst cstring_cong [where m = m and s = s]) (auto simp: block_copy_def)

lemma strncpy_spec:
  assumes "cstring m s cs" and "d + len \<le> s \<or> s + length cs < d"
  shows "strncpy m d s len =
     (\<lambda>a. if d \<le> a \<and> a < d + len
          then (if a - d < length cs then cs ! (a - d) else 0) else m a)"
  using assms
proof (induction len arbitrary: m d s cs)
  case 0
  then show ?case by (auto simp: fun_eq_iff)
next
  case (Suc len)
  show ?case
  proof (cases cs)
    case Nil
    with Suc.prems have "m s = 0" "cstring (m(d := 0)) s []" by auto
    then have "strncpy m d s (Suc len) = strncpy (m(d := 0)) (d + 1) s len" by (simp add: Let_def)
    moreover have "d + 1 + len \<le> s \<or> s + length ([] :: u8 list) < d + 1"
      using Suc.prems(2) Nil by auto
    moreover have "strncpy (m(d := 0)) (d + 1) s len =
        (\<lambda>a. if d + 1 \<le> a \<and> a < d + 1 + len
             then (if a - (d + 1) < length ([] :: u8 list) then [] ! (a - (d + 1)) else 0)
             else (m(d := 0)) a)"
      by (rule Suc.IH) fact+
    ultimately show ?thesis using Nil by (simp add: fun_eq_iff)
  next
    case (Cons c cs')
    let ?m = "m(d := c)"
    have "cstring ?m (s + 1) cs' = cstring m (s + 1) cs'"
      using Suc.prems(2) Cons by (intro cstring_cong) auto
    with Suc.prems(1) Cons have "cstring ?m (s + 1) cs'" by simp
    moreover from Suc.prems(2) Cons have "d + 1 + len \<le> s + 1 \<or> s + 1 + length cs' < d + 1" by auto
    ultimately have ih: "strncpy ?m (d + 1) (s + 1) len =
        (\<lambda>a. if d + 1 \<le> a \<and> a < d + 1 + len
             then (if a - (d + 1) < length cs' then cs' ! (a - (d + 1)) else 0) else ?m a)"
      by (rule Suc.IH)
    show ?thesis
    proof
      fix a
      show "strncpy m d s (Suc len) a = (if d \<le> a \<and> a < d + Suc len
          then (if a - d < length cs then cs ! (a - d) else 0) else m a)"
        using Suc.prems(1) Cons ih by (cases "a = d") (auto simp: Let_def nth_Cons')
    qed
  qed
qed

subsection \<open>Comparison is the lexicographic order of unsigned bytes\<close>

lemma byte_diff_eq_0 [simp]: "byte_diff a b = 0 \<longleftrightarrow> a = b"
  unfolding byte_diff_def word_unat_eq_iff by linarith

lemma byte_diff_neg: "byte_diff a b < 0 \<longleftrightarrow> a < b"
  unfolding byte_diff_def word_less_nat_alt by linarith

lemma byte_diff_sgn: "sgn (byte_diff a b) = (if a = b then 0 else if a < b then -1 else 1)"
  using byte_diff_neg [of a b] byte_diff_eq_0 [of a b] by (auto simp: sgn_if)

lemma strcmp_cstring:
  "cstring m s1 xs \<Longrightarrow> cstring m s2 ys \<Longrightarrow>
     \<exists>r. strcmp m s1 s2 = Some r \<and> (r = 0 \<longleftrightarrow> xs = ys) \<and>
         (r < 0 \<longleftrightarrow> ord_class.lexordp xs ys)"
proof (induction xs arbitrary: s1 s2 ys)
  case Nil
  then show ?case by (subst strcmp.simps) (cases ys; auto simp: byte_diff_neg word_gt_0)
next
  case (Cons x xs)
  show ?case
  proof (cases ys)
    case Nil
    with Cons.prems show ?thesis by (subst strcmp.simps) (auto simp: byte_diff_neg)
  next
    case ys: (Cons y ys')
    show ?thesis
    proof (cases "x = y")
      case True
      from Cons.prems ys have "cstring m (s1 + 1) xs" "cstring m (s2 + 1) ys'" by auto
      from Cons.IH [OF this] obtain r where r: "strcmp m (s1 + 1) (s2 + 1) = Some r"
        "r = 0 \<longleftrightarrow> xs = ys'" "r < 0 \<longleftrightarrow> ord_class.lexordp xs ys'" by blast
      moreover have "strcmp m s1 s2 = strcmp m (s1 + 1) (s2 + 1)"
        using Cons.prems ys True by (subst strcmp.simps) simp
      ultimately show ?thesis using ys True by auto
    next
      case False
      with Cons.prems ys have "strcmp m s1 s2 = Some (byte_diff x y)"
        by (subst strcmp.simps) auto
      with False ys show ?thesis by (auto simp: byte_diff_neg)
    qed
  qed
qed

lemma arch_strcmp_sgn:
  "cstring m s1 xs \<Longrightarrow> cstring m s2 ys \<Longrightarrow>
     arch_strcmp m s1 s2 = map_option sgn (strcmp m s1 s2)"
proof (induction xs arbitrary: s1 s2 ys)
  case Nil
  then show ?case
    by (subst strcmp.simps, subst arch_strcmp.simps) (auto simp: byte_diff_sgn Let_def)
next
  case (Cons x xs)
  show ?case
  proof (cases "m s1 = m s2")
    case True
    with Cons.prems obtain ys' where "ys = x # ys'" by (cases ys) auto
    with Cons.prems have "arch_strcmp m (s1 + 1) (s2 + 1) = map_option sgn (strcmp m (s1 + 1) (s2 + 1))"
      by (intro Cons.IH) auto
    with True Cons.prems show ?thesis
      by (subst strcmp.simps, subst arch_strcmp.simps) (auto simp: Let_def)
  next
    case False
    then show ?thesis
      by (subst strcmp.simps, subst arch_strcmp.simps) (auto simp: byte_diff_sgn Let_def)
  qed
qed

lemma memcmp_eq_0: "memcmp m v1 v2 n = 0 \<longleftrightarrow> (\<forall>i < n. m (v1 + i) = m (v2 + i))"
proof (induction n arbitrary: v1 v2)
  case (Suc n)
  show ?case
    using Suc.IH [of "v1 + 1" "v2 + 1"] by (auto simp: All_less_Suc2)
qed simp

subsection \<open>Properties\<close>

text \<open>A memory holding the bytes of \<open>cs\<close> and a terminator from address \<open>a\<close> on, and zero elsewhere.\<close>

definition string_at :: "nat \<Rightarrow> u8 list \<Rightarrow> mem" where
  "string_at a cs = (\<lambda>x. if a \<le> x \<and> x < a + length cs then cs ! (x - a) else 0)"

text \<open>C26: memmove copies the n source bytes as they were before the call, whatever the overlap
  of source and destination, and changes nothing else; the x86 string-instruction version
  (four bytes at a time forwards, byte by byte backwards) computes the same memory.\<close>

theorem memmove_copies:
  "memmove m dst src n = (\<lambda>a. if dst \<le> a \<and> a < dst + n then m (src + (a - dst)) else m a) \<and>
   arch_memmove m dst src n = memmove m dst src n"
  by (simp add: arch_memmove_block memmove_block) (simp add: block_copy_def)

text \<open>On NUL-terminated strings strcmp terminates and compares lexicographically by unsigned
  bytes: the result is 0 exactly for equal strings and negative exactly when the first string
  comes first; the x86 version returns the sign of that result.\<close>

theorem strcmp_lexicographic:
  assumes "cstring m s1 xs" "cstring m s2 ys"
  shows "\<exists>r. strcmp m s1 s2 = Some r \<and> arch_strcmp m s1 s2 = Some (sgn r) \<and> (r = 0 \<longleftrightarrow> xs = ys) \<and>
     (r < 0 \<longleftrightarrow> ord_class.lexordp xs ys)"
  using strcmp_cstring [OF assms] arch_strcmp_sgn [OF assms] by auto

theorem strcmp_lexicographic_witness:
  "\<exists>r. strcmp (string_at 0 [97, 98, 0, 97, 99]) 0 3 = Some r \<and> r < 0"
proof -
  have "cstring (string_at 0 [97, 98, 0, 97, 99]) 0 [97, 98]"
    "cstring (string_at 0 [97, 98, 0, 97, 99]) 3 [97, 99]" by (simp_all add: string_at_def)
  from strcmp_lexicographic [OF this] show ?thesis by (auto simp: lexordp_simps)
qed

text \<open>copying a NUL-terminated string to a place that does not overlap it terminates and makes
  the destination the same string, leaving every byte outside the destination as it was; the
  x86 version does the same.\<close>

theorem strcpy_copies:
  assumes "cstring m src cs" "dst + length cs < src \<or> src + length cs < dst"
  shows "\<exists>m'. strcpy_loop m dst src = Some m' \<and> arch_strcpy m dst src = Some m' \<and> cstring m' dst cs \<and>
     (\<forall>a. a < dst \<or> dst + length cs < a \<longrightarrow> m' a = m a)"
  using strcpy_loop_block [OF assms] arch_strcpy_eq [OF assms] block_copy_cstring [OF assms(1), of dst]
  by (auto simp: block_copy_def)

theorem strcpy_copies_witness:
  "\<exists>m'. strcpy_loop (string_at 0 [104, 105]) 10 0 = Some m' \<and> cstring m' 10 [104, 105]"
proof -
  have "cstring (string_at 0 [104, 105]) 0 [104, 105]" by (simp add: string_at_def)
  from strcpy_copies [OF this, of 10] show ?thesis by auto
qed

end
