(* ===== verification/Printf.thy ===== *)
theory Printf
  imports Prelude
begin

text \<open>
  Formatted output, \<^verbatim>\<open>libs/printfmt.c\<close>, with the 64-bit division \<open>do_div\<close> of \<^verbatim>\<open>x86.h\<close>, and the generator of
  \<^verbatim>\<open>libs/rand.c\<close>. \<open>putch\<close> is any function on a state. A string is the list of its characters before the terminating
  zero, with \<open>str\<close> for what memory holds at an address; a \<open>va_list\<close> is the list of the 32-bit slots that are
  left. Taking an argument that is not there is \<open>Panic\<close>, and so is an exception of the processor.
\<close>

subsection \<open>do\_div\<close>

text \<open>\<open>divl\<close> divides \<open>edx:eax\<close>; a quotient that does not fit traps.\<close>

definition divl :: "u32 \<Rightarrow> u32 \<Rightarrow> u32 \<Rightarrow> (u32 \<times> u32) outcome" where
  "divl high low b =
     (let n = unat high * 2 ^ 32 + unat low in
      assert_then (b \<noteq> 0 \<and> n div unat b < 2 ^ 32) (Ret (of_nat (n div unat b), of_nat (n mod unat b))))"

definition do_div :: "u64 \<Rightarrow> u32 \<Rightarrow> (u64 \<times> u32) outcome" where
  "do_div n b =
     (let low = ucast n; high = ucast (drop_bit 32 n);
          upper = (if high \<noteq> 0 then high mod b else high);
          high1 = (if high \<noteq> 0 then high div b else high)
      in assert_then (high \<noteq> 0 \<longrightarrow> b \<noteq> 0)
           (bind_outcome (divl upper low b) (\<lambda>(low1, md). Ret (push_bit 32 (ucast high1) + ucast low1, md))))"

subsection \<open>Numbers\<close>

abbreviation chr :: "char \<Rightarrow> int" where
  "chr c \<equiv> of_char c"

text \<open>A \<open>char\<close> is signed.\<close>

definition schar :: "char \<Rightarrow> int" where
  "schar c = (if (of_char c :: int) < 128 then of_char c else of_char c - 256)"

definition digit_char :: "u32 \<Rightarrow> int" where
  "digit_char d = chr (''0123456789abcdef'' ! unat d)"

fun pads :: "(int \<Rightarrow> 's \<Rightarrow> 's) \<Rightarrow> int \<Rightarrow> nat \<Rightarrow> 's \<Rightarrow> 's" where
  "pads putch c 0 st = st"
| "pads putch c (Suc n) st = pads putch c n (putch c st)"

partial_function (option) printnum :: "(int \<Rightarrow> 's \<Rightarrow> 's) \<Rightarrow> u64 \<Rightarrow> u32 \<Rightarrow> int \<Rightarrow> int \<Rightarrow> 's \<Rightarrow> 's outcome option" where
  "printnum putch num b width padc st =
     (case do_div num b of
        Panic \<Rightarrow> Some Panic
      | Ret (result, md) \<Rightarrow>
          if num \<ge> ucast b then
            Option.bind (printnum putch result b (width - 1) padc st) (\<lambda>r.
              Some (bind_outcome r (\<lambda>st1. Ret (putch (digit_char md) st1))))
          else Some (Ret (putch (digit_char md) (pads putch padc (nat (width - 1)) st))))"

subsection \<open>Arguments\<close>

fun va_u32 :: "u32 list \<Rightarrow> (u32 \<times> u32 list) outcome" where
  "va_u32 [] = Panic"
| "va_u32 (x # ap) = Ret (x, ap)"

fun va_u64 :: "u32 list \<Rightarrow> (u64 \<times> u32 list) outcome" where
  "va_u64 (x # y # ap) = Ret (push_bit 32 (ucast y) + ucast x, ap)"
| "va_u64 _ = Panic"

definition getuint :: "u32 list \<Rightarrow> int \<Rightarrow> (u64 \<times> u32 list) outcome" where
  "getuint ap lflag = (if lflag \<ge> 2 then va_u64 ap else bind_outcome (va_u32 ap) (\<lambda>(x, ap1). Ret (ucast x, ap1)))"

definition getint :: "u32 list \<Rightarrow> int \<Rightarrow> (u64 \<times> u32 list) outcome" where
  "getint ap lflag = (if lflag \<ge> 2 then va_u64 ap else bind_outcome (va_u32 ap) (\<lambda>(x, ap1). Ret (scast x, ap1)))"

subsection \<open>Flags of a conversion\<close>

record fmt_flags =
  padc :: int
  width :: int
  precision :: int
  lflag :: int
  altflag :: bool

definition start_flags :: fmt_flags where
  "start_flags = \<lparr>padc = chr CHR '' '', width = -1, precision = -1, lflag = 0, altflag = False\<rparr>"

definition process_precision :: "fmt_flags \<Rightarrow> fmt_flags" where
  "process_precision f = (if width f < 0 then f\<lparr>width := precision f, precision := -1\<rparr> else f)"

definition is_digit :: "char \<Rightarrow> bool" where
  "is_digit c \<longleftrightarrow> chr CHR ''0'' \<le> chr c \<and> chr c \<le> chr CHR ''9''"

fun digits_loop :: "int \<Rightarrow> string \<Rightarrow> int \<times> string" where
  "digits_loop p [] = (p, [])"
| "digits_loop p (c # cs) = (if is_digit c then digits_loop (p * 10 + chr c - chr CHR ''0'') cs else (p, c # cs))"

lemma digits_loop_length: "length (snd (digits_loop p cs)) \<le> length cs"
  by (induction p cs rule: digits_loop.induct) auto

text \<open>The \<open>switch\<close> up to a conversion: its character (\<open>None\<close> for the end of the string), the flags, and what is left.\<close>

function reswitch :: "fmt_flags \<Rightarrow> string \<Rightarrow> u32 list \<Rightarrow> (char option \<times> fmt_flags \<times> string \<times> u32 list) outcome" where
  "reswitch f [] ap = Ret (None, f, [], ap)"
| "reswitch f (c # cs) ap =
     (if c = CHR ''-'' then reswitch (f\<lparr>padc := chr CHR ''-''\<rparr>) cs ap
      else if c = CHR ''0'' then reswitch (f\<lparr>padc := chr CHR ''0''\<rparr>) cs ap
      else if is_digit c then
        reswitch (process_precision (f\<lparr>precision := fst (digits_loop (chr c - chr CHR ''0'') cs)\<rparr>)) (snd (digits_loop (chr c - chr CHR ''0'') cs)) ap
      else if c = CHR ''*'' then
        (case ap of [] \<Rightarrow> Panic | x # ap1 \<Rightarrow> reswitch (process_precision (f\<lparr>precision := sint x\<rparr>)) cs ap1)
      else if c = CHR ''.'' then reswitch (if width f < 0 then f\<lparr>width := 0\<rparr> else f) cs ap
      else if c = CHR ''#'' then reswitch (f\<lparr>altflag := True\<rparr>) cs ap
      else if c = CHR ''l'' then reswitch (f\<lparr>lflag := lflag f + 1\<rparr>) cs ap
      else Ret (Some c, f, cs, ap))"
  by pat_completeness auto
termination
  by (relation "measure (\<lambda>(f, cs, ap). length cs)") (auto simp: less_Suc_eq_le digits_loop_length)

subsection \<open>Conversions\<close>

text \<open>The characters of a string; those after \<open>precision\<close> are not read.\<close>

fun string_loop :: "(int \<Rightarrow> 's \<Rightarrow> 's) \<Rightarrow> bool \<Rightarrow> string \<Rightarrow> int \<Rightarrow> int \<Rightarrow> 's \<Rightarrow> 's \<times> int" where
  "string_loop putch alt [] prec w st = (st, w)"
| "string_loop putch alt (c # cs) prec w st =
     (if prec < 0 \<or> prec - 1 \<ge> 0 then
        string_loop putch alt cs (if prec < 0 then prec else prec - 1) (w - 1)
          (putch (if alt \<and> (schar c < chr CHR '' '' \<or> schar c > chr CHR ''~'') then chr CHR ''?'' else schar c) st)
      else (st, w))"

definition print_string :: "(int \<Rightarrow> 's \<Rightarrow> 's) \<Rightarrow> fmt_flags \<Rightarrow> string \<Rightarrow> 's \<Rightarrow> 's" where
  "print_string putch f p st =
     (let n = (if precision f < 0 then int (length p) else min (precision f) (int (length p)));
          (st1, w1) = (if width f > 0 \<and> padc f \<noteq> chr CHR ''-''
                       then (pads putch (padc f) (nat (width f - n)) st, min (width f - n) 0)
                       else (st, width f));
          (st2, w2) = string_loop putch (altflag f) p (precision f) w1 st1
      in pads putch (chr CHR '' '') (nat w2) st2)"

definition print_number :: "(int \<Rightarrow> 's \<Rightarrow> 's) \<Rightarrow> u64 \<Rightarrow> u32 \<Rightarrow> fmt_flags \<Rightarrow> u32 list \<Rightarrow> 's \<Rightarrow> ('s \<times> u32 list) outcome option" where
  "print_number putch num b f ap st = map_option (\<lambda>r. bind_outcome r (\<lambda>st1. Ret (st1, ap))) (printnum putch num b (width f) (padc f) st)"

definition print_unsigned :: "(int \<Rightarrow> 's \<Rightarrow> 's) \<Rightarrow> u32 \<Rightarrow> fmt_flags \<Rightarrow> u32 list \<Rightarrow> 's \<Rightarrow> ('s \<times> u32 list) outcome option" where
  "print_unsigned putch b f ap st =
     (case getuint ap (lflag f) of Panic \<Rightarrow> Some Panic | Ret (num, ap1) \<Rightarrow> print_number putch num b f ap1 st)"

text \<open>The conversions other than \<open>%e\<close>; \<open>None\<close> for a character that is none.\<close>

definition convert :: "(int \<Rightarrow> 's \<Rightarrow> 's) \<Rightarrow> (u32 \<Rightarrow> string) \<Rightarrow> char option \<Rightarrow> fmt_flags \<Rightarrow> u32 list \<Rightarrow> 's \<Rightarrow> ('s \<times> u32 list) outcome option option" where
  "convert putch str ch f ap st =
     (if ch = Some CHR ''c'' then
        Some (Some (bind_outcome (va_u32 ap) (\<lambda>(x, ap1). Ret (putch (sint x) st, ap1))))
      else if ch = Some CHR ''s'' then
        Some (Some (bind_outcome (va_u32 ap) (\<lambda>(x, ap1). Ret (print_string putch f (if x = 0 then ''(null)'' else str x) st, ap1))))
      else if ch = Some CHR ''d'' then
        Some (case getint ap (lflag f) of
           Panic \<Rightarrow> Some Panic
         | Ret (num, ap1) \<Rightarrow>
             if sint num < 0 then print_number putch (- num) 10 f ap1 (putch (chr CHR ''-'') st)
             else print_number putch num 10 f ap1 st)
      else if ch = Some CHR ''u'' then Some (print_unsigned putch 10 f ap st)
      else if ch = Some CHR ''o'' then Some (print_unsigned putch 8 f ap st)
      else if ch = Some CHR ''p'' then
        Some (case va_u32 ap of
           Panic \<Rightarrow> Some Panic
         | Ret (x, ap1) \<Rightarrow> print_number putch (ucast x) 16 f ap1 (putch (chr CHR ''x'') (putch (chr CHR ''0'') st)))
      else if ch = Some CHR ''x'' then Some (print_unsigned putch 16 f ap st)
      else if ch = Some CHR ''%'' then Some (Some (Ret (putch (chr CHR ''%'') st, ap)))
      else None)"

definition error_string :: "string option list" where
  "error_string =
     [None, Some ''unspecified error'', Some ''bad process'', Some ''invalid parameter'', Some ''out of memory'', Some ''out of processes'',
      Some ''segmentation fault'', None, Some ''invalid elf file'', Some ''process is killed'', Some ''panic failure'', None, None,
      Some ''no such device'', Some ''device not available'', Some ''device/file is busy'', Some ''no such file or directory'',
      Some ''is a directory'', Some ''not a directory'', Some ''cross device link'', Some ''unimplemented feature'', Some ''illegal seek'',
      Some ''too many files are open'', Some ''file or directory already exists'', Some ''directory is not empty'']"

subsection \<open>vprintfmt\<close>

text \<open>
  \<open>%e\<close> calls \<open>printfmt\<close> with \<open>"error %d"\<close> or \<open>"%s"\<close>. An \<open>err\<close> that is still negative after its sign was changed
  is an index before the table. An unknown conversion prints its percent sign, and the text behind that
  as it stands.
\<close>

partial_function (option) vprintfmt :: "(int \<Rightarrow> 's \<Rightarrow> 's) \<Rightarrow> (u32 \<Rightarrow> string) \<Rightarrow> string \<Rightarrow> u32 list \<Rightarrow> 's \<Rightarrow> 's outcome option" where
  "vprintfmt putch str fmt ap st =
     (case fmt of
        [] \<Rightarrow> Some (Ret st)
      | c # cs \<Rightarrow>
          if c \<noteq> CHR ''%'' then vprintfmt putch str cs ap (putch (chr c) st)
          else case reswitch start_flags cs ap of
            Panic \<Rightarrow> Some Panic
          | Ret (ch, f, rest, ap1) \<Rightarrow>
              if ch = Some CHR ''e'' then
                (case va_u32 ap1 of
                   Panic \<Rightarrow> Some Panic
                 | Ret (x, ap2) \<Rightarrow>
                     let err = (if sint x < 0 then - x else x) in
                     if sint err > MAXERROR \<or> 0 \<le> sint err \<and> error_string ! nat (sint err) = None then
                       Option.bind (vprintfmt putch str ''error %d'' [err] st) (\<lambda>r.
                         case r of Panic \<Rightarrow> Some Panic | Ret st1 \<Rightarrow> vprintfmt putch str rest ap2 st1)
                     else if sint err < 0 then Some Panic
                     else vprintfmt putch str rest ap2 (print_string putch start_flags (the (error_string ! nat (sint err))) st))
              else
                case convert putch str ch f ap1 st of
                  None \<Rightarrow> vprintfmt putch str cs ap1 (putch (chr CHR ''%'') st)
                | Some k \<Rightarrow>
                    Option.bind k (\<lambda>r. case r of Panic \<Rightarrow> Some Panic | Ret (st1, ap2) \<Rightarrow> vprintfmt putch str rest ap2 st1))"

definition printfmt :: "(int \<Rightarrow> 's \<Rightarrow> 's) \<Rightarrow> (u32 \<Rightarrow> string) \<Rightarrow> string \<Rightarrow> u32 list \<Rightarrow> 's \<Rightarrow> 's outcome" where
  "printfmt putch str fmt args st = (case vprintfmt putch str fmt args st of None \<Rightarrow> Panic | Some r \<Rightarrow> r)"

subsection \<open>snprintf\<close>

text \<open>The memory of the buffer is part of the state that \<open>sprintputch\<close> changes; addresses are those of the string library
  (the buffer ends below the top of the address space), and it does not overlap the format and its strings.\<close>

record sprintbuf =
  buf :: nat
  ebuf :: int
  cnt :: int
  out :: mem

definition sprintputch :: "int \<Rightarrow> sprintbuf \<Rightarrow> sprintbuf" where
  "sprintputch ch b =
     (let b1 = b\<lparr>cnt := cnt b + 1\<rparr> in
      if int (buf b1) < ebuf b1 then b1\<lparr>out := (out b1)(buf b1 := of_int ch), buf := buf b1 + 1\<rparr> else b1)"

definition vsnprintf :: "mem \<Rightarrow> nat option \<Rightarrow> u32 \<Rightarrow> (u32 \<Rightarrow> string) \<Rightarrow> string \<Rightarrow> u32 list \<Rightarrow> (mem \<times> int) outcome" where
  "vsnprintf m s sz str fmt ap =
     (case s of
        None \<Rightarrow> Ret (m, - E_INVAL)
      | Some a \<Rightarrow>
          let b = \<lparr>buf = a, ebuf = int a + int (unat sz) - 1, cnt = 0, out = m\<rparr> in
          if int (buf b) > ebuf b then Ret (m, - E_INVAL)
          else case vprintfmt sprintputch str fmt ap b of
                 None \<Rightarrow> Panic
               | Some r \<Rightarrow> bind_outcome r (\<lambda>b1. Ret ((out b1)(buf b1 := 0), cnt b1)))"

definition snprintf :: "mem \<Rightarrow> nat option \<Rightarrow> u32 \<Rightarrow> (u32 \<Rightarrow> string) \<Rightarrow> string \<Rightarrow> u32 list \<Rightarrow> (mem \<times> int) outcome" where
  "snprintf m s sz str fmt args = vsnprintf m s sz str fmt args"

subsection \<open>rand.c\<close>

definition RAND_MAX :: u64 where "RAND_MAX = 2147483647"

definition srand :: "u32 \<Rightarrow> u64" where "srand seed = ucast seed"

text \<open>The state and the number.\<close>

definition rand :: "u64 \<Rightarrow> (u64 \<times> u32) outcome" where
  "rand next1 =
     (let n = (next1 * 0x5DEECE66D + 0xB) AND (push_bit 48 1 - 1) in
      bind_outcome (do_div (drop_bit 12 n) (ucast (RAND_MAX + 1))) (\<lambda>(_, r). Ret (n, r)))"

subsection \<open>Division\<close>

lemma split_div:
  fixes N B :: nat
  assumes "0 < B"
  shows "((N div 2 ^ 32) mod B * 2 ^ 32 + N mod 2 ^ 32) div B < 2 ^ 32"
    "(N div 2 ^ 32) div B * 2 ^ 32 + ((N div 2 ^ 32) mod B * 2 ^ 32 + N mod 2 ^ 32) div B = N div B"
    "((N div 2 ^ 32) mod B * 2 ^ 32 + N mod 2 ^ 32) mod B = N mod B"
proof -
  let ?H = "N div 2 ^ 32" and ?L = "N mod 2 ^ 32"
  let ?M = "?H mod B * 2 ^ 32 + ?L"
  have "?M < (?H mod B + 1) * 2 ^ 32" by simp
  also have "\<dots> \<le> B * 2 ^ 32" using assms by (intro mult_right_mono) (simp_all add: Suc_leI)
  finally show "?M div B < 2 ^ 32" by (simp add: div_less_iff_less_mult assms mult.commute)
  have hl: "N = ?H * 2 ^ 32 + ?L" by (rule div_mult_mod_eq [symmetric])
  have hb: "?H = ?H div B * B + ?H mod B" by (rule div_mult_mod_eq [symmetric])
  have "(q * B + r) * P + l = B * (q * P) + (r * P + l)" for q r P l :: nat by (simp add: algebra_simps)
  then have e: "N = B * (?H div B * 2 ^ 32) + ?M" using hl hb by metis
  have "N div B = (B * (?H div B * 2 ^ 32) + ?M) div B" using e by simp
  also have "\<dots> = ?H div B * 2 ^ 32 + ?M div B" using assms by simp
  finally show "?H div B * 2 ^ 32 + ?M div B = N div B" by simp
  have "N mod B = (B * (?H div B * 2 ^ 32) + ?M) mod B" using e by simp
  then show "?M mod B = N mod B" by simp
qed

lemma do_div_ok:
  assumes b: "b \<noteq> 0"
  shows "do_div n b = Ret (n div ucast b, ucast (n mod ucast b))"
proof -
  let ?N = "unat n" and ?B = "unat b"
  let ?H = "?N div 2 ^ 32" and ?L = "?N mod 2 ^ 32"
  let ?M = "?H mod ?B * 2 ^ 32 + ?L"
  have B: "0 < ?B" "?B < 2 ^ 32" using b unsigned_less [of b] by (simp_all add: unat_gt_0)
  note S = split_div [OF B(1), of ?N]
  have N: "?N < 2 ^ 64" using unsigned_less [of n] by simp
  then have H: "?H < 2 ^ 32" by (simp add: div_less_iff_less_mult)
  have low: "unat (ucast n :: u32) = ?L" by (simp add: unsigned_ucast_eq take_bit_eq_mod)
  have d: "unat (drop_bit 32 n) = ?H" by (simp only: unat_drop_bit_eq) (simp add: drop_bit_eq_div)
  have high: "unat (ucast (drop_bit 32 n) :: u32) = ?H" using H by (simp only: unsigned_ucast_eq d) (simp add: take_bit_nat_eq_self)
  have bu: "unat (ucast b :: u64) = ?B" using B(2) by (simp add: unsigned_ucast_eq take_bit_eq_mod)
  define h where "h = (ucast (drop_bit 32 n) :: u32)"
  have h: "unat h = ?H" using high by (simp add: h_def)
  have upper: "(if h \<noteq> 0 then h mod b else h) = h mod b" "(if h \<noteq> 0 then h div b else h) = h div b" by auto
  have hm: "unat (h mod b) = ?H mod ?B" "unat (h div b) = ?H div ?B" by (simp_all add: unat_mod unat_div h)
  have dv: "divl (h mod b) (ucast n) b = Ret (of_nat (?M div ?B), of_nat (?M mod ?B))" using b S(1) by (simp add: divl_def hm low Let_def)
  have q: "push_bit 32 (ucast (h div b)) + ucast (of_nat (?M div ?B) :: u32) = (n div ucast b :: u64)"
  proof -
    have m: "unat (of_nat (?M div ?B) :: u32) = ?M div ?B" using S(1) by (simp add: unat_of_nat take_bit_nat_eq_self)
    have u: "(ucast x :: u64) = of_nat (unat x)" for x :: u32 by (simp add: of_nat_unat)
    have "push_bit 32 (ucast (h div b)) + ucast (of_nat (?M div ?B) :: u32) = (of_nat ((?H div ?B) * 2 ^ 32 + ?M div ?B) :: u64)"
      unfolding u hm(2) m by (simp add: push_bit_eq_mult)
    also have "\<dots> = of_nat (?N div ?B)" unfolding S(2) ..
    also have "\<dots> = of_nat (unat (n div ucast b))" by (simp only: unat_div bu)
    also have "\<dots> = n div ucast b" by (simp only: of_nat_unat unsigned_ucast_eq ucast_id)
    finally show ?thesis .
  qed
  have md: "(of_nat (?M mod ?B) :: u32) = ucast (n mod ucast b)"
  proof -
    have "?N mod ?B < 2 ^ 32" using B mod_less_divisor less_trans by blast
    moreover have "unat (n mod ucast b) = ?N mod ?B" by (simp only: unat_mod bu)
    ultimately have "unat (ucast (n mod ucast b) :: u32) = ?N mod ?B" by (simp only: unsigned_ucast_eq) (simp add: take_bit_nat_eq_self)
    then show ?thesis unfolding S(3) by (metis of_nat_unat ucast_id)
  qed
  show ?thesis unfolding do_div_def Let_def h_def [symmetric] upper dv by (simp only: bind_outcome.simps prod.case q md assert_then_def b if_True simp_thms)
qed

subsection \<open>What is printed\<close>

text \<open>The text that a format stands for, as a function of the format and the arguments.\<close>

fun num_digits :: "nat \<Rightarrow> nat \<Rightarrow> nat list" where
  "num_digits b n = (if n < b \<or> b < 2 then [n] else num_digits b (n div b) @ [n mod b])"

declare num_digits.simps [simp del]

definition num_value :: "nat \<Rightarrow> nat list \<Rightarrow> nat" where
  "num_value b ds = foldl (\<lambda>a d. a * b + d) 0 ds"

definition number_text :: "fmt_flags \<Rightarrow> nat \<Rightarrow> nat \<Rightarrow> int list" where
  "number_text f b n =
     (let ds = num_digits b n in
      replicate (nat (width f - int (length ds))) (padc f) @ map (\<lambda>d. chr (''0123456789abcdef'' ! d)) ds)"








subsection \<open>The code prints that text\<close>


lemma pads_fold: "pads putch c n st = fold putch (replicate n c) st"
  by (induction n arbitrary: st) simp_all

lemma num_digits_less: "2 \<le> b \<Longrightarrow> d \<in> set (num_digits b n) \<Longrightarrow> d < b"
proof (induction b n rule: num_digits.induct)
  case (1 b n)
  then show ?case by (subst (asm) (2) num_digits.simps) (auto split: if_splits)
qed

lemma num_digits_value: "2 \<le> b \<Longrightarrow> num_value b (num_digits b n) = n"
proof (induction b n rule: num_digits.induct)
  case (1 b n)
  then show ?case by (subst num_digits.simps) (auto simp: num_value_def)
qed

lemma num_digits_length: "0 < length (num_digits b n)"
  by (subst num_digits.simps) simp

lemma digit_char_eq: "digit_char d = chr (''0123456789abcdef'' ! unat d)"
  by (simp add: digit_char_def)

lemma printnum_text:
  assumes b: "2 \<le> b" "b \<le> 16"
  shows "printnum putch num b w pc st =
     Some (Ret (fold putch (replicate (nat (w - int (length (num_digits (unat b) (unat num))))) pc @
       map (\<lambda>d. chr (''0123456789abcdef'' ! d)) (num_digits (unat b) (unat num))) st))"
proof (induction "unat num" arbitrary: num w rule: less_induct)
  case less
  have B: "2 \<le> unat b" "unat b \<le> 16" using b by (simp_all add: word_le_nat_alt)
  have nz: "b \<noteq> 0" using B(1) by auto
  have "unat (ucast b :: u64) = take_bit 64 (unat b)" by (simp only: unsigned_ucast_eq) simp
  then have bu: "unat (ucast b :: u64) = unat b" using B(2) by (simp add: take_bit_nat_eq_self)
  have q: "unat (num div ucast b) = unat num div unat b" by (simp only: unat_div bu)
  have r: "unat (ucast (num mod ucast b) :: u32) = unat num mod unat b"
  proof -
    have "unat num mod unat b < 2 ^ 32" by (rule less_trans [of _ "unat b"]) (use B in simp_all)
    moreover have "unat (num mod ucast b) = unat num mod unat b" by (simp only: unat_mod bu)
    ultimately show ?thesis by (simp only: unsigned_ucast_eq) (simp add: take_bit_nat_eq_self)
  qed
  have le: "num \<ge> ucast b \<longleftrightarrow> unat num \<ge> unat b" by (simp only: word_le_nat_alt bu)
  show ?case
  proof (cases "unat num < unat b")
    case True
    then have d: "num_digits (unat b) (unat num) = [unat num]" by (subst num_digits.simps) simp
    have "printnum putch num b w pc st = Some (Ret (putch (digit_char (ucast (num mod ucast b))) (pads putch pc (nat (w - 1)) st)))"
      using True le by (subst printnum.simps) (simp add: do_div_ok [OF nz])
    then show ?thesis using True by (simp add: d pads_fold digit_char_eq r)
  next
    case False
    have d: "num_digits (unat b) (unat num) = num_digits (unat b) (unat num div unat b) @ [unat num mod unat b]" using False B by (subst num_digits.simps) simp
    have "unat num div unat b < unat num" using B False by (intro div_less_dividend) auto
    then have "unat (num div ucast b) < unat num" by (simp only: q)
    note IH = less(1) [OF this, unfolded q, of "w - 1"]
    have "printnum putch num b w pc st = Option.bind (printnum putch (num div ucast b) b (w - 1) pc st) (\<lambda>r.
        Some (bind_outcome r (\<lambda>st1. Ret (putch (digit_char (ucast (num mod ucast b))) st1))))"
      using False le by (subst printnum.simps) (simp add: do_div_ok [OF nz])
    then show ?thesis unfolding IH d by (simp add: digit_char_eq r algebra_simps)
  qed
qed





lemma unat_u64_u32: "unat (ucast (x :: u32) :: u64) = unat x"
  by (simp only: unsigned_ucast_eq) (simp add: take_bit_nat_eq_self less_trans [OF unat_u32_less])









subsection \<open>Properties\<close>


text \<open>The digits that \<open>printnum\<close> prints are those of the number in the base, most significant first and without
  leading zeros, padded to the width: reading them back gives the number, whatever 64-bit number it is.\<close>

theorem printnum_roundtrip:
  assumes "2 \<le> b" "b \<le> 16"
  shows "\<exists>ds. printnum putch num b w pc st =
       Some (Ret (fold putch (replicate (nat (w - int (length ds))) pc @ map (\<lambda>d. chr (''0123456789abcdef'' ! d)) ds) st)) \<and>
     num_value (unat b) ds = unat num \<and> (\<forall>d \<in> set ds. d < unat b) \<and> (hd ds = 0 \<longrightarrow> ds = [0])"
proof -
  have B: "2 \<le> unat b" using assms(1) by (simp add: word_le_nat_alt)
  have z: "hd (num_digits (unat b) n) = 0 \<Longrightarrow> num_digits (unat b) n = [0]" for n using B
  proof (induction n rule: less_induct)
    case (less n)
    show ?case
    proof (cases "n < unat b")
      case True
      then have "num_digits (unat b) n = [n]" by (subst num_digits.simps) simp
      then show ?thesis using less.prems(1) by simp
    next
      case False
      have d: "num_digits (unat b) n = num_digits (unat b) (n div unat b) @ [n mod unat b]" using False B by (subst num_digits.simps) simp
      have "n div unat b < n" using False B by (intro div_less_dividend) auto
      moreover have "hd (num_digits (unat b) (n div unat b)) = 0" using less.prems(1) num_digits_length [of "unat b" "n div unat b"] unfolding d by simp
      ultimately have "num_digits (unat b) (n div unat b) = [0]" using less.IH B by blast
      then have "n div unat b = 0" using num_digits_value [OF B, of "n div unat b"] by (simp add: num_value_def)
      then show ?thesis using False B by (simp add: div_eq_0_iff)
    qed
  qed
  show ?thesis
  proof (intro exI [of _ "num_digits (unat b) (unat num)"] conjI)
    show "num_value (unat b) (num_digits (unat b) (unat num)) = unat num" by (rule num_digits_value [OF B])
    show "\<forall>d \<in> set (num_digits (unat b) (unat num)). d < unat b" using num_digits_less [OF B] by blast
    show "hd (num_digits (unat b) (unat num)) = 0 \<longrightarrow> num_digits (unat b) (unat num) = [0]" using z by blast
  qed (simp add: printnum_text [OF assms] number_text_def)
qed

theorem printnum_roundtrip_witness:
  "\<exists>ds. printnum (\<lambda>c t. t @ [c]) 0xFFFFFFFFFFFFFFFF 10 0 0 [] = Some (Ret (map (\<lambda>d. chr (''0123456789abcdef'' ! d)) ds)) \<and> num_value 10 ds = 2 ^ 64 - 1"
proof -
  have a: "fold (\<lambda>c t. t @ [c]) xs ys = ys @ xs" for xs ys :: "int list" by (induction xs arbitrary: ys) simp_all
  from printnum_roundtrip [of 10 "\<lambda>c t. t @ [c]" "0xFFFFFFFFFFFFFFFF" 0 0 "[]"] show ?thesis by (auto simp: a)
qed



text \<open>The generator returns a number of at most \<open>RAND_MAX\<close>.\<close>

lemma rand_le: "\<exists>n r. rand s = Ret (n, r) \<and> ucast r \<le> RAND_MAX"
proof -
  have b: "(ucast (RAND_MAX + 1) :: u32) \<noteq> 0" "ucast (ucast (RAND_MAX + 1) :: u32) = (0x80000000 :: u64)" by (simp_all add: RAND_MAX_def)
  let ?n = "(s * 0x5DEECE66D + 0xB) AND (push_bit 48 1 - 1)"
  let ?r = "drop_bit 12 ?n mod 0x80000000"
  have "unat ?r < 0x80000000" using mod_less_divisor by (simp add: unat_mod)
  then have u: "unat (ucast ?r :: u32) = unat ?r" by (simp only: unsigned_ucast_eq) (simp add: take_bit_nat_eq_self)
  have "unat (ucast (ucast ?r :: u32) :: u64) \<le> unat RAND_MAX" unfolding unat_u64_u32 u using \<open>unat ?r < _\<close> by (simp add: RAND_MAX_def)
  then show ?thesis by (auto simp: rand_def Let_def do_div_ok [OF b(1)] b(2) word_le_nat_alt)
qed

end
