(* ===== verification/DList.thy ===== *)
theory DList
  imports Prelude
begin

text \<open>
  The intrusive doubly linked list of \<^verbatim>\<open>libs/list.h\<close>. A \<open>list_entry_t\<close> is a node of
  some type \<open>'a\<close>; the two pointer fields of all entries form a store of type
  \<open>'a links\<close>. The abstraction \<open>dlist h l xs\<close> says that following \<open>next\<close> from the
  head visits \<open>xs\<close> and comes back, with the \<open>prev\<close> pointers the exact mirror image.
  Every operation is shown to implement the list operation it stands for, and the
  loop over a list that the kernel repeats everywhere (\<open>while ((le = list_next(le)) !=
  list)\<close>) is shown to return and to find the first matching entry.
\<close>

record 'a links =
  le_prev :: "'a \<Rightarrow> 'a"
  le_next :: "'a \<Rightarrow> 'a"

abbreviation set_prev :: "'a \<Rightarrow> 'a \<Rightarrow> 'a links \<Rightarrow> 'a links" where
  "set_prev x y h \<equiv> h\<lparr>le_prev := (le_prev h)(x := y)\<rparr>"

abbreviation set_next :: "'a \<Rightarrow> 'a \<Rightarrow> 'a links \<Rightarrow> 'a links" where
  "set_next x y h \<equiv> h\<lparr>le_next := (le_next h)(x := y)\<rparr>"

subsection \<open>The operations of list.h\<close>

definition list_init :: "'a links \<Rightarrow> 'a \<Rightarrow> 'a links" where
  "list_init h elm = set_prev elm elm (set_next elm elm h)"

text \<open>\<open>__list_add\<close>: insert between two known consecutive entries.\<close>

definition list_add_between :: "'a links \<Rightarrow> 'a \<Rightarrow> 'a \<Rightarrow> 'a \<Rightarrow> 'a links" where
  "list_add_between h elm p n =
     set_prev elm p (set_next elm n (set_next p elm (set_prev n elm h)))"

definition list_add_after :: "'a links \<Rightarrow> 'a \<Rightarrow> 'a \<Rightarrow> 'a links" where
  "list_add_after h listelm elm = list_add_between h elm listelm (le_next h listelm)"

definition list_add_before :: "'a links \<Rightarrow> 'a \<Rightarrow> 'a \<Rightarrow> 'a links" where
  "list_add_before h listelm elm = list_add_between h elm (le_prev h listelm) listelm"

definition list_add :: "'a links \<Rightarrow> 'a \<Rightarrow> 'a \<Rightarrow> 'a links" where
  "list_add h listelm elm = list_add_after h listelm elm"

text \<open>\<open>__list_del\<close>: make the two neighbours point to each other.\<close>

definition list_del_between :: "'a links \<Rightarrow> 'a \<Rightarrow> 'a \<Rightarrow> 'a links" where
  "list_del_between h p n = set_prev n p (set_next p n h)"

definition list_del :: "'a links \<Rightarrow> 'a \<Rightarrow> 'a links" where
  "list_del h listelm = list_del_between h (le_prev h listelm) (le_next h listelm)"

definition list_del_init :: "'a links \<Rightarrow> 'a \<Rightarrow> 'a links" where
  "list_del_init h listelm = list_init (list_del h listelm) listelm"

definition list_empty :: "'a links \<Rightarrow> 'a \<Rightarrow> bool" where
  "list_empty h l \<longleftrightarrow> le_next h l = l"

definition list_next :: "'a links \<Rightarrow> 'a \<Rightarrow> 'a" where
  "list_next h listelm = le_next h listelm"

definition list_prev :: "'a links \<Rightarrow> 'a \<Rightarrow> 'a" where
  "list_prev h listelm = le_prev h listelm"

text \<open>
  The loop \<open>le = list; while ((le = list_next(le)) != list) { if (p(le)) break; }\<close>: it
  ends at the first entry that satisfies \<open>p\<close>, or back at the head.
\<close>

partial_function (option) list_scan :: "'a links \<Rightarrow> 'a \<Rightarrow> ('a \<Rightarrow> bool) \<Rightarrow> 'a \<Rightarrow> 'a option" where
  "list_scan h l p le =
     (let le' = list_next h le
      in if le' = l then Some l else if p le' then Some le' else list_scan h l p le')"

subsection \<open>Segments\<close>

fun seg :: "'a links \<Rightarrow> 'a list \<Rightarrow> bool" where
  "seg h (x # y # r) \<longleftrightarrow> le_next h x = y \<and> le_prev h y = x \<and> seg h (y # r)"
| "seg h _ \<longleftrightarrow> True"

definition dlist :: "'a links \<Rightarrow> 'a \<Rightarrow> 'a list \<Rightarrow> bool" where
  "dlist h l xs \<longleftrightarrow> distinct (l # xs) \<and> seg h (l # xs @ [l])"

lemma seg_split:
  "seg h (A @ p # n # B) \<longleftrightarrow>
     seg h (A @ [p]) \<and> le_next h p = n \<and> le_prev h n = p \<and> seg h (n # B)"
proof (induction A)
  case (Cons a A)
  then show ?case by (cases A) auto
qed simp

lemma seg_frame:
  "(\<And>x. x \<in> set (butlast xs) \<Longrightarrow> le_next h' x = le_next h x) \<Longrightarrow>
   (\<And>y. y \<in> set (tl xs) \<Longrightarrow> le_prev h' y = le_prev h y) \<Longrightarrow> seg h' xs = seg h xs"
  by (induction h xs rule: seg.induct) (auto split: if_splits)

text \<open>Every position of the ring, as the pair of entries around it.\<close>

lemma ring_cut:
  obtains A p n B where "l # ys = A @ [p]" "zs @ [l] = n # B"
    "p = last (l # ys)" "n = (case zs of [] \<Rightarrow> l | z # _ \<Rightarrow> z)"
proof (rule that)
  show "l # ys = butlast (l # ys) @ [last (l # ys)]" by simp
  show "zs @ [l] = (case zs of [] \<Rightarrow> l | z # _ \<Rightarrow> z) # (case zs of [] \<Rightarrow> [] | _ # r \<Rightarrow> r @ [l])"
    by (cases zs) auto
qed auto

lemma dlist_cut:
  assumes "l # ys = A @ [p]" "zs @ [l] = n # B"
  shows "dlist h l (ys @ zs) \<longleftrightarrow>
     distinct (l # ys @ zs) \<and> seg h (A @ [p]) \<and> le_next h p = n \<and> le_prev h n = p \<and>
     seg h (n # B)"
proof -
  have "l # (ys @ zs) @ [l] = A @ p # n # B" using assms by (metis append.assoc append_Cons append_Nil)
  then show ?thesis by (simp add: dlist_def seg_split del: append_assoc)
qed

lemma dlist_distinct: "dlist h l xs \<Longrightarrow> distinct xs \<and> l \<notin> set xs"
  by (simp add: dlist_def)

lemma list_add_between_dlist:
  assumes d: "dlist h l (ys @ zs)" and e: "e \<notin> set (l # ys @ zs)"
    and cut: "l # ys = A @ [p]" "zs @ [l] = n # B"
  shows "dlist (list_add_between h e p n) l (ys @ e # zs)"
proof -
  let ?h = "list_add_between h e p n"
  from d have dis: "distinct (l # ys @ zs)" by (simp add: dlist_def)
  from d cut have sA: "seg h (A @ [p])" and sB: "seg h (n # B)"
    by (simp_all add: dlist_cut)
  have "distinct (A @ [p])" "distinct (n # B)"
    using dis by (simp_all flip: cut)
  then have A: "p \<notin> set A" and B: "n \<notin> set B" by simp_all
  have sets: "insert p (set A) = insert l (set ys)" "insert n (set B) = insert l (set zs)"
    using arg_cong [OF cut(1), of set] arg_cong [OF cut(2), of set] by auto
  have tails: "tl (A @ [p]) = ys" "butlast (n # B) = zs"
    using cut by (metis list.sel(3), metis butlast_snoc)
  have pn: "p \<in> insert l (set ys)" "n \<in> insert l (set zs)" using sets by auto
  have "seg ?h (A @ [p]) = seg h (A @ [p])"
  proof (rule seg_frame)
    fix x assume "x \<in> set (butlast (A @ [p]))"
    then have "x \<in> set A" by simp
    with A e sets show "le_next ?h x = le_next h x" by (auto simp: list_add_between_def)
  next
    fix y assume "y \<in> set (tl (A @ [p]))"
    then have "y \<in> set ys" by (simp only: tails)
    with pn dis e show "le_prev ?h y = le_prev h y" by (auto simp: list_add_between_def)
  qed
  moreover have "seg ?h (n # B) = seg h (n # B)"
  proof (rule seg_frame)
    fix x assume "x \<in> set (butlast (n # B))"
    then have "x \<in> set zs" by (simp only: tails)
    with pn dis e show "le_next ?h x = le_next h x" by (auto simp: list_add_between_def)
  next
    fix y assume "y \<in> set (tl (n # B))"
    then have "y \<in> set B" by simp
    with B e sets show "le_prev ?h y = le_prev h y" by (auto simp: list_add_between_def)
  qed
  ultimately have "seg ?h (A @ p # e # n # B)"
    using sA sB pn e by (auto simp: seg_split list_add_between_def)
  moreover have "l # (ys @ e # zs) @ [l] = A @ p # e # n # B"
    using cut by (metis append.assoc append_Cons append_Nil)
  ultimately show ?thesis using dis e by (auto simp: dlist_def)
qed

subsection \<open>What each operation does to the list\<close>

lemma dlist_init: "dlist (list_init h l) l []"
  by (simp add: dlist_def list_init_def)

lemma dlist_frame:
  "dlist h l xs \<Longrightarrow> (\<And>x. x \<in> insert l (set xs) \<Longrightarrow> le_next h' x = le_next h x) \<Longrightarrow>
   (\<And>x. x \<in> insert l (set xs) \<Longrightarrow> le_prev h' x = le_prev h x) \<Longrightarrow> dlist h' l xs"
  unfolding dlist_def by (subst seg_frame [of _ h' h]) (auto dest: in_set_butlastD)

lemma dlist_around:
  assumes "dlist h l (ys @ zs)"
  shows "le_next h (last (l # ys)) = (case zs of [] \<Rightarrow> l | z # _ \<Rightarrow> z)"
    and "le_prev h (case zs of [] \<Rightarrow> l | z # _ \<Rightarrow> z) = last (l # ys)"
proof -
  obtain A p n B where cut: "l # ys = A @ [p]" "zs @ [l] = n # B"
    "p = last (l # ys)" "n = (case zs of [] \<Rightarrow> l | z # _ \<Rightarrow> z)"
    by (rule ring_cut)
  from assms have "le_next h p = n" "le_prev h n = p" by (simp_all only: dlist_cut [OF cut(1,2)])
  then show "le_next h (last (l # ys)) = (case zs of [] \<Rightarrow> l | z # _ \<Rightarrow> z)"
    and "le_prev h (case zs of [] \<Rightarrow> l | z # _ \<Rightarrow> z) = last (l # ys)"
    by (simp_all only: flip: cut(3,4))
qed

lemma dlist_next_head: "dlist h l xs \<Longrightarrow> list_next h l = (case xs of [] \<Rightarrow> l | x # _ \<Rightarrow> x)"
  using dlist_around(1) [of h l "[]" xs] by (simp add: list_next_def)

lemma dlist_prev_head: "dlist h l xs \<Longrightarrow> list_prev h l = last (l # xs)"
  using dlist_around(2) [of h l xs "[]"] by (simp add: list_prev_def)

lemma dlist_next: "dlist h l (ys @ x # zs) \<Longrightarrow> list_next h x = (case zs of [] \<Rightarrow> l | z # _ \<Rightarrow> z)"
  using dlist_around(1) [of h l "ys @ [x]" zs] by (simp add: list_next_def)

lemma dlist_prev: "dlist h l (ys @ x # zs) \<Longrightarrow> list_prev h x = last (l # ys)"
  using dlist_around(2) [of h l ys "x # zs"] by (simp add: list_prev_def)

lemma dlist_empty_iff: "dlist h l xs \<Longrightarrow> list_empty h l \<longleftrightarrow> xs = []"
  using dlist_next_head [of h l xs] dlist_distinct [of h l xs]
  by (cases xs) (auto simp: list_empty_def list_next_def)

lemma dlist_insert_at:
  assumes "dlist h l (ys @ zs)" and "e \<notin> insert l (set (ys @ zs))"
  shows "dlist (list_add_between h e (last (l # ys)) (case zs of [] \<Rightarrow> l | z # _ \<Rightarrow> z)) l
     (ys @ e # zs)"
proof -
  obtain A p n B where cut: "l # ys = A @ [p]" "zs @ [l] = n # B"
    "p = last (l # ys)" "n = (case zs of [] \<Rightarrow> l | z # _ \<Rightarrow> z)"
    by (rule ring_cut)
  from assms cut(1,2) have "dlist (list_add_between h e p n) l (ys @ e # zs)"
    by (intro list_add_between_dlist [OF _ _ cut(1,2)]) auto
  then show ?thesis by (simp only: cut(3,4))
qed

lemma list_add_before_head:
  "dlist h l xs \<Longrightarrow> e \<notin> insert l (set xs) \<Longrightarrow> dlist (list_add_before h l e) l (xs @ [e])"
  using dlist_insert_at [of h l xs "[]" e] dlist_around(2) [of h l xs "[]"]
  by (simp add: list_add_before_def)

lemma list_add_before_mid:
  "dlist h l (ys @ x # zs) \<Longrightarrow> e \<notin> insert l (set (ys @ x # zs)) \<Longrightarrow>
     dlist (list_add_before h x e) l (ys @ e # x # zs)"
  using dlist_insert_at [of h l ys "x # zs" e] dlist_around(2) [of h l ys "x # zs"]
  by (simp add: list_add_before_def)

lemma list_add_after_head:
  "dlist h l xs \<Longrightarrow> e \<notin> insert l (set xs) \<Longrightarrow> dlist (list_add_after h l e) l (e # xs)"
  using dlist_insert_at [of h l "[]" xs e] dlist_around(1) [of h l "[]" xs]
  by (simp add: list_add_after_def)

lemma list_add_after_mid:
  "dlist h l (ys @ x # zs) \<Longrightarrow> e \<notin> insert l (set (ys @ x # zs)) \<Longrightarrow>
     dlist (list_add_after h x e) l (ys @ x # e # zs)"
  using dlist_insert_at [of h l "ys @ [x]" zs e] dlist_around(1) [of h l "ys @ [x]" zs]
  by (simp add: list_add_after_def)

lemma list_del_dlist:
  assumes d: "dlist h l (ys @ x # zs)"
  shows "dlist (list_del h x) l (ys @ zs)"
proof -
  obtain A p n B where cut: "l # ys = A @ [p]" "zs @ [l] = n # B"
    and pn: "p = last (l # ys)" "n = (case zs of [] \<Rightarrow> l | z # _ \<Rightarrow> z)"
    by (rule ring_cut)
  let ?h = "list_del h x"
  have h: "?h = set_prev n p (set_next p n h)"
    using dlist_prev [OF d] dlist_next [OF d] pn
    by (simp add: list_del_def list_del_between_def list_prev_def list_next_def)
  from d have dis: "distinct (l # ys @ x # zs)" by (simp add: dlist_def)
  have "l # (ys @ x # zs) @ [l] = A @ p # x # n # B"
    using cut by (metis append.assoc append_Cons append_Nil)
  with d have "seg h (A @ p # x # n # B)" by (simp only: dlist_def)
  then have sA: "seg h (A @ [p])" and sB: "seg h (n # B)"
    by (simp_all add: seg_split)
  have "distinct (A @ [p])" "distinct (n # B)"
    using dis by (simp_all flip: cut)
  then have A: "p \<notin> set A" and B: "n \<notin> set B" by simp_all
  have sets: "insert p (set A) = insert l (set ys)" "insert n (set B) = insert l (set zs)"
    using arg_cong [OF cut(1), of set] arg_cong [OF cut(2), of set] by auto
  have tails: "tl (A @ [p]) = ys" "butlast (n # B) = zs"
    using cut by (metis list.sel(3), metis butlast_snoc)
  have "seg ?h (A @ [p]) = seg h (A @ [p])"
  proof (rule seg_frame)
    show "le_next ?h y = le_next h y" if "y \<in> set (butlast (A @ [p]))" for y
      using that A by (auto simp: h)
    show "le_prev ?h y = le_prev h y" if "y \<in> set (tl (A @ [p]))" for y
      using that dis sets by (auto simp: h tails)
  qed
  moreover have "seg ?h (n # B) = seg h (n # B)"
  proof (rule seg_frame)
    show "le_next ?h y = le_next h y" if "y \<in> set (butlast (n # B))" for y
      using that [unfolded tails] dis sets by (auto simp: h)
    show "le_prev ?h y = le_prev h y" if "y \<in> set (tl (n # B))" for y
      using that B by (auto simp: h)
  qed
  ultimately have "dlist ?h l (ys @ zs) \<longleftrightarrow> distinct (l # ys @ zs) \<and> le_next ?h p = n \<and> le_prev ?h n = p"
    using sA sB by (simp add: dlist_cut [OF cut])
  with dis show ?thesis by (auto simp: h)
qed

lemma list_del_init_dlist:
  assumes "dlist h l (ys @ x # zs)"
  shows "dlist (list_del_init h x) l (ys @ zs)" and "list_empty (list_del_init h x) x"
proof -
  have x: "x \<notin> insert l (set (ys @ zs))" using dlist_distinct [OF assms] by auto
  show "dlist (list_del_init h x) l (ys @ zs)"
    by (rule dlist_frame [OF list_del_dlist [OF assms]])
      (use x in \<open>auto simp: list_del_init_def list_init_def\<close>)
  show "list_empty (list_del_init h x) x"
    by (simp add: list_empty_def list_del_init_def list_init_def)
qed

lemma list_scan_from:
  "dlist h l (ys @ zs) \<Longrightarrow>
     list_scan h l p (last (l # ys)) = Some (case find p zs of None \<Rightarrow> l | Some x \<Rightarrow> x)"
proof (induction zs arbitrary: ys)
  case Nil
  from dlist_around(1) [OF Nil] show ?case
    by (subst list_scan.simps) (simp add: list_next_def)
next
  case (Cons z zs)
  from dlist_around(1) [OF Cons.prems] have nx: "list_next h (last (l # ys)) = z"
    by (simp add: list_next_def)
  from dlist_distinct [OF Cons.prems] have "z \<noteq> l" by auto
  with nx have "list_scan h l p (last (l # ys)) = (if p z then Some z else list_scan h l p z)"
    by (subst list_scan.simps) simp
  moreover have "list_scan h l p z = Some (case find p zs of None \<Rightarrow> l | Some x \<Rightarrow> x)"
    using Cons.IH [of "ys @ [z]"] Cons.prems by simp
  ultimately show ?case by simp
qed

lemma list_scan_dlist:
  "dlist h l xs \<Longrightarrow> list_scan h l p l = Some (case find p xs of None \<Rightarrow> l | Some x \<Rightarrow> x)"
  using list_scan_from [of h l "[]" xs p] by simp

text \<open>The operations touch the links of the ring and of their argument only.\<close>

lemma list_add_before_other:
  assumes "dlist h l xs" "y \<notin> insert e (insert l (set xs))"
  shows "le_next (list_add_before h l e) y = le_next h y" "le_prev (list_add_before h l e) y = le_prev h y"
proof -
  have "le_prev h l = last (l # xs)" using dlist_prev_head [OF assms(1)] by (simp add: list_prev_def)
  moreover have "last (l # xs) \<in> insert l (set xs)" using last_in_set [of "l # xs"] by simp
  ultimately show "le_next (list_add_before h l e) y = le_next h y"
    "le_prev (list_add_before h l e) y = le_prev h y"
    using assms(2) by (auto simp: list_add_before_def list_add_between_def)
qed

lemma list_del_init_other:
  assumes d: "dlist h l (ys @ x # zs)" and y: "y \<notin> insert l (set (ys @ x # zs))"
  shows "le_next (list_del_init h x) y = le_next h y" "le_prev (list_del_init h x) y = le_prev h y"
proof -
  have "le_prev h x = last (l # ys)" using dlist_prev [OF d] by (simp add: list_prev_def)
  moreover have "last (l # ys) \<in> insert l (set ys)" using last_in_set [of "l # ys"] by simp
  moreover have "le_next h x = (case zs of [] \<Rightarrow> l | z # _ \<Rightarrow> z)" using dlist_next [OF d] by (simp add: list_next_def)
  ultimately have "y \<noteq> le_prev h x" "y \<noteq> le_next h x" "y \<noteq> x" using y by (auto split: list.splits)
  then show "le_next (list_del_init h x) y = le_next h y" "le_prev (list_del_init h x) y = le_prev h y"
    by (simp_all add: list_del_init_def list_del_def list_del_between_def list_init_def)
qed

subsection \<open>Rings with a separate head\<close>

text \<open>
  Where the entries are links embedded in numbered objects, \<open>None\<close> stands for the list head
  and \<open>Some x\<close> for the link inside object \<open>x\<close>.
\<close>

definition first_link :: "'a list \<Rightarrow> 'a option" where
  "first_link ts = (case ts of [] \<Rightarrow> None | t # _ \<Rightarrow> Some t)"

lemma first_link_simps [simp]: "first_link [] = None" "first_link (t # ts) = Some t"
  by (simp_all add: first_link_def)

lemma distinct_ring: "dlist h None (map Some ts) \<Longrightarrow> distinct ts"
  by (drule dlist_distinct) (simp add: distinct_map)

lemma first_link_ring: "dlist h None (map Some ts) \<Longrightarrow> list_next h None = first_link ts"
  by (cases ts) (simp_all add: dlist_next_head)

lemma next_link_ring: "dlist h None (map Some (ys @ t # zs)) \<Longrightarrow> list_next h (Some t) = first_link zs"
  using dlist_next [of h None "map Some ys" "Some t" "map Some zs"] by (cases zs) simp_all

lemma ring_insert_before:
  assumes "dlist h None (map Some (us @ vs))" "t \<notin> set (us @ vs)"
  shows "dlist (list_add_before h (first_link vs) (Some t)) None (map Some (us @ t # vs))"
  using assms list_add_before_head [of h None "map Some us" "Some t"]
    list_add_before_mid [of h None "map Some us" "Some (List.hd vs)" "map Some (tl vs)" "Some t"]
  by (cases vs) auto

lemma in_ring_not_empty: "dlist h None (map Some (us @ t # vs)) \<Longrightarrow> \<not> list_empty h (Some t)"
  using next_link_ring [of h us t vs] distinct_ring [of h "us @ t # vs"]
  by (cases vs) (auto simp: list_empty_def list_next_def)

subsection \<open>The queue contract of a list\<close>

text \<open>
  What the wait queues and the page-replacement queue rely on: entries come out in the
  order they went in.
\<close>

locale ring_queue =
  fixes ring :: "'h \<Rightarrow> 'a \<Rightarrow> 'a list \<Rightarrow> bool"
    and init :: "'h \<Rightarrow> 'a \<Rightarrow> 'h"
    and push_back :: "'h \<Rightarrow> 'a \<Rightarrow> 'a \<Rightarrow> 'h"
    and push_front :: "'h \<Rightarrow> 'a \<Rightarrow> 'a \<Rightarrow> 'h"
    and unlink :: "'h \<Rightarrow> 'a \<Rightarrow> 'h"
    and first_of :: "'h \<Rightarrow> 'a \<Rightarrow> 'a"
    and last_of :: "'h \<Rightarrow> 'a \<Rightarrow> 'a"
  assumes ring_init: "ring (init h l) l []"
    and ring_push_back: "ring h l xs \<Longrightarrow> e \<notin> insert l (set xs) \<Longrightarrow> ring (push_back h l e) l (xs @ [e])"
    and ring_push_front: "ring h l xs \<Longrightarrow> e \<notin> insert l (set xs) \<Longrightarrow> ring (push_front h l e) l (e # xs)"
    and ring_unlink: "ring h l (ys @ x # zs) \<Longrightarrow> ring (unlink h x) l (ys @ zs)"
    and ring_first: "ring h l (x # xs) \<Longrightarrow> first_of h l = x"
    and ring_last: "ring h l (xs @ [x]) \<Longrightarrow> last_of h l = x"
    and ring_distinct: "ring h l xs \<Longrightarrow> distinct xs \<and> l \<notin> set xs"
begin

lemma push_back_all:
  "ring h l xs \<Longrightarrow> distinct es \<Longrightarrow> set es \<inter> insert l (set xs) = {} \<Longrightarrow>
     ring (fold (\<lambda>e h. push_back h l e) es h) l (xs @ es)"
proof (induction es arbitrary: h xs)
  case (Cons e es)
  then have "ring (push_back h l e) l (xs @ [e])" by (intro ring_push_back) auto
  with Cons.IH [of "push_back h l e" "xs @ [e]"] Cons.prems show ?case by auto
qed simp

lemma push_front_all:
  "ring h l xs \<Longrightarrow> distinct es \<Longrightarrow> set es \<inter> insert l (set xs) = {} \<Longrightarrow>
     ring (fold (\<lambda>e h. push_front h l e) es h) l (rev es @ xs)"
proof (induction es arbitrary: h xs)
  case (Cons e es)
  then have "ring (push_front h l e) l (e # xs)" by (intro ring_push_front) auto
  with Cons.IH [of "push_front h l e" "e # xs"] Cons.prems show ?case by auto
qed simp

lemma pop_first: "ring h l (x # xs) \<Longrightarrow> first_of h l = x \<and> ring (unlink h (first_of h l)) l xs"
  using ring_unlink [of h l "[]" x xs] by (simp add: ring_first)

lemma pop_last: "ring h l (xs @ [x]) \<Longrightarrow> last_of h l = x \<and> ring (unlink h (last_of h l)) l xs"
  using ring_unlink [of h l xs x "[]"] by (simp add: ring_last)

end

interpretation lq: ring_queue dlist list_init list_add_before list_add list_del list_next list_prev
  by unfold_locales
    (auto simp: dlist_init list_add_before_head list_add_def list_add_after_head list_del_dlist
      dlist_next_head dlist_prev_head dest: dlist_distinct)

end
