(* ===== verification/SkewHeap.thy ===== *)
theory SkewHeap
  imports Prelude "HOL-Library.Tree"
begin

text \<open>
  The intrusive skew heap of \<^verbatim>\<open>libs/skew_heap.h\<close>, pointer by pointer: three fields per
  node, \<open>NULL\<close> as \<open>None\<close>. The recursion of \<open>skew_heap_merge\<close> follows pointers, so it is
  a \<open>partial_function\<close>; on a store that represents a tree (\<open>skt\<close>) it returns, and the
  store it leaves represents the merge of the two trees. \<open>skew_heap_remove\<close> deletes a
  node anywhere in the heap through its parent pointer.
\<close>

record 'n skew =
  sk_parent :: "'n \<Rightarrow> 'n option"
  sk_left :: "'n \<Rightarrow> 'n option"
  sk_right :: "'n \<Rightarrow> 'n option"

abbreviation set_parent :: "'n \<Rightarrow> 'n option \<Rightarrow> 'n skew \<Rightarrow> 'n skew" where
  "set_parent x p h \<equiv> h\<lparr>sk_parent := (sk_parent h)(x := p)\<rparr>"

abbreviation set_left :: "'n \<Rightarrow> 'n option \<Rightarrow> 'n skew \<Rightarrow> 'n skew" where
  "set_left x p h \<equiv> h\<lparr>sk_left := (sk_left h)(x := p)\<rparr>"

abbreviation set_right :: "'n \<Rightarrow> 'n option \<Rightarrow> 'n skew \<Rightarrow> 'n skew" where
  "set_right x p h \<equiv> h\<lparr>sk_right := (sk_right h)(x := p)\<rparr>"

subsection \<open>The operations of skew_heap.h\<close>

definition skew_heap_init :: "'n skew \<Rightarrow> 'n \<Rightarrow> 'n skew" where
  "skew_heap_init h a = set_left a None (set_right a None (set_parent a None h))"

text \<open>The stores after the recursive call: \<open>x\<close> gets \<open>l\<close> and \<open>r\<close>, \<open>l\<close> gets its parent.\<close>

definition skew_relink :: "'n skew \<Rightarrow> 'n \<Rightarrow> 'n option \<Rightarrow> 'n option \<Rightarrow> 'n skew" where
  "skew_relink h x l r =
     (let h' = set_right x r (set_left x l h)
      in case l of None \<Rightarrow> h' | Some c \<Rightarrow> set_parent c (Some x) h')"

partial_function (option) skew_heap_merge ::
    "('n \<Rightarrow> 'n \<Rightarrow> int) \<Rightarrow> 'n skew \<Rightarrow> 'n option \<Rightarrow> 'n option \<Rightarrow> ('n skew \<times> 'n option) option" where
  "skew_heap_merge cmp h a b =
     (case a of None \<Rightarrow> Some (h, b) | Some x \<Rightarrow>
      (case b of None \<Rightarrow> Some (h, a) | Some y \<Rightarrow>
       if cmp x y = -1
       then Option.bind (skew_heap_merge cmp h (sk_right h x) b)
              (\<lambda>(h', l). Some (skew_relink h' x l (sk_left h x), Some x))
       else Option.bind (skew_heap_merge cmp h a (sk_right h y))
              (\<lambda>(h', l). Some (skew_relink h' y l (sk_left h y), Some y))))"

definition skew_heap_insert ::
    "('n \<Rightarrow> 'n \<Rightarrow> int) \<Rightarrow> 'n skew \<Rightarrow> 'n option \<Rightarrow> 'n \<Rightarrow> ('n skew \<times> 'n option) option" where
  "skew_heap_insert cmp h a b = skew_heap_merge cmp (skew_heap_init h b) a (Some b)"

definition skew_heap_remove ::
    "('n \<Rightarrow> 'n \<Rightarrow> int) \<Rightarrow> 'n skew \<Rightarrow> 'n option \<Rightarrow> 'n \<Rightarrow> ('n skew \<times> 'n option) option" where
  "skew_heap_remove cmp h a b =
     (let p = sk_parent h b
      in case skew_heap_merge cmp h (sk_left h b) (sk_right h b) of
           None \<Rightarrow> None
         | Some (h1, rep) \<Rightarrow>
             let h2 = (case rep of None \<Rightarrow> h1 | Some c \<Rightarrow> set_parent c p h1)
             in (case p of
                   Some q \<Rightarrow> Some (if sk_left h2 q = Some b then set_left q rep h2
                                  else set_right q rep h2, a)
                 | None \<Rightarrow> Some (h2, rep)))"

subsection \<open>The tree a store represents\<close>

fun root :: "'n tree \<Rightarrow> 'n option" where
  "root Leaf = None"
| "root (Node l x r) = Some x"

text \<open>
  \<open>skt h p t\<close>: following the child pointers from \<open>p\<close> spells out \<open>t\<close>, and every node but
  the root has the right parent pointer.
\<close>

fun skt :: "'n skew \<Rightarrow> 'n option \<Rightarrow> 'n tree \<Rightarrow> bool" where
  "skt h p Leaf \<longleftrightarrow> p = None"
| "skt h p (Node l x r) \<longleftrightarrow>
     p = Some x \<and> skt h (sk_left h x) l \<and> skt h (sk_right h x) r \<and>
     (\<forall>c. root l = Some c \<longrightarrow> sk_parent h c = Some x) \<and>
     (\<forall>c. root r = Some c \<longrightarrow> sk_parent h c = Some x)"

definition distinct_tree :: "'n tree \<Rightarrow> bool" where
  "distinct_tree t \<longleftrightarrow> distinct (inorder t)"

lemma distinct_tree_simps [simp]:
  "distinct_tree Leaf"
  "distinct_tree (Node l x r) \<longleftrightarrow>
     distinct_tree l \<and> distinct_tree r \<and> x \<notin> set_tree l \<and> x \<notin> set_tree r \<and>
     set_tree l \<inter> set_tree r = {}"
  by (auto simp: distinct_tree_def)

definition same_outside :: "'n set \<Rightarrow> 'n skew \<Rightarrow> 'n skew \<Rightarrow> bool" where
  "same_outside S h h' \<longleftrightarrow> (\<forall>n. n \<notin> S \<longrightarrow>
     sk_parent h' n = sk_parent h n \<and> sk_left h' n = sk_left h n \<and> sk_right h' n = sk_right h n)"

lemma root_in_set: "root t = Some c \<Longrightarrow> c \<in> set_tree t"
  by (cases t) auto

lemma skt_root: "skt h p t \<Longrightarrow> p = root t"
  by (cases t) auto

lemma skt_frame:
  "skt h p t \<Longrightarrow>
   (\<And>n. n \<in> set_tree t \<Longrightarrow> sk_left h' n = sk_left h n \<and> sk_right h' n = sk_right h n) \<Longrightarrow>
   (\<And>n. n \<in> set_tree t \<Longrightarrow> root t \<noteq> Some n \<Longrightarrow> sk_parent h' n = sk_parent h n) \<Longrightarrow>
   distinct_tree t \<Longrightarrow> skt h' p t"
proof (induction t arbitrary: p)
  case (Node l x r)
  from Node.prems(1,2) have c: "sk_left h' x = sk_left h x" "sk_right h' x = sk_right h x" by auto
  have "skt h' (sk_left h x) l" "skt h' (sk_right h x) r"
    using Node.prems by (auto intro!: Node.IH)
  moreover have "sk_parent h' c = sk_parent h c" if "root l = Some c \<or> root r = Some c" for c
    using that Node.prems(3) [of c] Node.prems(4) by (auto dest: root_in_set)
  ultimately show ?case using Node.prems(1) c by auto
qed simp

subsection \<open>Merging trees\<close>

function tmerge :: "('n \<Rightarrow> 'n \<Rightarrow> int) \<Rightarrow> 'n tree \<Rightarrow> 'n tree \<Rightarrow> 'n tree" where
  "tmerge cmp Leaf t = t"
| "tmerge cmp (Node l x r) Leaf = Node l x r"
| "tmerge cmp (Node l x r) (Node l' y r') =
     (if cmp x y = -1 then Node (tmerge cmp r (Node l' y r')) x l
      else Node (tmerge cmp (Node l x r) r') y l')"
  by pat_completeness auto
termination
  by (relation "measure (\<lambda>(c, s, t). size s + size t)") auto

fun tremove :: "('n \<Rightarrow> 'n \<Rightarrow> int) \<Rightarrow> 'n \<Rightarrow> 'n tree \<Rightarrow> 'n tree" where
  "tremove cmp b Leaf = Leaf"
| "tremove cmp b (Node l x r) =
     (if x = b then tmerge cmp l r else Node (tremove cmp b l) x (tremove cmp b r))"

lemma mset_tmerge: "mset (inorder (tmerge cmp s t)) = mset (inorder s) + mset (inorder t)"
  by (induction cmp s t rule: tmerge.induct) auto

lemma set_tmerge [simp]: "set_tree (tmerge cmp s t) = set_tree s \<union> set_tree t"
  by (induction cmp s t rule: tmerge.induct) auto

lemma distinct_tmerge:
  "distinct_tree (tmerge cmp s t) \<longleftrightarrow>
     distinct_tree s \<and> distinct_tree t \<and> set_tree s \<inter> set_tree t = {}"
proof -
  have "distinct_tree u \<longleftrightarrow> distinct (inorder u)" for u :: "'a tree" by (simp add: distinct_tree_def)
  moreover have "distinct (inorder (tmerge cmp s t)) \<longleftrightarrow> distinct (inorder s @ inorder t)"
    by (rule mset_eq_imp_distinct_iff) (simp add: mset_tmerge)
  ultimately show ?thesis by simp
qed

lemma tremove_id: "b \<notin> set_tree t \<Longrightarrow> tremove cmp b t = t"
  by (induction t) auto

lemma set_tremove: "distinct_tree t \<Longrightarrow> set_tree (tremove cmp b t) = set_tree t - {b}"
  by (induction t) auto

lemma distinct_tremove: "distinct_tree t \<Longrightarrow> distinct_tree (tremove cmp b t)"
  by (induction t) (auto simp: distinct_tmerge set_tremove)

subsection \<open>The pointer code implements the tree operations\<close>

lemma same_outside_trans:
  "same_outside S h h' \<Longrightarrow> same_outside T h' h'' \<Longrightarrow> S \<subseteq> U \<Longrightarrow> T \<subseteq> U \<Longrightarrow> same_outside U h h''"
  by (simp add: same_outside_def) (metis subsetD)

lemma skew_relink_fields:
  "sk_left (skew_relink h x l r) = (sk_left h)(x := l)"
  "sk_right (skew_relink h x l r) = (sk_right h)(x := r)"
  "sk_parent (skew_relink h x l r) =
     (case l of None \<Rightarrow> sk_parent h | Some c \<Rightarrow> (sk_parent h)(c := Some x))"
  by (auto simp: skew_relink_def Let_def split: option.split)

lemma skew_relink_tree:
  assumes u: "skt h1 l u" "distinct_tree u" "x \<notin> set_tree u"
    and v: "skt h p v" "distinct_tree v" "x \<notin> set_tree v" "set_tree u \<inter> set_tree v = {}"
    and out: "same_outside (set_tree u) h h1"
    and par: "\<forall>c. root v = Some c \<longrightarrow> sk_parent h c = Some x"
  shows "skt (skew_relink h1 x l p) (Some x) (Node u x v)"
    and "same_outside (insert x (set_tree u)) h (skew_relink h1 x l p)"
    and "sk_parent (skew_relink h1 x l p) x = sk_parent h x"
proof -
  let ?h = "skew_relink h1 x l p"
  have l: "l = root u" by (rule skt_root [OF u(1)])
  have lu: "l = Some c \<Longrightarrow> c \<in> set_tree u" for c using l by (auto dest: root_in_set)
  have "skt ?h l u"
  proof (rule skt_frame [OF u(1) _ _ u(2)])
    show "sk_left ?h n = sk_left h1 n \<and> sk_right ?h n = sk_right h1 n" if "n \<in> set_tree u" for n
      using that u(3) by (auto simp: skew_relink_fields)
    show "sk_parent ?h n = sk_parent h1 n" if "n \<in> set_tree u" "root u \<noteq> Some n" for n
      using that l by (auto simp: skew_relink_fields split: option.split)
  qed
  moreover have "skt ?h p v"
  proof (rule skt_frame [OF v(1) _ _ v(2)])
    show "sk_left ?h n = sk_left h n \<and> sk_right ?h n = sk_right h n" if "n \<in> set_tree v" for n
      using that v(3,4) out by (auto simp: skew_relink_fields same_outside_def)
    show "sk_parent ?h n = sk_parent h n" if "n \<in> set_tree v" "root v \<noteq> Some n" for n
      using that v(4) out lu by (auto simp: skew_relink_fields same_outside_def split: option.split)
  qed
  moreover have "sk_parent ?h c = Some x" if "root v = Some c" for c
    using par [rule_format, OF that] root_in_set [OF that] v(4) out lu
    by (auto simp: skew_relink_fields same_outside_def split: option.split)
  ultimately show "skt ?h (Some x) (Node u x v)"
    using l by (auto simp: skew_relink_fields)
  show "same_outside (insert x (set_tree u)) h ?h"
    using out lu by (auto simp: skew_relink_fields same_outside_def split: option.split)
  show "sk_parent ?h x = sk_parent h x"
    using out lu u(3) by (auto simp: skew_relink_fields same_outside_def split: option.split)
qed

lemma skew_heap_merge_tree:
  "skt h a s \<Longrightarrow> skt h b t \<Longrightarrow> distinct_tree s \<Longrightarrow> distinct_tree t \<Longrightarrow> set_tree s \<inter> set_tree t = {} \<Longrightarrow>
   \<exists>h'. skew_heap_merge cmp h a b = Some (h', root (tmerge cmp s t)) \<and>
        skt h' (root (tmerge cmp s t)) (tmerge cmp s t) \<and>
        same_outside (set_tree s \<union> set_tree t) h h' \<and>
        (\<forall>c. root (tmerge cmp s t) = Some c \<longrightarrow> sk_parent h' c = sk_parent h c)"
proof (induction cmp s t arbitrary: a b rule: tmerge.induct)
  case (1 cmp t)
  then show ?case by (subst skew_heap_merge.simps) (auto simp: same_outside_def dest: skt_root)
next
  case (2 cmp l x r)
  then show ?case by (subst skew_heap_merge.simps) (auto simp: same_outside_def)
next
  case (3 cmp l x r l' y r')
  let ?s = "Node l x r" and ?t = "Node l' y r'"
  have ab: "a = Some x" "b = Some y" using "3.prems" by auto
  show ?case
  proof (cases "cmp x y = -1")
    case True
    have "\<exists>h'. skew_heap_merge cmp h (sk_right h x) b = Some (h', root (tmerge cmp r ?t)) \<and>
        skt h' (root (tmerge cmp r ?t)) (tmerge cmp r ?t) \<and>
        same_outside (set_tree r \<union> set_tree ?t) h h' \<and>
        (\<forall>c. root (tmerge cmp r ?t) = Some c \<longrightarrow> sk_parent h' c = sk_parent h c)"
      using "3.prems" by (intro "3.IH"(1) [OF True]) auto
    then obtain h1 where m: "skew_heap_merge cmp h (sk_right h x) b = Some (h1, root (tmerge cmp r ?t))"
      and st: "skt h1 (root (tmerge cmp r ?t)) (tmerge cmp r ?t)"
      and out: "same_outside (set_tree (tmerge cmp r ?t)) h h1" by auto
    let ?h = "skew_relink h1 x (root (tmerge cmp r ?t)) (sk_left h x)"
    have "distinct_tree (tmerge cmp r ?t)" "x \<notin> set_tree (tmerge cmp r ?t)"
      and "skt h (sk_left h x) l" "distinct_tree l" "x \<notin> set_tree l"
      and "set_tree (tmerge cmp r ?t) \<inter> set_tree l = {}"
      and "\<forall>c. root l = Some c \<longrightarrow> sk_parent h c = Some x"
      using "3.prems" by (auto simp: distinct_tmerge)
    note rl = skew_relink_tree [OF st this(1-6) out this(7)]
    note o = rl(2)
    have "skt ?h (Some x) (Node (tmerge cmp r ?t) x l)" by (fact rl(1))
    moreover have "sk_parent ?h x = sk_parent h x" by (fact rl(3))
    moreover have "skew_heap_merge cmp h a b = Some (?h, Some x)"
      using m True ab by (subst skew_heap_merge.simps) simp
    moreover have "same_outside (set_tree ?s \<union> set_tree ?t) h ?h"
      using o by (auto simp: same_outside_def)
    ultimately show ?thesis using True by simp
  next
    case False
    have "\<exists>h'. skew_heap_merge cmp h a (sk_right h y) = Some (h', root (tmerge cmp ?s r')) \<and>
        skt h' (root (tmerge cmp ?s r')) (tmerge cmp ?s r') \<and>
        same_outside (set_tree ?s \<union> set_tree r') h h' \<and>
        (\<forall>c. root (tmerge cmp ?s r') = Some c \<longrightarrow> sk_parent h' c = sk_parent h c)"
      using "3.prems" by (intro "3.IH"(2) [OF False]) auto
    then obtain h1 where m: "skew_heap_merge cmp h a (sk_right h y) = Some (h1, root (tmerge cmp ?s r'))"
      and st: "skt h1 (root (tmerge cmp ?s r')) (tmerge cmp ?s r')"
      and out: "same_outside (set_tree (tmerge cmp ?s r')) h h1" by auto
    let ?h = "skew_relink h1 y (root (tmerge cmp ?s r')) (sk_left h y)"
    have "distinct_tree (tmerge cmp ?s r')" "y \<notin> set_tree (tmerge cmp ?s r')"
      and "skt h (sk_left h y) l'" "distinct_tree l'" "y \<notin> set_tree l'"
      and "set_tree (tmerge cmp ?s r') \<inter> set_tree l' = {}"
      and "\<forall>c. root l' = Some c \<longrightarrow> sk_parent h c = Some y"
      using "3.prems" by (auto simp: distinct_tmerge)
    note rl = skew_relink_tree [OF st this(1-6) out this(7)]
    note o = rl(2)
    have "skt ?h (Some y) (Node (tmerge cmp ?s r') y l')" by (fact rl(1))
    moreover have "sk_parent ?h y = sk_parent h y" by (fact rl(3))
    moreover have "skew_heap_merge cmp h a b = Some (?h, Some y)"
      using m False ab by (subst skew_heap_merge.simps) simp
    moreover have "same_outside (set_tree ?s \<union> set_tree ?t) h ?h"
      using o by (auto simp: same_outside_def)
    ultimately show ?thesis using False by simp
  qed
qed

text \<open>A whole heap: the root has no parent.\<close>

definition skew_heap :: "'n skew \<Rightarrow> 'n option \<Rightarrow> 'n tree \<Rightarrow> bool" where
  "skew_heap h a t \<longleftrightarrow>
     skt h a t \<and> distinct_tree t \<and> (\<forall>c. root t = Some c \<longrightarrow> sk_parent h c = None)"

lemma skew_heap_insert_tree:
  assumes "skew_heap h a t" and "b \<notin> set_tree t"
  shows "\<exists>h'. skew_heap_insert cmp h a b = Some (h', root (tmerge cmp t (Node Leaf b Leaf))) \<and>
     skew_heap h' (root (tmerge cmp t (Node Leaf b Leaf))) (tmerge cmp t (Node Leaf b Leaf)) \<and>
     same_outside (insert b (set_tree t)) h h'"
proof -
  let ?h = "skew_heap_init h b" and ?n = "Node Leaf b Leaf"
  from assms have t: "skt h a t" "distinct_tree t" "\<And>c. root t = Some c \<Longrightarrow> sk_parent h c = None"
    by (auto simp: skew_heap_def)
  have "skt ?h a t"
    by (rule skt_frame [OF t(1) _ _ t(2)]) (use assms(2) in \<open>auto simp: skew_heap_init_def\<close>)
  moreover have "skt ?h (Some b) ?n" by (simp add: skew_heap_init_def)
  moreover have "set_tree t \<inter> set_tree ?n = {}" using assms(2) by simp
  ultimately obtain h' where m: "skew_heap_merge cmp ?h a (Some b) = Some (h', root (tmerge cmp t ?n))"
    and s: "skt h' (root (tmerge cmp t ?n)) (tmerge cmp t ?n)"
    and o: "same_outside (set_tree t \<union> set_tree ?n) ?h h'"
    and p: "\<And>c. root (tmerge cmp t ?n) = Some c \<Longrightarrow> sk_parent h' c = sk_parent ?h c"
    using skew_heap_merge_tree [of ?h a t "Some b" ?n cmp] t(2) by auto
  have "root (tmerge cmp t ?n) = root t \<or> root (tmerge cmp t ?n) = Some b"
    by (cases t) auto
  then have "sk_parent h' c = None" if "root (tmerge cmp t ?n) = Some c" for c
    using p [OF that] that t(3) [of c] by (auto simp: skew_heap_init_def)
  moreover have "distinct_tree (tmerge cmp t ?n)" using t(2) assms(2) by (simp add: distinct_tmerge)
  moreover have "same_outside (insert b (set_tree t)) h h'"
    using o by (auto simp: same_outside_def skew_heap_init_def)
  ultimately show ?thesis using m s by (auto simp: skew_heap_insert_def skew_heap_def)
qed

lemma skew_heap_remove_step:
  assumes t: "skt h (Some b) (Node l b r)" "distinct_tree (Node l b r)"
  shows "\<exists>h2. skt h2 (root (tmerge cmp l r)) (tmerge cmp l r) \<and>
     same_outside (set_tree l \<union> set_tree r) h h2 \<and>
     (\<forall>c. root (tmerge cmp l r) = Some c \<longrightarrow> sk_parent h2 c = sk_parent h b) \<and>
     skew_heap_remove cmp h a b =
       (case sk_parent h b of
          Some q \<Rightarrow> Some (if sk_left h2 q = Some b then set_left q (root (tmerge cmp l r)) h2
                         else set_right q (root (tmerge cmp l r)) h2, a)
        | None \<Rightarrow> Some (h2, root (tmerge cmp l r)))"
proof -
  let ?u = "tmerge cmp l r"
  from t obtain h1 where m: "skew_heap_merge cmp h (sk_left h b) (sk_right h b) = Some (h1, root ?u)"
    and s: "skt h1 (root ?u) ?u" and o: "same_outside (set_tree ?u) h h1"
    using skew_heap_merge_tree [of h "sk_left h b" l "sk_right h b" r cmp] by auto
  let ?h2 = "case root ?u of None \<Rightarrow> h1 | Some c \<Rightarrow> set_parent c (sk_parent h b) h1"
  have "distinct_tree ?u" using t(2) by (simp add: distinct_tmerge)
  then have "skt ?h2 (root ?u) ?u"
    by (intro skt_frame [OF s]) (auto split: option.split)
  moreover have "same_outside (set_tree l \<union> set_tree r) h ?h2"
    using o root_in_set [of ?u] by (auto simp: same_outside_def split: option.split)
  moreover have "skew_heap_remove cmp h a b =
       (case sk_parent h b of
          Some q \<Rightarrow> Some (if sk_left ?h2 q = Some b then set_left q (root ?u) ?h2
                         else set_right q (root ?u) ?h2, a)
        | None \<Rightarrow> Some (?h2, root ?u))"
    by (simp add: skew_heap_remove_def m Let_def)
  ultimately show ?thesis by (intro exI [of _ ?h2]) auto
qed

lemma skew_heap_remove_child:
  assumes b: "skt h (Some b) v" "distinct_tree v" "root v = Some b" "sk_parent h b = Some x"
    and x: "x \<notin> set_tree v"
  shows "\<exists>h'. skew_heap_remove cmp h a b = Some (h', a) \<and>
     skt h' (root (tremove cmp b v)) (tremove cmp b v) \<and> same_outside (insert x (set_tree v)) h h' \<and>
     (\<forall>c. root (tremove cmp b v) = Some c \<longrightarrow> sk_parent h' c = Some x) \<and>
     sk_parent h' x = sk_parent h x \<and>
     sk_left h' x = (if sk_left h x = Some b then root (tremove cmp b v) else sk_left h x) \<and>
     sk_right h' x = (if sk_left h x = Some b then sk_right h x else root (tremove cmp b v))"
proof -
  from b(3) obtain l r where v: "v = Node l b r" by (cases v) auto
  let ?u = "tmerge cmp l r"
  from skew_heap_remove_step [of h b l r cmp a] b v obtain h2 where
    h2: "skt h2 (root ?u) ?u" "same_outside (set_tree l \<union> set_tree r) h h2"
      "\<And>c. root ?u = Some c \<Longrightarrow> sk_parent h2 c = Some x"
      "skew_heap_remove cmp h a b =
         Some (if sk_left h2 x = Some b then set_left x (root ?u) h2 else set_right x (root ?u) h2, a)"
    by auto
  let ?h = "if sk_left h2 x = Some b then set_left x (root ?u) h2 else set_right x (root ?u) h2"
  have "sk_left h2 x = sk_left h x" "sk_right h2 x = sk_right h x" "sk_parent h2 x = sk_parent h x"
    using h2(2) x v by (auto simp: same_outside_def)
  moreover have "skt ?h (root ?u) ?u"
    by (rule skt_frame [OF h2(1)]) (use x v b(2) in \<open>auto simp: distinct_tmerge\<close>)
  moreover have "same_outside (insert x (set_tree v)) h ?h"
    using h2(2) v by (auto simp: same_outside_def)
  ultimately show ?thesis using h2(3,4) v by (intro exI [of _ ?h]) auto
qed

text \<open>
  Removal below the root: the subtree at \<open>b\<close> is replaced by the merge of its children,
  and the pointer of its parent is redirected.
\<close>

lemma skew_heap_remove_inner:
  "skt h p t \<Longrightarrow> distinct_tree t \<Longrightarrow> b \<in> set_tree t \<Longrightarrow> root t \<noteq> Some b \<Longrightarrow>
   \<exists>h'. skew_heap_remove cmp h a b = Some (h', a) \<and> skt h' p (tremove cmp b t) \<and>
        same_outside (set_tree t) h h' \<and> (\<forall>c. root t = Some c \<longrightarrow> sk_parent h' c = sk_parent h c)"
proof (induction t arbitrary: p)
  case (Node l x r)
  have x: "p = Some x" "skt h (sk_left h x) l" "skt h (sk_right h x) r" "x \<noteq> b"
    and pl: "\<And>c. root l = Some c \<Longrightarrow> sk_parent h c = Some x"
    and pr: "\<And>c. root r = Some c \<Longrightarrow> sk_parent h c = Some x"
    and dis: "distinct_tree l" "distinct_tree r" "x \<notin> set_tree l" "x \<notin> set_tree r"
      "set_tree l \<inter> set_tree r = {}"
    using Node.prems by auto
  have lr: "sk_left h x = root l" "sk_right h x = root r"
    using x(2,3) by (auto dest: skt_root)
  consider (rootl) "root l = Some b" | (rootr) "root r = Some b"
    | (inl) "b \<in> set_tree l" "root l \<noteq> Some b" | (inr) "b \<in> set_tree r" "root r \<noteq> Some b"
    using Node.prems(3) x(4) by auto
  then show ?case
  proof cases
    case inl
    then obtain h' where h': "skew_heap_remove cmp h a b = Some (h', a)"
      "skt h' (sk_left h x) (tremove cmp b l)" "same_outside (set_tree l) h h'"
      "\<And>c. root l = Some c \<Longrightarrow> sk_parent h' c = sk_parent h c"
      using Node.IH(1) [OF x(2) dis(1)] by blast
    have "skt h' (sk_right h x) r"
      by (rule skt_frame [OF x(3) _ _ dis(2)]) (use h'(3) dis(5) in \<open>auto simp: same_outside_def\<close>)
    moreover have "root (tremove cmp b l) = root l" using inl(2) by (cases l) auto
    moreover have "sk_parent h' c = Some x" if "root r = Some c" for c
      using pr [OF that] root_in_set [OF that] h'(3) dis(5) by (auto simp: same_outside_def)
    moreover have "sk_left h' x = sk_left h x" "sk_right h' x = sk_right h x" "sk_parent h' x = sk_parent h x"
      using h'(3) dis(3) by (auto simp: same_outside_def)
    moreover have "tremove cmp b r = r" using inl(1) dis(5) by (intro tremove_id) auto
    moreover have "same_outside (set_tree (Node l x r)) h h'"
      using h'(3) by (auto simp: same_outside_def)
    ultimately show ?thesis using h' x pl by auto
  next
    case inr
    then obtain h' where h': "skew_heap_remove cmp h a b = Some (h', a)"
      "skt h' (sk_right h x) (tremove cmp b r)" "same_outside (set_tree r) h h'"
      "\<And>c. root r = Some c \<Longrightarrow> sk_parent h' c = sk_parent h c"
      using Node.IH(2) [OF x(3) dis(2)] by blast
    have "skt h' (sk_left h x) l"
      by (rule skt_frame [OF x(2) _ _ dis(1)]) (use h'(3) dis(5) in \<open>auto simp: same_outside_def\<close>)
    moreover have "root (tremove cmp b r) = root r" using inr(2) by (cases r) auto
    moreover have "sk_parent h' c = Some x" if "root l = Some c" for c
      using pl [OF that] root_in_set [OF that] h'(3) dis(5) by (auto simp: same_outside_def)
    moreover have "sk_left h' x = sk_left h x" "sk_right h' x = sk_right h x" "sk_parent h' x = sk_parent h x"
      using h'(3) dis(4) by (auto simp: same_outside_def)
    moreover have "tremove cmp b l = l" using inr(1) dis(5) by (intro tremove_id) auto
    moreover have "same_outside (set_tree (Node l x r)) h h'"
      using h'(3) by (auto simp: same_outside_def)
    ultimately show ?thesis using h' x pr by auto
  next
    case rootl
    then obtain h' where h': "skew_heap_remove cmp h a b = Some (h', a)"
      "skt h' (root (tremove cmp b l)) (tremove cmp b l)" "same_outside (insert x (set_tree l)) h h'"
      "\<And>c. root (tremove cmp b l) = Some c \<Longrightarrow> sk_parent h' c = Some x"
      "sk_parent h' x = sk_parent h x" "sk_left h' x = root (tremove cmp b l)" "sk_right h' x = sk_right h x"
      using skew_heap_remove_child [of h b l x cmp a] x(2) dis pl lr by auto
    have "skt h' (sk_right h x) r"
      by (rule skt_frame [OF x(3) _ _ dis(2)]) (use h'(3) dis in \<open>auto simp: same_outside_def\<close>)
    moreover have "sk_parent h' c = Some x" if "root r = Some c" for c
      using pr [OF that] root_in_set [OF that] h'(3) dis by (auto simp: same_outside_def)
    moreover have "tremove cmp b r = r" using root_in_set [OF rootl] dis(5) by (intro tremove_id) auto
    moreover have "same_outside (set_tree (Node l x r)) h h'"
      using h'(3) by (auto simp: same_outside_def)
    ultimately show ?thesis using h' x by auto
  next
    case rootr
    with dis(5) have "sk_left h x \<noteq> Some b" by (auto simp: lr dest: root_in_set)
    with rootr obtain h' where h': "skew_heap_remove cmp h a b = Some (h', a)"
      "skt h' (root (tremove cmp b r)) (tremove cmp b r)" "same_outside (insert x (set_tree r)) h h'"
      "\<And>c. root (tremove cmp b r) = Some c \<Longrightarrow> sk_parent h' c = Some x"
      "sk_parent h' x = sk_parent h x" "sk_left h' x = sk_left h x" "sk_right h' x = root (tremove cmp b r)"
      using skew_heap_remove_child [of h b r x cmp a] x(3) dis pr lr by auto
    have "skt h' (sk_left h x) l"
      by (rule skt_frame [OF x(2) _ _ dis(1)]) (use h'(3) dis in \<open>auto simp: same_outside_def\<close>)
    moreover have "sk_parent h' c = Some x" if "root l = Some c" for c
      using pl [OF that] root_in_set [OF that] h'(3) dis by (auto simp: same_outside_def)
    moreover have "tremove cmp b l = l" using root_in_set [OF rootr] dis(5) by (intro tremove_id) auto
    moreover have "same_outside (set_tree (Node l x r)) h h'"
      using h'(3) by (auto simp: same_outside_def)
    ultimately show ?thesis using h' x by auto
  qed
qed simp

lemma skew_heap_remove_tree:
  assumes h: "skew_heap h a t" and b: "b \<in> set_tree t"
  shows "\<exists>h'. skew_heap_remove cmp h a b = Some (h', root (tremove cmp b t)) \<and>
     skew_heap h' (root (tremove cmp b t)) (tremove cmp b t) \<and> same_outside (set_tree t) h h'"
proof -
  from h have t: "skt h a t" "distinct_tree t" "\<And>c. root t = Some c \<Longrightarrow> sk_parent h c = None"
    by (auto simp: skew_heap_def)
  have d: "distinct_tree (tremove cmp b t)" by (rule distinct_tremove [OF t(2)])
  show ?thesis
  proof (cases "root t = Some b")
    case True
    then obtain l r where tt: "t = Node l b r" by (cases t) auto
    with t True obtain h2 where "skt h2 (root (tmerge cmp l r)) (tmerge cmp l r)"
      "same_outside (set_tree l \<union> set_tree r) h h2"
      "\<And>c. root (tmerge cmp l r) = Some c \<Longrightarrow> sk_parent h2 c = None"
      "skew_heap_remove cmp h a b = Some (h2, root (tmerge cmp l r))"
      using skew_heap_remove_step [of h b l r cmp a] by auto
    with tt d show ?thesis by (auto simp: skew_heap_def same_outside_def)
  next
    case False
    from skew_heap_remove_inner [OF t(1,2) b False] obtain h' where
      h': "skew_heap_remove cmp h a b = Some (h', a)" "skt h' a (tremove cmp b t)"
        "same_outside (set_tree t) h h'" "\<And>c. root t = Some c \<Longrightarrow> sk_parent h' c = sk_parent h c"
      by blast
    have "root (tremove cmp b t) = root t" using False by (cases t) auto
    with h' t d show ?thesis using skt_root [OF h'(2)] by (auto simp: skew_heap_def)
  qed
qed

subsection \<open>Heap order\<close>

fun heap_by :: "('n \<Rightarrow> nat) \<Rightarrow> 'n tree \<Rightarrow> bool" where
  "heap_by key Leaf \<longleftrightarrow> True"
| "heap_by key (Node l x r) \<longleftrightarrow>
     (\<forall>y \<in> set_tree l \<union> set_tree r. key x \<le> key y) \<and> heap_by key l \<and> heap_by key r"

text \<open>The comparison function agrees with the keys on a set of nodes.\<close>

definition cmp_by :: "('n \<Rightarrow> nat) \<Rightarrow> ('n \<Rightarrow> 'n \<Rightarrow> int) \<Rightarrow> 'n set \<Rightarrow> bool" where
  "cmp_by key cmp S \<longleftrightarrow> (\<forall>x \<in> S. \<forall>y \<in> S. cmp x y = -1 \<longleftrightarrow> key x < key y)"

lemma cmp_by_subset: "cmp_by key cmp S \<Longrightarrow> T \<subseteq> S \<Longrightarrow> cmp_by key cmp T"
  by (auto simp: cmp_by_def)

lemma heap_by_tmerge:
  "cmp_by key cmp (set_tree s \<union> set_tree t) \<Longrightarrow> heap_by key s \<Longrightarrow> heap_by key t \<Longrightarrow>
     heap_by key (tmerge cmp s t)"
proof (induction cmp s t rule: tmerge.induct)
  case (3 cmp l x r l' y r')
  show ?case
  proof (cases "cmp x y = -1")
    case True
    with "3.prems"(1) have "key x < key y" by (auto simp: cmp_by_def)
    moreover have "heap_by key (tmerge cmp r (Node l' y r'))"
      using "3.prems" by (intro "3.IH"(1) [OF True]) (auto intro: cmp_by_subset)
    ultimately show ?thesis using True "3.prems"(2,3) by (auto intro: order_trans less_imp_le)
  next
    case False
    with "3.prems"(1) have "key y \<le> key x" by (auto simp: cmp_by_def not_less)
    moreover have "heap_by key (tmerge cmp (Node l x r) r')"
      using "3.prems" by (intro "3.IH"(2) [OF False]) (auto intro: cmp_by_subset)
    ultimately show ?thesis using False "3.prems"(2,3) by (auto intro: order_trans)
  qed
qed auto

lemma heap_by_tremove:
  "cmp_by key cmp (set_tree t) \<Longrightarrow> heap_by key t \<Longrightarrow> distinct_tree t \<Longrightarrow> heap_by key (tremove cmp b t)"
proof (induction t)
  case (Node l x r)
  have "cmp_by key cmp (set_tree l)" "cmp_by key cmp (set_tree r)"
    and "cmp_by key cmp (set_tree l \<union> set_tree r)"
    using Node.prems(1) by (auto elim: cmp_by_subset)
  with Node show ?case by (auto simp: set_tremove intro: heap_by_tmerge)
qed simp

lemma heap_by_root: "heap_by key t \<Longrightarrow> root t = Some x \<Longrightarrow> y \<in> set_tree t \<Longrightarrow> key x \<le> key y"
  by (cases t) auto

lemma heap_by_cong: "heap_by k t = heap_by k' t" if "\<And>x. x \<in> set_tree t \<Longrightarrow> k x = k' x"
  using that by (induction t) auto

lemma tree_lex_root: "set_tree t = {} \<longleftrightarrow> root t = None"
  by (cases t) auto

subsection \<open>Properties\<close>

text \<open>Inserting a new node into a well-formed skew heap whose comparison is by a key returns a
  well-formed heap (parent links included) on exactly the old nodes and the new one, still
  ordered by the key, without touching the links of any other node.\<close>

theorem skew_heap_insert_heap:
  assumes "skew_heap h a t" "b \<notin> set_tree t" "heap_by key t" "cmp_by key cmp (insert b (set_tree t))"
  shows "\<exists>h' a' t'. skew_heap_insert cmp h a b = Some (h', a') \<and> skew_heap h' a' t' \<and>
     set_tree t' = insert b (set_tree t) \<and> heap_by key t' \<and> same_outside (insert b (set_tree t)) h h'"
proof -
  let ?t = "tmerge cmp t (Node Leaf b Leaf)"
  have "heap_by key ?t" using assms by (intro heap_by_tmerge) auto
  moreover have "set_tree ?t = insert b (set_tree t)" by simp
  ultimately show ?thesis using skew_heap_insert_tree [OF assms(1,2), of cmp] by blast
qed

text \<open>Removing any node of a well-formed skew heap, wherever it is, returns a well-formed heap
  on exactly the remaining nodes, still ordered by the key, and the root of an ordered heap is a
  node of least key.\<close>

theorem skew_heap_remove_heap:
  assumes "skew_heap h a t" "b \<in> set_tree t" "heap_by key t" "cmp_by key cmp (set_tree t)"
  shows "\<exists>h' a' t'. skew_heap_remove cmp h a b = Some (h', a') \<and> skew_heap h' a' t' \<and>
     set_tree t' = set_tree t - {b} \<and> heap_by key t' \<and>
     (\<forall>x. a' = Some x \<longrightarrow> (\<forall>y \<in> set_tree t - {b}. key x \<le> key y))"
proof -
  let ?t = "tremove cmp b t"
  have d: "distinct_tree t" using assms(1) by (simp add: skew_heap_def)
  have "heap_by key ?t" by (rule heap_by_tremove [OF assms(4,3) d])
  moreover have "set_tree ?t = set_tree t - {b}" using d by (rule set_tremove)
  ultimately show ?thesis
    using skew_heap_remove_tree [OF assms(1,2), of cmp] heap_by_root [of key ?t] by metis
qed

definition empty_skew :: "nat skew" where
  "empty_skew = \<lparr>sk_parent = \<lambda>_. None, sk_left = \<lambda>_. None, sk_right = \<lambda>_. None\<rparr>"

definition nat_cmp :: "nat \<Rightarrow> nat \<Rightarrow> int" where
  "nat_cmp a b = sgn (int a - int b)"

lemma nat_cmp_by: "cmp_by id nat_cmp S"
  by (auto simp: cmp_by_def nat_cmp_def sgn_if)

lemma empty_skew_heap: "skew_heap empty_skew None Leaf"
  by (simp add: skew_heap_def)

theorem skew_heap_insert_heap_witness:
  "\<exists>h' a' t'. skew_heap_insert nat_cmp empty_skew None 3 = Some (h', a') \<and> skew_heap h' a' t' \<and> set_tree t' = {3}"
  using skew_heap_insert_heap [OF empty_skew_heap, of 3 id nat_cmp] nat_cmp_by by fastforce

theorem skew_heap_remove_heap_witness:
  "\<exists>h1 a1 h2 a2 t2. skew_heap_insert nat_cmp empty_skew None 3 = Some (h1, a1) \<and>
     skew_heap_remove nat_cmp h1 a1 3 = Some (h2, a2) \<and> skew_heap h2 a2 t2 \<and> set_tree t2 = {}"
proof -
  let ?t = "Node Leaf 3 Leaf"
  obtain h1 where h1: "skew_heap_insert nat_cmp empty_skew None 3 = Some (h1, Some 3)" "skew_heap h1 (Some 3) ?t"
    using skew_heap_insert_tree [OF empty_skew_heap, of 3 nat_cmp] by auto
  from skew_heap_remove_heap [OF h1(2), of 3 id nat_cmp] nat_cmp_by h1(1) show ?thesis by fastforce
qed

end
