(* ===== verification/ProcTypes.thy ===== *)
theory ProcTypes
  imports DList SkewHeap
begin

text \<open>
  The process control block of \<^verbatim>\<open>kern/process/proc.h\<close> and the run queue of
  \<^verbatim>\<open>kern/schedule/sched.h\<close>. A process pointer is the number of a block in the process
  store. The intrusive nodes embedded in a block (\<open>lab6_run_pool\<close>, \<open>timer_link\<close>, \<dots>) are
  kept in the stores of \<^verbatim>\<open>DList\<close> and \<^verbatim>\<open>SkewHeap\<close>, indexed by the block.
\<close>

datatype proc_state = PROC_UNINIT | PROC_SLEEPING | PROC_RUNNABLE | PROC_ZOMBIE

type_synonym proc_ptr = nat

record proc_struct =
  state :: proc_state
  pid :: int
  runs :: int
  kstack :: u32
  need_resched :: bool
  parent :: "proc_ptr option"
  mm :: "nat option"
  cr3 :: u32
  flags :: u32
  exit_code :: int
  wait_state :: u32
  cptr :: "proc_ptr option"
  yptr :: "proc_ptr option"
  optr :: "proc_ptr option"
  time_slice :: int
  lab6_stride :: u32
  lab6_priority :: u32
  filesp :: "nat option"

definition PF_EXITING :: u32 where "PF_EXITING = 0x00000001"
definition WT_INTERRUPTED :: u32 where "WT_INTERRUPTED = 0x80000000"
definition WT_CHILD :: u32 where "WT_CHILD = (0x00000001 OR WT_INTERRUPTED)"
definition WT_KSEM :: u32 where "WT_KSEM = 0x00000100"
definition WT_TIMER :: u32 where "WT_TIMER = (0x00000002 OR WT_INTERRUPTED)"
definition WT_KBD :: u32 where "WT_KBD = (0x00000004 OR WT_INTERRUPTED)"

lemmas wait_flags = PF_EXITING_def WT_INTERRUPTED_def WT_CHILD_def WT_KSEM_def WT_TIMER_def WT_KBD_def

text \<open>The head of the run list is \<open>None\<close>; \<open>Some p\<close> is the \<open>run_link\<close> of \<open>p\<close>.\<close>

record run_queue =
  run_list :: "proc_ptr option links"
  proc_num :: u32
  max_time_slice :: int
  lab6_run_pool :: "proc_ptr option"

text \<open>\<open>timer_t\<close> of sched.h, but for its link.\<close>

record timer =
  expires :: u32
  timer_proc :: "proc_ptr option"

text \<open>
  The scheduler's part of the kernel state: the process store, the run queue with the
  embedded heap nodes, the timer list (\<open>None\<close> is \<open>timer_list\<close>, \<open>Some t\<close> the link of
  timer \<open>t\<close>), the globals \<open>current\<close> and \<open>idleproc\<close>, and the two machine registers that a
  context switch loads (the kernel stack of the task state segment and \<open>cr3\<close>).
\<close>

record sched_state =
  procs :: "proc_ptr \<Rightarrow> proc_struct"
  pool :: "proc_ptr skew"
  rq :: run_queue
  timer_links :: "nat option links"
  timers :: "nat \<Rightarrow> timer"
  current :: proc_ptr
  idleproc :: proc_ptr
  ts_esp0 :: u32
  cpu_cr3 :: u32

abbreviation upd_proc :: "proc_ptr \<Rightarrow> (proc_struct \<Rightarrow> proc_struct) \<Rightarrow> sched_state \<Rightarrow> sched_state" where
  "upd_proc p f s \<equiv> s\<lparr>procs := (procs s)(p := f (procs s p))\<rparr>"

abbreviation upd_timer :: "nat \<Rightarrow> (timer \<Rightarrow> timer) \<Rightarrow> sched_state \<Rightarrow> sched_state" where
  "upd_timer t f s \<equiv> s\<lparr>timers := (timers s)(t := f (timers s t))\<rparr>"

end
