(* ===== verification/StrideSched.thy ===== *)
theory StrideSched
  imports ProcTypes
begin

text \<open>
  The stride scheduler \<^verbatim>\<open>kern/schedule/default_sched.c\<close> (with \<open>USE_SKEW_HEAP\<close>), the
  interface \<open>struct sched_class\<close> it implements, and the facts that make stride scheduling
  work on 32-bit strides that wrap around.
\<close>

definition BIG_STRIDE :: u32 where "BIG_STRIDE = 0x7FFFFFFF"

text \<open>The signed view of a wrapping 32-bit difference decides.\<close>

definition proc_stride_comp_f :: "(proc_ptr \<Rightarrow> proc_struct) \<Rightarrow> proc_ptr \<Rightarrow> proc_ptr \<Rightarrow> int" where
  "proc_stride_comp_f ps a b =
     (let c = sint (lab6_stride (ps a) - lab6_stride (ps b))
      in if c > 0 then 1 else if c = 0 then 0 else -1)"

definition stride_init :: "sched_state \<Rightarrow> sched_state" where
  "stride_init s =
     s\<lparr>rq := (rq s)\<lparr>run_list := list_init (run_list (rq s)) None, lab6_run_pool := None, proc_num := 0\<rparr>\<rparr>"

definition stride_enqueue :: "sched_state \<Rightarrow> proc_ptr \<Rightarrow> sched_state outcome" where
  "stride_enqueue s p =
     bind_outcome
       (of_option (skew_heap_insert (proc_stride_comp_f (procs s)) (pool s) (lab6_run_pool (rq s)) p))
       (\<lambda>(h, root').
          let s1 = s\<lparr>pool := h, rq := (rq s)\<lparr>lab6_run_pool := root'\<rparr>\<rparr>;
              ts = time_slice (procs s1 p);
              s2 = (if ts = 0 \<or> ts > max_time_slice (rq s1)
                    then upd_proc p (time_slice_update (\<lambda>_. max_time_slice (rq s1))) s1 else s1)
          in Ret (s2\<lparr>rq := (rq s2)\<lparr>proc_num := proc_num (rq s2) + 1\<rparr>\<rparr>))"

definition stride_dequeue :: "sched_state \<Rightarrow> proc_ptr \<Rightarrow> sched_state outcome" where
  "stride_dequeue s p =
     bind_outcome
       (of_option (skew_heap_remove (proc_stride_comp_f (procs s)) (pool s) (lab6_run_pool (rq s)) p))
       (\<lambda>(h, root').
          Ret (s\<lparr>pool := h, rq := (rq s)\<lparr>lab6_run_pool := root', proc_num := proc_num (rq s) - 1\<rparr>\<rparr>))"

definition stride_pick_next :: "sched_state \<Rightarrow> sched_state \<times> proc_ptr option" where
  "stride_pick_next s =
     (case lab6_run_pool (rq s) of
        None \<Rightarrow> (s, None)
      | Some p \<Rightarrow>
          (upd_proc p (\<lambda>x. x\<lparr>lab6_stride := lab6_stride x +
              (if lab6_priority x = 0 then BIG_STRIDE else BIG_STRIDE div lab6_priority x)\<rparr>) s,
           Some p))"

definition stride_proc_tick :: "sched_state \<Rightarrow> proc_ptr \<Rightarrow> sched_state" where
  "stride_proc_tick s p =
     (let s1 = (if time_slice (procs s p) > 0
                then upd_proc p (time_slice_update (\<lambda>t. t - 1)) s else s)
      in if time_slice (procs s1 p) = 0 then upd_proc p (need_resched_update (\<lambda>_. True)) s1 else s1)"

subsection \<open>struct sched_class\<close>

record sched_class =
  sc_init :: "sched_state \<Rightarrow> sched_state"
  sc_enqueue :: "sched_state \<Rightarrow> proc_ptr \<Rightarrow> sched_state outcome"
  sc_dequeue :: "sched_state \<Rightarrow> proc_ptr \<Rightarrow> sched_state outcome"
  sc_pick_next :: "sched_state \<Rightarrow> sched_state \<times> proc_ptr option"
  sc_proc_tick :: "sched_state \<Rightarrow> proc_ptr \<Rightarrow> sched_state"

definition default_sched_class :: sched_class where
  "default_sched_class =
     \<lparr>sc_init = stride_init, sc_enqueue = stride_enqueue, sc_dequeue = stride_dequeue,
      sc_pick_next = stride_pick_next, sc_proc_tick = stride_proc_tick\<rparr>"

lemma default_sched_class_sel [simp]:
  "sc_init default_sched_class = stride_init"
  "sc_enqueue default_sched_class = stride_enqueue"
  "sc_dequeue default_sched_class = stride_dequeue"
  "sc_pick_next default_sched_class = stride_pick_next"
  "sc_proc_tick default_sched_class = stride_proc_tick"
  by (simp_all add: default_sched_class_def)

subsection \<open>Comparing strides that wrap\<close>

text \<open>
  A window: counted from \<open>b\<close>, no stride of \<open>S\<close> is further than \<open>BIG_STRIDE\<close>. Inside a
  window the signed 32-bit comparison is the order of the distances from \<open>b\<close>.
\<close>

definition stride_key :: "u32 \<Rightarrow> (proc_ptr \<Rightarrow> proc_struct) \<Rightarrow> proc_ptr \<Rightarrow> nat" where
  "stride_key b ps p = unat (lab6_stride (ps p) - b)"

definition in_window :: "u32 \<Rightarrow> (proc_ptr \<Rightarrow> proc_struct) \<Rightarrow> proc_ptr set \<Rightarrow> bool" where
  "in_window b ps S \<longleftrightarrow> (\<forall>p \<in> S. stride_key b ps p \<le> unat BIG_STRIDE)"

lemma signed_take_bit_diff:
  fixes a b :: nat
  assumes "a < 2147483648" "b < 2147483648"
  shows "signed_take_bit 31 (int a - int b) = int a - int b"
proof (rule signed_take_bit_int_eq_self)
  show "- (2 ^ 31) \<le> int a - int b" using assms(2) by simp
  show "int a - int b < 2 ^ 31" using assms(1) by simp
qed

lemma sint_diff_window:
  fixes x y :: u32
  assumes "unat x < 2147483648" "unat y < 2147483648"
  shows "sint (x - y) = int (unat x) - int (unat y)"
proof -
  have pos: "sint w = int (unat w)" if "unat w < 2147483648" for w :: u32
    using signed_take_bit_diff [OF that, of 0] by (simp add: sint_uint)
  have "sint (x - y) = signed_take_bit 31 (sint x - sint y)"
    by (simp add: sint_word_ariths)
  then show ?thesis
    by (simp only: pos [OF assms(1)] pos [OF assms(2)] signed_take_bit_diff [OF assms])
qed

lemma proc_stride_comp_window:
  assumes "in_window b ps S" "p \<in> S" "q \<in> S"
  shows "proc_stride_comp_f ps p q = sgn (int (stride_key b ps p) - int (stride_key b ps q))"
proof -
  let ?x = "lab6_stride (ps p) - b" and ?y = "lab6_stride (ps q) - b"
  have "unat ?x < 2147483648" "unat ?y < 2147483648"
    using bspec [OF assms(1) [unfolded in_window_def] assms(2)]
      bspec [OF assms(1) [unfolded in_window_def] assms(3)]
    by (simp_all add: stride_key_def BIG_STRIDE_def)
  then have "sint (?x - ?y) = int (unat ?x) - int (unat ?y)" by (rule sint_diff_window)
  then have "sint (lab6_stride (ps p) - lab6_stride (ps q)) =
      int (stride_key b ps p) - int (stride_key b ps q)" by (simp add: stride_key_def)
  then show ?thesis by (simp only: proc_stride_comp_f_def Let_def sgn_if) auto
qed

lemma cmp_by_window: "in_window b ps S \<Longrightarrow> cmp_by (stride_key b ps) (proc_stride_comp_f ps) S"
  by (auto simp: cmp_by_def proc_stride_comp_window sgn_if)

subsection \<open>The run queue\<close>

text \<open>
  The contract of a run queue that holds exactly \<open>Q\<close>: the pool is a well-formed heap on
  \<open>Q\<close> and \<open>proc_num\<close> counts it.
\<close>

definition rq_holds :: "sched_state \<Rightarrow> proc_ptr set \<Rightarrow> bool" where
  "rq_holds s Q \<longleftrightarrow>
     (\<exists>t. skew_heap (pool s) (lab6_run_pool (rq s)) t \<and> set_tree t = Q \<and>
          proc_num (rq s) = of_nat (size t))"

text \<open>What the scheduling class may not touch: everything but strides, slices and flags.\<close>

definition same_proc :: "proc_struct \<Rightarrow> proc_struct \<Rightarrow> bool" where
  "same_proc x y \<longleftrightarrow>
     y = x\<lparr>time_slice := time_slice y, lab6_stride := lab6_stride y, need_resched := need_resched y\<rparr>"

definition same_sched :: "sched_state \<Rightarrow> sched_state \<Rightarrow> bool" where
  "same_sched s s' \<longleftrightarrow>
     (\<forall>p. same_proc (procs s p) (procs s' p)) \<and> current s' = current s \<and> idleproc s' = idleproc s \<and>
     timer_links s' = timer_links s \<and> timers s' = timers s"

lemma same_proc_refl [simp]: "same_proc x x"
  by (simp add: same_proc_def)

lemma same_proc_state: "same_proc x y \<Longrightarrow> state y = state x"
  unfolding same_proc_def by (metis proc_struct.select_convs(1) proc_struct.surjective proc_struct.update_convs(15-16) proc_struct.update_convs(5))

lemma same_proc_wait: "same_proc x y \<Longrightarrow> wait_state y = wait_state x"
  unfolding same_proc_def by (cases x; cases y) simp

lemma size_tmerge: "size (tmerge cmp s t) = size s + size t"
  by (induction cmp s t rule: tmerge.induct) auto

lemma size_tremove: "distinct_tree t \<Longrightarrow> b \<in> set_tree t \<Longrightarrow> Suc (size (tremove cmp b t)) = size t"
proof (induction t)
  case (Node l x r)
  then consider "x = b" | "x \<noteq> b" "b \<in> set_tree l" "b \<notin> set_tree r"
    | "x \<noteq> b" "b \<in> set_tree r" "b \<notin> set_tree l" by auto
  then show ?case using Node by cases (auto simp: size_tmerge tremove_id)
qed simp

lemma stride_enqueue_holds:
  assumes "rq_holds s Q" "p \<notin> Q"
  shows "\<exists>s'. stride_enqueue s p = Ret s' \<and> rq_holds s' (insert p Q) \<and> same_sched s s' \<and>
     (\<forall>q. lab6_stride (procs s' q) = lab6_stride (procs s q))"
proof -
  let ?cmp = "proc_stride_comp_f (procs s)"
  from assms(1) obtain t where t: "skew_heap (pool s) (lab6_run_pool (rq s)) t" "set_tree t = Q"
    "proc_num (rq s) = of_nat (size t)" by (auto simp: rq_holds_def)
  let ?t = "tmerge ?cmp t (Node Leaf p Leaf)"
  obtain h' where h': "skew_heap_insert ?cmp (pool s) (lab6_run_pool (rq s)) p = Some (h', root ?t)"
    "skew_heap h' (root ?t) ?t"
    using skew_heap_insert_tree [OF t(1), of p ?cmp] assms(2) t(2) by auto
  obtain s' where s': "stride_enqueue s p = Ret s'"
    "pool s' = h'" "lab6_run_pool (rq s') = root ?t" "proc_num (rq s') = proc_num (rq s) + 1"
    "same_sched s s'" "\<And>q. lab6_stride (procs s' q) = lab6_stride (procs s q)"
    by (simp add: stride_enqueue_def h'(1) Let_def same_sched_def same_proc_def)
  have "rq_holds s' (insert p Q)"
    using s'(2-4) h'(2) t by (auto simp: rq_holds_def size_tmerge intro!: exI [of _ ?t])
  with s' show ?thesis by blast
qed

lemma stride_dequeue_holds:
  assumes "rq_holds s Q" "p \<in> Q"
  shows "\<exists>s'. stride_dequeue s p = Ret s' \<and> rq_holds s' (Q - {p}) \<and> same_sched s s' \<and>
     procs s' = procs s"
proof -
  let ?cmp = "proc_stride_comp_f (procs s)"
  from assms(1) obtain t where t: "skew_heap (pool s) (lab6_run_pool (rq s)) t" "set_tree t = Q"
    "proc_num (rq s) = of_nat (size t)" by (auto simp: rq_holds_def)
  have d: "distinct_tree t" using t(1) by (simp add: skew_heap_def)
  let ?t = "tremove ?cmp p t"
  obtain h' where h': "skew_heap_remove ?cmp (pool s) (lab6_run_pool (rq s)) p = Some (h', root ?t)"
    "skew_heap h' (root ?t) ?t"
    using skew_heap_remove_tree [OF t(1), of p ?cmp] assms(2) t(2) by auto
  let ?s = "s\<lparr>pool := h', rq := (rq s)\<lparr>lab6_run_pool := root ?t, proc_num := proc_num (rq s) - 1\<rparr>\<rparr>"
  have "Suc (size ?t) = size t" using d assms(2) t(2) by (intro size_tremove) auto
  then have "proc_num (rq s) - 1 = of_nat (size ?t)" using t(3) by (metis add_diff_cancel_right' of_nat_1 of_nat_add Suc_eq_plus1)
  then have "rq_holds ?s (Q - {p})"
    using h'(2) t(2) d by (auto simp: rq_holds_def set_tremove intro!: exI [of _ ?t])
  moreover have "stride_dequeue s p = Ret ?s"
    by (simp add: stride_dequeue_def h'(1))
  ultimately show ?thesis by (auto simp: same_sched_def)
qed

lemma stride_pick_next_holds:
  assumes "rq_holds s Q" "stride_pick_next s = (s', r)"
  shows "rq_holds s' Q" "same_sched s s'" "r = None \<longleftrightarrow> Q = {}" "r = Some p \<Longrightarrow> p \<in> Q"
proof -
  from assms(1) obtain t where t: "skew_heap (pool s) (lab6_run_pool (rq s)) t" "set_tree t = Q"
    "proc_num (rq s) = of_nat (size t)" by (auto simp: rq_holds_def)
  have root: "lab6_run_pool (rq s) = root t" using t(1) by (auto simp: skew_heap_def dest: skt_root)
  from assms(2) have same: "pool s' = pool s" "rq s' = rq s" "r = root t"
    by (auto simp: stride_pick_next_def root split: option.splits)
  with t show "rq_holds s' Q" by (auto simp: rq_holds_def)
  show "same_sched s s'"
    using assms(2) by (auto simp: stride_pick_next_def same_sched_def same_proc_def split: option.splits)
  show "r = None \<longleftrightarrow> Q = {}" using t(2) same(3) by (auto simp: tree_lex_root [symmetric])
  show "p \<in> Q" if "r = Some p" using that t(2) same(3) root_in_set [of t p] by simp
qed

lemma stride_proc_tick_holds: "rq_holds s Q \<Longrightarrow> rq_holds (stride_proc_tick s p) Q"
  by (auto simp: stride_proc_tick_def rq_holds_def Let_def)

lemma stride_proc_tick_same: "same_sched s (stride_proc_tick s p)"
  by (auto simp: stride_proc_tick_def same_sched_def same_proc_def Let_def)

subsection \<open>The contract of a scheduling class\<close>

text \<open>
  What \<^verbatim>\<open>sched.c\<close> relies on when it calls through \<open>struct sched_class\<close>.
\<close>

locale sched_class_contract =
  fixes sc :: sched_class
    and holds :: "sched_state \<Rightarrow> proc_ptr set \<Rightarrow> bool"
  assumes enqueue_contract: "holds s Q \<Longrightarrow> p \<notin> Q \<Longrightarrow>
      \<exists>s'. sc_enqueue sc s p = Ret s' \<and> holds s' (insert p Q) \<and> same_sched s s'"
    and dequeue_contract: "holds s Q \<Longrightarrow> p \<in> Q \<Longrightarrow>
      \<exists>s'. sc_dequeue sc s p = Ret s' \<and> holds s' (Q - {p}) \<and> same_sched s s'"
    and pick_next_contract: "holds s Q \<Longrightarrow> sc_pick_next sc s = (s', r) \<Longrightarrow>
      holds s' Q \<and> same_sched s s' \<and> (r = None \<longleftrightarrow> Q = {}) \<and> (\<forall>p. r = Some p \<longrightarrow> p \<in> Q)"
    and proc_tick_contract: "holds s Q \<Longrightarrow> holds (sc_proc_tick sc s p) Q \<and> same_sched s (sc_proc_tick sc s p)"
    and holds_frame: "holds s Q \<Longrightarrow> pool s' = pool s \<Longrightarrow> rq s' = rq s \<Longrightarrow> holds s' Q"

interpretation stride: sched_class_contract default_sched_class rq_holds
proof
  show "\<exists>s'. sc_enqueue default_sched_class s p = Ret s' \<and> rq_holds s' (insert p Q) \<and> same_sched s s'"
    if "rq_holds s Q" "p \<notin> Q" for s Q p
    using stride_enqueue_holds [OF that] by auto
  show "\<exists>s'. sc_dequeue default_sched_class s p = Ret s' \<and> rq_holds s' (Q - {p}) \<and> same_sched s s'"
    if "rq_holds s Q" "p \<in> Q" for s Q p
    using stride_dequeue_holds [OF that] by auto
  show "rq_holds s' Q \<and> same_sched s s' \<and> (r = None \<longleftrightarrow> Q = {}) \<and> (\<forall>p. r = Some p \<longrightarrow> p \<in> Q)"
    if "rq_holds s Q" "sc_pick_next default_sched_class s = (s', r)" for s Q s' r
    using stride_pick_next_holds [OF that(1), of s' r] that(2) by auto
  show "rq_holds (sc_proc_tick default_sched_class s p) Q \<and> same_sched s (sc_proc_tick default_sched_class s p)"
    if "rq_holds s Q" for s Q p
    using that by (simp add: stride_proc_tick_holds stride_proc_tick_same)
  show "rq_holds s' Q" if "rq_holds s Q" "pool s' = pool s" "rq s' = rq s" for s Q s'
    using that by (simp add: rq_holds_def)
qed

subsection \<open>The least stride runs, and the window moves with it\<close>

definition stride_ok :: "sched_state \<Rightarrow> proc_ptr set \<Rightarrow> u32 \<Rightarrow> bool" where
  "stride_ok s Q b \<longleftrightarrow>
     (\<exists>t. skew_heap (pool s) (lab6_run_pool (rq s)) t \<and> set_tree t = Q \<and>
          heap_by (stride_key b (procs s)) t) \<and> in_window b (procs s) Q"

text \<open>One round of the scheduler: pick a process and take it off the queue.\<close>

definition pick_round :: "sched_state \<Rightarrow> (sched_state \<times> proc_ptr option) outcome" where
  "pick_round s =
     (case stride_pick_next s of
        (s1, None) \<Rightarrow> Ret (s1, None)
      | (s1, Some p) \<Rightarrow> bind_outcome (stride_dequeue s1 p) (\<lambda>s2. Ret (s2, Some p)))"

lemma stride_step_le: "(if pr = 0 then BIG_STRIDE else BIG_STRIDE div pr) \<le> BIG_STRIDE"
  by (simp add: word_le_nat_alt unat_div)

lemma stride_key_shift:
  assumes "stride_key b ps p \<le> stride_key b ps q"
  shows "stride_key (lab6_stride (ps p)) ps q = stride_key b ps q - stride_key b ps p"
proof -
  have "lab6_stride (ps q) - lab6_stride (ps p) = (lab6_stride (ps q) - b) - (lab6_stride (ps p) - b)"
    by simp
  moreover have "lab6_stride (ps p) - b \<le> lab6_stride (ps q) - b"
    using assms by (simp add: stride_key_def word_le_nat_alt)
  ultimately show ?thesis by (simp only: stride_key_def unat_sub)
qed

lemma heap_by_shift:
  "heap_by k t \<Longrightarrow> (\<And>x. x \<in> set_tree t \<Longrightarrow> k' x = k x - m) \<Longrightarrow> heap_by k' t"
  by (induction t) (auto intro!: diff_le_mono)

lemma pick_round_stride:
  assumes ok: "stride_ok s Q b" and Q: "Q \<noteq> {}"
  obtains s2 p where "pick_round s = Ret (s2, Some p)" "p \<in> Q"
    "\<And>q. q \<in> Q \<Longrightarrow> stride_key b (procs s) p \<le> stride_key b (procs s) q"
    "stride_ok s2 (Q - {p}) (lab6_stride (procs s p))"
    "in_window (lab6_stride (procs s p)) (procs s2) Q"
proof -
  from ok obtain t where t: "skew_heap (pool s) (lab6_run_pool (rq s)) t" "set_tree t = Q"
    "heap_by (stride_key b (procs s)) t" and win: "in_window b (procs s) Q"
    by (auto simp: stride_ok_def)
  from Q t(2) obtain l p r where tt: "t = Node l p r" by (cases t) auto
  have rt: "lab6_run_pool (rq s) = Some p" using t(1) tt by (auto simp: skew_heap_def)
  let ?b = "lab6_stride (procs s p)" and ?pr = "lab6_priority (procs s p)"
  let ?inc = "if ?pr = 0 then BIG_STRIDE else BIG_STRIDE div ?pr"
  let ?s1 = "upd_proc p (\<lambda>x. x\<lparr>lab6_stride := lab6_stride x + ?inc\<rparr>) s"
  have pick: "stride_pick_next s = (?s1, Some p)" by (simp add: stride_pick_next_def rt)
  let ?cmp = "proc_stride_comp_f (procs ?s1)"
  have pQ: "p \<in> Q" using t(2) tt by auto
  have min: "stride_key b (procs s) p \<le> stride_key b (procs s) q" if "q \<in> Q" for q
    using that t tt by (auto intro: heap_by_root)
  have d: "distinct_tree t" using t(1) by (simp add: skew_heap_def)
  let ?u = "tmerge ?cmp l r"
  obtain h' where h': "skew_heap_remove ?cmp (pool s) (lab6_run_pool (rq s)) p = Some (h', root ?u)"
    "skew_heap h' (root ?u) ?u"
    using skew_heap_remove_tree [OF t(1), of p ?cmp] pQ t(2) tt by auto
  let ?s2 = "?s1\<lparr>pool := h', rq := (rq s)\<lparr>lab6_run_pool := root ?u, proc_num := proc_num (rq s) - 1\<rparr>\<rparr>"
  have deq: "stride_dequeue ?s1 p = Ret ?s2"
    using h'(1) by (simp add: stride_dequeue_def)
  have key: "stride_key ?b (procs ?s2) q = stride_key b (procs s) q - stride_key b (procs s) p"
    if "q \<in> Q - {p}" for q
    using that stride_key_shift [OF min, of q] by (simp add: stride_key_def)
  have win': "in_window ?b (procs ?s2) Q"
    unfolding in_window_def
  proof
    fix q assume q: "q \<in> Q"
    show "stride_key ?b (procs ?s2) q \<le> unat BIG_STRIDE"
    proof (cases "q = p")
      case True
      then show ?thesis
        using stride_step_le [of ?pr] by (simp add: stride_key_def word_le_nat_alt)
    next
      case False
      then have "stride_key ?b (procs ?s2) q \<le> stride_key b (procs s) q" using key q by simp
      also have "\<dots> \<le> unat BIG_STRIDE" using win q by (auto simp: in_window_def)
      finally show ?thesis .
    qed
  qed
  have lr: "set_tree ?u = Q - {p}" using d t(2) tt by auto
  have hs: "heap_by (stride_key ?b (procs ?s2)) v"
    if "heap_by (stride_key b (procs s)) v" "set_tree v \<subseteq> Q - {p}" for v
    by (rule heap_by_shift [OF that(1), of _ "stride_key b (procs s) p"]) (use that(2) key in blast)
  have "heap_by (stride_key ?b (procs ?s2)) l"
    by (rule hs) (use t(3) tt lr in auto)
  moreover have "heap_by (stride_key ?b (procs ?s2)) r"
    by (rule hs) (use t(3) tt lr in auto)
  moreover have "in_window ?b (procs ?s1) (Q - {p})" using win' by (auto simp: in_window_def)
  then have "cmp_by (stride_key ?b (procs ?s1)) ?cmp (set_tree l \<union> set_tree r)"
    using lr by (intro cmp_by_window) simp
  ultimately have "heap_by (stride_key ?b (procs ?s2)) ?u"
    by (intro heap_by_tmerge) (simp_all add: stride_key_def)
  then have "stride_ok ?s2 (Q - {p}) ?b"
    using h'(2) lr win' by (auto simp: stride_ok_def in_window_def intro!: exI [of _ ?u])
  moreover have "pick_round s = Ret (?s2, Some p)" using pick deq by (simp add: pick_round_def)
  ultimately show ?thesis using that pQ min win' by blast
qed

lemma stride_enqueue_ok:
  assumes ok: "stride_ok s Q b" and p: "p \<notin> Q" and win: "stride_key b (procs s) p \<le> unat BIG_STRIDE"
  shows "\<exists>s'. stride_enqueue s p = Ret s' \<and> stride_ok s' (insert p Q) b"
proof -
  let ?cmp = "proc_stride_comp_f (procs s)"
  from ok obtain t where t: "skew_heap (pool s) (lab6_run_pool (rq s)) t" "set_tree t = Q"
    "heap_by (stride_key b (procs s)) t" and w: "in_window b (procs s) (insert p Q)"
    using win by (auto simp: stride_ok_def in_window_def)
  let ?t = "tmerge ?cmp t (Node Leaf p Leaf)"
  obtain h' where h': "skew_heap_insert ?cmp (pool s) (lab6_run_pool (rq s)) p = Some (h', root ?t)"
    "skew_heap h' (root ?t) ?t"
    using skew_heap_insert_tree [OF t(1), of p ?cmp] p t(2) by auto
  have "heap_by (stride_key b (procs s)) ?t"
    using t w by (intro heap_by_tmerge cmp_by_window) (auto simp: in_window_def)
  moreover obtain s' where "stride_enqueue s p = Ret s'" "pool s' = h'"
    "lab6_run_pool (rq s') = root ?t" "stride_key b (procs s') = stride_key b (procs s)"
    by (simp add: stride_enqueue_def h'(1) Let_def stride_key_def fun_eq_iff)
  ultimately show ?thesis
    using h'(2) t(2) w by (auto simp: stride_ok_def in_window_def intro!: exI [of _ ?t])
qed

text \<open>A boot state: the idle process runs, every other block is unused.\<close>

definition blank_proc :: proc_struct where
  "blank_proc = \<lparr>state = PROC_UNINIT, pid = -1, runs = 0, kstack = 0, need_resched = False,
     parent = None, mm = None, cr3 = 0, flags = 0, exit_code = 0, wait_state = 0,
     cptr = None, yptr = None, optr = None, time_slice = 0, lab6_stride = 0, lab6_priority = 0,
     filesp = None\<rparr>"

definition boot_sched :: sched_state where
  "boot_sched =
     \<lparr>procs = (\<lambda>_. blank_proc)(0 := blank_proc\<lparr>state := PROC_RUNNABLE, pid := 0\<rparr>),
      pool = \<lparr>sk_parent = \<lambda>_. None, sk_left = \<lambda>_. None, sk_right = \<lambda>_. None\<rparr>,
      rq = \<lparr>run_list = \<lparr>le_prev = id, le_next = id\<rparr>, proc_num = 0, max_time_slice = 0, lab6_run_pool = None\<rparr>,
      timer_links = \<lparr>le_prev = id, le_next = id\<rparr>, timers = \<lambda>_. \<lparr>expires = 0, timer_proc = None\<rparr>,
      current = 0, idleproc = 0, ts_esp0 = 0, cpu_cr3 = 0\<rparr>"

subsection \<open>Properties\<close>

text \<open>C21: as long as the strides of the queued processes lie in one window of BIG_STRIDE, a round
  of the stride scheduler on 32-bit strides that wrap around picks a process whose stride is
  least in the window, takes exactly that process off the queue, and leaves the remaining strides,
  and the new stride of the picked process, again in one window, counted from the old stride of
  the picked process. So the comparison by signed difference stays meaningful for ever.\<close>

theorem stride_round_least:
  assumes "stride_ok s Q b" "Q \<noteq> {}"
  shows "\<exists>s2 p. pick_round s = Ret (s2, Some p) \<and> p \<in> Q \<and>
     (\<forall>q \<in> Q. stride_key b (procs s) p \<le> stride_key b (procs s) q) \<and>
     stride_ok s2 (Q - {p}) (lab6_stride (procs s p)) \<and>
     in_window (lab6_stride (procs s p)) (procs s2) Q"
  using pick_round_stride [OF assms] by metis

text \<open>C25: inside a window the signed comparison of the scheduler orders processes by their distance
  from the start of the window, whatever the 32-bit strides are.\<close>

theorem proc_stride_comp_orders:
  assumes "in_window b ps S" "p \<in> S" "q \<in> S"
  shows "proc_stride_comp_f ps p q = sgn (int (stride_key b ps p) - int (stride_key b ps q))"
  using assms by (rule proc_stride_comp_window)

theorem proc_stride_comp_orders_witness:
  "proc_stride_comp_f (\<lambda>p. blank_proc\<lparr>lab6_stride := if p = 0 then 0xFFFFFFF0 else 16\<rparr>) 0 1 = -1"
proof -
  let ?ps = "\<lambda>p :: nat. blank_proc\<lparr>lab6_stride := if p = 0 then 0xFFFFFFF0 else 16\<rparr>"
  have "in_window 0xFFFFFFF0 ?ps {0, 1}" by (simp add: in_window_def stride_key_def BIG_STRIDE_def)
  from proc_stride_comp_orders [OF this, of 0 1] show ?thesis by (simp add: stride_key_def)
qed

theorem stride_round_least_witness:
  "\<exists>s s2. stride_enqueue boot_sched 1 = Ret s \<and> pick_round s = Ret (s2, Some 1) \<and> stride_ok s2 {} 0"
proof -
  have "stride_ok boot_sched {} 0"
    by (auto simp: stride_ok_def boot_sched_def skew_heap_def in_window_def intro!: exI [of _ Leaf])
  moreover have "stride_key 0 (procs boot_sched) 1 \<le> unat BIG_STRIDE"
    by (simp add: stride_key_def boot_sched_def blank_proc_def)
  ultimately obtain s where s: "stride_enqueue boot_sched 1 = Ret s" "stride_ok s {1} 0"
    using stride_enqueue_ok [of boot_sched "{}" 0 1] by auto
  have "lab6_stride (procs s 1) = 0"
    using s(1) by (auto simp: stride_enqueue_def boot_sched_def blank_proc_def Let_def split: prod.splits if_splits)
  with stride_round_least [OF s(2)] s(1) show ?thesis by auto
qed

end
