(* ===== verification/Sched.thy ===== *)
theory Sched
  imports StrideSched
begin

text \<open>
  The scheduler core \<^verbatim>\<open>kern/schedule/sched.c\<close>: wake-up and \<open>schedule\<close>, over an arbitrary
  \<open>struct sched_class\<close>. The client lemmas are proved once from the contract of a scheduling
  class and hold for the stride scheduler by interpretation. The timers of the same file
  are in the theory \<^verbatim>\<open>Timers\<close>.
\<close>

definition KSTACKSIZE :: u32 where "KSTACKSIZE = 8192"

definition sched_class_enqueue :: "sched_class \<Rightarrow> sched_state \<Rightarrow> proc_ptr \<Rightarrow> sched_state outcome" where
  "sched_class_enqueue sc s p = (if p \<noteq> idleproc s then sc_enqueue sc s p else Ret s)"

definition sched_class_dequeue :: "sched_class \<Rightarrow> sched_state \<Rightarrow> proc_ptr \<Rightarrow> sched_state outcome" where
  "sched_class_dequeue sc s p = sc_dequeue sc s p"

definition sched_class_pick_next :: "sched_class \<Rightarrow> sched_state \<Rightarrow> sched_state \<times> proc_ptr option" where
  "sched_class_pick_next sc s = sc_pick_next sc s"

definition sched_class_proc_tick :: "sched_class \<Rightarrow> sched_state \<Rightarrow> proc_ptr \<Rightarrow> sched_state" where
  "sched_class_proc_tick sc s p =
     (if p \<noteq> idleproc s then sc_proc_tick sc s p
      else upd_proc p (need_resched_update (\<lambda>_. True)) s)"

definition sched_init :: "sched_class \<Rightarrow> sched_state \<Rightarrow> sched_state" where
  "sched_init sc s =
     sc_init sc (s\<lparr>timer_links := list_init (timer_links s) None, rq := (rq s)\<lparr>max_time_slice := 5\<rparr>\<rparr>)"

definition wakeup_proc :: "sched_class \<Rightarrow> sched_state \<Rightarrow> proc_ptr \<Rightarrow> sched_state outcome" where
  "wakeup_proc sc s p =
     assert_then (state (procs s p) \<noteq> PROC_ZOMBIE)
       (if state (procs s p) \<noteq> PROC_RUNNABLE then
          let s1 = upd_proc p (\<lambda>x. x\<lparr>state := PROC_RUNNABLE, wait_state := 0\<rparr>) s
          in if p \<noteq> current s1 then sched_class_enqueue sc s1 p else Ret s1
        else Ret s)"

text \<open>\<open>proc_run\<close> of proc.c: the context switch, up to the register save area.\<close>

definition proc_run :: "sched_state \<Rightarrow> proc_ptr \<Rightarrow> sched_state" where
  "proc_run s p =
     (if p \<noteq> current s
      then s\<lparr>current := p, ts_esp0 := kstack (procs s p) + KSTACKSIZE, cpu_cr3 := cr3 (procs s p)\<rparr>
      else s)"

definition schedule :: "sched_class \<Rightarrow> sched_state \<Rightarrow> sched_state outcome" where
  "schedule sc s =
     (let s1 = upd_proc (current s) (need_resched_update (\<lambda>_. False)) s in
      bind_outcome
        (if state (procs s1 (current s1)) = PROC_RUNNABLE
         then sched_class_enqueue sc s1 (current s1) else Ret s1)
        (\<lambda>s2. case sched_class_pick_next sc s2 of (s3, nx) \<Rightarrow>
           bind_outcome (case nx of None \<Rightarrow> Ret s3 | Some p \<Rightarrow> sched_class_dequeue sc s3 p)
             (\<lambda>s4. let np = (case nx of None \<Rightarrow> idleproc s4 | Some p \<Rightarrow> p);
                       s5 = upd_proc np (runs_update (\<lambda>r. r + 1)) s4
                   in Ret (if np \<noteq> current s5 then proc_run s5 np else s5))))"

subsection \<open>The processes that should be queued\<close>

definition ready :: "sched_state \<Rightarrow> proc_ptr set" where
  "ready s = {p. state (procs s p) = PROC_RUNNABLE \<and> p \<noteq> current s \<and> p \<noteq> idleproc s}"

lemma same_sched_sel:
  assumes "same_sched s s'"
  shows "current s' = current s" "idleproc s' = idleproc s" "state (procs s' p) = state (procs s p)"
    "timer_links s' = timer_links s" "timers s' = timers s"
  using assms by (auto simp: same_sched_def intro: same_proc_state)

lemma same_sched_wait:
  assumes "same_sched s s'" shows "wait_state (procs s' p) = wait_state (procs s p)"
  using assms same_proc_wait by (auto simp: same_sched_def)

text \<open>A wake-up or a switch changes nothing of a process but its scheduling state.\<close>

definition same_ident :: "proc_struct \<Rightarrow> proc_struct \<Rightarrow> bool" where
  "same_ident x y \<longleftrightarrow> y = x\<lparr>state := state y, wait_state := wait_state y, runs := runs y, time_slice := time_slice y,
     lab6_stride := lab6_stride y, need_resched := need_resched y\<rparr>"

lemma same_ident_sel:
  assumes "same_ident x y"
  shows "pid y = pid x" "parent y = parent x" "cptr y = cptr x" "yptr y = yptr x" "optr y = optr x" "exit_code y = exit_code x"
    "kstack y = kstack x" "filesp y = filesp x" "flags y = flags x" "mm y = mm x" "cr3 y = cr3 x" "lab6_priority y = lab6_priority x"
  using assms by (cases x; cases y; simp add: same_ident_def)+

lemma same_ident_refl [simp]: "same_ident x x"
  by (simp add: same_ident_def)

lemma same_ident_trans: "same_ident x y \<Longrightarrow> same_ident y z \<Longrightarrow> same_ident x z"
  unfolding same_ident_def by (cases x; cases y; cases z) simp

lemma same_proc_ident: "same_proc x y \<Longrightarrow> same_ident x y"
  unfolding same_proc_def same_ident_def by (cases x; cases y) simp

lemma same_sched_ident: "same_sched s s' \<Longrightarrow> same_ident (procs s q) (procs s' q)"
  by (simp add: same_sched_def same_proc_ident)

lemma same_sched_ready: "same_sched s s' \<Longrightarrow> ready s' = ready s"
  by (simp add: ready_def same_sched_sel)

lemma proc_run_sel [simp]:
  "current (proc_run s p) = p" "procs (proc_run s p) = procs s" "idleproc (proc_run s p) = idleproc s"
  "pool (proc_run s p) = pool s" "rq (proc_run s p) = rq s" "timers (proc_run s p) = timers s"
  "timer_links (proc_run s p) = timer_links s"
  by (simp_all add: proc_run_def)

subsection \<open>Clients of a scheduling class\<close>

context sched_class_contract
begin

lemma wakeup_ready:
  assumes inv: "holds s (ready s)" and st: "state (procs s p) \<noteq> PROC_ZOMBIE"
  shows "\<exists>s'. wakeup_proc sc s p = Ret s' \<and> holds s' (ready s') \<and> state (procs s' p) = PROC_RUNNABLE \<and>
     current s' = current s \<and> idleproc s' = idleproc s \<and> timer_links s' = timer_links s \<and>
     timers s' = timers s \<and> (\<forall>q. q \<noteq> p \<longrightarrow> state (procs s' q) = state (procs s q)) \<and>
     (\<forall>q. q \<noteq> p \<longrightarrow> same_proc (procs s q) (procs s' q)) \<and>
     wait_state (procs s' p) \<in> {0, wait_state (procs s p)}"
proof (cases "state (procs s p) = PROC_RUNNABLE")
  case True
  then show ?thesis using inv by (auto simp: wakeup_proc_def)
next
  case False
  let ?s1 = "upd_proc p (\<lambda>x. x\<lparr>state := PROC_RUNNABLE, wait_state := 0\<rparr>) s"
  have h1: "holds ?s1 (ready s)" by (rule holds_frame [OF inv]) simp_all
  show ?thesis
  proof (cases "p = current s \<or> p = idleproc s")
    case True
    then have "ready ?s1 = ready s" by (auto simp: ready_def)
    moreover have "wakeup_proc sc s p = Ret ?s1"
      using True False st by (auto simp: wakeup_proc_def sched_class_enqueue_def Let_def)
    ultimately show ?thesis using h1 by (intro exI [of _ ?s1]) simp
  next
    case neq: False
    then have r: "ready ?s1 = insert p (ready s)" and nr: "p \<notin> ready s"
      using False by (auto simp: ready_def)
    from enqueue_contract [OF h1 nr] obtain s' where s': "sc_enqueue sc ?s1 p = Ret s'"
      "holds s' (insert p (ready s))" "same_sched ?s1 s'" by blast
    have "holds s' (ready s')" using s'(2) r same_sched_ready [OF s'(3)] by simp
    moreover have "wakeup_proc sc s p = Ret s'"
      using False st neq s'(1) by (simp add: wakeup_proc_def sched_class_enqueue_def)
    moreover have "same_proc (procs s q) (procs s' q)" if "q \<noteq> p" for q
      using that s'(3) by (auto simp: same_sched_def split: if_splits)
    moreover have "wait_state (procs s' p) = 0"
      using same_sched_wait [OF s'(3), of p] by simp
    ultimately show ?thesis using same_sched_sel [OF s'(3)] by auto
  qed
qed

lemma schedule_ready:
  assumes inv: "holds s (ready s)"
  shows "\<exists>s'. schedule sc s = Ret s' \<and> holds s' (ready s') \<and> idleproc s' = idleproc s \<and>
     (\<forall>q. state (procs s' q) = state (procs s q)) \<and>
     current s' \<in> (if \<exists>q. q \<noteq> idleproc s \<and> state (procs s q) = PROC_RUNNABLE
                     then {q. q \<noteq> idleproc s \<and> state (procs s q) = PROC_RUNNABLE}
                     else {idleproc s}) \<and>
     timer_links s' = timer_links s \<and> timers s' = timers s \<and> (\<forall>q. same_ident (procs s q) (procs s' q)) \<and>
     (\<forall>q. wait_state (procs s' q) = wait_state (procs s q))"
proof -
  let ?s1 = "upd_proc (current s) (need_resched_update (\<lambda>_. False)) s"
  let ?R = "{q. q \<noteq> idleproc s \<and> state (procs s q) = PROC_RUNNABLE}"
  have h1: "holds ?s1 (ready s)" by (rule holds_frame [OF inv]) simp_all
  have st1: "state (procs ?s1 q) = state (procs s q)" for q by simp
  obtain s2 where s2: "(if state (procs ?s1 (current ?s1)) = PROC_RUNNABLE
      then sched_class_enqueue sc ?s1 (current ?s1) else Ret ?s1) = Ret s2"
    "holds s2 ?R" "same_sched ?s1 s2"
  proof (cases "state (procs s (current s)) = PROC_RUNNABLE \<and> current s \<noteq> idleproc s")
    case True
    then have "insert (current s) (ready s) = ?R" by (auto simp: ready_def)
    moreover have "current s \<notin> ready s" by (simp add: ready_def)
    ultimately show ?thesis
      using that True enqueue_contract [OF h1, of "current s"] by (auto simp: sched_class_enqueue_def)
  next
    case False
    then have "ready s = ?R" by (auto simp: ready_def)
    then show ?thesis using that False h1 by (auto simp: sched_class_enqueue_def same_sched_def)
  qed
  obtain s3 nx where pk: "sc_pick_next sc s2 = (s3, nx)" by (cases "sc_pick_next sc s2") 
  note pc = pick_next_contract [OF s2(2) pk]
  obtain s4 where s4: "(case nx of None \<Rightarrow> Ret s3 | Some p \<Rightarrow> sched_class_dequeue sc s3 p) = Ret s4"
    "holds s4 (?R - set_option nx)" "same_sched s3 s4"
  proof (cases nx)
    case None
    then show ?thesis using that pc by (auto simp: same_sched_def)
  next
    case (Some p)
    then show ?thesis
      using that dequeue_contract [of s3 ?R p] pc by (auto simp: sched_class_dequeue_def)
  qed
  note sel = same_sched_sel [OF s2(3)] same_sched_sel [OF s4(3)]
    same_sched_sel [OF pc [THEN conjunct2, THEN conjunct1]]
  let ?np = "case nx of None \<Rightarrow> idleproc s4 | Some p \<Rightarrow> p"
  let ?s5 = "upd_proc ?np (runs_update (\<lambda>r. r + 1)) s4"
  let ?s' = "if ?np \<noteq> current ?s5 then proc_run ?s5 ?np else ?s5"
  have st: "state (procs ?s' q) = state (procs s q)" for q
    using sel st1 [of q] by simp
  have cur: "current ?s' = ?np" and idle: "idleproc ?s' = idleproc s" by (simp_all add: sel)
  have rd: "ready ?s' = ?R - set_option nx"
    unfolding ready_def st cur idle using pc sel by (cases nx) auto
  have "holds ?s' (?R - set_option nx)" by (rule holds_frame [OF s4(2)]) simp_all
  then have hr: "holds ?s' (ready ?s')" unfolding rd .
  have run: "schedule sc s = Ret ?s'"
    using s2(1) pk s4(1) by (simp add: schedule_def sched_class_pick_next_def Let_def)
  have nxt: "current ?s' \<in> (if \<exists>q. q \<noteq> idleproc s \<and> state (procs s q) = PROC_RUNNABLE then ?R else {idleproc s})"
    unfolding cur using pc sel by (cases nx) auto
  have tm: "timer_links ?s' = timer_links s" "timers ?s' = timers s" using sel by simp_all
  have sid: "same_ident (procs s q) (procs ?s' q)" for q
  proof -
    have "same_ident (procs s q) (procs ?s1 q)" by (simp add: same_ident_def)
    moreover have "same_ident (procs ?s1 q) (procs s2 q)" "same_ident (procs s2 q) (procs s3 q)" "same_ident (procs s3 q) (procs s4 q)"
      by (rule same_sched_ident, fact s2(3) pc [THEN conjunct2, THEN conjunct1] s4(3))+
    moreover have "same_ident (procs s4 q) (procs ?s' q)" by (simp add: same_ident_def)
    ultimately show ?thesis using same_ident_trans by blast
  qed
  have w: "wait_state (procs s4 q) = wait_state (procs s q)" for q
    using same_sched_wait [OF s2(3), of q] same_sched_wait [OF s4(3), of q] same_sched_wait [OF pc [THEN conjunct2, THEN conjunct1], of q] by simp
  have wt: "wait_state (procs ?s' q) = wait_state (procs s q)" for q by (simp add: w)
  show ?thesis
    by (intro exI [of _ ?s'] conjI allI) (fact run hr idle st nxt tm sid wt)+
qed

end

subsection \<open>Runs of the scheduler\<close>

text \<open>
  The steps the kernel takes on the run queue: a wake-up of a process that is not a zombie, a
  call of \<open>schedule\<close>, the running process going to sleep or exiting (only the running process
  changes its own state so), and a clock tick.
\<close>

inductive sched_step :: "sched_class \<Rightarrow> sched_state \<Rightarrow> sched_state \<Rightarrow> bool" for sc where
  wake: "state (procs s p) \<noteq> PROC_ZOMBIE \<Longrightarrow> wakeup_proc sc s p = Ret s' \<Longrightarrow> sched_step sc s s'"
| switch: "schedule sc s = Ret s' \<Longrightarrow> sched_step sc s s'"
| sleep: "current s \<noteq> idleproc s \<Longrightarrow>
    sched_step sc s (upd_proc (current s) (\<lambda>x. x\<lparr>state := PROC_SLEEPING, wait_state := w\<rparr>) s)"
| exit: "current s \<noteq> idleproc s \<Longrightarrow>
    sched_step sc s (upd_proc (current s) (\<lambda>x. x\<lparr>state := PROC_ZOMBIE, exit_code := c\<rparr>) s)"
| tick: "sched_step sc s (sched_class_proc_tick sc s (current s))"

inductive_cases sched_stepE: "sched_step sc s s'"

context sched_class_contract
begin

lemma proc_tick_ready:
  assumes "holds u (ready u)"
  defines "v \<equiv> sched_class_proc_tick sc u (current u)"
  shows "holds v (ready v)" "timers v = timers u" "timer_links v = timer_links u"
    "current v = current u" "idleproc v = idleproc u" "state (procs v q) = state (procs u q)"
proof -
  have "holds v (ready u) \<and> same_sched u v"
  proof (cases "current u = idleproc u")
    case True
    then show ?thesis
      using holds_frame [OF assms(1), of v]
      by (simp add: v_def sched_class_proc_tick_def same_sched_def same_proc_def)
  next
    case False
    then show ?thesis using proc_tick_contract [OF assms(1)] by (simp add: v_def sched_class_proc_tick_def)
  qed
  then show "holds v (ready v)" "timers v = timers u" "timer_links v = timer_links u"
    "current v = current u" "idleproc v = idleproc u" "state (procs v q) = state (procs u q)"
    using same_sched_sel [of u v] by (auto simp: same_sched_ready [of u v])
qed

lemma block_ready:
  assumes "holds s (ready s)" "\<And>x. state (f x) \<noteq> PROC_RUNNABLE"
  shows "holds (upd_proc (current s) f s) (ready (upd_proc (current s) f s))"
proof -
  have "ready (upd_proc (current s) f s) = ready s" using assms(2) by (auto simp: ready_def)
  then show ?thesis using holds_frame [OF assms(1)] by simp
qed

lemma sched_step_ready: "sched_step sc s s' \<Longrightarrow> holds s (ready s) \<Longrightarrow> holds s' (ready s')"
proof (induction rule: sched_step.induct)
  case (wake s p s')
  then show ?case using wakeup_ready [of s p] by auto
next
  case (switch s s')
  then show ?case using schedule_ready [of s] by auto
next
  case (sleep s w)
  then show ?case by (intro block_ready) auto
next
  case (exit s c)
  then show ?case by (intro block_ready) auto
next
  case (tick s)
  then show ?case by (intro proc_tick_ready)
qed

lemma sched_steps_ready: "(sched_step sc)\<^sup>*\<^sup>* s s' \<Longrightarrow> holds s (ready s) \<Longrightarrow> holds s' (ready s')"
  by (induction rule: rtranclp_induct) (auto intro: sched_step_ready)

end

lemma stride_init_holds: "rq_holds (stride_init s) {}"
  by (auto simp: rq_holds_def stride_init_def skew_heap_def intro!: exI [of _ Leaf])

lemma sched_init_ready: "ready s = {} \<Longrightarrow> rq_holds (sched_init default_sched_class s) (ready (sched_init default_sched_class s))"
proof -
  assume "ready s = {}"
  then have "ready (sched_init default_sched_class s) = {}"
    by (simp add: sched_init_def ready_def stride_init_def)
  then show ?thesis using stride_init_holds by (simp add: sched_init_def)
qed

lemma ready_boot [simp]: "ready boot_sched = {}"
  by (auto simp: ready_def boot_sched_def blank_proc_def)

subsection \<open>Properties\<close>

text \<open>C1: in every state that the scheduler reaches from its initialisation with the stride
  class, by any interleaving of wake-ups, calls of schedule, sleeps, exits and ticks, the skew
  heap of the run queue is well formed and holds exactly the runnable processes that are neither
  running nor idle, and proc_num counts them.\<close>

theorem sched_reachable_ready:
  assumes "ready s0 = {}" "(sched_step default_sched_class)\<^sup>*\<^sup>* (sched_init default_sched_class s0) s"
  shows "rq_holds s (ready s)"
  using stride.sched_steps_ready [OF assms(2) sched_init_ready [OF assms(1)]] .

theorem sched_reachable_ready_witness:
  "\<exists>s. wakeup_proc default_sched_class (sched_init default_sched_class boot_sched) 1 = Ret s \<and>
     rq_holds s (ready s) \<and> 1 \<in> ready s"
proof -
  let ?s0 = "sched_init default_sched_class boot_sched"
  have 1: "state (procs ?s0 1) \<noteq> PROC_ZOMBIE" "1 \<noteq> current ?s0" "1 \<noteq> idleproc ?s0"
    by (simp_all add: sched_init_def stride_init_def boot_sched_def blank_proc_def)
  obtain s where s: "wakeup_proc default_sched_class ?s0 1 = Ret s" "state (procs s 1) = PROC_RUNNABLE"
    "current s = current ?s0" "idleproc s = idleproc ?s0"
    using stride.wakeup_ready [OF sched_init_ready [OF ready_boot] 1(1)] by auto
  have "(sched_step default_sched_class)\<^sup>*\<^sup>* ?s0 s"
    using sched_step.wake [OF 1(1) s(1)] by (rule r_into_rtranclp)
  from sched_reachable_ready [OF ready_boot this] show ?thesis
    using s 1 by (auto simp: ready_def)
qed

text \<open>C22: schedule never panics and never loses a process: from a state whose run queue holds
  the ready processes it returns, keeps every process state, re-establishes the invariant, and
  leaves the processor to a runnable process other than idle whenever there is one, and to the
  idle process otherwise.\<close>

theorem schedule_runs_ready:
  assumes "rq_holds s (ready s)"
  shows "\<exists>s'. schedule default_sched_class s = Ret s' \<and> rq_holds s' (ready s') \<and>
     (\<forall>q. state (procs s' q) = state (procs s q)) \<and>
     current s' \<in> (if \<exists>q. q \<noteq> idleproc s \<and> state (procs s q) = PROC_RUNNABLE
                     then {q. q \<noteq> idleproc s \<and> state (procs s q) = PROC_RUNNABLE}
                     else {idleproc s})"
  using stride.schedule_ready [OF assms] by blast

theorem schedule_runs_ready_witness:
  "\<exists>s'. schedule default_sched_class (sched_init default_sched_class boot_sched) = Ret s' \<and>
     current s' = idleproc (sched_init default_sched_class boot_sched)"
proof -
  let ?s0 = "sched_init default_sched_class boot_sched"
  have "\<not> (\<exists>q. q \<noteq> idleproc ?s0 \<and> state (procs ?s0 q) = PROC_RUNNABLE)"
    by (simp add: sched_init_def stride_init_def boot_sched_def blank_proc_def)
  with schedule_runs_ready [OF sched_init_ready [OF ready_boot]] show ?thesis by auto
qed

end
