(* ===== verification/Timers.thy ===== *)
theory Timers
  imports Sched
begin

text \<open>
  The kernel timers of \<^verbatim>\<open>kern/schedule/sched.c\<close>: a sorted ring of \<open>timer_t\<close> in which
  \<open>expires\<close> counts the ticks after the preceding timer. The lemmas relate the ring to the
  list of absolute expiry times.
\<close>

subsection \<open>Operations\<close>

text \<open>\<open>timer_init\<close> of sched.h.\<close>

definition timer_init :: "sched_state \<Rightarrow> nat \<Rightarrow> proc_ptr option \<Rightarrow> u32 \<Rightarrow> sched_state" where
  "timer_init s t p e =
     s\<lparr>timers := (timers s)(t := \<lparr>expires = e, timer_proc = p\<rparr>),
       timer_links := list_init (timer_links s) (Some t)\<rparr>"

text \<open>The loop of \<open>add_timer\<close>, from the entry \<open>le\<close>; it gives the entry to insert before.\<close>

partial_function (option) add_timer_loop ::
  "nat option links \<Rightarrow> nat \<Rightarrow> (nat \<Rightarrow> timer) \<Rightarrow> nat option \<Rightarrow> ((nat \<Rightarrow> timer) \<times> nat option) option" where
  "add_timer_loop h t tm le =
     (case le of
        None \<Rightarrow> Some (tm, None)
      | Some n \<Rightarrow>
          if expires (tm t) < expires (tm n)
          then Some (tm(n := (tm n)\<lparr>expires := expires (tm n) - expires (tm t)\<rparr>), le)
          else add_timer_loop h t (tm(t := (tm t)\<lparr>expires := expires (tm t) - expires (tm n)\<rparr>))
                 (list_next h le))"

definition add_timer :: "sched_state \<Rightarrow> nat \<Rightarrow> sched_state outcome" where
  "add_timer s t =
     assert_then (expires (timers s t) > 0 \<and> timer_proc (timers s t) \<noteq> None)
       (assert_then (list_empty (timer_links s) (Some t))
         (bind_outcome
           (of_option (add_timer_loop (timer_links s) t (timers s) (list_next (timer_links s) None)))
           (\<lambda>(tm, le). Ret (s\<lparr>timers := tm, timer_links := list_add_before (timer_links s) le (Some t)\<rparr>))))"

definition del_timer :: "sched_state \<Rightarrow> nat \<Rightarrow> sched_state" where
  "del_timer s t =
     (if \<not> list_empty (timer_links s) (Some t) then
        let s1 = (if expires (timers s t) \<noteq> 0 then
                    (case list_next (timer_links s) (Some t) of
                       None \<Rightarrow> s
                     | Some n \<Rightarrow> upd_timer n (expires_update (\<lambda>e. e + expires (timers s t))) s)
                  else s)
        in s1\<lparr>timer_links := list_del_init (timer_links s1) (Some t)\<rparr>
      else s)"

text \<open>
  The loop of \<open>run_timer_list\<close>: wake the owners of the timers that have run out. \<open>le\<close> of
  the source is always the link of \<open>timer\<close> when the loop body starts.
\<close>

partial_function (option) run_timers ::
  "sched_class \<Rightarrow> sched_state \<Rightarrow> nat \<Rightarrow> sched_state outcome option" where
  "run_timers sc s t =
     (if expires (timers s t) \<noteq> 0 then Some (Ret s) else
      let le = list_next (timer_links s) (Some t) in
      case timer_proc (timers s t) of
        None \<Rightarrow> Some Panic
      | Some p \<Rightarrow>
          if wait_state (procs s p) \<noteq> 0 \<and> wait_state (procs s p) AND WT_INTERRUPTED = 0
          then Some Panic else
          (case wakeup_proc sc s p of
             Panic \<Rightarrow> Some Panic
           | Ret s1 \<Rightarrow>
               let s2 = del_timer s1 t in
               case le of None \<Rightarrow> Some (Ret s2) | Some t' \<Rightarrow> run_timers sc s2 t'))"

definition run_timer_list :: "sched_class \<Rightarrow> sched_state \<Rightarrow> sched_state outcome" where
  "run_timer_list sc s =
     bind_outcome
       (case list_next (timer_links s) None of
          None \<Rightarrow> Ret s
        | Some t \<Rightarrow>
            assert_then (expires (timers s t) \<noteq> 0)
              (let s1 = upd_timer t (expires_update (\<lambda>e. e - 1)) s
               in case run_timers sc s1 t of None \<Rightarrow> Panic | Some r \<Rightarrow> r))
       (\<lambda>s2. Ret (sched_class_proc_tick sc s2 (current s2)))"

subsection \<open>Absolute expiry times\<close>

fun expiries :: "(nat \<Rightarrow> timer) \<Rightarrow> nat \<Rightarrow> nat list \<Rightarrow> (nat \<times> nat) list" where
  "expiries tm a [] = []"
| "expiries tm a (t # ts) =
     (t, a + unat (expires (tm t))) # expiries tm (a + unat (expires (tm t))) ts"

definition timer_total :: "(nat \<Rightarrow> timer) \<Rightarrow> nat list \<Rightarrow> nat" where
  "timer_total tm ts = sum_list (map (\<lambda>t. unat (expires (tm t))) ts)"

text \<open>
  The timer list of a state, in the order of the ring: the head has ticks left and the last
  expiry time fits 32 bits.
\<close>

definition timer_ring :: "sched_state \<Rightarrow> nat list \<Rightarrow> bool" where
  "timer_ring s ts \<longleftrightarrow>
     dlist (timer_links s) None (map Some ts) \<and> timer_total (timers s) ts < 2 ^ 32 \<and>
     (\<forall>t r. ts = t # r \<longrightarrow> expires (timers s t) > 0)"

lemma expiries_cong: "(\<And>t. t \<in> set ts \<Longrightarrow> expires (tm' t) = expires (tm t)) \<Longrightarrow> expiries tm' a ts = expiries tm a ts"
  by (induction ts arbitrary: a) auto

lemma expiries_fst [simp]: "map fst (expiries tm a ts) = ts"
  by (induction ts arbitrary: a) auto

lemma expiries_append: "expiries tm a (xs @ ys) = expiries tm a xs @ expiries tm (a + timer_total tm xs) ys"
  by (induction xs arbitrary: a) (auto simp: timer_total_def add.assoc)

lemma expiries_le: "(t, e) \<in> set (expiries tm a ts) \<Longrightarrow> e \<le> a + timer_total tm ts"
  by (induction ts arbitrary: a) (fastforce simp: timer_total_def)+

lemma expiries_ge: "(t, e) \<in> set (expiries tm a ts) \<Longrightarrow> a \<le> e"
  by (induction ts arbitrary: a) (auto, fastforce)

lemma expiries_sorted: "sorted (map snd (expiries tm a ts))"
  by (induction ts arbitrary: a) (auto dest: expiries_ge)

lemma timer_total_cong: "(\<And>t. t \<in> set ts \<Longrightarrow> expires (tm' t) = expires (tm t)) \<Longrightarrow> timer_total tm' ts = timer_total tm ts"
  by (simp add: timer_total_def cong: map_cong)

lemma timer_total_simps [simp]:
  "timer_total tm [] = 0" "timer_total tm (t # ts) = unat (expires (tm t)) + timer_total tm ts"
  "timer_total tm (xs @ ys) = timer_total tm xs + timer_total tm ys"
  by (simp_all add: timer_total_def)

subsection \<open>Adding a timer\<close>

definition insert_timer :: "nat \<Rightarrow> nat \<Rightarrow> (nat \<times> nat) list \<Rightarrow> (nat \<times> nat) list" where
  "insert_timer t x es = takeWhile (\<lambda>p. snd p \<le> x) es @ (t, x) # dropWhile (\<lambda>p. snd p \<le> x) es"

lemma insert_timer_simps:
  "insert_timer t x [] = [(t, x)]"
  "insert_timer t x (e # es) = (if snd e \<le> x then e # insert_timer t x es else (t, x) # e # es)"
  by (simp_all add: insert_timer_def)

lemma add_timer_loop_spec:
  assumes "dlist h None (map Some (ys @ zs))" "t \<notin> set (ys @ zs)"
  shows "\<exists>tm' us vs. zs = us @ vs \<and> add_timer_loop h t tm (first_link zs) = Some (tm', first_link vs) \<and>
     (\<forall>a. expiries tm' a (us @ t # vs) = insert_timer t (a + unat (expires (tm t))) (expiries tm a zs)) \<and>
     timer_total tm' (us @ t # vs) = max (timer_total tm zs) (unat (expires (tm t))) \<and>
     (us = [] \<longrightarrow> tm' t = tm t) \<and> (\<forall>x. timer_proc (tm' x) = timer_proc (tm x)) \<and>
     (\<forall>x. x \<noteq> t \<longrightarrow> x \<notin> set vs \<longrightarrow> tm' x = tm x)"
  using assms
proof (induction zs arbitrary: ys tm)
  case Nil
  then show ?case
    by (intro exI [of _ tm] exI [of _ "[]"]) (simp add: add_timer_loop.simps insert_timer_simps)
next
  case (Cons z zs)
  have dist: "distinct (ys @ z # zs)"
    by (rule distinct_ring [OF Cons.prems(1)])
  show ?case
  proof (cases "expires (tm t) < expires (tm z)")
    case True
    let ?tm = "tm(z := (tm z)\<lparr>expires := expires (tm z) - expires (tm t)\<rparr>)"
    have sub: "unat (expires (tm z) - expires (tm t)) = unat (expires (tm z)) - unat (expires (tm t))"
      and lt: "unat (expires (tm t)) < unat (expires (tm z))"
      using unat_sub [OF less_imp_le [OF True]] True by (simp_all add: word_less_nat_alt)
    have tz: "t \<noteq> z" "z \<notin> set zs" using Cons.prems(2) dist by auto
    have eq: "expiries ?tm b zs = expiries tm b zs" for b by (rule expiries_cong) (use tz in auto)
    have "timer_total ?tm zs = timer_total tm zs" by (rule timer_total_cong) (use tz in auto)
    with True tz show ?thesis
      by (intro exI [of _ ?tm] exI [of _ "[]"] exI [of _ "z # zs"])
        (use lt eq in \<open>simp add: add_timer_loop.simps insert_timer_simps sub del: fun_upd_apply,
           simp add: sub\<close>)
  next
    case False
    let ?tm = "tm(t := (tm t)\<lparr>expires := expires (tm t) - expires (tm z)\<rparr>)"
    have sub: "unat (expires (tm t) - expires (tm z)) = unat (expires (tm t)) - unat (expires (tm z))"
      and le: "unat (expires (tm z)) \<le> unat (expires (tm t))"
      using False by (simp_all add: unat_sub word_le_nat_alt not_less)
    have tz: "t \<noteq> z" "t \<notin> set zs" using Cons.prems(2) by auto
    have nx: "list_next h (Some z) = first_link zs" by (rule next_link_ring [OF Cons.prems(1)])
    have eq: "expiries ?tm b zs = expiries tm b zs" for b by (rule expiries_cong) (use tz in auto)
    have tot: "timer_total ?tm zs = timer_total tm zs" by (rule timer_total_cong) (use tz in auto)
    have pre: "dlist h None (map Some ((ys @ [z]) @ zs))" "t \<notin> set ((ys @ [z]) @ zs)"
      using Cons.prems by simp_all
    from Cons.IH [OF pre, of ?tm] obtain tm' us vs where
      IH: "zs = us @ vs" "add_timer_loop h t ?tm (first_link zs) = Some (tm', first_link vs)"
      "\<forall>a. expiries tm' a (us @ t # vs) = insert_timer t (a + unat (expires (?tm t))) (expiries ?tm a zs)"
      "timer_total tm' (us @ t # vs) = max (timer_total ?tm zs) (unat (expires (?tm t)))"
      "\<forall>x. timer_proc (tm' x) = timer_proc (?tm x)"
      "\<forall>x. x \<noteq> t \<longrightarrow> x \<notin> set vs \<longrightarrow> tm' x = ?tm x"
      by blast
    have z: "tm' z = tm z" using IH(6) tz IH(1) dist by auto
    have "expiries tm' a ((z # us) @ t # vs) =
        insert_timer t (a + unat (expires (tm t))) (expiries tm a (z # zs))" for a
      using spec [OF IH(3), of "a + unat (expires (tm z))"] le by (simp add: z insert_timer_simps eq sub)
    moreover have "timer_total tm' ((z # us) @ t # vs) = max (timer_total tm (z # zs)) (unat (expires (tm t)))"
      using IH(4) le by (simp add: z tot sub)
    moreover have "add_timer_loop h t tm (first_link (z # zs)) = Some (tm', first_link vs)"
      using False IH(2) by (subst add_timer_loop.simps) (simp add: nx)
    ultimately show ?thesis
      using IH(1,5,6) by (intro exI [of _ tm'] exI [of _ "z # us"] exI [of _ vs]) auto
  qed
qed

lemma add_timer_ring:
  assumes ring: "timer_ring s ts" and t: "t \<notin> set ts" "list_empty (timer_links s) (Some t)"
    and e: "expires (timers s t) > 0" and p: "timer_proc (timers s t) \<noteq> None"
  shows "\<exists>s' ts'. add_timer s t = Ret s' \<and> timer_ring s' ts' \<and>
     expiries (timers s') 0 ts' = insert_timer t (unat (expires (timers s t))) (expiries (timers s) 0 ts) \<and>
     procs s' = procs s \<and> pool s' = pool s \<and> rq s' = rq s \<and> current s' = current s \<and>
     idleproc s' = idleproc s \<and> (\<forall>x. timer_proc (timers s' x) = timer_proc (timers s x))"
proof -
  from ring have d: "dlist (timer_links s) None (map Some ts)" and tot: "timer_total (timers s) ts < 2 ^ 32"
    and pos: "\<And>t r. ts = t # r \<Longrightarrow> expires (timers s t) > 0" by (auto simp: timer_ring_def)
  obtain tm' us vs where l: "ts = us @ vs"
    "add_timer_loop (timer_links s) t (timers s) (first_link ts) = Some (tm', first_link vs)"
    "\<forall>a. expiries tm' a (us @ t # vs) = insert_timer t (a + unat (expires (timers s t))) (expiries (timers s) a ts)"
    "timer_total tm' (us @ t # vs) = max (timer_total (timers s) ts) (unat (expires (timers s t)))"
    "us = [] \<longrightarrow> tm' t = timers s t" "\<forall>x. timer_proc (tm' x) = timer_proc (timers s x)"
    "\<forall>x. x \<noteq> t \<longrightarrow> x \<notin> set vs \<longrightarrow> tm' x = timers s x"
    using add_timer_loop_spec [of "timer_links s" "[]" ts t "timers s"] d t(1)
    unfolding append_Nil by blast
  let ?s = "s\<lparr>timers := tm', timer_links := list_add_before (timer_links s) (first_link vs) (Some t)\<rparr>"
  have "add_timer s t = Ret ?s"
    using e p t(2) l(2) by (simp add: add_timer_def first_link_ring [OF d])
  moreover have "timer_total tm' (us @ t # vs) < 2 ^ 32"
    using tot unat_u32_less [of "expires (timers s t)"] unfolding l(4) by simp
  moreover have "expires (tm' x) > 0" if "us @ t # vs = x # r" for x r
  proof (cases us)
    case Nil
    then show ?thesis using that l(5) e by simp
  next
    case (Cons y r')
    then have "x = y" "x \<noteq> t" "x \<notin> set vs"
      using that l(1) t(1) distinct_ring [OF d] by auto
    then show ?thesis using l(7) pos Cons l(1) by simp
  qed
  moreover have "dlist (timer_links ?s) None (map Some (us @ t # vs))"
    using ring_insert_before d t(1) l(1) by simp
  ultimately have "timer_ring ?s (us @ t # vs)" by (simp add: timer_ring_def)
  then show ?thesis
    using \<open>add_timer s t = Ret ?s\<close> l(3,6)
    by (intro exI [of _ ?s] exI [of _ "us @ t # vs"]) simp
qed

subsection \<open>Deleting a timer\<close>

lemma del_timer_idle: "list_empty (timer_links s) (Some t) \<Longrightarrow> del_timer s t = s"
  by (simp add: del_timer_def)

lemma del_timer_ring:
  assumes ring: "timer_ring s (us @ t # vs)"
  shows "timer_ring (del_timer s t) (us @ vs)"
    and "expiries (timers (del_timer s t)) 0 (us @ vs) =
           filter (\<lambda>p. fst p \<noteq> t) (expiries (timers s) 0 (us @ t # vs))"
    and "list_empty (timer_links (del_timer s t)) (Some t)"
proof -
  from ring have d: "dlist (timer_links s) None (map Some (us @ t # vs))"
    and tot: "timer_total (timers s) (us @ t # vs) < 2 ^ 32"
    and pos: "\<And>x r. us @ t # vs = x # r \<Longrightarrow> expires (timers s x) > 0" by (auto simp: timer_ring_def)
  note dist = distinct_ring [OF d] and nx = next_link_ring [OF d]
  let ?tm = "timers (del_timer s t)"
  have lk: "timer_links (del_timer s t) = list_del_init (timer_links s) (Some t)"
    using in_ring_not_empty [OF d] by (simp add: del_timer_def Let_def split: option.split)
  have tm: "?tm = (case vs of [] \<Rightarrow> timers s
     | n # _ \<Rightarrow> (timers s)(n := (timers s n)\<lparr>expires := expires (timers s n) + expires (timers s t)\<rparr>))"
    using in_ring_not_empty [OF d] by (cases vs) (auto simp: del_timer_def nx fun_eq_iff)
  have us: "expires (?tm x) = expires (timers s x)" if "x \<in> set us" for x
    using that dist by (auto simp: tm split: list.split)
  have vs: "expiries ?tm b vs = expiries (timers s) (b + unat (expires (timers s t))) vs \<and>
      timer_total ?tm vs = (if vs = [] then 0 else unat (expires (timers s t)) + timer_total (timers s) vs)" for b
  proof (cases vs)
    case (Cons n r)
    have "unat (expires (timers s n) + expires (timers s t)) =
        unat (expires (timers s n)) + unat (expires (timers s t))"
      using tot Cons by (subst unat_add_lem [THEN iffD1]) auto
    moreover have eq: "expires (?tm x) = expires (timers s x)" if "x \<in> set r" for x
      using that dist Cons by (auto simp: tm)
    moreover have "expiries ?tm c r = expiries (timers s) c r" for c by (rule expiries_cong) (rule eq)
    moreover have "timer_total ?tm r = timer_total (timers s) r" by (rule timer_total_cong) (rule eq)
    moreover have "expires (?tm n) = expires (timers s n) + expires (timers s t)" by (simp add: tm Cons)
    ultimately show ?thesis using Cons by (simp add: add_ac)
  qed simp
  note ex = vs [THEN conjunct1] and tt = vs [THEN conjunct2]
  have d': "dlist (timer_links (del_timer s t)) None (map Some (us @ vs))"
    using list_del_init_dlist(1) [of "timer_links s" None "map Some us" "Some t" "map Some vs"] d
    by (simp add: lk)
  have "expires (?tm x) > 0" if "us @ vs = x # r" for x r
  proof (cases us)
    case Nil
    then have "unat (expires (timers s t)) > 0" using pos [of t vs] by (simp add: word_less_nat_alt)
    moreover have "unat (expires (?tm x)) = unat (expires (timers s t)) + unat (expires (timers s x))"
      using ex [of 0] that Nil by simp
    ultimately show ?thesis by (simp add: word_less_nat_alt)
  next
    case (Cons y r')
    then show ?thesis using that us [of y] pos [of y "r' @ t # vs"] by simp
  qed
  moreover have "timer_total ?tm us = timer_total (timers s) us" by (rule timer_total_cong) (rule us)
  ultimately show "timer_ring (del_timer s t) (us @ vs)"
    using d' tot tt by (auto simp: timer_ring_def)
  have "filter (\<lambda>p. fst p \<noteq> t) (expiries (timers s) a xs) = expiries (timers s) a xs" if "t \<notin> set xs" for a xs
    using that by (induction xs arbitrary: a) auto
  moreover have "expiries ?tm 0 us = expiries (timers s) 0 us" by (rule expiries_cong) (rule us)
  ultimately show "expiries ?tm 0 (us @ vs) =
      filter (\<lambda>p. fst p \<noteq> t) (expiries (timers s) 0 (us @ t # vs))"
    using dist ex \<open>timer_total ?tm us = timer_total (timers s) us\<close> by (simp add: expiries_append)
  show "list_empty (timer_links (del_timer s t)) (Some t)"
    using list_del_init_dlist(2) [of "timer_links s" None "map Some us" "Some t" "map Some vs"] d
    by (simp add: lk)
qed

subsection \<open>The clock tick\<close>

text \<open>The owner of a timer can be woken: it is not a zombie and its wait can be interrupted.\<close>

definition wakeable :: "(proc_ptr \<Rightarrow> proc_struct) \<Rightarrow> proc_ptr \<Rightarrow> bool" where
  "wakeable ps p \<longleftrightarrow> state (ps p) \<noteq> PROC_ZOMBIE \<and>
     (wait_state (ps p) = 0 \<or> wait_state (ps p) AND WT_INTERRUPTED \<noteq> 0)"

definition owners_wakeable :: "sched_state \<Rightarrow> nat list \<Rightarrow> bool" where
  "owners_wakeable s ts \<longleftrightarrow>
     (\<forall>t \<in> set ts. \<exists>p. timer_proc (timers s t) = Some p \<and> wakeable (procs s) p)"

lemma del_timer_sel [simp]:
  "procs (del_timer s t) = procs s" "pool (del_timer s t) = pool s" "rq (del_timer s t) = rq s"
  "current (del_timer s t) = current s" "idleproc (del_timer s t) = idleproc s"
  "timer_proc (timers (del_timer s t) x) = timer_proc (timers s x)"
  by (simp_all add: del_timer_def Let_def split: option.split)

lemma del_timer_expired: "expires (timers s t) = 0 \<Longrightarrow> timers (del_timer s t) = timers s"
  by (simp add: del_timer_def Let_def)

lemma ready_cong: "procs s' = procs s \<Longrightarrow> current s' = current s \<Longrightarrow> idleproc s' = idleproc s \<Longrightarrow> ready s' = ready s"
  by (simp add: ready_def)

text \<open>Expired timers stand first in the ring.\<close>

definition expired_timer :: "(nat \<Rightarrow> timer) \<Rightarrow> nat \<Rightarrow> bool" where
  "expired_timer tm t \<longleftrightarrow> expires (tm t) = 0"

lemma expiries_Suc: "expiries tm (Suc a) ts = map (\<lambda>(t, e). (t, Suc e)) (expiries tm a ts)"
  by (induction ts arbitrary: a) simp_all

lemma expiries_pos: "0 < a \<Longrightarrow> filter (\<lambda>p. 0 < snd p) (expiries tm a ts) = expiries tm a ts"
  using expiries_ge by (fastforce simp: filter_id_conv)

lemma dropWhile_expired:
  "expiries tm 0 (dropWhile (expired_timer tm) ts) = filter (\<lambda>p. 0 < snd p) (expiries tm 0 ts)"
  by (induction ts) (auto simp: expired_timer_def expiries_pos unat_gt_0)

lemma takeWhile_expired:
  "set (takeWhile (expired_timer tm) ts) = {t. (t, 0) \<in> set (expiries tm 0 ts)}"
proof (induction ts)
  case (Cons t ts)
  show ?case
  proof (cases "expires (tm t) = 0")
    case False
    then have "(x, 0) \<notin> set (expiries tm (unat (expires (tm t))) ts)" for x
      using expiries_ge [of x 0 tm "unat (expires (tm t))" ts] by (auto simp: unat_eq_0)
    with False show ?thesis by (auto simp: expired_timer_def unat_eq_0)
  qed (use Cons in \<open>auto simp: expired_timer_def\<close>)
qed simp

lemma timer_total_dropWhile: "timer_total tm (dropWhile P ts) \<le> timer_total tm ts"
  by (induction ts) auto

text \<open>Taking one tick off the first timer takes one off every absolute expiry time.\<close>

lemma expiries_tick:
  assumes "expires (tm t) > 0" "t \<notin> set ts"
  shows "expiries tm 0 (t # ts) =
     map (\<lambda>(t, e). (t, Suc e)) (expiries (tm(t := expires_update (\<lambda>e. e - 1) (tm t))) 0 (t # ts))"
proof -
  let ?tm = "tm(t := expires_update (\<lambda>e. e - 1) (tm t))"
  have "unat (expires (tm t)) = Suc (unat (expires (tm t) - 1))"
    using assms(1) unat_minus_one [of "expires (tm t)"] by (simp add: unat_gt_0 word_greater_zero_iff)
  moreover have "expiries ?tm a ts = expiries tm a ts" for a
    by (rule expiries_cong) (use assms(2) in auto)
  ultimately show ?thesis by (simp add: expiries_Suc)
qed

context sched_class_contract
begin

lemma run_timers_step:
  assumes ring: "dlist (timer_links s) None (map Some (t # ts))" and inv: "holds s (ready s)"
    and own: "owners_wakeable s (t # ts)" and exp: "expired_timer (timers s) t"
  shows "\<exists>s2. run_timers sc s t = (case ts of [] \<Rightarrow> Some (Ret s2) | t' # _ \<Rightarrow> run_timers sc s2 t') \<and>
     timers s2 = timers s \<and> dlist (timer_links s2) None (map Some ts) \<and> holds s2 (ready s2) \<and>
     owners_wakeable s2 ts \<and> current s2 = current s \<and> idleproc s2 = idleproc s \<and>
     state (procs s2 (the (timer_proc (timers s t)))) = PROC_RUNNABLE \<and>
     (\<forall>q. q \<noteq> the (timer_proc (timers s t)) \<longrightarrow> state (procs s2 q) = state (procs s q))"
proof -
  from own obtain p where p: "timer_proc (timers s t) = Some p" "wakeable (procs s) p"
    by (auto simp: owners_wakeable_def)
  from wakeup_ready [OF inv, of p] p(2) obtain s1 where s1: "wakeup_proc sc s p = Ret s1"
    "holds s1 (ready s1)" "state (procs s1 p) = PROC_RUNNABLE" "current s1 = current s"
    "idleproc s1 = idleproc s" "timer_links s1 = timer_links s" "timers s1 = timers s"
    "\<forall>q. q \<noteq> p \<longrightarrow> state (procs s1 q) = state (procs s q)"
    "\<forall>q. q \<noteq> p \<longrightarrow> same_proc (procs s q) (procs s1 q)"
    "wait_state (procs s1 p) \<in> {0, wait_state (procs s p)}"
    by (auto simp: wakeable_def)
  let ?s2 = "del_timer s1 t"
  have tm: "timers ?s2 = timers s"
    using del_timer_expired [of s1 t] s1(7) exp by (simp add: expired_timer_def)
  have nx: "list_next (timer_links s) (Some t) = first_link ts"
    using next_link_ring [of "timer_links s" "[]" t ts] ring by simp
  have "run_timers sc s t = (case ts of [] \<Rightarrow> Some (Ret ?s2) | t' # _ \<Rightarrow> run_timers sc ?s2 t')"
    using exp p s1(1) nx
    by (subst run_timers.simps) (auto simp: expired_timer_def wakeable_def split: list.split)
  moreover have "dlist (timer_links ?s2) None (map Some ts)"
    using list_del_init_dlist(1) [of "timer_links s1" None "[]" "Some t" "map Some ts"]
      ring in_ring_not_empty [of "timer_links s1" "[]" t ts] s1(6,7) exp
    by (simp add: del_timer_def expired_timer_def)
  moreover have "holds ?s2 (ready ?s2)"
    using holds_frame [OF s1(2)] ready_cong [of ?s2 s1] by simp
  moreover have "wakeable (procs s1) q" if "wakeable (procs s) q" for q
    using that s1(3,8,9,10) same_proc_wait [of "procs s q" "procs s1 q"]
    by (cases "q = p") (auto simp: wakeable_def)
  then have "owners_wakeable ?s2 ts"
    using own by (fastforce simp: owners_wakeable_def tm)
  ultimately show ?thesis using s1 tm p(1) by (intro exI [of _ ?s2]) simp
qed

lemma run_timers_spec:
  assumes "dlist (timer_links s) None (map Some (t # ts))" "holds s (ready s)"
    "owners_wakeable s (t # ts)"
  shows "\<exists>s'. run_timers sc s t = Some (Ret s') \<and> timers s' = timers s \<and>
     dlist (timer_links s') None (map Some (dropWhile (expired_timer (timers s)) (t # ts))) \<and>
     holds s' (ready s') \<and> current s' = current s \<and> idleproc s' = idleproc s \<and>
     (\<forall>x \<in> set (takeWhile (expired_timer (timers s)) (t # ts)).
        state (procs s' (the (timer_proc (timers s x)))) = PROC_RUNNABLE) \<and>
     (\<forall>q. q \<notin> the ` timer_proc ` timers s ` set (takeWhile (expired_timer (timers s)) (t # ts)) \<longrightarrow>
        state (procs s' q) = state (procs s q))"
  using assms
proof (induction ts arbitrary: s t)
  case (Nil s t)
  show ?case
  proof (cases "expired_timer (timers s) t")
    case False
    then show ?thesis using Nil by (auto simp: run_timers.simps expired_timer_def)
  next
    case True
    from run_timers_step [OF Nil True] True show ?thesis by auto
  qed
next
  case (Cons t' ts s t)
  show ?case
  proof (cases "expired_timer (timers s) t")
    case False
    then show ?thesis using Cons.prems by (auto simp: run_timers.simps expired_timer_def)
  next
    case True
    let ?own = "\<lambda>x. the (timer_proc (timers s x))"
    from run_timers_step [OF Cons.prems True] obtain s2 where s2:
      "run_timers sc s t = run_timers sc s2 t'" "timers s2 = timers s"
      "dlist (timer_links s2) None (map Some (t' # ts))" "holds s2 (ready s2)"
      "owners_wakeable s2 (t' # ts)" "current s2 = current s" "idleproc s2 = idleproc s"
      "state (procs s2 (?own t)) = PROC_RUNNABLE"
      "\<forall>q. q \<noteq> ?own t \<longrightarrow> state (procs s2 q) = state (procs s q)" by auto
    let ?ex = "takeWhile (expired_timer (timers s)) (t' # ts)"
    from Cons.IH [OF s2(3,4,5)] obtain s' where IH: "run_timers sc s2 t' = Some (Ret s')" "timers s' = timers s"
      "dlist (timer_links s') None (map Some (dropWhile (expired_timer (timers s)) (t' # ts)))"
      "holds s' (ready s')" "current s' = current s" "idleproc s' = idleproc s"
      "\<forall>x \<in> set ?ex. state (procs s' (?own x)) = PROC_RUNNABLE"
      "\<forall>q. q \<notin> the ` timer_proc ` timers s ` set ?ex \<longrightarrow> state (procs s' q) = state (procs s2 q)"
      unfolding s2(2,6,7) by blast
    have "state (procs s' (?own t)) = PROC_RUNNABLE"
      using IH(7,8) s2(8) by (cases "?own t \<in> the ` timer_proc ` timers s ` set ?ex") (force, simp)
    then show ?thesis
      using IH s2 True by (intro exI [of _ s']) (simp add: image_iff)
  qed
qed

lemma run_timer_list_spec:
  assumes ring: "timer_ring s ts" and inv: "holds s (ready s)" and own: "owners_wakeable s ts"
  shows "\<exists>s' ts'. run_timer_list sc s = Ret s' \<and> timer_ring s' ts' \<and> holds s' (ready s') \<and>
     map (\<lambda>(t, e). (t, Suc e)) (expiries (timers s') 0 ts') =
       filter (\<lambda>p. 1 < snd p) (expiries (timers s) 0 ts) \<and>
     (\<forall>t p. (t, 1) \<in> set (expiries (timers s) 0 ts) \<and> timer_proc (timers s t) = Some p \<longrightarrow>
        state (procs s' p) = PROC_RUNNABLE) \<and>
     (\<forall>p. (\<forall>t. (t, 1) \<in> set (expiries (timers s) 0 ts) \<longrightarrow> timer_proc (timers s t) \<noteq> Some p) \<longrightarrow>
        state (procs s' p) = state (procs s p)) \<and>
     current s' = current s \<and> idleproc s' = idleproc s"
proof -
  from ring have d: "dlist (timer_links s) None (map Some ts)" by (simp add: timer_ring_def)
  show ?thesis
  proof (cases ts)
    case Nil
    then have "run_timer_list sc s = Ret (sched_class_proc_tick sc s (current s))"
      using first_link_ring [OF d] by (simp add: run_timer_list_def)
    then show ?thesis
      using proc_tick_ready [OF inv] ring Nil
      by (intro exI [of _ "sched_class_proc_tick sc s (current s)"] exI [of _ "[]"])
        (simp add: timer_ring_def)
  next
    case (Cons t r)
    have pos: "expires (timers s t) > 0" using ring Cons by (simp add: timer_ring_def)
    let ?s1 = "upd_timer t (expires_update (\<lambda>e. e - 1)) s"
    have tr: "t \<notin> set r" using distinct_ring [OF d] Cons by simp
    note et = expiries_tick [of "timers s", OF pos tr]
    have "holds ?s1 (ready ?s1)" using holds_frame [OF inv, of ?s1] by (simp add: ready_def)
    moreover have "owners_wakeable ?s1 (t # r)" using own Cons by (auto simp: owners_wakeable_def)
    ultimately obtain s2 where s2: "run_timers sc ?s1 t = Some (Ret s2)" "timers s2 = timers ?s1"
      "dlist (timer_links s2) None (map Some (dropWhile (expired_timer (timers ?s1)) (t # r)))"
      "holds s2 (ready s2)" "current s2 = current s" "idleproc s2 = idleproc s"
      "\<forall>x \<in> set (takeWhile (expired_timer (timers ?s1)) (t # r)).
        state (procs s2 (the (timer_proc (timers ?s1 x)))) = PROC_RUNNABLE"
      "\<forall>q. q \<notin> the ` timer_proc ` timers ?s1 ` set (takeWhile (expired_timer (timers ?s1)) (t # r)) \<longrightarrow>
        state (procs s2 q) = state (procs s q)"
      using run_timers_spec [of ?s1 t r] d Cons by auto
    let ?E = "expiries (timers ?s1) 0 (t # r)" and ?ts = "dropWhile (expired_timer (timers ?s1)) (t # r)"
    let ?s' = "sched_class_proc_tick sc s2 (current s2)"
    note tick = proc_tick_ready [OF s2(4)]
    have E: "expiries (timers s) 0 ts = map (\<lambda>(t, e). (t, Suc e)) ?E"
      using et unfolding Cons sched_state.select_convs sched_state.update_convs by (simp del: expiries.simps)
    have one: "(x, 1) \<in> set (expiries (timers s) 0 ts) \<longleftrightarrow> x \<in> set (takeWhile (expired_timer (timers ?s1)) (t # r))"
      for x unfolding E takeWhile_expired by force
    have "timer_total (timers ?s1) r = timer_total (timers s) r"
      by (rule timer_total_cong) (use tr in auto)
    moreover have "unat (expires (timers s t) - 1) \<le> unat (expires (timers s t))"
      using pos unat_minus_one [of "expires (timers s t)"] by (simp add: word_greater_zero_iff)
    ultimately have "timer_total (timers ?s1) (t # r) \<le> timer_total (timers s) ts"
      using Cons by simp
    then have "timer_total (timers ?s1) ?ts < 2 ^ 32"
      using timer_total_dropWhile [of "timers ?s1" "expired_timer (timers ?s1)" "t # r"] ring
      by (simp add: timer_ring_def)
    moreover have "expires (timers ?s1 x) > 0" if "?ts = x # u" for x u
      using hd_dropWhile [of "expired_timer (timers ?s1)" "t # r"] that
      by (metis expired_timer_def list.distinct(1) list.sel(1) word_greater_zero_iff)
    ultimately have "timer_ring ?s' ?ts" using s2(2,3) by (simp add: timer_ring_def tick)
    moreover have "map (\<lambda>(t, e). (t, Suc e)) (expiries (timers ?s') 0 ?ts) =
        filter (\<lambda>p. 1 < snd p) (expiries (timers s) 0 ts)"
      unfolding tick s2(2) dropWhile_expired E filter_map by (simp add: comp_def case_prod_beta)
    moreover have "run_timer_list sc s = Ret ?s'"
      using first_link_ring [OF d] Cons pos s2(1) by (simp add: run_timer_list_def)
    moreover have tp: "timer_proc (timers ?s1 x) = timer_proc (timers s x)" for x by simp
    have "state (procs ?s' p) = PROC_RUNNABLE"
      if "(x, 1) \<in> set (expiries (timers s) 0 ts)" "timer_proc (timers s x) = Some p" for x p
      using bspec [OF s2(7) that(1) [unfolded one]] that(2) unfolding tick tp by simp
    moreover have "state (procs ?s' p) = state (procs s p)"
      if no: "\<forall>x. (x, 1) \<in> set (expiries (timers s) 0 ts) \<longrightarrow> timer_proc (timers s x) \<noteq> Some p" for p
    proof -
      have "p \<notin> the ` timer_proc ` timers ?s1 ` set (takeWhile (expired_timer (timers ?s1)) (t # r))"
      proof
        assume "p \<in> the ` timer_proc ` timers ?s1 ` set (takeWhile (expired_timer (timers ?s1)) (t # r))"
        then obtain x where x: "x \<in> set (takeWhile (expired_timer (timers ?s1)) (t # r))"
          "p = the (timer_proc (timers s x))" by (auto simp only: image_iff tp)
        then have "x \<in> set ts" using set_takeWhileD Cons by metis
        then have "timer_proc (timers s x) = Some p" using own x(2) by (auto simp: owners_wakeable_def)
        then show False using no x(1) one by blast
      qed
      then show ?thesis using s2(8) unfolding tick by blast
    qed
    moreover have "current ?s' = current s" "idleproc ?s' = idleproc s" "holds ?s' (ready ?s')"
      using tick(1) trans [OF tick(4) s2(5)] trans [OF tick(5) s2(6)] by blast+
    ultimately show ?thesis by (intro exI conjI) blast+
  qed
qed

end

subsection \<open>Properties\<close>

text \<open>Adding a timer to a well-formed timer list keeps it well formed, and in terms of
  absolute expiry times it inserts the timer after every timer that expires no later and before
  every timer that expires later, changing no other expiry time.\<close>

theorem add_timer_refines_insert:
  assumes "timer_ring s ts" "t \<notin> set ts" "list_empty (timer_links s) (Some t)"
    "expires (timers s t) > 0" "timer_proc (timers s t) \<noteq> None"
  shows "\<exists>s' ts'. add_timer s t = Ret s' \<and> timer_ring s' ts' \<and>
     expiries (timers s') 0 ts' = insert_timer t (unat (expires (timers s t))) (expiries (timers s) 0 ts)"
  using add_timer_ring [OF assms] by blast

text \<open>Two timers for the witnesses: timer 0 of process 1 after 5 ticks, timer 1 of process 2 after 3.\<close>

definition two_timers :: sched_state where
  "two_timers = timer_init (timer_init (sched_init default_sched_class boot_sched) 0 (Some 1) 5) 1 (Some 2) 3"

lemma two_timers_ring: "timer_ring two_timers []"
  by (simp add: two_timers_def timer_init_def timer_ring_def sched_init_def stride_init_def
      boot_sched_def dlist_def list_init_def)

lemma two_timers_sel: "timers two_timers 0 = \<lparr>expires = 5, timer_proc = Some 1\<rparr>"
  "timers two_timers 1 = \<lparr>expires = 3, timer_proc = Some 2\<rparr>"
  "list_empty (timer_links two_timers) (Some 0)" "list_empty (timer_links two_timers) (Some 1)"
  by (simp_all add: two_timers_def timer_init_def sched_init_def stride_init_def boot_sched_def
      list_empty_def list_init_def)

theorem add_timer_refines_insert_witness:
  "\<exists>s' ts'. add_timer two_timers 0 = Ret s' \<and> timer_ring s' ts' \<and> expiries (timers s') 0 ts' = [(0, 5)]"
  using add_timer_refines_insert [OF two_timers_ring, of 0] by (simp add: two_timers_sel insert_timer_def)

text \<open>Deleting a timer that is in the list keeps the list well formed and the absolute
  expiry times of all the other timers, and leaves the timer unlinked.\<close>

theorem del_timer_keeps_expiries:
  assumes "timer_ring s (us @ t # vs)"
  shows "timer_ring (del_timer s t) (us @ vs) \<and>
     expiries (timers (del_timer s t)) 0 (us @ vs) =
       filter (\<lambda>p. fst p \<noteq> t) (expiries (timers s) 0 (us @ t # vs)) \<and>
     list_empty (timer_links (del_timer s t)) (Some t)"
  using del_timer_ring [OF assms] by blast

theorem del_timer_keeps_expiries_witness:
  "\<exists>s. add_timer two_timers 0 = Ret s \<and> timer_ring (del_timer s 0) [] \<and>
     list_empty (timer_links (del_timer s 0)) (Some 0)"
proof -
  obtain s ts where s: "add_timer two_timers 0 = Ret s" "timer_ring s ts"
    "expiries (timers s) 0 ts = insert_timer 0 (unat (expires (timers two_timers 0))) (expiries (timers two_timers) 0 [])"
    using add_timer_ring [OF two_timers_ring, of 0] by (auto simp: two_timers_sel)
  from s(3) have "map fst (expiries (timers s) 0 ts) = [0]" by (simp add: insert_timer_def)
  then have "ts = [] @ 0 # []" by simp
  with del_timer_keeps_expiries [of s "[]" 0 "[]"] s(1,2) show ?thesis by auto
qed

text \<open>C20: the clock tick on a well-formed timer list whose owners can be woken never panics: it
  removes exactly the timers that expire at this tick, brings every other expiry time one tick
  nearer, makes the owner of every expired timer runnable, changes the state of no other
  process, and keeps the run queue invariant of the stride scheduler.\<close>

theorem run_timer_list_wakes:
  assumes "timer_ring s ts" "rq_holds s (ready s)" "owners_wakeable s ts"
  shows "\<exists>s' ts'. run_timer_list default_sched_class s = Ret s' \<and> timer_ring s' ts' \<and>
     rq_holds s' (ready s') \<and>
     map (\<lambda>(t, e). (t, Suc e)) (expiries (timers s') 0 ts') =
       filter (\<lambda>p. 1 < snd p) (expiries (timers s) 0 ts) \<and>
     (\<forall>t p. (t, 1) \<in> set (expiries (timers s) 0 ts) \<and> timer_proc (timers s t) = Some p \<longrightarrow>
        state (procs s' p) = PROC_RUNNABLE) \<and>
     (\<forall>p. (\<forall>t. (t, 1) \<in> set (expiries (timers s) 0 ts) \<longrightarrow> timer_proc (timers s t) \<noteq> Some p) \<longrightarrow>
        state (procs s' p) = state (procs s p))"
  using stride.run_timer_list_spec [OF assms] by blast

definition one_tick_timer :: sched_state where
  "one_tick_timer = timer_init (sched_init default_sched_class boot_sched) 0 (Some 1) 1"

theorem run_timer_list_wakes_witness:
  "\<exists>s s'. add_timer one_tick_timer 0 = Ret s \<and> run_timer_list default_sched_class s = Ret s' \<and>
     state (procs s' 1) = PROC_RUNNABLE"
proof -
  have tm: "timers one_tick_timer 0 = \<lparr>expires = 1, timer_proc = Some 1\<rparr>"
    "timer_ring one_tick_timer []" "list_empty (timer_links one_tick_timer) (Some 0)"
    "wakeable (procs one_tick_timer) 1" "rq_holds one_tick_timer {}" "ready one_tick_timer = {}"
    by (simp_all add: skew_heap_def one_tick_timer_def timer_init_def sched_init_def stride_init_def boot_sched_def
      list_init_def timer_ring_def dlist_def list_empty_def wakeable_def blank_proc_def ready_def rq_holds_def)
  obtain s ts where s: "add_timer one_tick_timer 0 = Ret s" "timer_ring s ts"
    "expiries (timers s) 0 ts = [(0, 1)]" "procs s = procs one_tick_timer" "pool s = pool one_tick_timer"
    "rq s = rq one_tick_timer" "current s = current one_tick_timer" "idleproc s = idleproc one_tick_timer"
    "timer_proc (timers s 0) = Some 1"
    using add_timer_ring [OF tm(2), of 0] tm by (auto simp: insert_timer_def)
  have "ts = [0]" using expiries_fst [of "timers s" 0 ts] unfolding s(3) by simp
  then have "owners_wakeable s ts" using s tm(4) by (simp add: owners_wakeable_def)
  moreover have "rq_holds s (ready s)"
    using stride.holds_frame [OF tm(5), of s] s ready_cong [of s one_tick_timer] tm(6) by simp
  ultimately show ?thesis using run_timer_list_wakes [OF s(2)] s(1,3,9) by fastforce
qed

end
