(* ===== verification/DefaultPmm.thy ===== *)
theory DefaultPmm
  imports DList
begin

text \<open>
  The first-fit page allocator \<^verbatim>\<open>kern/mm/default_pmm.c\<close> on page descriptors and the ring of
  free pages, and the interface \<open>struct pmm_manager\<close> it implements. Every free page is linked,
  in address order; the first page of a free block carries the length of the block in
  \<open>property\<close>, the others carry 0.
\<close>

subsection \<open>Page descriptors (memlayout.h)\<close>

text \<open>
  A page pointer is the index into \<open>pages\<close>; the two list nodes of a descriptor live in the
  link stores. In \<open>free_links\<close>, \<open>None\<close> is the head \<open>free_list\<close> and \<open>Some p\<close> the \<open>page_link\<close>
  of page \<open>p\<close>.
\<close>

record page =
  ref :: int
  page_flags :: u32
  property :: u32
  pra_vaddr :: u32

record pmm_state =
  pages :: "nat \<Rightarrow> page"
  free_links :: "nat option links"
  nr_free :: u32

definition PG_reserved :: nat where "PG_reserved = 0"
definition PG_property :: nat where "PG_property = 1"

definition SetPageReserved :: "page \<Rightarrow> page" where
  "SetPageReserved p = p\<lparr>page_flags := set_bit PG_reserved (page_flags p)\<rparr>"

definition SetPageProperty :: "page \<Rightarrow> page" where
  "SetPageProperty p = p\<lparr>page_flags := set_bit PG_property (page_flags p)\<rparr>"

definition ClearPageReserved :: "page \<Rightarrow> page" where
  "ClearPageReserved p = p\<lparr>page_flags := unset_bit PG_reserved (page_flags p)\<rparr>"

definition ClearPageProperty :: "page \<Rightarrow> page" where
  "ClearPageProperty p = p\<lparr>page_flags := unset_bit PG_property (page_flags p)\<rparr>"

definition PageReserved :: "page \<Rightarrow> bool" where
  "PageReserved p \<longleftrightarrow> bit (page_flags p) PG_reserved"

definition PageProperty :: "page \<Rightarrow> bool" where
  "PageProperty p \<longleftrightarrow> bit (page_flags p) PG_property"

definition set_page_ref :: "page \<Rightarrow> int \<Rightarrow> page" where
  "set_page_ref p v = p\<lparr>ref := v\<rparr>"

abbreviation upd_page :: "nat \<Rightarrow> (page \<Rightarrow> page) \<Rightarrow> pmm_state \<Rightarrow> pmm_state" where
  "upd_page p f s \<equiv> s\<lparr>pages := (pages s)(p := f (pages s p))\<rparr>"

subsection \<open>Operations\<close>

definition default_init :: "pmm_state \<Rightarrow> pmm_state" where
  "default_init s = s\<lparr>free_links := list_init (free_links s) None, nr_free := 0\<rparr>"

text \<open>The loop of \<open>default_init_memmap\<close> on \<open>k\<close> pages from \<open>p\<close>.\<close>

fun init_memmap_loop :: "nat \<Rightarrow> pmm_state \<Rightarrow> nat \<Rightarrow> pmm_state outcome" where
  "init_memmap_loop 0 s p = Ret s"
| "init_memmap_loop (Suc k) s p =
     assert_then (PageReserved (pages s p))
       (let s1 = upd_page p (\<lambda>x. set_page_ref ((SetPageProperty (x\<lparr>page_flags := 0\<rparr>))\<lparr>property := 0\<rparr>) 0) s
        in init_memmap_loop k (s1\<lparr>free_links := list_add_before (free_links s1) None (Some p)\<rparr>) (Suc p))"

definition default_init_memmap :: "pmm_state \<Rightarrow> nat \<Rightarrow> u32 \<Rightarrow> pmm_state outcome" where
  "default_init_memmap s base n =
     assert_then (n > 0)
       (bind_outcome (init_memmap_loop (unat n) s base)
         (\<lambda>s1. Ret (upd_page base (property_update (\<lambda>_. n)) (s1\<lparr>nr_free := nr_free s1 + n\<rparr>))))"

text \<open>
  The inner loop of \<open>default_alloc_pages\<close>: unlink \<open>k\<close> pages from \<open>le\<close> on. It gives the entry
  after them. Running into the list head would treat the head as a page descriptor.
\<close>

fun alloc_unlink :: "nat \<Rightarrow> pmm_state \<Rightarrow> nat option \<Rightarrow> (pmm_state \<times> nat option) outcome" where
  "alloc_unlink 0 s le = Ret (s, le)"
| "alloc_unlink (Suc k) s None = Panic"
| "alloc_unlink (Suc k) s (Some pp) =
     (let len = list_next (free_links s) (Some pp);
          s1 = upd_page pp (\<lambda>x. ClearPageProperty (SetPageReserved x)) s
      in alloc_unlink k (s1\<lparr>free_links := list_del (free_links s1) (Some pp)\<rparr>) len)"

definition default_alloc_pages :: "pmm_state \<Rightarrow> u32 \<Rightarrow> (pmm_state \<times> nat option) outcome" where
  "default_alloc_pages s n =
     assert_then (n > 0)
       (if n > nr_free s then Ret (s, None) else
        bind_outcome
          (of_option (list_scan (free_links s) None
             (\<lambda>le. case le of None \<Rightarrow> False | Some p \<Rightarrow> property (pages s p) \<ge> n) None))
          (\<lambda>le. case le of
               None \<Rightarrow> Ret (s, None)
             | Some p \<Rightarrow>
                 bind_outcome (alloc_unlink (unat n) s (Some p))
                   (\<lambda>(s1, le1).
                      bind_outcome
                        (if property (pages s1 p) > n then
                           (case le1 of
                              None \<Rightarrow> Panic
                            | Some q \<Rightarrow> Ret (upd_page q (property_update (\<lambda>_. property (pages s1 p) - n)) s1))
                         else Ret s1)
                        (\<lambda>s2. let s3 = upd_page p (\<lambda>x. SetPageReserved (ClearPageProperty x)) s2
                              in Ret (s3\<lparr>nr_free := nr_free s3 - n\<rparr>, Some p)))))"

text \<open>\<open>for (p = base; p < base + n; p ++) list_add_before(le, &(p->page_link))\<close>.\<close>

fun link_pages :: "nat \<Rightarrow> nat option links \<Rightarrow> nat option \<Rightarrow> nat \<Rightarrow> nat option links" where
  "link_pages 0 h le p = h"
| "link_pages (Suc k) h le p = link_pages k (list_add_before h le (Some p)) le (Suc p)"

text \<open>\<open>b->property += c->property; c->property = 0\<close>.\<close>

definition merge_pages :: "(nat \<Rightarrow> page) \<Rightarrow> nat \<Rightarrow> nat \<Rightarrow> nat \<Rightarrow> page" where
  "merge_pages pg b c =
     (let pg1 = pg(b := (pg b)\<lparr>property := property (pg b) + property (pg c)\<rparr>)
      in pg1(c := (pg1 c)\<lparr>property := 0\<rparr>))"

text \<open>
  Merging with the following block: \<open>p = le2page(le); if (base + n == p)\<close>. The descriptor
  address computed from the list head is below \<open>pages\<close> and equals no page.
\<close>

definition merge_next :: "(nat \<Rightarrow> page) \<Rightarrow> nat \<Rightarrow> nat \<Rightarrow> nat option \<Rightarrow> nat \<Rightarrow> page" where
  "merge_next pg base n le =
     (case le of None \<Rightarrow> pg | Some p \<Rightarrow> if base + n = p then merge_pages pg base p else pg)"

text \<open>The loop that looks backwards for the first page of the preceding block.\<close>

partial_function (option) merge_back ::
  "nat option links \<Rightarrow> nat \<Rightarrow> (nat \<Rightarrow> page) \<Rightarrow> nat option \<Rightarrow> (nat \<Rightarrow> page) option" where
  "merge_back h base pg le =
     (case le of
        None \<Rightarrow> Some pg
      | Some p \<Rightarrow>
          if property (pg p) \<noteq> 0 then Some (merge_pages pg p base)
          else merge_back h base pg (list_prev h le))"

definition merge_prev :: "nat option links \<Rightarrow> nat \<Rightarrow> (nat \<Rightarrow> page) \<Rightarrow> (nat \<Rightarrow> page) outcome" where
  "merge_prev h base pg =
     (case list_prev h (Some base) of
        None \<Rightarrow> Ret pg
      | Some p \<Rightarrow> if Suc p = base then of_option (merge_back h base pg (Some p)) else Ret pg)"

definition default_free_pages :: "pmm_state \<Rightarrow> nat \<Rightarrow> u32 \<Rightarrow> pmm_state outcome" where
  "default_free_pages s base n =
     assert_then (n > 0) (assert_then (PageReserved (pages s base))
       (bind_outcome
         (of_option (list_scan (free_links s) None
            (\<lambda>le. case le of None \<Rightarrow> False | Some p \<Rightarrow> p > base) None))
         (\<lambda>le.
            let h1 = link_pages (unat n) (free_links s) le base;
                pg1 = (pages s)(base :=
                        (SetPageProperty (ClearPageProperty (set_page_ref ((pages s base)\<lparr>page_flags := 0\<rparr>) 0)))
                          \<lparr>property := n\<rparr>)
            in bind_outcome (merge_prev h1 base (merge_next pg1 base (unat n) le))
                 (\<lambda>pg3. Ret (s\<lparr>pages := pg3, free_links := h1, nr_free := nr_free s + n\<rparr>)))))"

definition default_nr_free_pages :: "pmm_state \<Rightarrow> u32" where
  "default_nr_free_pages s = nr_free s"

subsection \<open>Free blocks\<close>

text \<open>
  The abstract state of the allocator: the free blocks, as pairs of first page and length, in
  address order.
\<close>

type_synonym blocks = "(nat \<times> nat) list"

definition block_pages :: "blocks \<Rightarrow> nat list" where
  "block_pages bs = concat (map (\<lambda>(b, l). [b ..< b + l]) bs)"

fun blocks_from :: "nat \<Rightarrow> blocks \<Rightarrow> bool" where
  "blocks_from lo [] \<longleftrightarrow> True"
| "blocks_from lo ((b, l) # bs) \<longleftrightarrow> lo \<le> b \<and> 0 < l \<and> blocks_from (b + l) bs"

definition block_marks :: "(nat \<Rightarrow> page) \<Rightarrow> nat \<times> nat \<Rightarrow> bool" where
  "block_marks pg bl \<longleftrightarrow> property (pg (fst bl)) = of_nat (snd bl) \<and>
     (\<forall>i. 0 < i \<longrightarrow> i < snd bl \<longrightarrow> property (pg (fst bl + i)) = 0)"

definition pmm_blocks :: "pmm_state \<Rightarrow> blocks \<Rightarrow> bool" where
  "pmm_blocks s bs \<longleftrightarrow>
     dlist (free_links s) None (map Some (block_pages bs)) \<and> blocks_from 0 bs \<and>
     (\<forall>bl \<in> set bs. block_marks (pages s) bl) \<and>
     nr_free s = of_nat (length (block_pages bs)) \<and> length (block_pages bs) < 2 ^ 32"

lemma block_pages_simps [simp]:
  "block_pages [] = []" "block_pages ((b, l) # bs) = [b ..< b + l] @ block_pages bs"
  "block_pages (bs @ cs) = block_pages bs @ block_pages cs"
  by (simp_all add: block_pages_def)

lemma blocks_from_ge: "blocks_from lo bs \<Longrightarrow> p \<in> set (block_pages bs) \<Longrightarrow> lo \<le> p"
proof (induction bs arbitrary: lo)
  case (Cons bl bs)
  obtain b l where bl: "bl = (b, l)" by (cases bl)
  show ?case
  proof (cases "p \<in> set (block_pages bs)")
    case True
    then have "b + l \<le> p" using Cons.IH Cons.prems(1) bl by auto
    then show ?thesis using Cons.prems(1) bl by simp
  qed (use Cons.prems bl in auto)
qed simp

lemma blocks_from_mono: "blocks_from hi bs \<Longrightarrow> lo \<le> hi \<Longrightarrow> blocks_from lo bs"
  by (cases bs) auto

lemma blocks_from_hi: "blocks_from lo bs \<Longrightarrow> (\<And>p. p \<in> set (block_pages bs) \<Longrightarrow> hi \<le> p) \<Longrightarrow> blocks_from hi bs"
  by (cases bs) auto

lemma blocks_from_append:
  "blocks_from lo (bs @ cs) \<longleftrightarrow> blocks_from lo bs \<and> blocks_from lo cs \<and>
     (\<forall>p \<in> set (block_pages bs). \<forall>q \<in> set (block_pages cs). p < q)"
proof (induction bs arbitrary: lo)
  case (Cons bl bs)
  obtain b l where bl: "bl = (b, l)" by (cases bl)
  have *: "blocks_from (b + l) cs \<longleftrightarrow> blocks_from lo cs \<and> (\<forall>p \<in> {b ..< b + l}. \<forall>q \<in> set (block_pages cs). p < q)"
    if "lo \<le> b" "0 < l"
  proof
    assume "blocks_from (b + l) cs"
    moreover from this have "b + l \<le> q" if "q \<in> set (block_pages cs)" for q
      using that by (rule blocks_from_ge)
    ultimately show "blocks_from lo cs \<and> (\<forall>p \<in> {b ..< b + l}. \<forall>q \<in> set (block_pages cs). p < q)"
      using that blocks_from_mono [of "b + l" cs lo] by fastforce
  next
    assume a: "blocks_from lo cs \<and> (\<forall>p \<in> {b ..< b + l}. \<forall>q \<in> set (block_pages cs). p < q)"
    have "b + l \<le> q" if "q \<in> set (block_pages cs)" for q
    proof -
      have "b + l - 1 \<in> {b ..< b + l}" using \<open>0 < l\<close> by auto
      then have "b + l - 1 < q" using a that by blast
      then show ?thesis by simp
    qed
    then show "blocks_from (b + l) cs" using a by (blast intro: blocks_from_hi)
  qed
  show ?case
  proof (cases "lo \<le> b \<and> 0 < l")
    case True
    then show ?thesis using Cons.IH [of "b + l"] * unfolding bl append_Cons by (auto simp: ball_Un)
  qed (auto simp: bl)
qed simp

lemma block_marks_cong:
  "block_marks pg (b, l) \<Longrightarrow> 0 < l \<Longrightarrow> (\<And>p. p \<in> {b ..< b + l} \<Longrightarrow> property (pg' p) = property (pg p)) \<Longrightarrow>
   block_marks pg' (b, l)"
  by (simp add: block_marks_def)

lemma blocks_from_pos: "blocks_from lo bs \<Longrightarrow> (b, l) \<in> set bs \<Longrightarrow> 0 < l"
  by (induction lo bs rule: blocks_from.induct) auto

lemma block_in_pages: "(b, l) \<in> set bs \<Longrightarrow> p \<in> {b ..< b + l} \<Longrightarrow> p \<in> set (block_pages bs)"
  by (force simp: block_pages_def)

lemma blocks_marks_cong:
  assumes "\<forall>bl \<in> set bs. block_marks pg bl" "blocks_from lo bs"
    "\<And>p. p \<in> set (block_pages bs) \<Longrightarrow> property (pg' p) = property (pg p)"
  shows "\<forall>bl \<in> set bs. block_marks pg' bl"
proof (clarify)
  fix b l assume bl: "(b, l) \<in> set bs"
  show "block_marks pg' (b, l)"
    using assms(1) bl blocks_from_pos [OF assms(2) bl] block_in_pages [OF bl] assms(3)
    by (intro block_marks_cong [of pg b l pg']) auto
qed

subsection \<open>Allocation\<close>

fun alloc_blocks :: "nat \<Rightarrow> blocks \<Rightarrow> (nat \<times> blocks) option" where
  "alloc_blocks n [] = None"
| "alloc_blocks n ((b, l) # bs) =
     (if n \<le> l then Some (b, if n < l then (b + n, l - n) # bs else bs)
      else map_option (\<lambda>(p, r). (p, (b, l) # r)) (alloc_blocks n bs))"

lemma alloc_blocks_None: "length (block_pages bs) < n \<Longrightarrow> alloc_blocks n bs = None"
  by (induction n bs rule: alloc_blocks.induct) auto

lemma alloc_blocks_SomeE:
  assumes "alloc_blocks n bs = Some (p, bs')"
  obtains us l vs where "bs = us @ (p, l) # vs" "n \<le> l"
    "bs' = us @ (if n < l then [(p + n, l - n)] else []) @ vs"
  using assms
proof (induction bs arbitrary: bs' thesis)
  case (Cons bl bs)
  obtain b k where bl: "bl = (b, k)" by (cases bl)
  show ?case
  proof (cases "n \<le> k")
    case True
    then show ?thesis using Cons.prems(1) [of "[]" k bs] Cons.prems(2) by (auto simp: bl split: if_splits)
  next
    case False
    then obtain r where r: "alloc_blocks n bs = Some (p, r)" "bs' = (b, k) # r"
      using Cons.prems(2) by (auto simp: bl)
    from Cons.IH [OF _ r(1)] obtain us l vs where "bs = us @ (p, l) # vs" "n \<le> l"
      "r = us @ (if n < l then [(p + n, l - n)] else []) @ vs" by blast
    then show ?thesis using Cons.prems(1) [of "(b, k) # us" l vs] r(2) bl by simp
  qed
qed simp

lemma blocks_shrink:
  "blocks_from lo (us @ (p, l) # vs) \<Longrightarrow> n \<le> l \<Longrightarrow>
   blocks_from lo (us @ (if n < l then [(p + n, l - n)] else []) @ vs)"
proof (induction us arbitrary: lo)
  case Nil
  then show ?case using blocks_from_mono [of "p + l" vs lo] by auto
next
  case (Cons bl us)
  then show ?case by (cases bl) auto
qed

lemma blocks_apart:
  assumes "blocks_from lo (us @ (p, l) # vs)" "q \<in> {p ..< p + l}"
  shows "q \<notin> set (block_pages us)" "q \<notin> set (block_pages vs)"
  using assms blocks_from_ge [of "p + l" vs q] unfolding blocks_from_append by fastforce+

lemma find_block:
  assumes "blocks_from lo bs" "\<forall>bl \<in> set bs. block_marks pg bl" "0 < n"
    "length (block_pages bs) < 2 ^ 32" 
  shows "find (\<lambda>p. n \<le> property (pg p)) (block_pages bs) = map_option fst (alloc_blocks (unat n) bs)"
  using assms
proof (induction bs arbitrary: lo)
  case (Cons bl bs)
  obtain b l where bl: "bl = (b, l)" by (cases bl)
  from Cons.prems bl have l: "0 < l" "l < 2 ^ 32" and m: "block_marks pg (b, l)" by auto
  have IH: "find (\<lambda>p. n \<le> property (pg p)) (block_pages bs) = map_option fst (alloc_blocks (unat n) bs)"
    using Cons bl by auto
  have eq: "n \<le> property (pg b) \<longleftrightarrow> unat n \<le> l"
    using m l by (simp add: block_marks_def word_le_nat_alt unat_of_nat_u32)
  have split: "[b ..< b + l] = b # [Suc b ..< b + l]" using l by (simp add: upt_conv_Cons)
  have "find (\<lambda>p. n \<le> property (pg p)) [Suc b ..< b + l] = None"
  proof (rule ccontr)
    assume "find (\<lambda>p. n \<le> property (pg p)) [Suc b ..< b + l] \<noteq> None"
    then obtain p where p: "p \<in> {Suc b ..< b + l}" "n \<le> property (pg p)"
      by (auto simp: find_None_iff)
    from p(1) obtain i where "p = b + i" "0 < i" "i < l" using less_imp_add_positive [of b p] by auto
    then have "property (pg p) = 0" using m by (simp add: block_marks_def)
    with p Cons.prems(3) show False by (simp add: word_le_nat_alt word_less_nat_alt)
  qed
  then have "find (\<lambda>p. n \<le> property (pg p)) ([Suc b ..< b + l] @ xs) = find (\<lambda>p. n \<le> property (pg p)) xs" for xs
    by (simp add: find_append)
  then show ?case using eq IH by (auto simp: bl split option.map_comp comp_def case_prod_beta)
qed simp

lemma page_flag_simps [simp]:
  "PageReserved (SetPageReserved x)" "PageReserved (ClearPageProperty x) = PageReserved x"
  "\<not> PageProperty (ClearPageProperty x)" "PageProperty (SetPageReserved x) = PageProperty x"
  "property (SetPageReserved x) = property x" "property (ClearPageProperty x) = property x"
  "property (SetPageProperty x) = property x" "property (set_page_ref x v) = property x"
  "ref (SetPageReserved x) = ref x" "ref (ClearPageProperty x) = ref x"
  "ref (SetPageProperty x) = ref x" "ref (set_page_ref x v) = v" "PageProperty (SetPageProperty x)"
  by (simp_all add: PageReserved_def PageProperty_def SetPageReserved_def SetPageProperty_def
      ClearPageProperty_def PG_reserved_def PG_property_def set_page_ref_def bit_set_bit_iff bit_unset_bit_iff)

lemma alloc_unlink_spec:
  assumes "dlist (free_links s) None (map Some (ys @ [p ..< p + k] @ zs))"
  shows "\<exists>s'. alloc_unlink k s (first_link ([p ..< p + k] @ zs)) = Ret (s', first_link zs) \<and>
     dlist (free_links s') None (map Some (ys @ zs)) \<and> nr_free s' = nr_free s \<and>
     (\<forall>q. property (pages s' q) = property (pages s q) \<and> ref (pages s' q) = ref (pages s q)) \<and>
     (\<forall>q \<in> {p ..< p + k}. PageReserved (pages s' q) \<and> \<not> PageProperty (pages s' q)) \<and>
     (\<forall>q. q \<notin> {p ..< p + k} \<longrightarrow> pages s' q = pages s q)"
  using assms
proof (induction k arbitrary: s p)
  case (Suc k)
  have split: "[p ..< p + Suc k] = p # [Suc p ..< Suc p + k]" by (simp add: upt_conv_Cons)
  let ?s1 = "upd_page p (\<lambda>x. ClearPageProperty (SetPageReserved x)) s"
  let ?s2 = "?s1\<lparr>free_links := list_del (free_links ?s1) (Some p)\<rparr>"
  have d: "dlist (free_links s) None (map Some (ys @ p # [Suc p ..< Suc p + k] @ zs))"
    using Suc.prems unfolding split by (simp only: append_Cons)
  have nx: "list_next (free_links s) (Some p) = first_link ([Suc p ..< Suc p + k] @ zs)"
    by (rule next_link_ring [OF d])
  have "dlist (free_links ?s2) None (map Some (ys @ [Suc p ..< Suc p + k] @ zs))"
    using list_del_dlist [of "free_links s" None "map Some ys" "Some p"] d by simp
  from Suc.IH [OF this] obtain s' where IH:
    "alloc_unlink k ?s2 (first_link ([Suc p ..< Suc p + k] @ zs)) = Ret (s', first_link zs)"
    "dlist (free_links s') None (map Some (ys @ zs))" "nr_free s' = nr_free s"
    "\<forall>q. property (pages s' q) = property (pages ?s2 q) \<and> ref (pages s' q) = ref (pages ?s2 q)"
    "\<forall>q \<in> {Suc p ..< Suc p + k}. PageReserved (pages s' q) \<and> \<not> PageProperty (pages s' q)"
    "\<forall>q. q \<notin> {Suc p ..< Suc p + k} \<longrightarrow> pages s' q = pages ?s2 q" by auto
  have "alloc_unlink (Suc k) s (first_link ([p ..< p + Suc k] @ zs)) = Ret (s', first_link zs)"
    using IH(1) nx by (simp only: split append_Cons first_link_simps alloc_unlink.simps Let_def)
  moreover have "property (pages s' q) = property (pages s q) \<and> ref (pages s' q) = ref (pages s q)" for q
    using IH(4) by simp
  moreover have "PageReserved (pages s' q) \<and> \<not> PageProperty (pages s' q)" if "q \<in> {p ..< p + Suc k}" for q
    using that IH(5,6) by (cases "q = p") simp_all
  moreover have "pages s' q = pages s q" if "q \<notin> {p ..< p + Suc k}" for q
    using that IH(6) by auto
  ultimately show ?case using IH(2,3) by blast
qed simp

lemma pmm_blocks_scan:
  assumes "pmm_blocks s bs" "0 < n"
  shows "list_scan (free_links s) None
     (\<lambda>le. case le of None \<Rightarrow> False | Some p \<Rightarrow> property (pages s p) \<ge> n) None =
     Some (map_option fst (alloc_blocks (unat n) bs))"
  using list_scan_dlist [of "free_links s" None "map Some (block_pages bs)"] assms
    find_block [of 0 bs "pages s" n]
  by (auto simp: pmm_blocks_def find_map_Some split: option.split)

lemma default_alloc_pages_blocks:
  assumes inv: "pmm_blocks s bs" and n: "0 < n"
  shows "\<exists>s'. default_alloc_pages s n = Ret (s', map_option fst (alloc_blocks (unat n) bs)) \<and>
     pmm_blocks s' (case alloc_blocks (unat n) bs of None \<Rightarrow> bs | Some (_, bs') \<Rightarrow> bs') \<and>
     (\<forall>p bs'. alloc_blocks (unat n) bs = Some (p, bs') \<longrightarrow>
        (\<forall>q \<in> {p ..< p + unat n}. PageReserved (pages s' q)) \<and>
        (\<forall>q \<in> {p <..< p + unat n}. property (pages s' q) = 0)) \<and>
     (\<forall>q. q \<notin> set (block_pages bs) \<longrightarrow> pages s' q = pages s q) \<and>
     (\<forall>q. ref (pages s' q) = ref (pages s q))"
proof -
  have len: "nr_free s = of_nat (length (block_pages bs))" "length (block_pages bs) < 2 ^ 32"
    and d: "dlist (free_links s) None (map Some (block_pages bs))" and bf: "blocks_from 0 bs"
    and marks: "\<forall>bl \<in> set bs. block_marks (pages s) bl"
    using inv by (auto simp: pmm_blocks_def)
  show ?thesis
  proof (cases "alloc_blocks (unat n) bs")
    case None
    then have "default_alloc_pages s n = Ret (s, None)"
      using n pmm_blocks_scan [OF inv n] by (simp add: default_alloc_pages_def)
    then show ?thesis using None inv by auto
  next
    case (Some r)
    obtain p bs' where r: "r = (p, bs')" by (cases r)
    from alloc_blocks_SomeE [OF Some [unfolded r]] obtain us l vs where
      bs: "bs = us @ (p, l) # vs" "unat n \<le> l"
        "bs' = us @ (if unat n < l then [(p + unat n, l - unat n)] else []) @ vs" by blast
    let ?n = "unat n"
    have "p + l = p + ?n + (l - ?n)" using bs(2) by simp
    then have up: "[p ..< p + l] = [p ..< p + ?n] @ [p + ?n ..< p + l]"
      by (metis le_add1 upt_add_eq_append)
    let ?zs = "[p + ?n ..< p + l] @ block_pages vs"
    have d1: "dlist (free_links s) None (map Some (block_pages us @ [p ..< p + ?n] @ ?zs))"
      using d by (simp add: bs(1) up)
    from alloc_unlink_spec [OF d1] obtain s1 where s1:
      "alloc_unlink ?n s (first_link ([p ..< p + ?n] @ ?zs)) = Ret (s1, first_link ?zs)"
      "dlist (free_links s1) None (map Some (block_pages us @ ?zs))" "nr_free s1 = nr_free s"
      "\<forall>q. property (pages s1 q) = property (pages s q) \<and> ref (pages s1 q) = ref (pages s q)"
      "\<forall>q \<in> {p ..< p + ?n}. PageReserved (pages s1 q) \<and> \<not> PageProperty (pages s1 q)"
      "\<forall>q. q \<notin> {p ..< p + ?n} \<longrightarrow> pages s1 q = pages s q" by blast
    have marks_p: "block_marks (pages s) (p, l)" and l: "0 < l" "l < 2 ^ 32"
      using marks bf len(2) by (auto simp: bs(1) blocks_from_append)
    note apart = blocks_apart [OF bf [unfolded bs(1)]]
    have prp: "property (pages s1 p) = of_nat l" using s1(4) marks_p by (simp add: block_marks_def)
    have gt: "property (pages s1 p) > n \<longleftrightarrow> ?n < l"
      using l by (simp add: prp word_less_nat_alt unat_of_nat_u32)
    have diff: "of_nat l - n = of_nat (l - ?n)" using bs(2) by (simp add: of_nat_diff)
    let ?s2 = "if ?n < l then upd_page (p + ?n) (property_update (\<lambda>_. of_nat (l - ?n))) s1 else s1"
    let ?s3 = "upd_page p (\<lambda>x. SetPageReserved (ClearPageProperty x)) ?s2"
    let ?s' = "?s3\<lparr>nr_free := nr_free ?s3 - n\<rparr>"
    have fl: "first_link ([p ..< p + ?n] @ ?zs) = Some p"
      "?n < l \<Longrightarrow> first_link ?zs = Some (p + ?n)"
      using n by (auto simp: first_link_def upt_conv_Cons unat_gt_0 split: list.split)
    have n0: "0 < ?n" using n by (simp add: unat_gt_0)
    have "default_alloc_pages s n = Ret (?s', Some p)"
    proof -
      have "unat (nr_free s) = length (block_pages bs)" unfolding len(1) by (rule unat_of_nat_u32 [OF len(2)])
      then have "n \<le> nr_free s" using bs(1,2) by (simp add: word_le_nat_alt)
      moreover have "alloc_unlink ?n s (Some p) = Ret (s1, first_link ?zs)" using s1(1) fl(1) by simp
      moreover have "property (pages s1 p) - n = of_nat (l - ?n)" using prp diff by simp
      ultimately show ?thesis
        using n pmm_blocks_scan [OF inv n] gt fl(2) Some r
        by (cases "?n < l") (simp_all add: default_alloc_pages_def not_less)
    qed
    moreover have "property (pages ?s' q) = (if ?n < l \<and> q = p + ?n then of_nat (l - ?n) else property (pages s q))" for q
      using s1(4) n0 by auto
    moreover have "PageReserved (pages ?s' q)" if "q \<in> {p ..< p + ?n}" for q
      using that s1(5) by auto
    moreover have "pages ?s' q = pages s q" if "q \<notin> set (block_pages bs)" for q
      using that s1(6) bs(1,2) l by auto
    moreover have "ref (pages ?s' q) = ref (pages s q)" for q using s1(4) by simp
    moreover have "free_links ?s' = free_links s1" "nr_free ?s' = nr_free s - n" using s1(3) by simp_all
    ultimately obtain s' where s': "default_alloc_pages s n = Ret (s', Some p)"
      "\<And>q. property (pages s' q) = (if ?n < l \<and> q = p + ?n then of_nat (l - ?n) else property (pages s q))"
      "\<forall>q \<in> {p ..< p + ?n}. PageReserved (pages s' q)" "\<forall>q. q \<notin> set (block_pages bs) \<longrightarrow> pages s' q = pages s q"
      "\<forall>q. ref (pages s' q) = ref (pages s q)" "free_links s' = free_links s1" "nr_free s' = nr_free s - n"
      by blast
    have "block_marks (pages s') bl" if "bl \<in> set bs'" for bl
    proof (cases "bl = (p + ?n, l - ?n) \<and> ?n < l")
      case True
      then show ?thesis
        using marks_p unfolding block_marks_def s'(2) by (auto simp: add.assoc)
    next
      case False
      have "property (pages s' q) = property (pages s q)" if "q \<in> set (block_pages (us @ vs))" for q
        using apart [of "p + ?n"] that unfolding s'(2) by auto
      moreover have "blocks_from 0 (us @ vs)" using blocks_shrink [OF bf [unfolded bs(1)], of l] by simp
      ultimately show ?thesis
        using blocks_marks_cong [of "us @ vs" "pages s" 0 "pages s'"] marks bs(1,3) that False
        by (auto split: if_splits)
    qed
    moreover have "length (block_pages bs') = length (block_pages bs) - ?n" "?n \<le> length (block_pages bs)"
      using bs by auto
    moreover from this have "nr_free s - n = of_nat (length (block_pages bs'))"
      using len(1) by (simp add: of_nat_diff)
    moreover have "block_pages bs' = block_pages us @ ?zs" using bs by auto
    moreover have "blocks_from 0 bs'" using blocks_shrink [OF bf [unfolded bs(1)] bs(2)] bs(3) by simp
    ultimately have "pmm_blocks s' bs'"
      using s1(2) s'(6,7) len(2) by (simp add: pmm_blocks_def)
    moreover have "property (pages s' q) = 0" if "q \<in> {p <..< p + ?n}" for q
    proof -
      from that obtain i where "q = p + i" "0 < i" using less_imp_add_positive [of p q] by auto
      then show ?thesis using that marks_p bs(2) unfolding s'(2) by (auto simp: block_marks_def)
    qed
    ultimately show ?thesis
      unfolding Some r using s'(1,3,4,5) by auto
  qed
qed

subsection \<open>Freeing\<close>

definition marked :: "(nat \<Rightarrow> page) \<Rightarrow> blocks \<Rightarrow> bool" where
  "marked pg bs \<longleftrightarrow> blocks_from 0 bs \<and> (\<forall>bl \<in> set bs. block_marks pg bl)"

lemma merge_pages_property:
  "b \<noteq> c \<Longrightarrow> property (merge_pages pg b c q) =
     (if q = b then property (pg b) + property (pg c) else if q = c then 0 else property (pg q))"
  by (simp add: merge_pages_def Let_def)

lemma blocks_from_merge:
  "blocks_from lo (us @ (b, l) # (b + l, m) # vs) \<Longrightarrow> blocks_from lo (us @ (b, l + m) # vs)"
proof (induction us arbitrary: lo)
  case (Cons bl us)
  then show ?case by (cases bl) auto
qed (simp add: add.assoc)

lemma marked_merge:
  assumes "marked pg (us @ (b, l) # (b + l, m) # vs)"
  shows "marked (merge_pages pg b (b + l)) (us @ (b, l + m) # vs)"
proof -
  let ?pg = "merge_pages pg b (b + l)"
  from assms have bf: "blocks_from 0 (us @ (b, l) # (b + l, m) # vs)"
    and m: "block_marks pg (b, l)" "block_marks pg (b + l, m)"
    and r: "\<forall>bl \<in> set (us @ vs). block_marks pg bl" by (auto simp: marked_def)
  have l: "0 < l" "0 < m"
    by (rule blocks_from_pos [OF bf, of b], simp, rule blocks_from_pos [OF bf, of "b + l"], simp)
  note bf' = blocks_from_merge [OF bf]
  have apart: "q \<notin> set (block_pages (us @ vs))" if "q \<in> {b, b + l}" for q
    using that blocks_apart [OF bf', of q] l by auto
  have "block_marks ?pg (b, l + m)"
  proof -
    have "property (?pg (b + i)) = 0" if "0 < i" "i < l + m" for i
    proof (cases "i \<le> l")
      case True
      then show ?thesis using that m(1) l by (auto simp: block_marks_def merge_pages_property)
    next
      case False
      then obtain j where "i = l + j" "0 < j" using less_imp_add_positive [of l i] by auto
      then show ?thesis using that m(2) l by (simp add: merge_pages_property block_marks_def add.assoc)
    qed
    then show ?thesis using m l by (simp add: block_marks_def merge_pages_property)
  qed
  moreover have "blocks_from 0 (us @ vs)" using blocks_shrink [OF bf', of "l + m"] by simp
  then have "\<forall>bl \<in> set (us @ vs). block_marks ?pg bl"
  proof (rule blocks_marks_cong [OF r])
    fix q assume "q \<in> set (block_pages (us @ vs))"
    then have "q \<noteq> b" "q \<noteq> b + l" using apart by blast+
    then show "property (?pg q) = property (pg q)" using l by (simp add: merge_pages_property)
  qed
  ultimately show ?thesis using bf' by (auto simp: marked_def)
qed

lemma link_pages_ring:
  assumes "dlist h None (map Some (us @ vs))" "{p ..< p + k} \<inter> set (us @ vs) = {}"
  shows "dlist (link_pages k h (first_link vs) p) None (map Some (us @ [p ..< p + k] @ vs))"
  using assms
proof (induction k arbitrary: h us p)
  case (Suc k)
  have split: "[p ..< p + Suc k] = p # [Suc p ..< Suc p + k]" by (simp add: upt_conv_Cons)
  have "dlist (list_add_before h (first_link vs) (Some p)) None (map Some ((us @ [p]) @ vs))"
    using ring_insert_before [OF Suc.prems(1), of p] Suc.prems(2) by (auto simp: disjoint_iff)
  moreover have "{Suc p ..< Suc p + k} \<inter> set ((us @ [p]) @ vs) = {}"
    using Suc.prems(2) by (auto simp: disjoint_iff)
  ultimately have "dlist (link_pages k (list_add_before h (first_link vs) (Some p)) (first_link vs) (Suc p)) None
      (map Some ((us @ [p]) @ [Suc p ..< Suc p + k] @ vs))" by (rule Suc.IH)
  then show ?case by (simp only: split link_pages.simps append_Cons append_Nil append_assoc)
qed simp

lemma prev_link_ring:
  "dlist h None (map Some (us @ t # vs)) \<Longrightarrow> list_prev h (Some t) = (if us = [] then None else Some (last us))"
  using dlist_prev [of h None "map Some us" "Some t" "map Some vs"] by (simp add: last_map)

lemma merge_back_spec:
  assumes "dlist h None (map Some (xs @ [b ..< b + Suc k] @ ys))" "property (pg b) \<noteq> 0"
    "\<forall>i. 0 < i \<longrightarrow> i \<le> k \<longrightarrow> property (pg (b + i)) = 0"
  shows "merge_back h base pg (Some (b + k)) = Some (merge_pages pg b base)"
  using assms
proof (induction k arbitrary: ys)
  case 0
  then show ?case by (simp add: merge_back.simps)
next
  case (Suc k)
  have d: "dlist h None (map Some ((xs @ [b ..< b + Suc k]) @ (b + Suc k) # ys))"
    using Suc.prems(1) by simp
  have "list_prev h (Some (b + Suc k)) = Some (b + k)"
    using prev_link_ring [OF d] by simp
  moreover have "merge_back h base pg (Some (b + k)) = Some (merge_pages pg b base)"
    using Suc.IH [of "(b + Suc k) # ys"] Suc.prems d by auto
  moreover have "property (pg (b + Suc k)) = 0" using Suc.prems(3) by blast
  ultimately show ?case by (subst merge_back.simps) (simp del: add_Suc_right)
qed

definition free_blocks :: "nat \<Rightarrow> nat \<Rightarrow> blocks \<Rightarrow> blocks" where
  "free_blocks base n bs =
     (let us = takeWhile (\<lambda>bl. fst bl < base) bs;
          vs = dropWhile (\<lambda>bl. fst bl < base) bs;
          (m, ws) = (case vs of
                       [] \<Rightarrow> (n, [])
                     | (b, l) # r \<Rightarrow> if base + n = b then (n + l, r) else (n, vs))
      in if us \<noteq> [] \<and> fst (last us) + snd (last us) = base
         then butlast us @ (fst (last us), snd (last us) + m) # ws
         else us @ (base, m) # ws)"

text \<open>Where the freed block goes.\<close>

lemma blocks_split_at:
  assumes bf: "blocks_from lo bs" and dis: "{base ..< base + n} \<inter> set (block_pages bs) = {}" and n: "0 < n"
  shows "\<forall>p \<in> set (block_pages (takeWhile (\<lambda>bl. fst bl < base) bs)). p < base"
    and "\<forall>p \<in> set (block_pages (dropWhile (\<lambda>bl. fst bl < base) bs)). base + n \<le> p"
proof -
  let ?us = "takeWhile (\<lambda>bl. fst bl < base) bs" and ?vs = "dropWhile (\<lambda>bl. fst bl < base) bs"
  show "\<forall>p \<in> set (block_pages ?us). p < base"
  proof
    fix p assume "p \<in> set (block_pages ?us)"
    then obtain b l where bl: "(b, l) \<in> set ?us" "p \<in> {b ..< b + l}" by (auto simp: block_pages_def)
    then have "(b, l) \<in> set bs" "b < base" using set_takeWhileD by fastforce+
    then have "base \<notin> {b ..< b + l}" using dis n block_in_pages [of b l bs base] by (auto simp: disjoint_iff)
    then show "p < base" using bl(2) \<open>b < base\<close> by auto
  qed
  show "\<forall>p \<in> set (block_pages ?vs). base + n \<le> p"
  proof (cases ?vs)
    case (Cons c r)
    obtain b l where c: "c = (b, l)" by (cases c)
    have vs: "blocks_from lo ?vs" using bf by (metis blocks_from_append takeWhile_dropWhile_id)
    have bb: "base \<le> b" using hd_dropWhile [of "\<lambda>bl. fst bl < base" bs] Cons c by (metis fst_conv list.distinct(1) list.sel(1) not_less)
    have "0 < l" using vs Cons c by simp
    moreover have "c \<in> set ?vs" using Cons by simp
    then have "(b, l) \<in> set bs" using set_dropWhileD c by fastforce
    ultimately have "b \<in> set (block_pages bs)" using block_in_pages [of b l bs b] by simp
    then have "base + n \<le> b" using dis bb by (auto simp: disjoint_iff)
    then show ?thesis using vs Cons c blocks_from_ge [of b ?vs] by fastforce
  next
    case Nil
    show ?thesis unfolding Nil by simp
  qed
qed

lemma blocks_from_insert:
  assumes "blocks_from lo (us @ vs)" "\<forall>p \<in> set (block_pages us). p < base"
    "\<forall>p \<in> set (block_pages vs). base + n \<le> p" "0 < n" "lo \<le> base"
  shows "blocks_from lo (us @ (base, n) # vs)"
proof -
  have "blocks_from lo us" "blocks_from lo vs" using assms(1) by (auto simp: blocks_from_append)
  moreover have "blocks_from (base + n) vs"
    by (rule blocks_from_hi [of lo vs]) (use assms(3) calculation in auto)
  ultimately show ?thesis using assms unfolding blocks_from_append by (fastforce simp: blocks_from_append)
qed

text \<open>What the two merging steps do to the marks of the blocks.\<close>

lemma merge_next_marked:
  assumes m: "marked pg (us @ (base, n) # vs)"
  shows "marked (merge_next pg base n (first_link (block_pages vs)))
     (us @ (case vs of [] \<Rightarrow> [(base, n)]
            | (b, l) # r \<Rightarrow> if base + n = b then (base, n + l) # r else (base, n) # vs))"
proof (cases vs)
  case (Cons c r)
  obtain b l where c: "c = (b, l)" by (cases c)
  have "0 < l" using m Cons c by (auto simp: marked_def blocks_from_append)
  then have "first_link (block_pages vs) = Some b" by (simp add: Cons c upt_conv_Cons)
  then show ?thesis
    using m marked_merge [of pg us base n l r] by (auto simp: merge_next_def Cons c)
qed (use m in \<open>simp add: merge_next_def\<close>)

lemma merge_prev_marked:
  assumes m: "marked pg (us @ (base, k) # ws)" and k: "k < 2 ^ 32" "\<forall>(b, l) \<in> set us. l < 2 ^ 32"
    and d: "dlist h None (map Some (block_pages us @ base # zs))"
  shows "\<exists>pg'. merge_prev h base pg = Ret pg' \<and>
     marked pg' (if us \<noteq> [] \<and> fst (last us) + snd (last us) = base
                 then butlast us @ (fst (last us), snd (last us) + k) # ws else us @ (base, k) # ws) \<and>
     (\<forall>q. q \<notin> set (base # block_pages us) \<longrightarrow> pg' q = pg q)"
proof (cases us rule: rev_cases)
  case Nil
  then show ?thesis using m prev_link_ring [OF d] by (simp add: merge_prev_def)
next
  case (snoc us0 c)
  obtain b l where c: "c = (b, l)" by (cases c)
  from m snoc c have l: "0 < l" and mb: "block_marks pg (b, l)" by (auto simp: marked_def blocks_from_append)
  have "last (block_pages us) = b + l - 1" "block_pages us \<noteq> []"
    using l by (simp_all add: snoc c)
  then have pl: "list_prev h (Some base) = Some (b + l - 1)" using prev_link_ring [OF d] by simp
  show ?thesis
  proof (cases "b + l = base")
    case False
    then show ?thesis using m pl l by (auto simp: merge_prev_def snoc c)
  next
    case True
    obtain j where j: "l = Suc j" using l by (cases l) auto
    have "dlist h None (map Some (block_pages us0 @ [b ..< b + Suc j] @ base # zs))"
      using d by (simp add: snoc c j)
    moreover have "property (pg b) \<noteq> 0"
      using mb l k(2) by (auto simp: block_marks_def snoc c dest: of_nat_u32_0)
    moreover have "\<forall>i. 0 < i \<longrightarrow> i \<le> j \<longrightarrow> property (pg (b + i)) = 0" using mb j by (simp add: block_marks_def)
    ultimately have "merge_back h base pg (Some (b + j)) = Some (merge_pages pg b base)" by (rule merge_back_spec)
    moreover have "marked (merge_pages pg b base) (us0 @ (b, l + k) # ws)"
      using marked_merge [of pg us0 b l k ws] m True by (simp add: snoc c)
    ultimately show ?thesis
      using pl True j l by (auto simp: merge_prev_def snoc c merge_pages_def Let_def)
  qed
qed

lemma free_blocks_cut:
  fixes base n :: nat and vs :: blocks
  assumes "0 < n"
  obtains m ws where
    "(case vs of [] \<Rightarrow> [(base, n)] | (b, l) # r \<Rightarrow> if base + n = b then (base, n + l) # r else (base, n) # vs) =
       (base, m) # ws"
    "(case vs of [] \<Rightarrow> (n, []) | (b, l) # r \<Rightarrow> if base + n = b then (n + l, r) else (n, vs)) = (m, ws)"
    "[base ..< base + n] @ block_pages vs = [base ..< base + m] @ block_pages ws" "n \<le> m"
proof (cases vs)
  case (Cons c r)
  obtain b l where c: "c = (b, l)" by (cases c)
  have "[base ..< base + (n + l)] = [base ..< base + n] @ [base + n ..< base + n + l]"
    by (metis add.assoc le_add1 upt_add_eq_append)
  then show ?thesis using that [of "n + l" r] that [of n vs] by (cases "base + n = b") (auto simp: Cons c)
qed (use that [of n "[]"] in simp)

lemma marked_insert:
  assumes "blocks_from 0 (us @ vs)" "\<forall>bl \<in> set (us @ vs). block_marks pg bl"
    "\<forall>p \<in> set (block_pages us). p < base" "\<forall>p \<in> set (block_pages vs). base + n \<le> p" "0 < n"
    "\<forall>q \<in> {base <..< base + n}. property (pg q) = 0" "property x = of_nat n"
  shows "marked (pg(base := x)) (us @ (base, n) # vs)"
proof -
  have "blocks_from 0 (us @ (base, n) # vs)" using assms by (intro blocks_from_insert) auto
  moreover have "\<forall>bl \<in> set (us @ vs). block_marks (pg(base := x)) bl"
    by (rule blocks_marks_cong [OF assms(2,1)]) (use assms(3,4,5) in fastforce)
  moreover have "block_marks (pg(base := x)) (base, n)"
    using assms(6,7) by (simp add: block_marks_def)
  ultimately show ?thesis by (auto simp: marked_def)
qed

lemma default_free_pages_blocks:
  assumes inv: "pmm_blocks s bs" and n: "0 < n" and res: "PageReserved (pages s base)"
    and dis: "{base ..< base + unat n} \<inter> set (block_pages bs) = {}"
    and int: "\<forall>q \<in> {base <..< base + unat n}. property (pages s q) = 0"
    and tot: "length (block_pages bs) + unat n < 2 ^ 32"
  shows "\<exists>s'. default_free_pages s base n = Ret s' \<and> pmm_blocks s' (free_blocks base (unat n) bs) \<and>
     set (block_pages (free_blocks base (unat n) bs)) = set (block_pages bs) \<union> {base ..< base + unat n} \<and>
     (\<forall>q. q \<notin> insert base (set (block_pages bs)) \<longrightarrow> pages s' q = pages s q)"
proof -
  let ?n = "unat n"
  have d: "dlist (free_links s) None (map Some (block_pages bs))" and bf: "blocks_from 0 bs"
    and marks: "\<forall>bl \<in> set bs. block_marks (pages s) bl" and nr: "nr_free s = of_nat (length (block_pages bs))"
    using inv by (auto simp: pmm_blocks_def)
  define us vs where "us = takeWhile (\<lambda>bl. fst bl < base) bs" and "vs = dropWhile (\<lambda>bl. fst bl < base) bs"
  have bs: "bs = us @ vs" by (simp add: us_def vs_def)
  have n0: "0 < ?n" using n by (simp add: unat_gt_0)
  have lo: "\<forall>p \<in> set (block_pages us). p < base" and hi: "\<forall>p \<in> set (block_pages vs). base + ?n \<le> p"
    using blocks_split_at [OF bf dis n0] unfolding us_def vs_def by blast+
  have scan: "list_scan (free_links s) None (\<lambda>le. case le of None \<Rightarrow> False | Some p \<Rightarrow> p > base) None =
      Some (first_link (block_pages vs))"
  proof -
    have "find (\<lambda>p. p > base) (block_pages us) = None" using lo by (auto simp: find_None_iff)
    moreover have "find (\<lambda>p. p > base) (block_pages vs) = first_link (block_pages vs)"
      using hi n0 by (cases "block_pages vs") auto
    ultimately show ?thesis
      using list_scan_dlist [OF d] by (simp add: bs find_append find_map_Some split: option.split)
  qed
  let ?h1 = "link_pages ?n (free_links s) (first_link (block_pages vs)) base"
  have h1: "dlist ?h1 None (map Some (block_pages us @ [base ..< base + ?n] @ block_pages vs))"
    using link_pages_ring [of "free_links s" "block_pages us" "block_pages vs" base ?n] d dis bs by simp
  let ?x = "(SetPageProperty (ClearPageProperty (set_page_ref ((pages s base)\<lparr>page_flags := 0\<rparr>) 0)))\<lparr>property := n\<rparr>"
  let ?pg1 = "(pages s)(base := ?x)"
  obtain m ws where mw:
    "(case vs of [] \<Rightarrow> [(base, ?n)] | (b, l) # r \<Rightarrow> if base + ?n = b then (base, ?n + l) # r else (base, ?n) # vs) =
       (base, m) # ws"
    "(case vs of [] \<Rightarrow> (?n, []) | (b, l) # r \<Rightarrow> if base + ?n = b then (?n + l, r) else (?n, vs)) = (m, ws)"
    "[base ..< base + ?n] @ block_pages vs = [base ..< base + m] @ block_pages ws" "?n \<le> m"
    using free_blocks_cut [OF n0] by blast
  have "marked ?pg1 (us @ (base, ?n) # vs)"
    by (rule marked_insert) (use bf marks bs lo hi n0 int in auto)
  from merge_next_marked [OF this]
  have m2: "marked (merge_next ?pg1 base ?n (first_link (block_pages vs))) (us @ (base, m) # ws)"
    unfolding mw(1) .
  have len: "length (block_pages us) + m + length (block_pages ws) = length (block_pages bs) + ?n"
    using arg_cong [OF mw(3), of length] by (simp add: bs)
  have "l \<le> length (block_pages us)" if "(b, l) \<in> set us" for b l
    using that by (induction us) auto
  then have "\<forall>(b, l) \<in> set us. l < 2 ^ 32" using len tot by fastforce
  moreover have "dlist ?h1 None (map Some (block_pages us @ base # [Suc base ..< base + m] @ block_pages ws))"
    using h1 unfolding mw(3) using n0 mw(4) by (simp add: upt_conv_Cons)
  moreover have "m < 2 ^ 32" using len tot by simp
  ultimately obtain pg3 where pg3: "merge_prev ?h1 base (merge_next ?pg1 base ?n (first_link (block_pages vs))) = Ret pg3"
    "marked pg3 (free_blocks base ?n bs)"
    "\<forall>q. q \<notin> set (base # block_pages us) \<longrightarrow> pg3 q = merge_next ?pg1 base ?n (first_link (block_pages vs)) q"
    using merge_prev_marked [OF m2] unfolding free_blocks_def us_def [symmetric] vs_def [symmetric] Let_def mw(2)
      prod.case by blast
  have fp: "block_pages (free_blocks base ?n bs) = block_pages us @ [base ..< base + m] @ block_pages ws"
  proof (cases us rule: rev_cases)
    case Nil
    then show ?thesis unfolding free_blocks_def us_def [symmetric] vs_def [symmetric] Let_def mw(2) by simp
  next
    case (snoc us0 c)
    have "[b ..< b + (l + m)] = [b ..< b + l] @ [b + l ..< b + l + m]" for b l
      by (metis add.assoc le_add1 upt_add_eq_append)
    then show ?thesis
      using snoc unfolding free_blocks_def us_def [symmetric] vs_def [symmetric] Let_def mw(2) by (cases c) auto
  qed
  let ?s' = "s\<lparr>pages := pg3, free_links := ?h1, nr_free := nr_free s + n\<rparr>"
  have "default_free_pages s base n = Ret ?s'"
    using n res scan pg3(1) by (simp add: default_free_pages_def)
  moreover have "pmm_blocks ?s' (free_blocks base ?n bs)"
  proof -
    have "length (block_pages (free_blocks base ?n bs)) = length (block_pages bs) + ?n"
      using len unfolding fp by simp
    moreover have "nr_free s + n = of_nat (length (block_pages bs) + ?n)" by (simp add: nr)
    moreover have "dlist ?h1 None (map Some (block_pages (free_blocks base ?n bs)))"
      using h1 unfolding fp mw(3) .
    ultimately show ?thesis
      using pg3(2) tot by (simp add: pmm_blocks_def marked_def)
  qed
  moreover have "pg3 q = pages s q" if "q \<notin> insert base (set (block_pages bs))" for q
  proof -
    have "q \<notin> set (block_pages vs)" using that bs by simp
    then have "merge_next ?pg1 base ?n (first_link (block_pages vs)) q = pages s q"
      using that by (cases "block_pages vs") (auto simp: merge_next_def merge_pages_def Let_def)
    then show ?thesis using pg3(3) that bs by simp
  qed
  moreover have "set (block_pages (free_blocks base ?n bs)) = set (block_pages bs) \<union> {base ..< base + ?n}"
    unfolding fp mw(3) [symmetric] by (auto simp: bs)
  ultimately show ?thesis by (intro exI [of _ ?s']) simp
qed

subsection \<open>Coalescing\<close>

text \<open>No two free blocks touch.\<close>

fun gaps :: "nat \<Rightarrow> blocks \<Rightarrow> bool" where
  "gaps lo [] \<longleftrightarrow> True"
| "gaps lo ((b, l) # bs) \<longleftrightarrow> lo \<le> b \<and> 0 < l \<and> gaps (b + l + 1) bs"

definition gap_end :: "nat \<Rightarrow> blocks \<Rightarrow> nat" where
  "gap_end lo us = (if us = [] then lo else fst (last us) + snd (last us) + 1)"

lemma gaps_append: "gaps lo (us @ vs) \<longleftrightarrow> gaps lo us \<and> gaps (gap_end lo us) vs"
proof (induction us arbitrary: lo)
  case (Cons c us)
  then show ?case by (cases c) (auto simp: gap_end_def)
qed (simp add: gap_end_def)

lemma gaps_mono: "gaps hi bs \<Longrightarrow> lo \<le> hi \<Longrightarrow> gaps lo bs"
  by (cases bs) auto

lemma gaps_blocks_from: "gaps lo bs \<Longrightarrow> blocks_from lo bs"
proof (induction bs arbitrary: lo)
  case (Cons c bs)
  then show ?case by (cases c) (auto intro: blocks_from_mono [OF _ le_SucI [OF le_refl]])
qed simp

lemma gaps_alloc:
  assumes "gaps lo bs" "alloc_blocks n bs = Some (p, bs')" "0 < n"
  shows "gaps lo bs'"
proof -
  from alloc_blocks_SomeE [OF assms(2)] obtain us l vs where
    "bs = us @ (p, l) # vs" "n \<le> l" "bs' = us @ (if n < l then [(p + n, l - n)] else []) @ vs" by blast
  then show ?thesis
    using assms(1) gaps_mono [of "Suc (p + l)" vs "gap_end lo us"]
    by (auto simp: gaps_append gap_end_def [of _ "[_]"] gap_end_def [of _ "[]"])
qed

lemma gaps_free:
  assumes g: "gaps 0 bs" and dis: "{base ..< base + n} \<inter> set (block_pages bs) = {}" and n: "0 < n"
  shows "gaps 0 (free_blocks base n bs)"
proof -
  define us vs where "us = takeWhile (\<lambda>bl. fst bl < base) bs" and "vs = dropWhile (\<lambda>bl. fst bl < base) bs"
  have bs: "bs = us @ vs" by (simp add: us_def vs_def)
  note split = blocks_split_at [OF gaps_blocks_from [OF g] dis n, folded us_def vs_def]
  from g have gu: "gaps 0 us" and gv: "gaps (gap_end 0 us) vs" by (simp_all add: bs gaps_append)
  obtain m ws where mw:
    "(case vs of [] \<Rightarrow> (n, []) | (b, l) # r \<Rightarrow> if base + n = b then (n + l, r) else (n, vs)) = (m, ws)"
    "n \<le> m" using free_blocks_cut [OF n] by metis
  have gw: "gaps (base + m + 1) ws"
  proof (cases vs)
    case (Cons c r)
    obtain b l where c: "c = (b, l)" by (cases c)
    have "base + n \<le> b" using split(2) gv by (simp add: Cons c)
    then show ?thesis using gv mw(1) by (auto simp: Cons c add.assoc split: if_splits)
  qed (use mw in simp)
  have fb: "free_blocks base n bs =
      (if us \<noteq> [] \<and> fst (last us) + snd (last us) = base
       then butlast us @ (fst (last us), snd (last us) + m) # ws else us @ (base, m) # ws)"
    unfolding free_blocks_def us_def [symmetric] vs_def [symmetric] Let_def mw(1) by simp
  show ?thesis
  proof (cases us rule: rev_cases)
    case Nil
    then show ?thesis using gw mw n by (simp add: fb)
  next
    case (snoc us0 c)
    obtain b l where c: "c = (b, l)" by (cases c)
    have "0 < l" using gu by (simp add: snoc c gaps_append)
    moreover from this have "b + l - 1 \<in> set (block_pages us)" by (auto simp: snoc c)
    then have "b + l - 1 < base" using split(1) by blast
    ultimately have "b + l \<le> base" by simp
    then show ?thesis
      using gw gu mw(2) n by (auto simp: fb snoc c gaps_append gap_end_def add.assoc)
  qed
qed

text \<open>With coalesced blocks first fit finds a run of free pages whenever there is one.\<close>

lemma run_in_block:
  assumes "gaps lo bs" "{p ..< p + n} \<subseteq> set (block_pages bs)" "0 < n"
  shows "\<exists>(b, l) \<in> set bs. n \<le> l"
  using assms
proof (induction bs arbitrary: lo)
  case (Cons c bs)
  obtain b l where c: "c = (b, l)" by (cases c)
  have ge: "q \<in> set (block_pages bs) \<Longrightarrow> b + l + 1 \<le> q" for q
    using Cons.prems(1) blocks_from_ge [OF gaps_blocks_from, of "b + l + 1" bs] by (simp add: c)
  show ?case
  proof (cases "p < b + l")
    case True
    then have "p \<ge> b" using Cons.prems(2,3) ge [of p] by (auto simp: c subset_iff)
    have "p + n \<le> b + l"
    proof (rule ccontr)
      assume "\<not> p + n \<le> b + l"
      then have "b + l \<in> {p ..< p + n}" using True by auto
      then show False using Cons.prems(2) ge [of "b + l"] by (auto simp: c)
    qed
    then show ?thesis using \<open>p \<ge> b\<close> by (auto simp: c)
  next
    case False
    then have "{p ..< p + n} \<subseteq> set (block_pages bs)" using Cons.prems(2) by (auto simp: c)
    then show ?thesis using Cons.IH [of "b + l + 1"] Cons.prems by (auto simp: c)
  qed
qed simp

lemma alloc_blocks_complete: "(b, l) \<in> set bs \<Longrightarrow> n \<le> l \<Longrightarrow> alloc_blocks n bs \<noteq> None"
  by (induction n bs rule: alloc_blocks.induct) auto

subsection \<open>Handing memory to the allocator\<close>

lemma default_init_blocks: "pmm_blocks (default_init s) []"
  by (simp add: default_init_def pmm_blocks_def dlist_init)

lemma init_memmap_loop_spec:
  assumes "dlist (free_links s) None (map Some us)" "{p ..< p + k} \<inter> set us = {}"
    "\<forall>q \<in> {p ..< p + k}. PageReserved (pages s q)"
  shows "\<exists>s'. init_memmap_loop k s p = Ret s' \<and> nr_free s' = nr_free s \<and>
     dlist (free_links s') None (map Some (us @ [p ..< p + k])) \<and>
     (\<forall>q \<in> {p ..< p + k}. property (pages s' q) = 0 \<and> PageProperty (pages s' q) \<and> ref (pages s' q) = 0) \<and>
     (\<forall>q. q \<notin> {p ..< p + k} \<longrightarrow> pages s' q = pages s q)"
  using assms
proof (induction k arbitrary: s p us)
  case (Suc k)
  have split: "[p ..< p + Suc k] = p # [Suc p ..< Suc p + k]" by (simp add: upt_conv_Cons)
  let ?s1 = "upd_page p (\<lambda>x. set_page_ref ((SetPageProperty (x\<lparr>page_flags := 0\<rparr>))\<lparr>property := 0\<rparr>) 0) s"
  let ?s2 = "?s1\<lparr>free_links := list_add_before (free_links ?s1) None (Some p)\<rparr>"
  have "p \<notin> set us" using Suc.prems(2) by (auto simp: disjoint_iff)
  then have "dlist (free_links ?s2) None (map Some (us @ [p]))"
    using list_add_before_head [OF Suc.prems(1), of "Some p"] by auto
  moreover have "{Suc p ..< Suc p + k} \<inter> set (us @ [p]) = {}" using Suc.prems(2) by (auto simp: disjoint_iff)
  moreover have "\<forall>q \<in> {Suc p ..< Suc p + k}. PageReserved (pages ?s2 q)" using Suc.prems(3) by auto
  ultimately obtain s' where IH: "init_memmap_loop k ?s2 (Suc p) = Ret s'" "nr_free s' = nr_free ?s2"
    "dlist (free_links s') None (map Some ((us @ [p]) @ [Suc p ..< Suc p + k]))"
    "\<forall>q \<in> {Suc p ..< Suc p + k}. property (pages s' q) = 0 \<and> PageProperty (pages s' q) \<and> ref (pages s' q) = 0"
    "\<forall>q. q \<notin> {Suc p ..< Suc p + k} \<longrightarrow> pages s' q = pages ?s2 q"
    using Suc.IH [of ?s2 "us @ [p]" "Suc p"] by blast
  have "PageReserved (pages s p)" using Suc.prems(3) by simp
  then have "init_memmap_loop (Suc k) s p = Ret s'" using IH(1) by simp
  moreover have "dlist (free_links s') None (map Some (us @ [p ..< p + Suc k]))"
    using IH(3) unfolding split by simp
  moreover have "property (pages s' q) = 0 \<and> PageProperty (pages s' q) \<and> ref (pages s' q) = 0"
    if "q \<in> {p ..< p + Suc k}" for q
  proof (cases "q = p")
    case True
    then show ?thesis
      using IH(5) by (simp add: set_page_ref_def PageProperty_def SetPageProperty_def bit_set_bit_iff PG_property_def)
  next
    case False
    then show ?thesis using that IH(4) by simp
  qed
  moreover have "pages s' q = pages s q" if "q \<notin> {p ..< p + Suc k}" for q
    using that IH(5) by auto
  ultimately show ?case using IH(2) by (intro exI [of _ s']) auto
qed simp

lemma default_init_memmap_blocks:
  assumes inv: "pmm_blocks s bs" and n: "0 < n" and hi: "\<forall>q \<in> set (block_pages bs). q < base"
    and res: "\<forall>q \<in> {base ..< base + unat n}. PageReserved (pages s q)"
    and tot: "length (block_pages bs) + unat n < 2 ^ 32"
  shows "\<exists>s'. default_init_memmap s base n = Ret s' \<and> pmm_blocks s' (bs @ [(base, unat n)]) \<and>
     (\<forall>q \<in> {base ..< base + unat n}. PageProperty (pages s' q) \<and> ref (pages s' q) = 0)"
proof -
  let ?n = "unat n"
  have n0: "0 < ?n" using n by (simp add: unat_gt_0)
  have d: "dlist (free_links s) None (map Some (block_pages bs))" and bf: "blocks_from 0 bs"
    and marks: "\<forall>bl \<in> set bs. block_marks (pages s) bl" and nr: "nr_free s = of_nat (length (block_pages bs))"
    using inv by (auto simp: pmm_blocks_def)
  have dis: "{base ..< base + ?n} \<inter> set (block_pages bs) = {}" using hi by fastforce
  obtain s1 where s1: "init_memmap_loop ?n s base = Ret s1" "nr_free s1 = nr_free s"
    "dlist (free_links s1) None (map Some (block_pages bs @ [base ..< base + ?n]))"
    "\<forall>q \<in> {base ..< base + ?n}. property (pages s1 q) = 0 \<and> PageProperty (pages s1 q) \<and> ref (pages s1 q) = 0"
    "\<forall>q. q \<notin> {base ..< base + ?n} \<longrightarrow> pages s1 q = pages s q"
    using init_memmap_loop_spec [OF d dis res] by blast
  let ?s' = "upd_page base (property_update (\<lambda>_. n)) (s1\<lparr>nr_free := nr_free s1 + n\<rparr>)"
  have "marked ((pages s1)(base := (pages s1 base)\<lparr>property := n\<rparr>)) (bs @ (base, ?n) # [])"
  proof (rule marked_insert)
    have "property (pages s1 q) = property (pages s q)" if "q \<in> set (block_pages bs)" for q
      using that s1(5) dis by (metis disjoint_iff)
    from blocks_marks_cong [OF marks bf this] show "\<forall>bl \<in> set (bs @ []). block_marks (pages s1) bl" by simp
  qed (use bf hi n0 s1(4) in auto)
  then have "pmm_blocks ?s' (bs @ [(base, ?n)])"
    using s1(2,3) nr tot by (simp add: pmm_blocks_def marked_def)
  moreover have "default_init_memmap s base n = Ret ?s'" using n s1(1) by (simp add: default_init_memmap_def)
  ultimately show ?thesis using s1(4) by (intro exI [of _ ?s']) (auto simp: PageProperty_def)
qed

subsection \<open>struct pmm_manager and its contract\<close>

record 's pmm_manager =
  pm_init :: "'s \<Rightarrow> 's"
  pm_init_memmap :: "'s \<Rightarrow> nat \<Rightarrow> u32 \<Rightarrow> 's outcome"
  pm_alloc_pages :: "'s \<Rightarrow> u32 \<Rightarrow> ('s \<times> nat option) outcome"
  pm_free_pages :: "'s \<Rightarrow> nat \<Rightarrow> u32 \<Rightarrow> 's outcome"
  pm_nr_free_pages :: "'s \<Rightarrow> u32"

definition default_pmm_manager :: "pmm_state pmm_manager" where
  "default_pmm_manager =
     \<lparr>pm_init = default_init, pm_init_memmap = default_init_memmap, pm_alloc_pages = default_alloc_pages,
      pm_free_pages = default_free_pages, pm_nr_free_pages = default_nr_free_pages\<rparr>"

text \<open>
  The contract in terms of the set \<open>F\<close> of free pages. \<open>owned s p n\<close> is what a client holds after
  an allocation and must present when it frees the pages.
\<close>

locale page_allocator =
  fixes pm :: "'s pmm_manager"
    and free_set :: "'s \<Rightarrow> nat set \<Rightarrow> bool"
    and owned :: "'s \<Rightarrow> nat \<Rightarrow> u32 \<Rightarrow> bool"
  assumes alloc_contract: "free_set s F \<Longrightarrow> 0 < n \<Longrightarrow>
      \<exists>s' r. pm_alloc_pages pm s n = Ret (s', r) \<and>
        (case r of
           None \<Rightarrow> s' = s \<and> \<not> (\<exists>p. {p ..< p + unat n} \<subseteq> F)
         | Some p \<Rightarrow> {p ..< p + unat n} \<subseteq> F \<and> free_set s' (F - {p ..< p + unat n}) \<and> owned s' p n \<and>
             (\<forall>q m. owned s q m \<longrightarrow> {q ..< q + unat m} \<inter> F = {} \<longrightarrow> owned s' q m))"
    and free_contract: "free_set s F \<Longrightarrow> owned s p n \<Longrightarrow> {p ..< p + unat n} \<inter> F = {} \<Longrightarrow>
      \<exists>s'. pm_free_pages pm s p n = Ret s' \<and> free_set s' (F \<union> {p ..< p + unat n}) \<and>
        (\<forall>q m. owned s q m \<longrightarrow> {q ..< q + unat m} \<inter> (F \<union> {p ..< p + unat n}) = {} \<longrightarrow> owned s' q m)"
    and nr_free_contract: "free_set s F \<Longrightarrow> pm_nr_free_pages pm s = of_nat (card F)"
    and owned_pos: "owned s p n \<Longrightarrow> 0 < n"
    and free_finite: "free_set s F \<Longrightarrow> finite F"

subsection \<open>The default manager keeps the contract\<close>

text \<open>\<open>KMEMSIZE / PGSIZE\<close> of memlayout.h bounds the page numbers that \<open>page_init\<close> hands out.\<close>

definition KMEM_PAGES :: nat where "KMEM_PAGES = 229376"

definition pmm_free :: "pmm_state \<Rightarrow> nat set \<Rightarrow> bool" where
  "pmm_free s F \<longleftrightarrow>
     (\<exists>bs. pmm_blocks s bs \<and> gaps 0 bs \<and> F = set (block_pages bs)) \<and> F \<subseteq> {..< KMEM_PAGES}"

definition pmm_owned :: "pmm_state \<Rightarrow> nat \<Rightarrow> u32 \<Rightarrow> bool" where
  "pmm_owned s p n \<longleftrightarrow> 0 < n \<and> p + unat n \<le> KMEM_PAGES \<and> PageReserved (pages s p) \<and>
     (\<forall>q \<in> {p <..< p + unat n}. property (pages s q) = 0)"

lemma alloc_blocks_set:
  assumes bf: "blocks_from 0 bs" and a: "alloc_blocks n bs = Some (p, bs')"
  shows "{p ..< p + n} \<subseteq> set (block_pages bs)" "set (block_pages bs') = set (block_pages bs) - {p ..< p + n}"
proof -
  from alloc_blocks_SomeE [OF a] obtain us l vs where bs: "bs = us @ (p, l) # vs" "n \<le> l"
    "bs' = us @ (if n < l then [(p + n, l - n)] else []) @ vs" by blast
  show "{p ..< p + n} \<subseteq> set (block_pages bs)" using bs by auto
  have "q \<notin> {p ..< p + n}" if "q \<in> set (block_pages us) \<union> set (block_pages vs)" for q
    using that blocks_apart [OF bf [unfolded bs(1)], of q] bs(2) by auto
  then show "set (block_pages bs') = set (block_pages bs) - {p ..< p + n}"
    using bs(2) unfolding bs(1,3) by auto
qed

lemma pmm_blocks_card: "pmm_blocks s bs \<Longrightarrow> length (block_pages bs) = card (set (block_pages bs))"
  by (metis distinct_card distinct_ring pmm_blocks_def)

lemma pmm_owned_frame:
  assumes "pmm_owned s q m" "\<And>x. x \<in> {q ..< q + unat m} \<Longrightarrow> pages s' x = pages s x"
  shows "pmm_owned s' q m"
proof -
  have "0 < unat m" using assms(1) unat_pos by (simp add: pmm_owned_def)
  then show ?thesis using assms by (auto simp: pmm_owned_def)
qed

lemma default_alloc_contract:
  assumes "pmm_free s F" "0 < n"
  shows "\<exists>s' r. default_alloc_pages s n = Ret (s', r) \<and>
     (case r of
        None \<Rightarrow> s' = s \<and> \<not> (\<exists>p. {p ..< p + unat n} \<subseteq> F)
      | Some p \<Rightarrow> {p ..< p + unat n} \<subseteq> F \<and> pmm_free s' (F - {p ..< p + unat n}) \<and> pmm_owned s' p n \<and>
          (\<forall>q m. pmm_owned s q m \<longrightarrow> {q ..< q + unat m} \<inter> F = {} \<longrightarrow> pmm_owned s' q m))"
proof -
  from assms(1) obtain bs where bs: "pmm_blocks s bs" "gaps 0 bs" "F = set (block_pages bs)" "F \<subseteq> {..< KMEM_PAGES}"
    by (auto simp: pmm_free_def)
  have n0: "0 < unat n" using assms(2) by (simp add: unat_gt_0)
  from default_alloc_pages_blocks [OF bs(1) assms(2)] obtain s' where s':
    "default_alloc_pages s n = Ret (s', map_option fst (alloc_blocks (unat n) bs))"
    "pmm_blocks s' (case alloc_blocks (unat n) bs of None \<Rightarrow> bs | Some (_, bs') \<Rightarrow> bs')"
    "\<forall>p bs'. alloc_blocks (unat n) bs = Some (p, bs') \<longrightarrow>
        (\<forall>q \<in> {p ..< p + unat n}. PageReserved (pages s' q)) \<and>
        (\<forall>q \<in> {p <..< p + unat n}. property (pages s' q) = 0)"
    "\<forall>q. q \<notin> set (block_pages bs) \<longrightarrow> pages s' q = pages s q" by blast
  show ?thesis
  proof (cases "alloc_blocks (unat n) bs")
    case None
    then have "\<not> (\<exists>p. {p ..< p + unat n} \<subseteq> F)"
      using run_in_block [OF bs(2) _ n0] alloc_blocks_complete [of _ _ bs "unat n"] bs(3) by fastforce
    moreover have "default_alloc_pages s n = Ret (s, None)"
      using None pmm_blocks_scan [OF bs(1) assms(2)] assms(2) by (simp add: default_alloc_pages_def)
    ultimately show ?thesis by simp
  next
    case (Some r)
    obtain p bs' where r: "r = (p, bs')" by (cases r)
    note a = Some [unfolded r]
    note set = alloc_blocks_set [OF gaps_blocks_from [OF bs(2)] a]
    have "pmm_free s' (F - {p ..< p + unat n})"
      using s'(2) a gaps_alloc [OF bs(2) a n0] set bs(3,4) by (auto simp: pmm_free_def)
    moreover have "p + unat n - 1 < KMEM_PAGES"
      using set(1) bs(3,4) n0 by (intro subsetD [OF bs(4), unfolded lessThan_iff]) (auto simp: subset_iff)
    then have "pmm_owned s' p n"
      using s'(3) a n0 assms(2) by (auto simp: pmm_owned_def)
    moreover have "pmm_owned s' q m" if "pmm_owned s q m" "{q ..< q + unat m} \<inter> F = {}" for q m
      by (rule pmm_owned_frame [OF that(1)]) (use that(2) s'(4) bs(3) in blast)
    ultimately show ?thesis using s'(1) a set(1) bs(3) by auto
  qed
qed

lemma default_free_contract:
  assumes "pmm_free s F" "pmm_owned s p n" "{p ..< p + unat n} \<inter> F = {}"
  shows "\<exists>s'. default_free_pages s p n = Ret s' \<and> pmm_free s' (F \<union> {p ..< p + unat n}) \<and>
     (\<forall>q m. pmm_owned s q m \<longrightarrow> {q ..< q + unat m} \<inter> (F \<union> {p ..< p + unat n}) = {} \<longrightarrow> pmm_owned s' q m)"
proof -
  from assms(1) obtain bs where bs: "pmm_blocks s bs" "gaps 0 bs" "F = set (block_pages bs)" "F \<subseteq> {..< KMEM_PAGES}"
    by (auto simp: pmm_free_def)
  from assms(2) have n: "0 < n" "0 < unat n" and hi: "p + unat n \<le> KMEM_PAGES" and own: "PageReserved (pages s p)"
    "\<forall>q \<in> {p <..< p + unat n}. property (pages s q) = 0" by (auto simp: pmm_owned_def unat_gt_0)
  have sub: "F \<union> {p ..< p + unat n} \<subseteq> {..< KMEM_PAGES}" using bs(4) hi by auto
  have "card F + card {p ..< p + unat n} = card (F \<union> {p ..< p + unat n})"
    using assms(3) bs(3) by (intro card_Un_disjoint [symmetric]) auto
  also have "\<dots> \<le> KMEM_PAGES" using card_mono [OF _ sub] by simp
  finally have "length (block_pages bs) + unat n < 2 ^ 32"
    using pmm_blocks_card [OF bs(1)] bs(3) by (simp add: KMEM_PAGES_def)
  from default_free_pages_blocks [OF bs(1) n(1) own(1) _ own(2) this] assms(3) bs(3) obtain s' where s':
    "default_free_pages s p n = Ret s'" "pmm_blocks s' (free_blocks p (unat n) bs)"
    "set (block_pages (free_blocks p (unat n) bs)) = F \<union> {p ..< p + unat n}"
    "\<forall>q. q \<notin> insert p F \<longrightarrow> pages s' q = pages s q" by auto
  have "gaps 0 (free_blocks p (unat n) bs)" using gaps_free [OF bs(2) _ n(2)] assms(3) bs(3) by simp
  then have "pmm_free s' (F \<union> {p ..< p + unat n})" using s'(2,3) sub by (auto simp: pmm_free_def)
  moreover have "pmm_owned s' q m" if "pmm_owned s q m" "{q ..< q + unat m} \<inter> (F \<union> {p ..< p + unat n}) = {}" for q m
    by (rule pmm_owned_frame [OF that(1)]) (use that(2) s'(4) n(2) in force)
  ultimately show ?thesis using s'(1) by blast
qed

interpretation default_pmm: page_allocator default_pmm_manager pmm_free pmm_owned
proof
  show "\<exists>s' r. pm_alloc_pages default_pmm_manager s n = Ret (s', r) \<and>
      (case r of
         None \<Rightarrow> s' = s \<and> \<not> (\<exists>p. {p ..< p + unat n} \<subseteq> F)
       | Some p \<Rightarrow> {p ..< p + unat n} \<subseteq> F \<and> pmm_free s' (F - {p ..< p + unat n}) \<and> pmm_owned s' p n \<and>
           (\<forall>q m. pmm_owned s q m \<longrightarrow> {q ..< q + unat m} \<inter> F = {} \<longrightarrow> pmm_owned s' q m))"
    if "pmm_free s F" "0 < n" for s F n
    using default_alloc_contract [OF that] by (simp add: default_pmm_manager_def)
  show "\<exists>s'. pm_free_pages default_pmm_manager s p n = Ret s' \<and> pmm_free s' (F \<union> {p ..< p + unat n}) \<and>
      (\<forall>q m. pmm_owned s q m \<longrightarrow> {q ..< q + unat m} \<inter> (F \<union> {p ..< p + unat n}) = {} \<longrightarrow> pmm_owned s' q m)"
    if "pmm_free s F" "pmm_owned s p n" "{p ..< p + unat n} \<inter> F = {}" for s F p n
    using default_free_contract [OF that] by (simp add: default_pmm_manager_def)
  show "pm_nr_free_pages default_pmm_manager s = of_nat (card F)" if "pmm_free s F" for s F
  proof -
    from that obtain bs where bs: "pmm_blocks s bs" "F = set (block_pages bs)" by (auto simp: pmm_free_def)
    then have "nr_free s = of_nat (length (block_pages bs))" by (simp add: pmm_blocks_def)
    then have "nr_free s = of_nat (card F)" unfolding pmm_blocks_card [OF bs(1)] bs(2) .
    then show ?thesis by (simp add: default_pmm_manager_def default_nr_free_pages_def)
  qed
qed (auto simp: pmm_owned_def pmm_free_def)

subsection \<open>Clients of a page allocator\<close>

text \<open>
  A client keeps the list of the blocks it holds. It may ask for any positive number of pages
  and may give back any block it holds, in any order.
\<close>

inductive page_step :: "'s pmm_manager \<Rightarrow> 's \<times> (nat \<times> u32) list \<Rightarrow> 's \<times> (nat \<times> u32) list \<Rightarrow> bool"
  for pm where
  got: "0 < n \<Longrightarrow> pm_alloc_pages pm s n = Ret (s', Some p) \<Longrightarrow> page_step pm (s, L) (s', (p, n) # L)"
| none: "0 < n \<Longrightarrow> pm_alloc_pages pm s n = Ret (s', None) \<Longrightarrow> page_step pm (s, L) (s', L)"
| give_back: "pm_free_pages pm s p n = Ret s' \<Longrightarrow> page_step pm (s, xs @ (p, n) # ys) (s', xs @ ys)"

definition held :: "nat \<times> u32 \<Rightarrow> nat set" where
  "held b = {fst b ..< fst b + unat (snd b)}"

fun held_apart :: "(nat \<times> u32) list \<Rightarrow> bool" where
  "held_apart [] \<longleftrightarrow> True"
| "held_apart (b # L) \<longleftrightarrow> (\<forall>c \<in> set L. held b \<inter> held c = {}) \<and> held_apart L"

lemma held_apart_append: "held_apart (xs @ b # ys) \<longleftrightarrow>
   held_apart (xs @ ys) \<and> (\<forall>c \<in> set (xs @ ys). held b \<inter> held c = {})"
  by (induction xs) auto

context page_allocator
begin

definition client_inv :: "nat set \<Rightarrow> 's \<times> (nat \<times> u32) list \<Rightarrow> bool" where
  "client_inv F0 c \<longleftrightarrow>
     (\<exists>F. free_set (fst c) F \<and> held_apart (snd c) \<and>
        (\<forall>b \<in> set (snd c). owned (fst c) (fst b) (snd b) \<and> held b \<inter> F = {}) \<and>
        F \<union> (\<Union>b \<in> set (snd c). held b) = F0)"

lemma page_step_inv: "page_step pm c c' \<Longrightarrow> client_inv F0 c \<Longrightarrow> client_inv F0 c'"
proof (induction rule: page_step.induct)
  case (got n s s' p L)
  from got.prems obtain F where F: "free_set s F" "held_apart L"
    "\<forall>b \<in> set L. owned s (fst b) (snd b) \<and> held b \<inter> F = {}" "F \<union> (\<Union>b \<in> set L. held b) = F0"
    by (auto simp: client_inv_def)
  from alloc_contract [OF F(1) got(1)] got(2) have
    a: "{p ..< p + unat n} \<subseteq> F" "free_set s' (F - {p ..< p + unat n})" "owned s' p n"
      "\<forall>q m. owned s q m \<longrightarrow> {q ..< q + unat m} \<inter> F = {} \<longrightarrow> owned s' q m" by auto
  have "\<forall>b \<in> set L. owned s' (fst b) (snd b)" using F(3) a(4) by (auto simp: held_def)
  moreover have sub: "held (p, n) \<subseteq> F" using a(1) by (simp add: held_def)
  then have "held_apart ((p, n) # L)" using F(2,3) by (simp, blast)
  moreover have "F - {p ..< p + unat n} \<union> (\<Union>b \<in> set ((p, n) # L). held b) = F0"
    using F(4) a(1) by (auto simp: held_def)
  ultimately show ?case
    using a F(3) unfolding client_inv_def
    by (intro exI [of _ "F - {p ..< p + unat n}"]) (fastforce simp: held_def)
next
  case (none n s s' L)
  then show ?case using alloc_contract [of s] by (fastforce simp: client_inv_def)
next
  case (give_back s p n s' xs ys)
  from give_back.prems obtain F where F: "free_set s F" "held_apart (xs @ (p, n) # ys)"
    "\<forall>b \<in> set (xs @ (p, n) # ys). owned s (fst b) (snd b) \<and> held b \<inter> F = {}"
    "F \<union> (\<Union>b \<in> set (xs @ (p, n) # ys). held b) = F0"
    by (auto simp: client_inv_def)
  have own: "owned s p n" and dis: "{p ..< p + unat n} \<inter> F = {}"
    using F(3) by (auto simp: held_def)
  from free_contract [OF F(1) own dis] give_back(1) have
    f: "free_set s' (F \<union> {p ..< p + unat n})"
      "\<forall>q m. owned s q m \<longrightarrow> {q ..< q + unat m} \<inter> (F \<union> {p ..< p + unat n}) = {} \<longrightarrow> owned s' q m" by auto
  have ap: "held_apart (xs @ ys)" "\<forall>c \<in> set (xs @ ys). held (p, n) \<inter> held c = {}"
    using F(2) by (auto simp: held_apart_append)
  have "owned s' (fst b) (snd b) \<and> held b \<inter> (F \<union> {p ..< p + unat n}) = {}" if "b \<in> set (xs @ ys)" for b
  proof -
    have b: "owned s (fst b) (snd b)" "held b \<inter> F = {}" "held (p, n) \<inter> held b = {}"
      using that F(3) ap(2) by auto
    then have dis: "held b \<inter> (F \<union> {p ..< p + unat n}) = {}" by (auto simp: held_def)
    then show ?thesis using f(2) b(1) by (simp add: held_def)
  qed
  moreover have "F \<union> {p ..< p + unat n} \<union> (\<Union>b \<in> set (xs @ ys). held b) = F0"
    using F(4) by (auto simp: held_def)
  ultimately show ?case using f(1) ap(1) unfolding client_inv_def fst_conv snd_conv by blast
qed

lemma page_run_inv: "(page_step pm)\<^sup>*\<^sup>* c c' \<Longrightarrow> client_inv F0 c \<Longrightarrow> client_inv F0 c'"
  by (induction rule: rtranclp_induct) (auto intro: page_step_inv)

lemma page_run:
  assumes "free_set s0 F0" "(page_step pm)\<^sup>*\<^sup>* (s0, []) (s, L)"
  obtains F where "free_set s F" "held_apart L" "F \<union> (\<Union>b \<in> set L. held b) = F0"
    "\<forall>b \<in> set L. held b \<inter> F = {} \<and> pm_free_pages pm s (fst b) (snd b) \<noteq> Panic"
proof -
  have "client_inv F0 (s0, [])" using assms(1) by (auto simp: client_inv_def)
  then have "client_inv F0 (s, L)" using page_run_inv [OF assms(2)] by blast
  then obtain F where F: "free_set s F" "held_apart L"
    "\<forall>b \<in> set L. owned s (fst b) (snd b) \<and> held b \<inter> F = {}" "F \<union> (\<Union>b \<in> set L. held b) = F0"
    by (auto simp: client_inv_def)
  have "pm_free_pages pm s (fst b) (snd b) \<noteq> Panic" if "b \<in> set L" for b
    using free_contract [OF F(1), of "fst b" "snd b"] bspec [OF F(3) that] by (auto simp: held_def)
  then show ?thesis using that F by blast
qed

end

subsection \<open>Properties\<close>

text \<open>A machine with eight reserved pages, of which pages 2 to 6 are handed to the allocator.\<close>

definition reserved_page :: page where
  "reserved_page = \<lparr>ref = 0, page_flags = 1, property = 0, pra_vaddr = 0\<rparr>"

definition small_machine :: pmm_state where
  "small_machine = default_init
     \<lparr>pages = \<lambda>_. reserved_page, free_links = \<lparr>le_prev = id, le_next = id\<rparr>, nr_free = 7\<rparr>"

lemma small_machine_memmap:
  obtains s where "default_init_memmap small_machine 2 5 = Ret s" "pmm_blocks s [(2, 5)]"
    "pmm_free s {2 ..< 7}"
proof -
  have "\<forall>q. PageReserved (pages small_machine q)"
    by (simp add: small_machine_def default_init_def reserved_page_def PageReserved_def PG_reserved_def)
  then obtain s where s: "default_init_memmap small_machine 2 5 = Ret s" "pmm_blocks s [(2, 5)]"
    using default_init_memmap_blocks [of small_machine "[]" 5 2] default_init_blocks
    by (auto simp: small_machine_def)
  then have "pmm_free s {2 ..< 7}" by (auto simp: pmm_free_def KMEM_PAGES_def intro!: exI [of _ "[(2, 5)]"])
  with s that show ?thesis by blast
qed

text \<open>C23: on the pointer structures of the free list, allocation is first fit on the abstract list
  of free blocks: it returns the first page of the first block that is long enough (or NULL when
  there is none), takes the pages from the front of that block, leaves a well-formed free list of
  the remaining blocks with a matching page count, and marks every returned page reserved.\<close>

theorem default_alloc_pages_first_fit:
  assumes "pmm_blocks s bs" "0 < n"
  shows "\<exists>s'. default_alloc_pages s n = Ret (s', map_option fst (alloc_blocks (unat n) bs)) \<and>
     pmm_blocks s' (case alloc_blocks (unat n) bs of None \<Rightarrow> bs | Some (_, bs') \<Rightarrow> bs') \<and>
     (\<forall>p bs'. alloc_blocks (unat n) bs = Some (p, bs') \<longrightarrow>
        (\<forall>q \<in> {p ..< p + unat n}. PageReserved (pages s' q))) \<and>
     (\<forall>q. q \<notin> set (block_pages bs) \<longrightarrow> pages s' q = pages s q)"
  using default_alloc_pages_blocks [OF assms] by blast

theorem default_alloc_pages_first_fit_witness:
  "\<exists>s s'. default_init_memmap small_machine 2 5 = Ret s \<and>
     default_alloc_pages s 3 = Ret (s', Some 2) \<and> pmm_blocks s' [(5, 2)]"
proof -
  obtain s where s: "default_init_memmap small_machine 2 5 = Ret s" "pmm_blocks s [(2, 5)]"
    using small_machine_memmap .
  from default_alloc_pages_first_fit [OF s(2), of 3] s(1) show ?thesis by auto
qed

text \<open>C24: freeing a block that is not in the free list puts it back in address order and merges it
  with the free block that ends where it starts and the one that starts where it ends; the free
  list stays well formed, it gains exactly the freed pages and the page count grows by n.\<close>

theorem default_free_pages_merges:
  assumes "pmm_blocks s bs" "0 < n" "PageReserved (pages s base)"
    "{base ..< base + unat n} \<inter> set (block_pages bs) = {}"
    "\<forall>q \<in> {base <..< base + unat n}. property (pages s q) = 0"
    "length (block_pages bs) + unat n < 2 ^ 32"
  shows "\<exists>s'. default_free_pages s base n = Ret s' \<and> pmm_blocks s' (free_blocks base (unat n) bs) \<and>
     set (block_pages (free_blocks base (unat n) bs)) = set (block_pages bs) \<union> {base ..< base + unat n}"
  using default_free_pages_blocks [OF assms] by blast

theorem default_free_pages_merges_witness:
  "\<exists>s s1 s2. default_init_memmap small_machine 2 5 = Ret s \<and> default_alloc_pages s 3 = Ret (s1, Some 2) \<and>
     default_free_pages s1 2 3 = Ret s2 \<and> pmm_blocks s2 [(2, 5)]"
proof -
  obtain s where s: "default_init_memmap small_machine 2 5 = Ret s" "pmm_blocks s [(2, 5)]"
    using small_machine_memmap .
  obtain s1 where s1: "default_alloc_pages s 3 = Ret (s1, Some 2)" "pmm_blocks s1 [(5, 2)]"
    "PageReserved (pages s1 2)" "\<forall>q \<in> {2 <..< 5}. property (pages s1 q) = 0"
    using default_alloc_pages_blocks [OF s(2), of 3] by auto
  have "{2 ..< 2 + unat (3 :: u32)} \<inter> set (block_pages [(5, 2)]) = {}" by auto
  moreover have "free_blocks 2 3 [(5, 2)] = [(2, 5)]" by (simp add: free_blocks_def)
  ultimately show ?thesis
    using default_free_pages_merges [OF s1(2), of 3 2] s1 s(1) by auto
qed

text \<open>First fit is complete: an allocation fails only when there is no run of n consecutive
  free pages, and a successful one takes n consecutive free pages and nothing else.\<close>

theorem default_alloc_pages_complete:
  assumes "pmm_free s F" "0 < n"
  shows "\<exists>s' r. default_alloc_pages s n = Ret (s', r) \<and>
     (case r of
        None \<Rightarrow> s' = s \<and> \<not> (\<exists>p. {p ..< p + unat n} \<subseteq> F)
      | Some p \<Rightarrow> {p ..< p + unat n} \<subseteq> F \<and> pmm_free s' (F - {p ..< p + unat n}))"
proof -
  from default_pmm.alloc_contract [OF assms] obtain s' r where
    *: "default_alloc_pages s n = Ret (s', r)"
      "case r of
        None \<Rightarrow> s' = s \<and> \<not> (\<exists>p. {p ..< p + unat n} \<subseteq> F)
      | Some p \<Rightarrow> {p ..< p + unat n} \<subseteq> F \<and> pmm_free s' (F - {p ..< p + unat n}) \<and> pmm_owned s' p n \<and>
          (\<forall>q m. pmm_owned s q m \<longrightarrow> {q ..< q + unat m} \<inter> F = {} \<longrightarrow> pmm_owned s' q m)"
    by (auto simp: default_pmm_manager_def)
  then show ?thesis by (intro exI [of _ s'] exI [of _ r]) (auto split: option.splits)
qed

theorem default_alloc_pages_complete_witness:
  "\<exists>s s' r. default_init_memmap small_machine 2 5 = Ret s \<and> default_alloc_pages s 5 = Ret (s', r) \<and> r \<noteq> None"
proof -
  obtain s where s: "default_init_memmap small_machine 2 5 = Ret s" "pmm_free s {2 ..< 7}"
    using small_machine_memmap .
  have "\<exists>p :: nat. {p ..< p + unat (5 :: u32)} \<subseteq> {2 ..< 7}" by (rule exI [of _ 2]) simp
  with default_alloc_pages_complete [OF s(2), of 5] s(1) show ?thesis by (auto split: option.splits)
qed

text \<open>C2: for a client that allocates and gives back blocks in any order, no page is ever held
  twice or free while held, no page is lost (the free pages and the held pages together are the
  pages it started with), nr_free_pages counts the free pages, and giving back a held block
  never fails an assertion.\<close>

theorem page_run_conserves:
  assumes "pmm_free s0 F0" "(page_step default_pmm_manager)\<^sup>*\<^sup>* (s0, []) (s, L)"
  shows "\<exists>F. pmm_free s F \<and> held_apart L \<and> F \<union> (\<Union>b \<in> set L. held b) = F0 \<and>
     default_nr_free_pages s = of_nat (card F) \<and>
     (\<forall>b \<in> set L. held b \<inter> F = {} \<and> default_free_pages s (fst b) (snd b) \<noteq> Panic)"
proof -
  from default_pmm.page_run [OF assms] obtain F where "pmm_free s F" "held_apart L"
    "F \<union> (\<Union>b \<in> set L. held b) = F0"
    "\<forall>b \<in> set L. held b \<inter> F = {} \<and> pm_free_pages default_pmm_manager s (fst b) (snd b) \<noteq> Panic" .
  moreover from default_pmm.nr_free_contract [OF this(1)] have "default_nr_free_pages s = of_nat (card F)"
    by (simp add: default_pmm_manager_def)
  ultimately show ?thesis by (auto simp: default_pmm_manager_def)
qed

theorem page_run_conserves_witness:
  "\<exists>s s'. default_init_memmap small_machine 2 5 = Ret s \<and> default_alloc_pages s 3 = Ret (s', Some 2) \<and>
     (\<exists>F. pmm_free s' F \<and> F \<union> held (2, 3) = {2 ..< 7} \<and> default_free_pages s' 2 3 \<noteq> Panic)"
proof -
  obtain s where s: "default_init_memmap small_machine 2 5 = Ret s" "pmm_blocks s [(2, 5)]" "pmm_free s {2 ..< 7}"
    using small_machine_memmap .
  obtain s1 where s1: "default_alloc_pages s 3 = Ret (s1, Some 2)"
    using default_alloc_pages_blocks [OF s(2), of 3] by auto
  then have "page_step default_pmm_manager (s, []) (s1, [(2, 3)])"
    by (intro page_step.got) (simp_all add: default_pmm_manager_def)
  from page_run_conserves [OF s(3) r_into_rtranclp [of "page_step default_pmm_manager", OF this]] s(1) s1
  show ?thesis by auto
qed

end
