(* ===== verification/Sync.thy ===== *)
theory Sync
  imports Timers
begin

text \<open>
  Wait queues (\<^verbatim>\<open>kern/sync/wait.c\<close>) and semaphores (\<^verbatim>\<open>sem.c\<close>) over the scheduler state. A wait queue is named by a number; \<open>QHead q\<close> is its
  \<open>wait_head\<close> and \<open>WLink w\<close> the \<open>wait_link\<close> of the wait record \<open>w\<close>. The code between
  \<open>local_intr_save\<close> and \<open>local_intr_restore\<close> is one step; a routine that blocks is split at its
  call of \<open>schedule\<close>.
\<close>

datatype wait_node = QHead nat | WLink nat

record wait =
  wait_proc :: "proc_ptr option"
  wakeup_flags :: u32
  wait_queue :: "nat option"

record sync_state =
  sched :: sched_state
  waits :: "nat \<Rightarrow> wait"
  wait_links :: "wait_node links"
  sem_value :: "nat \<Rightarrow> int"

abbreviation upd_wait :: "nat \<Rightarrow> (wait \<Rightarrow> wait) \<Rightarrow> sync_state \<Rightarrow> sync_state" where
  "upd_wait w f s \<equiv> s\<lparr>waits := (waits s)(w := f (waits s w))\<rparr>"

subsection \<open>wait.c\<close>

definition wait_init :: "sync_state \<Rightarrow> nat \<Rightarrow> proc_ptr \<Rightarrow> sync_state" where
  "wait_init s w p =
     (let s1 = upd_wait w (\<lambda>x. x\<lparr>wait_proc := Some p, wakeup_flags := WT_INTERRUPTED\<rparr>) s
      in s1\<lparr>wait_links := list_init (wait_links s1) (WLink w)\<rparr>)"

definition wait_queue_init :: "sync_state \<Rightarrow> nat \<Rightarrow> sync_state" where
  "wait_queue_init s q = s\<lparr>wait_links := list_init (wait_links s) (QHead q)\<rparr>"

definition wait_queue_add :: "sync_state \<Rightarrow> nat \<Rightarrow> nat \<Rightarrow> sync_state outcome" where
  "wait_queue_add s q w =
     assert_then (list_empty (wait_links s) (WLink w) \<and> wait_proc (waits s w) \<noteq> None)
       (let s1 = upd_wait w (wait_queue_update (\<lambda>_. Some q)) s
        in Ret (s1\<lparr>wait_links := list_add_before (wait_links s1) (QHead q) (WLink w)\<rparr>))"

definition wait_queue_del :: "sync_state \<Rightarrow> nat \<Rightarrow> nat \<Rightarrow> sync_state outcome" where
  "wait_queue_del s q w =
     assert_then (\<not> list_empty (wait_links s) (WLink w) \<and> wait_queue (waits s w) = Some q)
       (Ret (s\<lparr>wait_links := list_del_init (wait_links s) (WLink w)\<rparr>))"

text \<open>\<open>le != &(queue->wait_head)\<close>, and then \<open>le2wait\<close>.\<close>

definition wait_of :: "wait_node \<Rightarrow> nat option" where
  "wait_of le = (case le of WLink w \<Rightarrow> Some w | QHead r \<Rightarrow> None)"

definition wait_queue_next :: "sync_state \<Rightarrow> nat \<Rightarrow> nat \<Rightarrow> nat option outcome" where
  "wait_queue_next s q w =
     assert_then (\<not> list_empty (wait_links s) (WLink w) \<and> wait_queue (waits s w) = Some q)
       (Ret (wait_of (list_next (wait_links s) (WLink w))))"

definition wait_queue_prev :: "sync_state \<Rightarrow> nat \<Rightarrow> nat \<Rightarrow> nat option outcome" where
  "wait_queue_prev s q w =
     assert_then (\<not> list_empty (wait_links s) (WLink w) \<and> wait_queue (waits s w) = Some q)
       (Ret (wait_of (list_prev (wait_links s) (WLink w))))"

definition wait_queue_first :: "sync_state \<Rightarrow> nat \<Rightarrow> nat option" where
  "wait_queue_first s q = wait_of (list_next (wait_links s) (QHead q))"

definition wait_queue_last :: "sync_state \<Rightarrow> nat \<Rightarrow> nat option" where
  "wait_queue_last s q = wait_of (list_prev (wait_links s) (QHead q))"

definition wait_queue_empty :: "sync_state \<Rightarrow> nat \<Rightarrow> bool" where
  "wait_queue_empty s q \<longleftrightarrow> list_empty (wait_links s) (QHead q)"

definition wait_in_queue :: "sync_state \<Rightarrow> nat \<Rightarrow> bool" where
  "wait_in_queue s w \<longleftrightarrow> \<not> list_empty (wait_links s) (WLink w)"

definition wakeup_wait :: "sched_class \<Rightarrow> sync_state \<Rightarrow> nat \<Rightarrow> nat \<Rightarrow> u32 \<Rightarrow> bool \<Rightarrow> sync_state outcome" where
  "wakeup_wait sc s q w fl del =
     bind_outcome (if del then wait_queue_del s q w else Ret s)
       (\<lambda>s1. let s2 = upd_wait w (wakeup_flags_update (\<lambda>_. fl)) s1 in
         case wait_proc (waits s2 w) of
           None \<Rightarrow> Panic
         | Some p \<Rightarrow> bind_outcome (wakeup_proc sc (sched s2) p) (\<lambda>t. Ret (s2\<lparr>sched := t\<rparr>)))"

definition wakeup_first :: "sched_class \<Rightarrow> sync_state \<Rightarrow> nat \<Rightarrow> u32 \<Rightarrow> bool \<Rightarrow> sync_state outcome" where
  "wakeup_first sc s q fl del =
     (case wait_queue_first s q of None \<Rightarrow> Ret s | Some w \<Rightarrow> wakeup_wait sc s q w fl del)"

text \<open>The two \<open>do\<close> loops of \<open>wakeup_queue\<close>, entered with the first wait record.\<close>

partial_function (option) wakeup_queue_del ::
  "sched_class \<Rightarrow> sync_state \<Rightarrow> nat \<Rightarrow> u32 \<Rightarrow> nat \<Rightarrow> sync_state outcome option" where
  "wakeup_queue_del sc s q fl w =
     (case wakeup_wait sc s q w fl True of
        Panic \<Rightarrow> Some Panic
      | Ret s1 \<Rightarrow>
          (case wait_queue_first s1 q of
             None \<Rightarrow> Some (Ret s1) | Some w' \<Rightarrow> wakeup_queue_del sc s1 q fl w'))"

partial_function (option) wakeup_queue_keep ::
  "sched_class \<Rightarrow> sync_state \<Rightarrow> nat \<Rightarrow> u32 \<Rightarrow> nat \<Rightarrow> sync_state outcome option" where
  "wakeup_queue_keep sc s q fl w =
     (case wakeup_wait sc s q w fl False of
        Panic \<Rightarrow> Some Panic
      | Ret s1 \<Rightarrow>
          (case wait_queue_next s1 q w of
             Panic \<Rightarrow> Some Panic
           | Ret None \<Rightarrow> Some (Ret s1)
           | Ret (Some w') \<Rightarrow> wakeup_queue_keep sc s1 q fl w'))"

definition wakeup_queue :: "sched_class \<Rightarrow> sync_state \<Rightarrow> nat \<Rightarrow> u32 \<Rightarrow> bool \<Rightarrow> sync_state outcome" where
  "wakeup_queue sc s q fl del =
     (case wait_queue_first s q of
        None \<Rightarrow> Ret s
      | Some w \<Rightarrow>
          (case if del then wakeup_queue_del sc s q fl w else wakeup_queue_keep sc s q fl w of
             None \<Rightarrow> Panic | Some r \<Rightarrow> r))"

definition wait_current_set :: "sync_state \<Rightarrow> nat \<Rightarrow> nat \<Rightarrow> u32 \<Rightarrow> sync_state outcome" where
  "wait_current_set s q w ws =
     (let s1 = wait_init s w (current (sched s));
          s2 = s1\<lparr>sched := upd_proc (current (sched s1))
                   (\<lambda>x. x\<lparr>state := PROC_SLEEPING, wait_state := ws\<rparr>) (sched s1)\<rparr>
      in wait_queue_add s2 q w)"

definition wait_current_del :: "sync_state \<Rightarrow> nat \<Rightarrow> nat \<Rightarrow> sync_state outcome" where
  "wait_current_del s q w = (if wait_in_queue s w then wait_queue_del s q w else Ret s)"

subsection \<open>sem.c\<close>

text \<open>The wait queue inside semaphore \<open>m\<close> is queue \<open>m\<close>.\<close>

definition sem_init :: "sync_state \<Rightarrow> nat \<Rightarrow> int \<Rightarrow> sync_state" where
  "sem_init s m v = wait_queue_init (s\<lparr>sem_value := (sem_value s)(m := v)\<rparr>) m"

definition up_with :: "sched_class \<Rightarrow> sync_state \<Rightarrow> nat \<Rightarrow> u32 \<Rightarrow> sync_state outcome" where
  "up_with sc s m ws =
     (case wait_queue_first s m of
        None \<Rightarrow> Ret (s\<lparr>sem_value := (sem_value s)(m := sem_value s m + 1)\<rparr>)
      | Some w \<Rightarrow>
          (case wait_proc (waits s w) of
             None \<Rightarrow> Panic
           | Some p \<Rightarrow>
               assert_then (wait_state (procs (sched s) p) = ws) (wakeup_wait sc s m w ws True)))"

text \<open>
  \<open>__down\<close> up to its call of \<open>schedule\<close>: either the semaphore is taken (\<open>True\<close>), or the
  caller is asleep on the queue with the wait record \<open>w\<close> of its stack frame.
\<close>

definition down_enter :: "sync_state \<Rightarrow> nat \<Rightarrow> nat \<Rightarrow> u32 \<Rightarrow> (sync_state \<times> bool) outcome" where
  "down_enter s m w ws =
     (if sem_value s m > 0 then Ret (s\<lparr>sem_value := (sem_value s)(m := sem_value s m - 1)\<rparr>, True)
      else bind_outcome (wait_current_set s m w ws) (\<lambda>s1. Ret (s1, False)))"

text \<open>The rest of \<open>__down\<close>, when the caller runs again; it gives the flags it returns.\<close>

definition down_resume :: "sync_state \<Rightarrow> nat \<Rightarrow> nat \<Rightarrow> u32 \<Rightarrow> (sync_state \<times> u32) outcome" where
  "down_resume s m w ws =
     bind_outcome (wait_current_del s m w)
       (\<lambda>s1. Ret (s1, if wakeup_flags (waits s1 w) \<noteq> ws then wakeup_flags (waits s1 w) else 0))"

definition up :: "sched_class \<Rightarrow> sync_state \<Rightarrow> nat \<Rightarrow> sync_state outcome" where
  "up sc s m = up_with sc s m WT_KSEM"

text \<open>\<open>down\<close> in the same two parts; the second asserts that no flags came back.\<close>

definition down :: "sync_state \<Rightarrow> nat \<Rightarrow> nat \<Rightarrow> (sync_state \<times> bool) outcome" where
  "down s m w = down_enter s m w WT_KSEM"

definition down_return :: "sync_state \<Rightarrow> nat \<Rightarrow> nat \<Rightarrow> sync_state outcome" where
  "down_return s m w =
     bind_outcome (down_resume s m w WT_KSEM) (\<lambda>(s1, fl). assert_then (fl = 0) (Ret s1))"

definition try_down :: "sync_state \<Rightarrow> nat \<Rightarrow> sync_state \<times> bool" where
  "try_down s m =
     (if sem_value s m > 0 then (s\<lparr>sem_value := (sem_value s)(m := sem_value s m - 1)\<rparr>, True)
      else (s, False))"

subsection \<open>Semaphores as a value and a queue\<close>

text \<open>
  \<open>A m\<close> lists the wait records queued on semaphore \<open>m\<close> of the set \<open>S\<close>, oldest first. A
  semaphore with a positive value has nobody waiting, a queued process sleeps on \<open>WT_KSEM\<close>, and
  no process is queued twice.
\<close>

definition waiter_ok :: "sync_state \<Rightarrow> nat \<Rightarrow> nat \<Rightarrow> bool" where
  "waiter_ok s m w \<longleftrightarrow> wait_queue (waits s w) = Some m \<and>
     (\<exists>p. wait_proc (waits s w) = Some p \<and> state (procs (sched s) p) = PROC_SLEEPING \<and>
          wait_state (procs (sched s) p) = WT_KSEM)"

definition sync_ok :: "nat set \<Rightarrow> sync_state \<Rightarrow> (nat \<Rightarrow> nat list) \<Rightarrow> bool" where
  "sync_ok S s A \<longleftrightarrow>
     (\<forall>m \<in> S. dlist (wait_links s) (QHead m) (map WLink (A m)) \<and> 0 \<le> sem_value s m \<and>
        (0 < sem_value s m \<longrightarrow> A m = []) \<and> (\<forall>w \<in> set (A m). waiter_ok s m w)) \<and>
     (\<forall>m \<in> S. \<forall>m' \<in> S. \<forall>w \<in> set (A m). \<forall>w' \<in> set (A m').
        wait_proc (waits s w) = wait_proc (waits s w') \<longrightarrow> m = m' \<and> w = w')"

lemma sync_okD:
  assumes "sync_ok S s A" "m \<in> S"
  shows "dlist (wait_links s) (QHead m) (map WLink (A m))" "0 \<le> sem_value s m"
    "0 < sem_value s m \<Longrightarrow> A m = []" "w \<in> set (A m) \<Longrightarrow> waiter_ok s m w"
  using assms by (auto simp: sync_ok_def)

lemma sync_ok_unique:
  "sync_ok S s A \<Longrightarrow> m \<in> S \<Longrightarrow> m' \<in> S \<Longrightarrow> w \<in> set (A m) \<Longrightarrow> w' \<in> set (A m') \<Longrightarrow>
   wait_proc (waits s w) = wait_proc (waits s w') \<Longrightarrow> m = m' \<and> w = w'"
  by (auto simp: sync_ok_def)

lemma first_waiter:
  assumes "sync_ok S s A" "m \<in> S"
  shows "wait_queue_first s m = (case A m of [] \<Rightarrow> None | w # _ \<Rightarrow> Some w)"
  using dlist_next_head [OF sync_okD(1) [OF assms]]
  by (simp add: wait_queue_first_def wait_of_def split: list.splits)

text \<open>The abstract operations.\<close>

definition abs_up :: "nat \<Rightarrow> int \<times> nat list \<Rightarrow> int \<times> nat list" where
  "abs_up m q = (case snd q of [] \<Rightarrow> (fst q + 1, []) | w # ws \<Rightarrow> (fst q, ws))"

definition abs_down :: "nat \<Rightarrow> int \<times> nat list \<Rightarrow> (int \<times> nat list) \<times> bool" where
  "abs_down w q = (if fst q > 0 then ((fst q - 1, snd q), True) else ((fst q, snd q @ [w]), False))"

lemma not_empty_in_ring: "dlist h l (ys @ x # zs) \<Longrightarrow> \<not> list_empty h x"
  using dlist_next [of h l ys x zs] dlist_distinct [of h l "ys @ x # zs"]
  by (auto simp: list_empty_def list_next_def split: list.splits)

context sched_class_contract
begin

lemma up_spec:
  assumes ok: "sync_ok S s A" and m: "m \<in> S" and inv: "holds (sched s) (ready (sched s))"
  shows "\<exists>s'. up sc s m = Ret s' \<and> holds (sched s') (ready (sched s')) \<and>
     (let q = abs_up m (sem_value s m, A m)
      in sem_value s' = (sem_value s)(m := fst q) \<and> sync_ok S s' (A(m := snd q))) \<and>
     (\<forall>w ws. A m = w # ws \<longrightarrow> list_empty (wait_links s') (WLink w) \<and> wakeup_flags (waits s' w) = WT_KSEM \<and>
        state (procs (sched s') (the (wait_proc (waits s w)))) = PROC_RUNNABLE) \<and>
     current (sched s') = current (sched s)"
proof (cases "A m")
  case Nil
  let ?s' = "s\<lparr>sem_value := (sem_value s)(m := sem_value s m + 1)\<rparr>"
  have "sync_ok S ?s' (A(m := []))"
    using ok Nil unfolding sync_ok_def waiter_ok_def by (auto simp: fun_upd_idem)
  then show ?thesis
    using Nil inv first_waiter [OF ok m] by (auto simp: up_def up_with_def abs_up_def)
next
  case (Cons w ws)
  note d = sync_okD(1) [OF ok m, unfolded Cons list.map]
  from sync_okD(4) [OF ok m, of w] Cons obtain p where p: "wait_queue (waits s w) = Some m"
    "wait_proc (waits s w) = Some p" "state (procs (sched s) p) = PROC_SLEEPING"
    "wait_state (procs (sched s) p) = WT_KSEM" by (auto simp: waiter_ok_def)
  from wakeup_ready [OF inv, of p] p(3) obtain t where t: "wakeup_proc sc (sched s) p = Ret t"
    "holds t (ready t)" "state (procs t p) = PROC_RUNNABLE" "current t = current (sched s)"
    "\<forall>q. q \<noteq> p \<longrightarrow> state (procs t q) = state (procs (sched s) q)"
    "\<forall>q. q \<noteq> p \<longrightarrow> same_proc (procs (sched s) q) (procs t q)" by auto
  let ?h = "list_del_init (wait_links s) (WLink w)"
  let ?s' = "s\<lparr>wait_links := ?h, waits := (waits s)(w := (waits s w)\<lparr>wakeup_flags := WT_KSEM\<rparr>), sched := t\<rparr>"
  have "\<not> list_empty (wait_links s) (WLink w)" using not_empty_in_ring [of _ _ "[]"] d by simp
  then have up: "up sc s m = Ret ?s'"
    using Cons first_waiter [OF ok m] p t(1)
    by (simp add: up_def up_with_def wakeup_wait_def wait_queue_del_def)
  have ring: "dlist ?h (QHead m) (map WLink ws)" and emp: "list_empty ?h (WLink w)"
    using list_del_init_dlist [of "wait_links s" "QHead m" "[]" "WLink w" "map WLink ws"] d by simp_all
  have other: "dlist ?h (QHead m') (map WLink (A m'))" if "m' \<in> S" "m' \<noteq> m" for m'
  proof (rule dlist_frame [OF sync_okD(1) [OF ok that(1)]])
    fix x assume "x \<in> insert (QHead m') (set (map WLink (A m')))"
    then have "x \<notin> insert (QHead m) (set (map WLink (A m)))"
      using that sync_ok_unique [OF ok that(1) m] by auto
    then show "le_next ?h x = le_next (wait_links s) x" "le_prev ?h x = le_prev (wait_links s) x"
      using list_del_init_other [of "wait_links s" "QHead m" "[]" "WLink w" "map WLink ws"] d Cons by auto
  qed
  have wok: "waiter_ok ?s' m' v" if a: "m' \<in> S" "v \<in> set (A m')" "v \<noteq> w" for m' v
  proof -
    obtain q where q: "wait_queue (waits s v) = Some m'" "wait_proc (waits s v) = Some q"
      "state (procs (sched s) q) = PROC_SLEEPING" "wait_state (procs (sched s) q) = WT_KSEM"
      using sync_okD(4) [OF ok a(1,2)] by (auto simp: waiter_ok_def)
    have "q \<noteq> p" using sync_ok_unique [OF ok a(1) m a(2), of w] Cons q(2) p(2) a(3) by auto
    then show ?thesis
      using q t(5,6) same_proc_wait [of "procs (sched s) q" "procs t q"] a(3) by (auto simp: waiter_ok_def)
  qed
  have dist: "w \<notin> set ws" using dlist_distinct [OF d] by auto
  have "sync_ok S ?s' (A(m := ws))"
    unfolding sync_ok_def
  proof (intro conjI ballI impI)
    fix m' assume m': "m' \<in> S"
    show "dlist (wait_links ?s') (QHead m') (map WLink ((A(m := ws)) m'))" using ring other m' by simp
    show "0 \<le> sem_value ?s' m'" using sync_okD(2) [OF ok m'] by simp
    show "0 < sem_value ?s' m' \<Longrightarrow> (A(m := ws)) m' = []" using sync_okD(3) [OF ok m'] Cons by auto
    show "waiter_ok ?s' m' v" if "v \<in> set ((A(m := ws)) m')" for v
    proof -
      have "v \<in> set (A m')" "v \<noteq> w"
        using that Cons dist sync_ok_unique [OF ok m' m, of v w] by (auto split: if_splits)
      then show ?thesis using wok m' by blast
    qed
  next
    fix m1 m2 v1 v2
    assume "m1 \<in> S" "m2 \<in> S" "v1 \<in> set ((A(m := ws)) m1)" "v2 \<in> set ((A(m := ws)) m2)"
      "wait_proc (waits ?s' v1) = wait_proc (waits ?s' v2)"
    then have *: "m1 \<in> S" "m2 \<in> S" "v1 \<in> set (A m1)" "v2 \<in> set (A m2)"
      "wait_proc (waits s v1) = wait_proc (waits s v2)" using Cons by (auto split: if_splits)
    then show "m1 = m2" "v1 = v2" using sync_ok_unique [OF ok] by blast+
  qed
  then show ?thesis
    using up Cons t emp p(2) by (intro exI [of _ ?s']) (simp add: abs_up_def)
qed

lemma down_spec:
  assumes ok: "sync_ok S s A" and m: "m \<in> S" and inv: "holds (sched s) (ready (sched s))"
    and run: "state (procs (sched s) (current (sched s))) = PROC_RUNNABLE"
    and w: "\<forall>m' \<in> S. w \<notin> set (A m')"
  shows "\<exists>s' b. down s m w = Ret (s', b) \<and> holds (sched s') (ready (sched s')) \<and>
     (let (q, b') = abs_down w (sem_value s m, A m)
      in b = b' \<and> sem_value s' = (sem_value s)(m := fst q) \<and> sync_ok S s' (A(m := snd q))) \<and>
     (\<not> b \<longrightarrow> state (procs (sched s') (current (sched s'))) = PROC_SLEEPING) \<and>
     current (sched s') = current (sched s)"
proof (cases "0 < sem_value s m")
  case True
  let ?s' = "s\<lparr>sem_value := (sem_value s)(m := sem_value s m - 1)\<rparr>"
  have "sync_ok S ?s' (A(m := A m))"
    using ok True unfolding sync_ok_def waiter_ok_def by auto
  then show ?thesis
    using True inv by (auto simp: down_def down_enter_def abs_down_def)
next
  case False
  let ?p = "current (sched s)"
  let ?f = "\<lambda>x. x\<lparr>state := PROC_SLEEPING, wait_state := WT_KSEM\<rparr>"
  let ?t = "upd_proc ?p ?f (sched s)"
  let ?x = "(waits s w)\<lparr>wait_proc := Some ?p, wakeup_flags := WT_INTERRUPTED, wait_queue := Some m\<rparr>"
  let ?h1 = "list_init (wait_links s) (WLink w)"
  let ?h = "list_add_before ?h1 (QHead m) (WLink w)"
  let ?s' = "s\<lparr>waits := (waits s)(w := ?x), wait_links := ?h, sched := ?t\<rparr>"
  have dn: "down s m w = Ret (?s', False)"
    using False by (simp add: down_def down_enter_def wait_current_set_def wait_init_def wait_queue_add_def
        list_empty_def list_init_def)
  have h1: "dlist ?h1 (QHead m') (map WLink (A m'))" if "m' \<in> S" for m'
    by (rule dlist_frame [OF sync_okD(1) [OF ok that]]) (use w that in \<open>auto simp: list_init_def\<close>)
  have ring: "dlist ?h (QHead m) (map WLink (A m @ [w]))"
    using list_add_before_head [OF h1 [OF m], of "WLink w"] w m by auto
  have other: "dlist ?h (QHead m') (map WLink (A m'))" if m': "m' \<in> S" "m' \<noteq> m" for m'
  proof (rule dlist_frame [OF h1 [OF m'(1)]])
    fix x assume "x \<in> insert (QHead m') (set (map WLink (A m')))"
    then have "x \<notin> insert (WLink w) (insert (QHead m) (set (map WLink (A m))))"
      using m' w sync_ok_unique [OF ok m'(1) m] by auto
    then show "le_next ?h x = le_next ?h1 x" "le_prev ?h x = le_prev ?h1 x"
      using list_add_before_other [OF h1 [OF m]] by auto
  qed
  have np: "wait_proc (waits s v) \<noteq> Some ?p" if "m' \<in> S" "v \<in> set (A m')" for m' v
    using sync_okD(4) [OF ok that] run by (auto simp: waiter_ok_def)
  have wok: "waiter_ok ?s' m' v" if a: "m' \<in> S" "v \<in> set (A m')" for m' v
    using sync_okD(4) [OF ok a] np [OF a] w a by (auto simp: waiter_ok_def)
  have "sync_ok S ?s' (A(m := A m @ [w]))"
    unfolding sync_ok_def
  proof (intro conjI ballI impI)
    fix m' assume m': "m' \<in> S"
    show "dlist (wait_links ?s') (QHead m') (map WLink ((A(m := A m @ [w])) m'))" using ring other m' by simp
    show "0 \<le> sem_value ?s' m'" using sync_okD(2) [OF ok m'] by simp
    show "0 < sem_value ?s' m' \<Longrightarrow> (A(m := A m @ [w])) m' = []" using sync_okD(3) [OF ok m'] False by auto
    show "waiter_ok ?s' m' v" if v: "v \<in> set ((A(m := A m @ [w])) m')" for v
    proof (cases "v \<in> set (A m')")
      case True
      then show ?thesis by (rule wok [OF m'])
    next
      case False
      then have "v = w" "m' = m" using v by (auto split: if_splits)
      then show ?thesis by (simp add: waiter_ok_def)
    qed
  next
    fix m1 m2 v1 v2
    assume a: "m1 \<in> S" "m2 \<in> S" "v1 \<in> set ((A(m := A m @ [w])) m1)" "v2 \<in> set ((A(m := A m @ [w])) m2)"
      "wait_proc (waits ?s' v1) = wait_proc (waits ?s' v2)"
    then have "(v1 = w \<and> m1 = m \<or> v1 \<in> set (A m1)) \<and> (v2 = w \<and> m2 = m \<or> v2 \<in> set (A m2))"
      by (auto split: if_splits)
    then show "m1 = m2" "v1 = v2"
      using a(1,2,5) np w sync_ok_unique [OF ok a(1,2), of v1 v2] by (auto split: if_splits)
  qed
  moreover have "holds ?t (ready ?t)" using block_ready [OF inv, of ?f] by simp
  ultimately show ?thesis
    using dn False by (intro exI [of _ ?s'] exI [of _ False]) (simp add: abs_down_def)
qed

end

lemma down_return_woken:
  "list_empty (wait_links s) (WLink w) \<Longrightarrow> wakeup_flags (waits s w) = WT_KSEM \<Longrightarrow> down_return s m w = Ret s"
  by (simp add: down_return_def down_resume_def wait_current_del_def wait_in_queue_def)

subsection \<open>Properties\<close>


text \<open>C28: down by the running process on a semaphore is the abstract operation: it takes a positive
  value, and otherwise puts the process to sleep at the end of the queue; it never fails an
  assertion and keeps the invariant of all semaphores and of the run queue.\<close>

theorem down_refines:
  assumes "sync_ok S s A" "m \<in> S" "rq_holds (sched s) (ready (sched s))"
    "state (procs (sched s) (current (sched s))) = PROC_RUNNABLE" "\<forall>m' \<in> S. w \<notin> set (A m')"
  shows "\<exists>s' b. down s m w = Ret (s', b) \<and> rq_holds (sched s') (ready (sched s')) \<and>
     (let (q, b') = abs_down w (sem_value s m, A m)
      in b = b' \<and> sem_value s' = (sem_value s)(m := fst q) \<and> sync_ok S s' (A(m := snd q))) \<and>
     (\<not> b \<longrightarrow> state (procs (sched s') (current (sched s'))) = PROC_SLEEPING)"
  using stride.down_spec [OF assms] by blast

text \<open>One semaphore with value 0; process 1 is the running process.\<close>

definition one_sem :: sync_state where
  "one_sem = sem_init
     \<lparr>sched = (sched_init default_sched_class boot_sched)
        \<lparr>procs := (\<lambda>_. blank_proc)(0 := blank_proc\<lparr>state := PROC_RUNNABLE\<rparr>, 1 := blank_proc\<lparr>state := PROC_RUNNABLE\<rparr>),
         current := 1\<rparr>,
      waits = \<lambda>_. \<lparr>wait_proc = None, wakeup_flags = 0, wait_queue = None\<rparr>,
      wait_links = \<lparr>le_prev = id, le_next = id\<rparr>, sem_value = \<lambda>_. 7\<rparr> 0 0"

lemma one_sem_ok: "sync_ok {0} one_sem (\<lambda>_. [])" "rq_holds (sched one_sem) (ready (sched one_sem))"
  "state (procs (sched one_sem) (current (sched one_sem))) = PROC_RUNNABLE" "sem_value one_sem 0 = 0"
proof -
  show "sync_ok {0} one_sem (\<lambda>_. [])"
    by (simp add: sync_ok_def one_sem_def sem_init_def wait_queue_init_def dlist_init)
  have "ready (sched one_sem) = {}"
    by (auto simp: ready_def one_sem_def sem_init_def wait_queue_init_def sched_init_def stride_init_def
        boot_sched_def blank_proc_def)
  then show "rq_holds (sched one_sem) (ready (sched one_sem))"
    by (simp add: rq_holds_def one_sem_def sem_init_def wait_queue_init_def sched_init_def stride_init_def
        boot_sched_def skew_heap_def)
qed (simp_all add: one_sem_def sem_init_def wait_queue_init_def)

theorem down_refines_witness:
  "\<exists>s'. down one_sem 0 5 = Ret (s', False) \<and> sync_ok {0} s' ((\<lambda>_. [])(0 := [5]))"
  using down_refines [OF one_sem_ok(1) _ one_sem_ok(2,3), of 0 5] one_sem_ok(4)
  by (auto simp: abs_down_def)


end
