(* ===== verification/Bitmap.thy ===== *)
theory Bitmap
  imports Prelude
begin

text \<open>
  The free-block bitmap of SFS, \<^verbatim>\<open>kern/fs/sfs/bitmap.c\<close>: an array of 32-bit words in which a
  set bit marks a free block. The results of the two \<open>kmalloc\<close> calls of \<open>bitmap_create\<close> are
  parameters.
\<close>

record bitmap =
  nbits :: u32
  nwords :: u32
  bmap :: "u32 list"

definition WORD_BITS :: u32 where "WORD_BITS = 32"

subsection \<open>Operations\<close>

text \<open>\<open>for (; overbits < WORD_BITS; overbits ++) map[ix] ^= (1 << overbits)\<close>.\<close>

function clear_overbits :: "u32 \<Rightarrow> nat \<Rightarrow> u32" where
  "clear_overbits w overbits =
     (if overbits < 32 then clear_overbits (w XOR push_bit overbits 1) (Suc overbits) else w)"
  by pat_completeness auto
termination
  by (relation "measure (\<lambda>(w, o'). 32 - o')") auto

declare clear_overbits.simps [simp del]

text \<open>All bits set: \<open>memset(map, 0xFF, \<dots>)\<close> makes every word \<open>-1\<close>.\<close>

definition bitmap_create :: "bool \<Rightarrow> bool \<Rightarrow> u32 \<Rightarrow> bitmap option outcome" where
  "bitmap_create kmalloc1 kmalloc2 n =
     assert_then (n \<noteq> 0 \<and> n + WORD_BITS > n)
       (if \<not> kmalloc1 then Ret None else
        let nw = ROUNDUP_DIV n WORD_BITS in
        if \<not> kmalloc2 then Ret None else
        let m = replicate (unat nw) (- 1) in
        if n \<noteq> nw * WORD_BITS then
          let ix = nw - 1; overbits = n - ix * WORD_BITS in
          assert_then (n div WORD_BITS = ix) (assert_then (overbits > 0 \<and> overbits < WORD_BITS)
            (Ret (Some \<lparr>nbits = n, nwords = nw,
                        bmap = m[unat ix := clear_overbits (m ! unat ix) (unat overbits)]\<rparr>)))
        else Ret (Some \<lparr>nbits = n, nwords = nw, bmap = m\<rparr>))"

text \<open>The inner loop of \<open>bitmap_alloc\<close>: the first set bit from \<open>offset\<close> on.\<close>

function alloc_offset :: "u32 \<Rightarrow> nat \<Rightarrow> nat option" where
  "alloc_offset w off =
     (if off < 32 then (if w AND push_bit off 1 \<noteq> 0 then Some off else alloc_offset w (Suc off))
      else None)"
  by pat_completeness auto
termination
  by (relation "measure (\<lambda>(w, off). 32 - off)") auto

declare alloc_offset.simps [simp del]

function alloc_scan :: "u32 list \<Rightarrow> nat \<Rightarrow> nat \<Rightarrow> (u32 list \<times> nat) option outcome" where
  "alloc_scan m nw ix =
     (if ix < nw then
        if m ! ix \<noteq> 0 then
          (case alloc_offset (m ! ix) 0 of
             Some off \<Rightarrow> Ret (Some (m[ix := m ! ix XOR push_bit off 1], ix * 32 + off))
           | None \<Rightarrow> Panic)
        else alloc_scan m nw (Suc ix)
      else Ret None)"
  by pat_completeness auto
termination
  by (relation "measure (\<lambda>(m, nw, ix). nw - ix)") auto

declare alloc_scan.simps [simp del]

text \<open>The result is \<open>(0, index)\<close> with the new bitmap, or \<open>-E_NO_MEM\<close>.\<close>

definition bitmap_alloc :: "bitmap \<Rightarrow> (bitmap \<times> int \<times> u32 option) outcome" where
  "bitmap_alloc b =
     bind_outcome (alloc_scan (bmap b) (unat (nwords b)) 0)
       (\<lambda>r. case r of
            None \<Rightarrow> Ret (b, - E_NO_MEM, None)
          | Some (m, i) \<Rightarrow> Ret (b\<lparr>bmap := m\<rparr>, 0, Some (of_nat i)))"

definition bitmap_translate :: "bitmap \<Rightarrow> u32 \<Rightarrow> (nat \<times> u32) outcome" where
  "bitmap_translate b i =
     assert_then (i < nbits b) (Ret (unat (i div WORD_BITS), push_bit (unat (i mod WORD_BITS)) 1))"

definition bitmap_test :: "bitmap \<Rightarrow> u32 \<Rightarrow> bool outcome" where
  "bitmap_test b i =
     bind_outcome (bitmap_translate b i) (\<lambda>(ix, mask). Ret (bmap b ! ix AND mask \<noteq> 0))"

definition bitmap_free :: "bitmap \<Rightarrow> u32 \<Rightarrow> bitmap outcome" where
  "bitmap_free b i =
     bind_outcome (bitmap_translate b i)
       (\<lambda>(ix, mask). assert_then (bmap b ! ix AND mask = 0)
          (Ret (b\<lparr>bmap := (bmap b)[ix := bmap b ! ix OR mask]\<rparr>)))"

definition bitmap_getdata :: "bitmap \<Rightarrow> u32 list \<times> u32" where
  "bitmap_getdata b = (bmap b, 4 * nwords b)"

subsection \<open>The set of free blocks\<close>

definition free_bits :: "bitmap \<Rightarrow> nat set" where
  "free_bits b = {i. i < 32 * length (bmap b) \<and> bit (bmap b ! (i div 32)) (i mod 32)}"

definition bitmap_ok :: "bitmap \<Rightarrow> bool" where
  "bitmap_ok b \<longleftrightarrow> 0 < nbits b \<and> unat (nbits b) + 32 < 2 ^ 32 \<and>
     length (bmap b) = (unat (nbits b) + 31) div 32 \<and> unat (nwords b) = length (bmap b) \<and>
     free_bits b \<subseteq> {..< unat (nbits b)}"

lemma and_push_bit_1: "(w AND push_bit n 1 \<noteq> 0) = bit w n" for w :: u32
  by (simp add: bit_iff_and_push_bit_not_eq_0)

lemma alloc_offset_spec:
  "alloc_offset w off = (if \<exists>i. off \<le> i \<and> i < 32 \<and> bit w i then Some (LEAST i. off \<le> i \<and> bit w i) else None)"
proof (induction w off rule: alloc_offset.induct)
  case (1 w off)
  show ?case
  proof (cases "off < 32 \<and> \<not> bit w off")
    case True
    have eq: "(off \<le> i \<and> bit w i) = (Suc off \<le> i \<and> bit w i)" for i
      using True by (metis Suc_leD Suc_le_eq le_neq_implies_less)
    have ex: "(\<exists>i. off \<le> i \<and> i < 32 \<and> bit w i) = (\<exists>i. Suc off \<le> i \<and> i < 32 \<and> bit w i)" using eq by blast
    show ?thesis
      using 1 True by (subst alloc_offset.simps) (auto simp: and_push_bit_1 ex eq simp del: push_bit_of_1)
  next
    case False
    then consider "off < 32" "bit w off" | "\<not> off < 32" by blast
    then show ?thesis
    proof cases
      case 1
      then have "(LEAST i. off \<le> i \<and> bit w i) = off" by (intro Least_equality) auto
      then show ?thesis using 1 by (subst alloc_offset.simps) (auto simp: and_push_bit_1 simp del: push_bit_of_1)
    next
      case 2
      then show ?thesis by (subst alloc_offset.simps) auto
    qed
  qed
qed

lemma alloc_offset_Some:
  assumes "w \<noteq> 0"
  obtains off where "alloc_offset w 0 = Some off" "off < 32" "bit w off" "\<And>i. bit w i \<Longrightarrow> off \<le> i"
proof -
  from assms obtain i where i: "bit w i" by (auto simp: bit_eq_iff)
  then have lt: "i < 32" using bit_imp_le_length [of w i] by simp
  let ?o = "LEAST i. bit w i"
  have "alloc_offset w 0 = Some ?o" using i lt by (auto simp: alloc_offset_spec)
  moreover have "bit w ?o" using i by (rule LeastI)
  moreover have "?o \<le> j" if "bit w j" for j using that by (rule Least_le)
  moreover have "?o < 32" using \<open>bit w ?o\<close> bit_imp_le_length [of w ?o] by simp
  ultimately show ?thesis using that by blast
qed

lemma free_bits_word: "m ! ix = 0 \<Longrightarrow> i div 32 = ix \<Longrightarrow> \<not> bit (m ! (i div 32)) (i mod 32)" for m :: "u32 list"
  by simp

lemma alloc_scan_spec:
  assumes "\<forall>i < 32 * ix. \<not> bit (m ! (i div 32)) (i mod 32)" "nw = length m"
  shows "alloc_scan m nw ix =
     (let F = {i. i < 32 * length m \<and> bit (m ! (i div 32)) (i mod 32)}
      in if F = {} then Ret None
         else let i = Min F in Ret (Some (m[i div 32 := m ! (i div 32) XOR push_bit (i mod 32) 1], i)))"
  using assms
proof (induction m nw ix rule: alloc_scan.induct)
  case (1 m nw ix)
  let ?P = "\<lambda>i. bit (m ! (i div 32)) (i mod 32)"
  let ?F = "{i. i < 32 * length m \<and> ?P i}"
  show ?case
  proof (cases "ix < nw")
    case False
    then have "?F = {}" using 1 by auto
    then show ?thesis using False by (subst alloc_scan.simps) simp
  next
    case True
    show ?thesis
    proof (cases "m ! ix = 0")
      case z: True
      have "\<not> ?P i" if "i < 32 * Suc ix" for i
      proof (cases "i < 32 * ix")
        case False
        then have "i div 32 = ix" using that by auto
        then show ?thesis using z by simp
      qed (use 1 in blast)
      then show ?thesis using 1 True z by (subst alloc_scan.simps) simp
    next
      case nz: False
      obtain off where off: "alloc_offset (m ! ix) 0 = Some off" "off < 32" "bit (m ! ix) off"
        "\<And>i. bit (m ! ix) i \<Longrightarrow> off \<le> i" using alloc_offset_Some [OF nz] by blast
      let ?i = "ix * 32 + off"
      have dm: "?i div 32 = ix" "?i mod 32 = off" using off(2) by auto
      have mem: "?i \<in> ?F" using True off 1 dm by auto
      have "?i \<le> j" if "j \<in> ?F" for j
      proof (rule ccontr)
        assume "\<not> ?i \<le> j"
        moreover have "\<not> j < 32 * ix" using that 1(2) by auto
        ultimately have j: "32 * ix \<le> j" "j < 32 * ix + off" by auto
        then have "j div 32 = ix" using off(2) by auto
        moreover from this have "j mod 32 < off" using j div_mult_mod_eq [of j 32] by linarith
        ultimately have "j div 32 = ix" "j mod 32 < off" by simp_all
        then show False using that off(4) by fastforce
      qed
      then have "Min ?F = ?i" using mem by (intro Min_eqI) auto
      then show ?thesis using True nz off(1) mem dm by (subst alloc_scan.simps) (auto simp: Let_def)
    qed
  qed
qed

lemma finite_free_bits [simp]: "finite (free_bits b)"
  by (simp add: free_bits_def)

lemma free_bits_update:
  assumes "j < length (bmap b)"
  shows "free_bits (b\<lparr>bmap := (bmap b)[j := w]\<rparr>) =
     {i \<in> free_bits b. i div 32 \<noteq> j} \<union> {i. i div 32 = j \<and> bit w (i mod 32)}"
proof -
  have "i < 32 * length (bmap b)" if "i div 32 = j" for i using assms that by auto
  then show ?thesis using assms by (auto simp: free_bits_def nth_list_update split: if_splits)
qed

lemma same_bit: "j div 32 = i div 32 \<Longrightarrow> j mod 32 = i mod 32 \<Longrightarrow> j = i" for i j :: nat
  by (metis div_mult_mod_eq)

lemma free_bits_flip:
  assumes "i \<in> free_bits b"
  shows "free_bits (b\<lparr>bmap := (bmap b)[i div 32 := bmap b ! (i div 32) XOR push_bit (i mod 32) 1]\<rparr>) = free_bits b - {i}"
proof -
  have ix: "i div 32 < length (bmap b)" "bit (bmap b ! (i div 32)) (i mod 32)" using assms by (auto simp: free_bits_def)
  have fl: "bit (bmap b ! (i div 32) XOR push_bit (i mod 32) 1) (j mod 32) =
      (bit (bmap b ! (i div 32)) (j mod 32) \<noteq> (j mod 32 = i mod 32))" for j
    by (auto simp: bit_xor_iff bit_exp_iff)
  have "free_bits (b\<lparr>bmap := (bmap b)[i div 32 := bmap b ! (i div 32) XOR push_bit (i mod 32) 1]\<rparr>) =
      {j \<in> free_bits b. j div 32 \<noteq> i div 32} \<union>
      {j. j div 32 = i div 32 \<and> (bit (bmap b ! (i div 32)) (j mod 32) \<noteq> (j mod 32 = i mod 32))}"
    unfolding free_bits_update [OF ix(1)] fl ..
  also have "\<dots> = free_bits b - {i}"
  proof -
    have "j < 32 * length (bmap b)" if "j div 32 = i div 32" for j using that ix(1) by auto
    then show ?thesis using ix(2) same_bit [of _ i] by (auto simp: free_bits_def)
  qed
  finally show ?thesis .
qed

lemma bitmap_alloc_spec:
  assumes ok: "bitmap_ok b"
  shows "\<exists>b' r i. bitmap_alloc b = Ret (b', r, i) \<and> bitmap_ok b' \<and> nbits b' = nbits b \<and>
     (if free_bits b = {} then r = - E_NO_MEM \<and> i = None \<and> b' = b
      else r = 0 \<and> i = Some (of_nat (Min (free_bits b))) \<and> Min (free_bits b) < unat (nbits b) \<and>
           free_bits b' = free_bits b - {Min (free_bits b)})"
proof -
  let ?F = "free_bits b" and ?i = "Min (free_bits b)"
  have scan: "alloc_scan (bmap b) (unat (nwords b)) 0 =
      (if ?F = {} then Ret None
       else Ret (Some ((bmap b)[?i div 32 := bmap b ! (?i div 32) XOR push_bit (?i mod 32) 1], ?i)))"
    using ok by (subst alloc_scan_spec) (auto simp: bitmap_ok_def free_bits_def Let_def)
  show ?thesis
  proof (cases "?F = {}")
    case True
    then show ?thesis using scan ok by (simp add: bitmap_alloc_def)
  next
    case False
    then have i: "?i \<in> ?F" by (intro Min_in) auto
    then have "free_bits (b\<lparr>bmap := (bmap b)[?i div 32 := bmap b ! (?i div 32) XOR push_bit (?i mod 32) 1]\<rparr>) = ?F - {?i}"
      by (rule free_bits_flip)
    moreover from this have "bitmap_ok (b\<lparr>bmap := (bmap b)[?i div 32 := bmap b ! (?i div 32) XOR push_bit (?i mod 32) 1]\<rparr>)"
      using ok by (auto simp: bitmap_ok_def simp del: push_bit_of_1)
    moreover have "?i < unat (nbits b)" using i ok by (auto simp: bitmap_ok_def)
    ultimately show ?thesis
      using False scan
      by (intro exI [of _ "b\<lparr>bmap := (bmap b)[?i div 32 := bmap b ! (?i div 32) XOR push_bit (?i mod 32) 1]\<rparr>"])
        (simp add: bitmap_alloc_def del: push_bit_of_1)
  qed
qed

lemma bitmap_index:
  assumes "bitmap_ok b" "i < nbits b"
  shows "unat (i div WORD_BITS) = unat i div 32" "unat (i mod WORD_BITS) = unat i mod 32"
    "unat i div 32 < length (bmap b)"
  using assms by (auto simp: bitmap_ok_def WORD_BITS_def unat_div unat_mod word_less_nat_alt)

lemma bitmap_test_spec:
  "bitmap_ok b \<Longrightarrow> i < nbits b \<Longrightarrow> bitmap_test b i = Ret (unat i \<in> free_bits b)"
  using bitmap_index [of b i]
  by (auto simp: bitmap_test_def bitmap_translate_def and_push_bit_1 free_bits_def simp del: push_bit_of_1)

lemma bitmap_free_spec:
  assumes ok: "bitmap_ok b" and i: "i < nbits b" and used: "unat i \<notin> free_bits b"
  shows "\<exists>b'. bitmap_free b i = Ret b' \<and> bitmap_ok b' \<and> nbits b' = nbits b \<and>
     free_bits b' = insert (unat i) (free_bits b)"
proof -
  let ?i = "unat i"
  note ix = bitmap_index [OF ok i]
  let ?b = "b\<lparr>bmap := (bmap b)[?i div 32 := bmap b ! (?i div 32) OR push_bit (?i mod 32) 1]\<rparr>"
  have z: "\<not> bit (bmap b ! (?i div 32)) (?i mod 32)"
    using used ix(3) by (auto simp: free_bits_def)
  then have fr: "bitmap_free b i = Ret ?b"
    using i and_push_bit_1 [of "bmap b ! (?i div 32)" "?i mod 32"]
    by (simp add: bitmap_free_def bitmap_translate_def ix del: push_bit_of_1)
  have or: "bit (bmap b ! (?i div 32) OR push_bit (?i mod 32) 1) (j mod 32) =
      (bit (bmap b ! (?i div 32)) (j mod 32) \<or> j mod 32 = ?i mod 32)" for j
    by (auto simp: bit_or_iff bit_exp_iff)
  have "free_bits ?b = {j \<in> free_bits b. j div 32 \<noteq> ?i div 32} \<union>
      {j. j div 32 = ?i div 32 \<and> (bit (bmap b ! (?i div 32)) (j mod 32) \<or> j mod 32 = ?i mod 32)}"
    unfolding free_bits_update [OF ix(3)] or ..
  also have "\<dots> = insert ?i (free_bits b)"
  proof -
    have "j < 32 * length (bmap b)" if "j div 32 = ?i div 32" for j using that ix(3) by auto
    then show ?thesis using same_bit [of _ ?i] by (auto simp: free_bits_def)
  qed
  finally have "free_bits ?b = insert ?i (free_bits b)" .
  moreover from this have "bitmap_ok ?b" using ok i by (auto simp: bitmap_ok_def word_less_nat_alt)
  ultimately show ?thesis using fr by (intro exI [of _ ?b]) simp
qed

lemma clear_overbits_bit: "bit (clear_overbits w off) j = (bit w j \<noteq> (off \<le> j \<and> j < 32))"
proof (induction w off rule: clear_overbits.induct)
  case (1 w off)
  show ?case
  proof (cases "off < 32")
    case True
    have "bit (w XOR push_bit off 1) j = (bit w j \<noteq> (j = off))" using True by (auto simp: bit_xor_iff bit_exp_iff)
    then show ?thesis using 1 True by (subst clear_overbits.simps) auto
  qed (subst clear_overbits.simps, auto)
qed

lemma unat_times_WORD_BITS: "unat x * 32 < 2 ^ 32 \<Longrightarrow> unat (x * WORD_BITS) = unat x * 32"
  by (simp add: WORD_BITS_def) (subst unat_mult_lem [THEN iffD1], auto)

lemma free_bits_last:
  assumes "bmap b = (replicate w (- 1))[q := clear_overbits (replicate w (- 1) ! q) r]" "w = Suc q" "r < 32"
  shows "free_bits b = {..< 32 * q + r}"
proof (rule set_eqI)
  fix x
  have ones: "bit (- 1 :: u32) j = (j < 32)" for j by (simp add: bit_minus_1_iff)
  have w: "x div 32 < w" if "x < 32 * w" using that by auto
  have "x \<in> free_bits b \<longleftrightarrow> x < 32 * w \<and> (x div 32 = q \<longrightarrow> x mod 32 < r)"
    using assms(1,2) w by (auto simp: free_bits_def nth_list_update clear_overbits_bit ones simp del: replicate_Suc)
  also have "\<dots> \<longleftrightarrow> x < 32 * q + r"
  proof (cases "x div 32 = q")
    case True
    have "x = 32 * q + x mod 32" unfolding True [symmetric] by simp
    moreover have "x mod 32 < 32" by simp
    ultimately show ?thesis using True assms(2,3) by linarith
  next
    case False
    then show ?thesis using assms(2,3) by auto
  qed
  finally show "x \<in> free_bits b \<longleftrightarrow> x \<in> {..< 32 * q + r}" by simp
qed

lemma bitmap_create_spec:
  assumes n: "0 < n" "unat n + 32 < 2 ^ 32"
  shows "\<exists>b. bitmap_create True True n = Ret (Some b) \<and> bitmap_ok b \<and> nbits b = n \<and> free_bits b = {..< unat n}"
proof -
  let ?n = "unat n" and ?nw = "ROUNDUP_DIV n WORD_BITS"
  have add: "unat (n + 31) = ?n + 31" using n(2) by (subst unat_add_lem [THEN iffD1]) auto
  have nw: "unat ?nw = (?n + 31) div 32"
  proof -
    have e: "n + WORD_BITS - 1 = n + 31" by (simp add: WORD_BITS_def)
    show ?thesis unfolding ROUNDUP_DIV_def e using add by (simp add: unat_div WORD_BITS_def)
  qed
  have n0: "0 < ?n" using n(1) by (rule unat_pos)
  have gt: "n + WORD_BITS > n"
    using n(2) by (simp add: WORD_BITS_def word_less_nat_alt) (subst unat_add_lem [THEN iffD1], auto)
  have le: "unat ?nw * 32 < 2 ^ 32" using nw n(2) by auto
  have ones: "bit (- 1 :: u32) j = (j < 32)" for j by (simp add: bit_minus_1_iff)
  have mul: "unat (?nw * WORD_BITS) = unat ?nw * 32"
    using le by (rule unat_times_WORD_BITS)
  show ?thesis
  proof (cases "?n mod 32 = 0")
    case True
    then have nw': "unat ?nw = ?n div 32" using nw by auto
    then have eq: "n = ?nw * WORD_BITS" using mul True by (intro word_unat_eq_iff [THEN iffD2]) auto
    let ?b = "\<lparr>nbits = n, nwords = ?nw, bmap = replicate (unat ?nw) (- 1)\<rparr> :: bitmap"
    have "bitmap_create True True n = Ret (Some ?b)"
      using n(1) gt eq by (auto simp: bitmap_create_def Let_def)
    moreover have "free_bits ?b = {..< ?n}"
    proof -
      from True obtain k where k: "?n = 32 * k" by (metis mod_0_imp_dvd dvdE)
      have "x div 32 < k" if "x < 32 * k" for x using that by auto
      then show ?thesis using nw' k by (auto simp: free_bits_def ones)
    qed
    ultimately show ?thesis using n nw' True by (intro exI [of _ ?b]) (auto simp: bitmap_ok_def nw)
  next
    case False
    have "?n + 31 = (?n mod 32 - 1) + Suc (?n div 32) * 32" using False div_mult_mod_eq [of ?n 32] by simp
    moreover have "((?n mod 32 - 1) + Suc (?n div 32) * 32) div 32 = Suc (?n div 32)"
      by (subst div_mult_self1) (simp_all add: less_imp_diff_less)
    ultimately have nw': "unat ?nw = Suc (?n div 32)" unfolding nw by metis
    then have neq: "n \<noteq> ?nw * WORD_BITS" using mul False by (metis mod_mult_self2_is_0)
    have ix: "unat (?nw - 1) = ?n div 32" using nw' unat_minus_one [of ?nw] by (cases "?nw = 0") auto
    have "unat ((?nw - 1) * WORD_BITS) = ?n div 32 * 32"
      using unat_times_WORD_BITS [of "?nw - 1"] ix n(2) div_times_less_eq_dividend [of ?n 32] by linarith
    then have ob: "unat (n - (?nw - 1) * WORD_BITS) = ?n mod 32"
      by (subst unat_sub) (auto simp: word_le_nat_alt minus_div_mult_eq_mod)
    let ?m = "replicate (unat ?nw) (- 1 :: u32)"
    let ?b = "\<lparr>nbits = n, nwords = ?nw,
      bmap = ?m[?n div 32 := clear_overbits (?m ! (?n div 32)) (?n mod 32)]\<rparr> :: bitmap"
    have "n div WORD_BITS = ?nw - 1"
      using ix by (intro word_unat_eq_iff [THEN iffD2]) (simp add: unat_div WORD_BITS_def)
    moreover have "n - (?nw - 1) * WORD_BITS > 0" "n - (?nw - 1) * WORD_BITS < WORD_BITS"
      using ob False by (simp_all add: word_less_nat_alt WORD_BITS_def)
    ultimately have "bitmap_create True True n = Ret (Some ?b)"
      using n(1) gt neq ix ob by (auto simp: bitmap_create_def Let_def)
    moreover have "free_bits ?b = {..< ?n}"
      using free_bits_last [of ?b "unat ?nw" "?n div 32" "?n mod 32"] nw' by simp
    ultimately show ?thesis using n nw nw' by (intro exI [of _ ?b]) (auto simp: bitmap_ok_def)
  qed
qed

subsection \<open>The contract of a block map\<close>

text \<open>
  What the file system relies on: a map of numbered blocks with a set of free ones, from which
  a block is taken and to which a block in use is given back.
\<close>

locale block_map =
  fixes ok :: "'b \<Rightarrow> bool" and size_of :: "'b \<Rightarrow> nat" and free_of :: "'b \<Rightarrow> nat set"
    and take_one :: "'b \<Rightarrow> ('b \<times> int \<times> u32 option) outcome"
    and give :: "'b \<Rightarrow> u32 \<Rightarrow> 'b outcome" and test :: "'b \<Rightarrow> u32 \<Rightarrow> bool outcome"
  assumes take_some: "ok b \<Longrightarrow> free_of b \<noteq> {} \<Longrightarrow>
      \<exists>b' i. take_one b = Ret (b', 0, Some i) \<and> ok b' \<and> size_of b' = size_of b \<and> unat i \<in> free_of b \<and>
        unat i < size_of b \<and> free_of b' = free_of b - {unat i}"
    and take_none: "ok b \<Longrightarrow> free_of b = {} \<Longrightarrow> take_one b = Ret (b, - E_NO_MEM, None)"
    and give_back: "ok b \<Longrightarrow> unat i < size_of b \<Longrightarrow> unat i \<notin> free_of b \<Longrightarrow>
      \<exists>b'. give b i = Ret b' \<and> ok b' \<and> size_of b' = size_of b \<and> free_of b' = insert (unat i) (free_of b)"
    and test_free: "ok b \<Longrightarrow> unat i < size_of b \<Longrightarrow> test b i = Ret (unat i \<in> free_of b)"
begin

lemma take_give:
  assumes "ok b" "free_of b \<noteq> {}"
  shows "\<exists>b1 i b2. take_one b = Ret (b1, 0, Some i) \<and> test b1 i = Ret False \<and> give b1 i = Ret b2 \<and>
     ok b2 \<and> free_of b2 = free_of b"
proof -
  from take_some [OF assms] obtain b1 i where 1: "take_one b = Ret (b1, 0, Some i)" "ok b1"
    "size_of b1 = size_of b" "unat i \<in> free_of b" "unat i < size_of b" "free_of b1 = free_of b - {unat i}" by blast
  from give_back [OF 1(2), of i] 1 obtain b2 where "give b1 i = Ret b2" "ok b2"
    "free_of b2 = insert (unat i) (free_of b1)" by auto
  moreover have "test b1 i = Ret False" using test_free [OF 1(2), of i] 1 by simp
  ultimately show ?thesis using 1 by (auto simp: insert_absorb)
qed

end

interpretation bitmap: block_map bitmap_ok "\<lambda>b. unat (nbits b)" free_bits bitmap_alloc bitmap_free bitmap_test
proof
  show "\<exists>b' i. bitmap_alloc b = Ret (b', 0, Some i) \<and> bitmap_ok b' \<and> unat (nbits b') = unat (nbits b) \<and>
      unat i \<in> free_bits b \<and> unat i < unat (nbits b) \<and> free_bits b' = free_bits b - {unat i}"
    if "bitmap_ok b" "free_bits b \<noteq> {}" for b
  proof -
    from bitmap_alloc_spec [OF that(1)] that(2) obtain b' where
      b': "bitmap_alloc b = Ret (b', 0, Some (of_nat (Min (free_bits b))))" "bitmap_ok b'" "nbits b' = nbits b"
      "Min (free_bits b) < unat (nbits b)" "free_bits b' = free_bits b - {Min (free_bits b)}" by auto
    have "unat (of_nat (Min (free_bits b)) :: u32) = Min (free_bits b)"
      using b'(4) unat_u32_less [of "nbits b"] by (intro unat_of_nat_u32) linarith
    moreover have "Min (free_bits b) \<in> free_bits b" using that(2) by (intro Min_in) auto
    ultimately show ?thesis using b' by auto
  qed
  show "bitmap_alloc b = Ret (b, - E_NO_MEM, None)" if "bitmap_ok b" "free_bits b = {}" for b
    using bitmap_alloc_spec [OF that(1)] that(2) by auto
  show "\<exists>b'. bitmap_free b i = Ret b' \<and> bitmap_ok b' \<and> unat (nbits b') = unat (nbits b) \<and>
      free_bits b' = insert (unat i) (free_bits b)"
    if "bitmap_ok b" "unat i < unat (nbits b)" "unat i \<notin> free_bits b" for b i
    using bitmap_free_spec [of b i] that by (auto simp: word_less_nat_alt)
  show "bitmap_test b i = Ret (unat i \<in> free_bits b)" if "bitmap_ok b" "unat i < unat (nbits b)" for b i
    using bitmap_test_spec [of b i] that by (simp add: word_less_nat_alt)
qed

subsection \<open>Properties\<close>

text \<open>On a well-formed bitmap bitmap_alloc returns the least free block and takes exactly it, or reports -E_NO_MEM when no block is free; its assert(0) is never reached.\<close>

theorem bitmap_alloc_least:
  assumes "bitmap_ok b"
  shows "\<exists>b' r i. bitmap_alloc b = Ret (b', r, i) \<and> bitmap_ok b' \<and> nbits b' = nbits b \<and>
     (if free_bits b = {} then r = - E_NO_MEM \<and> i = None \<and> b' = b
      else r = 0 \<and> i = Some (of_nat (Min (free_bits b))) \<and> Min (free_bits b) < unat (nbits b) \<and>
           free_bits b' = free_bits b - {Min (free_bits b)})"
  using assms by (rule bitmap_alloc_spec)

theorem bitmap_alloc_least_witness:
  "\<exists>b b'. bitmap_create True True 40 = Ret (Some b) \<and> bitmap_alloc b = Ret (b', 0, Some 0) \<and>
     free_bits b' = {1 ..< 40}"
proof -
  from bitmap_create_spec [of 40] obtain b where b: "bitmap_create True True 40 = Ret (Some b)" "bitmap_ok b"
    "free_bits b = {..< 40}" by auto
  have "Min {..< 40 :: nat} = 0" by (rule Min_eqI) auto
  moreover have "{..< 40 :: nat} \<noteq> {}" by (simp add: lessThan_empty_iff)
  moreover have "{..< 40 :: nat} - {0} = {1 ..< 40}" by auto
  ultimately show ?thesis using bitmap_alloc_least [OF b(2)] b(1,3) by auto
qed

text \<open>bitmap_create asserts its way through for every size that leaves room for the rounding, and
  makes exactly the blocks below nbits free: the padding bits of the last word are in use.\<close>

theorem bitmap_create_free:
  assumes "0 < n" "unat n + 32 < 2 ^ 32"
  shows "\<exists>b. bitmap_create True True n = Ret (Some b) \<and> bitmap_ok b \<and> nbits b = n \<and> free_bits b = {..< unat n}"
  using assms by (rule bitmap_create_spec)

theorem bitmap_create_free_witness:
  "\<exists>b. bitmap_create True True 33 = Ret (Some b) \<and> free_bits b = {..< 33}"
  using bitmap_create_free [of 33] by auto

text \<open>C29: a block taken with bitmap_alloc tests as in use, and giving it back with bitmap_free
  succeeds and restores the set of free blocks.\<close>

theorem bitmap_alloc_free:
  assumes "bitmap_ok b" "free_bits b \<noteq> {}"
  shows "\<exists>b1 i b2. bitmap_alloc b = Ret (b1, 0, Some i) \<and> bitmap_test b1 i = Ret False \<and>
     bitmap_free b1 i = Ret b2 \<and> bitmap_ok b2 \<and> free_bits b2 = free_bits b"
  using bitmap.take_give [OF assms] .

theorem bitmap_alloc_free_witness:
  "\<exists>b b1 i b2. bitmap_create True True 40 = Ret (Some b) \<and> bitmap_alloc b = Ret (b1, 0, Some i) \<and>
     bitmap_free b1 i = Ret b2 \<and> free_bits b2 = {..< 40}"
proof -
  from bitmap_create_spec [of 40] obtain b where b: "bitmap_create True True 40 = Ret (Some b)" "bitmap_ok b"
    "free_bits b = {..< 40}" by auto
  moreover have "free_bits b \<noteq> {}" using b(3) by (simp add: lessThan_empty_iff)
  ultimately show ?thesis using bitmap_alloc_free [OF b(2)] by metis
qed

end
