(* ===== verification/Vma.thy ===== *)
theory Vma
  imports DList CStrings
begin

text \<open>
  The virtual memory areas of \<^verbatim>\<open>kern/mm/vmm.c\<close>: the sorted ring of \<open>vma_struct\<close> of an address
  space, lookup with its one-entry cache, insertion, and the checks of user pointers built on
  them. \<open>VHead m\<close> is the \<open>mmap_list\<close> head of address space \<open>m\<close>, \<open>VLink v\<close> the \<open>list_link\<close> of area
  \<open>v\<close>. What \<open>kmalloc\<close> returned is a parameter of the routines that call it. Page faults and
  address-space copies, which also touch page tables, are in the theory \<^verbatim>\<open>Vmm\<close>.
\<close>

datatype vma_node = VHead nat | VLink nat

record vma_struct =
  vm_mm :: "nat option"
  vm_start :: u32
  vm_end :: u32
  vm_flags :: u32

record mm_struct =
  mmap_cache :: "nat option"
  pgdir :: "nat option"
  map_count :: int
  sm_priv :: "nat option"
  mm_count :: int
  locked_by :: int

record vm_state =
  vmas :: "nat \<Rightarrow> vma_struct"
  mms :: "nat \<Rightarrow> mm_struct"
  vma_links :: "vma_node links"

definition VM_READ :: u32 where "VM_READ = 1"
definition VM_WRITE :: u32 where "VM_WRITE = 2"
definition VM_EXEC :: u32 where "VM_EXEC = 4"
definition VM_STACK :: u32 where "VM_STACK = 8"

definition PGSIZE :: u32 where "PGSIZE = 4096"
definition USERTOP :: u32 where "USERTOP = 0xB0000000"
definition USERBASE :: u32 where "USERBASE = 0x00200000"
definition KERNBASE :: u32 where "KERNBASE = 0xC0000000"
definition KERNTOP :: u32 where "KERNTOP = KERNBASE + 0x38000000"

definition USER_ACCESS :: "u32 \<Rightarrow> u32 \<Rightarrow> bool" where
  "USER_ACCESS start end' \<longleftrightarrow> USERBASE \<le> start \<and> start < end' \<and> end' \<le> USERTOP"

definition KERN_ACCESS :: "u32 \<Rightarrow> u32 \<Rightarrow> bool" where
  "KERN_ACCESS start end' \<longleftrightarrow> KERNBASE \<le> start \<and> start < end' \<and> end' \<le> KERNTOP"

abbreviation upd_mm :: "nat \<Rightarrow> (mm_struct \<Rightarrow> mm_struct) \<Rightarrow> vm_state \<Rightarrow> vm_state" where
  "upd_mm m f s \<equiv> s\<lparr>mms := (mms s)(m := f (mms s m))\<rparr>"

abbreviation upd_vma :: "nat \<Rightarrow> (vma_struct \<Rightarrow> vma_struct) \<Rightarrow> vm_state \<Rightarrow> vm_state" where
  "upd_vma v f s \<equiv> s\<lparr>vmas := (vmas s)(v := f (vmas s v))\<rparr>"

subsection \<open>Operations\<close>

text \<open>
  \<open>swap_priv\<close> is the private data that \<open>swap_init_mm\<close> stores when swapping is on (the list of
  the FIFO manager), and \<open>None\<close> otherwise.
\<close>

definition mm_create :: "nat option \<Rightarrow> nat option \<Rightarrow> vm_state \<Rightarrow> vm_state \<times> nat option" where
  "mm_create kmalloc swap_priv s =
     (case kmalloc of
        None \<Rightarrow> (s, None)
      | Some m \<Rightarrow>
          let s1 = s\<lparr>vma_links := list_init (vma_links s) (VHead m)\<rparr>
          in (upd_mm m (\<lambda>x. x\<lparr>mmap_cache := None, pgdir := None, map_count := 0,
                sm_priv := swap_priv, mm_count := 0\<rparr>) s1, Some m))"

definition vma_create :: "nat option \<Rightarrow> vm_state \<Rightarrow> u32 \<Rightarrow> u32 \<Rightarrow> u32 \<Rightarrow> vm_state \<times> nat option" where
  "vma_create kmalloc s start end' fl =
     (case kmalloc of
        None \<Rightarrow> (s, None)
      | Some v \<Rightarrow> (upd_vma v (\<lambda>x. x\<lparr>vm_start := start, vm_end := end', vm_flags := fl\<rparr>) s, Some v))"

definition in_vma :: "vma_struct \<Rightarrow> u32 \<Rightarrow> bool" where
  "in_vma v addr \<longleftrightarrow> vm_start v \<le> addr \<and> addr < vm_end v"

text \<open>The scan of \<open>find_vma\<close> ends at the area, or at the head when there is none.\<close>

definition scan_vma :: "vm_state \<Rightarrow> nat \<Rightarrow> u32 \<Rightarrow> nat option outcome" where
  "scan_vma s m addr =
     bind_outcome
       (of_option (list_scan (vma_links s) (VHead m)
          (\<lambda>le. case le of VLink v \<Rightarrow> in_vma (vmas s v) addr | VHead _ \<Rightarrow> False) (VHead m)))
       (\<lambda>le. Ret (case le of VLink v \<Rightarrow> Some v | VHead _ \<Rightarrow> None))"

definition find_vma :: "vm_state \<Rightarrow> nat option \<Rightarrow> u32 \<Rightarrow> (vm_state \<times> nat option) outcome" where
  "find_vma s mm addr =
     (case mm of
        None \<Rightarrow> Ret (s, None)
      | Some m \<Rightarrow>
          bind_outcome
            (case mmap_cache (mms s m) of
               Some v \<Rightarrow> if in_vma (vmas s v) addr then Ret (Some v) else scan_vma s m addr
             | None \<Rightarrow> scan_vma s m addr)
            (\<lambda>r. Ret (case r of None \<Rightarrow> s | Some v \<Rightarrow> upd_mm m (mmap_cache_update (\<lambda>_. Some v)) s, r)))"

definition check_vma_overlap :: "vma_struct \<Rightarrow> vma_struct \<Rightarrow> unit outcome" where
  "check_vma_overlap p n =
     assert_then (vm_start p < vm_end p) (assert_then (vm_end p \<le> vm_start n)
       (assert_then (vm_start n < vm_end n) (Ret ())))"

text \<open>The loop of \<open>insert_vma_struct\<close>: it gives \<open>le_prev\<close>.\<close>

partial_function (option) insert_scan ::
  "vm_state \<Rightarrow> vma_node \<Rightarrow> nat \<Rightarrow> vma_node \<Rightarrow> vma_node \<Rightarrow> vma_node option" where
  "insert_scan s l v prv le =
     (let le' = list_next (vma_links s) le in
      if le' = l then Some prv else
      case le' of
        VHead _ \<Rightarrow> None
      | VLink u \<Rightarrow>
          if vm_start (vmas s u) > vm_start (vmas s v) then Some prv
          else insert_scan s l v le' le')"

definition insert_vma_struct :: "vm_state \<Rightarrow> nat \<Rightarrow> nat \<Rightarrow> vm_state outcome" where
  "insert_vma_struct s m v =
     assert_then (vm_start (vmas s v) < vm_end (vmas s v))
       (bind_outcome (of_option (insert_scan s (VHead m) v (VHead m) (VHead m)))
         (\<lambda>prv. let nxt = list_next (vma_links s) prv in
            bind_outcome (case prv of VLink u \<Rightarrow> check_vma_overlap (vmas s u) (vmas s v) | VHead _ \<Rightarrow> Ret ())
              (\<lambda>_. bind_outcome (case nxt of VLink u \<Rightarrow> check_vma_overlap (vmas s v) (vmas s u) | VHead _ \<Rightarrow> Ret ())
                (\<lambda>_. let s1 = upd_vma v (vm_mm_update (\<lambda>_. Some m)) s;
                         s2 = s1\<lparr>vma_links := list_add_after (vma_links s1) prv (VLink v)\<rparr>
                     in Ret (upd_mm m (map_count_update (\<lambda>n. n + 1)) s2)))))"

text \<open>The loop of \<open>mm_destroy\<close>; it gives the links and the areas that were freed.\<close>

partial_function (option) destroy_vmas ::
  "vma_node \<Rightarrow> vma_node links \<Rightarrow> nat list \<Rightarrow> (vma_node links \<times> nat list) option" where
  "destroy_vmas l h freed =
     (let le = list_next h l in
      if le = l then Some (h, freed) else
      case le of VHead _ \<Rightarrow> None | VLink v \<Rightarrow> destroy_vmas l (list_del h le) (freed @ [v]))"

text \<open>The second component lists the areas given to \<open>kfree\<close>; the address space itself is freed too.\<close>

definition mm_destroy :: "vm_state \<Rightarrow> nat \<Rightarrow> (vm_state \<times> nat list) outcome" where
  "mm_destroy s m =
     assert_then (mm_count (mms s m) = 0)
       (bind_outcome (of_option (destroy_vmas (VHead m) (vma_links s) []))
         (\<lambda>(h, freed). Ret (s\<lparr>vma_links := h\<rparr>, freed)))"

text \<open>\<open>mm_map\<close> returns the error code and the area it made.\<close>

definition mm_map :: "nat option \<Rightarrow> vm_state \<Rightarrow> nat \<Rightarrow> u32 \<Rightarrow> u32 \<Rightarrow> u32 \<Rightarrow> (vm_state \<times> int \<times> nat option) outcome" where
  "mm_map kmalloc s m addr len fl =
     (let start = ROUNDDOWN addr PGSIZE; end' = ROUNDUP (addr + len) PGSIZE in
      if \<not> USER_ACCESS start end' then Ret (s, - E_INVAL, None) else
      bind_outcome (find_vma s (Some m) start)
        (\<lambda>(s1, r).
           if (case r of Some v \<Rightarrow> end' > vm_start (vmas s1 v) | None \<Rightarrow> False) then Ret (s1, - E_INVAL, None)
           else
             case vma_create kmalloc s1 start end' fl of
               (s2, None) \<Rightarrow> Ret (s2, - E_NO_MEM, None)
             | (s2, Some v) \<Rightarrow> bind_outcome (insert_vma_struct s2 m v) (\<lambda>s3. Ret (s3, 0, Some v))))"

text \<open>The loop of \<open>user_mem_check\<close>.\<close>

partial_function (option) check_range ::
  "vm_state \<Rightarrow> nat \<Rightarrow> u32 \<Rightarrow> u32 \<Rightarrow> bool \<Rightarrow> (vm_state \<times> bool) outcome option" where
  "check_range s m start end' wr =
     (if \<not> start < end' then Some (Ret (s, True)) else
      case find_vma s (Some m) start of
        Panic \<Rightarrow> Some Panic
      | Ret (s1, None) \<Rightarrow> Some (Ret (s1, False))
      | Ret (s1, Some v) \<Rightarrow>
          let x = vmas s1 v in
          if start < vm_start x then Some (Ret (s1, False))
          else if vm_flags x AND (if wr then VM_WRITE else VM_READ) = 0 then Some (Ret (s1, False))
          else if wr \<and> vm_flags x AND VM_STACK \<noteq> 0 \<and> start < vm_start x + PGSIZE then Some (Ret (s1, False))
          else check_range s1 m (vm_end x) end' wr)"

definition user_mem_check :: "vm_state \<Rightarrow> nat option \<Rightarrow> u32 \<Rightarrow> u32 \<Rightarrow> bool \<Rightarrow> (vm_state \<times> bool) outcome" where
  "user_mem_check s mm addr len wr =
     (case mm of
        Some m \<Rightarrow>
          if \<not> USER_ACCESS addr (addr + len) then Ret (s, False)
          else (case check_range s m addr (addr + len) wr of None \<Rightarrow> Panic | Some r \<Rightarrow> r)
      | None \<Rightarrow> Ret (s, KERN_ACCESS addr (addr + len)))"

definition copy_from_user :: "vm_state \<Rightarrow> mem \<Rightarrow> nat option \<Rightarrow> nat \<Rightarrow> u32 \<Rightarrow> u32 \<Rightarrow> bool \<Rightarrow> (vm_state \<times> mem \<times> bool) outcome" where
  "copy_from_user s b mm dst src len writable =
     bind_outcome (user_mem_check s mm src len writable)
       (\<lambda>(s1, ok). if \<not> ok then Ret (s1, b, False) else Ret (s1, memcpy b dst (unat src) (unat len), True))"

definition copy_to_user :: "vm_state \<Rightarrow> mem \<Rightarrow> nat option \<Rightarrow> u32 \<Rightarrow> nat \<Rightarrow> u32 \<Rightarrow> (vm_state \<times> mem \<times> bool) outcome" where
  "copy_to_user s b mm dst src len =
     bind_outcome (user_mem_check s mm dst len True)
       (\<lambda>(s1, ok). if \<not> ok then Ret (s1, b, False) else Ret (s1, memcpy b (unat dst) src (unat len), True))"

text \<open>The loop of \<open>copy_string\<close>.\<close>

partial_function (option) copy_string_loop ::
  "vm_state \<Rightarrow> mem \<Rightarrow> nat option \<Rightarrow> nat \<Rightarrow> u32 \<Rightarrow> u32 \<Rightarrow> u32 \<Rightarrow> (vm_state \<times> mem \<times> bool) outcome option" where
  "copy_string_loop s b mm dst src maxn part0 =
     (let part = (if part0 > maxn then maxn else part0) in
      case user_mem_check s mm src part False of
        Panic \<Rightarrow> Some Panic
      | Ret (s1, ok) \<Rightarrow>
          if \<not> ok then Some (Ret (s1, b, False)) else
          let alen = strnlen b (unat src) (unat part) in
          if alen < unat part then Some (Ret (s1, memcpy b dst (unat src) (alen + 1), True))
          else if part = maxn then Some (Ret (s1, b, False))
          else copy_string_loop s1 (memcpy b dst (unat src) (unat part)) mm (dst + unat part)
                 (src + part) (maxn - part) PGSIZE)"

definition copy_string :: "vm_state \<Rightarrow> mem \<Rightarrow> nat option \<Rightarrow> nat \<Rightarrow> u32 \<Rightarrow> u32 \<Rightarrow> (vm_state \<times> mem \<times> bool) outcome" where
  "copy_string s b mm dst src maxn =
     (case copy_string_loop s b mm dst src maxn (ROUNDDOWN (src + PGSIZE) PGSIZE - src) of
        None \<Rightarrow> Panic | Some r \<Rightarrow> r)"

subsection \<open>Sorted, disjoint areas\<close>

fun vma_sorted :: "(nat \<Rightarrow> vma_struct) \<Rightarrow> u32 \<Rightarrow> nat list \<Rightarrow> bool" where
  "vma_sorted V lo [] \<longleftrightarrow> True"
| "vma_sorted V lo (v # vs) \<longleftrightarrow>
     lo \<le> vm_start (V v) \<and> vm_start (V v) < vm_end (V v) \<and> vma_sorted V (vm_end (V v)) vs"

definition mm_vmas :: "vm_state \<Rightarrow> nat \<Rightarrow> nat list \<Rightarrow> bool" where
  "mm_vmas s m vs \<longleftrightarrow>
     dlist (vma_links s) (VHead m) (map VLink vs) \<and> vma_sorted (vmas s) 0 vs \<and>
     map_count (mms s m) = int (length vs) \<and> (\<forall>v. mmap_cache (mms s m) = Some v \<longrightarrow> v \<in> set vs)"

definition vma_apart :: "vma_struct \<Rightarrow> vma_struct \<Rightarrow> bool" where
  "vma_apart u v \<longleftrightarrow> vm_end u \<le> vm_start v \<or> vm_end v \<le> vm_start u"

lemma vma_sorted_ge: "vma_sorted V lo vs \<Longrightarrow> v \<in> set vs \<Longrightarrow> lo \<le> vm_start (V v) \<and> vm_start (V v) < vm_end (V v)"
proof (induction vs arbitrary: lo)
  case (Cons u vs)
  show ?case
  proof (cases "v = u")
    case False
    then have "vm_end (V u) \<le> vm_start (V v) \<and> vm_start (V v) < vm_end (V v)" using Cons by auto
    then show ?thesis using Cons.prems(1) by (auto intro: order_trans less_imp_le)
  qed (use Cons.prems in auto)
qed simp

lemma vma_sorted_append:
  "vma_sorted V lo (us @ vs) \<longleftrightarrow> vma_sorted V lo us \<and> vma_sorted V (if us = [] then lo else vm_end (V (last us))) vs"
  by (induction us arbitrary: lo) auto

lemma vma_sorted_lt:
  "vma_sorted V lo (us @ v # vs) \<Longrightarrow> u \<in> set us \<Longrightarrow> vm_end (V u) \<le> vm_start (V v)"
proof (induction us arbitrary: lo)
  case (Cons w us)
  then show ?case using vma_sorted_ge [of V "vm_end (V w)" "us @ v # vs" v] by auto
qed simp

lemma vma_unique:
  assumes "vma_sorted V lo vs" "u \<in> set vs" "v \<in> set vs" "in_vma (V u) a" "in_vma (V v) a"
  shows "u = v"
  using assms
proof (induction vs arbitrary: lo)
  case (Cons w vs)
  have "\<not> in_vma (V x) a" if "x \<in> set vs" "in_vma (V w) a" for x
    using vma_sorted_ge [of V "vm_end (V w)" vs x] that Cons.prems(1) by (auto simp: in_vma_def)
  then show ?case using Cons by auto
qed simp

lemma vma_sorted_apart:
  assumes "vma_sorted V lo vs" "distinct vs" "u \<in> set vs" "v \<in> set vs" "u \<noteq> v"
  shows "vma_apart (V u) (V v)"
  using assms
proof (induction vs arbitrary: lo)
  case (Cons w vs)
  have "vma_apart (V w) (V x)" if "x \<in> set vs" for x
    using vma_sorted_ge [of V "vm_end (V w)" vs x] that Cons.prems(1) by (auto simp: vma_apart_def)
  then show ?case using Cons by (auto simp: vma_apart_def disj_commute)
qed simp

lemma vma_sorted_cong: "(\<And>v. v \<in> set vs \<Longrightarrow> vm_start (W v) = vm_start (V v) \<and> vm_end (W v) = vm_end (V v)) \<Longrightarrow>
   vma_sorted W lo vs = vma_sorted V lo vs"
  by (induction vs arbitrary: lo) auto

lemma mm_vmasD:
  assumes "mm_vmas s m vs"
  shows "dlist (vma_links s) (VHead m) (map VLink vs)" "vma_sorted (vmas s) 0 vs" "distinct vs"
    "mmap_cache (mms s m) = Some v \<Longrightarrow> v \<in> set vs"
  using assms dlist_distinct [of "vma_links s" "VHead m" "map VLink vs"] by (auto simp: mm_vmas_def distinct_map)

lemma find_map_VLink: "find P (map VLink xs) = map_option VLink (find (\<lambda>x. P (VLink x)) xs)"
  by (induction xs) auto

lemma scan_vma_spec:
  assumes "mm_vmas s m vs"
  shows "scan_vma s m a = Ret (find (\<lambda>v. in_vma (vmas s v) a) vs)"
  using list_scan_dlist [OF mm_vmasD(1) [OF assms]]
  by (simp add: scan_vma_def find_map_VLink split: option.split)

lemma find_vma_spec:
  assumes inv: "mm_vmas s m vs"
  shows "\<exists>s'. find_vma s (Some m) a = Ret (s', find (\<lambda>v. in_vma (vmas s v) a) vs) \<and> mm_vmas s' m vs \<and>
     vmas s' = vmas s \<and> vma_links s' = vma_links s \<and> (\<forall>k. mms s' k = (mms s k)\<lparr>mmap_cache := mmap_cache (mms s' k)\<rparr>) \<and>
     (\<forall>k. k \<noteq> m \<longrightarrow> mms s' k = mms s k)"
proof -
  let ?r = "find (\<lambda>v. in_vma (vmas s v) a) vs"
  let ?s' = "case ?r of None \<Rightarrow> s | Some v \<Rightarrow> upd_mm m (mmap_cache_update (\<lambda>_. Some v)) s"
  have "?r = Some v" if "mmap_cache (mms s m) = Some v" "in_vma (vmas s v) a" for v
  proof -
    have v: "v \<in> set vs" using mm_vmasD(4) [OF inv that(1)] .
    then have "?r \<noteq> None" using that(2) by (auto simp: find_None_iff)
    then obtain u where u: "?r = Some u" by auto
    then have "u \<in> set vs" "in_vma (vmas s u) a" by (auto simp: find_Some_iff)
    then have "u = v" using vma_unique [OF mm_vmasD(2) [OF inv]] v that(2) by blast
    then show ?thesis using u by simp
  qed
  then have "find_vma s (Some m) a = Ret (?s', ?r)"
    using scan_vma_spec [OF inv] by (auto simp: find_vma_def split: option.splits)
  moreover have "mm_vmas ?s' m vs"
    using inv by (auto simp: mm_vmas_def find_Some_iff split: option.split)
  ultimately show ?thesis by (intro exI [of _ ?s']) (auto split: option.splits)
qed

subsection \<open>Insertion\<close>

lemma insert_scan_spec:
  assumes "dlist (vma_links s) (VHead m) (map VLink (ys @ zs))"
  shows "insert_scan s (VHead m) v (last (VHead m # map VLink ys)) (last (VHead m # map VLink ys)) =
     Some (last (VHead m # map VLink (ys @ takeWhile (\<lambda>u. vm_start (vmas s u) \<le> vm_start (vmas s v)) zs)))"
  using assms
proof (induction zs arbitrary: ys)
  case Nil
  then have "list_next (vma_links s) (last (VHead m # map VLink ys)) = VHead m"
    using dlist_around(1) [of "vma_links s" "VHead m" "map VLink ys" "[]"] by (simp add: list_next_def)
  then show ?case by (subst insert_scan.simps) simp
next
  case (Cons z zs)
  have nx: "list_next (vma_links s) (last (VHead m # map VLink ys)) = VLink z"
    using dlist_around(1) [of "vma_links s" "VHead m" "map VLink ys" "map VLink (z # zs)"] Cons.prems
    by (simp add: list_next_def)
  show ?case
  proof (cases "vm_start (vmas s z) \<le> vm_start (vmas s v)")
    case True
    have "insert_scan s (VHead m) v (VLink z) (VLink z) =
        Some (last (VHead m # map VLink ((ys @ [z]) @ takeWhile (\<lambda>u. vm_start (vmas s u) \<le> vm_start (vmas s v)) zs)))"
      using Cons.IH [of "ys @ [z]"] Cons.prems by simp
    then show ?thesis using nx True leD [OF True] by (subst insert_scan.simps) (simp add: Let_def)
  next
    case False
    then have "vm_start (vmas s v) < vm_start (vmas s z)" by simp
    then show ?thesis using nx False by (subst insert_scan.simps) (simp add: Let_def)
  qed
qed

definition vma_place :: "(nat \<Rightarrow> vma_struct) \<Rightarrow> nat \<Rightarrow> nat list \<Rightarrow> nat list" where
  "vma_place V v vs =
     takeWhile (\<lambda>u. vm_start (V u) \<le> vm_start (V v)) vs @ v #
     dropWhile (\<lambda>u. vm_start (V u) \<le> vm_start (V v)) vs"

text \<open>An area fits into a sorted list exactly when it fits between its two neighbours.\<close>

lemma vma_fits:
  assumes so: "vma_sorted V lo (us @ ws)" and us: "\<forall>u \<in> set us. vm_start (V u) \<le> vm_start (V v)"
    and ws: "ws \<noteq> [] \<longrightarrow> vm_start (V v) < vm_start (V (hd ws))" and ne: "vm_start (V v) < vm_end (V v)"
  shows "(\<forall>u \<in> set (us @ ws). vma_apart (V u) (V v)) \<longleftrightarrow>
     (us = [] \<or> vm_end (V (last us)) \<le> vm_start (V v)) \<and> (ws = [] \<or> vm_end (V v) \<le> vm_start (V (hd ws)))"
proof
  assume ap: "\<forall>u \<in> set (us @ ws). vma_apart (V u) (V v)"
  have "vm_end (V (last us)) \<le> vm_start (V v)" if "us \<noteq> []"
  proof -
    have "last us \<in> set us" using that by simp
    then have "vma_apart (V (last us)) (V v)" "vm_start (V (last us)) \<le> vm_start (V v)" using ap us by auto
    then show ?thesis using ne by (auto simp: vma_apart_def)
  qed
  moreover have "vm_end (V v) \<le> vm_start (V (hd ws))" if "ws \<noteq> []"
  proof -
    have "hd ws \<in> set (us @ ws)" using that by simp
    then have "vma_apart (V (hd ws)) (V v)" "vm_start (V (hd ws)) < vm_end (V (hd ws))"
      using ap vma_sorted_ge [OF so] by blast+
    then show ?thesis using ws that by (auto simp: vma_apart_def)
  qed
  ultimately show "(us = [] \<or> vm_end (V (last us)) \<le> vm_start (V v)) \<and>
      (ws = [] \<or> vm_end (V v) \<le> vm_start (V (hd ws)))" by blast
next
  assume r: "(us = [] \<or> vm_end (V (last us)) \<le> vm_start (V v)) \<and> (ws = [] \<or> vm_end (V v) \<le> vm_start (V (hd ws)))"
  show "\<forall>u \<in> set (us @ ws). vma_apart (V u) (V v)"
  proof
    fix u assume "u \<in> set (us @ ws)"
    then consider "u \<in> set us" | "u \<in> set ws" by auto
    then show "vma_apart (V u) (V v)"
    proof cases
      case 1
      then have ne': "us \<noteq> []" by auto
      then have split: "us = butlast us @ [last us]" by simp
      have "vm_end (V u) \<le> vm_end (V (last us))"
      proof (cases "u = last us")
        case False
        then have "u \<in> set (butlast us)" using 1 split by (metis Un_iff empty_iff insert_iff set_append set_empty list.simps(15))
        then have "vm_end (V u) \<le> vm_start (V (last us))"
          using vma_sorted_lt [of V lo "butlast us" "last us" ws u] so
          by (metis append.assoc append_Cons append_Nil split)
        moreover have "vm_start (V (last us)) < vm_end (V (last us))"
          using vma_sorted_ge [OF so, of "last us"] ne' by simp
        ultimately show ?thesis by simp
      qed simp
      then show ?thesis using r ne' by (auto simp: vma_apart_def)
    next
      case 2
      then have "vm_start (V (hd ws)) \<le> vm_start (V u)"
        using vma_sorted_ge [of V "vm_end (V (hd ws))" "tl ws" u] so
        by (cases ws) (auto simp: vma_sorted_append intro: order_trans less_imp_le)
      then show ?thesis using r 2 by (auto simp: vma_apart_def)
    qed
  qed
qed

lemma insert_vma_struct_spec:
  assumes inv: "mm_vmas s m vs" and v: "v \<notin> set vs" and ne: "vm_start (vmas s v) < vm_end (vmas s v)"
  shows "if \<forall>u \<in> set vs. vma_apart (vmas s u) (vmas s v)
     then \<exists>s'. insert_vma_struct s m v = Ret s' \<and> mm_vmas s' m (vma_place (vmas s) v vs) \<and>
        (\<forall>k. k \<noteq> m \<longrightarrow> mms s' k = mms s k) \<and> vmas s' = (vmas s)(v := (vmas s v)\<lparr>vm_mm := Some m\<rparr>)
     else insert_vma_struct s m v = Panic"
proof -
  let ?P = "\<lambda>u. vm_start (vmas s u) \<le> vm_start (vmas s v)"
  define us ws where "us = takeWhile ?P vs" and "ws = dropWhile ?P vs"
  have vs: "vs = us @ ws" by (simp add: us_def ws_def)
  note d = mm_vmasD(1) [OF inv, unfolded vs] and so = mm_vmasD(2) [OF inv, unfolded vs]
  have us: "\<forall>u \<in> set us. ?P u" unfolding us_def using set_takeWhileD by fastforce
  let ?prv = "last (VHead m # map VLink us)"
  have sc: "insert_scan s (VHead m) v (VHead m) (VHead m) = Some ?prv"
    using insert_scan_spec [of s m "[]" vs v] mm_vmasD(1) [OF inv] by (simp add: us_def)
  have nx: "list_next (vma_links s) ?prv = (case ws of [] \<Rightarrow> VHead m | w # _ \<Rightarrow> VLink w)"
    using dlist_around(1) [of "vma_links s" "VHead m" "map VLink us" "map VLink ws"] d
    by (simp add: list_next_def split: list.split)
  have ws: "ws \<noteq> [] \<longrightarrow> vm_start (vmas s v) < vm_start (vmas s (hd ws))"
    using hd_dropWhile [of ?P vs] unfolding ws_def by (meson not_le)
  note fits = vma_fits [OF so us ws ne]
  have okay: "vm_start (vmas s u) < vm_end (vmas s u)" if "u \<in> set (us @ ws)" for u
    using vma_sorted_ge [OF so that] by simp
  let ?A = "us = [] \<or> vm_end (vmas s (last us)) \<le> vm_start (vmas s v)"
  let ?B = "ws = [] \<or> vm_end (vmas s v) \<le> vm_start (vmas s (hd ws))"
  have ckA: "(case ?prv of VLink u \<Rightarrow> check_vma_overlap (vmas s u) (vmas s v) | VHead _ \<Rightarrow> Ret ()) =
      (if ?A then Ret () else Panic)"
    using ne okay [of "last us"] by (auto simp: check_vma_overlap_def last_map assert_then_def)
  have ckB: "(case (case ws of [] \<Rightarrow> VHead m | w # _ \<Rightarrow> VLink w) of
        VLink u \<Rightarrow> check_vma_overlap (vmas s v) (vmas s u) | VHead _ \<Rightarrow> Ret ()) = (if ?B then Ret () else Panic)"
    using ne okay by (cases ws) (auto simp: check_vma_overlap_def assert_then_def)
  let ?s1 = "upd_vma v (vm_mm_update (\<lambda>_. Some m)) s"
  let ?s' = "upd_mm m (map_count_update (\<lambda>n. n + 1)) (?s1\<lparr>vma_links := list_add_after (vma_links ?s1) ?prv (VLink v)\<rparr>)"
  have res: "insert_vma_struct s m v = (if ?A \<and> ?B then Ret ?s' else Panic)"
    unfolding insert_vma_struct_def sc nx Let_def of_option.simps bind_outcome.simps ckA ckB using ne by auto
  have ring: "dlist (list_add_after (vma_links s) ?prv (VLink v)) (VHead m) (map VLink (us @ v # ws))"
  proof (cases us rule: rev_cases)
    case Nil
    then show ?thesis using list_add_after_head [of _ _ "map VLink ws" "VLink v"] d v vs by auto
  next
    case (snoc us' u)
    then show ?thesis
      using list_add_after_mid [of "vma_links s" "VHead m" "map VLink us'" "VLink u" "map VLink ws" "VLink v"] d v vs
      by auto
  qed
  have "vma_sorted (vmas ?s') 0 (us @ v # ws)" if "?A" "?B"
  proof -
    have "vma_sorted (vmas ?s') 0 (us @ v # ws) = vma_sorted (vmas s) 0 (us @ v # ws)"
      by (rule vma_sorted_cong) simp
    also have "\<dots>" using so that ne by (cases ws) (auto simp: vma_sorted_append)
    finally show ?thesis by blast
  qed
  then have "mm_vmas ?s' m (us @ v # ws)" if "?A" "?B"
    using inv ring that vs by (auto simp: mm_vmas_def)
  then show ?thesis
    unfolding res using fits by (auto simp: vs [symmetric] vma_place_def us_def [symmetric] ws_def [symmetric] fun_eq_iff)
qed

subsection \<open>Checking user pointers\<close>

definition may_access :: "vm_state \<Rightarrow> nat list \<Rightarrow> bool \<Rightarrow> u32 \<Rightarrow> bool" where
  "may_access s vs wr a \<longleftrightarrow>
     (\<exists>v \<in> set vs. in_vma (vmas s v) a \<and>
        vm_flags (vmas s v) AND (if wr then VM_WRITE else VM_READ) \<noteq> 0 \<and>
        \<not> (wr \<and> vm_flags (vmas s v) AND VM_STACK \<noteq> 0 \<and> a < vm_start (vmas s v) + PGSIZE))"

lemma may_access_at:
  assumes "mm_vmas s m vs" "v \<in> set vs" "in_vma (vmas s v) a"
  shows "may_access s vs wr a \<longleftrightarrow>
     vm_flags (vmas s v) AND (if wr then VM_WRITE else VM_READ) \<noteq> 0 \<and>
     \<not> (wr \<and> vm_flags (vmas s v) AND VM_STACK \<noteq> 0 \<and> a < vm_start (vmas s v) + PGSIZE)"
  using assms vma_unique [OF mm_vmasD(2) [OF assms(1)] assms(2)] unfolding may_access_def by metis

lemma check_range_spec:
  assumes "mm_vmas s m vs"
  shows "\<exists>s'. check_range s m start end' wr = Some (Ret (s', \<forall>a. start \<le> a \<and> a < end' \<longrightarrow> may_access s vs wr a)) \<and>
     mm_vmas s' m vs \<and> vmas s' = vmas s"
  using assms
proof (induction "unat end' - unat start" arbitrary: start s rule: less_induct)
  case less
  show ?case
  proof (cases "start < end'")
    case False
    then show ?thesis using less.prems by (subst check_range.simps) auto
  next
    case lt: True
    from find_vma_spec [OF less.prems, of start] obtain s1 where
      s1: "find_vma s (Some m) start = Ret (s1, find (\<lambda>v. in_vma (vmas s v) start) vs)" "mm_vmas s1 m vs" "vmas s1 = vmas s"
      by blast
    have same: "may_access s1 vs = may_access s vs" by (auto simp: may_access_def s1(3) fun_eq_iff)
    show ?thesis
    proof (cases "find (\<lambda>v. in_vma (vmas s v) start) vs")
      case None
      then have "\<not> may_access s vs wr start" by (auto simp: may_access_def find_None_iff)
      then show ?thesis using lt s1 None by (subst check_range.simps) auto
    next
      case (Some v)
      then have v: "v \<in> set vs" "in_vma (vmas s v) start" by (auto simp: find_Some_iff)
      note at = may_access_at [OF less.prems v(1)]
      show ?thesis
      proof (cases "may_access s vs wr start")
        case False
        then show ?thesis
          using lt s1 Some at [OF v(2), of wr] v(2) by (subst check_range.simps) (auto simp: Let_def in_vma_def)
      next
        case True
        let ?e = "vm_end (vmas s v)"
        have gt: "start < ?e" using v(2) by (simp add: in_vma_def)
        have cov: "may_access s vs wr a" if "start \<le> a" "a < ?e" for a
        proof -
          have "in_vma (vmas s v) a" using that v(2) by (auto simp: in_vma_def)
          then show ?thesis using True at [OF v(2), of wr] at [of a wr] that by auto
        qed
        have "unat end' - unat ?e < unat end' - unat start"
          using lt gt by (auto simp: word_less_nat_alt)
        from less.hyps [OF this s1(2)] obtain s' where
          s': "check_range s1 m ?e end' wr = Some (Ret (s', \<forall>a. ?e \<le> a \<and> a < end' \<longrightarrow> may_access s vs wr a))"
            "mm_vmas s' m vs" "vmas s' = vmas s" unfolding same s1(3) by blast
        have "check_range s m start end' wr = check_range s1 m ?e end' wr"
          using lt s1(1,3) Some at [OF v(2), of wr] True v(2)
          by (subst check_range.simps) (auto simp: Let_def in_vma_def)
        moreover have "(\<forall>a. ?e \<le> a \<and> a < end' \<longrightarrow> may_access s vs wr a) =
            (\<forall>a. start \<le> a \<and> a < end' \<longrightarrow> may_access s vs wr a)"
          using cov gt by (meson leI less_imp_le order_trans)
        ultimately show ?thesis using s' by simp
      qed
    qed
  qed
qed

lemma user_mem_check_spec:
  assumes "mm_vmas s m vs"
  shows "\<exists>s'. user_mem_check s (Some m) addr len wr =
       Ret (s', USER_ACCESS addr (addr + len) \<and> (\<forall>a. addr \<le> a \<and> a < addr + len \<longrightarrow> may_access s vs wr a)) \<and>
     mm_vmas s' m vs \<and> vmas s' = vmas s"
  using check_range_spec [OF assms, of addr "addr + len" wr] assms by (auto simp: user_mem_check_def)

subsection \<open>Mapping and destroying\<close>

lemma mm_map_spec:
  fixes fl :: u32
  assumes inv: "mm_vmas s m vs" and v: "v \<notin> set vs"
    and ac: "USER_ACCESS (ROUNDDOWN addr PGSIZE) (ROUNDUP (addr + len) PGSIZE)"
  defines "x \<equiv> (vmas s v)\<lparr>vm_start := ROUNDDOWN addr PGSIZE, vm_end := ROUNDUP (addr + len) PGSIZE, vm_flags := fl\<rparr>"
  shows "if \<exists>u \<in> set vs. in_vma (vmas s u) (ROUNDDOWN addr PGSIZE)
     then \<exists>s'. mm_map (Some v) s m addr len fl = Ret (s', - E_INVAL, None) \<and> mm_vmas s' m vs
     else if \<forall>u \<in> set vs. vma_apart (vmas s u) x
     then \<exists>s'. mm_map (Some v) s m addr len fl = Ret (s', 0, Some v) \<and>
        mm_vmas s' m (vma_place ((vmas s)(v := x)) v vs) \<and> vmas s' = (vmas s)(v := x\<lparr>vm_mm := Some m\<rparr>)
     else mm_map (Some v) s m addr len fl = Panic"
proof -
  let ?a = "ROUNDDOWN addr PGSIZE" and ?e = "ROUNDUP (addr + len) PGSIZE"
  have ne: "?a < ?e" using ac by (simp add: USER_ACCESS_def)
  from find_vma_spec [OF inv, of ?a] obtain s1 where
    s1: "find_vma s (Some m) ?a = Ret (s1, find (\<lambda>u. in_vma (vmas s u) ?a) vs)" "mm_vmas s1 m vs" "vmas s1 = vmas s" by blast
  show ?thesis
  proof (cases "find (\<lambda>u. in_vma (vmas s u) ?a) vs")
    case (Some u)
    then have u: "u \<in> set vs" "in_vma (vmas s u) ?a" by (auto simp: find_Some_iff)
    then have "vm_start (vmas s u) < ?e" using ne by (auto simp: in_vma_def)
    then have "mm_map (Some v) s m addr len fl = Ret (s1, - E_INVAL, None)"
      using ac s1 Some by (simp add: mm_map_def Let_def)
    then show ?thesis using u s1(2) by auto
  next
    case None
    then have no: "\<not> (\<exists>u \<in> set vs. in_vma (vmas s u) ?a)" by (auto simp: find_None_iff)
    let ?s2 = "upd_vma v (\<lambda>x. x\<lparr>vm_start := ?a, vm_end := ?e, vm_flags := fl\<rparr>) s1"
    have res: "mm_map (Some v) s m addr len fl = bind_outcome (insert_vma_struct ?s2 m v) (\<lambda>s3. Ret (s3, 0, Some v))"
      using ac s1 None by (simp add: mm_map_def Let_def vma_create_def)
    have V: "vmas ?s2 = (vmas s)(v := x)" by (simp add: s1(3) x_def)
    have "vma_sorted (vmas ?s2) 0 vs = vma_sorted (vmas s1) 0 vs" by (rule vma_sorted_cong) (use v in auto)
    then have inv2: "mm_vmas ?s2 m vs" using s1(2) by (auto simp: mm_vmas_def)
    have "vm_start (vmas ?s2 v) < vm_end (vmas ?s2 v)" using ne by simp
    note ins = insert_vma_struct_spec [OF inv2 v this]
    have "(\<forall>u \<in> set vs. vma_apart (vmas ?s2 u) (vmas ?s2 v)) = (\<forall>u \<in> set vs. vma_apart (vmas s u) x)"
      unfolding V using v by auto
    then show ?thesis
      using ins no unfolding res V by (auto split: if_splits)
  qed
qed

lemma destroy_vmas_spec:
  "dlist h l (map VLink vs) \<Longrightarrow> (\<And>v. l \<noteq> VLink v) \<Longrightarrow>
   \<exists>h'. destroy_vmas l h freed = Some (h', freed @ vs) \<and> dlist h' l []"
proof (induction vs arbitrary: h freed)
  case Nil
  then show ?case using dlist_next_head [of h l "[]"] by (subst destroy_vmas.simps) auto
next
  case (Cons v vs)
  have "dlist (list_del h (VLink v)) l (map VLink vs)"
    using list_del_dlist [of h l "[]" "VLink v" "map VLink vs"] Cons.prems(1) by simp
  from Cons.IH [OF this Cons.prems(2), of "freed @ [v]"] show ?case
    using dlist_next_head [OF Cons.prems(1)] Cons.prems(2) [of v]
    by (subst destroy_vmas.simps) (auto simp: Let_def)
qed

lemma mm_destroy_spec:
  "mm_vmas s m vs \<Longrightarrow> mm_count (mms s m) = 0 \<Longrightarrow>
   \<exists>s'. mm_destroy s m = Ret (s', vs) \<and> dlist (vma_links s') (VHead m) []"
  using destroy_vmas_spec [of "vma_links s" "VHead m" vs "[]"] mm_vmasD(1) [of s m vs]
  by (auto simp: mm_destroy_def)

subsection \<open>Properties\<close>


text \<open>The routine \<open>insert_vma_struct\<close> puts a non-empty area into its place in the sorted list exactly when it
  overlaps no area of the address space; otherwise it fails an assertion. After an insertion the
  list is again sorted and disjoint and map_count counts it.\<close>

theorem insert_vma_struct_sorted:
  assumes "mm_vmas s m vs" "v \<notin> set vs" "vm_start (vmas s v) < vm_end (vmas s v)"
  shows "if \<forall>u \<in> set vs. vma_apart (vmas s u) (vmas s v)
     then \<exists>s'. insert_vma_struct s m v = Ret s' \<and> mm_vmas s' m (vma_place (vmas s) v vs)
     else insert_vma_struct s m v = Panic"
  using insert_vma_struct_spec [OF assms] by (auto split: if_splits)

text \<open>C30: user_mem_check terminates and accepts a user range exactly when it lies in user space and
  every byte of it is in an area with the needed access right, outside the guard page at the
  bottom of a stack that is written.\<close>

theorem user_mem_check_exact:
  assumes "mm_vmas s m vs"
  shows "\<exists>s' b. user_mem_check s (Some m) addr len wr = Ret (s', b) \<and> mm_vmas s' m vs \<and>
     (b \<longleftrightarrow> USER_ACCESS addr (addr + len) \<and> (\<forall>a. addr \<le> a \<and> a < addr + len \<longrightarrow> may_access s vs wr a))"
  using user_mem_check_spec [OF assms] by blast

text \<open>C32: mm_map on an address space looks for an overlap at the start of the new range only: when
  the start lies in no area but the range overlaps an area further up, it does not return
  -E_INVAL, the kernel panics in insert_vma_struct.\<close>

theorem mm_map_overlap_panics:
  assumes "mm_vmas s m vs" "v \<notin> set vs"
    "USER_ACCESS (ROUNDDOWN addr PGSIZE) (ROUNDUP (addr + len) PGSIZE)"
    "\<forall>u \<in> set vs. \<not> in_vma (vmas s u) (ROUNDDOWN addr PGSIZE)"
    "u \<in> set vs" "ROUNDDOWN addr PGSIZE \<le> vm_start (vmas s u)" "vm_start (vmas s u) < ROUNDUP (addr + len) PGSIZE"
  shows "mm_map (Some v) s m addr len fl = Panic"
proof -
  let ?x = "(vmas s v)\<lparr>vm_start := ROUNDDOWN addr PGSIZE, vm_end := ROUNDUP (addr + len) PGSIZE, vm_flags := fl\<rparr>"
  have "vm_start (vmas s u) < vm_end (vmas s u)"
    using vma_sorted_ge [OF mm_vmasD(2) [OF assms(1)] assms(5)] by simp
  then have "\<not> vma_apart (vmas s u) ?x" using assms(6,7) by (auto simp: vma_apart_def)
  then show ?thesis using mm_map_spec [OF assms(1-3), of fl] assms(4,5) by (auto split: if_splits)
qed

text \<open>An address space with one writable area from 0x300000 to 0x302000.\<close>

definition one_area :: vm_state where
  "one_area =
     \<lparr>vmas = \<lambda>_. \<lparr>vm_mm = Some 0, vm_start = 0x300000, vm_end = 0x302000, vm_flags = 3\<rparr>,
      mms = \<lambda>_. \<lparr>mmap_cache = None, pgdir = None, map_count = 1, sm_priv = None, mm_count = 1, locked_by = 0\<rparr>,
      vma_links = list_add_before (list_init \<lparr>le_prev = id, le_next = id\<rparr> (VHead 0)) (VHead 0) (VLink 7)\<rparr>"

lemma one_area_ok: "mm_vmas one_area 0 [7]"
proof -
  have "dlist (list_init \<lparr>le_prev = id, le_next = id\<rparr> (VHead 0)) (VHead 0) []" by (rule dlist_init)
  from list_add_before_head [OF this, of "VLink 7"] show ?thesis by (simp add: mm_vmas_def one_area_def)
qed


definition two_areas :: vm_state where
  "two_areas = upd_vma 8 (\<lambda>x. x\<lparr>vm_start := 0x400000, vm_end := 0x401000\<rparr>) one_area"

lemma two_areas_ok: "mm_vmas two_areas 0 [7]"
  using one_area_ok by (simp add: mm_vmas_def two_areas_def)

theorem insert_vma_struct_sorted_witness:
  "\<exists>s'. insert_vma_struct two_areas 0 8 = Ret s' \<and> mm_vmas s' 0 [7, 8]"
proof -
  have "vma_apart (vmas two_areas 7) (vmas two_areas 8)" "vm_start (vmas two_areas 8) < vm_end (vmas two_areas 8)"
    "vma_place (vmas two_areas) 8 [7] = [7, 8]"
    by (simp_all add: two_areas_def one_area_def vma_apart_def vma_place_def)
  then show ?thesis using insert_vma_struct_sorted [OF two_areas_ok, of 8] by auto
qed

theorem user_mem_check_exact_witness:
  "\<exists>s'. user_mem_check one_area (Some 0) 0x300010 16 True = Ret (s', True)"
proof -
  have "USER_ACCESS 0x300010 (0x300010 + 16)" by (simp add: USER_ACCESS_def USERBASE_def USERTOP_def)
  moreover have "may_access one_area [7] True a" if a: "0x300010 \<le> a" "a < 0x300010 + 16" for a
  proof -
    have "0x300000 \<le> a" by (rule order_trans [OF _ a(1)]) simp
    moreover have "a < 0x302000" by (rule less_trans [OF a(2)]) simp
    ultimately show ?thesis by (simp add: may_access_def one_area_def in_vma_def VM_WRITE_def VM_STACK_def)
  qed
  ultimately show ?thesis
    using user_mem_check_exact [OF one_area_ok, of "0x300010" 16 True] by auto
qed

theorem mm_map_overlap_panics_witness: "mm_map (Some 9) one_area 0 0x2FF000 0x2000 0 = Panic"
  by (rule mm_map_overlap_panics [OF one_area_ok, of _ _ _ 7])
    (simp_all add: one_area_def in_vma_def USER_ACCESS_def USERBASE_def USERTOP_def ROUNDUP_def ROUNDDOWN_def PGSIZE_def)

end
