(* ===== verification/Ide.thy ===== *)
theory Ide
  imports Prelude
begin

text \<open>
  The polled IDE driver \<^verbatim>\<open>kern/driver/ide.c\<close>: how a request programs the task-file registers and
  transfers its sectors. The drive is the environment: it answers a command on the sectors that
  the registers name, in order, and \<open>poll_err n\<close> says whether the n-th status poll that checks
  for errors finds one. Sector contents are a type parameter, since the driver only moves whole
  sectors. Busy waiting and \<open>ide_init\<close>, which reads the identification data, are not modelled.
\<close>

record ide_device =
  ide_valid :: bool
  ide_size :: u32

record taskfile =
  r_seccnt :: u8
  r_sector :: u8
  r_cyl_lo :: u8
  r_cyl_hi :: u8
  r_sdh :: u8

record 'a ide_state =
  ide_devices :: "nat \<Rightarrow> ide_device"
  regs :: "nat \<Rightarrow> taskfile"
  ide_disk :: "nat \<Rightarrow> nat \<Rightarrow> 'a"
  poll_err :: "nat \<Rightarrow> bool"
  polls :: nat

definition MAX_IDE :: nat where "MAX_IDE = 4"
definition MAX_NSECS :: u32 where "MAX_NSECS = 128"
definition MAX_DISK_NSECS :: u32 where "MAX_DISK_NSECS = 0x10000000"

definition VALID_IDE :: "'a ide_state \<Rightarrow> nat \<Rightarrow> bool" where
  "VALID_IDE s ideno \<longleftrightarrow> ideno < MAX_IDE \<and> ide_valid (ide_devices s ideno)"

definition ide_device_valid :: "'a ide_state \<Rightarrow> nat \<Rightarrow> bool" where
  "ide_device_valid s ideno = VALID_IDE s ideno"

definition ide_device_size :: "'a ide_state \<Rightarrow> nat \<Rightarrow> u32" where
  "ide_device_size s ideno = (if ide_device_valid s ideno then ide_size (ide_devices s ideno) else 0)"

text \<open>The polls that check for an error; each is one step of \<open>polls\<close>.\<close>

definition ide_wait_ready :: "'a ide_state \<Rightarrow> 'a ide_state \<times> int" where
  "ide_wait_ready s = (s\<lparr>polls := Suc (polls s)\<rparr>, if poll_err s (polls s) then - 1 else 0)"

text \<open>The outb sequence before a command, on the channel \<open>ideno >> 1\<close>.\<close>

definition ide_program :: "'a ide_state \<Rightarrow> nat \<Rightarrow> u32 \<Rightarrow> u32 \<Rightarrow> 'a ide_state" where
  "ide_program s ideno secno nsecs =
     s\<lparr>regs := (regs s)(ideno div 2 :=
       \<lparr>r_seccnt = ucast nsecs,
        r_sector = ucast (secno AND 0xFF),
        r_cyl_lo = ucast (drop_bit 8 secno AND 0xFF),
        r_cyl_hi = ucast (drop_bit 16 secno AND 0xFF),
        r_sdh = ucast (0xE0 OR push_bit 4 (of_nat (ideno mod 2)) OR (drop_bit 24 secno AND 0xF))\<rparr>)\<rparr>"

text \<open>The drive's reading of the registers: drive select bit and 28-bit LBA.\<close>

definition sel_drive :: "taskfile \<Rightarrow> nat" where
  "sel_drive t = (if bit (r_sdh t) 4 then 1 else 0)"

definition sel_lba :: "taskfile \<Rightarrow> nat" where
  "sel_lba t = unat (r_sector t) + 2 ^ 8 * unat (r_cyl_lo t) + 2 ^ 16 * unat (r_cyl_hi t)
     + 2 ^ 24 * unat (r_sdh t AND 0xF)"

text \<open>The transfer loops: \<open>k\<close> sectors are left, the drive is at sector \<open>lba\<close>.\<close>

fun read_loop :: "nat \<Rightarrow> 'a ide_state \<Rightarrow> nat \<Rightarrow> nat \<Rightarrow> 'a ide_state \<times> int \<times> 'a list" where
  "read_loop 0 s drv lba = (s, 0, [])"
| "read_loop (Suc k) s drv lba =
     (case ide_wait_ready s of (s1, r) \<Rightarrow>
        if r \<noteq> 0 then (s1, r, [])
        else case read_loop k s1 drv (Suc lba) of (s2, r2, buf) \<Rightarrow> (s2, r2, ide_disk s1 drv lba # buf))"

fun write_loop :: "'a list \<Rightarrow> 'a ide_state \<Rightarrow> nat \<Rightarrow> nat \<Rightarrow> 'a ide_state \<times> int" where
  "write_loop [] s drv lba = (s, 0)"
| "write_loop (b # bs) s drv lba =
     (case ide_wait_ready s of (s1, r) \<Rightarrow>
        if r \<noteq> 0 then (s1, r)
        else write_loop bs (s1\<lparr>ide_disk := (ide_disk s1)(drv := (ide_disk s1 drv)(lba := b))\<rparr>) drv (Suc lba))"

text \<open>
  \<open>ide_read_secs\<close> gives the sectors that reached the buffer; \<open>ide_write_secs\<close> takes the sectors
  of the source buffer.
\<close>

definition ide_read_secs :: "'a ide_state \<Rightarrow> nat \<Rightarrow> u32 \<Rightarrow> u32 \<Rightarrow> ('a ide_state \<times> int \<times> 'a list) outcome" where
  "ide_read_secs s ideno secno nsecs =
     assert_then (nsecs \<le> MAX_NSECS \<and> VALID_IDE s ideno)
       (assert_then (secno < MAX_DISK_NSECS \<and> secno + nsecs \<le> MAX_DISK_NSECS)
         (let s1 = ide_program s ideno secno nsecs;
              t = regs s1 (ideno div 2)
          in Ret (read_loop (unat nsecs) s1 (2 * (ideno div 2) + sel_drive t) (sel_lba t))))"

definition ide_write_secs :: "'a ide_state \<Rightarrow> nat \<Rightarrow> u32 \<Rightarrow> 'a list \<Rightarrow> ('a ide_state \<times> int) outcome" where
  "ide_write_secs s ideno secno src =
     (let nsecs = of_nat (length src) in
      assert_then (nsecs \<le> MAX_NSECS \<and> VALID_IDE s ideno)
       (assert_then (secno < MAX_DISK_NSECS \<and> secno + nsecs \<le> MAX_DISK_NSECS)
         (let s1 = ide_program s ideno secno nsecs;
              t = regs s1 (ideno div 2)
          in Ret (write_loop src s1 (2 * (ideno div 2) + sel_drive t) (sel_lba t)))))"

subsection \<open>The registers name the requested sector\<close>

lemma mask_numerals: "(0xFF :: u32) = mask 8" "(0xF :: u32) = mask 4" "(0xF :: u8) = mask 4"
  by (simp_all add: mask_eq_exp_minus_1)

lemma unat_and_255: "unat (ucast (x AND 0xFF :: u32) :: u8) = unat x mod 256"
proof -
  have "(x AND 0xFF) = take_bit 8 x" by (simp only: mask_numerals take_bit_eq_mask)
  then show ?thesis by (simp add: unsigned_take_bit_eq unsigned_ucast_eq take_bit_eq_mod unat_mod)
qed

lemma sdh_bits:
  fixes x :: u32
  shows "ucast (0xE0 OR push_bit 4 (of_nat (d mod 2)) OR (x AND 0xF)) AND 0xF = (ucast (x AND 0xF) :: u8)"
    "bit (ucast (0xE0 OR push_bit 4 (of_nat (d mod 2)) OR (x AND 0xF)) :: u8) 4 \<longleftrightarrow> odd d"
proof -
  show "ucast (0xE0 OR push_bit 4 (of_nat (d mod 2)) OR (x AND 0xF)) AND 0xF = (ucast (x AND 0xF) :: u8)"
  proof -
    have "\<not> bit (0xE0 :: u32) n" if "n < 4" for n
      using that by (simp add: less_Suc_eq numeral_eq_Suc) (auto simp: bit_Suc)
    then show ?thesis unfolding mask_numerals by (intro bit_word_eqI) (auto simp: bit_simps)
  qed
  have "bit (of_nat (d mod 2) :: u32) 0 \<longleftrightarrow> odd d" by (cases "odd d") (auto simp: odd_iff_mod_2_eq_one)
  then show "bit (ucast (0xE0 OR push_bit 4 (of_nat (d mod 2)) OR (x AND 0xF)) :: u8) 4 \<longleftrightarrow> odd d"
    unfolding mask_numerals by (simp add: bit_simps bit_numeral_rec)
qed

lemma four_bytes: "n mod 256 + 256 * (n div 256 mod 256) + 65536 * (n div 65536 mod 256) + 16777216 * (n div 16777216) = (n::nat)"
proof -
  have "n div 65536 = n div 256 div 256" "n div 16777216 = n div 256 div 256 div 256"
    by (simp_all flip: div_mult2_eq)
  then have "n div 65536 mod 256 + 256 * (n div 16777216) = n div 65536" "n div 256 mod 256 + 256 * (n div 65536) = n div 256"
    by (metis mod_mult_div_eq)+
  then show ?thesis using mod_mult_div_eq [of n 256] by linarith
qed

lemma sel_program:
  assumes "secno < MAX_DISK_NSECS"
  shows "sel_lba (regs (ide_program s ideno secno nsecs) (ideno div 2)) = unat secno"
    "2 * (ideno div 2) + sel_drive (regs (ide_program s ideno secno nsecs) (ideno div 2)) = ideno"
proof -
  have le: "unat secno < 2 ^ 28" using assms by (simp add: MAX_DISK_NSECS_def word_less_nat_alt)
  have nib: "unat (ucast (drop_bit 24 secno AND 0xF) :: u8) = unat secno div 2 ^ 24"
  proof -
    have "drop_bit 24 secno AND 0xF = take_bit 4 (drop_bit 24 secno)" by (simp only: mask_numerals take_bit_eq_mask)
    then show ?thesis using le
      by (simp add: unsigned_take_bit_eq unsigned_ucast_eq take_bit_eq_mod unat_mod unat_drop_bit_eq drop_bit_eq_div unat_div)
  qed
  show "sel_lba (regs (ide_program s ideno secno nsecs) (ideno div 2)) = unat secno"
    using four_bytes [of "unat secno"]
    by (simp add: sel_lba_def ide_program_def unat_and_255 sdh_bits nib unat_drop_bit_eq drop_bit_eq_div [where 'a = nat])
  show "2 * (ideno div 2) + sel_drive (regs (ide_program s ideno secno nsecs) (ideno div 2)) = ideno"
    by (simp add: sel_drive_def ide_program_def sdh_bits)
qed

subsection \<open>Requests\<close>

lemma read_loop_ok:
  "\<forall>i < k. \<not> poll_err s (polls s + i) \<Longrightarrow>
   read_loop k s drv lba = (s\<lparr>polls := polls s + k\<rparr>, 0, map (ide_disk s drv) [lba ..< lba + k])"
proof (induction k arbitrary: s lba)
  case (Suc k)
  let ?s1 = "s\<lparr>polls := Suc (polls s)\<rparr>"
  have "\<forall>i < k. \<not> poll_err ?s1 (polls ?s1 + i)" using Suc.prems by auto
  moreover have "\<not> poll_err s (polls s)" using Suc.prems [rule_format, of 0] by simp
  ultimately show ?case using Suc.IH [of ?s1 "Suc lba"] by (simp add: ide_wait_ready_def upt_rec [of lba])
qed simp

lemma read_loop_frame:
  "read_loop k s drv lba = (s', r, buf) \<Longrightarrow>
   ide_disk s' = ide_disk s \<and> ide_devices s' = ide_devices s \<and> poll_err s' = poll_err s \<and> length buf \<le> k \<and> (r = 0 \<longleftrightarrow> length buf = k)"
proof (induction k arbitrary: s lba s' r buf)
  case (Suc k)
  let ?s1 = "s\<lparr>polls := Suc (polls s)\<rparr>"
  obtain s2 r2 b2 where rec: "read_loop k ?s1 drv (Suc lba) = (s2, r2, b2)" by (cases "read_loop k ?s1 drv (Suc lba)") auto
  from Suc.IH [OF rec] Suc.prems rec show ?case by (auto simp: ide_wait_ready_def split: if_splits)
qed simp

lemma write_loop_ok:
  "\<forall>i < length bs. \<not> poll_err s (polls s + i) \<Longrightarrow>
   \<exists>s'. write_loop bs s drv lba = (s', 0) \<and> polls s' = polls s + length bs \<and> poll_err s' = poll_err s \<and> ide_devices s' = ide_devices s \<and>
     (\<forall>d n. ide_disk s' d n = (if d = drv \<and> lba \<le> n \<and> n < lba + length bs then bs ! (n - lba) else ide_disk s d n))"
proof (induction bs arbitrary: s lba)
  case (Cons b bs)
  let ?s1 = "s\<lparr>polls := Suc (polls s), ide_disk := (ide_disk s)(drv := (ide_disk s drv)(lba := b))\<rparr>"
  have "\<forall>i < length bs. \<not> poll_err ?s1 (polls ?s1 + i)" using Cons.prems by auto
  from Cons.IH [OF this, of "Suc lba"] obtain s' where s': "write_loop bs ?s1 drv (Suc lba) = (s', 0)"
    "polls s' = Suc (polls s) + length bs" "poll_err s' = poll_err s" "ide_devices s' = ide_devices s"
    "\<forall>d n. ide_disk s' d n = (if d = drv \<and> Suc lba \<le> n \<and> n < Suc lba + length bs then bs ! (n - Suc lba)
        else ide_disk ?s1 d n)" by auto
  have "write_loop (b # bs) s drv lba = (s', 0)" using s'(1) Cons.prems by (force simp: ide_wait_ready_def)
  moreover have "ide_disk s' d n = (if d = drv \<and> lba \<le> n \<and> n < lba + length (b # bs) then (b # bs) ! (n - lba) else ide_disk s d n)" for d n
    by (cases "n = lba") (auto simp: s'(5) nth_Cons')
  ultimately show ?case using s' by auto
qed auto

lemma ide_read_secs_ok:
  assumes "nsecs \<le> MAX_NSECS" "VALID_IDE s ideno" "secno < MAX_DISK_NSECS" "secno + nsecs \<le> MAX_DISK_NSECS"
    "\<forall>i < unat nsecs. \<not> poll_err s (polls s + i)"
  shows "\<exists>s'. ide_read_secs s ideno secno nsecs = Ret (s', 0, map (ide_disk s ideno) [unat secno ..< unat secno + unat nsecs]) \<and>
     ide_disk s' = ide_disk s \<and> ide_devices s' = ide_devices s \<and> poll_err s' = poll_err s"
proof -
  let ?s1 = "ide_program s ideno secno nsecs"
  have "read_loop (unat nsecs) ?s1 ideno (unat secno) =
      (?s1\<lparr>polls := polls s + unat nsecs\<rparr>, 0, map (ide_disk s ideno) [unat secno ..< unat secno + unat nsecs])"
    using read_loop_ok [of "unat nsecs" ?s1 ideno "unat secno"] assms(5) by (simp add: ide_program_def)
  then show ?thesis using assms(1-4) by (simp add: ide_read_secs_def Let_def sel_program) (simp add: ide_program_def)
qed

lemma ide_write_secs_ok:
  assumes "length src \<le> 128" "VALID_IDE s ideno" "secno < MAX_DISK_NSECS" "secno + of_nat (length src) \<le> MAX_DISK_NSECS"
    "\<forall>i < length src. \<not> poll_err s (polls s + i)"
  shows "\<exists>s'. ide_write_secs s ideno secno src = Ret (s', 0) \<and> ide_devices s' = ide_devices s \<and> poll_err s' = poll_err s \<and>
     polls s' = polls s + length src \<and>
     (\<forall>d n. ide_disk s' d n = (if d = ideno \<and> unat secno \<le> n \<and> n < unat secno + length src
        then src ! (n - unat secno) else ide_disk s d n))"
proof -
  let ?s1 = "ide_program s ideno secno (of_nat (length src))"
  have "\<forall>i < length src. \<not> poll_err ?s1 (polls ?s1 + i)" using assms(5) by (simp add: ide_program_def)
  from write_loop_ok [OF this, of ideno "unat secno"] obtain s' where s': "write_loop src ?s1 ideno (unat secno) = (s', 0)"
    "polls s' = polls s + length src" "poll_err s' = poll_err s" "ide_devices s' = ide_devices s"
    "\<forall>d n. ide_disk s' d n = (if d = ideno \<and> unat secno \<le> n \<and> n < unat secno + length src
        then src ! (n - unat secno) else ide_disk s d n)" by (auto simp: ide_program_def)
  have "(of_nat (length src) :: u32) \<le> MAX_NSECS" using assms(1) by (simp add: MAX_NSECS_def word_le_nat_alt unat_of_nat_u32)
  then show ?thesis using s' assms(2-4) by (simp add: ide_write_secs_def Let_def sel_program)
qed

end
