(* ===== verification/Paging.thy ===== *)
theory Paging
  imports DefaultPmm Vma Ide
begin

text \<open>
  Page tables and swapping: \<^verbatim>\<open>kern/mm/pmm.c\<close> from \<open>alloc_pages\<close> to \<open>pgdir_alloc_page\<close>, the address
  macros of \<^verbatim>\<open>kern/mm/mmu.h\<close> and \<^verbatim>\<open>kern/mm/pmm.h\<close>, \<^verbatim>\<open>kern/mm/swap.c\<close> with the FIFO manager
  \<^verbatim>\<open>kern/mm/swap_fifo.c\<close> and \<^verbatim>\<open>kern/fs/swap/swapfs.c\<close>, and \<open>dup_mmap\<close>, \<open>exit_mmap\<close> and \<open>do_pgfault\<close>
  of \<^verbatim>\<open>kern/mm/vmm.c\<close>.

  Physical memory is an array of frames of 1024 words. All of it is mapped from \<open>KERNBASE\<close> on,
  so a kernel pointer to the start of a frame is the frame's number, and a pointer to a page
  table entry is a pair of frame number and index. The translation cache of the processor maps
  page numbers to the entries it has cached for the directory in \<open>cr3\<close>.
\<close>

subsection \<open>Addresses and entries (mmu.h)\<close>

definition PDX :: "u32 \<Rightarrow> nat" where "PDX la = unat (drop_bit 22 la AND 0x3FF)"
definition PTX :: "u32 \<Rightarrow> nat" where "PTX la = unat (drop_bit 12 la AND 0x3FF)"
definition PPN :: "u32 \<Rightarrow> u32" where "PPN la = drop_bit 12 la"
definition PGOFF :: "u32 \<Rightarrow> u32" where "PGOFF la = la AND 0xFFF"
definition PTE_ADDR :: "u32 \<Rightarrow> u32" where "PTE_ADDR pte = pte AND NOT 0xFFF"
definition PDE_ADDR :: "u32 \<Rightarrow> u32" where "PDE_ADDR pde = PTE_ADDR pde"
definition PTSIZE :: u32 where "PTSIZE = PGSIZE * 1024"

definition PTE_P :: u32 where "PTE_P = 1"
definition PTE_W :: u32 where "PTE_W = 2"
definition PTE_U :: u32 where "PTE_U = 4"
definition PTE_USER :: u32 where "PTE_USER = PTE_U OR PTE_W OR PTE_P"

subsection \<open>The state of the memory system\<close>

record mem_state =
  pmm :: pmm_state
  frames :: "nat \<Rightarrow> nat \<Rightarrow> u32"
  npage :: u32
  cr3 :: u32
  tlb :: "u32 \<rightharpoonup> u32"
  vm :: vm_state
  swap_init_ok :: bool
  check_mm_struct :: "nat option"
  pra_links :: "nat option links"
  max_swap_offset :: u32
  ide :: "(nat \<Rightarrow> u32) ide_state"
  pgfault_num :: u32

abbreviation upd_ref :: "nat \<Rightarrow> (int \<Rightarrow> int) \<Rightarrow> mem_state \<Rightarrow> mem_state" where
  "upd_ref p f s \<equiv> s\<lparr>pmm := upd_page p (ref_update f) (pmm s)\<rparr>"

abbreviation set_entry :: "nat \<Rightarrow> nat \<Rightarrow> u32 \<Rightarrow> mem_state \<Rightarrow> mem_state" where
  "set_entry f i e s \<equiv> s\<lparr>frames := (frames s)(f := (frames s f)(i := e))\<rparr>"

subsection \<open>Pages, physical and kernel addresses (pmm.h)\<close>

definition page2pa :: "nat \<Rightarrow> u32" where
  "page2pa p = push_bit 12 (of_nat p)"

definition pa2page :: "mem_state \<Rightarrow> u32 \<Rightarrow> nat outcome" where
  "pa2page s pa = (if PPN pa \<ge> npage s then Panic else Ret (unat (PPN pa)))"

text \<open>The frame that the kernel address \<open>KADDR(pa)\<close> points into.\<close>

definition KADDR :: "mem_state \<Rightarrow> u32 \<Rightarrow> nat outcome" where
  "KADDR s pa = (if PPN pa \<ge> npage s then Panic else Ret (unat (PPN pa)))"

definition page2kva :: "mem_state \<Rightarrow> nat \<Rightarrow> nat outcome" where
  "page2kva s p = KADDR s (page2pa p)"

definition pte2page :: "mem_state \<Rightarrow> u32 \<Rightarrow> nat outcome" where
  "pte2page s pte = (if pte AND PTE_P = 0 then Panic else pa2page s (PTE_ADDR pte))"

definition pde2page :: "mem_state \<Rightarrow> u32 \<Rightarrow> nat outcome" where
  "pde2page s pde = pa2page s (PDE_ADDR pde)"

definition page_ref :: "mem_state \<Rightarrow> nat \<Rightarrow> int" where
  "page_ref s p = ref (pages (pmm s) p)"

definition page_ref_inc :: "mem_state \<Rightarrow> nat \<Rightarrow> mem_state" where
  "page_ref_inc s p = upd_ref p (\<lambda>r. r + 1) s"

definition page_ref_dec :: "mem_state \<Rightarrow> nat \<Rightarrow> mem_state \<times> int" where
  "page_ref_dec s p = (let s1 = upd_ref p (\<lambda>r. r - 1) s in (s1, page_ref s1 p))"

subsection \<open>Freeing pages, the translation cache, walking a page table\<close>

text \<open>\<open>pm\<close> is the physical memory manager that the variable \<open>pmm_manager\<close> points to.\<close>

definition free_pages :: "pmm_state pmm_manager \<Rightarrow> mem_state \<Rightarrow> nat \<Rightarrow> u32 \<Rightarrow> mem_state outcome" where
  "free_pages pm s base n = bind_outcome (pm_free_pages pm (pmm s) base n) (\<lambda>m. Ret (s\<lparr>pmm := m\<rparr>))"

definition free_page :: "pmm_state pmm_manager \<Rightarrow> mem_state \<Rightarrow> nat \<Rightarrow> mem_state outcome" where
  "free_page pm s p = free_pages pm s p 1"

definition nr_free_pages :: "pmm_state pmm_manager \<Rightarrow> mem_state \<Rightarrow> u32" where
  "nr_free_pages pm s = pm_nr_free_pages pm (pmm s)"

definition tlb_invalidate :: "mem_state \<Rightarrow> nat \<Rightarrow> u32 \<Rightarrow> mem_state" where
  "tlb_invalidate s d la = (if cr3 s = page2pa d then s\<lparr>tlb := (tlb s)(PPN la := None)\<rparr> else s)"

text \<open>
  \<open>get_pte\<close> with the page allocator as a parameter, since the allocator's swapping itself walks
  page tables, without creating any.
\<close>

definition get_pte_with :: "(mem_state \<Rightarrow> (mem_state \<times> nat option) outcome) \<Rightarrow>
    mem_state \<Rightarrow> nat \<Rightarrow> u32 \<Rightarrow> bool \<Rightarrow> (mem_state \<times> (nat \<times> nat) option) outcome" where
  "get_pte_with alloc s d la create =
     bind_outcome
       (if frames s d (PDX la) AND PTE_P = 0 then
          if \<not> create then Ret (s, False)
          else bind_outcome (alloc s) (\<lambda>(s1, r). case r of
                 None \<Rightarrow> Ret (s1, False)
               | Some p \<Rightarrow>
                   let s2 = upd_ref p (\<lambda>_. 1) s1; pa = page2pa p
                   in bind_outcome (KADDR s2 pa)
                        (\<lambda>f. Ret (set_entry d (PDX la) (pa OR PTE_U OR PTE_W OR PTE_P)
                                   (s2\<lparr>frames := (frames s2)(f := \<lambda>_. 0)\<rparr>), True)))
        else Ret (s, True))
       (\<lambda>(s', there).
          if \<not> there then Ret (s', None)
          else bind_outcome (KADDR s' (PDE_ADDR (frames s' d (PDX la)))) (\<lambda>f. Ret (s', Some (f, PTX la))))"

text \<open>A walk without creation never allocates.\<close>

definition find_pte :: "mem_state \<Rightarrow> nat \<Rightarrow> u32 \<Rightarrow> (mem_state \<times> (nat \<times> nat) option) outcome" where
  "find_pte s d la = get_pte_with (\<lambda>_. Panic) s d la False"

subsection \<open>The swap area (swapfs.c)\<close>

definition SWAP_DEV_NO :: nat where "SWAP_DEV_NO = 1"
definition PAGE_NSECT :: u32 where "PAGE_NSECT = 8"
definition MAX_SWAP_OFFSET_LIMIT :: u32 where "MAX_SWAP_OFFSET_LIMIT = push_bit 24 1"

definition swap_offset :: "mem_state \<Rightarrow> u32 \<Rightarrow> u32 outcome" where
  "swap_offset s entry =
     (let off = drop_bit 8 entry in if \<not> (off > 0 \<and> off < max_swap_offset s) then Panic else Ret off)"

text \<open>The eight sectors of a frame, and a frame after a prefix of its sectors was read into it.\<close>

definition frame_sectors :: "(nat \<Rightarrow> u32) \<Rightarrow> (nat \<Rightarrow> u32) list" where
  "frame_sectors f = map (\<lambda>k j. f (128 * k + j)) [0 ..< 8]"

definition load_sectors :: "(nat \<Rightarrow> u32) \<Rightarrow> (nat \<Rightarrow> u32) list \<Rightarrow> nat \<Rightarrow> u32" where
  "load_sectors f buf = (\<lambda>i. if i div 128 < length buf then (buf ! (i div 128)) (i mod 128) else f i)"

definition swapfs_init :: "mem_state \<Rightarrow> mem_state outcome" where
  "swapfs_init s =
     (if \<not> ide_device_valid (ide s) SWAP_DEV_NO then Panic
      else Ret (s\<lparr>max_swap_offset := ide_device_size (ide s) SWAP_DEV_NO div PAGE_NSECT\<rparr>))"

definition swapfs_read :: "mem_state \<Rightarrow> u32 \<Rightarrow> nat \<Rightarrow> (mem_state \<times> int) outcome" where
  "swapfs_read s entry p =
     bind_outcome (swap_offset s entry) (\<lambda>off.
     bind_outcome (page2kva s p) (\<lambda>f.
     bind_outcome (ide_read_secs (ide s) SWAP_DEV_NO (off * PAGE_NSECT) PAGE_NSECT) (\<lambda>(d, r, buf).
       Ret (s\<lparr>ide := d, frames := (frames s)(f := load_sectors (frames s f) buf)\<rparr>, r))))"

definition swapfs_write :: "mem_state \<Rightarrow> u32 \<Rightarrow> nat \<Rightarrow> (mem_state \<times> int) outcome" where
  "swapfs_write s entry p =
     bind_outcome (swap_offset s entry) (\<lambda>off.
     bind_outcome (page2kva s p) (\<lambda>f.
     bind_outcome (ide_write_secs (ide s) SWAP_DEV_NO (off * PAGE_NSECT) (frame_sectors (frames s f))) (\<lambda>(d, r).
       Ret (s\<lparr>ide := d\<rparr>, r))))"

subsection \<open>The FIFO swap manager (swap_fifo.c)\<close>

text \<open>
  In \<open>pra_links\<close>, \<open>None\<close> is the one static list head \<open>pra_list_head\<close> and \<open>Some p\<close> the
  \<open>pra_page_link\<close> of page \<open>p\<close>. \<open>sm_priv = Some 0\<close> is the address of that head. Following a null
  address space pointer faults in the kernel.
\<close>

record swap_manager =
  sm_init :: int
  sm_init_mm :: "mem_state \<Rightarrow> nat option \<Rightarrow> (mem_state \<times> int) outcome"
  sm_tick_event :: "mem_state \<Rightarrow> nat option \<Rightarrow> int"
  sm_map_swappable :: "mem_state \<Rightarrow> nat option \<Rightarrow> u32 \<Rightarrow> nat \<Rightarrow> bool \<Rightarrow> (mem_state \<times> int) outcome"
  sm_set_unswappable :: "mem_state \<Rightarrow> nat option \<Rightarrow> u32 \<Rightarrow> int"
  sm_swap_out_victim :: "mem_state \<Rightarrow> nat option \<Rightarrow> bool \<Rightarrow> (mem_state \<times> nat \<times> int) outcome"

definition fifo_init_mm :: "mem_state \<Rightarrow> nat option \<Rightarrow> (mem_state \<times> int) outcome" where
  "fifo_init_mm s mm =
     (case mm of
        None \<Rightarrow> Panic
      | Some m \<Rightarrow> Ret (s\<lparr>pra_links := list_init (pra_links s) None,
                        vm := upd_mm m (sm_priv_update (\<lambda>_. Some 0)) (vm s)\<rparr>, 0))"

definition fifo_map_swappable :: "mem_state \<Rightarrow> nat option \<Rightarrow> u32 \<Rightarrow> nat \<Rightarrow> bool \<Rightarrow> (mem_state \<times> int) outcome" where
  "fifo_map_swappable s mm addr p swap_in =
     (case mm of
        None \<Rightarrow> Panic
      | Some m \<Rightarrow> assert_then (sm_priv (mms (vm s) m) \<noteq> None)
                   (Ret (s\<lparr>pra_links := list_add (pra_links s) None (Some p)\<rparr>, 0)))"

definition fifo_swap_out_victim :: "mem_state \<Rightarrow> nat option \<Rightarrow> bool \<Rightarrow> (mem_state \<times> nat \<times> int) outcome" where
  "fifo_swap_out_victim s mm in_tick =
     (case mm of
        None \<Rightarrow> Panic
      | Some m \<Rightarrow> assert_then (sm_priv (mms (vm s) m) \<noteq> None)
                   (assert_then (\<not> in_tick)
                     (case list_prev (pra_links s) None of
                        None \<Rightarrow> Panic
                      | Some p \<Rightarrow> Ret (s\<lparr>pra_links := list_del (pra_links s) (Some p)\<rparr>, p, 0))))"

definition swap_manager_fifo :: swap_manager where
  "swap_manager_fifo =
     \<lparr>sm_init = 0, sm_init_mm = fifo_init_mm, sm_tick_event = \<lambda>_ _. 0, sm_map_swappable = fifo_map_swappable,
      sm_set_unswappable = \<lambda>_ _ _. 0, sm_swap_out_victim = fifo_swap_out_victim\<rparr>"

subsection \<open>Swapping out (swap.c)\<close>

definition swap_init :: "swap_manager \<Rightarrow> mem_state \<Rightarrow> (mem_state \<times> int) outcome" where
  "swap_init sm s =
     bind_outcome (swapfs_init s) (\<lambda>s1.
       if \<not> (1024 \<le> max_swap_offset s1 \<and> max_swap_offset s1 < MAX_SWAP_OFFSET_LIMIT) then Panic
       else Ret (if sm_init sm = 0 then s1\<lparr>swap_init_ok := True\<rparr> else s1, sm_init sm))"

definition swap_init_mm :: "swap_manager \<Rightarrow> mem_state \<Rightarrow> nat option \<Rightarrow> (mem_state \<times> int) outcome" where
  "swap_init_mm sm s mm = sm_init_mm sm s mm"

definition swap_map_swappable :: "swap_manager \<Rightarrow> mem_state \<Rightarrow> nat option \<Rightarrow> u32 \<Rightarrow> nat \<Rightarrow> bool \<Rightarrow> (mem_state \<times> int) outcome" where
  "swap_map_swappable sm s mm addr p swap_in = sm_map_swappable sm s mm addr p swap_in"

text \<open>\<open>(page->pra_vaddr/PGSIZE+1)<<8\<close>.\<close>

definition swap_entry_of :: "u32 \<Rightarrow> u32" where
  "swap_entry_of v = push_bit 8 (v div PGSIZE + 1)"

text \<open>
  One round of the loop of \<open>swap_out\<close>, and whether it breaks out of the loop. Reading the entry
  through a null pointer faults.
\<close>

definition swap_out_round :: "pmm_state pmm_manager \<Rightarrow> swap_manager \<Rightarrow> mem_state \<Rightarrow> nat option \<Rightarrow> bool \<Rightarrow> (mem_state \<times> bool) outcome" where
  "swap_out_round pm sm s mm in_tick =
     bind_outcome (sm_swap_out_victim sm s mm in_tick) (\<lambda>(s1, p, r).
       if r \<noteq> 0 then Ret (s1, True)
       else
         let v = pra_vaddr (pages (pmm s1) p) in
         case mm of None \<Rightarrow> Panic | Some m \<Rightarrow>
         case pgdir (mms (vm s1) m) of None \<Rightarrow> Panic | Some d \<Rightarrow>
         bind_outcome (find_pte s1 d v) (\<lambda>(s2, ptep).
           case ptep of None \<Rightarrow> Panic | Some (t, j) \<Rightarrow>
           assert_then (frames s2 t j AND PTE_P \<noteq> 0)
             (bind_outcome (swapfs_write s2 (swap_entry_of v) p) (\<lambda>(s3, w).
                if w \<noteq> 0 then bind_outcome (sm_map_swappable sm s3 mm v p False) (\<lambda>(s4, _). Ret (s4, False))
                else bind_outcome (free_page pm (set_entry t j (swap_entry_of v) s3) p)
                       (\<lambda>s4. Ret (tlb_invalidate s4 d v, False))))))"

fun swap_out_loop :: "nat \<Rightarrow> pmm_state pmm_manager \<Rightarrow> swap_manager \<Rightarrow> mem_state \<Rightarrow> nat option \<Rightarrow> bool \<Rightarrow> nat \<Rightarrow> (mem_state \<times> nat) outcome" where
  "swap_out_loop 0 pm sm s mm in_tick i = Ret (s, i)"
| "swap_out_loop (Suc k) pm sm s mm in_tick i =
     bind_outcome (swap_out_round pm sm s mm in_tick)
       (\<lambda>(s1, stop). if stop then Ret (s1, i) else swap_out_loop k pm sm s1 mm in_tick (Suc i))"

definition swap_out :: "pmm_state pmm_manager \<Rightarrow> swap_manager \<Rightarrow> mem_state \<Rightarrow> nat option \<Rightarrow> nat \<Rightarrow> bool \<Rightarrow> (mem_state \<times> nat) outcome" where
  "swap_out pm sm s mm n in_tick = swap_out_loop n pm sm s mm in_tick 0"

subsection \<open>Allocating pages, swapping in\<close>

text \<open>The loop of \<open>alloc_pages\<close> swaps pages out until the manager has one, and may never end.\<close>

partial_function (option) alloc_loop ::
  "pmm_state pmm_manager \<Rightarrow> swap_manager \<Rightarrow> mem_state \<Rightarrow> u32 \<Rightarrow> (mem_state \<times> nat option) outcome option" where
  "alloc_loop pm sm s n =
     (case pm_alloc_pages pm (pmm s) n of
        Panic \<Rightarrow> Some Panic
      | Ret (m, r) \<Rightarrow>
          let s1 = s\<lparr>pmm := m\<rparr> in
          if r \<noteq> None \<or> n > 1 \<or> \<not> swap_init_ok s1 then Some (Ret (s1, r))
          else case swap_out pm sm s1 (check_mm_struct s1) (unat n) False of
                 Panic \<Rightarrow> Some Panic
               | Ret (s2, _) \<Rightarrow> alloc_loop pm sm s2 n)"

definition alloc_pages :: "pmm_state pmm_manager \<Rightarrow> swap_manager \<Rightarrow> mem_state \<Rightarrow> u32 \<Rightarrow> (mem_state \<times> nat option) outcome" where
  "alloc_pages pm sm s n = (case alloc_loop pm sm s n of None \<Rightarrow> Panic | Some r \<Rightarrow> r)"

definition alloc_page :: "pmm_state pmm_manager \<Rightarrow> swap_manager \<Rightarrow> mem_state \<Rightarrow> (mem_state \<times> nat option) outcome" where
  "alloc_page pm sm s = alloc_pages pm sm s 1"

definition get_pte :: "pmm_state pmm_manager \<Rightarrow> swap_manager \<Rightarrow> mem_state \<Rightarrow> nat \<Rightarrow> u32 \<Rightarrow> bool \<Rightarrow> (mem_state \<times> (nat \<times> nat) option) outcome" where
  "get_pte pm sm = get_pte_with (alloc_page pm sm)"

definition swap_in :: "pmm_state pmm_manager \<Rightarrow> swap_manager \<Rightarrow> mem_state \<Rightarrow> nat \<Rightarrow> u32 \<Rightarrow> (mem_state \<times> nat \<times> int) outcome" where
  "swap_in pm sm s m addr =
     bind_outcome (alloc_page pm sm s) (\<lambda>(s1, r).
       case r of None \<Rightarrow> Panic | Some p \<Rightarrow>
       case pgdir (mms (vm s1) m) of None \<Rightarrow> Panic | Some d \<Rightarrow>
       bind_outcome (get_pte pm sm s1 d addr False) (\<lambda>(s2, ptep).
         case ptep of None \<Rightarrow> Panic | Some (t, j) \<Rightarrow>
         bind_outcome (swapfs_read s2 (frames s2 t j) p) (\<lambda>(s3, _). Ret (s3, p, 0))))"

subsection \<open>Mapping and unmapping pages\<close>

definition get_page :: "pmm_state pmm_manager \<Rightarrow> swap_manager \<Rightarrow> mem_state \<Rightarrow> nat \<Rightarrow> u32 \<Rightarrow> (nat option \<times> (nat \<times> nat) option) outcome" where
  "get_page pm sm s d la =
     bind_outcome (get_pte pm sm s d la False) (\<lambda>(s1, ptep).
       case ptep of
         None \<Rightarrow> Ret (None, None)
       | Some (t, j) \<Rightarrow>
           if frames s1 t j AND PTE_P \<noteq> 0 then bind_outcome (pte2page s1 (frames s1 t j)) (\<lambda>p. Ret (Some p, ptep))
           else Ret (None, ptep))"

definition page_remove_pte :: "pmm_state pmm_manager \<Rightarrow> mem_state \<Rightarrow> nat \<Rightarrow> u32 \<Rightarrow> nat \<times> nat \<Rightarrow> mem_state outcome" where
  "page_remove_pte pm s d la ptep =
     (case ptep of (t, j) \<Rightarrow>
        if frames s t j AND PTE_P = 0 then Ret s
        else bind_outcome (pte2page s (frames s t j)) (\<lambda>p.
               case page_ref_dec s p of (s1, r) \<Rightarrow>
                 bind_outcome (if r = 0 then free_page pm s1 p else Ret s1)
                   (\<lambda>s2. Ret (tlb_invalidate (set_entry t j 0 s2) d la))))"

definition page_remove :: "pmm_state pmm_manager \<Rightarrow> swap_manager \<Rightarrow> mem_state \<Rightarrow> nat \<Rightarrow> u32 \<Rightarrow> mem_state outcome" where
  "page_remove pm sm s d la =
     bind_outcome (get_pte pm sm s d la False) (\<lambda>(s1, ptep).
       case ptep of None \<Rightarrow> Ret s1 | Some tj \<Rightarrow> page_remove_pte pm s1 d la tj)"

definition page_insert :: "pmm_state pmm_manager \<Rightarrow> swap_manager \<Rightarrow> mem_state \<Rightarrow> nat \<Rightarrow> nat \<Rightarrow> u32 \<Rightarrow> u32 \<Rightarrow> (mem_state \<times> int) outcome" where
  "page_insert pm sm s d p la perm =
     bind_outcome (get_pte pm sm s d la True) (\<lambda>(s1, ptep).
       case ptep of
         None \<Rightarrow> Ret (s1, - E_NO_MEM)
       | Some (t, j) \<Rightarrow>
           let s2 = page_ref_inc s1 p in
           bind_outcome
             (if frames s2 t j AND PTE_P \<noteq> 0 then
                bind_outcome (pte2page s2 (frames s2 t j))
                  (\<lambda>q. if q = p then Ret (fst (page_ref_dec s2 p)) else page_remove_pte pm s2 d la (t, j))
              else Ret s2)
             (\<lambda>s3. Ret (tlb_invalidate (set_entry t j (page2pa p OR PTE_P OR perm) s3) d la, 0)))"

definition pgdir_alloc_page :: "pmm_state pmm_manager \<Rightarrow> swap_manager \<Rightarrow> mem_state \<Rightarrow> nat \<Rightarrow> u32 \<Rightarrow> u32 \<Rightarrow> (mem_state \<times> nat option) outcome" where
  "pgdir_alloc_page pm sm s d la perm =
     bind_outcome (alloc_page pm sm s) (\<lambda>(s1, r).
       case r of
         None \<Rightarrow> Ret (s1, None)
       | Some p \<Rightarrow>
           bind_outcome (page_insert pm sm s1 d p la perm) (\<lambda>(s2, ret).
             if ret \<noteq> 0 then bind_outcome (free_page pm s2 p) (\<lambda>s3. Ret (s3, None))
             else if swap_init_ok s2 \<and> check_mm_struct s2 \<noteq> None then
               bind_outcome (swap_map_swappable sm s2 (check_mm_struct s2) la p False) (\<lambda>(s3, _).
                 let s4 = s3\<lparr>pmm := upd_page p (pra_vaddr_update (\<lambda>_. la)) (pmm s3)\<rparr>
                 in assert_then (page_ref s4 p = 1) (Ret (s4, Some p)))
             else Ret (s2, Some p)))"

text \<open>The do-while loops over a range of user addresses; the test comes after the body.\<close>

partial_function (option) unmap_loop ::
  "pmm_state pmm_manager \<Rightarrow> swap_manager \<Rightarrow> mem_state \<Rightarrow> nat \<Rightarrow> u32 \<Rightarrow> u32 \<Rightarrow> mem_state outcome option" where
  "unmap_loop pm sm s d start end' =
     (case get_pte pm sm s d start False of
        Panic \<Rightarrow> Some Panic
      | Ret (s1, None) \<Rightarrow>
          let start1 = ROUNDDOWN (start + PTSIZE) PTSIZE
          in if start1 \<noteq> 0 \<and> start1 < end' then unmap_loop pm sm s1 d start1 end' else Some (Ret s1)
      | Ret (s1, Some tj) \<Rightarrow>
          (case (if frames s1 (fst tj) (snd tj) \<noteq> 0 then page_remove_pte pm s1 d start tj else Ret s1) of
             Panic \<Rightarrow> Some Panic
           | Ret s2 \<Rightarrow>
               let start1 = start + PGSIZE
               in if start1 \<noteq> 0 \<and> start1 < end' then unmap_loop pm sm s2 d start1 end' else Some (Ret s2)))"

definition unmap_range :: "pmm_state pmm_manager \<Rightarrow> swap_manager \<Rightarrow> mem_state \<Rightarrow> nat \<Rightarrow> u32 \<Rightarrow> u32 \<Rightarrow> mem_state outcome" where
  "unmap_range pm sm s d start end' =
     assert_then (start mod PGSIZE = 0 \<and> end' mod PGSIZE = 0)
       (assert_then (USER_ACCESS start end')
         (case unmap_loop pm sm s d start end' of None \<Rightarrow> Panic | Some r \<Rightarrow> r))"

partial_function (option) exit_loop ::
  "pmm_state pmm_manager \<Rightarrow> mem_state \<Rightarrow> nat \<Rightarrow> u32 \<Rightarrow> u32 \<Rightarrow> mem_state outcome option" where
  "exit_loop pm s d start end' =
     (let e = frames s d (PDX start) in
      case (if e AND PTE_P \<noteq> 0 then
              bind_outcome (pde2page s e) (\<lambda>p. bind_outcome (free_page pm s p) (\<lambda>s1. Ret (set_entry d (PDX start) 0 s1)))
            else Ret s) of
        Panic \<Rightarrow> Some Panic
      | Ret s1 \<Rightarrow>
          let start1 = start + PTSIZE
          in if start1 \<noteq> 0 \<and> start1 < end' then exit_loop pm s1 d start1 end' else Some (Ret s1))"

definition exit_range :: "pmm_state pmm_manager \<Rightarrow> mem_state \<Rightarrow> nat \<Rightarrow> u32 \<Rightarrow> u32 \<Rightarrow> mem_state outcome" where
  "exit_range pm s d start end' =
     assert_then (start mod PGSIZE = 0 \<and> end' mod PGSIZE = 0)
       (assert_then (USER_ACCESS start end')
         (case exit_loop pm s d (ROUNDDOWN start PTSIZE) end' of None \<Rightarrow> Panic | Some r \<Rightarrow> r))"

text \<open>The body of \<open>copy_range\<close> on a present entry: a new page with the same contents.\<close>

definition copy_entry :: "pmm_state pmm_manager \<Rightarrow> swap_manager \<Rightarrow> mem_state \<Rightarrow> nat \<Rightarrow> u32 \<Rightarrow> nat \<times> nat \<Rightarrow> (mem_state \<times> int) outcome" where
  "copy_entry pm sm s to start tj =
     bind_outcome (get_pte pm sm s to start True) (\<lambda>(s1, nptep).
       case nptep of
         None \<Rightarrow> Ret (s1, - E_NO_MEM)
       | Some _ \<Rightarrow>
           let e = frames s1 (fst tj) (snd tj) in
           bind_outcome (pte2page s1 e) (\<lambda>p.
           bind_outcome (alloc_page pm sm s1) (\<lambda>(s2, r).
             case r of None \<Rightarrow> Panic | Some np \<Rightarrow>
             bind_outcome (page2kva s2 p) (\<lambda>src.
             bind_outcome (page2kva s2 np) (\<lambda>dst.
             bind_outcome (page_insert pm sm (s2\<lparr>frames := (frames s2)(dst := frames s2 src)\<rparr>) to np start (e AND PTE_USER))
               (\<lambda>(s3, ret). assert_then (ret = 0) (Ret (s3, 0))))))))"

partial_function (option) copy_loop ::
  "pmm_state pmm_manager \<Rightarrow> swap_manager \<Rightarrow> mem_state \<Rightarrow> nat \<Rightarrow> nat \<Rightarrow> u32 \<Rightarrow> u32 \<Rightarrow> (mem_state \<times> int) outcome option" where
  "copy_loop pm sm s to from' start end' =
     (case get_pte pm sm s from' start False of
        Panic \<Rightarrow> Some Panic
      | Ret (s1, None) \<Rightarrow>
          let start1 = ROUNDDOWN (start + PTSIZE) PTSIZE
          in if start1 \<noteq> 0 \<and> start1 < end' then copy_loop pm sm s1 to from' start1 end' else Some (Ret (s1, 0))
      | Ret (s1, Some tj) \<Rightarrow>
          (case (if frames s1 (fst tj) (snd tj) AND PTE_P \<noteq> 0 then copy_entry pm sm s1 to start tj else Ret (s1, 0)) of
             Panic \<Rightarrow> Some Panic
           | Ret (s2, r) \<Rightarrow>
               let start1 = start + PGSIZE
               in if r \<noteq> 0 then Some (Ret (s2, r))
                  else if start1 \<noteq> 0 \<and> start1 < end' then copy_loop pm sm s2 to from' start1 end'
                  else Some (Ret (s2, 0))))"

definition copy_range :: "pmm_state pmm_manager \<Rightarrow> swap_manager \<Rightarrow> mem_state \<Rightarrow> nat \<Rightarrow> nat \<Rightarrow> u32 \<Rightarrow> u32 \<Rightarrow> (mem_state \<times> int) outcome" where
  "copy_range pm sm s to from' start end' =
     assert_then (start mod PGSIZE = 0 \<and> end' mod PGSIZE = 0)
       (assert_then (USER_ACCESS start end')
         (case copy_loop pm sm s to from' start end' of None \<Rightarrow> Panic | Some r \<Rightarrow> r))"

text \<open>The loop of \<open>boot_map_segment\<close>.\<close>

fun map_segment_loop :: "nat \<Rightarrow> pmm_state pmm_manager \<Rightarrow> swap_manager \<Rightarrow> mem_state \<Rightarrow> nat \<Rightarrow> u32 \<Rightarrow> u32 \<Rightarrow> u32 \<Rightarrow> mem_state outcome" where
  "map_segment_loop 0 pm sm s d la pa perm = Ret s"
| "map_segment_loop (Suc n) pm sm s d la pa perm =
     bind_outcome (get_pte pm sm s d la True) (\<lambda>(s1, ptep).
       case ptep of None \<Rightarrow> Panic
       | Some (t, j) \<Rightarrow> map_segment_loop n pm sm (set_entry t j (pa OR PTE_P OR perm) s1) d (la + PGSIZE) (pa + PGSIZE) perm)"

definition boot_map_segment :: "pmm_state pmm_manager \<Rightarrow> swap_manager \<Rightarrow> mem_state \<Rightarrow> nat \<Rightarrow> u32 \<Rightarrow> u32 \<Rightarrow> u32 \<Rightarrow> u32 \<Rightarrow> mem_state outcome" where
  "boot_map_segment pm sm s d la sz pa perm =
     assert_then (PGOFF la = PGOFF pa)
       (map_segment_loop (unat (ROUNDUP (sz + PGOFF la) PGSIZE div PGSIZE)) pm sm s d
          (ROUNDDOWN la PGSIZE) (ROUNDDOWN pa PGSIZE) perm)"

subsection \<open>Address spaces: copy, exit and page faults (vmm.c)\<close>

text \<open>
  \<open>dup_mmap\<close> walks the areas backwards. \<open>km i\<close> is what \<open>kmalloc\<close> returns for the i-th new area.
\<close>

partial_function (option) dup_loop ::
  "pmm_state pmm_manager \<Rightarrow> swap_manager \<Rightarrow> (nat \<Rightarrow> nat option) \<Rightarrow> nat \<Rightarrow> mem_state \<Rightarrow> nat \<Rightarrow> nat \<Rightarrow> vma_node \<Rightarrow> (mem_state \<times> int) outcome option" where
  "dup_loop pm sm km i s to from' le =
     (case list_prev (vma_links (vm s)) le of
        VHead _ \<Rightarrow> Some (Ret (s, 0))
      | VLink v \<Rightarrow>
          let x = vmas (vm s) v in
          (case vma_create (km i) (vm s) (vm_start x) (vm_end x) (vm_flags x) of
             (_, None) \<Rightarrow> Some (Ret (s, - E_NO_MEM))
           | (w, Some nv) \<Rightarrow>
               (case insert_vma_struct w to nv of
                  Panic \<Rightarrow> Some Panic
                | Ret w1 \<Rightarrow>
                    let s1 = s\<lparr>vm := w1\<rparr> in
                    (case (pgdir (mms w1 to), pgdir (mms w1 from')) of
                       (Some dt, Some df) \<Rightarrow>
                         (case copy_range pm sm s1 dt df (vm_start x) (vm_end x) of
                            Panic \<Rightarrow> Some Panic
                          | Ret (s2, r) \<Rightarrow> if r \<noteq> 0 then Some (Ret (s2, - E_NO_MEM))
                                          else dup_loop pm sm km (Suc i) s2 to from' (VLink v))
                     | _ \<Rightarrow> Some Panic))))"

definition dup_mmap :: "pmm_state pmm_manager \<Rightarrow> swap_manager \<Rightarrow> (nat \<Rightarrow> nat option) \<Rightarrow> mem_state \<Rightarrow> nat \<Rightarrow> nat \<Rightarrow> (mem_state \<times> int) outcome" where
  "dup_mmap pm sm km s to from' =
     (case dup_loop pm sm km 0 s to from' (VHead from') of None \<Rightarrow> Panic | Some r \<Rightarrow> r)"

text \<open>Both loops of \<open>exit_mmap\<close> walk the areas forwards and apply an operation to each.\<close>

partial_function (option) each_vma ::
  "(mem_state \<Rightarrow> vma_struct \<Rightarrow> mem_state outcome) \<Rightarrow> mem_state \<Rightarrow> vma_node \<Rightarrow> mem_state outcome option" where
  "each_vma f s le =
     (case list_next (vma_links (vm s)) le of
        VHead _ \<Rightarrow> Some (Ret s)
      | VLink v \<Rightarrow>
          (case f s (vmas (vm s) v) of Panic \<Rightarrow> Some Panic | Ret s1 \<Rightarrow> each_vma f s1 (VLink v)))"

definition exit_mmap :: "pmm_state pmm_manager \<Rightarrow> swap_manager \<Rightarrow> mem_state \<Rightarrow> nat \<Rightarrow> mem_state outcome" where
  "exit_mmap pm sm s m =
     assert_then (mm_count (mms (vm s) m) = 0)
       (case pgdir (mms (vm s) m) of
          None \<Rightarrow> Panic
        | Some d \<Rightarrow>
            bind_outcome (of_option (each_vma (\<lambda>s x. unmap_range pm sm s d (vm_start x) (vm_end x)) s (VHead m)))
              (\<lambda>r. bind_outcome r
                 (\<lambda>s1. bind_outcome (of_option (each_vma (\<lambda>s x. exit_range pm s d (vm_start x) (vm_end x)) s1 (VHead m))) (\<lambda>r. r))))"

definition do_pgfault :: "pmm_state pmm_manager \<Rightarrow> swap_manager \<Rightarrow> mem_state \<Rightarrow> nat option \<Rightarrow> u32 \<Rightarrow> u32 \<Rightarrow> (mem_state \<times> int) outcome" where
  "do_pgfault pm sm s mm error_code addr =
     bind_outcome (find_vma (vm s) mm addr) (\<lambda>(w, r).
       let s1 = s\<lparr>vm := w, pgfault_num := pgfault_num s + 1\<rparr> in
       case (mm, r) of
         (Some m, Some v) \<Rightarrow>
           let x = vmas w v in
           if vm_start x > addr then Ret (s1, - E_INVAL)
           else if error_code AND 3 = 1 then Ret (s1, - E_INVAL)
           else if error_code AND 3 = 0 \<and> vm_flags x AND (VM_READ OR VM_EXEC) = 0 then Ret (s1, - E_INVAL)
           else if error_code AND 3 \<noteq> 0 \<and> vm_flags x AND VM_WRITE = 0 then Ret (s1, - E_INVAL)
           else
             let perm = (if vm_flags x AND VM_WRITE \<noteq> 0 then PTE_U OR PTE_W else PTE_U);
                 la = ROUNDDOWN addr PGSIZE
             in case pgdir (mms w m) of
                  None \<Rightarrow> Panic
                | Some d \<Rightarrow>
                    bind_outcome (get_pte pm sm s1 d la True) (\<lambda>(s2, ptep).
                      case ptep of
                        None \<Rightarrow> Ret (s2, - E_NO_MEM)
                      | Some (t, j) \<Rightarrow>
                          if frames s2 t j = 0 then
                            bind_outcome (pgdir_alloc_page pm sm s2 d la perm)
                              (\<lambda>(s3, pg). Ret (s3, if pg = None then - E_NO_MEM else 0))
                          else if frames s2 t j AND PTE_P \<noteq> 0 then Panic
                          else if \<not> swap_init_ok s2 then Ret (s2, - E_NO_MEM)
                          else
                            bind_outcome (swap_in pm sm s2 m la) (\<lambda>(s3, p, ret).
                              if ret \<noteq> 0 then Ret (s3, ret)
                              else bind_outcome (page_insert pm sm s3 d p la perm) (\<lambda>(s4, _).
                                     bind_outcome (swap_map_swappable sm s4 (Some m) la p True)
                                       (\<lambda>(s5, _). Ret (s5, 0)))))
       | _ \<Rightarrow> Ret (s1, - E_INVAL))"

end
