(* ===== verification/PageTables.thy ===== *)
theory PageTables
  imports Paging
begin

text \<open>
  What the page-table code of the theory \<^verbatim>\<open>Paging\<close> keeps true: the reference count of a page is the
  number of user entries that map it, mapped pages and page tables are never free, and page
  tables are not shared. The lemmas are proved for any page allocator that keeps the contract
  \<open>page_allocator\<close> and treats reference counts as the default manager does.
\<close>

subsection \<open>Entries and addresses as numbers\<close>

abbreviation present :: "u32 \<Rightarrow> bool" where
  "present e \<equiv> e AND PTE_P \<noteq> 0"

definition ppn :: "u32 \<Rightarrow> nat" where
  "ppn e = unat (PPN e)"

lemma and_PTE_P: "e AND PTE_P = 0 \<longleftrightarrow> \<not> bit e 0"
  by (simp add: PTE_P_def and_one_eq mod2_eq_if bit_0)

lemma present_OR: "present (a OR b) \<longleftrightarrow> present a \<or> present b"
  by (simp add: and_PTE_P bit_or_iff)

lemma present_P [simp]: "present PTE_P" "PTE_P \<noteq> 0"
  by (simp_all add: PTE_P_def)

lemma not_present_0 [simp]: "\<not> present 0"
  by simp

lemma PPN_ADDR [simp]: "PPN (PTE_ADDR e) = PPN e" "PPN (PDE_ADDR e) = PPN e"
proof -
  have m: "(0xFFF :: u32) = mask 12" by (simp add: mask_eq_exp_minus_1)
  show "PPN (PTE_ADDR e) = PPN e" unfolding PPN_def PTE_ADDR_def m
    by (intro bit_word_eqI) (use bit_imp_le_length [of e] in \<open>fastforce simp: bit_simps simp del: mask_numeral\<close>)
  then show "PPN (PDE_ADDR e) = PPN e" by (simp add: PDE_ADDR_def)
qed

lemma PPN_OR: "PPN (a OR b) = PPN a OR PPN b"
  by (simp add: PPN_def)

lemma PPN_flags [simp]: "PPN PTE_P = 0" "PPN PTE_W = 0" "PPN PTE_U = 0" "PPN 0 = 0"
  by (simp_all add: PPN_def PTE_P_def PTE_W_def PTE_U_def drop_bit_eq_div)

lemma PPN_page2pa: "p < 2 ^ 20 \<Longrightarrow> PPN (page2pa p) = of_nat p"
proof -
  assume p: "p < 2 ^ 20"
  have "unat (drop_bit 12 (push_bit 12 (of_nat p :: u32))) = p"
  proof -
    have "unat (push_bit 12 (of_nat p :: u32)) = p * 2 ^ 12"
      using p by (simp add: push_bit_eq_mult unat_word_ariths unat_of_nat)
    then show ?thesis by (simp only: unat_drop_bit_eq) (simp add: drop_bit_eq_div)
  qed
  then show ?thesis using p by (simp add: PPN_def page2pa_def word_unat_eq_iff unat_of_nat_u32)
qed

lemma ppn_entry:
  assumes "p < 2 ^ 20" "PPN fl = 0"
  shows "ppn (page2pa p OR fl) = p"
  using assms by (simp add: ppn_def PPN_OR PPN_page2pa unat_of_nat)

lemma ppn_0 [simp]: "ppn 0 = 0"
  by (simp add: ppn_def)

lemma PDX_nat: "PDX la = unat la div 2 ^ 22"
proof -
  have "(0x3FF :: u32) = mask 10" by (simp add: mask_eq_exp_minus_1)
  then have "drop_bit 22 la AND 0x3FF = take_bit 10 (drop_bit 22 la)" by (simp only: take_bit_eq_mask)
  then show ?thesis using unat_u32_less [of la]
    by (simp add: PDX_def unsigned_take_bit_eq take_bit_eq_mod unat_drop_bit_eq drop_bit_eq_div [where 'a = nat] less_mult_imp_div_less unat_mod)
qed

lemma PTX_nat: "PTX la = unat la div 2 ^ 12 mod 1024"
proof -
  have "(0x3FF :: u32) = mask 10" by (simp add: mask_eq_exp_minus_1)
  then have "drop_bit 12 la AND 0x3FF = take_bit 10 (drop_bit 12 la)" by (simp only: take_bit_eq_mask)
  then show ?thesis
    by (simp add: PTX_def unsigned_take_bit_eq take_bit_eq_mod unat_drop_bit_eq drop_bit_eq_div [where 'a = nat] unat_mod)
qed

lemma PTX_less [simp]: "PTX la < 1024"
  by (simp add: PTX_nat)

lemma unat_PPN: "unat (PPN la) = unat la div 2 ^ 12"
  by (simp add: PPN_def unat_drop_bit_eq drop_bit_eq_div [where 'a = nat])

lemma PDX_user: "la < USERTOP \<Longrightarrow> PDX la < 704"
  by (simp add: PDX_nat USERTOP_def word_less_nat_alt less_mult_imp_div_less)

lemma same_page_iff: "PPN la = PPN la' \<longleftrightarrow> PDX la = PDX la' \<and> PTX la = PTX la'"
proof -
  have split: "n div 2 ^ 12 = 1024 * (n div 2 ^ 22) + n div 2 ^ 12 mod 1024" for n :: nat
    using mult_div_mod_eq [of 1024 "n div 2 ^ 12"] by (simp flip: div_mult2_eq)
  have "PPN la = PPN la' \<longleftrightarrow> unat la div 2 ^ 12 = unat la' div 2 ^ 12"
    by (metis unat_PPN word_unat_eq_iff)
  also have "\<dots> \<longleftrightarrow> PDX la = PDX la' \<and> PTX la = PTX la'"
    using split [of "unat la"] split [of "unat la'"] by (auto simp: PDX_nat PTX_nat)
  finally show ?thesis .
qed

subsection \<open>The invariant\<close>

text \<open>
  The user part of a page directory is its first 704 entries, below \<open>USERTOP\<close>. \<open>tabs\<close> are the
  directory entries in use and \<open>slots p\<close> the user page table entries that map page \<open>p\<close>.
\<close>

definition tabs :: "mem_state \<Rightarrow> nat set \<Rightarrow> (nat \<times> nat) set" where
  "tabs s D = {(d, i). d \<in> D \<and> i < 704 \<and> present (frames s d i)}"

definition table :: "mem_state \<Rightarrow> nat \<times> nat \<Rightarrow> nat" where
  "table s di = ppn (frames s (fst di) (snd di))"

definition tables :: "mem_state \<Rightarrow> nat set \<Rightarrow> nat set" where
  "tables s D = table s ` tabs s D"

definition slots :: "mem_state \<Rightarrow> nat set \<Rightarrow> nat \<Rightarrow> ((nat \<times> nat) \<times> nat) set" where
  "slots s D p = {(di, j). di \<in> tabs s D \<and> j < 1024 \<and>
     present (frames s (table s di) j) \<and> ppn (frames s (table s di) j) = p}"

definition mapped :: "mem_state \<Rightarrow> nat set \<Rightarrow> nat set" where
  "mapped s D = {p. slots s D p \<noteq> {}}"

text \<open>
  \<open>F\<close> is the set of free pages, \<open>D\<close> the page directories in use and \<open>x p\<close> counts references to
  \<open>p\<close> that are taken but not yet entered in a page table.
\<close>

definition pt_inv :: "(pmm_state \<Rightarrow> nat set \<Rightarrow> bool) \<Rightarrow> (pmm_state \<Rightarrow> nat \<Rightarrow> u32 \<Rightarrow> bool) \<Rightarrow>
    nat set \<Rightarrow> nat set \<Rightarrow> (nat \<Rightarrow> int) \<Rightarrow> mem_state \<Rightarrow> bool" where
  "pt_inv fs ow F D x s \<longleftrightarrow>
     fs (pmm s) F \<and> F \<subseteq> {..< unat (npage s)} \<and> unat (npage s) \<le> 2 ^ 20 \<and>
     finite D \<and> D \<subseteq> {..< unat (npage s)} \<and> D \<inter> F = {} \<and>
     inj_on (table s) (tabs s D) \<and>
     tables s D \<subseteq> {..< unat (npage s)} \<and> tables s D \<inter> (F \<union> D) = {} \<and>
     mapped s D \<subseteq> {..< unat (npage s)} \<and> mapped s D \<inter> (F \<union> D \<union> tables s D) = {} \<and>
     (\<forall>p \<in> D \<union> tables s D \<union> mapped s D. ow (pmm s) p 1) \<and>
     (\<forall>p. p \<notin> tables s D \<longrightarrow> page_ref s p = int (card (slots s D p)) + x p) \<and>
     (\<forall>p. 0 \<le> x p) \<and> (\<forall>p \<in> F \<union> tables s D. x p = 0)"

text \<open>The user entry for an address, 0 when there is no page table for it.\<close>

definition pte :: "mem_state \<Rightarrow> nat \<Rightarrow> u32 \<Rightarrow> u32" where
  "pte s d la = (if present (frames s d (PDX la)) then frames s (table s (d, PDX la)) (PTX la) else 0)"

definition tlb_ok :: "mem_state \<Rightarrow> nat \<Rightarrow> bool" where
  "tlb_ok s d \<longleftrightarrow> (cr3 s = page2pa d \<longrightarrow> (\<forall>la < USERTOP. \<forall>e. tlb s (PPN la) = Some e \<longrightarrow> pte s d la = e))"

lemma finite_tabs: "finite D \<Longrightarrow> finite (tabs s D)"
  by (rule finite_subset [of _ "D \<times> {..< 704}"]) (auto simp: tabs_def)

lemma finite_slots: "finite D \<Longrightarrow> finite (slots s D p)"
  by (rule finite_subset [of _ "tabs s D \<times> {..< 1024}"]) (auto simp: slots_def finite_tabs)

lemma tabs_la: "la < USERTOP \<Longrightarrow> d \<in> D \<Longrightarrow> (d, PDX la) \<in> tabs s D \<longleftrightarrow> present (frames s d (PDX la))"
  by (simp add: tabs_def PDX_user)

lemma pt_invD:
  assumes "pt_inv fs ow F D x s"
  shows "fs (pmm s) F" "F \<subseteq> {..< unat (npage s)}" "unat (npage s) \<le> 2 ^ 20" "finite D" "D \<subseteq> {..< unat (npage s)}" "D \<inter> F = {}"
    "inj_on (table s) (tabs s D)" "tables s D \<subseteq> {..< unat (npage s)}" "tables s D \<inter> (F \<union> D) = {}"
    "mapped s D \<subseteq> {..< unat (npage s)}" "mapped s D \<inter> (F \<union> D \<union> tables s D) = {}"
    "\<forall>p \<in> D \<union> tables s D \<union> mapped s D. ow (pmm s) p 1"
    "\<forall>p. p \<notin> tables s D \<longrightarrow> page_ref s p = int (card (slots s D p)) + x p" "\<forall>p. 0 \<le> x p" "\<forall>p \<in> F \<union> tables s D. x p = 0"
  using assms by (simp_all add: pt_inv_def)

text \<open>The invariant depends only on the allocator, the frames and the number of pages.\<close>

lemma tabs_cong: "(\<And>d i. d \<in> D \<Longrightarrow> frames s' d i = frames s d i) \<Longrightarrow> tabs s' D = tabs s D"
  by (auto simp: tabs_def)

lemma slots_mapped: "slots s D p \<noteq> {} \<longleftrightarrow> p \<in> mapped s D"
  by (simp add: mapped_def)

lemma frames_inv:
  assumes "frames s' = frames s"
  shows "tabs s' = tabs s" "table s' = table s" "tables s' = tables s" "slots s' = slots s" "mapped s' = mapped s" "pte s' = pte s"
proof -
  show 1: "tabs s' = tabs s" "table s' = table s" using assms by (auto simp: tabs_def table_def fun_eq_iff)
  show 2: "tables s' = tables s" "slots s' = slots s" by (intro ext, simp add: tables_def slots_def 1 assms)+
  show "mapped s' = mapped s" by (auto simp: mapped_def 2 fun_eq_iff)
  show "pte s' = pte s" using assms 1 by (auto simp: pte_def fun_eq_iff)
qed

lemma pt_inv_cong:
  assumes "pmm s' = pmm s" "frames s' = frames s" "npage s' = npage s"
  shows "pt_inv fs ow F D x s' = pt_inv fs ow F D x s"
  by (simp add: pt_inv_def assms frames_inv [OF assms(2)] page_ref_def)

lemma pt_inv_tlb [simp]: "pt_inv fs ow F D x (tlb_invalidate s d la) = pt_inv fs ow F D x s"
  by (rule pt_inv_cong) (auto simp: tlb_invalidate_def)

subsection \<open>Storing one entry\<close>

text \<open>Page tables are no directories, so a store into one changes no directory.\<close>

lemma store_entry:
  fixes e :: u32
  assumes inv: "pt_inv fs ow F D x s" and di: "di \<in> tabs s D" and j: "j < 1024"
  defines "s' \<equiv> set_entry (table s di) j e s"
  shows "tabs s' D = tabs s D" "\<And>b. b \<in> tabs s D \<Longrightarrow> table s' b = table s b" "tables s' D = tables s D"
    "slots s' D p = slots s D p - {(di, j)} \<union> (if present e \<and> ppn e = p then {(di, j)} else {})"
    "inj_on (table s') (tabs s' D)"
proof -
  have t: "table s di \<notin> D" using pt_invD(9) [OF inv] di by (auto simp: tables_def)
  then have dirs: "frames s' d = frames s d" if "d \<in> D" for d using that by (auto simp: s'_def)
  show tb: "tabs s' D = tabs s D" using dirs by (intro tabs_cong) simp
  show ta: "table s' b = table s b" if "b \<in> tabs s D" for b using that dirs by (auto simp: table_def tabs_def)
  show "tables s' D = tables s D" using ta by (simp add: tables_def tb)
  show "inj_on (table s') (tabs s' D)" using pt_invD(7) [OF inv] ta by (simp add: inj_on_def tb)
  have other: "table s b \<noteq> table s di" if "b \<in> tabs s D" "b \<noteq> di" for b
    using that di pt_invD(7) [OF inv] by (auto simp: inj_on_def)
  have fr: "frames s' (table s' b) k = (if b = di \<and> k = j then e else frames s (table s b) k)" if "b \<in> tabs s D" for b k
    using ta [OF that] other [OF that] by (auto simp: s'_def)
  show "slots s' D p = slots s D p - {(di, j)} \<union> (if present e \<and> ppn e = p then {(di, j)} else {})"
    using fr di j by (auto simp: slots_def tb split: if_splits)
qed

lemma store_pte:
  assumes inv: "pt_inv fs ow F D x s" and d: "d \<in> D" and la: "la < USERTOP" "present (frames s d (PDX la))"
    and d': "d' \<in> D" and la': "la' < USERTOP"
  shows "pte (set_entry (table s (d, PDX la)) (PTX la) e s) d' la' =
     (if d' = d \<and> PPN la' = PPN la then e else pte s d' la')"
proof -
  let ?s = "set_entry (table s (d, PDX la)) (PTX la) e s"
  have di: "(d, PDX la) \<in> tabs s D" using d la by (simp add: tabs_la)
  have t: "table s (d, PDX la) \<notin> D" using pt_invD(9) [OF inv] di by (auto simp: tables_def)
  then have dirs: "frames ?s d' = frames s d'" using d' by auto
  show ?thesis
  proof (cases "present (frames s d' (PDX la'))")
    case True
    then have b: "(d', PDX la') \<in> tabs s D" using d' la' by (simp add: tabs_la)
    have "table ?s (d', PDX la') = table s (d', PDX la')" using dirs by (simp add: table_def)
    then have new: "pte ?s d' la' = frames ?s (table s (d', PDX la')) (PTX la')" using True dirs by (simp add: pte_def)
    have eq: "table s (d', PDX la') = table s (d, PDX la) \<longleftrightarrow> d' = d \<and> PDX la' = PDX la"
      using pt_invD(7) [OF inv] b di by (auto dest: inj_onD)
    show ?thesis
    proof (cases "d' = d \<and> PPN la' = PPN la")
      case True
      then show ?thesis using new by (simp add: same_page_iff)
    next
      case False
      then have "frames ?s (table s (d', PDX la')) (PTX la') = frames s (table s (d', PDX la')) (PTX la')"
        using eq by (auto simp: same_page_iff)
      then have "pte ?s d' la' = pte s d' la'" using new \<open>present (frames s d' (PDX la'))\<close> by (simp add: pte_def [of s])
      then show ?thesis by (simp only: if_not_P [OF False])
    qed
  next
    case False
    then have "\<not> (d' = d \<and> PDX la' = PDX la)" using la(2) by auto
    then show ?thesis using False dirs by (auto simp: pte_def same_page_iff)
  qed
qed

subsection \<open>The allocator contract with reference counts\<close>

locale frame_allocator = page_allocator pm fs ow
  for pm :: "pmm_state pmm_manager" and fs ow +
  assumes alloc_refs: "fs m F \<Longrightarrow> 0 < n \<Longrightarrow> pm_alloc_pages pm m n = Ret (m', r) \<Longrightarrow> ref (pages m' q) = ref (pages m q)"
    and free_refs: "fs m F \<Longrightarrow> ow m p n \<Longrightarrow> {p ..< p + unat n} \<inter> F = {} \<Longrightarrow> pm_free_pages pm m p n = Ret m' \<Longrightarrow>
      ref (pages m' q) = (if q = p then 0 else ref (pages m q))"
    and fs_ref: "fs (upd_page p (ref_update f) m) F = fs m F"
    and ow_ref: "ow (upd_page p (ref_update f) m) q n = ow m q n"

text \<open>
  Outside the boot-time self-test of swapping, \<open>check_mm_struct\<close> is null. Then \<open>alloc_pages\<close> has
  nothing to swap out: when memory is exhausted it returns null before \<open>swap_init\<close>, and the
  kernel faults after it.
\<close>

definition quiet :: "mem_state \<Rightarrow> bool" where
  "quiet s \<longleftrightarrow> (swap_init_ok s \<longrightarrow> check_mm_struct s = None)"

definition rest_same :: "mem_state \<Rightarrow> mem_state \<Rightarrow> bool" where
  "rest_same s s' \<longleftrightarrow> s' = s\<lparr>pmm := pmm s', frames := frames s', tlb := tlb s'\<rparr>"

lemma rest_sameD:
  assumes "rest_same s s'"
  shows "npage s' = npage s" "cr3 s' = cr3 s" "vm s' = vm s" "quiet s' = quiet s" "swap_init_ok s' = swap_init_ok s"
    "check_mm_struct s' = check_mm_struct s" "pra_links s' = pra_links s" "ide s' = ide s" "max_swap_offset s' = max_swap_offset s"
  by (subst assms [unfolded rest_same_def], simp add: quiet_def)+

lemma rest_same_refl [simp]: "rest_same s s"
  by (simp add: rest_same_def)

lemma rest_same_trans: "rest_same s s1 \<Longrightarrow> rest_same s1 s2 \<Longrightarrow> rest_same s s2"
  by (cases s; cases s1; cases s2) (simp add: rest_same_def)

lemma rest_same_upd [simp]:
  "rest_same s (s\<lparr>pmm := m\<rparr>)" "rest_same s (s\<lparr>frames := f\<rparr>)" "rest_same s (tlb_invalidate s d la)"
  "rest_same s (s\<lparr>pmm := m, frames := f\<rparr>)"
  by (simp_all add: rest_same_def tlb_invalidate_def)

lemma tlb_invalidate_sel [simp]:
  "pmm (tlb_invalidate s d la) = pmm s" "frames (tlb_invalidate s d la) = frames s"
  "tlb (tlb_invalidate s d la) = (if cr3 s = page2pa d then (tlb s)(PPN la := None) else tlb s)"
  by (simp_all add: tlb_invalidate_def)

lemma page_ref_upd [simp]: "page_ref (upd_ref p f s) q = (if q = p then f (page_ref s p) else page_ref s q)"
  by (simp add: page_ref_def)

context frame_allocator
begin

lemma alloc_page_empty:
  assumes "fs (pmm s) {}" "quiet s"
  shows "alloc_page pm swap_manager_fifo s = (if swap_init_ok s then Panic else Ret (s, None))"
proof -
  from alloc_contract [OF assms(1), of 1] obtain m r where a: "pm_alloc_pages pm (pmm s) 1 = Ret (m, r)"
    "case r of None \<Rightarrow> m = pmm s | Some p \<Rightarrow> {p ..< p + unat (1 :: u32)} \<subseteq> {}" by (fastforce split: option.splits)
  then have r: "r = None" "m = pmm s" by (auto split: option.splits)
  have "swap_out pm swap_manager_fifo s None (unat (1 :: u32)) False = Panic"
    by (simp add: swap_out_def swap_out_round_def swap_manager_fifo_def fifo_swap_out_victim_def)
  then show ?thesis using a(1) r assms(2)
    by (auto simp: alloc_page_def alloc_pages_def quiet_def alloc_loop.simps [of pm swap_manager_fifo s])
qed

lemma alloc_page_some:
  assumes "fs (pmm s) F" "F \<noteq> {}"
  shows "\<exists>m p. alloc_page pm sm s = Ret (s\<lparr>pmm := m\<rparr>, Some p) \<and> p \<in> F \<and> fs m (F - {p}) \<and> ow m p 1 \<and>
     (\<forall>q. q \<notin> F \<longrightarrow> ow (pmm s) q 1 \<longrightarrow> ow m q 1) \<and> (\<forall>q. ref (pages m q) = ref (pages (pmm s) q))"
proof -
  from alloc_contract [OF assms(1), of 1] obtain m r where a: "pm_alloc_pages pm (pmm s) 1 = Ret (m, r)"
    and c: "case r of None \<Rightarrow> m = pmm s \<and> \<not> (\<exists>p. {p ..< p + unat (1 :: u32)} \<subseteq> F)
      | Some p \<Rightarrow> {p ..< p + unat (1 :: u32)} \<subseteq> F \<and> fs m (F - {p ..< p + unat (1 :: u32)}) \<and> ow m p 1 \<and>
          (\<forall>q n. ow (pmm s) q n \<longrightarrow> {q ..< q + unat n} \<inter> F = {} \<longrightarrow> ow m q n)" by auto
  obtain p where r: "r = Some p" using c assms(2) by (cases r) auto
  have "alloc_page pm sm s = Ret (s\<lparr>pmm := m\<rparr>, Some p)"
    using a r by (simp add: alloc_page_def alloc_pages_def alloc_loop.simps [of pm sm s])
  moreover have "ow m q 1" if "q \<notin> F" "ow (pmm s) q 1" for q using c r that by (auto dest: spec [where x = q] spec [where x = "1 :: u32"])
  ultimately show ?thesis using c r alloc_refs [OF assms(1) _ a] by auto
qed

lemma free_page_ok:
  assumes "fs (pmm s) F" "ow (pmm s) p 1" "p \<notin> F"
  shows "\<exists>m. free_page pm s p = Ret (s\<lparr>pmm := m\<rparr>) \<and> fs m (insert p F) \<and>
     (\<forall>q. q \<notin> insert p F \<longrightarrow> ow (pmm s) q 1 \<longrightarrow> ow m q 1) \<and>
     (\<forall>q. ref (pages m q) = (if q = p then 0 else ref (pages (pmm s) q)))"
proof -
  have dis: "{p ..< p + unat (1 :: u32)} \<inter> F = {}" using assms(3) by simp
  from free_contract [OF assms(1,2) dis] obtain m where m: "pm_free_pages pm (pmm s) p 1 = Ret m"
    "fs m (F \<union> {p ..< p + unat (1 :: u32)})"
    "\<forall>q n. ow (pmm s) q n \<longrightarrow> {q ..< q + unat n} \<inter> (F \<union> {p ..< p + unat (1 :: u32)}) = {} \<longrightarrow> ow m q n" by blast
  have "ow m q 1" if "q \<notin> insert p F" "ow (pmm s) q 1" for q using m(3) [rule_format, of q 1] that by auto
  then show ?thesis using m(1,2) free_refs [OF assms(1,2) dis m(1)] by (auto simp: free_page_def free_pages_def)
qed

lemma get_pte_present:
  assumes "pt_inv fs ow F D x s" "d \<in> D" "la < USERTOP" "present (frames s d (PDX la))"
  shows "get_pte pm sm s d la c = Ret (s, Some (table s (d, PDX la), PTX la))"
proof -
  have "table s (d, PDX la) \<in> tables s D" using assms by (simp add: tables_def tabs_la)
  then have "unat (PPN (frames s d (PDX la))) < unat (npage s)"
    using pt_invD(8) [OF assms(1)] by (auto simp: table_def ppn_def)
  then show ?thesis using assms(4) by (simp add: get_pte_def get_pte_with_def KADDR_def word_le_nat_alt table_def ppn_def)
qed

lemma get_pte_absent: "\<not> present (frames s d (PDX la)) \<Longrightarrow> get_pte pm sm s d la False = Ret (s, None)"
  by (simp add: get_pte_def get_pte_with_def)

end

subsection \<open>Adding a page table\<close>

lemma add_table:
  assumes inj: "inj_on (table s) (tabs s D)" and tD: "tables s D \<inter> D = {}" and d: "d \<in> D" "i < 704" "\<not> present (frames s d i)"
    and p: "p \<notin> D" "p \<notin> tables s D" and e: "present e" "ppn e = p"
    and s': "frames s' = ((frames s)(p := \<lambda>_. 0))(d := (frames s d)(i := e))"
  shows "tabs s' D = insert (d, i) (tabs s D)" "\<And>b. b \<in> tabs s D \<Longrightarrow> table s' b = table s b" "table s' (d, i) = p"
    "tables s' D = insert p (tables s D)" "slots s' D = slots s D" "inj_on (table s') (tabs s' D)"
    "\<And>d' la. d' \<in> D \<Longrightarrow> la < USERTOP \<Longrightarrow> pte s' d' la = pte s d' la"
proof -
  have pd: "p \<noteq> d" using p d by auto
  have fr: "frames s' c k = (if c = d \<and> k = i then e else frames s c k)" if "c \<in> D" for c k
    using that p s' pd by auto
  show tb: "tabs s' D = insert (d, i) (tabs s D)" using fr d e(1) by (auto simp: tabs_def split: if_splits)
  show ta: "table s' b = table s b" if "b \<in> tabs s D" for b using that d fr by (cases b) (auto simp: table_def tabs_def)
  show tn: "table s' (d, i) = p" using fr d e(2) by (simp add: table_def)
  show "tables s' D = insert p (tables s D)" using ta tn by (simp add: tables_def tb)
  have "inj_on (table s') (tabs s D)" using inj ta by (simp add: inj_on_def)
  moreover have "table s' (d, i) \<notin> table s' ` tabs s D" using ta tn p(2) by (auto simp: tables_def)
  ultimately show "inj_on (table s') (tabs s' D)" unfolding tb inj_on_insert by auto
  have inner: "frames s' (table s b) k = frames s (table s b) k" if "b \<in> tabs s D" for b k
    using that s' p(2) tD d(1) by (auto simp: tables_def)
  have new: "frames s' p k = 0" for k using s' pd by simp
  show "slots s' D = slots s D"
  proof
    fix q
    have "(b, j) \<in> slots s' D q \<longleftrightarrow> (b, j) \<in> slots s D q" for b j
    proof (cases "b \<in> tabs s D")
      case True
      then show ?thesis using ta inner by (simp add: slots_def tb)
    next
      case False
      then show ?thesis using tn new by (auto simp: slots_def tb)
    qed
    then show "slots s' D q = slots s D q" by auto
  qed
  show "pte s' d' la = pte s d' la" if "d' \<in> D" "la < USERTOP" for d' la
  proof (cases "present (frames s d' (PDX la))")
    case True
    then have b: "(d', PDX la) \<in> tabs s D" using that by (simp add: tabs_la)
    then have "present (frames s' d' (PDX la))" using tb that by (metis insertI2 tabs_la)
    then show ?thesis using True ta [OF b] inner [OF b] by (simp add: pte_def)
  next
    case False
    show ?thesis
    proof (cases "d' = d \<and> PDX la = i")
      case True
      then have "pte s' d' la = 0" using tn new by (simp add: pte_def)
      then show ?thesis using False by (simp add: pte_def)
    next
      case 2: False
      then have "frames s' d' (PDX la) = frames s d' (PDX la)" using fr that(1) by auto
      then show ?thesis using False by (simp add: pte_def)
    qed
  qed
qed

context frame_allocator
begin

lemma get_pte_create:
  assumes inv: "pt_inv fs ow F D x s" and d: "d \<in> D" and la: "la < USERTOP" and room: "F \<noteq> {} \<or> present (frames s d (PDX la))"
  shows "\<exists>s' T. get_pte pm sm s d la True = Ret (s', Some (table s' (d, PDX la), PTX la)) \<and> T \<subseteq> F \<and> card T \<le> 1 \<and>
     pt_inv fs ow (F - T) D x s' \<and> present (frames s' d (PDX la)) \<and> rest_same s s' \<and> tlb s' = tlb s \<and>
     (\<forall>d' \<in> D. \<forall>la' < USERTOP. pte s' d' la' = pte s d' la') \<and> mapped s' D = mapped s D \<and>
     (\<forall>f. f \<notin> insert d T \<longrightarrow> frames s' f = frames s f) \<and> (present (frames s d (PDX la)) \<longrightarrow> s' = s \<and> T = {}) \<and>
     tables s' D = tables s D \<union> T \<and> (\<forall>q. q \<notin> F \<longrightarrow> ow (pmm s) q 1 \<longrightarrow> ow (pmm s') q 1)"
proof (cases "present (frames s d (PDX la))")
  case True
  then show ?thesis using get_pte_present [OF inv d la True] inv by (intro exI [of _ s] exI [of _ "{}"]) auto
next
  case absent: False
  note I = pt_invD [OF inv]
  from alloc_page_some [OF I(1)] room absent obtain m p where a: "alloc_page pm sm s = Ret (s\<lparr>pmm := m\<rparr>, Some p)" "p \<in> F"
    "fs m (F - {p})" "ow m p 1" "\<forall>q. q \<notin> F \<longrightarrow> ow (pmm s) q 1 \<longrightarrow> ow m q 1" "\<forall>q. ref (pages m q) = ref (pages (pmm s) q)" by blast
  define e where "e = page2pa p OR PTE_U OR PTE_W OR PTE_P"
  have p20: "p < 2 ^ 20" "p < unat (npage s)" using a(2) I(2,3) by auto
  have e: "present e" "ppn e = p" unfolding e_def using ppn_entry [OF p20(1), of "PTE_U OR PTE_W OR PTE_P"]
    by (simp_all add: present_OR PPN_OR or.assoc)
  have pe: "unat (PPN e) = p" using e(2) by (simp add: ppn_def)
  define s' where "s' = set_entry d (PDX la) e ((upd_ref p (\<lambda>_. 1) (s\<lparr>pmm := m\<rparr>))\<lparr>frames := (frames s)(p := \<lambda>_. 0)\<rparr>)"
  have pD: "p \<notin> D" "p \<notin> tables s D" "p \<noteq> d" using a(2) I(6,9) d by auto
  have fr: "frames s' = ((frames s)(p := \<lambda>_. 0))(d := (frames s d)(PDX la := e))" using pD(3) by (simp add: s'_def)
  have np: "npage s' = npage s" by (simp add: s'_def)
  note T = add_table [OF I(7) _ d PDX_user [OF la] _ pD(1,2) e fr]
  have tD: "tables s D \<inter> D = {}" using I(9) by auto
  note T = T [OF tD absent]
  have "PPN (page2pa p) = of_nat p" using PPN_page2pa [OF p20(1)] .
  then have kad: "KADDR st (page2pa p) = Ret p" if "npage st = npage s" for st
    using p20 that by (simp add: KADDR_def word_le_nat_alt unat_of_nat)
  have run: "get_pte pm sm s d la True = Ret (s', Some (table s' (d, PDX la), PTX la))"
    using absent a(1) kad pe p20 np pD(3) T(3)
    by (simp add: get_pte_def get_pte_with_def Let_def e_def [symmetric] s'_def [symmetric])
      (simp add: s'_def KADDR_def word_le_nat_alt)
  have mp: "mapped s' D = mapped s D" by (simp add: mapped_def T(5))
  have pm': "pmm s' = upd_page p (ref_update (\<lambda>_. 1)) m" by (simp add: s'_def)
  have "pt_inv fs ow (F - {p}) D x s'"
    unfolding pt_inv_def np mp T(4,5) pm'
  proof (intro conjI)
    show "fs (upd_page p (ref_update (\<lambda>_. 1)) m) (F - {p})" using a(3) fs_ref by blast
    show "\<forall>q \<in> D \<union> insert p (tables s D) \<union> mapped s D. ow (upd_page p (ref_update (\<lambda>_. 1)) m) q 1"
      unfolding ow_ref using a(4,5) I(6,9,11,12) by blast
    show "\<forall>q. q \<notin> insert p (tables s D) \<longrightarrow> page_ref s' q = int (card (slots s D q)) + x q"
      using I(13) a(6) by (auto simp: s'_def page_ref_def)
    show "mapped s D \<inter> (F - {p} \<union> D \<union> insert p (tables s D)) = {}" using I(11) a(2) by blast
    show "insert p (tables s D) \<inter> (F - {p} \<union> D) = {}" using I(9) pD by blast
    show "\<forall>q \<in> F - {p} \<union> insert p (tables s D). x q = 0" using I(15) a(2) by blast
    show "inj_on (table s') (tabs s' D)" by (rule T(6))
  qed (use I p20 in auto)
  moreover have "rest_same s s'" "tlb s' = tlb s" by (simp_all add: s'_def rest_same_def)
  moreover have "present (frames s' d (PDX la))" using e(1) by (simp add: fr)
  moreover have "\<forall>q. q \<notin> F \<longrightarrow> ow (pmm s) q 1 \<longrightarrow> ow (pmm s') q 1" unfolding pm' ow_ref by (rule a(5))
  ultimately show ?thesis using run a(2) mp T(4,7) absent fr by (intro exI [of _ s'] exI [of _ "{p}"]) auto
qed

end

subsection \<open>Removing and inserting a mapping\<close>

lemma slots_pte:
  assumes "d \<in> D" "la < USERTOP" "present (pte s d la)"
  shows "present (frames s d (PDX la))" "((d, PDX la), PTX la) \<in> slots s D (ppn (pte s d la))"
    "pte s d la = frames s (table s (d, PDX la)) (PTX la)" "ppn (pte s d la) \<in> mapped s D"
proof -
  show pr: "present (frames s d (PDX la))" using assms(3) by (auto simp: pte_def split: if_splits)
  then show pt: "pte s d la = frames s (table s (d, PDX la)) (PTX la)" by (simp add: pte_def)
  show "((d, PDX la), PTX la) \<in> slots s D (ppn (pte s d la))"
    using assms pr pt by (simp add: slots_def tabs_la)
  then show "ppn (pte s d la) \<in> mapped s D" by (auto simp: mapped_def)
qed

lemma tlb_ok_store:
  assumes "tlb_ok s d" "cr3 s' = cr3 s" "\<And>la'. la' < USERTOP \<Longrightarrow> PPN la' \<noteq> PPN la \<Longrightarrow> pte s' d la' = pte s d la'"
    "tlb s' = (if cr3 s = page2pa d then (tlb s)(PPN la := None) else tlb s)"
  shows "tlb_ok s' d"
  using assms by (auto simp: tlb_ok_def fun_upd_apply split: if_splits)

context frame_allocator
begin

lemma page_remove_pte_ok:
  assumes inv: "pt_inv fs ow F D x s" and d: "d \<in> D" and la: "la < USERTOP" and pr: "present (pte s d la)"
  shows "\<exists>s' R. page_remove_pte pm s d la (table s (d, PDX la), PTX la) = Ret s' \<and>
     pt_inv fs ow (F \<union> R) D x s' \<and> R = {p \<in> mapped s D - mapped s' D. x p = 0} \<and> rest_same s s' \<and>
     frames s' = frames (set_entry (table s (d, PDX la)) (PTX la) 0 s) \<and> mapped s' D \<subseteq> mapped s D \<and>
     mapped s D \<subseteq> insert (ppn (pte s d la)) (mapped s' D) \<and>
     (\<forall>p. p \<notin> F \<union> R \<longrightarrow> ow (pmm s) p 1 \<longrightarrow> ow (pmm s') p 1) \<and>
     tlb s' = (if cr3 s = page2pa d then (tlb s)(PPN la := None) else tlb s)"
proof -
  note I = pt_invD [OF inv]
  note S = slots_pte [OF d la pr]
  define q t j where "q = ppn (pte s d la)" and "t = table s (d, PDX la)" and "j = PTX la"
  let ?u = "set_entry t j 0 s"
  have di: "(d, PDX la) \<in> tabs s D" using S(1) d la by (simp add: tabs_la)
  note U = store_entry [OF inv di, where j = j and e = 0, folded t_def]
  have j: "j < 1024" by (simp add: j_def)
  note U = U [OF j]
  have sl: "slots ?u D p = slots s D p - {((d, PDX la), j)}" for p using U(4) [of p] by simp
  have q: "q \<in> mapped s D" "((d, PDX la), j) \<in> slots s D q" using S by (simp_all add: q_def j_def)
  have qn: "q < unat (npage s)" "q \<notin> F" "q \<notin> D" "q \<notin> tables s D" "ow (pmm s) q 1" using q(1) I(10,11,12) by auto
  have slo: "slots ?u D p = slots s D p" if "p \<noteq> q" for p using that q(2) sl [of p] by (auto simp: slots_def)
  have cd: "card (slots s D q) = Suc (card (slots ?u D q))" unfolding sl using card_Suc_Diff1 [OF finite_slots [OF I(4)] q(2)] by simp
  have ref: "page_ref s q = int (card (slots ?u D q)) + 1 + x q" using I(13) qn(4) cd by simp
  have mp: "mapped ?u D = mapped s D - (if slots ?u D q = {} then {q} else {})"
  proof -
    have "p \<in> mapped ?u D \<longleftrightarrow> p \<in> mapped s D - (if slots ?u D q = {} then {q} else {})" for p
      using slo [of p] q(1) by (cases "p = q") (simp_all add: mapped_def)
    then show ?thesis by blast
  qed
  have page: "pte2page s (frames s t j) = Ret q"
    using pr qn(1) S(3) by (simp add: pte2page_def pa2page_def q_def ppn_def t_def j_def word_le_nat_alt)
  define s1 where "s1 = upd_ref q (\<lambda>r. r - 1) s"
  have s1: "page_ref_dec s q = (s1, page_ref s q - 1)" by (simp add: page_ref_dec_def s1_def page_ref_def)
  have refs1: "page_ref s1 p = (if p = q then page_ref s q - 1 else page_ref s p)" for p by (simp add: s1_def page_ref_def)
  have fs1: "fs (pmm s1) F" "ow (pmm s1) p n = ow (pmm s) p n" for p n
    using I(1) fs_ref ow_ref by (simp_all add: s1_def)
  have fr1: "frames s1 = frames s" "npage s1 = npage s" "rest_same s s1" "tlb s1 = tlb s" "cr3 s1 = cr3 s"
    by (simp_all add: s1_def)
  have fin: "pt_inv fs ow F' D x s'"
    if s': "frames s' = frames ?u" "npage s' = npage s" "fs (pmm s') F'" "F' = F \<union> R" "R \<subseteq> {q}" "q \<in> R \<longrightarrow> slots ?u D q = {} \<and> x q = 0"
      "\<forall>p. p \<notin> F' \<longrightarrow> ow (pmm s) p 1 \<longrightarrow> ow (pmm s') p 1" "\<forall>p. page_ref s' p = (if p = q then page_ref s q - 1 else page_ref s p)" for s' F' R
    unfolding pt_inv_def frames_inv [OF s'(1)] U(3) mp s'(2)
  proof (intro conjI)
    show "inj_on (table ?u) (tabs ?u D)" by (rule U(5))
    show "\<forall>p. p \<notin> tables s D \<longrightarrow> page_ref s' p = int (card (slots ?u D p)) + x p"
      using s'(8) I(13) ref slo by auto
    show "\<forall>p \<in> D \<union> tables s D \<union> (mapped s D - (if slots ?u D q = {} then {q} else {})). ow (pmm s') p 1"
      using I(6,9,11,12) s'(4-7) qn by (auto split: if_splits)
    show "tables s D \<inter> (F' \<union> D) = {}" using I(9) s'(4,5) qn by auto
    show "(mapped s D - (if slots ?u D q = {} then {q} else {})) \<inter> (F' \<union> D \<union> tables s D) = {}"
      using I(11) s'(4-6) by (auto split: if_splits)
    show "\<forall>p \<in> F' \<union> tables s D. x p = 0" using I(15) s'(4-6) by auto
  qed (use I s' qn in auto)
  show ?thesis
  proof (cases "page_ref s q - 1 = 0")
    case True
    then have "int (card (slots ?u D q)) + x q = 0" using ref by linarith
    moreover have "0 \<le> x q" using I(14) by blast
    ultimately have "card (slots ?u D q) = 0" "x q = 0" by linarith+
    then have none: "slots ?u D q = {}" "x q = 0" using finite_slots [OF I(4), of ?u q] by (simp_all only: card_0_eq)
    from free_page_ok [of s1 F q] fs1 qn(2,5) obtain m where m: "free_page pm s1 q = Ret (s1\<lparr>pmm := m\<rparr>)" "fs m (insert q F)"
      "\<forall>p. p \<notin> insert q F \<longrightarrow> ow (pmm s1) p 1 \<longrightarrow> ow m p 1" "\<forall>p. ref (pages m p) = (if p = q then 0 else ref (pages (pmm s1) p))" by auto
    let ?s' = "tlb_invalidate (set_entry t j 0 (s1\<lparr>pmm := m\<rparr>)) d la"
    have "page_ref ?s' p = (if p = q then page_ref s q - 1 else page_ref s p)" for p
      using m(4) True refs1 [of p] by (simp add: page_ref_def)
    then have "pt_inv fs ow (F \<union> {q}) D x ?s'"
      using m none fs1 fr1 by (intro fin [of _ _ "{q}"]) (auto simp: tlb_invalidate_def)
    moreover have "page_remove_pte pm s d la (t, j) = Ret ?s'"
      using pr S(3) page s1 True m(1) by (simp add: page_remove_pte_def t_def j_def)
    moreover have "rest_same s ?s'" by (simp add: rest_same_def s1_def tlb_invalidate_def)
    moreover have eq: "frames ?s' = frames ?u" using fr1 by simp
    moreover have mq: "mapped ?s' D = mapped s D - {q}" unfolding frames_inv(5) [OF eq] mp using none by simp
    moreover have "\<forall>p. p \<notin> F \<union> {q} \<longrightarrow> ow (pmm s) p 1 \<longrightarrow> ow (pmm ?s') p 1" using m(3) fs1(2) by auto
    moreover have "mapped s D \<subseteq> insert (ppn (pte s d la)) (mapped ?s' D)" unfolding mq q_def by auto
    ultimately show ?thesis using q(1) none fr1 unfolding t_def [symmetric] j_def [symmetric]
      by (intro exI [of _ ?s'] exI [of _ "{q}"]) auto
  next
    case False
    let ?s' = "tlb_invalidate (set_entry t j 0 s1) d la"
    have "page_ref ?s' p = (if p = q then page_ref s q - 1 else page_ref s p)" for p
      using refs1 [of p] by (simp add: page_ref_def)
    then have inv': "pt_inv fs ow F D x ?s'" using fs1 fr1 by (intro fin [of _ _ "{}"]) (auto simp: tlb_invalidate_def)
    moreover have "page_remove_pte pm s d la (t, j) = Ret ?s'"
      using pr S(3) page s1 False by (simp add: page_remove_pte_def t_def j_def)
    moreover have "rest_same s ?s'" by (simp add: rest_same_def s1_def tlb_invalidate_def)
    moreover have eq: "frames ?s' = frames ?u" using fr1 by simp
    moreover have "mapped ?s' D \<subseteq> mapped s D" "mapped s D \<subseteq> insert (ppn (pte s d la)) (mapped ?s' D)"
      unfolding frames_inv(5) [OF eq] mp q_def by auto
    moreover have "ow (pmm ?s') p 1 = ow (pmm s) p 1" for p using fs1(2) by simp
    moreover have "x p \<noteq> 0" if "p \<in> mapped s D - mapped ?s' D" for p
    proof -
      have "p = q" "slots ?u D q = {}" using that unfolding frames_inv(5) [OF eq] mp by (auto split: if_splits)
      then show ?thesis using ref False by auto
    qed
    moreover from this have "{} = {p \<in> mapped s D - mapped ?s' D. x p = 0}" by blast
    ultimately show ?thesis using fr1 unfolding t_def [symmetric] j_def [symmetric]
      by (intro exI [of _ ?s'] exI [of _ "{}"]) auto
  qed
qed

end

lemma store_present:
  assumes inv: "pt_inv fs ow F D x s" and di: "di \<in> tabs s D" and j: "j < 1024"
    and e: "present e" "ppn e = p" and p: "p < unat (npage s)" "p \<notin> F" "p \<notin> D" "p \<notin> tables s D" "ow (pmm s) p 1"
    and old: "if present (frames s (table s di) j) then ppn (frames s (table s di) j) = p \<and> x' = x else 0 < x p \<and> x' = x(p := x p - 1)"
  shows "pt_inv fs ow F D x' (set_entry (table s di) j e s)" "mapped (set_entry (table s di) j e s) D = insert p (mapped s D)"
proof -
  note I = pt_invD [OF inv]
  let ?u = "set_entry (table s di) j e s"
  note U = store_entry [OF inv di j, where e = e]
  have sl: "slots ?u D q = (if q = p then insert (di, j) (slots s D q) else slots s D q)" for q
    unfolding U(4) using e old di j by (auto simp: slots_def split: if_splits)
  show mp: "mapped ?u D = insert p (mapped s D)"
  proof -
    have "q \<in> mapped ?u D \<longleftrightarrow> q \<in> insert p (mapped s D)" for q unfolding mapped_def sl by simp
    then show ?thesis by blast
  qed
  have cnt: "int (card (slots ?u D q)) + x' q = int (card (slots s D q)) + x q" for q
  proof (cases "q = p")
    case True
    have "(di, j) \<in> slots s D p \<longleftrightarrow> present (frames s (table s di) j)" using old di j by (auto simp: slots_def)
    then show ?thesis unfolding sl using old True finite_slots [OF I(4)] by (auto split: if_splits simp: insert_absorb)
  next
    case False
    then show ?thesis unfolding sl using old by (auto split: if_splits)
  qed
  have x': "0 \<le> x' q" "q \<noteq> p \<Longrightarrow> x' q = x q" for q using old I(14) by (auto split: if_splits)
  show "pt_inv fs ow F D x' ?u"
    unfolding pt_inv_def mp U(3)
  proof (intro conjI)
    show "\<forall>q. q \<notin> tables s D \<longrightarrow> page_ref ?u q = int (card (slots ?u D q)) + x' q"
      using I(13) unfolding cnt by (simp add: page_ref_def)
    show "inj_on (table ?u) (tabs ?u D)" by (rule U(5))
    show "\<forall>q \<in> F \<union> tables s D. x' q = 0" using I(15) x'(2) p(2,4) by (metis Un_iff)
  qed (use I p x'(1) in auto)
qed

text \<open>The final store of \<open>page_insert\<close>, when the entry is as before or was cleared.\<close>

lemma replace_entry:
  fixes s1 :: mem_state and d la e
  assumes inv1: "pt_inv fs ow F1 D x1 s1" and d: "d \<in> D" "la < USERTOP" "present (frames s1 d (PDX la))"
    and inv3: "pt_inv fs ow F3 D x s3" and np: "npage s3 = npage s1"
    and e: "present e" "ppn e = p" and p: "p < unat (npage s1)" "p \<notin> F3" "p \<notin> D" "p \<notin> tables s1 D" "ow (pmm s3) p 1"
  defines "t \<equiv> table s1 (d, PDX la)" and "j \<equiv> PTX la"
  assumes fr: "frames s3 = frames s1 \<or> frames s3 = frames (set_entry t j 0 s1)"
    and old: "if present (frames s3 t j) then ppn (frames s3 t j) = p \<and> x = (\<lambda>_. 0) else x = (\<lambda>_. 0)(p := 1)"
  shows "pt_inv fs ow F3 D (\<lambda>_. 0) (set_entry t j e s3)" "mapped (set_entry t j e s3) D = insert p (mapped s3 D)"
    "tables (set_entry t j e s3) D = tables s1 D"
    "\<And>d' la'. d' \<in> D \<Longrightarrow> la' < USERTOP \<Longrightarrow>
       pte (set_entry t j e s3) d' la' = (if d' = d \<and> PPN la' = PPN la then e else pte s1 d' la')"
proof -
  have di: "(d, PDX la) \<in> tabs s1 D" using d by (simp add: tabs_la)
  have "t \<notin> D" using pt_invD(9) [OF inv1] di by (auto simp: tables_def t_def)
  then have dirs: "frames s3 c = frames s1 c" if "c \<in> D" for c using fr that by auto
  have tb: "tabs s3 D = tabs s1 D" using dirs by (intro tabs_cong) simp
  have ta: "table s3 b = table s1 b" if "b \<in> tabs s1 D" for b using that dirs by (auto simp: table_def tabs_def)
  have ts: "tables s3 D = tables s1 D" using ta by (simp add: tables_def tb)
  have di3: "(d, PDX la) \<in> tabs s3 D" "table s3 (d, PDX la) = t" using di tb ta by (auto simp: t_def)
  have j: "j < 1024" by (simp add: j_def)
  have "if present (frames s3 (table s3 (d, PDX la)) j) then ppn (frames s3 (table s3 (d, PDX la)) j) = p \<and> (\<lambda>_. 0) = x
      else 0 < x p \<and> (\<lambda>_. 0) = x(p := x p - 1)"
    using old by (auto simp: di3(2) fun_eq_iff split: if_splits)
  from store_present [OF inv3 di3(1) j e _ p(2,3) _ p(5) this, unfolded di3(2) np ts] p(1,4)
  show "pt_inv fs ow F3 D (\<lambda>_. 0) (set_entry t j e s3)" "mapped (set_entry t j e s3) D = insert p (mapped s3 D)" by blast+
  show "tables (set_entry t j e s3) D = tables s1 D"
    using store_entry(3) [OF inv3 di3(1) j, where e = e] by (simp add: ts di3(2))
  show "pte (set_entry t j e s3) d' la' = (if d' = d \<and> PPN la' = PPN la then e else pte s1 d' la')"
    if "d' \<in> D" "la' < USERTOP" for d' la'
  proof -
    have "pte s3 d' la' = pte s1 d' la'" if n: "\<not> (d' = d \<and> PPN la' = PPN la)" using fr
    proof
      assume fr: "frames s3 = frames s1"
      show ?thesis unfolding frames_inv(6) [OF fr] ..
    next
      assume fr: "frames s3 = frames (set_entry t j 0 s1)"
      show ?thesis unfolding frames_inv(6) [OF fr]
        using store_pte [OF inv1 d \<open>d' \<in> D\<close> \<open>la' < USERTOP\<close>, of 0] n by (simp add: t_def j_def)
    qed
    moreover have pr: "present (frames s3 d (PDX la))" using dirs d by simp
    ultimately show ?thesis
      unfolding j_def store_pte [OF inv3 d(1,2) pr that, of e, unfolded di3(2)] by presburger
  qed
qed

context frame_allocator
begin

lemma pt_inv_ref_inc:
  assumes "pt_inv fs ow F D x s" "p \<notin> F" "p \<notin> tables s D"
  shows "pt_inv fs ow F D (x(p := x p + 1)) (page_ref_inc s p)"
proof -
  have "frames (page_ref_inc s p) = frames s" by (simp add: page_ref_inc_def)
  note fr = frames_inv [OF this]
  note I = pt_invD [OF assms(1)]
  show ?thesis unfolding pt_inv_def fr
    using I assms(2,3) fs_ref [where p = p] ow_ref [where p = p] by (auto simp: page_ref_inc_def)
qed

lemma insert_body:
  assumes inv1: "pt_inv fs ow F1 D (\<lambda>_. 0) s1" and d: "d \<in> D" "la < USERTOP" "present (frames s1 d (PDX la))"
    and p: "p \<notin> F1" "p \<notin> tables s1 D" "ow (pmm s1) p 1"
  defines "t \<equiv> table s1 (d, PDX la)" and "j \<equiv> PTX la" and "s2 \<equiv> page_ref_inc s1 p"
  shows "\<exists>s3 R x. (if frames s2 t j AND PTE_P \<noteq> 0 then bind_outcome (pte2page s2 (frames s2 t j))
       (\<lambda>q. if q = p then Ret (fst (page_ref_dec s2 p)) else page_remove_pte pm s2 d la (t, j)) else Ret s2) = Ret s3 \<and>
     pt_inv fs ow (F1 \<union> R) D x s3 \<and> R \<subseteq> mapped s1 D - {p} \<and> mapped s3 D \<union> R = mapped s1 D \<and> mapped s3 D \<inter> R = {} \<and>
     rest_same s1 s3 \<and> ow (pmm s3) p 1 \<and> (frames s3 = frames s1 \<or> frames s3 = frames (set_entry t j 0 s1)) \<and>
     (tlb s3 = tlb s1 \<or> tlb s3 = (if cr3 s1 = page2pa d then (tlb s1)(PPN la := None) else tlb s1)) \<and>
     (if present (frames s3 t j) then ppn (frames s3 t j) = p \<and> x = (\<lambda>_. 0) else x = (\<lambda>_. 0)(p := 1))"
proof -
  have fr2: "frames s2 = frames s1" "npage s2 = npage s1" "rest_same s1 s2" "tlb s2 = tlb s1" "cr3 s2 = cr3 s1"
    by (simp_all add: s2_def page_ref_inc_def)
  have inv2: "pt_inv fs ow F1 D ((\<lambda>_. 0)(p := 1)) s2" using pt_inv_ref_inc [OF inv1 p(1,2)] by (simp add: s2_def)
  have pow2: "ow (pmm s2) p 1" using p(3) ow_ref by (simp add: s2_def page_ref_inc_def)
  have ent: "pte s2 d la = frames s2 t j" "table s2 (d, PDX la) = t" using d(3) by (simp_all add: pte_def fr2 frames_inv [OF fr2(1)] t_def j_def)
  show ?thesis
  proof (cases "present (frames s2 t j)")
    case False
    then show ?thesis using inv2 pow2 fr2 frames_inv(5) [OF fr2(1)] by (intro exI [of _ s2] exI [of _ "{}"] exI) auto
  next
    case True
    then have pr: "present (pte s2 d la)" by (simp add: ent)
    have "ppn (frames s2 t j) \<in> mapped s2 D" using slots_pte(4) [OF d(1,2) pr] by (simp add: ent)
    then have "ppn (frames s2 t j) < unat (npage s2)" using pt_invD(10) [OF inv2] by auto
    then have pg: "pte2page s2 (frames s2 t j) = Ret (ppn (frames s2 t j))"
      using True by (simp add: pte2page_def pa2page_def ppn_def word_le_nat_alt)
    show ?thesis
    proof (cases "ppn (frames s2 t j) = p")
      case same: True
      have "(\<lambda>r :: int. r - 1) \<circ> (\<lambda>r. r + 1) = (\<lambda>r. r)" by auto
      moreover have "upd_ref p (\<lambda>r. r) s1 = s1"
      proof -
        have "ref_update (\<lambda>r. r) (pages (pmm s1) p) = pages (pmm s1) p" by (cases "pages (pmm s1) p") simp
        then have "(pages (pmm s1))(p := ref_update (\<lambda>r. r) (pages (pmm s1) p)) = pages (pmm s1)" by (simp only: fun_upd_triv)
        then show ?thesis by simp
      qed
      ultimately have "fst (page_ref_dec s2 p) = s1" by (simp add: page_ref_dec_def s2_def page_ref_inc_def)
      then show ?thesis using True same pg inv1 p(3) fr2(1)
        by (intro exI [of _ s1] exI [of _ "{}"] exI [of _ "\<lambda>_. 0"]) auto
    next
      case other: False
      from page_remove_pte_ok [OF inv2 d(1,2) pr] obtain s3 R where r: "page_remove_pte pm s2 d la (t, j) = Ret s3"
        "pt_inv fs ow (F1 \<union> R) D ((\<lambda>_. 0)(p := 1)) s3" "R = {q \<in> mapped s2 D - mapped s3 D. ((\<lambda>_. 0 :: int)(p := 1)) q = 0}" "rest_same s2 s3"
        "frames s3 = frames (set_entry t j 0 s2)" "mapped s3 D \<subseteq> mapped s2 D" "mapped s2 D \<subseteq> insert (ppn (pte s2 d la)) (mapped s3 D)" "\<forall>q. q \<notin> F1 \<union> R \<longrightarrow> ow (pmm s2) q 1 \<longrightarrow> ow (pmm s3) q 1"
        "tlb s3 = (if cr3 s2 = page2pa d then (tlb s2)(PPN la := None) else tlb s2)"
        unfolding ent(2) j_def by blast
      have R: "R = mapped s1 D - mapped s3 D - {p}" using r(3) by (auto simp: frames_inv [OF fr2(1)] split: if_splits)
      have "p \<in> mapped s3 D" if "p \<in> mapped s1 D"
        using that r(7) other by (auto simp: ent(1) frames_inv(5) [OF fr2(1)])
      then have "mapped s3 D \<union> R = mapped s1 D" using R r(6) by (auto simp: frames_inv [OF fr2(1)])
      moreover have "ow (pmm s3) p 1" using r(8) R p(1) pow2 by blast
      moreover have "frames s3 t j = 0" using r(5) by simp
      ultimately show ?thesis using True other pg r(1,2,4,5,9) R fr2 rest_same_trans [OF fr2(3) r(4)]
        by (intro exI [of _ s3] exI [of _ R] exI [of _ "(\<lambda>_. 0)(p := 1)"]) auto
    qed
  qed
qed

lemma page_insert_ok:
  assumes inv: "pt_inv fs ow F D (\<lambda>_. 0) s" and d: "d \<in> D" and la: "la < USERTOP"
    and room: "F \<noteq> {} \<or> present (frames s d (PDX la))"
    and p: "p < unat (npage s)" "p \<notin> F" "p \<notin> D" "p \<notin> tables s D" "ow (pmm s) p 1" and perm: "PPN perm = 0"
  defines "e \<equiv> page2pa p OR PTE_P OR perm"
  shows "\<exists>s' T R. page_insert pm sm s d p la perm = Ret (s', 0) \<and> T \<subseteq> F \<and> card T \<le> 1 \<and> pt_inv fs ow (F - T \<union> R) D (\<lambda>_. 0) s' \<and>
     rest_same s s' \<and> R = mapped s D - mapped s' D \<and> tables s' D = tables s D \<union> T \<and> mapped s' D \<union> R = insert p (mapped s D) \<and>
     (\<forall>d' \<in> D. \<forall>la' < USERTOP. pte s' d' la' = (if d' = d \<and> PPN la' = PPN la then e else pte s d' la')) \<and>
     tlb s' = (if cr3 s = page2pa d then (tlb s)(PPN la := None) else tlb s) \<and>
     (\<forall>f. f \<notin> D \<union> tables s' D \<longrightarrow> frames s' f = frames s f) \<and> (present (frames s d (PDX la)) \<longrightarrow> T = {})"
proof -
  have p20: "p < 2 ^ 20" using p(1) pt_invD(3) [OF inv] by simp
  have e: "present e" "ppn e = p" using ppn_entry [OF p20, of "PTE_P OR perm"] perm
    by (simp_all add: e_def present_OR PPN_OR or.assoc)
  from get_pte_create [OF inv d la room] obtain s1 T where g: "get_pte pm sm s d la True = Ret (s1, Some (table s1 (d, PDX la), PTX la))"
    "T \<subseteq> F" "card T \<le> 1" "pt_inv fs ow (F - T) D (\<lambda>_. 0) s1" "present (frames s1 d (PDX la))" "rest_same s s1" "tlb s1 = tlb s"
    "\<forall>d' \<in> D. \<forall>la' < USERTOP. pte s1 d' la' = pte s d' la'" "mapped s1 D = mapped s D" "\<forall>f. f \<notin> insert d T \<longrightarrow> frames s1 f = frames s f"
    "present (frames s d (PDX la)) \<longrightarrow> s1 = s \<and> T = {}" "tables s1 D = tables s D \<union> T"
    "\<forall>q. q \<notin> F \<longrightarrow> ow (pmm s) q 1 \<longrightarrow> ow (pmm s1) q 1" by blast
  let ?t = "table s1 (d, PDX la)" and ?j = "PTX la"
  have pT: "p \<notin> F - T" "p \<notin> tables s1 D" "p < unat (npage s1)" using p g(2,12) rest_sameD(1) [OF g(6)] by auto
  have pow: "ow (pmm s1) p 1" using g(13) p(2,5) by blast
  have tin: "?t \<in> tables s1 D" using d la g(5) by (simp add: tables_def tabs_la)
  from insert_body [OF g(4) d la g(5) pT(1,2) pow] obtain s3 R x where
    b: "(if frames (page_ref_inc s1 p) ?t ?j AND PTE_P \<noteq> 0 then
       bind_outcome (pte2page (page_ref_inc s1 p) (frames (page_ref_inc s1 p) ?t ?j))
         (\<lambda>q. if q = p then Ret (fst (page_ref_dec (page_ref_inc s1 p) p)) else page_remove_pte pm (page_ref_inc s1 p) d la (?t, ?j))
     else Ret (page_ref_inc s1 p)) = Ret s3" "pt_inv fs ow (F - T \<union> R) D x s3" "R \<subseteq> mapped s1 D - {p}" "mapped s3 D \<union> R = mapped s1 D"
    "mapped s3 D \<inter> R = {}" "rest_same s1 s3" "ow (pmm s3) p 1" "frames s3 = frames s1 \<or> frames s3 = frames (set_entry ?t ?j 0 s1)"
    "tlb s3 = tlb s1 \<or> tlb s3 = (if cr3 s1 = page2pa d then (tlb s1)(PPN la := None) else tlb s1)"
    "if present (frames s3 ?t ?j) then ppn (frames s3 ?t ?j) = p \<and> x = (\<lambda>_. 0) else x = (\<lambda>_. 0)(p := 1)" by blast
  let ?u = "set_entry ?t ?j e s3" and ?s' = "tlb_invalidate (set_entry ?t ?j e s3) d la"
  note U = replace_entry [OF g(4) d la g(5) b(2) rest_sameD(1) [OF b(6)] e pT(3) _ p(3) pT(2) b(7,8,10)]
  have "p \<notin> F - T \<union> R" using pT(1) b(3) by blast
  note U = U [OF this]
  have fr': "frames ?s' = frames ?u" by simp
  show ?thesis
  proof (intro exI conjI)
    show "page_insert pm sm s d p la perm = Ret (?s', 0)"
      using g(1) b(1) by (simp add: page_insert_def Let_def e_def)
    show "pt_inv fs ow (F - T \<union> R) D (\<lambda>_. 0) ?s'" using U(1) by simp
    show "R = mapped s D - mapped ?s' D" unfolding frames_inv(5) [OF fr'] U(2) using b(3-5) g(9) by blast
    show "mapped ?s' D \<union> R = insert p (mapped s D)" unfolding frames_inv(5) [OF fr'] U(2) using b(4) g(9) by blast
    show tab: "tables ?s' D = tables s D \<union> T" unfolding frames_inv(3) [OF fr'] U(3) g(12) ..
    show "\<forall>d' \<in> D. \<forall>la' < USERTOP. pte ?s' d' la' = (if d' = d \<and> PPN la' = PPN la then e else pte s d' la')"
      unfolding frames_inv(6) [OF fr'] using U(4) g(8) by simp
    show "tlb ?s' = (if cr3 s = page2pa d then (tlb s)(PPN la := None) else tlb s)"
      using b(9) g(7) rest_sameD(2) [OF b(6)] rest_sameD(2) [OF g(6)] by auto
    show "\<forall>f. f \<notin> D \<union> tables ?s' D \<longrightarrow> frames ?s' f = frames s f"
    proof (intro allI impI)
      fix f assume f: "f \<notin> D \<union> tables ?s' D"
      then have "f \<noteq> ?t" "f \<notin> insert d T" using tin d unfolding tab g(12) by auto
      then show "frames ?s' f = frames s f" using b(8) g(10) by auto
    qed
    show "rest_same s ?s'" by (rule rest_same_trans [OF g(6) rest_same_trans [OF b(6)]]) (simp add: rest_same_def tlb_invalidate_def)
  qed (use g(2,3,11) in auto)
qed

end

subsection \<open>Ranges of user addresses\<close>

lemma unat_PGSIZE: "unat PGSIZE = 4096" "unat PTSIZE = 4194304" "unat USERTOP = 2952790016"
  by (simp_all add: PGSIZE_def PTSIZE_def USERTOP_def)

lemma page_aligned: "a mod PGSIZE = 0 \<longleftrightarrow> 4096 dvd unat a"
proof -
  have "a mod PGSIZE = 0 \<longleftrightarrow> unat (a mod PGSIZE) = 0" by (simp add: unat_eq_0)
  then show ?thesis by (simp add: unat_mod unat_PGSIZE dvd_eq_mod_eq_0)
qed

lemma page_range_iff:
  assumes "4096 dvd unat start"
  shows "PPN la = PPN start \<longleftrightarrow> unat start \<le> unat la \<and> unat la < unat start + 4096"
proof -
  have "PPN la = PPN start \<longleftrightarrow> unat la div 4096 = unat start div 4096"
    using unat_PPN by (simp add: word_unat_eq_iff)
  moreover from assms obtain k where "unat start = 4096 * k" by auto
  ultimately show ?thesis by (auto simp: div_nat_eqI div_eq_dividend_iff) 
qed

lemma next_page:
  assumes "start < end'" "end' \<le> USERTOP" "start mod PGSIZE = 0" "end' mod PGSIZE = 0"
  shows "unat (start + PGSIZE) = unat start + 4096" "unat start + 4096 \<le> unat end'" "start + PGSIZE \<noteq> 0" "(start + PGSIZE) mod PGSIZE = 0"
proof -
  have le: "unat start < unat end'" "unat end' \<le> 2952790016" using assms(1,2) unat_PGSIZE(3) by (simp_all add: word_less_nat_alt word_le_nat_alt)
  obtain k l where kl: "unat start = 4096 * k" "unat end' = 4096 * l" using assms(3,4) unfolding page_aligned dvd_def by blast
  show u: "unat (start + PGSIZE) = unat start + 4096" using le by (simp add: unat_word_ariths unat_PGSIZE)
  show "unat start + 4096 \<le> unat end'" using le(1) kl by simp
  show "start + PGSIZE \<noteq> 0" using u by (metis add_eq_0_iff_both_eq_0 unat_0 zero_neq_numeral)
  show "(start + PGSIZE) mod PGSIZE = 0" using assms(3) by (simp add: page_aligned u)
qed

lemma next_table:
  assumes "start < USERTOP"
  shows "unat (ROUNDDOWN (start + PTSIZE) PTSIZE) = (unat start div 2 ^ 22 + 1) * 2 ^ 22" "ROUNDDOWN (start + PTSIZE) PTSIZE \<noteq> 0"
    "ROUNDDOWN (start + PTSIZE) PTSIZE mod PGSIZE = 0" "start < ROUNDDOWN (start + PTSIZE) PTSIZE"
proof -
  have le: "unat start < 2952790016" using assms unat_PGSIZE(3) by (simp add: word_less_nat_alt)
  have u: "unat (start + PTSIZE) = unat start + 4194304" using le by (simp add: unat_word_ariths unat_PGSIZE)
  have "n + 4194304 - (n + 4194304) mod 4194304 = (n div 4194304 + 1) * 4194304" for n :: nat
    unfolding minus_mod_eq_div_mult by (subst div_add_self2) simp_all
  then show r: "unat (ROUNDDOWN (start + PTSIZE) PTSIZE) = (unat start div 2 ^ 22 + 1) * 2 ^ 22"
    by (simp add: unat_ROUNDDOWN u unat_PGSIZE)
  then show "ROUNDDOWN (start + PTSIZE) PTSIZE \<noteq> 0" by auto
  have "(4096 :: nat) dvd 2 ^ 22" by (simp add: dvd_def)
  then show "ROUNDDOWN (start + PTSIZE) PTSIZE mod PGSIZE = 0" unfolding page_aligned r by (rule dvd_mult)
  show "start < ROUNDDOWN (start + PTSIZE) PTSIZE" unfolding word_less_nat_alt r
    using dividend_less_div_times [of "2 ^ 22" "unat start"] by simp
qed

text \<open>Which user addresses one round of the loops skips.\<close>

lemma skip_table:
  assumes "start < USERTOP" "unat start \<le> unat la" "unat la < unat (ROUNDDOWN (start + PTSIZE) PTSIZE)"
  shows "PDX la = PDX start"
proof -
  have "unat start div 2 ^ 22 \<le> unat la div 2 ^ 22" using assms(2) by (rule div_le_mono)
  moreover have "unat la div 2 ^ 22 < unat start div 2 ^ 22 + 1"
    using assms(3) unfolding next_table(1) [OF assms(1)] by (simp add: less_mult_imp_div_less)
  ultimately show ?thesis by (simp add: PDX_nat)
qed

definition unmapped_between :: "mem_state \<Rightarrow> nat set \<Rightarrow> nat \<Rightarrow> u32 \<Rightarrow> u32 \<Rightarrow> mem_state \<Rightarrow> bool" where
  "unmapped_between s D d start end' s' \<longleftrightarrow>
     (\<forall>d' \<in> D. \<forall>la < USERTOP. pte s' d' la =
        (if d' = d \<and> start \<le> la \<and> la < end' \<and> present (pte s d la) then 0 else pte s d' la))"

lemma unmapped_trans:
  assumes "unmapped_between s D d a b s1" "unmapped_between s1 D d b c s2" "a \<le> b" "b \<le> c" "d \<in> D"
  shows "unmapped_between s D d a c s2"
  unfolding unmapped_between_def
proof (intro ballI allI impI)
  fix d' la assume d': "d' \<in> D" "la < USERTOP"
  have 1: "pte s1 d'' la = (if d'' = d \<and> a \<le> la \<and> la < b \<and> present (pte s d la) then 0 else pte s d'' la)" if "d'' \<in> D" for d''
    using assms(1) d' that by (simp add: unmapped_between_def)
  have 2: "pte s2 d' la = (if d' = d \<and> b \<le> la \<and> la < c \<and> present (pte s1 d la) then 0 else pte s1 d' la)"
    using assms(2) d' by (simp add: unmapped_between_def)
  show "pte s2 d' la = (if d' = d \<and> a \<le> la \<and> la < c \<and> present (pte s d la) then 0 else pte s d' la)"
  proof (cases "d' = d")
    case True
    consider "la < a" | "a \<le> la" "la < b" | "b \<le> la" "la < c" | "c \<le> la" by fastforce
    then show ?thesis using 1 [OF assms(5)] 2 True assms(3,4) by cases (auto simp: not_le not_less)
  qed (use 1 [OF d'(1)] 2 in simp)
qed

lemma unmapped_refl: "(\<And>la. a \<le> la \<Longrightarrow> la < b \<Longrightarrow> \<not> present (pte s d la)) \<Longrightarrow> unmapped_between s D d a b s"
  by (auto simp: unmapped_between_def)

lemma pte_same_page: "PPN la' = PPN la \<Longrightarrow> pte s d la' = pte s d la"
  by (simp add: same_page_iff pte_def)

lemma unmapped_page:
  assumes "\<forall>d' \<in> D. \<forall>la' < USERTOP. pte s' d' la' = (if d' = d \<and> PPN la' = PPN a \<and> present (pte s d a) then 0 else pte s d' la')"
    and a: "a mod PGSIZE = 0" "unat (a + PGSIZE) = unat a + 4096"
  shows "unmapped_between s D d a (a + PGSIZE) s'"
  unfolding unmapped_between_def
proof (intro ballI allI impI)
  fix d' la assume d': "d' \<in> D" "la < USERTOP"
  have "PPN la = PPN a \<longleftrightarrow> a \<le> la \<and> la < a + PGSIZE"
    using page_range_iff [of a la] a by (simp add: page_aligned word_le_nat_alt word_less_nat_alt)
  moreover have "pte s d la = pte s d a" if "PPN la = PPN a" using that by (rule pte_same_page)
  ultimately show "pte s' d' la = (if d' = d \<and> a \<le> la \<and> la < a + PGSIZE \<and> present (pte s d la) then 0 else pte s d' la)"
    using assms(1) d' by auto
qed

text \<open>What a change of the mappings may not touch.\<close>

definition same_tables :: "mem_state \<Rightarrow> nat set \<Rightarrow> mem_state \<Rightarrow> bool" where
  "same_tables s D s' \<longleftrightarrow> tabs s' D = tabs s D \<and> (\<forall>b \<in> tabs s D. table s' b = table s b) \<and>
     (\<forall>f. f \<notin> tables s D \<longrightarrow> frames s' f = frames s f)"

lemma same_tablesD: "same_tables s D s' \<Longrightarrow> tables s' D = tables s D"
  by (simp add: same_tables_def tables_def)

lemma same_tables_trans: "same_tables s D s1 \<Longrightarrow> same_tables s1 D s2 \<Longrightarrow> same_tables s D s2"
  using same_tablesD [of s D s1] by (auto simp: same_tables_def)

context frame_allocator
begin

lemma unmap_page:
  assumes inv: "pt_inv fs ow F D (\<lambda>_. 0) s" and d: "d \<in> D" and la: "la < USERTOP" and tab: "present (frames s d (PDX la))"
  defines "tj \<equiv> (table s (d, PDX la), PTX la)"
  shows "\<exists>s' R. (if frames s (fst tj) (snd tj) \<noteq> 0 then page_remove_pte pm s d la tj else Ret s) = Ret s' \<and>
     pt_inv fs ow (F \<union> R) D (\<lambda>_. 0) s' \<and> R = mapped s D - mapped s' D \<and> mapped s' D \<subseteq> mapped s D \<and> rest_same s s' \<and>
     same_tables s D s' \<and> (tlb_ok s d \<longrightarrow> tlb_ok s' d) \<and>
     (\<forall>d' \<in> D. \<forall>la' < USERTOP. pte s' d' la' = (if d' = d \<and> PPN la' = PPN la \<and> present (pte s d la) then 0 else pte s d' la'))"
proof (cases "present (pte s d la)")
  case False
  then have "(if frames s (fst tj) (snd tj) \<noteq> 0 then page_remove_pte pm s d la tj else Ret s) = Ret s"
    using tab by (simp add: tj_def pte_def page_remove_pte_def)
  moreover have "same_tables s D s" by (simp add: same_tables_def)
  ultimately show ?thesis using False inv by (intro exI [of _ s] exI [of _ "{}"]) (simp del: not_present_0)
next
  case True
  have di: "(d, PDX la) \<in> tabs s D" using d la tab by (simp add: tabs_la)
  have nz: "frames s (fst tj) (snd tj) \<noteq> 0" using True slots_pte(3) [OF d la True] by (auto simp: tj_def)
  from page_remove_pte_ok [OF inv d la True] obtain s' R where r: "page_remove_pte pm s d la tj = Ret s'"
    "pt_inv fs ow (F \<union> R) D (\<lambda>_. 0) s'" "R = {p \<in> mapped s D - mapped s' D. (0 :: int) = 0}" "rest_same s s'"
    "frames s' = frames (set_entry (fst tj) (snd tj) 0 s)" "mapped s' D \<subseteq> mapped s D"
    "tlb s' = (if cr3 s = page2pa d then (tlb s)(PPN la := None) else tlb s)" unfolding tj_def fst_conv snd_conv by blast
  have R: "R = mapped s D - mapped s' D" using r(3) by auto
  note U = store_entry [OF inv di PTX_less, where e = 0] frames_inv [OF r(5)]
  have "same_tables s D s'" unfolding same_tables_def U(6,7,8)
    using U(1,2) r(5) di by (auto simp: tj_def tables_def)
  moreover have pt: "pte s' d' la' = (if d' = d \<and> PPN la' = PPN la then 0 else pte s d' la')" if "d' \<in> D" "la' < USERTOP" for d' la'
    unfolding frames_inv(6) [OF r(5)] using store_pte [OF inv d la tab that, of 0] by (simp add: tj_def)
  moreover have "tlb_ok s' d" if "tlb_ok s d"
    by (rule tlb_ok_store [OF that _ _ r(7)]) (use rest_sameD(2) [OF r(4)] pt [OF d] in auto)
  ultimately show ?thesis using r(1,2,4,6) R nz True by (intro exI [of _ s'] exI [of _ R]) (simp del: not_present_0)
qed

lemma unmap_loop_ok:
  assumes "pt_inv fs ow F D (\<lambda>_. 0) s" "d \<in> D" "start < end'" "end' \<le> USERTOP" "start mod PGSIZE = 0" "end' mod PGSIZE = 0"
  shows "\<exists>s' R. unmap_loop pm sm s d start end' = Some (Ret s') \<and> pt_inv fs ow (F \<union> R) D (\<lambda>_. 0) s' \<and>
     R = mapped s D - mapped s' D \<and> mapped s' D \<subseteq> mapped s D \<and> rest_same s s' \<and> same_tables s D s' \<and> (tlb_ok s d \<longrightarrow> tlb_ok s' d) \<and>
     unmapped_between s D d start end' s'"
  using assms
proof (induction "unat end' - unat start" arbitrary: s F start rule: less_induct)
  case less
  note inv = less.prems(1) and d = less.prems(2) and al = less.prems(5,6)
  have la: "start < USERTOP" using less.prems(3,4) by simp
  show ?case
  proof (cases "present (frames s d (PDX start))")
    case False
    let ?n = "ROUNDDOWN (start + PTSIZE) PTSIZE"
    note N = next_table [OF la]
    have skip: "\<not> present (pte s d la')" if "start \<le> la'" "la' < ?n" for la'
      using skip_table [OF la, of la'] that False by (simp add: word_le_nat_alt word_less_nat_alt pte_def)
    have st: "unmap_loop pm sm s d start end' = (if ?n < end' then unmap_loop pm sm s d ?n end' else Some (Ret s))"
      using get_pte_absent [OF False] N(2) by (subst unmap_loop.simps) (simp add: Let_def)
    show ?thesis
    proof (cases "?n < end'")
      case True
      have "unat end' - unat ?n < unat end' - unat start" using True N(4) by (simp add: word_less_nat_alt)
      from less.hyps [OF this inv d True less.prems(4) N(3) al(2)] obtain s' R where s': "unmap_loop pm sm s d ?n end' = Some (Ret s')"
        "pt_inv fs ow (F \<union> R) D (\<lambda>_. 0) s'" "R = mapped s D - mapped s' D" "mapped s' D \<subseteq> mapped s D" "rest_same s s'" "same_tables s D s'"
        "tlb_ok s d \<longrightarrow> tlb_ok s' d" "unmapped_between s D d ?n end' s'" by blast
      have "unmapped_between s D d start end' s'"
        by (rule unmapped_trans [OF unmapped_refl [OF skip] s'(8) _ _ d]) (use N(4) True in auto)
      then show ?thesis using s' st True by (intro exI [of _ s'] exI [of _ R]) simp
    next
      case end_: False
      have "unmapped_between s D d start end' s" by (rule unmapped_refl [OF skip]) (use end_ in auto)
      moreover have "same_tables s D s" by (simp add: same_tables_def)
      ultimately show ?thesis using inv st end_ by (intro exI [of _ s] exI [of _ "{}"]) simp
    qed
  next
    case True
    note N = next_page [OF less.prems(3-6)]
    let ?n = "start + PGSIZE"
    from unmap_page [OF inv d la True] obtain s1 R1 where u: "(if frames s (table s (d, PDX start)) (PTX start) \<noteq> 0
        then page_remove_pte pm s d start (table s (d, PDX start), PTX start) else Ret s) = Ret s1"
      "pt_inv fs ow (F \<union> R1) D (\<lambda>_. 0) s1" "R1 = mapped s D - mapped s1 D" "mapped s1 D \<subseteq> mapped s D" "rest_same s s1" "same_tables s D s1"
      "tlb_ok s d \<longrightarrow> tlb_ok s1 d"
      "\<forall>d' \<in> D. \<forall>la' < USERTOP. pte s1 d' la' = (if d' = d \<and> PPN la' = PPN start \<and> present (pte s d start) then 0 else pte s d' la')"
      by auto
    note U = unmapped_page [OF u(8) al(1) N(1)]
    have st: "unmap_loop pm sm s d start end' = (if ?n < end' then unmap_loop pm sm s1 d ?n end' else Some (Ret s1))"
      using get_pte_present [OF inv d la True] u(1) N(3) by (subst unmap_loop.simps) (simp add: Let_def)
    show ?thesis
    proof (cases "?n < end'")
      case True
      have "unat end' - unat ?n < unat end' - unat start" using N(1,2) by simp
      from less.hyps [OF this u(2) d True less.prems(4) N(4) al(2)] obtain s' R where s': "unmap_loop pm sm s1 d ?n end' = Some (Ret s')"
        "pt_inv fs ow (F \<union> R1 \<union> R) D (\<lambda>_. 0) s'" "R = mapped s1 D - mapped s' D" "mapped s' D \<subseteq> mapped s1 D" "rest_same s1 s'" "same_tables s1 D s'"
        "tlb_ok s1 d \<longrightarrow> tlb_ok s' d" "unmapped_between s1 D d ?n end' s'" by blast
      have "unmapped_between s D d start end' s'"
        by (rule unmapped_trans [OF U s'(8) _ _ d]) (use N(1,2) in \<open>simp_all add: word_le_nat_alt\<close>)
      moreover have "R1 \<union> R = mapped s D - mapped s' D" using u(3,4) s'(3,4) by blast
      ultimately show ?thesis
        using s' u(4,7) st True rest_same_trans [OF u(5) s'(5)] same_tables_trans [OF u(6) s'(6)]
        by (intro exI [of _ s'] exI [of _ "R1 \<union> R"]) (auto simp: Un_assoc)
    next
      case False
      then have "unat end' = unat ?n" using N(1,2) by (simp add: word_less_nat_alt)
      then have "end' = ?n" by (simp add: word_unat_eq_iff)
      then show ?thesis using u st False U by (intro exI [of _ s1] exI [of _ R1]) simp
    qed
  qed
qed

end


subsection \<open>Giving back page tables\<close>

lemma drop_table:
  assumes inv: "pt_inv fs ow F D x s" and di: "(d, i) \<in> tabs s D" and none: "\<And>j p. ((d, i), j) \<notin> slots s D p"
    and s': "frames s' = (frames s)(d := (frames s d)(i := 0))"
  shows "tabs s' D = tabs s D - {(d, i)}" "\<And>b. b \<in> tabs s' D \<Longrightarrow> table s' b = table s b"
    "tables s' D = tables s D - {table s (d, i)}" "slots s' D = slots s D"
proof -
  note I = pt_invD [OF inv]
  have d: "d \<in> D" using di by (simp add: tabs_def)
  show tb: "tabs s' D = tabs s D - {(d, i)}" using s' by (auto simp: tabs_def split: if_splits)
  show ta: "table s' b = table s b" if "b \<in> tabs s' D" for b using that s' by (cases b) (auto simp: tb table_def split: if_splits)
  show "tables s' D = tables s D - {table s (d, i)}"
  proof -
    have "table s ` (tabs s D - {(d, i)}) = tables s D - {table s (d, i)}"
      using inj_on_image_set_diff [OF I(7), of "tabs s D" "{(d, i)}"] di by (simp add: tables_def)
    then show ?thesis using ta by (simp add: tables_def tb)
  qed
  have inner: "frames s' (table s b) = frames s (table s b)" if "b \<in> tabs s D" for b
    using I(9) that d s' by (auto simp: tables_def)
  show "slots s' D = slots s D"
  proof
    fix p
    have "(b, j) \<in> slots s' D p \<longleftrightarrow> (b, j) \<in> slots s D p" for b j
    proof (cases "b \<in> tabs s' D")
      case True
      then show ?thesis using ta [OF True] inner by (simp add: slots_def tb)
    next
      case False
      then show ?thesis using none [of j p] by (auto simp: slots_def tb)
    qed
    then show "slots s' D p = slots s D p" by auto
  qed
qed

context frame_allocator
begin

lemma exit_table:
  assumes inv: "pt_inv fs ow F D (\<lambda>_. 0) s" and di: "(d, i) \<in> tabs s D" and none: "\<And>j p. ((d, i), j) \<notin> slots s D p"
  shows "\<exists>s'. bind_outcome (pde2page s (frames s d i)) (\<lambda>p. bind_outcome (free_page pm s p) (\<lambda>s1. Ret (set_entry d i 0 s1))) = Ret s' \<and>
     pt_inv fs ow (insert (table s (d, i)) F) D (\<lambda>_. 0) s' \<and> tabs s' D = tabs s D - {(d, i)} \<and>
     (\<forall>b \<in> tabs s' D. table s' b = table s b) \<and> slots s' D = slots s D \<and> rest_same s s' \<and> tlb s' = tlb s \<and>
     (\<forall>f. f \<noteq> d \<longrightarrow> frames s' f = frames s f)"
proof -
  note I = pt_invD [OF inv]
  let ?t = "table s (d, i)"
  have t: "?t \<in> tables s D" using di by (simp add: tables_def)
  then have tn: "?t < unat (npage s)" "?t \<notin> F" "?t \<notin> D" "?t \<notin> mapped s D" "ow (pmm s) ?t 1" using I(8,9,11,12) by auto
  from free_page_ok [OF I(1) tn(5,2)] obtain m where m: "free_page pm s ?t = Ret (s\<lparr>pmm := m\<rparr>)" "fs m (insert ?t F)"
    "\<forall>q. q \<notin> insert ?t F \<longrightarrow> ow (pmm s) q 1 \<longrightarrow> ow m q 1" "\<forall>q. ref (pages m q) = (if q = ?t then 0 else ref (pages (pmm s) q))" by blast
  let ?s' = "set_entry d i 0 (s\<lparr>pmm := m\<rparr>)"
  have "pde2page s (frames s d i) = Ret ?t" using tn(1) by (simp add: pde2page_def pa2page_def table_def ppn_def word_le_nat_alt)
  moreover note T = drop_table [OF inv di none, of ?s']
  moreover have "mapped ?s' D = mapped s D" using T(4) by (simp add: mapped_def)
  moreover have "pt_inv fs ow (insert ?t F) D (\<lambda>_. 0) ?s'"
    unfolding pt_inv_def \<open>mapped ?s' D = mapped s D\<close>
  proof (intro conjI)
    show "fs (pmm ?s') (insert ?t F)" using m(2) by simp
    show "inj_on (table ?s') (tabs ?s' D)" using I(7) T(1,2) by (auto simp: inj_on_def)
    show "\<forall>p \<in> D \<union> tables ?s' D \<union> mapped s D. ow (pmm ?s') p 1"
    proof
      fix p assume "p \<in> D \<union> tables ?s' D \<union> mapped s D"
      then have "p \<in> D \<union> tables s D \<union> mapped s D" "p \<notin> insert ?t F" using T(3) I(6,9,11) tn by auto
      then show "ow (pmm ?s') p 1" using m(3) I(12) by simp
    qed
    show "\<forall>p. p \<notin> tables ?s' D \<longrightarrow> page_ref ?s' p = int (card (slots ?s' D p)) + 0"
    proof (intro allI impI)
      fix p assume p: "p \<notin> tables ?s' D"
      show "page_ref ?s' p = int (card (slots ?s' D p)) + 0"
      proof (cases "p = ?t")
        case True
        then have "slots s D p = {}" using tn(4) by (simp add: mapped_def)
        then show ?thesis using m(4) True T(4) by (simp add: page_ref_def)
      next
        case False
        then show ?thesis using I(13) m(4) p T(3,4) by (simp add: page_ref_def)
      qed
    qed
  qed (use I tn T(3) in auto)
  ultimately show ?thesis using m(1) by (intro exI [of _ ?s']) (auto simp: rest_same_def)
qed

text \<open>The directory entries that \<open>exit_range\<close> visits.\<close>

lemma exit_loop_ok:
  fixes start end' :: u32 and d :: nat
  assumes "pt_inv fs ow F D (\<lambda>_. 0) s" "d \<in> D" "start < end'" "end' \<le> USERTOP" "2 ^ 22 dvd unat start"
    "\<And>i j p. unat start \<le> i * 2 ^ 22 \<Longrightarrow> i * 2 ^ 22 < unat end' \<Longrightarrow> ((d, i), j) \<notin> slots s D p"
  defines "Z \<equiv> \<lambda>start. {(d, i) | i. unat start \<le> i * 2 ^ 22 \<and> i * 2 ^ 22 < unat end'}"
  shows "\<exists>s'. exit_loop pm s d start end' = Some (Ret s') \<and>
     pt_inv fs ow (F \<union> table s ` (tabs s D \<inter> Z start)) D (\<lambda>_. 0) s' \<and> tabs s' D = tabs s D - Z start \<and>
     (\<forall>b \<in> tabs s' D. table s' b = table s b) \<and> slots s' D = slots s D \<and> rest_same s s' \<and> tlb s' = tlb s \<and>
     (\<forall>f. f \<noteq> d \<longrightarrow> frames s' f = frames s f)"
  using assms(1-6)
proof (induction "unat end' - unat start" arbitrary: s F start rule: less_induct)
  case less
  note inv = less.prems(1) and d = less.prems(2)
  let ?i = "PDX start" and ?n = "start + PTSIZE"
  have la: "start < USERTOP" "unat start < 2952790016" using less.prems(3,4) unat_PGSIZE(3) by (simp_all add: word_less_nat_alt word_le_nat_alt)
  have si: "unat start = ?i * 2 ^ 22" using less.prems(5) by (simp add: PDX_nat)
  have un: "unat ?n = unat start + 2 ^ 22" using la(2) by (simp add: unat_word_ariths unat_PGSIZE)
  then have n0: "?n \<noteq> 0" by auto
  have Z: "Z start = insert (d, ?i) (Z ?n)"
  proof -
    have "unat start \<le> i * 2 ^ 22 \<longleftrightarrow> i = ?i \<or> unat ?n \<le> i * 2 ^ 22" for i
      unfolding un si by (auto simp: mult_le_cancel2 simp flip: mult_Suc)
    then show ?thesis using less.prems(3) si by (auto simp: Z_def word_less_nat_alt)
  qed
  obtain s1 where s1: "(if frames s d ?i AND PTE_P \<noteq> 0 then
      bind_outcome (pde2page s (frames s d ?i)) (\<lambda>p. bind_outcome (free_page pm s p) (\<lambda>s1. Ret (set_entry d ?i 0 s1))) else Ret s) = Ret s1"
    "pt_inv fs ow (F \<union> table s ` (tabs s D \<inter> {(d, ?i)})) D (\<lambda>_. 0) s1" "tabs s1 D = tabs s D - {(d, ?i)}"
    "\<forall>b \<in> tabs s1 D. table s1 b = table s b" "slots s1 D = slots s D" "rest_same s s1" "tlb s1 = tlb s" "\<forall>f. f \<noteq> d \<longrightarrow> frames s1 f = frames s f"
  proof (cases "present (frames s d ?i)")
    case True
    then have di: "(d, ?i) \<in> tabs s D" using d la(1) by (simp add: tabs_la)
    have "((d, ?i), j) \<notin> slots s D p" for j p using less.prems(3,6) si by (simp add: word_less_nat_alt)
    from exit_table [OF inv di this] True di that show ?thesis by (auto simp: insert_absorb)
  next
    case False
    then have "tabs s D \<inter> {(d, ?i)} = {}" by (auto simp: tabs_def)
    then show ?thesis using False inv by (intro that [of s]) auto
  qed
  have st: "exit_loop pm s d start end' = (if ?n < end' then exit_loop pm s1 d ?n end' else Some (Ret s1))"
    using s1(1) n0 by (subst exit_loop.simps) (simp add: Let_def)
  have im: "table s1 ` (tabs s1 D \<inter> Z ?n) = table s ` ((tabs s D - {(d, ?i)}) \<inter> Z ?n)" using s1(3,4) by (intro image_cong) auto
  show ?case
  proof (cases "?n < end'")
    case True
    have "unat end' - unat ?n < unat end' - unat start" using un True by (simp add: word_less_nat_alt)
    moreover have "2 ^ 22 dvd unat ?n" unfolding un using less.prems(5) by simp
    ultimately obtain s' where s': "exit_loop pm s1 d ?n end' = Some (Ret s')"
      "pt_inv fs ow (F \<union> table s ` (tabs s D \<inter> {(d, ?i)}) \<union> table s1 ` (tabs s1 D \<inter> Z ?n)) D (\<lambda>_. 0) s'" "tabs s' D = tabs s1 D - Z ?n"
      "\<forall>b \<in> tabs s' D. table s' b = table s1 b" "slots s' D = slots s1 D" "rest_same s1 s'" "tlb s' = tlb s1" "\<forall>f. f \<noteq> d \<longrightarrow> frames s' f = frames s1 f"
      using less.hyps [OF _ s1(2) d True less.prems(4)] less.prems(6) s1(5) un by force
    have "F \<union> table s ` (tabs s D \<inter> {(d, ?i)}) \<union> table s1 ` (tabs s1 D \<inter> Z ?n) = F \<union> table s ` (tabs s D \<inter> Z start)"
      unfolding im Z by auto
    then show ?thesis using s' s1(3-8) st True rest_same_trans [OF s1(6) s'(6)] Z by (intro exI [of _ s']) auto
  next
    case False
    then have "Z ?n = {}" by (auto simp: Z_def word_less_nat_alt)
    then show ?thesis using s1 st False Z by (intro exI [of _ s1]) simp
  qed
qed

end

subsection \<open>Copying an address space\<close>

lemma slot_la:
  assumes sl: "((d, i), j) \<in> slots s D p"
  shows "\<exists>la < USERTOP. PDX la = i \<and> PTX la = j \<and> present (pte s d la) \<and> ppn (pte s d la) = p"
proof -
  from sl have ij: "d \<in> D" "i < 704" "j < 1024" "present (frames s d i)" by (auto simp: slots_def tabs_def)
  let ?n = "i * 2 ^ 22 + j * 2 ^ 12" and ?la = "of_nat (i * 2 ^ 22 + j * 2 ^ 12) :: u32"
  have lt: "?n < 704 * 2 ^ 22" using ij(2,3) by simp
  then have u: "unat ?la = ?n" by (intro unat_of_nat_u32) simp
  have "PDX ?la = i" "PTX ?la = j" unfolding PDX_nat PTX_nat u using ij(3) by (simp_all add: div_add1_eq)
  moreover have "?la < USERTOP" using lt u by (simp add: word_less_nat_alt unat_PGSIZE)
  ultimately show ?thesis using sl ij by (intro exI [of _ ?la]) (auto simp: pte_def slots_def)
qed

lemma mapped_pte:
  "p \<in> mapped s D \<longleftrightarrow> (\<exists>d \<in> D. \<exists>la < USERTOP. present (pte s d la) \<and> ppn (pte s d la) = p)"
proof
  assume "p \<in> mapped s D"
  then obtain d i j where sl: "((d, i), j) \<in> slots s D p" by (auto simp: mapped_def)
  moreover from this have "d \<in> D" by (simp add: slots_def tabs_def)
  ultimately show "\<exists>d \<in> D. \<exists>la < USERTOP. present (pte s d la) \<and> ppn (pte s d la) = p" using slot_la by blast
qed (use slots_pte(4) in blast)

lemma pt_inv_frames:
  assumes "pt_inv fs ow F D x s" "\<And>f. f \<in> D \<union> tables s D \<Longrightarrow> g f = frames s f"
  shows "pt_inv fs ow F D x (s\<lparr>frames := g\<rparr>)" "tables (s\<lparr>frames := g\<rparr>) D = tables s D" "mapped (s\<lparr>frames := g\<rparr>) D = mapped s D"
    "\<And>d la. d \<in> D \<Longrightarrow> la < USERTOP \<Longrightarrow> pte (s\<lparr>frames := g\<rparr>) d la = pte s d la"
proof -
  let ?s = "s\<lparr>frames := g\<rparr>"
  have tb: "tabs ?s D = tabs s D" using assms(2) by (intro tabs_cong) simp
  have ta: "table ?s b = table s b" if "b \<in> tabs s D" for b using that assms(2) by (auto simp: table_def tabs_def)
  show ts: "tables ?s D = tables s D" using ta by (simp add: tables_def tb)
  have inner: "g (table s b) = frames s (table s b)" if "b \<in> tabs s D" for b using that assms(2) by (auto simp: tables_def)
  have sl: "slots ?s D = slots s D" using ta inner by (auto simp: slots_def tb fun_eq_iff)
  show mp: "mapped ?s D = mapped s D" by (simp add: mapped_def sl)
  have "inj_on (table ?s) (tabs ?s D)" using pt_invD(7) [OF assms(1)] ta by (simp add: tb inj_on_def)
  then show "pt_inv fs ow F D x ?s" using assms(1) by (simp add: pt_inv_def ts mp sl page_ref_def)
  show "pte ?s d la = pte s d la" if "d \<in> D" "la < USERTOP" for d la
  proof (cases "present (frames s d (PDX la))")
    case True
    then have "(d, PDX la) \<in> tabs s D" using that by (simp add: tabs_la)
    from ta [OF this] inner [OF this] show ?thesis using True assms(2) that by (simp add: pte_def)
  next
    case False
    then show ?thesis using assms(2) that by (simp add: pte_def)
  qed
qed

definition copied :: "mem_state \<Rightarrow> nat set \<Rightarrow> nat \<Rightarrow> nat \<Rightarrow> u32 \<Rightarrow> u32 \<Rightarrow> mem_state \<Rightarrow> bool" where
  "copied s D to from' a b s' \<longleftrightarrow>
     (\<forall>d' \<in> D. \<forall>la < USERTOP. \<not> (d' = to \<and> a \<le> la \<and> la < b \<and> present (pte s from' la)) \<longrightarrow> pte s' d' la = pte s d' la) \<and>
     (\<forall>la < USERTOP. a \<le> la \<and> la < b \<and> present (pte s from' la) \<longrightarrow>
        (\<exists>np. np \<notin> mapped s D \<and> np < 2 ^ 20 \<and> pte s' to la = page2pa np OR PTE_P OR (pte s from' la AND PTE_USER) \<and>
           frames s' np = frames s (ppn (pte s from' la)))) \<and>
     (\<forall>p \<in> mapped s D. frames s' p = frames s p) \<and> mapped s D \<subseteq> mapped s' D"

lemma copied_refl: "(\<And>la. a \<le> la \<Longrightarrow> la < b \<Longrightarrow> \<not> present (pte s from' la)) \<Longrightarrow> copied s D to from' a b s"
  by (auto simp: copied_def)

lemma PPN_user: "PPN (e AND PTE_USER) = 0"
proof -
  have "PPN (e AND PTE_USER) = PPN e AND PPN PTE_USER" by (simp add: PPN_def)
  then show ?thesis by (simp add: PTE_USER_def PPN_OR)
qed

lemma copied_entry:
  assumes "np < 2 ^ 20" "e' = page2pa np OR PTE_P OR (e AND PTE_USER)"
  shows "present e'" "ppn e' = np"
  using ppn_entry [OF assms(1), of "PTE_P OR (e AND PTE_USER)"] assms(2)
  by (simp_all add: present_OR PPN_OR PPN_user or.assoc)

lemma copied_trans:
  assumes c1: "copied s D to from' a b s1" and c2: "copied s1 D to from' b c s2" and ab: "a \<le> b" "b \<le> c"
    and D: "to \<in> D" "from' \<in> D" "to \<noteq> from'"
  shows "copied s D to from' a c s2"
proof -
  have from_same: "pte s1 from' la = pte s from' la" if "la < USERTOP" for la using c1 D that unfolding copied_def by metis
  have mp: "mapped s D \<subseteq> mapped s1 D" "mapped s1 D \<subseteq> mapped s2 D" using c1 c2 by (auto simp: copied_def)
  have fr: "\<forall>p \<in> mapped s D. frames s1 p = frames s p" "\<forall>p \<in> mapped s1 D. frames s2 p = frames s1 p"
    using c1 c2 unfolding copied_def by blast+
  show ?thesis unfolding copied_def
  proof (intro conjI ballI allI impI)
    fix d' la assume d': "d' \<in> D" "la < USERTOP" and n: "\<not> (d' = to \<and> a \<le> la \<and> la < c \<and> present (pte s from' la))"
    have "\<not> (d' = to \<and> a \<le> la \<and> la < b \<and> present (pte s from' la))"
      "\<not> (d' = to \<and> b \<le> la \<and> la < c \<and> present (pte s1 from' la))"
      using n ab from_same [OF d'(2)] by auto
    then show "pte s2 d' la = pte s d' la" using c1 c2 d' unfolding copied_def by simp
  next
    fix la assume la: "la < USERTOP" and "a \<le> la \<and> la < c \<and> present (pte s from' la)"
    then have r: "a \<le> la" "la < c" and pr: "present (pte s from' la)" by auto
    show "\<exists>np. np \<notin> mapped s D \<and> np < 2 ^ 20 \<and> pte s2 to la = page2pa np OR PTE_P OR (pte s from' la AND PTE_USER) \<and>
           frames s2 np = frames s (ppn (pte s from' la))"
    proof (cases "la < b")
      case True
      with c1 la r pr obtain np where np: "np \<notin> mapped s D" "np < 2 ^ 20" "pte s1 to la = page2pa np OR PTE_P OR (pte s from' la AND PTE_USER)"
        "frames s1 np = frames s (ppn (pte s from' la))" unfolding copied_def by blast
      have "np \<in> mapped s1 D" using copied_entry [OF np(2,3)] D la by (auto simp: mapped_pte)
      moreover have "pte s2 to la = pte s1 to la" using c2 D la True unfolding copied_def by (metis not_le)
      ultimately show ?thesis using np fr(2) by metis
    next
      case False
      then have "b \<le> la" by simp
      with c2 la r pr from_same obtain np where np: "np \<notin> mapped s1 D" "np < 2 ^ 20"
        "pte s2 to la = page2pa np OR PTE_P OR (pte s from' la AND PTE_USER)" "frames s2 np = frames s1 (ppn (pte s from' la))"
        unfolding copied_def by auto
      have "ppn (pte s from' la) \<in> mapped s D" using la pr D by (auto simp: mapped_pte)
      then show ?thesis using np mp fr(1) by (metis subsetD)
    qed
  next
    fix p assume "p \<in> mapped s D"
    then show "frames s2 p = frames s p" using fr mp by auto
  qed (use mp in auto)
qed

context frame_allocator
begin

lemma alloc_page_inv:
  assumes inv: "pt_inv fs ow F D x s" and "F \<noteq> {}"
  shows "\<exists>m p. alloc_page pm sm s = Ret (s\<lparr>pmm := m\<rparr>, Some p) \<and> p \<in> F \<and> pt_inv fs ow (F - {p}) D x (s\<lparr>pmm := m\<rparr>) \<and> ow m p 1"
proof -
  note I = pt_invD [OF inv]
  from alloc_page_some [OF I(1) assms(2)] obtain m p where a: "alloc_page pm sm s = Ret (s\<lparr>pmm := m\<rparr>, Some p)" "p \<in> F"
    "fs m (F - {p})" "ow m p 1" "\<forall>q. q \<notin> F \<longrightarrow> ow (pmm s) q 1 \<longrightarrow> ow m q 1" "\<forall>q. ref (pages m q) = ref (pages (pmm s) q)" by blast
  have fr: "frames (s\<lparr>pmm := m\<rparr>) = frames s" by simp
  have "\<forall>q \<in> D \<union> tables s D \<union> mapped s D. ow m q 1" using a(5) I(6,9,11,12) by blast
  then have "pt_inv fs ow (F - {p}) D x (s\<lparr>pmm := m\<rparr>)"
    using I a unfolding pt_inv_def frames_inv [OF fr] by (auto simp: page_ref_def)
  then show ?thesis using a by blast
qed

lemma insert_keeps:
  assumes "\<forall>d' \<in> D. \<forall>la' < USERTOP. pte s' d' la' = (if d' = d \<and> PPN la' = PPN la then e else pte s d' la')"
    "\<not> present (pte s d la)"
  shows "mapped s D \<subseteq> mapped s' D"
proof
  fix p assume "p \<in> mapped s D"
  then obtain d' la' where p: "d' \<in> D" "la' < USERTOP" "present (pte s d' la')" "ppn (pte s d' la') = p" by (auto simp: mapped_pte)
  have n: "\<not> (d' = d \<and> PPN la' = PPN la)" using assms(2) p(3) pte_same_page [of la' la s d] by auto
  have "pte s' d' la' = (if d' = d \<and> PPN la' = PPN la then e else pte s d' la')" using assms(1) p(1,2) by blast
  then have "pte s' d' la' = pte s d' la'" by (simp only: if_not_P [OF n])
  then show "p \<in> mapped s' D" unfolding mapped_pte using p by metis
qed

lemma copy_entry_ok:
  assumes inv: "pt_inv fs ow F D (\<lambda>_. 0) s" and D: "to \<in> D" "from' \<in> D" "to \<noteq> from'" and la: "la < USERTOP"
    and pr: "present (pte s from' la)" "\<not> present (pte s to la)" and room: "2 \<le> card F"
  shows "\<exists>s' F'. copy_entry pm sm s to la (table s (from', PDX la), PTX la) = Ret (s', 0) \<and>
     F' \<subseteq> F \<and> card F \<le> card F' + 2 \<and> pt_inv fs ow F' D (\<lambda>_. 0) s' \<and> rest_same s s' \<and>
     (\<forall>d' \<in> D. \<forall>la' < USERTOP. \<not> (d' = to \<and> PPN la' = PPN la) \<longrightarrow> pte s' d' la' = pte s d' la') \<and>
     (\<exists>np. np \<notin> mapped s D \<and> np < 2 ^ 20 \<and> pte s' to la = page2pa np OR PTE_P OR (pte s from' la AND PTE_USER) \<and>
        frames s' np = frames s (ppn (pte s from' la))) \<and>
     (\<forall>p \<in> mapped s D. frames s' p = frames s p) \<and> mapped s D \<subseteq> mapped s' D"
proof -
  note I = pt_invD [OF inv]
  have fin: "finite F" "F \<noteq> {}" using free_finite [OF I(1)] room by auto
  let ?e = "pte s from' la" and ?t = "table s (from', PDX la)" and ?q = "ppn (pte s from' la)"
  note E = slots_pte [OF D(2) la pr(1)]
  have q: "?q < unat (npage s)" "?q \<notin> F" "?q \<notin> D" "?q \<notin> tables s D" using E(4) I(10,11) by auto
  have t: "?t \<in> tables s D" using E(1) D la by (simp add: tables_def tabs_la)
  from get_pte_create [OF inv D(1) la, of sm] fin obtain s1 T where g: "get_pte pm sm s to la True = Ret (s1, Some (table s1 (to, PDX la), PTX la))"
    "T \<subseteq> F" "card T \<le> 1" "pt_inv fs ow (F - T) D (\<lambda>_. 0) s1" "present (frames s1 to (PDX la))" "rest_same s s1"
    "\<forall>d' \<in> D. \<forall>la' < USERTOP. pte s1 d' la' = pte s d' la'" "mapped s1 D = mapped s D" "\<forall>f. f \<notin> insert to T \<longrightarrow> frames s1 f = frames s f"
    "tables s1 D = tables s D \<union> T" by blast
  have finT: "finite T" using finite_subset [OF g(2) fin(1)] .
  have F1: "card (F - T) + card T = card F" using card_Diff_subset [OF finT g(2)] card_mono [OF fin(1) g(2)] by simp
  then have "card (F - T) \<noteq> 0" using g(3) room by linarith
  then have "F - T \<noteq> {}" by (metis card.empty)
  from alloc_page_inv [OF g(4) this, of sm] obtain m np where a: "alloc_page pm sm s1 = Ret (s1\<lparr>pmm := m\<rparr>, Some np)" "np \<in> F - T"
    "pt_inv fs ow (F - T - {np}) D (\<lambda>_. 0) (s1\<lparr>pmm := m\<rparr>)" "ow m np 1" by blast
  note I1 = pt_invD [OF g(4)]
  have np1: "npage s1 = npage s" using rest_sameD(1) [OF g(6)] .
  have np: "np \<notin> D" "np \<notin> tables s1 D" "np < unat (npage s)" "np \<notin> mapped s D" "np < 2 ^ 20" using a(2) I1(6,9,11) I(2,3) g(8) by auto
  let ?s2 = "s1\<lparr>pmm := m\<rparr>" and ?g = "(frames s1)(np := frames s1 ?q)"
  let ?s3 = "s1\<lparr>pmm := m, frames := ?g\<rparr>"
  have fr2: "frames ?s2 = frames s1" by simp
  note f2 = frames_inv [OF fr2]
  have gs: "?g f = frames ?s2 f" if "f \<in> D \<union> tables ?s2 D" for f using that np unfolding f2 by auto
  note P3 = pt_inv_frames [where g = ?g, OF a(3) gs, unfolded f2]
  have e1: "frames s1 ?t (PTX la) = ?e" using g(9) t I(9) D(1) g(2) E(3) by (metis IntI UnI1 UnI2 empty_iff insertE subsetD)
  have kva: "page2kva ?s2 ?q = Ret ?q" "page2kva ?s2 np = Ret np" "pte2page s1 ?e = Ret ?q"
    using q(1) np pr(1) I(3) np1 by (simp_all add: page2kva_def KADDR_def PPN_page2pa word_le_nat_alt unat_of_nat pte2page_def pa2page_def ppn_def)
  have pr3: "present (frames ?s3 to (PDX la))" using g(5) np(1) D(1) by auto
  have h: "np \<notin> F - T - {np}" "np < unat (npage ?s3)" "np \<notin> tables ?s3 D" "ow (pmm ?s3) np 1" using np np1 P3(2) a(4) by simp_all
  from page_insert_ok [OF P3(1) D(1) la disjI2 [OF pr3] h(2,1) np(1) h(3,4) PPN_user, of sm ?e] pr3 obtain s' T' R where i: "page_insert pm sm ?s3 to np la (?e AND PTE_USER) = Ret (s', 0)" "pt_inv fs ow (F - T - {np} - T' \<union> R) D (\<lambda>_. 0) s'"
    "rest_same ?s3 s'" "R = mapped ?s3 D - mapped s' D" "tables s' D = tables ?s3 D \<union> T'" "T' = {}"
    "\<forall>d' \<in> D. \<forall>la' < USERTOP. pte s' d' la' = (if d' = to \<and> PPN la' = PPN la then page2pa np OR PTE_P OR (?e AND PTE_USER) else pte ?s3 d' la')"
    "\<forall>f. f \<notin> D \<union> tables s' D \<longrightarrow> frames s' f = frames ?s3 f"
    by blast
  have pte3: "pte ?s3 d' la' = pte s d' la'" if "d' \<in> D" "la' < USERTOP" for d' la' using P3(4) that g(7) by simp
  have "mapped ?s3 D \<subseteq> mapped s' D" by (rule insert_keeps [OF i(7)]) (use pte3 D la pr in simp)
  then have R: "R = {}" and mp: "mapped s D \<subseteq> mapped s' D" using i(4) P3(3) g(8) by auto
  have ts': "tables s' D = tables s D \<union> T" using i(5,6) P3(2) g(10) by simp
  have frm: "frames s' p = frames s p" if "p \<in> mapped s D" for p
  proof -
    have "p \<notin> D \<union> tables s' D" "p \<notin> insert to T" "p \<noteq> np" using that I(11) g(2) D(1) np(4) unfolding ts' by auto
    then show ?thesis using i(8) g(9) by simp
  qed
  have "frames s' np = frames s ?q"
  proof -
    have "?q \<notin> insert to T" using q g(2) D(1) by auto
    moreover have "np \<notin> D \<union> tables s' D" using np(1,2) g(10) unfolding ts' by simp
    ultimately show ?thesis using i(8) g(9) by simp
  qed
  moreover have "card F \<le> card (F - T - {np}) + 2" using F1 g(3) a(2) fin(1) by (simp add: card_Diff_singleton)
  moreover have "rest_same s s'" using rest_same_trans [OF rest_same_trans [OF g(6)] i(3)] by (simp add: rest_same_def)
  moreover have "copy_entry pm sm s to la (?t, PTX la) = Ret (s', 0)"
    using g(1) a(1) e1 kva i(1) by (simp add: copy_entry_def Let_def)
  ultimately show ?thesis using i(2,6,7) R np(4,5) pte3 D la frm mp
    by (intro exI [of _ s'] exI [of _ "F - T - {np}"]) auto
qed

end

lemma copied_page:
  assumes "\<forall>d' \<in> D. \<forall>la' < USERTOP. \<not> (d' = to \<and> PPN la' = PPN a) \<longrightarrow> pte s' d' la' = pte s d' la'"
    "np \<notin> mapped s D" "np < 2 ^ 20" "pte s' to a = page2pa np OR PTE_P OR (pte s from' a AND PTE_USER)"
    "frames s' np = frames s (ppn (pte s from' a))" "\<forall>p \<in> mapped s D. frames s' p = frames s p" "mapped s D \<subseteq> mapped s' D"
    and pr: "present (pte s from' a)" and a: "a mod PGSIZE = 0" "unat (a + PGSIZE) = unat a + 4096"
  shows "copied s D to from' a (a + PGSIZE) s'"
proof -
  have pg: "PPN la = PPN a \<longleftrightarrow> a \<le> la \<and> la < a + PGSIZE" for la
    using page_range_iff [of a la] a by (simp add: page_aligned word_le_nat_alt word_less_nat_alt)
  have same: "pte t d la = pte t d a" if "a \<le> la" "la < a + PGSIZE" for t d la using pg that by (intro pte_same_page) simp
  show ?thesis unfolding copied_def
  proof (intro conjI ballI allI impI)
    fix d' la assume "d' \<in> D" "la < USERTOP" "\<not> (d' = to \<and> a \<le> la \<and> la < a + PGSIZE \<and> present (pte s from' la))"
    moreover from this pr same [of la] have "\<not> (d' = to \<and> PPN la = PPN a)" unfolding pg by auto
    ultimately show "pte s' d' la = pte s d' la" using assms(1) by blast
  next
    fix la assume "la < USERTOP" "a \<le> la \<and> la < a + PGSIZE \<and> present (pte s from' la)"
    then have "pte s from' la = pte s from' a" "pte s' to la = pte s' to a" using same by auto
    then show "\<exists>np. np \<notin> mapped s D \<and> np < 2 ^ 20 \<and> pte s' to la = page2pa np OR PTE_P OR (pte s from' la AND PTE_USER) \<and>
        frames s' np = frames s (ppn (pte s from' la))" using assms(2-5) by auto
  qed (use assms(6,7) in auto)
qed

lemma copied_frame:
  assumes "copied s D to from' a b s1" "to \<in> D" "b \<le> c" "\<forall>la < USERTOP. a \<le> la \<and> la < c \<longrightarrow> \<not> present (pte s to la)" "a \<le> b"
  shows "\<forall>la < USERTOP. b \<le> la \<and> la < c \<longrightarrow> \<not> present (pte s1 to la)"
proof (intro allI impI)
  fix la assume la: "la < USERTOP" "b \<le> la \<and> la < c"
  then have "pte s1 to la = pte s to la" using assms(1,2) unfolding copied_def by (metis leD)
  then show "\<not> present (pte s1 to la)" using assms(4,5) la by auto
qed

context frame_allocator
begin

lemma copy_loop_ok:
  assumes "pt_inv fs ow F D (\<lambda>_. 0) s" "to \<in> D" "from' \<in> D" "to \<noteq> from'" "start < end'" "end' \<le> USERTOP" "start mod PGSIZE = 0" "end' mod PGSIZE = 0"
    "\<forall>la < USERTOP. start \<le> la \<and> la < end' \<longrightarrow> \<not> present (pte s to la)" "unat end' - unat start \<le> card F * 2048"
  shows "\<exists>s' F'. copy_loop pm sm s to from' start end' = Some (Ret (s', 0)) \<and> F' \<subseteq> F \<and> pt_inv fs ow F' D (\<lambda>_. 0) s' \<and>
     rest_same s s' \<and> copied s D to from' start end' s'"
  using assms
proof (induction "unat end' - unat start" arbitrary: s F start rule: less_induct)
  case less
  note inv = less.prems(1) and D = less.prems(2-4) and al = less.prems(7,8)
  have la: "start < USERTOP" using less.prems(5,6) by simp
  show ?case
  proof (cases "present (frames s from' (PDX start))")
    case False
    let ?n = "ROUNDDOWN (start + PTSIZE) PTSIZE"
    note N = next_table [OF la]
    have skip: "\<not> present (pte s from' la')" if "start \<le> la'" "la' < ?n" for la'
      using skip_table [OF la, of la'] that False by (simp add: word_le_nat_alt word_less_nat_alt pte_def)
    have st: "copy_loop pm sm s to from' start end' = (if ?n < end' then copy_loop pm sm s to from' ?n end' else Some (Ret (s, 0)))"
      using get_pte_absent [OF False] N(2) by (subst copy_loop.simps) (simp add: Let_def)
    show ?thesis
    proof (cases "?n < end'")
      case True
      have "unat end' - unat ?n < unat end' - unat start" using True N(4) by (simp add: word_less_nat_alt)
      moreover have "\<forall>la < USERTOP. ?n \<le> la \<and> la < end' \<longrightarrow> \<not> present (pte s to la)" using less.prems(9) N(4) by (meson order_less_imp_le order_trans)
      moreover have "unat end' - unat ?n \<le> card F * 2048" using less.prems(10) N(4) by (simp add: word_less_nat_alt)
      ultimately obtain s' F' where s': "copy_loop pm sm s to from' ?n end' = Some (Ret (s', 0))" "F' \<subseteq> F" "pt_inv fs ow F' D (\<lambda>_. 0) s'"
        "rest_same s s'" "copied s D to from' ?n end' s'" using less.hyps [OF _ inv D True less.prems(6) N(3) al(2)] by blast
      have "copied s D to from' start end' s'"
        by (rule copied_trans [OF copied_refl [OF skip] s'(5) _ _ D]) (use N(4) True in auto)
      then show ?thesis using s' st True by (intro exI [of _ s'] exI [of _ F']) simp
    next
      case end_: False
      have "copied s D to from' start end' s" by (rule copied_refl [OF skip]) (use end_ in auto)
      then show ?thesis using inv st end_ by (intro exI [of _ s] exI [of _ F]) simp
    qed
  next
    case True
    note N = next_page [OF less.prems(5,6) al]
    let ?n = "start + PGSIZE" and ?tj = "(table s (from', PDX start), PTX start)"
    have cF: "2 \<le> card F" using less.prems(10) N(2) by linarith
    obtain s1 F1 where u: "(if frames s (fst ?tj) (snd ?tj) AND PTE_P \<noteq> 0 then copy_entry pm sm s to start ?tj else Ret (s, 0)) = Ret (s1, 0)"
      "F1 \<subseteq> F" "card F \<le> card F1 + 2" "pt_inv fs ow F1 D (\<lambda>_. 0) s1" "rest_same s s1" "copied s D to from' start ?n s1"
    proof (cases "present (pte s from' start)")
      case pr: True
      have "\<not> present (pte s to start)" using less.prems(5,9) la by simp
      from copy_entry_ok [OF inv D la pr this cF, of sm] obtain s1 F1 np where c: "copy_entry pm sm s to start ?tj = Ret (s1, 0)"
        "F1 \<subseteq> F" "card F \<le> card F1 + 2" "pt_inv fs ow F1 D (\<lambda>_. 0) s1" "rest_same s s1"
        "\<forall>d' \<in> D. \<forall>la' < USERTOP. \<not> (d' = to \<and> PPN la' = PPN start) \<longrightarrow> pte s1 d' la' = pte s d' la'"
        "np \<notin> mapped s D" "np < 2 ^ 20" "pte s1 to start = page2pa np OR PTE_P OR (pte s from' start AND PTE_USER)"
        "frames s1 np = frames s (ppn (pte s from' start))" "\<forall>p \<in> mapped s D. frames s1 p = frames s p" "mapped s D \<subseteq> mapped s1 D" by blast
      from copied_page [OF c(6-12) pr al(1) N(1)] c(1-5) pr True that show ?thesis by (simp add: pte_def)
    next
      case pr: False
      have "copied s D to from' start ?n s"
      proof (rule copied_refl)
        fix la assume "start \<le> la" "la < ?n"
        then have "PPN la = PPN start" using page_range_iff [of start la] al(1) N(1) by (simp add: page_aligned word_le_nat_alt word_less_nat_alt)
        then show "\<not> present (pte s from' la)" using pr pte_same_page [of la start s from'] by simp
      qed
      then show ?thesis using inv pr True by (intro that [of s F]) (simp_all add: pte_def)
    qed
    have st: "copy_loop pm sm s to from' start end' = (if ?n < end' then copy_loop pm sm s1 to from' ?n end' else Some (Ret (s1, 0)))"
      using get_pte_present [OF inv D(2) la True] u(1) N(3) by (subst copy_loop.simps) (simp add: Let_def)
    show ?thesis
    proof (cases "?n < end'")
      case True
      have le: "start \<le> ?n" "?n \<le> end'" using N(1,2) by (simp_all add: word_le_nat_alt)
      have "unat end' - unat ?n < unat end' - unat start" using N(1,2) by simp
      moreover have "\<forall>la < USERTOP. ?n \<le> la \<and> la < end' \<longrightarrow> \<not> present (pte s1 to la)"
        by (rule copied_frame [OF u(6) D(1) le(2) less.prems(9) le(1)])
      moreover have "unat end' - unat ?n \<le> card F1 * 2048" using less.prems(10) N(1) u(3) by linarith
      ultimately obtain s' F' where s': "copy_loop pm sm s1 to from' ?n end' = Some (Ret (s', 0))" "F' \<subseteq> F1" "pt_inv fs ow F' D (\<lambda>_. 0) s'"
        "rest_same s1 s'" "copied s1 D to from' ?n end' s'" using less.hyps [OF _ u(4) D True less.prems(6) N(4) al(2)] by blast
      have "copied s D to from' start end' s'" by (rule copied_trans [OF u(6) s'(5) le D])
      then show ?thesis using s' u(2) st True rest_same_trans [OF u(5) s'(4)] by (intro exI [of _ s'] exI [of _ F']) auto
    next
      case False
      then have "unat end' = unat ?n" using N(1,2) by (simp add: word_less_nat_alt)
      then have "end' = ?n" by (simp add: word_unat_eq_iff)
      then show ?thesis using u st False by (intro exI [of _ s1] exI [of _ F1]) simp
    qed
  qed
qed

end

end
