(* ===== verification/AddressSpace.thy ===== *)
theory AddressSpace
  imports PageTables
begin

text \<open>
  Address spaces: tearing one down (\<open>exit_mmap\<close> of \<^verbatim>\<open>kern/mm/vmm.c\<close>), and the properties of the
  page-table and swap code for the default page manager and the FIFO swap manager.
\<close>

subsection \<open>Walking the areas\<close>

fun fold_out :: "('s \<Rightarrow> 'x \<Rightarrow> 's outcome) \<Rightarrow> 's \<Rightarrow> 'x list \<Rightarrow> 's outcome" where
  "fold_out f s [] = Ret s"
| "fold_out f s (x # xs) = bind_outcome (f s x) (\<lambda>s1. fold_out f s1 xs)"

lemma each_vma_from:
  assumes keep: "\<And>s x s'. P s \<Longrightarrow> x \<in> X \<Longrightarrow> f s x = Ret s' \<Longrightarrow> P s' \<and> vm s' = vm s"
    and "P s" "vmas (vm s) ` set vs \<subseteq> X" "dlist (vma_links (vm s)) (VHead m) (map VLink (us @ vs))"
  shows "each_vma f s (last (VHead m # map VLink us)) = Some (fold_out f s (map (vmas (vm s)) vs))"
  using assms(2-)
proof (induction vs arbitrary: us s)
  case Nil
  then have "list_next (vma_links (vm s)) (last (VHead m # map VLink us)) = VHead m"
    using dlist_around(1) [of "vma_links (vm s)" "VHead m" "map VLink us" "[]"] by (simp add: list_next_def)
  then show ?case by (subst each_vma.simps) simp
next
  case (Cons v vs)
  have nx: "list_next (vma_links (vm s)) (last (VHead m # map VLink us)) = VLink v"
    using dlist_around(1) [of "vma_links (vm s)" "VHead m" "map VLink us" "map VLink (v # vs)"] Cons.prems
    by (simp add: list_next_def)
  show ?case
  proof (cases "f s (vmas (vm s) v)")
    case Panic
    then show ?thesis using nx by (subst each_vma.simps) simp
  next
    case (Ret s1)
    have "P s1 \<and> vm s1 = vm s" by (rule keep [OF Cons.prems(1) _ Ret]) (use Cons.prems(2) in auto)
    then have "each_vma f s1 (VLink v) = Some (fold_out f s1 (map (vmas (vm s)) vs))"
      using Cons.IH [of s1 "us @ [v]"] Cons.prems by simp
    then show ?thesis using nx Ret by (subst each_vma.simps) simp
  qed
qed

lemma each_vma_fold:
  assumes "\<And>s x s'. P s \<Longrightarrow> x \<in> X \<Longrightarrow> f s x = Ret s' \<Longrightarrow> P s' \<and> vm s' = vm s"
    "P s" "vmas (vm s) ` set vs \<subseteq> X" "mm_vmas (vm s) m vs"
  shows "each_vma f s (VHead m) = Some (fold_out f s (map (vmas (vm s)) vs))"
proof -
  have "dlist (vma_links (vm s)) (VHead m) (map VLink ([] @ vs))" using mm_vmasD(1) [OF assms(4)] by simp
  from each_vma_from [where P = P and X = X and f = f, OF assms(1) assms(2,3) this] show ?thesis by simp
qed

subsection \<open>Unmapping all areas, then dropping their page tables\<close>

definition user_area :: "vma_struct \<Rightarrow> bool" where
  "user_area x \<longleftrightarrow> USER_ACCESS (vm_start x) (vm_end x) \<and> vm_start x mod PGSIZE = 0 \<and> vm_end x mod PGSIZE = 0"

lemma user_areaD:
  assumes "user_area x"
  shows "vm_start x < vm_end x" "vm_end x \<le> USERTOP" "vm_start x mod PGSIZE = 0" "vm_end x mod PGSIZE = 0" "USER_ACCESS (vm_start x) (vm_end x)"
  using assms by (auto simp: user_area_def USER_ACCESS_def)

text \<open>Every user entry of \<open>d\<close> inside the areas is cleared, all others stay.\<close>

definition cleared :: "mem_state \<Rightarrow> nat set \<Rightarrow> nat \<Rightarrow> vma_struct list \<Rightarrow> mem_state \<Rightarrow> bool" where
  "cleared s D d xs s' \<longleftrightarrow> (\<forall>d' \<in> D. \<forall>la < USERTOP. pte s' d' la =
     (if d' = d \<and> (\<exists>x \<in> set xs. in_vma x la) \<and> present (pte s d la) then 0 else pte s d' la))"

context frame_allocator
begin

lemma unmap_range_ok:
  assumes "pt_inv fs ow F D (\<lambda>_. 0) s" "d \<in> D" "user_area x"
  shows "\<exists>s' R. unmap_range pm sm s d (vm_start x) (vm_end x) = Ret s' \<and> pt_inv fs ow (F \<union> R) D (\<lambda>_. 0) s' \<and>
     R = mapped s D - mapped s' D \<and> mapped s' D \<subseteq> mapped s D \<and> rest_same s s' \<and> same_tables s D s' \<and> (tlb_ok s d \<longrightarrow> tlb_ok s' d) \<and>
     unmapped_between s D d (vm_start x) (vm_end x) s'"
proof -
  note U = user_areaD [OF assms(3)]
  have eq: "unmap_range pm sm s d (vm_start x) (vm_end x) = Ret s'" if "unmap_loop pm sm s d (vm_start x) (vm_end x) = Some (Ret s')" for s'
    using that U(3-5) by (simp add: unmap_range_def)
  from unmap_loop_ok [OF assms(1,2) U(1-4), of sm] eq show ?thesis by blast
qed

lemma unmap_areas_ok:
  assumes "pt_inv fs ow F D (\<lambda>_. 0) s" "d \<in> D" "\<forall>x \<in> set xs. user_area x"
  shows "\<exists>s' R. fold_out (\<lambda>s x. unmap_range pm sm s d (vm_start x) (vm_end x)) s xs = Ret s' \<and> pt_inv fs ow (F \<union> R) D (\<lambda>_. 0) s' \<and>
     R = mapped s D - mapped s' D \<and> mapped s' D \<subseteq> mapped s D \<and> rest_same s s' \<and> same_tables s D s' \<and> cleared s D d xs s'"
  using assms
proof (induction xs arbitrary: s F)
  case Nil
  then show ?case by (intro exI [of _ s] exI [of _ "{}"]) (simp add: same_tables_def cleared_def)
next
  case (Cons x xs)
  from unmap_range_ok [OF Cons.prems(1,2), of x sm] Cons.prems(3) obtain s1 R1 where u:
    "unmap_range pm sm s d (vm_start x) (vm_end x) = Ret s1" "pt_inv fs ow (F \<union> R1) D (\<lambda>_. 0) s1"
    "R1 = mapped s D - mapped s1 D" "mapped s1 D \<subseteq> mapped s D" "rest_same s s1" "same_tables s D s1" "unmapped_between s D d (vm_start x) (vm_end x) s1" by auto
  from Cons.IH [OF u(2) Cons.prems(2)] Cons.prems(3) obtain s' R where s':
    "fold_out (\<lambda>s x. unmap_range pm sm s d (vm_start x) (vm_end x)) s1 xs = Ret s'" "pt_inv fs ow (F \<union> R1 \<union> R) D (\<lambda>_. 0) s'"
    "R = mapped s1 D - mapped s' D" "mapped s' D \<subseteq> mapped s1 D" "rest_same s1 s'" "same_tables s1 D s'" "cleared s1 D d xs s'" by auto
  have "cleared s D d (x # xs) s'"
    unfolding cleared_def
  proof (intro ballI allI impI)
    fix d' la assume d': "d' \<in> D" "la < USERTOP"
    have 1: "pte s1 d'' la = (if d'' = d \<and> in_vma x la \<and> present (pte s d la) then 0 else pte s d'' la)" if "d'' \<in> D" for d''
      using u(7) that d'(2) by (simp add: unmapped_between_def in_vma_def)
    have 2: "pte s' d' la = (if d' = d \<and> (\<exists>x \<in> set xs. in_vma x la) \<and> present (pte s1 d la) then 0 else pte s1 d' la)"
      using s'(7) d' unfolding cleared_def by blast
    show "pte s' d' la = (if d' = d \<and> (\<exists>x \<in> set (x # xs). in_vma x la) \<and> present (pte s d la) then 0 else pte s d' la)"
      unfolding 2 1 [OF d'(1)] 1 [OF Cons.prems(2)] by auto
  qed
  moreover have "R1 \<union> R = mapped s D - mapped s' D" using u(3,4) s'(3,4) by blast
  ultimately show ?case using u s' rest_same_trans [OF u(5) s'(5)] same_tables_trans [OF u(6) s'(6)]
    by (intro exI [of _ s'] exI [of _ "R1 \<union> R"]) (auto simp: Un_assoc)
qed

end

text \<open>The directory entries under an area.\<close>

definition area_dirs :: "nat \<Rightarrow> vma_struct \<Rightarrow> (nat \<times> nat) set" where
  "area_dirs d x = {(d, PDX la) | la. in_vma x la}"

lemma area_dirs_range:
  assumes "user_area x"
  defines "a \<equiv> ROUNDDOWN (vm_start x) PTSIZE"
  shows "area_dirs d x = {(d, i) | i. unat a \<le> i * 2 ^ 22 \<and> i * 2 ^ 22 < unat (vm_end x)}" "a < vm_end x" "2 ^ 22 dvd unat a"
proof -
  let ?s = "unat (vm_start x)" and ?e = "unat (vm_end x)"
  have se: "?s < ?e" "?e \<le> 2952790016" using user_areaD(1,2) [OF assms(1)] unat_PGSIZE(3) by (simp_all add: word_less_nat_alt word_le_nat_alt)
  have ua: "unat a = ?s div 2 ^ 22 * 2 ^ 22" by (simp add: a_def unat_ROUNDDOWN unat_PGSIZE minus_mod_eq_div_mult)
  then show "2 ^ 22 dvd unat a" by simp
  have "unat a \<le> ?s" unfolding ua by (rule div_times_less_eq_dividend)
  then show "a < vm_end x" using se(1) by (simp add: word_less_nat_alt)
  have "(\<exists>la. in_vma x la \<and> i = PDX la) \<longleftrightarrow> unat a \<le> i * 2 ^ 22 \<and> i * 2 ^ 22 < ?e" for i
  proof
    assume "\<exists>la. in_vma x la \<and> i = PDX la"
    then obtain la :: u32 where la: "?s \<le> unat la" "unat la < ?e" "i = unat la div 2 ^ 22"
      unfolding in_vma_def word_le_nat_alt word_less_nat_alt PDX_nat by blast
    have "i * 2 ^ 22 \<le> unat la" unfolding la(3) by (rule div_times_less_eq_dividend)
    moreover have "?s div 2 ^ 22 \<le> i" unfolding la(3) using la(1) by (rule div_le_mono)
    ultimately show "unat a \<le> i * 2 ^ 22 \<and> i * 2 ^ 22 < ?e" using la(2) unfolding ua by simp
  next
    assume i: "unat a \<le> i * 2 ^ 22 \<and> i * 2 ^ 22 < ?e"
    show "\<exists>la. in_vma x la \<and> i = PDX la"
    proof (cases "?s \<le> i * 2 ^ 22")
      case True
      have u: "unat (of_nat (i * 2 ^ 22) :: u32) = i * 2 ^ 22" using i se(2) by (intro unat_of_nat_u32) simp
      then show ?thesis using True i unfolding in_vma_def word_le_nat_alt word_less_nat_alt PDX_nat
        by (intro exI [of _ "of_nat (i * 2 ^ 22)"]) simp
    next
      case False
      have "?s div 2 ^ 22 < i + 1" using i unfolding ua by simp
      then have "?s < (i + 1) * 2 ^ 22" by (subst div_less_iff_less_mult [symmetric]) simp_all
      then have "?s div 2 ^ 22 = i" using False by (intro div_nat_eqI) simp_all
      then show ?thesis using se(1) by (intro exI [of _ "vm_start x"]) (simp add: in_vma_def PDX_nat word_less_nat_alt)
    qed
  qed
  then show "area_dirs d x = {(d, i) | i. unat a \<le> i * 2 ^ 22 \<and> i * 2 ^ 22 < ?e}" by (auto simp: area_dirs_def)
qed

context frame_allocator
begin

lemma exit_range_ok:
  assumes "pt_inv fs ow F D (\<lambda>_. 0) s" "d \<in> D" "user_area x" "\<And>i j p. ((d, i), j) \<notin> slots s D p"
  shows "\<exists>s'. exit_range pm s d (vm_start x) (vm_end x) = Ret s' \<and>
     pt_inv fs ow (F \<union> table s ` (tabs s D \<inter> area_dirs d x)) D (\<lambda>_. 0) s' \<and> tabs s' D = tabs s D - area_dirs d x \<and>
     (\<forall>b \<in> tabs s' D. table s' b = table s b) \<and> slots s' D = slots s D \<and> rest_same s s' \<and> tlb s' = tlb s \<and>
     (\<forall>f. f \<noteq> d \<longrightarrow> frames s' f = frames s f)"
proof -
  note U = user_areaD [OF assms(3)] and R = area_dirs_range [OF assms(3)]
  have eq: "exit_range pm s d (vm_start x) (vm_end x) = Ret s'"
    if "exit_loop pm s d (ROUNDDOWN (vm_start x) PTSIZE) (vm_end x) = Some (Ret s')" for s'
    using that U(3-5) by (simp add: exit_range_def)
  from exit_loop_ok [OF assms(1,2) R(2) U(2) R(3) assms(4)] eq show ?thesis unfolding R(1) by blast
qed

lemma exit_areas_ok:
  assumes "pt_inv fs ow F D (\<lambda>_. 0) s" "d \<in> D" "\<forall>x \<in> set xs. user_area x" "\<And>i j p. ((d, i), j) \<notin> slots s D p"
  shows "\<exists>s'. fold_out (\<lambda>s x. exit_range pm s d (vm_start x) (vm_end x)) s xs = Ret s' \<and>
     pt_inv fs ow (F \<union> table s ` (tabs s D \<inter> (\<Union>x \<in> set xs. area_dirs d x))) D (\<lambda>_. 0) s' \<and>
     tabs s' D = tabs s D - (\<Union>x \<in> set xs. area_dirs d x) \<and> (\<forall>b \<in> tabs s' D. table s' b = table s b) \<and> slots s' D = slots s D \<and>
     rest_same s s' \<and> tlb s' = tlb s \<and> (\<forall>f. f \<noteq> d \<longrightarrow> frames s' f = frames s f)"
  using assms
proof (induction xs arbitrary: s F)
  case Nil
  then show ?case by (intro exI [of _ s]) simp
next
  case (Cons x xs)
  from exit_range_ok [OF Cons.prems(1,2) _ Cons.prems(4), of x] Cons.prems(3) obtain s1 where u:
    "exit_range pm s d (vm_start x) (vm_end x) = Ret s1"
    "pt_inv fs ow (F \<union> table s ` (tabs s D \<inter> area_dirs d x)) D (\<lambda>_. 0) s1" "tabs s1 D = tabs s D - area_dirs d x"
    "\<forall>b \<in> tabs s1 D. table s1 b = table s b" "slots s1 D = slots s D" "rest_same s s1" "tlb s1 = tlb s" "\<forall>f. f \<noteq> d \<longrightarrow> frames s1 f = frames s f" by auto
  let ?U = "\<Union>x \<in> set xs. area_dirs d x"
  have "((d, i), j) \<notin> slots s1 D p" for i j p using Cons.prems(4) u(5) by simp
  from Cons.IH [OF u(2) Cons.prems(2) _ this] Cons.prems(3) obtain s' where s':
    "fold_out (\<lambda>s x. exit_range pm s d (vm_start x) (vm_end x)) s1 xs = Ret s'"
    "pt_inv fs ow (F \<union> table s ` (tabs s D \<inter> area_dirs d x) \<union> table s1 ` (tabs s1 D \<inter> ?U)) D (\<lambda>_. 0) s'"
    "tabs s' D = tabs s1 D - ?U" "\<forall>b \<in> tabs s' D. table s' b = table s1 b" "slots s' D = slots s1 D" "rest_same s1 s'" "tlb s' = tlb s1"
    "\<forall>f. f \<noteq> d \<longrightarrow> frames s' f = frames s1 f" by auto
  have im: "table s1 ` (tabs s1 D \<inter> ?U) = table s ` ((tabs s D - area_dirs d x) \<inter> ?U)" using u(3,4) by (intro image_cong) auto
  have "F \<union> table s ` (tabs s D \<inter> area_dirs d x) \<union> table s1 ` (tabs s1 D \<inter> ?U) = F \<union> table s ` (tabs s D \<inter> (\<Union>x \<in> set (x # xs). area_dirs d x))"
    unfolding im by auto
  then show ?case using u(1,3-8) s' rest_same_trans [OF u(6) s'(6)] by (intro exI [of _ s']) auto
qed

lemma exit_mmap_ok:
  assumes inv: "pt_inv fs ow F D (\<lambda>_. 0) s" and m: "mm_vmas (vm s) m vs" "pgdir (mms (vm s) m) = Some d" "mm_count (mms (vm s) m) = 0"
    and d: "d \<in> D" and areas: "\<forall>v \<in> set vs. user_area (vmas (vm s) v)"
    and cover: "\<forall>la < USERTOP. present (pte s d la) \<longrightarrow> (\<exists>v \<in> set vs. in_vma (vmas (vm s) v) la)"
  defines "U \<equiv> \<Union>v \<in> set vs. area_dirs d (vmas (vm s) v)"
  shows "\<exists>s'. exit_mmap pm sm s m = Ret s' \<and>
     pt_inv fs ow (F \<union> (mapped s D - mapped s' D) \<union> table s ` (tabs s D \<inter> U)) D (\<lambda>_. 0) s' \<and> tabs s' D = tabs s D - U \<and>
     (\<forall>la < USERTOP. \<not> present (pte s' d la)) \<and> (\<forall>d' \<in> D - {d}. \<forall>la < USERTOP. pte s' d' la = pte s d' la) \<and> rest_same s s'"
proof -
  let ?xs = "map (vmas (vm s)) vs" and ?f = "\<lambda>s x. unmap_range pm sm s d (vm_start x) (vm_end x)" and ?g = "\<lambda>s x. exit_range pm s d (vm_start x) (vm_end x)"
  have xs: "\<forall>x \<in> set ?xs. user_area x" "vmas (vm s) ` set vs \<subseteq> Collect user_area" using areas by auto
  let ?P = "\<lambda>s. \<exists>F. pt_inv fs ow F D (\<lambda>_. 0) s"
  have keep1: "?P s' \<and> vm s' = vm s" if "?P s" "x \<in> Collect user_area" "?f s x = Ret s'" for s x s'
  proof -
    from that(1) obtain F where "pt_inv fs ow F D (\<lambda>_. 0) s" by blast
    from unmap_range_ok [OF this d, of x sm] that show ?thesis by (auto dest: rest_sameD(3))
  qed
  from unmap_areas_ok [OF inv d xs(1), of sm] obtain s1 R where u: "fold_out ?f s ?xs = Ret s1" "pt_inv fs ow (F \<union> R) D (\<lambda>_. 0) s1"
    "R = mapped s D - mapped s1 D" "rest_same s s1" "same_tables s D s1" "cleared s D d ?xs s1" by blast
  have P: "?P s" using inv by blast
  have "each_vma ?f s (VHead m) = Some (fold_out ?f s ?xs)"
    by (rule each_vma_fold [where P = ?P and X = "Collect user_area"], erule (2) keep1) (fact P xs(2) m(1))+
  note run1 = this [unfolded u(1)]
  have vm1: "vm s1 = vm s" using rest_sameD(3) [OF u(4)] .
  have gone: "\<not> present (pte s1 d la)" if "la < USERTOP" for la
  proof -
    have "pte s1 d la = (if (\<exists>x \<in> set ?xs. in_vma x la) \<and> present (pte s d la) then 0 else pte s d la)"
      using u(6) d that unfolding cleared_def by simp
    then show ?thesis using cover that by (cases "present (pte s d la)") auto
  qed
  have ns: "((d, i), j) \<notin> slots s1 D p" for i j p using slot_la gone by blast
  let ?Q = "\<lambda>s. \<exists>F. pt_inv fs ow F D (\<lambda>_. 0) s \<and> (\<forall>i j p. ((d, i), j) \<notin> slots s D p)"
  have keep2: "?Q s' \<and> vm s' = vm s" if "?Q s" "x \<in> Collect user_area" "?g s x = Ret s'" for s x s'
  proof -
    from that(1) obtain F where "pt_inv fs ow F D (\<lambda>_. 0) s" "\<forall>i j p. ((d, i), j) \<notin> slots s D p" by blast
    from exit_range_ok [OF this(1) d, of x] this(2) that show ?thesis by (auto dest: rest_sameD(3))
  qed
  from exit_areas_ok [OF u(2) d xs(1) ns] obtain s' where e: "fold_out ?g s1 ?xs = Ret s'"
    "pt_inv fs ow (F \<union> R \<union> table s1 ` (tabs s1 D \<inter> (\<Union>x \<in> set ?xs. area_dirs d x))) D (\<lambda>_. 0) s'"
    "tabs s' D = tabs s1 D - (\<Union>x \<in> set ?xs. area_dirs d x)" "\<forall>b \<in> tabs s' D. table s' b = table s1 b" "slots s' D = slots s1 D" "rest_same s1 s'"
    "\<forall>f. f \<noteq> d \<longrightarrow> frames s' f = frames s1 f" by blast
  have Q: "?Q s1" using u(2) ns by blast
  have "each_vma ?g s1 (VHead m) = Some (fold_out ?g s1 (map (vmas (vm s1)) vs))"
    by (rule each_vma_fold [where P = ?Q and X = "Collect user_area"], erule (2) keep2) (use Q xs(2) m(1) vm1 in simp_all)
  note run2 = this [unfolded vm1 e(1)]
  have U: "(\<Union>x \<in> set ?xs. area_dirs d x) = U" by (simp add: U_def)
  have tb: "tabs s1 D = tabs s D" and ta: "table s1 ` (tabs s D \<inter> U) = table s ` (tabs s D \<inter> U)"
    using u(5) by (auto simp: same_tables_def)
  have mp: "mapped s' D = mapped s1 D" by (simp add: mapped_def e(5))
  have "exit_mmap pm sm s m = Ret s'" using m(2,3) run1 run2 by (simp add: exit_mmap_def)
  moreover have "pt_inv fs ow (F \<union> (mapped s D - mapped s' D) \<union> table s ` (tabs s D \<inter> U)) D (\<lambda>_. 0) s'"
    using e(2) unfolding U tb ta u(3) mp .
  moreover have "tabs s' D = tabs s D - U" using e(3) by (simp only: U tb)
  moreover have "\<not> present (pte s' d la)" if "la < USERTOP" for la
    using slots_pte(2) [OF d that, of s'] ns unfolding e(5) by blast
  moreover have "pte s' d' la = pte s d' la" if "d' \<in> D - {d}" "la < USERTOP" for d' la
  proof -
    have "pte s1 d' la = pte s d' la" using u(6) that unfolding cleared_def by simp
    moreover have "pte s' d' la = pte s1 d' la"
    proof (cases "present (frames s1 d' (PDX la))")
      case True
      then have "(d', PDX la) \<in> tabs s1 D" using that by (simp add: tabs_la)
      then have "table s1 (d', PDX la) \<noteq> d" using pt_invD(9) [OF u(2)] d by (auto simp: tables_def)
      then show ?thesis using e(7) that True by (simp add: pte_def table_def)
    next
      case False
      then show ?thesis using e(7) that by (simp add: pte_def)
    qed
    ultimately show ?thesis by simp
  qed
  ultimately show ?thesis using rest_same_trans [OF u(4) e(6)] by blast
qed

end

subsection \<open>The default manager and reference counts\<close>

lemma alloc_unlink_ref: "alloc_unlink k m le = Ret (m', le') \<Longrightarrow> ref (pages m' q) = ref (pages m q)"
proof (induction k m le arbitrary: m' le' rule: alloc_unlink.induct)
  case (3 k s pp)
  from 3(1) [OF refl refl _] 3(2) show ?case by (fastforce simp: Let_def SetPageReserved_def ClearPageProperty_def)
qed auto

lemma upd_page_ref: "(\<And>x. ref (g x) = ref x) \<Longrightarrow> ref (pages (upd_page p g m) q) = ref (pages m q)"
  by simp

lemma default_alloc_ref:
  assumes "default_alloc_pages m n = Ret (m', r)"
  shows "ref (pages m' q) = ref (pages m q)"
proof (cases "n > nr_free m")
  case False
  from assms False obtain le where le: "list_scan (free_links m) None (\<lambda>le. case le of None \<Rightarrow> False | Some p \<Rightarrow> property (pages m p) \<ge> n) None = Some le"
    by (auto simp: default_alloc_pages_def)
  show ?thesis
  proof (cases le)
    case (Some p)
    from assms False le Some obtain m1 le1 where u: "alloc_unlink (unat n) m (Some p) = Ret (m1, le1)"
      by (auto simp: default_alloc_pages_def)
    show ?thesis
      using assms False le Some u alloc_unlink_ref [OF u, of q]
      by (cases le1) (auto simp: default_alloc_pages_def SetPageReserved_def ClearPageProperty_def Let_def split: if_splits)
  qed (use assms False le in \<open>auto simp: default_alloc_pages_def\<close>)
qed (use assms in \<open>auto simp: default_alloc_pages_def\<close>)

lemma merge_pages_ref [simp]: "ref (merge_pages pg b c q) = ref (pg q)"
  by (simp add: merge_pages_def Let_def)

lemma merge_back_ref: "merge_back h base pg le = Some pg' \<Longrightarrow> ref (pg' q) = ref (pg q)"
proof (rule merge_back.raw_induct [where P = "\<lambda>h base pg le pg'. ref (pg' q) = ref (pg q)"])
  fix mb h base pg le pg'
  assume IH: "\<And>h base pg le y. mb h base pg le = Some y \<Longrightarrow> ref (y q) = ref (pg q)"
    and r: "(case le of None \<Rightarrow> Some pg | Some p \<Rightarrow> if property (pg p) \<noteq> 0 then Some (merge_pages pg p base) else mb h base pg (list_prev h le)) = Some pg'"
  show "ref (pg' q) = ref (pg q)" using r IH by (fastforce split: option.splits if_splits)
qed

lemma default_free_ref:
  assumes "default_free_pages m p n = Ret m'"
  shows "ref (pages m' q) = (if q = p then 0 else ref (pages m q))"
  using assms merge_back_ref
  by (fastforce simp: default_free_pages_def merge_prev_def merge_next_def set_page_ref_def SetPageProperty_def ClearPageProperty_def Let_def
      split: option.splits if_splits)

lemma pmm_free_ref: "pmm_free (upd_page p (ref_update f) m) F = pmm_free m F"
proof -
  have "property (((pages m)(p := ref_update f (pages m p))) q) = property (pages m q)" for q by simp
  then have "block_marks ((pages m)(p := ref_update f (pages m p))) = block_marks (pages m)"
    unfolding block_marks_def by presburger
  then show ?thesis by (simp add: pmm_free_def pmm_blocks_def)
qed

lemma pmm_owned_ref: "pmm_owned (upd_page p (ref_update f) m) q n = pmm_owned m q n"
proof -
  have "property (((pages m)(p := ref_update f (pages m p))) q) = property (pages m q)" for q by simp
  moreover have "PageReserved (((pages m)(p := ref_update f (pages m p))) q) = PageReserved (pages m q)" by (simp add: PageReserved_def)
  ultimately show ?thesis unfolding pmm_owned_def by simp
qed

interpretation frames: frame_allocator default_pmm_manager pmm_free pmm_owned
proof unfold_locales
  show "ref (pages m' q) = (if q = p then 0 else ref (pages m q))"
    if "pm_free_pages default_pmm_manager m p n = Ret m'" for m m' p n q
    using that by (intro default_free_ref [of m p n]) (simp add: default_pmm_manager_def)
qed (auto simp: default_pmm_manager_def pmm_free_ref pmm_owned_ref dest: default_alloc_ref)

subsection \<open>Properties\<close>

text \<open>C16: page_insert maps the page at the address with the given permissions and changes no other user
  mapping of any directory. It keeps the invariant of the page tables: the reference count of a
  page is the number of user entries that map it, no mapped page, page table or directory is in
  the free list, and page tables are not shared. The page that was mapped there before is freed
  exactly when this was its last mapping, and no stale translation stays in the TLB.\<close>

theorem page_insert_maps:
  assumes "pt_inv pmm_free pmm_owned F D (\<lambda>_. 0) s" "d \<in> D" "la < USERTOP" "F \<noteq> {} \<or> present (frames s d (PDX la))"
    "p < unat (npage s)" "p \<notin> F" "p \<notin> D" "p \<notin> tables s D" "pmm_owned (pmm s) p 1" "PPN perm = 0" "tlb_ok s d"
  shows "\<exists>s' T. page_insert default_pmm_manager swap_manager_fifo s d p la perm = Ret (s', 0) \<and> T \<subseteq> F \<and> card T \<le> 1 \<and>
     pt_inv pmm_free pmm_owned (F - T \<union> (mapped s D - mapped s' D)) D (\<lambda>_. 0) s' \<and>
     (\<forall>d' \<in> D. \<forall>la' < USERTOP. pte s' d' la' =
        (if d' = d \<and> PPN la' = PPN la then page2pa p OR PTE_P OR perm else pte s d' la')) \<and> tlb_ok s' d"
proof -
  from frames.page_insert_ok [OF assms(1-10), of swap_manager_fifo] obtain s' T R where
    s': "page_insert default_pmm_manager swap_manager_fifo s d p la perm = Ret (s', 0)" "T \<subseteq> F" "card T \<le> 1"
    "pt_inv pmm_free pmm_owned (F - T \<union> R) D (\<lambda>_. 0) s'" "rest_same s s'" "R = mapped s D - mapped s' D"
    "\<forall>d' \<in> D. \<forall>la' < USERTOP. pte s' d' la' = (if d' = d \<and> PPN la' = PPN la then page2pa p OR PTE_P OR perm else pte s d' la')"
    "tlb s' = (if cr3 s = page2pa d then (tlb s)(PPN la := None) else tlb s)" by blast
  have "tlb_ok s' d" by (rule tlb_ok_store [OF assms(11) rest_sameD(2) [OF s'(5)] _ s'(8)]) (use s'(7) assms(2) in simp)
  then show ?thesis using s' by blast
qed

text \<open>C19: exit_mmap of an address space whose mappings lie in its areas ends without a failed
  assertion, leaves the address space without any user mapping and without the page tables under
  its areas, returns those page tables and every page that no other address space maps to the
  free list, and changes no mapping of any other address space.\<close>

theorem exit_mmap_releases:
  assumes "pt_inv pmm_free pmm_owned F D (\<lambda>_. 0) s" "mm_vmas (vm s) m vs" "pgdir (mms (vm s) m) = Some d" "mm_count (mms (vm s) m) = 0"
    "d \<in> D" "\<forall>v \<in> set vs. user_area (vmas (vm s) v)"
    "\<forall>la < USERTOP. present (pte s d la) \<longrightarrow> (\<exists>v \<in> set vs. in_vma (vmas (vm s) v) la)"
  shows "\<exists>s'. exit_mmap default_pmm_manager swap_manager_fifo s m = Ret s' \<and>
     (let U = (\<Union>v \<in> set vs. area_dirs d (vmas (vm s) v)) in
      pt_inv pmm_free pmm_owned (F \<union> (mapped s D - mapped s' D) \<union> table s ` (tabs s D \<inter> U)) D (\<lambda>_. 0) s' \<and> tabs s' D = tabs s D - U) \<and>
     (\<forall>la < USERTOP. \<not> present (pte s' d la)) \<and> (\<forall>d' \<in> D - {d}. \<forall>la < USERTOP. pte s' d' la = pte s d' la)"
  using frames.exit_mmap_ok [OF assms, of swap_manager_fifo] unfolding Let_def by blast

text \<open>C33: with two free pages for each page of the range, copy_range gives the target a private copy
  of every page that the source maps there: a page that nobody maps, with the same contents and
  the user permissions of the source entry. Every other mapping, the source pages, and the
  invariant of the page tables are kept.\<close>

theorem copy_range_copies:
  assumes "pt_inv pmm_free pmm_owned F D (\<lambda>_. 0) s" "to \<in> D" "from' \<in> D" "to \<noteq> from'" "USER_ACCESS start end'"
    "start mod PGSIZE = 0" "end' mod PGSIZE = 0" "\<forall>la < USERTOP. start \<le> la \<and> la < end' \<longrightarrow> \<not> present (pte s to la)"
    "unat end' - unat start \<le> card F * 2048"
  shows "\<exists>s' F'. copy_range default_pmm_manager swap_manager_fifo s to from' start end' = Ret (s', 0) \<and> F' \<subseteq> F \<and>
     pt_inv pmm_free pmm_owned F' D (\<lambda>_. 0) s' \<and> copied s D to from' start end' s'"
proof -
  have "start < end'" "end' \<le> USERTOP" using assms(5) by (simp_all add: USER_ACCESS_def)
  from frames.copy_loop_ok [OF assms(1-4) this assms(6-9), of swap_manager_fifo] obtain s' F' where
    s': "copy_loop default_pmm_manager swap_manager_fifo s to from' start end' = Some (Ret (s', 0))" "F' \<subseteq> F"
    "pt_inv pmm_free pmm_owned F' D (\<lambda>_. 0) s'" "copied s D to from' start end' s'" by blast
  then have "copy_range default_pmm_manager swap_manager_fifo s to from' start end' = Ret (s', 0)"
    using assms(5-7) by (simp add: copy_range_def)
  with s' show ?thesis by blast
qed

subsection \<open>Witnesses\<close>

lemma init_memmap_loop_pages:
  "init_memmap_loop k m p = Ret m' \<Longrightarrow>
   (if p \<le> q \<and> q < p + k then ref (pages m' q) = 0 else pages m' q = pages m q)"
proof (induction k arbitrary: m p)
  case (Suc k)
  from Suc.prems obtain m1 where m1: "init_memmap_loop k m1 (Suc p) = Ret m'" "\<forall>q. q \<noteq> p \<longrightarrow> pages m1 q = pages m q" "ref (pages m1 p) = 0"
    by (auto simp: Let_def set_page_ref_def)
  from Suc.IH [OF m1(1)] m1(2,3) show ?case by (auto split: if_splits) (metis Suc_leI le_neq_implies_less)
qed simp

text \<open>
  A machine of eight pages: directories in frames 0 and 1, pages 2 to 6 free, page 7 held by the
  kernel, and address space 0 with one area and directory 0.
\<close>

definition small_mem :: "pmm_state \<Rightarrow> mem_state" where
  "small_mem m = \<lparr>pmm = m, frames = \<lambda>_ _. 0, npage = 8, cr3 = 0, tlb = \<lambda>_. None,
     vm = upd_mm 0 (\<lambda>x. x\<lparr>pgdir := Some 0, mm_count := 0\<rparr>) one_area, swap_init_ok = True, check_mm_struct = None,
     pra_links = \<lparr>le_prev = id, le_next = id\<rparr>, max_swap_offset = 2048,
     ide = \<lparr>ide_devices = \<lambda>_. \<lparr>ide_valid = True, ide_size = 16384\<rparr>, regs = \<lambda>_. \<lparr>r_seccnt = 0, r_sector = 0, r_cyl_lo = 0, r_cyl_hi = 0, r_sdh = 0\<rparr>,
       ide_disk = \<lambda>_ _ _. 0, poll_err = \<lambda>_. False, polls = 0\<rparr>, pgfault_num = 0\<rparr>"

lemma small_mem_ok:
  obtains m where "default_init_memmap small_machine 2 5 = Ret m" "pt_inv pmm_free pmm_owned {2 ..< 7} {0, 1} (\<lambda>_. 0) (small_mem m)"
    "pmm_owned m 7 1" "tables (small_mem m) {0, 1} = {}" "mapped (small_mem m) {0, 1} = {}"
proof -
  obtain m where m: "default_init_memmap small_machine 2 5 = Ret m" "pmm_free m {2 ..< 7}" using small_machine_memmap .
  from m(1) obtain m1 where m1: "init_memmap_loop 5 small_machine 2 = Ret m1" "m = upd_page 2 (property_update (\<lambda>_. 5)) (m1\<lparr>nr_free := nr_free m1 + 5\<rparr>)"
    by (auto simp: default_init_memmap_def)
  have small: "pages small_machine q = reserved_page" for q by (simp add: small_machine_def default_init_def)
  have "ref (pages m1 q) = 0" for q using init_memmap_loop_pages [OF m1(1), of q] by (auto simp: small reserved_page_def split: if_splits)
  then have ref0: "page_ref (small_mem m) q = 0" for q by (simp add: page_ref_def small_mem_def m1(2))
  have "pages m q = reserved_page" if "q < 2 \<or> q = 7" for q using init_memmap_loop_pages [OF m1(1), of q] that by (auto simp: m1(2) small)
  then have own: "pmm_owned m q 1" if "q < 2 \<or> q = 7" for q using that by (auto simp: pmm_owned_def KMEM_PAGES_def reserved_page_def PageReserved_def PG_reserved_def)
  have none: "tabs (small_mem m) {0, 1} = {}" by (auto simp: tabs_def small_mem_def)
  then have "tables (small_mem m) {0, 1} = {}" "slots (small_mem m) {0, 1} = (\<lambda>_. {})" by (auto simp: tables_def slots_def)
  moreover from this have "mapped (small_mem m) {0, 1} = {}" by (simp add: mapped_def)
  moreover have "pt_inv pmm_free pmm_owned {2 ..< 7} {0, 1} (\<lambda>_. 0) (small_mem m)"
    unfolding pt_inv_def calculation none ref0 using m(2) own by (auto simp: small_mem_def)
  ultimately show ?thesis using that m(1) own by blast
qed

text \<open>Page 7 is mapped at 0x300000 of directory 0.\<close>

lemma small_insert:
  obtains m s T where "default_init_memmap small_machine 2 5 = Ret m"
    "page_insert default_pmm_manager swap_manager_fifo (small_mem m) 0 7 0x300000 PTE_U = Ret (s, 0)" "T \<subseteq> {2 ..< 7}" "card T \<le> 1"
    "pt_inv pmm_free pmm_owned ({2 ..< 7} - T) {0, 1} (\<lambda>_. 0) s" "rest_same (small_mem m) s"
    "\<forall>d' \<in> {0, 1}. \<forall>la < USERTOP. pte s d' la = (if d' = 0 \<and> PPN la = PPN 0x300000 then page2pa 7 OR PTE_P OR PTE_U else 0)"
proof -
  obtain m where m: "default_init_memmap small_machine 2 5 = Ret m" "pt_inv pmm_free pmm_owned {2 ..< 7} {0, 1} (\<lambda>_. 0) (small_mem m)"
    "pmm_owned m 7 1" "tables (small_mem m) {0, 1} = {}" "mapped (small_mem m) {0, 1} = {}" using small_mem_ok .
  have "pte (small_mem m) d la = 0" for d la by (simp add: pte_def small_mem_def)
  then show ?thesis
    using frames.page_insert_ok [OF m(2), of 0 "0x300000" 7 PTE_U swap_manager_fifo] m that
    by (auto simp: small_mem_def USERTOP_def)
qed

theorem page_insert_maps_witness:
  "\<exists>m s'. default_init_memmap small_machine 2 5 = Ret m \<and>
     page_insert default_pmm_manager swap_manager_fifo (small_mem m) 0 7 0x300000 PTE_U = Ret (s', 0) \<and>
     pte s' 0 0x300010 = page2pa 7 OR PTE_P OR PTE_U"
proof -
  obtain m where m: "default_init_memmap small_machine 2 5 = Ret m" "pt_inv pmm_free pmm_owned {2 ..< 7} {0, 1} (\<lambda>_. 0) (small_mem m)"
    "pmm_owned m 7 1" "tables (small_mem m) {0, 1} = {}" "mapped (small_mem m) {0, 1} = {}" using small_mem_ok .
  have "PPN 0x300010 = PPN 0x300000" by (simp add: PPN_def drop_bit_eq_div)
  moreover have "tlb_ok (small_mem m) 0" by (simp add: tlb_ok_def small_mem_def)
  ultimately show ?thesis
    using page_insert_maps [OF m(2), of 0 "0x300000" 7 PTE_U] m by (auto simp: small_mem_def USERTOP_def)
qed

theorem exit_mmap_releases_witness:
  "\<exists>m s s'. default_init_memmap small_machine 2 5 = Ret m \<and>
     page_insert default_pmm_manager swap_manager_fifo (small_mem m) 0 7 0x300000 PTE_U = Ret (s, 0) \<and>
     exit_mmap default_pmm_manager swap_manager_fifo s 0 = Ret s' \<and> \<not> present (pte s' 0 0x300000)"
proof -
  obtain m s T where s: "default_init_memmap small_machine 2 5 = Ret m"
    "page_insert default_pmm_manager swap_manager_fifo (small_mem m) 0 7 0x300000 PTE_U = Ret (s, 0)" "T \<subseteq> {2 ..< 7}" "card T \<le> 1"
    "pt_inv pmm_free pmm_owned ({2 ..< 7} - T) {0, 1} (\<lambda>_. 0) s" "rest_same (small_mem m) s"
    "\<forall>d' \<in> {0, 1}. \<forall>la < USERTOP. pte s d' la = (if d' = 0 \<and> PPN la = PPN 0x300000 then page2pa 7 OR PTE_P OR PTE_U else 0)"
    using small_insert .
  have vm: "vm s = upd_mm 0 (\<lambda>x. x\<lparr>pgdir := Some 0, mm_count := 0\<rparr>) one_area"
    using rest_sameD(3) [OF s(6)] by (simp add: small_mem_def)
  have vmas: "mm_vmas (vm s) 0 [7]" using one_area_ok by (simp add: vm mm_vmas_def)
  have area: "\<forall>v \<in> set [7]. user_area (vmas (vm s) v)"
    by (simp add: vm one_area_def user_area_def USER_ACCESS_def USERBASE_def USERTOP_def PGSIZE_def)
  have cover: "\<forall>la < USERTOP. present (pte s 0 la) \<longrightarrow> (\<exists>v \<in> set [7]. in_vma (vmas (vm s) v) la)"
  proof (intro allI impI)
    fix la assume la: "la < USERTOP" "present (pte s 0 la)"
    then have "PPN la = PPN 0x300000" using s(7) by (auto split: if_splits)
    then have "unat (0x300000 :: u32) \<le> unat la \<and> unat la < unat (0x300000 :: u32) + 4096"
      by (subst (asm) page_range_iff) (simp add: dvd_def)
    then show "\<exists>v \<in> set [7]. in_vma (vmas (vm s) v) la"
      by (simp add: vm one_area_def in_vma_def word_le_nat_alt word_less_nat_alt)
  qed
  have "(0x300000 :: u32) < USERTOP" by (simp add: USERTOP_def)
  then show ?thesis using exit_mmap_releases [OF s(5) vmas _ _ _ area cover] s(1,2) by (auto simp: vm)
qed

theorem copy_range_copies_witness:
  "\<exists>m s s'. default_init_memmap small_machine 2 5 = Ret m \<and>
     page_insert default_pmm_manager swap_manager_fifo (small_mem m) 0 7 0x300000 PTE_U = Ret (s, 0) \<and>
     copy_range default_pmm_manager swap_manager_fifo s 1 0 0x300000 0x301000 = Ret (s', 0) \<and>
     (\<exists>np. pte s' 1 0x300000 = page2pa np OR PTE_P OR (pte s 0 0x300000 AND PTE_USER) \<and> frames s' np = frames s 7)"
proof -
  obtain m s T where s: "default_init_memmap small_machine 2 5 = Ret m"
    "page_insert default_pmm_manager swap_manager_fifo (small_mem m) 0 7 0x300000 PTE_U = Ret (s, 0)" "T \<subseteq> {2 ..< 7}" "card T \<le> 1"
    "pt_inv pmm_free pmm_owned ({2 ..< 7} - T) {0, 1} (\<lambda>_. 0) s" "rest_same (small_mem m) s"
    "\<forall>d' \<in> {0, 1}. \<forall>la < USERTOP. pte s d' la = (if d' = 0 \<and> PPN la = PPN 0x300000 then page2pa 7 OR PTE_P OR PTE_U else 0)"
    using small_insert .
  have la: "(0x300000 :: u32) < USERTOP" by (simp add: USERTOP_def)
  have e: "pte s 0 0x300000 = page2pa 7 OR PTE_P OR PTE_U" using s(7) la by simp
  then have pr: "present (pte s 0 0x300000)" "ppn (pte s 0 0x300000) = 7"
    using ppn_entry [of 7 "PTE_P OR PTE_U"] by (simp_all add: present_OR PPN_OR or.assoc)
  have "card ({2 ..< 7} - T) = 5 - card T" using s(3) by (simp add: card_Diff_subset finite_subset)
  then have room: "unat (0x301000 :: u32) - unat (0x300000 :: u32) \<le> card ({2 ..< 7} - T) * 2048" using s(4) by simp
  have ua: "USER_ACCESS 0x300000 0x301000" "(0x300000 :: u32) mod PGSIZE = 0" "(0x301000 :: u32) mod PGSIZE = 0"
    by (simp_all add: USER_ACCESS_def USERBASE_def USERTOP_def PGSIZE_def)
  have ua_lt: "(0x300000 :: u32) < 0x301000" by simp
  have no: "\<forall>la < USERTOP. 0x300000 \<le> la \<and> la < 0x301000 \<longrightarrow> \<not> present (pte s 1 la)" using s(7) by simp
  from copy_range_copies [OF s(5) _ _ _ ua no room, of 0] obtain s' where
    s': "copy_range default_pmm_manager swap_manager_fifo s 1 0 0x300000 0x301000 = Ret (s', 0)" "copied s {0, 1} 1 0 0x300000 0x301000 s'" by auto
  then have "\<exists>np. pte s' 1 0x300000 = page2pa np OR PTE_P OR (pte s 0 0x300000 AND PTE_USER) \<and> frames s' np = frames s 7"
    using la pr unfolding copied_def by (metis order_refl ua_lt)
  then show ?thesis using s(1,2) s'(1) by blast
qed

end
