(* ===== verification/Swapping.thy ===== *)
theory Swapping
  imports AddressSpace
begin

text \<open>
  Swapping and page faults: a page that \<open>swap_out\<close> of \<^verbatim>\<open>kern/mm/swap.c\<close> writes to the swap area
  comes back unchanged, the FIFO manager of \<^verbatim>\<open>kern/mm/swap_fifo.c\<close> picks the page that was mapped
  first, and \<open>do_pgfault\<close> of \<^verbatim>\<open>kern/mm/vmm.c\<close> maps a page exactly for the accesses an area allows.
\<close>

subsection \<open>Swap entries and sectors\<close>

lemma unat_div_PGSIZE: "unat (la div PGSIZE + 1) = unat la div 4096 + 1"
proof -
  have "unat la div 4096 < 2 ^ 20" using unat_u32_less [of la] by (simp add: less_mult_imp_div_less)
  then show ?thesis by (simp add: unat_word_ariths unat_div unat_PGSIZE)
qed

lemma swap_entry:
  fixes la :: u32
  shows "\<not> present (swap_entry_of la)" "drop_bit 8 (swap_entry_of la) = la div PGSIZE + 1" "swap_entry_of la \<noteq> 0"
proof -
  have n: "unat la div 4096 < 2 ^ 20" using unat_u32_less [of la] by (simp add: less_mult_imp_div_less)
  show "\<not> present (swap_entry_of la)" by (simp add: and_PTE_P swap_entry_of_def bit_push_bit_iff)
  have u: "unat (swap_entry_of la) = (unat la div 4096 + 1) * 256"
    using n unat_div_PGSIZE [of la] by (simp add: swap_entry_of_def push_bit_eq_mult unat_word_ariths unat_PGSIZE)
  show "drop_bit 8 (swap_entry_of la) = la div PGSIZE + 1"
    using u unat_div_PGSIZE [of la] by (simp add: word_unat_eq_iff unat_drop_bit_eq drop_bit_eq_div [where 'a = nat])
  show "swap_entry_of la \<noteq> 0" using u by auto
qed

lemma load_frame_sectors: "i < 1024 \<Longrightarrow> load_sectors g (frame_sectors f) i = f i"
proof -
  assume i: "i < 1024"
  have "i div 128 < 8" using i by (simp add: less_mult_imp_div_less)
  then show ?thesis by (simp add: load_sectors_def frame_sectors_def)
qed

lemma swap_sector:
  fixes la :: u32
  defines "off \<equiv> la div PGSIZE + 1"
  shows "unat (off * PAGE_NSECT) = 8 * (unat la div 4096 + 1)" "off * PAGE_NSECT < MAX_DISK_NSECS" "off * PAGE_NSECT + 8 \<le> MAX_DISK_NSECS" "0 < off"
proof -
  have n: "unat la div 4096 < 2 ^ 20" using unat_u32_less [of la] by (simp add: less_mult_imp_div_less)
  have uo: "unat off = unat la div 4096 + 1" unfolding off_def by (rule unat_div_PGSIZE)
  then show "0 < off" by (simp add: word_less_nat_alt)
  show u: "unat (off * PAGE_NSECT) = 8 * (unat la div 4096 + 1)" using n by (simp add: unat_word_ariths uo PAGE_NSECT_def)
  show "off * PAGE_NSECT < MAX_DISK_NSECS" using n by (simp add: word_less_nat_alt u MAX_DISK_NSECS_def)
  show "off * PAGE_NSECT + 8 \<le> MAX_DISK_NSECS" using n by (simp add: word_le_nat_alt unat_word_ariths(1) u MAX_DISK_NSECS_def)
qed

lemma page2kva_ok: "p < unat (npage s) \<Longrightarrow> unat (npage s) \<le> 2 ^ 20 \<Longrightarrow> page2kva s p = Ret p"
  by (simp add: page2kva_def KADDR_def PPN_page2pa word_le_nat_alt unat_of_nat)

definition swap_slot :: "mem_state \<Rightarrow> u32 \<Rightarrow> (nat \<Rightarrow> u32) list" where
  "swap_slot s la = map (ide_disk (ide s) SWAP_DEV_NO) [8 * (unat la div 4096 + 1) ..< 8 * (unat la div 4096 + 1) + 8]"

definition swap_dev_ok :: "mem_state \<Rightarrow> bool" where
  "swap_dev_ok s \<longleftrightarrow> VALID_IDE (ide s) SWAP_DEV_NO \<and> (\<forall>n. \<not> poll_err (ide s) n)"

lemma swapfs_write_ok:
  assumes "p < unat (npage s)" "unat (npage s) \<le> 2 ^ 20" "la div PGSIZE + 1 < max_swap_offset s" "swap_dev_ok s"
  shows "\<exists>d'. swapfs_write s (swap_entry_of la) p = Ret (s\<lparr>ide := d'\<rparr>, 0) \<and> swap_dev_ok (s\<lparr>ide := d'\<rparr>) \<and>
     swap_slot (s\<lparr>ide := d'\<rparr>) la = frame_sectors (frames s p)"
proof -
  note S = swap_sector [of la]
  let ?n = "8 * (unat la div 4096 + 1)" and ?b = "frame_sectors (frames s p)"
  have len: "length ?b = 8" by (simp add: frame_sectors_def)
  from ide_write_secs_ok [of ?b "ide s" SWAP_DEV_NO "(la div PGSIZE + 1) * PAGE_NSECT"] S assms(4) len obtain d' where
    w: "ide_write_secs (ide s) SWAP_DEV_NO ((la div PGSIZE + 1) * PAGE_NSECT) ?b = Ret (d', 0)" "ide_devices d' = ide_devices (ide s)" "poll_err d' = poll_err (ide s)"
    "\<forall>d n. ide_disk d' d n = (if d = SWAP_DEV_NO \<and> ?n \<le> n \<and> n < ?n + 8 then ?b ! (n - ?n) else ide_disk (ide s) d n)"
    by (auto simp: swap_dev_ok_def)
  have "swap_offset s (swap_entry_of la) = Ret (la div PGSIZE + 1)"
    using assms(3) S(4) by (simp add: swap_offset_def swap_entry(2) Let_def)
  then have "swapfs_write s (swap_entry_of la) p = Ret (s\<lparr>ide := d'\<rparr>, 0)"
    using w(1) page2kva_ok [OF assms(1,2)] by (simp add: swapfs_write_def)
  moreover have "swap_slot (s\<lparr>ide := d'\<rparr>) la = ?b" unfolding swap_slot_def by (rule nth_equalityI) (auto simp: len w(4))
  moreover have "swap_dev_ok (s\<lparr>ide := d'\<rparr>)" using assms(4) w(2,3) by (simp add: swap_dev_ok_def VALID_IDE_def)
  ultimately show ?thesis by blast
qed

lemma swapfs_read_ok:
  assumes "p < unat (npage s)" "unat (npage s) \<le> 2 ^ 20" "la div PGSIZE + 1 < max_swap_offset s" "swap_dev_ok s"
  shows "\<exists>d'. swapfs_read s (swap_entry_of la) p =
     Ret (s\<lparr>ide := d', frames := (frames s)(p := load_sectors (frames s p) (swap_slot s la))\<rparr>, 0)"
proof -
  note S = swap_sector [of la]
  from ide_read_secs_ok [of 8 "ide s" SWAP_DEV_NO "(la div PGSIZE + 1) * PAGE_NSECT"] S assms(4) obtain d' where
    r: "ide_read_secs (ide s) SWAP_DEV_NO ((la div PGSIZE + 1) * PAGE_NSECT) 8 = Ret (d', 0, swap_slot s la)"
    by (auto simp: swap_dev_ok_def MAX_NSECS_def swap_slot_def)
  have "swap_offset s (swap_entry_of la) = Ret (la div PGSIZE + 1)"
    using assms(3) S(4) by (simp add: swap_offset_def swap_entry(2) Let_def)
  then show ?thesis using r page2kva_ok [OF assms(1,2)] by (intro exI [of _ d']) (simp add: swapfs_read_def PAGE_NSECT_def)
qed

subsection \<open>Swapping out\<close>

text \<open>
  A page that may be swapped: the oldest of the queue, mapped once, at the address recorded in
  its descriptor.
\<close>

definition swappable :: "mem_state \<Rightarrow> nat set \<Rightarrow> nat \<Rightarrow> nat \<Rightarrow> u32 \<Rightarrow> nat \<Rightarrow> nat list \<Rightarrow> bool" where
  "swappable s D m d la p ps \<longleftrightarrow>
     pgdir (mms (vm s) m) = Some d \<and> sm_priv (mms (vm s) m) \<noteq> None \<and> d \<in> D \<and> la < USERTOP \<and>
     present (pte s d la) \<and> ppn (pte s d la) = p \<and> page_ref s p = 1 \<and> pra_vaddr (pages (pmm s) p) = la \<and>
     dlist (pra_links s) None (map Some (ps @ [p])) \<and> la div PGSIZE + 1 < max_swap_offset s \<and> swap_dev_ok s"

context frame_allocator
begin

text \<open>Replacing the only mapping of a page by an entry that is not present, and freeing the page.\<close>

lemma swap_entry_inv:
  assumes inv: "pt_inv fs ow F D (\<lambda>_. 0) s" and d: "d \<in> D" "la < USERTOP" "present (pte s d la)" and e: "\<not> present e"
    and ref: "page_ref s (ppn (pte s d la)) = 1"
  shows "\<exists>m. free_page pm (set_entry (table s (d, PDX la)) (PTX la) e s) (ppn (pte s d la)) =
        Ret (set_entry (table s (d, PDX la)) (PTX la) e (s\<lparr>pmm := m\<rparr>)) \<and>
     pt_inv fs ow (insert (ppn (pte s d la)) F) D (\<lambda>_. 0) (set_entry (table s (d, PDX la)) (PTX la) e (s\<lparr>pmm := m\<rparr>))"
proof -
  note I = pt_invD [OF inv] and S = slots_pte [OF d]
  let ?p = "ppn (pte s d la)" and ?t = "table s (d, PDX la)" and ?j = "PTX la"
  let ?u = "set_entry ?t ?j e s"
  have di: "(d, PDX la) \<in> tabs s D" using S(1) d by (simp add: tabs_la)
  have pn: "?p < unat (npage s)" "?p \<notin> F" "?p \<notin> D" "?p \<notin> tables s D" "ow (pmm s) ?p 1" using S(4) I(10,11,12) by auto
  have "card (slots s D ?p) = 1" using I(13) pn(4) ref by simp
  then have one: "slots s D ?p = {((d, PDX la), ?j)}" using S(2) by (metis card_1_singletonE singletonD)
  note U = store_entry [OF inv di PTX_less, where e = e]
  have sl: "slots ?u D q = (if q = ?p then {} else slots s D q)" for q
  proof (cases "q = ?p")
    case True
    then show ?thesis unfolding U(4) using one e by simp
  next
    case False
    then have "((d, PDX la), ?j) \<notin> slots s D q" using S(2) by (auto simp: slots_def)
    then show ?thesis unfolding U(4) using False e by simp
  qed
  have "q \<in> mapped ?u D \<longleftrightarrow> q \<in> mapped s D - {?p}" for q unfolding mapped_def sl by simp
  then have mp: "mapped ?u D = mapped s D - {?p}" by blast
  from free_page_ok [of ?u F ?p] I(1) pn obtain m where m: "free_page pm ?u ?p = Ret (?u\<lparr>pmm := m\<rparr>)" "fs m (insert ?p F)"
    "\<forall>q. q \<notin> insert ?p F \<longrightarrow> ow (pmm s) q 1 \<longrightarrow> ow m q 1" "\<forall>q. ref (pages m q) = (if q = ?p then 0 else ref (pages (pmm s) q))" by auto
  let ?s' = "set_entry ?t ?j e (s\<lparr>pmm := m\<rparr>)"
  have fr: "frames ?s' = frames ?u" by simp
  have "pt_inv fs ow (insert ?p F) D (\<lambda>_. 0) ?s'"
    unfolding pt_inv_def frames_inv [OF fr] U(3) mp sl
  proof (intro conjI)
    show "\<forall>q. q \<notin> tables s D \<longrightarrow> page_ref ?s' q = int (card (if q = ?p then {} else slots s D q)) + 0"
      using I(13) m(4) by (simp add: page_ref_def)
    show "\<forall>q \<in> D \<union> tables s D \<union> (mapped s D - {?p}). ow (pmm ?s') q 1"
    proof
      fix q assume "q \<in> D \<union> tables s D \<union> (mapped s D - {?p})"
      then have "q \<in> D \<union> tables s D \<union> mapped s D" "q \<notin> insert ?p F" using I(6,9,11) pn by auto
      then show "ow (pmm ?s') q 1" using m(3) I(12) by simp
    qed
  qed (use I m(2) U(5) pn in auto)
  moreover have "?u\<lparr>pmm := m\<rparr> = ?s'" by simp
  ultimately show ?thesis using m(1) by metis
qed

end

lemma swap_out_one:
  assumes inv: "pt_inv pmm_free pmm_owned F D (\<lambda>_. 0) s" and sw: "swappable s D m d la p ps"
  shows "\<exists>s'. swap_out default_pmm_manager swap_manager_fifo s (Some m) 1 False = Ret (s', 1) \<and>
     pt_inv pmm_free pmm_owned (insert p F) D (\<lambda>_. 0) s' \<and> dlist (pra_links s') None (map Some ps) \<and> (tlb_ok s d \<longrightarrow> tlb_ok s' d) \<and>
     (\<forall>d' \<in> D. \<forall>la' < USERTOP. pte s' d' la' = (if d' = d \<and> PPN la' = PPN la then swap_entry_of la else pte s d' la')) \<and>
     swap_slot s' la = frame_sectors (frames s p) \<and> swap_dev_ok s' \<and> vm s' = vm s \<and> npage s' = npage s \<and>
     max_swap_offset s' = max_swap_offset s \<and> (\<forall>f. f \<notin> tables s D \<longrightarrow> frames s' f = frames s f)"
proof -
  from sw have m: "pgdir (mms (vm s) m) = Some d" "sm_priv (mms (vm s) m) \<noteq> None" and d: "d \<in> D" "la < USERTOP" "present (pte s d la)"
    and p: "ppn (pte s d la) = p" "page_ref s p = 1" "pra_vaddr (pages (pmm s) p) = la"
    and ps: "dlist (pra_links s) None (map Some ps @ [Some p])" and dev: "la div PGSIZE + 1 < max_swap_offset s" "swap_dev_ok s"
    by (auto simp: swappable_def)
  note I = pt_invD [OF inv] and S = slots_pte [OF d]
  let ?t = "table s (d, PDX la)" and ?j = "PTX la" and ?e = "swap_entry_of la"
  note pop = lq.pop_last [OF ps]
  define s1 where "s1 = s\<lparr>pra_links := list_del (pra_links s) (Some p)\<rparr>"
  have s1: "pmm s1 = pmm s" "frames s1 = frames s" "npage s1 = npage s" "vm s1 = vm s" "ide s1 = ide s" "max_swap_offset s1 = max_swap_offset s"
    "tlb s1 = tlb s" "cr3 s1 = cr3 s" "pra_links s1 = list_del (pra_links s) (Some p)" by (simp_all add: s1_def)
  have inv1: "pt_inv pmm_free pmm_owned F D (\<lambda>_. 0) s1" using inv by (simp add: pt_inv_cong [OF s1(1-3)])
  have victim: "fifo_swap_out_victim s (Some m) False = Ret (s1, p, 0)"
    using m(2) pop by (simp add: fifo_swap_out_victim_def s1_def)
  have pte1: "pte s1 = pte s" "table s1 = table s" using frames_inv [OF s1(2)] by auto
  have find: "find_pte s1 d la = Ret (s1, Some (?t, ?j))"
  proof -
    have "get_pte_with (\<lambda>_. Panic) s1 d la False = get_pte default_pmm_manager swap_manager_fifo s1 d la False"
      by (simp add: get_pte_def get_pte_with_def)
    then show ?thesis using frames.get_pte_present [OF inv1 d(1,2)] S(1) by (simp add: find_pte_def s1 pte1)
  qed
  have ent: "frames s1 ?t ?j = pte s d la" using S(3) by (simp add: s1)
  have pn: "p < unat (npage s)" "unat (npage s) \<le> 2 ^ 20" using S(4) I(3,10) p(1) by auto
  from swapfs_write_ok [of p s1 la] pn dev obtain dv where w: "swapfs_write s1 ?e p = Ret (s1\<lparr>ide := dv\<rparr>, 0)"
    "swap_dev_ok (s1\<lparr>ide := dv\<rparr>)" "swap_slot (s1\<lparr>ide := dv\<rparr>) la = frame_sectors (frames s p)" by (auto simp: s1 swap_dev_ok_def)
  let ?s2 = "s1\<lparr>ide := dv\<rparr>"
  have inv2: "pt_inv pmm_free pmm_owned F D (\<lambda>_. 0) ?s2" using inv1 by (subst pt_inv_cong) simp_all
  have pte2: "pte ?s2 = pte s" "table ?s2 = table s" using frames_inv [of ?s2 s] s1 by auto
  from frames.swap_entry_inv [OF inv2 d(1,2), of ?e] d(3) swap_entry(1) p obtain mm where
    f: "free_page default_pmm_manager (set_entry ?t ?j ?e ?s2) p = Ret (set_entry ?t ?j ?e (?s2\<lparr>pmm := mm\<rparr>))"
    "pt_inv pmm_free pmm_owned (insert p F) D (\<lambda>_. 0) (set_entry ?t ?j ?e (?s2\<lparr>pmm := mm\<rparr>))" by (auto simp: pte2 page_ref_def s1)
  define s3 where "s3 = set_entry ?t ?j ?e (?s2\<lparr>pmm := mm\<rparr>)"
  have round: "swap_out_round default_pmm_manager swap_manager_fifo s (Some m) False = Ret (tlb_invalidate s3 d la, False)"
    using victim find ent w(1) f(1) m(1) p(3) d(3)
    by (simp add: swap_out_round_def swap_manager_fifo_def Let_def s1 s3_def)
  let ?s' = "tlb_invalidate s3 d la"
  have fr: "frames ?s' = frames (set_entry ?t ?j ?e s)" by (simp add: s3_def s1)
  have pt': "pte ?s' d' la' = (if d' = d \<and> PPN la' = PPN la then ?e else pte s d' la')" if "d' \<in> D" "la' < USERTOP" for d' la'
    unfolding frames_inv(6) [OF fr] by (rule store_pte [OF inv d(1,2) S(1) that])
  have sel: "vm ?s' = vm s" "npage ?s' = npage s" "max_swap_offset ?s' = max_swap_offset s" "ide ?s' = dv" "cr3 ?s' = cr3 s"
    "pra_links ?s' = list_del (pra_links s) (Some p)" by (simp_all add: s3_def s1 tlb_invalidate_def)
  have tl: "tlb ?s' = (if cr3 s = page2pa d then (tlb s)(PPN la := None) else tlb s)" by (simp add: s3_def s1)
  have "tlb_ok ?s' d" if "tlb_ok s d" by (rule tlb_ok_store [OF that sel(5) _ tl]) (use pt' d in auto)
  moreover have "swap_slot ?s' la = frame_sectors (frames s p)" "swap_dev_ok ?s'"
    using w(2,3) by (simp_all add: swap_slot_def swap_dev_ok_def VALID_IDE_def sel)
  moreover have "swap_out default_pmm_manager swap_manager_fifo s (Some m) 1 False = Ret (?s', 1)" using round by (simp add: swap_out_def)
  moreover have "pt_inv pmm_free pmm_owned (insert p F) D (\<lambda>_. 0) ?s'" using f(2) by (simp add: s3_def)
  moreover have "frames ?s' f = frames s f" if "f \<notin> tables s D" for f using that S(1) d fr by (auto simp: tables_def tabs_la)
  ultimately show ?thesis using pt' sel pop by (intro exI [of _ ?s']) auto
qed

subsection \<open>Page faults\<close>





context frame_allocator
begin

lemma pgdir_alloc_page_ok:
  assumes inv: "pt_inv fs ow F D (\<lambda>_. 0) s" and d: "d \<in> D" and la: "la < USERTOP" and tab: "present (frames s d (PDX la))"
    and room: "F \<noteq> {}" and q: "quiet s" and perm: "PPN perm = 0" and no: "\<not> present (pte s d la)"
  shows "\<exists>s' p. pgdir_alloc_page pm sm s d la perm = Ret (s', Some p) \<and> p \<in> F \<and> pt_inv fs ow (F - {p}) D (\<lambda>_. 0) s' \<and>
     (\<forall>d' \<in> D. \<forall>la' < USERTOP. pte s' d' la' = (if d' = d \<and> PPN la' = PPN la then page2pa p OR PTE_P OR perm else pte s d' la')) \<and> rest_same s s'"
proof -
  note I = pt_invD [OF inv]
  from alloc_page_inv [OF inv room, of sm] obtain m p where a: "alloc_page pm sm s = Ret (s\<lparr>pmm := m\<rparr>, Some p)" "p \<in> F"
    "pt_inv fs ow (F - {p}) D (\<lambda>_. 0) (s\<lparr>pmm := m\<rparr>)" "ow m p 1" by blast
  let ?s1 = "s\<lparr>pmm := m\<rparr>"
  have fr: "frames ?s1 = frames s" by simp
  note fi = frames_inv [OF fr]
  have p: "p < unat (npage ?s1)" "p \<notin> F - {p}" "p \<notin> D" "p \<notin> tables ?s1 D" "ow (pmm ?s1) p 1"
    using a(2,4) I(2,6,9) unfolding fi by auto
  have "present (frames ?s1 d (PDX la))" using tab by simp
  from page_insert_ok [OF a(3) d la disjI2 [OF this] p perm, of sm] this obtain s' R where i: "page_insert pm sm ?s1 d p la perm = Ret (s', 0)"
    "pt_inv fs ow (F - {p} \<union> R) D (\<lambda>_. 0) s'" "rest_same ?s1 s'" "R = mapped ?s1 D - mapped s' D"
    "\<forall>d' \<in> D. \<forall>la' < USERTOP. pte s' d' la' = (if d' = d \<and> PPN la' = PPN la then page2pa p OR PTE_P OR perm else pte ?s1 d' la')"
    by (metis Diff_empty)
  have "mapped ?s1 D \<subseteq> mapped s' D" by (rule insert_keeps [OF i(5)]) (simp add: fi no)
  then have "R = {}" using i(4) by simp
  moreover have "quiet s'" using q rest_sameD(4) [OF i(3)] by (simp add: quiet_def)
  then have "pgdir_alloc_page pm sm s d la perm = Ret (s', Some p)" using a(1) i(1) by (auto simp: pgdir_alloc_page_def quiet_def)
  moreover have "rest_same s s'" using rest_same_trans [OF _ i(3)] by simp
  ultimately show ?thesis using i(2,5) a(2) unfolding fi by (intro exI [of _ s'] exI [of _ p]) simp
qed

end



subsection \<open>Properties\<close>


text \<open>C18: swap_out picks the page that entered the FIFO queue first, writes it to the swap area, replaces
  its entry by a swap entry and frees it; swap_in of the same address then gives a page with the
  same contents.\<close>

theorem swap_roundtrip:
  assumes "pt_inv pmm_free pmm_owned F D (\<lambda>_. 0) s" "swappable s D m d la p ps"
  shows "\<exists>s1 s2 p'. swap_out default_pmm_manager swap_manager_fifo s (Some m) 1 False = Ret (s1, 1) \<and>
     pt_inv pmm_free pmm_owned (insert p F) D (\<lambda>_. 0) s1 \<and> pte s1 d la = swap_entry_of la \<and> dlist (pra_links s1) None (map Some ps) \<and>
     swap_in default_pmm_manager swap_manager_fifo s1 m la = Ret (s2, p', 0) \<and> p' \<in> insert p F \<and>
     (\<forall>i < 1024. frames s2 p' i = frames s p i)"
proof -
  from assms(2) have d: "d \<in> D" "la < USERTOP" "present (pte s d la)" "pgdir (mms (vm s) m) = Some d" "la div PGSIZE + 1 < max_swap_offset s"
    by (auto simp: swappable_def)
  from swap_out_one [OF assms] obtain s1 where o: "swap_out default_pmm_manager swap_manager_fifo s (Some m) 1 False = Ret (s1, 1)"
    "pt_inv pmm_free pmm_owned (insert p F) D (\<lambda>_. 0) s1" "dlist (pra_links s1) None (map Some ps)"
    "\<forall>d' \<in> D. \<forall>la' < USERTOP. pte s1 d' la' = (if d' = d \<and> PPN la' = PPN la then swap_entry_of la else pte s d' la')"
    "swap_slot s1 la = frame_sectors (frames s p)" "swap_dev_ok s1" "vm s1 = vm s" "max_swap_offset s1 = max_swap_offset s" by blast
  have e: "pte s1 d la = swap_entry_of la" using o(4) d by simp
  then have tab: "present (frames s1 d (PDX la))" "frames s1 (table s1 (d, PDX la)) (PTX la) = swap_entry_of la"
    using swap_entry(3) [of la] by (auto simp: pte_def split: if_splits)
  from frames.alloc_page_inv [OF o(2), of swap_manager_fifo] obtain mm p' where
    a: "alloc_page default_pmm_manager swap_manager_fifo s1 = Ret (s1\<lparr>pmm := mm\<rparr>, Some p')" "p' \<in> insert p F"
    "pt_inv pmm_free pmm_owned (insert p F - {p'}) D (\<lambda>_. 0) (s1\<lparr>pmm := mm\<rparr>)" by auto
  let ?s = "s1\<lparr>pmm := mm\<rparr>"
  have "get_pte default_pmm_manager swap_manager_fifo ?s d la False = Ret (?s, Some (table s1 (d, PDX la), PTX la))"
    using frames.get_pte_present [OF a(3) d(1,2), of swap_manager_fifo False] tab(1) by (simp add: table_def)
  moreover have "p' < unat (npage ?s)" "unat (npage ?s) \<le> 2 ^ 20" using a(2) pt_invD(2,3) [OF o(2)] by auto
  with swapfs_read_ok [of p' ?s la] d(5) o(6,8) obtain dv where
    "swapfs_read ?s (swap_entry_of la) p' = Ret (?s\<lparr>ide := dv, frames := (frames ?s)(p' := load_sectors (frames ?s p') (swap_slot ?s la))\<rparr>, 0)"
    by (auto simp: swap_dev_ok_def VALID_IDE_def)
  ultimately have "swap_in default_pmm_manager swap_manager_fifo s1 m la =
      Ret (?s\<lparr>ide := dv, frames := (frames ?s)(p' := load_sectors (frames ?s p') (swap_slot ?s la))\<rparr>, p', 0)"
    using a(1) d(4) tab(2) o(7) by (simp add: swap_in_def)
  moreover have "swap_slot ?s la = frame_sectors (frames s p)" using o(5) by (simp add: swap_slot_def)
  ultimately show ?thesis using o(1-3) e a(2) load_frame_sectors by (intro exI conjI) (assumption | simp)+
qed

text \<open>C34: after boot, with swapping on and no self-test running, an allocation of one page never
  returns NULL: when no page is free, alloc_pages calls swap_out on a null address space and the
  kernel faults, so the callers' checks for NULL are never reached.\<close>

theorem alloc_page_exhausted:
  assumes "pmm_free (pmm s) F" "swap_init_ok s" "check_mm_struct s = None"
  shows "alloc_page default_pmm_manager swap_manager_fifo s = Panic \<longleftrightarrow> F = {}"
proof (cases "F = {}")
  case True
  then show ?thesis using frames.alloc_page_empty [of s] assms by (simp add: quiet_def)
next
  case False
  from frames.alloc_page_some [OF assms(1) False, of swap_manager_fifo] show ?thesis using False by auto
qed

subsection \<open>Examples\<close>


lemma pmm_vaddr:
  fixes m p a
  defines "m' \<equiv> upd_page p (pra_vaddr_update (\<lambda>_. a)) m"
  shows "pmm_free m' F = pmm_free m F" "pmm_owned m' q n = pmm_owned m q n" "ref (pages m' q) = ref (pages m q)"
proof -
  have *: "property (pages m' k) = property (pages m k)" "PageReserved (pages m' k) = PageReserved (pages m k)"
    "free_links m' = free_links m" "nr_free m' = nr_free m" "ref (pages m' k) = ref (pages m k)" for k
    by (simp_all add: m'_def PageReserved_def)
  show "pmm_free m' F = pmm_free m F" "pmm_owned m' q n = pmm_owned m q n" "ref (pages m' q) = ref (pages m q)"
    unfolding pmm_free_def pmm_blocks_def pmm_owned_def block_marks_def * by (rule refl)+
qed

text \<open>The example machine with page 7 in the queue of the FIFO manager.\<close>

definition queued :: "mem_state \<Rightarrow> mem_state" where
  "queued s = s\<lparr>pmm := upd_page 7 (pra_vaddr_update (\<lambda>_. 0x300000)) (pmm s),
     vm := upd_mm 0 (\<lambda>x. x\<lparr>sm_priv := Some 0\<rparr>) (vm s),
     pra_links := list_add (list_init (pra_links s) None) None (Some 7)\<rparr>"

lemma queued_inv: "pt_inv pmm_free pmm_owned F D x s \<Longrightarrow> pt_inv pmm_free pmm_owned F D x (queued s)"
proof -
  have fr: "frames (queued s) = frames s" and np: "npage (queued s) = npage s"
    and pm: "pmm (queued s) = upd_page 7 (pra_vaddr_update (\<lambda>_. 0x300000)) (pmm s)" by (simp_all add: queued_def)
  assume "pt_inv pmm_free pmm_owned F D x s"
  then show ?thesis unfolding pt_inv_def page_ref_def frames_inv [OF fr] np pm pmm_vaddr .
qed

theorem swap_roundtrip_witness:
  "\<exists>m s s1 s2 p. default_init_memmap small_machine 2 5 = Ret m \<and>
     page_insert default_pmm_manager swap_manager_fifo (small_mem m) 0 7 0x300000 PTE_U = Ret (s, 0) \<and>
     swap_out default_pmm_manager swap_manager_fifo (queued s) (Some 0) 1 False = Ret (s1, 1) \<and>
     swap_in default_pmm_manager swap_manager_fifo s1 0 0x300000 = Ret (s2, p, 0) \<and> frames s2 p 5 = frames s 7 5"
proof -
  obtain m s T where s: "default_init_memmap small_machine 2 5 = Ret m"
    "page_insert default_pmm_manager swap_manager_fifo (small_mem m) 0 7 0x300000 PTE_U = Ret (s, 0)" "T \<subseteq> {2 ..< 7}" "card T \<le> 1"
    "pt_inv pmm_free pmm_owned ({2 ..< 7} - T) {0, 1} (\<lambda>_. 0) s" "rest_same (small_mem m) s"
    "\<forall>d' \<in> {0, 1}. \<forall>la < USERTOP. pte s d' la = (if d' = 0 \<and> PPN la = PPN 0x300000 then page2pa 7 OR PTE_P OR PTE_U else 0)"
    using small_insert .
  have fr: "frames (queued s) = frames s" by (simp add: queued_def)
  have inv: "pt_inv pmm_free pmm_owned ({2 ..< 7} - T) {0, 1} (\<lambda>_. 0) (queued s)" using s(5) by (rule queued_inv)
  have la: "(0x300000 :: u32) < USERTOP" by (simp add: USERTOP_def)
  have e: "pte (queued s) 0 0x300000 = page2pa 7 OR PTE_P OR PTE_U" using s(7) la frames_inv(6) [OF fr] by simp
  then have pr: "present (pte (queued s) 0 0x300000)" "ppn (pte (queued s) 0 0x300000) = 7"
    using ppn_entry [of 7 "PTE_P OR PTE_U"] by (simp_all add: present_OR PPN_OR or.assoc)
  have in7: "((0, PDX 0x300000), PTX 0x300000) \<in> slots (queued s) {0, 1} 7" 
    using slots_pte(2) [of 0 "{0, 1}" "0x300000" "queued s"] pr la by simp
  have "slots (queued s) {0, 1} 7 = {((0, PDX 0x300000), PTX 0x300000)}"
  proof (intro equalityI subsetI)
    fix z assume "z \<in> slots (queued s) {0, 1} 7"
    then obtain d i j where z: "z = ((d, i), j)" "((d, i), j) \<in> slots (queued s) {0, 1} 7" by (metis prod.exhaust)
    then have "d \<in> {0, 1}" by (auto simp: slots_def tabs_def)
    from slot_la [OF z(2)] obtain la where l: "la < USERTOP" "PDX la = i" "PTX la = j" "present (pte (queued s) d la)" by blast
    then have "d = 0 \<and> PPN la = PPN 0x300000" using s(7) \<open>d \<in> {0, 1}\<close> frames_inv(6) [OF fr] by (auto split: if_splits)
    then show "z \<in> {((0, PDX 0x300000), PTX 0x300000)}" using l z(1) by (simp add: same_page_iff)
  qed (use in7 in simp)
  then have ref: "page_ref (queued s) 7 = 1" using spec [OF pt_invD(13) [OF inv], of 7] pt_invD(11) [OF inv] slots_mapped [of "queued s" "{0, 1}" 7] by auto
  have vm: "vm (queued s) = upd_mm 0 (\<lambda>x. x\<lparr>sm_priv := Some 0\<rparr>) (vm (small_mem m))" "ide (queued s) = ide (small_mem m)" "max_swap_offset (queued s) = 2048"
    using rest_sameD [OF s(6)] by (simp_all add: queued_def small_mem_def)
  have vaddr: "pra_vaddr (pages (pmm (queued s)) 7) = 0x300000" by (simp add: queued_def)
  have "dlist (pra_links (queued s)) None [Some 7]" using list_add_after_head [OF dlist_init [of "pra_links s" None], of "Some 7"] by (simp add: queued_def list_add_def)
  then have "swappable (queued s) {0, 1} 0 0 0x300000 7 []"
    unfolding swappable_def using pr la ref vaddr
    by (simp add: vm small_mem_def swap_dev_ok_def VALID_IDE_def SWAP_DEV_NO_def MAX_IDE_def PGSIZE_def)
  from swap_roundtrip [OF inv this] s(1,2) fr show ?thesis by auto
qed

definition full_mem :: mem_state where
  "full_mem = small_mem (default_init small_machine)"

theorem alloc_page_exhausted_witness: "alloc_page default_pmm_manager swap_manager_fifo full_mem = Panic"
proof -
  have "pmm_free (pmm full_mem) {}"
    using default_init_blocks [of small_machine] by (auto simp: full_mem_def small_mem_def pmm_free_def)
  then show ?thesis using alloc_page_exhausted [of full_mem "{}"] by (simp add: full_mem_def small_mem_def)
qed

end
