(* ===== verification/Inode.thy ===== *)
theory Inode
  imports CStrings DList
begin

text \<open>
  The objects of the virtual file system: \<open>struct iobuf\<close> of \<^verbatim>\<open>kern/fs/iobuf.c\<close>, the abstract
  inodes of \<^verbatim>\<open>kern/fs/vfs/inode.c\<close> with their reference and open counts, the tables of
  operations that file systems and devices provide (\<open>struct inode_ops\<close>, \<open>struct fs\<close>), and the
  open-file tables of \<^verbatim>\<open>kern/fs/fs.h\<close> and \<^verbatim>\<open>kern/fs/file.h\<close>. Pointers to objects are numbers
  that index a store; character pointers are addresses in \<open>kmem\<close>. A function pointer that the
  code leaves \<open>NULL\<close> is \<open>None\<close>, and calling through it stops the kernel, as the assertion in
  \<open>__vop_op\<close> does. Counters are unbounded integers: the assertions bound them long before
  32 bits. A lock is the count of its semaphore; a call that would block on it does not return
  in the sequential reading of these theories and gives \<open>Panic\<close>.
\<close>

subsection \<open>I/O buffers (iobuf.c)\<close>

record iobuf =
  io_base :: nat
  io_offset :: u32
  io_len :: u32
  io_resid :: u32

definition iobuf_used :: "iobuf \<Rightarrow> u32" where
  "iobuf_used iob = io_len iob - io_resid iob"

definition iobuf_init :: "nat \<Rightarrow> u32 \<Rightarrow> u32 \<Rightarrow> iobuf" where
  "iobuf_init base len offset = \<lparr>io_base = base, io_offset = offset, io_len = len, io_resid = len\<rparr>"

definition iobuf_skip :: "iobuf \<Rightarrow> u32 \<Rightarrow> iobuf outcome" where
  "iobuf_skip iob n =
     assert_then (n \<le> io_resid iob)
       (Ret (iob\<lparr>io_base := io_base iob + unat n, io_offset := io_offset iob + n, io_resid := io_resid iob - n\<rparr>))"

text \<open>\<open>iobuf_move\<close> returns the memory, the buffer, the number of bytes moved and the code.\<close>

definition iobuf_move :: "mem \<Rightarrow> iobuf \<Rightarrow> nat \<Rightarrow> u32 \<Rightarrow> bool \<Rightarrow> (mem \<times> iobuf \<times> u32 \<times> int) outcome" where
  "iobuf_move m iob data len m2b =
     (let alen = (if io_resid iob > len then len else io_resid iob) in
      if 0 < alen then
        let src = (if m2b then data else io_base iob);
            dst = (if m2b then io_base iob else data)
        in bind_outcome (iobuf_skip iob alen) (\<lambda>iob'.
             Ret (memmove m dst src (unat alen), iob', alen, if len - alen = 0 then 0 else - E_NO_MEM))
      else Ret (m, iob, alen, if len = 0 then 0 else - E_NO_MEM))"

definition iobuf_move_zeros :: "mem \<Rightarrow> iobuf \<Rightarrow> u32 \<Rightarrow> (mem \<times> iobuf \<times> u32 \<times> int) outcome" where
  "iobuf_move_zeros m iob len =
     (let alen = (if io_resid iob > len then len else io_resid iob) in
      if 0 < alen then
        bind_outcome (iobuf_skip iob alen) (\<lambda>iob'.
          Ret (memset m (io_base iob) 0 (unat alen), iob', alen, if len - alen = 0 then 0 else - E_NO_MEM))
      else Ret (m, iob, alen, if len = 0 then 0 else - E_NO_MEM))"

subsection \<open>Inodes and open files\<close>

datatype inode_type = inode_type_device_info | inode_type_sfs_inode_info

record inode =
  in_type :: inode_type
  ref_count :: int
  inode_opens :: int
  in_fs :: "nat option"
  in_ops :: "nat option"

record stat =
  st_mode :: u32
  st_nlinks :: u32
  st_blocks :: u32
  st_size :: u32

datatype file_status = FD_NONE | FD_INIT | FD_OPENED | FD_CLOSED

record struct_file =
  status :: file_status
  readable :: bool
  writable :: bool
  fd :: int
  pos :: u32
  node :: "nat option"
  open_count :: int

record files_struct =
  pwd :: "nat option"
  fd_array :: "nat \<Rightarrow> struct_file"
  files_count :: int
  files_sem :: int

text \<open>An entry of the device table, without its link.\<close>

record vfs_dev =
  devname :: nat
  devnode :: "nat option"
  vdev_fs :: "nat option"
  mountable :: bool

text \<open>
  The state of the virtual file system and of what lies below it (\<open>priv\<close>). \<open>cur_files\<close> is
  \<open>current->filesp\<close>; \<open>None\<close> in \<open>vdev_links\<close> is the head \<open>vdev_list\<close>.
\<close>

record 's vfs_state =
  inodes :: "nat \<Rightarrow> inode"
  files :: "nat \<Rightarrow> files_struct"
  cur_files :: "nat option"
  kmem :: mem
  bootfs_node :: "nat option"
  bootfs_sem :: int
  vdev_links :: "nat option links"
  vdevs :: "nat \<Rightarrow> vfs_dev"
  vdev_list_sem :: int
  priv :: 's

abbreviation upd_inode :: "nat \<Rightarrow> (inode \<Rightarrow> inode) \<Rightarrow> 's vfs_state \<Rightarrow> 's vfs_state" where
  "upd_inode n f s \<equiv> s\<lparr>inodes := (inodes s)(n := f (inodes s n))\<rparr>"

abbreviation upd_files :: "nat \<Rightarrow> (files_struct \<Rightarrow> files_struct) \<Rightarrow> 's vfs_state \<Rightarrow> 's vfs_state" where
  "upd_files p f s \<equiv> s\<lparr>files := (files s)(p := f (files s p))\<rparr>"

text \<open>The function tables.\<close>

record 's inode_ops =
  vop_magic :: u32
  op_open :: "('s vfs_state \<Rightarrow> nat \<Rightarrow> u32 \<Rightarrow> ('s vfs_state \<times> int) outcome) option"
  op_close :: "('s vfs_state \<Rightarrow> nat \<Rightarrow> ('s vfs_state \<times> int) outcome) option"
  op_read :: "('s vfs_state \<Rightarrow> nat \<Rightarrow> iobuf \<Rightarrow> ('s vfs_state \<times> iobuf \<times> int) outcome) option"
  op_write :: "('s vfs_state \<Rightarrow> nat \<Rightarrow> iobuf \<Rightarrow> ('s vfs_state \<times> iobuf \<times> int) outcome) option"
  op_fstat :: "('s vfs_state \<Rightarrow> nat \<Rightarrow> ('s vfs_state \<times> stat \<times> int) outcome) option"
  op_fsync :: "('s vfs_state \<Rightarrow> nat \<Rightarrow> ('s vfs_state \<times> int) outcome) option"
  op_namefile :: "('s vfs_state \<Rightarrow> nat \<Rightarrow> iobuf \<Rightarrow> ('s vfs_state \<times> iobuf \<times> int) outcome) option"
  op_getdirentry :: "('s vfs_state \<Rightarrow> nat \<Rightarrow> iobuf \<Rightarrow> ('s vfs_state \<times> iobuf \<times> int) outcome) option"
  op_reclaim :: "('s vfs_state \<Rightarrow> nat \<Rightarrow> ('s vfs_state \<times> int) outcome) option"
  op_gettype :: "('s vfs_state \<Rightarrow> nat \<Rightarrow> ('s vfs_state \<times> u32 \<times> int) outcome) option"
  op_tryseek :: "('s vfs_state \<Rightarrow> nat \<Rightarrow> u32 \<Rightarrow> ('s vfs_state \<times> int) outcome) option"
  op_truncate :: "('s vfs_state \<Rightarrow> nat \<Rightarrow> u32 \<Rightarrow> ('s vfs_state \<times> int) outcome) option"
  op_create :: "('s vfs_state \<Rightarrow> nat \<Rightarrow> nat \<Rightarrow> bool \<Rightarrow> ('s vfs_state \<times> nat option \<times> int) outcome) option"
  op_lookup :: "('s vfs_state \<Rightarrow> nat \<Rightarrow> nat \<Rightarrow> ('s vfs_state \<times> nat option \<times> int) outcome) option"
  op_ioctl :: "('s vfs_state \<Rightarrow> nat \<Rightarrow> int \<Rightarrow> nat \<Rightarrow> ('s vfs_state \<times> int) outcome) option"

record 's fs_ops =
  fs_sync :: "'s vfs_state \<Rightarrow> nat \<Rightarrow> ('s vfs_state \<times> int) outcome"
  fs_get_root :: "'s vfs_state \<Rightarrow> nat \<Rightarrow> ('s vfs_state \<times> nat option) outcome"
  fs_unmount :: "'s vfs_state \<Rightarrow> nat \<Rightarrow> ('s vfs_state \<times> int) outcome"
  fs_cleanup :: "'s vfs_state \<Rightarrow> nat \<Rightarrow> 's vfs_state outcome"

text \<open>What the tables \<open>in_ops\<close> points to and the operations of the mounted file systems are.\<close>

record 's vfs_env =
  ops_at :: "nat \<Rightarrow> 's inode_ops"
  fs_at :: "nat \<Rightarrow> 's fs_ops"

subsection \<open>Calls through a table (inode.h)\<close>

definition VOP_MAGIC :: u32 where "VOP_MAGIC = 0x8c4ba476"
definition MAX_INODE_COUNT :: int where "MAX_INODE_COUNT = 0x10000"

definition inode_check :: "'s vfs_env \<Rightarrow> 's vfs_state \<Rightarrow> nat \<Rightarrow> bool" where
  "inode_check e s n \<longleftrightarrow>
     (case in_ops (inodes s n) of None \<Rightarrow> False | Some k \<Rightarrow> vop_magic (ops_at e k) = VOP_MAGIC) \<and>
     ref_count (inodes s n) \<ge> inode_opens (inodes s n) \<and> inode_opens (inodes s n) \<ge> 0 \<and>
     ref_count (inodes s n) < MAX_INODE_COUNT \<and> inode_opens (inodes s n) < MAX_INODE_COUNT"

definition vop_op :: "('s inode_ops \<Rightarrow> 'f option) \<Rightarrow> 's vfs_env \<Rightarrow> 's vfs_state \<Rightarrow> nat \<Rightarrow> 'f outcome" where
  "vop_op sel e s n =
     (case in_ops (inodes s n) of
        None \<Rightarrow> Panic
      | Some k \<Rightarrow> (case sel (ops_at e k) of None \<Rightarrow> Panic | Some f \<Rightarrow> assert_then (inode_check e s n) (Ret f)))"

definition vop_open :: "'s vfs_env \<Rightarrow> 's vfs_state \<Rightarrow> nat \<Rightarrow> u32 \<Rightarrow> ('s vfs_state \<times> int) outcome" where
  "vop_open e s n open_flags = bind_outcome (vop_op op_open e s n) (\<lambda>f. f s n open_flags)"

definition vop_close :: "'s vfs_env \<Rightarrow> 's vfs_state \<Rightarrow> nat \<Rightarrow> ('s vfs_state \<times> int) outcome" where
  "vop_close e s n = bind_outcome (vop_op op_close e s n) (\<lambda>f. f s n)"

definition vop_read :: "'s vfs_env \<Rightarrow> 's vfs_state \<Rightarrow> nat \<Rightarrow> iobuf \<Rightarrow> ('s vfs_state \<times> iobuf \<times> int) outcome" where
  "vop_read e s n iob = bind_outcome (vop_op op_read e s n) (\<lambda>f. f s n iob)"

definition vop_write :: "'s vfs_env \<Rightarrow> 's vfs_state \<Rightarrow> nat \<Rightarrow> iobuf \<Rightarrow> ('s vfs_state \<times> iobuf \<times> int) outcome" where
  "vop_write e s n iob = bind_outcome (vop_op op_write e s n) (\<lambda>f. f s n iob)"

definition vop_fstat :: "'s vfs_env \<Rightarrow> 's vfs_state \<Rightarrow> nat \<Rightarrow> ('s vfs_state \<times> stat \<times> int) outcome" where
  "vop_fstat e s n = bind_outcome (vop_op op_fstat e s n) (\<lambda>f. f s n)"

definition vop_fsync :: "'s vfs_env \<Rightarrow> 's vfs_state \<Rightarrow> nat \<Rightarrow> ('s vfs_state \<times> int) outcome" where
  "vop_fsync e s n = bind_outcome (vop_op op_fsync e s n) (\<lambda>f. f s n)"

definition vop_namefile :: "'s vfs_env \<Rightarrow> 's vfs_state \<Rightarrow> nat \<Rightarrow> iobuf \<Rightarrow> ('s vfs_state \<times> iobuf \<times> int) outcome" where
  "vop_namefile e s n iob = bind_outcome (vop_op op_namefile e s n) (\<lambda>f. f s n iob)"

definition vop_getdirentry :: "'s vfs_env \<Rightarrow> 's vfs_state \<Rightarrow> nat \<Rightarrow> iobuf \<Rightarrow> ('s vfs_state \<times> iobuf \<times> int) outcome" where
  "vop_getdirentry e s n iob = bind_outcome (vop_op op_getdirentry e s n) (\<lambda>f. f s n iob)"

definition vop_reclaim :: "'s vfs_env \<Rightarrow> 's vfs_state \<Rightarrow> nat \<Rightarrow> ('s vfs_state \<times> int) outcome" where
  "vop_reclaim e s n = bind_outcome (vop_op op_reclaim e s n) (\<lambda>f. f s n)"

definition vop_gettype :: "'s vfs_env \<Rightarrow> 's vfs_state \<Rightarrow> nat \<Rightarrow> ('s vfs_state \<times> u32 \<times> int) outcome" where
  "vop_gettype e s n = bind_outcome (vop_op op_gettype e s n) (\<lambda>f. f s n)"

definition vop_tryseek :: "'s vfs_env \<Rightarrow> 's vfs_state \<Rightarrow> nat \<Rightarrow> u32 \<Rightarrow> ('s vfs_state \<times> int) outcome" where
  "vop_tryseek e s n p = bind_outcome (vop_op op_tryseek e s n) (\<lambda>f. f s n p)"

definition vop_truncate :: "'s vfs_env \<Rightarrow> 's vfs_state \<Rightarrow> nat \<Rightarrow> u32 \<Rightarrow> ('s vfs_state \<times> int) outcome" where
  "vop_truncate e s n len = bind_outcome (vop_op op_truncate e s n) (\<lambda>f. f s n len)"

definition vop_create :: "'s vfs_env \<Rightarrow> 's vfs_state \<Rightarrow> nat \<Rightarrow> nat \<Rightarrow> bool \<Rightarrow> ('s vfs_state \<times> nat option \<times> int) outcome" where
  "vop_create e s n name excl = bind_outcome (vop_op op_create e s n) (\<lambda>f. f s n name excl)"

definition vop_lookup :: "'s vfs_env \<Rightarrow> 's vfs_state \<Rightarrow> nat \<Rightarrow> nat \<Rightarrow> ('s vfs_state \<times> nat option \<times> int) outcome" where
  "vop_lookup e s n path = bind_outcome (vop_op op_lookup e s n) (\<lambda>f. f s n path)"

subsection \<open>Counts (inode.c)\<close>

definition inode_ref_inc :: "'s vfs_state \<Rightarrow> nat \<Rightarrow> 's vfs_state" where
  "inode_ref_inc s n = upd_inode n (ref_count_update (\<lambda>c. c + 1)) s"

definition inode_ref_dec :: "'s vfs_env \<Rightarrow> 's vfs_state \<Rightarrow> nat \<Rightarrow> ('s vfs_state \<times> int) outcome" where
  "inode_ref_dec e s n =
     assert_then (ref_count (inodes s n) > 0)
       (let s1 = upd_inode n (ref_count_update (\<lambda>c. c - 1)) s;
            c = ref_count (inodes s1 n)
        in if c = 0 then bind_outcome (vop_reclaim e s1 n) (\<lambda>(s2, _). Ret (s2, c))
           else Ret (s1, c))"

definition inode_open_inc :: "'s vfs_state \<Rightarrow> nat \<Rightarrow> 's vfs_state" where
  "inode_open_inc s n = upd_inode n (inode_opens_update (\<lambda>c. c + 1)) s"

definition inode_open_dec :: "'s vfs_env \<Rightarrow> 's vfs_state \<Rightarrow> nat \<Rightarrow> ('s vfs_state \<times> int) outcome" where
  "inode_open_dec e s n =
     assert_then (inode_opens (inodes s n) > 0)
       (let s1 = upd_inode n (inode_opens_update (\<lambda>c. c - 1)) s;
            c = inode_opens (inodes s1 n)
        in if c = 0 then bind_outcome (vop_close e s1 n) (\<lambda>(s2, _). Ret (s2, c))
           else Ret (s1, c))"

text \<open>The number of the block \<open>kmalloc\<close> returns is an argument, \<open>None\<close> when it fails.\<close>

definition alloc_inode :: "nat option \<Rightarrow> 's vfs_state \<Rightarrow> inode_type \<Rightarrow> 's vfs_state \<times> nat option" where
  "alloc_inode blk s ty =
     (case blk of None \<Rightarrow> (s, None) | Some n \<Rightarrow> (upd_inode n (in_type_update (\<lambda>_. ty)) s, Some n))"

definition inode_init :: "'s vfs_state \<Rightarrow> nat \<Rightarrow> nat \<Rightarrow> nat option \<Rightarrow> 's vfs_state" where
  "inode_init s n ops fs =
     inode_ref_inc (upd_inode n (\<lambda>x. x\<lparr>ref_count := 0, inode_opens := 0, in_ops := Some ops, in_fs := fs\<rparr>) s) n"

definition inode_kill :: "'s vfs_state \<Rightarrow> nat \<Rightarrow> 's vfs_state outcome" where
  "inode_kill s n =
     assert_then (ref_count (inodes s n) = 0) (assert_then (inode_opens (inodes s n) = 0) (Ret s))"

subsection \<open>Lemmas on buffers\<close>

lemma iobuf_used_init [simp]: "iobuf_used (iobuf_init b len off) = 0"
  by (simp add: iobuf_used_def iobuf_init_def)

text \<open>A move transfers as many bytes as both sides allow and never fails its assertion.\<close>

lemma iobuf_move_spec:
  assumes "alen = min (io_resid iob) len"
  shows "iobuf_move m iob data len m2b =
     Ret (if m2b then block_copy m (io_base iob) data (unat alen) else block_copy m data (io_base iob) (unat alen),
          iob\<lparr>io_base := io_base iob + unat alen, io_offset := io_offset iob + alen, io_resid := io_resid iob - alen\<rparr>,
          alen, if len \<le> io_resid iob then 0 else - E_NO_MEM)"
proof (cases "0 < alen")
  case True
  have "len - alen = 0 \<longleftrightarrow> len \<le> io_resid iob" using assms by (auto simp: min_def)
  then show ?thesis
    using True assms by (auto simp: iobuf_move_def iobuf_skip_def memmove_block min_def Let_def not_less not_le)
next
  case False
  then have "alen = 0" by (simp add: word_gt_0)
  moreover from this have "io_resid iob = 0 \<or> len = 0" using assms by (auto simp: min_def split: if_splits)
  ultimately show ?thesis using assms by (auto simp: iobuf_move_def Let_def min_def word_gt_0 split: if_splits)
qed

lemma memset_spec: "memset m p c n q = (if p \<le> q \<and> q < p + n then c else m q)"
  by (induction n arbitrary: m p) auto

lemma iobuf_move_zeros_spec:
  assumes "alen = min (io_resid iob) len"
  shows "iobuf_move_zeros m iob len =
     Ret (memset m (io_base iob) 0 (unat alen),
          iob\<lparr>io_base := io_base iob + unat alen, io_offset := io_offset iob + alen, io_resid := io_resid iob - alen\<rparr>,
          alen, if len \<le> io_resid iob then 0 else - E_NO_MEM)"
proof (cases "0 < alen")
  case True
  have "len - alen = 0 \<longleftrightarrow> len \<le> io_resid iob" using assms by (auto simp: min_def)
  then show ?thesis
    using True assms by (auto simp: iobuf_move_zeros_def iobuf_skip_def min_def Let_def not_less not_le)
next
  case False
  then have "alen = 0" by (simp add: word_gt_0)
  moreover from this have "io_resid iob = 0 \<or> len = 0" using assms by (auto simp: min_def split: if_splits)
  ultimately show ?thesis using assms by (auto simp: iobuf_move_zeros_def Let_def min_def word_gt_0 split: if_splits)
qed

end
