(* ===== verification/Vfs.thy ===== *)
theory Vfs
  imports Inode
begin

text \<open>
  The file-system independent layer: the device table of \<^verbatim>\<open>kern/fs/vfs/vfsdev.c\<close>, the boot file
  system of \<^verbatim>\<open>vfs.c\<close>, the working directory of \<^verbatim>\<open>vfspath.c\<close>, path resolution of \<^verbatim>\<open>vfslookup.c\<close>
  and opening and closing of inodes of \<^verbatim>\<open>vfsfile.c\<close>. Results that C stores through a pointer
  are components of the returned tuple; \<open>None\<close> is a pointer that was not stored.
\<close>

subsection \<open>Locks and strings\<close>

definition lock_count :: "int \<Rightarrow> int outcome" where
  "lock_count c = (if 0 < c then Ret (c - 1) else Panic)"

definition strdup :: "nat option \<Rightarrow> mem \<Rightarrow> nat \<Rightarrow> (mem \<times> nat option) option" where
  "strdup blk m src =
     (case strlen m src of
        None \<Rightarrow> None
      | Some len \<Rightarrow>
          (case blk of
             None \<Rightarrow> Some (m, None)
           | Some dst \<Rightarrow> Some ((memcpy m dst src len)(dst + len := 0), Some dst)))"

subsection \<open>The device table (vfsdev.c)\<close>

definition lock_vdev_list :: "'s vfs_state \<Rightarrow> 's vfs_state outcome" where
  "lock_vdev_list s = bind_outcome (lock_count (vdev_list_sem s)) (\<lambda>c. Ret (s\<lparr>vdev_list_sem := c\<rparr>))"

definition unlock_vdev_list :: "'s vfs_state \<Rightarrow> 's vfs_state" where
  "unlock_vdev_list s = s\<lparr>vdev_list_sem := vdev_list_sem s + 1\<rparr>"

definition vfs_devlist_init :: "'s vfs_state \<Rightarrow> 's vfs_state" where
  "vfs_devlist_init s = s\<lparr>vdev_links := list_init (vdev_links s) None, vdev_list_sem := 1\<rparr>"

text \<open>The search that the routines of vfsdev.c share; a test that does not end is \<open>None\<close>.\<close>

partial_function (option) vdev_scan :: "(nat \<Rightarrow> bool option) \<Rightarrow> 's vfs_state \<Rightarrow> nat option \<Rightarrow> nat option option" where
  "vdev_scan test s le =
     (case list_next (vdev_links s) le of
        None \<Rightarrow> Some None
      | Some v \<Rightarrow>
          (case test v of
             None \<Rightarrow> None
           | Some b \<Rightarrow> if b then Some (Some v) else vdev_scan test s (Some v)))"

definition name_test :: "'s vfs_state \<Rightarrow> nat \<Rightarrow> nat \<Rightarrow> bool option" where
  "name_test s name v = map_option (\<lambda>r. r = 0) (strcmp (kmem s) name (devname (vdevs s v)))"

definition vfs_get_root :: "'s vfs_env \<Rightarrow> 's vfs_state \<Rightarrow> nat \<Rightarrow> ('s vfs_state \<times> nat option \<times> int) outcome" where
  "vfs_get_root e s name =
     (if list_empty (vdev_links s) None then Ret (s, None, - E_NO_DEV)
      else bind_outcome (lock_vdev_list s) (\<lambda>s1.
        bind_outcome (of_option (vdev_scan (name_test s1 name) s1 None)) (\<lambda>r.
          case r of
            None \<Rightarrow> Ret (unlock_vdev_list s1, None, - E_NO_DEV)
          | Some v \<Rightarrow>
              bind_outcome
                (case vdev_fs (vdevs s1 v) of
                   Some fs \<Rightarrow> fs_get_root (fs_at e fs) s1 fs
                 | None \<Rightarrow>
                     if \<not> mountable (vdevs s1 v) then
                       (case devnode (vdevs s1 v) of None \<Rightarrow> Panic | Some n \<Rightarrow> Ret (inode_ref_inc s1 n, Some n))
                     else Ret (s1, None))
                (\<lambda>(s2, found).
                   Ret (unlock_vdev_list s2, found, if found = None then - E_NA_DEV else 0)))))"

definition vfs_get_devname :: "'s vfs_state \<Rightarrow> nat \<Rightarrow> nat option option" where
  "vfs_get_devname s fs =
     map_option (map_option (\<lambda>v. devname (vdevs s v)))
       (vdev_scan (\<lambda>v. Some (vdev_fs (vdevs s v) = Some fs)) s None)"

definition check_devname_conflict :: "'s vfs_state \<Rightarrow> nat \<Rightarrow> bool option" where
  "check_devname_conflict s name =
     map_option (\<lambda>r. r = None)
       (vdev_scan (\<lambda>v. map_option (\<lambda>r. r = 0) (strcmp (kmem s) (devname (vdevs s v)) name)) s None)"

definition FS_MAX_DNAME_LEN :: nat where "FS_MAX_DNAME_LEN = 31"

text \<open>\<open>name_blk\<close> and \<open>vdev_blk\<close> are the results of the two calls of \<open>kmalloc\<close>.\<close>

definition vfs_do_add :: "nat option \<Rightarrow> nat option \<Rightarrow> 's vfs_state \<Rightarrow> nat \<Rightarrow> nat option \<Rightarrow> nat option \<Rightarrow> bool \<Rightarrow> ('s vfs_state \<times> int) outcome" where
  "vfs_do_add name_blk vdev_blk s name dnode fs mt =
     assert_then (dnode = None \<and> \<not> mt \<or> (\<exists>n. dnode = Some n \<and> in_type (inodes s n) = inode_type_device_info))
       (bind_outcome (of_option (strlen (kmem s) name)) (\<lambda>len.
          if len > FS_MAX_DNAME_LEN then Ret (s, - E_TOO_BIG)
          else bind_outcome (of_option (strdup name_blk (kmem s) name)) (\<lambda>(m, r).
            let s1 = s\<lparr>kmem := m\<rparr> in
            case r of
              None \<Rightarrow> Ret (s1, - E_NO_MEM)
            | Some s_devname \<Rightarrow>
                (case vdev_blk of
                   None \<Rightarrow> Ret (s1, - E_NO_MEM)
                 | Some v \<Rightarrow>
                     bind_outcome (lock_vdev_list s1) (\<lambda>s2.
                     bind_outcome (of_option (check_devname_conflict s2 s_devname)) (\<lambda>free.
                       if \<not> free then Ret (unlock_vdev_list s2, - E_EXISTS)
                       else
                         let s3 = s2\<lparr>vdevs := (vdevs s2)(v := \<lparr>devname = s_devname, devnode = dnode, vdev_fs = fs, mountable = mt\<rparr>),
                                    vdev_links := list_add (vdev_links s2) None (Some v)\<rparr>
                         in Ret (unlock_vdev_list s3, 0)))))))"

definition vfs_add_fs :: "nat option \<Rightarrow> nat option \<Rightarrow> 's vfs_state \<Rightarrow> nat \<Rightarrow> nat \<Rightarrow> ('s vfs_state \<times> int) outcome" where
  "vfs_add_fs name_blk vdev_blk s name fs = vfs_do_add name_blk vdev_blk s name None (Some fs) False"

definition vfs_add_dev :: "nat option \<Rightarrow> nat option \<Rightarrow> 's vfs_state \<Rightarrow> nat \<Rightarrow> nat \<Rightarrow> bool \<Rightarrow> ('s vfs_state \<times> int) outcome" where
  "vfs_add_dev name_blk vdev_blk s name dnode mt = vfs_do_add name_blk vdev_blk s name (Some dnode) None mt"

definition find_mount :: "'s vfs_state \<Rightarrow> nat \<Rightarrow> nat option option" where
  "find_mount s name =
     vdev_scan (\<lambda>v. if mountable (vdevs s v) then map_option (\<lambda>r. r = 0) (strcmp (kmem s) (devname (vdevs s v)) name)
                    else Some False) s None"

abbreviation set_vdev_fs :: "nat \<Rightarrow> nat option \<Rightarrow> 's vfs_state \<Rightarrow> 's vfs_state" where
  "set_vdev_fs v fs s \<equiv> s\<lparr>vdevs := (vdevs s)(v := (vdevs s v)\<lparr>vdev_fs := fs\<rparr>)\<rparr>"

definition vfs_mount :: "('s vfs_state \<Rightarrow> nat \<Rightarrow> ('s vfs_state \<times> nat option \<times> int) outcome) \<Rightarrow> 's vfs_state \<Rightarrow> nat \<Rightarrow> ('s vfs_state \<times> int) outcome" where
  "vfs_mount mountfunc s name =
     bind_outcome (lock_vdev_list s) (\<lambda>s1.
     bind_outcome (of_option (find_mount s1 name)) (\<lambda>r.
       case r of
         None \<Rightarrow> Ret (unlock_vdev_list s1, - E_NO_DEV)
       | Some v \<Rightarrow>
           if vdev_fs (vdevs s1 v) \<noteq> None then Ret (unlock_vdev_list s1, - E_BUSY)
           else
             (case devnode (vdevs s1 v) of
                None \<Rightarrow> Panic
              | Some n \<Rightarrow>
                  assert_then (in_type (inodes s1 n) = inode_type_device_info)
                    (bind_outcome (mountfunc s1 n) (\<lambda>(s2, fs, ret).
                       let s3 = (if fs = None then s2 else set_vdev_fs v fs s2) in
                       assert_then (ret = 0 \<longrightarrow> vdev_fs (vdevs s3 v) \<noteq> None) (Ret (unlock_vdev_list s3, ret)))))))"

definition vfs_unmount :: "'s vfs_env \<Rightarrow> 's vfs_state \<Rightarrow> nat \<Rightarrow> ('s vfs_state \<times> int) outcome" where
  "vfs_unmount e s name =
     bind_outcome (lock_vdev_list s) (\<lambda>s1.
     bind_outcome (of_option (find_mount s1 name)) (\<lambda>r.
       case r of
         None \<Rightarrow> Ret (unlock_vdev_list s1, - E_NO_DEV)
       | Some v \<Rightarrow>
           (case vdev_fs (vdevs s1 v) of
              None \<Rightarrow> Ret (unlock_vdev_list s1, - E_INVAL)
            | Some fs \<Rightarrow>
                bind_outcome (fs_sync (fs_at e fs) s1 fs) (\<lambda>(s2, ret).
                  if ret \<noteq> 0 then Ret (unlock_vdev_list s2, ret)
                  else bind_outcome (fs_unmount (fs_at e fs) s2 fs) (\<lambda>(s3, ret).
                    Ret (unlock_vdev_list (if ret = 0 then set_vdev_fs v None s3 else s3), ret))))))"

text \<open>The loops of \<open>vfs_unmount_all\<close> and \<open>vfs_cleanup\<close>: a body for every entry of the table.\<close>

definition unmount_entry :: "'s vfs_env \<Rightarrow> 's vfs_state \<Rightarrow> nat \<Rightarrow> 's vfs_state outcome" where
  "unmount_entry e s v =
     (case vdev_fs (vdevs s v) of
        None \<Rightarrow> Ret s
      | Some fs \<Rightarrow>
          if \<not> mountable (vdevs s v) then Ret s
          else bind_outcome (fs_sync (fs_at e fs) s fs) (\<lambda>(s1, ret).
            if ret \<noteq> 0 then Ret s1
            else bind_outcome (fs_unmount (fs_at e fs) s1 fs) (\<lambda>(s2, ret).
              Ret (if ret \<noteq> 0 then s2 else set_vdev_fs v None s2))))"

definition cleanup_entry :: "'s vfs_env \<Rightarrow> 's vfs_state \<Rightarrow> nat \<Rightarrow> 's vfs_state outcome" where
  "cleanup_entry e s v =
     (case vdev_fs (vdevs s v) of None \<Rightarrow> Ret s | Some fs \<Rightarrow> fs_cleanup (fs_at e fs) s fs)"

partial_function (option) vdev_each :: "('s vfs_state \<Rightarrow> nat \<Rightarrow> 's vfs_state outcome) \<Rightarrow> 's vfs_state \<Rightarrow> nat option \<Rightarrow> 's vfs_state outcome option" where
  "vdev_each body s le =
     (case list_next (vdev_links s) le of
        None \<Rightarrow> Some (Ret s)
      | Some v \<Rightarrow> (case body s v of Panic \<Rightarrow> Some Panic | Ret s1 \<Rightarrow> vdev_each body s1 (Some v)))"

definition vdev_all :: "('s vfs_state \<Rightarrow> nat \<Rightarrow> 's vfs_state outcome) \<Rightarrow> 's vfs_state \<Rightarrow> 's vfs_state outcome" where
  "vdev_all body s =
     (if list_empty (vdev_links s) None then Ret s
      else bind_outcome (lock_vdev_list s) (\<lambda>s1.
        bind_outcome (case vdev_each body s1 None of None \<Rightarrow> Panic | Some r \<Rightarrow> r) (\<lambda>s2. Ret (unlock_vdev_list s2))))"

definition vfs_unmount_all :: "'s vfs_env \<Rightarrow> 's vfs_state \<Rightarrow> ('s vfs_state \<times> int) outcome" where
  "vfs_unmount_all e s = bind_outcome (vdev_all (unmount_entry e) s) (\<lambda>s'. Ret (s', 0))"

definition vfs_cleanup :: "'s vfs_env \<Rightarrow> 's vfs_state \<Rightarrow> 's vfs_state outcome" where
  "vfs_cleanup e s = vdev_all (cleanup_entry e) s"

subsection \<open>The working directory (vfspath.c)\<close>

definition S_IFMT :: u32 where "S_IFMT = 0x7000"
definition S_IFREG :: u32 where "S_IFREG = 0x1000"
definition S_IFDIR :: u32 where "S_IFDIR = 0x2000"
definition S_IFLNK :: u32 where "S_IFLNK = 0x3000"
definition S_IFCHR :: u32 where "S_IFCHR = 0x4000"
definition S_IFBLK :: u32 where "S_IFBLK = 0x5000"

definition S_ISDIR :: "u32 \<Rightarrow> bool" where "S_ISDIR mode \<longleftrightarrow> mode AND S_IFMT = S_IFDIR"

definition lock_files :: "'s vfs_state \<Rightarrow> nat \<Rightarrow> 's vfs_state outcome" where
  "lock_files s p = bind_outcome (lock_count (files_sem (files s p))) (\<lambda>c. Ret (upd_files p (files_sem_update (\<lambda>_. c)) s))"

definition unlock_files :: "'s vfs_state \<Rightarrow> nat \<Rightarrow> 's vfs_state" where
  "unlock_files s p = upd_files p (files_sem_update (\<lambda>c. c + 1)) s"

definition vfs_get_curdir :: "'s vfs_state \<Rightarrow> ('s vfs_state \<times> nat option \<times> int) outcome" where
  "vfs_get_curdir s =
     (case cur_files s of
        None \<Rightarrow> Panic
      | Some p \<Rightarrow>
          (case pwd (files s p) of
             None \<Rightarrow> Ret (s, None, - E_NOENT)
           | Some n \<Rightarrow> Ret (inode_ref_inc s n, Some n, 0)))"

definition vfs_set_curdir :: "'s vfs_env \<Rightarrow> 's vfs_state \<Rightarrow> nat option \<Rightarrow> ('s vfs_state \<times> int) outcome" where
  "vfs_set_curdir e s dir =
     (case cur_files s of
        None \<Rightarrow> Panic
      | Some p \<Rightarrow>
          bind_outcome (lock_files s p) (\<lambda>s1.
            let old_dir = pwd (files s1 p) in
            if old_dir = dir then Ret (unlock_files s1 p, 0)
            else bind_outcome
              (case dir of
                 None \<Rightarrow> Ret (s1, 0)
               | Some n \<Rightarrow>
                   bind_outcome (vop_gettype e s1 n) (\<lambda>(s2, ty, ret).
                     if ret \<noteq> 0 then Ret (s2, ret)
                     else if \<not> S_ISDIR ty then Ret (s2, - E_NOTDIR)
                     else Ret (inode_ref_inc s2 n, 0)))
              (\<lambda>(s3, ret).
                 if ret \<noteq> 0 then Ret (unlock_files s3 p, ret)
                 else
                   let s4 = upd_files p (pwd_update (\<lambda>_. dir)) s3 in
                   (case old_dir of
                      None \<Rightarrow> Ret (unlock_files s4 p, 0)
                    | Some old \<Rightarrow> bind_outcome (inode_ref_dec e s4 old) (\<lambda>(s5, _). Ret (unlock_files s5 p, 0))))))"

subsection \<open>The boot file system (vfs.c)\<close>

definition lock_bootfs :: "'s vfs_state \<Rightarrow> 's vfs_state outcome" where
  "lock_bootfs s = bind_outcome (lock_count (bootfs_sem s)) (\<lambda>c. Ret (s\<lparr>bootfs_sem := c\<rparr>))"

definition unlock_bootfs :: "'s vfs_state \<Rightarrow> 's vfs_state" where
  "unlock_bootfs s = s\<lparr>bootfs_sem := bootfs_sem s + 1\<rparr>"

definition vfs_init :: "'s vfs_state \<Rightarrow> 's vfs_state" where
  "vfs_init s = vfs_devlist_init (s\<lparr>bootfs_sem := 1\<rparr>)"

definition change_bootfs :: "'s vfs_env \<Rightarrow> 's vfs_state \<Rightarrow> nat option \<Rightarrow> 's vfs_state outcome" where
  "change_bootfs e s n =
     bind_outcome (lock_bootfs s) (\<lambda>s1.
       let old = bootfs_node s1;
           s2 = unlock_bootfs (s1\<lparr>bootfs_node := n\<rparr>)
       in case old of
            None \<Rightarrow> Ret s2
          | Some k \<Rightarrow> bind_outcome (inode_ref_dec e s2 k) (\<lambda>(s3, _). Ret s3))"

definition vfs_get_bootfs :: "'s vfs_state \<Rightarrow> ('s vfs_state \<times> nat option \<times> int) outcome" where
  "vfs_get_bootfs s =
     (case bootfs_node s of
        None \<Rightarrow> Ret (s, None, - E_NOENT)
      | Some n \<Rightarrow> bind_outcome (lock_bootfs s) (\<lambda>s1. Ret (unlock_bootfs (inode_ref_inc s1 n), Some n, 0)))"

subsection \<open>Path resolution (vfslookup.c)\<close>

text \<open>The first loop of \<open>get_device\<close>: the index of the first colon or slash, or neither.\<close>

datatype separator = No_sep | Slash nat | Colon nat

partial_function (option) path_sep :: "mem \<Rightarrow> nat \<Rightarrow> nat \<Rightarrow> separator option" where
  "path_sep m path i =
     (if m (path + i) = 0 then Some No_sep
      else if m (path + i) = 58 then Some (Colon i)
      else if m (path + i) = 47 then Some (Slash i)
      else path_sep m path (i + 1))"

partial_function (option) skip_slashes :: "mem \<Rightarrow> nat \<Rightarrow> nat option" where
  "skip_slashes m p = (if m p = 47 then skip_slashes m (p + 1) else Some p)"

text \<open>The result is the rest of the path, the inode to start from and the code.\<close>

definition get_device :: "'s vfs_env \<Rightarrow> 's vfs_state \<Rightarrow> nat \<Rightarrow> ('s vfs_state \<times> nat \<times> nat option \<times> int) outcome" where
  "get_device e s path =
     bind_outcome (of_option (path_sep (kmem s) path 0)) (\<lambda>sep.
       if (case sep of No_sep \<Rightarrow> True | Slash i \<Rightarrow> i \<noteq> 0 | Colon i \<Rightarrow> False) then
         bind_outcome (vfs_get_curdir s) (\<lambda>(s1, n, ret). Ret (s1, path, n, ret))
       else
         (case sep of
            Colon (Suc i) \<Rightarrow>
              let s1 = s\<lparr>kmem := (kmem s)(path + Suc i := 0)\<rparr> in
              bind_outcome (of_option (skip_slashes (kmem s1) (path + Suc i + 1))) (\<lambda>subpath.
              bind_outcome (vfs_get_root e s1 path) (\<lambda>(s2, n, ret). Ret (s2, subpath, n, ret)))
          | _ \<Rightarrow>
              bind_outcome
                (if kmem s path = 47 then vfs_get_bootfs s
                 else assert_then (kmem s path = 58)
                   (bind_outcome (vfs_get_curdir s) (\<lambda>(s1, n, ret).
                      if ret \<noteq> 0 then Ret (s1, n, ret)
                      else case n of
                        None \<Rightarrow> Panic
                      | Some k \<Rightarrow>
                          (case in_fs (inodes s1 k) of
                             None \<Rightarrow> Panic
                           | Some fs \<Rightarrow>
                               bind_outcome (fs_get_root (fs_at e fs) s1 fs) (\<lambda>(s2, root).
                               bind_outcome (inode_ref_dec e s2 k) (\<lambda>(s3, _). Ret (s3, root, 0)))))))
                (\<lambda>(s4, n, ret).
                   if ret \<noteq> 0 then Ret (s4, path, n, ret)
                   else bind_outcome (of_option (skip_slashes (kmem s4) (path + 1))) (\<lambda>subpath. Ret (s4, subpath, n, 0)))))"

definition vfs_lookup :: "'s vfs_env \<Rightarrow> 's vfs_state \<Rightarrow> nat \<Rightarrow> ('s vfs_state \<times> nat option \<times> int) outcome" where
  "vfs_lookup e s path =
     bind_outcome (get_device e s path) (\<lambda>(s1, sub, n, ret).
       if ret \<noteq> 0 then Ret (s1, None, ret)
       else case n of
         None \<Rightarrow> Panic
       | Some k \<Rightarrow>
           if kmem s1 sub \<noteq> 0 then
             bind_outcome (vop_lookup e s1 k sub) (\<lambda>(s2, r, ret).
             bind_outcome (inode_ref_dec e s2 k) (\<lambda>(s3, _). Ret (s3, r, ret)))
           else Ret (s1, Some k, 0))"

definition vfs_lookup_parent :: "'s vfs_env \<Rightarrow> 's vfs_state \<Rightarrow> nat \<Rightarrow> ('s vfs_state \<times> nat option \<times> nat \<times> int) outcome" where
  "vfs_lookup_parent e s path = bind_outcome (get_device e s path) (\<lambda>(s1, sub, n, ret). Ret (s1, n, sub, ret))"

definition vfs_chdir :: "'s vfs_env \<Rightarrow> 's vfs_state \<Rightarrow> nat \<Rightarrow> ('s vfs_state \<times> int) outcome" where
  "vfs_chdir e s path =
     bind_outcome (vfs_lookup e s path) (\<lambda>(s1, n, ret).
       if ret \<noteq> 0 then Ret (s1, ret)
       else case n of
         None \<Rightarrow> Panic
       | Some k \<Rightarrow>
           bind_outcome (vfs_set_curdir e s1 (Some k)) (\<lambda>(s2, ret).
           bind_outcome (inode_ref_dec e s2 k) (\<lambda>(s3, _). Ret (s3, ret))))"

text \<open>\<open>colon\<close> is the address of the local variable that holds the colon.\<close>

definition vfs_getcwd :: "'s vfs_env \<Rightarrow> 's vfs_state \<Rightarrow> nat \<Rightarrow> iobuf \<Rightarrow> ('s vfs_state \<times> iobuf \<times> int) outcome" where
  "vfs_getcwd e s colon iob =
     bind_outcome (vfs_get_curdir s) (\<lambda>(s1, n, ret).
       if ret \<noteq> 0 then Ret (s1, iob, ret)
       else case n of None \<Rightarrow> Panic | Some k \<Rightarrow>
         (case in_fs (inodes s1 k) of
            None \<Rightarrow> Panic
          | Some fs \<Rightarrow>
              bind_outcome (of_option (vfs_get_devname s1 fs)) (\<lambda>dn.
                case dn of None \<Rightarrow> Panic | Some name \<Rightarrow>
                bind_outcome (of_option (strlen (kmem s1) name)) (\<lambda>len.
                bind_outcome (iobuf_move (kmem s1) iob name (of_nat len) True) (\<lambda>(m1, iob1, _, ret).
                  bind_outcome
                    (if ret \<noteq> 0 then Ret (s1\<lparr>kmem := m1\<rparr>, iob1, ret)
                     else bind_outcome (iobuf_move (m1(colon := 58)) iob1 colon 1 True) (\<lambda>(m2, iob2, _, ret).
                       if ret \<noteq> 0 then Ret (s1\<lparr>kmem := m2\<rparr>, iob2, ret)
                       else vop_namefile e (s1\<lparr>kmem := m2\<rparr>) k iob2))
                    (\<lambda>(s2, iob3, ret). bind_outcome (inode_ref_dec e s2 k) (\<lambda>(s3, _). Ret (s3, iob3, ret))))))))"

definition vfs_set_bootfs :: "'s vfs_env \<Rightarrow> 's vfs_state \<Rightarrow> nat option \<Rightarrow> ('s vfs_state \<times> int) outcome" where
  "vfs_set_bootfs e s fsname =
     (case fsname of
        None \<Rightarrow> bind_outcome (change_bootfs e s None) (\<lambda>s1. Ret (s1, 0))
      | Some name \<Rightarrow>
          bind_outcome (of_option (strchr (kmem s) name 58)) (\<lambda>r.
            if (case r of None \<Rightarrow> True | Some p \<Rightarrow> kmem s (p + 1) \<noteq> 0) then Ret (s, - E_INVAL)
            else bind_outcome (vfs_chdir e s name) (\<lambda>(s1, ret).
              if ret \<noteq> 0 then Ret (s1, ret)
              else bind_outcome (vfs_get_curdir s1) (\<lambda>(s2, n, ret).
                if ret \<noteq> 0 then Ret (s2, ret)
                else bind_outcome (change_bootfs e s2 n) (\<lambda>s3. Ret (s3, 0))))))"

subsection \<open>Opening and closing (vfsfile.c)\<close>

definition O_RDONLY :: u32 where "O_RDONLY = 0"
definition O_WRONLY :: u32 where "O_WRONLY = 1"
definition O_RDWR :: u32 where "O_RDWR = 2"
definition O_CREAT :: u32 where "O_CREAT = 0x4"
definition O_EXCL :: u32 where "O_EXCL = 0x8"
definition O_TRUNC :: u32 where "O_TRUNC = 0x10"
definition O_APPEND :: u32 where "O_APPEND = 0x20"
definition O_ACCMODE :: u32 where "O_ACCMODE = 3"

lemmas open_flag_defs = O_RDONLY_def O_WRONLY_def O_RDWR_def O_CREAT_def O_EXCL_def O_TRUNC_def O_APPEND_def O_ACCMODE_def

text \<open>
  An inode pointer that neither \<open>vfs_lookup\<close> nor \<open>vop_create\<close> stored is indeterminate; reading it
  is \<open>Panic\<close>. \<open>vfs_open_node\<close> is the part after the inode is known.
\<close>

definition vfs_open_node :: "'s vfs_env \<Rightarrow> 's vfs_state \<Rightarrow> nat \<Rightarrow> u32 \<Rightarrow> ('s vfs_state \<times> nat option \<times> int) outcome" where
  "vfs_open_node e s n open_flags =
     bind_outcome (vop_open e s n open_flags) (\<lambda>(s1, ret).
       if ret \<noteq> 0 then bind_outcome (inode_ref_dec e s1 n) (\<lambda>(s2, _). Ret (s2, None, ret))
       else
         let s2 = inode_open_inc s1 n in
         if open_flags AND O_TRUNC \<noteq> 0 \<or> open_flags AND O_CREAT \<noteq> 0 then
           bind_outcome (vop_truncate e s2 n 0) (\<lambda>(s3, ret).
             if ret \<noteq> 0 then
               bind_outcome (inode_open_dec e s3 n) (\<lambda>(s4, _).
               bind_outcome (inode_ref_dec e s4 n) (\<lambda>(s5, _). Ret (s5, None, ret)))
             else Ret (s3, Some n, 0))
         else Ret (s2, Some n, 0))"

definition vfs_open :: "'s vfs_env \<Rightarrow> 's vfs_state \<Rightarrow> nat \<Rightarrow> u32 \<Rightarrow> ('s vfs_state \<times> nat option \<times> int) outcome" where
  "vfs_open e s path open_flags =
     (let acc = open_flags AND O_ACCMODE;
          can_write = (acc = O_WRONLY \<or> acc = O_RDWR);
          excl = (open_flags AND O_EXCL \<noteq> 0);
          create = (open_flags AND O_CREAT \<noteq> 0)
      in if acc \<noteq> O_RDONLY \<and> acc \<noteq> O_WRONLY \<and> acc \<noteq> O_RDWR then Ret (s, None, - E_INVAL)
         else if open_flags AND O_TRUNC \<noteq> 0 \<and> \<not> can_write then Ret (s, None, - E_INVAL)
         else bind_outcome (vfs_lookup e s path) (\<lambda>(s1, n, ret).
           if ret \<noteq> 0 then
             if ret = - 16 \<and> create then
               bind_outcome (vfs_lookup_parent e s1 path) (\<lambda>(s2, dir, name, ret).
                 if ret \<noteq> 0 then Ret (s2, None, ret)
                 else case dir of
                   None \<Rightarrow> Panic
                 | Some d \<Rightarrow>
                     bind_outcome (vop_create e s2 d name excl) (\<lambda>(s3, n, _).
                       case n of None \<Rightarrow> Panic | Some k \<Rightarrow> vfs_open_node e s3 k open_flags))
             else Ret (s1, None, ret)
           else if excl \<and> create then Ret (s1, None, - E_EXISTS)
           else case n of None \<Rightarrow> Panic | Some k \<Rightarrow> vfs_open_node e s1 k open_flags))"

definition vfs_close :: "'s vfs_env \<Rightarrow> 's vfs_state \<Rightarrow> nat \<Rightarrow> ('s vfs_state \<times> int) outcome" where
  "vfs_close e s n =
     bind_outcome (inode_open_dec e s n) (\<lambda>(s1, _).
     bind_outcome (inode_ref_dec e s1 n) (\<lambda>(s2, _). Ret (s2, 0)))"

end
