(* ===== verification/Files.thy ===== *)
theory Files
  imports Vfs
begin

text \<open>
  Open files: the descriptor tables of \<^verbatim>\<open>kern/fs/file.c\<close> and their creation, duplication and
  destruction in \<^verbatim>\<open>kern/fs/fs.c\<close>. A \<open>struct file *\<close> is a pair of a table and an index. The
  layer below is reached only through \<open>vfs_open\<close>, \<open>vfs_close\<close> and the table of operations of
  an inode.
\<close>

type_synonym file_ptr = "nat \<times> nat"

definition file_at :: "'s vfs_state \<Rightarrow> file_ptr \<Rightarrow> struct_file" where
  "file_at s q = fd_array (files s (fst q)) (snd q)"

definition upd_file :: "file_ptr \<Rightarrow> (struct_file \<Rightarrow> struct_file) \<Rightarrow> 's vfs_state \<Rightarrow> 's vfs_state" where
  "upd_file q f s = upd_files (fst q) (fd_array_update (\<lambda>fa. fa(snd q := f (fa (snd q))))) s"

text \<open>\<open>sizeof(struct files_struct)\<close> is 24 and \<open>sizeof(struct file)\<close> is 28 on the 32-bit target.\<close>

definition FILES_STRUCT_NENTRY :: nat where "FILES_STRUCT_NENTRY = (4096 - 24) div 28"

definition NO_FD :: int where "NO_FD = - 0x9527"

definition testfd :: "int \<Rightarrow> bool" where
  "testfd d \<longleftrightarrow> 0 \<le> d \<and> d < int FILES_STRUCT_NENTRY"

definition get_fd_array :: "'s vfs_state \<Rightarrow> nat outcome" where
  "get_fd_array s =
     (case cur_files s of None \<Rightarrow> Panic | Some p \<Rightarrow> assert_then (files_count (files s p) > 0) (Ret p))"

definition fd_array_init :: "(nat \<Rightarrow> struct_file) \<Rightarrow> nat \<Rightarrow> struct_file" where
  "fd_array_init fa =
     fold (\<lambda>i fa. fa(i := (fa i)\<lparr>open_count := 0, status := FD_NONE, fd := int i\<rparr>)) [0 ..< FILES_STRUCT_NENTRY] fa"

definition fd_array_alloc :: "'s vfs_state \<Rightarrow> int \<Rightarrow> ('s vfs_state \<times> file_ptr option \<times> int) outcome" where
  "fd_array_alloc s d =
     bind_outcome (get_fd_array s) (\<lambda>p.
       let found = (\<lambda>i. assert_then (open_count (file_at s (p, i)) = 0)
                      (Ret (upd_file (p, i) (\<lambda>x. x\<lparr>status := FD_INIT, node := None\<rparr>) s, Some (p, i), 0)))
       in if d = NO_FD then
            (case find (\<lambda>i. status (file_at s (p, i)) = FD_NONE) [0 ..< FILES_STRUCT_NENTRY] of
               None \<Rightarrow> Ret (s, None, - E_MAX_OPEN)
             | Some i \<Rightarrow> found i)
          else if testfd d then
            if status (file_at s (p, nat d)) = FD_NONE then found (nat d) else Ret (s, None, - E_BUSY)
          else Ret (s, None, - E_INVAL))"

definition fd_array_free :: "'s vfs_env \<Rightarrow> 's vfs_state \<Rightarrow> file_ptr \<Rightarrow> 's vfs_state outcome" where
  "fd_array_free e s q =
     assert_then (status (file_at s q) = FD_INIT \<or> status (file_at s q) = FD_CLOSED)
       (assert_then (open_count (file_at s q) = 0)
         (bind_outcome
            (if status (file_at s q) = FD_CLOSED then
               (case node (file_at s q) of
                  None \<Rightarrow> Panic
                | Some n \<Rightarrow> bind_outcome (vfs_close e s n) (\<lambda>(s1, _). Ret s1))
             else Ret s)
            (\<lambda>s2. Ret (upd_file q (status_update (\<lambda>_. FD_NONE)) s2))))"

definition fd_array_acquire :: "'s vfs_state \<Rightarrow> file_ptr \<Rightarrow> 's vfs_state outcome" where
  "fd_array_acquire s q =
     assert_then (status (file_at s q) = FD_OPENED) (Ret (upd_file q (open_count_update (\<lambda>c. c + 1)) s))"

definition fd_array_release :: "'s vfs_env \<Rightarrow> 's vfs_state \<Rightarrow> file_ptr \<Rightarrow> 's vfs_state outcome" where
  "fd_array_release e s q =
     assert_then (status (file_at s q) = FD_OPENED \<or> status (file_at s q) = FD_CLOSED)
       (assert_then (open_count (file_at s q) > 0)
         (let s1 = upd_file q (open_count_update (\<lambda>c. c - 1)) s
          in if open_count (file_at s1 q) = 0 then fd_array_free e s1 q else Ret s1))"

definition fd_array_open :: "'s vfs_state \<Rightarrow> file_ptr \<Rightarrow> 's vfs_state outcome" where
  "fd_array_open s q =
     assert_then (status (file_at s q) = FD_INIT \<and> node (file_at s q) \<noteq> None)
       (Ret (upd_file q (\<lambda>x. x\<lparr>status := FD_OPENED, open_count := open_count x + 1\<rparr>) s))"

definition fd_array_close :: "'s vfs_env \<Rightarrow> 's vfs_state \<Rightarrow> file_ptr \<Rightarrow> 's vfs_state outcome" where
  "fd_array_close e s q =
     assert_then (status (file_at s q) = FD_OPENED)
       (assert_then (open_count (file_at s q) > 0)
         (let s1 = upd_file q (\<lambda>x. x\<lparr>status := FD_CLOSED, open_count := open_count x - 1\<rparr>) s
          in if open_count (file_at s1 q) = 0 then fd_array_free e s1 q else Ret s1))"

definition fd_array_dup :: "'s vfs_state \<Rightarrow> file_ptr \<Rightarrow> file_ptr \<Rightarrow> 's vfs_state outcome" where
  "fd_array_dup s to from' =
     assert_then (status (file_at s to) = FD_INIT \<and> status (file_at s from') = FD_OPENED)
       (let x = file_at s from';
            s1 = upd_file to (\<lambda>y. y\<lparr>pos := pos x, readable := readable x, writable := writable x\<rparr>) s
        in case node x of
             None \<Rightarrow> Panic
           | Some n \<Rightarrow> fd_array_open (upd_file to (node_update (\<lambda>_. Some n)) (inode_open_inc (inode_ref_inc s1 n) n)) to)"

definition fd2file :: "'s vfs_state \<Rightarrow> int \<Rightarrow> (file_ptr option \<times> int) outcome" where
  "fd2file s d =
     (if testfd d then
        bind_outcome (get_fd_array s) (\<lambda>p.
          if status (file_at s (p, nat d)) = FD_OPENED \<and> fd (file_at s (p, nat d)) = d then Ret (Some (p, nat d), 0)
          else Ret (None, - E_INVAL))
      else Ret (None, - E_INVAL))"

definition file_testfd :: "'s vfs_state \<Rightarrow> int \<Rightarrow> bool \<Rightarrow> bool \<Rightarrow> bool outcome" where
  "file_testfd s d rd wr =
     bind_outcome (fd2file s d) (\<lambda>(q, ret).
       case q of
         None \<Rightarrow> Ret False
       | Some q \<Rightarrow>
           Ret (\<not> (rd \<and> \<not> readable (file_at s q)) \<and> \<not> (wr \<and> \<not> writable (file_at s q))))"

definition file_open :: "'s vfs_env \<Rightarrow> 's vfs_state \<Rightarrow> nat \<Rightarrow> u32 \<Rightarrow> ('s vfs_state \<times> int) outcome" where
  "file_open e s path open_flags =
     (let acc = open_flags AND O_ACCMODE in
      if acc \<noteq> O_RDONLY \<and> acc \<noteq> O_WRONLY \<and> acc \<noteq> O_RDWR then Ret (s, - E_INVAL)
      else bind_outcome (fd_array_alloc s NO_FD) (\<lambda>(s1, f, ret).
        case f of
          None \<Rightarrow> Ret (s1, ret)
        | Some q \<Rightarrow>
            bind_outcome (vfs_open e s1 path open_flags) (\<lambda>(s2, n, ret).
              if ret \<noteq> 0 then bind_outcome (fd_array_free e s2 q) (\<lambda>s3. Ret (s3, ret))
              else case n of
                None \<Rightarrow> Panic
              | Some n \<Rightarrow>
                  bind_outcome
                    (if open_flags AND O_APPEND \<noteq> 0 then
                       bind_outcome (vop_fstat e s2 n) (\<lambda>(s3, st, ret). Ret (s3, st_size st, ret))
                     else Ret (s2, 0, 0))
                    (\<lambda>(s3, p, ret).
                       if ret \<noteq> 0 then
                         bind_outcome (vfs_close e s3 n) (\<lambda>(s4, _).
                         bind_outcome (fd_array_free e s4 q) (\<lambda>s5. Ret (s5, ret)))
                       else
                         let s4 = upd_file q (\<lambda>x. x\<lparr>pos := p, node := Some n,
                                    readable := (acc = O_RDONLY \<or> acc = O_RDWR), writable := (acc = O_WRONLY \<or> acc = O_RDWR)\<rparr>) s3
                         in bind_outcome (fd_array_open s4 q) (\<lambda>s5. Ret (s5, fd (file_at s5 q)))))))"

text \<open>The frame of the operations on an open descriptor: look it up or fail.\<close>

definition with_file :: "'s vfs_state \<Rightarrow> int \<Rightarrow> (file_ptr \<Rightarrow> 'r outcome) \<Rightarrow> (int \<Rightarrow> 'r) \<Rightarrow> 'r outcome" where
  "with_file s d body fail =
     bind_outcome (fd2file s d) (\<lambda>(q, ret). case q of None \<Rightarrow> Ret (fail ret) | Some q \<Rightarrow> body q)"

definition file_close :: "'s vfs_env \<Rightarrow> 's vfs_state \<Rightarrow> int \<Rightarrow> ('s vfs_state \<times> int) outcome" where
  "file_close e s d =
     with_file s d (\<lambda>q. bind_outcome (fd_array_close e s q) (\<lambda>s1. Ret (s1, 0))) (\<lambda>ret. (s, ret))"

text \<open>The node of an open file; \<open>__vop_op\<close> asserts that it is not null.\<close>

definition file_node :: "'s vfs_state \<Rightarrow> file_ptr \<Rightarrow> nat outcome" where
  "file_node s q = of_option (node (file_at s q))"

text \<open>\<open>file_read\<close> and \<open>file_write\<close> return the number of bytes copied and the code.\<close>

definition file_read :: "'s vfs_env \<Rightarrow> 's vfs_state \<Rightarrow> int \<Rightarrow> nat \<Rightarrow> u32 \<Rightarrow> ('s vfs_state \<times> u32 \<times> int) outcome" where
  "file_read e s d base len =
     with_file s d (\<lambda>q.
       if \<not> readable (file_at s q) then Ret (s, 0, - E_INVAL)
       else
         bind_outcome (fd_array_acquire s q) (\<lambda>s1.
         bind_outcome (file_node s1 q) (\<lambda>n.
         bind_outcome (vop_read e s1 n (iobuf_init base len (pos (file_at s1 q)))) (\<lambda>(s2, iob, ret).
           let copied = iobuf_used iob;
               s3 = (if status (file_at s2 q) = FD_OPENED then upd_file q (pos_update (\<lambda>p. p + copied)) s2 else s2)
           in bind_outcome (fd_array_release e s3 q) (\<lambda>s4. Ret (s4, copied, ret))))))
       (\<lambda>ret. (s, 0, ret))"

definition file_write :: "'s vfs_env \<Rightarrow> 's vfs_state \<Rightarrow> int \<Rightarrow> nat \<Rightarrow> u32 \<Rightarrow> ('s vfs_state \<times> u32 \<times> int) outcome" where
  "file_write e s d base len =
     with_file s d (\<lambda>q.
       if \<not> writable (file_at s q) then Ret (s, 0, - E_INVAL)
       else
         bind_outcome (fd_array_acquire s q) (\<lambda>s1.
         bind_outcome (file_node s1 q) (\<lambda>n.
         bind_outcome (vop_write e s1 n (iobuf_init base len (pos (file_at s1 q)))) (\<lambda>(s2, iob, ret).
           let copied = iobuf_used iob;
               s3 = (if status (file_at s2 q) = FD_OPENED then upd_file q (pos_update (\<lambda>p. p + copied)) s2 else s2)
           in bind_outcome (fd_array_release e s3 q) (\<lambda>s4. Ret (s4, copied, ret))))))
       (\<lambda>ret. (s, 0, ret))"

definition LSEEK_SET :: int where "LSEEK_SET = 0"
definition LSEEK_CUR :: int where "LSEEK_CUR = 1"
definition LSEEK_END :: int where "LSEEK_END = 2"

text \<open>The switch over \<open>whence\<close>: the new position and a code.\<close>

definition seek_target :: "'s vfs_env \<Rightarrow> 's vfs_state \<Rightarrow> file_ptr \<Rightarrow> u32 \<Rightarrow> int \<Rightarrow> ('s vfs_state \<times> u32 \<times> int) outcome" where
  "seek_target e s q p whence =
     (if whence = LSEEK_SET then Ret (s, p, 0)
      else if whence = LSEEK_CUR then Ret (s, p + pos (file_at s q), 0)
      else if whence = LSEEK_END then
        bind_outcome (file_node s q) (\<lambda>n.
        bind_outcome (vop_fstat e s n) (\<lambda>(s1, st, ret). Ret (s1, if ret = 0 then p + st_size st else p, ret)))
      else Ret (s, p, - E_INVAL))"

definition file_seek :: "'s vfs_env \<Rightarrow> 's vfs_state \<Rightarrow> int \<Rightarrow> u32 \<Rightarrow> int \<Rightarrow> ('s vfs_state \<times> int) outcome" where
  "file_seek e s d p whence =
     with_file s d (\<lambda>q.
       bind_outcome (fd_array_acquire s q) (\<lambda>s1.
       bind_outcome (seek_target e s1 q p whence)
         (\<lambda>(s2, p, ret).
            bind_outcome
              (if ret = 0 then
                 bind_outcome (file_node s2 q) (\<lambda>n.
                 bind_outcome (vop_tryseek e s2 n p) (\<lambda>(s3, ret).
                   Ret (if ret = 0 then upd_file q (pos_update (\<lambda>_. p)) s3 else s3, ret)))
               else Ret (s2, ret))
              (\<lambda>(s4, ret). bind_outcome (fd_array_release e s4 q) (\<lambda>s5. Ret (s5, ret))))))
       (\<lambda>ret. (s, ret))"

definition file_fstat :: "'s vfs_env \<Rightarrow> 's vfs_state \<Rightarrow> int \<Rightarrow> ('s vfs_state \<times> stat option \<times> int) outcome" where
  "file_fstat e s d =
     with_file s d (\<lambda>q.
       bind_outcome (fd_array_acquire s q) (\<lambda>s1.
       bind_outcome (file_node s1 q) (\<lambda>n.
       bind_outcome (vop_fstat e s1 n) (\<lambda>(s2, st, ret).
       bind_outcome (fd_array_release e s2 q) (\<lambda>s3. Ret (s3, Some st, ret))))))
       (\<lambda>ret. (s, None, ret))"

definition file_fsync :: "'s vfs_env \<Rightarrow> 's vfs_state \<Rightarrow> int \<Rightarrow> ('s vfs_state \<times> int) outcome" where
  "file_fsync e s d =
     with_file s d (\<lambda>q.
       bind_outcome (fd_array_acquire s q) (\<lambda>s1.
       bind_outcome (file_node s1 q) (\<lambda>n.
       bind_outcome (vop_fsync e s1 n) (\<lambda>(s2, ret).
       bind_outcome (fd_array_release e s2 q) (\<lambda>s3. Ret (s3, ret))))))
       (\<lambda>ret. (s, ret))"

definition FS_MAX_FNAME_LEN :: u32 where "FS_MAX_FNAME_LEN = 255"

text \<open>\<open>struct dirent\<close> is its offset and the address of its name; the new offset is returned.\<close>

definition file_getdirentry :: "'s vfs_env \<Rightarrow> 's vfs_state \<Rightarrow> int \<Rightarrow> u32 \<Rightarrow> nat \<Rightarrow> ('s vfs_state \<times> u32 \<times> int) outcome" where
  "file_getdirentry e s d offset name =
     with_file s d (\<lambda>q.
       bind_outcome (fd_array_acquire s q) (\<lambda>s1.
       bind_outcome (file_node s1 q) (\<lambda>n.
       bind_outcome (vop_getdirentry e s1 n (iobuf_init name (FS_MAX_FNAME_LEN + 1) offset)) (\<lambda>(s2, iob, ret).
       bind_outcome (fd_array_release e s2 q) (\<lambda>s3.
         Ret (s3, if ret = 0 then offset + iobuf_used iob else offset, ret))))))
       (\<lambda>ret. (s, offset, ret))"

definition file_dup :: "'s vfs_state \<Rightarrow> int \<Rightarrow> int \<Rightarrow> ('s vfs_state \<times> int) outcome" where
  "file_dup s fd1 fd2 =
     with_file s fd1 (\<lambda>q1.
       bind_outcome (fd_array_alloc s fd2) (\<lambda>(s1, f, ret).
         case f of
           None \<Rightarrow> Ret (s1, ret)
         | Some q2 \<Rightarrow> bind_outcome (fd_array_dup s1 q2 q1) (\<lambda>s2. Ret (s2, fd (file_at s2 q2)))))
       (\<lambda>ret. (s, ret))"

subsection \<open>Tables of a process (fs.c)\<close>

definition files_create :: "nat option \<Rightarrow> 's vfs_state \<Rightarrow> 's vfs_state \<times> nat option" where
  "files_create blk s =
     (case blk of
        None \<Rightarrow> (s, None)
      | Some p \<Rightarrow>
          (upd_files p (\<lambda>x. x\<lparr>pwd := None, files_count := 0, files_sem := 1, fd_array := fd_array_init (fd_array x)\<rparr>) s, Some p))"

text \<open>The loops over the entries of a table.\<close>

fun close_loop :: "'s vfs_env \<Rightarrow> bool \<Rightarrow> 's vfs_state \<Rightarrow> nat \<Rightarrow> nat list \<Rightarrow> 's vfs_state outcome" where
  "close_loop e check s p [] = Ret s"
| "close_loop e check s p (i # is) =
     bind_outcome (if status (file_at s (p, i)) = FD_OPENED then fd_array_close e s (p, i) else Ret s) (\<lambda>s1.
       assert_then (check \<longrightarrow> status (file_at s1 (p, i)) = FD_NONE) (close_loop e check s1 p is))"

definition files_destroy :: "'s vfs_env \<Rightarrow> 's vfs_state \<Rightarrow> nat \<Rightarrow> 's vfs_state outcome" where
  "files_destroy e s p =
     assert_then (files_count (files s p) = 0)
       (bind_outcome (case pwd (files s p) of None \<Rightarrow> Ret s | Some n \<Rightarrow> bind_outcome (inode_ref_dec e s n) (\<lambda>(s1, _). Ret s1))
         (\<lambda>s1. close_loop e True s1 p [0 ..< FILES_STRUCT_NENTRY]))"

definition files_closeall :: "'s vfs_env \<Rightarrow> 's vfs_state \<Rightarrow> nat \<Rightarrow> 's vfs_state outcome" where
  "files_closeall e s p =
     assert_then (files_count (files s p) > 0) (close_loop e False s p [2 ..< FILES_STRUCT_NENTRY])"

fun dup_fs_loop :: "'s vfs_state \<Rightarrow> nat \<Rightarrow> nat \<Rightarrow> nat list \<Rightarrow> 's vfs_state outcome" where
  "dup_fs_loop s to from' [] = Ret s"
| "dup_fs_loop s to from' (i # is) =
     bind_outcome
       (if status (file_at s (from', i)) = FD_OPENED
        then fd_array_dup (upd_file (to, i) (status_update (\<lambda>_. FD_INIT)) s) (to, i) (from', i)
        else Ret s)
       (\<lambda>s1. dup_fs_loop s1 to from' is)"

definition dup_fs :: "'s vfs_state \<Rightarrow> nat \<Rightarrow> nat \<Rightarrow> ('s vfs_state \<times> int) outcome" where
  "dup_fs s to from' =
     assert_then (files_count (files s to) = 0 \<and> files_count (files s from') > 0)
       (let s1 = upd_files to (pwd_update (\<lambda>_. pwd (files s from'))) s;
            s2 = (case pwd (files s1 to) of None \<Rightarrow> s1 | Some n \<Rightarrow> inode_ref_inc s1 n)
        in bind_outcome (dup_fs_loop s2 to from' [0 ..< FILES_STRUCT_NENTRY]) (\<lambda>s3. Ret (s3, 0)))"

end
