(* ===== verification/FileTables.thy ===== *)
theory FileTables
  imports Files
begin

text \<open>
  The accounting of open files: every open entry of a descriptor table holds one open count and
  one reference of its inode, and every working directory holds one reference. The lemmas are
  proved from the contract \<open>vnode_ops\<close> of a table of inode operations; the device files provide
  it (theory \<^verbatim>\<open>Devices\<close>).
\<close>

subsection \<open>The contract of a table of operations\<close>

text \<open>An operation leaves the counts of all inodes and all descriptor tables alone.\<close>

definition same_vfs :: "'s vfs_state \<Rightarrow> 's vfs_state \<Rightarrow> bool" where
  "same_vfs s s' \<longleftrightarrow> inodes s' = inodes s \<and> files s' = files s \<and> cur_files s' = cur_files s"

definition same_vfs_but :: "nat \<Rightarrow> 's vfs_state \<Rightarrow> 's vfs_state \<Rightarrow> bool" where
  "same_vfs_but n s s' \<longleftrightarrow>
     (\<forall>m. m \<noteq> n \<longrightarrow> inodes s' m = inodes s m) \<and> files s' = files s \<and> cur_files s' = cur_files s"

text \<open>The inode is one of those served by the tables \<open>K\<close>.\<close>

definition served :: "nat set \<Rightarrow> (nat \<Rightarrow> inode_type) \<Rightarrow> inode \<Rightarrow> bool" where
  "served K ty x \<longleftrightarrow> (\<exists>k \<in> K. in_ops x = Some k \<and> in_type x = ty k)"

text \<open>An inode whose table has no reclaim operation must keep a reference.\<close>

definition droppable :: "'s vfs_env \<Rightarrow> nat set \<Rightarrow> inode \<Rightarrow> bool" where
  "droppable e K x \<longleftrightarrow> ref_count x > 1 \<or> (\<exists>k \<in> K. in_ops x = Some k \<and> op_reclaim (ops_at e k) \<noteq> None)"

locale vnode_ops =
  fixes e :: "'s vfs_env" and K :: "nat set" and ty :: "nat \<Rightarrow> inode_type"
  assumes magic: "k \<in> K \<Longrightarrow> vop_magic (ops_at e k) = VOP_MAGIC"
    and close_law: "k \<in> K \<Longrightarrow> in_ops (inodes s n) = Some k \<Longrightarrow> in_type (inodes s n) = ty k \<Longrightarrow>
      \<exists>f s' r. op_close (ops_at e k) = Some f \<and> f s n = Ret (s', r) \<and> same_vfs s s'"
    and fstat_law: "k \<in> K \<Longrightarrow> in_ops (inodes s n) = Some k \<Longrightarrow> in_type (inodes s n) = ty k \<Longrightarrow> inode_check e s n \<Longrightarrow>
      \<exists>f s' st r. op_fstat (ops_at e k) = Some f \<and> f s n = Ret (s', st, r) \<and> same_vfs s s'"
    and tryseek_law: "k \<in> K \<Longrightarrow> in_ops (inodes s n) = Some k \<Longrightarrow> in_type (inodes s n) = ty k \<Longrightarrow>
      \<exists>f s' r. op_tryseek (ops_at e k) = Some f \<and> f s n p = Ret (s', r) \<and> same_vfs s s'"
    and read_law: "k \<in> K \<Longrightarrow> op_read (ops_at e k) = Some f \<Longrightarrow> f s n iob = Ret (s', iob', r) \<Longrightarrow> same_vfs s s'"
    and write_law: "k \<in> K \<Longrightarrow> op_write (ops_at e k) = Some f \<Longrightarrow> f s n iob = Ret (s', iob', r) \<Longrightarrow> same_vfs s s'"
    and reclaim_law: "k \<in> K \<Longrightarrow> in_ops (inodes s n) = Some k \<Longrightarrow> in_type (inodes s n) = ty k \<Longrightarrow>
      op_reclaim (ops_at e k) = Some g \<Longrightarrow> ref_count (inodes s n) = 0 \<Longrightarrow> inode_opens (inodes s n) = 0 \<Longrightarrow>
      \<exists>s' r. g s n = Ret (s', r) \<and> same_vfs_but n s s'"
begin

lemma check_served:
  assumes "served K ty (inodes s n)" "inode_opens (inodes s n) \<le> ref_count (inodes s n)" "0 \<le> inode_opens (inodes s n)"
    "ref_count (inodes s n) < MAX_INODE_COUNT"
  shows "inode_check e s n"
  using assms magic by (auto simp: served_def inode_check_def)

lemma inode_ref_dec_ok:
  assumes sv: "served K ty (inodes s n)" and dr: "droppable e K (inodes s n)"
    and c: "0 < ref_count (inodes s n)" "ref_count (inodes s n) \<le> MAX_INODE_COUNT"
      "inode_opens (inodes s n) < ref_count (inodes s n)" "0 \<le> inode_opens (inodes s n)"
  shows "\<exists>s'. inode_ref_dec e s n = Ret (s', ref_count (inodes s n) - 1) \<and> same_vfs_but n s s' \<and>
     (1 < ref_count (inodes s n) \<longrightarrow> s' = upd_inode n (ref_count_update (\<lambda>c. c - 1)) s)"
proof -
  let ?s1 = "upd_inode n (ref_count_update (\<lambda>c. c - 1)) s"
  obtain k where k: "k \<in> K" "in_ops (inodes s n) = Some k" "in_type (inodes s n) = ty k" using sv by (auto simp: served_def)
  show ?thesis
  proof (cases "ref_count (inodes s n) = 1")
    case True
    then obtain f where f: "op_reclaim (ops_at e k) = Some f" using dr k by (auto simp: droppable_def)
    have o: "inode_opens (inodes s n) = 0" using c True by simp
    have chk: "inode_check e ?s1 n" using k magic True o by (simp add: inode_check_def MAX_INODE_COUNT_def)
    from reclaim_law [OF k(1) _ _ f, of ?s1 n] k True o obtain s' r where r: "f ?s1 n = Ret (s', r)" "same_vfs_but n ?s1 s'" by auto
    have "vop_reclaim e ?s1 n = Ret (s', r)" using chk f k r(1) by (simp add: vop_reclaim_def vop_op_def)
    then have "inode_ref_dec e s n = Ret (s', 0)" using True c by (simp add: inode_ref_dec_def)
    moreover have "same_vfs_but n s s'" using r(2) by (auto simp: same_vfs_but_def)
    ultimately show ?thesis using True by simp
  next
    case False
    then have "inode_ref_dec e s n = Ret (?s1, ref_count (inodes s n) - 1)" using c by (simp add: inode_ref_dec_def)
    moreover have "same_vfs_but n s ?s1" by (simp add: same_vfs_but_def)
    ultimately show ?thesis by blast
  qed
qed

lemma inode_open_dec_ok:
  assumes sv: "served K ty (inodes s n)" and c: "0 < inode_opens (inodes s n)" "inode_opens (inodes s n) \<le> ref_count (inodes s n)"
    "ref_count (inodes s n) < MAX_INODE_COUNT"
  shows "\<exists>s'. inode_open_dec e s n = Ret (s', inode_opens (inodes s n) - 1) \<and>
     same_vfs (upd_inode n (inode_opens_update (\<lambda>c. c - 1)) s) s'"
proof -
  let ?s1 = "upd_inode n (inode_opens_update (\<lambda>c. c - 1)) s"
  obtain k where k: "k \<in> K" "in_ops (inodes s n) = Some k" "in_type (inodes s n) = ty k" using sv by (auto simp: served_def)
  show ?thesis
  proof (cases "inode_opens (inodes s n) = 1")
    case True
    from close_law [OF k(1), of ?s1 n] k obtain f s' r where f: "op_close (ops_at e k) = Some f" "f ?s1 n = Ret (s', r)" "same_vfs ?s1 s'" by auto
    have "inode_check e ?s1 n" using k magic True c by (simp add: inode_check_def MAX_INODE_COUNT_def)
    then have "vop_close e ?s1 n = Ret (s', r)" using f(1,2) k by (simp add: vop_close_def vop_op_def)
    then have "inode_open_dec e s n = Ret (s', 0)" using True by (simp add: inode_open_dec_def)
    then show ?thesis using True f(3) by simp
  next
    case False
    then show ?thesis using c by (simp add: inode_open_dec_def same_vfs_def)
  qed
qed

lemma vfs_close_ok:
  assumes sv: "served K ty (inodes s n)" and dr: "droppable e K (inodes s n)"
    and c: "0 < inode_opens (inodes s n)" "inode_opens (inodes s n) \<le> ref_count (inodes s n)" "ref_count (inodes s n) < MAX_INODE_COUNT"
  shows "\<exists>s'. vfs_close e s n = Ret (s', 0) \<and> same_vfs_but n s s' \<and>
     (1 < ref_count (inodes s n) \<longrightarrow> inodes s' n = (inodes s n)\<lparr>ref_count := ref_count (inodes s n) - 1, inode_opens := inode_opens (inodes s n) - 1\<rparr>)"
proof -
  from inode_open_dec_ok [OF sv c] obtain s1 where s1: "inode_open_dec e s n = Ret (s1, inode_opens (inodes s n) - 1)"
    "same_vfs (upd_inode n (inode_opens_update (\<lambda>c. c - 1)) s) s1" by blast
  then have i1: "inodes s1 n = (inodes s n)\<lparr>inode_opens := inode_opens (inodes s n) - 1\<rparr>" by (simp add: same_vfs_def)
  have "served K ty (inodes s1 n)" "droppable e K (inodes s1 n)" using sv dr by (simp_all add: i1 served_def droppable_def)
  from inode_ref_dec_ok [OF this] c obtain s2 where s2: "inode_ref_dec e s1 n = Ret (s2, ref_count (inodes s n) - 1)" "same_vfs_but n s1 s2"
    "1 < ref_count (inodes s n) \<longrightarrow> s2 = upd_inode n (ref_count_update (\<lambda>c. c - 1)) s1" by (auto simp: i1)
  have "same_vfs_but n s s2" using s1(2) s2(2) by (auto simp: same_vfs_def same_vfs_but_def)
  moreover have "vfs_close e s n = Ret (s2, 0)" using s1(1) s2(1) by (simp add: vfs_close_def)
  ultimately show ?thesis using s2(3) i1 by (intro exI [of _ s2]) auto
qed

end

subsection \<open>Entries and counts\<close>

lemma file_at_upd [simp]:
  "file_at (upd_file q f s) r = (if r = q then f (file_at s q) else file_at s r)"
  by (cases q, cases r) (auto simp: file_at_def upd_file_def)

lemma upd_file_sel [simp]:
  "inodes (upd_file q f s) = inodes s" "cur_files (upd_file q f s) = cur_files s" "kmem (upd_file q f s) = kmem s"
  "pwd (files (upd_file q f s) p) = pwd (files s p)" "files_count (files (upd_file q f s) p) = files_count (files s p)"
  "files_sem (files (upd_file q f s) p) = files_sem (files s p)" "priv (upd_file q f s) = priv s"
  by (simp_all add: upd_file_def)

lemma upd_file_cong: "f (file_at s q) = g (file_at s q) \<Longrightarrow> upd_file q f s = upd_file q g s"
  by (cases "files s (fst q)") (simp add: upd_file_def file_at_def)

lemma file_at_cong: "files s' = files s \<Longrightarrow> file_at s' = file_at s"
  by (simp add: file_at_def fun_eq_iff)

lemma inode_inc_sel [simp]:
  "files (inode_open_inc s n) = files s" "files (inode_ref_inc s n) = files s"
  "cur_files (inode_open_inc s n) = cur_files s" "cur_files (inode_ref_inc s n) = cur_files s"
  "inodes (inode_open_inc s n) = (inodes s)(n := inode_opens_update (\<lambda>c. c + 1) (inodes s n))"
  "inodes (inode_ref_inc s n) = (inodes s)(n := ref_count_update (\<lambda>c. c + 1) (inodes s n))"
  by (simp_all add: inode_open_inc_def inode_ref_inc_def)

lemma file_at_inode [simp]: "file_at (inode_open_inc s n) = file_at s" "file_at (inode_ref_inc s n) = file_at s"
  by (rule file_at_cong, simp add: inode_open_inc_def inode_ref_inc_def)+

definition fd_set :: "'s vfs_state \<Rightarrow> nat set \<Rightarrow> nat \<Rightarrow> file_ptr set" where
  "fd_set s A n = {q. fst q \<in> A \<and> snd q < FILES_STRUCT_NENTRY \<and> status (file_at s q) = FD_OPENED \<and> node (file_at s q) = Some n}"

definition cwd_set :: "'s vfs_state \<Rightarrow> nat set \<Rightarrow> nat \<Rightarrow> nat set" where
  "cwd_set s B n = {p \<in> B. pwd (files s p) = Some n}"

lemma finite_fd_set: "finite A \<Longrightarrow> finite (fd_set s A n)"
  by (rule finite_subset [of _ "A \<times> {..< FILES_STRUCT_NENTRY}"]) (auto simp: fd_set_def)

lemma finite_cwd_set: "finite B \<Longrightarrow> finite (cwd_set s B n)"
  by (simp add: cwd_set_def)

text \<open>Between two calls an entry is free or open once, and it knows its own number.\<close>

definition entry_ok :: "nat \<Rightarrow> struct_file \<Rightarrow> bool" where
  "entry_ok i x \<longleftrightarrow> fd x = int i \<and>
     (status x = FD_NONE \<and> open_count x = 0 \<or> status x = FD_OPENED \<and> open_count x = 1 \<and> node x \<noteq> None)"

text \<open>
  \<open>A\<close> is the set of descriptor tables in use and \<open>B\<close> those whose working directory holds a
  reference. The counts of an inode with \<open>f\<close> descriptors and \<open>c\<close> working directories; an inode without a
  reclaim operation is kept alive by a further reference, such as that of the device table.
\<close>

definition held_ok :: "'s vfs_env \<Rightarrow> nat set \<Rightarrow> (nat \<Rightarrow> inode_type) \<Rightarrow> inode \<Rightarrow> nat \<Rightarrow> nat \<Rightarrow> bool" where
  "held_ok e K ty x f c \<longleftrightarrow> served K ty x \<and> int f \<le> inode_opens x \<and>
     inode_opens x + int c + (if \<exists>k \<in> K. in_ops x = Some k \<and> op_reclaim (ops_at e k) \<noteq> None then 0 else 1) \<le> ref_count x \<and>
     ref_count x < MAX_INODE_COUNT"

definition files_inv :: "'s vfs_env \<Rightarrow> nat set \<Rightarrow> (nat \<Rightarrow> inode_type) \<Rightarrow> nat set \<Rightarrow> nat set \<Rightarrow> 's vfs_state \<Rightarrow> bool" where
  "files_inv e K ty A B s \<longleftrightarrow> finite A \<and> finite B \<and>
     (\<forall>p \<in> A. \<forall>i < FILES_STRUCT_NENTRY. entry_ok i (file_at s (p, i))) \<and>
     (\<forall>n. fd_set s A n \<noteq> {} \<or> cwd_set s B n \<noteq> {} \<longrightarrow>
        held_ok e K ty (inodes s n) (card (fd_set s A n)) (card (cwd_set s B n)))"

lemma files_invD:
  assumes "files_inv e K ty A B s"
  shows "finite A" "p \<in> A \<Longrightarrow> i < FILES_STRUCT_NENTRY \<Longrightarrow> entry_ok i (file_at s (p, i))"
    "fd_set s A n \<noteq> {} \<or> cwd_set s B n \<noteq> {} \<Longrightarrow> held_ok e K ty (inodes s n) (card (fd_set s A n)) (card (cwd_set s B n))" "finite B"
  using assms by (simp_all add: files_inv_def)

lemma files_inv_cong:
  assumes "\<And>q. file_at s' q = file_at s q" "\<And>p. pwd (files s' p) = pwd (files s p)" "inodes s' = inodes s"
  shows "files_inv e K ty A B s' = files_inv e K ty A B s"
  using assms by (simp add: files_inv_def fd_set_def cwd_set_def)

lemma held_droppable:
  assumes "held_ok e K ty x f c" "0 < f \<or> 0 < c"
  shows "served K ty x" "0 < ref_count x" "ref_count x < MAX_INODE_COUNT" "0 \<le> inode_opens x" "inode_opens x \<le> ref_count x"
    "0 < f \<Longrightarrow> 0 < inode_opens x" "0 < c \<Longrightarrow> inode_opens x < ref_count x" "droppable e K x"
proof -
  show "droppable e K x"
    using assms unfolding held_ok_def droppable_def by (cases "\<exists>k \<in> K. in_ops x = Some k \<and> op_reclaim (ops_at e k) \<noteq> None") auto
qed (use assms in \<open>auto simp: held_ok_def split: if_splits\<close>)

text \<open>An entry is taken out of the count of one inode.\<close>

lemma fd_set_drop:
  assumes "\<And>r. r \<noteq> q \<Longrightarrow> file_at s' r = file_at s r" "status (file_at s' q) \<noteq> FD_OPENED"
  shows "fd_set s' A m = fd_set s A m - {q}"
proof (rule set_eqI)
  fix r
  show "r \<in> fd_set s' A m \<longleftrightarrow> r \<in> fd_set s A m - {q}"
    using assms by (cases "r = q") (auto simp: fd_set_def)
qed

lemma fd_set_add:
  assumes "\<And>r. r \<noteq> q \<Longrightarrow> file_at s' r = file_at s r" "status (file_at s q) \<noteq> FD_OPENED"
    "status (file_at s' q) = FD_OPENED" "node (file_at s' q) = Some n" "fst q \<in> A" "snd q < FILES_STRUCT_NENTRY"
  shows "fd_set s' A m = (if m = n then insert q (fd_set s A m) else fd_set s A m)" "q \<notin> fd_set s A m"
proof -
  show "fd_set s' A m = (if m = n then insert q (fd_set s A m) else fd_set s A m)"
  proof (rule set_eqI)
    fix r
    show "r \<in> fd_set s' A m \<longleftrightarrow> r \<in> (if m = n then insert q (fd_set s A m) else fd_set s A m)"
      using assms by (cases "r = q") (auto simp: fd_set_def)
  qed
qed (use assms(2) in \<open>simp add: fd_set_def\<close>)

definition add_counts :: "int \<Rightarrow> inode \<Rightarrow> inode" where
  "add_counts k x = x\<lparr>ref_count := ref_count x + k, inode_opens := inode_opens x + k\<rparr>"

lemma add_counts_sel [simp]:
  "ref_count (add_counts k x) = ref_count x + k" "inode_opens (add_counts k x) = inode_opens x + k"
  "in_ops (add_counts k x) = in_ops x" "in_type (add_counts k x) = in_type x" "in_fs (add_counts k x) = in_fs x"
  "add_counts j (add_counts k x) = add_counts (k + j) x" "add_counts 0 x = x"
  by (simp_all add: add_counts_def)

text \<open>The state after the entry \<open>q\<close>, open on \<open>n\<close>, is closed.\<close>

definition closed_entry :: "file_ptr \<Rightarrow> nat \<Rightarrow> 's vfs_state \<Rightarrow> 's vfs_state \<Rightarrow> bool" where
  "closed_entry q n s s' \<longleftrightarrow>
     (\<forall>r. file_at s' r = (if r = q then (file_at s q)\<lparr>status := FD_NONE, open_count := 0\<rparr> else file_at s r)) \<and>
     (\<forall>p. pwd (files s' p) = pwd (files s p) \<and> files_count (files s' p) = files_count (files s p)) \<and>
     cur_files s' = cur_files s \<and> (\<forall>m. m \<noteq> n \<longrightarrow> inodes s' m = inodes s m) \<and>
     (1 < ref_count (inodes s n) \<longrightarrow> inodes s' n = add_counts (-1) (inodes s n))"

lemma closed_entryD:
  assumes "closed_entry q n s s'"
  shows "file_at s' r = (if r = q then (file_at s q)\<lparr>status := FD_NONE, open_count := 0\<rparr> else file_at s r)"
    "pwd (files s' p) = pwd (files s p)" "files_count (files s' p) = files_count (files s p)"
    "cur_files s' = cur_files s" "m \<noteq> n \<Longrightarrow> inodes s' m = inodes s m"
    "1 < ref_count (inodes s n) \<Longrightarrow> inodes s' n = add_counts (-1) (inodes s n)"
  using assms unfolding closed_entry_def by blast+

lemma closed_entry_inv:
  assumes inv: "files_inv e K ty A B s" and q: "q \<in> fd_set s A n" and c: "closed_entry q n s s'"
  shows "files_inv e K ty A B s'"
proof -
  have fq: "fst q \<in> A" "snd q < FILES_STRUCT_NENTRY" using q by (simp_all add: fd_set_def)
  note fin = finite_fd_set [OF files_invD(1) [OF inv]]
  have fds: "fd_set s' A m = fd_set s A m - {q}" for m by (rule fd_set_drop) (simp_all add: closed_entryD(1) [OF c])
  have cwd: "cwd_set s' B m = cwd_set s B m" for m by (simp add: cwd_set_def closed_entryD(2) [OF c])
  have h: "held_ok e K ty (inodes s n) (card (fd_set s A n)) (card (cwd_set s B n))" using files_invD(3) [OF inv] q by blast
  have "entry_ok i (file_at s' (p, i))" if "p \<in> A" "i < FILES_STRUCT_NENTRY" for p i
    using files_invD(2) [OF inv that] by (auto simp: closed_entryD(1) [OF c] entry_ok_def)
  moreover have "held_ok e K ty (inodes s' m) (card (fd_set s' A m)) (card (cwd_set s' B m))"
    if m: "fd_set s' A m \<noteq> {} \<or> cwd_set s' B m \<noteq> {}" for m
  proof (cases "m = n")
    case False
    then have "fd_set s' A m = fd_set s A m" using fds q by (auto simp: fd_set_def)
    then show ?thesis using files_invD(3) [OF inv, of m] m False cwd closed_entryD(5) [OF c, of m] by simp
  next
    case True
    have card: "card (fd_set s A n) = Suc (card (fd_set s' A n))" unfolding fds by (rule card.remove [OF fin q])
    have "0 < card (fd_set s' A n) \<or> 0 < card (cwd_set s B n)"
      using m [unfolded True cwd] fin [of s' n] finite_cwd_set [OF files_invD(4) [OF inv], of s n] by (auto simp: card_gt_0_iff)
    then have "1 < ref_count (inodes s n)" using h card by (auto simp: held_ok_def split: if_splits)
    then have "inodes s' n = add_counts (-1) (inodes s n)" by (rule closed_entryD(6) [OF c])
    then show ?thesis using h card by (auto simp: True cwd held_ok_def add_counts_def served_def)
  qed
  ultimately show ?thesis using files_invD(1,4) [OF inv] by (simp add: files_inv_def)
qed

context vnode_ops
begin

lemma fd_array_close_ok:
  assumes inv: "files_inv e K ty A B s" and q: "q \<in> fd_set s A n"
  shows "\<exists>s'. fd_array_close e s q = Ret s' \<and> files_inv e K ty A B s' \<and> closed_entry q n s s'"
proof -
  have q1: "fst q \<in> A" "snd q < FILES_STRUCT_NENTRY" "status (file_at s q) = FD_OPENED" "node (file_at s q) = Some n"
    using q by (simp_all add: fd_set_def)
  have oc: "open_count (file_at s q) = 1" using files_invD(2) [OF inv q1(1,2)] q1(3) by (auto simp: entry_ok_def)
  let ?s1 = "upd_file q (\<lambda>x. x\<lparr>status := FD_CLOSED, open_count := open_count x - 1\<rparr>) s"
  have h: "held_ok e K ty (inodes s n) (card (fd_set s A n)) (card (cwd_set s B n))" using files_invD(3) [OF inv] q by blast
  have "0 < card (fd_set s A n)" using q finite_fd_set [OF files_invD(1) [OF inv]] by (auto simp: card_gt_0_iff)
  note H = held_droppable [OF h disjI1 [OF this]] this
  from vfs_close_ok [of ?s1 n] H obtain s2 where s2: "vfs_close e ?s1 n = Ret (s2, 0)" "same_vfs_but n ?s1 s2"
    "1 < ref_count (inodes s n) \<longrightarrow> inodes s2 n = add_counts (-1) (inodes s n)" by (auto simp: add_counts_def)
  let ?s3 = "upd_file q (status_update (\<lambda>_. FD_NONE)) s2"
  have fs: "file_at s2 = file_at ?s1" using s2(2) by (intro file_at_cong) (simp add: same_vfs_but_def)
  have "fd_array_free e ?s1 q = Ret ?s3" using s2(1) q1 oc by (simp add: fd_array_free_def)
  then have "fd_array_close e s q = Ret ?s3" using q1 oc by (simp add: fd_array_close_def)
  moreover have ce: "closed_entry q n s ?s3" using s2(2,3) oc by (auto simp: closed_entry_def fs same_vfs_but_def)
  ultimately show ?thesis using closed_entry_inv [OF inv q ce] by blast
qed

end

subsection \<open>Opening an entry\<close>

text \<open>The state after the free entry \<open>q\<close> becomes \<open>x\<close>, open on \<open>n\<close>.\<close>

definition opened_entry :: "file_ptr \<Rightarrow> struct_file \<Rightarrow> nat \<Rightarrow> 's vfs_state \<Rightarrow> 's vfs_state \<Rightarrow> bool" where
  "opened_entry q x n s s' \<longleftrightarrow>
     (\<forall>r. file_at s' r = (if r = q then x else file_at s r)) \<and>
     (\<forall>p. pwd (files s' p) = pwd (files s p) \<and> files_count (files s' p) = files_count (files s p)) \<and>
     cur_files s' = cur_files s \<and> (\<forall>m. inodes s' m = (if m = n then add_counts 1 (inodes s n) else inodes s m))"

lemma opened_entryD:
  assumes "opened_entry q x n s s'"
  shows "file_at s' r = (if r = q then x else file_at s r)"
    "pwd (files s' p) = pwd (files s p)" "files_count (files s' p) = files_count (files s p)"
    "cur_files s' = cur_files s" "inodes s' m = (if m = n then add_counts 1 (inodes s n) else inodes s m)"
  using assms unfolding opened_entry_def by blast+

lemma opened_entry_inv:
  assumes inv: "files_inv e K ty A B s" and q: "fst q \<in> A" "snd q < FILES_STRUCT_NENTRY" "status (file_at s q) = FD_NONE"
    and x: "entry_ok (snd q) x" "status x = FD_OPENED" "node x = Some n" and o: "opened_entry q x n s s'"
    and n: "fd_set s A n \<noteq> {}" "ref_count (inodes s n) + 1 < MAX_INODE_COUNT"
  shows "files_inv e K ty A B s'"
proof -
  note fds = fd_set_add [of q s' s n A, OF _ _ _ _ q(1,2)]
  have fds: "fd_set s' A m = (if m = n then insert q (fd_set s A m) else fd_set s A m)" "q \<notin> fd_set s A m" for m
    using fds [of m] x q(3) by (simp_all add: opened_entryD(1) [OF o])
  have cwd: "cwd_set s' B m = cwd_set s B m" for m by (simp add: cwd_set_def opened_entryD(2) [OF o])
  have h: "held_ok e K ty (inodes s n) (card (fd_set s A n)) (card (cwd_set s B n))" using files_invD(3) [OF inv] n by blast
  have "entry_ok i (file_at s' (p, i))" if "p \<in> A" "i < FILES_STRUCT_NENTRY" for p i
    using files_invD(2) [OF inv that] x(1) by (auto simp: opened_entryD(1) [OF o])
  moreover have "held_ok e K ty (inodes s' m) (card (fd_set s' A m)) (card (cwd_set s' B m))"
    if m: "fd_set s' A m \<noteq> {} \<or> cwd_set s' B m \<noteq> {}" for m
  proof (cases "m = n")
    case False
    then show ?thesis using files_invD(3) [OF inv, of m] m by (simp add: fds cwd opened_entryD(5) [OF o])
  next
    case True
    have "card (fd_set s' A n) = Suc (card (fd_set s A n))"
      using finite_fd_set [OF files_invD(1) [OF inv], of s n] fds(2) by (simp add: fds(1))
    then show ?thesis using h n(2) by (auto simp: True cwd held_ok_def served_def opened_entryD(5) [OF o])
  qed
  ultimately show ?thesis using files_invD(1,4) [OF inv] by (simp add: files_inv_def)
qed

text \<open>The entry that \<open>fd_array_dup\<close> makes.\<close>

definition dup_entry :: "struct_file \<Rightarrow> struct_file \<Rightarrow> struct_file" where
  "dup_entry x y = y\<lparr>status := FD_OPENED, pos := pos x, readable := readable x, writable := writable x,
     node := node x, open_count := open_count y + 1\<rparr>"

lemma fd_array_dup_ok:
  assumes "to \<noteq> from'" "status (file_at s from') = FD_OPENED" "node (file_at s from') = Some n"
  shows "\<exists>s'. fd_array_dup (upd_file to (\<lambda>y. (f y)\<lparr>status := FD_INIT\<rparr>) s) to from' = Ret s' \<and>
     opened_entry to (dup_entry (file_at s from') (f (file_at s to))) n s s'"
proof -
  let ?s = "upd_file to (\<lambda>y. (f y)\<lparr>status := FD_INIT\<rparr>) s"
  let ?x = "file_at s from'"
  define s1 where "s1 = upd_file to (\<lambda>y. y\<lparr>pos := pos ?x, readable := readable ?x, writable := writable ?x\<rparr>) ?s"
  define s2 where "s2 = upd_file to (node_update (\<lambda>_. Some n)) (inode_open_inc (inode_ref_inc s1 n) n)"
  let ?s' = "upd_file to (\<lambda>x. x\<lparr>status := FD_OPENED, open_count := open_count x + 1\<rparr>) s2"
  have "fd_array_dup ?s to from' = fd_array_open s2 to"
    using assms by (simp add: fd_array_dup_def s2_def s1_def Let_def)
  also have "\<dots> = Ret ?s'" by (simp add: fd_array_open_def s2_def s1_def)
  finally have "fd_array_dup ?s to from' = Ret ?s'" .
  moreover have "opened_entry to (dup_entry ?x (f (file_at s to))) n s ?s'"
    using assms by (auto simp: opened_entry_def s2_def s1_def dup_entry_def add_counts_def)
  ultimately show ?thesis by blast
qed

subsection \<open>Looking up and allocating descriptors\<close>

lemma testfd_nat: "testfd d \<Longrightarrow> nat d < FILES_STRUCT_NENTRY \<and> int (nat d) = d"
  by (auto simp: testfd_def)

lemma fd2file_ok:
  assumes inv: "files_inv e K ty A B s" and p: "cur_files s = Some p" "p \<in> A" "files_count (files s p) > 0"
  shows "fd2file s d =
     Ret (if testfd d \<and> status (file_at s (p, nat d)) = FD_OPENED then (Some (p, nat d), 0) else (None, - E_INVAL))"
proof (cases "testfd d")
  case True
  then have "entry_ok (nat d) (file_at s (p, nat d))" using files_invD(2) [OF inv p(2)] testfd_nat by blast
  then show ?thesis using True p testfd_nat [OF True] by (simp add: fd2file_def get_fd_array_def entry_ok_def)
qed (simp add: fd2file_def)

lemma with_file_ok:
  assumes "files_inv e K ty A B s" "cur_files s = Some p" "p \<in> A" "files_count (files s p) > 0"
  shows "with_file s d body fail =
     (if testfd d \<and> status (file_at s (p, nat d)) = FD_OPENED then body (p, nat d) else Ret (fail (- E_INVAL)))"
  using fd2file_ok [OF assms, of d] by (simp add: with_file_def)

lemma fd_array_alloc_ok:
  assumes inv: "files_inv e K ty A B s" and p: "cur_files s = Some p" "p \<in> A" "files_count (files s p) > 0"
  shows "fd_array_alloc s d =
     (let i = (if d = NO_FD then find (\<lambda>i. status (file_at s (p, i)) = FD_NONE) [0 ..< FILES_STRUCT_NENTRY]
               else if testfd d \<and> status (file_at s (p, nat d)) = FD_NONE then Some (nat d) else None)
      in case i of
           Some i \<Rightarrow> Ret (upd_file (p, i) (\<lambda>x. x\<lparr>status := FD_INIT, node := None\<rparr>) s, Some (p, i), 0)
         | None \<Rightarrow> Ret (s, None, if d = NO_FD then - E_MAX_OPEN else if testfd d then - E_BUSY else - E_INVAL))"
proof -
  have oc: "open_count (file_at s (p, i)) = 0" if "i < FILES_STRUCT_NENTRY" "status (file_at s (p, i)) = FD_NONE" for i
    using files_invD(2) [OF inv p(2) that(1)] that(2) by (auto simp: entry_ok_def)
  have "open_count (file_at s (p, i)) = 0" if "find (\<lambda>i. status (file_at s (p, i)) = FD_NONE) [0 ..< FILES_STRUCT_NENTRY] = Some i" for i
    using that oc by (auto simp: find_Some_iff)
  moreover have "open_count (file_at s (p, nat d)) = 0" if "testfd d" "status (file_at s (p, nat d)) = FD_NONE"
    using oc that testfd_nat by blast
  ultimately show ?thesis using p by (auto simp: fd_array_alloc_def get_fd_array_def Let_def split: option.splits)
qed

subsection \<open>Loops over a table\<close>

definition opens_of :: "'s vfs_state \<Rightarrow> nat \<Rightarrow> nat list \<Rightarrow> nat \<Rightarrow> nat" where
  "opens_of s p is n = length (filter (\<lambda>i. status (file_at s (p, i)) = FD_OPENED \<and> node (file_at s (p, i)) = Some n) is)"

lemma opens_of_cong: "(\<And>i. i \<in> set is \<Longrightarrow> file_at s' (p, i) = file_at s (p, i)) \<Longrightarrow> opens_of s' p is n = opens_of s p is n"
  unfolding opens_of_def by (rule arg_cong [where f = length], rule filter_cong) auto

lemma opens_of_Cons:
  "opens_of s p (i # is) n =
     (if status (file_at s (p, i)) = FD_OPENED \<and> node (file_at s (p, i)) = Some n then Suc (opens_of s p is n) else opens_of s p is n)"
  by (simp add: opens_of_def)

text \<open>What a loop leaves alone.\<close>

definition tables_kept :: "'s vfs_state \<Rightarrow> 's vfs_state \<Rightarrow> bool" where
  "tables_kept s s' \<longleftrightarrow> cur_files s' = cur_files s \<and>
     (\<forall>p. pwd (files s' p) = pwd (files s p) \<and> files_count (files s' p) = files_count (files s p))"

lemma dup_fs_loop_ok:
  assumes "files_inv e K ty A B s" "from' \<in> A" "to \<in> A" "to \<noteq> from'" "distinct is" "set is \<subseteq> {..< FILES_STRUCT_NENTRY}"
    "\<forall>i \<in> set is. status (file_at s (to, i)) = FD_NONE" "\<forall>n. fd_set s A n \<noteq> {} \<longrightarrow> ref_count (inodes s n) + int (length is) < MAX_INODE_COUNT"
  shows "\<exists>s'. dup_fs_loop s to from' is = Ret s' \<and> files_inv e K ty A B s' \<and> tables_kept s s' \<and>
     (\<forall>p i. file_at s' (p, i) = (if p = to \<and> i \<in> set is \<and> status (file_at s (from', i)) = FD_OPENED
        then dup_entry (file_at s (from', i)) (file_at s (to, i)) else file_at s (p, i))) \<and>
     (\<forall>m. inodes s' m = add_counts (int (opens_of s from' is m)) (inodes s m))"
  using assms
proof (induction "is" arbitrary: s)
  case Nil
  then show ?case by (simp add: opens_of_def tables_kept_def)
next
  case (Cons i js)
  note inv = Cons.prems(1)
  show ?case
  proof (cases "status (file_at s (from', i)) = FD_OPENED")
    case False
    from Cons.IH [OF inv] Cons.prems obtain s' where s': "dup_fs_loop s to from' js = Ret s'" "files_inv e K ty A B s'" "tables_kept s s'"
      "\<forall>p j. file_at s' (p, j) = (if p = to \<and> j \<in> set js \<and> status (file_at s (from', j)) = FD_OPENED
         then dup_entry (file_at s (from', j)) (file_at s (to, j)) else file_at s (p, j))"
      "\<forall>m. inodes s' m = add_counts (int (opens_of s from' js m)) (inodes s m)" by force
    then show ?thesis using False by (intro exI [of _ s']) (auto simp: opens_of_Cons)
  next
    case True
    have i: "i < FILES_STRUCT_NENTRY" "i \<notin> set js" using Cons.prems(5,6) by auto
    have ok: "entry_ok i (file_at s (from', i))" "entry_ok i (file_at s (to, i))"
      using files_invD(2) [OF inv] Cons.prems(2,3) i by auto
    then obtain n where n: "node (file_at s (from', i)) = Some n" using True by (auto simp: entry_ok_def)
    let ?x = "dup_entry (file_at s (from', i)) (file_at s (to, i))"
    from fd_array_dup_ok [of "(to, i)" "(from', i)" s n "\<lambda>y. y"] Cons.prems(4) True n obtain s1 where
      s1: "fd_array_dup (upd_file (to, i) (status_update (\<lambda>_. FD_INIT)) s) (to, i) (from', i) = Ret s1" "opened_entry (to, i) ?x n s s1" by auto
    note O = opened_entryD [OF s1(2)]
    have q: "(from', i) \<in> fd_set s A n" using True n i Cons.prems(2) by (simp add: fd_set_def)
    have x: "entry_ok (snd (to, i)) ?x" "status ?x = FD_OPENED" "node ?x = Some n" "status (file_at s (to, i)) = FD_NONE"
      using ok Cons.prems(7) n by (auto simp: entry_ok_def dup_entry_def)
    have b: "ref_count (inodes s n) + 1 < MAX_INODE_COUNT" using Cons.prems(8) q by force
    have inv1: "files_inv e K ty A B s1"
      using opened_entry_inv [OF inv _ _ x(4,1-3) s1(2) _ b] q Cons.prems(3) i(1) by auto
    have fds: "fd_set s1 A m \<noteq> {} \<longleftrightarrow> fd_set s A m \<noteq> {}" for m
    proof -
      have "fd_set s1 A m = (if m = n then insert (to, i) (fd_set s A m) else fd_set s A m)"
        using fd_set_add(1) [of "(to, i)" s1 s n A m] x Cons.prems(3) i(1) by (simp add: O(1))
      then show ?thesis using q by auto
    qed
    have "\<forall>j \<in> set js. status (file_at s1 (to, j)) = FD_NONE" using Cons.prems(7) i(2) by (auto simp: O(1))
    moreover have "\<forall>m. fd_set s1 A m \<noteq> {} \<longrightarrow> ref_count (inodes s1 m) + int (length js) < MAX_INODE_COUNT"
      using Cons.prems(8) fds by (auto simp: O(5))
    ultimately obtain s' where s': "dup_fs_loop s1 to from' js = Ret s'" "files_inv e K ty A B s'" "tables_kept s1 s'"
      "\<forall>p j. file_at s' (p, j) = (if p = to \<and> j \<in> set js \<and> status (file_at s1 (from', j)) = FD_OPENED
         then dup_entry (file_at s1 (from', j)) (file_at s1 (to, j)) else file_at s1 (p, j))"
      "\<forall>m. inodes s' m = add_counts (int (opens_of s1 from' js m)) (inodes s1 m)"
      using Cons.IH [OF inv1] Cons.prems by auto
    have fa: "file_at s1 (from', j) = file_at s (from', j)" for j using Cons.prems(4) by (simp add: O(1))
    have op: "opens_of s1 from' js m = opens_of s from' js m" for m by (rule opens_of_cong) (rule fa)
    have "inodes s' m = add_counts (int (opens_of s from' (i # js) m)) (inodes s m)" for m
      using s'(5) True n by (simp add: O(5) op opens_of_Cons add.commute)
    moreover have "file_at s' (p, j) = (if p = to \<and> j \<in> set (i # js) \<and> status (file_at s (from', j)) = FD_OPENED
        then dup_entry (file_at s (from', j)) (file_at s (to, j)) else file_at s (p, j))" for p j
      using s'(4) i(2) True by (auto simp: fa) (auto simp: O(1))
    moreover have "tables_kept s s'" using s'(3) by (simp add: tables_kept_def O)
    ultimately show ?thesis using s'(1,2) s1(1) True by (intro exI [of _ s']) simp
  qed
qed

context vnode_ops
begin

lemma close_loop_ok:
  assumes "files_inv e K ty A B s" "p \<in> A" "distinct is" "set is \<subseteq> {..< FILES_STRUCT_NENTRY}"
  shows "\<exists>s'. close_loop e chk s p is = Ret s' \<and> files_inv e K ty A B s' \<and> tables_kept s s' \<and>
     (\<forall>r i. file_at s' (r, i) = (if r = p \<and> i \<in> set is \<and> status (file_at s (p, i)) = FD_OPENED
        then (file_at s (p, i))\<lparr>status := FD_NONE, open_count := 0\<rparr> else file_at s (r, i))) \<and>
     (\<forall>m. opens_of s p is m = 0 \<or> int (opens_of s p is m) < ref_count (inodes s m) \<longrightarrow> inodes s' m = add_counts (- int (opens_of s p is m)) (inodes s m))"
  using assms
proof (induction "is" arbitrary: s)
  case Nil
  then show ?case by (simp add: opens_of_def tables_kept_def)
next
  case (Cons i js)
  note inv = Cons.prems(1)
  have i: "i < FILES_STRUCT_NENTRY" "i \<notin> set js" using Cons.prems by auto
  have ok: "entry_ok i (file_at s (p, i))" using files_invD(2) [OF inv Cons.prems(2) i(1)] .
  show ?case
  proof (cases "status (file_at s (p, i)) = FD_OPENED")
    case False
    then have "status (file_at s (p, i)) = FD_NONE" using ok by (auto simp: entry_ok_def)
    moreover from Cons.IH [OF inv] Cons.prems obtain s' where s': "close_loop e chk s p js = Ret s'" "files_inv e K ty A B s'" "tables_kept s s'"
      "\<forall>r j. file_at s' (r, j) = (if r = p \<and> j \<in> set js \<and> status (file_at s (p, j)) = FD_OPENED
         then (file_at s (p, j))\<lparr>status := FD_NONE, open_count := 0\<rparr> else file_at s (r, j))"
      "\<forall>m. opens_of s p js m = 0 \<or> int (opens_of s p js m) < ref_count (inodes s m) \<longrightarrow> inodes s' m = add_counts (- int (opens_of s p js m)) (inodes s m)" by auto
    ultimately show ?thesis using False by (intro exI [of _ s']) (auto simp: opens_of_Cons)
  next
    case True
    then obtain n where n: "node (file_at s (p, i)) = Some n" using ok by (auto simp: entry_ok_def)
    then have q: "(p, i) \<in> fd_set s A n" using True i Cons.prems(2) by (simp add: fd_set_def)
    from fd_array_close_ok [OF inv q] obtain s1 where s1: "fd_array_close e s (p, i) = Ret s1" "files_inv e K ty A B s1" "closed_entry (p, i) n s s1" by blast
    note C = closed_entryD [OF s1(3)]
    from Cons.IH [OF s1(2)] Cons.prems obtain s' where s': "close_loop e chk s1 p js = Ret s'" "files_inv e K ty A B s'" "tables_kept s1 s'"
      "\<forall>r j. file_at s' (r, j) = (if r = p \<and> j \<in> set js \<and> status (file_at s1 (p, j)) = FD_OPENED
         then (file_at s1 (p, j))\<lparr>status := FD_NONE, open_count := 0\<rparr> else file_at s1 (r, j))"
      "\<forall>m. opens_of s1 p js m = 0 \<or> int (opens_of s1 p js m) < ref_count (inodes s1 m) \<longrightarrow> inodes s' m = add_counts (- int (opens_of s1 p js m)) (inodes s1 m)" by auto
    have fa: "file_at s1 (p, j) = file_at s (p, j)" if "j \<in> set js" for j using that i(2) by (auto simp: C(1))
    have op: "opens_of s1 p js m = opens_of s p js m" for m by (rule opens_of_cong) (rule fa)
    have "inodes s' m = add_counts (- int (opens_of s p (i # js) m)) (inodes s m)"
      if m: "opens_of s p (i # js) m = 0 \<or> int (opens_of s p (i # js) m) < ref_count (inodes s m)" for m
    proof (cases "m = n")
      case True': True
      then have o: "opens_of s p (i # js) n = Suc (opens_of s p js n)" using True n by (simp add: opens_of_Cons)
      then have "inodes s1 n = add_counts (-1) (inodes s n)" using m True' by (intro C(6)) simp
      then show ?thesis using s'(5) m True' o op by (simp add: algebra_simps)
    next
      case False
      then show ?thesis using s'(5) m C(5) [OF False] n op by (auto simp: opens_of_Cons)
    qed
    moreover have "file_at s' (r, j) = (if r = p \<and> j \<in> set (i # js) \<and> status (file_at s (p, j)) = FD_OPENED
        then (file_at s (p, j))\<lparr>status := FD_NONE, open_count := 0\<rparr> else file_at s (r, j))" for r j
      using s'(4) i(2) True by (cases "j = i") (auto simp: C(1))
    moreover have "tables_kept s s'" using s'(3) by (simp add: tables_kept_def C)
    ultimately show ?thesis using s'(1,2) s1(1) True by (intro exI [of _ s']) (simp add: C(1))
  qed
qed

end

subsection \<open>Working directories\<close>

lemma held_ok_add_cwd:
  assumes "held_ok e K ty x f c" "ref_count x + 1 < MAX_INODE_COUNT"
  shows "held_ok e K ty (ref_count_update (\<lambda>c. c + 1) x) f (Suc c)"
  using assms by (auto simp: held_ok_def served_def)

lemma cwd_share_inv:
  assumes inv: "files_inv e K ty A B s" and p: "p \<notin> B" "r \<in> B" "pwd (files s r) = w"
    and b: "\<forall>n. w = Some n \<longrightarrow> ref_count (inodes s n) + 1 < MAX_INODE_COUNT"
  defines "s1 \<equiv> upd_files p (pwd_update (\<lambda>_. w)) s"
  shows "files_inv e K ty A (insert p B) (case w of None \<Rightarrow> s1 | Some n \<Rightarrow> inode_ref_inc s1 n)"
proof -
  let ?s2 = "case w of None \<Rightarrow> s1 | Some n \<Rightarrow> inode_ref_inc s1 n"
  have fa: "file_at ?s2 q = file_at s q" for q by (cases w) (auto simp: s1_def file_at_def)
  have fds: "fd_set ?s2 A m = fd_set s A m" for m by (simp add: fd_set_def fa)
  have "pwd (files ?s2 k) = (if k = p then w else pwd (files s k))" for k by (cases w) (auto simp: s1_def)
  then have cwd: "cwd_set ?s2 (insert p B) m = (if w = Some m then insert p (cwd_set s B m) else cwd_set s B m)" for m
    using p(1) by (auto simp: cwd_set_def)
  have np: "p \<notin> cwd_set s B m" for m using p(1) by (simp add: cwd_set_def)
  have "held_ok e K ty (inodes ?s2 m) (card (fd_set ?s2 A m)) (card (cwd_set ?s2 (insert p B) m))"
    if m: "fd_set ?s2 A m \<noteq> {} \<or> cwd_set ?s2 (insert p B) m \<noteq> {}" for m
  proof (cases "w = Some m")
    case True
    have "r \<in> cwd_set s B m" using p(2,3) True by (simp add: cwd_set_def)
    then have "held_ok e K ty (inodes s m) (card (fd_set s A m)) (card (cwd_set s B m))" using files_invD(3) [OF inv, of m] by blast
    moreover have "card (cwd_set ?s2 (insert p B) m) = Suc (card (cwd_set s B m))"
      unfolding cwd using np finite_cwd_set [OF files_invD(4) [OF inv], of s m] True by simp
    ultimately show ?thesis using held_ok_add_cwd b True fds by (simp add: s1_def)
  next
    case False
    have "inodes ?s2 m = inodes s m" using False by (cases w) (auto simp: s1_def)
    moreover have "cwd_set ?s2 (insert p B) m = cwd_set s B m" using False by (simp add: cwd)
    ultimately show ?thesis using files_invD(3) [OF inv, of m] m fds by simp
  qed
  then show ?thesis using files_invD(1,2,4) [OF inv] fa by (simp add: files_inv_def)
qed

context vnode_ops
begin

lemma cwd_drop_ok:
  assumes inv: "files_inv e K ty A B s" and p: "p \<in> B" "pwd (files s p) = Some n"
  shows "\<exists>s'. inode_ref_dec e s n = Ret (s', ref_count (inodes s n) - 1) \<and> files_inv e K ty A (B - {p}) s' \<and> files s' = files s \<and>
     cur_files s' = cur_files s \<and> (\<forall>m. m \<noteq> n \<longrightarrow> inodes s' m = inodes s m) \<and>
     (1 < ref_count (inodes s n) \<longrightarrow> inodes s' n = (inodes s n)\<lparr>ref_count := ref_count (inodes s n) - 1\<rparr>)"
proof -
  have pc: "p \<in> cwd_set s B n" using p by (simp add: cwd_set_def)
  note fin = finite_cwd_set [OF files_invD(4) [OF inv], of s n]
  have h: "held_ok e K ty (inodes s n) (card (fd_set s A n)) (card (cwd_set s B n))" using files_invD(3) [OF inv, of n] pc by blast
  have c0: "0 < card (cwd_set s B n)" using pc fin by (auto simp: card_gt_0_iff)
  note H = held_droppable [OF h disjI2 [OF c0]]
  from inode_ref_dec_ok [OF H(1,8,2)] H(3,4) H(7) [OF c0] obtain s' where
    s': "inode_ref_dec e s n = Ret (s', ref_count (inodes s n) - 1)" "same_vfs_but n s s'"
    "1 < ref_count (inodes s n) \<longrightarrow> s' = upd_inode n (ref_count_update (\<lambda>c. c - 1)) s" by auto
  have fl: "files s' = files s" "cur_files s' = cur_files s" and oth: "\<And>m. m \<noteq> n \<Longrightarrow> inodes s' m = inodes s m"
    using s'(2) by (simp_all add: same_vfs_but_def)
  have fds: "fd_set s' A m = fd_set s A m" for m by (simp add: fd_set_def file_at_cong [OF fl(1)])
  have cwd: "cwd_set s' (B - {p}) m = cwd_set s B m - {p}" for m by (auto simp: cwd_set_def fl)
  have "held_ok e K ty (inodes s' m) (card (fd_set s' A m)) (card (cwd_set s' (B - {p}) m))"
    if m: "fd_set s' A m \<noteq> {} \<or> cwd_set s' (B - {p}) m \<noteq> {}" for m
  proof (cases "m = n")
    case True
    have cd: "card (cwd_set s B n) = Suc (card (cwd_set s' (B - {p}) n))" unfolding cwd by (rule card.remove [OF fin pc])
    have "0 < card (fd_set s A n) \<or> 0 < card (cwd_set s' (B - {p}) n)"
      using m True fds finite_fd_set [OF files_invD(1) [OF inv], of s n] fin cwd by (auto simp: card_gt_0_iff)
    then have "1 < ref_count (inodes s n)" using h cd by (auto simp: held_ok_def split: if_splits)
    then show ?thesis using s'(3) h cd True fds by (auto simp: held_ok_def served_def)
  next
    case False
    then have "cwd_set s' (B - {p}) m = cwd_set s B m" using cwd p(2) by (auto simp: cwd_set_def)
    then show ?thesis using files_invD(3) [OF inv, of m] m fds oth [OF False] by simp
  qed
  then have "files_inv e K ty A (B - {p}) s'" using files_invD(1,2,4) [OF inv] by (simp add: files_inv_def file_at_cong [OF fl(1)])
  then show ?thesis using s'(1,3) fl oth by (intro exI [of _ s']) auto
qed

end

subsection \<open>Operations on one descriptor\<close>

text \<open>The state after an operation that changes at most the position of \<open>q\<close>.\<close>

definition moved_entry :: "file_ptr \<Rightarrow> u32 \<Rightarrow> 's vfs_state \<Rightarrow> 's vfs_state \<Rightarrow> bool" where
  "moved_entry q p s s' \<longleftrightarrow> (\<forall>r. file_at s' r = (if r = q then (file_at s q)\<lparr>pos := p\<rparr> else file_at s r)) \<and>
     tables_kept s s' \<and> inodes s' = inodes s"

lemma moved_entryD:
  assumes "moved_entry q p s s'"
  shows "file_at s' r = (if r = q then (file_at s q)\<lparr>pos := p\<rparr> else file_at s r)"
    "inodes s' = inodes s" "cur_files s' = cur_files s" "pwd (files s' k) = pwd (files s k)" "files_count (files s' k) = files_count (files s k)"
  using assms unfolding moved_entry_def tables_kept_def by blast+

lemma moved_entry_inv:
  assumes inv: "files_inv e K ty A B s" and m: "moved_entry q p s s'"
  shows "files_inv e K ty A B s'"
proof -
  have fa: "status (file_at s' r) = status (file_at s r)" "node (file_at s' r) = node (file_at s r)"
    "entry_ok i (file_at s' r) = entry_ok i (file_at s r)" for r i
    by (simp_all add: moved_entryD(1) [OF m] entry_ok_def)
  have "fd_set s' A n = fd_set s A n" "cwd_set s' B n = cwd_set s B n" for n
    by (simp_all add: fd_set_def cwd_set_def fa moved_entryD(4) [OF m])
  then show ?thesis using inv by (simp add: files_inv_def fa moved_entryD(2) [OF m])
qed

text \<open>Between acquire and release the entry counts twice, so releasing it frees nothing.\<close>

lemma acquire_release:
  assumes q: "entry_ok i (file_at s q)" "status (file_at s q) = FD_OPENED" and sv: "same_vfs (upd_file q (open_count_update (\<lambda>c. c + 1)) s) s2"
  shows "fd_array_acquire s q = Ret (upd_file q (open_count_update (\<lambda>c. c + 1)) s)" "file_at s2 q = (file_at s q)\<lparr>open_count := 2\<rparr>"
    "\<exists>s'. fd_array_release e (upd_file q (pos_update (\<lambda>_. p)) s2) q = Ret s' \<and> moved_entry q p s s'"
    "\<exists>s'. fd_array_release e s2 q = Ret s' \<and> moved_entry q (pos (file_at s q)) s s'"
proof -
  have oc: "open_count (file_at s q) = 1" using q by (auto simp: entry_ok_def)
  show "fd_array_acquire s q = Ret (upd_file q (open_count_update (\<lambda>c. c + 1)) s)" using q by (simp add: fd_array_acquire_def)
  have fa: "file_at s2 = file_at (upd_file q (open_count_update (\<lambda>c. c + 1)) s)" using sv by (intro file_at_cong) (simp add: same_vfs_def)
  show "file_at s2 q = (file_at s q)\<lparr>open_count := 2\<rparr>" using oc by (simp add: fa)
  let ?s3 = "\<lambda>f. upd_file q (open_count_update (\<lambda>c. c - 1)) (f s2)"
  have tk: "inodes s2 = inodes s" "cur_files s2 = cur_files s" "pwd (files s2 k) = pwd (files s k)" "files_count (files s2 k) = files_count (files s k)" for k
    using sv by (simp_all add: same_vfs_def)
  show "\<exists>s'. fd_array_release e (upd_file q (pos_update (\<lambda>_. p)) s2) q = Ret s' \<and> moved_entry q p s s'"
    using q(2) oc by (intro exI [of _ "?s3 (upd_file q (pos_update (\<lambda>_. p)))"])
      (auto simp: fd_array_release_def fa moved_entry_def tables_kept_def tk)
  show "\<exists>s'. fd_array_release e s2 q = Ret s' \<and> moved_entry q (pos (file_at s q)) s s'"
    using q(2) oc by (intro exI [of _ "?s3 (\<lambda>x. x)"]) (auto simp: fd_array_release_def fa moved_entry_def tables_kept_def tk)
qed

context vnode_ops
begin

lemma vop_at:
  assumes "served K ty (inodes s n)" "inode_check e s n" "sel (ops_at e (the (in_ops (inodes s n)))) = Some f"
  shows "vop_op sel e s n = Ret f"
  using assms by (auto simp: served_def vop_op_def)

lemma open_file_served:
  assumes inv: "files_inv e K ty A B s" and q: "q \<in> fd_set s A n"
  shows "served K ty (inodes s n)" "inode_check e s n"
proof -
  have h: "held_ok e K ty (inodes s n) (card (fd_set s A n)) (card (cwd_set s B n))" using files_invD(3) [OF inv] q by blast
  have "0 < card (fd_set s A n)" using q finite_fd_set [OF files_invD(1) [OF inv], of s n] by (auto simp: card_gt_0_iff)
  note H = held_droppable [OF h disjI1 [OF this]]
  show "served K ty (inodes s n)" "inode_check e s n" using H check_served by auto
qed

lemma open_fd:
  assumes inv: "files_inv e K ty A B s" and p: "p \<in> A" and d: "testfd d" "status (file_at s (p, nat d)) = FD_OPENED"
  obtains n where "node (file_at s (p, nat d)) = Some n" "(p, nat d) \<in> fd_set s A n" "entry_ok (nat d) (file_at s (p, nat d))"
proof -
  have "entry_ok (nat d) (file_at s (p, nat d))" using files_invD(2) [OF inv p] testfd_nat [OF d(1)] by blast
  then show thesis using that d p testfd_nat [OF d(1)] by (auto simp: entry_ok_def fd_set_def)
qed

lemma file_close_ok:
  assumes inv: "files_inv e K ty A B s" and p: "cur_files s = Some p" "p \<in> A" "files_count (files s p) > 0"
  shows "if testfd d \<and> status (file_at s (p, nat d)) = FD_OPENED
     then \<exists>s' n. file_close e s d = Ret (s', 0) \<and> node (file_at s (p, nat d)) = Some n \<and> closed_entry (p, nat d) n s s' \<and> files_inv e K ty A B s'
     else file_close e s d = Ret (s, - E_INVAL)"
proof (cases "testfd d \<and> status (file_at s (p, nat d)) = FD_OPENED")
  case True
  then obtain n where n: "node (file_at s (p, nat d)) = Some n" "(p, nat d) \<in> fd_set s A n" using open_fd [OF inv p(2)] by blast
  from fd_array_close_ok [OF inv n(2)] obtain s' where "fd_array_close e s (p, nat d) = Ret s'" "files_inv e K ty A B s'" "closed_entry (p, nat d) n s s'" by blast
  then show ?thesis using True n(1) by (auto simp: file_close_def with_file_ok [OF inv p])
qed (auto simp: file_close_def with_file_ok [OF inv p])

lemma file_seek_ok:
  assumes inv: "files_inv e K ty A B s" and p: "cur_files s = Some p" "p \<in> A" "files_count (files s p) > 0"
  shows "\<exists>s' r. file_seek e s d x whence = Ret (s', r) \<and> files_inv e K ty A B s' \<and> cur_files s' = cur_files s \<and>
     (\<forall>k. files_count (files s' k) = files_count (files s k)) \<and> inodes s' = inodes s"
proof (cases "testfd d \<and> status (file_at s (p, nat d)) = FD_OPENED")
  case False
  then show ?thesis using inv by (auto simp: file_seek_def with_file_ok [OF inv p])
next
  case True
  let ?q = "(p, nat d)"
  from True open_fd [OF inv p(2)] obtain n where n: "node (file_at s ?q) = Some n" "?q \<in> fd_set s A n" "entry_ok (nat d) (file_at s ?q)" by blast
  let ?s1 = "upd_file ?q (open_count_update (\<lambda>c. c + 1)) s"
  note sv = open_file_served [OF inv n(2)]
  then obtain k where k: "k \<in> K" "in_ops (inodes s n) = Some k" "in_type (inodes s n) = ty k" by (auto simp: served_def)
  have chk: "inode_check e t n \<and> served K ty (inodes t n)" if "inodes t = inodes s" for t using sv that by (simp add: inode_check_def)
  have st: "\<exists>s' r. vop_tryseek e t n x = Ret (s', r) \<and> same_vfs t s'" if "inodes t = inodes s" for t x
    using tryseek_law [OF k(1), of t n x] vop_at [of t n op_tryseek] chk [OF that] k that by (fastforce simp: vop_tryseek_def)
  have fs: "\<exists>s' a r. vop_fstat e ?s1 n = Ret (s', a, r) \<and> same_vfs ?s1 s'"
    using fstat_law [OF k(1), of ?s1 n] vop_at [of ?s1 n op_fstat] chk [of ?s1] k by (fastforce simp: vop_fstat_def)
  have "\<exists>s2 x2 r2. seek_target e ?s1 ?q x whence = Ret (s2, x2, r2) \<and> same_vfs ?s1 s2"
  proof (cases "whence \<in> {LSEEK_SET, LSEEK_CUR} \<or> whence \<noteq> LSEEK_END")
    case True
    then show ?thesis by (auto simp: seek_target_def same_vfs_def)
  next
    case False
    then show ?thesis using fs n(1) by (auto simp: seek_target_def file_node_def)
  qed
  then obtain s2 x2 r2 where s2: "seek_target e ?s1 ?q x whence = Ret (s2, x2, r2)" "same_vfs ?s1 s2" by blast
  note acq = acquire_release [OF n(3) conjunct2 [OF True]]
  have n2: "file_node s2 ?q = Ret n" using n(1) acq(2) [OF s2(2)] by (simp add: file_node_def)
  from st [of s2 x2] s2(2) obtain s3 r3 where s3: "vop_tryseek e s2 n x2 = Ret (s3, r3)" "same_vfs s2 s3" by (auto simp: same_vfs_def)
  then have sv3: "same_vfs ?s1 s3" using s2(2) by (simp add: same_vfs_def)
  from acq(3) [OF sv3, of e x2] obtain t1 where t1: "fd_array_release e (upd_file ?q (pos_update (\<lambda>_. x2)) s3) ?q = Ret t1" "moved_entry ?q x2 s t1" by blast
  from acq(4) [OF sv3, of e] obtain t2 where t2: "fd_array_release e s3 ?q = Ret t2" "moved_entry ?q (pos (file_at s ?q)) s t2" by blast
  from acq(4) [OF s2(2), of e] obtain t3 where t3: "fd_array_release e s2 ?q = Ret t3" "moved_entry ?q (pos (file_at s ?q)) s t3" by blast
  have "file_seek e s d x whence = Ret (if r2 = 0 then if r3 = 0 then (t1, r3) else (t2, r3) else (t3, r2))"
    unfolding file_seek_def with_file_ok [OF inv p] using True acq(1) [OF s2(2)] s2(1) n2 s3(1) t1(1) t2(1) t3(1) by auto
  then show ?thesis using moved_entry_inv [OF inv t1(2)] moved_entry_inv [OF inv t2(2)] moved_entry_inv [OF inv t3(2)] t1(2) t2(2) t3(2)
    by (auto simp: moved_entry_def tables_kept_def)
qed

end

context vnode_ops
begin

lemma file_dup_ok:
  assumes inv: "files_inv e K ty A B s" and p: "cur_files s = Some p" "p \<in> A" "files_count (files s p) > 0"
    and b: "\<forall>n. ref_count (inodes s n) + 1 < MAX_INODE_COUNT"
  shows "\<exists>s' r. file_dup s d1 d2 = Ret (s', r) \<and> files_inv e K ty A B s' \<and> tables_kept s s' \<and>
     (r < 0 \<and> s' = s \<or> (\<exists>n. opened_entry (p, nat r) (dup_entry (file_at s (p, nat d1)) ((file_at s (p, nat r))\<lparr>node := None\<rparr>)) n s s'))"
proof -
  let ?q1 = "(p, nat d1)"
  define i where "i = (if d2 = NO_FD then find (\<lambda>i. status (file_at s (p, i)) = FD_NONE) [0 ..< FILES_STRUCT_NENTRY]
               else if testfd d2 \<and> status (file_at s (p, nat d2)) = FD_NONE then Some (nat d2) else None)"
  note al = fd_array_alloc_ok [OF inv p, of d2, folded i_def]
  show ?thesis
  proof (cases "testfd d1 \<and> status (file_at s ?q1) = FD_OPENED")
    case False
    then have "file_dup s d1 d2 = Ret (s, - E_INVAL)" by (auto simp: file_dup_def with_file_ok [OF inv p])
    then show ?thesis using inv by (simp add: tables_kept_def E_INVAL_def)
  next
    case True
    show ?thesis
    proof (cases i)
      case None
      then show ?thesis using inv True al by (simp add: file_dup_def with_file_ok [OF inv p] tables_kept_def error_codes)
    next
      case (Some j)
      then have j: "j < FILES_STRUCT_NENTRY" "status (file_at s (p, j)) = FD_NONE"
        using testfd_nat by (auto simp: i_def find_Some_iff split: if_splits)
      then have "entry_ok j (file_at s (p, j))" using files_invD(2) [OF inv p(2)] by blast
      from True open_fd [OF inv p(2)] obtain n where n: "node (file_at s ?q1) = Some n" "?q1 \<in> fd_set s A n" by blast
      have ne: "(p, j) \<noteq> ?q1" using True j(2) by auto
      let ?x = "dup_entry (file_at s ?q1) ((file_at s (p, j))\<lparr>node := None\<rparr>)"
      have "upd_file (p, j) (\<lambda>y. y\<lparr>node := None, status := FD_INIT\<rparr>) s = upd_file (p, j) (\<lambda>y. y\<lparr>status := FD_INIT, node := None\<rparr>) s"
        by (rule upd_file_cong) simp
      with fd_array_dup_ok [OF ne _ n(1), of "node_update (\<lambda>_. None)"] True obtain s' where
        s': "fd_array_dup (upd_file (p, j) (\<lambda>y. y\<lparr>status := FD_INIT, node := None\<rparr>) s) (p, j) ?q1 = Ret s'" "opened_entry (p, j) ?x n s s'" by auto
      have x: "entry_ok (snd (p, j)) ?x" "status ?x = FD_OPENED" "node ?x = Some n"
        using \<open>entry_ok j _\<close> j(2) n(1) by (auto simp: entry_ok_def dup_entry_def)
      have "files_inv e K ty A B s'" using opened_entry_inv [OF inv _ _ j(2) x s'(2)] p(2) j(1) n(2) b by auto
      moreover have "fd (file_at s' (p, j)) = int j" using x(1) by (simp add: opened_entryD(1) [OF s'(2)] entry_ok_def)
      moreover have "file_dup s d1 d2 = Ret (s', fd (file_at s' (p, j)))"
        using True al Some s'(1) by (simp add: file_dup_def with_file_ok [OF inv p])
      moreover have "tables_kept s s'" by (simp add: tables_kept_def opened_entryD [OF s'(2)])
      ultimately show ?thesis using s'(2) by (intro exI [of _ s'] exI [of _ "int j"]) auto
    qed
  qed
qed

text \<open>Reading and writing advance the position by the bytes used, if the operation returns.\<close>

lemma file_io_keeps:
  assumes inv: "files_inv e K ty A B s" and p: "cur_files s = Some p" "p \<in> A" "files_count (files s p) > 0"
    and io: "file_read e s d base len = Ret (s', copied, r) \<or> file_write e s d base len = Ret (s', copied, r)"
  shows "files_inv e K ty A B s' \<and> tables_kept s s' \<and> inodes s' = inodes s"
proof (cases "testfd d \<and> status (file_at s (p, nat d)) = FD_OPENED")
  case False
  then have "s' = s" using io by (auto simp: file_read_def file_write_def with_file_ok [OF inv p])
  then show ?thesis using inv by (simp add: tables_kept_def)
next
  case True
  let ?q = "(p, nat d)"
  from True open_fd [OF inv p(2)] obtain n where n: "node (file_at s ?q) = Some n" "?q \<in> fd_set s A n" "entry_ok (nat d) (file_at s ?q)" by blast
  let ?s1 = "upd_file ?q (open_count_update (\<lambda>c. c + 1)) s"
  from open_file_served [OF inv n(2)] obtain k where k: "k \<in> K" "in_ops (inodes ?s1 n) = Some k" by (auto simp: served_def)
  have vr: "same_vfs ?s1 s2" if "vop_read e ?s1 n iob = Ret (s2, iob2, r2)" for s2 iob iob2 r2
    using that k read_law [OF k(1)] by (auto simp: vop_read_def vop_op_def split: option.splits)
  have vw: "same_vfs ?s1 s2" if "vop_write e ?s1 n iob = Ret (s2, iob2, r2)" for s2 iob iob2 r2
    using that k write_law [OF k(1)] by (auto simp: vop_write_def vop_op_def split: option.splits)
  have st: "status (file_at s ?q) = FD_OPENED" using True by simp
  note acq = acquire_release [OF n(3) st]
  define rel where "rel s2 c =
     fd_array_release e (if status (file_at s2 ?q) = FD_OPENED then upd_file ?q (pos_update (\<lambda>p. p + c)) s2 else s2) ?q" for s2 and c :: u32
  have mv: "\<exists>pp. moved_entry ?q pp s s'" if "same_vfs ?s1 s2" "rel s2 c = Ret s'" for s2 c
  proof -
    have "file_at s2 ?q = (file_at s ?q)\<lparr>open_count := 2\<rparr>" by (rule acq(2) [OF that(1)])
    then have "upd_file ?q (pos_update (\<lambda>p. p + c)) s2 = upd_file ?q (pos_update (\<lambda>_. pos (file_at s ?q) + c)) s2"
      by (intro upd_file_cong) simp
    then show ?thesis using that(2) acq(3) [OF that(1), of e "pos (file_at s ?q) + c"] st acq(2) [OF that(1)] by (auto simp: rel_def)
  qed
  have a1: "fd_array_acquire s ?q = Ret ?s1" using st by (simp add: fd_array_acquire_def)
  from io have "s' = s \<or> (\<exists>s2 c. same_vfs ?s1 s2 \<and> rel s2 c = Ret s')"
    unfolding file_read_def file_write_def with_file_ok [OF inv p] file_node_def Let_def rel_def [symmetric]
    using True a1 n(1) by (auto split: if_splits dest: vr vw)
  then have "(\<exists>pp. moved_entry ?q pp s s') \<or> s' = s" using mv by blast
  then show ?thesis using moved_entry_inv [OF inv] inv by (auto simp: tables_kept_def moved_entryD)
qed

end

subsection \<open>Sharing and destroying a table\<close>

text \<open>A table as \<open>files_create\<close> leaves it.\<close>

definition fresh_table :: "'s vfs_state \<Rightarrow> nat \<Rightarrow> bool" where
  "fresh_table s p \<longleftrightarrow> files_count (files s p) = 0 \<and> pwd (files s p) = None \<and>
     (\<forall>i < FILES_STRUCT_NENTRY. status (file_at s (p, i)) = FD_NONE \<and> open_count (file_at s (p, i)) = 0 \<and> fd (file_at s (p, i)) = int i)"

lemma fd_array_init_spec:
  "fd_array_init fa i = (if i < FILES_STRUCT_NENTRY then (fa i)\<lparr>open_count := 0, status := FD_NONE, fd := int i\<rparr> else fa i)"
proof -
  let ?f = "\<lambda>i fa. fa(i := (fa i)\<lparr>open_count := 0, status := FD_NONE, fd := int i\<rparr>)"
  have "fold ?f [0 ..< k] fa i = (if i < k then (fa i)\<lparr>open_count := 0, status := FD_NONE, fd := int i\<rparr> else fa i)" for k
    by (induction k) auto
  then show ?thesis by (simp add: fd_array_init_def)
qed

lemma files_create_fresh: "files_create (Some p) s = (s', r) \<Longrightarrow> r = Some p \<and> fresh_table s' p \<and> inodes s' = inodes s"
  by (auto simp: files_create_def fresh_table_def file_at_def fd_array_init_spec)

text \<open>A fresh table adds no references.\<close>

lemma fresh_table_inv:
  assumes "files_inv e K ty A B s" "fresh_table s p"
  shows "files_inv e K ty (insert p A) B s"
proof -
  have "fd_set s (insert p A) n = fd_set s A n" for n using assms(2) by (auto simp: fd_set_def fresh_table_def)
  moreover have "entry_ok i (file_at s (p, i))" if "i < FILES_STRUCT_NENTRY" for i
    using assms(2) that by (simp add: fresh_table_def entry_ok_def)
  ultimately show ?thesis using assms(1) by (simp add: files_inv_def)
qed

definition cwd_is :: "'s vfs_state \<Rightarrow> nat \<Rightarrow> nat \<Rightarrow> int" where
  "cwd_is s p m = (if pwd (files s p) = Some m then 1 else 0)"

lemma dup_fs_ok:
  assumes inv: "files_inv e K ty A B s" and f: "from' \<in> A" "from' \<in> B" "files_count (files s from') > 0"
    and t: "to \<notin> A" "to \<notin> B" "fresh_table s to"
    and b: "\<forall>n. ref_count (inodes s n) + 1 + int FILES_STRUCT_NENTRY < MAX_INODE_COUNT"
  shows "\<exists>s'. dup_fs s to from' = Ret (s', 0) \<and> files_inv e K ty (insert to A) (insert to B) s' \<and>
     pwd (files s' to) = pwd (files s from') \<and> files_count (files s' to) = 0 \<and>
     (\<forall>p i. file_at s' (p, i) = (if p = to \<and> i < FILES_STRUCT_NENTRY \<and> status (file_at s (from', i)) = FD_OPENED
        then dup_entry (file_at s (from', i)) (file_at s (to, i)) else file_at s (p, i))) \<and>
     (\<forall>m. inodes s' m = add_counts (int (opens_of s from' [0 ..< FILES_STRUCT_NENTRY] m)) ((inodes s m)\<lparr>ref_count := ref_count (inodes s m) + cwd_is s from' m\<rparr>))"
proof -
  let ?w = "pwd (files s from')"
  define s1 where "s1 = upd_files to (pwd_update (\<lambda>_. ?w)) s"
  define s2 where "s2 = (case ?w of None \<Rightarrow> s1 | Some n \<Rightarrow> inode_ref_inc s1 n)"
  have ne: "to \<noteq> from'" using f t by auto
  have inv1: "files_inv e K ty (insert to A) B s" by (rule fresh_table_inv [OF inv t(3)])
  have b1: "\<forall>n. ?w = Some n \<longrightarrow> ref_count (inodes s n) + 1 < MAX_INODE_COUNT"
  proof (intro allI impI)
    fix n show "ref_count (inodes s n) + 1 < MAX_INODE_COUNT" using spec [OF b, of n] by simp
  qed
  have inv2: "files_inv e K ty (insert to A) (insert to B) s2"
    unfolding s2_def s1_def by (rule cwd_share_inv [OF inv1 t(2) f(2) refl b1])
  have fa: "file_at s2 = file_at s" by (auto simp: s2_def s1_def file_at_def fun_eq_iff split: option.splits)
  have pw: "pwd (files s2 to) = ?w" "files_count (files s2 k) = files_count (files s k)" for k by (auto simp: s2_def s1_def split: option.splits)
  have io: "inodes s2 m = (inodes s m)\<lparr>ref_count := ref_count (inodes s m) + cwd_is s from' m\<rparr>" for m
    by (auto simp: s2_def s1_def cwd_is_def split: option.splits)
  have "\<forall>i \<in> set [0 ..< FILES_STRUCT_NENTRY]. status (file_at s2 (to, i)) = FD_NONE" using t(3) by (simp add: fa fresh_table_def)
  moreover have "\<forall>n. fd_set s2 (insert to A) n \<noteq> {} \<longrightarrow> ref_count (inodes s2 n) + int (length [0 ..< FILES_STRUCT_NENTRY]) < MAX_INODE_COUNT"
  proof (intro allI impI)
    fix n show "ref_count (inodes s2 n) + int (length [0 ..< FILES_STRUCT_NENTRY]) < MAX_INODE_COUNT"
      using spec [OF b, of n] by (auto simp: io cwd_is_def)
  qed
  ultimately obtain s3 where s3: "dup_fs_loop s2 to from' [0 ..< FILES_STRUCT_NENTRY] = Ret s3" "files_inv e K ty (insert to A) (insert to B) s3"
    "tables_kept s2 s3"
    "\<forall>p i. file_at s3 (p, i) = (if p = to \<and> i \<in> set [0 ..< FILES_STRUCT_NENTRY] \<and> status (file_at s2 (from', i)) = FD_OPENED
        then dup_entry (file_at s2 (from', i)) (file_at s2 (to, i)) else file_at s2 (p, i))"
    "\<forall>m. inodes s3 m = add_counts (int (opens_of s2 from' [0 ..< FILES_STRUCT_NENTRY] m)) (inodes s2 m)"
    using dup_fs_loop_ok [OF inv2, of from' to "[0 ..< FILES_STRUCT_NENTRY]"] f(1) ne by force
  have "dup_fs s to from' = Ret (s3, 0)"
    using s3(1) [unfolded s2_def s1_def] f(3) t(3) by (simp add: dup_fs_def fresh_table_def Let_def)
  moreover have "opens_of s2 = opens_of s" by (simp add: opens_of_def fun_eq_iff fa)
  ultimately show ?thesis using s3(2-5) t(3) pw io by (intro exI [of _ s3]) (simp add: fa tables_kept_def fresh_table_def)
qed

context vnode_ops
begin

lemma files_destroy_ok:
  assumes inv: "files_inv e K ty A B s" and p: "p \<in> A" "p \<in> B" "files_count (files s p) = 0"
  shows "\<exists>s'. files_destroy e s p = Ret s' \<and> files_inv e K ty A (B - {p}) s' \<and>
     (\<forall>i < FILES_STRUCT_NENTRY. status (file_at s' (p, i)) = FD_NONE) \<and> (\<forall>r i. r \<noteq> p \<longrightarrow> file_at s' (r, i) = file_at s (r, i)) \<and>
     (\<forall>m. int (opens_of s p [0 ..< FILES_STRUCT_NENTRY] m) + cwd_is s p m < ref_count (inodes s m) \<or> opens_of s p [0 ..< FILES_STRUCT_NENTRY] m = 0 \<and> cwd_is s p m = 0 \<longrightarrow>
        inodes s' m = add_counts (- int (opens_of s p [0 ..< FILES_STRUCT_NENTRY] m)) ((inodes s m)\<lparr>ref_count := ref_count (inodes s m) - cwd_is s p m\<rparr>))"
proof -
  let ?is = "[0 ..< FILES_STRUCT_NENTRY]"
  have "\<exists>s1. (case pwd (files s p) of None \<Rightarrow> Ret s | Some n \<Rightarrow> bind_outcome (inode_ref_dec e s n) (\<lambda>(s1, _). Ret s1)) = Ret s1 \<and>
     files_inv e K ty A (B - {p}) s1 \<and> files s1 = files s \<and>
     (\<forall>m. cwd_is s p m < ref_count (inodes s m) \<or> cwd_is s p m = 0 \<longrightarrow> inodes s1 m = (inodes s m)\<lparr>ref_count := ref_count (inodes s m) - cwd_is s p m\<rparr>)"
  proof (cases "pwd (files s p)")
    case None
    then have "cwd_set s (B - {p}) m = cwd_set s B m" for m by (auto simp: cwd_set_def)
    then show ?thesis using None inv by (simp add: files_inv_def cwd_is_def)
  next
    case (Some n)
    from cwd_drop_ok [OF inv p(2) Some] show ?thesis using Some by (force simp: cwd_is_def)
  qed
  then obtain s1 where s1: "(case pwd (files s p) of None \<Rightarrow> Ret s | Some n \<Rightarrow> bind_outcome (inode_ref_dec e s n) (\<lambda>(s1, _). Ret s1)) = Ret s1"
    "files_inv e K ty A (B - {p}) s1" "files s1 = files s"
    "\<forall>m. cwd_is s p m < ref_count (inodes s m) \<or> cwd_is s p m = 0 \<longrightarrow> inodes s1 m = (inodes s m)\<lparr>ref_count := ref_count (inodes s m) - cwd_is s p m\<rparr>" by blast
  note fa = file_at_cong [OF s1(3)]
  have "set ?is \<subseteq> {..< FILES_STRUCT_NENTRY}" by auto
  from close_loop_ok [OF s1(2) p(1) distinct_upt this, of True] obtain s' where s': "close_loop e True s1 p ?is = Ret s'" "files_inv e K ty A (B - {p}) s'"
    "\<forall>r i. file_at s' (r, i) = (if r = p \<and> i \<in> set ?is \<and> status (file_at s1 (p, i)) = FD_OPENED
       then (file_at s1 (p, i))\<lparr>status := FD_NONE, open_count := 0\<rparr> else file_at s1 (r, i))"
    "\<forall>m. opens_of s1 p ?is m = 0 \<or> int (opens_of s1 p ?is m) < ref_count (inodes s1 m) \<longrightarrow> inodes s' m = add_counts (- int (opens_of s1 p ?is m)) (inodes s1 m)"
    by blast
  have op: "opens_of s1 p ?is m = opens_of s p ?is m" for m by (simp add: opens_of_def fa)
  have "files_destroy e s p = Ret s'" using s1(1) s'(1) p(3) by (auto simp: files_destroy_def)
  moreover have "status (file_at s' (p, i)) = FD_NONE" if "i < FILES_STRUCT_NENTRY" for i
    using s'(3) files_invD(2) [OF inv p(1) that] that by (auto simp: fa entry_ok_def)
  moreover have "inodes s' m = add_counts (- int (opens_of s p ?is m)) ((inodes s m)\<lparr>ref_count := ref_count (inodes s m) - cwd_is s p m\<rparr>)"
    if "int (opens_of s p ?is m) + cwd_is s p m < ref_count (inodes s m) \<or> opens_of s p ?is m = 0 \<and> cwd_is s p m = 0" for m
  proof -
    have i1: "inodes s1 m = (inodes s m)\<lparr>ref_count := ref_count (inodes s m) - cwd_is s p m\<rparr>" using s1(4) that by auto
    then have "opens_of s1 p ?is m = 0 \<or> int (opens_of s1 p ?is m) < ref_count (inodes s1 m)" using that by (auto simp: op)
    then show ?thesis using mp [OF spec [OF s'(4)]] i1 op by metis
  qed
  ultimately show ?thesis using s'(2,3) by (intro exI [of _ s']) (simp add: fa)
qed

text \<open>Forking and then exiting gives back every count.\<close>

lemma fork_exit_files:
  assumes inv: "files_inv e K ty A B s" and f: "from' \<in> A" "from' \<in> B" "files_count (files s from') > 0"
    and t: "to \<notin> A" "to \<notin> B" "fresh_table s to" and b: "\<forall>n. ref_count (inodes s n) + 1 + int FILES_STRUCT_NENTRY < MAX_INODE_COUNT"
  shows "\<exists>s1 s2. dup_fs s to from' = Ret (s1, 0) \<and> files_inv e K ty (insert to A) (insert to B) s1 \<and>
     files_destroy e s1 to = Ret s2 \<and> inodes s2 = inodes s \<and> (\<forall>r i. r \<noteq> to \<longrightarrow> file_at s2 (r, i) = file_at s (r, i))"
proof -
  let ?is = "[0 ..< FILES_STRUCT_NENTRY]"
  from dup_fs_ok [OF assms] obtain s1 where s1: "dup_fs s to from' = Ret (s1, 0)" "files_inv e K ty (insert to A) (insert to B) s1"
    "pwd (files s1 to) = pwd (files s from')" "files_count (files s1 to) = 0"
    "\<forall>p i. file_at s1 (p, i) = (if p = to \<and> i < FILES_STRUCT_NENTRY \<and> status (file_at s (from', i)) = FD_OPENED
        then dup_entry (file_at s (from', i)) (file_at s (to, i)) else file_at s (p, i))"
    "\<forall>m. inodes s1 m = add_counts (int (opens_of s from' ?is m)) ((inodes s m)\<lparr>ref_count := ref_count (inodes s m) + cwd_is s from' m\<rparr>)" by blast
  from files_destroy_ok [OF s1(2) _ _ s1(4)] obtain s2 where s2: "files_destroy e s1 to = Ret s2"
    "\<forall>r i. r \<noteq> to \<longrightarrow> file_at s2 (r, i) = file_at s1 (r, i)"
    "\<forall>m. int (opens_of s1 to ?is m) + cwd_is s1 to m < ref_count (inodes s1 m) \<or> opens_of s1 to ?is m = 0 \<and> cwd_is s1 to m = 0 \<longrightarrow>
       inodes s2 m = add_counts (- int (opens_of s1 to ?is m)) ((inodes s1 m)\<lparr>ref_count := ref_count (inodes s1 m) - cwd_is s1 to m\<rparr>)" by auto
  have cw: "cwd_is s1 to m = cwd_is s from' m" for m by (simp add: cwd_is_def s1(3))
  have op: "opens_of s1 to ?is m = opens_of s from' ?is m" for m
  proof -
    have "(status (file_at s1 (to, i)) = FD_OPENED \<and> node (file_at s1 (to, i)) = Some m) =
       (status (file_at s (from', i)) = FD_OPENED \<and> node (file_at s (from', i)) = Some m)" if "i < FILES_STRUCT_NENTRY" for i
      using s1(5) t(3) that by (auto simp: dup_entry_def fresh_table_def)
    then show ?thesis unfolding opens_of_def by (intro arg_cong [where f = length] filter_cong) auto
  qed
  have "inodes s2 m = inodes s m" for m
  proof (cases "opens_of s from' ?is m = 0 \<and> cwd_is s from' m = 0")
    case True
    then show ?thesis using s2(3) s1(6) by (auto simp: op cw)
  next
    case False
    then have "fd_set s A m \<noteq> {} \<or> cwd_set s B m \<noteq> {}"
      using f by (auto simp: opens_of_def filter_empty_conv fd_set_def cwd_set_def cwd_is_def split: if_splits)
    from files_invD(3) [OF inv this] have "0 < ref_count (inodes s m)"
      using \<open>fd_set s A m \<noteq> {} \<or> cwd_set s B m \<noteq> {}\<close> finite_fd_set [OF files_invD(1) [OF inv], of s m] finite_cwd_set [OF files_invD(4) [OF inv], of s m]
      by (intro held_droppable(2)) (auto simp: card_gt_0_iff)
    then show ?thesis using spec [OF s2(3), of m] s1(6) by (simp add: op cw add_counts_def)
  qed
  then show ?thesis using s1(1,2,5) s2(1,2) by (intro exI [of _ s1] exI [of _ s2]) auto
qed

end

subsection \<open>Runs of file operations\<close>

text \<open>The calls of the current process on its descriptors that return.\<close>

inductive file_step :: "'s vfs_env \<Rightarrow> 's vfs_state \<Rightarrow> 's vfs_state \<Rightarrow> bool" for e where
  step_close: "file_close e s d = Ret (s', r) \<Longrightarrow> file_step e s s'"
| step_dup: "\<forall>n. ref_count (inodes s n) + 1 < MAX_INODE_COUNT \<Longrightarrow> file_dup s d d' = Ret (s', r) \<Longrightarrow> file_step e s s'"
| step_seek: "file_seek e s d x whence = Ret (s', r) \<Longrightarrow> file_step e s s'"
| step_read: "file_read e s d base len = Ret (s', copied, r) \<Longrightarrow> file_step e s s'"
| step_write: "file_write e s d base len = Ret (s', copied, r) \<Longrightarrow> file_step e s s'"

definition cur_table :: "'s vfs_state \<Rightarrow> nat set \<Rightarrow> nat \<Rightarrow> bool" where
  "cur_table s A p \<longleftrightarrow> cur_files s = Some p \<and> p \<in> A \<and> files_count (files s p) > 0"

lemma cur_tableD: "cur_table s A p \<Longrightarrow> cur_files s = Some p" "cur_table s A p \<Longrightarrow> p \<in> A" "cur_table s A p \<Longrightarrow> files_count (files s p) > 0"
  by (simp_all add: cur_table_def)

lemma cur_table_kept: "cur_table s A p \<Longrightarrow> tables_kept s s' \<Longrightarrow> cur_table s' A p"
  by (simp add: cur_table_def tables_kept_def)

context vnode_ops
begin

lemma file_step_keeps:
  assumes "file_step e s s'" and inv: "files_inv e K ty A B s" and p: "cur_table s A p"
  shows "files_inv e K ty A B s' \<and> cur_table s' A p"
  using assms(1)
proof (cases rule: file_step.cases)
  case (step_close d r)
  from file_close_ok [OF inv cur_tableD [OF p], of d] step_close show ?thesis
    using inv p by (auto simp: cur_table_def closed_entryD split: if_splits)
next
  case (step_dup d d' r)
  from file_dup_ok [OF inv cur_tableD [OF p] step_dup(1), of d d'] step_dup(2) show ?thesis using cur_table_kept [OF p] by auto
next
  case (step_seek d x whence r)
  from file_seek_ok [OF inv cur_tableD [OF p], of d x whence] step_seek show ?thesis using p by (auto simp: cur_table_def)
next
  case (step_read d base len copied r)
  from file_io_keeps [OF inv cur_tableD [OF p], of d base len s' copied r] step_read show ?thesis using cur_table_kept [OF p] by auto
next
  case (step_write d base len copied r)
  from file_io_keeps [OF inv cur_tableD [OF p], of d base len s' copied r] step_write show ?thesis using cur_table_kept [OF p] by auto
qed

lemma file_run_keeps:
  assumes "(file_step e)\<^sup>*\<^sup>* s s'" "files_inv e K ty A B s" "cur_table s A p"
  shows "files_inv e K ty A B s' \<and> cur_table s' A p"
  using assms by (induction rule: rtranclp_induct) (use file_step_keeps in blast)+

end

end
