(* ===== verification/Devices.thy ===== *)
theory Devices
  imports FileTables Ide "HOL-Library.Signed_Division"
begin

text \<open>
  The device files: the dispatch of \<^verbatim>\<open>kern/fs/devs/dev.c\<close>, the console output of
  \<^verbatim>\<open>dev_stdout.c\<close>, the keyboard buffer of \<^verbatim>\<open>dev_stdin.c\<close> and the disk of \<^verbatim>\<open>dev_disk0.c\<close> above
  the requests of \<^verbatim>\<open>kern/driver/ide.c\<close>. The four function pointers of a \<open>struct device\<close> are
  always set together, to those of one of the three drivers, so a device records its driver.
  They provide the contract of a table of inode operations. The wait queue of the keyboard
  is not part of this state: a read that would sleep does not return.
\<close>

datatype driver = Stdin | Stdout | Disk0

record device =
  d_blocks :: u32
  d_blocksize :: u32
  d_driver :: driver

text \<open>\<open>devices n\<close> is \<open>in_info\<close> of the inode \<open>n\<close>; \<open>console\<close> holds what \<open>cputchar\<close> printed.\<close>

record dev_state =
  devices :: "nat \<Rightarrow> device"
  console :: "u8 list"
  stdin_buffer :: "nat \<Rightarrow> u8"
  p_rpos :: nat
  p_wpos :: nat
  disk0_buffer :: nat
  disk0_sem :: int
  disks :: "u8 list ide_state"

type_synonym dvfs = "dev_state vfs_state"
type_synonym 'a dvfs_scheme = "'a dev_state_scheme vfs_state"

subsection \<open>Console output (dev_stdout.c)\<close>

definition stdout_open :: "u32 \<Rightarrow> int" where
  "stdout_open open_flags = (if open_flags \<noteq> O_WRONLY then - E_INVAL else 0)"

fun stdout_loop :: "nat \<Rightarrow> 'a dvfs_scheme \<Rightarrow> nat \<Rightarrow> 'a dvfs_scheme" where
  "stdout_loop 0 s data = s"
| "stdout_loop (Suc k) s data = stdout_loop k (s\<lparr>priv := (priv s)\<lparr>console := console (priv s) @ [kmem s data]\<rparr>\<rparr>) (data + 1)"

definition stdout_io :: "'a dvfs_scheme \<Rightarrow> iobuf \<Rightarrow> bool \<Rightarrow> ('a dvfs_scheme \<times> iobuf \<times> int) outcome" where
  "stdout_io s iob write =
     (if write then Ret (stdout_loop (unat (io_resid iob)) s (io_base iob), iob\<lparr>io_resid := 0\<rparr>, 0)
      else Ret (s, iob, - E_INVAL))"

subsection \<open>Keyboard input (dev_stdin.c)\<close>

definition STDIN_BUFSIZE :: nat where "STDIN_BUFSIZE = 4096"

text \<open>The effect of \<open>dev_stdin_write\<close> on the buffer.\<close>

definition dev_stdin_write :: "'a dev_state_scheme \<Rightarrow> u8 \<Rightarrow> 'a dev_state_scheme" where
  "dev_stdin_write t c =
     (if c \<noteq> 0 then
        let t1 = t\<lparr>stdin_buffer := (stdin_buffer t)(p_wpos t mod STDIN_BUFSIZE := c)\<rparr>
        in if p_wpos t1 - p_rpos t1 < STDIN_BUFSIZE then t1\<lparr>p_wpos := p_wpos t1 + 1\<rparr> else t1
      else t)"

text \<open>The loop of \<open>dev_stdin_read\<close> with \<open>k\<close> bytes left to read; an empty buffer makes it sleep.\<close>

fun stdin_loop :: "nat \<Rightarrow> 'a dvfs_scheme \<Rightarrow> nat \<Rightarrow> 'a dvfs_scheme outcome" where
  "stdin_loop 0 s buf = Ret s"
| "stdin_loop (Suc k) s buf =
     (if p_rpos (priv s) < p_wpos (priv s) then
        stdin_loop k (s\<lparr>kmem := (kmem s)(buf := stdin_buffer (priv s) (p_rpos (priv s) mod STDIN_BUFSIZE)),
                        priv := (priv s)\<lparr>p_rpos := p_rpos (priv s) + 1\<rparr>\<rparr>) (buf + 1)
      else Panic)"

definition stdin_open :: "u32 \<Rightarrow> int" where
  "stdin_open open_flags = (if open_flags \<noteq> O_RDONLY then - E_INVAL else 0)"

definition stdin_io :: "'a dvfs_scheme \<Rightarrow> iobuf \<Rightarrow> bool \<Rightarrow> ('a dvfs_scheme \<times> iobuf \<times> int) outcome" where
  "stdin_io s iob write =
     (if \<not> write then
        bind_outcome (stdin_loop (unat (io_resid iob)) s (io_base iob)) (\<lambda>s1.
          let ret = io_resid iob in Ret (s1, if 0 < sint ret then iob\<lparr>io_resid := io_resid iob - ret\<rparr> else iob, sint ret))
      else Ret (s, iob, - E_INVAL))"

subsection \<open>The disk (dev_disk0.c)\<close>

definition DISK0_DEV_NO :: nat where "DISK0_DEV_NO = 2"
definition SECTSIZE :: nat where "SECTSIZE = 512"
definition DISK0_BLKSIZE :: u32 where "DISK0_BLKSIZE = 4096"
definition DISK0_BUFSIZE :: u32 where "DISK0_BUFSIZE = 4 * DISK0_BLKSIZE"
definition DISK0_BLK_NSECT :: u32 where "DISK0_BLK_NSECT = DISK0_BLKSIZE div 512"

definition lock_disk0 :: "'a dvfs_scheme \<Rightarrow> 'a dvfs_scheme outcome" where
  "lock_disk0 s = bind_outcome (lock_count (disk0_sem (priv s))) (\<lambda>c. Ret (s\<lparr>priv := (priv s)\<lparr>disk0_sem := c\<rparr>\<rparr>))"

definition unlock_disk0 :: "'a dvfs_scheme \<Rightarrow> 'a dvfs_scheme" where
  "unlock_disk0 s = s\<lparr>priv := (priv s)\<lparr>disk0_sem := disk0_sem (priv s) + 1\<rparr>\<rparr>"

text \<open>Memory and sectors: a sector is a list of 512 bytes.\<close>

definition store_bytes :: "mem \<Rightarrow> nat \<Rightarrow> u8 list \<Rightarrow> mem" where
  "store_bytes m a bs q = (if a \<le> q \<and> q < a + length bs then bs ! (q - a) else m q)"

definition load_sectors_at :: "mem \<Rightarrow> nat \<Rightarrow> nat \<Rightarrow> u8 list list" where
  "load_sectors_at m a k = map (\<lambda>j. map (\<lambda>i. m (a + SECTSIZE * j + i)) [0 ..< SECTSIZE]) [0 ..< k]"

definition disk0_read_blks_nolock :: "'a dvfs_scheme \<Rightarrow> u32 \<Rightarrow> u32 \<Rightarrow> 'a dvfs_scheme outcome" where
  "disk0_read_blks_nolock s blkno nblks =
     (let sectno = blkno * DISK0_BLK_NSECT; nsecs = nblks * DISK0_BLK_NSECT in
      bind_outcome (ide_read_secs (disks (priv s)) DISK0_DEV_NO sectno nsecs) (\<lambda>(d, ret, secs).
        let s1 = s\<lparr>kmem := store_bytes (kmem s) (disk0_buffer (priv s)) (concat secs), priv := (priv s)\<lparr>disks := d\<rparr>\<rparr>
        in if ret \<noteq> 0 then Panic else Ret s1))"

definition disk0_write_blks_nolock :: "'a dvfs_scheme \<Rightarrow> u32 \<Rightarrow> u32 \<Rightarrow> 'a dvfs_scheme outcome" where
  "disk0_write_blks_nolock s blkno nblks =
     (let sectno = blkno * DISK0_BLK_NSECT; nsecs = nblks * DISK0_BLK_NSECT in
      bind_outcome (ide_write_secs (disks (priv s)) DISK0_DEV_NO sectno (load_sectors_at (kmem s) (disk0_buffer (priv s)) (unat nsecs)))
        (\<lambda>(d, ret). if ret \<noteq> 0 then Panic else Ret (s\<lparr>priv := (priv s)\<lparr>disks := d\<rparr>\<rparr>)))"

text \<open>One round of the transfer loop: the state, the buffer, the bytes left and the next block.\<close>

definition disk0_round :: "'a dvfs_scheme \<Rightarrow> iobuf \<Rightarrow> bool \<Rightarrow> u32 \<Rightarrow> u32 \<Rightarrow> ('a dvfs_scheme \<times> iobuf \<times> u32 \<times> u32) outcome" where
  "disk0_round s iob write resid blkno =
     (if write then
        bind_outcome (iobuf_move (kmem s) iob (disk0_buffer (priv s)) DISK0_BUFSIZE False) (\<lambda>(m, iob1, copied, _).
          assert_then (copied \<noteq> 0 \<and> copied \<le> resid \<and> copied mod DISK0_BLKSIZE = 0)
            (let nblks = copied div DISK0_BLKSIZE in
             bind_outcome (disk0_write_blks_nolock (s\<lparr>kmem := m\<rparr>) blkno nblks) (\<lambda>s1.
               Ret (s1, iob1, resid - copied, blkno + nblks))))
      else
        let alen = (if DISK0_BUFSIZE > resid then resid else DISK0_BUFSIZE);
            nblks = alen div DISK0_BLKSIZE
        in bind_outcome (disk0_read_blks_nolock s blkno nblks) (\<lambda>s1.
             bind_outcome (iobuf_move (kmem s1) iob (disk0_buffer (priv s1)) alen True) (\<lambda>(m, iob1, copied, _).
               assert_then (copied = alen \<and> copied mod DISK0_BLKSIZE = 0)
                 (Ret (s1\<lparr>kmem := m\<rparr>, iob1, resid - copied, blkno + nblks)))))"

partial_function (option) disk0_loop :: "'a dvfs_scheme \<Rightarrow> iobuf \<Rightarrow> bool \<Rightarrow> u32 \<Rightarrow> u32 \<Rightarrow> ('a dvfs_scheme \<times> iobuf) outcome option" where
  "disk0_loop s iob write resid blkno =
     (if resid \<noteq> 0 then
        (case disk0_round s iob write resid blkno of
           Panic \<Rightarrow> Some Panic
         | Ret (s1, iob1, resid1, blkno1) \<Rightarrow> disk0_loop s1 iob1 write resid1 blkno1)
      else Some (Ret (s, iob)))"

text \<open>\<open>off_t\<close> is signed: the offset is divided and reduced as a signed number.\<close>

definition disk0_io :: "'a dvfs_scheme \<Rightarrow> device \<Rightarrow> iobuf \<Rightarrow> bool \<Rightarrow> ('a dvfs_scheme \<times> iobuf \<times> int) outcome" where
  "disk0_io s dev iob write =
     (let offset = sint (io_offset iob);
          resid = io_resid iob;
          blkno = word_of_int (offset sdiv sint DISK0_BLKSIZE) :: u32;
          nblks = resid div DISK0_BLKSIZE
      in if offset smod sint DISK0_BLKSIZE \<noteq> 0 \<or> resid mod DISK0_BLKSIZE \<noteq> 0 then Ret (s, iob, - E_INVAL)
         else if blkno + nblks > d_blocks dev then Ret (s, iob, - E_INVAL)
         else if nblks = 0 then Ret (s, iob, 0)
         else bind_outcome (lock_disk0 s) (\<lambda>s1.
           bind_outcome (case disk0_loop s1 iob write resid blkno of None \<Rightarrow> Panic | Some r \<Rightarrow> r) (\<lambda>(s2, iob1).
             Ret (unlock_disk0 s2, iob1, 0))))"

subsection \<open>Dispatch (dev.c)\<close>

definition dop_open :: "device \<Rightarrow> u32 \<Rightarrow> int" where
  "dop_open dev open_flags =
     (case d_driver dev of Stdin \<Rightarrow> stdin_open open_flags | Stdout \<Rightarrow> stdout_open open_flags | Disk0 \<Rightarrow> 0)"

definition dop_io :: "'a dvfs_scheme \<Rightarrow> device \<Rightarrow> iobuf \<Rightarrow> bool \<Rightarrow> ('a dvfs_scheme \<times> iobuf \<times> int) outcome" where
  "dop_io s dev iob write =
     (case d_driver dev of Stdin \<Rightarrow> stdin_io s iob write | Stdout \<Rightarrow> stdout_io s iob write | Disk0 \<Rightarrow> disk0_io s dev iob write)"

definition dop_ioctl :: "device \<Rightarrow> int" where
  "dop_ioctl dev = (case d_driver dev of Stdin \<Rightarrow> - E_INVAL | Stdout \<Rightarrow> - E_INVAL | Disk0 \<Rightarrow> - E_UNIMP)"

text \<open>\<open>vop_info(node, device)\<close>.\<close>

definition device_info :: "'a dvfs_scheme \<Rightarrow> nat \<Rightarrow> device outcome" where
  "device_info s n = assert_then (in_type (inodes s n) = inode_type_device_info) (Ret (devices (priv s) n))"

definition dev_open :: "'a dvfs_scheme \<Rightarrow> nat \<Rightarrow> u32 \<Rightarrow> ('a dvfs_scheme \<times> int) outcome" where
  "dev_open s n open_flags =
     (if open_flags AND (O_CREAT OR O_TRUNC OR O_EXCL OR O_APPEND) \<noteq> 0 then Ret (s, - E_INVAL)
      else bind_outcome (device_info s n) (\<lambda>dev. Ret (s, dop_open dev open_flags)))"

definition dev_close :: "'a dvfs_scheme \<Rightarrow> nat \<Rightarrow> ('a dvfs_scheme \<times> int) outcome" where
  "dev_close s n = bind_outcome (device_info s n) (\<lambda>dev. Ret (s, 0))"

definition dev_read :: "'a dvfs_scheme \<Rightarrow> nat \<Rightarrow> iobuf \<Rightarrow> ('a dvfs_scheme \<times> iobuf \<times> int) outcome" where
  "dev_read s n iob = bind_outcome (device_info s n) (\<lambda>dev. dop_io s dev iob False)"

definition dev_write :: "'a dvfs_scheme \<Rightarrow> nat \<Rightarrow> iobuf \<Rightarrow> ('a dvfs_scheme \<times> iobuf \<times> int) outcome" where
  "dev_write s n iob = bind_outcome (device_info s n) (\<lambda>dev. dop_io s dev iob True)"

definition dev_ioctl :: "'a dvfs_scheme \<Rightarrow> nat \<Rightarrow> int \<Rightarrow> nat \<Rightarrow> ('a dvfs_scheme \<times> int) outcome" where
  "dev_ioctl s n op data = bind_outcome (device_info s n) (\<lambda>dev. Ret (s, dop_ioctl dev))"

definition dev_gettype :: "'a dvfs_scheme \<Rightarrow> nat \<Rightarrow> ('a dvfs_scheme \<times> u32 \<times> int) outcome" where
  "dev_gettype s n = bind_outcome (device_info s n) (\<lambda>dev. Ret (s, if d_blocks dev > 0 then S_IFBLK else S_IFCHR, 0))"

definition dev_tryseek :: "'a dvfs_scheme \<Rightarrow> nat \<Rightarrow> u32 \<Rightarrow> ('a dvfs_scheme \<times> int) outcome" where
  "dev_tryseek s n p =
     bind_outcome (device_info s n) (\<lambda>dev.
       Ret (s, if d_blocks dev > 0 \<and> p mod d_blocksize dev = 0 \<and> 0 \<le> sint p \<and> p < d_blocks dev * d_blocksize dev then 0 else - E_INVAL))"

definition dev_lookup :: "'a dvfs_scheme \<Rightarrow> nat \<Rightarrow> nat \<Rightarrow> ('a dvfs_scheme \<times> nat option \<times> int) outcome" where
  "dev_lookup s n path =
     (if kmem s path \<noteq> 0 then Ret (s, None, - E_NOENT) else Ret (inode_ref_inc s n, Some n, 0))"

text \<open>
  \<open>dev_fstat\<close> calls \<open>vop_gettype\<close> on the inode it is called for, so it goes through the same
  table; the entry of the table it needs is given first.
\<close>

definition no_ops :: "'s inode_ops" where
  "no_ops = \<lparr>vop_magic = 0, op_open = None, op_close = None, op_read = None, op_write = None, op_fstat = None, op_fsync = None,
     op_namefile = None, op_getdirentry = None, op_reclaim = None, op_gettype = None, op_tryseek = None, op_truncate = None,
     op_create = None, op_lookup = None, op_ioctl = None\<rparr>"

definition gettype_env :: "'a dev_state_scheme vfs_env" where
  "gettype_env = \<lparr>ops_at = \<lambda>_. no_ops\<lparr>vop_magic := VOP_MAGIC, op_gettype := Some dev_gettype\<rparr>,
     fs_at = \<lambda>_. \<lparr>fs_sync = \<lambda>_ _. Panic, fs_get_root = \<lambda>_ _. Panic, fs_unmount = \<lambda>_ _. Panic, fs_cleanup = \<lambda>_ _. Panic\<rparr>\<rparr>"

definition dev_fstat :: "'a dvfs_scheme \<Rightarrow> nat \<Rightarrow> ('a dvfs_scheme \<times> stat \<times> int) outcome" where
  "dev_fstat s n =
     bind_outcome (vop_gettype gettype_env s n) (\<lambda>(s1, mode, ret).
       if ret \<noteq> 0 then Ret (s1, \<lparr>st_mode = mode, st_nlinks = 0, st_blocks = 0, st_size = 0\<rparr>, ret)
       else bind_outcome (device_info s1 n) (\<lambda>dev.
         Ret (s1, \<lparr>st_mode = mode, st_nlinks = 1, st_blocks = d_blocks dev, st_size = d_blocks dev * d_blocksize dev\<rparr>, 0)))"

definition dev_node_ops :: "'a dev_state_scheme inode_ops" where
  "dev_node_ops = no_ops\<lparr>vop_magic := VOP_MAGIC, op_open := Some dev_open, op_close := Some dev_close, op_read := Some dev_read,
     op_write := Some dev_write, op_fstat := Some dev_fstat, op_ioctl := Some dev_ioctl, op_gettype := Some dev_gettype,
     op_tryseek := Some dev_tryseek, op_lookup := Some dev_lookup\<rparr>"

text \<open>The tables of a kernel whose inodes are all devices; \<open>dev_node_ops\<close> is at \<open>DEV_OPS\<close>.\<close>

definition DEV_OPS :: nat where "DEV_OPS = 0"

definition dev_env :: "'a dev_state_scheme vfs_env" where
  "dev_env = gettype_env\<lparr>ops_at := \<lambda>_. dev_node_ops\<rparr>"

definition dev_create_inode :: "nat option \<Rightarrow> 'a dvfs_scheme \<Rightarrow> 'a dvfs_scheme \<times> nat option" where
  "dev_create_inode blk s =
     (case alloc_inode blk s inode_type_device_info of
        (s1, None) \<Rightarrow> (s1, None)
      | (s1, Some n) \<Rightarrow> (inode_init s1 n DEV_OPS None, Some n))"

subsection \<open>Initialisation\<close>

abbreviation set_device :: "nat \<Rightarrow> device \<Rightarrow> 'a dvfs_scheme \<Rightarrow> 'a dvfs_scheme" where
  "set_device n dev s \<equiv> s\<lparr>priv := (priv s)\<lparr>devices := (devices (priv s))(n := dev)\<rparr>\<rparr>"

definition stdin_device_init :: "'a dvfs_scheme \<Rightarrow> nat \<Rightarrow> 'a dvfs_scheme outcome" where
  "stdin_device_init s n =
     (let s1 = set_device n \<lparr>d_blocks = 0, d_blocksize = 1, d_driver = Stdin\<rparr> s
      in Ret (s1\<lparr>priv := (priv s1)\<lparr>p_rpos := 0, p_wpos := 0\<rparr>\<rparr>))"

definition stdout_device_init :: "'a dvfs_scheme \<Rightarrow> nat \<Rightarrow> 'a dvfs_scheme outcome" where
  "stdout_device_init s n = Ret (set_device n \<lparr>d_blocks = 0, d_blocksize = 1, d_driver = Stdout\<rparr> s)"

definition disk0_device_init :: "nat option \<Rightarrow> 'a dvfs_scheme \<Rightarrow> nat \<Rightarrow> 'a dvfs_scheme outcome" where
  "disk0_device_init buf s n =
     (if \<not> ide_device_valid (disks (priv s)) DISK0_DEV_NO then Panic
      else
        let blocks = ide_device_size (disks (priv s)) DISK0_DEV_NO div DISK0_BLK_NSECT;
            s1 = set_device n \<lparr>d_blocks = blocks, d_blocksize = DISK0_BLKSIZE, d_driver = Disk0\<rparr> s;
            s2 = s1\<lparr>priv := (priv s1)\<lparr>disk0_sem := 1\<rparr>\<rparr>
        in case buf of None \<Rightarrow> Panic | Some a \<Rightarrow> Ret (s2\<lparr>priv := (priv s2)\<lparr>disk0_buffer := a\<rparr>\<rparr>))"

text \<open>
  \<open>dev_init_stdin\<close>, \<open>dev_init_stdout\<close> and \<open>dev_init_disk0\<close> differ in the device initialisation,
  the name and whether the device can be mounted; \<open>name\<close> is the address of the name, \<open>blk\<close>,
  \<open>name_blk\<close> and \<open>vdev_blk\<close> are what \<open>kmalloc\<close> returns.
\<close>

definition dev_init_with :: "('a dvfs_scheme \<Rightarrow> nat \<Rightarrow> 'a dvfs_scheme outcome) \<Rightarrow> bool \<Rightarrow> nat option \<Rightarrow> nat option \<Rightarrow> nat option \<Rightarrow> nat \<Rightarrow> 'a dvfs_scheme \<Rightarrow> 'a dvfs_scheme outcome" where
  "dev_init_with device_init mt blk name_blk vdev_blk name s =
     (case dev_create_inode blk s of
        (_, None) \<Rightarrow> Panic
      | (s1, Some n) \<Rightarrow>
          bind_outcome (device_info s1 n) (\<lambda>_.
          bind_outcome (device_init s1 n) (\<lambda>s2.
          bind_outcome (vfs_add_dev name_blk vdev_blk s2 name n mt) (\<lambda>(s3, ret). if ret \<noteq> 0 then Panic else Ret s3))))"

definition dev_init_stdin :: "nat option \<Rightarrow> nat option \<Rightarrow> nat option \<Rightarrow> nat \<Rightarrow> 'a dvfs_scheme \<Rightarrow> 'a dvfs_scheme outcome" where
  "dev_init_stdin = dev_init_with stdin_device_init False"

definition dev_init_stdout :: "nat option \<Rightarrow> nat option \<Rightarrow> nat option \<Rightarrow> nat \<Rightarrow> 'a dvfs_scheme \<Rightarrow> 'a dvfs_scheme outcome" where
  "dev_init_stdout = dev_init_with stdout_device_init False"

definition dev_init_disk0 :: "nat option \<Rightarrow> nat option \<Rightarrow> nat option \<Rightarrow> nat option \<Rightarrow> nat \<Rightarrow> 'a dvfs_scheme \<Rightarrow> 'a dvfs_scheme outcome" where
  "dev_init_disk0 buf = dev_init_with (disk0_device_init buf) True"

subsection \<open>The contract\<close>

lemma same_vfs_trans: "same_vfs s s1 \<Longrightarrow> same_vfs s1 s2 \<Longrightarrow> same_vfs s s2"
  by (simp add: same_vfs_def)

lemma stdout_loop_same: "same_vfs s (stdout_loop k s a)"
proof (induction k arbitrary: s a)
  case (Suc k)
  from Suc.IH [of "s\<lparr>priv := (priv s)\<lparr>console := console (priv s) @ [kmem s a]\<rparr>\<rparr>" "a + 1"] show ?case by (simp add: same_vfs_def)
qed (simp add: same_vfs_def)

lemma stdin_loop_same: "stdin_loop k s a = Ret s' \<Longrightarrow> same_vfs s s'"
proof (induction k arbitrary: s a)
  case (Suc k)
  then show ?case by (fastforce simp: same_vfs_def split: if_splits)
qed (simp add: same_vfs_def)

lemma disk0_round_same: "disk0_round s iob w r b = Ret (s', iob', r', b') \<Longrightarrow> same_vfs s s'"
  by (auto simp: disk0_round_def disk0_write_blks_nolock_def disk0_read_blks_nolock_def same_vfs_def Let_def split: if_splits)

lemma disk0_loop_same:
  assumes "disk0_loop s iob w r b = Some y"
  shows "\<forall>s' iob'. y = Ret (s', iob') \<longrightarrow> same_vfs s s'"
proof (rule disk0_loop.raw_induct [where P = "\<lambda>s iob w r b y. \<forall>s' iob'. y = Ret (s', iob') \<longrightarrow> same_vfs s s'", OF _ assms])
  fix loop s iob w r b y
  assume IH: "\<And>s iob w r b y. loop s iob w r b = Some y \<Longrightarrow> \<forall>s' iob'. y = Ret (s', iob') \<longrightarrow> same_vfs s s'"
    and eq: "(if r \<noteq> 0 then case disk0_round s iob w r b of Panic \<Rightarrow> Some Panic | Ret (s1, iob1, r1, b1) \<Rightarrow> loop s1 iob1 w r1 b1
      else Some (Ret (s, iob))) = Some y"
  show "\<forall>s' iob'. y = Ret (s', iob') \<longrightarrow> same_vfs s s'"
  proof (cases "\<exists>s1 iob1 r1 b1. r \<noteq> 0 \<and> disk0_round s iob w r b = Ret (s1, iob1, r1, b1)")
    case True
    then obtain s1 iob1 r1 b1 where x: "r \<noteq> 0" "disk0_round s iob w r b = Ret (s1, iob1, r1, b1)" by blast
    then have "loop s1 iob1 w r1 b1 = Some y" using eq by simp
    from IH [OF this] show ?thesis using same_vfs_trans [OF disk0_round_same [OF x(2)]] by blast
  next
    case False
    then show ?thesis using eq by (cases "disk0_round s iob w r b") (auto simp: same_vfs_def split: if_splits)
  qed
qed

lemma disk0_io_shape:
  assumes "(if a then Ret (s, iob, x) else if b then Ret (s, iob, y) else if c then Ret (s, iob, z)
     else bind_outcome L (\<lambda>s1. bind_outcome (case M s1 of None \<Rightarrow> Panic | Some r \<Rightarrow> r) (\<lambda>(s2, i). Ret (u s2, i, 0)))) = Ret (s', iob', r)"
  shows "s' = s \<or> (\<exists>s1 s2. L = Ret s1 \<and> M s1 = Some (Ret (s2, iob')) \<and> s' = u s2)"
  using assms by (auto split: if_splits option.splits)

lemma disk0_io_same:
  assumes "disk0_io s dev iob w = Ret (s', iob', r)"
  shows "same_vfs s s'"
  using disk0_io_shape [OF assms [unfolded disk0_io_def Let_def]]
proof
  assume "\<exists>s1 s2. lock_disk0 s = Ret s1 \<and>
     disk0_loop s1 iob w (io_resid iob) (word_of_int (sint (io_offset iob) sdiv sint DISK0_BLKSIZE)) = Some (Ret (s2, iob')) \<and> s' = unlock_disk0 s2"
  then obtain s1 s2 where l: "lock_disk0 s = Ret s1" "s' = unlock_disk0 s2"
    and "disk0_loop s1 iob w (io_resid iob) (word_of_int (sint (io_offset iob) sdiv sint DISK0_BLKSIZE)) = Some (Ret (s2, iob'))" by blast
  from disk0_loop_same [OF this(3)] have "same_vfs s1 s2" by blast
  then show ?thesis using l by (auto simp: lock_disk0_def unlock_disk0_def same_vfs_def)
qed (simp add: same_vfs_def)

lemma dop_io_same: "dop_io s dev iob w = Ret (s', iob', r) \<Longrightarrow> same_vfs s s'"
  by (auto simp: dop_io_def stdin_io_def stdout_io_def Let_def split: driver.splits if_splits
        dest: stdin_loop_same disk0_io_same intro: stdout_loop_same) (simp_all add: same_vfs_def)

interpretation dev: vnode_ops dev_env "{DEV_OPS}" "\<lambda>_. inode_type_device_info"
proof
  show "op_read (ops_at dev_env k) = Some f \<Longrightarrow> f s n iob = Ret (s', iob', r) \<Longrightarrow> same_vfs s s'" for k f s n iob s' iob' r
    by (auto simp: dev_env_def dev_node_ops_def dev_read_def dest: dop_io_same)
  show "op_write (ops_at dev_env k) = Some f \<Longrightarrow> f s n iob = Ret (s', iob', r) \<Longrightarrow> same_vfs s s'" for k f s n iob s' iob' r
    by (auto simp: dev_env_def dev_node_ops_def dev_write_def dest: dop_io_same)
qed (auto simp: dev_env_def dev_node_ops_def no_ops_def dev_close_def dev_tryseek_def dev_fstat_def device_info_def same_vfs_def
       vop_gettype_def vop_op_def gettype_env_def dev_gettype_def inode_check_def)

subsection \<open>The keyboard buffer is a queue\<close>


definition stdin_ok :: "'a dev_state_scheme \<Rightarrow> bool" where
  "stdin_ok t \<longleftrightarrow> p_rpos t \<le> p_wpos t \<and> p_wpos t \<le> p_rpos t + STDIN_BUFSIZE"



lemma stdin_ok_write: "stdin_ok t \<Longrightarrow> stdin_ok (dev_stdin_write t c)"
  by (auto simp: stdin_ok_def dev_stdin_write_def Let_def)


subsection \<open>Properties\<close>

text \<open>Forking duplicates the descriptor table of the parent, with one more open count and reference per
  open descriptor and one reference for the working directory; when the child exits at once, its
  table is destroyed without a failed assertion and every count of every inode is what it was.\<close>

theorem fork_exit_restores_counts:
  assumes "files_inv dev_env {DEV_OPS} (\<lambda>_. inode_type_device_info) A B s"
    "from' \<in> A" "from' \<in> B" "files_count (files s from') > 0" "to \<notin> A" "to \<notin> B" "fresh_table s to"
    "\<forall>n. ref_count (inodes s n) + 1 + int FILES_STRUCT_NENTRY < MAX_INODE_COUNT"
  shows "\<exists>s1 s2. dup_fs s to from' = Ret (s1, 0) \<and>
     files_inv dev_env {DEV_OPS} (\<lambda>_. inode_type_device_info) (insert to A) (insert to B) s1 \<and>
     files_destroy dev_env s1 to = Ret s2 \<and> inodes s2 = inodes s \<and> (\<forall>r i. r \<noteq> to \<longrightarrow> file_at s2 (r, i) = file_at s (r, i))"
  using assms by (rule dev.fork_exit_files)


text \<open>C35: the table of device operations has no fsync and no getdirentry, so a process that calls either on an
  open device descriptor, such as its own standard output, stops the kernel.\<close>

theorem device_fsync_panics:
  assumes "files_inv dev_env {DEV_OPS} (\<lambda>_. inode_type_device_info) A B s" "cur_table s A p"
    "testfd d" "status (file_at s (p, nat d)) = FD_OPENED"
  shows "file_fsync dev_env s d = Panic \<and> file_getdirentry dev_env s d offset name = Panic"
proof -
  note c = cur_tableD [OF assms(2)]
  obtain n where n: "node (file_at s (p, nat d)) = Some n" using dev.open_fd [OF assms(1) c(2) assms(3,4)] by metis
  have no: "vop_fsync dev_env t n = Panic" "vop_getdirentry dev_env t n iob = Panic" for t :: "'a dvfs_scheme" and iob
    by (auto simp: vop_fsync_def vop_getdirentry_def vop_op_def dev_env_def dev_node_ops_def no_ops_def split: option.splits)
  show ?thesis unfolding file_fsync_def file_getdirentry_def with_file_ok [OF assms(1) c]
    using assms(3,4) n no by (simp add: fd_array_acquire_def file_node_def)
qed


subsection \<open>Examples\<close>

text \<open>One process with standard output open as descriptor 0; table 2 is fresh.\<close>

definition small_vfs :: dvfs where
  "small_vfs = \<lparr>inodes = \<lambda>_. \<lparr>in_type = inode_type_device_info, ref_count = 2, inode_opens = 1, in_fs = None, in_ops = Some DEV_OPS\<rparr>,
     files = \<lambda>p. \<lparr>pwd = None,
       fd_array = \<lambda>i. if p = 1 \<and> i = 0
         then \<lparr>status = FD_OPENED, readable = False, writable = True, fd = 0, pos = 0, node = Some 5, open_count = 1\<rparr>
         else \<lparr>status = FD_NONE, readable = False, writable = False, fd = int i, pos = 0, node = None, open_count = 0\<rparr>,
       files_count = (if p = 1 then 1 else 0), files_sem = 1\<rparr>,
     cur_files = Some 1, kmem = \<lambda>_. 97, bootfs_node = None, bootfs_sem = 1,
     vdev_links = \<lparr>le_prev = id, le_next = id\<rparr>, vdevs = \<lambda>_. \<lparr>devname = 0, devnode = None, vdev_fs = None, mountable = False\<rparr>,
     vdev_list_sem = 1,
     priv = \<lparr>devices = \<lambda>_. \<lparr>d_blocks = 0, d_blocksize = 1, d_driver = Stdout\<rparr>, console = [], stdin_buffer = \<lambda>_. 98,
       p_rpos = 0, p_wpos = 2, disk0_buffer = 0, disk0_sem = 1,
       disks = \<lparr>ide_devices = \<lambda>_. \<lparr>ide_valid = True, ide_size = 16384\<rparr>,
         regs = \<lambda>_. \<lparr>r_seccnt = 0, r_sector = 0, r_cyl_lo = 0, r_cyl_hi = 0, r_sdh = 0\<rparr>,
         ide_disk = \<lambda>_ _. [], poll_err = \<lambda>_. False, polls = 0\<rparr>\<rparr>\<rparr>"

lemma small_vfs_at: "file_at small_vfs (p, i) = (if p = 1 \<and> i = 0
    then \<lparr>status = FD_OPENED, readable = False, writable = True, fd = 0, pos = 0, node = Some 5, open_count = 1\<rparr>
    else \<lparr>status = FD_NONE, readable = False, writable = False, fd = int i, pos = 0, node = None, open_count = 0\<rparr>)"
  by (simp add: file_at_def small_vfs_def)

lemma small_vfs_inv: "files_inv dev_env {DEV_OPS} (\<lambda>_. inode_type_device_info) {1} {1} small_vfs"
proof -
  have "fd_set small_vfs {1} n = (if n = 5 then {(1, 0)} else {})" for n
    by (auto simp: fd_set_def small_vfs_at FILES_STRUCT_NENTRY_def split: if_splits)
  moreover have "cwd_set small_vfs {1} n = {}" for n by (simp add: cwd_set_def small_vfs_def)
  moreover have "inodes small_vfs n = \<lparr>in_type = inode_type_device_info, ref_count = 2, inode_opens = 1, in_fs = None, in_ops = Some DEV_OPS\<rparr>" for n
    by (simp add: small_vfs_def)
  ultimately show ?thesis
    by (simp add: files_inv_def small_vfs_at entry_ok_def held_ok_def served_def MAX_INODE_COUNT_def)
qed

lemma small_vfs_cur: "cur_table small_vfs {1} 1"
  by (simp add: cur_table_def small_vfs_def)

theorem fork_exit_restores_counts_witness:
  "\<exists>s1 s2. dup_fs small_vfs 2 1 = Ret (s1, 0) \<and> files_destroy dev_env s1 2 = Ret s2 \<and> inodes s2 = inodes small_vfs"
proof -
  have "fresh_table small_vfs 2" by (simp add: fresh_table_def small_vfs_at) (simp add: small_vfs_def)
  moreover have "\<forall>n. ref_count (inodes small_vfs n) + 1 + int FILES_STRUCT_NENTRY < MAX_INODE_COUNT" "files_count (files small_vfs 1) > 0"
    by (simp_all add: small_vfs_def FILES_STRUCT_NENTRY_def MAX_INODE_COUNT_def)
  ultimately show ?thesis using fork_exit_restores_counts [OF small_vfs_inv, of 1 2] by auto
qed


theorem device_fsync_panics_witness: "file_fsync dev_env small_vfs 0 = Panic"
proof -
  have "testfd 0" "status (file_at small_vfs (1, nat 0)) = FD_OPENED" by (simp_all add: testfd_def FILES_STRUCT_NENTRY_def small_vfs_at)
  from device_fsync_panics [OF small_vfs_inv small_vfs_cur this] show ?thesis by blast
qed


end
