(* ===== verification/ProcTable.thy ===== *)
theory ProcTable
  imports Sched
begin

text \<open>
  The process table of \<^verbatim>\<open>kern/process/proc.c\<close>: process numbers, the list of all processes, the
  hash lists by process number (\<^verbatim>\<open>libs/hash.c\<close>) and the tree of parents and children. The
  embedded links \<open>list_link\<close> and \<open>hash_link\<close> are kept in stores of their own: \<open>None\<close> is
  \<open>proc_list\<close>, \<open>HHead b\<close> is \<open>hash_list[b]\<close>.
\<close>

definition MAX_PROCESS :: int where "MAX_PROCESS = 4096"
definition MAX_PID :: int where "MAX_PID = MAX_PROCESS * 2"
definition HASH_SHIFT :: nat where "HASH_SHIFT = 10"

definition pid_hashfn :: "int \<Rightarrow> nat" where
  "pid_hashfn x = unat (hash32 (word_of_int x) HASH_SHIFT)"

datatype hash_link = HHead nat | HLink proc_ptr

record proc_table =
  sch :: sched_state
  proc_links :: "proc_ptr option links"
  hash_links :: "hash_link links"
  nr_process :: int
  next_safe :: int
  last_pid :: int
  initproc :: "proc_ptr option"

abbreviation proc_of :: "proc_table \<Rightarrow> proc_ptr \<Rightarrow> proc_struct" where
  "proc_of t p \<equiv> procs (sch t) p"

abbreviation set_proc :: "proc_ptr \<Rightarrow> (proc_struct \<Rightarrow> proc_struct) \<Rightarrow> proc_table \<Rightarrow> proc_table" where
  "set_proc p f t \<equiv> t\<lparr>sch := upd_proc p f (sch t)\<rparr>"

subsection \<open>Process numbers\<close>

text \<open>
  The while loop of \<open>get_pid\<close>, after the entry \<open>le\<close>; \<open>goto repeat\<close> starts it again at the head.
  The state is the candidate and the next number known to be in use.
\<close>

partial_function (option) pid_loop :: "proc_table \<Rightarrow> proc_ptr option \<Rightarrow> int \<Rightarrow> int \<Rightarrow> (int \<times> int) option" where
  "pid_loop t le lastp safe =
     (case list_next (proc_links t) le of
        None \<Rightarrow> Some (lastp, safe)
      | Some p \<Rightarrow>
          if pid (proc_of t p) = lastp then
            if lastp + 1 \<ge> safe then pid_loop t None (if lastp + 1 \<ge> MAX_PID then 1 else lastp + 1) MAX_PID
            else pid_loop t (Some p) (lastp + 1) safe
          else if pid (proc_of t p) > lastp \<and> safe > pid (proc_of t p) then pid_loop t (Some p) lastp (pid (proc_of t p))
          else pid_loop t (Some p) lastp safe)"

definition get_pid :: "proc_table \<Rightarrow> (proc_table \<times> int) outcome" where
  "get_pid t =
     bind_outcome
       (if last_pid t + 1 \<ge> MAX_PID then of_option (pid_loop t None 1 MAX_PID)
        else if last_pid t + 1 \<ge> next_safe t then of_option (pid_loop t None (last_pid t + 1) MAX_PID)
        else Ret (last_pid t + 1, next_safe t))
       (\<lambda>(lastp, safe). Ret (t\<lparr>last_pid := lastp, next_safe := safe\<rparr>, lastp))"

subsection \<open>Lists and tree\<close>

definition hash_proc :: "proc_table \<Rightarrow> proc_ptr \<Rightarrow> proc_table" where
  "hash_proc t p = t\<lparr>hash_links := list_add (hash_links t) (HHead (pid_hashfn (pid (proc_of t p)))) (HLink p)\<rparr>"

definition unhash_proc :: "proc_table \<Rightarrow> proc_ptr \<Rightarrow> proc_table" where
  "unhash_proc t p = t\<lparr>hash_links := list_del (hash_links t) (HLink p)\<rparr>"

definition find_proc :: "proc_table \<Rightarrow> int \<Rightarrow> proc_ptr option outcome" where
  "find_proc t d =
     (if 0 < d \<and> d < MAX_PID then
        bind_outcome (of_option (list_scan (hash_links t) (HHead (pid_hashfn d))
            (\<lambda>le. case le of HLink p \<Rightarrow> pid (proc_of t p) = d | HHead _ \<Rightarrow> False) (HHead (pid_hashfn d))))
          (\<lambda>le. Ret (case le of HLink p \<Rightarrow> Some p | HHead _ \<Rightarrow> None))
      else Ret None)"

text \<open>The parent of a linked process is never null; following a null pointer stops the kernel.\<close>

definition set_links :: "proc_table \<Rightarrow> proc_ptr \<Rightarrow> proc_table outcome" where
  "set_links t p =
     (case parent (proc_of t p) of
        None \<Rightarrow> Panic
      | Some q \<Rightarrow>
          let t1 = set_proc p (yptr_update (\<lambda>_. None)) (t\<lparr>proc_links := list_add (proc_links t) None (Some p)\<rparr>);
              o' = cptr (proc_of t1 q);
              t2 = set_proc p (optr_update (\<lambda>_. o')) t1;
              t3 = (case o' of None \<Rightarrow> t2 | Some x \<Rightarrow> set_proc x (yptr_update (\<lambda>_. Some p)) t2);
              t4 = set_proc q (cptr_update (\<lambda>_. Some p)) t3
          in Ret (t4\<lparr>nr_process := nr_process t4 + 1\<rparr>))"

definition remove_links :: "proc_table \<Rightarrow> proc_ptr \<Rightarrow> proc_table outcome" where
  "remove_links t p =
     (let t1 = t\<lparr>proc_links := list_del (proc_links t) (Some p)\<rparr>;
          t2 = (case optr (proc_of t1 p) of
                  None \<Rightarrow> t1
                | Some x \<Rightarrow> set_proc x (yptr_update (\<lambda>_. yptr (proc_of t1 p))) t1)
      in bind_outcome
           (case yptr (proc_of t2 p) of
              Some y \<Rightarrow> Ret (set_proc y (optr_update (\<lambda>_. optr (proc_of t2 p))) t2)
            | None \<Rightarrow>
                (case parent (proc_of t2 p) of
                   None \<Rightarrow> Panic
                 | Some q \<Rightarrow> Ret (set_proc q (cptr_update (\<lambda>_. optr (proc_of t2 p))) t2)))
           (\<lambda>t3. Ret (t3\<lparr>nr_process := nr_process t3 - 1\<rparr>)))"

subsection \<open>The process number loop ends\<close>

text \<open>\<open>pids t xs\<close> are the numbers in use by the processes of the list.\<close>

definition pids :: "proc_table \<Rightarrow> proc_ptr list \<Rightarrow> int set" where
  "pids t xs = (\<lambda>p. pid (proc_of t p)) ` set xs"

lemma pid_next:
  assumes "dlist (proc_links t) None (map Some (ys @ zs))"
  shows "list_next (proc_links t) (last (None # map Some ys)) = (case zs of [] \<Rightarrow> None | z # _ \<Rightarrow> Some z)"
  using dlist_around(1) [of "proc_links t" None "map Some ys" "map Some zs"] assms by (auto simp: list_next_def split: list.splits)

lemma last_map_Some: "last (None # map Some (ys @ [z])) = Some z"
  by simp

text \<open>
  As long as some number at or above the candidate is free the candidate never passes it;
  when there is none the search wraps to 1 at most once.
\<close>

lemma pid_loop_ends:
  assumes d: "dlist (proc_links t) None (map Some xs)" and free: "\<exists>u. 1 \<le> u \<and> u < MAX_PID \<and> u \<notin> pids t xs"
    and split: "xs = ys @ zs" and r: "1 \<le> lastp" "lastp < safe" "safe \<le> MAX_PID" and seen: "\<forall>p \<in> set ys. pid (proc_of t p) \<notin> {lastp ..< safe}"
  shows "\<exists>l s. pid_loop t (last (None # map Some ys)) lastp safe = Some (l, s) \<and> 1 \<le> l \<and> l < s \<and> s \<le> MAX_PID \<and>
     pids t xs \<inter> {l ..< s} = {}"
  using split r seen
proof (induction "(if \<exists>u. lastp \<le> u \<and> u < MAX_PID \<and> u \<notin> pids t xs then 0 else 1 :: nat, nat (MAX_PID - lastp), length zs)"
    arbitrary: lastp safe ys zs rule: wf_induct_rule [OF wf_lex_prod [OF wf_less wf_lex_prod [OF wf_less wf_less]]])
  case (1 lastp zs safe ys)
  let ?le = "last (None # map Some ys)"
  note IH = 1(1) and split = 1(2) and r = 1(3-5) and seen = 1(6)
  have nx: "list_next (proc_links t) ?le = (case zs of [] \<Rightarrow> None | z # _ \<Rightarrow> Some z)" using pid_next [of t ys zs] d split by simp
  show ?case
  proof (cases zs)
    case Nil
    then have "pid_loop t ?le lastp safe = Some (lastp, safe)" using nx by (subst pid_loop.simps) simp
    moreover have "pids t xs \<inter> {lastp ..< safe} = {}" using seen split Nil by (auto simp: pids_def)
    ultimately show ?thesis using r by blast
  next
    case (Cons z zs')
    let ?d = "pid (proc_of t z)"
    have xs: "xs = (ys @ [z]) @ zs'" using split Cons by simp
    have step: "pid_loop t ?le lastp safe =
       (if ?d = lastp then
          if lastp + 1 \<ge> safe then pid_loop t None (if lastp + 1 \<ge> MAX_PID then 1 else lastp + 1) MAX_PID
          else pid_loop t (Some z) (lastp + 1) safe
        else if ?d > lastp \<and> safe > ?d then pid_loop t (Some z) lastp ?d else pid_loop t (Some z) lastp safe)"
      using nx Cons by (subst pid_loop.simps) simp
    consider (wrap) "?d = lastp" "lastp + 1 \<ge> safe" "lastp + 1 \<ge> MAX_PID" | (again) "?d = lastp" "lastp + 1 \<ge> safe" "lastp + 1 < MAX_PID"
      | (up) "?d = lastp" "lastp + 1 < safe" | (narrow) "?d > lastp" "safe > ?d" | (pass) "?d \<noteq> lastp" "\<not> (?d > lastp \<and> safe > ?d)" by linarith
    then show ?thesis
    proof cases
      case wrap
      have "lastp \<in> pids t xs" using wrap(1) xs by (auto simp: pids_def)
      moreover have "u = lastp" if "lastp \<le> u" "u < MAX_PID" for u using that wrap(3) by linarith
      ultimately have "\<not> (\<exists>u. lastp \<le> u \<and> u < MAX_PID \<and> u \<notin> pids t xs)" by metis
      then have "\<exists>l s. pid_loop t (last (None # map Some [])) 1 MAX_PID = Some (l, s) \<and> 1 \<le> l \<and> l < s \<and> s \<le> MAX_PID \<and> pids t xs \<inter> {l ..< s} = {}"
        using free by (intro IH [of 1 xs "[]" MAX_PID]) (auto simp: MAX_PID_def MAX_PROCESS_def)
      then show ?thesis unfolding step using wrap by simp
    next
      case again
      have "lastp \<in> pids t xs" using again(1) xs by (auto simp: pids_def)
      then have fl: "(\<exists>u. lastp + 1 \<le> u \<and> u < MAX_PID \<and> u \<notin> pids t xs) = (\<exists>u. lastp \<le> u \<and> u < MAX_PID \<and> u \<notin> pids t xs)"
        by (metis add1_zle_eq le_less order_refl)
      then have "\<exists>l s. pid_loop t (last (None # map Some [])) (lastp + 1) MAX_PID = Some (l, s) \<and> 1 \<le> l \<and> l < s \<and> s \<le> MAX_PID \<and> pids t xs \<inter> {l ..< s} = {}"
        using again r by (intro IH [of "lastp + 1" xs "[]" MAX_PID]) (auto simp: fl)
      then show ?thesis unfolding step using again by simp
    next
      case up
      have "lastp \<in> pids t xs" using up(1) xs by (auto simp: pids_def)
      then have fl: "(\<exists>u. lastp + 1 \<le> u \<and> u < MAX_PID \<and> u \<notin> pids t xs) = (\<exists>u. lastp \<le> u \<and> u < MAX_PID \<and> u \<notin> pids t xs)"
        by (metis add1_zle_eq le_less order_refl)
      then have "\<exists>l s. pid_loop t (last (None # map Some (ys @ [z]))) (lastp + 1) safe = Some (l, s) \<and> 1 \<le> l \<and> l < s \<and> s \<le> MAX_PID \<and> pids t xs \<inter> {l ..< s} = {}"
        using up r seen xs by (intro IH [of "lastp + 1" zs' "ys @ [z]" safe]) (auto simp: fl)
      then show ?thesis unfolding step using up by simp
    next
      case narrow
      then have "\<exists>l s. pid_loop t (last (None # map Some (ys @ [z]))) lastp ?d = Some (l, s) \<and> 1 \<le> l \<and> l < s \<and> s \<le> MAX_PID \<and> pids t xs \<inter> {l ..< s} = {}"
        using r seen xs Cons by (intro IH [of lastp zs' "ys @ [z]" ?d]) auto
      then show ?thesis unfolding step using narrow by simp
    next
      case pass
      then have "\<exists>l s. pid_loop t (last (None # map Some (ys @ [z]))) lastp safe = Some (l, s) \<and> 1 \<le> l \<and> l < s \<and> s \<le> MAX_PID \<and> pids t xs \<inter> {l ..< s} = {}"
        using r seen xs Cons by (intro IH [of lastp zs' "ys @ [z]" safe]) auto
      then show ?thesis unfolding step using pass by auto
    qed
  qed
qed

subsection \<open>The invariant of the table\<close>

definition buckets :: "proc_table \<Rightarrow> proc_ptr list \<Rightarrow> (nat \<Rightarrow> proc_ptr list) \<Rightarrow> bool" where
  "buckets t xs bk \<longleftrightarrow> (\<forall>b. dlist (hash_links t) (HHead b) (map HLink (bk b)) \<and>
     set (bk b) = {p \<in> set xs. pid_hashfn (pid (proc_of t p)) = b})"

definition pid_window :: "proc_table \<Rightarrow> proc_ptr list \<Rightarrow> bool" where
  "pid_window t xs \<longleftrightarrow> 1 \<le> last_pid t \<and> next_safe t \<le> MAX_PID \<and> pids t xs \<inter> {last_pid t <..< next_safe t} = {}"

definition table_inv :: "proc_table \<Rightarrow> proc_ptr list \<Rightarrow> bool" where
  "table_inv t xs \<longleftrightarrow> dlist (proc_links t) None (map Some xs) \<and> inj_on (\<lambda>p. pid (proc_of t p)) (set xs) \<and>
     pids t xs \<subseteq> {1 ..< MAX_PID} \<and> (\<exists>bk. buckets t xs bk) \<and> nr_process t = int (length xs) + 1 \<and> pid_window t xs"

lemma table_invD:
  assumes "table_inv t xs"
  shows "dlist (proc_links t) None (map Some xs)" "inj_on (\<lambda>p. pid (proc_of t p)) (set xs)" "pids t xs \<subseteq> {1 ..< MAX_PID}"
    "\<exists>bk. buckets t xs bk" "nr_process t = int (length xs) + 1" "pid_window t xs" "distinct xs"
proof -
  show "distinct xs" using assms dlist_distinct [of "proc_links t" None "map Some xs"] by (auto simp: table_inv_def distinct_map)
qed (use assms in \<open>simp_all add: table_inv_def\<close>)

lemma pid_free:
  assumes "int (length xs) < MAX_PID - 1"
  shows "\<exists>u. 1 \<le> u \<and> u < MAX_PID \<and> u \<notin> pids t xs"
proof (rule ccontr)
  assume "\<not> ?thesis"
  then have "{1 ..< MAX_PID} \<subseteq> pids t xs" by auto
  then have "card {1 ..< MAX_PID} \<le> card (pids t xs)" by (intro card_mono) (simp_all add: pids_def)
  also have "\<dots> \<le> length xs" unfolding pids_def by (meson card_image_le card_length finite_set le_trans)
  finally show False using assms by simp
qed

lemma get_pid_ok:
  assumes inv: "table_inv t xs" and n: "int (length xs) < MAX_PID - 1"
  shows "\<exists>r n. get_pid t = Ret (t\<lparr>last_pid := r, next_safe := n\<rparr>, r) \<and> 1 \<le> r \<and> r < n \<and> n \<le> MAX_PID \<and> pids t xs \<inter> {r ..< n} = {}"
proof -
  note I = table_invD [OF inv]
  have loop: "\<exists>l s. pid_loop t None k MAX_PID = Some (l, s) \<and> 1 \<le> l \<and> l < s \<and> s \<le> MAX_PID \<and> pids t xs \<inter> {l ..< s} = {}"
    if "1 \<le> k" "k < MAX_PID" for k
    using pid_loop_ends [OF I(1) pid_free [OF n], of "[]" xs k MAX_PID] that by simp
  have w: "1 \<le> last_pid t" "pids t xs \<inter> {last_pid t <..< next_safe t} = {}" "next_safe t \<le> MAX_PID" using I(6) by (auto simp: pid_window_def)
  consider (wrap) "last_pid t + 1 \<ge> MAX_PID" | (scan) "last_pid t + 1 < MAX_PID" "last_pid t + 1 \<ge> next_safe t" | (fast) "last_pid t + 1 < MAX_PID" "last_pid t + 1 < next_safe t" by linarith
  then show ?thesis
  proof cases
    case wrap
    then show ?thesis using loop [of 1] by (auto simp: get_pid_def MAX_PID_def MAX_PROCESS_def)
  next
    case scan
    then show ?thesis using loop [of "last_pid t + 1"] w by (auto simp: get_pid_def)
  next
    case fast
    have "{last_pid t + 1 ..< next_safe t} = {last_pid t <..< next_safe t}" by auto
    then show ?thesis using fast w by (intro exI [of _ "last_pid t + 1"] exI [of _ "next_safe t"]) (simp add: get_pid_def)
  qed
qed

lemma find_proc_ok:
  assumes inv: "table_inv t xs"
  shows "find_proc t d = Ret (if \<exists>p \<in> set xs. pid (proc_of t p) = d then Some (THE p. p \<in> set xs \<and> pid (proc_of t p) = d) else None)"
proof (cases "0 < d \<and> d < MAX_PID")
  case False
  then have "\<not> (\<exists>p \<in> set xs. pid (proc_of t p) = d)" using table_invD(3) [OF inv] by (auto simp: pids_def)
  then show ?thesis using False by (auto simp: find_proc_def)
next
  case True
  let ?b = "pid_hashfn d" and ?f = "\<lambda>p. pid (proc_of t p) = d"
  obtain bk where bk: "buckets t xs bk" using table_invD(4) [OF inv] by blast
  let ?P = "\<lambda>le. case le of HLink p \<Rightarrow> pid (proc_of t p) = d | HHead _ \<Rightarrow> False"
  have d: "dlist (hash_links t) (HHead ?b) (map HLink (bk ?b))" "set (bk ?b) = {p \<in> set xs. pid_hashfn (pid (proc_of t p)) = ?b}"
    using bk by (auto simp: buckets_def)
  have fm: "find ?P (map HLink ys) = map_option HLink (find ?f ys)" for ys by (induction ys) auto
  have res: "find_proc t d = Ret (find ?f (bk ?b))"
    using True list_scan_dlist [OF d(1), of ?P] by (auto simp: find_proc_def fm split: option.splits)
  have one: "p = q" if "p \<in> set xs" "q \<in> set xs" "?f p" "?f q" for p q using table_invD(2) [OF inv] that by (auto simp: inj_on_def)
  show ?thesis
  proof (cases "find ?f (bk ?b)")
    case None
    then have "\<not> (\<exists>p \<in> set xs. ?f p)" using d(2) by (auto simp: find_None_iff)
    then show ?thesis using res None by simp
  next
    case (Some p)
    then have p: "p \<in> set xs" "?f p" using d(2) by (auto simp: find_Some_iff set_conv_nth)
    then have "(THE p. p \<in> set xs \<and> ?f p) = p" using one by (intro the_equality) auto
    then show ?thesis using res Some p by auto
  qed
qed

subsection \<open>Adding and removing a process\<close>

text \<open>
  The block of \<open>do_fork\<close> that runs with interrupts off, and the one of \<open>do_wait\<close>.
\<close>

definition enter_proc :: "proc_table \<Rightarrow> proc_ptr \<Rightarrow> proc_table outcome" where
  "enter_proc t p =
     bind_outcome (get_pid t)
       (\<lambda>(t, n). set_links (hash_proc (set_proc p (pid_update (\<lambda>_. n)) t) p) p)"

definition drop_proc :: "proc_table \<Rightarrow> proc_ptr \<Rightarrow> proc_table outcome" where
  "drop_proc t p = remove_links (unhash_proc t p) p"

lemma set_links_eq:
  assumes "parent (proc_of t p) = Some q" "q \<noteq> p" "cptr (proc_of t q) \<noteq> Some p"
  shows "\<exists>t'. set_links t p = Ret t' \<and> proc_links t' = list_add (proc_links t) None (Some p) \<and> hash_links t' = hash_links t \<and>
     nr_process t' = nr_process t + 1 \<and> next_safe t' = next_safe t \<and> last_pid t' = last_pid t \<and> initproc t' = initproc t \<and>
     sch t' = (sch t)\<lparr>procs := procs (sch t')\<rparr> \<and>
     (\<forall>x. proc_of t' x = (proc_of t x)\<lparr>cptr := if x = q then Some p else cptr (proc_of t x),
        yptr := if x = p then None else if cptr (proc_of t q) = Some x then Some p else yptr (proc_of t x),
        optr := if x = p then cptr (proc_of t q) else optr (proc_of t x)\<rparr>)"
  using assms by (cases "cptr (proc_of t q)") (auto simp: set_links_def Let_def)

lemma remove_links_eq:
  assumes "parent (proc_of t p) = Some q" "q \<noteq> p" "optr (proc_of t p) \<noteq> Some p" "yptr (proc_of t p) \<noteq> Some p"
  shows "\<exists>t'. remove_links t p = Ret t' \<and> proc_links t' = list_del (proc_links t) (Some p) \<and> hash_links t' = hash_links t \<and>
     nr_process t' = nr_process t - 1 \<and> next_safe t' = next_safe t \<and> last_pid t' = last_pid t \<and> initproc t' = initproc t \<and>
     sch t' = (sch t)\<lparr>procs := procs (sch t')\<rparr> \<and>
     (\<forall>x. proc_of t' x = (proc_of t x)\<lparr>
        cptr := if x = q \<and> yptr (proc_of t p) = None then optr (proc_of t p) else cptr (proc_of t x),
        yptr := if optr (proc_of t p) = Some x then yptr (proc_of t p) else yptr (proc_of t x),
        optr := if yptr (proc_of t p) = Some x then optr (proc_of t p) else optr (proc_of t x)\<rparr>)"
  using assms by (cases "optr (proc_of t p)"; cases "yptr (proc_of t p)") (auto simp: remove_links_def Let_def)

text \<open>The links of an entry that is in another ring are not touched.\<close>

lemma list_add_other:
  assumes "dlist h l xs" "y \<notin> insert e (insert l (set xs))"
  shows "le_next (list_add h l e) y = le_next h y" "le_prev (list_add h l e) y = le_prev h y"
proof -
  have "le_next h l = (case xs of [] \<Rightarrow> l | x # _ \<Rightarrow> x)" using dlist_next_head [OF assms(1)] by (simp add: list_next_def)
  then have "y \<noteq> le_next h l" "y \<noteq> l" "y \<noteq> e" using assms(2) by (auto split: list.splits)
  then show "le_next (list_add h l e) y = le_next h y" "le_prev (list_add h l e) y = le_prev h y"
    by (auto simp: list_add_def list_add_after_def list_add_between_def)
qed

lemma list_del_other:
  assumes d: "dlist h l (ys @ x # zs)" and y: "y \<notin> insert l (set (ys @ x # zs))"
  shows "le_next (list_del h x) y = le_next h y" "le_prev (list_del h x) y = le_prev h y"
proof -
  have "le_prev h x = last (l # ys)" using dlist_prev [OF d] by (simp add: list_prev_def)
  moreover have "last (l # ys) \<in> insert l (set ys)" using last_in_set [of "l # ys"] by simp
  moreover have "le_next h x = (case zs of [] \<Rightarrow> l | z # _ \<Rightarrow> z)" using dlist_next [OF d] by (simp add: list_next_def)
  ultimately have "y \<noteq> le_prev h x" "y \<noteq> le_next h x" using y by (auto split: list.splits)
  then show "le_next (list_del h x) y = le_next h y" "le_prev (list_del h x) y = le_prev h y"
    by (auto simp: list_del_def list_del_between_def)
qed

lemma bucketsD:
  assumes "buckets t xs bk"
  shows "dlist (hash_links t) (HHead b) (map HLink (bk b))" "set (bk b) = {p \<in> set xs. pid_hashfn (pid (proc_of t p)) = b}"
  using assms by (simp_all add: buckets_def)

lemma buckets_add:
  assumes bk: "buckets t xs bk" and p: "p \<notin> set xs"
    and t': "hash_links t' = list_add (hash_links t) (HHead (pid_hashfn (pid (proc_of t' p)))) (HLink p)"
    and same: "\<And>x. x \<in> set xs \<Longrightarrow> pid (proc_of t' x) = pid (proc_of t x)"
  shows "buckets t' (p # xs) (bk(pid_hashfn (pid (proc_of t' p)) := p # bk (pid_hashfn (pid (proc_of t' p)))))"
proof -
  let ?b = "pid_hashfn (pid (proc_of t' p))"
  note B = bucketsD [OF bk]
  have "dlist (hash_links t') (HHead b) (map HLink ((bk(?b := p # bk ?b)) b))" for b
  proof (cases "b = ?b")
    case True
    then show ?thesis using lq.ring_push_front [OF B(1) [of ?b], of "HLink p"] B(2) [of ?b] p t' by auto
  next
    case False
    then have o: "y \<notin> insert (HLink p) (insert (HHead ?b) (set (map HLink (bk ?b))))" if "y \<in> insert (HHead b) (set (map HLink (bk b)))" for y
      using that B(2) [of b] B(2) [of ?b] p by auto
    show ?thesis unfolding t' using False dlist_frame [OF B(1) [of b] list_add_other(1) [OF B(1) o] list_add_other(2) [OF B(1) o]] by simp
  qed
  moreover have "set ((bk(?b := p # bk ?b)) b) = {x \<in> set (p # xs). pid_hashfn (pid (proc_of t' x)) = b}" for b
    using B(2) [of b] same by auto
  ultimately show ?thesis by (simp add: buckets_def)
qed

lemma buckets_del:
  assumes bk: "buckets t xs bk" and p: "p \<in> set xs" "distinct xs"
    and t': "hash_links t' = list_del (hash_links t) (HLink p)"
    and same: "\<And>x. x \<in> set xs \<Longrightarrow> pid (proc_of t' x) = pid (proc_of t x)"
  shows "buckets t' (remove1 p xs) (bk(pid_hashfn (pid (proc_of t p)) := remove1 p (bk (pid_hashfn (pid (proc_of t p))))))"
proof -
  let ?b = "pid_hashfn (pid (proc_of t p))"
  note B = bucketsD [OF bk]
  have "p \<in> set (bk ?b)" using B(2) p by auto
  then obtain ys zs where sp: "bk ?b = ys @ p # zs" by (meson split_list)
  have "distinct (map HLink (bk ?b))" using dlist_distinct [OF B(1)] by blast
  then have db: "distinct (bk ?b)" "remove1 p (bk ?b) = ys @ zs" using sp by (auto simp: distinct_map remove1_append)
  note d = B(1) [of ?b, unfolded sp, simplified]
  have "dlist (hash_links t') (HHead b) (map HLink ((bk(?b := remove1 p (bk ?b))) b))" for b
  proof (cases "b = ?b")
    case True
    then show ?thesis using list_del_dlist [OF d] t' db by simp
  next
    case False
    then have o: "y \<notin> insert (HHead ?b) (set (map HLink ys @ HLink p # map HLink zs))" if "y \<in> insert (HHead b) (set (map HLink (bk b)))" for y
      using that B(2) [of b] B(2) [of ?b] sp by auto
    show ?thesis unfolding t' using False dlist_frame [OF B(1) [of b] list_del_other(1) [OF d o] list_del_other(2) [OF d o]] by simp
  qed
  moreover have "set ((bk(?b := remove1 p (bk ?b))) b) = {x \<in> set (remove1 p xs). pid_hashfn (pid (proc_of t' x)) = b}" for b
    unfolding set_remove1_eq [OF p(2)] using B(2) [of b] same by (cases "b = ?b") (auto simp: set_remove1_eq [OF db(1)])
  ultimately show ?thesis by (simp add: buckets_def)
qed

subsection \<open>The tree of processes\<close>

text \<open>
  The children of a process, youngest first: \<open>cptr\<close> is the youngest child, \<open>optr\<close> the next
  older sibling and \<open>yptr\<close> the next younger one. \<open>idleproc\<close> is the root; it is not in the list.
\<close>

fun sib_chain :: "(proc_ptr \<Rightarrow> proc_struct) \<Rightarrow> proc_ptr option \<Rightarrow> proc_ptr list \<Rightarrow> bool" where
  "sib_chain P y [] \<longleftrightarrow> True"
| "sib_chain P y (x # xs) \<longleftrightarrow> yptr (P x) = y \<and> optr (P x) = first_link xs \<and> sib_chain P (Some x) xs"

definition tree_inv :: "proc_table \<Rightarrow> proc_ptr list \<Rightarrow> (proc_ptr \<Rightarrow> proc_ptr list) \<Rightarrow> bool" where
  "tree_inv t xs ch \<longleftrightarrow> idleproc (sch t) \<notin> set xs \<and>
     (\<forall>p \<in> set xs. \<exists>q \<in> insert (idleproc (sch t)) (set xs). parent (proc_of t p) = Some q \<and> q \<noteq> p) \<and>
     (\<forall>q \<in> insert (idleproc (sch t)) (set xs). cptr (proc_of t q) = first_link (ch q) \<and> sib_chain (procs (sch t)) None (ch q) \<and>
        distinct (ch q) \<and> set (ch q) = {p \<in> set xs. parent (proc_of t p) = Some q})"

lemma tree_invD:
  assumes "tree_inv t xs ch"
  shows "idleproc (sch t) \<notin> set xs"
    and "p \<in> set xs \<Longrightarrow> \<exists>q \<in> insert (idleproc (sch t)) (set xs). parent (proc_of t p) = Some q \<and> q \<noteq> p"
    and "q \<in> insert (idleproc (sch t)) (set xs) \<Longrightarrow> cptr (proc_of t q) = first_link (ch q)"
    and "q \<in> insert (idleproc (sch t)) (set xs) \<Longrightarrow> sib_chain (procs (sch t)) None (ch q)"
    and "q \<in> insert (idleproc (sch t)) (set xs) \<Longrightarrow> distinct (ch q)"
    and "q \<in> insert (idleproc (sch t)) (set xs) \<Longrightarrow> set (ch q) = {p \<in> set xs. parent (proc_of t p) = Some q}"
  using assms unfolding tree_inv_def by blast+

lemma sib_chain_frame:
  "(\<And>x. x \<in> set xs \<Longrightarrow> yptr (P' x) = yptr (P x) \<and> optr (P' x) = optr (P x)) \<Longrightarrow> sib_chain P' y xs = sib_chain P y xs"
  by (induction xs arbitrary: y) auto


text \<open>The chain around a member, and after the member has been taken out.\<close>

lemma sib_chain_mid:
  "sib_chain P y (us @ p # vs) \<Longrightarrow> yptr (P p) = last (y # map Some us) \<and> optr (P p) = first_link vs"
proof (induction us arbitrary: y)
  case (Cons u us)
  then show ?case using Cons.IH [of "Some u"] by simp
qed simp

lemma sib_chain_del:
  assumes "sib_chain P y (us @ p # vs)" "distinct (us @ p # vs)"
    and "\<And>x. x \<in> set (us @ vs) \<Longrightarrow> yptr (P' x) = (if first_link vs = Some x then yptr (P p) else yptr (P x))"
    and "\<And>x. x \<in> set (us @ vs) \<Longrightarrow> optr (P' x) = (if us \<noteq> [] \<and> last us = x then first_link vs else optr (P x))"
  shows "sib_chain P' y (us @ vs)"
  using assms
proof (induction us arbitrary: y)
  case Nil
  then show ?case
  proof (cases vs)
    case (Cons v vs')
    with Nil.prems have "sib_chain P' (Some v) vs' = sib_chain P (Some v) vs'" by (intro sib_chain_frame) auto
    then show ?thesis using Nil.prems Cons by simp
  qed simp
next
  case (Cons u us)
  have "sib_chain P' (Some u) (us @ vs)"
  proof (rule Cons.IH)
    show "yptr (P' x) = (if first_link vs = Some x then yptr (P p) else yptr (P x))" if "x \<in> set (us @ vs)" for x
      using Cons.prems(3) [of x] that by simp
    have "u \<notin> set us" using Cons.prems(2) by simp
    then show "optr (P' x) = (if us \<noteq> [] \<and> last us = x then first_link vs else optr (P x))" if "x \<in> set (us @ vs)" for x
      using Cons.prems(2) Cons.prems(4) [of x] that by (cases "us = []") auto
  qed (use Cons.prems(1,2) in simp_all)
  moreover have "yptr (P' u) = y" using Cons.prems(1,2) Cons.prems(3) [of u] by (cases vs) auto
  moreover have "optr (P' u) = first_link (us @ vs)" using Cons.prems(1,2) Cons.prems(4) [of u] by (cases us) auto
  ultimately show ?case by simp
qed

lemma tree_add:
  assumes tr: "tree_inv t xs ch" and p: "p \<notin> insert (idleproc (sch t)) (set xs)"
    and par: "parent (proc_of t p) = Some q" "q \<in> insert (idleproc (sch t)) (set xs)" "cptr (proc_of t p) = None"
    and idle: "idleproc (sch t') = idleproc (sch t)"
    and t': "\<And>x. parent (proc_of t' x) = parent (proc_of t x)"
      "\<And>x. cptr (proc_of t' x) = (if x = q then Some p else cptr (proc_of t x))"
      "\<And>x. yptr (proc_of t' x) = (if x = p then None else if cptr (proc_of t q) = Some x then Some p else yptr (proc_of t x))"
      "\<And>x. optr (proc_of t' x) = (if x = p then cptr (proc_of t q) else optr (proc_of t x))"
  shows "tree_inv t' (p # xs) (ch(q := p # ch q, p := []))"
proof -
  let ?ch = "ch(q := p # ch q, p := [])"
  note D = tree_invD [OF tr]
  have q: "q \<noteq> p" using p par by auto
  have sub: "set (ch r) \<subseteq> set xs" if "r \<in> insert (idleproc (sch t)) (set xs)" for r using D(6) [OF that] by auto
  have hd: "x \<in> set (ch q)" if "cptr (proc_of t q) = Some x" for x using D(3) [OF par(2)] that by (cases "ch q") auto
  have other: "sib_chain (procs (sch t')) None (ch r)" if r: "r \<in> insert (idleproc (sch t)) (set xs)" "r \<noteq> q" for r
  proof -
    have "cptr (proc_of t q) \<noteq> Some x" if "x \<in> set (ch r)" for x
      using hd [of x] D(6) [OF par(2)] D(6) [OF r(1)] r(2) that by auto
    moreover have "x \<noteq> p" if "x \<in> set (ch r)" for x using sub [OF r(1)] that p by auto
    ultimately show ?thesis using D(4) [OF r(1)] sib_chain_frame [of "ch r" "procs (sch t')" "procs (sch t)"] by (simp add: t')
  qed
  have mine: "sib_chain (procs (sch t')) None (p # ch q)"
  proof (cases "ch q")
    case (Cons c cs)
    have dc: "distinct (c # cs)" "p \<notin> set (c # cs)" using D(5) [OF par(2)] sub [OF par(2)] p Cons by auto
    have "sib_chain (procs (sch t')) (Some c) cs = sib_chain (procs (sch t)) (Some c) cs"
      using dc Cons D(3) [OF par(2)] by (intro sib_chain_frame) (auto simp: t')
    then show ?thesis using D(3,4) [OF par(2)] Cons dc by (auto simp: t')
  qed (use D(3) [OF par(2)] in \<open>simp add: t'\<close>)
  show ?thesis unfolding tree_inv_def idle
  proof (intro conjI ballI)
    show "idleproc (sch t) \<notin> set (p # xs)" using D(1) p by auto
    show "\<exists>q \<in> insert (idleproc (sch t)) (set (p # xs)). parent (proc_of t' r) = Some q \<and> q \<noteq> r" if "r \<in> set (p # xs)" for r
      using that D(2) [of r] par q by (auto simp: t')
  next
    fix r assume r: "r \<in> insert (idleproc (sch t)) (set (p # xs))"
    have np: "parent (proc_of t x) \<noteq> Some p" if "x \<in> set xs" for x using D(2) [OF that] p by auto
    consider "r = p" | "r = q" | "r \<noteq> p" "r \<noteq> q" "r \<in> insert (idleproc (sch t)) (set xs)" using r by auto
    then have "cptr (proc_of t' r) = first_link (?ch r) \<and> sib_chain (procs (sch t')) None (?ch r) \<and> distinct (?ch r) \<and>
      set (?ch r) = {x \<in> set (p # xs). parent (proc_of t' x) = Some r}"
    proof cases
      case 1
      then show ?thesis using np par q by (auto simp: t')
    next
      case 2
      have "set (p # ch q) = {x \<in> set (p # xs). parent (proc_of t' x) = Some q}" using D(6) [OF par(2)] par p by (auto simp: t')
      moreover have "distinct (p # ch q)" using D(5) [OF par(2)] sub [OF par(2)] p by auto
      ultimately show ?thesis using mine q 2 by (simp add: t'(2) del: sib_chain.simps distinct.simps set_simps)
    next
      case 3
      have "set (ch r) = {x \<in> set (p # xs). parent (proc_of t' x) = Some r}" unfolding D(6) [OF 3(3)] t'(1) using par(1) 3(2) by auto
      then show ?thesis using 3 other [OF 3(3,2)] D(3,5) [OF 3(3)] by (simp add: t'(2))
    qed
    then show "cptr (proc_of t' r) = first_link (?ch r)" "sib_chain (procs (sch t')) None (?ch r)" "distinct (?ch r)"
      "set (?ch r) = {x \<in> set (p # xs). parent (proc_of t' x) = Some r}" by blast+
  qed
qed

lemma tree_del:
  assumes tr: "tree_inv t xs ch" and p: "p \<in> set xs" "distinct xs" "ch p = []" and par: "parent (proc_of t p) = Some q"
    and idle: "idleproc (sch t') = idleproc (sch t)"
    and t': "\<And>x. parent (proc_of t' x) = parent (proc_of t x)"
      "\<And>x. cptr (proc_of t' x) = (if x = q \<and> yptr (proc_of t p) = None then optr (proc_of t p) else cptr (proc_of t x))"
      "\<And>x. yptr (proc_of t' x) = (if optr (proc_of t p) = Some x then yptr (proc_of t p) else yptr (proc_of t x))"
      "\<And>x. optr (proc_of t' x) = (if yptr (proc_of t p) = Some x then optr (proc_of t p) else optr (proc_of t x))"
  shows "tree_inv t' (remove1 p xs) (ch(q := remove1 p (ch q)))"
proof -
  let ?ch = "ch(q := remove1 p (ch q))"
  note D = tree_invD [OF tr]
  obtain q: "q \<noteq> p" "q \<in> insert (idleproc (sch t)) (set xs)" using D(2) [OF p(1)] par by auto
  have "p \<in> set (ch q)" using D(6) [OF q(2)] p par by auto
  then obtain us vs where sp: "ch q = us @ p # vs" by (meson split_list)
  have di: "distinct (us @ p # vs)" using D(5) [OF q(2)] sp by simp
  note mid = sib_chain_mid [OF D(4) [OF q(2), unfolded sp]]
  have y: "yptr (proc_of t p) = (if us = [] then None else Some (last us))" using mid by (simp add: last_map)
  have rm: "remove1 p (ch q) = us @ vs" using sp di by (simp add: remove1_append)
  have nb: "x \<in> set (ch q)" if "optr (proc_of t p) = Some x \<or> yptr (proc_of t p) = Some x" for x
    using that y mid sp by (cases vs) (auto split: if_splits)
  have mine: "sib_chain (procs (sch t')) None (us @ vs)"
    by (rule sib_chain_del [OF D(4) [OF q(2), unfolded sp] di]) (use mid y in \<open>auto simp: t'\<close>)
  have other: "sib_chain (procs (sch t')) None (ch r)" if r: "r \<in> insert (idleproc (sch t)) (set xs)" "r \<noteq> q" for r
  proof -
    have "set (ch r) \<inter> set (ch q) = {}" using D(6) [OF q(2)] D(6) [OF r(1)] r(2) by auto
    then show ?thesis using D(4) [OF r(1)] sib_chain_frame [of "ch r" "procs (sch t')" "procs (sch t)"] nb by (fastforce simp: t')
  qed
  have cq: "cptr (proc_of t' q) = first_link (us @ vs)" using D(3) [OF q(2)] mid y sp by (cases us) (auto simp: t')
  have none: "parent (proc_of t x) \<noteq> Some p" if "x \<in> set xs" for x using D(6) [of p] p that by auto
  show ?thesis unfolding tree_inv_def idle set_remove1_eq [OF p(2)]
  proof (intro conjI ballI)
    show "idleproc (sch t) \<notin> set xs - {p}" using D(1) by auto
    show "\<exists>q \<in> insert (idleproc (sch t)) (set xs - {p}). parent (proc_of t' r) = Some q \<and> q \<noteq> r" if "r \<in> set xs - {p}" for r
      using that D(2) [of r] none [of r] by (auto simp: t')
  next
    fix r assume r: "r \<in> insert (idleproc (sch t)) (set xs - {p})"
    then have r': "r \<in> insert (idleproc (sch t)) (set xs)" "r \<noteq> p" using D(1) p by auto
    show "cptr (proc_of t' r) = first_link (?ch r)" using cq rm D(3) [OF r'(1)] t'(2) [of r] by (cases "r = q") simp_all
    show "sib_chain (procs (sch t')) None (?ch r)" using mine other [OF r'(1)] rm by simp
    show "distinct (?ch r)" using D(5) [OF r'(1)] D(5) [OF q(2)] by simp
    show "set (?ch r) = {x \<in> set xs - {p}. parent (proc_of t' x) = Some r}"
      using D(6) [OF r'(1)] par set_remove1_eq [OF D(5) [OF q(2)], of p] by (cases "r = q") (auto simp: t')
  qed
qed

lemma enter_proc_ok:
  assumes inv: "table_inv t xs" and tr: "tree_inv t xs ch" and n: "nr_process t < MAX_PROCESS" and p: "p \<notin> insert (idleproc (sch t)) (set xs)"
    and par: "parent (proc_of t p) = Some q" "q \<in> insert (idleproc (sch t)) (set xs)" "cptr (proc_of t p) = None"
  shows "\<exists>t'. enter_proc t p = Ret t' \<and> table_inv t' (p # xs) \<and> tree_inv t' (p # xs) (ch(q := p # ch q, p := [])) \<and>
     pid (proc_of t' p) \<in> {1 ..< MAX_PID} - pids t xs \<and> nr_process t' = nr_process t + 1 \<and> initproc t' = initproc t \<and>
     sch t' = (sch t)\<lparr>procs := procs (sch t')\<rparr> \<and>
     (\<forall>x. \<exists>c y o'. proc_of t' x = (proc_of t x)\<lparr>pid := if x = p then pid (proc_of t' p) else pid (proc_of t x), cptr := c, yptr := y, optr := o'\<rparr>)"
proof -
  note I = table_invD [OF inv]
  have "int (length xs) < MAX_PID - 1" using n I(5) by (simp add: MAX_PID_def MAX_PROCESS_def)
  from get_pid_ok [OF inv this] obtain r m where g: "get_pid t = Ret (t\<lparr>last_pid := r, next_safe := m\<rparr>, r)" "1 \<le> r" "r < m" "m \<le> MAX_PID"
    "pids t xs \<inter> {r ..< m} = {}" by blast
  define t1 where "t1 = hash_proc (set_proc p (pid_update (\<lambda>_. r)) (t\<lparr>last_pid := r, next_safe := m\<rparr>)) p"
  have q: "q \<noteq> p" using p par by auto
  have cq: "cptr (proc_of t q) \<noteq> Some p" using tree_invD(3,6) [OF tr par(2)] p by (cases "ch q") auto
  have "parent (proc_of t1 p) = Some q" "cptr (proc_of t1 q) \<noteq> Some p" using par q cq by (simp_all add: hash_proc_def t1_def)
  from set_links_eq [OF this(1) q this(2)] obtain t' where t': "set_links t1 p = Ret t'" "proc_links t' = list_add (proc_links t1) None (Some p)" "hash_links t' = hash_links t1"
     "nr_process t' = nr_process t1 + 1" "next_safe t' = next_safe t1" "last_pid t' = last_pid t1" "initproc t' = initproc t1"
     "sch t' = (sch t1)\<lparr>procs := procs (sch t')\<rparr>"
     "\<forall>x. proc_of t' x = (proc_of t1 x)\<lparr>cptr := if x = q then Some p else cptr (proc_of t1 x),
        yptr := if x = p then None else if cptr (proc_of t1 q) = Some x then Some p else yptr (proc_of t1 x),
        optr := if x = p then cptr (proc_of t1 q) else optr (proc_of t1 x)\<rparr>" by blast
  note f1 = t'(2-7) [unfolded t1_def hash_proc_def, simplified] and px = t'(9) [rule_format]
  have sel: "pid (proc_of t1 x) = (if x = p then r else pid (proc_of t x))" "parent (proc_of t1 x) = parent (proc_of t x)"
    "cptr (proc_of t1 x) = cptr (proc_of t x)" "yptr (proc_of t1 x) = yptr (proc_of t x)" "optr (proc_of t1 x) = optr (proc_of t x)" for x
    by (simp_all add: hash_proc_def t1_def)
  have p1: "proc_of t1 x = (proc_of t x)\<lparr>pid := if x = p then r else pid (proc_of t x)\<rparr>" for x by (simp add: hash_proc_def t1_def)
  have pd: "pid (proc_of t' x) = (if x = p then r else pid (proc_of t x))" for x by (simp add: px sel)
  have ps: "pids t' (p # xs) = insert r (pids t xs)" using p by (auto simp: pids_def pd)
  have rn: "r \<notin> pids t xs" using g by auto
  obtain bk where bk: "buckets t xs bk" using I(4) by blast
  have "buckets t' (p # xs) (bk(pid_hashfn r := p # bk (pid_hashfn r)))"
    by (rule buckets_add [OF bk, of p t', unfolded pd, simplified]) (use p in \<open>auto simp: f1\<close>)
  moreover have "dlist (proc_links t') None (map Some (p # xs))"
    using lq.ring_push_front [OF I(1), of "Some p"] p f1(1) by auto
  moreover have "inj_on (\<lambda>x. pid (proc_of t' x)) (set (p # xs))"
    using I(2) rn p by (auto simp: inj_on_def pd pids_def)
  moreover have "pid_window t' (p # xs)" using g I(6) by (auto simp: pid_window_def ps f1)
  moreover have "pids t' (p # xs) \<subseteq> {1 ..< MAX_PID}" using I(3) g by (auto simp: ps)
  ultimately have ti: "table_inv t' (p # xs)" using I(5) f1(3) by (auto simp: table_inv_def)
  have sc: "sch t' = (sch t)\<lparr>procs := procs (sch t')\<rparr>" using t'(8) by (simp add: hash_proc_def t1_def)
  then have idle1: "idleproc (sch t') = idleproc (sch t)" by (metis sched_state.select_convs(7) sched_state.surjective sched_state.update_convs(1))
  have tri: "tree_inv t' (p # xs) (ch(q := p # ch q, p := []))"
    by (rule tree_add [OF tr p par]) (use t'(8) in \<open>simp_all add: px sel idle1\<close>)
  have "enter_proc t p = Ret t'" using t'(1) g(1) by (simp add: enter_proc_def t1_def)
  moreover have "\<exists>c y o'. proc_of t' x = (proc_of t x)\<lparr>pid := if x = p then pid (proc_of t' p) else pid (proc_of t x), cptr := c, yptr := y, optr := o'\<rparr>" for x
    using p1 [of x] px [of x] unfolding pd by (intro exI) (simp only: simp_thms if_True if_cancel)
  ultimately show ?thesis using ti tri f1(3,6) rn g sc by (intro exI [of _ t']) (simp add: pd)
qed

lemma drop_proc_ok:
  assumes inv: "table_inv t xs" and tr: "tree_inv t xs ch" and p: "p \<in> set xs" "ch p = []" and par: "parent (proc_of t p) = Some q"
  shows "\<exists>t'. drop_proc t p = Ret t' \<and> table_inv t' (remove1 p xs) \<and> tree_inv t' (remove1 p xs) (ch(q := remove1 p (ch q))) \<and>
     nr_process t' = nr_process t - 1 \<and> initproc t' = initproc t \<and> sch t' = (sch t)\<lparr>procs := procs (sch t')\<rparr> \<and>
     (\<forall>x. \<exists>c y o'. proc_of t' x = (proc_of t x)\<lparr>cptr := c, yptr := y, optr := o'\<rparr>)"
proof -
  note I = table_invD [OF inv] and D = tree_invD [OF tr]
  define t1 where "t1 = unhash_proc t p"
  have sel: "proc_of t1 x = proc_of t x" "sch t1 = sch t" "nr_process t1 = nr_process t" "initproc t1 = initproc t" "proc_links t1 = proc_links t"
    "next_safe t1 = next_safe t" "last_pid t1 = last_pid t" "hash_links t1 = list_del (hash_links t) (HLink p)" for x
    by (simp_all add: t1_def unhash_proc_def)
  obtain q: "q \<noteq> p" "q \<in> insert (idleproc (sch t)) (set xs)" using D(2) [OF p(1)] par by auto
  have "p \<in> set (ch q)" using D(6) [OF q(2)] p par by auto
  then obtain us vs where sp: "ch q = us @ p # vs" by (meson split_list)
  have di: "distinct (us @ p # vs)" using D(5) [OF q(2)] sp by simp
  note mid = sib_chain_mid [OF D(4) [OF q(2), unfolded sp]]
  have "optr (proc_of t1 p) \<noteq> Some p" using mid di by (cases vs) (auto simp: sel)
  moreover have "yptr (proc_of t1 p) \<noteq> Some p" using mid di last_in_set [of us] by (cases "us = []") (auto simp: sel last_map)
  ultimately obtain t' where t': "remove_links t1 p = Ret t'" "proc_links t' = list_del (proc_links t1) (Some p)" "hash_links t' = hash_links t1"
     "nr_process t' = nr_process t1 - 1" "next_safe t' = next_safe t1" "last_pid t' = last_pid t1" "initproc t' = initproc t1"
     "sch t' = (sch t1)\<lparr>procs := procs (sch t')\<rparr>"
     "\<forall>x. proc_of t' x = (proc_of t1 x)\<lparr>
        cptr := if x = q \<and> yptr (proc_of t1 p) = None then optr (proc_of t1 p) else cptr (proc_of t1 x),
        yptr := if optr (proc_of t1 p) = Some x then yptr (proc_of t1 p) else yptr (proc_of t1 x),
        optr := if yptr (proc_of t1 p) = Some x then optr (proc_of t1 p) else optr (proc_of t1 x)\<rparr>"
    using remove_links_eq [of t1 p q] par q(1) unfolding sel by blast
  note px = t'(9) [rule_format, unfolded sel]
  have pd: "pid (proc_of t' x) = pid (proc_of t x)" for x by (simp add: px)
  have ps: "pids t' (remove1 p xs) \<subseteq> pids t xs" unfolding pids_def pd using set_remove1_subset [of p xs] by auto
  obtain bk where bk: "buckets t xs bk" using I(4) by blast
  have "\<exists>bk. buckets t' (remove1 p xs) bk" using buckets_del [OF bk p(1) I(7), of t'] by (auto simp: pd t'(3) sel)
  moreover obtain as bs where xs: "xs = as @ p # bs" using p(1) by (meson split_list)
  moreover have rm: "remove1 p xs = as @ bs" using xs I(7) by (simp add: remove1_append)
  then have "dlist (proc_links t') None (map Some (remove1 p xs))"
    using list_del_dlist [of "proc_links t" None "map Some as" "Some p" "map Some bs"] I(1) xs t'(2) sel(5) by simp
  moreover have "inj_on (\<lambda>x. pid (proc_of t' x)) (set (remove1 p xs))" unfolding pd using I(2) set_remove1_subset [of p xs] by (rule inj_on_subset)
  moreover have "pid_window t' (remove1 p xs)" using I(6) ps by (auto simp: pid_window_def t'(5,6) sel)
  moreover have "pids t' (remove1 p xs) \<subseteq> {1 ..< MAX_PID}" using I(3) ps by blast
  ultimately have ti: "table_inv t' (remove1 p xs)" using I(5) t'(4) p(1) by (simp add: table_inv_def sel length_remove1 of_nat_diff Suc_leI)
  have sc: "sch t' = (sch t)\<lparr>procs := procs (sch t')\<rparr>" using t'(8) by (simp add: sel)
  then have idle1: "idleproc (sch t') = idleproc (sch t)" by (metis sched_state.select_convs(7) sched_state.surjective sched_state.update_convs(1))
  have "tree_inv t' (remove1 p xs) (ch(q := remove1 p (ch q)))"
    by (rule tree_del [OF tr p(1) I(7) p(2) par idle1]) (simp_all add: px)
  moreover have "drop_proc t p = Ret t'" using t'(1) by (simp add: drop_proc_def t1_def)
  moreover have "\<forall>x. \<exists>c y o'. proc_of t' x = (proc_of t x)\<lparr>cptr := c, yptr := y, optr := o'\<rparr>" using px by blast
  ultimately show ?thesis using ti t'(4,7) sc sel by auto
qed

subsection \<open>The children of an exiting process go to \<open>initproc\<close>\<close>

text \<open>The body and the while loop of \<open>do_exit\<close>; \<open>initproc\<close> is never null once it runs.\<close>

definition relink_child :: "proc_table \<Rightarrow> proc_ptr \<Rightarrow> proc_ptr \<Rightarrow> proc_ptr \<Rightarrow> proc_table" where
  "relink_child t c i p =
     (let t1 = set_proc c (cptr_update (\<lambda>_. optr (proc_of t p))) t;
          t2 = set_proc p (yptr_update (\<lambda>_. None)) t1;
          o' = cptr (proc_of t2 i);
          t3 = set_proc p (optr_update (\<lambda>_. o')) t2;
          t4 = (case o' of None \<Rightarrow> t3 | Some x \<Rightarrow> set_proc x (yptr_update (\<lambda>_. Some p)) t3);
          t5 = set_proc p (parent_update (\<lambda>_. Some i)) t4
      in set_proc i (cptr_update (\<lambda>_. Some p)) t5)"

definition move_child :: "sched_class \<Rightarrow> proc_table \<Rightarrow> proc_ptr \<Rightarrow> proc_ptr \<Rightarrow> proc_ptr \<Rightarrow> proc_table outcome" where
  "move_child sc t c i p =
     (let t1 = relink_child t c i p
      in if state (proc_of t1 p) = PROC_ZOMBIE \<and> wait_state (proc_of t1 i) = WT_CHILD
         then bind_outcome (wakeup_proc sc (sch t1) i) (\<lambda>s. Ret (t1\<lparr>sch := s\<rparr>)) else Ret t1)"

partial_function (option) move_children :: "sched_class \<Rightarrow> proc_table \<Rightarrow> proc_ptr \<Rightarrow> proc_table outcome option" where
  "move_children sc t c =
     (case cptr (proc_of t c) of
        None \<Rightarrow> Some (Ret t)
      | Some p \<Rightarrow>
          (case initproc t of
             None \<Rightarrow> Some Panic
           | Some i \<Rightarrow> (case move_child sc t c i p of Panic \<Rightarrow> Some Panic | Ret t' \<Rightarrow> move_children sc t' c)))"

end
