(* ===== verification/ProcTree.thy ===== *)
theory ProcTree
  imports ProcTable
begin

text \<open>
  What the loop of \<open>do_exit\<close> does to the tree of processes: every child of the exiting process
  becomes a child of \<open>initproc\<close>, which is woken when it waits for a child and one of them is
  a zombie. The scheduling class is arbitrary, by its contract.
\<close>

subsection \<open>What the invariants depend on\<close>

lemma table_inv_cong:
  assumes "table_inv t xs" "proc_links t' = proc_links t" "hash_links t' = hash_links t" "nr_process t' = nr_process t"
    "last_pid t' = last_pid t" "next_safe t' = next_safe t" "\<And>x. x \<in> set xs \<Longrightarrow> pid (proc_of t' x) = pid (proc_of t x)"
  shows "table_inv t' xs"
proof -
  have "pids t' xs = pids t xs" using assms(7) by (auto simp: pids_def)
  moreover have "inj_on (\<lambda>p. pid (proc_of t' p)) (set xs) = inj_on (\<lambda>p. pid (proc_of t p)) (set xs)" using assms(7) by (auto simp: inj_on_def)
  moreover have "{p \<in> set xs. pid_hashfn (pid (proc_of t' p)) = b} = {p \<in> set xs. pid_hashfn (pid (proc_of t p)) = b}" for b using assms(7) by auto
  ultimately show ?thesis using assms(1-6) by (simp add: table_inv_def buckets_def pid_window_def)
qed

lemma tree_inv_cong:
  assumes "tree_inv t xs ch" "idleproc (sch t') = idleproc (sch t)"
    "\<And>x. x \<in> insert (idleproc (sch t)) (set xs) \<Longrightarrow> parent (proc_of t' x) = parent (proc_of t x) \<and> cptr (proc_of t' x) = cptr (proc_of t x) \<and>
       yptr (proc_of t' x) = yptr (proc_of t x) \<and> optr (proc_of t' x) = optr (proc_of t x)"
  shows "tree_inv t' xs ch"
proof -
  note D = tree_invD [OF assms(1)]
  have "sib_chain (procs (sch t')) None (ch q) = sib_chain (procs (sch t)) None (ch q)" if "q \<in> insert (idleproc (sch t)) (set xs)" for q
    using assms(3) D(6) [OF that] by (intro sib_chain_frame) auto
  then show ?thesis using D assms(2,3) unfolding tree_inv_def assms(2) by auto
qed

context sched_class_contract
begin

lemma wakeup_ident:
  assumes inv: "holds s (ready s)" and st: "state (procs s p) \<noteq> PROC_ZOMBIE"
  shows "\<exists>s'. wakeup_proc sc s p = Ret s' \<and> holds s' (ready s') \<and> current s' = current s \<and> idleproc s' = idleproc s \<and>
     state (procs s' p) = PROC_RUNNABLE \<and> (\<forall>q. same_ident (procs s q) (procs s' q)) \<and>
     (\<forall>q. q \<noteq> p \<longrightarrow> state (procs s' q) = state (procs s q) \<and> wait_state (procs s' q) = wait_state (procs s q)) \<and>
     wait_state (procs s' p) = (if state (procs s p) = PROC_RUNNABLE then wait_state (procs s p) else 0)"
proof -
  from wakeup_ready [OF assms] obtain s' where s': "wakeup_proc sc s p = Ret s'" "holds s' (ready s')" "state (procs s' p) = PROC_RUNNABLE"
    "current s' = current s" "idleproc s' = idleproc s" "\<forall>q. q \<noteq> p \<longrightarrow> state (procs s' q) = state (procs s q)"
    "\<forall>q. q \<noteq> p \<longrightarrow> same_proc (procs s q) (procs s' q)" by blast
  have p: "same_ident (procs s p) (procs s' p) \<and> wait_state (procs s' p) = (if state (procs s p) = PROC_RUNNABLE then wait_state (procs s p) else 0)"
  proof (cases "state (procs s p) = PROC_RUNNABLE")
    case True
    then show ?thesis using s'(1) by (simp add: wakeup_proc_def)
  next
    case False
    let ?s1 = "upd_proc p (\<lambda>x. x\<lparr>state := PROC_RUNNABLE, wait_state := 0\<rparr>) s"
    have "same_proc (procs ?s1 p) (procs s' p)"
    proof (cases "p = current s \<or> p = idleproc s")
      case True
      then show ?thesis using False st s'(1) by (auto simp: wakeup_proc_def sched_class_enqueue_def Let_def split: if_splits)
    next
      case neq: False
      have h1: "holds ?s1 (ready s)" by (rule holds_frame [OF inv]) simp_all
      have "p \<notin> ready s" using False by (auto simp: ready_def)
      from enqueue_contract [OF h1 this] obtain s2 where "sc_enqueue sc ?s1 p = Ret s2" "same_sched ?s1 s2" by blast
      moreover from this have "s2 = s'" using False st neq s'(1) by (simp add: wakeup_proc_def sched_class_enqueue_def)
      ultimately show ?thesis by (simp only: same_sched_def)
    qed
    then show ?thesis using False same_proc_wait [of "procs ?s1 p" "procs s' p"] unfolding same_proc_def same_ident_def
      by (cases "procs s p"; cases "procs s' p") simp
  qed
  show ?thesis
  proof (intro exI [of _ s'] conjI allI impI)
    show "same_ident (procs s q) (procs s' q)" for q using p s'(7) same_proc_ident by (cases "q = p") auto
    show "wait_state (procs s' q) = wait_state (procs s q)" if "q \<noteq> p" for q using s'(7) that same_proc_wait by blast
  qed (use s' p in auto)
qed

end

subsection \<open>Moving the children of an exiting process\<close>

text \<open>
  While the loop runs, the eldest moved sibling is still the younger sibling of the first child
  that is left: only the chain of the exiting process \<open>c\<close> starts at another process than \<open>None\<close>.
\<close>

definition tree_exit :: "proc_table \<Rightarrow> proc_ptr list \<Rightarrow> (proc_ptr \<Rightarrow> proc_ptr list) \<Rightarrow> proc_ptr \<Rightarrow> proc_ptr option \<Rightarrow> bool" where
  "tree_exit t xs ch c y \<longleftrightarrow> idleproc (sch t) \<notin> set xs \<and>
     (\<forall>p \<in> set xs. \<exists>q \<in> insert (idleproc (sch t)) (set xs). parent (proc_of t p) = Some q \<and> q \<noteq> p) \<and>
     (\<forall>q \<in> insert (idleproc (sch t)) (set xs). cptr (proc_of t q) = first_link (ch q) \<and>
        sib_chain (procs (sch t)) (if q = c then y else None) (ch q) \<and>
        distinct (ch q) \<and> set (ch q) = {p \<in> set xs. parent (proc_of t p) = Some q})"

lemma tree_exit_start: "tree_inv t xs ch \<Longrightarrow> tree_exit t xs ch c None"
  by (simp add: tree_inv_def tree_exit_def)

lemma tree_exitD:
  assumes "tree_exit t xs ch c y"
  shows "idleproc (sch t) \<notin> set xs"
    and "p \<in> set xs \<Longrightarrow> \<exists>q \<in> insert (idleproc (sch t)) (set xs). parent (proc_of t p) = Some q \<and> q \<noteq> p"
    and "q \<in> insert (idleproc (sch t)) (set xs) \<Longrightarrow> cptr (proc_of t q) = first_link (ch q)"
    and "q \<in> insert (idleproc (sch t)) (set xs) \<Longrightarrow> sib_chain (procs (sch t)) (if q = c then y else None) (ch q)"
    and "q \<in> insert (idleproc (sch t)) (set xs) \<Longrightarrow> distinct (ch q)"
    and "q \<in> insert (idleproc (sch t)) (set xs) \<Longrightarrow> set (ch q) = {p \<in> set xs. parent (proc_of t p) = Some q}"
  using assms unfolding tree_exit_def by blast+

lemma tree_exit_end:
  assumes "tree_exit t xs ch c y" "ch c = []"
  shows "tree_inv t xs ch"
proof -
  have "sib_chain (procs (sch t)) None (ch q)" if "q \<in> insert (idleproc (sch t)) (set xs)" for q
    using tree_exitD(4) [OF assms(1) that] assms(2) by (cases "q = c") simp_all
  then show ?thesis using assms(1) unfolding tree_inv_def tree_exit_def by blast
qed

lemma tree_move:
  assumes tr: "tree_exit t xs ch c y" and c: "c \<in> insert (idleproc (sch t)) (set xs)" "ch c = p # cs"
    and i: "i \<in> insert (idleproc (sch t)) (set xs)" "i \<noteq> c" "i \<noteq> p" and idle: "idleproc (sch t') = idleproc (sch t)"
    and t': "\<And>x. parent (proc_of t' x) = (if x = p then Some i else parent (proc_of t x))"
      "\<And>x. cptr (proc_of t' x) = (if x = i then Some p else if x = c then first_link cs else cptr (proc_of t x))"
      "\<And>x. yptr (proc_of t' x) = (if x = p then None else if cptr (proc_of t i) = Some x then Some p else yptr (proc_of t x))"
      "\<And>x. optr (proc_of t' x) = (if x = p then cptr (proc_of t i) else optr (proc_of t x))"
  shows "tree_exit t' xs (ch(c := cs, i := p # ch i)) c (Some p)"
proof -
  let ?L = "insert (idleproc (sch t)) (set xs)" and ?P = "procs (sch t')"
  note D = tree_exitD [OF tr]
  have p: "p \<in> set xs" "parent (proc_of t p) = Some c" using D(6) [OF c(1)] c(2) by auto
  have apart: "set (ch q) \<inter> set (ch r) = {}" if "q \<in> ?L" "r \<in> ?L" "q \<noteq> r" for q r using D(6) that by auto
  have hd: "x \<in> set (ch i)" if "cptr (proc_of t i) = Some x" for x using D(3) [OF i(1)] that by (cases "ch i") auto
  have dc: "distinct (p # cs)" using D(5) [OF c(1)] c(2) by simp
  have chc: "sib_chain ?P (Some p) cs"
  proof -
    have "x \<noteq> p \<and> cptr (proc_of t i) \<noteq> Some x" if "x \<in> set cs" for x using dc apart [OF c(1) i(1)] i(2) hd that c(2) by auto
    then have "sib_chain ?P (Some p) cs = sib_chain (procs (sch t)) (Some p) cs" by (intro sib_chain_frame) (auto simp: t')
    then show ?thesis using D(4) [OF c(1)] c(2) by simp
  qed
  have pi: "p \<notin> set (ch i)" using apart [OF c(1) i(1)] i(2) c(2) by auto
  have chi: "sib_chain ?P None (p # ch i)"
  proof (cases "ch i")
    case (Cons b bs)
    have "distinct (b # bs)" using D(5) [OF i(1)] Cons by simp
    then have "sib_chain ?P (Some b) bs = sib_chain (procs (sch t)) (Some b) bs"
      using pi Cons D(3) [OF i(1)] by (intro sib_chain_frame) (auto simp: t')
    then show ?thesis using D(3,4) [OF i(1)] Cons pi i(2) by (auto simp: t')
  qed (use D(3) [OF i(1)] in \<open>simp add: t'\<close>)
  have other: "sib_chain ?P None (ch r)" if r: "r \<in> ?L" "r \<noteq> c" "r \<noteq> i" for r
  proof -
    have "x \<noteq> p \<and> cptr (proc_of t i) \<noteq> Some x" if "x \<in> set (ch r)" for x
      using apart [OF r(1) c(1) r(2)] apart [OF r(1) i(1) r(3)] hd that c(2) by auto
    then have "sib_chain ?P None (ch r) = sib_chain (procs (sch t)) None (ch r)" by (intro sib_chain_frame) (auto simp: t')
    then show ?thesis using D(4) [OF r(1)] r(2) by simp
  qed
  show ?thesis unfolding tree_exit_def idle
  proof (intro conjI ballI)
    show "idleproc (sch t) \<notin> set xs" by (rule D(1))
    show "\<exists>q \<in> ?L. parent (proc_of t' r) = Some q \<and> q \<noteq> r" if "r \<in> set xs" for r
      using D(2) [OF that] i unfolding t'(1) by auto
  next
    fix r assume r: "r \<in> ?L"
    have "set ((ch(c := cs, i := p # ch i)) r) = {x \<in> set xs. parent (proc_of t' x) = Some r}"
    proof -
      consider "r = i" | "r = c" | "r \<noteq> i" "r \<noteq> c" by blast
      then show ?thesis
      proof cases
        case 1
        have "{x \<in> set xs. (if x = p then Some i else parent (proc_of t x)) = Some i} = insert p {x \<in> set xs. parent (proc_of t x) = Some i}"
          using p by auto
        then show ?thesis using 1 D(6) [OF i(1)] by (simp add: t'(1))
      next
        case 2
        have "{x \<in> set xs. (if x = p then Some i else parent (proc_of t x)) = Some c} = {x \<in> set xs. parent (proc_of t x) = Some c} - {p}"
          using i(2) by auto
        then show ?thesis using 2 D(6) [OF c(1)] i(2) c(2) dc by (simp add: t'(1)) auto
      next
        case 3
        then have "{x \<in> set xs. (if x = p then Some i else parent (proc_of t x)) = Some r} = {x \<in> set xs. parent (proc_of t x) = Some r}"
          using p by auto
        then show ?thesis using 3 D(6) [OF r] by (simp add: t'(1))
      qed
    qed
    then show "set ((ch(c := cs, i := p # ch i)) r) = {x \<in> set xs. parent (proc_of t' x) = Some r}" .
    show "cptr (proc_of t' r) = first_link ((ch(c := cs, i := p # ch i)) r)" using D(3) [OF r] by (simp add: t'(2))
    show "sib_chain ?P (if r = c then Some p else None) ((ch(c := cs, i := p # ch i)) r)"
      using chc chi other [OF r] i(2) by (cases "r = i"; cases "r = c") simp_all
    show "distinct ((ch(c := cs, i := p # ch i)) r)" using D(5) [OF r] D(5) [OF i(1)] dc pi by simp
  qed
qed

lemma relink_child_eq:
  assumes "i \<noteq> c" "i \<noteq> p" "p \<noteq> c" "cptr (proc_of t i) \<noteq> Some p"
  shows "proc_of (relink_child t c i p) x = (proc_of t x)\<lparr>parent := if x = p then Some i else parent (proc_of t x),
       cptr := if x = i then Some p else if x = c then optr (proc_of t p) else cptr (proc_of t x),
       yptr := if x = p then None else if cptr (proc_of t i) = Some x then Some p else yptr (proc_of t x),
       optr := if x = p then cptr (proc_of t i) else optr (proc_of t x)\<rparr>"
    and "relink_child t c i p = t\<lparr>sch := (sch t)\<lparr>procs := procs (sch (relink_child t c i p))\<rparr>\<rparr>"
  using assms by (cases "cptr (proc_of t i)"; auto simp: relink_child_def Let_def)+

text \<open>What the loop leaves of every process: all but the links of the tree and a wake-up of \<open>initproc\<close>.\<close>

definition same_but_links :: "proc_struct \<Rightarrow> proc_struct \<Rightarrow> bool" where
  "same_but_links x y \<longleftrightarrow> same_ident (x\<lparr>parent := parent y, cptr := cptr y, yptr := yptr y, optr := optr y\<rparr>) y"

lemma same_but_links_trans: "same_but_links x y \<Longrightarrow> same_but_links y z \<Longrightarrow> same_but_links x z"
  unfolding same_but_links_def same_ident_def by (cases x; cases y; cases z) simp

lemma same_but_links_sel:
  assumes "same_but_links x y"
  shows "pid y = pid x" "exit_code y = exit_code x" "kstack y = kstack x" "filesp y = filesp x" "flags y = flags x" "mm y = mm x"
  using assms by (cases x; cases y; simp add: same_but_links_def same_ident_def)+

lemma same_ident_links: "same_ident (x\<lparr>parent := a, cptr := b, yptr := d, optr := f\<rparr>) y \<Longrightarrow> same_but_links x y"
  by (cases x; cases y; simp add: same_but_links_def same_ident_def)

context sched_class_contract
begin

lemma move_child_ok:
  assumes tr: "tree_exit t xs ch c y" and ti: "table_inv t xs" and hs: "holds (sch t) (ready (sch t))"
    and c: "c \<in> insert (idleproc (sch t)) (set xs)" "ch c = p # cs"
    and i: "i \<in> insert (idleproc (sch t)) (set xs)" "i \<noteq> c" "i \<notin> set (ch c)" "state (proc_of t i) \<noteq> PROC_ZOMBIE"
  shows "\<exists>t'. move_child sc t c i p = Ret t' \<and> tree_exit t' xs (ch(c := cs, i := p # ch i)) c (Some p) \<and> table_inv t' xs \<and>
     holds (sch t') (ready (sch t')) \<and> t' = t\<lparr>sch := sch t'\<rparr> \<and> current (sch t') = current (sch t) \<and> idleproc (sch t') = idleproc (sch t) \<and>
     (\<forall>x. same_but_links (proc_of t x) (proc_of t' x)) \<and>
     (\<forall>x. x \<noteq> i \<longrightarrow> state (proc_of t' x) = state (proc_of t x) \<and> wait_state (proc_of t' x) = wait_state (proc_of t x)) \<and>
     (if state (proc_of t p) = PROC_ZOMBIE \<and> wait_state (proc_of t i) = WT_CHILD then state (proc_of t' i) = PROC_RUNNABLE
      else state (proc_of t' i) = state (proc_of t i) \<and> wait_state (proc_of t' i) = wait_state (proc_of t i))"
proof -
  note D = tree_exitD [OF tr]
  define t1 where "t1 = relink_child t c i p"
  have p: "p \<in> set xs" "parent (proc_of t p) = Some c" using D(6) [OF c(1)] c(2) by auto
  have ne: "i \<noteq> p" "p \<noteq> c" using i(3) c(2) D(2) [OF p(1)] p(2) by auto
  have "p \<notin> set (ch i)" using D(6) [OF i(1)] p(2) i(2) by auto
  then have ci: "cptr (proc_of t i) \<noteq> Some p" using D(3) [OF i(1)] by (cases "ch i") auto
  note eq = relink_child_eq [OF i(2) ne ci, folded t1_def]
  have op: "optr (proc_of t p) = first_link cs" using D(4) [OF c(1)] c(2) by simp
  have id1: "idleproc (sch t1) = idleproc (sch t)" "current (sch t1) = current (sch t)" by (subst eq(2), simp)+
  have f1: "proc_links t1 = proc_links t" "hash_links t1 = hash_links t" "nr_process t1 = nr_process t" "last_pid t1 = last_pid t" "next_safe t1 = next_safe t"
    by (subst eq(2), simp)+
  have tr1: "tree_exit t1 xs (ch(c := cs, i := p # ch i)) c (Some p)"
    by (rule tree_move [OF tr c i(1,2) ne(1) id1(1)]) (simp_all add: eq(1) op)
  have st1: "state (proc_of t1 x) = state (proc_of t x)" "wait_state (proc_of t1 x) = wait_state (proc_of t x)" for x by (simp_all add: eq(1))
  have "ready (sch t1) = ready (sch t)" unfolding ready_def st1 id1 ..
  moreover have "holds (sch t1) (ready (sch t))" by (rule holds_frame [OF hs]) (subst eq(2), simp)+
  ultimately have h1: "holds (sch t1) (ready (sch t1))" by simp
  have sl: "same_but_links (proc_of t x) (proc_of t1 x)" for x unfolding eq(1) by (rule same_ident_links, rule same_ident_refl)
  have ti1: "table_inv t1 xs" by (rule table_inv_cong [OF ti f1]) (simp add: eq(1))
  show ?thesis
  proof (cases "state (proc_of t p) = PROC_ZOMBIE \<and> wait_state (proc_of t i) = WT_CHILD")
    case False
    then have "move_child sc t c i p = Ret t1" using st1 by (auto simp: move_child_def t1_def [symmetric])
    moreover have "t1 = t\<lparr>sch := sch t1\<rparr>" by (subst (2) eq(2), subst (1) eq(2)) simp
    ultimately show ?thesis using tr1 h1 id1 sl st1 False ti1 by (intro exI [of _ t1]) auto
  next
    case True
    from wakeup_ident [OF h1, of i] st1 i(4) obtain s' where s': "wakeup_proc sc (sch t1) i = Ret s'" "holds s' (ready s')"
      "current s' = current (sch t1)" "idleproc s' = idleproc (sch t1)" "state (procs s' i) = PROC_RUNNABLE"
      "\<And>q. same_ident (proc_of t1 q) (procs s' q)"
      "\<And>q. q \<noteq> i \<Longrightarrow> state (procs s' q) = state (proc_of t1 q) \<and> wait_state (procs s' q) = wait_state (proc_of t1 q)" by auto
    let ?t' = "t1\<lparr>sch := s'\<rparr>"
    note sel = same_ident_sel [OF s'(6)]
    have "move_child sc t c i p = Ret ?t'" using st1 True s'(1) by (simp add: move_child_def t1_def [symmetric])
    moreover have "?t' = t\<lparr>sch := s'\<rparr>" by (subst eq(2)) simp
    moreover have "sib_chain (procs s') z zs = sib_chain (procs (sch t1)) z zs" for z zs by (rule sib_chain_frame) (simp add: sel)
    then have "tree_exit ?t' xs (ch(c := cs, i := p # ch i)) c (Some p)" using tr1 by (simp add: tree_exit_def s'(4) sel)
    moreover have "table_inv ?t' xs" by (rule table_inv_cong [OF ti1]) (simp_all add: sel)
    moreover have "same_but_links (proc_of t x) (procs s' x)" for x
      using sl [of x] s'(6) [of x] unfolding same_but_links_def same_ident_def by (cases "proc_of t x"; cases "proc_of t1 x"; cases "procs s' x") simp
    ultimately show ?thesis using s' id1 st1 True by (intro exI [of _ ?t']) auto
  qed
qed

lemma move_children_ok:
  assumes "tree_exit t xs ch c y" "table_inv t xs" "holds (sch t) (ready (sch t))" "c \<in> insert (idleproc (sch t)) (set xs)"
    "initproc t = Some i" "i \<in> insert (idleproc (sch t)) (set xs)" "i \<noteq> c" "i \<notin> set (ch c)" "state (proc_of t i) \<noteq> PROC_ZOMBIE"
  shows "\<exists>t'. move_children sc t c = Some (Ret t') \<and> tree_inv t' xs (ch(c := [], i := rev (ch c) @ ch i)) \<and> table_inv t' xs \<and>
     holds (sch t') (ready (sch t')) \<and> t' = t\<lparr>sch := sch t'\<rparr> \<and> current (sch t') = current (sch t) \<and> idleproc (sch t') = idleproc (sch t) \<and>
     (\<forall>x. same_but_links (proc_of t x) (proc_of t' x)) \<and>
     (\<forall>x. x \<noteq> i \<longrightarrow> state (proc_of t' x) = state (proc_of t x) \<and> wait_state (proc_of t' x) = wait_state (proc_of t x)) \<and>
     (if wait_state (proc_of t i) = WT_CHILD \<and> (\<exists>p \<in> set (ch c). state (proc_of t p) = PROC_ZOMBIE) then state (proc_of t' i) = PROC_RUNNABLE
      else state (proc_of t' i) = state (proc_of t i) \<and> wait_state (proc_of t' i) = wait_state (proc_of t i))"
  using assms
proof (induction "ch c" arbitrary: t ch y)
  case Nil
  then have "cptr (proc_of t c) = None" using tree_exitD(3) [OF Nil(2) Nil(5)] by simp
  then have "move_children sc t c = Some (Ret t)" by (subst move_children.simps) simp
  moreover have "tree_inv t xs ch" by (rule tree_exit_end [OF Nil(2) Nil(1) [symmetric]])
  moreover have ch: "ch(c := [], i := rev (ch c) @ ch i) = ch" using Nil(1) by (auto simp: fun_eq_iff)
  ultimately show ?case unfolding ch using Nil(1,3,4) by (intro exI [of _ t]) (auto simp: same_but_links_def)
next
  case (Cons p cs)
  note A = Cons.prems
  from move_child_ok [OF A(1-4) Cons.hyps(2) [symmetric] A(6-9)] obtain t1 where t1: "move_child sc t c i p = Ret t1"
     "tree_exit t1 xs (ch(c := cs, i := p # ch i)) c (Some p)" "table_inv t1 xs" "holds (sch t1) (ready (sch t1))" "t1 = t\<lparr>sch := sch t1\<rparr>"
     "current (sch t1) = current (sch t)" "idleproc (sch t1) = idleproc (sch t)" "\<forall>x. same_but_links (proc_of t x) (proc_of t1 x)"
     "\<forall>x. x \<noteq> i \<longrightarrow> state (proc_of t1 x) = state (proc_of t x) \<and> wait_state (proc_of t1 x) = wait_state (proc_of t x)"
     "if state (proc_of t p) = PROC_ZOMBIE \<and> wait_state (proc_of t i) = WT_CHILD then state (proc_of t1 i) = PROC_RUNNABLE
      else state (proc_of t1 i) = state (proc_of t i) \<and> wait_state (proc_of t1 i) = wait_state (proc_of t i)" by blast
  let ?ch = "ch(c := cs, i := p # ch i)"
  have i1: "initproc t1 = Some i" using A(5) by (subst t1(5)) simp
  have cs: "cs = ?ch c" "i \<notin> set (?ch c)" using A(7,8) Cons.hyps(2) [symmetric] by auto
  have z1: "state (proc_of t1 i) \<noteq> PROC_ZOMBIE" using t1(10) A(9) by (auto split: if_splits)
  have c1: "c \<in> insert (idleproc (sch t1)) (set xs)" "i \<in> insert (idleproc (sch t1)) (set xs)" using A(4,6) t1(7) by simp_all
  from Cons.hyps(1) [OF cs(1) t1(2-4) c1(1) i1 c1(2) A(7) cs(2) z1] obtain t' where t': "move_children sc t1 c = Some (Ret t')"
     "tree_inv t' xs (?ch(c := [], i := rev (?ch c) @ ?ch i))" "table_inv t' xs" "holds (sch t') (ready (sch t'))" "t' = t1\<lparr>sch := sch t'\<rparr>"
     "current (sch t') = current (sch t1)" "idleproc (sch t') = idleproc (sch t1)" "\<forall>x. same_but_links (proc_of t1 x) (proc_of t' x)"
     "\<forall>x. x \<noteq> i \<longrightarrow> state (proc_of t' x) = state (proc_of t1 x) \<and> wait_state (proc_of t' x) = wait_state (proc_of t1 x)"
     "if wait_state (proc_of t1 i) = WT_CHILD \<and> (\<exists>p \<in> set (?ch c). state (proc_of t1 p) = PROC_ZOMBIE) then state (proc_of t' i) = PROC_RUNNABLE
      else state (proc_of t' i) = state (proc_of t1 i) \<and> wait_state (proc_of t' i) = wait_state (proc_of t1 i)" by blast
  have "cptr (proc_of t c) = Some p" using tree_exitD(3) [OF A(1,4)] Cons.hyps(2) by (metis first_link_simps(2))
  then have "move_children sc t c = Some (Ret t')" using t1(1) t'(1) A(5) by (subst move_children.simps) simp
  moreover have "?ch(c := [], i := rev (?ch c) @ ?ch i) = ch(c := [], i := rev (ch c) @ ch i)"
    using A(7) Cons.hyps(2) [symmetric] by (auto simp: fun_eq_iff)
  moreover have "t' = t\<lparr>sch := sch t'\<rparr>" by (subst t'(5), subst t1(5)) simp
  moreover have "same_but_links (proc_of t x) (proc_of t' x)" for x using t1(8) t'(8) same_but_links_trans by blast
  moreover have zs: "state (proc_of t1 q) = state (proc_of t q)" if "q \<in> set cs" for q using t1(9) cs(2) that A(7) by auto
  have ex: "(\<exists>q \<in> set (ch c). state (proc_of t q) = PROC_ZOMBIE) \<longleftrightarrow> state (proc_of t p) = PROC_ZOMBIE \<or> (\<exists>q \<in> set cs. state (proc_of t q) = PROC_ZOMBIE)"
    "(\<exists>q \<in> set (?ch c). state (proc_of t1 q) = PROC_ZOMBIE) \<longleftrightarrow> (\<exists>q \<in> set cs. state (proc_of t q) = PROC_ZOMBIE)"
    using zs unfolding cs(1) [symmetric] by (simp_all add: Cons.hyps(2) [symmetric])
  have "if wait_state (proc_of t i) = WT_CHILD \<and> (\<exists>p \<in> set (ch c). state (proc_of t p) = PROC_ZOMBIE) then state (proc_of t' i) = PROC_RUNNABLE
      else state (proc_of t' i) = state (proc_of t i) \<and> wait_state (proc_of t' i) = wait_state (proc_of t i)"
    using t1(10) t'(10) unfolding ex by (simp only: split: if_split_asm if_split; blast)
  ultimately show ?case using t'(2-4,6,7,9) t1(6,7,9) by (intro exI [of _ t']) simp
qed

end

end
