(* ===== verification/Process.thy ===== *)
theory Process
  imports ProcTree Timers Swapping Devices
begin

text \<open>
  The life of a process, \<^verbatim>\<open>kern/process/proc.c\<close>: creation (\<open>do_fork\<close>, \<open>kernel_thread\<close>), exit, wait,
  kill, yield and sleep, and the start of the first processes, over the whole kernel state: the
  process table with the scheduler, the memory system and the file system. What \<open>kmalloc\<close>
  returned is a parameter of the routines that call it. A call of \<open>schedule\<close> gives the processor
  to another process; a routine that calls it in the middle is modelled up to the call
  (\<open>Switched\<close>) and from it on.
\<close>

subsection \<open>The kernel state\<close>

record pushregs =
  reg_edi :: u32
  reg_esi :: u32
  reg_ebp :: u32
  reg_oesp :: u32
  reg_ebx :: u32
  reg_edx :: u32
  reg_ecx :: u32
  reg_eax :: u32

record trapframe =
  tf_regs :: pushregs
  tf_gs :: u16
  tf_fs :: u16
  tf_es :: u16
  tf_ds :: u16
  tf_trapno :: u32
  tf_err :: u32
  tf_eip :: u32
  tf_cs :: u16
  tf_eflags :: u32
  tf_esp :: u32
  tf_ss :: u16

record cpu_context =
  ctx_eip :: u32
  ctx_esp :: u32
  ctx_ebx :: u32
  ctx_ecx :: u32
  ctx_edx :: u32
  ctx_esi :: u32
  ctx_edi :: u32
  ctx_ebp :: u32

text \<open>
  \<open>tf_at p\<close> is \<open>p->tf\<close>, \<open>tframes a\<close> the trap frame stored at the kernel address \<open>a\<close>, \<open>contexts p\<close> is
  \<open>p->context\<close> and \<open>names p\<close> the bytes of \<open>p->name\<close>. \<open>mm_sem m\<close> is the value of the semaphore of address
  space \<open>m\<close>. The last two are the addresses of \<open>forkret\<close> and \<open>kernel_thread_entry\<close>.
\<close>

record 's kernel =
  tab :: proc_table
  memory :: mem_state
  vfs :: "'s vfs_state"
  tf_at :: "proc_ptr \<Rightarrow> u32 option"
  tframes :: "u32 \<Rightarrow> trapframe"
  contexts :: "proc_ptr \<Rightarrow> cpu_context"
  names :: "proc_ptr \<Rightarrow> u8 list"
  mm_sem :: "nat \<Rightarrow> int"
  boot_pgdir :: nat
  boot_cr3 :: u32
  forkret :: u32
  kernel_thread_entry :: u32

abbreviation kproc :: "'s kernel \<Rightarrow> proc_ptr \<Rightarrow> proc_struct" where
  "kproc k p \<equiv> procs (sch (tab k)) p"

abbreviation upd_kproc :: "proc_ptr \<Rightarrow> (proc_struct \<Rightarrow> proc_struct) \<Rightarrow> 's kernel \<Rightarrow> 's kernel" where
  "upd_kproc p f k \<equiv> k\<lparr>tab := set_proc p f (tab k)\<rparr>"

abbreviation kcurrent :: "'s kernel \<Rightarrow> proc_ptr" where
  "kcurrent k \<equiv> current (sch (tab k))"

abbreviation upd_kmm :: "nat \<Rightarrow> (mm_struct \<Rightarrow> mm_struct) \<Rightarrow> 's kernel \<Rightarrow> 's kernel" where
  "upd_kmm m f k \<equiv> k\<lparr>memory := (memory k)\<lparr>vm := upd_mm m f (vm (memory k))\<rparr>\<rparr>"

definition KSTACKPAGE :: u32 where "KSTACKPAGE = 2"
definition PROC_NAME_LEN :: nat where "PROC_NAME_LEN = 50"
definition VPT :: u32 where "VPT = 0xFAC00000"
definition FL_IF :: u32 where "FL_IF = 0x200"
definition KERNEL_CS :: u16 where "KERNEL_CS = 8"
definition KERNEL_DS :: u16 where "KERNEL_DS = 16"
definition CLONE_VM :: u32 where "CLONE_VM = 0x100"
definition CLONE_FS :: u32 where "CLONE_FS = 0x800"
definition TF_SIZE :: u32 where "TF_SIZE = 76"

definition zero_trapframe :: trapframe where
  "zero_trapframe = \<lparr>tf_regs = \<lparr>reg_edi = 0, reg_esi = 0, reg_ebp = 0, reg_oesp = 0, reg_ebx = 0, reg_edx = 0, reg_ecx = 0, reg_eax = 0\<rparr>,
     tf_gs = 0, tf_fs = 0, tf_es = 0, tf_ds = 0, tf_trapno = 0, tf_err = 0, tf_eip = 0, tf_cs = 0, tf_eflags = 0, tf_esp = 0, tf_ss = 0\<rparr>"

definition zero_context :: cpu_context where
  "zero_context = \<lparr>ctx_eip = 0, ctx_esp = 0, ctx_ebx = 0, ctx_ecx = 0, ctx_edx = 0, ctx_esi = 0, ctx_edi = 0, ctx_ebp = 0\<rparr>"

subsection \<open>Kernel addresses, address-space counters and locks\<close>

definition PADDR :: "u32 \<Rightarrow> u32 outcome" where
  "PADDR kva = (if kva < KERNBASE then Panic else Ret (kva - KERNBASE))"

definition kva2page :: "mem_state \<Rightarrow> u32 \<Rightarrow> nat outcome" where
  "kva2page s kva = bind_outcome (PADDR kva) (pa2page s)"

text \<open>The kernel address of a frame, as \<open>page2kva\<close> returns it.\<close>

definition kva_of :: "nat \<Rightarrow> u32" where
  "kva_of f = KERNBASE + page2pa f"

definition mm_count_inc :: "'s kernel \<Rightarrow> nat \<Rightarrow> 's kernel" where
  "mm_count_inc k m = upd_kmm m (mm_count_update (\<lambda>c. c + 1)) k"

definition mm_count_dec :: "'s kernel \<Rightarrow> nat \<Rightarrow> 's kernel \<times> int" where
  "mm_count_dec k m = (let k1 = upd_kmm m (mm_count_update (\<lambda>c. c - 1)) k in (k1, mm_count (mms (vm (memory k1)) m)))"

definition files_count_inc :: "'s kernel \<Rightarrow> nat \<Rightarrow> 's kernel" where
  "files_count_inc k f = k\<lparr>vfs := upd_files f (files_count_update (\<lambda>c. c + 1)) (vfs k)\<rparr>"

definition files_count_dec :: "'s kernel \<Rightarrow> nat \<Rightarrow> 's kernel \<times> int" where
  "files_count_dec k f =
     (let k1 = k\<lparr>vfs := upd_files f (files_count_update (\<lambda>c. c - 1)) (vfs k)\<rparr> in (k1, files_count (files (vfs k1) f)))"

text \<open>The semaphore of an address space; a caller that would block does not get past the call.\<close>

definition lock_mm :: "'s kernel \<Rightarrow> nat \<Rightarrow> 's kernel outcome" where
  "lock_mm k m =
     (if mm_sem k m > 0
      then Ret (upd_kmm m (locked_by_update (\<lambda>_. pid (kproc k (kcurrent k)))) (k\<lparr>mm_sem := (mm_sem k)(m := mm_sem k m - 1)\<rparr>))
      else Panic)"

definition unlock_mm :: "'s kernel \<Rightarrow> nat \<Rightarrow> 's kernel" where
  "unlock_mm k m = upd_kmm m (locked_by_update (\<lambda>_. 0)) (k\<lparr>mm_sem := (mm_sem k)(m := mm_sem k m + 1)\<rparr>)"

text \<open>
  Loading the page-directory register: the translation cache is emptied. \<open>kschedule\<close> is \<open>schedule\<close>
  on the whole state: the switched-to process brings its address space and its descriptor table.
\<close>

definition lcr3 :: "'s kernel \<Rightarrow> u32 \<Rightarrow> 's kernel" where
  "lcr3 k a = k\<lparr>tab := (tab k)\<lparr>sch := (sch (tab k))\<lparr>cpu_cr3 := a\<rparr>\<rparr>, memory := (memory k)\<lparr>mem_state.cr3 := a, tlb := Map.empty\<rparr>\<rparr>"

definition kschedule :: "sched_class \<Rightarrow> 's kernel \<Rightarrow> 's kernel outcome" where
  "kschedule sc k =
     bind_outcome (schedule sc (sch (tab k)))
       (\<lambda>s. let k1 = k\<lparr>tab := (tab k)\<lparr>sch := s\<rparr>\<rparr>;
                k2 = (if current s \<noteq> kcurrent k then lcr3 k1 (cpu_cr3 s) else k1)
            in Ret (k2\<lparr>vfs := (vfs k2)\<lparr>cur_files := filesp (kproc k2 (current s))\<rparr>\<rparr>))"

subsection \<open>Creating a process\<close>

text \<open>
  The scheduling class, the memory and swap managers and the file systems that the kernel runs
  with, and the blocks that the \<open>kmalloc\<close> calls of a fork return.
\<close>

record 's kenv =
  ksc :: sched_class
  kpm :: "pmm_state pmm_manager"
  ksm :: swap_manager
  kfs :: "'s vfs_env"

record fork_blocks =
  blk_proc :: "nat option"
  blk_files :: "nat option"
  blk_mm :: "nat option"
  blk_vma :: "nat \<Rightarrow> nat option"

definition set_proc_name :: "'s kernel \<Rightarrow> proc_ptr \<Rightarrow> nat \<Rightarrow> 's kernel" where
  "set_proc_name k p nm = k\<lparr>names := (names k)(p := map (kmem (vfs k)) [nm ..< nm + PROC_NAME_LEN] @ [0])\<rparr>"

definition get_proc_name :: "'s kernel \<Rightarrow> proc_ptr \<Rightarrow> u8 list" where
  "get_proc_name k p = take PROC_NAME_LEN (names k p) @ [0]"

text \<open>The null run links of a new process are left out: the stride class keeps its queue in the heap.\<close>

definition alloc_proc :: "nat option \<Rightarrow> 's kernel \<Rightarrow> 's kernel \<times> proc_ptr option" where
  "alloc_proc kmalloc k =
     (case kmalloc of
        None \<Rightarrow> (k, None)
      | Some p \<Rightarrow>
          (upd_kproc p (\<lambda>x. (proc_struct.cr3_update (\<lambda>_. boot_cr3 k) x)\<lparr>state := PROC_UNINIT, pid := -1, runs := 0, kstack := 0, need_resched := False,
               parent := None, mm := None, flags := 0, wait_state := 0, cptr := None, yptr := None, optr := None,
               time_slice := 0, lab6_stride := 0, lab6_priority := 0, filesp := None\<rparr>)
             (k\<lparr>tab := (tab k)\<lparr>sch := (sch (tab k))\<lparr>pool := skew_heap_init (pool (sch (tab k))) p\<rparr>\<rparr>,
                tf_at := (tf_at k)(p := None), contexts := (contexts k)(p := zero_context),
                names := (names k)(p := replicate PROC_NAME_LEN 0 @ drop PROC_NAME_LEN (names k p))\<rparr>), Some p))"

definition setup_kstack :: "pmm_state pmm_manager \<Rightarrow> swap_manager \<Rightarrow> 's kernel \<Rightarrow> proc_ptr \<Rightarrow> ('s kernel \<times> int) outcome" where
  "setup_kstack pm sm k p =
     bind_outcome (alloc_pages pm sm (memory k) KSTACKPAGE) (\<lambda>(s, r).
       let k1 = k\<lparr>memory := s\<rparr> in
       case r of
         None \<Rightarrow> Ret (k1, - E_NO_MEM)
       | Some pg \<Rightarrow> bind_outcome (page2kva s pg) (\<lambda>f. Ret (upd_kproc p (kstack_update (\<lambda>_. kva_of f)) k1, 0)))"

definition put_kstack :: "pmm_state pmm_manager \<Rightarrow> 's kernel \<Rightarrow> proc_ptr \<Rightarrow> 's kernel outcome" where
  "put_kstack pm k p =
     bind_outcome (kva2page (memory k) (kstack (kproc k p))) (\<lambda>pg.
       bind_outcome (free_pages pm (memory k) pg KSTACKPAGE) (\<lambda>s. Ret (k\<lparr>memory := s\<rparr>)))"

definition setup_pgdir :: "pmm_state pmm_manager \<Rightarrow> swap_manager \<Rightarrow> 's kernel \<Rightarrow> nat \<Rightarrow> ('s kernel \<times> int) outcome" where
  "setup_pgdir pm sm k m =
     bind_outcome (alloc_page pm sm (memory k)) (\<lambda>(s, r).
       case r of
         None \<Rightarrow> Ret (k\<lparr>memory := s\<rparr>, - E_NO_MEM)
       | Some pg \<Rightarrow>
           bind_outcome (page2kva s pg) (\<lambda>d.
             let s1 = s\<lparr>frames := (frames s)(d := frames s (boot_pgdir k))\<rparr>;
                 s2 = set_entry d (PDX VPT) (page2pa d OR PTE_P OR PTE_W) s1
             in Ret (upd_kmm m (pgdir_update (\<lambda>_. Some d)) (k\<lparr>memory := s2\<rparr>), 0)))"

definition put_pgdir :: "pmm_state pmm_manager \<Rightarrow> 's kernel \<Rightarrow> nat \<Rightarrow> 's kernel outcome" where
  "put_pgdir pm k m =
     (case pgdir (mms (vm (memory k)) m) of
        None \<Rightarrow> Panic
      | Some d \<Rightarrow>
          bind_outcome (kva2page (memory k) (kva_of d)) (\<lambda>pg.
            bind_outcome (free_page pm (memory k) pg) (\<lambda>s. Ret (k\<lparr>memory := s\<rparr>))))"

text \<open>\<open>mm_create\<close> on the whole state: the swap manager prepares its part when swapping is on.\<close>

definition kmm_create :: "swap_manager \<Rightarrow> nat option \<Rightarrow> 's kernel \<Rightarrow> ('s kernel \<times> nat option) outcome" where
  "kmm_create sm kmalloc k =
     (case mm_create kmalloc None (vm (memory k)) of
        (_, None) \<Rightarrow> Ret (k, None)
      | (w, Some m) \<Rightarrow>
          let s = (memory k)\<lparr>vm := w\<rparr> in
          bind_outcome (if swap_init_ok s then bind_outcome (swap_init_mm sm s (Some m)) (\<lambda>(s1, _). Ret s1) else Ret s)
            (\<lambda>s1. Ret (k\<lparr>memory := s1, mm_sem := (mm_sem k)(m := 1)\<rparr>, Some m)))"

definition kmm_destroy :: "'s kernel \<Rightarrow> nat \<Rightarrow> 's kernel outcome" where
  "kmm_destroy k m = bind_outcome (mm_destroy (vm (memory k)) m) (\<lambda>(w, _). Ret (k\<lparr>memory := (memory k)\<lparr>vm := w\<rparr>\<rparr>))"

text \<open>\<open>exit_mmap(mm); put_pgdir(mm); mm_destroy(mm);\<close> as \<open>copy_mm\<close>, \<open>do_exit\<close> and \<open>do_execve\<close> call them.\<close>

definition release_mm :: "'s kenv \<Rightarrow> 's kernel \<Rightarrow> nat \<Rightarrow> 's kernel outcome" where
  "release_mm ev k m =
     bind_outcome (exit_mmap (kpm ev) (ksm ev) (memory k) m) (\<lambda>s.
       bind_outcome (put_pgdir (kpm ev) (k\<lparr>memory := s\<rparr>) m) (\<lambda>k1. kmm_destroy k1 m))"

definition copy_mm :: "'s kenv \<Rightarrow> fork_blocks \<Rightarrow> u32 \<Rightarrow> 's kernel \<Rightarrow> proc_ptr \<Rightarrow> ('s kernel \<times> int) outcome" where
  "copy_mm ev bl fl k p =
     (let good = (\<lambda>k m. let k1 = upd_kproc p (mm_update (\<lambda>_. Some m)) (mm_count_inc k m)
                        in case pgdir (mms (vm (memory k1)) m) of
                             None \<Rightarrow> Panic
                           | Some d \<Rightarrow> bind_outcome (PADDR (kva_of d)) (\<lambda>pa. Ret (upd_kproc p (proc_struct.cr3_update (\<lambda>_. pa)) k1, 0)))
      in case mm (kproc k (kcurrent k)) of
           None \<Rightarrow> Ret (k, 0)
         | Some oldmm \<Rightarrow>
             if fl AND CLONE_VM \<noteq> 0 then good k oldmm
             else bind_outcome (kmm_create (ksm ev) (blk_mm bl) k) (\<lambda>(k1, r).
               case r of
                 None \<Rightarrow> Ret (k1, - E_NO_MEM)
               | Some m \<Rightarrow>
                   bind_outcome (setup_pgdir (kpm ev) (ksm ev) k1 m) (\<lambda>(k2, r).
                     if r \<noteq> 0 then bind_outcome (kmm_destroy k2 m) (\<lambda>k3. Ret (k3, - E_NO_MEM))
                     else bind_outcome (lock_mm k2 oldmm) (\<lambda>k3.
                       bind_outcome (dup_mmap (kpm ev) (ksm ev) (blk_vma bl) (memory k3) m oldmm) (\<lambda>(s, r).
                         let k4 = unlock_mm (k3\<lparr>memory := s\<rparr>) oldmm
                         in if r \<noteq> 0 then bind_outcome (release_mm ev k4 m) (\<lambda>k5. Ret (k5, r))
                            else good k4 m)))))"

definition copy_thread :: "'s kernel \<Rightarrow> proc_ptr \<Rightarrow> u32 \<Rightarrow> trapframe \<Rightarrow> 's kernel" where
  "copy_thread k p esp tf =
     (let a = kstack (kproc k p) + KSTACKSIZE - TF_SIZE
      in k\<lparr>tf_at := (tf_at k)(p := Some a),
           tframes := (tframes k)(a := tf\<lparr>tf_regs := (tf_regs tf)\<lparr>reg_eax := 0\<rparr>, tf_esp := esp, tf_eflags := tf_eflags tf OR FL_IF\<rparr>),
           contexts := (contexts k)(p := (contexts k p)\<lparr>ctx_eip := forkret k, ctx_esp := a\<rparr>)\<rparr>)"

definition copy_fs :: "'s kenv \<Rightarrow> fork_blocks \<Rightarrow> u32 \<Rightarrow> 's kernel \<Rightarrow> proc_ptr \<Rightarrow> ('s kernel \<times> int) outcome" where
  "copy_fs ev bl fl k p =
     (let good = (\<lambda>k f. Ret (upd_kproc p (filesp_update (\<lambda>_. Some f)) (files_count_inc k f), 0))
      in case filesp (kproc k (kcurrent k)) of
           None \<Rightarrow> Panic
         | Some old \<Rightarrow>
             if fl AND CLONE_FS \<noteq> 0 then good k old
             else case files_create (blk_files bl) (vfs k) of
                    (_, None) \<Rightarrow> Ret (k, - E_NO_MEM)
                  | (v, Some f) \<Rightarrow>
                      bind_outcome (dup_fs v f old) (\<lambda>(v1, r).
                        let k1 = k\<lparr>vfs := v1\<rparr>
                        in if r \<noteq> 0 then bind_outcome (files_destroy (kfs ev) v1 f) (\<lambda>v2. Ret (k\<lparr>vfs := v2\<rparr>, r))
                           else good k1 f))"

definition put_fs :: "'s kenv \<Rightarrow> 's kernel \<Rightarrow> proc_ptr \<Rightarrow> 's kernel outcome" where
  "put_fs ev k p =
     (case filesp (kproc k p) of
        None \<Rightarrow> Ret k
      | Some f \<Rightarrow>
          (case files_count_dec k f of (k1, c) \<Rightarrow>
             if c = 0 then bind_outcome (files_destroy (kfs ev) (vfs k1) f) (\<lambda>v. Ret (k1\<lparr>vfs := v\<rparr>)) else Ret k1))"

definition do_fork :: "'s kenv \<Rightarrow> fork_blocks \<Rightarrow> u32 \<Rightarrow> u32 \<Rightarrow> trapframe \<Rightarrow> 's kernel \<Rightarrow> ('s kernel \<times> int) outcome" where
  "do_fork ev bl fl stack tf k =
     (if nr_process (tab k) \<ge> MAX_PROCESS then Ret (k, - E_NO_FREE_PROC)
      else case alloc_proc (blk_proc bl) k of
             (k1, None) \<Rightarrow> Ret (k1, - E_NO_MEM)
           | (k1, Some p) \<Rightarrow>
               let k2 = upd_kproc p (parent_update (\<lambda>_. Some (kcurrent k1))) k1
               in assert_then (wait_state (kproc k2 (kcurrent k2)) = 0)
                    (bind_outcome (setup_kstack (kpm ev) (ksm ev) k2 p) (\<lambda>(k3, r).
                       if r \<noteq> 0 then Ret (k3, - E_NO_MEM)
                       else bind_outcome (copy_fs ev bl fl k3 p) (\<lambda>(k4, r).
                         if r \<noteq> 0 then bind_outcome (put_kstack (kpm ev) k4 p) (\<lambda>k'. Ret (k', - E_NO_MEM))
                         else bind_outcome (copy_mm ev bl fl k4 p) (\<lambda>(k5, r).
                           if r \<noteq> 0 then bind_outcome (put_kstack (kpm ev) k5 p) (\<lambda>k'. Ret (k', - E_NO_MEM))
                           else let k6 = copy_thread k5 p stack tf
                                in bind_outcome (enter_proc (tab k6) p) (\<lambda>t.
                                     bind_outcome (wakeup_proc (ksc ev) (sch t) p) (\<lambda>s.
                                       Ret (k6\<lparr>tab := t\<lparr>sch := s\<rparr>\<rparr>, pid (procs s p)))))))))"

text \<open>\<open>fn\<close> and \<open>arg\<close> are the addresses that the new thread finds in its registers.\<close>

definition kernel_thread :: "'s kenv \<Rightarrow> fork_blocks \<Rightarrow> u32 \<Rightarrow> u32 \<Rightarrow> u32 \<Rightarrow> 's kernel \<Rightarrow> ('s kernel \<times> int) outcome" where
  "kernel_thread ev bl fn arg fl k =
     do_fork ev bl (fl OR CLONE_VM) 0
       (zero_trapframe\<lparr>tf_cs := KERNEL_CS, tf_ds := KERNEL_DS, tf_es := KERNEL_DS, tf_ss := KERNEL_DS,
          tf_regs := (tf_regs zero_trapframe)\<lparr>reg_ebx := fn, reg_edx := arg\<rparr>, tf_eip := kernel_thread_entry k\<rparr>) k"

subsection \<open>Exit and wait\<close>

definition exit_mm :: "'s kenv \<Rightarrow> 's kernel \<Rightarrow> 's kernel outcome" where
  "exit_mm ev k =
     (case mm (kproc k (kcurrent k)) of
        None \<Rightarrow> Ret k
      | Some m \<Rightarrow>
          (case mm_count_dec (lcr3 k (boot_cr3 k)) m of (k1, c) \<Rightarrow>
             bind_outcome (if c = 0 then release_mm ev k1 m else Ret k1)
               (\<lambda>k2. Ret (upd_kproc (kcurrent k2) (mm_update (\<lambda>_. None)) k2))))"

text \<open>The part of \<open>do_exit\<close> that runs with interrupts off: the parent is told, the children are given away.\<close>

definition exit_notify :: "sched_class \<Rightarrow> proc_table \<Rightarrow> proc_table outcome" where
  "exit_notify sc t =
     (case parent (proc_of t (current (sch t))) of
        None \<Rightarrow> Panic
      | Some q \<Rightarrow>
          bind_outcome (if wait_state (proc_of t q) = WT_CHILD then wakeup_proc sc (sch t) q else Ret (sch t)) (\<lambda>s.
            case move_children sc (t\<lparr>sch := s\<rparr>) (current s) of None \<Rightarrow> Panic | Some r \<Rightarrow> r))"

text \<open>\<open>do_exit\<close> never returns to its caller: the result is the state after the last switch.\<close>

definition do_exit :: "'s kenv \<Rightarrow> int \<Rightarrow> 's kernel \<Rightarrow> 's kernel outcome" where
  "do_exit ev code k =
     (if kcurrent k = idleproc (sch (tab k)) then Panic
      else if initproc (tab k) = Some (kcurrent k) then Panic
      else bind_outcome (exit_mm ev k) (\<lambda>k1.
        bind_outcome (put_fs ev k1 (kcurrent k1)) (\<lambda>k2.
          let k3 = upd_kproc (kcurrent k2) (\<lambda>x. x\<lparr>state := PROC_ZOMBIE, exit_code := code\<rparr>) k2
          in bind_outcome (exit_notify (ksc ev) (tab k3)) (\<lambda>t. kschedule (ksc ev) (k3\<lparr>tab := t\<rparr>)))))"

text \<open>
  The loop over the children, from \<open>cp\<close>: the first zombie. A process that waits either returns,
  with the exit code stored at \<open>code_store\<close>, or it has switched to another process; when it runs
  again \<open>do_wait_again\<close> goes on after the call of \<open>schedule\<close>.
\<close>

partial_function (option) scan_zombie :: "(proc_ptr \<Rightarrow> proc_struct) \<Rightarrow> proc_ptr option \<Rightarrow> proc_ptr option option" where
  "scan_zombie P cp =
     (case cp of
        None \<Rightarrow> Some None
      | Some p \<Rightarrow> if state (P p) = PROC_ZOMBIE then Some (Some p) else scan_zombie P (optr (P p)))"

datatype wait_result = Returned int "(u32 \<times> int) option" | Switched

text \<open>What \<open>do_wait\<close> finds from its label \<open>repeat\<close>: whether there is a child to wait for, and the zombie.\<close>

definition wait_target :: "proc_table \<Rightarrow> int \<Rightarrow> (bool \<times> proc_ptr option) outcome" where
  "wait_target t d =
     (let c = current (sch t) in
      if d \<noteq> 0 then
        bind_outcome (find_proc t d) (\<lambda>r. case r of
          None \<Rightarrow> Ret (False, None)
        | Some p \<Rightarrow> if parent (proc_of t p) = Some c then Ret (True, if state (proc_of t p) = PROC_ZOMBIE then Some p else None)
                     else Ret (False, None))
      else bind_outcome (of_option (scan_zombie (procs (sch t)) (cptr (proc_of t c))))
             (\<lambda>r. Ret (cptr (proc_of t c) \<noteq> None, r)))"

definition do_wait_pass :: "'s kenv \<Rightarrow> int \<Rightarrow> u32 \<Rightarrow> 's kernel \<Rightarrow> ('s kernel \<times> wait_result) outcome" where
  "do_wait_pass ev d store k =
     bind_outcome (wait_target (tab k) d) (\<lambda>(haskid, r). case r of
       Some p \<Rightarrow>
         if p = idleproc (sch (tab k)) \<or> initproc (tab k) = Some p then Panic
         else let st = (if store \<noteq> 0 then Some (store, exit_code (kproc k p)) else None)
              in bind_outcome (drop_proc (tab k) p) (\<lambda>t.
                   bind_outcome (put_kstack (kpm ev) (k\<lparr>tab := t\<rparr>) p) (\<lambda>k1. Ret (k1, Returned 0 st)))
     | None \<Rightarrow>
         if haskid then
           bind_outcome (kschedule (ksc ev) (upd_kproc (kcurrent k) (\<lambda>x. x\<lparr>state := PROC_SLEEPING, wait_state := WT_CHILD\<rparr>) k))
             (\<lambda>k1. Ret (k1, Switched))
         else Ret (k, Returned (- E_BAD_PROC) None))"

definition do_wait :: "'s kenv \<Rightarrow> int \<Rightarrow> u32 \<Rightarrow> 's kernel \<Rightarrow> ('s kernel \<times> wait_result) outcome" where
  "do_wait ev d store k =
     (if store \<noteq> 0 then
        bind_outcome (user_mem_check (vm (memory k)) (mm (kproc k (kcurrent k))) store 4 True) (\<lambda>(w, ok).
          let k1 = k\<lparr>memory := (memory k)\<lparr>vm := w\<rparr>\<rparr>
          in if \<not> ok then Ret (k1, Returned (- E_INVAL) None) else do_wait_pass ev d store k1)
      else do_wait_pass ev d store k)"

definition do_wait_again :: "'s kenv \<Rightarrow> int \<Rightarrow> u32 \<Rightarrow> 's kernel \<Rightarrow> ('s kernel \<times> wait_result) outcome" where
  "do_wait_again ev d store k =
     (if flags (kproc k (kcurrent k)) AND PF_EXITING \<noteq> 0
      then bind_outcome (do_exit ev (- E_KILLED) k) (\<lambda>k1. Ret (k1, Switched))
      else do_wait_pass ev d store k)"

subsection \<open>Kill, yield, sleep and priorities\<close>

definition do_kill :: "sched_class \<Rightarrow> int \<Rightarrow> proc_table \<Rightarrow> (proc_table \<times> int) outcome" where
  "do_kill sc d t =
     bind_outcome (find_proc t d) (\<lambda>r. case r of
       None \<Rightarrow> Ret (t, - E_INVAL)
     | Some p \<Rightarrow>
         if flags (proc_of t p) AND PF_EXITING = 0 then
           let t1 = set_proc p (flags_update (\<lambda>f. f OR PF_EXITING)) t
           in if wait_state (proc_of t1 p) AND WT_INTERRUPTED \<noteq> 0
              then bind_outcome (wakeup_proc sc (sch t1) p) (\<lambda>s. Ret (t1\<lparr>sch := s\<rparr>, 0)) else Ret (t1, 0)
         else Ret (t, - E_KILLED))"

definition do_yield :: "proc_table \<Rightarrow> proc_table \<times> int" where
  "do_yield t = (set_proc (current (sch t)) (need_resched_update (\<lambda>_. True)) t, 0)"

definition lab6_set_priority :: "u32 \<Rightarrow> proc_table \<Rightarrow> proc_table" where
  "lab6_set_priority n t = set_proc (current (sch t)) (lab6_priority_update (\<lambda>_. if n = 0 then 1 else n)) t"

text \<open>\<open>do_sleep\<close> up to its call of \<open>schedule\<close> and after it; \<open>tm\<close> is the timer of its stack frame.\<close>

definition do_sleep :: "'s kenv \<Rightarrow> nat \<Rightarrow> u32 \<Rightarrow> 's kernel \<Rightarrow> ('s kernel \<times> bool) outcome" where
  "do_sleep ev tm time k =
     (if time = 0 then Ret (k, False)
      else let s = timer_init (sch (tab k)) tm (Some (kcurrent k)) time;
               s1 = upd_proc (current s) (\<lambda>x. x\<lparr>state := PROC_SLEEPING, wait_state := WT_TIMER\<rparr>) s
           in bind_outcome (add_timer s1 tm) (\<lambda>s2.
                bind_outcome (kschedule (ksc ev) (k\<lparr>tab := (tab k)\<lparr>sch := s2\<rparr>\<rparr>)) (\<lambda>k1. Ret (k1, True))))"

definition do_sleep_end :: "nat \<Rightarrow> 's kernel \<Rightarrow> 's kernel \<times> int" where
  "do_sleep_end tm k = (k\<lparr>tab := (tab k)\<lparr>sch := del_timer (sch (tab k)) tm\<rparr>\<rparr>, 0)"

text \<open>One turn of the loop of \<open>cpu_idle\<close>.\<close>

definition cpu_idle :: "'s kenv \<Rightarrow> 's kernel \<Rightarrow> 's kernel outcome" where
  "cpu_idle ev k = (if need_resched (kproc k (kcurrent k)) then kschedule (ksc ev) k else Ret k)"

subsection \<open>The first processes\<close>

text \<open>
  \<open>blk\<close> and \<open>fblk\<close> are the blocks of \<open>idleproc\<close>, \<open>bl\<close> those of \<open>initproc\<close>; \<open>fn\<close> is \<open>init_main\<close>, \<open>stk\<close> the boot stack, and
  \<open>nm_idle\<close> and \<open>nm_init\<close> are the addresses of the two names.
\<close>

definition HASH_LIST_SIZE :: nat where "HASH_LIST_SIZE = 2 ^ HASH_SHIFT"

definition init_lists :: "proc_table \<Rightarrow> proc_table" where
  "init_lists t =
     t\<lparr>proc_links := list_init (proc_links t) None,
       hash_links := fold (\<lambda>i h. list_init h (HHead i)) [0 ..< HASH_LIST_SIZE] (hash_links t)\<rparr>"

definition proc_init ::
  "'s kenv \<Rightarrow> nat option \<Rightarrow> nat option \<Rightarrow> fork_blocks \<Rightarrow> u32 \<Rightarrow> u32 \<Rightarrow> nat \<Rightarrow> nat \<Rightarrow> 's kernel \<Rightarrow> 's kernel outcome" where
  "proc_init ev blk fblk bl fn stk nm_idle nm_init k =
     (case alloc_proc blk (k\<lparr>tab := init_lists (tab k)\<rparr>) of
        (_, None) \<Rightarrow> Panic
      | (k1, Some p) \<Rightarrow>
          let k2 = upd_kproc p (\<lambda>x. x\<lparr>pid := 0, state := PROC_RUNNABLE, kstack := stk, need_resched := True\<rparr>)
                     (k1\<lparr>tab := (tab k1)\<lparr>sch := (sch (tab k1))\<lparr>idleproc := p\<rparr>\<rparr>\<rparr>)
          in case files_create fblk (vfs k2) of
               (_, None) \<Rightarrow> Panic
             | (v, Some f) \<Rightarrow>
                 let k3 = upd_kproc p (filesp_update (\<lambda>_. Some f)) (files_count_inc (k2\<lparr>vfs := v\<rparr>) f);
                     k4 = set_proc_name k3 p nm_idle;
                     t = (tab k4)\<lparr>nr_process := nr_process (tab k4) + 1\<rparr>;
                     k5 = k4\<lparr>tab := t\<lparr>sch := (sch t)\<lparr>current := p\<rparr>\<rparr>, vfs := (vfs k4)\<lparr>cur_files := Some f\<rparr>\<rparr>
                 in bind_outcome (kernel_thread ev bl fn 0 0 k5) (\<lambda>(k6, d).
                      if d \<le> 0 then Panic
                      else bind_outcome (find_proc (tab k6) d) (\<lambda>r. case r of
                        None \<Rightarrow> Panic
                      | Some q \<Rightarrow>
                          let k7 = set_proc_name (k6\<lparr>tab := (tab k6)\<lparr>initproc := Some q\<rparr>\<rparr>) q nm_init
                          in assert_then (pid (kproc k7 p) = 0) (assert_then (pid (kproc k7 q) = 1) (Ret k7)))))"

end
