(* ===== verification/ProcLife.thy ===== *)
theory ProcLife
  imports Process
begin

text \<open>
  Forking, exiting and waiting with the stride scheduler, the first-fit page allocator and the
  device file system: the process table, the tree of processes and the run queue stay
  well formed, and what a process held is given back.
\<close>

definition dev_kenv :: "dev_state kenv" where
  "dev_kenv = \<lparr>ksc = default_sched_class, kpm = default_pmm_manager, ksm = swap_manager_fifo, kfs = dev_env\<rparr>"

lemma dev_kenv_sel [simp]:
  "ksc dev_kenv = default_sched_class" "kpm dev_kenv = default_pmm_manager" "ksm dev_kenv = swap_manager_fifo" "kfs dev_kenv = dev_env"
  by (simp_all add: dev_kenv_def)

subsection \<open>Kernel stacks\<close>

definition frames_ok :: "mem_state \<Rightarrow> nat set \<Rightarrow> bool" where
  "frames_ok s F \<longleftrightarrow> pmm_free (pmm s) F \<and> F \<subseteq> {..< unat (npage s)} \<and> unat (npage s) \<le> KMEM_PAGES"

lemma kva_page:
  assumes "pg < unat (npage s)" "unat (npage s) \<le> KMEM_PAGES"
  shows "page2kva s pg = Ret pg" "kva2page s (kva_of pg) = Ret pg" "PADDR (kva_of pg) = Ret (page2pa pg)"
proof -
  have lt: "pg < 2 ^ 20" "unat (npage s) \<le> 2 ^ 20" using assms by (simp_all add: KMEM_PAGES_def)
  then show "page2kva s pg = Ret pg" using page2kva_ok assms(1) by blast
  have u: "unat (page2pa pg) = pg * 4096"
  proof -
    have "pg * 4096 < 2 ^ 32" using lt by simp
    moreover have "page2pa pg = of_nat (pg * 4096)" by (simp add: page2pa_def push_bit_eq_mult)
    ultimately show ?thesis by (simp add: unat_of_nat take_bit_nat_eq_self del: of_nat_mult)
  qed
  have "unat KERNBASE + unat (page2pa pg) < 2 ^ 32" using assms u by (simp add: KERNBASE_def KMEM_PAGES_def)
  then have "unat (kva_of pg) = unat KERNBASE + unat (page2pa pg)" by (simp add: kva_of_def unat_plus_if_size word_size)
  then have "\<not> kva_of pg < KERNBASE" by (simp add: word_less_nat_alt)
  then show p: "PADDR (kva_of pg) = Ret (page2pa pg)" by (simp add: PADDR_def kva_of_def)
  have "pa2page s (page2pa pg) = Ret pg" using \<open>page2kva s pg = Ret pg\<close> by (simp add: page2kva_def KADDR_def pa2page_def split: if_splits)
  then show "kva2page s (kva_of pg) = Ret pg" by (simp add: kva2page_def p)
qed

lemma setup_kstack_ok:
  assumes "frames_ok (memory k) F"
  shows "\<exists>k' r. setup_kstack default_pmm_manager sm k p = Ret (k', r) \<and>
     (if \<exists>q. {q, Suc q} \<subseteq> F
      then r = 0 \<and> (\<exists>m q. {q, Suc q} \<subseteq> F \<and> k' = upd_kproc p (kstack_update (\<lambda>_. kva_of q)) (k\<lparr>memory := (memory k)\<lparr>pmm := m\<rparr>\<rparr>) \<and>
             frames_ok (memory k') (F - {q, Suc q}) \<and> pmm_owned m q KSTACKPAGE \<and>
             (\<forall>b n. pmm_owned (pmm (memory k)) b n \<longrightarrow> {b ..< b + unat n} \<inter> F = {} \<longrightarrow> pmm_owned m b n))
      else r = - E_NO_MEM \<and> k' = k)"
proof -
  have f: "pmm_free (pmm (memory k)) F" "F \<subseteq> {..< unat (npage (memory k))}" "unat (npage (memory k)) \<le> KMEM_PAGES"
    using assms by (simp_all add: frames_ok_def)
  have two: "{q ..< q + unat KSTACKPAGE} = {q, Suc q}" for q by (auto simp: KSTACKPAGE_def)
  from default_pmm.alloc_contract [OF f(1), of KSTACKPAGE] obtain m r where a: "pm_alloc_pages default_pmm_manager (pmm (memory k)) KSTACKPAGE = Ret (m, r)"
    and c: "case r of None \<Rightarrow> m = pmm (memory k) \<and> \<not> (\<exists>p. {p ..< p + unat KSTACKPAGE} \<subseteq> F)
         | Some p \<Rightarrow> {p ..< p + unat KSTACKPAGE} \<subseteq> F \<and> pmm_free m (F - {p ..< p + unat KSTACKPAGE}) \<and> pmm_owned m p KSTACKPAGE \<and>
             (\<forall>q n. pmm_owned (pmm (memory k)) q n \<longrightarrow> {q ..< q + unat n} \<inter> F = {} \<longrightarrow> pmm_owned m q n)"
    by (auto simp: KSTACKPAGE_def)
  have "1 < KSTACKPAGE" by (simp add: KSTACKPAGE_def)
  then have al: "alloc_pages default_pmm_manager sm (memory k) KSTACKPAGE = Ret ((memory k)\<lparr>pmm := m\<rparr>, r)"
    using a by (simp add: alloc_pages_def alloc_loop.simps [of _ _ "memory k"])
  show ?thesis
  proof (cases r)
    case None
    then have "m = pmm (memory k)" "\<not> (\<exists>q. {q, Suc q} \<subseteq> F)" using c [unfolded None option.case two] by blast+
    then show ?thesis using al None by (auto simp: setup_kstack_def)
  next
    case (Some q)
    have q: "{q, Suc q} \<subseteq> F" "pmm_free m (F - {q, Suc q})" "pmm_owned m q KSTACKPAGE"
      "\<forall>b n. pmm_owned (pmm (memory k)) b n \<longrightarrow> {b ..< b + unat n} \<inter> F = {} \<longrightarrow> pmm_owned m b n" using c [unfolded Some option.case two] by blast+
    have "page2kva ((memory k)\<lparr>pmm := m\<rparr>) q = Ret q" using kva_page(1) [of q "(memory k)\<lparr>pmm := m\<rparr>"] q(1) f(2,3) by auto
    then have "setup_kstack default_pmm_manager sm k p = Ret (upd_kproc p (kstack_update (\<lambda>_. kva_of q)) (k\<lparr>memory := (memory k)\<lparr>pmm := m\<rparr>\<rparr>), 0)"
      using al Some by (simp add: setup_kstack_def)
    moreover have "frames_ok ((memory k)\<lparr>pmm := m\<rparr>) (F - {q, Suc q})" using q(2) f(2,3) by (auto simp: frames_ok_def)
    ultimately show ?thesis using q by fastforce
  qed
qed

lemma put_kstack_ok:
  assumes "frames_ok (memory k) F" "kstack (kproc k p) = kva_of q" "pmm_owned (pmm (memory k)) q KSTACKPAGE" "{q, Suc q} \<inter> F = {}" "Suc q < unat (npage (memory k))"
  shows "\<exists>m. put_kstack default_pmm_manager k p = Ret (k\<lparr>memory := (memory k)\<lparr>pmm := m\<rparr>\<rparr>) \<and> frames_ok ((memory k)\<lparr>pmm := m\<rparr>) (F \<union> {q, Suc q})"
proof -
  have f: "pmm_free (pmm (memory k)) F" "F \<subseteq> {..< unat (npage (memory k))}" "unat (npage (memory k)) \<le> KMEM_PAGES"
    using assms(1) by (simp_all add: frames_ok_def)
  have two: "{q ..< q + unat KSTACKPAGE} = {q, Suc q}" by (auto simp: KSTACKPAGE_def)
  from default_pmm.free_contract [OF f(1) assms(3), unfolded two, OF assms(4)] obtain m where
    m: "pm_free_pages default_pmm_manager (pmm (memory k)) q KSTACKPAGE = Ret m" "pmm_free m (F \<union> {q, Suc q})" by blast
  have "kva2page (memory k) (kva_of q) = Ret q" using kva_page(2) assms(5) f(3) by simp
  then show ?thesis using m f assms(2,5) by (auto simp: put_kstack_def free_pages_def frames_ok_def)
qed

subsection \<open>The invariant of the process table, its tree and the run queue\<close>

abbreviation live :: "proc_table \<Rightarrow> proc_ptr list \<Rightarrow> proc_ptr set" where
  "live t xs \<equiv> insert (idleproc (sch t)) (set xs)"

definition procs_inv :: "proc_table \<Rightarrow> proc_ptr list \<Rightarrow> (proc_ptr \<Rightarrow> proc_ptr list) \<Rightarrow> bool" where
  "procs_inv t xs ch \<longleftrightarrow> table_inv t xs \<and> tree_inv t xs ch \<and> rq_holds (sch t) (ready (sch t)) \<and> current (sch t) \<in> live t xs \<and>
     (\<forall>p. state (proc_of t p) = PROC_RUNNABLE \<longrightarrow> p \<in> live t xs) \<and> (\<forall>p \<in> set xs. state (proc_of t p) = PROC_ZOMBIE \<longrightarrow> ch p = []) \<and>
     state (proc_of t (idleproc (sch t))) = PROC_RUNNABLE"

lemma procs_invD:
  assumes "procs_inv t xs ch"
  shows "table_inv t xs" "tree_inv t xs ch" "rq_holds (sch t) (ready (sch t))" "current (sch t) \<in> live t xs"
    "state (proc_of t p) = PROC_RUNNABLE \<Longrightarrow> p \<in> live t xs" "p \<in> set xs \<Longrightarrow> state (proc_of t p) = PROC_ZOMBIE \<Longrightarrow> ch p = []"
    "state (proc_of t (idleproc (sch t))) = PROC_RUNNABLE"
  using assms by (simp_all add: procs_inv_def)

text \<open>Writing the heap node of a process that is not queued keeps the queue.\<close>

lemma rq_holds_node:
  assumes "rq_holds s Q" "p \<notin> Q" "pool s' = skew_heap_init (pool s) p" "rq s' = rq s"
  shows "rq_holds s' Q"
proof -
  from assms(1) obtain t where t: "skew_heap (pool s) (lab6_run_pool (rq s)) t" "set_tree t = Q" "proc_num (rq s) = of_nat (size t)"
    by (auto simp: rq_holds_def)
  have "skt (skew_heap_init (pool s) p) (lab6_run_pool (rq s)) t"
    by (rule skt_frame [of "pool s"]) (use t assms(2) in \<open>auto simp: skew_heap_def skew_heap_init_def\<close>)
  moreover have "sk_parent (skew_heap_init (pool s) p) c = None" if "root t = Some c" for c
    using t(1) that by (simp add: skew_heap_def skew_heap_init_def)
  ultimately show ?thesis using t assms(3,4) by (auto simp: rq_holds_def skew_heap_def)
qed

text \<open>\<open>t\<close> is the table \<open>t0\<close> with the block of a new process \<open>p\<close> filled in.\<close>

lemma new_block_inv:
  assumes inv: "procs_inv t0 xs ch" and p: "p \<notin> live t0 xs"
    and t: "proc_links t = proc_links t0" "hash_links t = hash_links t0" "nr_process t = nr_process t0" "last_pid t = last_pid t0" "next_safe t = next_safe t0"
      "current (sch t) = current (sch t0)" "idleproc (sch t) = idleproc (sch t0)"
      "pool (sch t) = skew_heap_init (pool (sch t0)) p" "rq (sch t) = rq (sch t0)" "\<And>x. x \<noteq> p \<Longrightarrow> proc_of t x = proc_of t0 x"
    and new: "state (proc_of t p) = PROC_UNINIT"
  shows "procs_inv t xs ch" "pids t xs = pids t0 xs"
proof -
  note I = procs_invD [OF inv]
  have same: "proc_of t x = proc_of t0 x" if "x \<in> live t0 xs" for x using t(10) [of x] that p by blast
  have ti: "table_inv t xs" by (rule table_inv_cong [OF I(1) t(1-5)]) (simp add: same)
  have tr: "tree_inv t xs ch" by (rule tree_inv_cong [OF I(2) t(7)]) (simp only: same simp_thms)
  have "p \<notin> ready (sch t0)" using I(5) [of p] p by (auto simp: ready_def)
  moreover have "ready (sch t) = ready (sch t0)"
  proof (rule set_eqI)
    fix x show "x \<in> ready (sch t) \<longleftrightarrow> x \<in> ready (sch t0)"
      using I(5) [of p] p t(6,7) t(10) [of x] new by (cases "x = p") (auto simp: ready_def)
  qed
  ultimately have "rq_holds (sch t) (ready (sch t))" using rq_holds_node [OF I(3) _ t(8,9)] by simp
  moreover have "x \<in> live t xs" if "state (proc_of t x) = PROC_RUNNABLE" for x
    using that I(5) [of x] t(7) t(10) [of x] new by (cases "x = p") auto
  moreover have "ch x = []" if "x \<in> set xs" "state (proc_of t x) = PROC_ZOMBIE" for x using that I(6) [of x] same by simp
  moreover have "state (proc_of t (idleproc (sch t))) = PROC_RUNNABLE" using I(7) same t(7) by simp
  ultimately show "procs_inv t xs ch" using ti tr I(4) t(6,7) by (simp add: procs_inv_def)
  show "pids t xs = pids t0 xs" using same by (auto simp: pids_def)
qed

lemma enter_ok:
  assumes inv: "procs_inv t xs ch" and n: "nr_process t < MAX_PROCESS" and p: "p \<notin> live t xs" and cz: "state (proc_of t (current (sch t))) \<noteq> PROC_ZOMBIE"
    and new: "state (proc_of t p) = PROC_UNINIT" "parent (proc_of t p) = Some (current (sch t))" "cptr (proc_of t p) = None"
  shows "\<exists>t' s. enter_proc t p = Ret t' \<and> wakeup_proc default_sched_class (sch t') p = Ret s \<and>
     procs_inv (t'\<lparr>sch := s\<rparr>) (p # xs) (ch(current (sch t) := p # ch (current (sch t)), p := [])) \<and> p \<in> ready s \<and>
     pid (procs s p) \<in> {1 ..< MAX_PID} - pids t xs \<and> nr_process t' = nr_process t + 1 \<and> initproc t' = initproc t \<and>
     current s = current (sch t) \<and> idleproc s = idleproc (sch t) \<and>
     (\<forall>x. x \<noteq> p \<longrightarrow> same_but_links (proc_of t x) (procs s x) \<and> state (procs s x) = state (proc_of t x) \<and> wait_state (procs s x) = wait_state (proc_of t x)) \<and>
     kstack (procs s p) = kstack (proc_of t p) \<and> filesp (procs s p) = filesp (proc_of t p) \<and> mm (procs s p) = mm (proc_of t p)"
proof -
  note I = procs_invD [OF inv]
  let ?c = "current (sch t)" and ?ch = "ch(current (sch t) := p # ch (current (sch t)), p := [])"
  from enter_proc_ok [OF I(1,2) n p new(2) I(4) new(3)] obtain t' where t': "enter_proc t p = Ret t'" "table_inv t' (p # xs)" "tree_inv t' (p # xs) ?ch"
     "pid (proc_of t' p) \<in> {1 ..< MAX_PID} - pids t xs" "nr_process t' = nr_process t + 1" "initproc t' = initproc t"
     "sch t' = (sch t)\<lparr>procs := procs (sch t')\<rparr>"
     "\<forall>x. \<exists>c y o'. proc_of t' x = (proc_of t x)\<lparr>pid := if x = p then pid (proc_of t' p) else pid (proc_of t x), cptr := c, yptr := y, optr := o'\<rparr>"
    by blast
  have sc: "current (sch t') = ?c" "idleproc (sch t') = idleproc (sch t)" "pool (sch t') = pool (sch t)" "rq (sch t') = rq (sch t)" by (subst t'(7), simp)+
  have st: "state (proc_of t' x) = state (proc_of t x)" "wait_state (proc_of t' x) = wait_state (proc_of t x)" "kstack (proc_of t' x) = kstack (proc_of t x)"
    "filesp (proc_of t' x) = filesp (proc_of t x)" "mm (proc_of t' x) = mm (proc_of t x)" for x
    using spec [OF t'(8), of x] by auto
  have "ready (sch t') = ready (sch t)" unfolding ready_def st sc ..
  then have "rq_holds (sch t') (ready (sch t'))" using stride.holds_frame [OF I(3) sc(3,4)] by simp
  from stride.wakeup_ident [OF this, of p] st new(1) obtain s where s: "wakeup_proc default_sched_class (sch t') p = Ret s" "rq_holds s (ready s)"
    "current s = ?c" "idleproc s = idleproc (sch t)" "state (procs s p) = PROC_RUNNABLE" "\<And>q. same_ident (proc_of t' q) (procs s q)"
    "\<And>q. q \<noteq> p \<Longrightarrow> state (procs s q) = state (proc_of t' q) \<and> wait_state (procs s q) = wait_state (proc_of t' q)" using sc by auto
  note sel = same_ident_sel [OF s(6)]
  let ?t = "t'\<lparr>sch := s\<rparr>"
  have "table_inv ?t (p # xs)" by (rule table_inv_cong [OF t'(2)]) (simp_all add: sel)
  moreover have "tree_inv ?t (p # xs) ?ch" by (rule tree_inv_cong [OF t'(3)]) (simp_all add: sel s(4) sc)
  moreover have "x \<in> live ?t (p # xs)" if "state (proc_of ?t x) = PROC_RUNNABLE" for x
    using that s(7) [of x] st I(5) [of x] s(4) by (cases "x = p") auto
  moreover have "?ch x = []" if "x \<in> set (p # xs)" "state (proc_of ?t x) = PROC_ZOMBIE" for x
  proof (cases "x = p")
    case False
    then have "x \<in> set xs" "state (proc_of t x) = PROC_ZOMBIE" using that s(7) [of x] st by auto
    moreover have "x \<noteq> ?c" using calculation(2) cz by auto
    ultimately show ?thesis using I(6) False by simp
  qed simp
  moreover have "current (sch ?t) \<in> live ?t (p # xs)" using s(3,4) I(4) by auto
  moreover have "state (proc_of ?t (idleproc (sch ?t))) = PROC_RUNNABLE" using I(7) s(4) s(7) [of "idleproc (sch t)"] p st by auto
  ultimately have "procs_inv ?t (p # xs) ?ch" using s(2) unfolding procs_inv_def by simp
  moreover have "same_but_links (proc_of t x) (procs s x) \<and> state (procs s x) = state (proc_of t x) \<and> wait_state (procs s x) = wait_state (proc_of t x)"
    if xp: "x \<noteq> p" for x
  proof -
    obtain c y o' where "proc_of t' x = (proc_of t x)\<lparr>cptr := c, yptr := y, optr := o'\<rparr>" using spec [OF t'(8), of x] by (auto simp: xp)
    then have "same_but_links (proc_of t x) (procs s x)" using s(6) [of x] unfolding same_but_links_def same_ident_def
      by (cases "proc_of t x"; cases "procs s x") simp
    then show ?thesis using s(7) [OF xp] st by simp
  qed
  moreover have "p \<in> ready s" using s(3,4,5) p I(4) by (auto simp: ready_def)
  ultimately show ?thesis using t'(1,4,5,6) s(1,3,4) sel st by (intro exI [of _ t'] exI [of _ s]) simp
qed

subsection \<open>The descriptor table of a new process\<close>

lemma files_inv_other:
  assumes "f \<notin> A" "f \<notin> B" "\<And>q i. q \<noteq> f \<Longrightarrow> file_at s' (q, i) = file_at s (q, i)" "\<And>q. q \<noteq> f \<Longrightarrow> pwd (files s' q) = pwd (files s q)" "inodes s' = inodes s"
  shows "files_inv e K ty A B s' = files_inv e K ty A B s"
proof -
  have a: "file_at s' (q, i) = file_at s (q, i)" if "q \<in> A" for q i using assms(1) that by (intro assms(3)) auto
  have b: "pwd (files s' q) = pwd (files s q)" if "q \<in> B" for q using assms(2) that by (intro assms(4)) auto
  have "fd_set s' A n = fd_set s A n" "cwd_set s' B n = cwd_set s B n" for n using a b by (auto simp: fd_set_def cwd_set_def)
  moreover have "(\<forall>p \<in> A. \<forall>i < FILES_STRUCT_NENTRY. entry_ok i (file_at s' (p, i))) = (\<forall>p \<in> A. \<forall>i < FILES_STRUCT_NENTRY. entry_ok i (file_at s (p, i)))"
    using a by simp
  ultimately show ?thesis using assms(5) by (simp add: files_inv_def)
qed

abbreviation dfiles_inv :: "nat set \<Rightarrow> nat set \<Rightarrow> dvfs \<Rightarrow> bool" where
  "dfiles_inv \<equiv> files_inv dev_env {DEV_OPS} (\<lambda>_. inode_type_device_info)"

lemma copy_fs_ok:
  assumes inv: "dfiles_inv A B (vfs k)" and old: "filesp (kproc k (kcurrent k)) = Some f0" "f0 \<in> A" "f0 \<in> B" "files_count (files (vfs k) f0) > 0"
    and f: "blk_files bl = Some f" "f \<notin> A" "f \<notin> B" and b: "\<forall>n. ref_count (inodes (vfs k) n) + 1 + int FILES_STRUCT_NENTRY < MAX_INODE_COUNT"
    and fl: "fl AND CLONE_FS = 0"
  shows "\<exists>v. copy_fs dev_kenv bl fl k p = Ret (upd_kproc p (filesp_update (\<lambda>_. Some f)) (k\<lparr>vfs := v\<rparr>), 0) \<and>
     dfiles_inv (insert f A) (insert f B) v \<and> files_count (files v f) = 1"
proof -
  obtain v0 where v0: "files_create (Some f) (vfs k) = (v0, Some f)" by (simp add: files_create_def)
  note fr = files_create_fresh [OF v0]
  have o: "file_at v0 (q, i) = file_at (vfs k) (q, i)" "files v0 q = files (vfs k) q" if "q \<noteq> f" for q i
    using v0 that by (auto simp: files_create_def file_at_def)
  have "dfiles_inv A B v0" using inv files_inv_other [OF f(2,3), of v0 "vfs k"] o fr by simp
  moreover have "f0 \<noteq> f" using old f by auto
  ultimately obtain v1 where v1: "dup_fs v0 f f0 = Ret (v1, 0)" "dfiles_inv (insert f A) (insert f B) v1" "files_count (files v1 f) = 0"
    using dup_fs_ok [of dev_env "{DEV_OPS}" "\<lambda>_. inode_type_device_info" A B v0 f0 f] old f b fr o by auto
  let ?v = "upd_files f (files_count_update (\<lambda>c. c + 1)) v1"
  have "dfiles_inv (insert f A) (insert f B) ?v" using v1(2) files_inv_cong [of ?v v1] by (auto simp: file_at_def)
  moreover have "copy_fs dev_kenv bl fl k p = Ret (upd_kproc p (filesp_update (\<lambda>_. Some f)) (k\<lparr>vfs := ?v\<rparr>), 0)"
    using old(1) fl f(1) v0 v1(1) by (simp add: copy_fs_def files_count_inc_def)
  ultimately show ?thesis using v1(3) by (intro exI [of _ ?v]) simp
qed

text \<open>A kernel thread has no address space; a thread that shares one only counts itself in.\<close>

definition shares_mm :: "'s kernel \<Rightarrow> u32 \<Rightarrow> bool" where
  "shares_mm k fl \<longleftrightarrow> (case mm (kproc k (kcurrent k)) of None \<Rightarrow> True
     | Some m \<Rightarrow> fl AND CLONE_VM \<noteq> 0 \<and> (\<exists>d < unat (npage (memory k)). pgdir (mms (vm (memory k)) m) = Some d))"

lemma copy_mm_shared:
  assumes "shares_mm k fl" "unat (npage (memory k)) \<le> KMEM_PAGES"
  shows "\<exists>x g. copy_mm ev bl fl k p = Ret (upd_kproc p g (k\<lparr>memory := (memory k)\<lparr>vm := x\<rparr>\<rparr>), 0) \<and>
     (\<forall>y. state (g y) = state y \<and> parent (g y) = parent y \<and> cptr (g y) = cptr y \<and> kstack (g y) = kstack y \<and> filesp (g y) = filesp y)"
proof (cases "mm (kproc k (kcurrent k))")
  case None
  have "upd_kproc p id (k\<lparr>memory := (memory k)\<lparr>vm := vm (memory k)\<rparr>\<rparr>) = k" by simp
  then have "copy_mm ev bl fl k p = Ret (upd_kproc p id (k\<lparr>memory := (memory k)\<lparr>vm := vm (memory k)\<rparr>\<rparr>), 0)" using None by (simp add: copy_mm_def)
  then show ?thesis by (intro exI [of _ "vm (memory k)"] exI [of _ id]) simp
next
  case (Some m)
  then obtain d where d: "fl AND CLONE_VM \<noteq> 0" "d < unat (npage (memory k))" "pgdir (mms (vm (memory k)) m) = Some d" using assms(1) by (auto simp: shares_mm_def)
  let ?x = "upd_mm m (mm_count_update (\<lambda>c. c + 1)) (vm (memory k))" and ?g = "\<lambda>y. proc_struct.cr3_update (\<lambda>_. page2pa d) (y\<lparr>mm := Some m\<rparr>)"
  have "copy_mm ev bl fl k p = Ret (upd_kproc p ?g (k\<lparr>memory := (memory k)\<lparr>vm := ?x\<rparr>\<rparr>), 0)"
    using Some d kva_page(3) [OF d(2) assms(2)] by (simp add: copy_mm_def mm_count_inc_def)
  then show ?thesis by (intro exI [of _ ?x] exI [of _ ?g]) simp
qed

lemma do_fork_ok:
  assumes inv: "procs_inv (tab k) xs ch" and n: "nr_process (tab k) < MAX_PROCESS"
    and cur: "state (kproc k (kcurrent k)) \<noteq> PROC_ZOMBIE" "wait_state (kproc k (kcurrent k)) = 0"
    and F: "frames_ok (memory k) F" and mm: "shares_mm k fl" and fl: "fl AND CLONE_FS = 0"
    and fi: "dfiles_inv A B (vfs k)" and old: "filesp (kproc k (kcurrent k)) = Some f0" "f0 \<in> A" "f0 \<in> B" "files_count (files (vfs k) f0) > 0"
    and b: "\<forall>n. ref_count (inodes (vfs k) n) + 1 + int FILES_STRUCT_NENTRY < MAX_INODE_COUNT"
    and bl: "blk_proc bl = Some p" "p \<notin> live (tab k) xs" "blk_files bl = Some f" "f \<notin> A" "f \<notin> B"
  shows "\<exists>k' r. do_fork dev_kenv bl fl stack tf k = Ret (k', r) \<and>
     (if \<exists>q. {q, Suc q} \<subseteq> F
      then r \<in> {1 ..< MAX_PID} - pids (tab k) xs \<and> pid (kproc k' p) = r \<and> p \<in> ready (sch (tab k')) \<and> filesp (kproc k' p) = Some f \<and>
           procs_inv (tab k') (p # xs) (ch(kcurrent k := p # ch (kcurrent k), p := [])) \<and> kcurrent k' = kcurrent k \<and>
           dfiles_inv (insert f A) (insert f B) (vfs k') \<and> files_count (files (vfs k') f) = 1 \<and>
           (\<exists>q. {q, Suc q} \<subseteq> F \<and> kstack (kproc k' p) = kva_of q \<and> frames_ok (memory k') (F - {q, Suc q}) \<and> pmm_owned (pmm (memory k')) q KSTACKPAGE) \<and>
           (\<exists>a. tf_at k' p = Some a \<and> tframes k' a = tf\<lparr>tf_regs := (tf_regs tf)\<lparr>reg_eax := 0\<rparr>, tf_esp := stack, tf_eflags := tf_eflags tf OR FL_IF\<rparr> \<and>
                ctx_esp (contexts k' p) = a)
      else r = - E_NO_MEM \<and> procs_inv (tab k') xs ch \<and> memory k' = memory k \<and> vfs k' = vfs k)"
proof -
  obtain k1 where k1: "alloc_proc (blk_proc bl) k = (k1, Some p)" by (simp add: alloc_proc_def bl(1))
  define k2 where "k2 = upd_kproc p (parent_update (\<lambda>_. Some (kcurrent k1))) k1"
  note e2 = k1 [unfolded alloc_proc_def bl(1), simplified, symmetric]
  have s2: "memory k2 = memory k" "vfs k2 = vfs k" "kcurrent k2 = kcurrent k" "nr_process (tab k2) = nr_process (tab k)" "live (tab k2) xs = live (tab k) xs"
    "\<And>x. x \<noteq> p \<Longrightarrow> kproc k2 x = kproc k x" "state (kproc k2 p) = PROC_UNINIT" "parent (kproc k2 p) = Some (kcurrent k)" "cptr (kproc k2 p) = None"
    using e2 by (simp_all add: k2_def)
  have f2: "proc_links (tab k2) = proc_links (tab k)" "hash_links (tab k2) = hash_links (tab k)" "nr_process (tab k2) = nr_process (tab k)" "last_pid (tab k2) = last_pid (tab k)" "next_safe (tab k2) = next_safe (tab k)" "current (sch (tab k2)) = current (sch (tab k))" "idleproc (sch (tab k2)) = idleproc (sch (tab k))"
    "pool (sch (tab k2)) = skew_heap_init (pool (sch (tab k))) p" "rq (sch (tab k2)) = rq (sch (tab k))"
    using e2 by (simp_all add: k2_def)
  note i2 = new_block_inv [OF inv bl(2) f2 s2(6,7)]
  have cp: "kcurrent k \<noteq> p" using procs_invD(4) [OF inv] bl(2) by auto
  have w2: "wait_state (kproc k2 (kcurrent k2)) = 0" using cur cp s2 by simp
  have nr: "\<not> MAX_PROCESS \<le> nr_process (tab k)" using n by simp
  from setup_kstack_ok [of k2 F swap_manager_fifo p] F s2(1) obtain k3 r3 where k3: "setup_kstack default_pmm_manager swap_manager_fifo k2 p = Ret (k3, r3)"
     "if \<exists>q. {q, Suc q} \<subseteq> F
      then r3 = 0 \<and> (\<exists>m q. {q, Suc q} \<subseteq> F \<and> k3 = upd_kproc p (kstack_update (\<lambda>_. kva_of q)) (k2\<lparr>memory := (memory k2)\<lparr>pmm := m\<rparr>\<rparr>) \<and>
             frames_ok (memory k3) (F - {q, Suc q}) \<and> pmm_owned m q KSTACKPAGE)
      else r3 = - E_NO_MEM \<and> k3 = k2" by (metis (no_types, lifting))
  have go: "do_fork dev_kenv bl fl stack tf k = bind_outcome (setup_kstack default_pmm_manager swap_manager_fifo k2 p) (\<lambda>(k3, r).
     if r \<noteq> 0 then Ret (k3, - E_NO_MEM)
     else bind_outcome (copy_fs dev_kenv bl fl k3 p) (\<lambda>(k4, r).
       if r \<noteq> 0 then bind_outcome (put_kstack default_pmm_manager k4 p) (\<lambda>k'. Ret (k', - E_NO_MEM))
       else bind_outcome (copy_mm dev_kenv bl fl k4 p) (\<lambda>(k5, r).
         if r \<noteq> 0 then bind_outcome (put_kstack default_pmm_manager k5 p) (\<lambda>k'. Ret (k', - E_NO_MEM))
         else let k6 = copy_thread k5 p stack tf
              in bind_outcome (enter_proc (tab k6) p) (\<lambda>t.
                   bind_outcome (wakeup_proc default_sched_class (sch t) p) (\<lambda>s. Ret (k6\<lparr>tab := t\<lparr>sch := s\<rparr>\<rparr>, pid (procs s p)))))))"
    unfolding do_fork_def k1 prod.case option.case Let_def k2_def [symmetric] w2 dev_kenv_sel using nr by simp
  show ?thesis
  proof (cases "\<exists>q. {q, Suc q} \<subseteq> F")
    case False
    then have "do_fork dev_kenv bl fl stack tf k = Ret (k2, - E_NO_MEM)"
      using k3 unfolding go by (simp add: E_NO_MEM_def)
    then show ?thesis using False i2 s2 by auto
  next
    case True
    with k3(2) obtain m q where q: "r3 = 0" "{q, Suc q} \<subseteq> F" "k3 = upd_kproc p (kstack_update (\<lambda>_. kva_of q)) (k2\<lparr>memory := (memory k2)\<lparr>pmm := m\<rparr>\<rparr>)"
      "frames_ok (memory k3) (F - {q, Suc q})" "pmm_owned m q KSTACKPAGE" by auto
    have s3: "vfs k3 = vfs k" "kcurrent k3 = kcurrent k" "kproc k3 (kcurrent k) = kproc k (kcurrent k)" "vm (memory k3) = vm (memory k)" "npage (memory k3) = npage (memory k)"
      using q(3) s2 cp by simp_all
    obtain v where v: "copy_fs dev_kenv bl fl k3 p = Ret (upd_kproc p (filesp_update (\<lambda>_. Some f)) (k3\<lparr>vfs := v\<rparr>), 0)"
      "dfiles_inv (insert f A) (insert f B) v" "files_count (files v f) = 1"
      using copy_fs_ok [of A B k3 f0 bl f fl p] fi old b bl(3-5) fl s3 by auto
    define k4 where "k4 = upd_kproc p (filesp_update (\<lambda>_. Some f)) (k3\<lparr>vfs := v\<rparr>)"
    have s4: "memory k4 = memory k3" "kcurrent k4 = kcurrent k" "kproc k4 (kcurrent k) = kproc k (kcurrent k)" using s3 cp by (simp_all add: k4_def)
    have "shares_mm k4 fl" using mm unfolding shares_mm_def s4 s3 .
    moreover have np: "unat (npage (memory k4)) \<le> KMEM_PAGES" using F s3 s4 by (simp add: frames_ok_def)
    ultimately obtain w g where g: "copy_mm dev_kenv bl fl k4 p = Ret (upd_kproc p g (k4\<lparr>memory := (memory k4)\<lparr>vm := w\<rparr>\<rparr>), 0)"
       "\<forall>y. state (g y) = state y \<and> parent (g y) = parent y \<and> cptr (g y) = cptr y \<and> kstack (g y) = kstack y \<and> filesp (g y) = filesp y"
      using copy_mm_shared [of k4 fl dev_kenv bl p] by blast
    define k5 where "k5 = upd_kproc p g (k4\<lparr>memory := (memory k4)\<lparr>vm := w\<rparr>\<rparr>)"
    define k6 where "k6 = copy_thread k5 p stack tf"
    have t6: "tab k6 = tab k5" "vfs k6 = v" "memory k6 = (memory k3)\<lparr>vm := w\<rparr>" by (simp_all add: k6_def copy_thread_def k5_def k4_def Let_def)
    have s6: "\<And>x. x \<noteq> p \<Longrightarrow> kproc k6 x = kproc k x" "state (kproc k6 p) = PROC_UNINIT" "parent (kproc k6 p) = Some (kcurrent k6)" "cptr (kproc k6 p) = None"
      "kstack (kproc k6 p) = kva_of q" "filesp (kproc k6 p) = Some f" "kcurrent k6 = kcurrent k" "nr_process (tab k6) < MAX_PROCESS" "live (tab k6) xs = live (tab k) xs"
      using g(2) s2 q(3) n by (simp_all add: t6 k5_def k4_def)
    have f6: "proc_links (tab k6) = proc_links (tab k)" "hash_links (tab k6) = hash_links (tab k)" "nr_process (tab k6) = nr_process (tab k)" "last_pid (tab k6) = last_pid (tab k)" "next_safe (tab k6) = next_safe (tab k)" "current (sch (tab k6)) = current (sch (tab k))" "idleproc (sch (tab k6)) = idleproc (sch (tab k))"
      "pool (sch (tab k6)) = skew_heap_init (pool (sch (tab k))) p" "rq (sch (tab k6)) = rq (sch (tab k))"
      unfolding t6 k5_def k4_def q(3) using f2 by simp_all
    note i6 = new_block_inv [OF inv bl(2) f6 s6(1,2)]
    have p6: "p \<notin> live (tab k6) xs" "state (kproc k6 (kcurrent k6)) \<noteq> PROC_ZOMBIE" using bl(2) s6 cur cp by simp_all
    from enter_ok [OF i6(1) s6(8) p6 s6(2,3,4)] obtain t' s where e: "enter_proc (tab k6) p = Ret t'" "wakeup_proc default_sched_class (sch t') p = Ret s"
       "procs_inv (t'\<lparr>sch := s\<rparr>) (p # xs) (ch(kcurrent k6 := p # ch (kcurrent k6), p := []))" "p \<in> ready s"
       "pid (procs s p) \<in> {1 ..< MAX_PID} - pids (tab k6) xs" "current s = kcurrent k6" "kstack (procs s p) = kstack (kproc k6 p)" "filesp (procs s p) = filesp (kproc k6 p)" by blast
    let ?k = "k6\<lparr>tab := t'\<lparr>sch := s\<rparr>\<rparr>"
    have "do_fork dev_kenv bl fl stack tf k = Ret (?k, pid (procs s p))"
      unfolding go k3(1) bind_outcome.simps prod.case q(1) v(1) [folded k4_def] g(1) [folded k5_def] Let_def k6_def [symmetric] using e(1,2) by simp
    moreover have "frames_ok (memory ?k) (F - {q, Suc q})" "pmm (memory ?k) = m" using q(3,4) by (simp_all add: t6 frames_ok_def)
    moreover have "\<exists>a. tf_at ?k p = Some a \<and> tframes ?k a = tf\<lparr>tf_regs := (tf_regs tf)\<lparr>reg_eax := 0\<rparr>, tf_esp := stack, tf_eflags := tf_eflags tf OR FL_IF\<rparr> \<and> ctx_esp (contexts ?k p) = a"
      by (simp add: k6_def copy_thread_def Let_def)
    ultimately show ?thesis using True e(3-8) s6 i6 v(2,3) q(2,5) t6(2) by (intro exI [of _ ?k] exI [of _ "pid (procs s p)"]) (simp, blast)
  qed
qed

subsection \<open>Switching to another process\<close>

lemma procs_inv_cong:
  assumes inv: "procs_inv t xs ch" and t: "proc_links t' = proc_links t" "hash_links t' = hash_links t" "nr_process t' = nr_process t" "last_pid t' = last_pid t"
      "next_safe t' = next_safe t" "idleproc (sch t') = idleproc (sch t)"
    and same: "\<And>x. pid (proc_of t' x) = pid (proc_of t x) \<and> parent (proc_of t' x) = parent (proc_of t x) \<and> cptr (proc_of t' x) = cptr (proc_of t x) \<and>
       yptr (proc_of t' x) = yptr (proc_of t x) \<and> optr (proc_of t' x) = optr (proc_of t x)"
    and rq: "rq_holds (sch t') (ready (sch t'))" "current (sch t') \<in> live t xs" "state (proc_of t' (idleproc (sch t))) = PROC_RUNNABLE"
    and st: "\<And>x. state (proc_of t' x) = PROC_RUNNABLE \<Longrightarrow> x \<in> live t xs" "\<And>x. x \<in> set xs \<Longrightarrow> state (proc_of t' x) = PROC_ZOMBIE \<Longrightarrow> ch x = []"
  shows "procs_inv t' xs ch"
proof -
  have "table_inv t' xs" by (rule table_inv_cong [OF procs_invD(1) [OF inv] t(1-5)]) (simp add: same)
  moreover have "tree_inv t' xs ch" by (rule tree_inv_cong [OF procs_invD(2) [OF inv] t(6)]) (simp add: same)
  ultimately show ?thesis using rq st t(6) by (simp add: procs_inv_def)
qed

lemma kschedule_ok:
  assumes inv: "procs_inv (tab k) xs ch"
  shows "\<exists>k'. kschedule default_sched_class k = Ret k' \<and> procs_inv (tab k') xs ch \<and> state (kproc k' (kcurrent k')) = PROC_RUNNABLE \<and>
     (\<forall>x. same_ident (kproc k x) (kproc k' x) \<and> state (kproc k' x) = state (kproc k x) \<and> wait_state (kproc k' x) = wait_state (kproc k x)) \<and>
     initproc (tab k') = initproc (tab k) \<and> nr_process (tab k') = nr_process (tab k) \<and> idleproc (sch (tab k')) = idleproc (sch (tab k)) \<and>
     pmm (memory k') = pmm (memory k) \<and> npage (memory k') = npage (memory k) \<and> vm (memory k') = vm (memory k) \<and> frames (memory k') = frames (memory k) \<and>
     files (vfs k') = files (vfs k) \<and> inodes (vfs k') = inodes (vfs k) \<and> cur_files (vfs k') = filesp (kproc k' (kcurrent k'))"
proof -
  note I = procs_invD [OF inv]
  from stride.schedule_ready [OF I(3)] obtain s where s: "schedule default_sched_class (sch (tab k)) = Ret s" "rq_holds s (ready s)" "idleproc s = idleproc (sch (tab k))"
     "\<And>q. state (procs s q) = state (kproc k q)"
     "current s \<in> (if \<exists>q. q \<noteq> idleproc (sch (tab k)) \<and> state (kproc k q) = PROC_RUNNABLE
                     then {q. q \<noteq> idleproc (sch (tab k)) \<and> state (kproc k q) = PROC_RUNNABLE} else {idleproc (sch (tab k))})"
     "\<And>q. same_ident (kproc k q) (procs s q)" "\<And>q. wait_state (procs s q) = wait_state (kproc k q)" by blast
  define k1 where "k1 = k\<lparr>tab := (tab k)\<lparr>sch := s\<rparr>\<rparr>"
  define k2 where "k2 = (if current s \<noteq> kcurrent k then lcr3 k1 (cpu_cr3 s) else k1)"
  define k' where "k' = k2\<lparr>vfs := (vfs k2)\<lparr>cur_files := filesp (kproc k2 (current s))\<rparr>\<rparr>"
  have k': "proc_links (tab k') = proc_links (tab k)" "hash_links (tab k') = hash_links (tab k)" "nr_process (tab k') = nr_process (tab k)"
    "last_pid (tab k') = last_pid (tab k)" "next_safe (tab k') = next_safe (tab k)" "initproc (tab k') = initproc (tab k)"
    "idleproc (sch (tab k')) = idleproc (sch (tab k))" "current (sch (tab k')) = current s" "procs (sch (tab k')) = procs s" "pool (sch (tab k')) = pool s" "rq (sch (tab k')) = rq s"
    "pmm (memory k') = pmm (memory k)" "npage (memory k') = npage (memory k)" "vm (memory k') = vm (memory k)" "frames (memory k') = frames (memory k)"
    "files (vfs k') = files (vfs k)" "inodes (vfs k') = inodes (vfs k)" "cur_files (vfs k') = filesp (procs s (current s))"
    using s(3) by (simp_all add: k'_def k2_def k1_def lcr3_def)
  have rd: "ready (sch (tab k')) = ready s" unfolding ready_def k'(7-9) s(3) ..
  have run: "state (procs s (current s)) = PROC_RUNNABLE" using s(4,5) I(7) by (auto split: if_splits)
  have "procs_inv (tab k') xs ch"
    by (rule procs_inv_cong [OF inv k'(1-5,7)])
      (use s(4) same_ident_sel [OF s(6)] stride.holds_frame [OF s(2) k'(10,11)] run I(5,6,7) in \<open>simp_all add: k' rd\<close>)
  moreover have "kschedule default_sched_class k = Ret k'"
    unfolding kschedule_def s(1) bind_outcome.simps Let_def k1_def [symmetric] k2_def [symmetric] k'_def [symmetric] ..
  ultimately show ?thesis using s(4,6,7) run by (intro exI [of _ k']) (simp add: k')
qed

text \<open>A process that blocks leaves the table as it is.\<close>

lemma block_inv:
  assumes inv: "procs_inv t xs ch" and c: "current (sch t) \<noteq> idleproc (sch t)" and f: "\<And>x. state (f x) = PROC_SLEEPING"
    "\<And>x. pid (f x) = pid x \<and> parent (f x) = parent x \<and> cptr (f x) = cptr x \<and> yptr (f x) = yptr x \<and> optr (f x) = optr x"
  shows "procs_inv (set_proc (current (sch t)) f t) xs ch"
  by (rule procs_inv_cong [OF inv])
    (use procs_invD [OF inv] c f stride.block_ready [OF procs_invD(3) [OF inv], of f] in \<open>auto split: if_splits\<close>)

subsection \<open>Waiting for a child\<close>

lemma scan_zombie_chain:
  assumes "sib_chain P y cs"
  shows "scan_zombie P (first_link cs) = Some (find (\<lambda>p. state (P p) = PROC_ZOMBIE) cs)"
  using assms
proof (induction cs arbitrary: y)
  case Nil
  show ?case by (subst scan_zombie.simps) simp
next
  case (Cons c cs)
  then show ?case using Cons.IH [of "Some c"] by (subst scan_zombie.simps) simp
qed

text \<open>The child that \<open>wait(d)\<close> reaps, when there is one.\<close>

definition wanted :: "proc_table \<Rightarrow> int \<Rightarrow> proc_ptr \<Rightarrow> bool" where
  "wanted t d p \<longleftrightarrow> d = 0 \<or> pid (proc_of t p) = d"

lemma wait_target_ok:
  assumes inv: "procs_inv t xs ch"
  shows "wait_target t d = Ret (\<exists>p \<in> set (ch (current (sch t))). wanted t d p,
     find (\<lambda>p. wanted t d p \<and> state (proc_of t p) = PROC_ZOMBIE) (ch (current (sch t))))"
proof -
  note I = procs_invD [OF inv] and D = tree_invD [OF procs_invD(2) [OF inv]]
  let ?c = "current (sch t)" and ?Z = "\<lambda>p. wanted t d p \<and> state (proc_of t p) = PROC_ZOMBIE"
  have ch: "set (ch ?c) = {p \<in> set xs. parent (proc_of t p) = Some ?c}" by (rule D(6) [OF I(4)])
  have cp: "cptr (proc_of t ?c) = first_link (ch ?c)" by (rule D(3) [OF I(4)])
  show ?thesis
  proof (cases "d = 0")
    case True
    have "(cptr (proc_of t ?c) \<noteq> None) = (\<exists>p. p \<in> set (ch ?c))" using cp by (cases "ch ?c") auto
    then show ?thesis using True cp scan_zombie_chain [OF D(4) [OF I(4)]] by (simp add: wait_target_def wanted_def Bex_def Let_def)
  next
    case False
    have one: "p = q" if "p \<in> set xs" "q \<in> set xs" "pid (proc_of t p) = d" "pid (proc_of t q) = d" for p q
      using table_invD(2) [OF I(1)] that by (auto simp: inj_on_def)
    show ?thesis
    proof (cases "\<exists>p \<in> set xs. pid (proc_of t p) = d")
      case no: False
      then have "\<not> (\<exists>p \<in> set (ch ?c). wanted t d p)" "find ?Z (ch ?c) = None" using ch False by (auto simp: wanted_def find_None_iff)
      then show ?thesis using False no find_proc_ok [OF I(1), of d] by (simp add: wait_target_def)
    next
      case True
      then obtain p where p: "p \<in> set xs" "pid (proc_of t p) = d" by blast
      have "(THE p. p \<in> set xs \<and> pid (proc_of t p) = d) = p" using one p by (intro the_equality) auto
      then have fp: "find_proc t d = Ret (Some p)" using True find_proc_ok [OF I(1), of d] by simp
      have w: "wanted t d q \<longleftrightarrow> q = p" if "q \<in> set (ch ?c)" for q using that ch one [of q p] p False by (auto simp: wanted_def)
      have "find ?Z (ch ?c) = (if p \<in> set (ch ?c) \<and> state (proc_of t p) = PROC_ZOMBIE then Some p else None)"
      proof (cases "find ?Z (ch ?c)")
        case None
        then show ?thesis using w by (auto simp: find_None_iff)
      next
        case (Some q)
        then have "q \<in> set (ch ?c)" "?Z q" by (auto simp: find_Some_iff)
        then show ?thesis using w Some by auto
      qed
      moreover have "(\<exists>q \<in> set (ch ?c). wanted t d q) \<longleftrightarrow> p \<in> set (ch ?c)" using w by auto
      moreover have "p \<in> set (ch ?c) \<longleftrightarrow> parent (proc_of t p) = Some ?c" using ch p by simp
      ultimately show ?thesis using False fp by (simp add: wait_target_def)
    qed
  qed
qed

text \<open>The kernel stack of a process, two pages that nobody else holds.\<close>

definition stack_at :: "'s kernel \<Rightarrow> proc_ptr \<Rightarrow> nat set \<Rightarrow> nat \<Rightarrow> bool" where
  "stack_at k p F q \<longleftrightarrow> kstack (kproc k p) = kva_of q \<and> pmm_owned (pmm (memory k)) q KSTACKPAGE \<and> {q, Suc q} \<inter> F = {} \<and> Suc q < unat (npage (memory k))"

lemma wait_reaps:
  assumes inv: "procs_inv (tab k) xs ch" and F: "frames_ok (memory k) F"
    and z: "find (\<lambda>p. wanted (tab k) d p \<and> state (kproc k p) = PROC_ZOMBIE) (ch (kcurrent k)) = Some p"
    and ip: "initproc (tab k) \<noteq> Some p" and stk: "stack_at k p F q" and cz: "state (kproc k (kcurrent k)) \<noteq> PROC_ZOMBIE"
  shows "\<exists>k'. do_wait_pass dev_kenv d store k = Ret (k', Returned 0 (if store \<noteq> 0 then Some (store, exit_code (kproc k p)) else None)) \<and>
     procs_inv (tab k') (remove1 p xs) (ch(kcurrent k := remove1 p (ch (kcurrent k)))) \<and> frames_ok (memory k') (F \<union> {q, Suc q}) \<and>
     vfs k' = vfs k \<and> kcurrent k' = kcurrent k \<and> find_proc (tab k') (pid (kproc k p)) = Ret None"
proof -
  note I = procs_invD [OF inv] and D = tree_invD [OF procs_invD(2) [OF inv]]
  let ?c = "kcurrent k" and ?ch = "ch(kcurrent k := remove1 p (ch (kcurrent k)))"
  from z have zp: "p \<in> set (ch ?c)" "state (kproc k p) = PROC_ZOMBIE" by (auto simp: find_Some_iff)
  then have p: "p \<in> set xs" "parent (kproc k p) = Some ?c" using D(6) [OF I(4)] by auto
  have pn: "p \<noteq> idleproc (sch (tab k))" "p \<noteq> ?c" using D(1) p(1) zp(2) cz by auto
  have cp: "ch p = []" by (rule I(6) [OF p(1) zp(2)])
  from drop_proc_ok [OF I(1,2) p(1) cp p(2)] obtain t' where t': "drop_proc (tab k) p = Ret t'" "table_inv t' (remove1 p xs)" "tree_inv t' (remove1 p xs) ?ch"
    "sch t' = (sch (tab k))\<lparr>procs := procs (sch t')\<rparr>" "\<forall>x. \<exists>c y o'. proc_of t' x = (kproc k x)\<lparr>cptr := c, yptr := y, optr := o'\<rparr>" by blast
  have st: "state (proc_of t' x) = state (kproc k x)" "kstack (proc_of t' x) = kstack (kproc k x)" "pid (proc_of t' x) = pid (kproc k x)" for x
    using spec [OF t'(5), of x] by auto
  have sc: "current (sch t') = ?c" "idleproc (sch t') = idleproc (sch (tab k))" "pool (sch t') = pool (sch (tab k))" "rq (sch t') = rq (sch (tab k))"
    by (subst t'(4), simp)+
  have ds: "distinct xs" by (rule table_invD(7) [OF I(1)])
  have "ready (sch t') = ready (sch (tab k))" unfolding ready_def st sc ..
  then have "rq_holds (sch t') (ready (sch t'))" using stride.holds_frame [OF I(3) sc(3,4)] by simp
  moreover have "current (sch t') \<in> live t' (remove1 p xs)" using I(4) sc pn ds by auto
  moreover have "x \<in> live t' (remove1 p xs)" if "state (proc_of t' x) = PROC_RUNNABLE" for x using that I(5) [of x] st sc zp(2) ds by auto
  moreover have "?ch x = []" if "x \<in> set (remove1 p xs)" "state (proc_of t' x) = PROC_ZOMBIE" for x
    using that I(6) [of x] st cz ds by auto
  ultimately have inv': "procs_inv t' (remove1 p xs) ?ch" using t'(2,3) I(7) st sc by (simp add: procs_inv_def)
  have "pid (kproc k p) \<notin> pids t' (remove1 p xs)"
  proof
    assume "pid (kproc k p) \<in> pids t' (remove1 p xs)"
    then obtain r where "r \<in> set xs" "r \<noteq> p" "pid (kproc k r) = pid (kproc k p)" using ds unfolding pids_def st set_remove1_eq [OF ds] by fastforce
    then show False using table_invD(2) [OF I(1)] p(1) by (auto simp: inj_on_def)
  qed
  then have "\<not> (\<exists>r \<in> set (remove1 p xs). pid (proc_of t' r) = pid (kproc k p))" unfolding pids_def by (metis (no_types, lifting) imageI)
  then have gone: "find_proc t' (pid (kproc k p)) = Ret None" using find_proc_ok [OF t'(2), of "pid (kproc k p)"] by simp
  have s: "kstack (kproc (k\<lparr>tab := t'\<rparr>) p) = kva_of q" "pmm_owned (pmm (memory (k\<lparr>tab := t'\<rparr>))) q KSTACKPAGE" "{q, Suc q} \<inter> F = {}" "Suc q < unat (npage (memory (k\<lparr>tab := t'\<rparr>)))"
    "frames_ok (memory (k\<lparr>tab := t'\<rparr>)) F" using stk F st by (simp_all add: stack_at_def)
  from put_kstack_ok [OF s(5,1-4)] obtain m where m: "put_kstack default_pmm_manager (k\<lparr>tab := t'\<rparr>) p = Ret (k\<lparr>tab := t', memory := (memory k)\<lparr>pmm := m\<rparr>\<rparr>)"
    "frames_ok ((memory k)\<lparr>pmm := m\<rparr>) (F \<union> {q, Suc q})" by auto
  have "do_wait_pass dev_kenv d store k = Ret (k\<lparr>tab := t', memory := (memory k)\<lparr>pmm := m\<rparr>\<rparr>, Returned 0 (if store \<noteq> 0 then Some (store, exit_code (kproc k p)) else None))"
    using wait_target_ok [OF inv, of d] z ip pn t'(1) m(1) by (simp add: do_wait_pass_def)
  then show ?thesis using inv' m(2) gone sc by (intro exI) (auto intro: exI)
qed

lemma wait_none:
  assumes inv: "procs_inv (tab k) xs ch" and no: "\<not> (\<exists>p \<in> set (ch (kcurrent k)). wanted (tab k) d p)"
  shows "do_wait_pass dev_kenv d store k = Ret (k, Returned (- E_BAD_PROC) None)"
proof -
  have "find (\<lambda>p. wanted (tab k) d p \<and> state (kproc k p) = PROC_ZOMBIE) (ch (kcurrent k)) = None" using no by (auto simp: find_None_iff)
  then show ?thesis using no wait_target_ok [OF inv, of d] by (simp add: do_wait_pass_def)
qed

lemma wait_blocks:
  assumes inv: "procs_inv (tab k) xs ch" and some: "\<exists>p \<in> set (ch (kcurrent k)). wanted (tab k) d p"
    and none: "find (\<lambda>p. wanted (tab k) d p \<and> state (kproc k p) = PROC_ZOMBIE) (ch (kcurrent k)) = None" and c: "kcurrent k \<noteq> idleproc (sch (tab k))"
  shows "\<exists>k'. do_wait_pass dev_kenv d store k = Ret (k', Switched) \<and> procs_inv (tab k') xs ch \<and>
     state (kproc k' (kcurrent k)) = PROC_SLEEPING \<and> wait_state (kproc k' (kcurrent k)) = WT_CHILD \<and> state (kproc k' (kcurrent k')) = PROC_RUNNABLE"
proof -
  let ?f = "\<lambda>x. x\<lparr>state := PROC_SLEEPING, wait_state := WT_CHILD\<rparr>" and ?k = "upd_kproc (kcurrent k) (\<lambda>x. x\<lparr>state := PROC_SLEEPING, wait_state := WT_CHILD\<rparr>) k"
  have "procs_inv (tab ?k) xs ch" using block_inv [OF inv c, of ?f] by simp
  from kschedule_ok [OF this] obtain k' where k': "kschedule default_sched_class ?k = Ret k'" "procs_inv (tab k') xs ch" "state (kproc k' (kcurrent k')) = PROC_RUNNABLE"
     "\<forall>x. same_ident (kproc ?k x) (kproc k' x) \<and> state (kproc k' x) = state (kproc ?k x) \<and> wait_state (kproc k' x) = wait_state (kproc ?k x)" by blast
  have "do_wait_pass dev_kenv d store k = Ret (k', Switched)" using wait_target_ok [OF inv, of d] some none k'(1) by (simp add: do_wait_pass_def)
  then show ?thesis using k'(2,3,4) by (intro exI [of _ k']) simp
qed

end
