(* ===== verification/ProcExit.thy ===== *)
theory ProcExit
  imports ProcLife
begin

text \<open>
  \<open>do_exit\<close>: the address space and the descriptor table are released, the parent is woken when it
  waits for a child, the children go to \<open>initproc\<close>, and another process runs.
\<close>

subsection \<open>Telling the parent, giving the children away\<close>

lemma exit_notify_ok:
  fixes t0 :: proc_table
  defines "c \<equiv> current (sch t0)"
  assumes inv: "procs_inv t0 xs ch" and c: "c \<in> set xs" and i: "initproc t0 = Some i" "i \<in> set xs" "i \<noteq> c" "parent (proc_of t0 i) = Some (idleproc (sch t0))"
      "state (proc_of t0 i) \<noteq> PROC_ZOMBIE" and par: "parent (proc_of t0 c) = Some q"
    and t: "t = set_proc c (\<lambda>x. x\<lparr>state := PROC_ZOMBIE, exit_code := e\<rparr>) t0"
  shows "\<exists>t'. exit_notify default_sched_class t = Ret t' \<and> procs_inv t' xs (ch(c := [], i := rev (ch c) @ ch i)) \<and>
     (\<forall>x. same_but_links (proc_of t x) (proc_of t' x)) \<and> state (proc_of t' c) = PROC_ZOMBIE \<and> current (sch t') = c \<and> idleproc (sch t') = idleproc (sch t0) \<and>
     initproc t' = Some i \<and> nr_process t' = nr_process t0 \<and> (wait_state (proc_of t0 q) = WT_CHILD \<longrightarrow> state (proc_of t' q) = PROC_RUNNABLE)"
proof -
  note I = procs_invD [OF inv] and D = tree_invD [OF procs_invD(2) [OF inv]]
  let ?L = "live t0 xs"
  obtain q: "q \<in> ?L" "q \<noteq> c" using D(2) [OF c] par by auto
  have sel: "current (sch t) = c" "idleproc (sch t) = idleproc (sch t0)" "initproc t = Some i" "nr_process t = nr_process t0" "parent (proc_of t c) = Some q"
    "\<And>x. x \<noteq> c \<Longrightarrow> proc_of t x = proc_of t0 x" "state (proc_of t c) = PROC_ZOMBIE" using t i(1) par by (simp_all add: c_def)
  have ti: "table_inv t xs" by (rule table_inv_cong [OF I(1)]) (simp_all add: t)
  have tr: "tree_inv t xs ch" by (rule tree_inv_cong [OF I(2)]) (simp_all add: t)
  have hs: "rq_holds (sch t) (ready (sch t))"
    using stride.block_ready [OF I(3), of "\<lambda>x. x\<lparr>state := PROC_ZOMBIE, exit_code := e\<rparr>"] by (simp add: t c_def)
  have "c \<in> set (ch q)" using D(6) [OF q(1)] c par by auto
  then have qz: "state (proc_of t q) \<noteq> PROC_ZOMBIE" using I(6) [of q] I(7) q sel(6) by auto
  obtain s where s: "(if wait_state (proc_of t q) = WT_CHILD then wakeup_proc default_sched_class (sch t) q else Ret (sch t)) = Ret s"
    "rq_holds s (ready s)" "current s = c" "idleproc s = idleproc (sch t0)" "\<And>x. same_ident (proc_of t x) (procs s x)"
    "\<And>x. state (procs s x) = state (proc_of t x) \<or> x = q \<and> state (procs s x) = PROC_RUNNABLE" "wait_state (proc_of t q) = WT_CHILD \<Longrightarrow> state (procs s q) = PROC_RUNNABLE"
  proof (cases "wait_state (proc_of t q) = WT_CHILD")
    case True
    from stride.wakeup_ident [OF hs qz] obtain s where w: "wakeup_proc default_sched_class (sch t) q = Ret s" "rq_holds s (ready s)" "current s = current (sch t)"
      "idleproc s = idleproc (sch t)" "state (procs s q) = PROC_RUNNABLE" "\<forall>x. same_ident (proc_of t x) (procs s x)"
      "\<forall>x. x \<noteq> q \<longrightarrow> state (procs s x) = state (proc_of t x) \<and> wait_state (procs s x) = wait_state (proc_of t x)" by blast
    have "state (procs s x) = state (proc_of t x) \<or> x = q \<and> state (procs s x) = PROC_RUNNABLE" for x using w(5,7) by (cases "x = q") auto
    then show ?thesis by (intro that [of s]) (use w(1-6) sel(1,2) True in auto)
  next
    case False
    then show ?thesis by (intro that [of "sch t"]) (use hs sel in auto)
  qed
  note id = same_ident_sel [OF s(5)]
  let ?t1 = "t\<lparr>sch := s\<rparr>"
  have ti1: "table_inv ?t1 xs" by (rule table_inv_cong [OF ti]) (simp_all add: id)
  have "tree_inv ?t1 xs ch" by (rule tree_inv_cong [OF tr]) (simp_all add: id s(4) sel(2))
  note tr1 = tree_exit_start [OF this, of c]
  have iz: "state (procs s i) \<noteq> PROC_ZOMBIE" using s(6) [of i] i(3,5) sel(6) by auto
  have ic: "i \<notin> set (ch c)" using D(6) [of c] c i(4) D(1) by auto
  have L: "c \<in> insert (idleproc (sch ?t1)) (set xs)" "i \<in> insert (idleproc (sch ?t1)) (set xs)" "initproc ?t1 = Some i" "rq_holds (sch ?t1) (ready (sch ?t1))"
    "state (proc_of ?t1 i) \<noteq> PROC_ZOMBIE" using c i s(2) sel(3) iz by simp_all
  from stride.move_children_ok [OF tr1 ti1 L(4,1,3,2) i(3) ic L(5)] obtain t' where t': "move_children default_sched_class ?t1 c = Some (Ret t')"
    "tree_inv t' xs (ch(c := [], i := rev (ch c) @ ch i))" "table_inv t' xs" "rq_holds (sch t') (ready (sch t'))" "t' = ?t1\<lparr>sch := sch t'\<rparr>"
    "current (sch t') = current (sch ?t1)" "idleproc (sch t') = idleproc (sch ?t1)" "\<forall>x. same_but_links (proc_of ?t1 x) (proc_of t' x)"
    "\<forall>x. x \<noteq> i \<longrightarrow> state (proc_of t' x) = state (proc_of ?t1 x) \<and> wait_state (proc_of t' x) = wait_state (proc_of ?t1 x)"
    "if wait_state (proc_of ?t1 i) = WT_CHILD \<and> (\<exists>p \<in> set (ch c). state (proc_of ?t1 p) = PROC_ZOMBIE) then state (proc_of t' i) = PROC_RUNNABLE
      else state (proc_of t' i) = state (proc_of ?t1 i) \<and> wait_state (proc_of t' i) = wait_state (proc_of ?t1 i)" by blast
  have st: "state (proc_of t' x) = state (procs s x) \<or> x = i \<and> state (proc_of t' x) = PROC_RUNNABLE" for x
    using t'(9,10) by (cases "x = i") (auto split: if_splits)
  have st0: "state (proc_of t' x) = state (proc_of t x) \<or> x \<in> {i, q} \<and> state (proc_of t' x) = PROC_RUNNABLE" for x using st [of x] s(6) [of x] by auto
  have inv': "procs_inv t' xs (ch(c := [], i := rev (ch c) @ ch i))"
  proof -
    have "x \<in> live t' xs" if "state (proc_of t' x) = PROC_RUNNABLE" for x
    proof (cases "x \<in> {c, i, q}")
      case True
      then show ?thesis using c i(2) q(1) t'(7) s(4) by auto
    next
      case False
      then show ?thesis using st0 [of x] that I(5) [of x] sel(6) t'(7) s(4) by auto
    qed
    moreover have "(ch(c := [], i := rev (ch c) @ ch i)) x = []" if x: "x \<in> set xs" "state (proc_of t' x) = PROC_ZOMBIE" for x
    proof -
      have "x \<noteq> i" using st [of i] iz x by auto
      moreover have "state (proc_of t x) = PROC_ZOMBIE" using st0 [of x] x by auto
      ultimately show ?thesis using I(6) [OF x(1)] sel(6) [of x] by (cases "x = c") auto
    qed
    moreover have "idleproc (sch t0) \<noteq> c" using D(1) c by auto
    then have "state (proc_of t' (idleproc (sch t'))) = PROC_RUNNABLE"
      using st0 [of "idleproc (sch t0)"] I(7) sel(6) t'(7) s(4) by auto
    moreover have "current (sch t') \<in> live t' xs" using t'(6) s(3) c by simp
    ultimately show ?thesis using t'(2-4) by (simp add: procs_inv_def)
  qed
  have run: "exit_notify default_sched_class t = Ret t'" using sel(1,5) s(1,3) t'(1) by (simp add: exit_notify_def)
  have same: "same_but_links (proc_of t x) (proc_of t' x)" for x
    using s(5) [of x] spec [OF t'(8), of x] unfolding same_but_links_def same_ident_def by (cases "proc_of t x"; cases "procs s x"; cases "proc_of t' x") simp
  have cz: "state (proc_of t' c) = PROC_ZOMBIE" using st [of c] s(6) [of c] i(3) q(2) sel(7) by auto
  have wq: "state (proc_of t' q) = PROC_RUNNABLE" if "wait_state (proc_of t0 q) = WT_CHILD" using that s(7) sel(6) q(2) st [of q] by auto
  have fi: "initproc t' = Some i" "nr_process t' = nr_process t0" using sel by (subst t'(5), simp)+
  show ?thesis by (intro exI [of _ t'] conjI allI impI) (use run inv' same cz t'(6,7) s(3,4) fi wq in simp_all)
qed

subsection \<open>Releasing an address space\<close>

lemma mem_inv_cong:
  assumes "pmm s' = pmm s" "frames s' = frames s" "npage s' = npage s"
  shows "pt_inv fs ow F D x s' = pt_inv fs ow F D x s"
  by (simp add: pt_inv_def assms frames_inv [OF assms(2)] page_ref_def)

context frame_allocator
begin

lemma free_directory:
  assumes inv: "pt_inv fs ow F D (\<lambda>_. 0) s" and d: "d \<in> D" "\<forall>i < 704. \<not> present (frames s d i)"
  shows "\<exists>m. free_page pm s d = Ret (s\<lparr>pmm := m\<rparr>) \<and> pt_inv fs ow (insert d F) (D - {d}) (\<lambda>_. 0) (s\<lparr>pmm := m\<rparr>)"
proof -
  note I = pt_invD [OF inv]
  have dn: "d \<notin> F" "d \<notin> tables s D" "d \<notin> mapped s D" "ow (pmm s) d 1" "d < unat (npage s)" using d(1) I(5,6,9,11,12) by auto
  from free_page_ok [OF I(1) dn(4,1)] obtain m where m: "free_page pm s d = Ret (s\<lparr>pmm := m\<rparr>)" "fs m (insert d F)"
    "\<forall>q. q \<notin> insert d F \<longrightarrow> ow (pmm s) q 1 \<longrightarrow> ow m q 1" "\<forall>q. ref (pages m q) = (if q = d then 0 else ref (pages (pmm s) q))" by blast
  have tb: "tabs s (D - {d}) = tabs s D" using d(2) by (auto simp: tabs_def)
  then have tt: "tables s (D - {d}) = tables s D" "slots s (D - {d}) = slots s D" by (auto simp: tables_def slots_def fun_eq_iff)
  then have mp: "mapped s (D - {d}) = mapped s D" by (simp add: mapped_def)
  have fr: "frames (s\<lparr>pmm := m\<rparr>) = frames s" by simp
  have z: "page_ref s d = 0" using I(13) dn(2,3) by (simp add: mapped_def)
  have "pt_inv fs ow (insert d F) (D - {d}) (\<lambda>_. 0) (s\<lparr>pmm := m\<rparr>)"
    unfolding pt_inv_def frames_inv [OF fr] tb tt mp
  proof (intro conjI)
    show "\<forall>p \<in> D - {d} \<union> tables s D \<union> mapped s D. ow (pmm (s\<lparr>pmm := m\<rparr>)) p 1"
      using m(3) I(6,9,11,12) dn by auto
    show "\<forall>p. p \<notin> tables s D \<longrightarrow> page_ref (s\<lparr>pmm := m\<rparr>) p = int (card (slots s D p)) + 0"
      using I(13) m(4) z by (auto simp: page_ref_def)
  qed (use I m(2) dn in auto)
  then show ?thesis using m(1) by blast
qed

end

text \<open>An address space whose pages and page tables all lie under its areas.\<close>

definition mm_space :: "mem_state \<Rightarrow> nat set \<Rightarrow> nat \<Rightarrow> nat list \<Rightarrow> nat \<Rightarrow> bool" where
  "mm_space s D m vs d \<longleftrightarrow> mm_vmas (vm s) m vs \<and> pgdir (mms (vm s) m) = Some d \<and> d \<in> D \<and> (\<forall>v \<in> set vs. user_area (vmas (vm s) v)) \<and>
     (\<forall>la < USERTOP. present (pte s d la) \<longrightarrow> (\<exists>v \<in> set vs. in_vma (vmas (vm s) v) la)) \<and>
     (\<forall>i < 704. present (frames s d i) \<longrightarrow> (d, i) \<in> (\<Union>v \<in> set vs. area_dirs d (vmas (vm s) v)))"

abbreviation dpt_inv :: "nat set \<Rightarrow> nat set \<Rightarrow> mem_state \<Rightarrow> bool" where
  "dpt_inv F D s \<equiv> pt_inv pmm_free pmm_owned F D (\<lambda>_. 0) s"

lemma release_mm_ok:
  assumes inv: "dpt_inv F D (memory k)" and np: "unat (npage (memory k)) \<le> KMEM_PAGES"
    and m: "mm_space (memory k) D m vs d" "mm_count (mms (vm (memory k)) m) = 0"
  shows "\<exists>s' F'. release_mm dev_kenv k m = Ret (k\<lparr>memory := s'\<rparr>) \<and> dpt_inv F' (D - {d}) s' \<and> insert d F \<subseteq> F' \<and> npage s' = npage (memory k)"
proof -
  let ?s = "memory k"
  have M: "mm_vmas (vm ?s) m vs" "pgdir (mms (vm ?s) m) = Some d" "d \<in> D" "\<forall>v \<in> set vs. user_area (vmas (vm ?s) v)"
    "\<forall>la < USERTOP. present (pte ?s d la) \<longrightarrow> (\<exists>v \<in> set vs. in_vma (vmas (vm ?s) v) la)"
    "\<forall>i < 704. present (frames ?s d i) \<longrightarrow> (d, i) \<in> (\<Union>v \<in> set vs. area_dirs d (vmas (vm ?s) v))" using m(1) by (simp_all add: mm_space_def)
  let ?U = "\<Union>v \<in> set vs. area_dirs d (vmas (vm ?s) v)"
  from frames.exit_mmap_ok [OF inv M(1,2) m(2) M(3-5), of swap_manager_fifo] obtain s1 where s1: "exit_mmap default_pmm_manager swap_manager_fifo ?s m = Ret s1"
     "dpt_inv (F \<union> (mapped ?s D - mapped s1 D) \<union> table ?s ` (tabs ?s D \<inter> ?U)) D s1" "tabs s1 D = tabs ?s D - ?U" "rest_same ?s s1" by blast
  note R = rest_sameD [OF s1(4)]
  have "\<forall>i < 704. \<not> present (frames s1 d i)"
  proof (intro allI impI notI)
    fix i :: nat assume "i < 704" "present (frames s1 d i)"
    then have "(d, i) \<in> tabs s1 D" using M(3) by (simp add: tabs_def)
    then have "(d, i) \<in> tabs ?s D" "(d, i) \<notin> ?U" using s1(3) by simp_all
    then show False using M(6) by (auto simp: tabs_def)
  qed
  from frames.free_directory [OF s1(2) M(3) this] obtain pm where pm: "free_page default_pmm_manager s1 d = Ret (s1\<lparr>pmm := pm\<rparr>)"
    "dpt_inv (insert d (F \<union> (mapped ?s D - mapped s1 D) \<union> table ?s ` (tabs ?s D \<inter> ?U))) (D - {d}) (s1\<lparr>pmm := pm\<rparr>)" by blast
  have "d < unat (npage ?s)" using pt_invD(5) [OF inv] M(3) by auto
  then have kv: "kva2page s1 (kva_of d) = Ret d" using kva_page(2) [of d s1] np R(1) by simp
  have v1: "mm_vmas (vm (s1\<lparr>pmm := pm\<rparr>)) m vs" "mm_count (mms (vm (s1\<lparr>pmm := pm\<rparr>)) m) = 0" using M(1) m(2) R(3) by simp_all
  from mm_destroy_spec [OF v1] obtain w where w: "mm_destroy (vm (s1\<lparr>pmm := pm\<rparr>)) m = Ret (w, vs)" by blast
  let ?s' = "s1\<lparr>pmm := pm, vm := w\<rparr>"
  have "release_mm dev_kenv k m = Ret (k\<lparr>memory := ?s'\<rparr>)"
    using s1(1) kv pm(1) w M(2) R(3) by (simp add: release_mm_def put_pgdir_def kmm_destroy_def)
  moreover have "dpt_inv (insert d (F \<union> (mapped ?s D - mapped s1 D) \<union> table ?s ` (tabs ?s D \<inter> ?U))) (D - {d}) ?s'"
    using pm(2) mem_inv_cong [of ?s' "s1\<lparr>pmm := pm\<rparr>"] by simp
  ultimately show ?thesis using R(1) by (intro exI [of _ ?s'] exI) (rule conjI, assumption, rule conjI, assumption, auto)
qed

definition releasable :: "'s kernel \<Rightarrow> nat set \<Rightarrow> bool" where
  "releasable k D \<longleftrightarrow> (case mm (kproc k (kcurrent k)) of None \<Rightarrow> True
     | Some m \<Rightarrow> mm_count (mms (vm (memory k)) m) \<noteq> 1 \<or> (\<exists>vs d. mm_space (memory k) D m vs d))"

lemma exit_mm_ok:
  assumes inv: "dpt_inv F D (memory k)" and np: "unat (npage (memory k)) \<le> KMEM_PAGES" and rel: "releasable k D"
  shows "\<exists>k1 F' D'. exit_mm dev_kenv k = Ret k1 \<and> dpt_inv F' D' (memory k1) \<and> F \<subseteq> F' \<and> npage (memory k1) = npage (memory k) \<and>
     (\<forall>m d. mm (kproc k (kcurrent k)) = Some m \<longrightarrow> mm_count (mms (vm (memory k)) m) = 1 \<longrightarrow> pgdir (mms (vm (memory k)) m) = Some d \<longrightarrow> d \<in> F' \<and> D' = D - {d}) \<and>
     vfs k1 = vfs k \<and> (\<exists>a. tab k1 = set_proc (kcurrent k) (mm_update (\<lambda>_. None)) ((tab k)\<lparr>sch := (sch (tab k))\<lparr>cpu_cr3 := a\<rparr>\<rparr>))"
proof (cases "mm (kproc k (kcurrent k))")
  case None
  have "(tab k) = set_proc (kcurrent k) (mm_update (\<lambda>_. None)) ((tab k)\<lparr>sch := (sch (tab k))\<lparr>cpu_cr3 := cpu_cr3 (sch (tab k))\<rparr>\<rparr>)"
  proof -
    have "(kproc k (kcurrent k))\<lparr>mm := None\<rparr> = kproc k (kcurrent k)" using None by simp
    then show ?thesis by simp
  qed
  note eq = exI [where P = "\<lambda>a. tab k = set_proc (kcurrent k) (mm_update (\<lambda>_. None)) ((tab k)\<lparr>sch := (sch (tab k))\<lparr>cpu_cr3 := a\<rparr>\<rparr>)", OF this]
  have run: "exit_mm dev_kenv k = Ret k" using None by (simp add: exit_mm_def)
  show ?thesis
    by (rule exI [of _ k], rule exI [of _ F], rule exI [of _ D], intro conjI allI impI, rule run, rule inv) (use None eq in simp_all)
next
  case (Some m)
  let ?k1 = "upd_kmm m (mm_count_update (\<lambda>c. c - 1)) (lcr3 k (boot_cr3 k))"
  have mem: "pmm (memory ?k1) = pmm (memory k)" "frames (memory ?k1) = frames (memory k)" "npage (memory ?k1) = npage (memory k)" by (simp_all add: lcr3_def)
  have inv1: "dpt_inv F D (memory ?k1)" using inv mem_inv_cong [OF mem] by simp
  have cnt: "mm_count (mms (vm (memory ?k1)) m) = mm_count (mms (vm (memory k)) m) - 1" by (simp add: lcr3_def)
  have tb: "tab (upd_kproc (kcurrent k) (mm_update (\<lambda>_. None)) (?k1\<lparr>memory := s'\<rparr>)) =
     set_proc (kcurrent k) (mm_update (\<lambda>_. None)) ((tab k)\<lparr>sch := (sch (tab k))\<lparr>cpu_cr3 := boot_cr3 k\<rparr>\<rparr>)" for s' by (simp add: lcr3_def)
  have vf: "vfs (upd_kproc (kcurrent k) (mm_update (\<lambda>_. None)) (?k1\<lparr>memory := s'\<rparr>)) = vfs k" "kcurrent ?k1 = kcurrent k" for s' by (simp_all add: lcr3_def)
  have fin: ?thesis if run: "exit_mm dev_kenv k = Ret (upd_kproc (kcurrent k) (mm_update (\<lambda>_. None)) (?k1\<lparr>memory := s'\<rparr>))" (is "_ = Ret ?r")
    and r: "dpt_inv F' D' s'" "F \<subseteq> F'" "npage s' = npage (memory k)"
      "\<And>d. mm_count (mms (vm (memory k)) m) = 1 \<Longrightarrow> pgdir (mms (vm (memory k)) m) = Some d \<Longrightarrow> d \<in> F' \<and> D' = D - {d}" for s' F' D'
  proof (rule exI [of _ ?r], rule exI [of _ F'], rule exI [of _ D'], intro conjI)
    show "\<exists>a. tab ?r = set_proc (kcurrent k) (mm_update (\<lambda>_. None)) ((tab k)\<lparr>sch := (sch (tab k))\<lparr>cpu_cr3 := a\<rparr>\<rparr>)"
      by (rule exI [of _ "boot_cr3 k"]) (rule tb)
  qed (use run r vf(1) Some in auto)
  show ?thesis
  proof (cases "mm_count (mms (vm (memory k)) m) = 1")
    case False
    then have "exit_mm dev_kenv k = Ret (upd_kproc (kcurrent k) (mm_update (\<lambda>_. None)) (?k1\<lparr>memory := memory ?k1\<rparr>))"
      using Some cnt vf(2) by (simp add: exit_mm_def mm_count_dec_def Let_def)
    from fin [OF this inv1 order.refl mem(3)] False show ?thesis by blast
  next
    case True
    with rel Some obtain vs d where sp: "mm_space (memory k) D m vs d" by (auto simp: releasable_def)
    then have "mm_space (memory ?k1) D m vs d" unfolding mm_space_def mm_vmas_def pte_def table_def mem by (simp add: lcr3_def)
    from release_mm_ok [OF inv1 _ this] np cnt True mem(3) obtain s' F' where r: "release_mm dev_kenv ?k1 m = Ret (?k1\<lparr>memory := s'\<rparr>)"
      "dpt_inv F' (D - {d}) s'" "insert d F \<subseteq> F'" "npage s' = npage (memory k)" by auto
    have "exit_mm dev_kenv k = Ret (upd_kproc (kcurrent k) (mm_update (\<lambda>_. None)) (?k1\<lparr>memory := s'\<rparr>))"
      using Some cnt vf(2) True r(1) by (simp add: exit_mm_def mm_count_dec_def Let_def)
    moreover have "pgdir (mms (vm (memory k)) m) = Some d" using sp by (simp add: mm_space_def)
    ultimately show ?thesis using fin [OF _ r(2) _ r(4)] r(3) by auto
  qed
qed

subsection \<open>Leaving the descriptor table\<close>

lemma put_fs_ok:
  assumes inv: "dfiles_inv A B (vfs k)" and f: "filesp (kproc k p) = Some f" "f \<in> A" "f \<in> B"
  shows "\<exists>v. put_fs dev_kenv k p = Ret (k\<lparr>vfs := v\<rparr>) \<and>
     (if files_count (files (vfs k) f) = 1 then dfiles_inv A (B - {f}) v \<and> (\<forall>i < FILES_STRUCT_NENTRY. status (file_at v (f, i)) = FD_NONE)
      else dfiles_inv A B v \<and> files_count (files v f) = files_count (files (vfs k) f) - 1 \<and> inodes v = inodes (vfs k)) \<and>
     (\<forall>r i. r \<noteq> f \<longrightarrow> file_at v (r, i) = file_at (vfs k) (r, i))"
proof -
  let ?v = "upd_files f (files_count_update (\<lambda>c. c - 1)) (vfs k)"
  have fl: "file_at ?v = file_at (vfs k)" "inodes ?v = inodes (vfs k)" "files_count (files ?v f) = files_count (files (vfs k) f) - 1" by (auto simp: file_at_def)
  have i: "dfiles_inv A B ?v" using inv files_inv_cong [of ?v "vfs k"] by (auto simp: file_at_def)
  have run: "put_fs dev_kenv k p = (if files_count (files (vfs k) f) = 1 then bind_outcome (files_destroy dev_env ?v f) (\<lambda>v. Ret (k\<lparr>vfs := v\<rparr>)) else Ret (k\<lparr>vfs := ?v\<rparr>))"
    using f(1) by (simp add: put_fs_def files_count_dec_def Let_def)
  show ?thesis
  proof (cases "files_count (files (vfs k) f) = 1")
    case True
    from dev.files_destroy_ok [OF i f(2,3)] True obtain v where "files_destroy dev_env ?v f = Ret v" "dfiles_inv A (B - {f}) v"
      "\<forall>i < FILES_STRUCT_NENTRY. status (file_at v (f, i)) = FD_NONE" "\<forall>r i. r \<noteq> f \<longrightarrow> file_at v (r, i) = file_at ?v (r, i)" by auto
    then show ?thesis using True run fl(1) by (intro exI [of _ v]) simp
  next
    case False
    then show ?thesis using i run fl by (intro exI [of _ ?v]) simp
  qed
qed

subsection \<open>Exit\<close>

lemma do_exit_ok:
  assumes inv: "procs_inv (tab k) xs ch" and c: "kcurrent k = c" "c \<in> set xs"
    and i: "initproc (tab k) = Some i" "i \<in> set xs" "i \<noteq> c" "parent (kproc k i) = Some (idleproc (sch (tab k)))" "state (kproc k i) \<noteq> PROC_ZOMBIE"
    and par: "parent (kproc k c) = Some q" and mem: "dpt_inv F D (memory k)" "unat (npage (memory k)) \<le> KMEM_PAGES" "releasable k D"
    and fi: "dfiles_inv A B (vfs k)" "filesp (kproc k c) = Some f" "f \<in> A" "f \<in> B"
  shows "\<exists>k' F' D'. do_exit dev_kenv code k = Ret k' \<and> procs_inv (tab k') xs (ch(c := [], i := rev (ch c) @ ch i)) \<and>
     state (kproc k' c) = PROC_ZOMBIE \<and> exit_code (kproc k' c) = code \<and> mm (kproc k' c) = None \<and> pid (kproc k' c) = pid (kproc k c) \<and> kstack (kproc k' c) = kstack (kproc k c) \<and>
     (wait_state (kproc k q) = WT_CHILD \<longrightarrow> state (kproc k' q) = PROC_RUNNABLE) \<and>
     kcurrent k' \<noteq> c \<and> state (kproc k' (kcurrent k')) = PROC_RUNNABLE \<and>
     dpt_inv F' D' (memory k') \<and> F \<subseteq> F' \<and>
     (\<forall>m d. mm (kproc k c) = Some m \<longrightarrow> mm_count (mms (vm (memory k)) m) = 1 \<longrightarrow> pgdir (mms (vm (memory k)) m) = Some d \<longrightarrow> d \<in> F' \<and> D' = D - {d}) \<and>
     dfiles_inv A (if files_count (files (vfs k) f) = 1 then B - {f} else B) (vfs k') \<and>
     (files_count (files (vfs k) f) = 1 \<longrightarrow> (\<forall>j < FILES_STRUCT_NENTRY. status (file_at (vfs k') (f, j)) = FD_NONE)) \<and>
     (\<forall>r j. r \<noteq> f \<longrightarrow> file_at (vfs k') (r, j) = file_at (vfs k) (r, j))"
proof -
  note I = procs_invD [OF inv] and Dt = tree_invD [OF procs_invD(2) [OF inv]]
  from exit_mm_ok [OF mem] obtain k1 F' D' a where k1: "exit_mm dev_kenv k = Ret k1" "dpt_inv F' D' (memory k1)" "F \<subseteq> F'"
     "\<forall>m d. mm (kproc k c) = Some m \<longrightarrow> mm_count (mms (vm (memory k)) m) = 1 \<longrightarrow> pgdir (mms (vm (memory k)) m) = Some d \<longrightarrow> d \<in> F' \<and> D' = D - {d}"
     "vfs k1 = vfs k" "tab k1 = set_proc c (mm_update (\<lambda>_. None)) ((tab k)\<lparr>sch := (sch (tab k))\<lparr>cpu_cr3 := a\<rparr>\<rparr>)" unfolding c(1) by blast
  have s1: "kcurrent k1 = c" "initproc (tab k1) = Some i" "idleproc (sch (tab k1)) = idleproc (sch (tab k))" "mm (kproc k1 c) = None"
    "\<And>x. x \<noteq> c \<Longrightarrow> kproc k1 x = kproc k x" "kproc k1 c = (kproc k c)\<lparr>mm := None\<rparr>" using k1(6) i(1) c(1) by simp_all
  have f1: "proc_links (tab k1) = proc_links (tab k)" "hash_links (tab k1) = hash_links (tab k)" "nr_process (tab k1) = nr_process (tab k)" "last_pid (tab k1) = last_pid (tab k)"
    "next_safe (tab k1) = next_safe (tab k)" "pool (sch (tab k1)) = pool (sch (tab k))" "rq (sch (tab k1)) = rq (sch (tab k))" using k1(6) by simp_all
  have st1: "state (kproc k1 x) = state (kproc k x)" for x using s1(5) [of x] s1(6) by (cases "x = c") simp_all
  have "ready (sch (tab k1)) = ready (sch (tab k))" using st1 s1(1,3) c(1) by (simp add: ready_def)
  then have rq1: "rq_holds (sch (tab k1)) (ready (sch (tab k1)))" using stride.holds_frame [OF I(3) f1(6,7)] by simp
  have inv1: "procs_inv (tab k1) xs ch"
  proof (rule procs_inv_cong [OF inv f1(1-5) s1(3) _ rq1])
    show "pid (kproc k1 x) = pid (kproc k x) \<and> parent (kproc k1 x) = parent (kproc k x) \<and> cptr (kproc k1 x) = cptr (kproc k x) \<and>
       yptr (kproc k1 x) = yptr (kproc k x) \<and> optr (kproc k1 x) = optr (kproc k x)" for x using s1(5) [of x] s1(6) by (cases "x = c") simp_all
  qed (use I st1 s1(1,3) c in auto)
  from put_fs_ok [of A B k1 c f] fi k1(5) s1(6) obtain v where v: "put_fs dev_kenv k1 c = Ret (k1\<lparr>vfs := v\<rparr>)"
    "if files_count (files (vfs k) f) = 1 then dfiles_inv A (B - {f}) v \<and> (\<forall>i < FILES_STRUCT_NENTRY. status (file_at v (f, i)) = FD_NONE)
      else dfiles_inv A B v \<and> files_count (files v f) = files_count (files (vfs k) f) - 1 \<and> inodes v = inodes (vfs k)"
    "\<forall>r i. r \<noteq> f \<longrightarrow> file_at v (r, i) = file_at (vfs k) (r, i)" by auto
  define k3 where "k3 = upd_kproc c (\<lambda>x. x\<lparr>state := PROC_ZOMBIE, exit_code := code\<rparr>) (k1\<lparr>vfs := v\<rparr>)"
  have t3: "tab k3 = set_proc c (\<lambda>x. x\<lparr>state := PROC_ZOMBIE, exit_code := code\<rparr>) (tab k1)" "memory k3 = memory k1" "vfs k3 = v" by (simp_all add: k3_def)
  have c1: "current (sch (tab k1)) = c" using s1(1) by simp
  have i1: "parent (proc_of (tab k1) i) = Some (idleproc (sch (tab k1)))" "state (proc_of (tab k1) i) \<noteq> PROC_ZOMBIE" "parent (proc_of (tab k1) c) = Some q"
    using i s1 par by simp_all
  from exit_notify_ok [OF inv1, unfolded c1, OF c(2) s1(2) i(2,3) i1 t3(1)] obtain t' where t': "exit_notify default_sched_class (tab k3) = Ret t'"
     "procs_inv t' xs (ch(c := [], i := rev (ch c) @ ch i))" "\<forall>x. same_but_links (proc_of (tab k3) x) (proc_of t' x)" "state (proc_of t' c) = PROC_ZOMBIE"
     "wait_state (kproc k1 q) = WT_CHILD \<longrightarrow> state (proc_of t' q) = PROC_RUNNABLE" by blast
  define k4 where "k4 = k3\<lparr>tab := t'\<rparr>"
  have s4: "tab k4 = t'" "memory k4 = memory k3" "vfs k4 = v" using t3(3) by (simp_all add: k4_def)
  from kschedule_ok [of k4, unfolded s4, OF t'(2)] obtain k' where k': "kschedule default_sched_class k4 = Ret k'" "procs_inv (tab k') xs (ch(c := [], i := rev (ch c) @ ch i))"
     "state (kproc k' (kcurrent k')) = PROC_RUNNABLE"
     "\<forall>x. same_ident (proc_of t' x) (kproc k' x) \<and> state (kproc k' x) = state (proc_of t' x) \<and> wait_state (kproc k' x) = wait_state (proc_of t' x)"
     "pmm (memory k') = pmm (memory k3)" "npage (memory k') = npage (memory k3)" "frames (memory k') = frames (memory k3)"
     "files (vfs k') = files v" "inodes (vfs k') = inodes v" by blast
  have ci: "c \<noteq> idleproc (sch (tab k))" using Dt(1) c(2) by auto
  have run: "do_exit dev_kenv code k = Ret k'"
  proof -
    have "kcurrent (k1\<lparr>vfs := v\<rparr>) = c" using s1(1) by simp
    then show ?thesis
      unfolding do_exit_def c(1) k1(1) bind_outcome.simps s1(1) v(1) Let_def dev_kenv_sel using ci i(1,3) t'(1) k'(1) by (simp add: k3_def k4_def)
  qed
  have p3: "kproc k3 c = (kproc k c)\<lparr>mm := None, state := PROC_ZOMBIE, exit_code := code\<rparr>" using t3(1) s1(6) by simp
  note id = same_but_links_sel [OF spec [OF t'(3), of c]] and id' = same_ident_sel [OF conjunct1 [OF spec [OF k'(4), of c]]]
  have cz: "state (kproc k' c) = PROC_ZOMBIE" using k'(4) t'(4) by simp
  have q: "q \<noteq> c" using Dt(2) [OF c(2)] par by auto
  have mem': "dpt_inv F' D' (memory k')" using k1(2) mem_inv_cong [OF k'(5) k'(7) k'(6)] t3(2) by simp
  have fa: "file_at (vfs k') = file_at v" using k'(8) by (auto simp: file_at_def)
  have fi': "dfiles_inv A X (vfs k') = dfiles_inv A X v" for X by (rule files_inv_cong) (simp_all add: fa k'(8,9))
  show ?thesis
  proof (rule exI [of _ k'], rule exI [of _ F'], rule exI [of _ D'], intro conjI)
    show "dfiles_inv A (if files_count (files (vfs k) f) = 1 then B - {f} else B) (vfs k')" using v(2) unfolding fi' by (auto split: if_splits)
    show "files_count (files (vfs k) f) = 1 \<longrightarrow> (\<forall>j < FILES_STRUCT_NENTRY. status (file_at (vfs k') (f, j)) = FD_NONE)" using v(2) fa by auto
    show "wait_state (kproc k q) = WT_CHILD \<longrightarrow> state (kproc k' q) = PROC_RUNNABLE" using t'(5) k'(4) s1(5) [OF q] by simp
    show "kcurrent k' \<noteq> c" using k'(3) cz by auto
  qed (use run k'(2,3) cz id id' p3 mem' k1(3,4) v(3) fa in simp_all)
qed

end
