(* ===== verification/Processes.thy ===== *)
theory Processes
  imports ProcExit
begin

text \<open>
  What the process manager promises: process numbers, look-up, and the life of a process from
  \<open>do_fork\<close> over \<open>do_exit\<close> to \<open>do_wait\<close>.
\<close>

subsection \<open>A small kernel\<close>

text \<open>
  \<open>idleproc\<close> is process 0, \<open>initproc\<close> its child 1, and 2 a child of 1. The blocks are given; the
  memory is that of \<^const>\<open>small_mem\<close> and process 1 and 2 share the table of \<^const>\<open>small_vfs\<close>.
\<close>

definition small_procs :: "proc_state \<Rightarrow> u32 \<Rightarrow> proc_state \<Rightarrow> proc_ptr \<Rightarrow> proc_struct" where
  "small_procs st1 w1 st2 =
     (\<lambda>_. blank_proc)
       (0 := blank_proc\<lparr>state := PROC_RUNNABLE, pid := 0, cptr := Some 1\<rparr>,
        1 := blank_proc\<lparr>state := st1, wait_state := w1, pid := 1, parent := Some 0, cptr := Some 2, filesp := Some 1\<rparr>,
        2 := blank_proc\<lparr>state := st2, pid := 2, parent := Some 1, kstack := kva_of 0, filesp := Some 1, mm := Some 0, exit_code := 7\<rparr>)"

definition small_table :: "proc_ptr \<Rightarrow> (proc_ptr \<Rightarrow> proc_struct) \<Rightarrow> proc_table" where
  "small_table c P =
     \<lparr>sch = boot_sched\<lparr>procs := P, current := c\<rparr>,
      proc_links = list_add (list_add \<lparr>le_prev = id, le_next = id\<rparr> None (Some 1)) None (Some 2),
      hash_links = list_add (list_add \<lparr>le_prev = id, le_next = id\<rparr> (HHead (pid_hashfn 1)) (HLink 1)) (HHead (pid_hashfn 2)) (HLink 2),
      nr_process = 3, next_safe = MAX_PID, last_pid = 2, initproc = Some 1\<rparr>"

definition small_children :: "proc_ptr \<Rightarrow> proc_ptr list" where
  "small_children = (\<lambda>_. [])(0 := [1], 1 := [2])"

definition small_kernel :: "mem_state \<Rightarrow> proc_ptr \<Rightarrow> (proc_ptr \<Rightarrow> proc_struct) \<Rightarrow> dev_state kernel" where
  "small_kernel s c P =
     \<lparr>tab = small_table c P, memory = s, vfs = small_vfs, tf_at = \<lambda>_. None, tframes = \<lambda>_. zero_trapframe, contexts = \<lambda>_. zero_context,
      names = \<lambda>_. [], mm_sem = \<lambda>_. 1, boot_pgdir = 1, boot_cr3 = page2pa 1, forkret = 0, kernel_thread_entry = 0\<rparr>"

lemma small_kernel_sel [simp]:
  "tab (small_kernel s c P) = small_table c P" "memory (small_kernel s c P) = s" "vfs (small_kernel s c P) = small_vfs"
  "procs (sch (small_table c P)) = P" "current (sch (small_table c P)) = c" "idleproc (sch (small_table c P)) = 0" "initproc (small_table c P) = Some 1"
  "nr_process (small_table c P) = 3"
  by (simp_all add: small_kernel_def small_table_def boot_sched_def)

lemma small_table_inv:
  assumes "pid (P 1) = 1" "pid (P 2) = 2"
  shows "table_inv (small_table c P) [2, 1]"
proof -
  let ?h = "\<lparr>le_prev = id, le_next = id\<rparr> :: hash_link links" and ?p = "\<lparr>le_prev = id, le_next = id\<rparr> :: proc_ptr option links"
  let ?t0 = "(small_table c P)\<lparr>hash_links := ?h\<rparr>"
  let ?t1 = "(small_table c P)\<lparr>hash_links := list_add ?h (HHead (pid_hashfn 1)) (HLink 1)\<rparr>"
  have "dlist ?h b []" for b by (simp add: dlist_def)
  then have "buckets ?t0 [] (\<lambda>_. [])" by (simp add: buckets_def)
  from buckets_add [OF this, of 1 ?t1] assms have b1: "buckets ?t1 [1] ((\<lambda>_. [])(pid_hashfn 1 := [1]))" by simp
  from buckets_add [OF this, of 2 "small_table c P"] assms have "\<exists>bk. buckets (small_table c P) [2, 1] bk" by (auto simp: small_table_def boot_sched_def)
  moreover have "dlist ?p None []" by (simp add: dlist_def)
  from lq.ring_push_front [OF lq.ring_push_front [OF this, of "Some 1"], of "Some 2"] have "dlist (proc_links (small_table c P)) None (map Some [2, 1])"
    by (simp add: small_table_def)
  ultimately show ?thesis using assms
    by (auto simp: table_inv_def inj_on_def pids_def pid_window_def small_table_def boot_sched_def MAX_PID_def MAX_PROCESS_def)
qed

lemma small_procs_inv:
  assumes "c \<in> {1, 2}" "st1 = PROC_RUNNABLE \<longrightarrow> c = 1" "st2 = PROC_RUNNABLE \<longrightarrow> c = 2" "st1 \<noteq> PROC_ZOMBIE"
  shows "procs_inv (small_table c (small_procs st1 w1 st2)) [2, 1] small_children"
proof -
  have "tree_inv (small_table c (small_procs st1 w1 st2)) [2, 1] small_children"
    by (auto simp: tree_inv_def small_procs_def small_children_def blank_proc_def split: if_splits)
  moreover have "table_inv (small_table c (small_procs st1 w1 st2)) [2, 1]" by (rule small_table_inv) (simp_all add: small_procs_def)
  moreover have "ready (sch (small_table c (small_procs st1 w1 st2))) = {}"
    using assms by (auto simp: ready_def small_procs_def blank_proc_def split: if_splits)
  moreover have "rq_holds (sch (small_table c (small_procs st1 w1 st2))) {}"
    by (auto simp: rq_holds_def small_table_def boot_sched_def skew_heap_def intro!: exI [of _ Leaf])
  ultimately show ?thesis using assms unfolding procs_inv_def
    by (auto simp: small_procs_def small_children_def blank_proc_def split: if_splits)
qed

subsection \<open>Properties\<close>

text \<open>C37: as long as there are fewer than MAX_PROCESS processes, the search of get_pid, which starts
  over at the head of the list whenever its candidate meets the next number known to be used,
  comes to an end: it returns a number that no process has, and it leaves the process table
  well-formed, so that no number between the last one given out and next_safe is in use.\<close>

theorem get_pid_fresh:
  assumes "table_inv t xs" "nr_process t < MAX_PROCESS"
  shows "\<exists>t' r. get_pid t = Ret (t', r) \<and> 1 \<le> r \<and> r < MAX_PID \<and> (\<forall>p \<in> set xs. pid (proc_of t p) \<noteq> r) \<and>
     table_inv t' xs \<and> sch t' = sch t \<and> last_pid t' = r"
proof -
  note I = table_invD [OF assms(1)]
  have "int (length xs) < MAX_PID - 1" using I(5) assms(2) by (simp add: MAX_PID_def MAX_PROCESS_def)
  from get_pid_ok [OF assms(1) this] obtain r n where g: "get_pid t = Ret (t\<lparr>last_pid := r, next_safe := n\<rparr>, r)" "1 \<le> r" "r < n" "n \<le> MAX_PID"
    "pids t xs \<inter> {r ..< n} = {}" by blast
  have "r \<notin> pids t xs" using g(3,5) by auto
  moreover have "pid_window (t\<lparr>last_pid := r, next_safe := n\<rparr>) xs" using g(2,4,5) by (auto simp: pid_window_def pids_def)
  then have "table_inv (t\<lparr>last_pid := r, next_safe := n\<rparr>) xs" using assms(1) by (simp add: table_inv_def buckets_def pids_def)
  ultimately show ?thesis using g by (auto simp: pids_def)
qed

theorem get_pid_fresh_witness:
  "\<exists>t' r. get_pid (small_table 1 (small_procs PROC_RUNNABLE 0 PROC_SLEEPING)) = Ret (t', r) \<and> 1 \<le> r \<and> r < MAX_PID \<and> r \<noteq> 1 \<and> r \<noteq> 2"
proof -
  have "table_inv (small_table 1 (small_procs PROC_RUNNABLE 0 PROC_SLEEPING)) [2, 1]" by (rule small_table_inv) (simp_all add: small_procs_def)
  from get_pid_fresh [OF this] show ?thesis by (auto simp: MAX_PROCESS_def small_procs_def)
qed

text \<open>the hash lists are a faithful index: find_proc returns the process that has the number,
  and NULL for a number that no process has, whatever the number is.\<close>

theorem find_proc_exact:
  assumes "table_inv t xs"
  shows "\<exists>r. find_proc t d = Ret r \<and> (\<forall>p. r = Some p \<longleftrightarrow> p \<in> set xs \<and> pid (proc_of t p) = d)"
proof (cases "\<exists>p \<in> set xs. pid (proc_of t p) = d")
  case True
  then obtain p where p: "p \<in> set xs" "pid (proc_of t p) = d" by blast
  then have u: "q = p" if "q \<in> set xs \<and> pid (proc_of t q) = d" for q using that table_invD(2) [OF assms] by (auto simp: inj_on_def)
  have the: "(THE q. q \<in> set xs \<and> pid (proc_of t q) = d) = p" by (rule the_equality) (use p u in blast)+
  have "find_proc t d = Ret (Some p)" unfolding find_proc_ok [OF assms] the by (rule arg_cong [of _ _ Ret], rule if_P [OF True])
  then show ?thesis using u p by (intro exI [of _ "Some p"]) blast
next
  case False
  have "find_proc t d = Ret None" unfolding find_proc_ok [OF assms] by (rule arg_cong [of _ _ Ret], rule if_not_P [OF False])
  then show ?thesis using False by (intro exI [of _ None]) blast
qed

theorem find_proc_exact_witness:
  "find_proc (small_table 1 (small_procs PROC_RUNNABLE 0 PROC_SLEEPING)) 2 = Ret (Some 2) \<and>
   find_proc (small_table 1 (small_procs PROC_RUNNABLE 0 PROC_SLEEPING)) 3 = Ret None"
proof -
  let ?t = "small_table 1 (small_procs PROC_RUNNABLE 0 PROC_SLEEPING)"
  have inv: "table_inv ?t [2, 1]" by (rule small_table_inv) (simp_all add: small_procs_def)
  from find_proc_exact [OF inv, of 2] obtain r where r: "find_proc ?t 2 = Ret r" "\<And>p. r = Some p \<longleftrightarrow> p \<in> set [2, 1] \<and> pid (proc_of ?t p) = 2" by blast
  from find_proc_exact [OF inv, of 3] obtain r' where r': "find_proc ?t 3 = Ret r'" "\<And>p. r' = Some p \<longleftrightarrow> p \<in> set [2, 1] \<and> pid (proc_of ?t p) = 3" by blast
  have "r = Some 2" using r(2) [of 2] by (simp add: small_procs_def)
  moreover have "r' \<noteq> Some p" for p using r'(2) [of p] by (auto simp: small_procs_def)
  then have "r' = None" by (cases r') auto
  ultimately show ?thesis using r(1) r'(1) by simp
qed





text \<open>C7: from its label repeat, do_wait returns E_BAD_PROC exactly when no child is asked for. When a
  child that is asked for is a zombie, the youngest such child is taken: its exit code goes to the
  caller, it leaves the process table, the hash lists and the tree, so its number is free again,
  and the two pages of its kernel stack are free. Otherwise the caller sleeps as WT_CHILD and
  another process runs. Table, tree and run queue stay well-formed on every branch.\<close>

theorem do_wait_reaps_child:
  assumes "procs_inv (tab k) xs ch" "frames_ok (memory k) F" "kcurrent k \<noteq> idleproc (sch (tab k))" "state (kproc k (kcurrent k)) \<noteq> PROC_ZOMBIE"
    "\<forall>p \<in> set (ch (kcurrent k)). state (kproc k p) = PROC_ZOMBIE \<longrightarrow> initproc (tab k) \<noteq> Some p \<and> stack_at k p F (stk p)"
  shows "case find (\<lambda>p. wanted (tab k) d p \<and> state (kproc k p) = PROC_ZOMBIE) (ch (kcurrent k)) of
       Some p \<Rightarrow> \<exists>k'. do_wait_pass dev_kenv d store k = Ret (k', Returned 0 (if store \<noteq> 0 then Some (store, exit_code (kproc k p)) else None)) \<and>
         procs_inv (tab k') (remove1 p xs) (ch(kcurrent k := remove1 p (ch (kcurrent k)))) \<and> frames_ok (memory k') (F \<union> {stk p, Suc (stk p)}) \<and>
         vfs k' = vfs k \<and> kcurrent k' = kcurrent k \<and> find_proc (tab k') (pid (kproc k p)) = Ret None
     | None \<Rightarrow> (if \<exists>p \<in> set (ch (kcurrent k)). wanted (tab k) d p
         then \<exists>k'. do_wait_pass dev_kenv d store k = Ret (k', Switched) \<and> procs_inv (tab k') xs ch \<and>
           state (kproc k' (kcurrent k)) = PROC_SLEEPING \<and> wait_state (kproc k' (kcurrent k)) = WT_CHILD \<and> state (kproc k' (kcurrent k')) = PROC_RUNNABLE
         else do_wait_pass dev_kenv d store k = Ret (k, Returned (- E_BAD_PROC) None))"
proof (cases "find (\<lambda>p. wanted (tab k) d p \<and> state (kproc k p) = PROC_ZOMBIE) (ch (kcurrent k))")
  case None
  then show ?thesis using wait_blocks [OF assms(1) _ None assms(3), of store] wait_none [OF assms(1), of d store] by simp
next
  case (Some p)
  then have "p \<in> set (ch (kcurrent k))" "state (kproc k p) = PROC_ZOMBIE" by (auto simp: find_Some_iff)
  then have "initproc (tab k) \<noteq> Some p" "stack_at k p F (stk p)" using assms(5) by auto
  from wait_reaps [OF assms(1,2) Some this assms(4), of store] Some show ?thesis by simp
qed

theorem do_wait_reaps_child_witness:
  "\<exists>m k'. default_init_memmap small_machine 2 5 = Ret m \<and>
     do_wait_pass dev_kenv 2 64 (small_kernel (small_mem m) 1 (small_procs PROC_RUNNABLE 0 PROC_ZOMBIE)) = Ret (k', Returned 0 (Some (64, 7))) \<and>
     find_proc (tab k') 2 = Ret None \<and> frames_ok (memory k') ({2 ..< 7} \<union> {0, 1})"
proof -
  obtain m where m: "default_init_memmap small_machine 2 5 = Ret m" "dpt_inv {2 ..< 7} {0, 1} (small_mem m)" using small_mem_ok .
  let ?P = "small_procs PROC_RUNNABLE 0 PROC_ZOMBIE"
  let ?k = "small_kernel (small_mem m) 1 ?P"
  have inv: "procs_inv (tab ?k) [2, 1] small_children" using small_procs_inv [of 1 PROC_RUNNABLE PROC_ZOMBIE 0] by simp
  note I = pt_invD [OF m(2)]
  have F: "frames_ok (memory ?k) {2 ..< 7}" using I(1) by (auto simp: frames_ok_def small_mem_def KMEM_PAGES_def)
  from m(1) obtain m1 where m1: "init_memmap_loop 5 small_machine 2 = Ret m1" "m = upd_page 2 (property_update (\<lambda>_. 5)) (m1\<lparr>nr_free := nr_free m1 + 5\<rparr>)"
    by (auto simp: default_init_memmap_def)
  have "pages m q = reserved_page" if "q < 2" for q
    using init_memmap_loop_pages [OF m1(1), of q] that by (auto simp: m1(2) small_machine_def default_init_def)
  then have "pmm_owned m 0 2" by (simp add: pmm_owned_def KMEM_PAGES_def reserved_page_def PageReserved_def PG_reserved_def)
  then have "stack_at ?k 2 {2 ..< 7} 0" by (simp add: stack_at_def small_procs_def small_mem_def KSTACKPAGE_def)
  then have "\<forall>p \<in> set (small_children (kcurrent ?k)). state (kproc ?k p) = PROC_ZOMBIE \<longrightarrow> initproc (tab ?k) \<noteq> Some p \<and> stack_at ?k p {2 ..< 7} ((\<lambda>_. 0) p)"
    by (simp add: small_children_def)
  from do_wait_reaps_child [OF inv F _ _ this, of 2 64] m(1) show ?thesis
    by (auto simp: small_children_def small_procs_def wanted_def)
qed

end
