(* ===== verification/SfsIo.thy ===== *)
theory SfsIo
  imports Devices Bitmap
begin

text \<open>
  The simple file system, \<^verbatim>\<open>kern/fs/sfs\<close>: the structures of \<^verbatim>\<open>sfs.h\<close> in memory and on disk, the
  locks of \<^verbatim>\<open>sfs_lock.c\<close> and the block transfers of \<^verbatim>\<open>sfs_io.c\<close> above the device operations. The
  state of the file system extends that of the devices: \<open>sfs_fss f\<close> is the file system \<open>f\<close>, \<open>sins n\<close> is
  the \<open>sfs_inode\<close> in the inode \<open>n\<close>. Buffers that are passed by address lie in \<open>kmem\<close>; the bytes of a
  structure that is passed by its address are given or returned as a list.
\<close>

subsection \<open>Structures (sfs.h)\<close>

definition SFS_MAGIC :: u32 where "SFS_MAGIC = 0x2f8dbe2a"
definition SFS_BLKSIZE :: u32 where "SFS_BLKSIZE = 4096"
definition SFS_NDIRECT :: u32 where "SFS_NDIRECT = 12"
definition SFS_MAX_INFO_LEN :: nat where "SFS_MAX_INFO_LEN = 31"
definition SFS_MAX_FNAME_LEN :: nat where "SFS_MAX_FNAME_LEN = unat FS_MAX_FNAME_LEN"
definition SFS_MAX_FILE_SIZE :: u32 where "SFS_MAX_FILE_SIZE = 1024 * 1024 * 128"
definition SFS_BLKN_SUPER :: u32 where "SFS_BLKN_SUPER = 0"
definition SFS_BLKN_ROOT :: u32 where "SFS_BLKN_ROOT = 1"
definition SFS_BLKN_FREEMAP :: u32 where "SFS_BLKN_FREEMAP = 2"
definition SFS_BLKBITS :: u32 where "SFS_BLKBITS = SFS_BLKSIZE * 8"
definition SFS_BLK_NENTRY :: u32 where "SFS_BLK_NENTRY = SFS_BLKSIZE div 4"
definition SFS_TYPE_INVAL :: u16 where "SFS_TYPE_INVAL = 0"
definition SFS_TYPE_FILE :: u16 where "SFS_TYPE_FILE = 1"
definition SFS_TYPE_DIR :: u16 where "SFS_TYPE_DIR = 2"
definition SFS_TYPE_LINK :: u16 where "SFS_TYPE_LINK = 3"
definition SFS_HLIST_SHIFT :: nat where "SFS_HLIST_SHIFT = 10"
definition SFS_HLIST_SIZE :: nat where "SFS_HLIST_SIZE = 2 ^ SFS_HLIST_SHIFT"

definition sin_hashfn :: "u32 \<Rightarrow> nat" where
  "sin_hashfn x = unat (hash32 x SFS_HLIST_SHIFT)"

record sfs_super =
  s_magic :: u32
  s_blocks :: u32
  s_unused_blocks :: u32
  s_info :: "u8 list"

record sfs_disk_inode =
  di_size :: u32
  di_type :: u16
  di_nlinks :: u16
  di_blocks :: u32
  di_direct :: "u32 list"
  di_indirect :: u32

text \<open>The links of an \<open>sfs_inode\<close> are in the stores \<open>inode_links\<close> and \<open>hash_lists\<close> of its file system.\<close>

record sfs_inode =
  din :: sfs_disk_inode
  sin_ino :: u32
  dirty :: bool
  reclaim_count :: int
  sin_sem :: int

datatype sfs_link = SHead nat | SLink nat

text \<open>
  \<open>freemap_data\<close> is where the words of the bitmap lie in memory. In \<open>inode_links\<close> the head
  \<open>inode_list\<close> is \<open>None\<close>; \<open>SHead b\<close> is \<open>hash_list[b]\<close>.
\<close>

record sfs_fs =
  super :: sfs_super
  sfs_dev :: nat
  freemap :: bitmap
  freemap_data :: nat
  super_dirty :: bool
  sfs_buffer :: nat
  fs_sem :: int
  io_sem :: int
  mutex_sem :: int
  inode_links :: "nat option links"
  hash_lists :: "sfs_link links"

record sfs_state = dev_state +
  sfs_fss :: "nat \<Rightarrow> sfs_fs"
  sins :: "nat \<Rightarrow> sfs_inode"

type_synonym svfs = "sfs_state vfs_state"

abbreviation sfs_at :: "svfs \<Rightarrow> nat \<Rightarrow> sfs_fs" where
  "sfs_at s f \<equiv> sfs_fss (priv s) f"

abbreviation sin_at :: "svfs \<Rightarrow> nat \<Rightarrow> sfs_inode" where
  "sin_at s n \<equiv> sins (priv s) n"

abbreviation upd_sfs :: "nat \<Rightarrow> (sfs_fs \<Rightarrow> sfs_fs) \<Rightarrow> svfs \<Rightarrow> svfs" where
  "upd_sfs f g s \<equiv> s\<lparr>priv := (priv s)\<lparr>sfs_fss := (sfs_fss (priv s))(f := g (sfs_at s f))\<rparr>\<rparr>"

abbreviation upd_sin :: "nat \<Rightarrow> (sfs_inode \<Rightarrow> sfs_inode) \<Rightarrow> svfs \<Rightarrow> svfs" where
  "upd_sin n g s \<equiv> s\<lparr>priv := (priv s)\<lparr>sins := (sins (priv s))(n := g (sin_at s n))\<rparr>\<rparr>"

abbreviation upd_din :: "nat \<Rightarrow> (sfs_disk_inode \<Rightarrow> sfs_disk_inode) \<Rightarrow> svfs \<Rightarrow> svfs" where
  "upd_din n g \<equiv> upd_sin n (din_update g)"

definition sfs_freemap_bits :: "sfs_super \<Rightarrow> u32" where
  "sfs_freemap_bits sp = ROUNDUP (s_blocks sp) SFS_BLKBITS"

definition sfs_freemap_blocks :: "sfs_super \<Rightarrow> u32" where
  "sfs_freemap_blocks sp = ROUNDUP_DIV (s_blocks sp) SFS_BLKBITS"

subsection \<open>Structures as bytes\<close>

text \<open>The processor stores the least significant byte first; the structures have no padding.\<close>

definition le2 :: "u16 \<Rightarrow> u8 list" where
  "le2 w = [ucast w, ucast (drop_bit 8 w)]"

definition le4 :: "u32 \<Rightarrow> u8 list" where
  "le4 w = [ucast w, ucast (drop_bit 8 w), ucast (drop_bit 16 w), ucast (drop_bit 24 w)]"

definition of_le2 :: "u8 list \<Rightarrow> u16" where
  "of_le2 bs = ucast (bs ! 0) OR push_bit 8 (ucast (bs ! 1))"

definition of_le4 :: "u8 list \<Rightarrow> u32" where
  "of_le4 bs = ucast (bs ! 0) OR push_bit 8 (ucast (bs ! 1)) OR push_bit 16 (ucast (bs ! 2)) OR push_bit 24 (ucast (bs ! 3))"

definition load_bytes :: "mem \<Rightarrow> nat \<Rightarrow> nat \<Rightarrow> u8 list" where
  "load_bytes m a k = map m [a ..< a + k]"

definition super_bytes :: "sfs_super \<Rightarrow> u8 list" where
  "super_bytes sp = le4 (s_magic sp) @ le4 (s_blocks sp) @ le4 (s_unused_blocks sp) @ s_info sp"

definition bytes_super :: "u8 list \<Rightarrow> sfs_super" where
  "bytes_super bs = \<lparr>s_magic = of_le4 bs, s_blocks = of_le4 (drop 4 bs), s_unused_blocks = of_le4 (drop 8 bs),
     s_info = take (SFS_MAX_INFO_LEN + 1) (drop 12 bs)\<rparr>"

definition DIN_SIZE :: u32 where "DIN_SIZE = 64"

definition din_bytes :: "sfs_disk_inode \<Rightarrow> u8 list" where
  "din_bytes d = le4 (di_size d) @ le2 (di_type d) @ le2 (di_nlinks d) @ le4 (di_blocks d) @ concat (map le4 (di_direct d)) @ le4 (di_indirect d)"

definition bytes_din :: "u8 list \<Rightarrow> sfs_disk_inode" where
  "bytes_din bs = \<lparr>di_size = of_le4 bs, di_type = of_le2 (drop 4 bs), di_nlinks = of_le2 (drop 6 bs), di_blocks = of_le4 (drop 8 bs),
     di_direct = map (\<lambda>i. of_le4 (drop (12 + 4 * i) bs)) [0 ..< unat SFS_NDIRECT], di_indirect = of_le4 (drop 60 bs)\<rparr>"

subsection \<open>Locks (sfs_lock.c)\<close>

definition lock_sfs_fs :: "svfs \<Rightarrow> nat \<Rightarrow> svfs outcome" where
  "lock_sfs_fs s f = bind_outcome (lock_count (fs_sem (sfs_at s f))) (\<lambda>c. Ret (upd_sfs f (fs_sem_update (\<lambda>_. c)) s))"

definition lock_sfs_io :: "svfs \<Rightarrow> nat \<Rightarrow> svfs outcome" where
  "lock_sfs_io s f = bind_outcome (lock_count (io_sem (sfs_at s f))) (\<lambda>c. Ret (upd_sfs f (io_sem_update (\<lambda>_. c)) s))"

definition unlock_sfs_fs :: "svfs \<Rightarrow> nat \<Rightarrow> svfs" where
  "unlock_sfs_fs s f = upd_sfs f (fs_sem_update (\<lambda>c. c + 1)) s"

definition unlock_sfs_io :: "svfs \<Rightarrow> nat \<Rightarrow> svfs" where
  "unlock_sfs_io s f = upd_sfs f (io_sem_update (\<lambda>c. c + 1)) s"

subsection \<open>Transfers (sfs_io.c)\<close>

definition sfs_rwblock_nolock :: "svfs \<Rightarrow> nat \<Rightarrow> nat \<Rightarrow> u32 \<Rightarrow> bool \<Rightarrow> bool \<Rightarrow> (svfs \<times> int) outcome" where
  "sfs_rwblock_nolock s f buf blkno write check =
     assert_then ((blkno \<noteq> 0 \<or> \<not> check) \<and> blkno < s_blocks (super (sfs_at s f)))
       (let iob = iobuf_init buf SFS_BLKSIZE (blkno * SFS_BLKSIZE) in
        bind_outcome (dop_io s (devices (priv s) (sfs_dev (sfs_at s f))) iob write) (\<lambda>(s1, _, ret). Ret (s1, ret)))"

fun rwblock_loop :: "nat \<Rightarrow> svfs \<Rightarrow> nat \<Rightarrow> nat \<Rightarrow> u32 \<Rightarrow> bool \<Rightarrow> (svfs \<times> int) outcome" where
  "rwblock_loop 0 s f buf blkno write = Ret (s, 0)"
| "rwblock_loop (Suc k) s f buf blkno write =
     bind_outcome (sfs_rwblock_nolock s f buf blkno write True) (\<lambda>(s1, ret).
       if ret \<noteq> 0 then Ret (s1, ret) else rwblock_loop k s1 f (buf + unat SFS_BLKSIZE) (blkno + 1) write)"

definition sfs_rwblock :: "svfs \<Rightarrow> nat \<Rightarrow> nat \<Rightarrow> u32 \<Rightarrow> u32 \<Rightarrow> bool \<Rightarrow> (svfs \<times> int) outcome" where
  "sfs_rwblock s f buf blkno nblks write =
     bind_outcome (lock_sfs_io s f) (\<lambda>s1.
     bind_outcome (rwblock_loop (unat nblks) s1 f buf blkno write) (\<lambda>(s2, ret). Ret (unlock_sfs_io s2 f, ret)))"

definition sfs_rblock :: "svfs \<Rightarrow> nat \<Rightarrow> nat \<Rightarrow> u32 \<Rightarrow> u32 \<Rightarrow> (svfs \<times> int) outcome" where
  "sfs_rblock s f buf blkno nblks = sfs_rwblock s f buf blkno nblks False"

definition sfs_wblock :: "svfs \<Rightarrow> nat \<Rightarrow> nat \<Rightarrow> u32 \<Rightarrow> u32 \<Rightarrow> (svfs \<times> int) outcome" where
  "sfs_wblock s f buf blkno nblks = sfs_rwblock s f buf blkno nblks True"

definition buf_range :: "u32 \<Rightarrow> u32 \<Rightarrow> bool" where
  "buf_range offset len \<longleftrightarrow> 0 \<le> sint offset \<and> sint offset < sint SFS_BLKSIZE \<and> offset + len \<le> SFS_BLKSIZE"

text \<open>\<open>sfs_rbuf\<close> returns the bytes that it copies to the caller's buffer.\<close>

definition sfs_rbuf :: "svfs \<Rightarrow> nat \<Rightarrow> u32 \<Rightarrow> u32 \<Rightarrow> u32 \<Rightarrow> (svfs \<times> u8 list \<times> int) outcome" where
  "sfs_rbuf s f len blkno offset =
     assert_then (buf_range offset len)
       (bind_outcome (lock_sfs_io s f) (\<lambda>s1.
        bind_outcome (sfs_rwblock_nolock s1 f (sfs_buffer (sfs_at s1 f)) blkno False True) (\<lambda>(s2, ret).
          Ret (unlock_sfs_io s2 f, if ret = 0 then load_bytes (kmem s2) (sfs_buffer (sfs_at s2 f) + unat offset) (unat len) else [], ret))))"

definition sfs_wbuf :: "svfs \<Rightarrow> nat \<Rightarrow> u8 list \<Rightarrow> u32 \<Rightarrow> u32 \<Rightarrow> (svfs \<times> int) outcome" where
  "sfs_wbuf s f bs blkno offset =
     assert_then (buf_range offset (of_nat (length bs)))
       (bind_outcome (lock_sfs_io s f) (\<lambda>s1.
        bind_outcome (sfs_rwblock_nolock s1 f (sfs_buffer (sfs_at s1 f)) blkno False True) (\<lambda>(s2, ret).
        bind_outcome
          (if ret = 0
           then sfs_rwblock_nolock (s2\<lparr>kmem := store_bytes (kmem s2) (sfs_buffer (sfs_at s2 f) + unat offset) bs\<rparr>) f (sfs_buffer (sfs_at s2 f)) blkno True True
           else Ret (s2, ret)) (\<lambda>(s3, ret). Ret (unlock_sfs_io s3 f, ret)))))"

definition sfs_sync_super :: "svfs \<Rightarrow> nat \<Rightarrow> (svfs \<times> int) outcome" where
  "sfs_sync_super s f =
     bind_outcome (lock_sfs_io s f) (\<lambda>s1.
       let b = sfs_buffer (sfs_at s1 f);
           m = store_bytes (memset (kmem s1) b 0 (unat SFS_BLKSIZE)) b (super_bytes (super (sfs_at s1 f)))
       in bind_outcome (sfs_rwblock_nolock (s1\<lparr>kmem := m\<rparr>) f b SFS_BLKN_SUPER True False) (\<lambda>(s2, ret). Ret (unlock_sfs_io s2 f, ret)))"

text \<open>The words of the bitmap as they lie in memory.\<close>

definition freemap_bytes :: "bitmap \<Rightarrow> u8 list" where
  "freemap_bytes b = concat (map le4 (bmap b))"

definition sfs_sync_freemap :: "svfs \<Rightarrow> nat \<Rightarrow> (svfs \<times> int) outcome" where
  "sfs_sync_freemap s f =
     (let nblks = sfs_freemap_blocks (super (sfs_at s f));
          d = freemap_data (sfs_at s f)
      in sfs_wblock (s\<lparr>kmem := store_bytes (kmem s) d (freemap_bytes (freemap (sfs_at s f)))\<rparr>) f d SFS_BLKN_FREEMAP nblks)"

text \<open>With no block to clear the source returns a variable that it never set; that is not a result.\<close>

fun clear_loop :: "nat \<Rightarrow> svfs \<Rightarrow> nat \<Rightarrow> u32 \<Rightarrow> int \<Rightarrow> (svfs \<times> int) outcome" where
  "clear_loop 0 s f blkno ret = Ret (s, ret)"
| "clear_loop (Suc k) s f blkno ret =
     bind_outcome (sfs_rwblock_nolock s f (sfs_buffer (sfs_at s f)) blkno True True) (\<lambda>(s1, ret).
       if ret \<noteq> 0 then Ret (s1, ret) else clear_loop k s1 f (blkno + 1) ret)"

definition sfs_clear_block :: "svfs \<Rightarrow> nat \<Rightarrow> u32 \<Rightarrow> u32 \<Rightarrow> (svfs \<times> int) outcome" where
  "sfs_clear_block s f blkno nblks =
     (if nblks = 0 then Panic
      else bind_outcome (lock_sfs_io s f) (\<lambda>s1.
        bind_outcome (clear_loop (unat nblks) (s1\<lparr>kmem := memset (kmem s1) (sfs_buffer (sfs_at s1 f)) 0 (unat SFS_BLKSIZE)\<rparr>) f blkno 0) (\<lambda>(s2, ret).
          Ret (unlock_sfs_io s2 f, ret))))"

end
