(* ===== verification/Sfs.thy ===== *)
theory Sfs
  imports SfsIo
begin

text \<open>
  Files and directories of the simple file system, \<^verbatim>\<open>kern/fs/sfs/sfs_inode.c\<close>: blocks and the map from
  the blocks of a file to blocks of the disk, directory entries, reading, writing and truncating
  files, loading and reclaiming inodes, and the two tables of inode operations.
\<close>

text \<open>What \<open>kmalloc\<close> returns, in the state it is called in: for a disk inode, an inode, a directory entry.\<close>

record sfs_alloc =
  km_din :: "svfs \<Rightarrow> bool"
  km_node :: "svfs \<Rightarrow> nat option"
  km_entry :: "svfs \<Rightarrow> nat option"

subsection \<open>Inodes in memory\<close>

definition SFS_DIROPS :: nat where "SFS_DIROPS = 1"
definition SFS_FILEOPS :: nat where "SFS_FILEOPS = 2"

definition lock_sin :: "svfs \<Rightarrow> nat \<Rightarrow> svfs outcome" where
  "lock_sin s n = bind_outcome (lock_count (sin_sem (sin_at s n))) (\<lambda>c. Ret (upd_sin n (sin_sem_update (\<lambda>_. c)) s))"

definition unlock_sin :: "svfs \<Rightarrow> nat \<Rightarrow> svfs" where
  "unlock_sin s n = upd_sin n (sin_sem_update (\<lambda>c. c + 1)) s"

text \<open>\<open>fsop_info(vop_fs(node), sfs)\<close> and \<open>vop_info(node, sfs_inode)\<close>.\<close>

definition sfs_node :: "svfs \<Rightarrow> nat \<Rightarrow> nat outcome" where
  "sfs_node s n =
     (case in_fs (inodes s n) of
        None \<Rightarrow> Panic
      | Some f \<Rightarrow> assert_then (in_type (inodes s n) = inode_type_sfs_inode_info) (Ret f))"

definition sfs_get_ops :: "u16 \<Rightarrow> nat outcome" where
  "sfs_get_ops ty = (if ty = SFS_TYPE_DIR then Ret SFS_DIROPS else if ty = SFS_TYPE_FILE then Ret SFS_FILEOPS else Panic)"

definition sfs_hash_list :: "u32 \<Rightarrow> sfs_link" where
  "sfs_hash_list ino = SHead (sin_hashfn ino)"

definition sfs_set_links :: "svfs \<Rightarrow> nat \<Rightarrow> nat \<Rightarrow> svfs" where
  "sfs_set_links s f n =
     upd_sfs f (\<lambda>x. x\<lparr>inode_links := list_add (inode_links x) None (Some n),
       hash_lists := list_add (hash_lists x) (sfs_hash_list (sin_ino (sin_at s n))) (SLink n)\<rparr>) s"

definition sfs_remove_links :: "svfs \<Rightarrow> nat \<Rightarrow> nat \<Rightarrow> svfs" where
  "sfs_remove_links s f n =
     upd_sfs f (\<lambda>x. x\<lparr>inode_links := list_del (inode_links x) (Some n), hash_lists := list_del (hash_lists x) (SLink n)\<rparr>) s"

subsection \<open>Blocks\<close>

definition sfs_block_inuse :: "svfs \<Rightarrow> nat \<Rightarrow> u32 \<Rightarrow> bool outcome" where
  "sfs_block_inuse s f ino =
     (if ino \<noteq> 0 \<and> ino < s_blocks (super (sfs_at s f))
      then bind_outcome (bitmap_test (freemap (sfs_at s f)) ino) (\<lambda>b. Ret (\<not> b)) else Panic)"

definition assert_inuse :: "svfs \<Rightarrow> nat \<Rightarrow> u32 \<Rightarrow> 'a outcome \<Rightarrow> 'a outcome" where
  "assert_inuse s f ino r = bind_outcome (sfs_block_inuse s f ino) (\<lambda>u. assert_then u r)"

text \<open>The block and the code; the block is 0 when there is none.\<close>

definition sfs_block_alloc :: "svfs \<Rightarrow> nat \<Rightarrow> (svfs \<times> u32 \<times> int) outcome" where
  "sfs_block_alloc s f =
     bind_outcome (bitmap_alloc (freemap (sfs_at s f))) (\<lambda>(b, ret, r).
       if ret \<noteq> 0 then Ret (upd_sfs f (freemap_update (\<lambda>_. b)) s, 0, ret)
       else case r of
         None \<Rightarrow> Panic
       | Some ino \<Rightarrow>
           assert_then (s_unused_blocks (super (sfs_at s f)) > 0)
             (let s1 = upd_sfs f (\<lambda>x. x\<lparr>freemap := b, super := (super x)\<lparr>s_unused_blocks := s_unused_blocks (super x) - 1\<rparr>, super_dirty := True\<rparr>) s
              in assert_inuse s1 f ino (bind_outcome (sfs_clear_block s1 f ino 1) (\<lambda>(s2, ret). Ret (s2, ino, ret)))))"

definition sfs_block_free :: "svfs \<Rightarrow> nat \<Rightarrow> u32 \<Rightarrow> svfs outcome" where
  "sfs_block_free s f ino =
     assert_inuse s f ino
       (bind_outcome (bitmap_free (freemap (sfs_at s f)) ino) (\<lambda>b.
          Ret (upd_sfs f (\<lambda>x. x\<lparr>freemap := b, super := (super x)\<lparr>s_unused_blocks := s_unused_blocks (super x) + 1\<rparr>, super_dirty := True\<rparr>) s)))"

subsection \<open>Loading an inode\<close>

definition sfs_create_inode :: "sfs_alloc \<Rightarrow> svfs \<Rightarrow> nat \<Rightarrow> sfs_disk_inode \<Rightarrow> u32 \<Rightarrow> (svfs \<times> nat option \<times> int) outcome" where
  "sfs_create_inode km s f d ino =
     (case alloc_inode (km_node km s) s inode_type_sfs_inode_info of
        (s1, None) \<Rightarrow> Ret (s1, None, - E_NO_MEM)
      | (s1, Some n) \<Rightarrow>
          bind_outcome (sfs_get_ops (di_type d)) (\<lambda>ops.
            Ret (upd_sin n (\<lambda>_. \<lparr>din = d, sin_ino = ino, dirty = False, reclaim_count = 1, sin_sem = 1\<rparr>) (inode_init s1 n ops (Some f)), Some n, 0)))"

definition lookup_sfs_nolock :: "svfs \<Rightarrow> nat \<Rightarrow> u32 \<Rightarrow> (svfs \<times> nat option) outcome" where
  "lookup_sfs_nolock s f ino =
     bind_outcome (of_option (list_scan (hash_lists (sfs_at s f)) (sfs_hash_list ino)
         (\<lambda>le. case le of SLink n \<Rightarrow> sin_ino (sin_at s n) = ino | SHead _ \<Rightarrow> False) (sfs_hash_list ino)))
       (\<lambda>le. case le of
           SHead _ \<Rightarrow> Ret (s, None)
         | SLink n \<Rightarrow>
             let s1 = inode_ref_inc s n
             in Ret (if ref_count (inodes s1 n) = 1 then upd_sin n (reclaim_count_update (\<lambda>c. c + 1)) s1 else s1, Some n))"

definition sfs_load_inode :: "sfs_alloc \<Rightarrow> svfs \<Rightarrow> nat \<Rightarrow> u32 \<Rightarrow> (svfs \<times> nat option \<times> int) outcome" where
  "sfs_load_inode km s f ino =
     bind_outcome (lock_sfs_fs s f) (\<lambda>s1.
     bind_outcome (lookup_sfs_nolock s1 f ino) (\<lambda>(s2, r). case r of
       Some n \<Rightarrow> Ret (unlock_sfs_fs s2 f, Some n, 0)
     | None \<Rightarrow>
         if \<not> km_din km s2 then Ret (unlock_sfs_fs s2 f, None, - E_NO_MEM)
         else assert_inuse s2 f ino
           (bind_outcome (sfs_rbuf s2 f DIN_SIZE ino 0) (\<lambda>(s3, bs, ret).
              if ret \<noteq> 0 then Ret (unlock_sfs_fs s3 f, None, ret)
              else let d = bytes_din bs in
                assert_then (di_nlinks d \<noteq> 0)
                  (bind_outcome (sfs_create_inode km s3 f d ino) (\<lambda>(s4, r, ret). case r of
                     None \<Rightarrow> Ret (unlock_sfs_fs s4 f, None, ret)
                   | Some n \<Rightarrow> Ret (unlock_sfs_fs (sfs_set_links s4 f n) f, Some n, 0)))))))"

subsection \<open>The block map of a file\<close>

definition bmap_undo :: "svfs \<Rightarrow> nat \<Rightarrow> u32 \<Rightarrow> u32 \<Rightarrow> int \<Rightarrow> (svfs \<times> u32 \<times> u32 \<times> int) outcome" where
  "bmap_undo s f entp ent ret =
     (if ent \<noteq> entp then bind_outcome (sfs_block_free s f ent) (\<lambda>s1. Ret (s1, entp, 0, ret)) else Ret (s, entp, 0, ret))"

definition bmap_fill :: "svfs \<Rightarrow> nat \<Rightarrow> u32 \<Rightarrow> u32 \<Rightarrow> u32 \<Rightarrow> (svfs \<times> u32 \<times> u32 \<times> int) outcome" where
  "bmap_fill s f entp ent offset =
     bind_outcome (sfs_block_alloc s f) (\<lambda>(s1, ino, ret).
       if ret \<noteq> 0 then bmap_undo s1 f entp ent ret
       else bind_outcome (sfs_wbuf s1 f (le4 ino) ent offset) (\<lambda>(s2, ret).
         if ret \<noteq> 0 then bind_outcome (sfs_block_free s2 f ino) (\<lambda>s3. bmap_undo s3 f entp ent ret)
         else Ret (s2, ent, ino, 0)))"

text \<open>The result is the new state, the entry block, the block and the code.\<close>

definition sfs_bmap_get_sub_nolock :: "svfs \<Rightarrow> nat \<Rightarrow> u32 \<Rightarrow> u32 \<Rightarrow> bool \<Rightarrow> (svfs \<times> u32 \<times> u32 \<times> int) outcome" where
  "sfs_bmap_get_sub_nolock s f entp index create =
     assert_then (index < SFS_BLK_NENTRY)
       (let offset = index * 4 in
        if entp \<noteq> 0 then
          bind_outcome (sfs_rbuf s f 4 entp offset) (\<lambda>(s1, bs, ret).
            if ret \<noteq> 0 then Ret (s1, entp, 0, ret)
            else let ino = of_le4 bs in
              if ino \<noteq> 0 \<or> \<not> create then Ret (s1, entp, ino, 0) else bmap_fill s1 f entp entp offset)
        else if \<not> create then Ret (s, entp, 0, 0)
        else bind_outcome (sfs_block_alloc s f) (\<lambda>(s1, ent, ret).
          if ret \<noteq> 0 then Ret (s1, entp, 0, ret) else bmap_fill s1 f entp ent offset))"

definition bmap_out :: "svfs \<Rightarrow> nat \<Rightarrow> u32 \<Rightarrow> (svfs \<times> u32 \<times> int) outcome" where
  "bmap_out s f ino = (if ino = 0 then Ret (s, 0, 0) else assert_inuse s f ino (Ret (s, ino, 0)))"

definition sfs_bmap_get_nolock :: "svfs \<Rightarrow> nat \<Rightarrow> nat \<Rightarrow> u32 \<Rightarrow> bool \<Rightarrow> (svfs \<times> u32 \<times> int) outcome" where
  "sfs_bmap_get_nolock s f n index create =
     (if index < SFS_NDIRECT then
        let ino = di_direct (din (sin_at s n)) ! unat index in
        if ino = 0 \<and> create then
          bind_outcome (sfs_block_alloc s f) (\<lambda>(s1, ino, ret).
            if ret \<noteq> 0 then Ret (s1, 0, ret)
            else bmap_out (upd_sin n (\<lambda>x. x\<lparr>din := (din x)\<lparr>di_direct := (di_direct (din x))[unat index := ino]\<rparr>, dirty := True\<rparr>) s1) f ino)
        else bmap_out s f ino
      else if index - SFS_NDIRECT < SFS_BLK_NENTRY then
        bind_outcome (sfs_bmap_get_sub_nolock s f (di_indirect (din (sin_at s n))) (index - SFS_NDIRECT) create) (\<lambda>(s1, ent, ino, ret).
          if ret \<noteq> 0 then Ret (s1, 0, ret)
          else if ent \<noteq> di_indirect (din (sin_at s1 n)) then
            assert_then (di_indirect (din (sin_at s1 n)) = 0)
              (bmap_out (upd_sin n (\<lambda>x. x\<lparr>din := (din x)\<lparr>di_indirect := ent\<rparr>, dirty := True\<rparr>) s1) f ino)
          else bmap_out s1 f ino)
      else Panic)"

definition sfs_bmap_free_sub_nolock :: "svfs \<Rightarrow> nat \<Rightarrow> u32 \<Rightarrow> u32 \<Rightarrow> (svfs \<times> int) outcome" where
  "sfs_bmap_free_sub_nolock s f ent index =
     assert_inuse s f ent (assert_then (index < SFS_BLK_NENTRY)
       (let offset = index * 4 in
        bind_outcome (sfs_rbuf s f 4 ent offset) (\<lambda>(s1, bs, ret).
          if ret \<noteq> 0 then Ret (s1, ret)
          else let ino = of_le4 bs in
            if ino \<noteq> 0 then
              bind_outcome (sfs_wbuf s1 f (le4 0) ent offset) (\<lambda>(s2, ret).
                if ret \<noteq> 0 then Ret (s2, ret) else bind_outcome (sfs_block_free s2 f ino) (\<lambda>s3. Ret (s3, 0)))
            else Ret (s1, 0))))"

definition sfs_bmap_free_nolock :: "svfs \<Rightarrow> nat \<Rightarrow> nat \<Rightarrow> u32 \<Rightarrow> (svfs \<times> int) outcome" where
  "sfs_bmap_free_nolock s f n index =
     (if index < SFS_NDIRECT then
        let ino = di_direct (din (sin_at s n)) ! unat index in
        if ino \<noteq> 0 then
          bind_outcome (sfs_block_free s f ino) (\<lambda>s1.
            Ret (upd_sin n (\<lambda>x. x\<lparr>din := (din x)\<lparr>di_direct := (di_direct (din x))[unat index := 0]\<rparr>, dirty := True\<rparr>) s1, 0))
        else Ret (s, 0)
      else if index - SFS_NDIRECT < SFS_BLK_NENTRY \<and> di_indirect (din (sin_at s n)) \<noteq> 0
      then sfs_bmap_free_sub_nolock s f (di_indirect (din (sin_at s n))) (index - SFS_NDIRECT)
      else Ret (s, 0))"

definition sfs_bmap_load_nolock :: "svfs \<Rightarrow> nat \<Rightarrow> nat \<Rightarrow> u32 \<Rightarrow> (svfs \<times> u32 \<times> int) outcome" where
  "sfs_bmap_load_nolock s f n index =
     assert_then (index \<le> di_blocks (din (sin_at s n)))
       (let create = (index = di_blocks (din (sin_at s n))) in
        bind_outcome (sfs_bmap_get_nolock s f n index create) (\<lambda>(s1, ino, ret).
          if ret \<noteq> 0 then Ret (s1, 0, ret)
          else assert_inuse s1 f ino
            (Ret (if create then upd_din n (di_blocks_update (\<lambda>b. b + 1)) s1 else s1, ino, 0))))"

definition sfs_bmap_truncate_nolock :: "svfs \<Rightarrow> nat \<Rightarrow> nat \<Rightarrow> (svfs \<times> int) outcome" where
  "sfs_bmap_truncate_nolock s f n =
     assert_then (di_blocks (din (sin_at s n)) \<noteq> 0)
       (bind_outcome (sfs_bmap_free_nolock s f n (di_blocks (din (sin_at s n)) - 1)) (\<lambda>(s1, ret).
          if ret \<noteq> 0 then Ret (s1, ret)
          else Ret (upd_sin n (\<lambda>x. x\<lparr>din := (din x)\<lparr>di_blocks := di_blocks (din x) - 1\<rparr>, dirty := True\<rparr>) s1, 0)))"

subsection \<open>Directory entries\<close>

text \<open>
  A \<open>struct sfs_disk_entry\<close> of 260 bytes at the address \<open>a\<close>: the number of the inode and the name.
\<close>

definition ENTRY_SIZE :: u32 where "ENTRY_SIZE = 260"

definition entry_ino :: "mem \<Rightarrow> nat \<Rightarrow> u32" where
  "entry_ino m a = of_le4 (load_bytes m a 4)"

definition entry_name :: "nat \<Rightarrow> nat" where
  "entry_name a = a + 4"

definition sfs_dirent_read_nolock :: "svfs \<Rightarrow> nat \<Rightarrow> nat \<Rightarrow> u32 \<Rightarrow> nat \<Rightarrow> (svfs \<times> int) outcome" where
  "sfs_dirent_read_nolock s f n slot a =
     assert_then (di_type (din (sin_at s n)) = SFS_TYPE_DIR \<and> 0 \<le> sint slot \<and> slot < di_blocks (din (sin_at s n)))
       (bind_outcome (sfs_bmap_load_nolock s f n slot) (\<lambda>(s1, ino, ret).
          if ret \<noteq> 0 then Ret (s1, ret)
          else assert_inuse s1 f ino
            (bind_outcome (sfs_rbuf s1 f ENTRY_SIZE ino 0) (\<lambda>(s2, bs, ret).
               if ret \<noteq> 0 then Ret (s2, ret)
               else Ret (s2\<lparr>kmem := (store_bytes (kmem s2) a bs)(entry_name a + SFS_MAX_FNAME_LEN := 0)\<rparr>, 0)))))"

text \<open>The loop of \<open>sfs_dirent_search_nolock\<close> on the \<open>k\<close> slots from \<open>i\<close>; the results are the inode number, the slot and the empty slot.\<close>

fun search_loop :: "nat \<Rightarrow> svfs \<Rightarrow> nat \<Rightarrow> nat \<Rightarrow> nat \<Rightarrow> nat \<Rightarrow> u32 \<Rightarrow> u32 \<Rightarrow> (svfs \<times> u32 option \<times> u32 option \<times> u32 \<times> int) outcome" where
  "search_loop 0 s f n name a i empty_slot = Ret (s, None, None, empty_slot, - E_NOENT)"
| "search_loop (Suc k) s f n name a i empty_slot =
     bind_outcome (sfs_dirent_read_nolock s f n i a) (\<lambda>(s1, ret).
       if ret \<noteq> 0 then Ret (s1, None, None, empty_slot, ret)
       else if entry_ino (kmem s1) a = 0 then search_loop k s1 f n name a (i + 1) i
       else bind_outcome (of_option (strcmp (kmem s1) name (entry_name a))) (\<lambda>c.
         if c = 0 then Ret (s1, Some (entry_ino (kmem s1) a), Some i, empty_slot, 0)
         else search_loop k s1 f n name a (i + 1) empty_slot))"

definition sfs_dirent_search_nolock :: "sfs_alloc \<Rightarrow> svfs \<Rightarrow> nat \<Rightarrow> nat \<Rightarrow> nat \<Rightarrow> (svfs \<times> u32 option \<times> u32 option \<times> u32 \<times> int) outcome" where
  "sfs_dirent_search_nolock km s f n name =
     bind_outcome (of_option (strlen (kmem s) name)) (\<lambda>l.
       assert_then (l \<le> SFS_MAX_FNAME_LEN)
         (case km_entry km s of
            None \<Rightarrow> Ret (s, None, None, 0, - E_NO_MEM)
          | Some a \<Rightarrow>
              let nslots = di_blocks (din (sin_at s n))
              in search_loop (nat (sint nslots)) s f n name a 0 nslots))"

fun findino_loop :: "nat \<Rightarrow> svfs \<Rightarrow> nat \<Rightarrow> nat \<Rightarrow> u32 \<Rightarrow> nat \<Rightarrow> u32 \<Rightarrow> (svfs \<times> int) outcome" where
  "findino_loop 0 s f n ino a i = Ret (s, - E_NOENT)"
| "findino_loop (Suc k) s f n ino a i =
     bind_outcome (sfs_dirent_read_nolock s f n i a) (\<lambda>(s1, ret).
       if ret \<noteq> 0 then Ret (s1, ret)
       else if entry_ino (kmem s1) a = ino then Ret (s1, 0) else findino_loop k s1 f n ino a (i + 1))"

definition sfs_dirent_findino_nolock :: "svfs \<Rightarrow> nat \<Rightarrow> nat \<Rightarrow> u32 \<Rightarrow> nat \<Rightarrow> (svfs \<times> int) outcome" where
  "sfs_dirent_findino_nolock s f n ino a = findino_loop (nat (sint (di_blocks (din (sin_at s n))))) s f n ino a 0"

definition sfs_lookup_once :: "sfs_alloc \<Rightarrow> svfs \<Rightarrow> nat \<Rightarrow> nat \<Rightarrow> nat \<Rightarrow> (svfs \<times> nat option \<times> u32 option \<times> int) outcome" where
  "sfs_lookup_once km s f n name =
     bind_outcome (lock_sin s n) (\<lambda>s1.
     bind_outcome (sfs_dirent_search_nolock km s1 f n name) (\<lambda>(s2, r, slot, _, ret).
       let s3 = unlock_sin s2 n in
       case r of
         Some ino \<Rightarrow> if ret = 0 then bind_outcome (sfs_load_inode km s3 f ino) (\<lambda>(s4, m, ret). Ret (s4, m, slot, ret)) else Ret (s3, None, slot, ret)
       | None \<Rightarrow> Ret (s3, None, slot, ret)))"

subsection \<open>Reading and writing\<close>

definition sfs_opendir :: "svfs \<Rightarrow> nat \<Rightarrow> u32 \<Rightarrow> (svfs \<times> int) outcome" where
  "sfs_opendir s n open_flags =
     Ret (s, if open_flags AND O_ACCMODE \<noteq> O_RDONLY then - E_ISDIR else if open_flags AND O_APPEND \<noteq> 0 then - E_ISDIR else 0)"

definition sfs_openfile :: "svfs \<Rightarrow> nat \<Rightarrow> u32 \<Rightarrow> (svfs \<times> int) outcome" where
  "sfs_openfile s n open_flags = Ret (s, 0)"

text \<open>The function pointers \<open>sfs_buf_op\<close> and \<open>sfs_block_op\<close>.\<close>

definition sfs_buf_op :: "bool \<Rightarrow> svfs \<Rightarrow> nat \<Rightarrow> nat \<Rightarrow> u32 \<Rightarrow> u32 \<Rightarrow> u32 \<Rightarrow> (svfs \<times> int) outcome" where
  "sfs_buf_op write s f buf sz ino offset =
     (if write then sfs_wbuf s f (load_bytes (kmem s) buf (unat sz)) ino offset
      else bind_outcome (sfs_rbuf s f sz ino offset) (\<lambda>(s1, bs, ret).
        Ret (if ret = 0 then s1\<lparr>kmem := store_bytes (kmem s1) buf bs\<rparr> else s1, ret)))"

definition sfs_block_op :: "bool \<Rightarrow> svfs \<Rightarrow> nat \<Rightarrow> nat \<Rightarrow> u32 \<Rightarrow> u32 \<Rightarrow> (svfs \<times> int) outcome" where
  "sfs_block_op write s f buf ino nblks = (if write then sfs_wblock s f buf ino nblks else sfs_rblock s f buf ino nblks)"

definition io_part :: "bool \<Rightarrow> svfs \<Rightarrow> nat \<Rightarrow> nat \<Rightarrow> nat \<Rightarrow> u32 \<Rightarrow> u32 \<Rightarrow> u32 \<Rightarrow> (svfs \<times> int) outcome" where
  "io_part write s f n buf blkno sz blkoff =
     bind_outcome (sfs_bmap_load_nolock s f n blkno) (\<lambda>(s1, ino, ret).
       if ret \<noteq> 0 then Ret (s1, ret) else sfs_buf_op write s1 f buf sz ino blkoff)"

definition io_block :: "bool \<Rightarrow> svfs \<Rightarrow> nat \<Rightarrow> nat \<Rightarrow> nat \<Rightarrow> u32 \<Rightarrow> (svfs \<times> int) outcome" where
  "io_block write s f n buf blkno =
     bind_outcome (sfs_bmap_load_nolock s f n blkno) (\<lambda>(s1, ino, ret).
       if ret \<noteq> 0 then Ret (s1, ret) else sfs_block_op write s1 f buf ino 1)"

text \<open>The loop over whole blocks: state, buffer, block, bytes done and code.\<close>

fun io_blocks :: "nat \<Rightarrow> bool \<Rightarrow> svfs \<Rightarrow> nat \<Rightarrow> nat \<Rightarrow> nat \<Rightarrow> u32 \<Rightarrow> u32 \<Rightarrow> (svfs \<times> nat \<times> u32 \<times> u32 \<times> int) outcome" where
  "io_blocks 0 write s f n buf blkno alen = Ret (s, buf, blkno, alen, 0)"
| "io_blocks (Suc k) write s f n buf blkno alen =
     bind_outcome (io_block write s f n buf blkno) (\<lambda>(s1, ret).
       if ret \<noteq> 0 then Ret (s1, buf, blkno, alen, ret)
       else io_blocks k write s1 f n (buf + unat SFS_BLKSIZE) (blkno + 1) (alen + SFS_BLKSIZE))"

definition io_out :: "svfs \<Rightarrow> nat \<Rightarrow> u32 \<Rightarrow> u32 \<Rightarrow> int \<Rightarrow> (svfs \<times> u32 \<times> int) outcome" where
  "io_out s n offset alen ret =
     Ret (if offset + alen > di_size (din (sin_at s n))
          then upd_sin n (\<lambda>x. x\<lparr>din := (din x)\<lparr>di_size := offset + alen\<rparr>, dirty := True\<rparr>) s else s, alen, ret)"

text \<open>The transfer from the first to the last byte, once the end is known.\<close>

definition io_transfer :: "bool \<Rightarrow> svfs \<Rightarrow> nat \<Rightarrow> nat \<Rightarrow> nat \<Rightarrow> u32 \<Rightarrow> u32 \<Rightarrow> (svfs \<times> u32 \<times> int) outcome" where
  "io_transfer write s f n buf offset endpos =
     (let blkno = offset div SFS_BLKSIZE;
          nblks = endpos div SFS_BLKSIZE - blkno;
          blkoff = offset mod SFS_BLKSIZE;
          sz = (if blkoff = 0 then 0 else if nblks \<noteq> 0 then SFS_BLKSIZE - blkoff else endpos - offset)
      in bind_outcome (if blkoff \<noteq> 0 then io_part write s f n buf blkno sz blkoff else Ret (s, 0)) (\<lambda>(s1, ret).
           if ret \<noteq> 0 then io_out s1 n offset 0 ret
           else if blkoff \<noteq> 0 \<and> nblks = 0 then io_out s1 n offset sz 0
           else
             let one = (if blkoff \<noteq> 0 then 1 else 0) in
             bind_outcome (io_blocks (unat (nblks - one)) write s1 f n (buf + unat sz) (blkno + one) sz) (\<lambda>(s2, buf2, blkno2, alen, ret).
               if ret \<noteq> 0 then io_out s2 n offset alen ret
               else let rest = endpos mod SFS_BLKSIZE in
                 if rest \<noteq> 0 then
                   bind_outcome (io_part write s2 f n buf2 blkno2 rest 0) (\<lambda>(s3, ret).
                     io_out s3 n offset (if ret \<noteq> 0 then alen else alen + rest) ret)
                 else io_out s2 n offset alen 0)))"

text \<open>The offset is signed; after the first test it and the end are not negative.\<close>

definition sfs_io_nolock :: "svfs \<Rightarrow> nat \<Rightarrow> nat \<Rightarrow> nat \<Rightarrow> u32 \<Rightarrow> u32 \<Rightarrow> bool \<Rightarrow> (svfs \<times> u32 \<times> int) outcome" where
  "sfs_io_nolock s f n buf offset alen write =
     (let d = din (sin_at s n); endpos = offset + alen in
      assert_then (di_type d \<noteq> SFS_TYPE_DIR)
        (if sint offset < 0 \<or> offset \<ge> SFS_MAX_FILE_SIZE \<or> sint offset > sint endpos then Ret (s, 0, - E_INVAL)
         else if offset = endpos then Ret (s, 0, 0)
         else let end1 = (if endpos > SFS_MAX_FILE_SIZE then SFS_MAX_FILE_SIZE else endpos) in
           if \<not> write then
             if offset \<ge> di_size d then Ret (s, 0, 0)
             else io_transfer False s f n buf offset (if end1 > di_size d then di_size d else end1)
           else io_transfer True s f n buf offset end1))"

definition sfs_io :: "svfs \<Rightarrow> nat \<Rightarrow> iobuf \<Rightarrow> bool \<Rightarrow> (svfs \<times> iobuf \<times> int) outcome" where
  "sfs_io s n iob write =
     bind_outcome (sfs_node s n) (\<lambda>f.
     bind_outcome (lock_sin s n) (\<lambda>s1.
     bind_outcome (sfs_io_nolock s1 f n (io_base iob) (io_offset iob) (io_resid iob) write) (\<lambda>(s2, alen, ret).
     bind_outcome (if alen \<noteq> 0 then iobuf_skip iob alen else Ret iob) (\<lambda>iob1. Ret (unlock_sin s2 n, iob1, ret)))))"

definition sfs_read :: "svfs \<Rightarrow> nat \<Rightarrow> iobuf \<Rightarrow> (svfs \<times> iobuf \<times> int) outcome" where
  "sfs_read s n iob = sfs_io s n iob False"

definition sfs_write :: "svfs \<Rightarrow> nat \<Rightarrow> iobuf \<Rightarrow> (svfs \<times> iobuf \<times> int) outcome" where
  "sfs_write s n iob = sfs_io s n iob True"

subsection \<open>Status, synchronisation, size\<close>

definition sfs_fsync :: "svfs \<Rightarrow> nat \<Rightarrow> (svfs \<times> int) outcome" where
  "sfs_fsync s n =
     bind_outcome (sfs_node s n) (\<lambda>f.
       if dirty (sin_at s n) then
         bind_outcome (lock_sin s n) (\<lambda>s1.
         bind_outcome
           (if dirty (sin_at s1 n) then
              bind_outcome (sfs_wbuf (upd_sin n (dirty_update (\<lambda>_. False)) s1) f (din_bytes (din (sin_at s1 n))) (sin_ino (sin_at s1 n)) 0) (\<lambda>(s2, ret).
                Ret (if ret \<noteq> 0 then upd_sin n (dirty_update (\<lambda>_. True)) s2 else s2, ret))
            else Ret (s1, 0)) (\<lambda>(s3, ret). Ret (unlock_sin s3 n, ret)))
       else Ret (s, 0))"

definition sfs_gettype :: "svfs \<Rightarrow> nat \<Rightarrow> (svfs \<times> u32 \<times> int) outcome" where
  "sfs_gettype s n =
     assert_then (in_type (inodes s n) = inode_type_sfs_inode_info)
       (let ty = di_type (din (sin_at s n)) in
        if ty = SFS_TYPE_DIR then Ret (s, S_IFDIR, 0)
        else if ty = SFS_TYPE_FILE then Ret (s, S_IFREG, 0)
        else if ty = SFS_TYPE_LINK then Ret (s, S_IFLNK, 0) else Panic)"

fun grow_loop :: "nat \<Rightarrow> svfs \<Rightarrow> nat \<Rightarrow> nat \<Rightarrow> u32 \<Rightarrow> (svfs \<times> int) outcome" where
  "grow_loop 0 s f n nblks = Ret (s, 0)"
| "grow_loop (Suc k) s f n nblks =
     bind_outcome (sfs_bmap_load_nolock s f n nblks) (\<lambda>(s1, _, ret).
       if ret \<noteq> 0 then Ret (s1, ret) else grow_loop k s1 f n (nblks + 1))"

fun shrink_loop :: "nat \<Rightarrow> svfs \<Rightarrow> nat \<Rightarrow> nat \<Rightarrow> (svfs \<times> int) outcome" where
  "shrink_loop 0 s f n = Ret (s, 0)"
| "shrink_loop (Suc k) s f n =
     bind_outcome (sfs_bmap_truncate_nolock s f n) (\<lambda>(s1, ret). if ret \<noteq> 0 then Ret (s1, ret) else shrink_loop k s1 f n)"

definition sfs_truncfile :: "svfs \<Rightarrow> nat \<Rightarrow> u32 \<Rightarrow> (svfs \<times> int) outcome" where
  "sfs_truncfile s n len =
     (if sint len < 0 \<or> len > SFS_MAX_FILE_SIZE then Ret (s, - E_INVAL)
      else bind_outcome (sfs_node s n) (\<lambda>f.
        let d = din (sin_at s n); tblks = ROUNDUP_DIV len SFS_BLKSIZE in
        if di_size d = len then assert_then (tblks = di_blocks d) (Ret (s, 0))
        else bind_outcome (lock_sin s n) (\<lambda>s1.
          let nblks = di_blocks (din (sin_at s1 n)) in
          bind_outcome
            (if nblks < tblks then grow_loop (unat (tblks - nblks)) s1 f n nblks
             else if tblks < nblks then shrink_loop (unat (nblks - tblks)) s1 f n else Ret (s1, 0)) (\<lambda>(s2, ret).
              if ret \<noteq> 0 then Ret (unlock_sin s2 n, ret)
              else assert_then (di_blocks (din (sin_at s2 n)) = tblks)
                (Ret (unlock_sin (upd_sin n (\<lambda>x. x\<lparr>din := (din x)\<lparr>di_size := len\<rparr>, dirty := True\<rparr>) s2) n, 0))))))"

text \<open>
  The operations below call others through the tables, so the tables are given in three stages: what
  \<open>sfs_close\<close>, \<open>sfs_fstat\<close>, \<open>sfs_tryseek\<close> and \<open>sfs_reclaim\<close> need, then with \<open>sfs_reclaim\<close> what dropping a
  reference needs, and at the end the complete tables.
\<close>

definition sfs_env1 :: "sfs_state vfs_env" where
  "sfs_env1 = gettype_env\<lparr>ops_at := \<lambda>k.
     if k = SFS_DIROPS then no_ops\<lparr>vop_magic := VOP_MAGIC, op_fsync := Some sfs_fsync, op_gettype := Some sfs_gettype\<rparr>
     else if k = SFS_FILEOPS
     then no_ops\<lparr>vop_magic := VOP_MAGIC, op_fsync := Some sfs_fsync, op_gettype := Some sfs_gettype, op_truncate := Some sfs_truncfile\<rparr>
     else no_ops\<rparr>"

definition sfs_close :: "svfs \<Rightarrow> nat \<Rightarrow> (svfs \<times> int) outcome" where
  "sfs_close s n = vop_fsync sfs_env1 s n"

definition sfs_fstat :: "svfs \<Rightarrow> nat \<Rightarrow> (svfs \<times> stat \<times> int) outcome" where
  "sfs_fstat s n =
     bind_outcome (vop_gettype sfs_env1 s n) (\<lambda>(s1, mode, ret).
       if ret \<noteq> 0 then Ret (s1, \<lparr>st_mode = mode, st_nlinks = 0, st_blocks = 0, st_size = 0\<rparr>, ret)
       else assert_then (in_type (inodes s1 n) = inode_type_sfs_inode_info)
         (let d = din (sin_at s1 n)
          in Ret (s1, \<lparr>st_mode = mode, st_nlinks = ucast (di_nlinks d), st_blocks = di_blocks d, st_size = di_size d\<rparr>, 0)))"

definition sfs_tryseek :: "svfs \<Rightarrow> nat \<Rightarrow> u32 \<Rightarrow> (svfs \<times> int) outcome" where
  "sfs_tryseek s n p =
     (if sint p < 0 \<or> p \<ge> SFS_MAX_FILE_SIZE then Ret (s, - E_INVAL)
      else assert_then (in_type (inodes s n) = inode_type_sfs_inode_info)
        (if p > di_size (din (sin_at s n)) then vop_truncate sfs_env1 s n p else Ret (s, 0)))"

subsection \<open>Reclaiming an inode\<close>

definition reclaim_blocks :: "svfs \<Rightarrow> nat \<Rightarrow> nat \<Rightarrow> svfs outcome" where
  "reclaim_blocks s f n =
     (if di_nlinks (din (sin_at s n)) = 0 then
        bind_outcome (sfs_block_free s f (sin_ino (sin_at s n))) (\<lambda>s1.
          let ent = di_indirect (din (sin_at s1 n)) in if ent \<noteq> 0 then sfs_block_free s1 f ent else Ret s1)
      else Ret s)"

definition sfs_reclaim :: "svfs \<Rightarrow> nat \<Rightarrow> (svfs \<times> int) outcome" where
  "sfs_reclaim s n =
     bind_outcome (sfs_node s n) (\<lambda>f.
     bind_outcome (lock_sfs_fs s f) (\<lambda>s1.
       assert_then (reclaim_count (sin_at s1 n) > 0)
         (let s2 = upd_sin n (reclaim_count_update (\<lambda>c. c - 1)) s1 in
          if reclaim_count (sin_at s2 n) \<noteq> 0 \<or> ref_count (inodes s2 n) \<noteq> 0 then Ret (unlock_sfs_fs s2 f, - E_BUSY)
          else bind_outcome (if di_nlinks (din (sin_at s2 n)) = 0 then vop_truncate sfs_env1 s2 n 0 else Ret (s2, 0)) (\<lambda>(s3, ret).
            if ret \<noteq> 0 then Ret (unlock_sfs_fs s3 f, ret)
            else bind_outcome (if dirty (sin_at s3 n) then vop_fsync sfs_env1 s3 n else Ret (s3, 0)) (\<lambda>(s4, ret).
              if ret \<noteq> 0 then Ret (unlock_sfs_fs s4 f, ret)
              else bind_outcome (reclaim_blocks (unlock_sfs_fs (sfs_remove_links s4 f n) f) f n) (\<lambda>s5.
                bind_outcome (inode_kill s5 n) (\<lambda>s6. Ret (s6, 0))))))))"

definition sfs_env2 :: "sfs_state vfs_env" where
  "sfs_env2 = sfs_env1\<lparr>ops_at := \<lambda>k. if k = SFS_DIROPS \<or> k = SFS_FILEOPS then (ops_at sfs_env1 k)\<lparr>op_reclaim := Some sfs_reclaim\<rparr> else no_ops\<rparr>"

subsection \<open>Names\<close>

definition sfs_lookup :: "sfs_alloc \<Rightarrow> svfs \<Rightarrow> nat \<Rightarrow> nat \<Rightarrow> (svfs \<times> nat option \<times> int) outcome" where
  "sfs_lookup km s n path =
     bind_outcome (sfs_node s n) (\<lambda>f.
       assert_then (kmem s path \<noteq> 0 \<and> kmem s path \<noteq> 47)
         (let s1 = inode_ref_inc s n in
          if di_type (din (sin_at s1 n)) \<noteq> SFS_TYPE_DIR then bind_outcome (inode_ref_dec sfs_env2 s1 n) (\<lambda>(s2, _). Ret (s2, None, - E_NOTDIR))
          else bind_outcome (sfs_lookup_once km s1 f n path) (\<lambda>(s2, subnode, _, ret).
            bind_outcome (inode_ref_dec sfs_env2 s2 n) (\<lambda>(s3, _). Ret (s3, if ret \<noteq> 0 then None else subnode, ret)))))"

text \<open>
  One round of the loop of \<open>sfs_namefile\<close>: \<open>a\<close> is the entry it reads parents' entries into, \<open>dotdot\<close> the
  address of the name of the parent. The last component is \<open>None\<close> when the loop goes on, otherwise
  the code with which it ends.
\<close>

definition namefile_step ::
  "sfs_alloc \<Rightarrow> nat \<Rightarrow> nat \<Rightarrow> nat \<Rightarrow> svfs \<Rightarrow> nat \<Rightarrow> nat \<Rightarrow> u32 \<Rightarrow> (svfs \<times> nat \<times> nat \<times> u32 \<times> int option) outcome" where
  "namefile_step km dotdot a f s n ptr resid =
     bind_outcome (sfs_lookup_once km s f n dotdot) (\<lambda>(s1, r, _, ret). case r of
       None \<Rightarrow> Ret (s1, n, ptr, resid, Some ret)
     | Some par \<Rightarrow>
         let ino = sin_ino (sin_at s1 n) in
         bind_outcome (inode_ref_dec sfs_env2 s1 n) (\<lambda>(s2, _).
           if n = par then bind_outcome (inode_ref_dec sfs_env2 s2 n) (\<lambda>(s3, _). Ret (s3, n, ptr, resid, Some 0))
           else assert_then (ino \<noteq> sin_ino (sin_at s2 par) \<and> di_type (din (sin_at s2 par)) = SFS_TYPE_DIR)
             (bind_outcome (lock_sin s2 par) (\<lambda>s3.
              bind_outcome (sfs_dirent_findino_nolock s3 f par ino a) (\<lambda>(s4, ret).
                let s5 = unlock_sin s4 par in
                if ret \<noteq> 0 then Ret (s5, par, ptr, resid, Some ret)
                else bind_outcome (of_option (strlen (kmem s5) (entry_name a))) (\<lambda>l.
                  let alen = of_nat l + 1 :: u32 in
                  if alen > resid then Ret (s5, par, ptr, resid, Some (- E_NO_MEM))
                  else let p1 = ptr - unat alen;
                           m = (memcpy (kmem s5) p1 (entry_name a) (unat (alen - 1)))(p1 + unat alen - 1 := 47)
                       in Ret (s5\<lparr>kmem := m\<rparr>, par, p1, resid - alen, None)))))))"

partial_function (option) namefile_loop ::
  "sfs_alloc \<Rightarrow> nat \<Rightarrow> nat \<Rightarrow> nat \<Rightarrow> svfs \<Rightarrow> nat \<Rightarrow> nat \<Rightarrow> u32 \<Rightarrow> (svfs \<times> nat \<times> nat \<times> u32 \<times> int) outcome option" where
  "namefile_loop km dotdot a f s n ptr resid =
     (case namefile_step km dotdot a f s n ptr resid of
        Panic \<Rightarrow> Some Panic
      | Ret (s1, n1, ptr1, resid1, st) \<Rightarrow>
          (case st of None \<Rightarrow> namefile_loop km dotdot a f s1 n1 ptr1 resid1 | Some ret \<Rightarrow> Some (Ret (s1, n1, ptr1, resid1, ret))))"

definition sfs_namefile :: "sfs_alloc \<Rightarrow> nat \<Rightarrow> svfs \<Rightarrow> nat \<Rightarrow> iobuf \<Rightarrow> (svfs \<times> iobuf \<times> int) outcome" where
  "sfs_namefile km dotdot s n iob =
     (if io_resid iob \<le> 2 then Ret (s, iob, - E_NO_MEM)
      else case km_entry km s of
        None \<Rightarrow> Ret (s, iob, - E_NO_MEM)
      | Some a \<Rightarrow>
          bind_outcome (sfs_node s n) (\<lambda>f.
          bind_outcome (case namefile_loop km dotdot a f (inode_ref_inc s n) n (io_base iob + unat (io_resid iob)) (io_resid iob - 2) of
              None \<Rightarrow> Panic | Some r \<Rightarrow> r) (\<lambda>(s1, n1, ptr, resid, ret).
            if ret \<noteq> 0 then bind_outcome (inode_ref_dec sfs_env2 s1 n1) (\<lambda>(s2, _). Ret (s2, iob, ret))
            else
              let alen = io_resid iob - resid - 2;
                  p = io_base iob + 1;
                  m = (memmove (kmem s1) p ptr (unat alen))(p - 1 := 47, p + unat alen := 0)
              in bind_outcome (iobuf_skip iob alen) (\<lambda>iob1. Ret (s1\<lparr>kmem := m\<rparr>, iob1, 0)))))"

fun getdirentry_loop :: "nat \<Rightarrow> svfs \<Rightarrow> nat \<Rightarrow> nat \<Rightarrow> u32 \<Rightarrow> nat \<Rightarrow> u32 \<Rightarrow> (svfs \<times> int) outcome" where
  "getdirentry_loop 0 s f n slot a i = Ret (s, - E_NOENT)"
| "getdirentry_loop (Suc k) s f n slot a i =
     bind_outcome (sfs_dirent_read_nolock s f n i a) (\<lambda>(s1, ret).
       if ret \<noteq> 0 then Ret (s1, ret)
       else if entry_ino (kmem s1) a \<noteq> 0 then
         if slot = 0 then Ret (s1, 0) else getdirentry_loop k s1 f n (slot - 1) a (i + 1)
       else getdirentry_loop k s1 f n slot a (i + 1))"

definition sfs_getdirentry_sub_nolock :: "svfs \<Rightarrow> nat \<Rightarrow> nat \<Rightarrow> u32 \<Rightarrow> nat \<Rightarrow> (svfs \<times> int) outcome" where
  "sfs_getdirentry_sub_nolock s f n slot a = getdirentry_loop (nat (sint (di_blocks (din (sin_at s n))))) s f n slot a 0"

definition sfs_dentry_size :: u32 where
  "sfs_dentry_size = of_nat SFS_MAX_FNAME_LEN + 1"

definition sfs_getdirentry :: "sfs_alloc \<Rightarrow> svfs \<Rightarrow> nat \<Rightarrow> iobuf \<Rightarrow> (svfs \<times> iobuf \<times> int) outcome" where
  "sfs_getdirentry km s n iob =
     (case km_entry km s of
        None \<Rightarrow> Ret (s, iob, - E_NO_MEM)
      | Some a \<Rightarrow>
          bind_outcome (sfs_node s n) (\<lambda>f.
            let offset = io_offset iob; slot = offset div sfs_dentry_size in
            if sint offset < 0 \<or> offset mod sfs_dentry_size \<noteq> 0 then Ret (s, iob, - E_INVAL)
            else if slot > di_blocks (din (sin_at s n)) then Ret (s, iob, - E_NOENT)
            else bind_outcome (lock_sin s n) (\<lambda>s1.
              bind_outcome (sfs_getdirentry_sub_nolock s1 f n slot a) (\<lambda>(s2, ret).
                let s3 = unlock_sin s2 n in
                if ret \<noteq> 0 then Ret (s3, iob, ret)
                else bind_outcome (iobuf_move (kmem s3) iob (entry_name a) sfs_dentry_size True) (\<lambda>(m, iob1, _, ret). Ret (s3\<lparr>kmem := m\<rparr>, iob1, ret))))))"

subsection \<open>The tables\<close>

definition sfs_node_dirops :: "sfs_alloc \<Rightarrow> nat \<Rightarrow> sfs_state inode_ops" where
  "sfs_node_dirops km dotdot = no_ops\<lparr>vop_magic := VOP_MAGIC, op_open := Some sfs_opendir, op_close := Some sfs_close, op_fstat := Some sfs_fstat,
     op_fsync := Some sfs_fsync, op_namefile := Some (sfs_namefile km dotdot), op_getdirentry := Some (sfs_getdirentry km),
     op_reclaim := Some sfs_reclaim, op_gettype := Some sfs_gettype, op_lookup := Some (sfs_lookup km)\<rparr>"

definition sfs_node_fileops :: "sfs_state inode_ops" where
  "sfs_node_fileops = no_ops\<lparr>vop_magic := VOP_MAGIC, op_open := Some sfs_openfile, op_close := Some sfs_close, op_read := Some sfs_read,
     op_write := Some sfs_write, op_fstat := Some sfs_fstat, op_fsync := Some sfs_fsync, op_reclaim := Some sfs_reclaim,
     op_gettype := Some sfs_gettype, op_tryseek := Some sfs_tryseek, op_truncate := Some sfs_truncfile\<rparr>"

end
