(* ===== verification/SfsFs.thy ===== *)
theory SfsFs
  imports Sfs
begin

text \<open>
  The simple file system as a whole, \<^verbatim>\<open>kern/fs/sfs/sfs_fs.c\<close> and \<^verbatim>\<open>sfs.c\<close>: mounting, synchronising and
  unmounting, and the tables of a kernel with devices and one such file system.
\<close>

partial_function (option) sync_loop :: "svfs \<Rightarrow> nat \<Rightarrow> nat option \<Rightarrow> svfs outcome option" where
  "sync_loop s f le =
     (case list_next (inode_links (sfs_at s f)) le of
        None \<Rightarrow> Some (Ret s)
      | Some n \<Rightarrow> (case vop_fsync sfs_env1 s n of Panic \<Rightarrow> Some Panic | Ret (s1, _) \<Rightarrow> sync_loop s1 f (Some n)))"

definition sfs_sync :: "svfs \<Rightarrow> nat \<Rightarrow> (svfs \<times> int) outcome" where
  "sfs_sync s f =
     bind_outcome (lock_sfs_fs s f) (\<lambda>s1.
     bind_outcome (case sync_loop s1 f None of None \<Rightarrow> Panic | Some r \<Rightarrow> r) (\<lambda>s2.
       let s3 = unlock_sfs_fs s2 f in
       if super_dirty (sfs_at s3 f) then
         bind_outcome (sfs_sync_super (upd_sfs f (super_dirty_update (\<lambda>_. False)) s3) f) (\<lambda>(s4, ret).
           if ret \<noteq> 0 then Ret (upd_sfs f (super_dirty_update (\<lambda>_. True)) s4, ret)
           else bind_outcome (sfs_sync_freemap s4 f) (\<lambda>(s5, ret).
             if ret \<noteq> 0 then Ret (upd_sfs f (super_dirty_update (\<lambda>_. True)) s5, ret) else Ret (s5, 0)))
       else Ret (s3, 0)))"

definition sfs_get_root :: "sfs_alloc \<Rightarrow> svfs \<Rightarrow> nat \<Rightarrow> (svfs \<times> nat option) outcome" where
  "sfs_get_root km s f = bind_outcome (sfs_load_inode km s f SFS_BLKN_ROOT) (\<lambda>(s1, r, ret). if ret \<noteq> 0 then Panic else Ret (s1, r))"

definition sfs_unmount :: "svfs \<Rightarrow> nat \<Rightarrow> (svfs \<times> int) outcome" where
  "sfs_unmount s f =
     (if \<not> list_empty (inode_links (sfs_at s f)) None then Ret (s, - E_BUSY)
      else assert_then (\<not> super_dirty (sfs_at s f)) (Ret (s, 0)))"

fun cleanup_loop :: "nat \<Rightarrow> svfs \<Rightarrow> nat \<Rightarrow> svfs outcome" where
  "cleanup_loop 0 s f = Ret s"
| "cleanup_loop (Suc k) s f = bind_outcome (sfs_sync s f) (\<lambda>(s1, ret). if ret = 0 then Ret s1 else cleanup_loop k s1 f)"

definition sfs_cleanup :: "svfs \<Rightarrow> nat \<Rightarrow> svfs outcome" where
  "sfs_cleanup s f = cleanup_loop 32 s f"

subsection \<open>Mounting\<close>

text \<open>The device is named by its inode.\<close>

definition sfs_init_read :: "svfs \<Rightarrow> nat \<Rightarrow> u32 \<Rightarrow> nat \<Rightarrow> (svfs \<times> int) outcome" where
  "sfs_init_read s dev blkno buf =
     bind_outcome (dop_io s (devices (priv s) dev) (iobuf_init buf SFS_BLKSIZE (blkno * SFS_BLKSIZE)) False) (\<lambda>(s1, _, ret). Ret (s1, ret))"

fun init_freemap_loop :: "nat \<Rightarrow> svfs \<Rightarrow> nat \<Rightarrow> u32 \<Rightarrow> nat \<Rightarrow> (svfs \<times> int) outcome" where
  "init_freemap_loop 0 s dev blkno data = Ret (s, 0)"
| "init_freemap_loop (Suc k) s dev blkno data =
     bind_outcome (sfs_init_read s dev blkno data) (\<lambda>(s1, ret).
       if ret \<noteq> 0 then Ret (s1, ret) else init_freemap_loop k s1 dev (blkno + 1) (data + unat SFS_BLKSIZE))"

definition sfs_init_freemap :: "svfs \<Rightarrow> nat \<Rightarrow> bitmap \<Rightarrow> nat \<Rightarrow> u32 \<Rightarrow> u32 \<Rightarrow> (svfs \<times> int) outcome" where
  "sfs_init_freemap s dev fm data blkno nblks =
     assert_then (snd (bitmap_getdata fm) = nblks * SFS_BLKSIZE) (init_freemap_loop (unat nblks) s dev blkno data)"

definition words_at :: "mem \<Rightarrow> nat \<Rightarrow> nat \<Rightarrow> u32 list" where
  "words_at m a k = map (\<lambda>i. of_le4 (load_bytes m (a + 4 * i) 4)) [0 ..< k]"

fun count_unused :: "nat \<Rightarrow> bitmap \<Rightarrow> u32 \<Rightarrow> u32 \<Rightarrow> u32 outcome" where
  "count_unused 0 fm i unused = Ret unused"
| "count_unused (Suc k) fm i unused =
     bind_outcome (bitmap_test fm i) (\<lambda>b. count_unused k fm (i + 1) (if b then unused + 1 else unused))"

text \<open>What the \<open>kmalloc\<close> calls of \<open>sfs_do_mount\<close> return; \<open>mb_data\<close> is the address of the words of the bitmap.\<close>

record mount_blocks =
  mb_fs :: "nat option"
  mb_buffer :: "nat option"
  mb_hash :: bool
  mb_bitmap :: bool
  mb_map :: bool
  mb_data :: nat

definition SUPER_SIZE :: nat where "SUPER_SIZE = 44"

definition sfs_do_mount :: "mount_blocks \<Rightarrow> svfs \<Rightarrow> nat \<Rightarrow> (svfs \<times> nat option \<times> int) outcome" where
  "sfs_do_mount mb s dev =
     (let D = devices (priv s) dev in
      if d_blocksize D \<noteq> SFS_BLKSIZE then Ret (s, None, - E_NA_DEV)
      else case mb_fs mb of None \<Rightarrow> Ret (s, None, - E_NO_MEM) | Some f \<Rightarrow>
      (case mb_buffer mb of None \<Rightarrow> Ret (s, None, - E_NO_MEM) | Some b \<Rightarrow>
       let s1 = upd_sfs f (\<lambda>x. x\<lparr>sfs_dev := dev, sfs_buffer := b\<rparr>) s in
       bind_outcome (sfs_init_read s1 dev SFS_BLKN_SUPER b) (\<lambda>(s2, ret).
       if ret \<noteq> 0 then Ret (s2, None, ret) else
       let sp = bytes_super (load_bytes (kmem s2) b SUPER_SIZE) in
       if s_magic sp \<noteq> SFS_MAGIC then Ret (s2, None, - E_INVAL)
       else if s_blocks sp > d_blocks D then Ret (s2, None, - E_INVAL)
       else
         let sp1 = sp\<lparr>s_info := (s_info sp)[SFS_MAX_INFO_LEN := 0]\<rparr>;
             s3 = upd_sfs f (super_update (\<lambda>_. sp1)) (s2\<lparr>kmem := (kmem s2)(b + 12 + SFS_MAX_INFO_LEN := 0)\<rparr>)
         in if \<not> mb_hash mb then Ret (s3, None, - E_NO_MEM) else
         let s4 = upd_sfs f (\<lambda>x. x\<lparr>hash_lists := fold (\<lambda>i h. list_init h (SHead i)) [0 ..< SFS_HLIST_SIZE] (hash_lists x)\<rparr>) s3 in
         bind_outcome (bitmap_create (mb_bitmap mb) (mb_map mb) (sfs_freemap_bits sp1)) (\<lambda>r. case r of
           None \<Rightarrow> Ret (s4, None, - E_NO_MEM)
         | Some fm \<Rightarrow>
             bind_outcome (sfs_init_freemap s4 dev fm (mb_data mb) SFS_BLKN_FREEMAP (sfs_freemap_blocks sp1)) (\<lambda>(s5, ret).
               if ret \<noteq> 0 then Ret (s5, None, ret) else
               let fm1 = fm\<lparr>bmap := words_at (kmem s5) (mb_data mb) (unat (nwords fm))\<rparr> in
               bind_outcome (count_unused (unat (sfs_freemap_bits sp1)) fm1 0 0) (\<lambda>unused.
                 assert_then (unused = s_unused_blocks sp1)
                   (Ret (upd_sfs f (\<lambda>x. x\<lparr>freemap := fm1, freemap_data := mb_data mb, super_dirty := False, fs_sem := 1, io_sem := 1, mutex_sem := 1,
                       inode_links := list_init (inode_links x) None\<rparr>) s5, Some f, 0))))))))"

definition sfs_mount :: "mount_blocks \<Rightarrow> svfs \<Rightarrow> nat \<Rightarrow> (svfs \<times> int) outcome" where
  "sfs_mount mb s name = vfs_mount (sfs_do_mount mb) s name"

definition sfs_init :: "mount_blocks \<Rightarrow> svfs \<Rightarrow> nat \<Rightarrow> svfs outcome" where
  "sfs_init mb s name = bind_outcome (sfs_mount mb s name) (\<lambda>(s1, ret). if ret \<noteq> 0 then Panic else Ret s1)"

subsection \<open>The tables of the kernel\<close>

definition sfs_env :: "sfs_alloc \<Rightarrow> nat \<Rightarrow> sfs_state vfs_env" where
  "sfs_env km dotdot =
     \<lparr>ops_at = \<lambda>k. if k = SFS_DIROPS then sfs_node_dirops km dotdot else if k = SFS_FILEOPS then sfs_node_fileops else dev_node_ops,
      fs_at = \<lambda>_. \<lparr>fs_sync = sfs_sync, fs_get_root = sfs_get_root km, fs_unmount = sfs_unmount, fs_cleanup = sfs_cleanup\<rparr>\<rparr>"

end
