(* ===== verification/SfsDisk.thy ===== *)
theory SfsDisk
  imports Sfs
begin

text \<open>
  What the transfers of the simple file system do: a block read from the disk device arrives in the
  buffer, a block written arrives on the disk, and only the buffers change in memory.
\<close>

subsection \<open>One block through the disk driver\<close>

definition disk_ready :: "'a dev_state_scheme \<Rightarrow> nat \<Rightarrow> bool" where
  "disk_ready d n \<longleftrightarrow> d_driver (devices d n) = Disk0 \<and> unat (d_blocks (devices d n)) \<le> 2 ^ 19 \<and> VALID_IDE (disks d) DISK0_DEV_NO \<and>
     (\<forall>i. \<not> poll_err (disks d) i) \<and> (\<forall>i. length (ide_disk (disks d) DISK0_DEV_NO i) = SECTSIZE)"

definition disk_block :: "'a dev_state_scheme \<Rightarrow> nat \<Rightarrow> u8 list" where
  "disk_block d b = concat (map (ide_disk (disks d) DISK0_DEV_NO) [8 * b ..< 8 * b + 8])"

lemma concat_upt_length: "(\<And>i. length (g i) = l) \<Longrightarrow> length (concat (map g [a ..< a + k])) = k * l"
  by (induction k) auto

lemma concat_upt_nth:
  assumes "\<And>i. length (g i) = l" "q < k * l"
  shows "concat (map g [a ..< a + k]) ! q = g (a + q div l) ! (q mod l)"
  using assms(2)
proof (induction k)
  case (Suc k)
  have len: "length (concat (map g [a ..< a + k])) = k * l" by (rule concat_upt_length [OF assms(1)])
  show ?case
  proof (cases "q < k * l")
    case True
    then show ?thesis using Suc.IH len by (simp add: nth_append)
  next
    case False
    then have l: "q - k * l < l" using Suc.prems by simp
    then have "q div l = k" "q mod l = q - k * l"
      using False by (metis (no_types, lifting) add.commute div_mult_self3 div_less gr_implies_not0 le_add_diff_inverse not_less add_0, metis False l le_add_diff_inverse mod_less mod_mult_self3 not_less)
    then show ?thesis using False len by (simp add: nth_append)
  qed
qed simp

lemma disk_block_length: "disk_ready d n \<Longrightarrow> length (disk_block d b) = 4096"
  using concat_upt_length [of "ide_disk (disks d) DISK0_DEV_NO" SECTSIZE "8 * b" 8] by (simp add: disk_block_def disk_ready_def SECTSIZE_def)

lemma disk_block_nth: "disk_ready d n \<Longrightarrow> q < 4096 \<Longrightarrow> disk_block d b ! q = ide_disk (disks d) DISK0_DEV_NO (8 * b + q div 512) ! (q mod 512)"
  using concat_upt_nth [of "ide_disk (disks d) DISK0_DEV_NO" SECTSIZE q 8 "8 * b"] by (simp add: disk_block_def disk_ready_def SECTSIZE_def)

text \<open>Words below the sign bit.\<close>

lemma sint_small: "unat x < 2 ^ 31 \<Longrightarrow> sint x = int (unat x)" for x :: u32
proof -
  assume "unat x < 2 ^ 31"
  then have "int (unat x) < int (2 ^ 31)" by (simp only: of_nat_less_iff)
  then have "uint x < 2 ^ 31" by simp
  moreover have "- (2 ^ 31) \<le> uint x" by (rule order_trans [of _ 0]) simp_all
  ultimately have "signed_take_bit 31 (uint x) = uint x" by (intro signed_take_bit_int_eq_self)
  then show ?thesis by (simp add: sint_uint)
qed

lemma unat_mult_small: "unat x * unat y < 2 ^ 32 \<Longrightarrow> unat (x * y) = unat x * unat y" for x y :: u32
  by (simp add: unat_word_ariths)

lemma unat_add_small: "unat x + unat y < 2 ^ 32 \<Longrightarrow> unat (x + y) = unat x + unat y" for x y :: u32
  by (simp add: unat_word_ariths)

text \<open>The arithmetic of a request for block \<open>b\<close>.\<close>

lemma block_request:
  fixes b :: u32
  assumes "b < m" "unat m \<le> 2 ^ 19"
  shows "sint (b * SFS_BLKSIZE) = int (unat b) * 4096" "unat (b * SFS_BLKSIZE) = unat b * 4096" "b + 1 \<le> m"
    "unat (b * DISK0_BLK_NSECT) = 8 * unat b" "b * DISK0_BLK_NSECT < MAX_DISK_NSECS" "b * DISK0_BLK_NSECT + 8 \<le> MAX_DISK_NSECS"
proof -
  have b: "unat b < 2 ^ 19" using assms by (simp add: word_less_nat_alt)
  have c: "unat SFS_BLKSIZE = 4096" "unat DISK0_BLK_NSECT = 8" by (simp_all add: SFS_BLKSIZE_def DISK0_BLK_NSECT_def DISK0_BLKSIZE_def unat_div)
  show u: "unat (b * SFS_BLKSIZE) = unat b * 4096" using b by (subst unat_mult_small) (simp_all add: c)
  have "unat (b * SFS_BLKSIZE) < 2 ^ 31" using b u by simp
  from sint_small [OF this] show "sint (b * SFS_BLKSIZE) = int (unat b) * 4096" using u by simp
  show "b + 1 \<le> m" using assms(1) by (rule inc_le)
  show v: "unat (b * DISK0_BLK_NSECT) = 8 * unat b" using b by (subst unat_mult_small) (simp_all add: c)
  show "b * DISK0_BLK_NSECT < MAX_DISK_NSECS" using v b by (simp add: word_less_nat_alt MAX_DISK_NSECS_def)
  have "unat (b * DISK0_BLK_NSECT + 8) = 8 * unat b + 8" using v b by (subst unat_add_small) simp_all
  then show "b * DISK0_BLK_NSECT + 8 \<le> MAX_DISK_NSECS" using b by (simp add: word_le_nat_alt MAX_DISK_NSECS_def)
qed

lemma disk0_read_round:
  fixes s :: "'a dvfs_scheme" and b :: u32
  assumes ok: "disk_ready (priv s) n" and b: "b < d_blocks (devices (priv s) n)"
  shows "\<exists>d. disk0_round s (iobuf_init a SFS_BLKSIZE off) False SFS_BLKSIZE b =
       Ret (s\<lparr>kmem := block_copy (store_bytes (kmem s) (disk0_buffer (priv s)) (disk_block (priv s) (unat b))) a (disk0_buffer (priv s)) 4096, priv := (priv s)\<lparr>disks := d\<rparr>\<rparr>,
         \<lparr>io_base = a + 4096, io_offset = off + SFS_BLKSIZE, io_len = SFS_BLKSIZE, io_resid = 0\<rparr>, 0, b + 1) \<and>
     ide_disk d = ide_disk (disks (priv s)) \<and> ide_devices d = ide_devices (disks (priv s)) \<and> poll_err d = poll_err (disks (priv s))"
proof -
  note R = ok [unfolded disk_ready_def]
  have bl: "unat (d_blocks (devices (priv s) n)) \<le> 2 ^ 19" using R by simp
  note q = block_request [OF b bl]
  have c: "1 * DISK0_BLK_NSECT = 8" "DISK0_BLKSIZE = SFS_BLKSIZE" "SFS_BLKSIZE div SFS_BLKSIZE = 1" "SFS_BLKSIZE mod SFS_BLKSIZE = 0" "DISK0_BUFSIZE > SFS_BLKSIZE" "unat SFS_BLKSIZE = 4096"
    by (simp_all add: DISK0_BLK_NSECT_def DISK0_BLKSIZE_def SFS_BLKSIZE_def DISK0_BUFSIZE_def)
  have "(8 :: u32) \<le> MAX_NSECS" "VALID_IDE (disks (priv s)) DISK0_DEV_NO" "\<forall>i < unat (8 :: u32). \<not> poll_err (disks (priv s)) (polls (disks (priv s)) + i)"
    using R by (simp_all add: MAX_NSECS_def)
  from ide_read_secs_ok [OF this(1,2) q(5,6) this(3)] obtain d where d: "ide_read_secs (disks (priv s)) DISK0_DEV_NO (b * DISK0_BLK_NSECT) 8 =
       Ret (d, 0, map (ide_disk (disks (priv s)) DISK0_DEV_NO) [8 * unat b ..< 8 * unat b + 8])"
     "ide_disk d = ide_disk (disks (priv s))" "ide_devices d = ide_devices (disks (priv s))" "poll_err d = poll_err (disks (priv s))" unfolding q(4) by auto
  let ?s1 = "s\<lparr>kmem := store_bytes (kmem s) (disk0_buffer (priv s)) (disk_block (priv s) (unat b)), priv := (priv s)\<lparr>disks := d\<rparr>\<rparr>"
  have rd: "disk0_read_blks_nolock s b 1 = Ret ?s1" unfolding disk0_read_blks_nolock_def c Let_def d(1) by (simp add: disk_block_def)
  have mv: "iobuf_move (kmem ?s1) (iobuf_init a SFS_BLKSIZE off) (disk0_buffer (priv s)) SFS_BLKSIZE True =
     Ret (block_copy (kmem ?s1) a (disk0_buffer (priv s)) 4096, \<lparr>io_base = a + 4096, io_offset = off + SFS_BLKSIZE, io_len = SFS_BLKSIZE, io_resid = 0\<rparr>, SFS_BLKSIZE, 0)"
    by (subst iobuf_move_spec [OF refl]) (simp add: iobuf_init_def c)
  have "disk0_round s (iobuf_init a SFS_BLKSIZE off) False SFS_BLKSIZE b =
     Ret (?s1\<lparr>kmem := block_copy (kmem ?s1) a (disk0_buffer (priv s)) 4096\<rparr>, \<lparr>io_base = a + 4096, io_offset = off + SFS_BLKSIZE, io_len = SFS_BLKSIZE, io_resid = 0\<rparr>, 0, b + 1)"
    unfolding disk0_round_def using c(5) by (simp only: c Let_def if_True if_False rd bind_outcome.simps) (simp add: mv [simplified] c)
  then show ?thesis using d(2-4) by (intro exI [of _ d]) simp
qed

lemma load_sectors_nth: "j < k \<Longrightarrow> load_sectors_at m a k ! j = map (\<lambda>i. m (a + SECTSIZE * j + i)) [0 ..< SECTSIZE]"
  by (simp add: load_sectors_at_def)

lemma load_bytes_length [simp]: "length (load_bytes m a k) = k"
  by (simp add: load_bytes_def)

lemma load_bytes_nth [simp]: "i < k \<Longrightarrow> load_bytes m a k ! i = m (a + i)"
  by (simp add: load_bytes_def)

lemma load_bytes_cong: "(\<And>q. a \<le> q \<Longrightarrow> q < a + k \<Longrightarrow> m q = m' q) \<Longrightarrow> load_bytes m a k = load_bytes m' a k"
  by (simp add: load_bytes_def)

lemma disk_block_written:
  assumes ok: "disk_ready p n" "disk_ready p' n'"
    and w: "\<And>q. ide_disk (disks p') DISK0_DEV_NO q = (if 8 * b \<le> q \<and> q < 8 * b + 8 then load_sectors_at m a 8 ! (q - 8 * b) else ide_disk (disks p) DISK0_DEV_NO q)"
  shows "disk_block p' c = (if c = b then load_bytes m a 4096 else disk_block p c)"
proof (rule nth_equalityI)
  show "length (disk_block p' c) = length (if c = b then load_bytes m a 4096 else disk_block p c)"
    by (simp add: disk_block_length [OF ok(1)] disk_block_length [OF ok(2)])
  fix q assume "q < length (disk_block p' c)"
  then have q: "q < 4096" by (simp add: disk_block_length [OF ok(2)])
  then have r: "q div 512 < 8" by simp
  show "disk_block p' c ! q = (if c = b then load_bytes m a 4096 else disk_block p c) ! q"
  proof (cases "c = b")
    case True
    then have "disk_block p' c ! q = load_sectors_at m a 8 ! (q div 512) ! (q mod 512)" using disk_block_nth [OF ok(2) q] w r by simp
    then show ?thesis using True q r by (simp add: load_sectors_nth SECTSIZE_def add.assoc)
  next
    case False
    then have "\<not> (8 * b \<le> 8 * c + q div 512 \<and> 8 * c + q div 512 < 8 * b + 8)" using r by linarith
    then have "ide_disk (disks p') DISK0_DEV_NO (8 * c + q div 512) = ide_disk (disks p) DISK0_DEV_NO (8 * c + q div 512)" unfolding w by (rule if_not_P)
    then show ?thesis using False disk_block_nth [OF ok(2) q, of c] disk_block_nth [OF ok(1) q, of c] by simp
  qed
qed

lemma disk0_write_round:
  fixes s :: "'a dvfs_scheme" and b :: u32
  assumes ok: "disk_ready (priv s) n" and b: "b < d_blocks (devices (priv s) n)"
  shows "\<exists>d. disk0_round s (iobuf_init a SFS_BLKSIZE off) True SFS_BLKSIZE b =
       Ret (s\<lparr>kmem := block_copy (kmem s) (disk0_buffer (priv s)) a 4096, priv := (priv s)\<lparr>disks := d\<rparr>\<rparr>,
         \<lparr>io_base = a + 4096, io_offset = off + SFS_BLKSIZE, io_len = SFS_BLKSIZE, io_resid = 0\<rparr>, 0, b + 1) \<and>
     disk_ready ((priv s)\<lparr>disks := d\<rparr>) n \<and> disk_block ((priv s)\<lparr>disks := d\<rparr>) = (disk_block (priv s))(unat b := load_bytes (kmem s) a 4096)"
proof -
  note R = ok [unfolded disk_ready_def]
  let ?P = "disk0_buffer (priv s)"
  let ?m = "block_copy (kmem s) ?P a 4096"
  have bl: "unat (d_blocks (devices (priv s) n)) \<le> 2 ^ 19" using R by simp
  note q = block_request [OF b bl]
  have c: "1 * DISK0_BLK_NSECT = 8" "DISK0_BLKSIZE = SFS_BLKSIZE" "SFS_BLKSIZE div SFS_BLKSIZE = 1" "SFS_BLKSIZE mod SFS_BLKSIZE = 0" "SFS_BLKSIZE \<le> DISK0_BUFSIZE" "unat SFS_BLKSIZE = 4096" "SFS_BLKSIZE \<noteq> 0"
    by (simp_all add: DISK0_BLK_NSECT_def DISK0_BLKSIZE_def SFS_BLKSIZE_def DISK0_BUFSIZE_def)
  have mv: "iobuf_move (kmem s) (iobuf_init a SFS_BLKSIZE off) ?P DISK0_BUFSIZE False =
     Ret (?m, \<lparr>io_base = a + 4096, io_offset = off + SFS_BLKSIZE, io_len = SFS_BLKSIZE, io_resid = 0\<rparr>, SFS_BLKSIZE, - E_NO_MEM)"
    by (subst iobuf_move_spec [OF refl]) (simp add: iobuf_init_def min_def c DISK0_BUFSIZE_def SFS_BLKSIZE_def DISK0_BLKSIZE_def)
  let ?src = "load_sectors_at ?m ?P 8"
  have src: "length ?src \<le> 128" "of_nat (length ?src) = (8 :: u32)" "length ?src = 8" by (simp_all add: load_sectors_at_def)
  from ide_write_secs_ok [OF src(1), of "disks (priv s)" DISK0_DEV_NO "b * DISK0_BLK_NSECT"] R q(5,6) src(2,3)
  obtain d where d: "ide_write_secs (disks (priv s)) DISK0_DEV_NO (b * DISK0_BLK_NSECT) ?src = Ret (d, 0)"
     "ide_devices d = ide_devices (disks (priv s))" "poll_err d = poll_err (disks (priv s))"
     "\<forall>x y. ide_disk d x y = (if x = DISK0_DEV_NO \<and> 8 * unat b \<le> y \<and> y < 8 * unat b + 8 then ?src ! (y - 8 * unat b) else ide_disk (disks (priv s)) x y)"
    unfolding q(4) by auto
  let ?p = "(priv s)\<lparr>disks := d\<rparr>"
  have ok': "disk_ready ?p n" using R d(2-4) by (auto simp: disk_ready_def VALID_IDE_def load_sectors_at_def)
  have blk: "disk_block ?p x = (if x = unat b then load_bytes ?m ?P 4096 else disk_block (priv s) x)" for x
    by (rule disk_block_written [OF ok ok']) (simp add: d(4))
  have "load_bytes ?m ?P 4096 = load_bytes (kmem s) a 4096" by (rule nth_equalityI) (simp_all add: block_copy_def)
  then have "disk_block ?p = (disk_block (priv s))(unat b := load_bytes (kmem s) a 4096)" by (auto simp: fun_eq_iff blk)
  moreover have "disk0_write_blks_nolock (s\<lparr>kmem := ?m\<rparr>) b 1 = Ret (s\<lparr>kmem := ?m, priv := ?p\<rparr>)"
    unfolding disk0_write_blks_nolock_def c Let_def using d(1) by simp
  then have "disk0_round s (iobuf_init a SFS_BLKSIZE off) True SFS_BLKSIZE b =
     Ret (s\<lparr>kmem := ?m, priv := ?p\<rparr>, \<lparr>io_base = a + 4096, io_offset = off + SFS_BLKSIZE, io_len = SFS_BLKSIZE, io_resid = 0\<rparr>, 0, b + 1)"
    unfolding disk0_round_def by (simp add: mv c Let_def)
  ultimately show ?thesis using ok' by (intro exI [of _ d]) simp
qed

lemma disk0_io_block:
  fixes s :: "'a dvfs_scheme" and b :: u32
  assumes ok: "disk_ready (priv s) n" "0 < disk0_sem (priv s)" and b: "b < d_blocks (devices (priv s) n)"
    and rd: "disk0_round (s\<lparr>priv := (priv s)\<lparr>disk0_sem := disk0_sem (priv s) - 1\<rparr>\<rparr>) (iobuf_init a SFS_BLKSIZE (b * SFS_BLKSIZE)) w SFS_BLKSIZE b = Ret (s1, iob, 0, b + 1)"
  shows "disk0_io s (devices (priv s) n) (iobuf_init a SFS_BLKSIZE (b * SFS_BLKSIZE)) w = Ret (unlock_disk0 s1, iob, 0)"
proof -
  have bl: "unat (d_blocks (devices (priv s) n)) \<le> 2 ^ 19" using ok(1) by (simp add: disk_ready_def)
  note q = block_request [OF b bl]
  have c: "sint DISK0_BLKSIZE = 4096" "DISK0_BLKSIZE = SFS_BLKSIZE" "SFS_BLKSIZE div SFS_BLKSIZE = 1" "SFS_BLKSIZE mod SFS_BLKSIZE = 0" "SFS_BLKSIZE \<noteq> 0"
    by (simp_all add: DISK0_BLKSIZE_def SFS_BLKSIZE_def)
  have "k * 4096 sdiv 4096 = k" "k * 4096 smod 4096 = 0" if "0 \<le> k" for k :: int
    using that by (cases "k = 0"; simp add: signed_divide_int_def signed_modulo_int_def)+
  note this [of "int (unat b)"]
  then have o: "word_of_int (sint (b * SFS_BLKSIZE) sdiv 4096) = b" "sint (b * SFS_BLKSIZE) smod 4096 = 0" unfolding q(1) by simp_all
  have lk: "lock_disk0 s = Ret (s\<lparr>priv := (priv s)\<lparr>disk0_sem := disk0_sem (priv s) - 1\<rparr>\<rparr>)" using ok(2) by (simp add: lock_disk0_def lock_count_def)
  have lp: "disk0_loop (s\<lparr>priv := (priv s)\<lparr>disk0_sem := disk0_sem (priv s) - 1\<rparr>\<rparr>) (iobuf_init a SFS_BLKSIZE (b * SFS_BLKSIZE)) w SFS_BLKSIZE b = Some (Ret (s1, iob))"
    by (subst disk0_loop.simps, simp add: rd c) (subst disk0_loop.simps, simp)
  have i: "io_offset (iobuf_init a SFS_BLKSIZE (b * SFS_BLKSIZE)) = b * SFS_BLKSIZE" "io_resid (iobuf_init a SFS_BLKSIZE (b * SFS_BLKSIZE)) = SFS_BLKSIZE" by (simp_all add: iobuf_init_def)
  have le: "\<not> b + 1 > d_blocks (devices (priv s) n)" using q(3) by simp
  show ?thesis unfolding disk0_io_def i c(1) o Let_def using le by (simp add: c lk lp o)
qed

definition io_rel :: "svfs \<Rightarrow> svfs \<Rightarrow> bool" where
  "io_rel s s' \<longleftrightarrow> (\<exists>m d. s' = s\<lparr>kmem := m, priv := (priv s)\<lparr>disks := d\<rparr>\<rparr>)"

text \<open>The volume is ready for requests; the two buffers of the transfers.\<close>

definition vol_up :: "svfs \<Rightarrow> nat \<Rightarrow> bool" where
  "vol_up s f \<longleftrightarrow> disk_ready (priv s) (sfs_dev (sfs_at s f)) \<and> s_blocks (super (sfs_at s f)) \<le> d_blocks (devices (priv s) (sfs_dev (sfs_at s f))) \<and>
     0 < disk0_sem (priv s) \<and> {sfs_buffer (sfs_at s f) ..< sfs_buffer (sfs_at s f) + 4096} \<inter> {disk0_buffer (priv s) ..< disk0_buffer (priv s) + 4096} = {}"

abbreviation blk :: "svfs \<Rightarrow> nat \<Rightarrow> u8 list" where
  "blk s \<equiv> disk_block (priv s)"

definition disk_buf :: "svfs \<Rightarrow> nat set" where
  "disk_buf s = {disk0_buffer (priv s) ..< disk0_buffer (priv s) + 4096}"

definition scratch :: "svfs \<Rightarrow> nat \<Rightarrow> nat set" where
  "scratch s f = disk_buf s \<union> {sfs_buffer (sfs_at s f) ..< sfs_buffer (sfs_at s f) + 4096}"

lemma disk_cong:
  assumes "disks p' = disks p" "devices p' = devices p"
  shows "disk_ready p' n = disk_ready p n" "disk_block p' = disk_block p"
  using assms by (auto simp: disk_ready_def disk_block_def fun_eq_iff)

lemma vol_upD:
  assumes "vol_up s f"
  shows "disk_ready (priv s) (sfs_dev (sfs_at s f))" "s_blocks (super (sfs_at s f)) \<le> d_blocks (devices (priv s) (sfs_dev (sfs_at s f)))"
    "0 < disk0_sem (priv s)"
  using assms by (simp_all add: vol_up_def)

lemma io_rel_sel:
  assumes "io_rel s s'"
  shows "sfs_at s' f = sfs_at s f" "sin_at s' n = sin_at s n" "inodes s' = inodes s" "files s' = files s" "cur_files s' = cur_files s" "devices (priv s') = devices (priv s)"
    "disk0_buffer (priv s') = disk0_buffer (priv s)" "disk0_sem (priv s') = disk0_sem (priv s)" "disk_buf s' = disk_buf s" "scratch s' f = scratch s f"
  using assms by (auto simp: io_rel_def disk_buf_def scratch_def)

lemma io_rel_vol:
  assumes "io_rel s s'" "disk_ready (priv s') (sfs_dev (sfs_at s f))" "vol_up s f"
  shows "vol_up s' f"
  using assms(2,3) by (simp add: vol_up_def io_rel_sel [OF assms(1)])

lemma rwblock_read:
  assumes ok: "vol_up s f" and b: "b < s_blocks (super (sfs_at s f))" "c \<longrightarrow> b \<noteq> 0"
  shows "\<exists>s'. sfs_rwblock_nolock s f a b False c = Ret (s', 0) \<and> io_rel s s' \<and> vol_up s' f \<and> blk s' = blk s \<and>
     (\<forall>q. a \<le> q \<longrightarrow> q < a + 4096 \<longrightarrow> kmem s' q = blk s (unat b) ! (q - a)) \<and> (\<forall>q. q \<notin> disk_buf s \<longrightarrow> \<not> (a \<le> q \<and> q < a + 4096) \<longrightarrow> kmem s' q = kmem s q)"
proof -
  let ?n = "sfs_dev (sfs_at s f)" and ?P = "disk0_buffer (priv s)"
  note v = vol_upD [OF ok]
  have b': "b < d_blocks (devices (priv s) ?n)" using b(1) v(2) by simp
  have l: "length (blk s (unat b)) = 4096" by (rule disk_block_length [OF v(1)])
  define t where "t = s\<lparr>priv := (priv s)\<lparr>disk0_sem := disk0_sem (priv s) - 1\<rparr>\<rparr>"
  have ts: "disks (priv t) = disks (priv s)" "devices (priv t) = devices (priv s)" "disk0_buffer (priv t) = ?P" "kmem t = kmem s" by (simp_all add: t_def)
  note cg = disk_cong [OF ts(1,2)]
  have ok': "disk_ready (priv t) ?n" "b < d_blocks (devices (priv t) ?n)" using v(1) b' cg ts by simp_all
  define m where "m = block_copy (store_bytes (kmem s) ?P (blk s (unat b))) a ?P 4096"
  from disk0_read_round [OF ok', of a "b * SFS_BLKSIZE", unfolded cg(2) ts, folded m_def]
  obtain d where d: "disk0_round t (iobuf_init a SFS_BLKSIZE (b * SFS_BLKSIZE)) False SFS_BLKSIZE b =
       Ret (t\<lparr>kmem := m, priv := (priv t)\<lparr>disks := d\<rparr>\<rparr>,
         \<lparr>io_base = a + 4096, io_offset = b * SFS_BLKSIZE + SFS_BLKSIZE, io_len = SFS_BLKSIZE, io_resid = 0\<rparr>, 0, b + 1)"
     "ide_disk d = ide_disk (disks (priv s))" "ide_devices d = ide_devices (disks (priv s))" "poll_err d = poll_err (disks (priv s))" by blast
  let ?s' = "s\<lparr>kmem := m, priv := (priv s)\<lparr>disks := d\<rparr>\<rparr>"
  have ul: "unlock_disk0 (t\<lparr>kmem := m, priv := (priv t)\<lparr>disks := d\<rparr>\<rparr>) = ?s'" by (simp add: unlock_disk0_def t_def)
  have "d_driver (devices (priv s) ?n) = Disk0" using v(1) by (simp add: disk_ready_def)
  then have run: "sfs_rwblock_nolock s f a b False c = Ret (?s', 0)"
    using disk0_io_block [OF v(1,3) b' d(1) [unfolded t_def], folded t_def, unfolded ul] b by (auto simp: sfs_rwblock_nolock_def dop_io_def)
  have rel: "io_rel s ?s'" unfolding io_rel_def by blast
  have rdy: "disk_ready (priv ?s') ?n" using v(1) d(2-4) by (simp add: disk_ready_def VALID_IDE_def)
  have "blk ?s' = blk s" by (rule ext) (simp add: disk_block_def d(2))
  moreover have "m q = blk s (unat b) ! (q - a)" if "a \<le> q" "q < a + 4096" for q
  proof -
    have "?P + (q - a) < ?P + 4096" using that by linarith
    then show ?thesis using that l by (simp add: m_def block_copy_def store_bytes_def del: Nat.add_diff_assoc)
  qed
  moreover have "m q = kmem s q" if "q \<notin> disk_buf s" "\<not> (a \<le> q \<and> q < a + 4096)" for q
    using that l by (auto simp: m_def block_copy_def store_bytes_def disk_buf_def)
  ultimately show ?thesis using run rel io_rel_vol [OF rel rdy ok] by (intro exI [of _ ?s']) simp
qed

lemma rwblock_write:
  assumes ok: "vol_up s f" and b: "b < s_blocks (super (sfs_at s f))" "c \<longrightarrow> b \<noteq> 0"
  shows "\<exists>s'. sfs_rwblock_nolock s f a b True c = Ret (s', 0) \<and> io_rel s s' \<and> vol_up s' f \<and> blk s' = (blk s)(unat b := load_bytes (kmem s) a 4096) \<and>
     (\<forall>q. q \<notin> disk_buf s \<longrightarrow> kmem s' q = kmem s q)"
proof -
  let ?n = "sfs_dev (sfs_at s f)" and ?P = "disk0_buffer (priv s)"
  note v = vol_upD [OF ok]
  have b': "b < d_blocks (devices (priv s) ?n)" using b(1) v(2) by simp
  define t where "t = s\<lparr>priv := (priv s)\<lparr>disk0_sem := disk0_sem (priv s) - 1\<rparr>\<rparr>"
  have ts: "disks (priv t) = disks (priv s)" "devices (priv t) = devices (priv s)" "disk0_buffer (priv t) = ?P" "kmem t = kmem s" by (simp_all add: t_def)
  note cg = disk_cong [OF ts(1,2)]
  have ok': "disk_ready (priv t) ?n" "b < d_blocks (devices (priv t) ?n)" using v(1) b' cg ts by simp_all
  define m where "m = block_copy (kmem s) ?P a 4096"
  from disk0_write_round [OF ok', of a "b * SFS_BLKSIZE", unfolded cg(2) ts, folded m_def]
  obtain d where d: "disk0_round t (iobuf_init a SFS_BLKSIZE (b * SFS_BLKSIZE)) True SFS_BLKSIZE b =
       Ret (t\<lparr>kmem := m, priv := (priv t)\<lparr>disks := d\<rparr>\<rparr>,
         \<lparr>io_base = a + 4096, io_offset = b * SFS_BLKSIZE + SFS_BLKSIZE, io_len = SFS_BLKSIZE, io_resid = 0\<rparr>, 0, b + 1)"
     "disk_ready ((priv t)\<lparr>disks := d\<rparr>) ?n" "disk_block ((priv t)\<lparr>disks := d\<rparr>) = (blk s)(unat b := load_bytes (kmem s) a 4096)" by blast
  let ?s' = "s\<lparr>kmem := m, priv := (priv s)\<lparr>disks := d\<rparr>\<rparr>"
  have ul: "unlock_disk0 (t\<lparr>kmem := m, priv := (priv t)\<lparr>disks := d\<rparr>\<rparr>) = ?s'" by (simp add: unlock_disk0_def t_def)
  have "d_driver (devices (priv s) ?n) = Disk0" using v(1) by (simp add: disk_ready_def)
  then have run: "sfs_rwblock_nolock s f a b True c = Ret (?s', 0)"
    using disk0_io_block [OF v(1,3) b' d(1) [unfolded t_def], folded t_def, unfolded ul] b by (auto simp: sfs_rwblock_nolock_def dop_io_def)
  have rel: "io_rel s ?s'" unfolding io_rel_def by blast
  have dd: "disks (priv ?s') = disks ((priv t)\<lparr>disks := d\<rparr>)" "devices (priv ?s') = devices ((priv t)\<lparr>disks := d\<rparr>)" by (simp_all add: t_def)
  note cg' = disk_cong [OF dd]
  have rdy: "disk_ready (priv ?s') ?n" using d(2) cg' by simp
  have "blk ?s' = (blk s)(unat b := load_bytes (kmem s) a 4096)" using d(3) cg'(2) by simp
  moreover have "m q = kmem s q" if "q \<notin> disk_buf s" for q using that by (auto simp: m_def block_copy_def disk_buf_def)
  ultimately show ?thesis using run rel io_rel_vol [OF rel rdy ok] by (intro exI [of _ ?s']) simp
qed

subsection \<open>The transfers of the file system\<close>

definition vol_ok :: "svfs \<Rightarrow> nat \<Rightarrow> bool" where
  "vol_ok s f \<longleftrightarrow> vol_up s f \<and> 0 < io_sem (sfs_at s f)"

lemma io_relI [intro]: "io_rel s (s\<lparr>kmem := m, priv := (priv s)\<lparr>disks := d\<rparr>\<rparr>)"
  unfolding io_rel_def by blast

lemma io_rel_trans: "io_rel s s1 \<Longrightarrow> io_rel s1 s2 \<Longrightarrow> io_rel s s2"
  using io_relI by (fastforce simp: io_rel_def [of s s1] io_rel_def [of s1 s2])

lemma io_rel_refl [simp]: "io_rel s s"
  unfolding io_rel_def by (rule exI [of _ "kmem s"], rule exI [of _ "disks (priv s)"]) simp

lemma io_rel_kmem [simp]: "io_rel s (s\<lparr>kmem := m\<rparr>)"
  unfolding io_rel_def by (rule exI [of _ m], rule exI [of _ "disks (priv s)"]) simp

text \<open>The part of a transfer between taking and releasing the lock.\<close>

lemma locked_io:
  assumes ok: "vol_ok s f" and s1: "s1 = upd_sfs f (io_sem_update (\<lambda>_. io_sem (sfs_at s f) - 1)) s"
  shows "lock_sfs_io s f = Ret s1" "vol_up s1 f" "blk s1 = blk s" "kmem s1 = kmem s" "super (sfs_at s1 f) = super (sfs_at s f)" "sfs_buffer (sfs_at s1 f) = sfs_buffer (sfs_at s f)"
    "disk_buf s1 = disk_buf s" "io_rel s1 s2 \<Longrightarrow> io_rel s (unlock_sfs_io s2 f)" "io_rel s1 s2 \<Longrightarrow> vol_up s2 f \<Longrightarrow> vol_ok (unlock_sfs_io s2 f) f"
proof -
  show "lock_sfs_io s f = Ret s1" using ok by (simp add: lock_sfs_io_def lock_count_def vol_ok_def s1)
  show "vol_up s1 f" "blk s1 = blk s" using ok disk_cong [of "priv s1" "priv s"] by (simp_all add: vol_ok_def vol_up_def s1)
  show "kmem s1 = kmem s" "super (sfs_at s1 f) = super (sfs_at s f)" "sfs_buffer (sfs_at s1 f) = sfs_buffer (sfs_at s f)" "disk_buf s1 = disk_buf s"
    by (simp_all add: s1 disk_buf_def)
  show "io_rel s (unlock_sfs_io s2 f)" if rel: "io_rel s1 s2"
  proof -
    obtain m d where "s2 = s1\<lparr>kmem := m, priv := (priv s1)\<lparr>disks := d\<rparr>\<rparr>" using rel unfolding io_rel_def by blast
    then have "unlock_sfs_io s2 f = s\<lparr>kmem := m, priv := (priv s)\<lparr>disks := d\<rparr>\<rparr>" by (simp add: unlock_sfs_io_def s1 fun_upd_idem)
    then show ?thesis by (simp add: io_relI)
  qed
  show "vol_ok (unlock_sfs_io s2 f) f" if "io_rel s1 s2" "vol_up s2 f"
    using that ok io_rel_sel [OF that(1)] disk_cong [of "priv (unlock_sfs_io s2 f)" "priv s2"] by (simp add: vol_ok_def vol_up_def unlock_sfs_io_def s1)
qed

lemma unlock_io_sel [simp]: "kmem (unlock_sfs_io s f) = kmem s" "blk (unlock_sfs_io s f) = blk s"
  using disk_cong [of "priv (unlock_sfs_io s f)" "priv s"] by (simp_all add: unlock_sfs_io_def)

definition splice :: "'a list \<Rightarrow> nat \<Rightarrow> 'a list \<Rightarrow> 'a list" where
  "splice xs o' ys = take o' xs @ ys @ drop (o' + length ys) xs"

lemma splice_nth: "o' + length ys \<le> length xs \<Longrightarrow> i < length xs \<Longrightarrow> splice xs o' ys ! i = (if o' \<le> i \<and> i < o' + length ys then ys ! (i - o') else xs ! i)"
  by (auto simp: splice_def nth_append)

lemma splice_length [simp]: "o' + length ys \<le> length xs \<Longrightarrow> length (splice xs o' ys) = length xs"
  by (simp add: splice_def)

lemma buf_rangeI: "unat off < 4096 \<Longrightarrow> unat off + unat len \<le> 4096 \<Longrightarrow> buf_range off len"
proof -
  assume r: "unat off < 4096" "unat off + unat len \<le> 4096"
  then have "int (unat off) < int 4096" by (simp only: of_nat_less_iff)
  then show ?thesis using r sint_small [of off] unat_add_small [of off len] by (simp add: buf_range_def SFS_BLKSIZE_def word_le_nat_alt)
qed

lemma sfs_rbuf_ok:
  assumes ok: "vol_ok s f" and b: "b < s_blocks (super (sfs_at s f))" "b \<noteq> 0" and r: "unat off < 4096" "unat off + unat len \<le> 4096"
  shows "\<exists>s'. sfs_rbuf s f len b off = Ret (s', take (unat len) (drop (unat off) (blk s (unat b))), 0) \<and> io_rel s s' \<and> vol_ok s' f \<and> blk s' = blk s \<and>
     (\<forall>q. q \<notin> scratch s f \<longrightarrow> kmem s' q = kmem s q)"
proof -
  define s1 where "s1 = upd_sfs f (io_sem_update (\<lambda>_. io_sem (sfs_at s f) - 1)) s"
  note L = locked_io [OF ok s1_def]
  let ?B = "sfs_buffer (sfs_at s f)"
  have len: "length (blk s (unat b)) = 4096" using disk_block_length [OF vol_upD(1), of s f] ok by (simp add: vol_ok_def)
  from rwblock_read [OF L(2), of b True ?B] b L(3-7) obtain s2 where s2: "sfs_rwblock_nolock s1 f ?B b False True = Ret (s2, 0)" "io_rel s1 s2" "vol_up s2 f" "blk s2 = blk s"
    "\<forall>q. ?B \<le> q \<longrightarrow> q < ?B + 4096 \<longrightarrow> kmem s2 q = blk s (unat b) ! (q - ?B)" "\<forall>q. q \<notin> disk_buf s \<longrightarrow> \<not> (?B \<le> q \<and> q < ?B + 4096) \<longrightarrow> kmem s2 q = kmem s q" by auto
  have "load_bytes (kmem s2) (?B + unat off) (unat len) = take (unat len) (drop (unat off) (blk s (unat b)))"
    by (rule nth_equalityI) (use len r s2(5) in auto)
  moreover have "sfs_buffer (sfs_at s2 f) = ?B" using io_rel_sel(1) [OF s2(2)] L(6) by simp
  ultimately have "sfs_rbuf s f len b off = Ret (unlock_sfs_io s2 f, take (unat len) (drop (unat off) (blk s (unat b))), 0)"
    using buf_rangeI [OF r] L(1,6) s2(1) by (simp add: sfs_rbuf_def)
  then show ?thesis using L(8,9) [OF s2(2)] s2(3,4,6) by (intro exI [of _ "unlock_sfs_io s2 f"]) (auto simp: scratch_def)
qed

lemma sfs_wbuf_ok:
  assumes ok: "vol_ok s f" and b: "b < s_blocks (super (sfs_at s f))" "b \<noteq> 0" and r: "unat off < 4096" "unat off + length bs \<le> 4096"
  shows "\<exists>s'. sfs_wbuf s f bs b off = Ret (s', 0) \<and> io_rel s s' \<and> vol_ok s' f \<and> blk s' = (blk s)(unat b := splice (blk s (unat b)) (unat off) bs) \<and>
     (\<forall>q. q \<notin> scratch s f \<longrightarrow> kmem s' q = kmem s q)"
proof -
  define s1 where "s1 = upd_sfs f (io_sem_update (\<lambda>_. io_sem (sfs_at s f) - 1)) s"
  note L = locked_io [OF ok s1_def]
  let ?B = "sfs_buffer (sfs_at s f)"
  have len: "length (blk s (unat b)) = 4096" using disk_block_length [OF vol_upD(1), of s f] ok by (simp add: vol_ok_def)
  from rwblock_read [OF L(2), of b True ?B] b L(3-7) obtain s2 where s2: "sfs_rwblock_nolock s1 f ?B b False True = Ret (s2, 0)" "io_rel s1 s2" "vol_up s2 f" "blk s2 = blk s"
    "\<forall>q. ?B \<le> q \<longrightarrow> q < ?B + 4096 \<longrightarrow> kmem s2 q = blk s (unat b) ! (q - ?B)" "\<forall>q. q \<notin> disk_buf s \<longrightarrow> \<not> (?B \<le> q \<and> q < ?B + 4096) \<longrightarrow> kmem s2 q = kmem s q" by auto
  define s3 where "s3 = s2\<lparr>kmem := store_bytes (kmem s2) (?B + unat off) bs\<rparr>"
  have s3: "blk s3 = blk s" "sfs_at s3 f = sfs_at s1 f" "io_rel s2 s3" "disk_buf s3 = disk_buf s"
    using s2(4) io_rel_sel [OF s2(2)] L(7) by (simp_all add: s3_def disk_buf_def)
  have u3: "vol_up s3 f" using s2(3) by (simp add: s3_def vol_up_def)
  from rwblock_write [OF u3, of b True ?B] b s3(1,2,4) L(5) obtain s4 where s4: "sfs_rwblock_nolock s3 f ?B b True True = Ret (s4, 0)" "io_rel s3 s4" "vol_up s4 f"
    "blk s4 = (blk s)(unat b := load_bytes (kmem s3) ?B 4096)" "\<forall>q. q \<notin> disk_buf s \<longrightarrow> kmem s4 q = kmem s3 q" by auto
  have "load_bytes (kmem s3) ?B 4096 = splice (blk s (unat b)) (unat off) bs"
    by (rule nth_equalityI) (use len r(2) s2(5) in \<open>auto simp: splice_nth s3_def store_bytes_def\<close>)
  moreover have "sfs_buffer (sfs_at s2 f) = ?B" using io_rel_sel(1) [OF s2(2)] L(6) by simp
  moreover have "buf_range off (of_nat (length bs))" using r by (intro buf_rangeI) (simp_all add: unat_of_nat_u32)
  ultimately have "sfs_wbuf s f bs b off = Ret (unlock_sfs_io s4 f, 0)" "blk s4 = (blk s)(unat b := splice (blk s (unat b)) (unat off) bs)"
    using L(1,6) s2(1) s4(1,4) by (simp_all add: sfs_wbuf_def s3_def)
  moreover have rel: "io_rel s1 s4" using io_rel_trans [OF io_rel_trans [OF s2(2) s3(3)] s4(2)] .
  moreover have "kmem s4 q = kmem s q" if "q \<notin> scratch s f" for q
    using that s4(5) s2(6) r(2) by (auto simp: scratch_def s3_def store_bytes_def)
  ultimately show ?thesis using L(8,9) [OF rel] s4(3) by (intro exI [of _ "unlock_sfs_io s4 f"]) auto
qed

lemma sfs_rblock_ok:
  assumes ok: "vol_ok s f" and b: "b < s_blocks (super (sfs_at s f))" "b \<noteq> 0"
  shows "\<exists>s'. sfs_rblock s f a b 1 = Ret (s', 0) \<and> io_rel s s' \<and> vol_ok s' f \<and> blk s' = blk s \<and>
     (\<forall>q. a \<le> q \<longrightarrow> q < a + 4096 \<longrightarrow> kmem s' q = blk s (unat b) ! (q - a)) \<and> (\<forall>q. q \<notin> scratch s f \<longrightarrow> \<not> (a \<le> q \<and> q < a + 4096) \<longrightarrow> kmem s' q = kmem s q)"
proof -
  define s1 where "s1 = upd_sfs f (io_sem_update (\<lambda>_. io_sem (sfs_at s f) - 1)) s"
  note L = locked_io [OF ok s1_def]
  from rwblock_read [OF L(2), of b True a] b L(3-7) obtain s2 where s2: "sfs_rwblock_nolock s1 f a b False True = Ret (s2, 0)" "io_rel s1 s2" "vol_up s2 f" "blk s2 = blk s"
    "\<forall>q. a \<le> q \<longrightarrow> q < a + 4096 \<longrightarrow> kmem s2 q = blk s (unat b) ! (q - a)" "\<forall>q. q \<notin> disk_buf s \<longrightarrow> \<not> (a \<le> q \<and> q < a + 4096) \<longrightarrow> kmem s2 q = kmem s q" by auto
  then have "sfs_rblock s f a b 1 = Ret (unlock_sfs_io s2 f, 0)" using L(1) by (simp add: sfs_rblock_def sfs_rwblock_def)
  then show ?thesis using L(8,9) [OF s2(2)] s2(3-6) by (intro exI [of _ "unlock_sfs_io s2 f"]) (auto simp: scratch_def)
qed

lemma sfs_wblock_ok:
  assumes ok: "vol_ok s f" and b: "b < s_blocks (super (sfs_at s f))" "b \<noteq> 0"
  shows "\<exists>s'. sfs_wblock s f a b 1 = Ret (s', 0) \<and> io_rel s s' \<and> vol_ok s' f \<and> blk s' = (blk s)(unat b := load_bytes (kmem s) a 4096) \<and>
     (\<forall>q. q \<notin> scratch s f \<longrightarrow> kmem s' q = kmem s q)"
proof -
  define s1 where "s1 = upd_sfs f (io_sem_update (\<lambda>_. io_sem (sfs_at s f) - 1)) s"
  note L = locked_io [OF ok s1_def]
  from rwblock_write [OF L(2), of b True a] b L(3-7) obtain s2 where s2: "sfs_rwblock_nolock s1 f a b True True = Ret (s2, 0)" "io_rel s1 s2" "vol_up s2 f"
    "blk s2 = (blk s)(unat b := load_bytes (kmem s) a 4096)" "\<forall>q. q \<notin> disk_buf s \<longrightarrow> kmem s2 q = kmem s q" by auto
  then have "sfs_wblock s f a b 1 = Ret (unlock_sfs_io s2 f, 0)" using L(1) by (simp add: sfs_wblock_def sfs_rwblock_def)
  then show ?thesis using L(8,9) [OF s2(2)] s2(3-5) by (intro exI [of _ "unlock_sfs_io s2 f"]) (auto simp: scratch_def)
qed

lemma sfs_clear_block_ok:
  assumes ok: "vol_ok s f" and b: "b < s_blocks (super (sfs_at s f))" "b \<noteq> 0"
  shows "\<exists>s'. sfs_clear_block s f b 1 = Ret (s', 0) \<and> io_rel s s' \<and> vol_ok s' f \<and> blk s' = (blk s)(unat b := replicate 4096 0) \<and>
     (\<forall>q. q \<notin> scratch s f \<longrightarrow> kmem s' q = kmem s q)"
proof -
  define s1 where "s1 = upd_sfs f (io_sem_update (\<lambda>_. io_sem (sfs_at s f) - 1)) s"
  note L = locked_io [OF ok s1_def]
  let ?B = "sfs_buffer (sfs_at s f)"
  define s2 where "s2 = s1\<lparr>kmem := memset (kmem s1) ?B 0 4096\<rparr>"
  have u2: "vol_up s2 f" using L(2) by (simp add: s2_def vol_up_def)
  have s2: "blk s2 = blk s" "sfs_at s2 f = sfs_at s1 f" "io_rel s1 s2" "disk_buf s2 = disk_buf s" "kmem s2 = memset (kmem s) ?B 0 4096"
    using L(3,4,7) by (simp_all add: s2_def disk_buf_def)
  from rwblock_write [OF u2, of b True ?B] b s2(1,2,4) L(5) obtain s3 where s3: "sfs_rwblock_nolock s2 f ?B b True True = Ret (s3, 0)" "io_rel s2 s3" "vol_up s3 f"
    "blk s3 = (blk s)(unat b := load_bytes (kmem s2) ?B 4096)" "\<forall>q. q \<notin> disk_buf s \<longrightarrow> kmem s3 q = kmem s2 q" by auto
  have "load_bytes (kmem s2) ?B 4096 = replicate 4096 0" by (rule nth_equalityI) (simp_all add: s2(5) memset_spec)
  then have bl: "blk s3 = (blk s)(unat b := replicate 4096 0)" using s3(4) by simp
  have "unat SFS_BLKSIZE = 4096" "sfs_buffer (sfs_at s2 f) = ?B" using s2(2) L(6) by (simp_all add: SFS_BLKSIZE_def)
  then have "sfs_clear_block s f b 1 = Ret (unlock_sfs_io s3 f, 0)" using L(1,6) s3(1) by (simp add: sfs_clear_block_def s2_def)
  moreover have rel: "io_rel s1 s3" by (rule io_rel_trans [OF s2(3) s3(2)])
  moreover have "kmem s3 q = kmem s q" if "q \<notin> scratch s f" for q using that s3(5) by (auto simp: scratch_def s2(5) memset_spec)
  ultimately show ?thesis using L(8,9) [OF rel] s3(3) bl by (intro exI [of _ "unlock_sfs_io s3 f"]) auto
qed

end
