(* ===== verification/SfsFile.thy ===== *)
theory SfsFile
  imports SfsDisk
begin

text \<open>
  The files of the simple file system as byte arrays: the free map, the block map of an inode and
  what reading and writing through it mean. A file owns the blocks of its map and its block of
  indirect entries; nothing else changes when it is written.
\<close>

subsection \<open>What an operation on a file may change\<close>

definition frel :: "nat \<Rightarrow> nat \<Rightarrow> svfs \<Rightarrow> svfs \<Rightarrow> bool" where
  "frel f n s s' \<longleftrightarrow> (\<exists>m d b u z x y. s' = s\<lparr>kmem := m, priv := (priv s)\<lparr>disks := d,
     sfs_fss := (sfs_fss (priv s))(f := (sfs_at s f)\<lparr>freemap := b, super := (super (sfs_at s f))\<lparr>s_unused_blocks := u\<rparr>, super_dirty := z\<rparr>),
     sins := (sins (priv s))(n := (sin_at s n)\<lparr>din := x, dirty := y\<rparr>)\<rparr>\<rparr>)"

lemma frelI: "frel f n s (s\<lparr>kmem := m, priv := (priv s)\<lparr>disks := d,
     sfs_fss := (sfs_fss (priv s))(f := (sfs_at s f)\<lparr>freemap := b, super := (super (sfs_at s f))\<lparr>s_unused_blocks := u\<rparr>, super_dirty := z\<rparr>),
     sins := (sins (priv s))(n := (sin_at s n)\<lparr>din := x, dirty := y\<rparr>)\<rparr>\<rparr>)"
  unfolding frel_def by blast

lemma frelE:
  assumes "frel f n s s'"
  obtains m d b u z x y where "s' = s\<lparr>kmem := m, priv := (priv s)\<lparr>disks := d,
     sfs_fss := (sfs_fss (priv s))(f := (sfs_at s f)\<lparr>freemap := b, super := (super (sfs_at s f))\<lparr>s_unused_blocks := u\<rparr>, super_dirty := z\<rparr>),
     sins := (sins (priv s))(n := (sin_at s n)\<lparr>din := x, dirty := y\<rparr>)\<rparr>\<rparr>"
  using assms unfolding frel_def by blast

lemma frel_io: "io_rel s s' \<Longrightarrow> frel f n s s'"
proof -
  assume "io_rel s s'"
  then obtain m d where "s' = s\<lparr>kmem := m, priv := (priv s)\<lparr>disks := d\<rparr>\<rparr>" unfolding io_rel_def by blast
  then show ?thesis
    using frelI [where f = f and n = n and s = s and m = m and d = d and b = "freemap (sfs_at s f)" and u = "s_unused_blocks (super (sfs_at s f))" and z = "super_dirty (sfs_at s f)"
        and x = "din (sin_at s n)" and y = "dirty (sin_at s n)"]
    by (simp add: fun_upd_idem)
qed

lemma frel_trans: "frel f n s s1 \<Longrightarrow> frel f n s1 s2 \<Longrightarrow> frel f n s s2"
  by (erule frelE, erule frelE) (simp add: frelI)

lemma frel_sel:
  assumes "frel f n s s'"
  shows "sfs_dev (sfs_at s' f) = sfs_dev (sfs_at s f)" "s_blocks (super (sfs_at s' f)) = s_blocks (super (sfs_at s f))" "sfs_buffer (sfs_at s' f) = sfs_buffer (sfs_at s f)"
    "io_sem (sfs_at s' f) = io_sem (sfs_at s f)" "fs_sem (sfs_at s' f) = fs_sem (sfs_at s f)" "inodes s' = inodes s" "files s' = files s" "cur_files s' = cur_files s"
    "devices (priv s') = devices (priv s)" "disk0_buffer (priv s') = disk0_buffer (priv s)" "disk0_sem (priv s') = disk0_sem (priv s)" "scratch s' f = scratch s f"
    "sin_ino (sin_at s' n) = sin_ino (sin_at s n)" "sin_sem (sin_at s' n) = sin_sem (sin_at s n)" "reclaim_count (sin_at s' n) = reclaim_count (sin_at s n)"
    "k \<noteq> n \<Longrightarrow> sin_at s' k = sin_at s k"
  using assms by (auto elim!: frelE simp: scratch_def disk_buf_def)

subsection \<open>The free map\<close>

definition fmap_ok :: "svfs \<Rightarrow> nat \<Rightarrow> bool" where
  "fmap_ok s f \<longleftrightarrow> bitmap_ok (freemap (sfs_at s f)) \<and> s_blocks (super (sfs_at s f)) \<le> nbits (freemap (sfs_at s f)) \<and>
     free_bits (freemap (sfs_at s f)) \<subseteq> {0 <..< unat (s_blocks (super (sfs_at s f)))} \<and>
     unat (s_unused_blocks (super (sfs_at s f))) = card (free_bits (freemap (sfs_at s f)))"

abbreviation free_blks :: "svfs \<Rightarrow> nat \<Rightarrow> nat set" where
  "free_blks s f \<equiv> free_bits (freemap (sfs_at s f))"

definition used_blk :: "svfs \<Rightarrow> nat \<Rightarrow> nat \<Rightarrow> bool" where
  "used_blk s f b \<longleftrightarrow> 0 < b \<and> b < unat (s_blocks (super (sfs_at s f))) \<and> b \<notin> free_blks s f"

lemma inuse_ok:
  assumes "fmap_ok s f" "unat b < unat (s_blocks (super (sfs_at s f)))" "b \<noteq> 0"
  shows "sfs_block_inuse s f b = Ret (used_blk s f (unat b))"
proof -
  have "b < nbits (freemap (sfs_at s f))" using assms by (auto simp: fmap_ok_def word_less_nat_alt word_le_nat_alt)
  then have "bitmap_test (freemap (sfs_at s f)) b = Ret (unat b \<in> free_blks s f)" using assms(1) by (intro bitmap_test_spec) (simp_all add: fmap_ok_def)
  then show ?thesis using assms(2,3) by (simp add: sfs_block_inuse_def word_less_nat_alt used_blk_def unat_gt_0)
qed

lemma assert_inuse_ok: "fmap_ok s f \<Longrightarrow> used_blk s f (unat b) \<Longrightarrow> assert_inuse s f b r = r"
  using inuse_ok [of s f b] by (cases "b = 0") (auto simp: assert_inuse_def used_blk_def)

lemma block_alloc_ok:
  assumes v: "vol_ok s f" and m: "fmap_ok s f" and ne: "free_blks s f \<noteq> {}"
  shows "\<exists>s' b. sfs_block_alloc s f = Ret (s', b, 0) \<and> unat b \<in> free_blks s f \<and> frel f n s s' \<and> sin_at s' n = sin_at s n \<and> vol_ok s' f \<and> fmap_ok s' f \<and>
     free_blks s' f = free_blks s f - {unat b} \<and> blk s' = (blk s)(unat b := replicate 4096 0) \<and> (\<forall>q. q \<notin> scratch s f \<longrightarrow> kmem s' q = kmem s q)"
proof -
  let ?F = "sfs_at s f"
  have M: "bitmap_ok (freemap ?F)" "s_blocks (super ?F) \<le> nbits (freemap ?F)" "free_blks s f \<subseteq> {0 <..< unat (s_blocks (super ?F))}"
    "unat (s_unused_blocks (super ?F)) = card (free_blks s f)" using m by (simp_all add: fmap_ok_def)
  let ?i = "Min (free_blks s f)"
  from bitmap_alloc_spec [OF M(1)] ne obtain b where b: "bitmap_alloc (freemap ?F) = Ret (b, 0, Some (of_nat ?i))" "bitmap_ok b" "nbits b = nbits (freemap ?F)"
    "free_bits b = free_blks s f - {?i}" by auto
  have i: "?i \<in> free_blks s f" using ne by (intro Min_in) simp_all
  then have r: "0 < ?i" "?i < unat (s_blocks (super ?F))" using M(3) by auto
  then have u: "unat (of_nat ?i :: u32) = ?i" using unat_u32_less [of "s_blocks (super ?F)"] by (intro unat_of_nat_u32) simp
  define s1 where "s1 = upd_sfs f (\<lambda>x. x\<lparr>freemap := b, super := (super x)\<lparr>s_unused_blocks := s_unused_blocks (super x) - 1\<rparr>, super_dirty := True\<rparr>) s"
  have s1: "sfs_at s1 f = ?F\<lparr>freemap := b, super := (super ?F)\<lparr>s_unused_blocks := s_unused_blocks (super ?F) - 1\<rparr>, super_dirty := True\<rparr>" "kmem s1 = kmem s"
    "disks (priv s1) = disks (priv s)" "devices (priv s1) = devices (priv s)" "sin_at s1 n = sin_at s n" by (simp_all add: s1_def)
  have cg: "blk s1 = blk s" by (rule disk_cong(2) [OF s1(3,4)])
  have c: "0 < card (free_blks s f)" using ne by (simp add: card_gt_0_iff)
  then have un: "s_unused_blocks (super ?F) > 0" "unat (s_unused_blocks (super ?F) - 1) = card (free_blks s f) - 1"
    using M(4) by (simp_all add: word_less_nat_alt unat_minus_one word_neq_0_conv unat_gt_0 [symmetric])
  have m1: "fmap_ok s1 f" using M b(2-4) i un(2) by (auto simp: fmap_ok_def s1(1) card_Diff_singleton)
  have v1: "vol_ok s1 f" using v by (simp add: vol_ok_def vol_up_def s1 disk_cong(1) [OF s1(3,4)]) (simp add: s1_def)
  have "unat (of_nat ?i :: u32) \<notin> free_blks s1 f" using b(4) u by (simp add: s1(1))
  then have us: "used_blk s1 f (unat (of_nat ?i :: u32))" using r u by (simp add: used_blk_def s1(1))
  have rel1: "frel f n s s1"
    using frelI [where f = f and n = n and s = s and m = "kmem s" and d = "disks (priv s)" and b = b and u = "s_unused_blocks (super ?F) - 1" and z = True
        and x = "din (sin_at s n)" and y = "dirty (sin_at s n)"] by (simp add: s1_def fun_upd_idem)
  have "of_nat ?i < s_blocks (super (sfs_at s1 f))" "(of_nat ?i :: u32) \<noteq> 0" using r u by (auto simp: word_less_nat_alt s1(1))
  from sfs_clear_block_ok [OF v1 this] obtain s2 where s2: "sfs_clear_block s1 f (of_nat ?i) 1 = Ret (s2, 0)" "io_rel s1 s2" "vol_ok s2 f"
    "blk s2 = (blk s)(?i := replicate 4096 0)" "\<forall>q. q \<notin> scratch s1 f \<longrightarrow> kmem s2 q = kmem s1 q" unfolding cg u by blast
  note S = io_rel_sel [OF s2(2)]
  have run: "sfs_block_alloc s f = Ret (s2, of_nat ?i, 0)"
    unfolding sfs_block_alloc_def b(1) using un(1) s2(1) assert_inuse_ok [OF m1 us] by (simp add: s1_def [symmetric] Let_def)
  have "fmap_ok s2 f" using m1 by (simp add: fmap_ok_def S(1))
  moreover have "sin_at s2 n = sin_at s n" using S(2) s1(5) by simp
  moreover have "free_blks s2 f = free_blks s f - {?i}" using b(4) by (simp add: S(1) s1(1))
  moreover have "scratch s1 f = scratch s f" by (rule frel_sel(12) [OF rel1])
  moreover have "frel f n s s2" by (rule frel_trans [OF rel1 frel_io [OF s2(2)]])
  ultimately show ?thesis using run i s2(3,4,5) s1(2) by (intro exI [of _ s2] exI [of _ "of_nat ?i"]) (simp add: u)
qed

subsection \<open>Entries of an indirect block\<close>

lemma le4_length [simp]: "length (le4 w) = 4"
  by (simp add: le4_def)

lemma of_le4_le4 [simp]: "of_le4 (le4 w) = w"
proof (rule bit_word_eqI)
  fix n assume "n < LENGTH(32)"
  then have n: "n < 32" by simp
  consider "n < 8" | "8 \<le> n" "n < 16" | "16 \<le> n" "n < 24" | "24 \<le> n" using n by linarith
  then show "bit (of_le4 (le4 w)) n = bit w n"
    using n by cases (auto simp: of_le4_def le4_def bit_or_iff bit_push_bit_iff bit_unsigned_iff bit_drop_bit_eq)
qed

definition ent_at :: "u8 list \<Rightarrow> nat \<Rightarrow> u32" where
  "ent_at e i = of_le4 (take 4 (drop (4 * i) e))"

lemma ent_at_nth: "4 * i + 4 \<le> length e \<Longrightarrow> ent_at e i = of_le4 [e ! (4 * i), e ! (4 * i + 1), e ! (4 * i + 2), e ! (4 * i + 3)]"
  by (simp add: ent_at_def of_le4_def nth_drop)

lemma ent_at_zero [simp]: "i < 1024 \<Longrightarrow> ent_at (replicate 4096 0) i = 0"
  by (simp add: ent_at_nth of_le4_def)

lemma ent_at_splice:
  assumes "length e = 4096" "i < 1024" "j < 1024"
  shows "ent_at (splice e (4 * i) (le4 w)) j = (if j = i then w else ent_at e j)"
proof (cases "j = i")
  case True
  have "take 4 (drop (4 * i) (splice e (4 * i) (le4 w))) = le4 w" using assms by (simp add: splice_def)
  then show ?thesis using True by (simp add: ent_at_def)
next
  case False
  have "splice e (4 * i) (le4 w) ! (4 * j + k) = e ! (4 * j + k)" if "k < 4" for k
    using assms False that by (subst splice_nth) (auto split: if_splits)
  from this [of 0] this [of 1] this [of 2] this [of 3] show ?thesis using False assms by (simp add: ent_at_nth)
qed

subsection \<open>The block map\<close>

abbreviation din_of :: "svfs \<Rightarrow> nat \<Rightarrow> sfs_disk_inode" where
  "din_of s n \<equiv> din (sin_at s n)"

abbreviation nblocks :: "svfs \<Rightarrow> nat \<Rightarrow> nat" where
  "nblocks s n \<equiv> unat (di_blocks (din_of s n))"

definition fblk :: "svfs \<Rightarrow> nat \<Rightarrow> nat \<Rightarrow> u32" where
  "fblk s n i = (if i < 12 then di_direct (din_of s n) ! i
     else if di_indirect (din_of s n) = 0 then 0 else ent_at (blk s (unat (di_indirect (din_of s n)))) (i - 12))"

definition owned :: "svfs \<Rightarrow> nat \<Rightarrow> nat set" where
  "owned s n = (\<lambda>i. unat (fblk s n i)) ` {..< nblocks s n} \<union> (if di_indirect (din_of s n) = 0 then {} else {unat (di_indirect (din_of s n))})"

definition file_map :: "svfs \<Rightarrow> nat \<Rightarrow> nat \<Rightarrow> bool" where
  "file_map s f n \<longleftrightarrow> length (di_direct (din_of s n)) = 12 \<and> nblocks s n \<le> 1036 \<and> (\<forall>b \<in> owned s n. used_blk s f b) \<and>
     inj_on (\<lambda>i. unat (fblk s n i)) {..< nblocks s n} \<and> (\<forall>i < nblocks s n. fblk s n i \<noteq> 0 \<and> fblk s n i \<noteq> di_indirect (din_of s n)) \<and>
     (\<forall>i. nblocks s n \<le> i \<longrightarrow> i < 1036 \<longrightarrow> fblk s n i = 0)"

lemma file_mapD:
  assumes "file_map s f n"
  shows "length (di_direct (din_of s n)) = 12" "nblocks s n \<le> 1036" "i < nblocks s n \<Longrightarrow> used_blk s f (unat (fblk s n i))"
    "di_indirect (din_of s n) \<noteq> 0 \<Longrightarrow> used_blk s f (unat (di_indirect (din_of s n)))" "inj_on (\<lambda>i. unat (fblk s n i)) {..< nblocks s n}"
    "i < nblocks s n \<Longrightarrow> fblk s n i \<noteq> 0" "i < nblocks s n \<Longrightarrow> fblk s n i \<noteq> di_indirect (din_of s n)" "nblocks s n \<le> i \<Longrightarrow> i < 1036 \<Longrightarrow> fblk s n i = 0"
  using assms by (auto simp: file_map_def owned_def)

lemma bmap_out_ok: "fmap_ok s f \<Longrightarrow> used_blk s f (unat b) \<Longrightarrow> bmap_out s f b = Ret (s, b, 0)"
  using assert_inuse_ok [of s f b] by (auto simp: bmap_out_def used_blk_def)

lemma index_words:
  fixes i :: u32
  assumes "unat i < 1036"
  shows "i < SFS_NDIRECT \<longleftrightarrow> unat i < 12" "\<not> unat i < 12 \<Longrightarrow> unat (i - SFS_NDIRECT) = unat i - 12" "\<not> unat i < 12 \<Longrightarrow> i - SFS_NDIRECT < SFS_BLK_NENTRY"
    "\<not> unat i < 12 \<Longrightarrow> unat ((i - SFS_NDIRECT) * 4) = 4 * (unat i - 12)"
proof -
  show "i < SFS_NDIRECT \<longleftrightarrow> unat i < 12" by (simp add: SFS_NDIRECT_def word_less_nat_alt)
  show d: "unat (i - SFS_NDIRECT) = unat i - 12" if "\<not> unat i < 12" using that by (subst unat_sub) (simp_all add: SFS_NDIRECT_def word_le_nat_alt)
  show "i - SFS_NDIRECT < SFS_BLK_NENTRY" if "\<not> unat i < 12" using d [OF that] assms by (simp add: word_less_nat_alt SFS_BLK_NENTRY_def SFS_BLKSIZE_def unat_div)
  show "unat ((i - SFS_NDIRECT) * 4) = 4 * (unat i - 12)" if "\<not> unat i < 12" using d [OF that] assms by (subst unat_mult_small) simp_all
qed

lemma bmap_load_old:
  assumes v: "vol_ok s f" and m: "fmap_ok s f" and fm: "file_map s f n" and i: "unat i < nblocks s n"
  shows "\<exists>s'. sfs_bmap_load_nolock s f n i = Ret (s', fblk s n (unat i), 0) \<and> io_rel s s' \<and> vol_ok s' f \<and> blk s' = blk s \<and> (\<forall>q. q \<notin> scratch s f \<longrightarrow> kmem s' q = kmem s q)"
proof -
  note D = file_mapD [OF fm]
  let ?b = "fblk s n (unat i)"
  have b: "used_blk s f (unat ?b)" "?b \<noteq> 0" using D(3,6) [OF i] by auto
  have le: "i \<le> di_blocks (din_of s n)" "i \<noteq> di_blocks (din_of s n)" using i by (auto simp: word_le_nat_alt)
  have i2: "unat i < 1036" using i D(2) by simp
  note W = index_words [OF i2]
  have "\<exists>s'. sfs_bmap_get_nolock s f n i False = Ret (s', ?b, 0) \<and> io_rel s s' \<and> vol_ok s' f \<and> blk s' = blk s \<and> (\<forall>q. q \<notin> scratch s f \<longrightarrow> kmem s' q = kmem s q)"
  proof (cases "unat i < 12")
    case True
    then have "?b = di_direct (din_of s n) ! unat i" by (simp add: fblk_def)
    then have "sfs_bmap_get_nolock s f n i False = Ret (s, ?b, 0)" using True W(1) bmap_out_ok [OF m b(1)] b(2) by (simp add: sfs_bmap_get_nolock_def)
    then show ?thesis using v by auto
  next
    case False
    let ?e = "di_indirect (din_of s n)"
    have e: "?e \<noteq> 0" "?b = ent_at (blk s (unat ?e)) (unat i - 12)" using False b(2) by (auto simp: fblk_def split: if_splits)
    have lt: "?e < s_blocks (super (sfs_at s f))" using D(4) [OF e(1)] by (simp add: used_blk_def word_less_nat_alt)
    have r: "unat ((i - SFS_NDIRECT) * 4) < 4096" "unat ((i - SFS_NDIRECT) * 4) + unat (4 :: u32) \<le> 4096" unfolding W(4) [OF False] using i2 False by simp_all
    have "unat (4 :: u32) = 4" by simp
    from sfs_rbuf_ok [OF v lt e(1) r, unfolded W(4) [OF False] this] obtain s1 where
      s1: "sfs_rbuf s f 4 ?e ((i - SFS_NDIRECT) * 4) = Ret (s1, take 4 (drop (4 * (unat i - 12)) (blk s (unat ?e))), 0)"
        "io_rel s s1" "vol_ok s1 f" "blk s1 = blk s" "\<forall>q. q \<notin> scratch s f \<longrightarrow> kmem s1 q = kmem s q" by blast
    note S = io_rel_sel [OF s1(2)]
    have m1: "fmap_ok s1 f" "used_blk s1 f (unat ?b)" using m b(1) by (simp_all add: fmap_ok_def used_blk_def S(1))
    have "sfs_bmap_get_sub_nolock s f ?e (i - SFS_NDIRECT) False = Ret (s1, ?e, ?b, 0)"
      using W(3) [OF False] e s1(1) b(2) by (simp add: sfs_bmap_get_sub_nolock_def ent_at_def)
    then have "sfs_bmap_get_nolock s f n i False = Ret (s1, ?b, 0)"
      using W(1,3) False bmap_out_ok [OF m1] S(2) by (simp add: sfs_bmap_get_nolock_def)
    then show ?thesis using s1 by auto
  qed
  then obtain s' where s': "sfs_bmap_get_nolock s f n i False = Ret (s', ?b, 0)" "io_rel s s'" "vol_ok s' f" "blk s' = blk s" "\<forall>q. q \<notin> scratch s f \<longrightarrow> kmem s' q = kmem s q" by blast
  note S = io_rel_sel [OF s'(2)]
  have m': "fmap_ok s' f" "used_blk s' f (unat ?b)" using m b(1) by (simp_all add: fmap_ok_def used_blk_def S(1))
  have "sfs_bmap_load_nolock s f n i = Ret (s', ?b, 0)" using le s'(1) assert_inuse_ok [OF m'] by (simp add: sfs_bmap_load_nolock_def)
  then show ?thesis using s'(2-5) by blast
qed

subsection \<open>Adding a block to a file\<close>

lemma disk_sins [simp]: "disk_block (p\<lparr>sins := x\<rparr>) = disk_block p" "disk_ready (p\<lparr>sins := x\<rparr>) = disk_ready p"
  using disk_cong [of "p\<lparr>sins := x\<rparr>" p] by (auto simp: fun_eq_iff)

lemma upd_sin_sel [simp]:
  "vol_ok (s\<lparr>priv := (priv s)\<lparr>sins := x\<rparr>\<rparr>) f = vol_ok s f" "fmap_ok (s\<lparr>priv := (priv s)\<lparr>sins := x\<rparr>\<rparr>) f = fmap_ok s f"
  "used_blk (s\<lparr>priv := (priv s)\<lparr>sins := x\<rparr>\<rparr>) f = used_blk s f" "scratch (s\<lparr>priv := (priv s)\<lparr>sins := x\<rparr>\<rparr>) f = scratch s f"
  by (simp_all add: vol_ok_def vol_up_def fmap_ok_def scratch_def disk_buf_def used_blk_def fun_eq_iff)

lemma frel_upd_sin: "frel f n s s1 \<Longrightarrow> frel f n s (upd_sin n (\<lambda>x. x\<lparr>din := d x, dirty := e x\<rparr>) s1)"
  by (erule frelE) (simp add: frelI)

lemma frel_upd_din:
  assumes "frel f n s s1"
  shows "frel f n s (upd_din n g s1)"
proof -
  have eq: "din_update g x = x\<lparr>din := g (din x), dirty := dirty x\<rparr>" for x :: sfs_inode by (cases x) simp
  show ?thesis unfolding eq by (rule frel_upd_sin [OF assms, where d = "\<lambda>x. g (din x)" and e = dirty])
qed

text \<open>The state after a new block \<open>b\<close> was entered in the map, before the number of blocks is increased.\<close>

definition new_blk :: "svfs \<Rightarrow> svfs \<Rightarrow> nat \<Rightarrow> nat \<Rightarrow> u32 \<Rightarrow> bool" where
  "new_blk s s' f n b \<longleftrightarrow> frel f n s s' \<and> vol_ok s' f \<and> fmap_ok s' f \<and> unat b \<in> free_blks s f \<and>
     (\<exists>ds e. length ds = 12 \<and> din_of s' n = (din_of s n)\<lparr>di_direct := ds, di_indirect := e\<rparr> \<and>
        (e = di_indirect (din_of s n) \<and> free_blks s' f = free_blks s f - {unat b} \<or>
         di_indirect (din_of s n) = 0 \<and> e \<noteq> 0 \<and> e \<noteq> b \<and> unat e \<in> free_blks s f \<and> free_blks s' f = free_blks s f - {unat b, unat e}) \<and>
        (\<forall>c. c \<noteq> unat b \<longrightarrow> e = 0 \<or> c \<noteq> unat e \<longrightarrow> blk s' c = blk s c)) \<and>
     (\<forall>i < 1036. fblk s' n i = (if i = nblocks s n then b else fblk s n i)) \<and> blk s' (unat b) = replicate 4096 0 \<and>
     (\<forall>q. q \<notin> scratch s f \<longrightarrow> kmem s' q = kmem s q)"

lemma free_not_used: "used_blk s f b \<Longrightarrow> c \<in> free_blks s f \<Longrightarrow> b \<noteq> c"
  by (auto simp: used_blk_def)

lemma new_blk_direct:
  assumes v: "vol_ok s f" and m: "fmap_ok s f" and fm: "file_map s f n" and i: "nblocks s n < 12" and ne: "free_blks s f \<noteq> {}"
  shows "\<exists>s1 b. sfs_block_alloc s f = Ret (s1, b, 0) \<and> sin_at s1 n = sin_at s n \<and>
     new_blk s (upd_sin n (\<lambda>x. x\<lparr>din := (din x)\<lparr>di_direct := (di_direct (din x))[nblocks s n := b]\<rparr>, dirty := True\<rparr>) s1) f n b"
proof -
  note D = file_mapD [OF fm]
  let ?i = "nblocks s n" and ?e = "di_indirect (din_of s n)"
  from block_alloc_ok [OF v m ne, of n] obtain s1 b where s1: "sfs_block_alloc s f = Ret (s1, b, 0)" "unat b \<in> free_blks s f" "frel f n s s1" "sin_at s1 n = sin_at s n"
    "vol_ok s1 f" "fmap_ok s1 f" "free_blks s1 f = free_blks s f - {unat b}" "blk s1 = (blk s)(unat b := replicate 4096 0)" "\<forall>q. q \<notin> scratch s f \<longrightarrow> kmem s1 q = kmem s q" by blast
  define s' where "s' = upd_sin n (\<lambda>x. x\<lparr>din := (din x)\<lparr>di_direct := (di_direct (din x))[?i := b]\<rparr>, dirty := True\<rparr>) s1"
  have d: "din_of s' n = (din_of s n)\<lparr>di_direct := (di_direct (din_of s n))[?i := b], di_indirect := ?e\<rparr>" using s1(4) by (simp add: s'_def)
  have o: "vol_ok s' f" "fmap_ok s' f" "blk s' = blk s1" "free_blks s' f = free_blks s1 f" "kmem s' = kmem s1" using s1(5,6) by (simp_all add: s'_def)
  have "blk s' (unat ?e) = blk s (unat ?e)" if "?e \<noteq> 0" using D(4) [OF that] s1(2,8) o(3) free_not_used [of s f "unat ?e" "unat b"] by auto
  then have "fblk s' n j = (if j = ?i then b else fblk s n j)" if "j < 1036" for j
    unfolding fblk_def d using i D(1) by (auto simp: nth_list_update)
  moreover have "frel f n s s'" unfolding s'_def by (rule frel_upd_sin [OF s1(3)])
  ultimately have "new_blk s s' f n b" unfolding new_blk_def using s1(2,7-9) D(1) o d
    by (intro conjI exI [of _ "(di_direct (din_of s n))[?i := b]"] exI [of _ ?e]) auto
  then show ?thesis using s1(1,4) unfolding s'_def by blast
qed

lemma bmap_fill_ok:
  assumes v: "vol_ok s f" and m: "fmap_ok s f" and ne: "free_blks s f \<noteq> {}" and e: "used_blk s f (unat e)" and k: "k < 1024" and off: "unat off = 4 * k"
  shows "\<exists>s' b. bmap_fill s f entp e off = Ret (s', e, b, 0) \<and> unat b \<in> free_blks s f \<and> frel f n s s' \<and> sin_at s' n = sin_at s n \<and> vol_ok s' f \<and> fmap_ok s' f \<and>
     free_blks s' f = free_blks s f - {unat b} \<and> blk s' = (blk s)(unat b := replicate 4096 0, unat e := splice (blk s (unat e)) (4 * k) (le4 b)) \<and>
     (\<forall>q. q \<notin> scratch s f \<longrightarrow> kmem s' q = kmem s q)"
proof -
  from block_alloc_ok [OF v m ne, of n] obtain s1 b where s1: "sfs_block_alloc s f = Ret (s1, b, 0)" "unat b \<in> free_blks s f" "frel f n s s1" "sin_at s1 n = sin_at s n"
    "vol_ok s1 f" "fmap_ok s1 f" "free_blks s1 f = free_blks s f - {unat b}" "blk s1 = (blk s)(unat b := replicate 4096 0)" "\<forall>q. q \<notin> scratch s f \<longrightarrow> kmem s1 q = kmem s q" by blast
  have ne: "unat e \<noteq> unat b" by (rule free_not_used [OF e s1(2)])
  have lt: "e < s_blocks (super (sfs_at s1 f))" "e \<noteq> 0" using e frel_sel(2) [OF s1(3)] by (auto simp: used_blk_def word_less_nat_alt)
  have r: "unat off < 4096" "unat off + length (le4 b) \<le> 4096" using off k by simp_all
  from sfs_wbuf_ok [OF s1(5) lt r] obtain s2 where s2: "sfs_wbuf s1 f (le4 b) e off = Ret (s2, 0)" "io_rel s1 s2" "vol_ok s2 f"
    "blk s2 = (blk s1)(unat e := splice (blk s1 (unat e)) (4 * k) (le4 b))" "\<forall>q. q \<notin> scratch s1 f \<longrightarrow> kmem s2 q = kmem s1 q" unfolding off by blast
  note S = io_rel_sel [OF s2(2)]
  have "bmap_fill s f entp e off = Ret (s2, e, b, 0)" using s1(1) s2(1) by (simp add: bmap_fill_def)
  moreover have "frel f n s s2" by (rule frel_trans [OF s1(3) frel_io [OF s2(2)]])
  moreover have "fmap_ok s2 f" using s1(6) by (simp add: fmap_ok_def S(1))
  moreover have "blk s2 = (blk s)(unat b := replicate 4096 0, unat e := splice (blk s (unat e)) (4 * k) (le4 b))" unfolding s2(4) s1(8) using ne by simp
  moreover have "\<forall>q. q \<notin> scratch s f \<longrightarrow> kmem s2 q = kmem s q" using s1(9) s2(5) frel_sel(12) [OF s1(3)] by simp
  ultimately show ?thesis using s1(2,4,7) s2(3) S(1,2) by (intro exI [of _ s2] exI [of _ b]) simp
qed

lemma blk_length [simp]: "vol_ok s f \<Longrightarrow> length (blk s b) = 4096"
  using disk_block_length [OF vol_upD(1), of s f] by (simp add: vol_ok_def)

lemma new_blk_indirect:
  assumes v: "vol_ok s f" and m: "fmap_ok s f" and fm: "file_map s f n" and i: "12 \<le> nblocks s n" "nblocks s n < 1036" and ne: "free_blks s f \<noteq> {}"
    and e: "di_indirect (din_of s n) \<noteq> 0" and j: "unat j = nblocks s n - 12"
  shows "\<exists>s' b. sfs_bmap_get_sub_nolock s f (di_indirect (din_of s n)) j True = Ret (s', di_indirect (din_of s n), b, 0) \<and> sin_at s' n = sin_at s n \<and> new_blk s s' f n b"
proof -
  note D = file_mapD [OF fm]
  let ?i = "nblocks s n" and ?e = "di_indirect (din_of s n)"
  have u: "used_blk s f (unat ?e)" by (rule D(4) [OF e])
  have lt: "?e < s_blocks (super (sfs_at s f))" using u by (simp add: used_blk_def word_less_nat_alt)
  have k: "?i - 12 < 1024" "j < SFS_BLK_NENTRY" "unat (j * 4) = 4 * (?i - 12)" using i j
    by (simp_all add: word_less_nat_alt SFS_BLK_NENTRY_def SFS_BLKSIZE_def unat_div unat_mult_small)
  have r: "unat (j * 4) < 4096" "unat (j * 4) + unat (4 :: u32) \<le> 4096" using k(1) by (simp_all add: k(3))
  have four: "unat (4 :: u32) = 4" by simp
  from sfs_rbuf_ok [OF v lt e r, unfolded k(3) four] obtain s1 where s1: "sfs_rbuf s f 4 ?e (j * 4) = Ret (s1, take 4 (drop (4 * (?i - 12)) (blk s (unat ?e))), 0)"
    "io_rel s s1" "vol_ok s1 f" "blk s1 = blk s" "\<forall>q. q \<notin> scratch s f \<longrightarrow> kmem s1 q = kmem s q" by blast
  note S = io_rel_sel [OF s1(2)]
  have zero: "of_le4 (take 4 (drop (4 * (?i - 12)) (blk s (unat ?e)))) = 0" using D(8) [of ?i] i e by (simp add: fblk_def ent_at_def)
  have m1: "fmap_ok s1 f" "used_blk s1 f (unat ?e)" "free_blks s1 f \<noteq> {}" using m u ne by (simp_all add: fmap_ok_def used_blk_def S(1))
  from bmap_fill_ok [OF s1(3) m1(1,3,2) k(1,3), of ?e n] obtain s2 b where s2: "bmap_fill s1 f ?e ?e (j * 4) = Ret (s2, ?e, b, 0)" "unat b \<in> free_blks s f" "frel f n s1 s2"
    "sin_at s2 n = sin_at s n" "vol_ok s2 f" "fmap_ok s2 f" "free_blks s2 f = free_blks s f - {unat b}"
    "blk s2 = (blk s)(unat b := replicate 4096 0, unat ?e := splice (blk s (unat ?e)) (4 * (?i - 12)) (le4 b))" "\<forall>q. q \<notin> scratch s1 f \<longrightarrow> kmem s2 q = kmem s1 q"
    unfolding S(1,2) s1(4) by blast
  have nb: "unat ?e \<noteq> unat b" by (rule free_not_used [OF u s2(2)])
  have run: "sfs_bmap_get_sub_nolock s f ?e j True = Ret (s2, ?e, b, 0)" using e k(2) s1(1) zero s2(1) by (simp add: sfs_bmap_get_sub_nolock_def)
  have "fblk s2 n c = (if c = ?i then b else fblk s n c)" if "c < 1036" for c
    unfolding fblk_def s2(4,8) using that i e v k(1) by (auto simp: ent_at_splice)
  moreover have "frel f n s s2" by (rule frel_trans [OF frel_io [OF s1(2)] s2(3)])
  moreover have "\<forall>q. q \<notin> scratch s f \<longrightarrow> kmem s2 q = kmem s q" using s1(5) s2(9) frel_sel(12) [OF frel_io [OF s1(2)]] by simp
  ultimately have "new_blk s s2 f n b" unfolding new_blk_def using s2(2,4-8) D(1) nb e
    by (intro conjI exI [of _ "di_direct (din_of s n)"] exI [of _ ?e]) auto
  then show ?thesis using run s2(4) by blast
qed

lemma new_blk_first:
  assumes v: "vol_ok s f" and m: "fmap_ok s f" and fm: "file_map s f n" and i: "12 \<le> nblocks s n" "nblocks s n < 1036" and ne: "1 < card (free_blks s f)"
    and e: "di_indirect (din_of s n) = 0" and j: "unat j = nblocks s n - 12"
  shows "\<exists>s' e b. sfs_bmap_get_sub_nolock s f (di_indirect (din_of s n)) j True = Ret (s', e, b, 0) \<and> e \<noteq> 0 \<and> sin_at s' n = sin_at s n \<and>
     new_blk s (upd_sin n (\<lambda>x. x\<lparr>din := (din x)\<lparr>di_indirect := e\<rparr>, dirty := True\<rparr>) s') f n b"
proof -
  note D = file_mapD [OF fm]
  let ?i = "nblocks s n"
  have k: "?i - 12 < 1024" "j < SFS_BLK_NENTRY" "unat (j * 4) = 4 * (?i - 12)" using i j
    by (simp_all add: word_less_nat_alt SFS_BLK_NENTRY_def SFS_BLKSIZE_def unat_div unat_mult_small)
  have ne0: "free_blks s f \<noteq> {}" using ne by auto
  from block_alloc_ok [OF v m ne0, of n] obtain s1 w where s1: "sfs_block_alloc s f = Ret (s1, w, 0)" "unat w \<in> free_blks s f" "frel f n s s1" "sin_at s1 n = sin_at s n"
    "vol_ok s1 f" "fmap_ok s1 f" "free_blks s1 f = free_blks s f - {unat w}" "blk s1 = (blk s)(unat w := replicate 4096 0)" "\<forall>q. q \<notin> scratch s f \<longrightarrow> kmem s1 q = kmem s q" by blast
  have w: "used_blk s1 f (unat w)" "w \<noteq> 0" using m s1(2,7) frel_sel(2) [OF s1(3)] by (auto simp: used_blk_def fmap_ok_def)
  have ne1: "free_blks s1 f \<noteq> {}" using ne s1(2,7) by (metis card.empty card_Diff_singleton less_numeral_extra(3) zero_less_diff)
  from bmap_fill_ok [OF s1(5,6) ne1 w(1) k(1,3), of 0 n] obtain s2 b where s2: "bmap_fill s1 f 0 w (j * 4) = Ret (s2, w, b, 0)" "unat b \<in> free_blks s1 f" "frel f n s1 s2"
    "sin_at s2 n = sin_at s n" "vol_ok s2 f" "fmap_ok s2 f" "free_blks s2 f = free_blks s1 f - {unat b}"
    "blk s2 = (blk s1)(unat b := replicate 4096 0, unat w := splice (blk s1 (unat w)) (4 * (?i - 12)) (le4 b))" "\<forall>q. q \<notin> scratch s1 f \<longrightarrow> kmem s2 q = kmem s1 q"
    unfolding s1(4) by blast
  have bw: "unat b \<in> free_blks s f" "unat b \<noteq> unat w" "w \<noteq> b" using s2(2) s1(7) by auto
  define s' where "s' = upd_sin n (\<lambda>x. x\<lparr>din := (din x)\<lparr>di_indirect := w\<rparr>, dirty := True\<rparr>) s2"
  have run: "sfs_bmap_get_sub_nolock s f (di_indirect (din_of s n)) j True = Ret (s2, w, b, 0)" using e k(2) s1(1) s2(1) by (simp add: sfs_bmap_get_sub_nolock_def)
  have d: "din_of s' n = (din_of s n)\<lparr>di_direct := di_direct (din_of s n), di_indirect := w\<rparr>" using s2(4) by (simp add: s'_def)
  have o: "vol_ok s' f" "fmap_ok s' f" "blk s' = blk s2" "free_blks s' f = free_blks s2 f" "kmem s' = kmem s2" using s2(5,6) by (simp_all add: s'_def)
  have bs: "blk s' = (blk s)(unat b := replicate 4096 0, unat w := splice (replicate 4096 0) (4 * (?i - 12)) (le4 b))" unfolding o(3) s2(8) s1(8) using bw(2) by auto
  have z: "fblk s n c = 0" if "12 \<le> c" for c using that e by (simp add: fblk_def)
  have "fblk s' n c = (if c = ?i then b else fblk s n c)" if "c < 1036" for c
    using that i w(2) k(1) z by (auto simp: fblk_def d bs ent_at_splice)
  moreover have "frel f n s s'" unfolding s'_def by (rule frel_upd_sin [OF frel_trans [OF s1(3) s2(3)]])
  moreover have "\<forall>q. q \<notin> scratch s f \<longrightarrow> kmem s' q = kmem s q" using s1(9) s2(9) frel_sel(12) [OF s1(3)] o(5) by simp
  moreover have "free_blks s' f = free_blks s f - {unat b, unat w}" using o(4) s2(7) s1(7) by auto
  ultimately have "new_blk s s' f n b" unfolding new_blk_def using bw o(1,2) d bs D(1) w(2) e s1(2)
    by (intro conjI exI [of _ "di_direct (din_of s n)"] exI [of _ w]) auto
  then show ?thesis using run s2(4) w(2) unfolding s'_def by blast
qed

text \<open>Blocks that the file may still take, one of them kept for its indirect entries.\<close>

definition spare :: "svfs \<Rightarrow> nat \<Rightarrow> nat \<Rightarrow> int" where
  "spare s f n = int (card (free_blks s f)) - (if di_indirect (din_of s n) = 0 then 1 else 0)"

lemma new_blkD:
  assumes "new_blk s s' f n b"
  shows "frel f n s s'" "vol_ok s' f" "fmap_ok s' f" "unat b \<in> free_blks s f" "fmap_ok s f \<Longrightarrow> used_blk s' f (unat b)"
    "blk s' (unat b) = replicate 4096 0" "\<forall>q. q \<notin> scratch s f \<longrightarrow> kmem s' q = kmem s q" "i < 1036 \<Longrightarrow> fblk s' n i = (if i = nblocks s n then b else fblk s n i)"
    "free_blks s' f \<subseteq> free_blks s f" "length (di_direct (din_of s' n)) = 12" "di_blocks (din_of s' n) = di_blocks (din_of s n)"
  using assms frel_sel(2) [of f n s s'] by (auto simp: new_blk_def used_blk_def fmap_ok_def)

lemma bmap_get_new:
  assumes v: "vol_ok s f" and m: "fmap_ok s f" and fm: "file_map s f n" and i: "unat i = nblocks s n" "nblocks s n < 1036" and sp: "0 < spare s f n"
  shows "\<exists>s' b. sfs_bmap_get_nolock s f n i True = Ret (s', b, 0) \<and> new_blk s s' f n b"
proof -
  note D = file_mapD [OF fm]
  have W: "i < SFS_NDIRECT \<longleftrightarrow> unat i < 12" "\<not> unat i < 12 \<Longrightarrow> unat (i - SFS_NDIRECT) = unat i - 12" "\<not> unat i < 12 \<Longrightarrow> i - SFS_NDIRECT < SFS_BLK_NENTRY"
    using index_words [of i] i by auto
  have c: "0 < card (free_blks s f)" using sp by (simp add: spare_def split: if_splits)
  then have ne: "free_blks s f \<noteq> {}" by auto
  consider (dir) "nblocks s n < 12" | (ind) "12 \<le> nblocks s n" "di_indirect (din_of s n) \<noteq> 0" | (first) "12 \<le> nblocks s n" "di_indirect (din_of s n) = 0" by linarith
  then show ?thesis
  proof cases
    case dir
    from new_blk_direct [OF v m fm dir ne] obtain s1 b where s1: "sfs_block_alloc s f = Ret (s1, b, 0)" "sin_at s1 n = sin_at s n"
      "new_blk s (upd_sin n (\<lambda>x. x\<lparr>din := (din x)\<lparr>di_direct := (di_direct (din x))[nblocks s n := b]\<rparr>, dirty := True\<rparr>) s1) f n b" by blast
    have "di_direct (din_of s n) ! nblocks s n = 0" using D(8) [of "nblocks s n"] dir by (simp add: fblk_def)
    then have "sfs_bmap_get_nolock s f n i True = bmap_out (upd_sin n (\<lambda>x. x\<lparr>din := (din x)\<lparr>di_direct := (di_direct (din x))[nblocks s n := b]\<rparr>, dirty := True\<rparr>) s1) f b"
      unfolding sfs_bmap_get_nolock_def using dir W(1) i s1(1) by simp
    then show ?thesis using s1(3) bmap_out_ok [OF new_blkD(3) new_blkD(5), OF s1(3) s1(3) m] by auto
  next
    case ind
    have j: "unat (i - SFS_NDIRECT) = nblocks s n - 12" using W(2) i ind by simp
    from new_blk_indirect [OF v m fm ind(1) i(2) ne ind(2) j] obtain s1 b where s1: "sfs_bmap_get_sub_nolock s f (di_indirect (din_of s n)) (i - SFS_NDIRECT) True = Ret (s1, di_indirect (din_of s n), b, 0)"
      "sin_at s1 n = sin_at s n" "new_blk s s1 f n b" by blast
    have "sfs_bmap_get_nolock s f n i True = bmap_out s1 f b" unfolding sfs_bmap_get_nolock_def using W i ind s1(1,2) by simp
    then show ?thesis using s1(3) bmap_out_ok [OF new_blkD(3) new_blkD(5), OF s1(3) s1(3) m] by auto
  next
    case first
    have j: "unat (i - SFS_NDIRECT) = nblocks s n - 12" using W(2) i first by simp
    have c2: "1 < card (free_blks s f)" using sp first by (simp add: spare_def)
    from new_blk_first [OF v m fm first(1) i(2) c2 first(2) j] obtain s1 e b where s1: "sfs_bmap_get_sub_nolock s f (di_indirect (din_of s n)) (i - SFS_NDIRECT) True = Ret (s1, e, b, 0)"
      "e \<noteq> 0" "sin_at s1 n = sin_at s n" "new_blk s (upd_sin n (\<lambda>x. x\<lparr>din := (din x)\<lparr>di_indirect := e\<rparr>, dirty := True\<rparr>) s1) f n b" by blast
    have "sfs_bmap_get_nolock s f n i True = bmap_out (upd_sin n (\<lambda>x. x\<lparr>din := (din x)\<lparr>di_indirect := e\<rparr>, dirty := True\<rparr>) s1) f b"
      unfolding sfs_bmap_get_nolock_def using W i first s1(1-3) by simp
    then show ?thesis using s1(4) bmap_out_ok [OF new_blkD(3) new_blkD(5), OF s1(4) s1(4) m] by auto
  qed
qed

text \<open>What loading and writing blocks of a file may do: the file keeps a good map, takes only free blocks,
  and no other block changes.\<close>

definition wrel :: "nat \<Rightarrow> nat \<Rightarrow> svfs \<Rightarrow> svfs \<Rightarrow> bool" where
  "wrel f n s s' \<longleftrightarrow> frel f n s s' \<and> vol_ok s' f \<and> fmap_ok s' f \<and> file_map s' f n \<and> free_blks s' f \<subseteq> free_blks s f \<and> owned s' n \<subseteq> owned s n \<union> free_blks s f \<and>
     (\<forall>c. c \<notin> free_blks s f \<longrightarrow> c \<notin> owned s n \<longrightarrow> blk s' c = blk s c) \<and> (\<forall>q. q \<notin> scratch s f \<longrightarrow> kmem s' q = kmem s q) \<and>
     di_size (din_of s' n) = di_size (din_of s n) \<and> di_type (din_of s' n) = di_type (din_of s n) \<and> di_nlinks (din_of s' n) = di_nlinks (din_of s n) \<and>
     nblocks s n \<le> nblocks s' n \<and> spare s' f n + int (nblocks s' n) = spare s f n + int (nblocks s n)"

lemma wrelD:
  assumes "wrel f n s s'"
  shows "frel f n s s'" "vol_ok s' f" "fmap_ok s' f" "file_map s' f n" "free_blks s' f \<subseteq> free_blks s f" "owned s' n \<subseteq> owned s n \<union> free_blks s f"
    "c \<notin> free_blks s f \<Longrightarrow> c \<notin> owned s n \<Longrightarrow> blk s' c = blk s c" "q \<notin> scratch s f \<Longrightarrow> kmem s' q = kmem s q"
    "di_size (din_of s' n) = di_size (din_of s n)" "di_type (din_of s' n) = di_type (din_of s n)" "nblocks s n \<le> nblocks s' n"
    "spare s' f n + int (nblocks s' n) = spare s f n + int (nblocks s n)" "scratch s' f = scratch s f" "di_nlinks (din_of s' n) = di_nlinks (din_of s n)"
  using assms frel_sel(12) [of f n s s'] by (simp_all add: wrel_def)

lemma wrel_trans:
  assumes "wrel f n s s1" "wrel f n s1 s2"
  shows "wrel f n s s2"
proof -
  note A = wrelD [OF assms(1)] and B = wrelD [OF assms(2)]
  have "blk s2 c = blk s c" if "c \<notin> free_blks s f" "c \<notin> owned s n" for c
    using B(7) [of c] A(7) [of c] that A(5,6) by auto
  moreover have "kmem s2 q = kmem s q" if "q \<notin> scratch s f" for q using A(8) [OF that] B(8) [of q] that A(13) by simp
  ultimately show ?thesis unfolding wrel_def using A(5,6,9-12,14) B(2-6,9-12,14) frel_trans [OF A(1) B(1)] by (intro conjI) auto
qed

lemma new_blk_spare:
  assumes nb: "new_blk s s1 f n b"
  shows "spare s1 f n = spare s f n - 1"
proof -
  let ?e = "di_indirect (din_of s n)" and ?G = "free_blks s1 f" and ?F = "free_blks s f"
  from nb obtain ds e where E: "din_of s1 n = (din_of s n)\<lparr>di_direct := ds, di_indirect := e\<rparr>" "unat b \<in> ?F"
    "e = ?e \<and> ?G = ?F - {unat b} \<or> ?e = 0 \<and> e \<noteq> 0 \<and> e \<noteq> b \<and> unat e \<in> ?F \<and> ?G = ?F - {unat b, unat e}" unfolding new_blk_def by blast
  have fin: "finite ?F" by simp
  from E(3) show ?thesis
  proof (elim disjE conjE)
    assume "?G = ?F - {unat b}" "e = ?e"
    then show ?thesis using card_Suc_Diff1 [OF fin E(2)] E(1) by (simp add: spare_def)
  next
    assume a: "?G = ?F - {unat b, unat e}" "?e = 0" "e \<noteq> 0" "e \<noteq> b" "unat e \<in> ?F"
    have two: "card {unat b, unat e} = 2" using a(4) by (auto simp: card_insert_if dest: unsigned_word_eqI)
    have sub: "{unat b, unat e} \<subseteq> ?F" using E(2) a(5) by simp
    have "card ?G = card ?F - 2" unfolding a(1) by (simp only: card_Diff_subset [OF finite_subset [OF sub fin] sub] two)
    moreover have "2 \<le> card ?F" using card_mono [OF fin sub] two by simp
    ultimately show ?thesis using a(2,3) E(1) by (simp add: spare_def)
  qed
qed

lemma load_new_map:
  assumes m: "fmap_ok s f" and fm: "file_map s f n" and i: "nblocks s n < 1036" and nb: "new_blk s s1 f n b"
  defines "s' \<equiv> upd_din n (di_blocks_update (\<lambda>x. x + 1)) s1"
  shows "nblocks s' n = Suc (nblocks s n)" "j < 1036 \<Longrightarrow> fblk s' n j = (if j = nblocks s n then b else fblk s n j)" "file_map s' f n" "wrel f n s s'"
    "j < nblocks s n \<Longrightarrow> blk s' (unat (fblk s n j)) = blk s (unat (fblk s n j))" "blk s' (unat b) = replicate 4096 0"
proof -
  note D = file_mapD [OF fm] and N = new_blkD [OF nb]
  let ?i = "nblocks s n" and ?e = "di_indirect (din_of s n)" and ?e' = "di_indirect (din_of s' n)"
  have d: "din_of s' n = (din_of s1 n)\<lparr>di_blocks := di_blocks (din_of s n) + 1\<rparr>" using N(11) by (simp add: s'_def)
  have o: "vol_ok s' f" "fmap_ok s' f" "blk s' = blk s1" "free_blks s' f = free_blks s1 f" "kmem s' = kmem s1" "used_blk s' f = used_blk s1 f"
    using N(2,3) by (simp_all add: s'_def)
  have lt: "di_blocks (din_of s n) + 1 \<noteq> 0" using i by (auto dest!: arg_cong [of _ _ unat] simp: unat_word_ariths)
  then show n1: "nblocks s' n = Suc ?i" by (simp add: d unat_add_small i unatSuc add.commute)
  show f1: "fblk s' n j = (if j = ?i then b else fblk s n j)" if "j < 1036" for j 
  proof -
    have "fblk s' n j = fblk s1 n j" by (simp add: fblk_def d o(3))
    then show ?thesis using N(8) [OF that] by simp
  qed
  from nb obtain ds e where E: "length ds = 12" "din_of s1 n = (din_of s n)\<lparr>di_direct := ds, di_indirect := e\<rparr>"
    "e = ?e \<and> free_blks s1 f = free_blks s f - {unat b} \<or> ?e = 0 \<and> e \<noteq> 0 \<and> e \<noteq> b \<and> unat e \<in> free_blks s f \<and> free_blks s1 f = free_blks s f - {unat b, unat e}"
    "\<forall>c. c \<noteq> unat b \<longrightarrow> e = 0 \<or> c \<noteq> unat e \<longrightarrow> blk s1 c = blk s c" unfolding new_blk_def by blast
  have e': "?e' = e" by (simp add: d E(2))
  have rel: "frel f n s s'" unfolding s'_def by (rule frel_upd_din [OF N(1)])
  have fr: "free_blks s' f \<subseteq> free_blks s f" using N(9) o(4) by simp
  have up: "used_blk s' f c" if "used_blk s f c" for c using that fr frel_sel(2) [OF rel] by (auto simp: used_blk_def)
  have ub: "used_blk s' f (unat b)" using N(5) [OF m] o(6) by simp
  have ue: "used_blk s' f (unat e)" if "e \<noteq> 0"
    using E(3)
  proof (elim disjE conjE)
    assume "e = ?e" then show ?thesis using D(4) up that by simp
  next
    assume "unat e \<in> free_blks s f" "free_blks s1 f = free_blks s f - {unat b, unat e}"
    then show ?thesis using m that frel_sel(2) [OF rel] by (auto simp: used_blk_def o(4) fmap_ok_def)
  qed
  have old: "unat (fblk s n j) \<noteq> unat b" "unat (fblk s n j) \<noteq> unat e" if "j < ?i" for j
    using free_not_used [OF D(3) [OF that]] N(4) E(3) D(7) [OF that] by (auto dest: unsigned_word_eqI)
  show "blk s' (unat (fblk s n j)) = blk s (unat (fblk s n j))" if "j < ?i" for j using old [OF that] E(4) o(3) by simp
  show "blk s' (unat b) = replicate 4096 0" using N(6) o(3) by simp
  have im: "(\<lambda>j. unat (fblk s' n j)) ` {..< ?i} = (\<lambda>j. unat (fblk s n j)) ` {..< ?i}" by (rule image_cong) (use f1 i in auto)
  have own: "owned s' n = insert (unat b) ((\<lambda>j. unat (fblk s n j)) ` {..< ?i}) \<union> (if e = 0 then {} else {unat e})"
    unfolding owned_def n1 e' lessThan_Suc image_insert im using f1 i by simp
  have b0: "b \<noteq> 0" using ub by (auto simp: used_blk_def)
  then have nbe: "b \<noteq> e" using N(4) E(3) D(4) by (auto simp: used_blk_def)
  show fm': "file_map s' f n" unfolding file_map_def
  proof (intro conjI)
    show "length (di_direct (din_of s' n)) = 12" using N(10) by (simp add: d)
    show "nblocks s' n \<le> 1036" using n1 i by simp
    show "\<forall>c \<in> owned s' n. used_blk s' f c" unfolding own using ub ue up D(3) by (auto split: if_splits)
    have "inj_on (\<lambda>j. unat (fblk s' n j)) {..< ?i} = inj_on (\<lambda>j. unat (fblk s n j)) {..< ?i}" by (rule inj_on_cong) (use f1 i in auto)
    then have "inj_on (\<lambda>j. unat (fblk s' n j)) {..< ?i}" using D(5) by simp
    moreover have "unat (fblk s' n ?i) \<notin> (\<lambda>j. unat (fblk s' n j)) ` {..< ?i}" unfolding im using f1 [of ?i] i
      by (simp add: image_iff) (metis lessThan_iff old(1))
    ultimately show "inj_on (\<lambda>j. unat (fblk s' n j)) {..< nblocks s' n}" unfolding n1 lessThan_Suc by simp
    show "\<forall>j < nblocks s' n. fblk s' n j \<noteq> 0 \<and> fblk s' n j \<noteq> ?e'" unfolding n1 e' using f1 i D(6) old(2) nbe b0 by (auto simp: less_Suc_eq)
    show "\<forall>j. nblocks s' n \<le> j \<longrightarrow> j < 1036 \<longrightarrow> fblk s' n j = 0" unfolding n1 using f1 D(8) by auto
  qed
  have sp: "spare s' f n = spare s f n - 1" using new_blk_spare [OF nb] by (simp add: spare_def d o(4))
  have "owned s' n \<subseteq> owned s n \<union> free_blks s f" unfolding own using N(4) E(3) by (auto simp: owned_def)
  moreover have "blk s' c = blk s c" if "c \<notin> free_blks s f" "c \<notin> owned s n" for c
  proof -
    have "c \<noteq> unat b" "e = 0 \<or> c \<noteq> unat e" using that N(4) E(3) by (auto simp: owned_def)
    then show ?thesis using E(4) o(3) by auto
  qed
  ultimately show "wrel f n s s'" unfolding wrel_def using rel o(1,2,5) fm' fr N(7) n1 sp by (intro conjI) (auto simp: d E(2))
qed

end
