(* ===== verification/SfsData.thy ===== *)
theory SfsData
  imports SfsFile
begin

text \<open>
  The contents of a file of the simple file system as bytes at positions: what one transfer of a part
  of a block, the loop over whole blocks and the whole of \<open>sfs_io_nolock\<close> read and write.
\<close>

subsection \<open>Bytes of a file\<close>

definition fbyte :: "svfs \<Rightarrow> nat \<Rightarrow> nat \<Rightarrow> u8" where
  "fbyte s n p = blk s (unat (fblk s n (p div 4096))) ! (p mod 4096)"

definition wrote :: "svfs \<Rightarrow> svfs \<Rightarrow> nat \<Rightarrow> nat \<Rightarrow> u8 list \<Rightarrow> bool" where
  "wrote s s' n p bs \<longleftrightarrow> (\<forall>q < 4096 * nblocks s' n. fbyte s' n q =
     (if p \<le> q \<and> q < p + length bs then bs ! (q - p) else if q < 4096 * nblocks s n then fbyte s n q else 0))"

lemma wroteD: "wrote s s' n p bs \<Longrightarrow> q < 4096 * nblocks s' n \<Longrightarrow>
    fbyte s' n q = (if p \<le> q \<and> q < p + length bs then bs ! (q - p) else if q < 4096 * nblocks s n then fbyte s n q else 0)"
  by (simp add: wrote_def)

lemma wrote_trans:
  assumes "wrote s s1 n p bs" "wrote s1 s2 n (p + length bs) cs" "nblocks s n \<le> nblocks s1 n" "nblocks s1 n \<le> nblocks s2 n" "p + length bs \<le> 4096 * nblocks s1 n"
  shows "wrote s s2 n p (bs @ cs)"
  unfolding wrote_def using wroteD [OF assms(1)] wroteD [OF assms(2)] assms(3-5) by (auto simp: nth_append)

text \<open>A data block of the file was rewritten.\<close>

lemma io_wrel:
  assumes io: "io_rel s s'" and v: "vol_ok s' f" and m: "fmap_ok s f" and fm: "file_map s f n" and i: "i < nblocks s n"
    and b: "blk s' = (blk s)(unat (fblk s n i) := x)" and k: "\<forall>q. q \<notin> scratch s f \<longrightarrow> kmem s' q = kmem s q"
  shows "fblk s' n = fblk s n" "wrel f n s s'" "nblocks s' n = nblocks s n"
proof -
  note S = io_rel_sel [OF io] and D = file_mapD [OF fm]
  show n: "nblocks s' n = nblocks s n" by (simp add: S(2))
  have "unat (di_indirect (din_of s n)) \<noteq> unat (fblk s n i)" using D(7) [OF i] by (auto dest: unsigned_word_eqI)
  then show f: "fblk s' n = fblk s n" by (auto simp: fblk_def S(2) b fun_eq_iff)
  have own: "owned s' n = owned s n" unfolding owned_def f S(2) ..
  have "fmap_ok s' f" using m by (simp add: fmap_ok_def S(1))
  moreover have "file_map s' f n" using fm unfolding file_map_def own f S(2) used_blk_def S(1) .
  moreover have "unat (fblk s n i) \<in> owned s n" using i by (simp add: owned_def)
  ultimately show "wrel f n s s'" unfolding wrel_def using v frel_io [OF io] k
    by (auto simp: own S(1,2) b spare_def)
qed

lemma fbyte_div: "o' < 4096 \<Longrightarrow> fbyte s n (4096 * i + o') = blk s (unat (fblk s n i)) ! o'"
  by (simp add: fbyte_def)

lemma block_cases:
  fixes q :: nat
  obtains i j where "q = 4096 * i + j" "j < 4096" "q div 4096 = i" "q mod 4096 = j"
  using that [of "q div 4096" "q mod 4096"] by simp

lemma splice_wrote:
  assumes fm: "file_map s f n" and v: "vol_ok s f" and i: "i < nblocks s n" and o': "o' + length bs \<le> 4096"
    and b: "blk s' = (blk s)(unat (fblk s n i) := splice (blk s (unat (fblk s n i))) o' bs)" and f: "fblk s' n = fblk s n" "nblocks s' n = nblocks s n"
  shows "wrote s s' n (4096 * i + o') bs"
  unfolding wrote_def
proof (intro allI impI)
  fix q assume q: "q < 4096 * nblocks s' n"
  obtain c j where c: "q = 4096 * c + j" "j < 4096" "q div 4096 = c" "q mod 4096 = j" by (rule block_cases)
  have cn: "c < nblocks s n" using q c(1) f(2) by simp
  have eq: "unat (fblk s n c) = unat (fblk s n i) \<longleftrightarrow> c = i" using file_mapD(5) [OF fm] cn i by (auto dest: inj_onD)
  have "fbyte s' n q = (if c = i then splice (blk s (unat (fblk s n i))) o' bs ! j else fbyte s n q)"
    unfolding fbyte_def c(3,4) f(1) b using eq by auto
  moreover have "splice (blk s (unat (fblk s n i))) o' bs ! j = (if o' \<le> j \<and> j < o' + length bs then bs ! (j - o') else blk s (unat (fblk s n i)) ! j)"
    using o' v c(2) by (subst splice_nth) simp_all
  moreover have "c = i \<and> o' \<le> j \<and> j < o' + length bs \<longleftrightarrow> 4096 * i + o' \<le> q \<and> q < 4096 * i + o' + length bs"
    using c(1,2) o' by (cases c i rule: linorder_cases) auto
  ultimately show "fbyte s' n q = (if 4096 * i + o' \<le> q \<and> q < 4096 * i + o' + length bs then bs ! (q - (4096 * i + o')) else if q < 4096 * nblocks s n then fbyte s n q else 0)"
    using q f(2) c by (auto simp: fbyte_def)
qed

text \<open>Loading a block, an old one or the next new one.\<close>

lemma bmap_load_wrel:
  assumes v: "vol_ok s f" and m: "fmap_ok s f" and fm: "file_map s f n" and i: "unat i \<le> nblocks s n" "unat i < 1036" and sp: "unat i = nblocks s n \<longrightarrow> 0 < spare s f n"
  shows "\<exists>s'. sfs_bmap_load_nolock s f n i = Ret (s', fblk s' n (unat i), 0) \<and> wrel f n s s' \<and> wrote s s' n 0 [] \<and> nblocks s' n = max (nblocks s n) (Suc (unat i))"
proof (cases "unat i < nblocks s n")
  case True
  from bmap_load_old [OF v m fm True] obtain s' where s': "sfs_bmap_load_nolock s f n i = Ret (s', fblk s n (unat i), 0)" "io_rel s s'" "vol_ok s' f" "blk s' = blk s"
    "\<forall>q. q \<notin> scratch s f \<longrightarrow> kmem s' q = kmem s q" by blast
  have b: "blk s' = (blk s)(unat (fblk s n (unat i)) := blk s (unat (fblk s n (unat i))))" using s'(4) by simp
  note W = io_wrel [OF s'(2,3) m fm True b s'(5)]
  have "wrote s s' n 0 []" using s'(4) W(1,3) by (simp add: wrote_def fbyte_def)
  then show ?thesis using s'(1) W True by auto
next
  case False
  then have e: "unat i = nblocks s n" "nblocks s n < 1036" "0 < spare s f n" using i sp by auto
  from bmap_get_new [OF v m fm e] obtain s1 b where s1: "sfs_bmap_get_nolock s f n i True = Ret (s1, b, 0)" "new_blk s s1 f n b" by blast
  define s' where "s' = upd_din n (di_blocks_update (\<lambda>x. x + 1)) s1"
  note M = load_new_map [OF m fm e(2) s1(2), folded s'_def] and D = file_mapD [OF fm]
  have ib: "i = di_blocks (din_of s n)" using e(1) by (rule unsigned_word_eqI)
  have run: "sfs_bmap_load_nolock s f n i = Ret (s', b, 0)"
    unfolding sfs_bmap_load_nolock_def using s1(1) assert_inuse_ok [OF new_blkD(3,5) [OF s1(2)] , OF m] by (simp add: ib s'_def)
  have "wrote s s' n 0 []" unfolding wrote_def
  proof (intro allI impI)
    fix q assume q: "q < 4096 * nblocks s' n"
    obtain c j where c: "q = 4096 * c + j" "j < 4096" "q div 4096 = c" "q mod 4096 = j" by (rule block_cases)
    have "c < nblocks s n \<or> c = nblocks s n" using q c(1) M(1) by auto
    then have "fbyte s' n q = (if q < 4096 * nblocks s n then fbyte s n q else 0)"
      unfolding fbyte_def c(3,4) using M(2) [of c] M(5) [of c] M(6) c(1,2) e(2) by auto
    then show "fbyte s' n q = (if 0 \<le> q \<and> q < 0 + length [] then [] ! (q - 0) else if q < 4096 * nblocks s n then fbyte s n q else 0)" by simp
  qed
  then show ?thesis using run M(1,4) M(2) [of "unat i"] e by auto
qed

subsection \<open>A transfer as a sequence of block operations\<close>

lemma first_block:
  fixes a c x y :: nat
  assumes "a < c" "p = 4096 * a + x" "q = 4096 * c + y" "x < 4096"
  shows "4096 * (c - a - 1) + y = q - p - (4096 - x)" "p + (4096 - x) = 4096 * (a + 1)" "4096 - x \<le> q - p"
proof -
  obtain d where "c = Suc (a + d)" using less_imp_Suc_add [OF assms(1)] by blast
  then show "4096 * (c - a - 1) + y = q - p - (4096 - x)" "p + (4096 - x) = 4096 * (a + 1)" "4096 - x \<le> q - p" using assms(2-4) by simp_all
qed

text \<open>\<open>can s buf p l\<close>: the file is ready for a transfer of \<open>l\<close> bytes at position \<open>p\<close>; \<open>tr s s' buf p l\<close>: it was done.\<close>

locale block_transfer =
  fixes wr :: bool and f n :: nat and can :: "svfs \<Rightarrow> nat \<Rightarrow> nat \<Rightarrow> nat \<Rightarrow> bool" and tr :: "svfs \<Rightarrow> svfs \<Rightarrow> nat \<Rightarrow> nat \<Rightarrow> nat \<Rightarrow> bool"
  assumes part: "can s buf (4096 * unat b + unat o') (unat sz) \<Longrightarrow> unat o' < 4096 \<Longrightarrow> unat o' + unat sz \<le> 4096 \<Longrightarrow> 0 < unat sz \<Longrightarrow>
      \<exists>s'. io_part wr s f n buf b sz o' = Ret (s', 0) \<and> tr s s' buf (4096 * unat b + unat o') (unat sz)"
    and block: "can s buf (4096 * unat b) 4096 \<Longrightarrow> \<exists>s'. io_block wr s f n buf b = Ret (s', 0) \<and> tr s s' buf (4096 * unat b) 4096"
    and idle: "can s buf p 0 \<Longrightarrow> tr s s buf p 0"
    and seq: "can s buf p (l + l') \<Longrightarrow> tr s s1 buf p l \<Longrightarrow> tr s1 s2 (buf + l) (p + l) l' \<Longrightarrow> tr s s2 buf p (l + l')"
    and can_first: "can s buf p (l + l') \<Longrightarrow> can s buf p l"
    and can_next: "can s buf p (l + l') \<Longrightarrow> tr s s1 buf p l \<Longrightarrow> can s1 (buf + l) (p + l) l'"
    and can_le: "can s buf p l \<Longrightarrow> p + l \<le> 4096 * 1036"
begin

lemma blocks:
  "can s buf (4096 * unat b) (4096 * k) \<Longrightarrow>
     \<exists>s'. io_blocks k wr s f n buf b alen = Ret (s', buf + 4096 * k, b + of_nat k, alen + of_nat (4096 * k), 0) \<and> tr s s' buf (4096 * unat b) (4096 * k)"
proof (induction k arbitrary: s buf b alen)
  case 0
  then have "can s buf (4096 * unat b) 0" by simp
  then have t: "tr s s buf (4096 * unat b) 0" by (rule idle)
  show ?case by (rule exI [of _ s]) (simp add: t)
next
  case (Suc k)
  have c: "can s buf (4096 * unat b) (4096 + 4096 * k)" using Suc.prems by simp
  from block [OF can_first [OF c]] obtain s1 where s1: "io_block wr s f n buf b = Ret (s1, 0)" "tr s s1 buf (4096 * unat b) 4096" by blast
  have "unat b < 1036" using can_le [OF Suc.prems] by simp
  then have "unat (b + 1) = unat b + 1" by (subst unat_add_small) simp_all
  then have u: "4096 * unat (b + 1) = 4096 * unat b + 4096" by simp
  have "can s1 (buf + 4096) (4096 * unat (b + 1)) (4096 * k)" using can_next [OF c s1(2)] by (simp only: u)
  from Suc.IH [OF this, of "alen + 4096"] obtain s2 where s2: "io_blocks k wr s1 f n (buf + 4096) (b + 1) (alen + 4096) =
      Ret (s2, buf + 4096 + 4096 * k, b + 1 + of_nat k, alen + 4096 + of_nat (4096 * k), 0)" "tr s1 s2 (buf + 4096) (4096 * unat (b + 1)) (4096 * k)" by blast
  have "tr s s2 buf (4096 * unat b) (4096 + 4096 * k)" using seq [OF c s1(2), of s2] s2(2) by (simp only: u)
  moreover have "io_blocks (Suc k) wr s f n buf b alen = io_blocks k wr s1 f n (buf + 4096) (b + 1) (alen + 4096)" using s1(1) by (simp add: SFS_BLKSIZE_def)
  moreover have "buf + 4096 * Suc k = buf + 4096 + 4096 * k" "b + of_nat (Suc k) = b + 1 + of_nat k" "alen + of_nat (4096 * Suc k) = alen + 4096 + of_nat (4096 * k)" "4096 * Suc k = 4096 + 4096 * k"
    by (simp_all add: algebra_simps)
  ultimately show ?case using s2(1) by (auto simp only:)
qed

lemma blocks_rest:
  assumes c: "can s buf (4096 * unat b) (4096 * k + r)" and r: "r < 4096" "unat rest = r"
  shows "\<exists>s'. bind_outcome (io_blocks k wr s f n buf b alen) (\<lambda>(s2, buf2, blkno2, alen, ret).
      if ret \<noteq> 0 then io_out s2 n off alen ret
      else if rest \<noteq> 0 then bind_outcome (io_part wr s2 f n buf2 blkno2 rest 0) (\<lambda>(s3, ret). io_out s3 n off (if ret \<noteq> 0 then alen else alen + rest) ret)
      else io_out s2 n off alen 0) = io_out s' n off (alen + of_nat (4096 * k + r)) 0 \<and> tr s s' buf (4096 * unat b) (4096 * k + r)"
proof -
  from blocks [OF can_first [OF c]] obtain s1 where s1: "io_blocks k wr s f n buf b alen = Ret (s1, buf + 4096 * k, b + of_nat k, alen + of_nat (4096 * k), 0)"
    "tr s s1 buf (4096 * unat b) (4096 * k)" by blast
  show ?thesis
  proof (cases "r = 0")
    case True
    then have "rest = 0" using r(2) by (simp add: unat_eq_0)
    then show ?thesis using s1 True by auto
  next
    case False
    have le: "4096 * unat b + 4096 * k \<le> 4096 * 1036" using can_le [OF c] by simp
    have u: "unat (b + of_nat k) = unat b + k" using le by (subst unat_add_small) (simp_all add: unat_of_nat_u32)
    have "can s1 (buf + 4096 * k) (4096 * unat (b + of_nat k) + unat (0 :: u32)) (unat rest)" using can_next [OF c s1(2)] r(2) by (simp add: u algebra_simps)
    from part [OF this] False r obtain s2 where s2: "io_part wr s1 f n (buf + 4096 * k) (b + of_nat k) rest 0 = Ret (s2, 0)"
      "tr s1 s2 (buf + 4096 * k) (4096 * unat b + 4096 * k) r" by (auto simp: u algebra_simps)
    have "rest \<noteq> 0" "rest = of_nat r" using False r(2) by auto
    then show ?thesis using s1(1) s2(1) seq [OF c s1(2) s2(2)] by (auto simp: algebra_simps)
  qed
qed

lemma transfer:
  assumes c: "can s buf (unat off) (unat e - unat off)" and lt: "off < e"
  shows "\<exists>s'. io_transfer wr s f n buf off e = io_out s' n off (e - off) 0 \<and> tr s s' buf (unat off) (unat e - unat off)"
proof -
  let ?p = "unat off" and ?q = "unat e" and ?B = "off div SFS_BLKSIZE" and ?N = "e div SFS_BLKSIZE - off div SFS_BLKSIZE" and ?O = "off mod SFS_BLKSIZE"
  have pq: "?p < ?q" using lt by (simp add: word_less_nat_alt)
  have dm: "?p div 4096 \<le> ?q div 4096" using pq by (intro div_le_mono) simp
  have u: "unat ?B = ?p div 4096" "unat ?O = ?p mod 4096" "unat (e mod SFS_BLKSIZE) = ?q mod 4096" "unat (e div SFS_BLKSIZE) = ?q div 4096"
    by (simp_all add: unat_div unat_mod SFS_BLKSIZE_def)
  then have un: "unat ?N = ?q div 4096 - ?p div 4096" using dm by (subst unat_sub) (simp_all add: word_le_nat_alt)
  have ed: "of_nat (?q - ?p) = e - off" using pq by (simp add: of_nat_diff)
  have split: "?q = 4096 * (?q div 4096) + ?q mod 4096" "?p = 4096 * (?p div 4096) + ?p mod 4096" by simp_all
  have r: "?q mod 4096 < 4096" "unat (e mod SFS_BLKSIZE) = ?q mod 4096" using u(3) by simp_all
  have p': "4096 * unat ?B + unat ?O = ?p" using u by simp
  consider (al) "?p mod 4096 = 0" | (one) "?p mod 4096 \<noteq> 0" "?p div 4096 = ?q div 4096" | (more) "?p mod 4096 \<noteq> 0" "?p div 4096 < ?q div 4096" using dm by linarith
  then show ?thesis
  proof cases
    case al
    have o0: "?O = 0" using al u(2) by (simp add: unat_eq_0)
    have len: "4096 * unat ?N + ?q mod 4096 = ?q - ?p" "4096 * unat ?B = ?p" using al split un dm u(1) by (simp_all add: diff_mult_distrib2)
    have "can s buf (4096 * unat ?B) (4096 * unat ?N + ?q mod 4096)" using c unfolding len .
    from blocks_rest [OF this r, of 0 off] show ?thesis unfolding len ed io_transfer_def Let_def by (simp add: o0)
  next
    case one
    have "unat ?N = 0" using one(2) un by simp
    then have o0: "?O \<noteq> 0" "?N = 0" using one(1) u(2) by (metis unat_0, simp only: unat_eq_0)
    have sz: "unat (e - off) = ?q - ?p" using lt by (intro unat_sub) (simp add: less_imp_le)
    have le: "unat ?O + unat (e - off) \<le> 4096" "0 < unat (e - off)" using one(2) split u(2) sz pq by linarith+
    have "can s buf (4096 * unat ?B + unat ?O) (unat (e - off))" using c unfolding p' sz .
    from part [OF this _ le] u(2) obtain s1 where s1: "io_part wr s f n buf ?B (e - off) ?O = Ret (s1, 0)" "tr s s1 buf ?p (?q - ?p)" unfolding p' sz by auto
    have "io_transfer wr s f n buf off e = io_out s1 n off (e - off) 0" unfolding io_transfer_def Let_def using s1(1) o0 by simp
    then show ?thesis using s1(2) by blast
  next
    case more
    have "unat ?N \<noteq> 0" using more(2) un by simp
    then have o0: "?O \<noteq> 0" "?N \<noteq> 0" using more(1) u(2) by (metis unat_0, metis unat_0)
    have sz: "unat (SFS_BLKSIZE - ?O) = 4096 - ?p mod 4096" using u(2) by (subst unat_sub) (simp_all add: word_le_nat_alt SFS_BLKSIZE_def)
    have le: "unat ?O + unat (SFS_BLKSIZE - ?O) \<le> 4096" "0 < unat (SFS_BLKSIZE - ?O)" using u(2) sz by simp_all
    have B1: "unat (?B + 1) = ?p div 4096 + 1" using u(1) unat_u32_less [of off] by (subst unat_add_small) simp_all
    have N1: "unat (?N - 1) = ?q div 4096 - ?p div 4096 - 1" using un o0(2) by (simp add: unat_minus_one)
    have len: "4096 * unat (?N - 1) + ?q mod 4096 = ?q - ?p - (4096 - ?p mod 4096)" "?p + (4096 - ?p mod 4096) = 4096 * unat (?B + 1)" "4096 - ?p mod 4096 \<le> ?q - ?p"
      unfolding N1 B1 by (rule first_block [OF more(2) split(2,1)], simp)+
    have c1: "can s buf ?p ((4096 - ?p mod 4096) + (?q - ?p - (4096 - ?p mod 4096)))" using c len(3) by simp
    have "can s buf (4096 * unat ?B + unat ?O) (unat (SFS_BLKSIZE - ?O))" using can_first [OF c1] unfolding p' sz .
    from part [OF this _ le] u(2) obtain s1 where s1: "io_part wr s f n buf ?B (SFS_BLKSIZE - ?O) ?O = Ret (s1, 0)" "tr s s1 buf ?p (4096 - ?p mod 4096)" unfolding p' sz by auto
    have "can s1 (buf + unat (SFS_BLKSIZE - ?O)) (4096 * unat (?B + 1)) (4096 * unat (?N - 1) + ?q mod 4096)" using can_next [OF c1 s1(2)] unfolding len sz .
    from blocks_rest [OF this r, of "SFS_BLKSIZE - ?O" off] obtain s2 where s2: "io_transfer wr s f n buf off e = io_out s2 n off (SFS_BLKSIZE - ?O + of_nat (4096 * unat (?N - 1) + ?q mod 4096)) 0"
      "tr s1 s2 (buf + unat (SFS_BLKSIZE - ?O)) (4096 * unat (?B + 1)) (4096 * unat (?N - 1) + ?q mod 4096)" unfolding io_transfer_def Let_def using s1(1) o0 by auto
    have "tr s s2 buf ?p ((4096 - ?p mod 4096) + (?q - ?p - (4096 - ?p mod 4096)))" using seq [OF c1 s1(2)] s2(2) unfolding len sz by blast
    moreover have "SFS_BLKSIZE - ?O = of_nat (4096 - ?p mod 4096)" unfolding sz [symmetric] by simp
    then have "SFS_BLKSIZE - ?O + of_nat (4096 * unat (?N - 1) + ?q mod 4096) = e - off"
      unfolding len(1) ed [symmetric] by (simp only: of_nat_add [symmetric] le_add_diff_inverse [OF len(3)])
    ultimately show ?thesis using s2(1) len(3) by auto
  qed
qed

end

subsection \<open>Writing\<close>

definition file_ready :: "nat \<Rightarrow> nat \<Rightarrow> svfs \<Rightarrow> bool" where
  "file_ready f n s \<longleftrightarrow> vol_ok s f \<and> fmap_ok s f \<and> file_map s f n"

definition can_write :: "nat \<Rightarrow> nat \<Rightarrow> svfs \<Rightarrow> nat \<Rightarrow> nat \<Rightarrow> nat \<Rightarrow> bool" where
  "can_write f n s buf p l \<longleftrightarrow> file_ready f n s \<and> p \<le> 4096 * nblocks s n \<and> p + l \<le> 4096 * 1036 \<and>
     int (p + l) \<le> 4096 * (int (nblocks s n) + spare s f n) \<and> {buf ..< buf + l} \<inter> scratch s f = {}"

definition did_write :: "nat \<Rightarrow> nat \<Rightarrow> svfs \<Rightarrow> svfs \<Rightarrow> nat \<Rightarrow> nat \<Rightarrow> nat \<Rightarrow> bool" where
  "did_write f n s s' buf p l \<longleftrightarrow> wrel f n s s' \<and> wrote s s' n p (load_bytes (kmem s) buf l) \<and> nblocks s' n = max (nblocks s n) ((p + l + 4095) div 4096)"

lemma load_bytes_kept:
  assumes "{buf ..< buf + l} \<inter> scratch s f = {}" "wrel f n s s1" "buf \<le> a" "a + k \<le> buf + l"
  shows "load_bytes (kmem s1) a k = load_bytes (kmem s) a k"
proof (rule load_bytes_cong)
  fix q assume "a \<le> q" "q < a + k"
  then have "q \<in> {buf ..< buf + l}" using assms(3,4) by simp
  then have "q \<notin> scratch s f" using assms(1) by blast
  then show "kmem s1 q = kmem s q" by (rule wrelD(8) [OF assms(2)])
qed

lemma wrote_load: "wrote s s1 n 0 [] \<Longrightarrow> wrote s1 s2 n p bs \<Longrightarrow> nblocks s n \<le> nblocks s1 n \<Longrightarrow> nblocks s1 n \<le> nblocks s2 n \<Longrightarrow> wrote s s2 n p bs"
  unfolding wrote_def by auto

lemma load_splice:
  assumes c: "can_write f n s buf (4096 * unat i + o') l" and l: "0 < l" "o' + l \<le> 4096"
  shows "\<exists>s1. sfs_bmap_load_nolock s f n i = Ret (s1, fblk s1 n (unat i), 0) \<and> wrel f n s s1 \<and> unat i < nblocks s1 n \<and>
    (\<forall>s2. io_rel s1 s2 \<longrightarrow> vol_ok s2 f \<longrightarrow> (\<forall>q. q \<notin> scratch s1 f \<longrightarrow> kmem s2 q = kmem s1 q) \<longrightarrow>
      blk s2 = (blk s1)(unat (fblk s1 n (unat i)) := splice (blk s1 (unat (fblk s1 n (unat i)))) o' (load_bytes (kmem s1) buf l)) \<longrightarrow>
      did_write f n s s2 buf (4096 * unat i + o') l)"
proof -
  have C: "vol_ok s f" "fmap_ok s f" "file_map s f n" "4096 * unat i + o' \<le> 4096 * nblocks s n" "4096 * unat i + o' + l \<le> 4096 * 1036"
    "int (4096 * unat i + o' + l) \<le> 4096 * (int (nblocks s n) + spare s f n)" "{buf ..< buf + l} \<inter> scratch s f = {}" using c by (simp_all add: can_write_def file_ready_def)
  have i: "unat i \<le> nblocks s n" "unat i < 1036" using C(4,5) l(1) by auto
  have sp: "unat i = nblocks s n \<longrightarrow> 0 < spare s f n"
  proof
    assume "unat i = nblocks s n"
    with C(6) have "int (4096 * nblocks s n + o' + l) \<le> 4096 * (int (nblocks s n) + spare s f n)" by (simp only:)
    then show "0 < spare s f n" using l(1) by simp
  qed
  from bmap_load_wrel [OF C(1-3) i sp] obtain s1 where s1: "sfs_bmap_load_nolock s f n i = Ret (s1, fblk s1 n (unat i), 0)" "wrel f n s s1" "wrote s s1 n 0 []"
    "nblocks s1 n = max (nblocks s n) (Suc (unat i))" by blast
  note W = wrelD [OF s1(2)]
  have lt: "unat i < nblocks s1 n" using s1(4) by simp
  have "did_write f n s s2 buf (4096 * unat i + o') l"
    if s2: "io_rel s1 s2" "vol_ok s2 f" "\<forall>q. q \<notin> scratch s1 f \<longrightarrow> kmem s2 q = kmem s1 q"
      "blk s2 = (blk s1)(unat (fblk s1 n (unat i)) := splice (blk s1 (unat (fblk s1 n (unat i)))) o' (load_bytes (kmem s1) buf l))" for s2
  proof -
    note I = io_wrel [OF s2(1,2) W(3,4) lt s2(4,3)]
    have "wrote s1 s2 n (4096 * unat i + o') (load_bytes (kmem s1) buf l)" by (rule splice_wrote [OF W(4,2) lt _ s2(4) I(1,3)]) (use l in simp)
    moreover have "load_bytes (kmem s1) buf l = load_bytes (kmem s) buf l" by (rule load_bytes_kept [OF C(7) s1(2)]) simp_all
    ultimately have "wrote s s2 n (4096 * unat i + o') (load_bytes (kmem s) buf l)" using wrote_load [OF s1(3), of s2] W(11) I(3) by simp
    moreover have "(4096 * unat i + o' + l + 4095) div 4096 = Suc (unat i)" using l by (intro div_nat_eqI) simp_all
    ultimately show ?thesis unfolding did_write_def using wrel_trans [OF s1(2) I(2)] I(3) s1(4) by simp
  qed
  then show ?thesis using s1(1,2) lt by blast
qed

lemma used_word: "file_map s f n \<Longrightarrow> i < nblocks s n \<Longrightarrow> fblk s n i < s_blocks (super (sfs_at s f)) \<and> fblk s n i \<noteq> 0"
  using file_mapD(3,6) [of s f n i] by (simp add: used_blk_def word_less_nat_alt)

lemma write_part:
  assumes c: "can_write f n s buf (4096 * unat b + unat o') (unat sz)" and o': "unat o' < 4096" "unat o' + unat sz \<le> 4096" "0 < unat sz"
  shows "\<exists>s'. io_part True s f n buf b sz o' = Ret (s', 0) \<and> did_write f n s s' buf (4096 * unat b + unat o') (unat sz)"
proof -
  from load_splice [OF c o'(3,2)] obtain s1 where s1: "sfs_bmap_load_nolock s f n b = Ret (s1, fblk s1 n (unat b), 0)" "wrel f n s s1" "unat b < nblocks s1 n"
    "\<And>s2. io_rel s1 s2 \<Longrightarrow> vol_ok s2 f \<Longrightarrow> \<forall>q. q \<notin> scratch s1 f \<longrightarrow> kmem s2 q = kmem s1 q \<Longrightarrow>
      blk s2 = (blk s1)(unat (fblk s1 n (unat b)) := splice (blk s1 (unat (fblk s1 n (unat b)))) (unat o') (load_bytes (kmem s1) buf (unat sz))) \<Longrightarrow>
      did_write f n s s2 buf (4096 * unat b + unat o') (unat sz)" by blast
  note U = conjunct1 [OF used_word [OF wrelD(4) [OF s1(2)] s1(3)]] conjunct2 [OF used_word [OF wrelD(4) [OF s1(2)] s1(3)]]
  have "unat o' + length (load_bytes (kmem s1) buf (unat sz)) \<le> 4096" using o' by simp
  from sfs_wbuf_ok [OF wrelD(2) [OF s1(2)] U o'(1) this] obtain s2 where s2: "sfs_wbuf s1 f (load_bytes (kmem s1) buf (unat sz)) (fblk s1 n (unat b)) o' = Ret (s2, 0)" "io_rel s1 s2" "vol_ok s2 f"
    "blk s2 = (blk s1)(unat (fblk s1 n (unat b)) := splice (blk s1 (unat (fblk s1 n (unat b)))) (unat o') (load_bytes (kmem s1) buf (unat sz)))" "\<forall>q. q \<notin> scratch s1 f \<longrightarrow> kmem s2 q = kmem s1 q" by blast
  have "io_part True s f n buf b sz o' = Ret (s2, 0)" using s1(1) s2(1) by (simp add: io_part_def sfs_buf_op_def)
  then show ?thesis using s1(4) [OF s2(2,3,5,4)] by blast
qed

lemma splice_all: "length ys = length xs \<Longrightarrow> splice xs 0 ys = ys"
  by (simp add: splice_def)

lemma write_block:
  assumes c: "can_write f n s buf (4096 * unat b) 4096"
  shows "\<exists>s'. io_block True s f n buf b = Ret (s', 0) \<and> did_write f n s s' buf (4096 * unat b) 4096"
proof -
  have c': "can_write f n s buf (4096 * unat b + 0) 4096" using c by simp
  from load_splice [OF c'] obtain s1 where s1: "sfs_bmap_load_nolock s f n b = Ret (s1, fblk s1 n (unat b), 0)" "wrel f n s s1" "unat b < nblocks s1 n"
    "\<And>s2. io_rel s1 s2 \<Longrightarrow> vol_ok s2 f \<Longrightarrow> \<forall>q. q \<notin> scratch s1 f \<longrightarrow> kmem s2 q = kmem s1 q \<Longrightarrow>
      blk s2 = (blk s1)(unat (fblk s1 n (unat b)) := splice (blk s1 (unat (fblk s1 n (unat b)))) 0 (load_bytes (kmem s1) buf 4096)) \<Longrightarrow>
      did_write f n s s2 buf (4096 * unat b) 4096" by auto
  note U = conjunct1 [OF used_word [OF wrelD(4) [OF s1(2)] s1(3)]] conjunct2 [OF used_word [OF wrelD(4) [OF s1(2)] s1(3)]]
  from sfs_wblock_ok [OF wrelD(2) [OF s1(2)] U] obtain s2 where s2: "sfs_wblock s1 f buf (fblk s1 n (unat b)) 1 = Ret (s2, 0)" "io_rel s1 s2" "vol_ok s2 f"
    "blk s2 = (blk s1)(unat (fblk s1 n (unat b)) := load_bytes (kmem s1) buf 4096)" "\<forall>q. q \<notin> scratch s1 f \<longrightarrow> kmem s2 q = kmem s1 q" by blast
  have "splice (blk s1 (unat (fblk s1 n (unat b)))) 0 (load_bytes (kmem s1) buf 4096) = load_bytes (kmem s1) buf 4096" using blk_length [OF wrelD(2) [OF s1(2)]] by (intro splice_all) simp
  then have "did_write f n s s2 buf (4096 * unat b) 4096" using s1(4) [OF s2(2,3,5)] s2(4) by simp
  moreover have "io_block True s f n buf b = Ret (s2, 0)" using s1(1) s2(1) by (simp add: io_block_def sfs_block_op_def)
  ultimately show ?thesis by blast
qed

lemma write_seq:
  assumes c: "can_write f n s buf p (l + l')" and a: "did_write f n s s1 buf p l" and b: "did_write f n s1 s2 (buf + l) (p + l) l'"
  shows "did_write f n s s2 buf p (l + l')"
proof -
  have A: "wrel f n s s1" "wrote s s1 n p (load_bytes (kmem s) buf l)" "nblocks s1 n = max (nblocks s n) ((p + l + 4095) div 4096)" using a by (simp_all add: did_write_def)
  have B: "wrel f n s1 s2" "wrote s1 s2 n (p + l) (load_bytes (kmem s1) (buf + l) l')" "nblocks s2 n = max (nblocks s1 n) ((p + l + l' + 4095) div 4096)"
    using b by (simp_all add: did_write_def)
  have "load_bytes (kmem s1) (buf + l) l' = load_bytes (kmem s) (buf + l) l'" 
    by (rule load_bytes_kept [OF _ A(1), of buf "l + l'"]) (use c in \<open>simp_all add: can_write_def\<close>)
  moreover have "load_bytes (kmem s) buf l @ load_bytes (kmem s) (buf + l) l' = load_bytes (kmem s) buf (l + l')" by (rule nth_equalityI) (auto simp: nth_append)
  moreover have "p + l \<le> 4096 * nblocks s1 n" unfolding A(3) by (simp add: max_def) linarith
  ultimately have "wrote s s2 n p (load_bytes (kmem s) buf (l + l'))"
    using wrote_trans [OF A(2), of s2] B(2) wrelD(11) [OF A(1)] wrelD(11) [OF B(1)] by (metis load_bytes_length)
  moreover have "(p + l + 4095) div 4096 \<le> (p + l + l' + 4095) div 4096" by (intro div_le_mono) simp
  ultimately show ?thesis unfolding did_write_def using wrel_trans [OF A(1) B(1)] A(3) B(3) by (simp add: add.assoc max_def)
qed

lemma buffer_next: "{buf ..< buf + (l + l')} \<inter> A = {} \<Longrightarrow> {buf + l ..< buf + l + l'} \<inter> A = {} \<and> {buf ..< buf + l} \<inter> A = {}" for buf :: nat
  by (fastforce simp: disjoint_iff)

lemma write_next:
  assumes c: "can_write f n s buf p (l + l')" and a: "did_write f n s s1 buf p l"
  shows "can_write f n s1 (buf + l) (p + l) l'"
proof -
  have A: "wrel f n s s1" "nblocks s1 n = max (nblocks s n) ((p + l + 4095) div 4096)" using a by (simp_all add: did_write_def)
  have "p + l \<le> 4096 * nblocks s1 n" unfolding A(2) by (simp add: max_def) linarith
  moreover have "file_ready f n s1" using wrelD(2-4) [OF A(1)] by (simp add: file_ready_def)
  moreover have "int (nblocks s1 n) + spare s1 f n = int (nblocks s n) + spare s f n" using wrelD(12) [OF A(1)] by simp
  moreover have "{buf + l ..< buf + l + l'} \<inter> scratch s1 f = {}" using c wrelD(13) [OF A(1)] buffer_next [of buf l l' "scratch s f"] by (simp add: can_write_def)
  ultimately show ?thesis using c by (simp add: can_write_def add.assoc)
qed

lemma wrel_refl: "file_ready f n s \<Longrightarrow> wrel f n s s"
  using frel_io [of s s f n] by (simp add: wrel_def file_ready_def io_rel_refl)

lemma can_write_le: "can_write f n s buf p l \<Longrightarrow> p + l \<le> 4096 * 1036"
  by (simp add: can_write_def)

interpretation sfs_writing: block_transfer True f n "can_write f n" "did_write f n" for f n
proof
  show "did_write f n s s buf p 0" if c: "can_write f n s buf p 0" for s buf p
  proof -
    have "(p + 4095) div 4096 \<le> nblocks s n" using c by (simp add: can_write_def less_Suc_eq_le [symmetric] div_less_iff_less_mult)
    then show ?thesis using wrel_refl c by (auto simp: did_write_def can_write_def wrote_def load_bytes_def)
  qed
  show "can_write f n s buf p l" if c: "can_write f n s buf p (l + l')" for s buf p l l' using c buffer_next [of buf l l' "scratch s f"] by (simp add: can_write_def)
qed (rule write_part write_block write_seq write_next can_write_le; assumption)+

subsection \<open>Reading\<close>

definition can_read :: "nat \<Rightarrow> nat \<Rightarrow> svfs \<Rightarrow> nat \<Rightarrow> nat \<Rightarrow> nat \<Rightarrow> bool" where
  "can_read f n s buf p l \<longleftrightarrow> file_ready f n s \<and> p + l \<le> 4096 * nblocks s n \<and> {buf ..< buf + l} \<inter> scratch s f = {}"

definition did_read :: "nat \<Rightarrow> nat \<Rightarrow> svfs \<Rightarrow> svfs \<Rightarrow> nat \<Rightarrow> nat \<Rightarrow> nat \<Rightarrow> bool" where
  "did_read f n s s' buf p l \<longleftrightarrow> io_rel s s' \<and> vol_ok s' f \<and> blk s' = blk s \<and> (\<forall>k < l. kmem s' (buf + k) = fbyte s n (p + k)) \<and>
     (\<forall>q. q \<notin> scratch s f \<longrightarrow> \<not> (buf \<le> q \<and> q < buf + l) \<longrightarrow> kmem s' q = kmem s q)"

lemma same_blocks:
  assumes "io_rel s s'" "blk s' = blk s"
  shows "fblk s' n = fblk s n" "fbyte s' n = fbyte s n" "vol_ok s' f \<Longrightarrow> file_ready f n s \<Longrightarrow> file_ready f n s'"
proof -
  note S = io_rel_sel [OF assms(1)]
  show f: "fblk s' n = fblk s n" by (simp add: fblk_def fun_eq_iff S(2) assms(2))
  then show "fbyte s' n = fbyte s n" by (simp add: fbyte_def fun_eq_iff assms(2))
  assume "vol_ok s' f" "file_ready f n s"
  then show "file_ready f n s'" unfolding file_ready_def file_map_def owned_def fmap_ok_def used_blk_def f S(1,2) by simp
qed

lemma load_read:
  assumes c: "can_read f n s buf (4096 * unat b + o') l" and l: "0 < l"
  shows "\<exists>s1. sfs_bmap_load_nolock s f n b = Ret (s1, fblk s n (unat b), 0) \<and> io_rel s s1 \<and> vol_ok s1 f \<and> blk s1 = blk s \<and> (\<forall>q. q \<notin> scratch s f \<longrightarrow> kmem s1 q = kmem s q) \<and>
     fblk s n (unat b) < s_blocks (super (sfs_at s1 f)) \<and> fblk s n (unat b) \<noteq> 0"
proof -
  have C: "vol_ok s f" "fmap_ok s f" "file_map s f n" "unat b < nblocks s n" using c l by (auto simp: can_read_def file_ready_def)
  from bmap_load_old [OF C] obtain s1 where s1: "sfs_bmap_load_nolock s f n b = Ret (s1, fblk s n (unat b), 0)" "io_rel s s1" "vol_ok s1 f" "blk s1 = blk s"
    "\<forall>q. q \<notin> scratch s f \<longrightarrow> kmem s1 q = kmem s q" by blast
  then show ?thesis using used_word [OF C(3,4)] io_rel_sel(1) [OF s1(2)] by auto
qed

lemma read_part:
  assumes c: "can_read f n s buf (4096 * unat b + unat o') (unat sz)" and o': "unat o' < 4096" "unat o' + unat sz \<le> 4096" "0 < unat sz"
  shows "\<exists>s'. io_part False s f n buf b sz o' = Ret (s', 0) \<and> did_read f n s s' buf (4096 * unat b + unat o') (unat sz)"
proof -
  let ?i = "fblk s n (unat b)"
  from load_read [OF c o'(3)] obtain s1 where s1: "sfs_bmap_load_nolock s f n b = Ret (s1, ?i, 0)" "io_rel s s1" "vol_ok s1 f" "blk s1 = blk s" "\<forall>q. q \<notin> scratch s f \<longrightarrow> kmem s1 q = kmem s q"
    and U: "?i < s_blocks (super (sfs_at s1 f))" "?i \<noteq> 0" by blast
  from sfs_rbuf_ok [OF s1(3) U o'(1,2)] obtain s2 where s2: "sfs_rbuf s1 f sz ?i o' = Ret (s2, take (unat sz) (drop (unat o') (blk s (unat ?i))), 0)" "io_rel s1 s2" "vol_ok s2 f" "blk s2 = blk s"
    "\<forall>q. q \<notin> scratch s f \<longrightarrow> kmem s2 q = kmem s1 q" unfolding s1(4) io_rel_sel(10) [OF s1(2)] by blast
  define s3 where "s3 = s2\<lparr>kmem := store_bytes (kmem s2) buf (take (unat sz) (drop (unat o') (blk s (unat ?i))))\<rparr>"
  have run: "io_part False s f n buf b sz o' = Ret (s3, 0)" using s1(1) s2(1) by (simp add: io_part_def sfs_buf_op_def s3_def)
  have len: "length (blk s (unat ?i)) = 4096" using c by (auto simp: can_read_def file_ready_def)
  have rel: "io_rel s s3" unfolding s3_def by (rule io_rel_trans [OF io_rel_trans [OF s1(2) s2(2)] io_rel_kmem])
  have "kmem s3 (buf + k) = fbyte s n (4096 * unat b + unat o' + k)" if "k < unat sz" for k
    using that o' len fbyte_div [of "unat o' + k" s n "unat b"] by (simp add: s3_def store_bytes_def add.assoc)
  moreover have "vol_ok s3 f" using s2(3) by (simp add: s3_def vol_ok_def vol_up_def)
  moreover have "kmem s3 q = kmem s q" if "q \<notin> scratch s f" "\<not> (buf \<le> q \<and> q < buf + unat sz)" for q
    using that s1(5) s2(5) len o' by (auto simp: s3_def store_bytes_def)
  moreover have "blk s3 = blk s" using s2(4) by (simp add: s3_def)
  ultimately have "did_read f n s s3 buf (4096 * unat b + unat o') (unat sz)" unfolding did_read_def using rel by blast
  then show ?thesis using run by blast
qed

lemma read_block:
  assumes c: "can_read f n s buf (4096 * unat b) 4096"
  shows "\<exists>s'. io_block False s f n buf b = Ret (s', 0) \<and> did_read f n s s' buf (4096 * unat b) 4096"
proof -
  let ?i = "fblk s n (unat b)"
  have "can_read f n s buf (4096 * unat b + 0) 4096" using c by simp
  from load_read [OF this] obtain s1 where s1: "sfs_bmap_load_nolock s f n b = Ret (s1, ?i, 0)" "io_rel s s1" "vol_ok s1 f" "blk s1 = blk s" "\<forall>q. q \<notin> scratch s f \<longrightarrow> kmem s1 q = kmem s q"
    and U: "?i < s_blocks (super (sfs_at s1 f))" "?i \<noteq> 0" by auto
  from sfs_rblock_ok [OF s1(3) U] obtain s2 where s2: "sfs_rblock s1 f buf ?i 1 = Ret (s2, 0)" "io_rel s1 s2" "vol_ok s2 f" "blk s2 = blk s"
    "\<forall>q. buf \<le> q \<longrightarrow> q < buf + 4096 \<longrightarrow> kmem s2 q = blk s (unat ?i) ! (q - buf)" "\<forall>q. q \<notin> scratch s f \<longrightarrow> \<not> (buf \<le> q \<and> q < buf + 4096) \<longrightarrow> kmem s2 q = kmem s1 q"
    unfolding s1(4) io_rel_sel(10) [OF s1(2)] by blast
  have "kmem s2 (buf + k) = fbyte s n (4096 * unat b + k)" if "k < 4096" for k using s2(5) that by (simp add: fbyte_div)
  moreover have "kmem s2 q = kmem s q" if "q \<notin> scratch s f" "\<not> (buf \<le> q \<and> q < buf + 4096)" for q using that s1(5) s2(6) by simp
  ultimately have "did_read f n s s2 buf (4096 * unat b) 4096" unfolding did_read_def using io_rel_trans [OF s1(2) s2(2)] s2(3,4) by blast
  moreover have "io_block False s f n buf b = Ret (s2, 0)" using s1(1) s2(1) by (simp add: io_block_def sfs_block_op_def)
  ultimately show ?thesis by blast
qed

lemma read_seq:
  assumes c: "can_read f n s buf p (l + l')" and a: "did_read f n s s1 buf p l" and b: "did_read f n s1 s2 (buf + l) (p + l) l'"
  shows "did_read f n s s2 buf p (l + l')"
proof -
  have A: "io_rel s s1" "blk s1 = blk s" "\<forall>k < l. kmem s1 (buf + k) = fbyte s n (p + k)" "\<forall>q. q \<notin> scratch s f \<longrightarrow> \<not> (buf \<le> q \<and> q < buf + l) \<longrightarrow> kmem s1 q = kmem s q"
    using a by (auto simp: did_read_def)
  have B: "io_rel s1 s2" "vol_ok s2 f" "blk s2 = blk s1" "\<forall>k < l'. kmem s2 (buf + l + k) = fbyte s n (p + l + k)"
    "\<forall>q. q \<notin> scratch s f \<longrightarrow> \<not> (buf + l \<le> q \<and> q < buf + l + l') \<longrightarrow> kmem s2 q = kmem s1 q"
    using b unfolding did_read_def same_blocks(2) [OF A(1,2)] io_rel_sel(10) [OF A(1)] by auto
  have ns: "buf + k \<notin> scratch s f" if "k < l + l'" for k
  proof
    assume "buf + k \<in> scratch s f"
    moreover have "buf + k \<in> {buf ..< buf + (l + l')}" using that by simp
    ultimately show False using c unfolding can_read_def by blast
  qed
  have "kmem s2 (buf + k) = fbyte s n (p + k)" if k: "k < l + l'" for k
  proof (cases "k < l")
    case True
    then show ?thesis using B(5) ns [OF k] A(3) by simp
  next
    case False
    then have "kmem s2 (buf + l + (k - l)) = fbyte s n (p + l + (k - l))" using B(4) [rule_format, of "k - l"] k by simp
    then show ?thesis using False by simp
  qed
  moreover have "kmem s2 q = kmem s q" if "q \<notin> scratch s f" "\<not> (buf \<le> q \<and> q < buf + (l + l'))" for q
    using that A(4) [rule_format, of q] B(5) [rule_format, of q] by auto
  ultimately show ?thesis unfolding did_read_def using io_rel_trans [OF A(1) B(1)] B(2,3) A(2) by auto
qed

lemma read_next:
  assumes c: "can_read f n s buf p (l + l')" and a: "did_read f n s s1 buf p l"
  shows "can_read f n s1 (buf + l) (p + l) l'"
proof -
  have A: "io_rel s s1" "blk s1 = blk s" "vol_ok s1 f" using a by (auto simp: did_read_def)
  have "file_ready f n s1" using same_blocks(3) [OF A] c by (simp add: can_read_def)
  then show ?thesis using c buffer_next [of buf l l' "scratch s f"] io_rel_sel(2,10) [OF A(1)] by (simp add: can_read_def add.assoc)
qed

lemma can_read_le: "can_read f n s buf p l \<Longrightarrow> p + l \<le> 4096 * 1036"
  using file_mapD(2) [of s f n] by (auto simp: can_read_def file_ready_def)

interpretation sfs_reading: block_transfer False f n "can_read f n" "did_read f n" for f n
proof
  show "did_read f n s s buf p 0" if "can_read f n s buf p 0" for s buf p using that by (auto simp: did_read_def can_read_def file_ready_def io_rel_refl)
  show "can_read f n s buf p l" if "can_read f n s buf p (l + l')" for s buf p l l' using that buffer_next [of buf l l' "scratch s f"] by (simp add: can_read_def)
qed (rule read_part read_block read_seq read_next can_read_le; assumption)+

end
