(* ===== verification/SfsFiles.thy ===== *)
theory SfsFiles
  imports SfsData
begin

text \<open>
  Reading and writing files of the simple file system as operations on byte lists: \<open>sfs_read\<close> returns a
  slice of the contents, \<open>sfs_write\<close> replaces one, no other file of the volume changes, and a file keeps
  as many blocks as its size needs.
\<close>

subsection \<open>Contents\<close>

abbreviation fsize :: "svfs \<Rightarrow> nat \<Rightarrow> nat" where
  "fsize s n \<equiv> unat (di_size (din_of s n))"

definition fdata :: "svfs \<Rightarrow> nat \<Rightarrow> u8 list" where
  "fdata s n = map (fbyte s n) [0 ..< fsize s n]"

definition file_ok :: "nat \<Rightarrow> nat \<Rightarrow> svfs \<Rightarrow> bool" where
  "file_ok f n s \<longleftrightarrow> file_ready f n s \<and> nblocks s n = (fsize s n + 4095) div 4096 \<and> di_type (din_of s n) \<noteq> SFS_TYPE_DIR"

lemma fdata_length [simp]: "length (fdata s n) = fsize s n"
  by (simp add: fdata_def)

lemma fdata_nth [simp]: "p < fsize s n \<Longrightarrow> fdata s n ! p = fbyte s n p"
  by (simp add: fdata_def)

lemma file_okD:
  assumes "file_ok f n s"
  shows "file_ready f n s" "nblocks s n = (fsize s n + 4095) div 4096" "di_type (din_of s n) \<noteq> SFS_TYPE_DIR" "fsize s n \<le> 4096 * nblocks s n" "nblocks s n \<le> 1036"
proof -
  show "file_ready f n s" "nblocks s n = (fsize s n + 4095) div 4096" "di_type (din_of s n) \<noteq> SFS_TYPE_DIR" using assms by (simp_all add: file_ok_def)
  then show "fsize s n \<le> 4096 * nblocks s n" by linarith
  show "nblocks s n \<le> 1036" using assms file_mapD(2) [of s f n] by (simp add: file_ok_def file_ready_def)
qed

text \<open>What the contents depend on.\<close>

lemma file_cong:
  assumes "sfs_at s' f = sfs_at s f" "din_of s' n = din_of s n" "blk s' = blk s"
  shows "fblk s' n = fblk s n" "fbyte s' n = fbyte s n" "owned s' n = owned s n" "fdata s' n = fdata s n" "vol_ok s' f = vol_ok s f \<Longrightarrow> file_ready f n s' = file_ready f n s"
    "vol_ok s' f = vol_ok s f \<Longrightarrow> file_ok f n s' = file_ok f n s" "spare s' f n = spare s f n"
proof -
  show f: "fblk s' n = fblk s n" by (simp add: fblk_def fun_eq_iff assms)
  then show y: "fbyte s' n = fbyte s n" by (simp add: fbyte_def fun_eq_iff assms(3))
  show o: "owned s' n = owned s n" unfolding owned_def f assms ..
  show "fdata s' n = fdata s n" unfolding fdata_def y assms ..
  show "spare s' f n = spare s f n" unfolding spare_def assms ..
  assume v: "vol_ok s' f = vol_ok s f"
  show r: "file_ready f n s' = file_ready f n s" unfolding file_ready_def file_map_def fmap_ok_def used_blk_def o f assms v ..
  show "file_ok f n s' = file_ok f n s" unfolding file_ok_def r assms ..
qed

text \<open>The other files of the volume.\<close>

lemma wrel_other:
  assumes w: "wrel f n s s'" and k: "k \<noteq> n" and ok: "file_ok f k s" and dis: "owned s k \<inter> owned s n = {}"
  shows "file_ok f k s'" "fdata s' k = fdata s k" "owned s' k \<inter> owned s' n = {}"
proof -
  note W = wrelD [OF w]
  have fm: "file_map s f k" using ok by (simp add: file_ok_def file_ready_def)
  have d: "sin_at s' k = sin_at s k" by (rule frel_sel(16) [OF W(1) k])
  have us: "used_blk s f c" if "c \<in> owned s k" for c using fm that by (auto simp: file_map_def)
  have b: "blk s' c = blk s c" if "c \<in> owned s k" for c using W(7) [of c] us [OF that] that dis by (auto simp: used_blk_def)
  have up: "used_blk s' f c" if "used_blk s f c" for c using that W(5) frel_sel(2) [OF W(1)] by (auto simp: used_blk_def)
  have f: "fblk s' k = fblk s k" using b [of "unat (di_indirect (din_of s k))"] by (auto simp: fblk_def fun_eq_iff d owned_def)
  have o: "owned s' k = owned s k" unfolding owned_def f d ..
  have "file_map s' f k" using fm up unfolding file_map_def o f d by blast
  then show "file_ok f k s'" using ok W(2,3) by (simp add: file_ok_def file_ready_def d)
  show "owned s' k \<inter> owned s' n = {}" using W(6) dis us unfolding o by (auto simp: used_blk_def)
  have "fbyte s' k p = fbyte s k p" if "p < fsize s k" for p
  proof -
    have "p div 4096 < nblocks s k" using that file_okD(4) [OF ok] by (simp add: div_less_iff_less_mult mult.commute)
    then have "unat (fblk s k (p div 4096)) \<in> owned s k" by (auto simp: owned_def)
    then show ?thesis by (simp add: fbyte_def f b)
  qed
  then show "fdata s' k = fdata s k" by (simp add: fdata_def d)
qed

text \<open>What an operation on a file keeps of the rest of the state: tables, locks, buffers, and the blocks it can have.\<close>

definition fs_kept :: "nat \<Rightarrow> nat \<Rightarrow> svfs \<Rightarrow> svfs \<Rightarrow> bool" where
  "fs_kept f n s s' \<longleftrightarrow> inodes s' = inodes s \<and> files s' = files s \<and> cur_files s' = cur_files s \<and> scratch s' f = scratch s f \<and>
     sin_sem (sin_at s' n) = sin_sem (sin_at s n) \<and> spare s' f n + int (nblocks s' n) = spare s f n + int (nblocks s n)"

subsection \<open>Writing\<close>

definition grow :: "nat \<Rightarrow> u32 \<Rightarrow> svfs \<Rightarrow> svfs" where
  "grow n e s = (if e > di_size (din_of s n) then upd_sin n (\<lambda>x. x\<lparr>din := (din x)\<lparr>di_size := e\<rparr>, dirty := True\<rparr>) s else s)"

lemma off_words:
  fixes off len :: u32
  assumes "unat off + unat len < 2 ^ 31"
  shows "unat (off + len) = unat off + unat len" "sint off = int (unat off)" "sint (off + len) = int (unat off + unat len)" "len \<noteq> 0 \<Longrightarrow> off < off + len" "off + len - off = len"
    "\<not> sint (off + len) < sint off" "\<not> sint off < 0"
proof -
  show u: "unat (off + len) = unat off + unat len" using assms by (intro unat_add_small) simp
  show s: "sint off = int (unat off)" "sint (off + len) = int (unat off + unat len)" using sint_small [of off] sint_small [of "off + len"] assms u by simp_all
  show "\<not> sint (off + len) < sint off" "\<not> sint off < 0" unfolding s by simp_all
  show "off < off + len" if "len \<noteq> 0" using that by (simp add: word_less_nat_alt u unat_gt_0)
qed simp

lemma io_nolock_write:
  assumes c: "can_write f n s buf (unat off) (unat len)" and ty: "di_type (din_of s n) \<noteq> SFS_TYPE_DIR" and le: "unat off \<le> fsize s n"
  shows "\<exists>s1. did_write f n s s1 buf (unat off) (unat len) \<and> sfs_io_nolock s f n buf off len True = Ret (grow n (off + len) s1, len, 0)"
proof -
  have small: "unat off + unat len \<le> 4096 * 1036" using c by (rule can_write_le)
  then have "unat off + unat len < 2 ^ 31" by simp
  note O = off_words [OF this]
  show ?thesis
  proof (cases "len = 0")
    case True
    have "did_write f n s s buf (unat off) (unat len)" using c sfs_writing.idle [of f n s buf "unat off"] by (simp add: True)
    moreover have "grow n off s = s" using le by (simp add: grow_def word_less_nat_alt)
    moreover have "\<not> SFS_MAX_FILE_SIZE \<le> off" using small by (simp add: word_le_nat_alt SFS_MAX_FILE_SIZE_def)
    then have "sfs_io_nolock s f n buf off 0 True = Ret (s, 0, 0)" unfolding sfs_io_nolock_def Let_def using ty O(7) by simp
    ultimately show ?thesis using True by (intro exI [of _ s]) simp
  next
    case False
    have m: "\<not> SFS_MAX_FILE_SIZE \<le> off" "\<not> off + len > SFS_MAX_FILE_SIZE" using small O(1) by (simp_all add: word_less_nat_alt word_le_nat_alt SFS_MAX_FILE_SIZE_def)
    have "unat (off + len) - unat off = unat len" using O(1) by simp
    with sfs_writing.transfer [of f n s buf off "off + len"] c O(4) [OF False] O(5) obtain s1
      where s1: "io_transfer True s f n buf off (off + len) = io_out s1 n off len 0" "did_write f n s s1 buf (unat off) (unat len)" by auto
    have "sfs_io_nolock s f n buf off len True = io_out s1 n off len 0" unfolding sfs_io_nolock_def Let_def using ty O(6,7) m False s1(1) by simp
    then show ?thesis using s1(2) by (auto simp: io_out_def grow_def)
  qed
qed

lemma did_write_data:
  assumes w: "did_write f n s s1 buf p l" and ok: "file_ok f n s" and le: "p \<le> fsize s n" and e: "unat e = p + l"
  shows "file_ok f n (grow n e s1)" "fdata (grow n e s1) n = splice (fdata s n) p (load_bytes (kmem s) buf l)" "k \<noteq> n \<Longrightarrow> din_of (grow n e s1) k = din_of s1 k"
    "sfs_at (grow n e s1) = sfs_at s1" "blk (grow n e s1) = blk s1" "vol_ok (grow n e s1) f = vol_ok s1 f" "owned (grow n e s1) n = owned s1 n" "sin_sem (sin_at (grow n e s1) n) = sin_sem (sin_at s1 n)"
    "inodes (grow n e s1) = inodes s1" "scratch (grow n e s1) f = scratch s1 f"
proof -
  let ?s = "grow n e s1"
  show "inodes ?s = inodes s1" "scratch ?s f = scratch s1 f" by (simp_all add: grow_def)
  have A: "wrel f n s s1" "wrote s s1 n p (load_bytes (kmem s) buf l)" "nblocks s1 n = max (nblocks s n) ((p + l + 4095) div 4096)" using w by (simp_all add: did_write_def)
  note W = wrelD [OF A(1)] and K = file_okD [OF ok]
  show o: "k \<noteq> n \<Longrightarrow> din_of ?s k = din_of s1 k" for k by (simp add: grow_def)
  show t: "sfs_at ?s = sfs_at s1" "blk ?s = blk s1" "vol_ok ?s f = vol_ok s1 f" "sin_sem (sin_at ?s n) = sin_sem (sin_at s1 n)" by (simp_all add: grow_def)
  have z: "fsize ?s n = max (fsize s n) (p + l)" using W(9) e by (simp add: grow_def word_less_nat_alt max_def)
  have d: "di_blocks (din_of ?s n) = di_blocks (din_of s1 n)" "di_direct (din_of ?s n) = di_direct (din_of s1 n)" "di_indirect (din_of ?s n) = di_indirect (din_of s1 n)" "di_type (din_of ?s n) = di_type (din_of s n)"
    using W(10) by (simp_all add: grow_def)
  have f: "fblk ?s n = fblk s1 n" unfolding fblk_def d t(2) ..
  show ow: "owned ?s n = owned s1 n" unfolding owned_def f d ..
  have "file_ready f n ?s" using W(2-4) unfolding file_ready_def file_map_def fmap_ok_def used_blk_def ow f d t by simp
  moreover have "nblocks ?s n = (fsize ?s n + 4095) div 4096" unfolding d(1) A(3) K(2) z
    by (rule max_of_mono [of "\<lambda>x. (x + 4095) div 4096"]) (intro monoI div_le_mono, simp)
  ultimately show "file_ok f n ?s" using K(3) by (simp add: file_ok_def d(4))
  show "fdata ?s n = splice (fdata s n) p (load_bytes (kmem s) buf l)"
  proof (rule nth_equalityI)
    show len: "length (fdata ?s n) = length (splice (fdata s n) p (load_bytes (kmem s) buf l))" using le z by (simp add: splice_def)
    fix q assume "q < length (fdata ?s n)"
    then have q: "q < max (fsize s n) (p + l)" "q < fsize ?s n" using z by simp_all
    have q1: "q < 4096 * nblocks s1 n" using q(1) A(3) K(4) by linarith
    have "fdata ?s n ! q = fbyte s1 n q" using q(2) by (simp add: fbyte_def f t(2))
    then show "fdata ?s n ! q = splice (fdata s n) p (load_bytes (kmem s) buf l) ! q"
      using wroteD [OF A(2) q1] q(1) le K(4) by (auto simp: splice_def nth_append)
  qed
qed

lemma sfs_lock:
  assumes "0 < sin_sem (sin_at s n)"
  obtains s1 where "lock_sin s n = Ret s1" "s1 = upd_sin n (sin_sem_update (\<lambda>_. sin_sem (sin_at s n) - 1)) s" "\<And>k. din_of s1 k = din_of s k" "\<And>k. sfs_at s1 k = sfs_at s k" "blk s1 = blk s" "kmem s1 = kmem s"
    "\<And>f. vol_ok s1 f = vol_ok s f" "\<And>f. scratch s1 f = scratch s f"
  using assms by (simp add: lock_sin_def lock_count_def)

lemma sfs_unlock: "din_of (unlock_sin s n) k = din_of s k" "sfs_at (unlock_sin s n) k = sfs_at s k" "blk (unlock_sin s n) = blk s" "kmem (unlock_sin s n) = kmem s"
    "vol_ok (unlock_sin s n) f = vol_ok s f"
  by (simp_all add: unlock_sin_def)

lemma sfs_write_data:
  assumes node: "sfs_node s n = Ret f" and ok: "file_ok f n s" and lk: "0 < sin_sem (sin_at s n)"
    and c: "can_write f n s (io_base iob) (unat (io_offset iob)) (unat (io_resid iob))" and le: "unat (io_offset iob) \<le> fsize s n"
  shows "\<exists>s' iob'. sfs_write s n iob = Ret (s', iob', 0) \<and> file_ok f n s' \<and> io_resid iob' = 0 \<and> io_offset iob' = io_offset iob + io_resid iob \<and>
      fdata s' n = splice (fdata s n) (unat (io_offset iob)) (load_bytes (kmem s) (io_base iob) (unat (io_resid iob))) \<and> sin_sem (sin_at s' n) = sin_sem (sin_at s n) \<and> inodes s' = inodes s \<and> scratch s' f = scratch s f \<and>
      fs_kept f n s s' \<and> io_len iob' = io_len iob \<and> (\<forall>q. q \<notin> scratch s f \<longrightarrow> kmem s' q = kmem s q) \<and>
      (\<forall>k. k \<noteq> n \<longrightarrow> file_ok f k s \<longrightarrow> owned s k \<inter> owned s n = {} \<longrightarrow> file_ok f k s' \<and> fdata s' k = fdata s k \<and> owned s' k \<inter> owned s' n = {})"
proof -
  let ?off = "io_offset iob" and ?len = "io_resid iob" and ?buf = "io_base iob"
  from sfs_lock [OF lk] obtain s1 where s1: "lock_sin s n = Ret s1" "s1 = upd_sin n (sin_sem_update (\<lambda>_. sin_sem (sin_at s n) - 1)) s" "\<And>k. din_of s1 k = din_of s k" "\<And>k. sfs_at s1 k = sfs_at s k"
    "blk s1 = blk s" "kmem s1 = kmem s" "\<And>f. vol_ok s1 f = vol_ok s f" "\<And>f. scratch s1 f = scratch s f" by blast
  note C1 = file_cong [OF s1(4,3,5)]
  have c1: "can_write f n s1 ?buf (unat ?off) (unat ?len)" using c unfolding can_write_def C1(5) [OF s1(7)] C1(7) s1(3,8) .
  have ok1: "file_ok f n s1" using ok unfolding C1(6) [OF s1(7)] .
  have le1: "unat ?off \<le> fsize s1 n" using le by (simp add: s1(3))
  from io_nolock_write [OF c1 file_okD(3) [OF ok1] le1] obtain s2 where s2: "did_write f n s1 s2 ?buf (unat ?off) (unat ?len)" "sfs_io_nolock s1 f n ?buf ?off ?len True = Ret (grow n (?off + ?len) s2, ?len, 0)" by blast
  have "unat (?off + ?len) = unat ?off + unat ?len" using can_write_le [OF c] by (intro unat_add_small) simp
  note D = did_write_data [OF s2(1) ok1 le1 this]
  define s' where "s' = unlock_sin (grow n (?off + ?len) s2) n"
  have U: "sfs_at s' f = sfs_at (grow n (?off + ?len) s2) f" "din_of s' k = din_of (grow n (?off + ?len) s2) k" "blk s' = blk (grow n (?off + ?len) s2)" "vol_ok s' f = vol_ok (grow n (?off + ?len) s2) f" for k
    unfolding s'_def by (rule sfs_unlock)+
  note C2 = file_cong [OF U(1-3)]
  have w: "wrel f n s1 s2" using s2(1) by (simp add: did_write_def)
  have "sin_sem (sin_at s' n) = sin_sem (sin_at s2 n) + 1" using D(8) by (simp add: s'_def unlock_sin_def)
  then have sem: "sin_sem (sin_at s' n) = sin_sem (sin_at s n)" using frel_sel(14) [OF wrelD(1) [OF w]] by (simp add: s1(2))
  have "inodes s2 = inodes s1" "scratch s2 f = scratch s1 f" using frel_sel(6,12) [OF wrelD(1) [OF w]] by simp_all
  then have fr: "inodes s' = inodes s" "scratch s' f = scratch s f" using D(9,10) s1(8) by (simp_all add: s'_def unlock_sin_def s1(2))
  have "di_blocks (din_of s' n) = di_blocks (din_of s2 n)" "di_indirect (din_of s' n) = di_indirect (din_of s2 n)" "sfs_at s' f = sfs_at s2 f" "kmem s' = kmem s2" "files s' = files s2" "cur_files s' = cur_files s2"
    by (simp_all add: s'_def unlock_sin_def grow_def)
  then have kp: "fs_kept f n s s'" "\<forall>q. q \<notin> scratch s f \<longrightarrow> kmem s' q = kmem s q"
    using wrelD(8,12) [OF w] frel_sel(7,8) [OF wrelD(1) [OF w]] fr sem s1(6,8) by (simp_all add: fs_kept_def spare_def s1(2))
  have run: "sfs_write s n iob = Ret (s', if ?len \<noteq> 0 then iob\<lparr>io_base := ?buf + unat ?len, io_offset := ?off + ?len, io_resid := ?len - ?len\<rparr> else iob, 0)"
    by (simp add: sfs_write_def sfs_io_def node s1(1) s2(2) iobuf_skip_def s'_def)
  have other: "file_ok f k s' \<and> fdata s' k = fdata s k \<and> owned s' k \<inter> owned s' n = {}" if k: "k \<noteq> n" "file_ok f k s" "owned s k \<inter> owned s n = {}" for k
  proof -
    have "file_ok f k s1" "owned s1 k \<inter> owned s1 n = {}" using k C1(3,6) s1(7) by blast+
    note O = wrel_other [OF w k(1) this]
    have g: "sfs_at s' f = sfs_at s2 f" "din_of s' k = din_of s2 k" "blk s' = blk s2" "vol_ok s' f = vol_ok s2 f" using U D(3) [OF k(1)] D(4-6) by simp_all
    note G = file_cong [OF g(1-3)]
    have "owned s' n = owned s2 n" using C2(3) [of n] D(7) by simp
    then show ?thesis using O G(3,4) G(6) [OF g(4)] C1(4) [of k] by simp
  qed
  show ?thesis using run D(1,2) C2(4,6) [of n] U(4) C1(4) [of n] s1(6) sem fr other kp
    by (intro exI [of _ s'] exI [of _ "if ?len \<noteq> 0 then iob\<lparr>io_base := ?buf + unat ?len, io_offset := ?off + ?len, io_resid := ?len - ?len\<rparr> else iob"]) auto
qed

subsection \<open>Reading\<close>

lemma io_nolock_read:
  assumes ok: "file_ok f n s" and dis: "{buf ..< buf + unat len} \<inter> scratch s f = {}" and off: "off < SFS_MAX_FILE_SIZE" and small: "unat off + unat len < 2 ^ 31"
    and l: "l = min (unat len) (fsize s n - unat off)"
  shows "\<exists>s1. did_read f n s s1 buf (unat off) l \<and> sfs_io_nolock s f n buf off len False = Ret (s1, of_nat l, 0)"
proof -
  note K = file_okD [OF ok] and O = off_words [OF small]
  have off': "\<not> SFS_MAX_FILE_SIZE \<le> off" using off by simp
  show ?thesis
  proof (cases "l = 0")
    case True
    then have e: "off + len = off \<or> di_size (din_of s n) \<le> off" using l by (auto simp: min_def word_le_nat_alt unat_eq_0 split: if_splits)
    have "did_read f n s s buf (unat off) 0" using K(1) by (auto simp: did_read_def file_ready_def io_rel_refl)
    moreover have "sfs_io_nolock s f n buf off len False = Ret (s, 0, 0)" unfolding sfs_io_nolock_def Let_def using K(3) O(6,7) off' e by auto
    ultimately show ?thesis using True by auto
  next
    case False
    then have lt: "unat off < fsize s n" "0 < unat len" using l by auto
    have big: "fsize s n < unat SFS_MAX_FILE_SIZE" using K(4,5) by (simp add: SFS_MAX_FILE_SIZE_def)
    define d e1 e where "d = di_size (din_of s n)" and "e1 = (if off + len > SFS_MAX_FILE_SIZE then SFS_MAX_FILE_SIZE else off + len)" and "e = (if e1 > d then d else e1)"
    have d: "unat d = fsize s n" by (simp add: d_def)
    have "unat e1 = min (unat SFS_MAX_FILE_SIZE) (unat off + unat len)" using O(1) by (simp add: e1_def word_less_nat_alt min_def)
    then have "unat e = min (fsize s n) (min (unat SFS_MAX_FILE_SIZE) (unat off + unat len))" using d by (simp add: e_def word_less_nat_alt min_def)
    then have ue: "unat e = unat off + l" using big lt l by linarith
    have eo: "e - off = of_nat l" using arg_cong [OF ue, of "of_nat :: nat \<Rightarrow> u32"] by simp
    have nz: "off + len \<noteq> off" "\<not> d \<le> off" using lt by (auto simp: d_def word_le_nat_alt)
    have "{buf ..< buf + l} \<inter> scratch s f = {}" using buffer_next [of buf l "unat len - l"] dis l by simp
    then have "can_read f n s buf (unat off) (unat e - unat off)" unfolding can_read_def using K(1,4) ue l lt(1) by simp
    moreover have "off < e" using ue False by (simp add: word_less_nat_alt)
    ultimately obtain s1 where s1: "io_transfer False s f n buf off e = io_out s1 n off (of_nat l) 0" "did_read f n s s1 buf (unat off) l"
      using sfs_reading.transfer [of f n s buf off e] ue unfolding eo by auto
    have "off + of_nat l = e" unfolding eo [symmetric] by simp
    moreover have "unat e \<le> fsize s n" using ue l lt(1) by simp
    then have "\<not> e > di_size (din_of s1 n)" using s1(2) io_rel_sel(2) [of s s1 n] by (simp add: did_read_def word_less_nat_alt)
    ultimately have "io_out s1 n off (of_nat l) 0 = Ret (s1, of_nat l, 0)" by (simp add: io_out_def)
    moreover have "sfs_io_nolock s f n buf off len False = io_transfer False s f n buf off e"
      unfolding sfs_io_nolock_def Let_def d_def [symmetric] e1_def [symmetric] e_def [symmetric] using K(3) O(6,7) off' nz by (simp add: d_def)
    ultimately show ?thesis using s1 by auto
  qed
qed

lemma did_read_data:
  assumes r: "did_read f n s s' buf p l" and le: "p + l \<le> fsize s n"
  shows "load_bytes (kmem s') buf l = take l (drop p (fdata s n))"
  using r le by (intro nth_equalityI) (auto simp: did_read_def)

lemma sfs_read_data:
  assumes node: "sfs_node s n = Ret f" and ok: "file_ok f n s" and lk: "0 < sin_sem (sin_at s n)"
    and dis: "{io_base iob ..< io_base iob + unat (io_resid iob)} \<inter> scratch s f = {}"
    and off: "io_offset iob < SFS_MAX_FILE_SIZE" and small: "unat (io_offset iob) + unat (io_resid iob) < 2 ^ 31"
    and l: "l = min (unat (io_resid iob)) (fsize s n - unat (io_offset iob))"
  shows "\<exists>s' iob'. sfs_read s n iob = Ret (s', iob', 0) \<and> io_offset iob' = io_offset iob + of_nat l \<and> io_resid iob' = io_resid iob - of_nat l \<and>
      load_bytes (kmem s') (io_base iob) l = take l (drop (unat (io_offset iob)) (fdata s n)) \<and> sin_sem (sin_at s' n) = sin_sem (sin_at s n) \<and> fs_kept f n s s' \<and> io_len iob' = io_len iob \<and>
      (\<forall>q. q \<notin> scratch s f \<longrightarrow> \<not> (io_base iob \<le> q \<and> q < io_base iob + l) \<longrightarrow> kmem s' q = kmem s q) \<and>
      (\<forall>k. file_ok f k s' = file_ok f k s \<and> fdata s' k = fdata s k \<and> owned s' k = owned s k)"
proof -
  let ?off = "io_offset iob" and ?len = "io_resid iob" and ?buf = "io_base iob"
  from sfs_lock [OF lk] obtain s1 where s1: "lock_sin s n = Ret s1" "s1 = upd_sin n (sin_sem_update (\<lambda>_. sin_sem (sin_at s n) - 1)) s" "\<And>k. din_of s1 k = din_of s k" "\<And>k. sfs_at s1 k = sfs_at s k"
    "blk s1 = blk s" "kmem s1 = kmem s" "\<And>f. vol_ok s1 f = vol_ok s f" "\<And>f. scratch s1 f = scratch s f" by blast
  note C1 = file_cong [OF s1(4,3,5)]
  have ok1: "file_ok f n s1" using ok unfolding C1(6) [OF s1(7)] .
  have dis1: "{?buf ..< ?buf + unat ?len} \<inter> scratch s1 f = {}" using dis unfolding s1(8) .
  have l1: "l = min (unat ?len) (fsize s1 n - unat ?off)" unfolding l s1(3) ..
  from io_nolock_read [OF ok1 dis1 off small l1] obtain s2 where s2: "did_read f n s1 s2 ?buf (unat ?off) l" "sfs_io_nolock s1 f n ?buf ?off ?len False = Ret (s2, of_nat l, 0)" by blast
  have S: "io_rel s1 s2" "vol_ok s2 f" "blk s2 = blk s1" "\<forall>q. q \<notin> scratch s1 f \<longrightarrow> \<not> (?buf \<le> q \<and> q < ?buf + l) \<longrightarrow> kmem s2 q = kmem s1 q" using s2(1) by (auto simp: did_read_def)
  note R = io_rel_sel [OF S(1)]
  define s' where "s' = unlock_sin s2 n"
  have V: "vol_ok s' f = vol_ok s f" using S(2) ok by (simp add: s'_def sfs_unlock file_ok_def file_ready_def)
  have U: "sfs_at s' f = sfs_at s f" "din_of s' k = din_of s k" "blk s' = blk s" for k
    using R(1,2) S(3) s1(3-5) by (simp_all add: s'_def sfs_unlock)
  have sem: "sin_sem (sin_at s' n) = sin_sem (sin_at s n)" using R(2) by (simp add: s'_def unlock_sin_def s1(2))
  have kp: "fs_kept f n s s'" using S(1) sem by (auto simp: fs_kept_def s'_def unlock_sin_def s1(2) io_rel_def scratch_def disk_buf_def spare_def)
  have ul: "unat (of_nat l :: u32) = l" using l unat_u32_less [of ?len] by (intro unat_of_nat_u32) linarith
  have le: "of_nat l \<le> ?len" unfolding word_le_nat_alt ul using l by simp
  have run: "sfs_read s n iob = Ret (s', if of_nat l \<noteq> (0 :: u32) then iob\<lparr>io_base := ?buf + unat (of_nat l :: u32), io_offset := ?off + of_nat l, io_resid := ?len - of_nat l\<rparr> else iob, 0)"
    unfolding sfs_read_def sfs_io_def node s1(1) bind_outcome.simps s2(2) prod.case iobuf_skip_def s'_def using le by simp
  have "load_bytes (kmem s') ?buf l = take l (drop (unat ?off) (fdata s n))"
  proof (cases "l = 0")
    case False
    then have "unat ?off + l \<le> fsize s1 n" using l1 by linarith
    from did_read_data [OF s2(1) this] show ?thesis unfolding C1(4) by (simp add: s'_def sfs_unlock)
  qed (simp add: load_bytes_def)
  moreover have "\<forall>q. q \<notin> scratch s f \<longrightarrow> \<not> (?buf \<le> q \<and> q < ?buf + l) \<longrightarrow> kmem s' q = kmem s q" using S(4) s1(6,8) by (simp add: s'_def sfs_unlock)
  ultimately show ?thesis using run sem kp file_cong(3,4) [OF U] file_cong(6) [OF U V]
    by (intro exI [of _ s'] exI [of _ "if of_nat l \<noteq> (0 :: u32) then iob\<lparr>io_base := ?buf + unat (of_nat l :: u32), io_offset := ?off + of_nat l, io_resid := ?len - of_nat l\<rparr> else iob"]) auto
qed

subsection \<open>Properties\<close>

text \<open>C9: \<open>sfs_write\<close> refines the replacement of bytes in a list: at a position inside the file or at its end,
  with enough free blocks, the call succeeds, the bytes of the buffer replace or extend the contents from
  the position on, the file stays well formed with as many blocks as its size needs, the offset
  advances by the bytes written, and no other file of the volume changes.
\<close>

theorem sfs_write_splices:
  assumes "sfs_node s n = Ret f" "file_ok f n s" "0 < sin_sem (sin_at s n)"
    and "unat (io_offset iob) \<le> fsize s n" "unat (io_offset iob) + unat (io_resid iob) \<le> 4096 * 1036"
    and "int (unat (io_offset iob) + unat (io_resid iob)) \<le> 4096 * (int (nblocks s n) + spare s f n)"
    and "{io_base iob ..< io_base iob + unat (io_resid iob)} \<inter> scratch s f = {}"
  shows "\<exists>s' iob'. sfs_write s n iob = Ret (s', iob', 0) \<and> file_ok f n s' \<and> io_resid iob' = 0 \<and> io_offset iob' = io_offset iob + io_resid iob \<and>
      fdata s' n = splice (fdata s n) (unat (io_offset iob)) (load_bytes (kmem s) (io_base iob) (unat (io_resid iob))) \<and>
      (\<forall>k. k \<noteq> n \<longrightarrow> file_ok f k s \<longrightarrow> owned s k \<inter> owned s n = {} \<longrightarrow> file_ok f k s' \<and> fdata s' k = fdata s k \<and> owned s' k \<inter> owned s' n = {})"
proof -
  have "can_write f n s (io_base iob) (unat (io_offset iob)) (unat (io_resid iob))" unfolding can_write_def using assms(4-7) file_okD(1,4) [OF assms(2)] by simp
  from sfs_write_data [OF assms(1-3) this assms(4)] show ?thesis by blast
qed

text \<open>C10: \<open>sfs_read\<close> returns a slice of the contents: as many bytes as the buffer holds and the file has from
  the offset on arrive in the buffer, the offset advances by that number, nothing else in memory outside
  the two transfer buffers changes, and no file of the volume changes.
\<close>

theorem sfs_read_slice:
  assumes "sfs_node s n = Ret f" "file_ok f n s" "0 < sin_sem (sin_at s n)"
    and "{io_base iob ..< io_base iob + unat (io_resid iob)} \<inter> scratch s f = {}"
    and "io_offset iob < SFS_MAX_FILE_SIZE" "unat (io_offset iob) + unat (io_resid iob) < 2 ^ 31"
    and "l = min (unat (io_resid iob)) (fsize s n - unat (io_offset iob))"
  shows "\<exists>s' iob'. sfs_read s n iob = Ret (s', iob', 0) \<and> io_offset iob' = io_offset iob + of_nat l \<and> io_resid iob' = io_resid iob - of_nat l \<and>
      load_bytes (kmem s') (io_base iob) l = take l (drop (unat (io_offset iob)) (fdata s n)) \<and>
      (\<forall>q. q \<notin> scratch s f \<longrightarrow> \<not> (io_base iob \<le> q \<and> q < io_base iob + l) \<longrightarrow> kmem s' q = kmem s q) \<and>
      (\<forall>k. file_ok f k s' = file_ok f k s \<and> fdata s' k = fdata s k)"
  using sfs_read_data [OF assms] by blast

text \<open>C11: What was written is read back: a read at the position of a write, into any other buffer, returns
  the bytes that were written.
\<close>

theorem sfs_write_read:
  assumes w: "sfs_node s n = Ret f" "file_ok f n s" "0 < sin_sem (sin_at s n)"
    and p: "unat (io_offset iob) \<le> fsize s n" "unat (io_offset iob) + unat (io_resid iob) \<le> 4096 * 1036"
      "int (unat (io_offset iob) + unat (io_resid iob)) \<le> 4096 * (int (nblocks s n) + spare s f n)"
    and b: "{io_base iob ..< io_base iob + unat (io_resid iob)} \<inter> scratch s f = {}" "{a ..< a + unat (io_resid iob)} \<inter> scratch s f = {}"
  shows "\<exists>s1 iob1 s2 iob2. sfs_write s n iob = Ret (s1, iob1, 0) \<and> sfs_read s1 n (iob\<lparr>io_base := a\<rparr>) = Ret (s2, iob2, 0) \<and>
      load_bytes (kmem s2) a (unat (io_resid iob)) = load_bytes (kmem s) (io_base iob) (unat (io_resid iob))"
proof -
  let ?p = "unat (io_offset iob)" and ?l = "unat (io_resid iob)"
  let ?bs = "load_bytes (kmem s) (io_base iob) ?l"
  have "can_write f n s (io_base iob) ?p ?l" unfolding can_write_def using p b(1) file_okD(1,4) [OF w(2)] by simp
  from sfs_write_data [OF w this p(1)] obtain s1 iob1 where s1: "sfs_write s n iob = Ret (s1, iob1, 0)" "file_ok f n s1" "fdata s1 n = splice (fdata s n) ?p ?bs"
    "sin_sem (sin_at s1 n) = sin_sem (sin_at s n)" "inodes s1 = inodes s" "scratch s1 f = scratch s f" by blast
  have sz: "?p + ?l \<le> fsize s1 n" using arg_cong [OF s1(3), of length] p(1) by (simp add: splice_def)
  let ?io = "iob\<lparr>io_base := a\<rparr>"
  have nd: "sfs_node s1 n = Ret f" using w(1) unfolding sfs_node_def s1(5) .
  have lk: "0 < sin_sem (sin_at s1 n)" using w(3) s1(4) by simp
  have "{io_base ?io ..< io_base ?io + unat (io_resid ?io)} \<inter> scratch s1 f = {}" using b(2) s1(6) by simp
  moreover have "io_offset ?io < SFS_MAX_FILE_SIZE" "unat (io_offset ?io) + unat (io_resid ?io) < 2 ^ 31" using p(2) by (simp_all add: word_less_nat_alt SFS_MAX_FILE_SIZE_def)
  moreover have "?l = min (unat (io_resid ?io)) (fsize s1 n - unat (io_offset ?io))" using sz by simp
  ultimately obtain s2 iob2 where s2: "sfs_read s1 n ?io = Ret (s2, iob2, 0)" "load_bytes (kmem s2) (io_base ?io) ?l = take ?l (drop (unat (io_offset ?io)) (fdata s1 n))"
    using sfs_read_data [OF nd s1(2) lk] by blast
  have "take ?l (drop ?p (fdata s1 n)) = ?bs" unfolding s1(3) splice_def using p(1) by simp
  then show ?thesis using s1(1) s2 by auto
qed

subsection \<open>A small volume\<close>

text \<open>Eight blocks, four of them free, and an empty file, inode 2.\<close>

definition small_sfs :: svfs where
  "small_sfs = \<lparr>inodes = \<lambda>_. \<lparr>in_type = inode_type_sfs_inode_info, ref_count = 1, inode_opens = 1, in_fs = Some 0, in_ops = Some SFS_FILEOPS\<rparr>,
     files = \<lambda>_. \<lparr>pwd = None, fd_array = \<lambda>i. \<lparr>status = FD_NONE, readable = False, writable = False, fd = int i, pos = 0, node = None, open_count = 0\<rparr>,
       files_count = 0, files_sem = 1\<rparr>,
     cur_files = None, kmem = \<lambda>q. of_nat q, bootfs_node = None, bootfs_sem = 1,
     vdev_links = \<lparr>le_prev = id, le_next = id\<rparr>, vdevs = \<lambda>_. \<lparr>devname = 0, devnode = None, vdev_fs = None, mountable = False\<rparr>, vdev_list_sem = 1,
     priv = \<lparr>devices = \<lambda>_. \<lparr>d_blocks = 8, d_blocksize = 4096, d_driver = Disk0\<rparr>, console = [], stdin_buffer = \<lambda>_. 0, p_rpos = 0, p_wpos = 0, disk0_buffer = 0, disk0_sem = 1,
       disks = \<lparr>ide_devices = \<lambda>_. \<lparr>ide_valid = True, ide_size = 16384\<rparr>, regs = \<lambda>_. \<lparr>r_seccnt = 0, r_sector = 0, r_cyl_lo = 0, r_cyl_hi = 0, r_sdh = 0\<rparr>,
         ide_disk = \<lambda>_ _. replicate 512 0, poll_err = \<lambda>_. False, polls = 0\<rparr>,
       sfs_fss = \<lambda>_. \<lparr>super = \<lparr>s_magic = SFS_MAGIC, s_blocks = 8, s_unused_blocks = 4, s_info = []\<rparr>, sfs_dev = 0, freemap = \<lparr>nbits = 32, nwords = 1, bmap = [0xF0]\<rparr>, freemap_data = 20000,
         super_dirty = False, sfs_buffer = 4096, fs_sem = 1, io_sem = 1, mutex_sem = 1, inode_links = \<lparr>le_prev = id, le_next = id\<rparr>, hash_lists = \<lparr>le_prev = id, le_next = id\<rparr>\<rparr>,
       sins = \<lambda>_. \<lparr>din = \<lparr>di_size = 0, di_type = SFS_TYPE_FILE, di_nlinks = 1, di_blocks = 0, di_direct = replicate 12 0, di_indirect = 0\<rparr>,
         sin_ino = 3, dirty = False, reclaim_count = 1, sin_sem = 1\<rparr>\<rparr>\<rparr>"

lemma small_sfs_free: "free_blks small_sfs 0 = {4, 5, 6, 7}"
proof -
  have b: "bit (0xF0 :: u32) i \<longleftrightarrow> i \<in> {4, 5, 6, 7}" if "i < 32" for i
  proof -
    have "\<forall>i \<in> set [0 ..< 32]. bit (0xF0 :: u32) i \<longleftrightarrow> i \<in> {4, 5, 6, 7}" by (simp add: upt_rec)
    then show ?thesis using that by simp
  qed
  show ?thesis unfolding free_bits_def using b by (auto simp: small_sfs_def)
qed

lemma small_sfs_ok: "file_ok 0 2 small_sfs" "spare small_sfs 0 2 = 3" "nblocks small_sfs 2 = 0" "fsize small_sfs 2 = 0" "scratch small_sfs 0 = {0 ..< 8192}"
    "sfs_node small_sfs 2 = Ret 0" "sin_sem (sin_at small_sfs 2) = 1"
proof -
  have "vol_ok small_sfs 0" by (simp add: vol_ok_def vol_up_def disk_ready_def small_sfs_def VALID_IDE_def DISK0_DEV_NO_def MAX_IDE_def SECTSIZE_def)
  moreover have "fmap_ok small_sfs 0" unfolding fmap_ok_def bitmap_ok_def small_sfs_free by (simp add: small_sfs_def)
  moreover have "file_map small_sfs 0 2" by (simp add: file_map_def owned_def fblk_def small_sfs_def)
  ultimately show "file_ok 0 2 small_sfs" by (simp add: file_ok_def file_ready_def small_sfs_def SFS_TYPE_FILE_def SFS_TYPE_DIR_def)
  show "spare small_sfs 0 2 = 3" unfolding spare_def small_sfs_free by (simp add: small_sfs_def)
  show "scratch small_sfs 0 = {0 ..< 8192}" by (auto simp: scratch_def disk_buf_def small_sfs_def)
qed (simp_all add: small_sfs_def sfs_node_def)

lemma small_sfs_empty: "fdata small_sfs 2 = []"
  by (simp add: fdata_def small_sfs_def)

theorem sfs_write_splices_witness:
  "\<exists>s' iob'. sfs_write small_sfs 2 (iobuf_init 9000 3 0) = Ret (s', iob', 0) \<and> fdata s' 2 = [40, 41, 42]"
proof -
  have "load_bytes (kmem small_sfs) 9000 3 = [40, 41, 42]" by (simp add: load_bytes_def small_sfs_def upt_rec)
  then show ?thesis using sfs_write_splices [of small_sfs 2 0 "iobuf_init 9000 3 0"] small_sfs_ok small_sfs_empty by (auto simp: iobuf_init_def splice_def)
qed

text \<open>The same volume with three bytes in block 3.\<close>

definition full_sfs :: svfs where
  "full_sfs = upd_din 2 (\<lambda>d. d\<lparr>di_size := 3, di_blocks := 1, di_direct := 3 # replicate 11 0\<rparr>) small_sfs"

lemma full_sfs_ok: "file_ok 0 2 full_sfs" "fdata full_sfs 2 = [0, 0, 0]"
proof -
  have v: "vol_ok full_sfs 0" "fmap_ok full_sfs 0" "used_blk full_sfs 0 3"
    using small_sfs_ok(1) small_sfs_free by (simp_all add: full_sfs_def file_ok_def file_ready_def used_blk_def) (simp add: small_sfs_def)
  have d: "din_of full_sfs 2 = \<lparr>di_size = 3, di_type = SFS_TYPE_FILE, di_nlinks = 1, di_blocks = 1, di_direct = 3 # replicate 11 0, di_indirect = 0\<rparr>" by (simp add: full_sfs_def small_sfs_def)
  have f: "fblk full_sfs 2 i = (if i = 0 then 3 else 0)" if "i < 1036" for i using that by (auto simp: fblk_def d nth_Cons')
  have "file_map full_sfs 0 2" unfolding file_map_def owned_def using v(3) f by (auto simp: d inj_on_def)
  then show "file_ok 0 2 full_sfs" using v by (simp add: file_ok_def file_ready_def d SFS_TYPE_FILE_def SFS_TYPE_DIR_def)
  have "blk full_sfs 3 = replicate 4096 0"
  proof (rule nth_equalityI)
    fix i assume "i < length (blk full_sfs 3)"
    then have i: "i < 4096" using v(1) by simp
    have r: "disk_ready (priv full_sfs) 0" using v(1) by (simp add: vol_ok_def vol_up_def full_sfs_def small_sfs_def)
    show "blk full_sfs 3 ! i = replicate 4096 0 ! i" using i disk_block_nth [OF r i] by (simp add: full_sfs_def small_sfs_def)
  qed (use v(1) in simp)
  then show "fdata full_sfs 2 = [0, 0, 0]" by (simp add: fdata_def fbyte_def d f upt_rec)
qed

theorem sfs_read_slice_witness:
  "\<exists>s' iob'. sfs_read full_sfs 2 (iobuf_init 9000 5 1) = Ret (s', iob', 0) \<and> io_resid iob' = 3 \<and> load_bytes (kmem s') 9000 2 = [0, 0]"
proof -
  have "inodes full_sfs = inodes small_sfs" by (simp add: full_sfs_def)
  then have "sfs_node full_sfs 2 = Ret 0" using small_sfs_ok(6) unfolding sfs_node_def by (simp only:)
  moreover have "0 < sin_sem (sin_at full_sfs 2)" "scratch full_sfs 0 = {0 ..< 8192}" "fsize full_sfs 2 = 3" using small_sfs_ok(5,7) by (simp_all add: full_sfs_def)
  ultimately show ?thesis using sfs_read_slice [of full_sfs 2 0 "iobuf_init 9000 5 1" 2] full_sfs_ok by (auto simp: iobuf_init_def SFS_MAX_FILE_SIZE_def)
qed

theorem sfs_write_read_witness:
  "\<exists>s1 iob1 s2 iob2. sfs_write small_sfs 2 (iobuf_init 9000 3 0) = Ret (s1, iob1, 0) \<and> sfs_read s1 2 (iobuf_init 9500 3 0) = Ret (s2, iob2, 0) \<and> load_bytes (kmem s2) 9500 3 = [40, 41, 42]"
proof -
  have "load_bytes (kmem small_sfs) 9000 3 = [40, 41, 42]" by (simp add: load_bytes_def small_sfs_def upt_rec)
  then show ?thesis using sfs_write_read [of small_sfs 2 0 "iobuf_init 9000 3 0" 9500] small_sfs_ok by (auto simp: iobuf_init_def)
qed

end
