(* ===== verification/Kmalloc.thy ===== *)
theory Kmalloc
  imports Process
begin

text \<open>
  The kernel heap, \<^verbatim>\<open>kern/mm/kmalloc.c\<close>: a ring of free blocks in units of eight bytes below, pages from
  \<open>alloc_pages\<close> above. A \<open>slob_t\<close> and a \<open>bigblock_t\<close> are records in stores indexed by their address; pointer
  arithmetic is arithmetic on the addresses. The store of a \<open>bigblock_t\<close> shares its memory with the header
  of the free block it was cut from; that header is rewritten before it is read again. Interrupts
  are off while the ring is changed, no interrupt handler calls the heap and the kernel is not preempted, so each call is one step. \<open>gfp\<close> is not used by the source.
\<close>

subsection \<open>Data\<close>

record slob_block =
  units :: int
  slob_next :: nat

record bigblock =
  bb_order :: nat
  bb_pages :: nat
  bb_next :: "nat option"

record heap =
  hmem :: mem_state
  slobs :: "nat \<Rightarrow> slob_block"
  arena :: nat
  slobfree :: nat
  bbs :: "nat \<Rightarrow> bigblock"
  bigblocks :: "nat option"

abbreviation upd_slob :: "nat \<Rightarrow> (slob_block \<Rightarrow> slob_block) \<Rightarrow> heap \<Rightarrow> heap" where
  "upd_slob a g h \<equiv> h\<lparr>slobs := (slobs h)(a := g (slobs h a))\<rparr>"

abbreviation upd_bb :: "nat \<Rightarrow> (bigblock \<Rightarrow> bigblock) \<Rightarrow> heap \<Rightarrow> heap" where
  "upd_bb a g h \<equiv> h\<lparr>bbs := (bbs h)(a := g (bbs h a))\<rparr>"

abbreviation nxt :: "heap \<Rightarrow> nat \<Rightarrow> nat" where
  "nxt h a \<equiv> slob_next (slobs h a)"

abbreviation unt :: "heap \<Rightarrow> nat \<Rightarrow> int" where
  "unt h a \<equiv> units (slobs h a)"

text \<open>
  The static variables at boot: a ring of the single block \<open>arena\<close> and no large blocks. What the rest of memory holds
  (\<open>sl\<close>, \<open>bs\<close>) is arbitrary.
\<close>

definition heap_start :: "mem_state \<Rightarrow> (nat \<Rightarrow> slob_block) \<Rightarrow> (nat \<Rightarrow> bigblock) \<Rightarrow> nat \<Rightarrow> heap" where
  "heap_start s sl bs a =
     \<lparr>hmem = s, slobs = sl(a := \<lparr>units = 1, slob_next = a\<rparr>), arena = a, slobfree = a, bbs = bs, bigblocks = None\<rparr>"

definition PAGE_SIZE :: u32 where "PAGE_SIZE = PGSIZE"
definition SLOB_UNIT :: u32 where "SLOB_UNIT = 8"
definition BIGBLOCK_SIZE :: u32 where "BIGBLOCK_SIZE = 12"

definition SLOB_UNITS :: "u32 \<Rightarrow> u32" where
  "SLOB_UNITS sz = (sz + SLOB_UNIT - 1) div SLOB_UNIT"

definition ALIGN :: "u32 \<Rightarrow> u32 \<Rightarrow> u32" where
  "ALIGN addr sz = (addr + sz - 1) AND NOT (sz - 1)"

text \<open>\<open>a + n\<close> for a pointer \<open>a\<close> to \<open>slob_t\<close>.\<close>

definition slob_add :: "nat \<Rightarrow> int \<Rightarrow> nat" where
  "slob_add a n = nat (int a + 8 * n)"

subsection \<open>Pages\<close>

definition slob_get_free_pages :: "pmm_state pmm_manager \<Rightarrow> swap_manager \<Rightarrow> heap \<Rightarrow> nat \<Rightarrow> (heap \<times> nat option) outcome" where
  "slob_get_free_pages pm sm h order =
     bind_outcome (alloc_pages pm sm (hmem h) (push_bit order 1)) (\<lambda>(s, r).
       let h1 = h\<lparr>hmem := s\<rparr> in
       case r of
         None \<Rightarrow> Ret (h1, None)
       | Some pg \<Rightarrow> bind_outcome (page2kva s pg) (\<lambda>f. Ret (h1, Some (unat (kva_of f)))))"

definition slob_free_pages :: "pmm_state pmm_manager \<Rightarrow> heap \<Rightarrow> nat \<Rightarrow> nat \<Rightarrow> heap outcome" where
  "slob_free_pages pm h kva order =
     bind_outcome (kva2page (hmem h) (of_nat kva)) (\<lambda>pg.
       bind_outcome (free_pages pm (hmem h) pg (push_bit order 1)) (\<lambda>s. Ret (h\<lparr>hmem := s\<rparr>)))"

subsection \<open>The ring of free blocks\<close>

text \<open>The reinsertion point of \<open>slob_free\<close>.\<close>

partial_function (option) slob_point :: "heap \<Rightarrow> nat \<Rightarrow> nat \<Rightarrow> nat option" where
  "slob_point h b cur =
     (if b > cur \<and> b < nxt h cur then Some cur
      else if cur \<ge> nxt h cur \<and> (b > cur \<or> b < nxt h cur) then Some cur
      else slob_point h b (nxt h cur))"

definition slob_join :: "heap \<Rightarrow> nat \<Rightarrow> nat \<Rightarrow> heap" where
  "slob_join h b cur =
     (let c = nxt h cur;
          h1 = (if slob_add b (unt h b) = c
                then upd_slob b (\<lambda>x. x\<lparr>units := units x + unt h c, slob_next := nxt h c\<rparr>) h
                else upd_slob b (slob_next_update (\<lambda>_. c)) h);
          h2 = (if slob_add cur (unt h1 cur) = b
                then upd_slob cur (\<lambda>x. x\<lparr>units := units x + unt h1 b, slob_next := nxt h1 b\<rparr>) h1
                else upd_slob cur (slob_next_update (\<lambda>_. b)) h1)
      in h2\<lparr>slobfree := cur\<rparr>)"

definition slob_free :: "heap \<Rightarrow> nat option \<Rightarrow> u32 \<Rightarrow> heap outcome" where
  "slob_free h block sz =
     (case block of
        None \<Rightarrow> Ret h
      | Some b \<Rightarrow>
          let h1 = (if sz \<noteq> 0 then upd_slob b (units_update (\<lambda>_. int (unat (SLOB_UNITS sz)))) h else h) in
          case slob_point h1 b (slobfree h1) of None \<Rightarrow> Panic | Some cur \<Rightarrow> Ret (slob_join h1 b cur))"

text \<open>A block that is large enough was found: its head is cut off when it has to be aligned, its tail when it is too long.\<close>

definition slob_cut :: "heap \<Rightarrow> nat \<Rightarrow> nat \<Rightarrow> int \<Rightarrow> heap \<times> nat" where
  "slob_cut h prev cur n =
     (if unt h cur = n then ((upd_slob prev (slob_next_update (\<lambda>_. nxt h cur)) h)\<lparr>slobfree := prev\<rparr>, cur)
      else
        let r = slob_add cur n;
            h1 = upd_slob prev (slob_next_update (\<lambda>_. r)) h;
            h2 = upd_slob r (units_update (\<lambda>_. unt h1 cur - n)) h1;
            h3 = upd_slob r (slob_next_update (\<lambda>_. nxt h2 cur)) h2;
            h4 = upd_slob cur (units_update (\<lambda>_. n)) h3
        in (h4\<lparr>slobfree := prev\<rparr>, cur))"

definition slob_take :: "heap \<Rightarrow> nat \<Rightarrow> nat \<Rightarrow> int \<Rightarrow> int \<Rightarrow> nat \<Rightarrow> heap \<times> nat" where
  "slob_take h prev cur n delta aligned =
     (if delta \<noteq> 0 then
        let h1 = upd_slob aligned (units_update (\<lambda>_. unt h cur - delta)) h;
            h2 = upd_slob aligned (slob_next_update (\<lambda>_. nxt h1 cur)) h1;
            h3 = upd_slob cur (\<lambda>x. x\<lparr>slob_next := aligned, units := delta\<rparr>) h2
        in slob_cut h3 cur aligned n
      else slob_cut h prev cur n)"

partial_function (option) slob_loop ::
  "pmm_state pmm_manager \<Rightarrow> swap_manager \<Rightarrow> heap \<Rightarrow> u32 \<Rightarrow> u32 \<Rightarrow> nat \<Rightarrow> nat \<Rightarrow> (heap \<times> nat option) outcome option" where
  "slob_loop pm sm h sz align prev cur =
     (let n = int (unat (SLOB_UNITS sz));
          aligned = (if align \<noteq> 0 then unat (ALIGN (of_nat cur) align) else 0);
          delta = (if align \<noteq> 0 then (int aligned - int cur) div 8 else 0)
      in if unt h cur \<ge> n + delta then Some (Ret (case slob_take h prev cur n delta aligned of (h1, m) \<Rightarrow> (h1, Some m)))
         else if cur = slobfree h then
           if sz = PAGE_SIZE then Some (Ret (h, None))
           else case slob_get_free_pages pm sm h 0 of
                  Panic \<Rightarrow> Some Panic
                | Ret (h1, r) \<Rightarrow>
                    if r = None then Some (Ret (h1, None))
                    else case slob_free h1 r PAGE_SIZE of
                           Panic \<Rightarrow> Some Panic
                         | Ret h2 \<Rightarrow> slob_loop pm sm h2 sz align (slobfree h2) (nxt h2 (slobfree h2))
         else slob_loop pm sm h sz align cur (nxt h cur))"

definition slob_alloc :: "pmm_state pmm_manager \<Rightarrow> swap_manager \<Rightarrow> heap \<Rightarrow> u32 \<Rightarrow> u32 \<Rightarrow> (heap \<times> nat option) outcome" where
  "slob_alloc pm sm h sz align =
     assert_then (sz + SLOB_UNIT < PAGE_SIZE)
       (case slob_loop pm sm h sz align (slobfree h) (nxt h (slobfree h)) of None \<Rightarrow> Panic | Some r \<Rightarrow> r)"

subsection \<open>Allocation and release\<close>

definition slab_allocated :: u32 where "slab_allocated = 0"

definition kallocated :: u32 where "kallocated = slab_allocated"

text \<open>The argument of \<open>find_order\<close> is an \<open>int\<close>.\<close>

function find_order :: "int \<Rightarrow> nat" where
  "find_order sz = (if sz > 4096 then Suc (find_order (drop_bit 1 sz)) else 0)"
  by auto
termination
  by (relation "measure nat") (auto simp: drop_bit_eq_div)

declare find_order.simps [simp del]

definition kmalloc_gfp :: "pmm_state pmm_manager \<Rightarrow> swap_manager \<Rightarrow> heap \<Rightarrow> u32 \<Rightarrow> (heap \<times> nat option) outcome" where
  "kmalloc_gfp pm sm h sz =
     (if sz < PAGE_SIZE - SLOB_UNIT then
        bind_outcome (slob_alloc pm sm h (sz + SLOB_UNIT) 0) (\<lambda>(h1, r). Ret (h1, map_option (\<lambda>m. slob_add m 1) r))
      else
        bind_outcome (slob_alloc pm sm h BIGBLOCK_SIZE 0) (\<lambda>(h1, r).
          case r of
            None \<Rightarrow> Ret (h1, None)
          | Some bb \<Rightarrow>
              let h2 = upd_bb bb (bb_order_update (\<lambda>_. find_order (sint sz))) h1 in
              bind_outcome (slob_get_free_pages pm sm h2 (find_order (sint sz))) (\<lambda>(h3, p).
                case p of
                  Some a \<Rightarrow>
                    Ret ((upd_bb bb (\<lambda>x. x\<lparr>bb_pages := a, bb_next := bigblocks h3\<rparr>) h3)\<lparr>bigblocks := Some bb\<rparr>, Some a)
                | None \<Rightarrow> bind_outcome (slob_free h3 (Some bb) BIGBLOCK_SIZE) (\<lambda>h4. Ret (h4, None)))))"

definition kmalloc :: "pmm_state pmm_manager \<Rightarrow> swap_manager \<Rightarrow> heap \<Rightarrow> u32 \<Rightarrow> (heap \<times> nat option) outcome" where
  "kmalloc pm sm h sz = kmalloc_gfp pm sm h sz"

text \<open>The search of \<open>kfree\<close> and \<open>ksize\<close>: the entry of the block and the entry before it, if there is one.\<close>

partial_function (option) big_scan :: "heap \<Rightarrow> nat \<Rightarrow> nat option \<Rightarrow> nat option \<Rightarrow> (nat option \<times> nat option) option" where
  "big_scan h block lst bb =
     (if bb = None then Some (lst, None)
      else if bb_pages (bbs h (the bb)) = block then Some (lst, bb)
      else big_scan h block bb (bb_next (bbs h (the bb))))"

definition big_unlink :: "heap \<Rightarrow> nat option \<Rightarrow> nat option \<Rightarrow> heap" where
  "big_unlink h lst nx = (case lst of None \<Rightarrow> h\<lparr>bigblocks := nx\<rparr> | Some l \<Rightarrow> upd_bb l (bb_next_update (\<lambda>_. nx)) h)"

definition kfree :: "pmm_state pmm_manager \<Rightarrow> heap \<Rightarrow> nat option \<Rightarrow> heap outcome" where
  "kfree pm h block =
     (case block of
        None \<Rightarrow> Ret h
      | Some a \<Rightarrow>
          if a mod 4096 = 0 then
            (case big_scan h a None (bigblocks h) of
               None \<Rightarrow> Panic
             | Some (lst, Some bb) \<Rightarrow>
                 bind_outcome (slob_free_pages pm (big_unlink h lst (bb_next (bbs h bb))) a (bb_order (bbs h bb))) (\<lambda>h1.
                   slob_free h1 (Some bb) BIGBLOCK_SIZE)
             | Some (lst, None) \<Rightarrow> slob_free h (Some (slob_add a (- 1))) 0)
          else slob_free h (Some (slob_add a (- 1))) 0)"

definition ksize :: "heap \<Rightarrow> nat option \<Rightarrow> u32 outcome" where
  "ksize h block =
     (case block of
        None \<Rightarrow> Ret 0
      | Some a \<Rightarrow>
          if a mod 4096 = 0 then
            (case big_scan h a None (bigblocks h) of
               None \<Rightarrow> Panic
             | Some (lst, Some bb) \<Rightarrow> Ret (push_bit (bb_order (bbs h bb)) PAGE_SIZE)
             | Some (lst, None) \<Rightarrow> Ret (of_int (unt h (slob_add a (- 1))) * SLOB_UNIT))
          else Ret (of_int (unt h (slob_add a (- 1))) * SLOB_UNIT))"

end
