(* ===== verification/Slob.thy ===== *)
theory Slob
  imports Kmalloc ProcLife
begin

text \<open>
  The ring of free blocks of the kernel heap: it is sorted by address, blocks do not touch, and it
  starts at the block \<open>arena\<close> in the kernel image, which is never handed out. \<open>slob_free\<close> adds a block
  and joins it with its neighbours; \<open>slob_alloc\<close> takes one, from a new page when none is large enough,
  and always ends.
\<close>

subsection \<open>The ring\<close>

fun path :: "heap \<Rightarrow> nat \<Rightarrow> nat list \<Rightarrow> bool" where
  "path h p [] = True"
| "path h p (x # xs) = (nxt h p = x \<and> path h x xs)"

definition blk_of :: "heap \<Rightarrow> nat \<Rightarrow> nat set" where
  "blk_of h x = {x ..< x + 8 * nat (unt h x)}"

definition slob_ring :: "heap \<Rightarrow> nat list \<Rightarrow> bool" where
  "slob_ring h xs \<longleftrightarrow> xs \<noteq> [] \<and> hd xs = arena h \<and> path h (last xs) xs \<and> slobfree h \<in> set xs \<and> unt h (arena h) = 1 \<and>
     (\<forall>x \<in> set xs. 0 < unt h x) \<and> sorted_wrt (\<lambda>x y. x + 8 * nat (unt h x) < y) xs"

definition ring_bytes :: "heap \<Rightarrow> nat list \<Rightarrow> nat set" where
  "ring_bytes h xs = (\<Union>x \<in> set xs - {arena h}. blk_of h x)"

lemma path_append: "path h p (xs @ ys) \<longleftrightarrow> path h p xs \<and> path h (last (p # xs)) ys"
  by (induction xs arbitrary: p) auto

lemma path_cong: "(\<And>x. x \<in> set (butlast (p # xs)) \<Longrightarrow> nxt h' x = nxt h x) \<Longrightarrow> path h' p xs = path h p xs"
proof (induction xs arbitrary: p)
  case (Cons x xs)
  then show ?case using Cons.IH [of x] by (cases xs) auto
qed simp

lemma ringD:
  assumes "slob_ring h xs"
  shows "xs \<noteq> []" "hd xs = arena h" "path h (last xs) xs" "slobfree h \<in> set xs" "unt h (arena h) = 1" "x \<in> set xs \<Longrightarrow> 0 < unt h x"
    "sorted_wrt (\<lambda>x y. x + 8 * nat (unt h x) < y) xs"
  using assms by (auto simp: slob_ring_def)

lemma ring_order:
  assumes "slob_ring h (us @ x # vs)"
  shows "u \<in> set us \<Longrightarrow> u + 8 * nat (unt h u) < x" "v \<in> set vs \<Longrightarrow> x + 8 * nat (unt h x) < v" "u \<in> set us \<Longrightarrow> v \<in> set vs \<Longrightarrow> u + 8 * nat (unt h u) < v"
  using ringD(7) [OF assms] by (auto simp: sorted_wrt_append)

lemma ring_distinct: "slob_ring h xs \<Longrightarrow> distinct xs"
proof -
  assume r: "slob_ring h xs"
  have "sorted_wrt (<) xs" by (rule sorted_wrt_mono_rel [OF _ ringD(7) [OF r]]) auto
  then show ?thesis by (simp add: strict_sorted_iff)
qed

lemma ring_next:
  assumes r: "slob_ring h (us @ x # vs)"
  shows "nxt h x = (if vs = [] then arena h else hd vs)"
proof (cases vs)
  case Nil
  have "path h x (us @ [x])" using ringD(3) [OF r] Nil by simp
  moreover have "hd (us @ [x]) = arena h" using ringD(2) [OF r] Nil by simp
  ultimately show ?thesis using Nil by (cases us) auto
next
  case (Cons v vs')
  then show ?thesis using ringD(3) [OF r] by (simp add: path_append)
qed

lemma ring_arena:
  assumes r: "slob_ring h xs" and x: "x \<in> set xs" "x \<noteq> arena h"
  shows "arena h + 8 < x"
proof -
  obtain ys where "xs = arena h # ys" using ringD(1,2) [OF r] by (cases xs) auto
  then show ?thesis using ringD(5,7) [OF r] x by auto
qed

lemma ring_pred:
  assumes r: "slob_ring h xs" and x: "x \<in> set xs" "x \<noteq> arena h" and p: "p \<in> set xs" "nxt h p = x"
  obtains us ws where "xs = us @ p # x # ws"
proof -
  obtain us vs where xs: "xs = us @ p # vs" using p(1) by (meson split_list)
  have "vs \<noteq> []" "hd vs = x" using ring_next [OF r [unfolded xs]] p(2) x(2) by (auto split: if_splits)
  then show ?thesis using that [of us "tl vs"] xs by (cases vs) auto
qed

text \<open>Walking round the ring from any of its blocks.\<close>

lemma ring_walk:
  assumes r: "slob_ring h xs" and x: "x \<in> set xs"
  obtains us vs where "xs = us @ x # vs" "path h x (vs @ us @ [x])" "set (vs @ us @ [x]) = set xs" "x \<notin> set (vs @ us)" "distinct (vs @ us)"
proof -
  obtain us vs where xs: "xs = us @ x # vs" using x by (meson split_list)
  have p: "path h (last xs) (us @ x # vs)" using ringD(3) [OF r] xs by simp
  have l: "last xs = last (x # vs)" using xs by simp
  have "path h x (vs @ us @ [x])" using p unfolding path_append l by auto
  then show ?thesis using that [OF xs] ring_distinct [OF r] xs by auto
qed

text \<open>A part of the ring after one of its blocks is replaced.\<close>

lemma ring_splice:
  assumes r: "slob_ring h (us @ c # ms @ ws)" and same: "\<And>x. x \<in> set us \<union> set ws \<Longrightarrow> slobs h' x = slobs h x" and c: "path h' c ms'"
    and l: "nxt h' (last (c # ms')) = nxt h (last (c # ms))"
  shows "path h' (last (us @ c # ms' @ ws)) (us @ c # ms' @ ws)"
proof -
  have p: "path h (last (c # ms @ ws)) (us @ [c])" "path h (last (c # ms)) ws" using ringD(3) [OF r] by (simp_all add: path_append)
  have w: "path h' (last (c # ms')) ws"
  proof (cases ws)
    case (Cons w ws')
    have "path h' w ws' = path h w ws'" 
    proof (rule path_cong)
      fix x assume "x \<in> set (butlast (w # ws'))"
      then have "x \<in> set ws" unfolding Cons by (rule in_set_butlastD)
      then show "nxt h' x = nxt h x" using same by simp
    qed
    then show ?thesis using p(2) l Cons by simp
  qed simp
  have u: "path h' (last (c # ms' @ ws)) (us @ [c])"
  proof -
    obtain z zs where z: "us @ [c] = z # zs" by (cases us) auto
    have b: "set (butlast (z # zs)) = set us" using z by (metis butlast_snoc)
    have "path h' z zs = path h z zs" by (rule path_cong) (use same b in auto)
    moreover have "nxt h' (last (c # ms' @ ws)) = nxt h (last (c # ms @ ws))"
    proof (cases "ws = []")
      case False
      then show ?thesis using same [of "last ws"] by simp
    qed (use l in simp)
    ultimately show ?thesis using p(1) z by simp
  qed
  show ?thesis using u w c by (simp add: path_append)
qed

subsection \<open>The point where a block goes\<close>

definition stops :: "heap \<Rightarrow> nat \<Rightarrow> nat \<Rightarrow> bool" where
  "stops h b y \<longleftrightarrow> y < b \<and> b < nxt h y \<or> nxt h y \<le> y \<and> (y < b \<or> b < nxt h y)"

lemma point_path: "path h x L \<Longrightarrow> last (x # L) = c \<Longrightarrow> (\<And>y. y \<in> set (butlast (x # L)) \<Longrightarrow> \<not> stops h b y) \<Longrightarrow> stops h b c \<Longrightarrow> slob_point h b x = Some c"
proof (induction L arbitrary: x)
  case Nil
  then show ?case by (subst slob_point.simps) (auto simp: stops_def)
next
  case (Cons y L)
  have "\<not> stops h b x" using Cons.prems(3) [of x] by simp
  moreover have "slob_point h b y = Some c" by (rule Cons.IH) (use Cons.prems in auto)
  ultimately show ?case using Cons.prems(1) by (subst slob_point.simps) (auto simp: stops_def)
qed

lemma ring_stops:
  assumes r: "slob_ring h (us @ c # vs)" and b: "c < b" "\<forall>v \<in> set vs. b < v" and y: "y \<in> set (us @ c # vs)"
  shows "stops h b y \<longleftrightarrow> y = c"
proof -
  have ac: "arena h \<le> c"
  proof (cases us)
    case (Cons u us')
    then show ?thesis using ring_order(1) [OF r, of u] ringD(2) [OF r] by simp
  qed (use ringD(2) [OF r] in simp)
  consider (eq) "y = c" | (before) "y \<in> set us" | (after) "y \<in> set vs" using y by auto
  then show ?thesis
  proof cases
    case eq
    then show ?thesis using ring_next [OF r] b ac by (cases vs) (auto simp: stops_def)
  next
    case before
    then obtain u1 u2 where us: "us = u1 @ y # u2" by (meson split_list)
    have r': "slob_ring h (u1 @ y # u2 @ c # vs)" using r us by simp
    have n: "nxt h y = hd (u2 @ [c])" using ring_next [OF r'] by (cases u2) auto
    have "y < nxt h y" "nxt h y \<le> c" using ring_order(2) [OF r', of "hd (u2 @ [c])"] ring_order(1) [OF r, of "hd (u2 @ [c])"] us unfolding n by (cases u2; auto)+
    then show ?thesis using b(1) by (auto simp: stops_def)
  next
    case after
    then obtain v1 v2 where vs: "vs = v1 @ y # v2" by (meson split_list)
    have r': "slob_ring h ((us @ c # v1) @ y # v2)" using r vs by simp
    have "b < y" "c < y" using b(2) after ring_order(2) [OF r after] by auto
    moreover have "nxt h y = arena h \<or> y < nxt h y" using ring_next [OF r'] ring_order(2) [OF r', of "hd v2"] by (cases v2) auto
    ultimately show ?thesis using b(1) ac by (auto simp: stops_def)
  qed
qed

lemma slob_point_ring:
  assumes r: "slob_ring h (us @ c # vs)" and b: "c < b" "\<forall>v \<in> set vs. b < v" and x: "x \<in> set (us @ c # vs)"
  shows "slob_point h b x = Some c"
proof -
  note S = ring_stops [OF r b]
  have c: "stops h b c" using S by simp
  show ?thesis
  proof (cases "x = c")
    case True
    then show ?thesis using point_path [of h x "[]" c b] c by simp
  next
    case False
    from ring_walk [OF r x] obtain us' vs' where w: "path h x (vs' @ us' @ [x])" "set (vs' @ us' @ [x]) = set (us @ c # vs)" "x \<notin> set (vs' @ us')" "distinct (vs' @ us')" by metis
    have "c \<in> set (vs' @ us' @ [x])" unfolding w(2) by simp
    then have "c \<in> set (vs' @ us')" using False by simp
    then obtain P Q where pq: "vs' @ us' = P @ c # Q" by (meson split_list)
    have eq: "vs' @ us' @ [x] = (P @ [c]) @ (Q @ [x])" using pq by (metis append.assoc append_Cons append_Nil)
    have "path h x (P @ [c])" using w(1) unfolding eq path_append by blast
    then show ?thesis
    proof (rule point_path)
      fix y assume "y \<in> set (butlast (x # P @ [c]))"
      then have y: "y = x \<or> y \<in> set P" by (auto simp: butlast_append)
      have "set P \<subseteq> set (us @ c # vs)" unfolding w(2) [symmetric] eq by auto
      moreover have "c \<notin> set P" using w(4) unfolding pq by simp
      ultimately show "\<not> stops h b y" using S [of y] y x False by auto
    qed (use c in simp_all)
  qed
qed

subsection \<open>Adding a block\<close>

lemma slob_add_nat: "0 \<le> n \<Longrightarrow> slob_add a n = a + 8 * nat n"
  by (simp add: slob_add_def nat_add_distrib nat_mult_distrib)

lemma join_store:
  assumes "b \<noteq> c"
  shows "slobs (slob_join h b c) = (let d = nxt h c; mn = (slob_add b (unt h b) = d);
       x = \<lparr>units = unt h b + (if mn then unt h d else 0), slob_next = (if mn then nxt h d else d)\<rparr>
     in (slobs h)(b := x, c := (if slob_add c (unt h c) = b then \<lparr>units = unt h c + units x, slob_next = slob_next x\<rparr> else (slobs h c)\<lparr>slob_next := b\<rparr>)))"
  using assms by (auto simp: slob_join_def Let_def fun_eq_iff)

lemma slob_join_sel: "arena (slob_join h b c) = arena h" "slobfree (slob_join h b c) = c" "hmem (slob_join h b c) = hmem h" "bbs (slob_join h b c) = bbs h"
    "bigblocks (slob_join h b c) = bigblocks h"
  by (simp_all add: slob_join_def Let_def)

lemma sorted_wrt_cong: "(\<And>x y. x \<in> set xs \<Longrightarrow> y \<in> set xs \<Longrightarrow> P x y = Q x y) \<Longrightarrow> sorted_wrt P xs = sorted_wrt Q xs"
  by (induction xs) auto

lemma ring_bytes_disjoint: "ring_bytes h xs \<inter> A = {} \<longleftrightarrow> (\<forall>x \<in> set xs. x \<noteq> arena h \<longrightarrow> blk_of h x \<inter> A = {})"
  by (auto simp: ring_bytes_def)

lemma slob_join_ok:
  assumes r: "slob_ring h (us @ c # vs)" and b: "c + 8 * nat (unt h c) \<le> b" "\<forall>v \<in> set vs. b + 8 * n \<le> v" "arena h + 8 < b" and n: "unt h b = int n" "0 < n"
  shows "\<exists>xs'. slob_ring (slob_join h b c) xs' \<and> ring_bytes (slob_join h b c) xs' = ring_bytes h (us @ c # vs) \<union> {b ..< b + 8 * n} \<and>
     (\<forall>x. x \<notin> set (us @ c # vs) \<longrightarrow> x \<noteq> b \<longrightarrow> slobs (slob_join h b c) x = slobs h x)"
proof -
  let ?h = "slob_join h b c"
  define mn where "mn = (vs \<noteq> [] \<and> b + 8 * n = hd vs)"
  define mp where "mp = (c + 8 * nat (unt h c) = b)"
  define ms where "ms = (if mn then [hd vs] else [])"
  define ws where "ws = (if mn then tl vs else vs)"
  define ms' where "ms' = (if mp then [] else [b])"
  have vs: "vs = ms @ ws" by (cases vs) (auto simp: ms_def ws_def mn_def)
  have r1: "slob_ring h (us @ c # ms @ ws)" using r vs by simp
  have c0: "0 < unt h c" using ringD(6) [OF r, of c] by simp
  have cb: "c < b" using b(1) c0 by linarith
  note O = ring_order [OF r]
  have d: "nxt h c = (if vs = [] then arena h else hd vs)" by (rule ring_next [OF r])
  have mn: "slob_add b (unt h b) = nxt h c \<longleftrightarrow> mn" using n b(3) by (auto simp: slob_add_nat d mn_def)
  have mp: "slob_add c (unt h c) = b \<longleftrightarrow> mp" using c0 by (simp add: slob_add_nat mp_def)
  have dv: "mn \<Longrightarrow> nxt h c = hd vs \<and> hd vs \<in> set vs" by (simp add: d mn_def)
  let ?ub = "unt h b + (if mn then unt h (hd vs) else 0)"
  have st: "slobs ?h = (slobs h)(b := \<lparr>units = ?ub, slob_next = (if mn then nxt h (hd vs) else nxt h c)\<rparr>,
      c := (if mp then \<lparr>units = unt h c + ?ub, slob_next = (if mn then nxt h (hd vs) else nxt h c)\<rparr> else (slobs h c)\<lparr>slob_next := b\<rparr>))"
    using join_store [of b c h] cb dv unfolding Let_def mn mp by (auto simp: fun_eq_iff)
  have nb: "b \<notin> set us" "b \<notin> set vs" "c \<notin> set us" "c \<notin> set vs" using O(1) [of b] O(1) [of c] O(2) [of c] cb b(2) n by force+
  have same: "slobs ?h x = slobs h x" if "x \<in> set us \<union> set ws" for x using that nb vs by (auto simp: st)
  have p: "path ?h (last (us @ c # ms' @ ws)) (us @ c # ms' @ ws)"
  proof (rule ring_splice [OF r1 same])
    show "path ?h c ms'" using cb by (auto simp: ms'_def st)
    show "nxt ?h (last (c # ms')) = nxt h (last (c # ms))" using cb by (auto simp: ms'_def ms_def st)
  qed
  have ub: "0 < ?ub" using n ringD(6) [OF r, of "hd vs"] dv by (auto simp: mn_def)
  have pos: "0 < unt ?h x" if "x \<in> set (us @ c # ms' @ ws)" for x
    using that same [of x] ringD(6) [OF r1, of x] c0 ub by (auto simp: ms'_def st split: if_splits)
  have vd: "v + 8 * nat (unt h v) < w" if "mn" "v = hd vs" "w \<in> set ws" for v w using that r1 ring_order(2) [of h "us @ [c]" "hd vs" ws w] by (simp add: ms_def)
  have eb: "b + 8 * nat ?ub = (if mn then hd vs + 8 * nat (unt h (hd vs)) else b + 8 * n)"
    using n ringD(6) [OF r, of "hd vs"] dv by (auto simp: mn_def nat_add_distrib)
  have bw: "b + 8 * nat ?ub < w" if w: "w \<in> set ws" for w
  proof (cases mn)
    case False
    have "b + 8 * n \<noteq> w"
    proof
      assume e: "b + 8 * n = w"
      obtain v vs' where v: "vs = v # vs'" using w by (cases vs) (auto simp: ws_def False)
      have "w = v \<or> v < w" using that v O(2) ring_order(2) [of h "us @ [c]" v vs' w] r by (auto simp: ws_def False)
      then show False using b(2) v e False by (auto simp: mn_def)
    qed
    then show ?thesis using b(2) that eb False by (auto simp: ws_def order.strict_iff_order)
  qed (use vd that eb in auto)
  have cend: "c + 8 * nat (unt ?h c) = (if mp then b + 8 * nat ?ub else c + 8 * nat (unt h c))" using cb c0 ub by (auto simp: st mp_def nat_add_distrib)
  have sw: "sorted_wrt (\<lambda>x y. x + 8 * nat (unt h x) < y) us" "sorted_wrt (\<lambda>x y. x + 8 * nat (unt h x) < y) ws" using ringD(7) [OF r1] by (auto simp: sorted_wrt_append)
  have "sorted_wrt (\<lambda>x y. x + 8 * nat (unt ?h x) < y) us" "sorted_wrt (\<lambda>x y. x + 8 * nat (unt ?h x) < y) ws"
    using sw same by (simp_all cong: sorted_wrt_cong)
  moreover have "c + 8 * nat (unt ?h c) < y" if "y \<in> set ms' \<union> set ws" for y unfolding cend using that bw [of y] b(1) O(2) [of y] vs by (auto simp: ms'_def mp_def)
  moreover have "x + 8 * nat (unt ?h x) < y" if "x \<in> set us" "y \<in> set (c # ms' @ ws)" for x y
    using that same [of x] O(1) [of x] O(3) [of x y] cb vs by (auto simp: ms'_def split: if_splits)
  moreover have "x + 8 * nat (unt ?h x) < y" if "x \<in> set ms'" "y \<in> set ws" for x y using that bw cb by (auto simp: ms'_def st split: if_splits)
  ultimately have srt: "sorted_wrt (\<lambda>x y. x + 8 * nat (unt ?h x) < y) (us @ c # ms' @ ws)" by (auto simp: sorted_wrt_append ms'_def)
  have ar: "mp \<Longrightarrow> c \<noteq> arena h" using b(3) ringD(5) [OF r] by (auto simp: mp_def)
  then have "unt ?h (arena h) = 1" using ringD(5) [OF r] b(3) by (auto simp: st)
  then have ring: "slob_ring ?h (us @ c # ms' @ ws)" unfolding slob_ring_def slob_join_sel using p pos srt ringD(2) [OF r] by (auto simp: hd_append split: if_splits)
  have other: "blk_of ?h x = blk_of h x" if "x \<in> set us \<union> set ws" for x using same [OF that] by (simp add: blk_of_def)
  have bu: "blk_of h b = {b ..< b + 8 * n}" using n by (simp add: blk_of_def)
  have bb: "{b ..< b + 8 * nat ?ub} = {b ..< b + 8 * n} \<union> (if mn then blk_of h (hd vs) else {})" unfolding eb using ringD(6) [OF r, of "hd vs"] by (auto simp: blk_of_def mn_def)
  have cc: "blk_of ?h c \<union> (\<Union>x \<in> set ms'. blk_of ?h x) = blk_of h c \<union> {b ..< b + 8 * nat ?ub}" unfolding blk_of_def cend using cb c0 ub by (auto simp: ms'_def st mp_def)
  have ubh: "unt ?h b = ?ub" using cb by (simp add: st)
  have an: "arena h \<notin> set ms'" "arena h \<notin> set vs" using b(2,3) n by (auto simp: ms'_def split: if_splits)
  have cm: "c = arena h \<Longrightarrow> blk_of ?h b = {b ..< b + 8 * nat ?ub} \<and> ms' = [b]" using ar cb ubh by (auto simp: ms'_def blk_of_def)
  have new: "ring_bytes ?h (us @ c # ms' @ ws) = (\<Union>x \<in> set us - {arena h}. blk_of h x) \<union> (if c = arena h then {} else blk_of ?h c) \<union> (\<Union>x \<in> set ms'. blk_of ?h x) \<union> (\<Union>x \<in> set ws. blk_of h x)"
    using an other vs by (auto simp: ring_bytes_def slob_join_sel)
  have old: "ring_bytes h (us @ c # vs) = (\<Union>x \<in> set us - {arena h}. blk_of h x) \<union> (if c = arena h then {} else blk_of h c) \<union> (if mn then blk_of h (hd vs) else {}) \<union> (\<Union>x \<in> set ws. blk_of h x)"
    using an(2) unfolding vs ring_bytes_def by (auto simp: ms_def)
  have "ring_bytes ?h (us @ c # ms' @ ws) = ring_bytes h (us @ c # vs) \<union> {b ..< b + 8 * n}"
    unfolding new old using cc bb cm by (cases "c = arena h") auto
  then show ?thesis using ring nb by (intro exI [of _ "us @ c # ms' @ ws"]) (auto simp: st)
qed

definition slob_mem :: "heap \<Rightarrow> nat set \<Rightarrow> bool" where
  "slob_mem h B \<longleftrightarrow> (\<exists>xs. slob_ring h xs \<and> B = ring_bytes h xs)"

definition same_heap :: "heap \<Rightarrow> heap \<Rightarrow> bool" where
  "same_heap h h' \<longleftrightarrow> arena h' = arena h \<and> bbs h' = bbs h \<and> bigblocks h' = bigblocks h"

lemma same_heap_trans: "same_heap h h1 \<Longrightarrow> same_heap h1 h2 \<Longrightarrow> same_heap h h2"
  by (simp add: same_heap_def)

lemma ring_in_bytes: "slob_ring h xs \<Longrightarrow> x \<in> set xs \<Longrightarrow> x \<noteq> arena h \<Longrightarrow> x \<in> ring_bytes h xs"
  using ringD(6) [of h xs x] by (auto simp: ring_bytes_def blk_of_def intro!: bexI [of _ x])

lemma ring_split:
  assumes r: "slob_ring h xs" and b: "arena h < b" "b \<notin> set xs"
  obtains us c vs where "xs = us @ c # vs" "c < b" "\<forall>v \<in> set vs. b < v"
proof -
  let ?t = "takeWhile (\<lambda>x. x < b) xs"
  have "?t \<noteq> []" using ringD(1,2) [OF r] b(1) by (cases xs) auto
  moreover have "last ?t < b" using set_takeWhileD [of "last ?t" "\<lambda>x. x < b" xs] last_in_set [OF \<open>?t \<noteq> []\<close>] by simp
  moreover have "b < v" if v: "v \<in> set (dropWhile (\<lambda>x. x < b) xs)" for v
  proof -
    obtain d ds where d: "dropWhile (\<lambda>x. x < b) xs = d # ds" using v by (cases "dropWhile (\<lambda>x. x < b) xs") auto
    have "\<not> d < b" using d by (metis dropWhile_eq_Cons_conv)
    moreover have xs: "xs = ?t @ d # ds" using takeWhile_dropWhile_id [of "\<lambda>x. x < b" xs] d by simp
    then have "v = d \<or> d < v" using v d ring_order(2) [of h ?t d ds v] r by auto
    moreover have "d \<noteq> b" using b(2) xs by (metis in_set_conv_decomp)
    ultimately show ?thesis by auto
  qed
  moreover have "xs = butlast ?t @ last ?t # dropWhile (\<lambda>x. x < b) xs" using takeWhile_dropWhile_id [of "\<lambda>x. x < b" xs] append_butlast_last_id [OF \<open>?t \<noteq> []\<close>]
    by (metis append.assoc append_Cons append_Nil)
  ultimately show ?thesis using that by blast
qed

lemma ring_cong:
  assumes "slob_ring h xs" "\<And>x. x \<in> set xs \<Longrightarrow> slobs h' x = slobs h x" "arena h' = arena h" "slobfree h' = slobfree h"
  shows "slob_ring h' xs" "ring_bytes h' xs = ring_bytes h xs"
proof -
  have "path h' (last xs) xs = path h (last xs) xs"
  proof (rule path_cong)
    fix x assume "x \<in> set (butlast (last xs # xs))"
    then have "x \<in> set (last xs # xs)" by (rule in_set_butlastD)
    then show "nxt h' x = nxt h x" using assms(2) ringD(1) [OF assms(1)] by auto
  qed
  moreover have "arena h \<in> set xs" using ringD(1,2) [OF assms(1)] by (cases xs) auto
  ultimately show "slob_ring h' xs" using assms ringD [OF assms(1)] by (simp add: slob_ring_def cong: sorted_wrt_cong)
  show "ring_bytes h' xs = ring_bytes h xs" using assms(2,3) by (auto simp: ring_bytes_def blk_of_def)
qed

lemma slob_free_ok:
  assumes m: "slob_mem h B" and n: "0 < n" "if sz = 0 then unt h b = int n else n = unat (SLOB_UNITS sz)" and b: "arena h + 8 < b" "{b ..< b + 8 * n} \<inter> B = {}"
  shows "\<exists>h'. slob_free h (Some b) sz = Ret h' \<and> slob_mem h' (B \<union> {b ..< b + 8 * n}) \<and> same_heap h h' \<and> hmem h' = hmem h \<and>
     (\<forall>x. x \<notin> B \<longrightarrow> x \<noteq> b \<longrightarrow> x \<noteq> arena h \<longrightarrow> slobs h' x = slobs h x)"
proof -
  from m obtain xs where r: "slob_ring h xs" and B: "B = ring_bytes h xs" by (auto simp: slob_mem_def)
  define h1 where "h1 = (if sz \<noteq> 0 then upd_slob b (units_update (\<lambda>_. int (unat (SLOB_UNITS sz)))) h else h)"
  have bB: "b \<notin> B" using b(2) n(1) by (auto simp: disjoint_iff)
  then have bx: "b \<notin> set xs" using b(1) ring_in_bytes [OF r, of b] B by auto
  have s1: "slobs h1 x = slobs h x" if "x \<noteq> b" for x using that by (simp add: h1_def)
  have u1: "unt h1 b = int n" using n by (simp add: h1_def)
  have e1: "arena h1 = arena h" "slobfree h1 = slobfree h" "hmem h1 = hmem h" "bbs h1 = bbs h" "bigblocks h1 = bigblocks h" by (simp_all add: h1_def)
  note C = ring_cong [OF r, of h1, OF s1 e1(1,2)]
  have r1: "slob_ring h1 xs" "ring_bytes h1 xs = B" using C bx B by metis+
  from ring_split [OF r1(1), of b] b(1) bx e1 obtain us c vs where xs: "xs = us @ c # vs" "c < b" "\<forall>v \<in> set vs. b < v" by auto
  have r2: "slob_ring h1 (us @ c # vs)" using r1 xs by simp
  have p: "slob_point h1 b (slobfree h1) = Some c" by (rule slob_point_ring [OF r2 xs(2,3)]) (use ringD(4) [OF r1(1)] xs(1) in simp)
  have bc: "c + 8 * nat (unt h1 c) \<le> b"
  proof (cases "c = arena h1")
    case True
    then show ?thesis using ringD(5) [OF r1(1)] b(1) e1(1) by simp
  next
    case False
    then have "blk_of h1 c \<subseteq> B" using xs(1) r1(2) by (auto simp: ring_bytes_def)
    then have "b \<notin> blk_of h1 c" using bB by blast
    then show ?thesis using xs(2) by (simp add: blk_of_def)
  qed
  have bv: "b + 8 * n \<le> v" if "v \<in> set vs" for v
  proof -
    have "v \<noteq> arena h1" using xs(3) that b(1) e1(1) by auto
    then have "v \<in> B" using ring_in_bytes [OF r1(1), of v] that xs(1) r1(2) by simp
    then have "v \<notin> {b ..< b + 8 * n}" using b(2) by blast
    then show ?thesis using xs(3) that by auto
  qed
  from slob_join_ok [OF r2 bc _ _ u1 n(1)] bv b(1) e1(1) obtain xs' where j: "slob_ring (slob_join h1 b c) xs'" "ring_bytes (slob_join h1 b c) xs' = B \<union> {b ..< b + 8 * n}"
    "\<forall>x. x \<notin> set xs \<longrightarrow> x \<noteq> b \<longrightarrow> slobs (slob_join h1 b c) x = slobs h1 x" using r1(2) xs(1) by auto
  have "slob_free h (Some b) sz = Ret (slob_join h1 b c)" using p by (simp add: slob_free_def h1_def [symmetric] Let_def)
  moreover have "slobs (slob_join h1 b c) x = slobs h x" if "x \<notin> B" "x \<noteq> b" "x \<noteq> arena h" for x
  proof -
    have "x \<notin> set xs" using that ring_in_bytes [OF r, of x] B by blast
    then show ?thesis using j(3) that(2) s1 [of x] by simp
  qed
  ultimately show ?thesis using j(1,2) e1 by (intro exI [of _ "slob_join h1 b c"]) (auto simp: slob_mem_def same_heap_def slob_join_sel)
qed

subsection \<open>Taking a block\<close>

lemma cut_store:
  assumes "p \<noteq> x" "0 < n" "slob_cut h p x (int n) = (h', m)" "x + 8 * n \<noteq> p"
  shows "m = x" "slobfree h' = p" "same_heap h h'" "hmem h' = hmem h"
    "slobs h' = (if unt h x = int n then (slobs h)(p := (slobs h p)\<lparr>slob_next := nxt h x\<rparr>)
       else (slobs h)(p := (slobs h p)\<lparr>slob_next := x + 8 * n\<rparr>, x + 8 * n := \<lparr>units = unt h x - int n, slob_next = nxt h x\<rparr>, x := (slobs h x)\<lparr>units := int n\<rparr>))"
  using assms by (auto simp: slob_cut_def Let_def slob_add_nat same_heap_def fun_eq_iff split: if_splits)

lemma slob_cut_ok:
  assumes r: "slob_ring h (us @ p # x # ws)" and n: "0 < n" "int n \<le> unt h x" and cut: "slob_cut h p x (int n) = (h', m)"
  shows "m = x" "unt h' x = int n" "same_heap h h'" "hmem h' = hmem h" "slob_mem h' (ring_bytes h (us @ p # x # ws) - {x ..< x + 8 * n})"
    "{x ..< x + 8 * n} \<subseteq> ring_bytes h (us @ p # x # ws)" "y \<notin> ring_bytes h (us @ p # x # ws) \<Longrightarrow> y \<noteq> arena h \<Longrightarrow> slobs h' y = slobs h y" "arena h + 8 < x"
proof -
  let ?xs = "us @ p # x # ws" and ?e = "x + 8 * n" and ?r = "unt h x \<noteq> int n"
  note O = ring_order [OF r] and O2 = ring_order [of h "us @ [p]" x ws]
  have r2: "slob_ring h ((us @ [p]) @ x # ws)" using r by simp
  note O2 = ring_order [OF r2]
  have px: "p < x" "p \<noteq> x" "?e \<noteq> p" using O2(1) [of p] by auto
  note S = cut_store [OF px(2) n(1) cut px(3)]
  show "m = x" "same_heap h h'" "hmem h' = hmem h" using S by auto
  show u: "unt h' x = int n" using S(5) px n by (auto split: if_splits)
  have xa: "x \<noteq> arena h"
  proof (cases us)
    case (Cons u us')
    then show ?thesis using O2(1) [of u] ringD(2) [OF r] by auto
  qed (use ringD(2) [OF r] px in auto)
  then show ax: "arena h + 8 < x" using ring_arena [OF r, of x] by simp
  have end': "?e \<le> x + 8 * nat (unt h x)" using n by linarith
  have sub: "{x ..< ?e} \<subseteq> blk_of h x" "blk_of h x \<subseteq> ring_bytes h ?xs" using end' xa by (auto simp: blk_of_def ring_bytes_def)
  then show "{x ..< ?e} \<subseteq> ring_bytes h ?xs" by blast
  have lt: "?e < x + 8 * nat (unt h x)" if ?r using that n by linarith
  have eB: "?e \<in> ring_bytes h ?xs" if ?r using lt [OF that] sub(2) by (auto simp: blk_of_def)
  show "slobs h' y = slobs h y" if y: "y \<notin> ring_bytes h ?xs" "y \<noteq> arena h"
  proof -
    have "y \<noteq> p" "y \<noteq> x" using ring_in_bytes [OF r, of y] y by auto
    moreover have "y \<noteq> ?e" if ?r using eB [OF that] y(1) by auto
    ultimately show ?thesis using S(5) by auto
  qed
  define ms' where "ms' = (if ?r then [?e] else [])"
  have msE: "z \<in> set ms' \<Longrightarrow> ?r \<and> z = ?e" for z by (cases "unt h x = int n") (simp_all add: ms'_def)
  have out: "z \<noteq> p \<and> z \<noteq> x \<and> (?r \<longrightarrow> z \<noteq> ?e)" if "z \<in> set us \<union> set ws" for z
    using that O(1) [of z] O2(1) [of z] O2(2) [of z] O(2) [of z] lt by force
  have same: "slobs h' z = slobs h z" if "z \<in> set us \<union> set ws" for z using out [OF that] S(5) by auto
  have pth: "path h' (last (us @ p # ms' @ ws)) (us @ p # ms' @ ws)"
  proof (rule ring_splice [of h us p "[x]" ws])
    show "path h' p ms'" using S(5) px by (auto simp: ms'_def)
    show "nxt h' (last (p # ms')) = nxt h (last (p # [x]))" using S(5) px n(1) by (auto simp: ms'_def)
  qed (use r same in auto)
  have up: "unt h' p = unt h p" using S(5) px by auto
  have ue: "unt h' ?e = unt h x - int n" if ?r using S(5) px that n(1) by auto
  have pos: "0 < unt h' z" if z: "z \<in> set (us @ p # ms' @ ws)" for z
  proof -
    consider "z \<in> set us \<union> set ws" | "z = p" | "?r" "z = ?e" using z by (cases "unt h x = int n") (simp_all add: ms'_def, blast+)
    then show ?thesis
    proof cases
      case 1
      then show ?thesis using same [OF 1] ringD(6) [OF r, of z] by auto
    next
      case 2
      then show ?thesis using up ringD(6) [OF r, of p] by simp
    next
      case 3
      then show ?thesis using ue n(2) by simp
    qed
  qed
  have ee: "?e + 8 * nat (unt h' ?e) = x + 8 * nat (unt h x)" if ?r using ue [OF that] n by simp
  have sw: "sorted_wrt (\<lambda>x y. x + 8 * nat (unt h x) < y) us" "sorted_wrt (\<lambda>x y. x + 8 * nat (unt h x) < y) ws" using ringD(7) [OF r] by (auto simp: sorted_wrt_append)
  have "sorted_wrt (\<lambda>x y. x + 8 * nat (unt h' x) < y) us" "sorted_wrt (\<lambda>x y. x + 8 * nat (unt h' x) < y) ws"
    using sw same by (simp_all cong: sorted_wrt_cong)
  moreover have "p + 8 * nat (unt h' p) < z" if "z \<in> set ms' \<union> set ws" for z using that O(2) [of z] O(2) [of x] up by (auto dest!: msE)
  moreover have "?e + 8 * nat (unt h' ?e) < z" if "z \<in> set ws" ?r for z using ee [OF that(2)] O2(2) [OF that(1)] by simp
  moreover have "z + 8 * nat (unt h' z) < w" if "z \<in> set us" "w \<in> set (p # ms' @ ws)" for z w
    using that same [of z] O(1) [of z] O(3) [of z w] O2(1) [of z] by (auto dest!: msE)
  ultimately have srt: "sorted_wrt (\<lambda>x y. x + 8 * nat (unt h' x) < y) (us @ p # ms' @ ws)"
    by (cases "unt h x = int n") (simp_all add: sorted_wrt_append ms'_def)
  have A: "arena h' = arena h" using S(3) by (simp add: same_heap_def)
  have ar: "arena h \<in> set us \<or> arena h = p" using ringD(2) [OF r] by (cases us) auto
  then have "unt h' (arena h) = 1" using same [of "arena h"] up ringD(5) [OF r] by auto
  then have ring: "slob_ring h' (us @ p # ms' @ ws)" unfolding slob_ring_def A S(2) using pth pos srt ringD(2) [OF r] by (auto simp: hd_append split: if_splits)
  have an: "arena h \<notin> set ws" "arena h \<notin> set ms'" using ax O2(2) [of "arena h"] by (auto dest!: msE)
  have bs: "blk_of h' z = blk_of h z" if "z \<in> set us \<union> set ws \<union> {p}" for z using that same up by (auto simp: blk_of_def)
  define U W C where "U = (\<Union>z \<in> set us \<union> {p} - {arena h}. blk_of h z)" and "W = (\<Union>z \<in> set ws. blk_of h z)" and "C = {x ..< ?e}"
  have n1: "ring_bytes h' (us @ p # ms' @ ws) = U \<union> (\<Union>z \<in> set ms'. blk_of h' z) \<union> W" unfolding ring_bytes_def A U_def W_def using an bs by auto
  have n2: "ring_bytes h ?xs = U \<union> blk_of h x \<union> W" unfolding ring_bytes_def U_def W_def using an(1) xa by auto
  have n3: "(\<Union>z \<in> set ms'. blk_of h' z) = blk_of h x - C"
  proof (cases "unt h x = int n")
    case False
    then have "(\<Union>z \<in> set ms'. blk_of h' z) = {?e ..< x + 8 * nat (unt h x)}" unfolding ee [OF False, symmetric] by (simp add: ms'_def blk_of_def)
    then show ?thesis by (auto simp: blk_of_def C_def)
  qed (simp add: ms'_def blk_of_def C_def)
  have "blk_of h z \<inter> C = {}" if "z \<in> set us \<union> {p}" for z using that O2(1) [of z] by (auto simp: blk_of_def C_def)
  then have n4: "U \<inter> C = {}" unfolding U_def by blast
  have "blk_of h z \<inter> C = {}" if "z \<in> set ws" for z using O2(2) [OF that] end' by (auto simp: blk_of_def C_def)
  then have n5: "W \<inter> C = {}" unfolding W_def by blast
  have "ring_bytes h' (us @ p # ms' @ ws) = ring_bytes h ?xs - {x ..< ?e}" unfolding n1 n2 n3 C_def [symmetric] using n4 n5 by blast
  then show "slob_mem h' (ring_bytes h ?xs - {x ..< ?e})" using ring by (auto simp: slob_mem_def)
qed

subsection \<open>The search\<close>

lemma loop_fit:
  assumes "path h prev (P @ x # Q)" "\<forall>y \<in> set P. unt h y < int (unat (SLOB_UNITS sz)) \<and> y \<noteq> slobfree h" "int (unat (SLOB_UNITS sz)) \<le> unt h x"
  shows "slob_loop pm sm h sz 0 prev (hd (P @ x # Q)) = Some (Ret (case slob_cut h (last (prev # P)) x (int (unat (SLOB_UNITS sz))) of (h1, m) \<Rightarrow> (h1, Some m)))"
  using assms
proof (induction P arbitrary: prev)
  case Nil
  then show ?case by (subst slob_loop.simps) (simp add: slob_take_def)
next
  case (Cons y P)
  from Cons.IH [of y] Cons.prems have IH: "slob_loop pm sm h sz 0 y (hd (P @ x # Q)) = Some (Ret (case slob_cut h (last (y # P)) x (int (unat (SLOB_UNITS sz))) of (h1, m) \<Rightarrow> (h1, Some m)))" by simp
  have "nxt h y = hd (P @ x # Q)" using Cons.prems(1) by (cases P) auto
  then show ?case using Cons.prems(2) IH by (subst slob_loop.simps) simp
qed

lemma loop_none:
  assumes "path h prev (P @ [slobfree h])" "\<forall>y \<in> set P. unt h y < int (unat (SLOB_UNITS sz)) \<and> y \<noteq> slobfree h" "unt h (slobfree h) < int (unat (SLOB_UNITS sz))" "sz \<noteq> PAGE_SIZE"
  shows "slob_loop pm sm h sz 0 prev (hd (P @ [slobfree h])) = (case slob_get_free_pages pm sm h 0 of
      Panic \<Rightarrow> Some Panic
    | Ret (h1, r) \<Rightarrow> if r = None then Some (Ret (h1, None)) else case slob_free h1 r PAGE_SIZE of Panic \<Rightarrow> Some Panic
        | Ret h2 \<Rightarrow> slob_loop pm sm h2 sz 0 (slobfree h2) (nxt h2 (slobfree h2)))"
  using assms
proof (induction P arbitrary: prev)
  case Nil
  then show ?case by (subst slob_loop.simps) simp
next
  case (Cons y P)
  have "nxt h y = hd (P @ [slobfree h])" using Cons.prems(1) by (cases P) auto
  then show ?case using Cons.prems Cons.IH [of y] by (subst slob_loop.simps) simp
qed

lemma ring_loop:
  assumes r: "slob_ring h xs"
  obtains L where "path h (slobfree h) (L @ [slobfree h])" "set (L @ [slobfree h]) = set xs" "distinct (L @ [slobfree h])" "nxt h (slobfree h) = hd (L @ [slobfree h])"
proof -
  from ring_walk [OF r ringD(4) [OF r]] obtain us vs where w: "path h (slobfree h) (vs @ us @ [slobfree h])" "set (vs @ us @ [slobfree h]) = set xs"
    "slobfree h \<notin> set (vs @ us)" "distinct (vs @ us)" by metis
  have "path h (slobfree h) ((vs @ us) @ [slobfree h])" using w(1) by simp
  moreover from this have "nxt h (slobfree h) = hd ((vs @ us) @ [slobfree h])" by (cases "vs @ us") auto
  ultimately show ?thesis using that [of "vs @ us"] w(2-4) by auto
qed

lemma slob_search_fit:
  assumes r: "slob_ring h xs" and n: "1 < n" "n = unat (SLOB_UNITS sz)" and fit: "\<exists>x \<in> set xs. int n \<le> unt h x"
  shows "\<exists>us p x ws. xs = us @ p # x # ws \<and> int n \<le> unt h x \<and>
     slob_loop pm sm h sz 0 (slobfree h) (nxt h (slobfree h)) = Some (Ret (case slob_cut h p x (int n) of (h1, m) \<Rightarrow> (h1, Some m)))"
proof -
  let ?s = "slobfree h"
  from ring_loop [OF r] obtain L where L: "path h ?s (L @ [?s])" "set (L @ [?s]) = set xs" "distinct (L @ [?s])" "nxt h ?s = hd (L @ [?s])" .
  have "\<exists>x \<in> set (L @ [?s]). int n \<le> unt h x" using fit unfolding L(2) .
  from split_list_first_prop [OF this] obtain P x Q where px: "L @ [?s] = P @ x # Q" "int n \<le> unt h x" "\<forall>y \<in> set P. \<not> int n \<le> unt h y" by blast
  have "y \<noteq> ?s" if y: "y \<in> set P" for y
  proof
    assume "y = ?s"
    moreover have "last (x # Q) = ?s" using arg_cong [OF px(1), of last] by simp
    then have "?s \<in> set (x # Q)" by (metis last_in_set list.distinct(1))
    ultimately show False using L(3) y unfolding px(1) by auto
  qed
  with px(3) n(2) have P: "\<forall>y \<in> set P. unt h y < int (unat (SLOB_UNITS sz)) \<and> y \<noteq> ?s" by auto
  have run: "slob_loop pm sm h sz 0 ?s (nxt h ?s) = Some (Ret (case slob_cut h (last (?s # P)) x (int n) of (h1, m) \<Rightarrow> (h1, Some m)))"
    using loop_fit [of h ?s P x Q sz pm sm] L(1) P px(2) n(2) unfolding L(4) px(1) by simp
  have "nxt h (last (?s # P)) = x" using L(1) unfolding px(1) by (simp add: path_append)
  moreover have "last (?s # P) \<in> set xs"
  proof (cases "P = []")
    case False
    then have "last P \<in> set (P @ x # Q)" by simp
    then have "last P \<in> set xs" unfolding px(1) [symmetric] L(2) .
    then show ?thesis using False by simp
  qed (use ringD(4) [OF r] in simp)
  moreover have "x \<in> set xs" unfolding L(2) [symmetric] px(1) by simp
  moreover have "x \<noteq> arena h" using px(2) n(1) ringD(5) [OF r] by auto
  ultimately obtain us ws where "xs = us @ last (?s # P) # x # ws" using ring_pred [OF r] by metis
  then show ?thesis using px(2) run by blast
qed

lemma slob_search_none:
  assumes r: "slob_ring h xs" and none: "\<forall>x \<in> set xs. unt h x < int (unat (SLOB_UNITS sz))" and sz: "sz \<noteq> PAGE_SIZE"
  shows "slob_loop pm sm h sz 0 (slobfree h) (nxt h (slobfree h)) = (case slob_get_free_pages pm sm h 0 of
      Panic \<Rightarrow> Some Panic
    | Ret (h1, r) \<Rightarrow> if r = None then Some (Ret (h1, None)) else case slob_free h1 r PAGE_SIZE of Panic \<Rightarrow> Some Panic
        | Ret h2 \<Rightarrow> slob_loop pm sm h2 sz 0 (slobfree h2) (nxt h2 (slobfree h2)))"
proof -
  let ?s = "slobfree h"
  from ring_loop [OF r] obtain L where L: "path h ?s (L @ [?s])" "set (L @ [?s]) = set xs" "distinct (L @ [?s])" "nxt h ?s = hd (L @ [?s])" .
  have "\<forall>y \<in> set (L @ [?s]). unt h y < int (unat (SLOB_UNITS sz))" unfolding L(2) by (rule none)
  then have "\<forall>y \<in> set L. unt h y < int (unat (SLOB_UNITS sz)) \<and> y \<noteq> ?s" "unt h ?s < int (unat (SLOB_UNITS sz))" using L(3) by auto
  from loop_none [OF L(1) this sz] show ?thesis unfolding L(4) .
qed

end
