(* ===== verification/KHeap.thy ===== *)
theory KHeap
  imports Slob "HOL-Library.Disjoint_Sets"
begin

text \<open>
  The kernel heap as a division of memory: free frames, free heap memory, blocks that \<open>kmalloc\<close> handed out
  and runs of pages for large requests never overlap, whatever the order of calls; releasing a block
  always succeeds and gives its memory back.
\<close>

subsection \<open>Frames and pages\<close>

definition addr :: "nat \<Rightarrow> nat" where
  "addr q = unat (kva_of q)"

lemma addr_eq: "q < KMEM_PAGES \<Longrightarrow> addr q = 0xC0000000 + 4096 * q"
proof -
  assume q: "q < KMEM_PAGES"
  then have "q < 2 ^ 20" by (simp add: KMEM_PAGES_def)
  then have "unat (page2pa q) = 4096 * q" using unat_of_nat_u32 [of "4096 * q"] by (simp add: page2pa_def push_bit_eq_mult mult.commute)
  then show ?thesis using q by (simp add: addr_def kva_of_def KERNBASE_def unat_plus_if_size word_size KMEM_PAGES_def)
qed

definition page_bytes :: "nat \<Rightarrow> nat \<Rightarrow> nat set" where
  "page_bytes q n = {addr q ..< addr q + 4096 * n}"

lemma page_bytes_split: "q + n \<le> KMEM_PAGES \<Longrightarrow> page_bytes q n = (\<Union>p \<in> {q ..< q + n}. page_bytes p 1)"
proof (induction n)
  case (Suc n)
  then have "page_bytes q (Suc n) = page_bytes q n \<union> page_bytes (q + n) 1" by (auto simp: page_bytes_def addr_eq)
  moreover have "{q ..< q + Suc n} = insert (q + n) {q ..< q + n}" by auto
  ultimately show ?case using Suc by auto
qed (simp add: page_bytes_def)

lemma pages_ok:
  assumes f: "frames_ok s F" and q: "quiet s" and n: "0 < n"
  shows "(\<exists>m p. alloc_pages default_pmm_manager swap_manager_fifo s n = Ret (s\<lparr>pmm := m\<rparr>, Some p) \<and> {p ..< p + unat n} \<subseteq> F \<and> frames_ok (s\<lparr>pmm := m\<rparr>) (F - {p ..< p + unat n}) \<and>
       pmm_owned m p n \<and> (\<forall>b k. pmm_owned (pmm s) b k \<longrightarrow> {b ..< b + unat k} \<inter> F = {} \<longrightarrow> pmm_owned m b k)) \<or>
     \<not> (\<exists>p. {p ..< p + unat n} \<subseteq> F) \<and> (alloc_pages default_pmm_manager swap_manager_fifo s n = Ret (s, None) \<or> n = 1 \<and> alloc_pages default_pmm_manager swap_manager_fifo s n = Panic)"
proof -
  have F: "pmm_free (pmm s) F" "F \<subseteq> {..< unat (npage s)}" "unat (npage s) \<le> KMEM_PAGES" using f by (simp_all add: frames_ok_def)
  from default_pmm.alloc_contract [OF F(1) n] obtain m r where a: "pm_alloc_pages default_pmm_manager (pmm s) n = Ret (m, r)"
    and c: "case r of None \<Rightarrow> m = pmm s \<and> \<not> (\<exists>p. {p ..< p + unat n} \<subseteq> F)
         | Some p \<Rightarrow> {p ..< p + unat n} \<subseteq> F \<and> pmm_free m (F - {p ..< p + unat n}) \<and> pmm_owned m p n \<and>
             (\<forall>b k. pmm_owned (pmm s) b k \<longrightarrow> {b ..< b + unat k} \<inter> F = {} \<longrightarrow> pmm_owned m b k)" by blast
  show ?thesis
  proof (cases r)
    case (Some p)
    have "alloc_pages default_pmm_manager swap_manager_fifo s n = Ret (s\<lparr>pmm := m\<rparr>, Some p)" using a Some by (simp add: alloc_pages_def alloc_loop.simps [of _ _ s])
    then show ?thesis using c Some F(2,3) by (intro disjI1 exI [of _ m] exI [of _ p]) (auto simp: frames_ok_def)
  next
    case None
    then have c': "m = pmm s" "\<not> (\<exists>p. {p ..< p + unat n} \<subseteq> F)" using c by auto
    show ?thesis
    proof (cases "n = 1")
      case True
      have "F = {}" using c'(2) True by auto
      then have "alloc_page default_pmm_manager swap_manager_fifo s = (if swap_init_ok s then Panic else Ret (s, None))" using frames.alloc_page_empty [of s] F(1) q by simp
      then show ?thesis using True c'(2) by (auto simp: alloc_page_def)
    next
      case False
      then have "n > 1" using n by (metis word_less_1 linorder_neqE word_gt_0 less_irrefl)
      then have "alloc_pages default_pmm_manager swap_manager_fifo s n = Ret (s, None)" using a None c'(1) by (simp add: alloc_pages_def alloc_loop.simps [of _ _ s])
      then show ?thesis using c'(2) by blast
    qed
  qed
qed

lemma unat_push_1: "k < 20 \<Longrightarrow> unat (push_bit k 1 :: u32) = 2 ^ k"
proof -
  assume k: "k < 20"
  then have "(2 :: nat) ^ k < 2 ^ 20" by (intro power_strict_increasing) simp_all
  then show ?thesis using unat_of_nat_u32 [of "2 ^ k"] by (simp add: push_bit_eq_mult)
qed

lemma get_pages_ok:
  assumes f: "frames_ok (hmem h) F" and q: "quiet (hmem h)" and k: "k < 20"
  shows "(\<exists>m p. slob_get_free_pages default_pmm_manager swap_manager_fifo h k = Ret (h\<lparr>hmem := (hmem h)\<lparr>pmm := m\<rparr>\<rparr>, Some (addr p)) \<and> {p ..< p + 2 ^ k} \<subseteq> F \<and>
       frames_ok ((hmem h)\<lparr>pmm := m\<rparr>) (F - {p ..< p + 2 ^ k}) \<and> pmm_owned m p (push_bit k 1) \<and>
       (\<forall>b n. pmm_owned (pmm (hmem h)) b n \<longrightarrow> {b ..< b + unat n} \<inter> F = {} \<longrightarrow> pmm_owned m b n)) \<or>
     \<not> (\<exists>p. {p ..< p + 2 ^ k} \<subseteq> F) \<and> (slob_get_free_pages default_pmm_manager swap_manager_fifo h k = Ret (h, None) \<or> slob_get_free_pages default_pmm_manager swap_manager_fifo h k = Panic)"
proof -
  have u: "unat (push_bit k 1 :: u32) = 2 ^ k" by (rule unat_push_1 [OF k])
  then have n: "0 < (push_bit k 1 :: u32)" by (simp add: word_less_nat_alt)
  from pages_ok [OF f q n] show ?thesis unfolding u
  proof (elim disjE)
    assume "\<exists>m p. alloc_pages default_pmm_manager swap_manager_fifo (hmem h) (push_bit k 1) = Ret ((hmem h)\<lparr>pmm := m\<rparr>, Some p) \<and> {p ..< p + 2 ^ k} \<subseteq> F \<and>
      frames_ok ((hmem h)\<lparr>pmm := m\<rparr>) (F - {p ..< p + 2 ^ k}) \<and> pmm_owned m p (push_bit k 1) \<and> (\<forall>b n. pmm_owned (pmm (hmem h)) b n \<longrightarrow> {b ..< b + unat n} \<inter> F = {} \<longrightarrow> pmm_owned m b n)"
    then obtain m p where m: "alloc_pages default_pmm_manager swap_manager_fifo (hmem h) (push_bit k 1) = Ret ((hmem h)\<lparr>pmm := m\<rparr>, Some p)" "{p ..< p + 2 ^ k} \<subseteq> F"
      "frames_ok ((hmem h)\<lparr>pmm := m\<rparr>) (F - {p ..< p + 2 ^ k})" "pmm_owned m p (push_bit k 1)" "\<forall>b n. pmm_owned (pmm (hmem h)) b n \<longrightarrow> {b ..< b + unat n} \<inter> F = {} \<longrightarrow> pmm_owned m b n" by blast
    have "p \<in> F" using m(2) by auto
    then have "page2kva ((hmem h)\<lparr>pmm := m\<rparr>) p = Ret p" using kva_page(1) [of p "(hmem h)\<lparr>pmm := m\<rparr>"] f by (auto simp: frames_ok_def)
    then have "slob_get_free_pages default_pmm_manager swap_manager_fifo h k = Ret (h\<lparr>hmem := (hmem h)\<lparr>pmm := m\<rparr>\<rparr>, Some (addr p))" using m(1) by (simp add: slob_get_free_pages_def addr_def)
    then show ?thesis using m(2-5) by blast
  next
    assume "\<not> (\<exists>p. {p ..< p + 2 ^ k} \<subseteq> F) \<and> (alloc_pages default_pmm_manager swap_manager_fifo (hmem h) (push_bit k 1) = Ret (hmem h, None) \<or>
      push_bit k 1 = (1 :: u32) \<and> alloc_pages default_pmm_manager swap_manager_fifo (hmem h) (push_bit k 1) = Panic)"
    then show ?thesis by (auto simp: slob_get_free_pages_def)
  qed
qed

subsection \<open>Who owns which memory\<close>

datatype claim = Free | Page nat | Held nat | Big nat

definition big_bytes :: "bigblock \<Rightarrow> nat set" where
  "big_bytes x = {bb_pages x ..< bb_pages x + 4096 * 2 ^ bb_order x}"

fun region :: "(nat \<Rightarrow> bigblock) \<Rightarrow> nat set \<Rightarrow> (nat \<rightharpoonup> nat) \<Rightarrow> claim \<Rightarrow> nat set" where
  "region bs B hb Free = B"
| "region bs B hb (Page q) = page_bytes q 1"
| "region bs B hb (Held m) = {m ..< m + 8 * the (hb m)}"
| "region bs B hb (Big b) = big_bytes (bs b)"

definition claims :: "nat set \<Rightarrow> (nat \<rightharpoonup> nat) \<Rightarrow> nat list \<Rightarrow> claim set" where
  "claims F hb bigs = {Free} \<union> Page ` F \<union> Held ` dom hb \<union> Big ` set bigs"

definition divided :: "nat \<Rightarrow> (nat \<Rightarrow> bigblock) \<Rightarrow> nat set \<Rightarrow> nat set \<Rightarrow> (nat \<rightharpoonup> nat) \<Rightarrow> nat list \<Rightarrow> bool" where
  "divided a bs F B hb bigs \<longleftrightarrow> disjoint_family_on (region bs B hb) (claims F hb bigs) \<and> (\<forall>c \<in> claims F hb bigs. \<forall>x \<in> region bs B hb c. a + 8 < x)"

fun bchain :: "heap \<Rightarrow> nat option \<Rightarrow> nat list \<Rightarrow> bool" where
  "bchain h p [] = (p = None)"
| "bchain h p (b # bs) = (p = Some b \<and> bchain h (bb_next (bbs h b)) bs)"

definition big_ok :: "mem_state \<Rightarrow> bigblock \<Rightarrow> bool" where
  "big_ok s x \<longleftrightarrow> (\<exists>q. bb_pages x = addr q \<and> bb_order x < 20 \<and> q + 2 ^ bb_order x \<le> unat (npage s) \<and> pmm_owned (pmm s) q (push_bit (bb_order x) 1))"

definition heap_ok :: "heap \<Rightarrow> nat set \<Rightarrow> nat set \<Rightarrow> (nat \<rightharpoonup> nat) \<Rightarrow> nat list \<Rightarrow> bool" where
  "heap_ok h F B hb bigs \<longleftrightarrow> frames_ok (hmem h) F \<and> quiet (hmem h) \<and> slob_mem h B \<and> divided (arena h) (bbs h) F B hb bigs \<and>
     (\<forall>m n. hb m = Some n \<longrightarrow> 2 \<le> n \<and> (m \<notin> set bigs \<longrightarrow> unt h m = int n)) \<and>
     bchain h (bigblocks h) bigs \<and> distinct bigs \<and> (\<forall>b \<in> set bigs. hb b = Some 2 \<and> big_ok (hmem h) (bbs h b))"

lemma heap_okD:
  assumes "heap_ok h F B hb bigs"
  shows "frames_ok (hmem h) F" "quiet (hmem h)" "slob_mem h B" "divided (arena h) (bbs h) F B hb bigs" "hb m = Some n \<Longrightarrow> 2 \<le> n"
    "hb m = Some n \<Longrightarrow> m \<notin> set bigs \<Longrightarrow> unt h m = int n" "bchain h (bigblocks h) bigs" "distinct bigs" "b \<in> set bigs \<Longrightarrow> hb b = Some 2" "b \<in> set bigs \<Longrightarrow> big_ok (hmem h) (bbs h b)"
  using assms by (auto simp: heap_ok_def)

lemma dividedD:
  assumes "divided a bs F B hb bigs" "c \<in> claims F hb bigs"
  shows "x \<in> region bs B hb c \<Longrightarrow> a + 8 < x" "d \<in> claims F hb bigs \<Longrightarrow> c \<noteq> d \<Longrightarrow> region bs B hb c \<inter> region bs B hb d = {}"
  using assms by (auto simp: divided_def disjoint_family_on_def)

lemma claimsI [simp]: "Free \<in> claims F hb bigs" "Page q \<in> claims F hb bigs \<longleftrightarrow> q \<in> F" "Held m \<in> claims F hb bigs \<longleftrightarrow> hb m \<noteq> None" "Big b \<in> claims F hb bigs \<longleftrightarrow> b \<in> set bigs"
  by (auto simp: claims_def)

text \<open>A new division in which each part is made of old parts.\<close>

lemma divided_recut:
  assumes d: "divided a bs F B hb bigs" and g: "\<And>c. c \<in> claims F' hb' bigs' \<Longrightarrow> g c \<subseteq> claims F hb bigs \<and> region bs' B' hb' c \<subseteq> (\<Union>e \<in> g c. region bs B hb e)"
    and s: "\<And>c e. c \<in> claims F' hb' bigs' \<Longrightarrow> e \<in> claims F' hb' bigs' \<Longrightarrow> c \<noteq> e \<Longrightarrow> g c \<inter> g e = {} \<or> region bs' B' hb' c \<inter> region bs' B' hb' e = {}"
  shows "divided a bs' F' B' hb' bigs'"
proof -
  let ?R = "region bs B hb" and ?R' = "region bs' B' hb'" and ?C = "claims F' hb' bigs'"
  have "?R' c \<inter> ?R' e = {}" if c: "c \<in> ?C" "e \<in> ?C" "c \<noteq> e" for c e
    using s [OF c]
  proof
    assume i: "g c \<inter> g e = {}"
    show ?thesis
    proof (rule ccontr)
      assume "?R' c \<inter> ?R' e \<noteq> {}"
      then obtain x where "x \<in> ?R' c" "x \<in> ?R' e" by blast
      then obtain p q where pq: "p \<in> g c" "x \<in> ?R p" "q \<in> g e" "x \<in> ?R q" using g [OF c(1)] g [OF c(2)] by blast
      then have "p \<noteq> q" using i by blast
      then have "?R p \<inter> ?R q = {}" using dividedD(2) [OF d, of p q] pq g [OF c(1)] g [OF c(2)] by blast
      then show False using pq by blast
    qed
  qed
  moreover have "a + 8 < x" if cx: "c \<in> ?C" "x \<in> ?R' c" for c x
  proof -
    obtain e where "e \<in> claims F hb bigs" "x \<in> ?R e" using g [OF cx(1)] cx(2) by blast
    then show ?thesis by (rule dividedD(1) [OF d])
  qed
  ultimately show ?thesis by (simp add: divided_def disjoint_family_on_def)
qed

lemma claim_cases:
  assumes "c \<in> claims F hb bigs"
  obtains "c = Free" | q where "c = Page q" "q \<in> F" | m where "c = Held m" "hb m \<noteq> None" | b where "c = Big b" "b \<in> set bigs"
  using assms by (auto simp: claims_def)

lemma divided_page_free:
  assumes d: "divided a bs F B hb bigs" and p: "p \<in> F"
  shows "divided a bs (F - {p}) (B \<union> page_bytes p 1) hb bigs"
  by (rule divided_recut [OF d, of _ _ _ "\<lambda>c. if c = Free then {Free, Page p} else {c}"]) (use p in \<open>auto elim!: claim_cases\<close>)

lemma divided_take:
  assumes d: "divided a bs F B hb bigs" and m: "{m ..< m + 8 * n} \<subseteq> B" "hb m = None"
  shows "divided a bs F (B - {m ..< m + 8 * n}) (hb(m \<mapsto> n)) bigs"
  by (rule divided_recut [OF d, of _ _ _ "\<lambda>c. if c = Held m then {Free} else {c}"]) (use m in \<open>auto elim!: claim_cases split: if_splits\<close>)

lemma divided_give:
  assumes d: "divided a bs F B hb bigs" and m: "hb m = Some n" "m \<notin> set bigs"
  shows "divided a bs F (B \<union> {m ..< m + 8 * n}) (hb(m := None)) bigs"
  by (rule divided_recut [OF d, of _ _ _ "\<lambda>c. if c = Free then {Free, Held m} else {c}"]) (use m in \<open>auto elim!: claim_cases split: if_splits\<close>)

definition whole :: "(nat \<Rightarrow> bigblock) \<Rightarrow> nat set \<Rightarrow> nat set \<Rightarrow> (nat \<rightharpoonup> nat) \<Rightarrow> nat list \<Rightarrow> nat set" where
  "whole bs F B hb bigs = (\<Union>c \<in> claims F hb bigs. region bs B hb c)"

lemma whole_eq: "whole bs F B hb bigs = B \<union> (\<Union>q \<in> F. page_bytes q 1) \<union> (\<Union>m \<in> dom hb. {m ..< m + 8 * the (hb m)}) \<union> (\<Union>b \<in> set bigs. big_bytes (bs b))"
  by (simp add: whole_def claims_def UN_Un Un_ac)

lemma whole_page: "p \<in> F \<Longrightarrow> whole bs (F - {p}) (B \<union> page_bytes p 1) hb bigs = whole bs F B hb bigs"
  unfolding whole_eq by blast

lemma whole_give: "hb m = Some n \<Longrightarrow> whole bs F (B \<union> {m ..< m + 8 * n}) (hb(m := None)) bigs = whole bs F B hb bigs"
proof -
  assume m: "hb m = Some n"
  then have e: "dom hb = insert m (dom hb - {m})" by auto
  have "(\<Union>k \<in> dom hb. {k ..< k + 8 * the (hb k)}) = {m ..< m + 8 * n} \<union> (\<Union>k \<in> dom hb - {m}. {k ..< k + 8 * the (hb k)})" by (subst e) (simp only: UN_insert m option.sel)
  moreover have "(\<Union>k \<in> dom (hb(m := None)). {k ..< k + 8 * the ((hb(m := None)) k)}) = (\<Union>k \<in> dom hb - {m}. {k ..< k + 8 * the (hb k)})" by (intro SUP_cong) auto
  ultimately show ?thesis unfolding whole_eq by (simp add: Un_ac)
qed

lemma whole_take: "{m ..< m + 8 * n} \<subseteq> B \<Longrightarrow> hb m = None \<Longrightarrow> whole bs F (B - {m ..< m + 8 * n}) (hb(m \<mapsto> n)) bigs = whole bs F B hb bigs"
  using whole_give [of "hb(m \<mapsto> n)" m n bs F "B - {m ..< m + 8 * n}" bigs] fun_upd_triv [of hb m] by (simp add: Un_absorb2)

lemma whole_big:
  assumes p: "{p ..< p + k} \<subseteq> F" "p + k \<le> KMEM_PAGES" and b: "b \<notin> set bigs" "big_bytes (bs' b) = page_bytes p k" "\<And>c. c \<in> set bigs \<Longrightarrow> bs' c = bs c"
  shows "whole bs' (F - {p ..< p + k}) B hb (b # bigs) = whole bs F B hb bigs"
proof -
  have "(\<Union>q \<in> F. page_bytes q 1) = page_bytes p k \<union> (\<Union>q \<in> F - {p ..< p + k}. page_bytes q 1)" unfolding page_bytes_split [OF p(2)] using p(1) by blast
  then show ?thesis unfolding whole_eq using b by (simp add: Un_ac)
qed

lemma whole_unbig:
  assumes b: "hb b = Some n" "b \<notin> set (xs @ ys)" "big_bytes (bs b) = page_bytes q k" "q + k \<le> KMEM_PAGES" and s: "\<And>x. big_bytes (bs' x) = big_bytes (bs x)"
  shows "whole bs' (F \<union> {q ..< q + k}) (B \<union> {b ..< b + 8 * n}) (hb(b := None)) (xs @ ys) = whole bs F B hb (xs @ b # ys)"
proof -
  have "whole bs' (F \<union> {q ..< q + k}) B hb (xs @ ys) = whole bs F B hb (xs @ b # ys)" unfolding whole_eq using page_bytes_split [OF b(4)] b(3) s by (simp add: UN_Un Un_ac)
  then show ?thesis using whole_give [where hb = hb and m = b and n = n and bs = bs' and F = "F \<union> {q ..< q + k}" and B = B and bigs = "xs @ ys"] b(1) by simp
qed

lemma whole_cong: "(\<And>c. c \<in> set bigs \<Longrightarrow> bs' c = bs c) \<Longrightarrow> whole bs' F B hb bigs = whole bs F B hb bigs"
  by (simp add: whole_eq)

subsection \<open>The ring as part of the heap\<close>

lemma ring_run:
  assumes r: "slob_ring h xs" and a: "{a ..< a + 8 * n} \<subseteq> ring_bytes h xs" "0 < n"
  shows "\<exists>x \<in> set xs. int n \<le> unt h x"
proof -
  have "a \<in> ring_bytes h xs" using a by auto
  then obtain x where x: "x \<in> set xs" "a \<in> blk_of h x" by (auto simp: ring_bytes_def)
  let ?e = "x + 8 * nat (unt h x)"
  have "a + 8 * n \<le> ?e"
  proof (rule ccontr)
    assume "\<not> a + 8 * n \<le> ?e"
    then have "?e \<in> {a ..< a + 8 * n}" using x(2) by (auto simp: blk_of_def)
    then have "?e \<in> ring_bytes h xs" using a(1) by blast
    then obtain y where y: "y \<in> set xs" "?e \<in> blk_of h y" unfolding ring_bytes_def by blast
    obtain us vs where xs: "xs = us @ x # vs" using x(1) by (meson split_list)
    note O = ring_order [OF r [unfolded xs]]
    have "y = x \<or> y \<in> set us \<or> y \<in> set vs" using y(1) xs by auto
    then show False using O(1) [of y] O(2) [of y] y(2) by (auto simp: blk_of_def)
  qed
  then have "n \<le> nat (unt h x)" using x(2) by (auto simp: blk_of_def)
  then show ?thesis using x(1) a(2) by (intro bexI [of _ x]) linarith+
qed

lemma bchain_cong: "(\<And>b. b \<in> set xs \<Longrightarrow> bbs h' b = bbs h b) \<Longrightarrow> bchain h' p xs = bchain h p xs"
  by (induction xs arbitrary: p) auto

lemma held_out:
  assumes h: "heap_ok h F B hb bigs" and m: "hb m = Some n"
  shows "m \<notin> B" "m \<noteq> arena h" "arena h + 8 < m" "{m ..< m + 8 * n} \<inter> B = {}"
proof -
  note D = dividedD [OF heap_okD(4) [OF h], of "Held m"]
  have c: "Held m \<in> claims F hb bigs" using m by simp
  have i: "m \<in> {m ..< m + 8 * n}" using heap_okD(5) [OF h m] by simp
  show a: "arena h + 8 < m" using D(1) [OF c, of m] i m by simp
  then show "m \<noteq> arena h" by simp
  show e: "{m ..< m + 8 * n} \<inter> B = {}" using D(2) [OF c, of Free] m by simp
  then show "m \<notin> B" using i by blast
qed

lemma heap_okI:
  assumes h: "heap_ok h F B hb bigs" and s: "same_heap h h'" "hmem h' = hmem h" "slob_mem h' B'" "divided (arena h) (bbs h) F B' hb' bigs"
    and u: "\<And>m n. hb' m = Some n \<Longrightarrow> 2 \<le> n \<and> (m \<notin> set bigs \<longrightarrow> unt h' m = int n)" and b: "\<And>b. b \<in> set bigs \<Longrightarrow> hb' b = Some 2"
  shows "heap_ok h' F B' hb' bigs"
proof -
  note K = heap_okD [OF h]
  have e: "arena h' = arena h" "bbs h' = bbs h" "bigblocks h' = bigblocks h" using s(1) by (simp_all add: same_heap_def)
  have "bchain h' (bigblocks h') bigs" using K(7) bchain_cong [of bigs h' h] e(2,3) by simp
  then show ?thesis unfolding heap_ok_def e s(2) using K(1,2,8,10) s(3,4) u b e(3) by auto
qed

text \<open>Memory that nobody holds goes to the ring.\<close>

lemma heap_add:
  assumes h: "heap_ok h F B hb bigs" and d: "divided (arena h) (bbs h) F (B \<union> {b ..< b + 8 * n}) hb bigs" and b: "{b ..< b + 8 * n} \<inter> B = {}"
    and n: "0 < n" "if sz = 0 then unt h b = int n else n = unat (SLOB_UNITS sz)"
  shows "\<exists>h'. slob_free h (Some b) sz = Ret h' \<and> heap_ok h' F (B \<union> {b ..< b + 8 * n}) hb bigs \<and> same_heap h h' \<and> hmem h' = hmem h"
proof -
  note K = heap_okD [OF h]
  have i: "b \<in> {b ..< b + 8 * n}" using n(1) by simp
  have a: "arena h + 8 < b" using dividedD(1) [OF d, of Free b] i by simp
  from slob_free_ok [OF K(3) n a b] obtain h' where h': "slob_free h (Some b) sz = Ret h'" "slob_mem h' (B \<union> {b ..< b + 8 * n})" "same_heap h h'" "hmem h' = hmem h"
    "\<forall>x. x \<notin> B \<longrightarrow> x \<noteq> b \<longrightarrow> x \<noteq> arena h \<longrightarrow> slobs h' x = slobs h x" by blast
  have "heap_ok h' F (B \<union> {b ..< b + 8 * n}) hb bigs"
  proof (rule heap_okI [OF h h'(3,4,2) d])
    fix k i' assume k: "hb k = Some i'"
    have "{k ..< k + 8 * i'} \<inter> (B \<union> {b ..< b + 8 * n}) = {}" using dividedD(2) [OF d, of "Held k" Free] k by simp
    moreover have "k \<in> {k ..< k + 8 * i'}" using K(5) [OF k] by simp
    ultimately have "k \<noteq> b" using i by blast
    then have "slobs h' k = slobs h k" using h'(5) held_out(1,2) [OF h k] by simp
    then show "2 \<le> i' \<and> (k \<notin> set bigs \<longrightarrow> unt h' k = int i')" using K(5,6) [OF k] by simp
  qed (use K(9) in auto)
  then show ?thesis using h' by blast
qed

lemma heap_drop:
  assumes h: "heap_ok h F B hb bigs" and m: "m \<notin> set bigs"
  shows "heap_ok h F B (hb(m := None)) bigs"
proof -
  note K = heap_okD [OF h]
  have "divided (arena h) (bbs h) F B (hb(m := None)) bigs" by (rule divided_recut [OF K(4), of _ _ _ "\<lambda>c. {c}"]) (auto elim!: claim_cases split: if_splits)
  then show ?thesis using K m by (auto simp: heap_ok_def)
qed

lemma heap_give:
  assumes h: "heap_ok h F B hb bigs" and m: "hb m = Some n" "m \<notin> set bigs"
  shows "\<exists>h'. slob_free h (Some m) 0 = Ret h' \<and> heap_ok h' F (B \<union> {m ..< m + 8 * n}) (hb(m := None)) bigs \<and> same_heap h h' \<and> hmem h' = hmem h"
  by (rule heap_add [OF heap_drop [OF h m(2)] divided_give [OF heap_okD(4) [OF h] m] held_out(4) [OF h m(1)]]) (use heap_okD(5,6) [OF h m(1)] m in auto)

lemma heap_take:
  assumes h: "heap_ok h F B hb bigs" and r: "slob_ring h (us @ p # x # ws)" "B = ring_bytes h (us @ p # x # ws)" and n: "2 \<le> n" "int n \<le> unt h x" and c: "slob_cut h p x (int n) = (h', m)"
  shows "m = x \<and> hb m = None \<and> heap_ok h' F (B - {m ..< m + 8 * n}) (hb(m \<mapsto> n)) bigs \<and> same_heap h h' \<and>
     whole (bbs h) F (B - {m ..< m + 8 * n}) (hb(m \<mapsto> n)) bigs = whole (bbs h) F B hb bigs"
proof -
  note K = heap_okD [OF h]
  have n0: "0 < n" using n by simp
  note C = slob_cut_ok [OF r(1) n0 n(2) c, folded r(2)]
  have m: "hb m = None"
  proof (rule ccontr)
    assume "hb m \<noteq> None"
    then obtain k where "hb m = Some k" by blast
    then have "m \<notin> B" by (rule held_out(1) [OF h])
    moreover have "x \<in> {x ..< x + 8 * n}" using n0 by simp
    ultimately show False using C(1,6) by blast
  qed
  have "heap_ok h' F (B - {m ..< m + 8 * n}) (hb(m \<mapsto> n)) bigs"
  proof (rule heap_okI [OF h C(3,4) _ divided_take [OF K(4) _ m]])
    fix k i assume k: "(hb(m \<mapsto> n)) k = Some i"
    show "2 \<le> i \<and> (k \<notin> set bigs \<longrightarrow> unt h' k = int i)"
    proof (cases "k = m")
      case True
      then show ?thesis using k n(1) C(1,2) by simp
    next
      case False
      then have k': "hb k = Some i" using k by simp
      then have "slobs h' k = slobs h k" using C(7) [of k] held_out(1,2) [OF h k'] by simp
      then show ?thesis using K(5,6) [OF k'] by simp
    qed
  next
    fix b assume "b \<in> set bigs"
    then show "(hb(m \<mapsto> n)) b = Some 2" using K(9) [of b] m by auto
  qed (use C(1,5,6) in auto)
  moreover have "{m ..< m + 8 * n} \<subseteq> B" using C(1,6) by simp
  ultimately show ?thesis using m C(1,3) whole_take by blast
qed

lemma page_bytes_1: "p < KMEM_PAGES \<Longrightarrow> addr p \<in> page_bytes p 1"
  by (simp add: page_bytes_def)

lemma big_frames:
  assumes d: "divided a bs F B hb bigs" and b: "b \<in> set bigs" "bb_pages (bs b) = addr q" "q + 2 ^ bb_order (bs b) \<le> KMEM_PAGES"
  shows "{q ..< q + 2 ^ bb_order (bs b)} \<inter> F = {}"
proof (rule ccontr)
  assume "{q ..< q + 2 ^ bb_order (bs b)} \<inter> F \<noteq> {}"
  then obtain p where p: "p \<in> {q ..< q + 2 ^ bb_order (bs b)}" "p \<in> F" by blast
  have "page_bytes p 1 \<inter> big_bytes (bs b) = {}" using dividedD(2) [OF d, of "Page p" "Big b"] p(2) b(1) by simp
  moreover have "page_bytes p 1 \<subseteq> page_bytes q (2 ^ bb_order (bs b))" unfolding page_bytes_split [OF b(3)] using p(1) by blast
  moreover have "page_bytes q (2 ^ bb_order (bs b)) = big_bytes (bs b)" by (simp add: page_bytes_def big_bytes_def b(2))
  ultimately show False using page_bytes_1 [of p] p(1) b(3) by auto
qed

text \<open>The frames that the page allocator hands out change nothing else.\<close>

lemma heap_frames:
  assumes h: "heap_ok h F B hb bigs" and m: "frames_ok ((hmem h)\<lparr>pmm := m\<rparr>) F'" "\<forall>b n. pmm_owned (pmm (hmem h)) b n \<longrightarrow> {b ..< b + unat n} \<inter> F = {} \<longrightarrow> pmm_owned m b n"
    and F: "F' \<subseteq> F"
  shows "heap_ok (h\<lparr>hmem := (hmem h)\<lparr>pmm := m\<rparr>\<rparr>) F' B hb bigs"
proof -
  note K = heap_okD [OF h]
  let ?h = "h\<lparr>hmem := (hmem h)\<lparr>pmm := m\<rparr>\<rparr>"
  have n: "unat (npage (hmem h)) \<le> KMEM_PAGES" using K(1) by (simp add: frames_ok_def)
  have ok: "big_ok (hmem ?h) (bbs h b)" if b: "b \<in> set bigs" for b
  proof -
    from K(10) [OF b] obtain q where q: "bb_pages (bbs h b) = addr q" "bb_order (bbs h b) < 20" "q + 2 ^ bb_order (bbs h b) \<le> unat (npage (hmem h))"
      "pmm_owned (pmm (hmem h)) q (push_bit (bb_order (bbs h b)) 1)" unfolding big_ok_def by blast
    have u: "unat (push_bit (bb_order (bbs h b)) 1 :: u32) = 2 ^ bb_order (bbs h b)" by (rule unat_push_1 [OF q(2)])
    have "{q ..< q + 2 ^ bb_order (bbs h b)} \<inter> F = {}" by (rule big_frames [OF K(4) b q(1)]) (use q(3) n in simp)
    then have "pmm_owned m q (push_bit (bb_order (bbs h b)) 1)" using m(2) q(4) u by simp
    then show ?thesis unfolding big_ok_def using q(1-3) by auto
  qed
  have div: "divided (arena h) (bbs h) F' B hb bigs" by (rule divided_recut [OF K(4), of _ _ _ "\<lambda>c. {c}"]) (use F in \<open>auto elim!: claim_cases\<close>)
  obtain xs where xs: "slob_ring h xs" "B = ring_bytes h xs" using K(3) by (auto simp: slob_mem_def)
  have "slob_mem ?h B" unfolding slob_mem_def using ring_cong [OF xs(1), of ?h] xs(2) by auto
  moreover have "bchain ?h (bigblocks h) bigs" using K(7) bchain_cong [of bigs ?h h] by simp
  moreover have "quiet (hmem ?h)" using K(2) by (simp add: quiet_def)
  ultimately show ?thesis unfolding heap_ok_def using m(1) div ok K(5,6,8,9) by auto
qed

lemma heap_page:
  assumes h: "heap_ok h F B hb bigs" and p: "p \<in> F" and m: "frames_ok ((hmem h)\<lparr>pmm := m\<rparr>) (F - {p})"
      "\<forall>b n. pmm_owned (pmm (hmem h)) b n \<longrightarrow> {b ..< b + unat n} \<inter> F = {} \<longrightarrow> pmm_owned m b n"
  shows "\<exists>h'. slob_free (h\<lparr>hmem := (hmem h)\<lparr>pmm := m\<rparr>\<rparr>) (Some (addr p)) PAGE_SIZE = Ret h' \<and> heap_ok h' (F - {p}) (B \<union> page_bytes p 1) hb bigs \<and> same_heap h h'"
proof -
  let ?h = "h\<lparr>hmem := (hmem h)\<lparr>pmm := m\<rparr>\<rparr>"
  have h1: "heap_ok ?h (F - {p}) B hb bigs" by (rule heap_frames [OF h m]) auto
  note K = heap_okD [OF h]
  have pb: "page_bytes p 1 = {addr p ..< addr p + 8 * 512}" by (simp add: page_bytes_def)
  have u: "unat (SLOB_UNITS PAGE_SIZE) = 512" by (simp add: SLOB_UNITS_def PAGE_SIZE_def PGSIZE_def SLOB_UNIT_def)
  have dis: "{addr p ..< addr p + 8 * 512} \<inter> B = {}" using dividedD(2) [OF K(4), of "Page p" Free] p pb by simp
  have div: "divided (arena ?h) (bbs ?h) (F - {p}) (B \<union> {addr p ..< addr p + 8 * 512}) hb bigs" using divided_page_free [OF K(4) p] pb by simp
  have n: "if PAGE_SIZE = 0 then unt ?h (addr p) = int 512 else 512 = unat (SLOB_UNITS PAGE_SIZE)" using u by (simp add: PAGE_SIZE_def PGSIZE_def)
  from heap_add [OF h1 div dis _ n] obtain h' where "slob_free ?h (Some (addr p)) PAGE_SIZE = Ret h'" "heap_ok h' (F - {p}) (B \<union> page_bytes p 1) hb bigs" "same_heap ?h h'" unfolding pb by auto
  then show ?thesis by (auto simp: same_heap_def)
qed

lemma heap_alloc:
  assumes h: "heap_ok h F B hb bigs" and n: "n = unat (SLOB_UNITS sz)" "2 \<le> n" "n \<le> 512" and sz: "sz + SLOB_UNIT < PAGE_SIZE" "sz < PAGE_SIZE"
  shows "(\<exists>h' m F' B'. slob_alloc default_pmm_manager swap_manager_fifo h sz 0 = Ret (h', Some m) \<and> hb m = None \<and> F' \<subseteq> F \<and> card (F - F') \<le> 1 \<and> heap_ok h' F' B' (hb(m \<mapsto> n)) bigs \<and> same_heap h h' \<and>
        whole (bbs h) F' B' (hb(m \<mapsto> n)) bigs = whole (bbs h) F B hb bigs) \<or>
     F = {} \<and> (\<forall>a. \<not> {a ..< a + 8 * n} \<subseteq> B) \<and>
     (slob_alloc default_pmm_manager swap_manager_fifo h sz 0 = Ret (h, None) \<or> slob_alloc default_pmm_manager swap_manager_fifo h sz 0 = Panic)"
proof -
  note K = heap_okD [OF h]
  obtain xs where xs: "slob_ring h xs" "B = ring_bytes h xs" using K(3) by (auto simp: slob_mem_def)
  have sA: "slob_alloc default_pmm_manager swap_manager_fifo k sz 0 =
      (case slob_loop default_pmm_manager swap_manager_fifo k sz 0 (slobfree k) (nxt k (slobfree k)) of None \<Rightarrow> Panic | Some r \<Rightarrow> r)" for k
    using sz(1) by (simp add: slob_alloc_def)
  have n1: "1 < n" "0 < n" using n by auto
  have found: "\<exists>k' m B'. slob_loop default_pmm_manager swap_manager_fifo k sz 0 (slobfree k) (nxt k (slobfree k)) = Some (Ret (k', Some m)) \<and> hb m = None \<and>
      heap_ok k' G B' (hb(m \<mapsto> n)) bigs \<and> same_heap k k' \<and> whole (bbs k) G B' (hb(m \<mapsto> n)) bigs = whole (bbs k) G C hb bigs"
    if k: "heap_ok k G C hb bigs" "slob_ring k ys" "C = ring_bytes k ys" "\<exists>x \<in> set ys. int n \<le> unt k x" for k G C ys
  proof -
    from slob_search_fit [OF k(2) n1(1) n(1) k(4)] obtain us p x ws where f: "ys = us @ p # x # ws" "int n \<le> unt k x"
      "slob_loop default_pmm_manager swap_manager_fifo k sz 0 (slobfree k) (nxt k (slobfree k)) = Some (Ret (case slob_cut k p x (int n) of (h1, m) \<Rightarrow> (h1, Some m)))" by blast
    obtain k' m where c: "slob_cut k p x (int n) = (k', m)" by (cases "slob_cut k p x (int n)")
    from heap_take [OF k(1) _ _ n(2) f(2) c] k(2,3) f(1) show ?thesis using f(3) c by auto
  qed
  show ?thesis
  proof (cases "\<exists>x \<in> set xs. int n \<le> unt h x")
    case True
    from found [OF h xs True] obtain h' m B' where "slob_loop default_pmm_manager swap_manager_fifo h sz 0 (slobfree h) (nxt h (slobfree h)) = Some (Ret (h', Some m))"
      "hb m = None" "heap_ok h' F B' (hb(m \<mapsto> n)) bigs" "same_heap h h'" "whole (bbs h) F B' (hb(m \<mapsto> n)) bigs = whole (bbs h) F B hb bigs" by blast
    then show ?thesis unfolding sA by (intro disjI1 exI [of _ h'] exI [of _ m] exI [of _ F] exI [of _ B']) simp
  next
    case False
    then have none: "\<forall>x \<in> set xs. unt h x < int (unat (SLOB_UNITS sz))" using n(1) by auto
    have norun: "\<not> {a ..< a + 8 * n} \<subseteq> B" for a using ring_run [OF xs(1), of a n] xs(2) n1(2) False by blast
    have "sz \<noteq> PAGE_SIZE" using sz(2) by simp
    note L = slob_search_none [OF xs(1) none this, of default_pmm_manager swap_manager_fifo]
    have "(0 :: nat) < 20" by simp
    from get_pages_ok [OF K(1,2) this] show ?thesis
    proof (elim disjE)
      assume "\<exists>m p. slob_get_free_pages default_pmm_manager swap_manager_fifo h 0 = Ret (h\<lparr>hmem := (hmem h)\<lparr>pmm := m\<rparr>\<rparr>, Some (addr p)) \<and> {p ..< p + 2 ^ 0} \<subseteq> F \<and>
        frames_ok ((hmem h)\<lparr>pmm := m\<rparr>) (F - {p ..< p + 2 ^ 0}) \<and> pmm_owned m p (push_bit 0 1) \<and> (\<forall>b n. pmm_owned (pmm (hmem h)) b n \<longrightarrow> {b ..< b + unat n} \<inter> F = {} \<longrightarrow> pmm_owned m b n)"
      then obtain m p where g: "slob_get_free_pages default_pmm_manager swap_manager_fifo h 0 = Ret (h\<lparr>hmem := (hmem h)\<lparr>pmm := m\<rparr>\<rparr>, Some (addr p))" "p \<in> F"
        "frames_ok ((hmem h)\<lparr>pmm := m\<rparr>) (F - {p})" "\<forall>b n. pmm_owned (pmm (hmem h)) b n \<longrightarrow> {b ..< b + unat n} \<inter> F = {} \<longrightarrow> pmm_owned m b n" by auto
      from heap_page [OF h g(2-4)] obtain h2 where h2: "slob_free (h\<lparr>hmem := (hmem h)\<lparr>pmm := m\<rparr>\<rparr>) (Some (addr p)) PAGE_SIZE = Ret h2"
        "heap_ok h2 (F - {p}) (B \<union> page_bytes p 1) hb bigs" "same_heap h h2" by blast
      obtain ys where ys: "slob_ring h2 ys" "B \<union> page_bytes p 1 = ring_bytes h2 ys" using heap_okD(3) [OF h2(2)] by (auto simp: slob_mem_def)
      have "{addr p ..< addr p + 8 * n} \<subseteq> ring_bytes h2 ys" unfolding ys(2) [symmetric] page_bytes_def using n(3) by auto
      from found [OF h2(2) ys ring_run [OF ys(1) this n1(2)]] obtain h' a B' where h': "slob_loop default_pmm_manager swap_manager_fifo h2 sz 0 (slobfree h2) (nxt h2 (slobfree h2)) = Some (Ret (h', Some a))"
        "hb a = None" "heap_ok h' (F - {p}) B' (hb(a \<mapsto> n)) bigs" "same_heap h2 h'"
        "whole (bbs h2) (F - {p}) B' (hb(a \<mapsto> n)) bigs = whole (bbs h2) (F - {p}) (B \<union> page_bytes p 1) hb bigs" by blast
      have "whole (bbs h) (F - {p}) B' (hb(a \<mapsto> n)) bigs = whole (bbs h) F B hb bigs" using h'(5) whole_page [OF g(2)] h2(3) by (simp add: same_heap_def)
      moreover
      have "slob_alloc default_pmm_manager swap_manager_fifo h sz 0 = Ret (h', Some a)" unfolding sA L using g(1) h2(1) h'(1) by simp
      moreover have "card (F - (F - {p})) \<le> 1" using card_mono [of "{p}" "F - (F - {p})"] by auto
      ultimately show ?thesis using h'(2,3) same_heap_trans [OF h2(3) h'(4)] by (intro disjI1) blast
    next
      assume a: "\<not> (\<exists>p. {p ..< p + 2 ^ 0} \<subseteq> F) \<and> (slob_get_free_pages default_pmm_manager swap_manager_fifo h 0 = Ret (h, None) \<or> slob_get_free_pages default_pmm_manager swap_manager_fifo h 0 = Panic)"
      then have "F = {}" by auto
      moreover have "slob_alloc default_pmm_manager swap_manager_fifo h sz 0 = Ret (h, None) \<or> slob_alloc default_pmm_manager swap_manager_fifo h sz 0 = Panic" unfolding sA L using a by auto
      ultimately show ?thesis using norun by blast
    qed
  qed
qed

subsection \<open>Small requests\<close>

lemma small_size:
  fixes sz :: u32
  assumes "0 < sz" "sz < 4080"
  shows "unat (SLOB_UNITS (sz + SLOB_UNIT)) = (unat sz + 15) div 8" "sz < PAGE_SIZE - SLOB_UNIT" "sz + SLOB_UNIT + SLOB_UNIT < PAGE_SIZE" "sz + SLOB_UNIT < PAGE_SIZE"
    "2 \<le> (unat sz + 15) div 8" "(unat sz + 15) div 8 \<le> 512"
proof -
  have s: "0 < unat sz" "unat sz < 4080" using assms by (simp_all add: word_less_nat_alt)
  have u: "unat (sz + 8) = unat sz + 8" "unat (sz + 8 + 8) = unat sz + 16" "unat (sz + 8 + 8 - 1) = unat sz + 15" using s by (simp_all add: unat_word_ariths unat_sub_if_size word_size)
  show "unat (SLOB_UNITS (sz + SLOB_UNIT)) = (unat sz + 15) div 8" using u(3) by (simp add: SLOB_UNITS_def SLOB_UNIT_def unat_div)
  show "sz < PAGE_SIZE - SLOB_UNIT" "sz + SLOB_UNIT + SLOB_UNIT < PAGE_SIZE" "sz + SLOB_UNIT < PAGE_SIZE"
    using s u by (simp_all add: word_less_nat_alt PAGE_SIZE_def PGSIZE_def SLOB_UNIT_def)
  show "2 \<le> (unat sz + 15) div 8" "(unat sz + 15) div 8 \<le> 512" using s by auto
qed

lemma kmalloc_small:
  assumes h: "heap_ok h F B hb bigs" and sz: "0 < sz" "sz < 4080" and n: "n = (unat sz + 15) div 8"
  shows "(\<exists>h' m F' B'. kmalloc default_pmm_manager swap_manager_fifo h sz = Ret (h', Some (m + 8)) \<and> hb m = None \<and> F' \<subseteq> F \<and> card (F - F') \<le> 1 \<and> heap_ok h' F' B' (hb(m \<mapsto> n)) bigs \<and> same_heap h h' \<and>
        whole (bbs h) F' B' (hb(m \<mapsto> n)) bigs = whole (bbs h) F B hb bigs) \<or>
     F = {} \<and> (\<forall>a. \<not> {a ..< a + 8 * n} \<subseteq> B) \<and>
     (kmalloc default_pmm_manager swap_manager_fifo h sz = Ret (h, None) \<or> kmalloc default_pmm_manager swap_manager_fifo h sz = Panic)"
proof -
  note S = small_size [OF sz]
  have k: "kmalloc default_pmm_manager swap_manager_fifo h sz =
      bind_outcome (slob_alloc default_pmm_manager swap_manager_fifo h (sz + SLOB_UNIT) 0) (\<lambda>(h1, r). Ret (h1, map_option (\<lambda>m. slob_add m 1) r))"
    using S(2) by (simp add: kmalloc_def kmalloc_gfp_def)
  have a: "slob_add m 1 = m + 8" for m by (simp add: slob_add_nat)
  have n': "n = unat (SLOB_UNITS (sz + SLOB_UNIT))" "2 \<le> n" "n \<le> 512" using n S by simp_all
  from heap_alloc [OF h n' S(3,4)] show ?thesis unfolding k by (auto simp: a)
qed

lemma scan_none: "bchain h p xs \<Longrightarrow> \<forall>b \<in> set xs. bb_pages (bbs h b) \<noteq> a \<Longrightarrow> \<exists>l. big_scan h a lst p = Some (l, None)"
proof (induction xs arbitrary: lst p)
  case Nil
  then show ?case by (subst big_scan.simps) simp
next
  case (Cons b xs)
  then show ?case using Cons.IH [of "bb_next (bbs h b)" "Some b"] by (subst big_scan.simps) auto
qed

lemma big_start:
  assumes h: "heap_ok h F B hb bigs" and b: "b \<in> set bigs"
  shows "bb_pages (bbs h b) \<in> region (bbs h) B hb (Big b)"
  by (simp add: big_bytes_def)

text \<open>A small block and the pages of a large one are different parts of memory.\<close>

lemma held_not_big:
  assumes h: "heap_ok h F B hb bigs" and m: "hb m = Some n" and b: "b \<in> set bigs"
  shows "bb_pages (bbs h b) \<noteq> m + 8"
proof
  assume e: "bb_pages (bbs h b) = m + 8"
  have "region (bbs h) B hb (Held m) \<inter> region (bbs h) B hb (Big b) = {}" by (rule dividedD(2) [OF heap_okD(4) [OF h]]) (use m b in auto)
  moreover have "m + 8 \<in> region (bbs h) B hb (Held m)" using m heap_okD(5) [OF h m] by simp
  moreover have "m + 8 \<in> region (bbs h) B hb (Big b)" using big_start [OF h b] e by simp
  ultimately show False by blast
qed

lemma kfree_small:
  assumes h: "heap_ok h F B hb bigs" and m: "hb m = Some n" "m \<notin> set bigs"
  shows "\<exists>h'. kfree default_pmm_manager h (Some (m + 8)) = Ret h' \<and> heap_ok h' F (B \<union> {m ..< m + 8 * n}) (hb(m := None)) bigs \<and> same_heap h h'"
proof -
  note K = heap_okD [OF h]
  have "bb_pages (bbs h b) \<noteq> m + 8" if b: "b \<in> set bigs" for b by (rule held_not_big [OF h m(1) b])
  with scan_none [OF K(7)] obtain l where l: "big_scan h (m + 8) None (bigblocks h) = Some (l, None)" by blast
  have "slob_add (m + 8) (- 1) = m" by (simp add: slob_add_def)
  then have "kfree default_pmm_manager h (Some (m + 8)) = slob_free h (Some m) 0" using l by (simp add: kfree_def)
  with heap_give [OF h m] show ?thesis by auto
qed

subsection \<open>Large requests\<close>

lemma find_order_le: "sz \<le> 4096 * 2 ^ k \<Longrightarrow> find_order sz \<le> k"
proof (induction k arbitrary: sz)
  case 0
  then show ?case by (subst find_order.simps) simp
next
  case (Suc k)
  then have "drop_bit 1 sz \<le> 4096 * 2 ^ k" by (simp add: drop_bit_eq_div)
  then show ?case using Suc.IH by (subst find_order.simps) simp
qed

lemma find_order_bound: "find_order (sint (sz :: u32)) < 20"
proof -
  have "sint sz < 2 ^ 31" using sint_lt [of sz] by simp
  then have "find_order (sint sz) \<le> 19" by (intro find_order_le) simp
  then show ?thesis by simp
qed

lemma divided_big:
  assumes d: "divided a bs F B hb bigs" and p: "{p ..< p + k} \<subseteq> F" "p + k \<le> KMEM_PAGES" and b: "b \<notin> set bigs" "big_bytes (bs' b) = page_bytes p k" "\<And>c. c \<in> set bigs \<Longrightarrow> bs' c = bs c"
  shows "divided a bs' (F - {p ..< p + k}) B hb (b # bigs)"
proof (rule divided_recut [OF d, of _ _ _ "\<lambda>c. if c = Big b then Page ` {p ..< p + k} else {c}"])
  fix c assume c: "c \<in> claims (F - {p ..< p + k}) hb (b # bigs)"
  show "(if c = Big b then Page ` {p ..< p + k} else {c}) \<subseteq> claims F hb bigs \<and>
      region bs' B hb c \<subseteq> (\<Union>e \<in> if c = Big b then Page ` {p ..< p + k} else {c}. region bs B hb e)"
  proof (cases "c = Big b")
    case True
    then show ?thesis using p b(2) page_bytes_split [OF p(2)] by auto
  next
    case False
    then show ?thesis using c b(3) by (auto elim!: claim_cases)
  qed
qed (use b(1) in \<open>auto elim!: claim_cases\<close>)

lemma heap_bbs:
  assumes h: "heap_ok h F B hb bigs" and e: "hmem h' = hmem h" "arena h' = arena h" "bigblocks h' = bigblocks h" "slobs h' = slobs h" "slobfree h' = slobfree h"
    and b: "\<And>c. c \<in> set bigs \<Longrightarrow> bbs h' c = bbs h c"
  shows "heap_ok h' F B hb bigs"
proof -
  note K = heap_okD [OF h]
  have "divided (arena h) (bbs h') F B hb bigs" by (rule divided_recut [OF K(4), of _ _ _ "\<lambda>c. {c}"]) (use b in \<open>auto elim!: claim_cases\<close>)
  moreover have "slob_mem h' B"
  proof -
    obtain xs where xs: "slob_ring h xs" "B = ring_bytes h xs" using K(3) by (auto simp: slob_mem_def)
    then show ?thesis unfolding slob_mem_def using ring_cong [OF xs(1), of h'] e by auto
  qed
  moreover have "bchain h' (bigblocks h) bigs" using K(7) bchain_cong [of bigs h' h] b by simp
  ultimately show ?thesis unfolding heap_ok_def e using K b by auto
qed

lemma kmalloc_big:
  assumes h: "heap_ok h F B hb bigs" and sz: "\<not> sz < PAGE_SIZE - SLOB_UNIT" and r: "kmalloc default_pmm_manager swap_manager_fifo h sz = Ret (h', r)"
  shows "case r of
      None \<Rightarrow> \<exists>F' B'. F' \<subseteq> F \<and> heap_ok h' F' B' hb bigs \<and> whole (bbs h') F' B' hb bigs = whole (bbs h) F B hb bigs \<and> (\<forall>c \<in> set bigs. bbs h' c = bbs h c)
    | Some a \<Rightarrow> \<exists>b F' B'. hb b = None \<and> F' \<subseteq> F \<and> heap_ok h' F' B' (hb(b \<mapsto> 2)) (b # bigs) \<and>
        whole (bbs h') F' B' (hb(b \<mapsto> 2)) (b # bigs) = whole (bbs h) F B hb bigs \<and> (\<forall>c \<in> set bigs. bbs h' c = bbs h c) \<and>
        bb_pages (bbs h' b) = a \<and> bb_order (bbs h' b) = find_order (sint sz)"
proof -
  let ?k = "find_order (sint sz)"
  have u: "2 = unat (SLOB_UNITS BIGBLOCK_SIZE)" "BIGBLOCK_SIZE + SLOB_UNIT < PAGE_SIZE" "BIGBLOCK_SIZE < PAGE_SIZE" "BIGBLOCK_SIZE \<noteq> 0"
    by (simp_all add: SLOB_UNITS_def BIGBLOCK_SIZE_def SLOB_UNIT_def PAGE_SIZE_def PGSIZE_def unat_div)
  note run = r [unfolded kmalloc_def kmalloc_gfp_def, simplified sz if_False]
  from heap_alloc [OF h u(1) _ _ u(2,3)] consider (some) h1 b F1 B1 where "slob_alloc default_pmm_manager swap_manager_fifo h BIGBLOCK_SIZE 0 = Ret (h1, Some b)" "hb b = None" "F1 \<subseteq> F"
      "heap_ok h1 F1 B1 (hb(b \<mapsto> 2)) bigs" "same_heap h h1" "whole (bbs h) F1 B1 (hb(b \<mapsto> 2)) bigs = whole (bbs h) F B hb bigs"
    | (none) "slob_alloc default_pmm_manager swap_manager_fifo h BIGBLOCK_SIZE 0 = Ret (h, None)" | (panic) "slob_alloc default_pmm_manager swap_manager_fifo h BIGBLOCK_SIZE 0 = Panic" by auto
  then show ?thesis
  proof cases
    case none
    then have "h' = h" "r = None" using run by (simp_all add: sz)
    then show ?thesis using h by (auto simp: same_heap_def)
  next
    case panic
    then show ?thesis using run by (simp add: sz)
  next
    case some
    define h2 where "h2 = upd_bb b (bb_order_update (\<lambda>_. ?k)) h1"
    have nb: "b \<notin> set bigs" using heap_okD(9) [OF h, of b] some(2) by auto
    have e2: "hmem h2 = hmem h1" "arena h2 = arena h1" "bigblocks h2 = bigblocks h1" "slobs h2 = slobs h1" "slobfree h2 = slobfree h1" by (simp_all add: h2_def)
    note K1 = heap_okD [OF some(4)]
    have k: "?k < 20" by (rule find_order_bound)
    have run2: "bind_outcome (slob_get_free_pages default_pmm_manager swap_manager_fifo h2 ?k) (\<lambda>(h3, p).
        case p of Some a \<Rightarrow> Ret ((upd_bb b (\<lambda>x. x\<lparr>bb_pages := a, bb_next := bigblocks h3\<rparr>) h3)\<lparr>bigblocks := Some b\<rparr>, Some a)
        | None \<Rightarrow> bind_outcome (slob_free h3 (Some b) BIGBLOCK_SIZE) (\<lambda>h4. Ret (h4, None))) = Ret (h', r)"
      using run some(1) by (simp add: sz h2_def)
    have bs: "c \<in> set bigs \<Longrightarrow> bbs h2 c = bbs h c" for c using nb some(5) by (auto simp: h2_def same_heap_def)
    have "\<And>c. c \<in> set bigs \<Longrightarrow> bbs h2 c = bbs h1 c" using bs some(5) by (simp add: same_heap_def)
    from heap_bbs [OF some(4) e2 this] have ok2: "heap_ok h2 F1 B1 (hb(b \<mapsto> 2)) bigs" .
    note K2 = heap_okD [OF ok2]
    from get_pages_ok [OF K2(1,2) k] consider (got) m p where "slob_get_free_pages default_pmm_manager swap_manager_fifo h2 ?k = Ret (h2\<lparr>hmem := (hmem h2)\<lparr>pmm := m\<rparr>\<rparr>, Some (addr p))"
        "{p ..< p + 2 ^ ?k} \<subseteq> F1" "frames_ok ((hmem h2)\<lparr>pmm := m\<rparr>) (F1 - {p ..< p + 2 ^ ?k})" "pmm_owned m p (push_bit ?k 1)"
        "\<forall>b n. pmm_owned (pmm (hmem h2)) b n \<longrightarrow> {b ..< b + unat n} \<inter> F1 = {} \<longrightarrow> pmm_owned m b n"
      | (nopage) "slob_get_free_pages default_pmm_manager swap_manager_fifo h2 ?k = Ret (h2, None)" | (crash) "slob_get_free_pages default_pmm_manager swap_manager_fifo h2 ?k = Panic" by blast
    then show ?thesis
    proof cases
      case crash
      then show ?thesis using run2 by simp
    next
      case nopage
      have g: "hb(b \<mapsto> 2, b := None) = hb" using some(2) by auto
      have "(hb(b \<mapsto> 2)) b = Some 2" by simp
      from heap_add [OF heap_drop [OF ok2 nb] divided_give [OF K2(4) this nb] held_out(4) [OF ok2 this], of BIGBLOCK_SIZE, unfolded g] u(1,4)
      obtain h4 where "slob_free h2 (Some b) BIGBLOCK_SIZE = Ret h4" "heap_ok h4 F1 (B1 \<union> {b ..< b + 8 * 2}) hb bigs" "same_heap h2 h4" by auto
      moreover from this have "h' = h4" "r = None" using run2 nopage by simp_all
      moreover have "whole (bbs h2) F1 (B1 \<union> {b ..< b + 8 * 2}) hb bigs = whole (bbs h) F B hb bigs"
        using whole_give [of "hb(b \<mapsto> 2)" b 2 "bbs h2" F1 B1 bigs] g whole_cong [of bigs "bbs h2" "bbs h"] bs some(6) by simp
      ultimately show ?thesis using some(3) bs by (auto simp: same_heap_def)
    next
      case got
      let ?h3 = "h2\<lparr>hmem := (hmem h2)\<lparr>pmm := m\<rparr>\<rparr>"
      have h': "h' = (upd_bb b (\<lambda>x. x\<lparr>bb_pages := addr p, bb_next := bigblocks h2\<rparr>) ?h3)\<lparr>bigblocks := Some b\<rparr>" "r = Some (addr p)" using run2 got(1) by auto
      have ok3: "heap_ok ?h3 (F1 - {p ..< p + 2 ^ ?k}) B1 (hb(b \<mapsto> 2)) bigs" by (rule heap_frames [OF ok2 got(3,5)]) auto
      have x: "bb_pages (bbs h' b) = addr p" "bb_order (bbs h' b) = ?k" "bb_next (bbs h' b) = bigblocks h2" by (simp_all add: h' h2_def)
      have bs': "c \<in> set bigs \<Longrightarrow> bbs h' c = bbs h2 c" for c using nb by (auto simp: h')
      have np: "p + 2 ^ ?k \<le> unat (npage (hmem h2))" "p + 2 ^ ?k \<le> KMEM_PAGES"
      proof -
        have "0 < (2 :: nat) ^ ?k" by simp
        then have "p + 2 ^ ?k - 1 \<in> {p ..< p + 2 ^ ?k}" unfolding atLeastLessThan_iff by linarith
        then have "p + 2 ^ ?k - 1 \<in> F1" using got(2) by blast
        then show "p + 2 ^ ?k \<le> unat (npage (hmem h2))" using K2(1) by (auto simp: frames_ok_def)
        then show "p + 2 ^ ?k \<le> KMEM_PAGES" using K2(1) by (simp add: frames_ok_def)
      qed
      have "divided (arena h2) (bbs h') (F1 - {p ..< p + 2 ^ ?k}) B1 (hb(b \<mapsto> 2)) (b # bigs)"
        by (rule divided_big [OF K2(4) got(2) np(2) nb _ bs']) (simp_all add: big_bytes_def page_bytes_def x)
      moreover have "slob_mem h' B1"
      proof -
        obtain xs where xs: "slob_ring ?h3 xs" "B1 = ring_bytes ?h3 xs" using heap_okD(3) [OF ok3] by (auto simp: slob_mem_def)
        then show ?thesis unfolding slob_mem_def using ring_cong [OF xs(1), of h'] by (auto simp: h')
      qed
      moreover have "bchain h' (bigblocks h') (b # bigs)" using K2(7) bchain_cong [of bigs h' h2] bs' x(3) by (simp add: h'(1))
      moreover have "big_ok (hmem h') (bbs h' c)" if "c \<in> set (b # bigs)" for c
      proof (cases "c = b")
        case True
        then show ?thesis unfolding big_ok_def x using k np(1) got(4) True x by (intro exI [of _ p]) (simp add: h'(1))
      next
        case False
        then show ?thesis using heap_okD(10) [OF ok3, of c] that bs' [of c] by (simp add: h'(1))
      qed
      moreover have "hmem h' = hmem ?h3" "arena h' = arena h2" "slobs h' = slobs ?h3" by (simp_all add: h'(1))
      ultimately have "heap_ok h' (F1 - {p ..< p + 2 ^ ?k}) B1 (hb(b \<mapsto> 2)) (b # bigs)"
        unfolding heap_ok_def using heap_okD(1,2,5,6,8,9) [OF ok3] nb by auto
      moreover have "whole (bbs h') (F1 - {p ..< p + 2 ^ ?k}) B1 (hb(b \<mapsto> 2)) (b # bigs) = whole (bbs h) F B hb bigs"
        using whole_big [OF got(2) np(2) nb, of "bbs h'" "bbs h"] bs bs' some(6) by (simp add: big_bytes_def page_bytes_def x)
      ultimately show ?thesis unfolding h'(2) option.case using some(2,3) x bs bs' by (intro exI [of _ b] exI [of _ "F1 - {p ..< p + 2 ^ ?k}"] exI [of _ B1]) auto
    qed
  qed
qed

lemma scan_some:
  "bchain h p (xs @ b # ys) \<Longrightarrow> \<forall>c \<in> set xs. bb_pages (bbs h c) \<noteq> bb_pages (bbs h b) \<Longrightarrow>
     big_scan h (bb_pages (bbs h b)) lst p = Some (if xs = [] then lst else Some (last xs), Some b)"
proof (induction xs arbitrary: lst p)
  case Nil
  then show ?case by (subst big_scan.simps) simp
next
  case (Cons c xs)
  then show ?case using Cons.IH [of "bb_next (bbs h c)" "Some c"] by (subst big_scan.simps) auto
qed

lemma unlink_chain:
  "bchain h p (xs @ x # b # ys) \<Longrightarrow> distinct (xs @ x # b # ys) \<Longrightarrow>
     bchain (upd_bb x (bb_next_update (\<lambda>_. bb_next (bbs h b))) h) p (xs @ x # ys)"
proof (induction xs arbitrary: p)
  case Nil
  then have "bchain (upd_bb x (bb_next_update (\<lambda>_. bb_next (bbs h b))) h) q ys = bchain h q ys" for q by (intro bchain_cong) auto
  with Nil show ?case by (simp add: fun_upd_same del: fun_upd_apply)
qed (auto simp: fun_upd_other simp del: fun_upd_apply)

lemma unlink_ok:
  assumes c: "bchain h (bigblocks h) (xs @ b # ys)" and d: "distinct (xs @ b # ys)"
    and h': "h' = big_unlink h (if xs = [] then None else Some (last xs)) (bb_next (bbs h b))"
  shows "bchain h' (bigblocks h') (xs @ ys)" "bb_pages (bbs h' x) = bb_pages (bbs h x)" "bb_order (bbs h' x) = bb_order (bbs h x)"
    "hmem h' = hmem h" "arena h' = arena h" "slobs h' = slobs h" "slobfree h' = slobfree h"
proof -
  show "bchain h' (bigblocks h') (xs @ ys)"
  proof (cases xs rule: rev_cases)
    case Nil
    then show ?thesis using c bchain_cong [of ys h' h] by (simp add: h' big_unlink_def)
  next
    case (snoc us x)
    then show ?thesis using unlink_chain [of h "bigblocks h" us x b ys] c d by (simp add: h' big_unlink_def)
  qed
qed (auto simp: h' big_unlink_def)

lemma pages_apart: "p < KMEM_PAGES \<Longrightarrow> q < KMEM_PAGES \<Longrightarrow> p \<noteq> q \<Longrightarrow> page_bytes p 1 \<inter> page_bytes q 1 = {}"
  by (auto simp: page_bytes_def addr_eq)

lemma region_big_cong: "bb_pages x = bb_pages y \<Longrightarrow> bb_order x = bb_order y \<Longrightarrow> big_bytes x = big_bytes y"
  by (simp add: big_bytes_def)

text \<open>A large block is given up: its pages become free frames and its descriptor becomes free heap memory.\<close>

lemma divided_unbig:
  assumes d: "divided a bs F B hb (xs @ b # ys)" and b: "hb b = Some 2" "b \<notin> set (xs @ ys)" "big_bytes (bs b) = page_bytes q k" "q + k \<le> KMEM_PAGES" "F \<subseteq> {..< KMEM_PAGES}"
    and s: "\<And>x. big_bytes (bs' x) = big_bytes (bs x)"
  shows "divided a bs' (F \<union> {q ..< q + k}) (B \<union> {b ..< b + 8 * 2}) (hb(b := None)) (xs @ ys)"
proof (rule divided_recut [OF d, of _ _ _ "\<lambda>c. case c of Free \<Rightarrow> {Free, Held b} | Page p \<Rightarrow> if p \<in> F then {Page p} else {Big b} | _ \<Rightarrow> {c}"])
  fix c assume "c \<in> claims (F \<union> {q ..< q + k}) (hb(b := None)) (xs @ ys)"
  then show "(case c of Free \<Rightarrow> {Free, Held b} | Page p \<Rightarrow> if p \<in> F then {Page p} else {Big b} | _ \<Rightarrow> {c}) \<subseteq> claims F hb (xs @ b # ys) \<and>
      region bs' (B \<union> {b ..< b + 8 * 2}) (hb(b := None)) c \<subseteq>
        (\<Union>e \<in> case c of Free \<Rightarrow> {Free, Held b} | Page p \<Rightarrow> if p \<in> F then {Page p} else {Big b} | _ \<Rightarrow> {c}. region bs B hb e)"
    using b(1) s page_bytes_split [OF b(4)] b(3) by (elim claim_cases) (auto split: if_splits)
next
  fix c e assume ce: "c \<in> claims (F \<union> {q ..< q + k}) (hb(b := None)) (xs @ ys)" "e \<in> claims (F \<union> {q ..< q + k}) (hb(b := None)) (xs @ ys)" "c \<noteq> e"
  show "(case c of Free \<Rightarrow> {Free, Held b} | Page p \<Rightarrow> if p \<in> F then {Page p} else {Big b} | _ \<Rightarrow> {c}) \<inter>
      (case e of Free \<Rightarrow> {Free, Held b} | Page p \<Rightarrow> if p \<in> F then {Page p} else {Big b} | _ \<Rightarrow> {e}) = {} \<or>
      region bs' (B \<union> {b ..< b + 8 * 2}) (hb(b := None)) c \<inter> region bs' (B \<union> {b ..< b + 8 * 2}) (hb(b := None)) e = {}"
  proof (cases "\<exists>p r. c = Page p \<and> e = Page r")
    case True
    then obtain p r where pr: "c = Page p" "e = Page r" by blast
    then have "p < KMEM_PAGES" "r < KMEM_PAGES" "p \<noteq> r" using ce b(4,5) by auto
    then show ?thesis using pages_apart pr by simp
  next
    case False
    then show ?thesis using ce b(2) by (elim claim_cases) (auto split: if_splits)
  qed
qed

lemma free_pages_ok:
  assumes f: "frames_ok (hmem h) F" and q: "k < 20" "q + 2 ^ k \<le> unat (npage (hmem h))" "pmm_owned (pmm (hmem h)) q (push_bit k 1)" "{q ..< q + 2 ^ k} \<inter> F = {}"
  shows "\<exists>m. slob_free_pages default_pmm_manager h (addr q) k = Ret (h\<lparr>hmem := (hmem h)\<lparr>pmm := m\<rparr>\<rparr>) \<and> frames_ok ((hmem h)\<lparr>pmm := m\<rparr>) (F \<union> {q ..< q + 2 ^ k}) \<and>
     (\<forall>b n. pmm_owned (pmm (hmem h)) b n \<longrightarrow> {b ..< b + unat n} \<inter> (F \<union> {q ..< q + 2 ^ k}) = {} \<longrightarrow> pmm_owned m b n)"
proof -
  have F: "pmm_free (pmm (hmem h)) F" "F \<subseteq> {..< unat (npage (hmem h))}" "unat (npage (hmem h)) \<le> KMEM_PAGES" using f by (simp_all add: frames_ok_def)
  have u: "unat (push_bit k 1 :: u32) = 2 ^ k" by (rule unat_push_1 [OF q(1)])
  from default_pmm.free_contract [OF F(1) q(3)] obtain m where m: "pm_free_pages default_pmm_manager (pmm (hmem h)) q (push_bit k 1) = Ret m" "pmm_free m (F \<union> {q ..< q + 2 ^ k})"
    "\<forall>b n. pmm_owned (pmm (hmem h)) b n \<longrightarrow> {b ..< b + unat n} \<inter> (F \<union> {q ..< q + 2 ^ k}) = {} \<longrightarrow> pmm_owned m b n" using q(4) u by auto
  have "0 < (2 :: nat) ^ k" by simp
  then have "q < unat (npage (hmem h))" using q(2) by linarith
  then have "kva2page (hmem h) (of_nat (addr q)) = Ret q" using kva_page(2) [of q "hmem h"] F(3) by (simp add: addr_def)
  then have "slob_free_pages default_pmm_manager h (addr q) k = Ret (h\<lparr>hmem := (hmem h)\<lparr>pmm := m\<rparr>\<rparr>)" using m(1) by (simp add: slob_free_pages_def free_pages_def)
  moreover have "frames_ok ((hmem h)\<lparr>pmm := m\<rparr>) (F \<union> {q ..< q + 2 ^ k})" using m(2) F(2,3) q(2) by (auto simp: frames_ok_def)
  ultimately show ?thesis using m(3) by blast
qed

lemma big_inj:
  assumes h: "heap_ok h F B hb bigs" and b: "b \<in> set bigs" "c \<in> set bigs" "bb_pages (bbs h b) = bb_pages (bbs h c)"
  shows "b = c"
proof (rule ccontr)
  assume "b \<noteq> c"
  then have "region (bbs h) B hb (Big b) \<inter> region (bbs h) B hb (Big c) = {}" by (intro dividedD(2) [OF heap_okD(4) [OF h]]) (use b in auto)
  then show False using big_start [OF h b(1)] big_start [OF h b(2)] b(3) by auto
qed

lemma big_scan_at:
  assumes h: "heap_ok h F B hb bigs" and bigs: "bigs = xs @ b # ys"
  shows "big_scan h (bb_pages (bbs h b)) None (bigblocks h) = Some (if xs = [] then None else Some (last xs), Some b)" "bb_pages (bbs h b) mod 4096 = 0"
proof -
  note K = heap_okD [OF h]
  have "b \<notin> set xs" using K(8) bigs by auto
  then have "bb_pages (bbs h c) \<noteq> bb_pages (bbs h b)" if "c \<in> set xs" for c using that big_inj [OF h, of c b] bigs by auto
  then show "big_scan h (bb_pages (bbs h b)) None (bigblocks h) = Some (if xs = [] then None else Some (last xs), Some b)" using scan_some [OF K(7) [unfolded bigs]] by auto
  from K(10) [of b] bigs obtain q where q: "bb_pages (bbs h b) = addr q" "q + 2 ^ bb_order (bbs h b) \<le> unat (npage (hmem h))" unfolding big_ok_def by auto
  have "q < KMEM_PAGES" using q(2) K(1) less_le_trans [of q "q + 2 ^ bb_order (bbs h b)"] by (simp add: frames_ok_def)
  then show "bb_pages (bbs h b) mod 4096 = 0" by (simp add: q(1) addr_eq)
qed

lemma kfree_big:
  assumes h: "heap_ok h F B hb bigs" and b: "b \<in> set bigs"
  shows "\<exists>h' q bigs'. kfree default_pmm_manager h (Some (bb_pages (bbs h b))) = Ret h' \<and> bb_pages (bbs h b) = addr q \<and> set bigs' = set bigs - {b} \<and>
     heap_ok h' (F \<union> {q ..< q + 2 ^ bb_order (bbs h b)}) (B \<union> {b ..< b + 16}) (hb(b := None)) bigs' \<and>
     whole (bbs h') (F \<union> {q ..< q + 2 ^ bb_order (bbs h b)}) (B \<union> {b ..< b + 16}) (hb(b := None)) bigs' = whole (bbs h) F B hb bigs \<and>
     (\<forall>c. bb_pages (bbs h' c) = bb_pages (bbs h c) \<and> bb_order (bbs h' c) = bb_order (bbs h c))"
proof -
  note K = heap_okD [OF h]
  obtain xs ys where bigs: "bigs = xs @ b # ys" using b by (meson split_list)
  let ?a = "bb_pages (bbs h b)" and ?o = "bb_order (bbs h b)" and ?hb = "hb(b := None)"
  have nb: "b \<notin> set (xs @ ys)" using K(8) bigs by auto
  from K(10) [OF b] obtain q where q: "?a = addr q" "?o < 20" "q + 2 ^ ?o \<le> unat (npage (hmem h))" "pmm_owned (pmm (hmem h)) q (push_bit ?o 1)" unfolding big_ok_def by blast
  let ?F = "F \<union> {q ..< q + 2 ^ ?o}"
  have N: "F \<subseteq> {..< KMEM_PAGES}" "q + 2 ^ ?o \<le> KMEM_PAGES" "unat (npage (hmem h)) \<le> KMEM_PAGES" using K(1) q(3) by (auto simp: frames_ok_def)
  define h1 where "h1 = big_unlink h (if xs = [] then None else Some (last xs)) (bb_next (bbs h b))"
  note U = unlink_ok [OF K(7) [unfolded bigs] K(8) [unfolded bigs] h1_def]
  note scan = big_scan_at(1) [OF h bigs] and al = big_scan_at(2) [OF h bigs]
  have disj: "{q ..< q + 2 ^ ?o} \<inter> F = {}" by (rule big_frames [OF K(4) b q(1) N(2)])
  from free_pages_ok [of h1, unfolded U(4), OF K(1) q(2,3,4) disj] obtain m where m: "slob_free_pages default_pmm_manager h1 (addr q) ?o = Ret (h1\<lparr>hmem := (hmem h)\<lparr>pmm := m\<rparr>\<rparr>)"
    "frames_ok ((hmem h)\<lparr>pmm := m\<rparr>) ?F" "\<forall>b n. pmm_owned (pmm (hmem h)) b n \<longrightarrow> {b ..< b + unat n} \<inter> ?F = {} \<longrightarrow> pmm_owned m b n" by blast
  let ?h2 = "h1\<lparr>hmem := (hmem h)\<lparr>pmm := m\<rparr>\<rparr>"
  have run: "kfree default_pmm_manager h (Some ?a) = slob_free ?h2 (Some b) BIGBLOCK_SIZE" using scan al m(1) by (simp add: kfree_def h1_def q(1))
  have D: "divided (arena h) (bbs h1) ?F (B \<union> {b ..< b + 8 * 2}) ?hb (xs @ ys)"
    by (rule divided_unbig [OF K(4) [unfolded bigs] K(9) [OF b] nb _ N(2,1) region_big_cong]) (simp_all add: U(2,3) big_bytes_def page_bytes_def q(1))
  have ok2: "heap_ok ?h2 ?F B ?hb (xs @ ys)"
  proof -
    have "divided (arena h) (bbs h1) ?F B ?hb (xs @ ys)" by (rule divided_recut [OF D, of _ _ _ "\<lambda>c. {c}"]) (auto elim!: claim_cases split: if_splits)
    moreover have "slob_mem ?h2 B"
    proof -
      obtain zs where zs: "slob_ring h zs" "B = ring_bytes h zs" using K(3) by (auto simp: slob_mem_def)
      then show ?thesis unfolding slob_mem_def using ring_cong [OF zs(1), of ?h2] U(5-7) by auto
    qed
    moreover have "bchain ?h2 (bigblocks h1) (xs @ ys)" using U(1) bchain_cong [of "xs @ ys" ?h2 h1] by simp
    moreover have "big_ok ((hmem h)\<lparr>pmm := m\<rparr>) (bbs h1 c)" if c: "c \<in> set (xs @ ys)" for c
    proof -
      have "c \<in> set bigs" using c bigs by auto
      from K(10) [OF this] obtain r where r: "bb_pages (bbs h1 c) = addr r" "bb_order (bbs h1 c) < 20" "r + 2 ^ bb_order (bbs h1 c) \<le> unat (npage (hmem h))"
        "pmm_owned (pmm (hmem h)) r (push_bit (bb_order (bbs h1 c)) 1)" unfolding big_ok_def U(2,3) by blast
      have "{r ..< r + 2 ^ bb_order (bbs h1 c)} \<inter> ?F = {}" by (rule big_frames [OF D c r(1)]) (use r(3) N(3) in simp)
      then have "pmm_owned m r (push_bit (bb_order (bbs h1 c)) 1)" using m(3) r(4) unat_push_1 [OF r(2)] by simp
      then show ?thesis unfolding big_ok_def using r(1-3) by auto
    qed
    moreover have "quiet ((hmem h)\<lparr>pmm := m\<rparr>)" using K(2) by (simp add: quiet_def)
    ultimately show ?thesis unfolding heap_ok_def using m(2) K(5,6,8,9) bigs U(5,6) by (auto split: if_splits)
  qed
  have u: "2 = unat (SLOB_UNITS BIGBLOCK_SIZE)" "BIGBLOCK_SIZE \<noteq> 0" by (simp_all add: SLOB_UNITS_def BIGBLOCK_SIZE_def SLOB_UNIT_def unat_div)
  have D2: "divided (arena ?h2) (bbs ?h2) ?F (B \<union> {b ..< b + 8 * 2}) ?hb (xs @ ys)" using D U(5) by simp
  from heap_add [OF ok2 D2 held_out(4) [OF h K(9) [OF b]], of BIGBLOCK_SIZE] u obtain h' where "slob_free ?h2 (Some b) BIGBLOCK_SIZE = Ret h'"
    "heap_ok h' ?F (B \<union> {b ..< b + 8 * 2}) ?hb (xs @ ys)" "same_heap ?h2 h'" by auto
  moreover have "set (xs @ ys) = set bigs - {b}" using nb bigs by auto
  moreover have "whole (bbs h1) ?F (B \<union> {b ..< b + 8 * 2}) ?hb (xs @ ys) = whole (bbs h) F B hb bigs" unfolding bigs
    by (rule whole_unbig) (use K(9) [OF b] nb N(2) in \<open>simp_all add: U(2,3) big_bytes_def page_bytes_def q(1)\<close>)
  ultimately show ?thesis using run q(1) U(2,3) by (intro exI [of _ h'] exI [of _ q] exI [of _ "xs @ ys"]) (simp add: same_heap_def)
qed

end
