(* ===== verification/KernelHeap.thy ===== *)
theory KernelHeap
  imports KHeap
begin

text \<open>
  Clients of the kernel heap: every sequence of \<open>kmalloc\<close> and \<open>kfree\<close> calls that releases only blocks it was given.
  The blocks in use never overlap, every one of them can be released, no memory is lost, and
  a small request is served as long as there is a free page.
\<close>

subsection \<open>Runs\<close>

inductive kheap_run :: "heap \<Rightarrow> heap \<Rightarrow> (nat \<rightharpoonup> u32) \<Rightarrow> bool" for h0 where
  boot: "kheap_run h0 h0 Map.empty"
| got: "kheap_run h0 h lv \<Longrightarrow> 0 < sz \<Longrightarrow> kmalloc default_pmm_manager swap_manager_fifo h sz = Ret (h', Some a) \<Longrightarrow> kheap_run h0 h' (lv(a \<mapsto> sz))"
| refused: "kheap_run h0 h lv \<Longrightarrow> 0 < sz \<Longrightarrow> kmalloc default_pmm_manager swap_manager_fifo h sz = Ret (h', None) \<Longrightarrow> kheap_run h0 h' lv"
| freed: "kheap_run h0 h lv \<Longrightarrow> lv a \<noteq> None \<Longrightarrow> kfree default_pmm_manager h (Some a) = Ret h' \<Longrightarrow> kheap_run h0 h' (lv(a := None))"

text \<open>The bytes of a block: as many as were asked for, or whole pages for a large request.\<close>

definition extent :: "nat \<Rightarrow> u32 \<Rightarrow> nat set" where
  "extent a sz = {a ..< a + (if sz < PAGE_SIZE - SLOB_UNIT then unat sz else 4096 * 2 ^ find_order (sint sz))}"

definition heap_boot :: "heap \<Rightarrow> nat set \<Rightarrow> bool" where
  "heap_boot h F \<longleftrightarrow> (\<exists>s sl bs a. h = heap_start s sl bs a \<and> frames_ok s F \<and> quiet s \<and> (\<forall>p \<in> F. a + 8 < addr p))"

text \<open>Where a block in use lies: behind a header that holds its length, or in the pages of a descriptor.\<close>

definition small_at :: "(nat \<rightharpoonup> nat) \<Rightarrow> nat list \<Rightarrow> nat \<Rightarrow> u32 \<Rightarrow> nat \<Rightarrow> bool" where
  "small_at hb bigs a sz m \<longleftrightarrow> a = m + 8 \<and> hb m = Some ((unat sz + 15) div 8) \<and> m \<notin> set bigs"

definition big_at :: "heap \<Rightarrow> nat list \<Rightarrow> nat \<Rightarrow> u32 \<Rightarrow> nat \<Rightarrow> bool" where
  "big_at h bigs a sz b \<longleftrightarrow> b \<in> set bigs \<and> bb_pages (bbs h b) = a \<and> bb_order (bbs h b) = find_order (sint sz)"

definition placed :: "heap \<Rightarrow> (nat \<rightharpoonup> nat) \<Rightarrow> nat list \<Rightarrow> (nat \<rightharpoonup> u32) \<Rightarrow> bool" where
  "placed h hb bigs lv \<longleftrightarrow> (\<forall>a sz. lv a = Some sz \<longrightarrow> (if sz < PAGE_SIZE - SLOB_UNIT then \<exists>m. small_at hb bigs a sz m else \<exists>b. big_at h bigs a sz b))"

text \<open>Every block of the heap belongs to a block in use, so nothing is held when nothing is in use.\<close>

definition owned_by :: "heap \<Rightarrow> (nat \<rightharpoonup> nat) \<Rightarrow> nat list \<Rightarrow> (nat \<rightharpoonup> u32) \<Rightarrow> bool" where
  "owned_by h hb bigs lv \<longleftrightarrow> (\<forall>m. hb m \<noteq> None \<longrightarrow> (if m \<in> set bigs then lv (bb_pages (bbs h m)) \<noteq> None else lv (m + 8) \<noteq> None))"

definition run_inv :: "nat set \<Rightarrow> heap \<Rightarrow> (nat \<rightharpoonup> u32) \<Rightarrow> nat set \<Rightarrow> nat set \<Rightarrow> (nat \<rightharpoonup> nat) \<Rightarrow> nat list \<Rightarrow> bool" where
  "run_inv W h lv F B hb bigs \<longleftrightarrow> heap_ok h F B hb bigs \<and> placed h hb bigs lv \<and> owned_by h hb bigs lv \<and> whole (bbs h) F B hb bigs = W"

lemma boot_inv:
  assumes "heap_boot h F"
  shows "run_inv (\<Union>p \<in> F. page_bytes p 1) h Map.empty F {} Map.empty []"
proof -
  from assms obtain s sl bs a where h: "h = heap_start s sl bs a" "frames_ok s F" "quiet s" "\<forall>p \<in> F. a + 8 < addr p" by (auto simp: heap_boot_def)
  have "slob_ring h [a]" by (simp add: slob_ring_def h(1) heap_start_def)
  then have "slob_mem h {}" unfolding slob_mem_def by (intro exI [of _ "[a]"]) (simp add: ring_bytes_def h(1) heap_start_def)
  moreover have "divided (arena h) (bbs h) F {} Map.empty []"
  proof -
    have lt: "p < KMEM_PAGES" if "p \<in> F" for p using that h(2) by (auto simp: frames_ok_def)
    then have "p = q" if "p \<in> F" "q \<in> F" "x \<in> page_bytes p 1" "x \<in> page_bytes q 1" for p q x using that pages_apart by blast
    moreover have "a + 8 < x" if "p \<in> F" "x \<in> page_bytes p 1" for p x using that h(4) by (force simp: page_bytes_def)
    moreover have "arena h = a" by (simp add: h(1) heap_start_def)
    ultimately show ?thesis unfolding divided_def disjoint_family_on_def by (auto elim!: claim_cases)
  qed
  ultimately have "heap_ok h F {} Map.empty []" using h(2,3) by (simp add: heap_ok_def h(1) heap_start_def)
  then show ?thesis by (simp add: run_inv_def placed_def owned_by_def whole_eq)
qed



subsection \<open>Every call keeps the invariant\<close>

lemma kmalloc_gap: "\<not> sz < 4080 \<Longrightarrow> sz < PAGE_SIZE - SLOB_UNIT \<Longrightarrow> kmalloc pm sm h sz = Panic"
proof -
  assume sz: "\<not> sz < 4080" "sz < PAGE_SIZE - SLOB_UNIT"
  then have "4080 \<le> unat sz" "unat sz < 4088" by (simp_all add: word_less_nat_alt PAGE_SIZE_def PGSIZE_def SLOB_UNIT_def)
  then have "\<not> sz + SLOB_UNIT + SLOB_UNIT < PAGE_SIZE" by (simp add: word_less_nat_alt PAGE_SIZE_def PGSIZE_def SLOB_UNIT_def unat_word_ariths)
  then show ?thesis using sz(2) by (simp add: kmalloc_def kmalloc_gfp_def slob_alloc_def)
qed

lemma small_inv:
  assumes I: "run_inv W h lv F B hb bigs" and sz: "0 < sz" "sz < 4080" and h': "heap_ok h' F' B' (hb(m \<mapsto> (unat sz + 15) div 8)) bigs" "hb m = None" "same_heap h h'"
    "whole (bbs h) F' B' (hb(m \<mapsto> (unat sz + 15) div 8)) bigs = whole (bbs h) F B hb bigs"
  shows "run_inv W h' (lv(m + 8 \<mapsto> sz)) F' B' (hb(m \<mapsto> (unat sz + 15) div 8)) bigs"
proof -
  note H = I [unfolded run_inv_def]
  have e: "bbs h' = bbs h" using h'(3) by (simp add: same_heap_def)
  have mb: "m \<notin> set bigs" using heap_okD(9) [of h F B hb bigs m] H h'(2) by auto
  have "placed h' (hb(m \<mapsto> (unat sz + 15) div 8)) bigs (lv(m + 8 \<mapsto> sz))"
    unfolding placed_def
  proof (intro allI impI)
    fix a z assume a: "(lv(m + 8 \<mapsto> sz)) a = Some z"
    show "if z < PAGE_SIZE - SLOB_UNIT then \<exists>k. small_at (hb(m \<mapsto> (unat sz + 15) div 8)) bigs a z k else \<exists>b. big_at h' bigs a z b"
    proof (cases "a = m + 8")
      case True
      then show ?thesis using a mb small_size(2) [OF sz] by (auto simp: small_at_def)
    next
      case False
      then have "lv a = Some z" using a by simp
      then have "if z < PAGE_SIZE - SLOB_UNIT then \<exists>k. small_at hb bigs a z k else \<exists>b. big_at h bigs a z b" using H by (simp add: placed_def)
      then show ?thesis using False by (auto simp: small_at_def big_at_def e split: if_splits)
    qed
  qed
  moreover have "owned_by h' (hb(m \<mapsto> (unat sz + 15) div 8)) bigs (lv(m + 8 \<mapsto> sz))" using H mb by (auto simp: owned_by_def e)
  ultimately show ?thesis using H h'(1,4) e by (simp add: run_inv_def)
qed

lemma kmalloc_inv:
  assumes I: "run_inv W h lv F B hb bigs" and sz: "0 < sz" and r: "kmalloc default_pmm_manager swap_manager_fifo h sz = Ret (h', r)"
  shows "\<exists>F' B' hb' bigs'. run_inv W h' (case r of None \<Rightarrow> lv | Some a \<Rightarrow> lv(a \<mapsto> sz)) F' B' hb' bigs'"
proof (cases "sz < PAGE_SIZE - SLOB_UNIT")
  case True
  note H = I [unfolded run_inv_def]
  have s: "sz < 4080" using kmalloc_gap [OF _ True] r by force
  from H have ok: "heap_ok h F B hb bigs" by blast
  from kmalloc_small [OF ok sz s refl] show ?thesis
  proof (elim disjE exE conjE)
    fix h1 m F' B' assume "kmalloc default_pmm_manager swap_manager_fifo h sz = Ret (h1, Some (m + 8))" "hb m = None" "heap_ok h1 F' B' (hb(m \<mapsto> (unat sz + 15) div 8)) bigs" "same_heap h h1"
      "whole (bbs h) F' B' (hb(m \<mapsto> (unat sz + 15) div 8)) bigs = whole (bbs h) F B hb bigs"
    with small_inv [OF I sz s, of h1 F' B' m] r show ?thesis
      by (intro exI [of _ F'] exI [of _ B'] exI [of _ "hb(m \<mapsto> (unat sz + 15) div 8)"] exI [of _ bigs]) auto
  qed (use r I in auto)
next
  case False
  note H = I [unfolded run_inv_def]
  from H have ok: "heap_ok h F B hb bigs" by blast
  note R = kmalloc_big [OF ok False r]
  show ?thesis
  proof (cases r)
    case None
    then obtain F' B' where n: "heap_ok h' F' B' hb bigs" "whole (bbs h') F' B' hb bigs = whole (bbs h) F B hb bigs" "\<forall>c \<in> set bigs. bbs h' c = bbs h c" using R by auto
    have "placed h' hb bigs lv" using H n(3) unfolding placed_def big_at_def by (metis (no_types, lifting))
    moreover have "owned_by h' hb bigs lv" using H n(3) by (auto simp: owned_by_def)
    ultimately have "run_inv W h' lv F' B' hb bigs" using H n by (simp add: run_inv_def)
    then show ?thesis using None by auto
  next
    case (Some a)
    then obtain b F' B' where n: "hb b = None" "heap_ok h' F' B' (hb(b \<mapsto> 2)) (b # bigs)" "whole (bbs h') F' B' (hb(b \<mapsto> 2)) (b # bigs) = whole (bbs h) F B hb bigs"
      "\<forall>c \<in> set bigs. bbs h' c = bbs h c" "bb_pages (bbs h' b) = a" "bb_order (bbs h' b) = find_order (sint sz)" using R by auto
    have "placed h' (hb(b \<mapsto> 2)) (b # bigs) (lv(a \<mapsto> sz))"
      unfolding placed_def
    proof (intro allI impI)
      fix x z assume x: "(lv(a \<mapsto> sz)) x = Some z"
      show "if z < PAGE_SIZE - SLOB_UNIT then \<exists>k. small_at (hb(b \<mapsto> 2)) (b # bigs) x z k else \<exists>c. big_at h' (b # bigs) x z c"
      proof (cases "x = a")
        case True
        then show ?thesis using x n(5,6) False by (auto simp: big_at_def)
      next
        case False
        then have "lv x = Some z" using x by simp
        then have "if z < PAGE_SIZE - SLOB_UNIT then \<exists>k. small_at hb bigs x z k else \<exists>c. big_at h bigs x z c" using H by (simp add: placed_def)
        then show ?thesis using n(1,4) by (auto simp: small_at_def big_at_def split: if_splits) (metis option.distinct(1))
      qed
    qed
    moreover have "owned_by h' (hb(b \<mapsto> 2)) (b # bigs) (lv(a \<mapsto> sz))" using H n(4,5) by (auto simp: owned_by_def)
    ultimately have "run_inv W h' (lv(a \<mapsto> sz)) F' B' (hb(b \<mapsto> 2)) (b # bigs)" using H n(2,3) by (simp add: run_inv_def)
    then show ?thesis unfolding Some option.case by blast
  qed
qed

lemma kfree_inv:
  assumes I: "run_inv W h lv F B hb bigs" and a: "lv a = Some sz"
  shows "\<exists>h' F' B' hb' bigs'. kfree default_pmm_manager h (Some a) = Ret h' \<and> run_inv W h' (lv(a := None)) F' B' hb' bigs'"
proof -
  note H = I [unfolded run_inv_def]
  from H have ok: "heap_ok h F B hb bigs" by blast
  show ?thesis
  proof (cases "sz < PAGE_SIZE - SLOB_UNIT")
    case True
    then obtain m where m: "small_at hb bigs a sz m" using H a unfolding placed_def by presburger
    note M = m [unfolded small_at_def]
    from M have hm: "hb m = Some ((unat sz + 15) div 8)" "m \<notin> set bigs" by auto
    from kfree_small [OF ok hm] obtain h' where h': "kfree default_pmm_manager h (Some (m + 8)) = Ret h'"
      "heap_ok h' F (B \<union> {m ..< m + 8 * ((unat sz + 15) div 8)}) (hb(m := None)) bigs" "same_heap h h'" by blast
    have e: "bbs h' = bbs h" using h'(3) by (simp add: same_heap_def)
    have "placed h' (hb(m := None)) bigs (lv(a := None))" unfolding placed_def
    proof (intro allI impI)
      fix x z assume x: "(lv(a := None)) x = Some z"
      then have "lv x = Some z" "x \<noteq> a" by (auto split: if_splits)
      then have "if z < PAGE_SIZE - SLOB_UNIT then \<exists>k. small_at hb bigs x z k else \<exists>b. big_at h bigs x z b" using H by (simp add: placed_def)
      then show "if z < PAGE_SIZE - SLOB_UNIT then \<exists>k. small_at (hb(m := None)) bigs x z k else \<exists>b. big_at h' bigs x z b"
        using \<open>x \<noteq> a\<close> M by (auto simp: small_at_def big_at_def e split: if_splits)
    qed
    moreover have "owned_by h' (hb(m := None)) bigs (lv(a := None))"
    proof -
      have "bb_pages (bbs h b) \<noteq> a" if "b \<in> set bigs" for b using held_not_big [OF ok hm(1) that] M by simp
      then show ?thesis using H M by (auto simp: owned_by_def e)
    qed
    moreover have "whole (bbs h) F (B \<union> {m ..< m + 8 * ((unat sz + 15) div 8)}) (hb(m := None)) bigs = W" using H whole_give [of hb m "(unat sz + 15) div 8"] hm(1) by simp
    ultimately have "run_inv W h' (lv(a := None)) F (B \<union> {m ..< m + 8 * ((unat sz + 15) div 8)}) (hb(m := None)) bigs" using h'(2) e by (simp add: run_inv_def)
    then show ?thesis using h'(1) M by blast
  next
    case False
    then obtain b where b: "big_at h bigs a sz b" using H a unfolding placed_def by presburger
    then have bs: "b \<in> set bigs" "bb_pages (bbs h b) = a" by (simp_all add: big_at_def)
    from kfree_big [OF ok bs(1)] obtain h' q bigs' where h': "kfree default_pmm_manager h (Some a) = Ret h'" "set bigs' = set bigs - {b}"
      "heap_ok h' (F \<union> {q ..< q + 2 ^ bb_order (bbs h b)}) (B \<union> {b ..< b + 16}) (hb(b := None)) bigs'"
      "whole (bbs h') (F \<union> {q ..< q + 2 ^ bb_order (bbs h b)}) (B \<union> {b ..< b + 16}) (hb(b := None)) bigs' = whole (bbs h) F B hb bigs"
      "\<forall>c. bb_pages (bbs h' c) = bb_pages (bbs h c) \<and> bb_order (bbs h' c) = bb_order (bbs h c)" unfolding bs(2) by blast
    have "placed h' (hb(b := None)) bigs' (lv(a := None))" unfolding placed_def
    proof (intro allI impI)
      fix x z assume x: "(lv(a := None)) x = Some z"
      then have "lv x = Some z" "x \<noteq> a" by (auto split: if_splits)
      then have "if z < PAGE_SIZE - SLOB_UNIT then \<exists>k. small_at hb bigs x z k else \<exists>b. big_at h bigs x z b" using H by (simp add: placed_def)
      then show "if z < PAGE_SIZE - SLOB_UNIT then \<exists>k. small_at (hb(b := None)) bigs' x z k else \<exists>b. big_at h' bigs' x z b"
        using \<open>x \<noteq> a\<close> bs h'(2,5) by (auto simp: small_at_def big_at_def split: if_splits)
    qed
    moreover have "owned_by h' (hb(b := None)) bigs' (lv(a := None))" unfolding owned_by_def
    proof (intro allI impI)
      fix m assume "(hb(b := None)) m \<noteq> None"
      then have m: "m \<noteq> b" "hb m \<noteq> None" by (auto split: if_splits)
      show "if m \<in> set bigs' then (lv(a := None)) (bb_pages (bbs h' m)) \<noteq> None else (lv(a := None)) (m + 8) \<noteq> None"
      proof (cases "m \<in> set bigs")
        case True
        then have "bb_pages (bbs h m) \<noteq> a" using big_inj [OF ok True bs(1)] m(1) bs(2) by auto
        moreover have "lv (bb_pages (bbs h m)) \<noteq> None" using H m(2) True by (simp add: owned_by_def)
        ultimately show ?thesis using True m(1) h'(2,5) by simp
      next
        case mb: False
        obtain n where n: "hb m = Some n" using m(2) by blast
        have l: "lv (m + 8) \<noteq> None" using H m(2) mb by (simp add: owned_by_def)
        have "m + 8 \<noteq> a" using held_not_big [OF ok n bs(1)] bs(2) by simp
        then show ?thesis using l mb h'(2) by auto
      qed
    qed
    ultimately have "run_inv W h' (lv(a := None)) (F \<union> {q ..< q + 2 ^ bb_order (bbs h b)}) (B \<union> {b ..< b + 16}) (hb(b := None)) bigs'" using h'(3,4) H by (simp add: run_inv_def)
    then show ?thesis using h'(1) by blast
  qed
qed

lemma run_keeps:
  assumes "heap_boot h0 F0" "kheap_run h0 h lv"
  shows "\<exists>F B hb bigs. run_inv (\<Union>p \<in> F0. page_bytes p 1) h lv F B hb bigs"
  using assms(2)
proof induction
  case boot
  then show ?case using boot_inv [OF assms(1)] by blast
next
  case (got h lv sz h' a)
  then obtain F B hb bigs where "run_inv (\<Union>p \<in> F0. page_bytes p 1) h lv F B hb bigs" by blast
  from kmalloc_inv [OF this got(2,3)] show ?case unfolding option.case .
next
  case (refused h lv sz h')
  then obtain F B hb bigs where "run_inv (\<Union>p \<in> F0. page_bytes p 1) h lv F B hb bigs" by blast
  from kmalloc_inv [OF this refused(2,3)] show ?case unfolding option.case .
next
  case (freed h lv a h')
  then obtain sz F B hb bigs where "lv a = Some sz" "run_inv (\<Union>p \<in> F0. page_bytes p 1) h lv F B hb bigs" by blast
  from kfree_inv [OF this(2,1)] freed(3) show ?case by (simp del: fun_upd_apply)
qed

lemma kmalloc_fresh:
  assumes I: "run_inv W h lv F B hb bigs" and sz: "0 < sz" and r: "kmalloc default_pmm_manager swap_manager_fifo h sz = Ret (h', Some a)"
  shows "lv a = None"
proof (rule ccontr)
  assume "lv a \<noteq> None"
  then obtain z where z: "lv a = Some z" by blast
  have ok: "heap_ok h F B hb bigs" and p: "placed h hb bigs lv" using I by (simp_all add: run_inv_def)
  from p z have at: "(\<exists>m. small_at hb bigs a z m) \<or> (\<exists>b. big_at h bigs a z b)" unfolding placed_def by metis
  show False
  proof (cases "sz < PAGE_SIZE - SLOB_UNIT")
    case True
    then have "sz < 4080" using kmalloc_gap [OF _ True] r by force
    from kmalloc_small [OF ok sz this refl] r obtain m F' B' where m: "a = m + 8" "hb m = None" "heap_ok h' F' B' (hb(m \<mapsto> (unat sz + 15) div 8)) bigs" "same_heap h h'" by auto
    have "bb_pages (bbs h b) \<noteq> a" if "b \<in> set bigs" for b using held_not_big [OF m(3) _ that, of m] m(1,4) by (simp add: same_heap_def)
    then show False using at m(1,2) by (auto simp: small_at_def big_at_def)
  next
    case False
    from kmalloc_big [OF ok False r] obtain b F' B' where b: "hb b = None" "heap_ok h' F' B' (hb(b \<mapsto> 2)) (b # bigs)" "\<forall>c \<in> set bigs. bbs h' c = bbs h c" "bb_pages (bbs h' b) = a" by auto
    have "m + 8 \<noteq> a" if "hb m = Some n" for m n
    proof -
      have "m \<noteq> b" using that b(1) by auto
      then show ?thesis using held_not_big [OF b(2), of m n b] that b(4) by simp
    qed
    moreover have "bb_pages (bbs h c) \<noteq> a" if "c \<in> set bigs" for c
    proof
      assume "bb_pages (bbs h c) = a"
      then have "b = c" using big_inj [OF b(2), of b c] that b(3,4) by simp
      then show False using that heap_okD(9) [OF ok] b(1) by simp
    qed
    ultimately show False using at by (auto simp: small_at_def big_at_def)
  qed
qed

lemma ksize_at:
  assumes I: "run_inv W h lv F B hb bigs" and a: "lv a = Some sz"
  shows "ksize h (Some a) = Ret (if sz < PAGE_SIZE - SLOB_UNIT then of_nat (8 * ((unat sz + 15) div 8)) else push_bit (find_order (sint sz)) PAGE_SIZE)"
proof -
  have ok: "heap_ok h F B hb bigs" and p: "placed h hb bigs lv" using I by (simp_all add: run_inv_def)
  note K = heap_okD [OF ok]
  show ?thesis
  proof (cases "sz < PAGE_SIZE - SLOB_UNIT")
    case True
    then obtain m where "small_at hb bigs a sz m" using p a unfolding placed_def by presburger
    then have m: "a = m + 8" "hb m = Some ((unat sz + 15) div 8)" "m \<notin> set bigs" by (simp_all add: small_at_def)
    have "\<forall>b \<in> set bigs. bb_pages (bbs h b) \<noteq> m + 8" using held_not_big [OF ok m(2)] by blast
    with scan_none [OF K(7)] obtain l where l: "big_scan h a None (bigblocks h) = Some (l, None)" unfolding m(1) by blast
    have "slob_add a (- 1) = m" by (simp add: slob_add_def m(1))
    moreover have "unt h m = int ((unat sz + 15) div 8)" by (rule K(6) [OF m(2,3)])
    ultimately show ?thesis using True l by (simp add: ksize_def SLOB_UNIT_def mult.commute)
  next
    case False
    then obtain b where "big_at h bigs a sz b" using p a unfolding placed_def by presburger
    then have b: "b \<in> set bigs" "bb_pages (bbs h b) = a" "bb_order (bbs h b) = find_order (sint sz)" by (simp_all add: big_at_def)
    obtain xs ys where "bigs = xs @ b # ys" using b(1) by (meson split_list)
    from big_scan_at [OF ok this] show ?thesis using False b by (auto simp: ksize_def)
  qed
qed

subsection \<open>Properties\<close>

text \<open>The machine with free pages 2 to 6 and the static block of the heap in page 1.\<close>

definition small_heap :: "pmm_state \<Rightarrow> heap" where
  "small_heap m = heap_start (small_mem m) (\<lambda>_. \<lparr>units = 0, slob_next = 0\<rparr>) (\<lambda>_. \<lparr>bb_order = 0, bb_pages = 0, bb_next = None\<rparr>) 0xC0001000"

lemma small_heap_boot:
  obtains m where "default_init_memmap small_machine 2 5 = Ret m" "heap_boot (small_heap m) {2 ..< 7}" "hmem (small_heap m) = small_mem m"
proof -
  obtain m where m: "default_init_memmap small_machine 2 5 = Ret m" "pt_inv pmm_free pmm_owned {2 ..< 7} {0, 1} (\<lambda>_. 0) (small_mem m)" using small_mem_ok by metis
  have "frames_ok (small_mem m) {2 ..< 7}" using m(2) by (auto simp: frames_ok_def pt_inv_def small_mem_def KMEM_PAGES_def)
  moreover have "quiet (small_mem m)" by (simp add: quiet_def small_mem_def)
  moreover have "0xC0001000 + 8 < addr p" if "p \<in> {2 ..< 7}" for p
  proof -
    have "p < KMEM_PAGES" using that by (simp add: KMEM_PAGES_def)
    then show ?thesis using that by (simp add: addr_eq)
  qed
  ultimately have "heap_boot (small_heap m) {2 ..< 7}" unfolding heap_boot_def small_heap_def by blast
  then show ?thesis using that m(1) by (simp add: small_heap_def heap_start_def)
qed

lemma served_inv:
  assumes I: "run_inv W h lv F B hb bigs" and sz: "0 < sz" "sz < 4080" and F: "F \<noteq> {}"
  obtains h' a F' B' hb' where "kmalloc default_pmm_manager swap_manager_fifo h sz = Ret (h', Some a)" "run_inv W h' (lv(a \<mapsto> sz)) F' B' hb' bigs" "F' \<subseteq> F" "card (F - F') \<le> 1"
proof -
  have ok: "heap_ok h F B hb bigs" using I by (simp add: run_inv_def)
  from kmalloc_small [OF ok sz refl] F obtain h' m F' B' where h': "kmalloc default_pmm_manager swap_manager_fifo h sz = Ret (h', Some (m + 8))" "hb m = None" "F' \<subseteq> F" "card (F - F') \<le> 1"
    "heap_ok h' F' B' (hb(m \<mapsto> (unat sz + 15) div 8)) bigs" "same_heap h h'" "whole (bbs h) F' B' (hb(m \<mapsto> (unat sz + 15) div 8)) bigs = whole (bbs h) F B hb bigs" by blast
  with small_inv [OF I sz h'(5,2,6,7)] that show ?thesis by blast
qed

text \<open>Two blocks of 24 and 100 bytes in use.\<close>

lemma small_heap_run:
  obtains m h a h' a' where "default_init_memmap small_machine 2 5 = Ret m" "heap_boot (small_heap m) {2 ..< 7}"
    "kmalloc default_pmm_manager swap_manager_fifo (small_heap m) 24 = Ret (h, Some a)" "kheap_run (small_heap m) h [a \<mapsto> 24]"
    "kmalloc default_pmm_manager swap_manager_fifo h 100 = Ret (h', Some a')" "a \<noteq> a'" "kheap_run (small_heap m) h' [a \<mapsto> 24, a' \<mapsto> 100]"
proof -
  obtain m where m: "default_init_memmap small_machine 2 5 = Ret m" "heap_boot (small_heap m) {2 ..< 7}" using small_heap_boot .
  have z: "0 < (24 :: u32)" "24 < (4080 :: u32)" "0 < (100 :: u32)" "100 < (4080 :: u32)" "{2 ..< 7 :: nat} \<noteq> {}" by simp_all
  obtain h a F B hb where h: "kmalloc default_pmm_manager swap_manager_fifo (small_heap m) 24 = Ret (h, Some a)" "run_inv (\<Union>p \<in> {2 ..< 7}. page_bytes p 1) h [a \<mapsto> 24] F B hb []"
    "F \<subseteq> {2 ..< 7}" "card ({2 ..< 7} - F) \<le> 1" using served_inv [OF boot_inv [OF m(2)] z(1,2,5)] .
  have F: "F \<noteq> {}" using h(4) by auto
  obtain h' a' F' B' hb' where h': "kmalloc default_pmm_manager swap_manager_fifo h 100 = Ret (h', Some a')" "run_inv (\<Union>p \<in> {2 ..< 7}. page_bytes p 1) h' [a \<mapsto> 24, a' \<mapsto> 100] F' B' hb' []"
    using served_inv [OF h(2) z(3,4) F] .
  have r: "kheap_run (small_heap m) h [a \<mapsto> 24]" by (rule kheap_run.got [OF kheap_run.boot _ h(1)]) simp
  have "kheap_run (small_heap m) h' [a \<mapsto> 24, a' \<mapsto> 100]" by (rule kheap_run.got [OF r _ h'(1)]) simp
  moreover have "a \<noteq> a'" using kmalloc_fresh [OF h(2) _ h'(1)] by auto
  ultimately show ?thesis using that m h(1) r h'(1) by blast
qed



text \<open>C13: A request of at most 4079 bytes is served whenever the page allocator has a free page, after any sequence of calls:
  the search of the ring ends and returns a new block.\<close>

theorem kmalloc_small_served:
  assumes "heap_boot h0 F0" "kheap_run h0 h lv" "0 < sz" "sz < 4080" "nr_free_pages default_pmm_manager (hmem h) \<noteq> 0"
  shows "\<exists>h' a. kmalloc default_pmm_manager swap_manager_fifo h sz = Ret (h', Some a) \<and> lv a = None \<and> unat sz = card (extent a sz)"
proof -
  obtain F B hb bigs where I: "run_inv (\<Union>p \<in> F0. page_bytes p 1) h lv F B hb bigs" using run_keeps [OF assms(1,2)] by blast
  then have "pmm_free (pmm (hmem h)) F" by (simp add: run_inv_def heap_ok_def frames_ok_def)
  then have "F \<noteq> {}" using default_pmm.nr_free_contract [of "pmm (hmem h)" F] assms(5) by (auto simp: nr_free_pages_def)
  then obtain h' a where h': "kmalloc default_pmm_manager swap_manager_fifo h sz = Ret (h', Some a)" using served_inv [OF I assms(3,4)] by blast
  then show ?thesis using kmalloc_fresh [OF I assms(3) h'] small_size(2) [OF assms(3,4)] by (simp add: extent_def)
qed

theorem kmalloc_small_served_witness:
  "\<exists>h0 h a. heap_boot h0 {2 ..< 7} \<and> kheap_run h0 h0 Map.empty \<and> kmalloc default_pmm_manager swap_manager_fifo h0 24 = Ret (h, Some a)"
proof -
  obtain m where m: "heap_boot (small_heap m) {2 ..< 7}" "hmem (small_heap m) = small_mem m" using small_heap_boot by metis
  have "pmm_free (pmm (hmem (small_heap m))) {2 ..< 7}" using boot_inv [OF m(1)] by (simp add: run_inv_def heap_ok_def frames_ok_def)
  then have "nr_free_pages default_pmm_manager (hmem (small_heap m)) \<noteq> 0" using default_pmm.nr_free_contract by (simp add: nr_free_pages_def)
  from kmalloc_small_served [OF m(1) kheap_run.boot _ _ this, of 24] show ?thesis using m(1) kheap_run.boot [of "small_heap m"] by auto
qed

text \<open>C12: When every block was released, all the memory of the free pages at boot is in free pages and in the ring of
  free blocks again, and no large block is listed: no call loses memory, not even one that fails half way.\<close>

theorem kmalloc_no_leak:
  assumes "heap_boot h0 F0" "kheap_run h0 h Map.empty"
  shows "bigblocks h = None \<and> (\<exists>F xs. frames_ok (hmem h) F \<and> slob_ring h xs \<and> ring_bytes h xs \<union> (\<Union>p \<in> F. page_bytes p 1) = (\<Union>p \<in> F0. page_bytes p 1))"
proof -
  obtain F B hb bigs where I: "run_inv (\<Union>p \<in> F0. page_bytes p 1) h Map.empty F B hb bigs" using run_keeps [OF assms] by blast
  note H = I [unfolded run_inv_def]
  have "hb m = None" for m using H by (auto simp: owned_by_def split: if_splits)
  then have hb: "hb = Map.empty" by auto
  have ok: "heap_ok h F B hb bigs" using H by blast
  have b: "bigs = []" using heap_okD(9) [OF ok, of "hd bigs"] hb by (cases bigs) auto
  obtain xs where "slob_ring h xs" "B = ring_bytes h xs" using heap_okD(3) [OF ok] by (auto simp: slob_mem_def)
  moreover have "B \<union> (\<Union>p \<in> F. page_bytes p 1) = (\<Union>p \<in> F0. page_bytes p 1)" using H by (simp add: whole_eq hb b)
  moreover have "bigblocks h = None" using heap_okD(7) [OF ok] b by simp
  ultimately show ?thesis using heap_okD(1) [OF ok] by blast
qed

theorem kmalloc_no_leak_witness:
  "\<exists>h0 h1 a h. heap_boot h0 {2 ..< 7} \<and> kmalloc default_pmm_manager swap_manager_fifo h0 24 = Ret (h1, Some a) \<and> kfree default_pmm_manager h1 (Some a) = Ret h \<and> bigblocks h = None"
proof -
  obtain m h1 a where r: "heap_boot (small_heap m) {2 ..< 7}" "kmalloc default_pmm_manager swap_manager_fifo (small_heap m) 24 = Ret (h1, Some a)" "kheap_run (small_heap m) h1 [a \<mapsto> 24]" using small_heap_run by metis
  have l: "[a \<mapsto> 24] a = Some (24 :: u32)" by simp
  from run_keeps [OF r(1,3)] obtain F B hb bigs where "run_inv (\<Union>p \<in> {2 ..< 7}. page_bytes p 1) h1 [a \<mapsto> 24] F B hb bigs" by blast
  from kfree_inv [OF this l] obtain h where h: "kfree default_pmm_manager h1 (Some a) = Ret h" by blast
  have "kheap_run (small_heap m) h ([a \<mapsto> 24](a := None))" by (rule kheap_run.freed [OF r(3) _ h]) simp
  then have "kheap_run (small_heap m) h Map.empty" by simp
  from kmalloc_no_leak [OF r(1) this] show ?thesis using r(1,2) h by blast
qed

text \<open>C38: A request of 4080 to 4087 bytes stops the kernel in every state of the heap: \<open>kmalloc\<close> takes it for a small one
  and the assertion of \<open>slob_alloc\<close> fails.\<close>

theorem kmalloc_gap_panics:
  assumes "4080 \<le> sz" "sz < 4088"
  shows "kmalloc pm sm h sz = Panic"
  by (rule kmalloc_gap) (use assms in \<open>auto simp: PAGE_SIZE_def PGSIZE_def SLOB_UNIT_def\<close>)

theorem kmalloc_gap_panics_witness: "kmalloc default_pmm_manager swap_manager_fifo (small_heap small_machine) 4080 = Panic"
  by (rule kmalloc_gap_panics) simp_all

text \<open>\<open>ksize\<close> of a block in use is its whole pages, or its eight-byte units with those of the header: 8 to 15 bytes more than were asked for.\<close>

theorem ksize_of_live:
  assumes "heap_boot h0 F0" "kheap_run h0 h lv" "lv a = Some sz"
  shows "ksize h (Some a) = Ret (if sz < PAGE_SIZE - SLOB_UNIT then of_nat (8 * ((unat sz + 15) div 8)) else push_bit (find_order (sint sz)) PAGE_SIZE)"
  using run_keeps [OF assms(1,2)] ksize_at assms(3) by blast

theorem ksize_of_live_witness: "\<exists>h0 h a. kheap_run h0 h [a \<mapsto> 24] \<and> ksize h (Some a) = Ret 32"
proof -
  obtain m h a where r: "heap_boot (small_heap m) {2 ..< 7}" "kheap_run (small_heap m) h [a \<mapsto> 24]" using small_heap_run by metis
  have "[a \<mapsto> 24] a = Some (24 :: u32)" by simp
  from ksize_of_live [OF r this] have "ksize h (Some a) = Ret 32" by (simp add: PAGE_SIZE_def PGSIZE_def SLOB_UNIT_def)
  then show ?thesis using r(2) by blast
qed

end
