(* ===== verification/Philosophers.thy ===== *)
theory Philosophers
  imports Sync
begin

text \<open>
  The dining philosophers of \<^verbatim>\<open>kern/sync/check_sync.c\<close> on the semaphores of the kernel: five threads that may be
  interrupted between any two calls. A philosopher's position in its code is a program counter;
  each step of a thread executes its next call.
\<close>

subsection \<open>Data\<close>

definition PHI_N :: nat where "PHI_N = 5"
definition TIMES :: nat where "TIMES = 4"

definition LEFT :: "nat \<Rightarrow> nat" where "LEFT i = (i + PHI_N - 1) mod PHI_N"
definition RIGHT :: "nat \<Rightarrow> nat" where "RIGHT i = (i + 1) mod PHI_N"

definition THINKING :: int where "THINKING = 0"
definition HUNGRY :: int where "HUNGRY = 1"
definition EATING :: int where "EATING = 2"

text \<open>
  The places between the calls of \<open>philosopher_using_semaphore\<close> (\<open>Loop\<close>, \<open>Think\<close>, \<open>Eat\<close>), of
  \<open>phi_take_forks_sema\<close> and of \<open>phi_put_forks_sema\<close>; in a place that ends in \<open>Wait\<close> the thread is inside \<open>down\<close>, behind its
  call of \<open>schedule\<close>.
\<close>

datatype place = Loop | Think | TakeDown | TakeWait | TakeHungry | TakeTest | TakeUp | SelfDown | SelfWait
  | Eat | PutDown | PutWait | PutThink | PutLeft | PutRight | PutUp | Quit

record phi_table =
  ksync :: sync_state
  state_sema :: "nat \<Rightarrow> int"
  pc :: "nat \<Rightarrow> place"
  iter :: "nat \<Rightarrow> nat"

text \<open>Semaphore \<open>i\<close> is \<open>s[i]\<close>; the wait record of thread \<open>i\<close> is record \<open>i\<close>.\<close>

definition phi_mutex :: nat where "phi_mutex = 5"

abbreviation goto :: "nat \<Rightarrow> place \<Rightarrow> phi_table \<Rightarrow> phi_table" where
  "goto i l s \<equiv> s\<lparr>pc := (pc s)(i := l)\<rparr>"

abbreviation set_phi :: "nat \<Rightarrow> int \<Rightarrow> phi_table \<Rightarrow> phi_table" where
  "set_phi i v s \<equiv> s\<lparr>state_sema := (state_sema s)(i := v)\<rparr>"

subsection \<open>Operations\<close>

definition phi_up :: "sched_class \<Rightarrow> phi_table \<Rightarrow> nat \<Rightarrow> phi_table outcome" where
  "phi_up sc s m = bind_outcome (up sc (ksync s) m) (\<lambda>k. Ret (s\<lparr>ksync := k\<rparr>))"

definition phi_down :: "phi_table \<Rightarrow> nat \<Rightarrow> nat \<Rightarrow> place \<Rightarrow> place \<Rightarrow> phi_table outcome" where
  "phi_down s i m taken blocked =
     bind_outcome (down (ksync s) m i) (\<lambda>(k, b). Ret (goto i (if b then taken else blocked) (s\<lparr>ksync := k\<rparr>)))"

definition phi_woken :: "phi_table \<Rightarrow> nat \<Rightarrow> nat \<Rightarrow> place \<Rightarrow> phi_table outcome" where
  "phi_woken s i m taken = bind_outcome (down_return (ksync s) m i) (\<lambda>k. Ret (goto i taken (s\<lparr>ksync := k\<rparr>)))"

definition phi_test_sema :: "sched_class \<Rightarrow> phi_table \<Rightarrow> nat \<Rightarrow> phi_table outcome" where
  "phi_test_sema sc s i =
     (if state_sema s i = HUNGRY \<and> state_sema s (LEFT i) \<noteq> EATING \<and> state_sema s (RIGHT i) \<noteq> EATING
      then phi_up sc (set_phi i EATING s) i else Ret s)"

definition phi_take_forks_sema :: "sched_class \<Rightarrow> phi_table \<Rightarrow> nat \<Rightarrow> phi_table outcome" where
  "phi_take_forks_sema sc s i =
     (case pc s i of
        TakeDown \<Rightarrow> phi_down s i phi_mutex TakeHungry TakeWait
      | TakeWait \<Rightarrow> phi_woken s i phi_mutex TakeHungry
      | TakeHungry \<Rightarrow> Ret (goto i TakeTest (set_phi i HUNGRY s))
      | TakeTest \<Rightarrow> bind_outcome (phi_test_sema sc s i) (\<lambda>s1. Ret (goto i TakeUp s1))
      | TakeUp \<Rightarrow> bind_outcome (phi_up sc s phi_mutex) (\<lambda>s1. Ret (goto i SelfDown s1))
      | SelfDown \<Rightarrow> phi_down s i i Eat SelfWait
      | SelfWait \<Rightarrow> phi_woken s i i Eat
      | _ \<Rightarrow> Ret s)"

definition phi_put_forks_sema :: "sched_class \<Rightarrow> phi_table \<Rightarrow> nat \<Rightarrow> phi_table outcome" where
  "phi_put_forks_sema sc s i =
     (case pc s i of
        PutDown \<Rightarrow> phi_down s i phi_mutex PutThink PutWait
      | PutWait \<Rightarrow> phi_woken s i phi_mutex PutThink
      | PutThink \<Rightarrow> Ret (goto i PutLeft (set_phi i THINKING s))
      | PutLeft \<Rightarrow> bind_outcome (phi_test_sema sc s (LEFT i)) (\<lambda>s1. Ret (goto i PutRight s1))
      | PutRight \<Rightarrow> bind_outcome (phi_test_sema sc s (RIGHT i)) (\<lambda>s1. Ret (goto i PutUp s1))
      | PutUp \<Rightarrow> bind_outcome (phi_up sc s phi_mutex) (\<lambda>s1. Ret (goto i Loop s1))
      | _ \<Rightarrow> Ret s)"

text \<open>In \<open>Think\<close> and \<open>Eat\<close> the thread is in \<open>do_sleep\<close>.\<close>

definition philosopher_using_semaphore :: "sched_class \<Rightarrow> phi_table \<Rightarrow> nat \<Rightarrow> phi_table outcome" where
  "philosopher_using_semaphore sc s i =
     (case pc s i of
        Loop \<Rightarrow> Ret ((goto i (if iter s i < TIMES then Think else Quit) s)\<lparr>iter := (iter s)(i := iter s i + 1)\<rparr>)
      | Think \<Rightarrow> Ret (goto i TakeDown s)
      | Eat \<Rightarrow> Ret (goto i PutDown s)
      | Quit \<Rightarrow> Ret s
      | l \<Rightarrow> if l \<in> {PutDown, PutWait, PutThink, PutLeft, PutRight, PutUp}
              then phi_put_forks_sema sc s i else phi_take_forks_sema sc s i)"

text \<open>The semaphore part of \<open>check_sync\<close>; \<open>state_sema\<close> is static and starts as zero.\<close>

fun phi_sems :: "nat \<Rightarrow> sync_state \<Rightarrow> sync_state" where
  "phi_sems 0 k = sem_init k phi_mutex 1"
| "phi_sems (Suc n) k = sem_init (phi_sems n k) n 0"

definition check_sync :: "sync_state \<Rightarrow> phi_table" where
  "check_sync k = \<lparr>ksync = phi_sems PHI_N k, state_sema = \<lambda>_. 0, pc = \<lambda>_. Loop, iter = \<lambda>_. 0\<rparr>"

subsection \<open>Runs\<close>

text \<open>
  What the rest of the kernel does meanwhile: switches, clock ticks, wake-ups of processes that do not wait for a
  semaphore, the running process going to sleep for another reason, and other processes exiting.
\<close>

inductive kernel_step :: "(nat \<Rightarrow> proc_ptr) \<Rightarrow> sched_class \<Rightarrow> sched_state \<Rightarrow> sched_state \<Rightarrow> bool" for P sc where
  switch: "schedule sc t = Ret t' \<Longrightarrow> kernel_step P sc t t'"
| tick: "kernel_step P sc t (sched_class_proc_tick sc t (current t))"
| wake: "state (procs t p) \<noteq> PROC_ZOMBIE \<Longrightarrow> wait_state (procs t p) \<noteq> WT_KSEM \<Longrightarrow> wakeup_proc sc t p = Ret t' \<Longrightarrow> kernel_step P sc t t'"
| sleep: "state (procs t (current t)) = PROC_RUNNABLE \<Longrightarrow> w \<noteq> WT_KSEM \<Longrightarrow>
    kernel_step P sc t (upd_proc (current t) (\<lambda>x. x\<lparr>state := PROC_SLEEPING, wait_state := w\<rparr>) t)"
| exit: "state (procs t (current t)) = PROC_RUNNABLE \<Longrightarrow> current t \<notin> P ` {..< PHI_N} \<Longrightarrow>
    kernel_step P sc t (upd_proc (current t) (\<lambda>x. x\<lparr>state := PROC_ZOMBIE, exit_code := c\<rparr>) t)"

inductive_cases kernel_stepE: "kernel_step P sc t t'"

definition runs_phi :: "(nat \<Rightarrow> proc_ptr) \<Rightarrow> phi_table \<Rightarrow> nat \<Rightarrow> bool" where
  "runs_phi P s i \<longleftrightarrow> i < PHI_N \<and> current (sched (ksync s)) = P i \<and> state (procs (sched (ksync s)) (P i)) = PROC_RUNNABLE"

inductive phi_run :: "(nat \<Rightarrow> proc_ptr) \<Rightarrow> sched_class \<Rightarrow> phi_table \<Rightarrow> phi_table \<Rightarrow> bool" for P sc s0 where
  start: "phi_run P sc s0 s0"
| thread: "phi_run P sc s0 s \<Longrightarrow> runs_phi P s i \<Longrightarrow> philosopher_using_semaphore sc s i = Ret s' \<Longrightarrow> phi_run P sc s0 s'"
| kernel: "phi_run P sc s0 s \<Longrightarrow> kernel_step P sc (sched (ksync s)) t \<Longrightarrow> phi_run P sc s0 (s\<lparr>ksync := (ksync s)\<lparr>sched := t\<rparr>\<rparr>)"

subsection \<open>The protocol on abstract semaphores\<close>

text \<open>A semaphore is a value and a queue of threads.\<close>

record atable =
  sems :: "nat \<Rightarrow> int \<times> nat list"
  ast :: "nat \<Rightarrow> int"
  apc :: "nat \<Rightarrow> place"

abbreviation agoto :: "nat \<Rightarrow> place \<Rightarrow> atable \<Rightarrow> atable" where
  "agoto i l a \<equiv> a\<lparr>apc := (apc a)(i := l)\<rparr>"

abbreviation aset :: "nat \<Rightarrow> int \<Rightarrow> atable \<Rightarrow> atable" where
  "aset i v a \<equiv> a\<lparr>ast := (ast a)(i := v)\<rparr>"

definition aup :: "nat \<Rightarrow> atable \<Rightarrow> atable" where
  "aup m a = a\<lparr>sems := (sems a)(m := abs_up m (sems a m))\<rparr>"

definition adown :: "nat \<Rightarrow> nat \<Rightarrow> place \<Rightarrow> place \<Rightarrow> atable \<Rightarrow> atable" where
  "adown i m taken blocked a =
     agoto i (if snd (abs_down i (sems a m)) then taken else blocked) (a\<lparr>sems := (sems a)(m := fst (abs_down i (sems a m)))\<rparr>)"

definition atest :: "nat \<Rightarrow> atable \<Rightarrow> atable" where
  "atest j a = (if ast a j = HUNGRY \<and> ast a (LEFT j) \<noteq> EATING \<and> ast a (RIGHT j) \<noteq> EATING then aup j (aset j EATING a) else a)"

definition astep :: "nat \<Rightarrow> atable \<Rightarrow> bool \<Rightarrow> atable" where
  "astep i a again =
     (case apc a i of
        Loop \<Rightarrow> agoto i (if again then Think else Quit) a
      | Think \<Rightarrow> agoto i TakeDown a
      | TakeDown \<Rightarrow> adown i phi_mutex TakeHungry TakeWait a
      | TakeWait \<Rightarrow> agoto i TakeHungry a
      | TakeHungry \<Rightarrow> agoto i TakeTest (aset i HUNGRY a)
      | TakeTest \<Rightarrow> agoto i TakeUp (atest i a)
      | TakeUp \<Rightarrow> agoto i SelfDown (aup phi_mutex a)
      | SelfDown \<Rightarrow> adown i i Eat SelfWait a
      | SelfWait \<Rightarrow> agoto i Eat a
      | Eat \<Rightarrow> agoto i PutDown a
      | PutDown \<Rightarrow> adown i phi_mutex PutThink PutWait a
      | PutWait \<Rightarrow> agoto i PutThink a
      | PutThink \<Rightarrow> agoto i PutLeft (aset i THINKING a)
      | PutLeft \<Rightarrow> agoto i PutRight (atest (LEFT i) a)
      | PutRight \<Rightarrow> agoto i PutUp (atest (RIGHT i) a)
      | PutUp \<Rightarrow> agoto i Loop (aup phi_mutex a)
      | Quit \<Rightarrow> a)"

text \<open>A thread that \<open>up\<close> has taken off the queue of the mutex holds the mutex already.\<close>

definition crit :: "place set" where "crit = {TakeHungry, TakeTest, TakeUp, PutThink, PutLeft, PutRight, PutUp}"
definition blocked :: "place set" where "blocked = {TakeWait, PutWait}"

definition inside :: "atable \<Rightarrow> nat \<Rightarrow> bool" where
  "inside a i \<longleftrightarrow> apc a i \<in> crit \<or> apc a i \<in> blocked \<and> i \<notin> set (snd (sems a phi_mutex))"

fun place_state :: "place \<Rightarrow> int set" where
  "place_state TakeTest = {HUNGRY, EATING}"
| "place_state TakeUp = {HUNGRY, EATING}"
| "place_state SelfDown = {HUNGRY, EATING}"
| "place_state SelfWait = {HUNGRY, EATING}"
| "place_state Eat = {EATING}"
| "place_state PutDown = {EATING}"
| "place_state PutWait = {EATING}"
| "place_state PutThink = {EATING}"
| "place_state l = {THINKING}"

definition mutex_inv :: "atable \<Rightarrow> bool" where
  "mutex_inv a \<longleftrightarrow> distinct (snd (sems a phi_mutex)) \<and> (\<forall>i \<in> set (snd (sems a phi_mutex)). i < PHI_N \<and> apc a i \<in> blocked) \<and>
     fst (sems a phi_mutex) = (if \<exists>i < PHI_N. inside a i then 0 else 1) \<and>
     (fst (sems a phi_mutex) = 1 \<longrightarrow> snd (sems a phi_mutex) = []) \<and>
     (\<forall>i < PHI_N. \<forall>j < PHI_N. inside a i \<longrightarrow> inside a j \<longrightarrow> i = j)"

definition self_inv :: "atable \<Rightarrow> nat \<Rightarrow> bool" where
  "self_inv a i \<longleftrightarrow> ast a i \<in> place_state (apc a i) \<and>
     sems a i = (if ast a i = EATING \<and> apc a i \<in> {TakeTest, TakeUp, SelfDown} then 1 else 0, if ast a i = HUNGRY \<and> apc a i = SelfWait then [i] else [])"

definition forks_inv :: "atable \<Rightarrow> bool" where
  "forks_inv a \<longleftrightarrow> (\<forall>i < PHI_N. \<not> (ast a i = EATING \<and> ast a (RIGHT i) = EATING))"

text \<open>A hungry philosopher has an eating neighbour, or one that is about to test it.\<close>

definition served_inv :: "atable \<Rightarrow> bool" where
  "served_inv a \<longleftrightarrow> (\<forall>i < PHI_N. ast a i = HUNGRY \<longrightarrow> apc a i \<in> {TakeUp, SelfDown, SelfWait} \<longrightarrow>
     ast a (LEFT i) = EATING \<or> ast a (RIGHT i) = EATING \<or> apc a (LEFT i) \<in> {PutLeft, PutRight} \<or> apc a (RIGHT i) = PutLeft)"

definition ainv :: "atable \<Rightarrow> bool" where
  "ainv a \<longleftrightarrow> mutex_inv a \<and> (\<forall>i < PHI_N. self_inv a i) \<and> forks_inv a \<and> served_inv a"

definition aqueued :: "atable \<Rightarrow> nat \<Rightarrow> bool" where
  "aqueued a i \<longleftrightarrow> (\<exists>m \<le> phi_mutex. i \<in> set (snd (sems a m)))"

lemma sides:
  assumes "i < PHI_N"
  shows "LEFT i < PHI_N" "RIGHT i < PHI_N" "LEFT i \<noteq> i" "RIGHT i \<noteq> i" "LEFT (RIGHT i) = i" "RIGHT (LEFT i) = i" "LEFT i \<noteq> RIGHT i" "i \<noteq> phi_mutex"
proof -
  have "i = 0 \<or> i = 1 \<or> i = 2 \<or> i = 3 \<or> i = 4" using assms by (auto simp: PHI_N_def)
  then show "LEFT i < PHI_N" "RIGHT i < PHI_N" "LEFT i \<noteq> i" "RIGHT i \<noteq> i" "LEFT (RIGHT i) = i" "RIGHT (LEFT i) = i" "LEFT i \<noteq> RIGHT i" "i \<noteq> phi_mutex"
    by (auto simp: PHI_N_def LEFT_def RIGHT_def phi_mutex_def)
qed

lemma sides_eq: "i < PHI_N \<Longrightarrow> j < PHI_N \<Longrightarrow> LEFT i = j \<longleftrightarrow> i = RIGHT j"
  using sides by metis

lemma state_values [simp]: "HUNGRY \<noteq> EATING" "THINKING \<noteq> EATING" "THINKING \<noteq> HUNGRY" "EATING \<noteq> HUNGRY" "EATING \<noteq> THINKING" "HUNGRY \<noteq> THINKING"
  by (simp_all add: THINKING_def HUNGRY_def EATING_def)

lemma places: "crit \<inter> blocked = {}" "l \<in> crit \<Longrightarrow> l \<notin> blocked" "l \<in> blocked \<Longrightarrow> l \<notin> crit"
  by (auto simp: crit_def blocked_def)

lemma mutexD:
  assumes "mutex_inv a"
  shows "distinct (snd (sems a phi_mutex))" "i \<in> set (snd (sems a phi_mutex)) \<Longrightarrow> i < PHI_N" "i \<in> set (snd (sems a phi_mutex)) \<Longrightarrow> apc a i \<in> blocked"
    "fst (sems a phi_mutex) = (if \<exists>i < PHI_N. inside a i then 0 else 1)" "fst (sems a phi_mutex) = 1 \<Longrightarrow> snd (sems a phi_mutex) = []"
    "i < PHI_N \<Longrightarrow> j < PHI_N \<Longrightarrow> inside a i \<Longrightarrow> inside a j \<Longrightarrow> i = j"
  using assms unfolding mutex_inv_def by blast+

lemma mutexI:
  assumes "distinct (snd (sems a phi_mutex))" "\<And>i. i \<in> set (snd (sems a phi_mutex)) \<Longrightarrow> i < PHI_N \<and> apc a i \<in> blocked"
    "fst (sems a phi_mutex) = (if \<exists>i < PHI_N. inside a i then 0 else 1)" "fst (sems a phi_mutex) = 1 \<Longrightarrow> snd (sems a phi_mutex) = []"
    "\<And>i j. i < PHI_N \<Longrightarrow> j < PHI_N \<Longrightarrow> inside a i \<Longrightarrow> inside a j \<Longrightarrow> i = j"
  shows "mutex_inv a"
  using assms unfolding mutex_inv_def by blast

lemma mutex_move:
  assumes m: "mutex_inv a" and e: "sems a' phi_mutex = sems a phi_mutex" "\<And>j. j \<noteq> i \<Longrightarrow> apc a' j = apc a j" "inside a' i = inside a i" "i \<notin> set (snd (sems a phi_mutex))"
  shows "mutex_inv a'"
proof -
  have ins: "inside a' j = inside a j" for j using e by (cases "j = i") (auto simp: inside_def)
  have q: "apc a' j = apc a j" if "j \<in> set (snd (sems a phi_mutex))" for j using e(2) [of j] e(4) that by blast
  note M = mutexD [OF m]
  show ?thesis by (rule mutexI, unfold e(1) ins) (fact M(1), use M(2,3) q in simp, fact M(4), fact M(5), fact M(6))
qed

lemma mutex_down:
  assumes m: "mutex_inv a" and i: "i < PHI_N" "\<not> inside a i" "i \<notin> set (snd (sems a phi_mutex))" "t \<in> crit" "b \<in> blocked"
  shows "mutex_inv (adown i phi_mutex t b a)"
proof -
  define c where "c = adown i phi_mutex t b a"
  note M = mutexD [OF m]
  show ?thesis
  proof (cases "fst (sems a phi_mutex) > 0")
    case True
    then have no: "\<forall>j < PHI_N. \<not> inside a j" using M(4) by (simp split: if_splits)
    then have v: "fst (sems a phi_mutex) = 1" "snd (sems a phi_mutex) = []" using M(4,5) by simp_all
    then have e: "sems c phi_mutex = (0, [])" "apc c = (apc a)(i := t)" by (simp_all add: c_def adown_def abs_down_def)
    have ins: "inside c j \<longleftrightarrow> j = i" if "j < PHI_N" for j using that no v i(4) by (cases "j = i") (simp_all add: inside_def e)
    have "\<exists>j < PHI_N. inside c j" using ins i(1) by blast
    then show ?thesis unfolding c_def [symmetric] by (intro mutexI) (simp_all add: e ins)
  next
    case False
    then have f0: "fst (sems a phi_mutex) = 0" using M(4) by (metis zero_less_one)
    from False have e: "snd (sems c phi_mutex) = snd (sems a phi_mutex) @ [i]" "fst (sems c phi_mutex) = fst (sems a phi_mutex)" "apc c = (apc a)(i := b)" by (simp_all add: c_def adown_def abs_down_def)
    have ins: "inside c j = inside a j" for j using i(2,5) places(3) [of b] by (cases "j = i") (simp_all add: inside_def e)
    have "j < PHI_N \<and> ((apc a)(i := b)) j \<in> blocked" if "j \<in> set (snd (sems a phi_mutex) @ [i])" for j using that i(1,5) M(2,3) [of j] by (cases "j = i") simp_all
    moreover have "distinct (snd (sems a phi_mutex) @ [i])" using M(1) i(3) by simp
    moreover have "fst (sems c phi_mutex) = (if \<exists>i < PHI_N. inside c i then 0 else 1)" using M(4) by (simp only: e ins)
    ultimately show ?thesis unfolding c_def [symmetric] using M(6) f0 by (intro mutexI) (simp_all only: e ins zero_neq_one)
  qed
qed

lemma mutex_up:
  assumes m: "mutex_inv a" and i: "i < PHI_N" "apc a i \<in> crit" "l \<notin> crit \<union> blocked"
  shows "mutex_inv (agoto i l (aup phi_mutex a))"
proof -
  define c where "c = agoto i l (aup phi_mutex a)"
  note M = mutexD [OF m]
  have ii: "inside a i" using i(2) by (simp add: inside_def)
  then have v: "fst (sems a phi_mutex) = 0" using M(4) i(1) by auto
  have un: "j = i" if "inside a j" "j < PHI_N" for j using M(6) [of j i] that ii i(1) by blast
  have iq: "i \<notin> set (snd (sems a phi_mutex))" using M(3) [of i] places(2) [OF i(2)] by blast
  have pc: "apc c = (apc a)(i := l)" by (simp add: c_def aup_def)
  show ?thesis
  proof (cases "snd (sems a phi_mutex)")
    case Nil
    then have e: "sems c phi_mutex = (1, [])" using v by (simp add: c_def aup_def abs_up_def)
    have "\<not> inside c j" if "j < PHI_N" for j using un [of j] that i(3) Nil unfolding inside_def pc e by (cases "j = i") auto
    then show ?thesis unfolding c_def [symmetric] by (intro mutexI) (auto simp: e)
  next
    case (Cons w ws)
    then have e: "sems c phi_mutex = (0, ws)" using v by (simp add: c_def aup_def abs_up_def)
    have w: "w < PHI_N" "apc a w \<in> blocked" "w \<notin> set ws" "distinct ws" using M(1,2,3) Cons by simp_all
    have wi: "w \<noteq> i" "i \<notin> set ws" using iq Cons by simp_all
    have ins: "inside c j \<longleftrightarrow> j = w" if j: "j < PHI_N" for j
    proof -
      consider "j = i" | "j = w" | "j \<noteq> i" "j \<noteq> w" by blast
      then show ?thesis
      proof cases
        case 1
        then show ?thesis using wi i(3) by (simp add: inside_def pc)
      next
        case 2
        then show ?thesis unfolding inside_def pc e using w wi by simp
      next
        case 3
        then have "\<not> inside a j" using un [of j] j by blast
        then show ?thesis using 3 Cons unfolding inside_def pc e by simp
      qed
    qed
    have "j < PHI_N \<and> apc c j \<in> blocked" if "j \<in> set ws" for j using that wi(2) M(2,3) [of j] Cons by (auto simp: pc)
    moreover have "(\<exists>j < PHI_N. inside c j)" using ins [OF w(1)] w(1) by blast
    ultimately show ?thesis unfolding c_def [symmetric] by (intro mutexI) (simp_all add: e w(4) ins)
  qed
qed

lemma self_other: "self_inv a j \<Longrightarrow> sems a' j = sems a j \<Longrightarrow> ast a' j = ast a j \<Longrightarrow> apc a' j = apc a j \<Longrightarrow> self_inv a' j"
  by (simp add: self_inv_def)

lemma atest_cases:
  obtains "atest j a = a" "ast a j = HUNGRY \<Longrightarrow> ast a (LEFT j) = EATING \<or> ast a (RIGHT j) = EATING"
  | "atest j a = aup j (aset j EATING a)" "ast a j = HUNGRY" "ast a (LEFT j) \<noteq> EATING" "ast a (RIGHT j) \<noteq> EATING"
  by (cases "ast a j = HUNGRY \<and> ast a (LEFT j) \<noteq> EATING \<and> ast a (RIGHT j) \<noteq> EATING") (auto simp: atest_def)

lemma atest_inv:
  assumes I: "ainv a" and j: "j < PHI_N"
  defines "b \<equiv> atest j a"
  shows "apc b = apc a" "sems b phi_mutex = sems a phi_mutex" "\<forall>k < PHI_N. self_inv b k" "forks_inv b" "served_inv b"
    "ast b j = HUNGRY \<Longrightarrow> ast b (LEFT j) = EATING \<or> ast b (RIGHT j) = EATING" "k \<noteq> j \<Longrightarrow> ast b k = ast a k"
proof -
  note A = I [unfolded ainv_def]
  have jm: "j \<noteq> phi_mutex" using sides(8) [OF j] .
  have "apc b = apc a \<and> sems b phi_mutex = sems a phi_mutex \<and> (\<forall>k < PHI_N. self_inv b k) \<and> forks_inv b \<and> served_inv b \<and>
    (ast b j = HUNGRY \<longrightarrow> ast b (LEFT j) = EATING \<or> ast b (RIGHT j) = EATING) \<and> (\<forall>k. k \<noteq> j \<longrightarrow> ast b k = ast a k)"
  proof (cases rule: atest_cases [of j a])
    case 1
    then show ?thesis using A by (simp add: b_def)
  next
    case 2
    have b: "b = aup j (aset j EATING a)" using 2(1) by (simp add: b_def)
    have sb: "sems b = (sems a)(j := abs_up j (sems a j))" "ast b = (ast a)(j := EATING)" "apc b = apc a" by (simp_all add: b aup_def)
    have "self_inv b j" using A j 2(2) by (auto simp: self_inv_def sb abs_up_def split: if_splits place.splits) (cases "apc a j"; auto)+
    then have "\<forall>k < PHI_N. self_inv b k" using A self_other [of a _ b] sb by (metis fun_upd_other)
    moreover have "forks_inv b" unfolding forks_inv_def sb
    proof (intro allI impI)
      fix k assume k: "k < PHI_N"
      have "k = LEFT j" if "RIGHT k = j" using sides(5) [OF k] that by metis
      then show "\<not> (((ast a)(j := EATING)) k = EATING \<and> ((ast a)(j := EATING)) (RIGHT k) = EATING)"
        using A 2(3,4) k sides(4) [OF k] by (auto simp: forks_inv_def)
    qed
    moreover have "served_inv b" using A by (auto simp: served_inv_def sb)
    ultimately show ?thesis using jm by (auto simp: sb)
  qed
  then show "apc b = apc a" "sems b phi_mutex = sems a phi_mutex" "\<forall>k < PHI_N. self_inv b k" "forks_inv b" "served_inv b"
    "ast b j = HUNGRY \<Longrightarrow> ast b (LEFT j) = EATING \<or> ast b (RIGHT j) = EATING" "k \<noteq> j \<Longrightarrow> ast b k = ast a k" by auto
qed

definition same_but :: "nat \<Rightarrow> atable \<Rightarrow> atable \<Rightarrow> bool" where
  "same_but i a a' \<longleftrightarrow> (\<forall>j. j \<noteq> i \<longrightarrow> ast a' j = ast a j \<and> apc a' j = apc a j \<and> (j \<noteq> phi_mutex \<longrightarrow> sems a' j = sems a j))"

lemma self_all:
  assumes "\<forall>k < PHI_N. self_inv a k" "same_but i a a'" "self_inv a' i"
  shows "\<forall>k < PHI_N. self_inv a' k"
proof (intro allI impI)
  fix k assume k: "k < PHI_N"
  show "self_inv a' k"
  proof (cases "k = i")
    case False
    then show ?thesis using assms(1,2) k sides(8) [OF k] self_other [of a k a'] by (simp add: same_but_def)
  qed (simp add: assms(3))
qed

lemma forks_set:
  assumes "forks_inv a" "same_but i a a'" "ast a' i = EATING \<Longrightarrow> ast a i = EATING"
  shows "forks_inv a'"
proof -
  have "ast a' j = EATING \<Longrightarrow> ast a j = EATING" for j using assms(2,3) by (cases "j = i") (auto simp: same_but_def)
  then show ?thesis using assms(1) unfolding forks_inv_def by blast
qed

lemma served_move:
  assumes s: "served_inv a" "same_but i a a'" and i: "i < PHI_N"
    and r: "\<And>k. k < PHI_N \<Longrightarrow> LEFT k = i \<Longrightarrow> ast a k = HUNGRY \<Longrightarrow> apc a k \<in> {TakeUp, SelfDown, SelfWait} \<Longrightarrow> ast a i = EATING \<or> apc a i \<in> {PutLeft, PutRight} \<Longrightarrow>
        ast a' i = EATING \<or> apc a' i \<in> {PutLeft, PutRight} \<or> ast a (RIGHT k) = EATING"
    and l: "\<And>k. k < PHI_N \<Longrightarrow> RIGHT k = i \<Longrightarrow> ast a k = HUNGRY \<Longrightarrow> apc a k \<in> {TakeUp, SelfDown, SelfWait} \<Longrightarrow> ast a i = EATING \<or> apc a i = PutLeft \<Longrightarrow>
        ast a' i = EATING \<or> apc a' i = PutLeft \<or> ast a (LEFT k) = EATING"
    and own: "ast a' i = HUNGRY \<Longrightarrow> apc a' i \<in> {TakeUp, SelfDown, SelfWait} \<Longrightarrow>
        ast a i = HUNGRY \<and> apc a i \<in> {TakeUp, SelfDown, SelfWait} \<or> ast a (LEFT i) = EATING \<or> ast a (RIGHT i) = EATING"
  shows "served_inv a'"
  unfolding served_inv_def
proof (intro allI impI)
  fix k assume k: "k < PHI_N" "ast a' k = HUNGRY" "apc a' k \<in> {TakeUp, SelfDown, SelfWait}"
  have e: "ast a' j = ast a j" "apc a' j = apc a j" if "j \<noteq> i" for j using s(2) that by (simp_all add: same_but_def)
  note S = s(1) [unfolded served_inv_def, rule_format]
  show "ast a' (LEFT k) = EATING \<or> ast a' (RIGHT k) = EATING \<or> apc a' (LEFT k) \<in> {PutLeft, PutRight} \<or> apc a' (RIGHT k) = PutLeft"
  proof (cases "k = i")
    case True
    then have n: "LEFT k \<noteq> i" "RIGHT k \<noteq> i" using sides [OF i] by auto
    have "ast a (LEFT k) = EATING \<or> ast a (RIGHT k) = EATING \<or> apc a (LEFT k) \<in> {PutLeft, PutRight} \<or> apc a (RIGHT k) = PutLeft"
      using own [OF k(2,3) [unfolded True]] S [OF i] True by blast
    then show ?thesis using e n by simp
  next
    case False
    then have h: "ast a k = HUNGRY" "apc a k \<in> {TakeUp, SelfDown, SelfWait}" using k e by auto
    note D = S [OF k(1) h]
    have lr: "LEFT k \<noteq> RIGHT k" by (rule sides(7) [OF k(1)])
    consider "LEFT k = i" | "RIGHT k = i" | "LEFT k \<noteq> i" "RIGHT k \<noteq> i" by blast
    then show ?thesis
    proof cases
      case 1
      then show ?thesis using D r [OF k(1) 1 h] e [of "RIGHT k"] lr by auto
    next
      case 2
      then show ?thesis using D l [OF k(1) 2 h] e [of "LEFT k"] lr by auto
    next
      case 3
      then show ?thesis using D e by simp
    qed
  qed
qed

lemma ainvI: "mutex_inv a \<Longrightarrow> \<forall>k < PHI_N. self_inv a k \<Longrightarrow> forks_inv a \<Longrightarrow> served_inv a \<Longrightarrow> ainv a"
  by (simp add: ainv_def)

text \<open>Steps that test nobody.\<close>

lemma plain_inv:
  assumes I: "ainv a" and i: "i < PHI_N" and b: "same_but i a a'" "mutex_inv a'" "self_inv a' i" "apc a i \<notin> {PutLeft, PutRight}"
    and e: "ast a i = EATING \<Longrightarrow> ast a' i = EATING \<or> apc a' i = PutLeft" "ast a' i = EATING \<Longrightarrow> ast a i = EATING"
    and w: "ast a' i = HUNGRY \<Longrightarrow> apc a' i \<in> {TakeUp, SelfDown, SelfWait} \<Longrightarrow> ast a i = HUNGRY \<and> apc a i \<in> {TakeUp, SelfDown, SelfWait}"
  shows "ainv a'"
proof (rule ainvI)
  note A = I [unfolded ainv_def]
  show "mutex_inv a'" by (rule b(2))
  show "\<forall>k < PHI_N. self_inv a' k" using self_all [OF _ b(1,3)] A by blast
  show "forks_inv a'" using forks_set [OF _ b(1) e(2)] A by blast
  show "served_inv a'" by (rule served_move [OF _ b(1) i]) (use A b(4) e(1) w in auto)
qed

lemma test_inv:
  assumes I: "ainv a" and i: "i < PHI_N" and st: "(apc a i, j, l) \<in> {(TakeTest, i, TakeUp), (PutLeft, LEFT i, PutRight), (PutRight, RIGHT i, PutUp)}"
  shows "ainv (agoto i l (atest j a))"
proof (rule ainvI)
  note A = I [unfolded ainv_def]
  define b where "b = atest j a"
  let ?b = "agoto i l b"
  have j: "j < PHI_N" using st i sides [OF i] by auto
  note T = atest_inv [OF I j, folded b_def]
  have sb: "same_but i b ?b" by (simp add: same_but_def)
  have pc: "apc a i \<in> crit" "l \<in> crit" using st by (auto simp: crit_def)
  have mb: "mutex_inv b" by (rule mutex_move [of a _ i]) (use A T(1,2) mutexD(3) [of a i] places(2) [OF pc(1)] in \<open>auto simp: inside_def\<close>)
  have iq: "i \<notin> set (snd (sems b phi_mutex))" using mutexD(3) [OF mb, of i] places(2) [OF pc(1)] T(1) by auto
  show "mutex_inv (agoto i l (atest j a))" unfolding b_def [symmetric]
    by (rule mutex_move [OF mb, of _ i]) (use pc T(1) iq in \<open>auto simp: inside_def\<close>)
  have "self_inv b i" using T(3) i by blast
  then have "self_inv ?b i" using st T(1) by (auto simp: self_inv_def)
  then show "\<forall>k < PHI_N. self_inv (agoto i l (atest j a)) k" unfolding b_def [symmetric] using self_all [OF T(3) sb] by blast
  show "forks_inv (agoto i l (atest j a))" unfolding b_def [symmetric] by (rule forks_set [OF T(4) sb]) simp
  have j6: "ast b (LEFT j) = EATING \<or> ast b (RIGHT j) = EATING" if "ast b j = HUNGRY" using T(6) that .
  show "served_inv (agoto i l (atest j a))" unfolding b_def [symmetric]
  proof (rule served_move [OF T(5) sb i])
    fix k assume k: "k < PHI_N" "LEFT k = i" "ast b k = HUNGRY" "ast b i = EATING \<or> apc b i \<in> {PutLeft, PutRight}"
    have "k = RIGHT i" using sides(6) [OF k(1)] k(2) by simp
    then show "ast ?b i = EATING \<or> apc ?b i \<in> {PutLeft, PutRight} \<or> ast b (RIGHT k) = EATING" using st k j6 T(1) by auto
  next
    fix k assume k: "k < PHI_N" "RIGHT k = i" "ast b k = HUNGRY" "ast b i = EATING \<or> apc b i = PutLeft"
    have "k = LEFT i" using sides(5) [OF k(1)] k(2) by simp
    then show "ast ?b i = EATING \<or> apc ?b i = PutLeft \<or> ast b (LEFT k) = EATING" using st k j6 T(1) by auto
  next
    assume "ast ?b i = HUNGRY" "apc ?b i \<in> {TakeUp, SelfDown, SelfWait}"
    then show "ast b i = HUNGRY \<and> apc b i \<in> {TakeUp, SelfDown, SelfWait} \<or> ast b (LEFT i) = EATING \<or> ast b (RIGHT i) = EATING" using st j6 T(1) by auto
  qed
qed

lemma plain_move:
  assumes I: "ainv a" and i: "i < PHI_N" "i \<notin> set (snd (sems a phi_mutex))" and v: "v = ast a i \<or> (apc a i, l, v) \<in> {(TakeHungry, TakeTest, HUNGRY), (PutThink, PutLeft, THINKING)}"
    and l: "(apc a i, l) \<in> {(Loop, Think), (Loop, Quit), (Think, TakeDown), (TakeWait, TakeHungry), (TakeHungry, TakeTest), (SelfWait, Eat), (Eat, PutDown), (PutWait, PutThink), (PutThink, PutLeft)}"
    and s: "apc a i = SelfWait \<Longrightarrow> ast a i = EATING" and vv: "apc a i = TakeHungry \<Longrightarrow> v = HUNGRY" "apc a i = PutThink \<Longrightarrow> v = THINKING"
  shows "ainv (agoto i l (aset i v a))"
proof (rule plain_inv [OF I i(1)])
  let ?a = "agoto i l (aset i v a)"
  have A: "mutex_inv a" "self_inv a i" using I i by (auto simp: ainv_def)
  show "same_but i a ?a" by (simp add: same_but_def)
  show "mutex_inv ?a" by (rule mutex_move [OF A(1), of _ i]) (use l i(2) in \<open>auto simp: inside_def crit_def blocked_def\<close>)
  show "self_inv ?a i" using A(2) l v s vv by (elim insertE emptyE) (auto simp: self_inv_def)
  show "apc a i \<notin> {PutLeft, PutRight}" using l by auto
  show "ast a i = EATING \<Longrightarrow> ast ?a i = EATING \<or> apc ?a i = PutLeft" "ast ?a i = EATING \<Longrightarrow> ast a i = EATING" using v l A(2) by (auto simp: self_inv_def)
  show "ast a i = HUNGRY \<and> apc a i \<in> {TakeUp, SelfDown, SelfWait}" if "ast ?a i = HUNGRY" "apc ?a i \<in> {TakeUp, SelfDown, SelfWait}" using that l by auto
qed

lemma mutex_down_inv:
  assumes I: "ainv a" and i: "i < PHI_N" "i \<notin> set (snd (sems a phi_mutex))" and l: "(apc a i, t, b) \<in> {(TakeDown, TakeHungry, TakeWait), (PutDown, PutThink, PutWait)}"
  shows "ainv (adown i phi_mutex t b a)"
proof (rule plain_inv [OF I i(1)])
  let ?a = "adown i phi_mutex t b a"
  have A: "mutex_inv a" "self_inv a i" using I i by (auto simp: ainv_def)
  have im: "i \<noteq> phi_mutex" by (rule sides(8) [OF i(1)])
  show "same_but i a ?a" by (simp add: same_but_def adown_def)
  show "mutex_inv ?a" by (rule mutex_down [OF A(1) i(1) _ i(2)]) (use l in \<open>auto simp: inside_def crit_def blocked_def\<close>)
  show "self_inv ?a i" using A(2) l im by (auto simp: self_inv_def adown_def)
  show "apc a i \<notin> {PutLeft, PutRight}" using l by auto
  show "ast a i = EATING \<Longrightarrow> ast ?a i = EATING \<or> apc ?a i = PutLeft" "ast ?a i = EATING \<Longrightarrow> ast a i = EATING" by (simp_all add: adown_def)
  show "ast a i = HUNGRY \<and> apc a i \<in> {TakeUp, SelfDown, SelfWait}" if "ast ?a i = HUNGRY" "apc ?a i \<in> {TakeUp, SelfDown, SelfWait}" using that l by (auto simp: adown_def split: if_splits)
qed

lemma mutex_up_inv:
  assumes I: "ainv a" and i: "i < PHI_N" and l: "(apc a i, l) \<in> {(TakeUp, SelfDown), (PutUp, Loop)}"
  shows "ainv (agoto i l (aup phi_mutex a))"
proof (rule plain_inv [OF I i])
  let ?a = "agoto i l (aup phi_mutex a)"
  have A: "mutex_inv a" "self_inv a i" using I i by (auto simp: ainv_def)
  have im: "i \<noteq> phi_mutex" by (rule sides(8) [OF i(1)])
  show "same_but i a ?a" by (simp add: same_but_def aup_def)
  show "mutex_inv ?a" by (rule mutex_up [OF A(1) i]) (use l in \<open>auto simp: crit_def blocked_def\<close>)
  show "self_inv ?a i" using A(2) l im by (auto simp: self_inv_def aup_def)
  show "apc a i \<notin> {PutLeft, PutRight}" using l by auto
  show "ast a i = EATING \<Longrightarrow> ast ?a i = EATING \<or> apc ?a i = PutLeft" "ast ?a i = EATING \<Longrightarrow> ast a i = EATING" by (simp_all add: aup_def)
  show "ast a i = HUNGRY \<and> apc a i \<in> {TakeUp, SelfDown, SelfWait}" if "ast ?a i = HUNGRY" "apc ?a i \<in> {TakeUp, SelfDown, SelfWait}" using that l by (auto simp: aup_def split: if_splits)
qed

lemma self_down_inv:
  assumes I: "ainv a" and i: "i < PHI_N" "i \<notin> set (snd (sems a phi_mutex))" and l: "apc a i = SelfDown"
  shows "ainv (adown i i Eat SelfWait a)"
proof (rule plain_inv [OF I i(1)])
  let ?a = "adown i i Eat SelfWait a"
  have A: "mutex_inv a" "self_inv a i" using I i by (auto simp: ainv_def)
  have im: "i \<noteq> phi_mutex" "phi_mutex \<noteq> i" using sides(8) [OF i(1)] by auto
  show "same_but i a ?a" by (simp add: same_but_def adown_def)
  show "mutex_inv ?a" by (rule mutex_move [OF A(1), of _ i]) (use l i(2) im in \<open>auto simp: inside_def crit_def blocked_def adown_def\<close>)
  have v: "ast a i = EATING \<and> sems a i = (1, []) \<or> ast a i = HUNGRY \<and> sems a i = (0, [])" using A(2) l by (auto simp: self_inv_def split: if_splits)
  then show "self_inv ?a i" using l by (elim disjE) (simp_all add: self_inv_def adown_def abs_down_def)
  show "apc a i \<notin> {PutLeft, PutRight}" using l by auto
  show "ast a i = EATING \<Longrightarrow> ast ?a i = EATING \<or> apc ?a i = PutLeft" "ast ?a i = EATING \<Longrightarrow> ast a i = EATING" by (simp_all add: adown_def)
  show "ast a i = HUNGRY \<and> apc a i \<in> {TakeUp, SelfDown, SelfWait}" if "ast ?a i = HUNGRY" "apc ?a i \<in> {TakeUp, SelfDown, SelfWait}" using that l by (simp add: adown_def)
qed

lemma astep_inv:
  assumes I: "ainv a" and i: "i < PHI_N" "\<not> aqueued a i"
  shows "ainv (astep i a again)"
proof -
  have A: "self_inv a i" using I i by (auto simp: ainv_def)
  have q: "i \<notin> set (snd (sems a phi_mutex))" "i \<notin> set (snd (sems a i))" using i(2) sides(8) [OF i(1)] i(1) by (auto simp: aqueued_def phi_mutex_def PHI_N_def)
  have w: "ast a i = EATING" if "apc a i = SelfWait" using A q(2) that by (auto simp: self_inv_def split: if_splits)
  note P = plain_move [OF I i(1) q(1)] and T = test_inv [OF I i(1)] and D = mutex_down_inv [OF I i(1) q(1)] and U = mutex_up_inv [OF I i(1)]
  have keep: "aset i (ast a i) a = a" by simp
  show ?thesis
  proof (cases "apc a i")
    case Loop
    then show ?thesis using P [of "ast a i" "if again then Think else Quit", unfolded keep] by (simp add: astep_def split: if_splits)
  next
    case Think
    then show ?thesis using P [of "ast a i" TakeDown, unfolded keep] by (simp add: astep_def)
  next
    case TakeDown
    then show ?thesis using D [of TakeHungry TakeWait] by (simp add: astep_def)
  next
    case TakeWait
    then show ?thesis using P [of "ast a i" TakeHungry, unfolded keep] by (simp add: astep_def)
  next
    case TakeHungry
    then show ?thesis using P [of HUNGRY TakeTest] by (simp add: astep_def)
  next
    case TakeTest
    then show ?thesis using T [of i TakeUp] by (simp add: astep_def)
  next
    case TakeUp
    then show ?thesis using U [of SelfDown] by (simp add: astep_def)
  next
    case SelfDown
    then show ?thesis using self_down_inv [OF I i(1) q(1)] by (simp add: astep_def)
  next
    case SelfWait
    then show ?thesis using P [of "ast a i" Eat, unfolded keep] w by (simp add: astep_def)
  next
    case Eat
    then show ?thesis using P [of "ast a i" PutDown, unfolded keep] by (simp add: astep_def)
  next
    case PutDown
    then show ?thesis using D [of PutThink PutWait] by (simp add: astep_def)
  next
    case PutWait
    then show ?thesis using P [of "ast a i" PutThink, unfolded keep] by (simp add: astep_def)
  next
    case PutThink
    then show ?thesis using P [of THINKING PutLeft] by (simp add: astep_def)
  next
    case PutLeft
    then show ?thesis using T [of "LEFT i" PutRight] by (simp add: astep_def)
  next
    case PutRight
    then show ?thesis using T [of "RIGHT i" PutUp] by (simp add: astep_def)
  next
    case PutUp
    then show ?thesis using U [of Loop] by (simp add: astep_def)
  next
    case Quit
    then show ?thesis using I by (simp add: astep_def)
  qed
qed

lemma no_deadlock:
  assumes I: "ainv a" and i: "i < PHI_N" "aqueued a i"
  shows "\<exists>j < PHI_N. \<not> aqueued a j \<and> apc a j \<noteq> Quit"
proof -
  have M: "mutex_inv a" using I by (simp add: ainv_def)
  have self: "self_inv a j" if "j < PHI_N" for j using I that by (simp add: ainv_def)
  have le: "m < PHI_N \<or> m = phi_mutex" if "m \<le> phi_mutex" for m using that by (auto simp: phi_mutex_def PHI_N_def)
  have at_self: "k = j \<and> apc a j = SelfWait \<and> ast a j = HUNGRY" if "k < PHI_N" "j \<in> set (snd (sems a k))" for j k using self [OF that(1)] that(2) by (auto simp: self_inv_def split: if_splits)
  have mine: "aqueued a j \<longleftrightarrow> j \<in> set (snd (sems a phi_mutex))" if "apc a j \<noteq> SelfWait \<or> ast a j \<noteq> HUNGRY" for j
    using le at_self that by (auto simp: aqueued_def)
  have mutex: ?thesis if ne: "snd (sems a phi_mutex) \<noteq> []"
  proof -
    have "fst (sems a phi_mutex) \<noteq> 1" using mutexD(5) [OF M] ne by blast
    then obtain j where j: "j < PHI_N" "inside a j" using mutexD(4) [OF M] by (metis (full_types))
    then have "apc a j \<in> crit \<union> blocked" by (auto simp: inside_def)
    then have "apc a j \<noteq> SelfWait" "apc a j \<noteq> Quit" by (auto simp: crit_def blocked_def)
    moreover have "j \<notin> set (snd (sems a phi_mutex))" using j mutexD(3) [OF M, of j] places(2) by (auto simp: inside_def)
    ultimately show ?thesis using mine j(1) by blast
  qed
  show ?thesis
  proof (cases "snd (sems a phi_mutex) = []")
    case True
    have free: "\<not> aqueued a j" if "apc a j \<noteq> SelfWait \<or> ast a j \<noteq> HUNGRY" for j using mine [OF that] True by simp
    have ih: "apc a i = SelfWait" "ast a i = HUNGRY" using i(2) free by blast+
    then have "ast a (LEFT i) = EATING \<or> ast a (RIGHT i) = EATING \<or> apc a (LEFT i) \<in> {PutLeft, PutRight} \<or> apc a (RIGHT i) = PutLeft"
      using I i(1) by (auto simp: ainv_def served_inv_def)
    then obtain j where j: "j < PHI_N" "ast a j = EATING \<or> apc a j \<in> {PutLeft, PutRight}" using sides(1,2) [OF i(1)] by blast
    have "apc a j \<noteq> Quit" using self [OF j(1)] j(2) by (auto simp: self_inv_def)
    moreover have "\<not> aqueued a j" by (rule free) (use j(2) in auto)
    ultimately show ?thesis using j(1) by blast
  qed (rule mutex)
qed

lemma eat_apart: "ainv a \<Longrightarrow> i < PHI_N \<Longrightarrow> \<not> (apc a i = Eat \<and> apc a (RIGHT i) = Eat)"
  using sides(2) [of i] by (auto simp: ainv_def self_inv_def forks_inv_def) (metis place_state.simps(5) singletonD)

subsection \<open>The threads follow the protocol\<close>

definition view :: "phi_table \<Rightarrow> (nat \<Rightarrow> nat list) \<Rightarrow> atable" where
  "view s A = \<lparr>sems = \<lambda>m. (sem_value (ksync s) m, A m), ast = state_sema s, apc = pc s\<rparr>"

text \<open>The wait record of a thread inside \<open>down\<close>: queued, or taken off its queue with the right flags.\<close>

definition waiting_ok :: "(nat \<Rightarrow> proc_ptr) \<Rightarrow> phi_table \<Rightarrow> (nat \<Rightarrow> nat list) \<Rightarrow> bool" where
  "waiting_ok P s A \<longleftrightarrow> (\<forall>i. (\<exists>m \<le> phi_mutex. i \<in> set (A m)) \<longrightarrow> pc s i \<in> {TakeWait, PutWait, SelfWait}) \<and>
     (\<forall>i < PHI_N. pc s i \<in> {TakeWait, PutWait, SelfWait} \<longrightarrow> wait_proc (waits (ksync s) i) = Some (P i) \<and>
       ((\<forall>m \<le> phi_mutex. i \<notin> set (A m)) \<longrightarrow> list_empty (wait_links (ksync s)) (WLink i) \<and> wakeup_flags (waits (ksync s) i) = WT_KSEM))"

definition table_inv :: "(sched_state \<Rightarrow> proc_ptr set \<Rightarrow> bool) \<Rightarrow> (nat \<Rightarrow> proc_ptr) \<Rightarrow> phi_table \<Rightarrow> (nat \<Rightarrow> nat list) \<Rightarrow> bool" where
  "table_inv holds P s A \<longleftrightarrow> sync_ok {..phi_mutex} (ksync s) A \<and> holds (sched (ksync s)) (ready (sched (ksync s))) \<and> waiting_ok P s A"

lemma waiting_okD:
  assumes "waiting_ok P s A"
  shows "m \<le> phi_mutex \<Longrightarrow> i \<in> set (A m) \<Longrightarrow> pc s i \<in> {TakeWait, PutWait, SelfWait}"
    "i < PHI_N \<Longrightarrow> pc s i \<in> {TakeWait, PutWait, SelfWait} \<Longrightarrow> wait_proc (waits (ksync s) i) = Some (P i)"
    "i < PHI_N \<Longrightarrow> pc s i \<in> {TakeWait, PutWait, SelfWait} \<Longrightarrow> (\<And>m. m \<le> phi_mutex \<Longrightarrow> i \<notin> set (A m)) \<Longrightarrow>
       list_empty (wait_links (ksync s)) (WLink i) \<and> wakeup_flags (waits (ksync s) i) = WT_KSEM"
  using assms unfolding waiting_ok_def by blast+

context sched_class_contract
begin

lemma up_frame:
  assumes ok: "sync_ok S s A" and m: "m \<in> S" and u: "up sc s m = Ret s'"
  shows "wait_proc (waits s' v) = wait_proc (waits s v)" "v \<notin> set (A m) \<Longrightarrow> waits s' v = waits s v"
    "v \<notin> set (A m) \<Longrightarrow> list_empty (wait_links s') (WLink v) = list_empty (wait_links s) (WLink v)"
proof -
  have "wait_proc (waits s' v) = wait_proc (waits s v) \<and> (v \<notin> set (A m) \<longrightarrow> waits s' v = waits s v \<and>
      list_empty (wait_links s') (WLink v) = list_empty (wait_links s) (WLink v))"
  proof (cases "A m")
    case Nil
    then show ?thesis using u first_waiter [OF ok m] by (auto simp: up_def up_with_def)
  next
    case (Cons w ws)
    note d = sync_okD(1) [OF ok m, unfolded Cons list.map]
    from u Cons first_waiter [OF ok m] obtain t where s': "s' = s\<lparr>wait_links := list_del_init (wait_links s) (WLink w), waits := (waits s)(w := (waits s w)\<lparr>wakeup_flags := WT_KSEM\<rparr>), sched := t\<rparr>"
      by (auto simp: up_def up_with_def wakeup_wait_def wait_queue_del_def split: option.splits)
    have "list_empty (wait_links s') (WLink v) = list_empty (wait_links s) (WLink v)" if "v \<notin> set (A m)"
    proof -
      have "WLink v \<notin> insert (QHead m) (set ([] @ WLink w # map WLink ws))" using that Cons by auto
      then have "le_next (list_del_init (wait_links s) (WLink w)) (WLink v) = le_next (wait_links s) (WLink v)" using list_del_init_other(1) [of "wait_links s" "QHead m" "[]"] d by simp
      then show ?thesis by (simp add: s' list_empty_def list_next_def)
    qed
    then show ?thesis using Cons by (auto simp: s')
  qed
  then show "wait_proc (waits s' v) = wait_proc (waits s v)" "v \<notin> set (A m) \<Longrightarrow> waits s' v = waits s v"
    "v \<notin> set (A m) \<Longrightarrow> list_empty (wait_links s') (WLink v) = list_empty (wait_links s) (WLink v)" by auto
qed

lemma down_frame:
  assumes ok: "sync_ok S s A" and m: "m \<in> S" and u: "down s m w = Ret (s', b)" and w: "w \<notin> set (A m)"
  shows "v \<noteq> w \<Longrightarrow> waits s' v = waits s v" "v \<noteq> w \<Longrightarrow> v \<notin> set (A m) \<Longrightarrow> list_empty (wait_links s') (WLink v) = list_empty (wait_links s) (WLink v)"
    "\<not> b \<Longrightarrow> wait_proc (waits s' w) = Some (current (sched s))"
proof -
  have "(v \<noteq> w \<longrightarrow> waits s' v = waits s v) \<and> (v \<noteq> w \<longrightarrow> v \<notin> set (A m) \<longrightarrow> list_empty (wait_links s') (WLink v) = list_empty (wait_links s) (WLink v)) \<and>
      (\<not> b \<longrightarrow> wait_proc (waits s' w) = Some (current (sched s)))"
  proof (cases "sem_value s m > 0")
    case True
    then show ?thesis using u by (auto simp: down_def down_enter_def)
  next
    case False
    let ?h1 = "list_init (wait_links s) (WLink w)"
    from u False have s': "wait_links s' = list_add_before ?h1 (QHead m) (WLink w)" "\<forall>v. v \<noteq> w \<longrightarrow> waits s' v = waits s v" "wait_proc (waits s' w) = Some (current (sched s))"
      by (auto simp: down_def down_enter_def wait_current_set_def wait_init_def wait_queue_add_def)
    have d: "dlist ?h1 (QHead m) (map WLink (A m))" by (rule dlist_frame [OF sync_okD(1) [OF ok m]]) (use w in \<open>auto simp: list_init_def\<close>)
    have "list_empty (wait_links s') (WLink v) = list_empty (wait_links s) (WLink v)" if "v \<noteq> w" "v \<notin> set (A m)"
    proof -
      have "WLink v \<notin> insert (WLink w) (insert (QHead m) (set (map WLink (A m))))" using that by auto
      then have "le_next (wait_links s') (WLink v) = le_next ?h1 (WLink v)" unfolding s'(1) by (rule list_add_before_other(1) [OF d])
      then show ?thesis using that by (simp add: list_empty_def list_next_def list_init_def)
    qed
    then show ?thesis using s'(2,3) by blast
  qed
  then show "v \<noteq> w \<Longrightarrow> waits s' v = waits s v" "v \<noteq> w \<Longrightarrow> v \<notin> set (A m) \<Longrightarrow> list_empty (wait_links s') (WLink v) = list_empty (wait_links s) (WLink v)"
    "\<not> b \<Longrightarrow> wait_proc (waits s' w) = Some (current (sched s))" by auto
qed

lemma goto_inv:
  assumes "table_inv holds P s A" "\<And>m. m \<le> phi_mutex \<Longrightarrow> i \<notin> set (A m)" "l \<notin> {TakeWait, PutWait, SelfWait}"
  shows "table_inv holds P (s\<lparr>state_sema := f, pc := (pc s)(i := l), iter := n\<rparr>) A"
  using assms unfolding table_inv_def waiting_ok_def by auto

lemma phi_up_ok:
  assumes T: "table_inv holds P s A" and m: "m \<le> phi_mutex"
  shows "\<exists>s' A'. phi_up sc s m = Ret s' \<and> table_inv holds P s' A' \<and> view s' A' = aup m (view s A) \<and> pc s' = pc s \<and> iter s' = iter s \<and>
     (\<forall>k. set (A' k) \<subseteq> set (A k))"
proof -
  have ok: "sync_ok {..phi_mutex} (ksync s) A" and inv: "holds (sched (ksync s)) (ready (sched (ksync s)))" and W: "waiting_ok P s A" using T by (simp_all add: table_inv_def)
  have mS: "m \<in> {..phi_mutex}" using m by simp
  let ?q = "abs_up m (sem_value (ksync s) m, A m)"
  from up_spec [OF ok mS inv] obtain k where k: "up sc (ksync s) m = Ret k" "holds (sched k) (ready (sched k))" "sem_value k = (sem_value (ksync s))(m := fst ?q)" "sync_ok {..phi_mutex} k (A(m := snd ?q))"
    "\<And>w ws. A m = w # ws \<Longrightarrow> list_empty (wait_links k) (WLink w) \<and> wakeup_flags (waits k w) = WT_KSEM" by (auto simp: Let_def)
  note F = up_frame [OF ok mS k(1)]
  let ?s = "s\<lparr>ksync := k\<rparr>" and ?A = "A(m := snd ?q)"
  have sub: "set (?A j) \<subseteq> set (A j)" for j by (auto simp: abs_up_def split: list.splits)
  have "waiting_ok P ?s ?A" unfolding waiting_ok_def
  proof (intro conjI allI impI)
    fix i assume "\<exists>j \<le> phi_mutex. i \<in> set (?A j)"
    then obtain j where "j \<le> phi_mutex" "i \<in> set (A j)" using sub by blast
    then show "pc ?s i \<in> {TakeWait, PutWait, SelfWait}" using waiting_okD(1) [OF W] by simp
  next
    fix i assume i: "i < PHI_N" "pc ?s i \<in> {TakeWait, PutWait, SelfWait}"
    show "wait_proc (waits (ksync ?s) i) = Some (P i)" using waiting_okD(2) [OF W i(1)] i(2) F(1) by simp
    assume q: "\<forall>j \<le> phi_mutex. i \<notin> set (?A j)"
    have "list_empty (wait_links k) (WLink i) \<and> wakeup_flags (waits k i) = WT_KSEM"
    proof (cases "i \<in> set (A m)")
      case True
      then obtain w ws where c: "A m = w # ws" by (cases "A m") auto
      then have "i \<notin> set ws" using q m by (auto simp: abs_up_def)
      then have "i = w" using True c by simp
      then show ?thesis using k(5) [OF c] by simp
    next
      case False
      have "i \<notin> set (A j)" if "j \<le> phi_mutex" for j using q that False by (cases "j = m") auto
      then show ?thesis using waiting_okD(3) [OF W i(1)] i(2) F(2,3) [OF False] by simp
    qed
    then show "list_empty (wait_links (ksync ?s)) (WLink i)" "wakeup_flags (waits (ksync ?s) i) = WT_KSEM" by simp_all
  qed
  then have "table_inv holds P ?s ?A" using k(2,4) by (simp add: table_inv_def)
  moreover have "view ?s ?A = aup m (view s A)" by (auto simp: view_def aup_def k(3))
  moreover have "phi_up sc s m = Ret ?s" using k(1) by (simp add: phi_up_def)
  ultimately show ?thesis using sub by (intro exI [of _ ?s] exI [of _ ?A]) simp
qed

lemma phi_down_ok:
  assumes T: "table_inv holds P s A" and m: "m \<le> phi_mutex" and i: "runs_phi P s i" "\<And>m. m \<le> phi_mutex \<Longrightarrow> i \<notin> set (A m)"
    and l: "taken \<notin> {TakeWait, PutWait, SelfWait}" "asleep \<in> {TakeWait, PutWait, SelfWait}"
  shows "\<exists>s' A'. phi_down s i m taken asleep = Ret s' \<and> table_inv holds P s' A' \<and> view s' A' = adown i m taken asleep (view s A) \<and> iter s' = iter s"
proof -
  have ok: "sync_ok {..phi_mutex} (ksync s) A" and inv: "holds (sched (ksync s)) (ready (sched (ksync s)))" and W: "waiting_ok P s A" using T by (simp_all add: table_inv_def)
  have mS: "m \<in> {..phi_mutex}" using m by simp
  have run: "state (procs (sched (ksync s)) (current (sched (ksync s)))) = PROC_RUNNABLE" "current (sched (ksync s)) = P i" "i < PHI_N" using i(1) by (auto simp: runs_phi_def)
  have w: "\<forall>j \<in> {..phi_mutex}. i \<notin> set (A j)" using i(2) by simp
  let ?q = "fst (abs_down i (sem_value (ksync s) m, A m))" and ?b = "snd (abs_down i (sem_value (ksync s) m, A m))"
  from down_spec [OF ok mS inv run(1) w] obtain k where k: "down (ksync s) m i = Ret (k, ?b)" "holds (sched k) (ready (sched k))" "sem_value k = (sem_value (ksync s))(m := fst ?q)" "sync_ok {..phi_mutex} k (A(m := snd ?q))"
    by (cases "abs_down i (sem_value (ksync s) m, A m)") auto
  note F = down_frame [OF ok mS k(1) i(2) [OF m]]
  define s' where "s' = goto i (if ?b then taken else asleep) (s\<lparr>ksync := k\<rparr>)"
  let ?A = "A(m := snd ?q)"
  have add: "set (?A j) \<subseteq> insert i (set (A j))" "set (A j) \<subseteq> set (?A j)" for j by (auto simp: abs_down_def)
  have "i \<in> set (?A m)" if "\<not> ?b" using that by (auto simp: abs_down_def split: if_splits)
  then have "waiting_ok P s' ?A" unfolding waiting_ok_def
  proof (intro conjI allI impI)
    fix j assume "\<exists>n \<le> phi_mutex. j \<in> set (?A n)"
    then obtain n where n: "n \<le> phi_mutex" "j \<in> set (?A n)" by blast
    show "pc s' j \<in> {TakeWait, PutWait, SelfWait}"
    proof (cases "j = i")
      case True
      then have "i \<in> set (?A n)" using n by simp
      then have "\<not> ?b" using i(2) [OF n(1)] i(2) [OF m] by (auto simp: abs_down_def split: if_splits)
      then show ?thesis using True l(2) by (simp add: s'_def)
    next
      case False
      then have "j \<in> set (A n)" using add(1) [of n] n(2) by blast
      then show ?thesis using waiting_okD(1) [OF W n(1)] False by (simp add: s'_def)
    qed
  next
    fix j assume j: "j < PHI_N" "pc s' j \<in> {TakeWait, PutWait, SelfWait}"
    show "wait_proc (waits (ksync s') j) = Some (P j)"
    proof (cases "j = i")
      case True
      then have "\<not> ?b" using j(2) l(1) by (auto simp: s'_def split: if_splits)
      then show ?thesis using F(3) run(2) True by (simp add: s'_def)
    next
      case False
      then show ?thesis using F(1) [of j] waiting_okD(2) [OF W j(1)] j(2) by (simp add: s'_def)
    qed
    assume q: "\<forall>n \<le> phi_mutex. j \<notin> set (?A n)"
    have ji: "j \<noteq> i"
    proof
      assume "j = i"
      then have "\<not> ?b" using j(2) l(1) by (auto simp: s'_def split: if_splits)
      then have "i \<in> set (?A m)" by (auto simp: abs_down_def split: if_splits)
      then show False using q m \<open>j = i\<close> by blast
    qed
    have qA: "j \<notin> set (A n)" if "n \<le> phi_mutex" for n using q that add(2) by blast
    then have "list_empty (wait_links (ksync s)) (WLink j) \<and> wakeup_flags (waits (ksync s) j) = WT_KSEM" using waiting_okD(3) [OF W j(1)] j(2) ji by (simp add: s'_def)
    then show "list_empty (wait_links (ksync s')) (WLink j)" "wakeup_flags (waits (ksync s') j) = WT_KSEM" using F(1,2) [OF ji] qA [OF m] by (simp_all add: s'_def)
  qed
  then have "table_inv holds P s' ?A" using k(2,4) by (simp add: table_inv_def s'_def)
  moreover have "view s' ?A = adown i m taken asleep (view s A)" by (auto simp: view_def adown_def k(3) s'_def)
  moreover have "phi_down s i m taken asleep = Ret s'" using k(1) by (simp add: phi_down_def s'_def)
  ultimately show ?thesis by (intro exI [of _ s'] exI [of _ ?A]) (simp add: s'_def)
qed

lemma phi_woken_ok:
  assumes T: "table_inv holds P s A" and i: "i < PHI_N" "pc s i \<in> {TakeWait, PutWait, SelfWait}" "\<And>m. m \<le> phi_mutex \<Longrightarrow> i \<notin> set (A m)" and l: "taken \<notin> {TakeWait, PutWait, SelfWait}"
  shows "phi_woken s i m taken = Ret (goto i taken s) \<and> table_inv holds P (goto i taken s) A"
proof -
  have "waiting_ok P s A" using T by (simp add: table_inv_def)
  from waiting_okD(3) [OF this i] have "down_return (ksync s) m i = Ret (ksync s)" using down_return_woken by blast
  moreover have "table_inv holds P (goto i taken s) A" using goto_inv [OF T i(3) l, where f = "state_sema s" and n = "iter s"] by simp
  ultimately show ?thesis by (simp add: phi_woken_def)
qed

lemma running_free:
  assumes T: "table_inv holds P s A" and i: "runs_phi P s i" and m: "m \<le> phi_mutex"
  shows "i \<notin> set (A m)"
proof
  assume im: "i \<in> set (A m)"
  have W: "waiting_ok P s A" and ok: "sync_ok {..phi_mutex} (ksync s) A" using T by (simp_all add: table_inv_def)
  have "i < PHI_N" using i by (simp add: runs_phi_def)
  with waiting_okD(1,2) [OF W] m im have "wait_proc (waits (ksync s) i) = Some (P i)" by blast
  then have "state (procs (sched (ksync s)) (P i)) = PROC_SLEEPING" using sync_okD(4) [OF ok, of m i] m im by (auto simp: waiter_ok_def)
  then show False using i by (simp add: runs_phi_def)
qed

lemma phi_test_ok:
  assumes T: "table_inv holds P s A" and j: "j < PHI_N"
  shows "\<exists>s' A'. phi_test_sema sc s j = Ret s' \<and> table_inv holds P s' A' \<and> view s' A' = atest j (view s A) \<and> pc s' = pc s \<and> iter s' = iter s \<and>
     (\<forall>k. set (A' k) \<subseteq> set (A k))"
proof (cases "state_sema s j = HUNGRY \<and> state_sema s (LEFT j) \<noteq> EATING \<and> state_sema s (RIGHT j) \<noteq> EATING")
  case True
  have "table_inv holds P (set_phi j EATING s) A" using T by (simp add: table_inv_def waiting_ok_def)
  moreover have "view (set_phi j EATING s) A = aset j EATING (view s A)" by (simp add: view_def)
  moreover have "j \<le> phi_mutex" using j by (simp add: PHI_N_def phi_mutex_def)
  ultimately show ?thesis using phi_up_ok [of P "set_phi j EATING s" A j] True by (auto simp: phi_test_sema_def atest_def view_def)
next
  case False
  then show ?thesis using T by (intro exI [of _ s] exI [of _ A]) (auto simp: phi_test_sema_def atest_def view_def)
qed

lemma view_goto: "view (goto i l s) A = agoto i l (view s A)" "view (set_phi i v s) A = aset i v (view s A)" "view (s\<lparr>iter := n\<rparr>) A = view s A"
  "apc (view s A) = pc s" "ast (view s A) = state_sema s" "sems (view s A) m = (sem_value (ksync s) m, A m)"
  by (simp_all add: view_def)

lemma thread_ok:
  assumes T: "table_inv holds P s A" and i: "runs_phi P s i"
  shows "\<exists>s' A'. philosopher_using_semaphore sc s i = Ret s' \<and> table_inv holds P s' A' \<and> view s' A' = astep i (view s A) (iter s i < TIMES)"
proof -
  have iN: "i < PHI_N" using i by (simp add: runs_phi_def)
  then have im: "i \<le> phi_mutex" and sd: "LEFT i < PHI_N" "RIGHT i < PHI_N" using sides(1,2) by (simp_all add: PHI_N_def phi_mutex_def)
  note q = running_free [OF T i]
  have plain: "\<exists>s' A'. Ret (s\<lparr>state_sema := f, pc := (pc s)(i := l), iter := n\<rparr>) = Ret s' \<and> table_inv holds P s' A' \<and> view s' A' = (view s A)\<lparr>ast := f, apc := (pc s)(i := l)\<rparr>"
    if "l \<notin> {TakeWait, PutWait, SelfWait}" for l f n
    using goto_inv [OF T q that, where f = f and n = n] by (intro exI [of _ "s\<lparr>state_sema := f, pc := (pc s)(i := l), iter := n\<rparr>"] exI [of _ A]) (simp add: view_def)
  have move: "\<exists>s' A'. Ret (goto i l s) = Ret s' \<and> table_inv holds P s' A' \<and> view s' A' = agoto i l (view s A)" if "l \<notin> {TakeWait, PutWait, SelfWait}" for l
    using plain [OF that, where f = "state_sema s" and n = "iter s"] by (simp add: view_def)
  have after: "\<exists>s' A'. bind_outcome (Ret s1) (\<lambda>s1. Ret (goto i l s1)) = Ret s' \<and> table_inv holds P s' A' \<and> view s' A' = agoto i l (view s1 A1)"
    if "l \<notin> {TakeWait, PutWait, SelfWait}" "table_inv holds P s1 A1" "\<forall>k. set (A1 k) \<subseteq> set (A k)" for l s1 A1
  proof -
    have "i \<notin> set (A1 m)" if "m \<le> phi_mutex" for m using q [OF that] \<open>\<forall>k. set (A1 k) \<subseteq> set (A k)\<close> by blast
    from goto_inv [OF that(2) this that(1), where f = "state_sema s1" and n = "iter s1"] show ?thesis by (intro exI [of _ "goto i l s1"] exI [of _ A1]) (simp add: view_goto)
  qed
  have test: "\<exists>s' A'. bind_outcome (phi_test_sema sc s j) (\<lambda>s1. Ret (goto i l s1)) = Ret s' \<and> table_inv holds P s' A' \<and> view s' A' = agoto i l (atest j (view s A))"
    if "j < PHI_N" "l \<notin> {TakeWait, PutWait, SelfWait}" for j l
  proof -
    from phi_test_ok [OF T that(1)] obtain s1 A1 where "phi_test_sema sc s j = Ret s1" "table_inv holds P s1 A1" "view s1 A1 = atest j (view s A)" "\<forall>k. set (A1 k) \<subseteq> set (A k)" by blast
    with after [OF that(2), of s1 A1] show ?thesis by simp
  qed
  have release: "\<exists>s' A'. bind_outcome (phi_up sc s phi_mutex) (\<lambda>s1. Ret (goto i l s1)) = Ret s' \<and> table_inv holds P s' A' \<and> view s' A' = agoto i l (aup phi_mutex (view s A))"
    if "l \<notin> {TakeWait, PutWait, SelfWait}" for l
  proof -
    from phi_up_ok [OF T order_refl] obtain s1 A1 where "phi_up sc s phi_mutex = Ret s1" "table_inv holds P s1 A1" "view s1 A1 = aup phi_mutex (view s A)" "\<forall>k. set (A1 k) \<subseteq> set (A k)" by blast
    with after [OF that, of s1 A1] show ?thesis by simp
  qed
  note D = phi_down_ok [OF T _ i q] and W = phi_woken_ok [OF T iN _ q]
  note defs = philosopher_using_semaphore_def phi_take_forks_sema_def phi_put_forks_sema_def astep_def view_goto(4)
  show ?thesis
  proof (cases "pc s i")
    case Loop
    then show ?thesis using plain [where l = Think and f = "state_sema s" and n = "(iter s)(i := iter s i + 1)"] plain [where l = Quit and f = "state_sema s" and n = "(iter s)(i := iter s i + 1)"]
      by (cases "iter s i < TIMES") (simp_all add: defs view_def)
  next
    case Think
    then show ?thesis using move [of TakeDown] by (simp add: defs)
  next
    case TakeDown
    then show ?thesis using D [OF order_refl, of TakeHungry TakeWait] by (auto simp: defs)
  next
    case TakeWait
    then show ?thesis using W [of TakeHungry phi_mutex] by (auto simp: defs view_goto)
  next
    case TakeHungry
    then show ?thesis using plain [where l = TakeTest and f = "(state_sema s)(i := HUNGRY)" and n = "iter s"] by (simp add: defs view_def)
  next
    case TakeTest
    then show ?thesis using test [OF iN, of TakeUp] by (simp add: defs)
  next
    case TakeUp
    then show ?thesis using release [of SelfDown] by (simp add: defs)
  next
    case SelfDown
    then show ?thesis using D [OF im, of Eat SelfWait] by (auto simp: defs)
  next
    case SelfWait
    then show ?thesis using W [of Eat i] by (auto simp: defs view_goto)
  next
    case Eat
    then show ?thesis using move [of PutDown] by (simp add: defs)
  next
    case PutDown
    then show ?thesis using D [OF order_refl, of PutThink PutWait] by (auto simp: defs)
  next
    case PutWait
    then show ?thesis using W [of PutThink phi_mutex] by (auto simp: defs view_goto)
  next
    case PutThink
    then show ?thesis using plain [where l = PutLeft and f = "(state_sema s)(i := THINKING)" and n = "iter s"] by (simp add: defs view_def)
  next
    case PutLeft
    then show ?thesis using test [OF sd(1), of PutRight] by (simp add: defs)
  next
    case PutRight
    then show ?thesis using test [OF sd(2), of PutUp] by (simp add: defs)
  next
    case PutUp
    then show ?thesis using release [of Loop] by (simp add: defs)
  next
    case Quit
    then show ?thesis using T by (auto simp: defs)
  qed
qed

lemma kernel_step_ok:
  assumes inv: "holds t (ready t)" and k: "kernel_step P sc t t'"
  shows "holds t' (ready t')" "state (procs t p) = PROC_SLEEPING \<Longrightarrow> wait_state (procs t p) = WT_KSEM \<Longrightarrow>
    state (procs t' p) = PROC_SLEEPING \<and> wait_state (procs t' p) = WT_KSEM"
proof -
  have "holds t' (ready t') \<and> (state (procs t p) = PROC_SLEEPING \<longrightarrow> wait_state (procs t p) = WT_KSEM \<longrightarrow>
    state (procs t' p) = PROC_SLEEPING \<and> wait_state (procs t' p) = WT_KSEM)"
    using k
  proof cases
    case switch
    then show ?thesis using schedule_ready [OF inv] by auto
  next
    case tick
    have "wait_state (procs t' p) = wait_state (procs t p)"
    proof (cases "current t = idleproc t")
      case False
      then show ?thesis using proc_tick_contract [OF inv, of "current t"] same_sched_wait [of t t'] tick by (simp add: sched_class_proc_tick_def)
    qed (simp add: tick sched_class_proc_tick_def)
    then show ?thesis using proc_tick_ready [OF inv] tick by simp
  next
    case (wake q)
    from wakeup_ready [OF inv wake(1)] wake(3) have w: "holds t' (ready t')" "\<And>r. r \<noteq> q \<Longrightarrow> same_proc (procs t r) (procs t' r)" by auto
    have "p \<noteq> q \<Longrightarrow> state (procs t' p) = state (procs t p) \<and> wait_state (procs t' p) = wait_state (procs t p)"
      using same_proc_state [OF w(2)] same_proc_wait [OF w(2)] by simp
    then show ?thesis using w(1) wake(2) by (cases "p = q") auto
  next
    case (sleep w)
    then show ?thesis using block_ready [OF inv, of "\<lambda>x. x\<lparr>state := PROC_SLEEPING, wait_state := w\<rparr>"] by auto
  next
    case (exit c)
    then show ?thesis using block_ready [OF inv, of "\<lambda>x. x\<lparr>state := PROC_ZOMBIE, exit_code := c\<rparr>"] by auto
  qed
  then show "holds t' (ready t')" "state (procs t p) = PROC_SLEEPING \<Longrightarrow> wait_state (procs t p) = WT_KSEM \<Longrightarrow>
    state (procs t' p) = PROC_SLEEPING \<and> wait_state (procs t' p) = WT_KSEM" by auto
qed

lemma kernel_ok:
  assumes T: "table_inv holds P s A" and k: "kernel_step P sc (sched (ksync s)) t"
  shows "table_inv holds P (s\<lparr>ksync := (ksync s)\<lparr>sched := t\<rparr>\<rparr>) A"
proof -
  have ok: "sync_ok {..phi_mutex} (ksync s) A" and inv: "holds (sched (ksync s)) (ready (sched (ksync s)))" and W: "waiting_ok P s A" using T by (simp_all add: table_inv_def)
  note K = kernel_step_ok [OF inv k]
  have "waiter_ok ((ksync s)\<lparr>sched := t\<rparr>) m w" if "waiter_ok (ksync s) m w" for m w using that K(2) by (auto simp: waiter_ok_def)
  then have "sync_ok {..phi_mutex} ((ksync s)\<lparr>sched := t\<rparr>) A" using ok unfolding sync_ok_def by auto
  then show ?thesis using K(1) W by (simp add: table_inv_def waiting_ok_def)
qed

lemma phi_run_inv:
  assumes "phi_run P sc s0 s" "table_inv holds P s0 A0" "ainv (view s0 A0)"
  shows "\<exists>A. table_inv holds P s A \<and> ainv (view s A)"
  using assms(1)
proof induction
  case start
  then show ?case using assms(2,3) by blast
next
  case (thread s i s')
  then obtain A where A: "table_inv holds P s A" "ainv (view s A)" by blast
  from thread_ok [OF A(1) thread(2)] thread(3) obtain A' where A': "table_inv holds P s' A'" "view s' A' = astep i (view s A) (iter s i < TIMES)" by auto
  have "\<not> aqueued (view s A) i" using running_free [OF A(1) thread(2)] by (simp add: aqueued_def view_def)
  then have "ainv (view s' A')" unfolding A'(2) using astep_inv [OF A(2)] thread(2) by (simp add: runs_phi_def)
  then show ?case using A'(1) by blast
next
  case (kernel s t)
  then obtain A where A: "table_inv holds P s A" "ainv (view s A)" by blast
  then show ?case using kernel_ok [OF A(1) kernel(2)] by (intro exI [of _ A]) (simp add: view_def)
qed

end

lemma phi_sems_sel: "sched (phi_sems n k) = sched k" "waits (phi_sems n k) = waits k" "sem_value (phi_sems n k) m = (if m < n then 0 else if m = phi_mutex then 1 else sem_value k m)"
  "m < n \<or> m = phi_mutex \<Longrightarrow> dlist (wait_links (phi_sems n k)) (QHead m) []"
proof (induction n)
  case 0
  { case 1 show ?case by (simp add: sem_init_def wait_queue_init_def) }
  { case 2 show ?case by (simp add: sem_init_def wait_queue_init_def) }
  { case 3 show ?case by (simp add: sem_init_def wait_queue_init_def) }
  { case 4 then show ?case by (simp add: sem_init_def wait_queue_init_def dlist_init) }
next
  case (Suc n)
  { case 1 show ?case using Suc by (simp add: sem_init_def wait_queue_init_def) }
  { case 2 show ?case using Suc by (simp add: sem_init_def wait_queue_init_def) }
  { case 3 show ?case using Suc by (simp add: sem_init_def wait_queue_init_def) }
  { case 4
    show ?case
    proof (cases "m = n")
      case True
      then show ?thesis by (simp add: sem_init_def wait_queue_init_def dlist_init)
    next
      case False
      then have d: "dlist (wait_links (phi_sems n k)) (QHead m) []" using Suc(4) 4 by auto
      show ?thesis by (rule dlist_frame [OF d]) (use False in \<open>auto simp: sem_init_def wait_queue_init_def list_init_def\<close>)
    qed }
qed

lemma check_sync_inv:
  assumes "rq_holds (sched k) (ready (sched k))"
  shows "table_inv rq_holds P (check_sync k) (\<lambda>_. [])" "ainv (view (check_sync k) (\<lambda>_. []))"
proof -
  have le: "m \<le> phi_mutex \<longleftrightarrow> m < PHI_N \<or> m = phi_mutex" for m by (auto simp: phi_mutex_def PHI_N_def)
  have "sync_ok {..phi_mutex} (phi_sems PHI_N k) (\<lambda>_. [])" using phi_sems_sel(4) [of _ PHI_N k] by (auto simp: sync_ok_def phi_sems_sel(3) le)
  then show "table_inv rq_holds P (check_sync k) (\<lambda>_. [])" using assms by (simp add: table_inv_def check_sync_def waiting_ok_def phi_sems_sel(1))
  show "ainv (view (check_sync k) (\<lambda>_. []))"
    by (simp add: ainv_def mutex_inv_def self_inv_def forks_inv_def served_inv_def inside_def crit_def blocked_def view_def check_sync_def phi_sems_sel(3) THINKING_def HUNGRY_def EATING_def phi_mutex_def PHI_N_def)
qed

lemma philosophers_inv:
  assumes "phi_run P default_sched_class (check_sync k) s" "rq_holds (sched k) (ready (sched k))"
  shows "\<exists>A. table_inv rq_holds P s A \<and> ainv (view s A)"
  by (rule stride.phi_run_inv [OF assms(1) check_sync_inv [OF assms(2)]])

subsection \<open>Properties\<close>

text \<open>A thread that sleeps in the queue of a semaphore.\<close>

definition phi_asleep :: "phi_table \<Rightarrow> nat \<Rightarrow> bool" where
  "phi_asleep s i \<longleftrightarrow> pc s i \<in> {TakeWait, PutWait, SelfWait} \<and> wait_in_queue (ksync s) i"

lemma asleep_queued:
  assumes T: "table_inv rq_holds P s A" and i: "i < PHI_N"
  shows "phi_asleep s i \<longleftrightarrow> aqueued (view s A) i"
proof -
  have ok: "sync_ok {..phi_mutex} (ksync s) A" and W: "waiting_ok P s A" using T by (simp_all add: table_inv_def)
  have q: "aqueued (view s A) i \<longleftrightarrow> (\<exists>m \<le> phi_mutex. i \<in> set (A m))" by (simp add: aqueued_def view_def)
  show ?thesis
  proof (cases "\<exists>m \<le> phi_mutex. i \<in> set (A m)")
    case True
    then obtain m where m: "m \<le> phi_mutex" "i \<in> set (A m)" by blast
    then obtain us vs where "A m = us @ i # vs" by (meson split_list)
    then have "\<not> list_empty (wait_links (ksync s)) (WLink i)" using sync_okD(1) [OF ok, of m] m(1) not_empty_in_ring [of _ _ "map WLink us" "WLink i" "map WLink vs"] by simp
    then show ?thesis using True q waiting_okD(1) [OF W m] by (simp add: phi_asleep_def wait_in_queue_def)
  next
    case False
    then show ?thesis using q waiting_okD(3) [OF W i] by (auto simp: phi_asleep_def wait_in_queue_def)
  qed
qed

lemma phi_step_boot:
  assumes "phi_run Suc default_sched_class s0 s" "sched (ksync s) = sched one_sem" "philosopher_using_semaphore default_sched_class s 0 = Ret s'"
  shows "phi_run Suc default_sched_class s0 s'"
proof (rule phi_run.thread [OF assms(1) _ assms(3)])
  show "runs_phi Suc s 0" using one_sem_ok(3) assms(2) by (simp add: runs_phi_def PHI_N_def one_sem_def sem_init_def wait_queue_init_def)
qed

lemma boot_first: "m \<le> phi_mutex \<Longrightarrow> wait_queue_first ((phi_sems PHI_N k)\<lparr>sem_value := f\<rparr>) m = None"
proof -
  assume "m \<le> phi_mutex"
  then have "m < PHI_N \<or> m = phi_mutex" by (auto simp: phi_mutex_def PHI_N_def)
  from dlist_next_head [OF phi_sems_sel(4) [OF this, of k]] show ?thesis by (simp add: wait_queue_first_def wait_of_def)
qed

lemma boot_up: "m \<le> phi_mutex \<Longrightarrow> up sc ((phi_sems PHI_N k)\<lparr>sem_value := f\<rparr>) m = Ret ((phi_sems PHI_N k)\<lparr>sem_value := f(m := f m + 1)\<rparr>)"
  using boot_first by (simp add: up_def up_with_def)

text \<open>Philosopher 0 runs alone until it eats.\<close>

lemma phi_eats:
  obtains s where "phi_run Suc default_sched_class (check_sync one_sem) s" "pc s 0 = Eat" "pc s 1 = Loop"
proof -
  let ?k = "phi_sems PHI_N one_sem"
  define t :: "(nat \<Rightarrow> int) \<Rightarrow> (nat \<Rightarrow> int) \<Rightarrow> place \<Rightarrow> phi_table" where
    "t f v l = \<lparr>ksync = ?k\<lparr>sem_value := f\<rparr>, state_sema = v, pc = (\<lambda>_. Loop)(0 := l), iter = (\<lambda>_. 0)(0 := 1)\<rparr>" for f v l
  let ?f = "sem_value ?k" and ?v = "\<lambda>_. 0 :: int"
  have f: "?f phi_mutex = 1" "?f 0 = 0" by (simp_all add: phi_sems_sel(3) phi_mutex_def PHI_N_def)
  have u: "phi_mutex \<noteq> 0" "0 \<noteq> phi_mutex" "0 \<le> phi_mutex" "phi_mutex \<le> phi_mutex" by (simp_all add: phi_mutex_def)
  note defs = philosopher_using_semaphore_def phi_take_forks_sema_def phi_put_forks_sema_def
  have e0: "0 < PHI_N" "(0 :: int) \<noteq> EATING" by (simp_all add: PHI_N_def EATING_def)
  have sc: "sched (ksync (t f v l)) = sched one_sem" for f v l by (simp add: t_def phi_sems_sel(1))
  have s1: "philosopher_using_semaphore sc (check_sync one_sem) 0 = Ret (t ?f ?v Think)" for sc
    by (simp add: defs check_sync_def t_def TIMES_def fun_eq_iff)
  have s2: "philosopher_using_semaphore sc (t ?f ?v Think) 0 = Ret (t ?f ?v TakeDown)" for sc by (simp add: defs t_def)
  have s3: "philosopher_using_semaphore sc (t ?f ?v TakeDown) 0 = Ret (t (?f(phi_mutex := 0)) ?v TakeHungry)" for sc
    by (simp add: defs t_def phi_down_def down_def down_enter_def f)
  have s4: "philosopher_using_semaphore sc (t g ?v TakeHungry) 0 = Ret (t g (?v(0 := HUNGRY)) TakeTest)" for sc g by (simp add: defs t_def)
  have s5: "philosopher_using_semaphore sc (t g (?v(0 := HUNGRY)) TakeTest) 0 = Ret (t (g(0 := g 0 + 1)) (?v(0 := EATING)) TakeUp)" for sc g
    using sides(3,4) [of 0] e0 by (simp add: defs t_def phi_test_sema_def phi_up_def boot_up u)
  have s6: "philosopher_using_semaphore sc (t g v TakeUp) 0 = Ret (t (g(phi_mutex := g phi_mutex + 1)) v SelfDown)" for sc g v
    by (simp add: defs t_def phi_up_def boot_up u)
  have s7: "philosopher_using_semaphore sc (t g v SelfDown) 0 = Ret (t (g(0 := g 0 - 1)) v Eat)" if "g 0 > 0" for sc g v
    using that by (simp add: defs t_def phi_down_def down_def down_enter_def)
  note go = phi_step_boot [of "check_sync one_sem"]
  have r1: "phi_run Suc default_sched_class (check_sync one_sem) (t ?f ?v Think)" by (rule go [OF phi_run.start _ s1]) (simp add: check_sync_def phi_sems_sel(1))
  note r2 = go [OF r1 sc s2]
  note r3 = go [OF r2 sc s3]
  note r4 = go [OF r3 sc s4]
  note r5 = go [OF r4 sc s5]
  note r6 = go [OF r5 sc s6]
  have "phi_run Suc default_sched_class (check_sync one_sem) (t ((?f(phi_mutex := 0, 0 := (?f(phi_mutex := 0)) 0 + 1, phi_mutex := (?f(phi_mutex := 0, 0 := (?f(phi_mutex := 0)) 0 + 1)) phi_mutex + 1))
     (0 := (?f(phi_mutex := 0, 0 := (?f(phi_mutex := 0)) 0 + 1, phi_mutex := (?f(phi_mutex := 0, 0 := (?f(phi_mutex := 0)) 0 + 1)) phi_mutex + 1)) 0 - 1)) (?v(0 := EATING)) Eat)"
    by (rule go [OF r6 sc s7]) (simp add: f u)
  then show ?thesis by (rule that) (simp_all add: t_def)
qed

text \<open>C4: Under any interleaving of the five threads with each other and with the rest of the kernel, two neighbours are never past
  their \<open>phi_take_forks_sema\<close> together, and at most one thread is between its \<open>down\<close> and its \<open>up\<close> of the mutex.\<close>

theorem philosophers_apart:
  assumes "phi_run P default_sched_class (check_sync k) s" "rq_holds (sched k) (ready (sched k))"
  shows "(\<forall>i < PHI_N. \<not> (pc s i = Eat \<and> pc s (RIGHT i) = Eat)) \<and>
     (\<forall>i < PHI_N. \<forall>j < PHI_N. pc s i \<in> crit \<and> pc s j \<in> crit \<longrightarrow> i = j)"
proof -
  obtain A where A: "ainv (view s A)" using philosophers_inv [OF assms] by blast
  then have "mutex_inv (view s A)" by (simp add: ainv_def)
  then show ?thesis using eat_apart [OF A] mutexD(6) [of "view s A"] by (simp add: view_def inside_def)
qed

theorem philosophers_apart_witness:
  "\<exists>s. phi_run Suc default_sched_class (check_sync one_sem) s \<and> pc s 0 = Eat \<and> pc s (RIGHT 0) \<noteq> Eat"
proof -
  obtain s where s: "phi_run Suc default_sched_class (check_sync one_sem) s" "pc s 0 = Eat" using phi_eats by metis
  from conjunct1 [OF philosophers_apart [OF s(1) one_sem_ok(2)]] have "\<not> (pc s 0 = Eat \<and> pc s (RIGHT 0) = Eat)" by (simp add: PHI_N_def)
  then show ?thesis using s by blast
qed

text \<open>C14: The running thread's next call never fails an assertion, and the philosophers never block each other for good: while one of them
  sleeps on a semaphore, another one that has not finished sleeps on none.\<close>

theorem philosophers_no_deadlock:
  assumes "phi_run P default_sched_class (check_sync k) s" "rq_holds (sched k) (ready (sched k))"
  shows "(\<forall>i. runs_phi P s i \<longrightarrow> (\<exists>s'. philosopher_using_semaphore default_sched_class s i = Ret s')) \<and>
     ((\<exists>i < PHI_N. phi_asleep s i) \<longrightarrow> (\<exists>j < PHI_N. \<not> phi_asleep s j \<and> pc s j \<noteq> Quit))"
proof -
  obtain A where A: "table_inv rq_holds P s A" "ainv (view s A)" using philosophers_inv [OF assms] by blast
  have "\<exists>j < PHI_N. \<not> phi_asleep s j \<and> pc s j \<noteq> Quit" if "i < PHI_N" "phi_asleep s i" for i
    using no_deadlock [OF A(2) that(1)] asleep_queued [OF A(1)] that by (auto simp: view_def)
  then show ?thesis using stride.thread_ok [OF A(1)] by blast
qed

theorem philosophers_no_deadlock_witness:
  "\<exists>s s'. phi_run Suc default_sched_class (check_sync one_sem) s \<and> pc s 0 = Loop \<and> philosopher_using_semaphore default_sched_class s 0 = Ret s'"
proof -
  have "runs_phi Suc (check_sync one_sem) 0"
    using one_sem_ok(3) by (simp add: runs_phi_def PHI_N_def check_sync_def phi_sems_sel(1)) (simp add: one_sem_def sem_init_def wait_queue_init_def)
  from conjunct1 [OF philosophers_no_deadlock [OF phi_run.start one_sem_ok(2)], rule_format, OF this]
  show ?thesis using phi_run.start [of Suc default_sched_class "check_sync one_sem"] by (auto simp: check_sync_def)
qed

end
