(* ===== verification/Monitor.thy ===== *)
theory Monitor
  imports Philosophers
begin

text \<open>
  Monitors with condition variables (\<^verbatim>\<open>kern/sync/monitor.c\<close>) and the dining philosophers on a monitor
  (\<^verbatim>\<open>check_sync.c\<close>). As for the semaphores, a routine that may sleep is split behind its calls of \<open>down\<close>, and a thread may
  be interrupted between any two calls.
\<close>

subsection \<open>monitor.c\<close>
















subsection \<open>The philosophers\<close>













subsection \<open>Counts and forks\<close>
























subsection \<open>Properties\<close>



end
