(* ===== verification/Spec2Isabelle.thy ===== *)
theory Spec2Isabelle
  imports CStrings Printf DList SkewHeap StrideSched Sched Timers DefaultPmm Sync Bitmap Vma Swapping Devices Processes SfsFs SfsFiles KernelHeap Monitor
begin

text \<open>
  A verification of the ucore teaching kernel, the complete one under \<^verbatim>\<open>src/code/lab8_result\<close>: a
  kernel for one x86 processor with processes, demand-paged address spaces, swapping, semaphores,
  timers and a virtual file system.

  \<^bold>\<open>The parts and how they interact.\<close> Processes (\<^verbatim>\<open>kern/process\<close>) are queued by a scheduling class
  (\<^verbatim>\<open>kern/schedule\<close>), which keeps them in a skew heap by stride. They sleep on timers, on semaphores and
  wait queues (\<^verbatim>\<open>kern/sync\<close>) and in \<open>do_wait\<close>, and are woken by \<open>wakeup_proc\<close>. Their address spaces
  (\<^verbatim>\<open>kern/mm\<close>) are lists of areas over two-level page tables in frames from a page allocator; a page
  fault allocates or swaps in. Descriptor tables (\<^verbatim>\<open>kern/fs\<close>) hold counted references to inodes, whose
  operations go through tables of function pointers to the device files and to the simple file system
  (\<^verbatim>\<open>kern/fs/sfs\<close>) on the disk. Exit gives all of it back.

  \<^bold>\<open>Conventions.\<close> A C object is a record in a store indexed by a number that stands for its address,
  a null pointer is \<open>None\<close>; list nodes embedded in objects have a store of links of their own, with one
  constructor for the heads and one for the members. \<open>'a outcome\<close> is \<open>Ret\<close> or \<open>Panic\<close>: a failed
  assertion, \<open>panic\<close>, the use of a null pointer, and a call that would block for ever. 32-bit
  integers are words where they wrap, and addresses of user memory always are. Blocks from
  \<open>kmalloc\<close> are arguments of the components that call it: the address that the call returns, or \<open>None\<close>; the heap itself is modelled
  in \<open>Kmalloc\<close>. Interrupts are off inside the
  routines that the source brackets with \<open>local_intr_save\<close>, so such a routine is one step. A call of
  \<open>schedule\<close> ends the model of the calling routine; what follows when the process runs again is a definition
  of its own (\<open>do_wait_again\<close>, \<open>do_sleep_end\<close>, the second half of \<open>__down\<close>).

  \<^bold>\<open>Loops.\<close> Loops over counters are structural recursions. A loop that stops only because of the data
  (scans of rings and chains, \<open>get_pid\<close>, \<open>strlen\<close>, \<open>move_children\<close>) is a \<open>partial_function\<close> into \<open>option\<close>, where
  not ending is \<open>None\<close>; the lemmas show that it ends on well-formed data. No fuel is used.

  \<^bold>\<open>Libraries.\<close>

  \<^item> \<open>Prelude\<close>: machine types, error codes, outcomes, shared lemmas.
  \<^item> \<open>CStrings\<close>: \<^verbatim>\<open>libs/string.c\<close> and the assembly versions of \<^verbatim>\<open>libs/x86.h\<close> over byte-addressed memory;
    overlap, termination and order.
  \<^item> \<open>Printf\<close>: \<^verbatim>\<open>libs/printfmt.c\<close> and \<^verbatim>\<open>libs/rand.c\<close> with the 64-bit division \<open>do_div\<close>; what is printed equals a text
    defined by the format alone, numbers can be read back, and \<open>vsnprintf\<close> stays inside its buffer.
  \<^item> \<open>DList\<close>: \<^verbatim>\<open>libs/list.h\<close>; the locale of rings, interpreted on the links, and the scan loop.
  \<^item> \<open>SkewHeap\<close>: \<^verbatim>\<open>libs/skew_heap.h\<close> pointer by pointer; a heap in memory is a tree, merge, insert and
    remove keep shape, order and contents.

  \<^bold>\<open>Scheduling.\<close>

  \<^item> \<open>ProcTypes\<close>, \<open>StrideSched\<close>: the process block and \<^verbatim>\<open>default_sched.c\<close>; wrapping strides
    stay comparable, the least one is picked.
  \<^item> \<open>Sched\<close>: \<^verbatim>\<open>sched.c\<close> over the locale \<open>sched_class_contract\<close>, which the stride class satisfies; in every
    reachable state the run queue holds exactly the runnable processes, and \<open>schedule\<close> runs one.
  \<^item> \<open>Timers\<close>: the list of time differences refines a sorted list of absolute times.
  \<^item> \<open>Sync\<close>: \<^verbatim>\<open>wait.c\<close>, \<^verbatim>\<open>sem.c\<close>; a semaphore refines a counter with a first-in first-out queue.
  \<^item> \<open>Philosophers\<close>: the threads of \<^verbatim>\<open>check_sync.c\<close> as a step relation, interrupted between any two calls. The steps refine
    the same protocol on abstract semaphores, whose invariant gives mutual exclusion and freedom from deadlock.
  \<^item> \<open>Monitor\<close>: \<^verbatim>\<open>monitor.c\<close> and the philosophers on a monitor; its counts are exact and neighbours never eat together.
    That its semaphores hand over the monitor to one thread at a time is not proved.

  \<^bold>\<open>Memory.\<close>

  \<^item> \<open>DefaultPmm\<close>: \<^verbatim>\<open>default_pmm.c\<close> refines first fit on a list of blocks; no page is lost or
    handed out twice in any sequence of calls.
  \<^item> \<open>Vma\<close>: the areas of \<^verbatim>\<open>vmm.c\<close>; sorted, disjoint, exact look-up and user-range check.
  \<^item> \<open>Ide\<close>: the requests of \<^verbatim>\<open>ide.c\<close> against a drive that decodes the registers.
  \<^item> \<open>Paging\<close>, \<open>PageTables\<close>, \<open>AddressSpace\<close>, \<open>Swapping\<close>: \<^verbatim>\<open>pmm.c\<close>, \<^verbatim>\<open>swap.c\<close>, \<^verbatim>\<open>swap_fifo.c\<close>, \<^verbatim>\<open>swapfs.c\<close> and the
    rest of \<^verbatim>\<open>vmm.c\<close> over the locale \<open>frame_allocator\<close>; reference counts equal mappings, the translation
    cache agrees with the tables, a fault is resolved exactly when an area allows it, and a page that
    was swapped out comes back.

  \<^item> \<open>Kmalloc\<close>: the kernel heap of \<^verbatim>\<open>kmalloc.c\<close>, a ring of free blocks over the page allocator. The loops are
    \<open>partial_function (option)\<close>; that they end is part of the lemmas.
  \<^item> \<open>Slob\<close>, \<open>KHeap\<close>, \<open>KernelHeap\<close>: the ring as a sorted list of blocks, the division of memory among free pages,
    free heap memory and blocks in use, and every sequence of \<open>kmalloc\<close> and \<open>kfree\<close>: blocks in use are
    disjoint and can be released, nothing is lost, small requests are served while a page is free.

  \<^bold>\<open>Files.\<close>

  \<^item> \<open>Bitmap\<close>: \<^verbatim>\<open>sfs/bitmap.c\<close>.
  \<^item> \<open>Inode\<close>, \<open>Vfs\<close>, \<open>Files\<close>: \<^verbatim>\<open>iobuf.c\<close>, \<^verbatim>\<open>vfs/*.c\<close>, \<^verbatim>\<open>file.c\<close>, \<^verbatim>\<open>fs.c\<close>.
  \<^item> \<open>FileTables\<close>: over the locale \<open>vnode_ops\<close>, counts of inodes equal the descriptors and directories
    that hold them, so closing never fails an assertion.
  \<^item> \<open>Devices\<close>: \<^verbatim>\<open>devs/*.c\<close>; the interpretation of \<open>vnode_ops\<close>, and the keyboard buffer as a queue.
  \<^item> \<open>SfsIo\<close>, \<open>Sfs\<close>, \<open>SfsFs\<close>: \<^verbatim>\<open>sfs.h\<close>, \<^verbatim>\<open>sfs_io.c\<close>, \<^verbatim>\<open>sfs_lock.c\<close>, \<^verbatim>\<open>sfs_inode.c\<close>, \<^verbatim>\<open>sfs_fs.c\<close>, \<^verbatim>\<open>sfs.c\<close> on top of the disk
    device: block maps, directories, reading, writing, resizing, mounting.
  \<^item> \<open>SfsDisk\<close>, \<open>SfsFile\<close>, \<open>SfsData\<close>, \<open>SfsFiles\<close>: the disk as blocks of bytes, the block maps of files, the locale
    \<open>block_transfer\<close> of transfers cut at block boundaries, interpreted for reading and for writing, and
    files as byte lists: a write replaces a slice, a read returns one, other files do not change.

  \<^bold>\<open>Processes.\<close>

  \<^item> \<open>ProcTable\<close>, \<open>ProcTree\<close>: numbers, lists, hash lists and tree of \<^verbatim>\<open>proc.c\<close>; \<open>get_pid\<close> ends.
  \<^item> \<open>Process\<close>: the operations on the whole kernel state, a record of process table, memory and file system.
  \<^item> \<open>ProcLife\<close>, \<open>ProcExit\<close>, \<open>Processes\<close>: fork, exit and wait keep table, tree, run queue, memory and
    descriptor tables well formed together, and what a process held is free at the end.

  \<^bold>\<open>Not modelled.\<close> The boot loader and the set-up of segments and of the first page tables; the drivers
  that only touch hardware (console, interrupt controller, clock, probing of disks); trap entry and
  dispatch and the table of system calls;
  \<open>do_execve\<close> and \<open>load_icode\<close>; the console's \<open>printf\<close> and line editor, the debugger and its command line;
  the kernel's self-tests; the user programs and the tools that build the image. The second, older
  copy of the kernel (\<^verbatim>\<open>src/code/lab4-spoc-discuss\<close>) repeats parts of this one.
\<close>

end
